(* ===== verification/CatPrelude.thy ===== *)
theory CatPrelude
  imports Main "HOL-Library.Word" "HOL-Library.Multiset"
begin

text \<open>
  The vocabulary every component of the development shares: machine types, the outcome of a
  C call, bounds-checked block reads and writes, and generic facts on lists and words.

  A C function that can stop the program is modelled by a result of type \<open>'a outcome\<close>:
  \<open>Ok v\<close> is a normal return, \<open>Abort\<close> a failed \<open>abort_unless\<close> (include/cat/cat.h), and
  \<open>Fault\<close> an access outside the object a pointer points into.  Nothing in the model
  reads a value that the program does not own.
\<close>

unbundle bit_operations_syntax

named_theorems outcome_simps \<open>evaluation rules of the outcome type\<close>

section \<open>Machine types\<close>

type_synonym byte = "8 word"
type_synonym u16 = "16 word"
type_synonym u32 = "32 word"
type_synonym u64 = "64 word"

section \<open>Outcomes of calls\<close>

datatype 'a outcome = Ok 'a | Abort | Fault

definition obind :: "'a outcome \<Rightarrow> ('a \<Rightarrow> 'b outcome) \<Rightarrow> 'b outcome" where
  "obind m f = (case m of Ok a \<Rightarrow> f a | Abort \<Rightarrow> Abort | Fault \<Rightarrow> Fault)"

definition abort_unless :: "bool \<Rightarrow> 'a outcome \<Rightarrow> 'a outcome" where
  "abort_unless b m = (if b then m else Abort)"

lemma obind_simps [simp, outcome_simps]:
  "obind (Ok a) f = f a" "obind Abort f = Abort" "obind Fault f = Fault"
  by (simp_all add: obind_def)

lemma abort_unless_simps [simp, outcome_simps]:
  "abort_unless True m = m" "abort_unless False m = Abort"
  by (simp_all add: abort_unless_def)

lemma obind_eq_Ok [outcome_simps]:
  "obind m f = Ok b \<longleftrightarrow> (\<exists>a. m = Ok a \<and> f a = Ok b)"
  by (cases m) auto

lemma abort_unless_eq_Ok [outcome_simps]:
  "abort_unless b m = Ok a \<longleftrightarrow> b \<and> m = Ok a"
  by (cases b) auto

section \<open>Blocks of memory\<close>

text \<open>
  An object is a list of its cells.  \<open>block_read\<close> and \<open>block_write\<close> are what \<open>memcpy\<close>
  does to a source and a destination: outside the object they fault.
\<close>

definition block_read :: "'a list \<Rightarrow> nat \<Rightarrow> nat \<Rightarrow> 'a list outcome" where
  "block_read m off n = (if off + n \<le> length m then Ok (take n (drop off m)) else Fault)"

definition block_write :: "'a list \<Rightarrow> nat \<Rightarrow> 'a list \<Rightarrow> 'a list outcome" where
  "block_write m off xs =
     (if off + length xs \<le> length m
      then Ok (take off m @ xs @ drop (off + length xs) m) else Fault)"

lemma block_read_Ok [simp]:
  "off + n \<le> length m \<Longrightarrow> block_read m off n = Ok (take n (drop off m))"
  by (simp add: block_read_def)

lemma block_write_Ok [simp]:
  "off + length xs \<le> length m \<Longrightarrow>
   block_write m off xs = Ok (take off m @ xs @ drop (off + length xs) m)"
  by (simp add: block_write_def)

lemma nth_block_write:
  assumes "off + length xs \<le> length m" "j < length m"
  shows "(take off m @ xs @ drop (off + length xs) m) ! j =
    (if off \<le> j \<and> j < off + length xs then xs ! (j - off) else m ! j)"
  using assms by (auto simp: nth_append min_def not_less intro!: arg_cong [where f = "(!) m"])

text \<open>One cell: \<open>xs[i]\<close> read, and assigned.\<close>

definition cell :: "'a list \<Rightarrow> nat \<Rightarrow> 'a outcome" where
  "cell xs i = (if i < length xs then Ok (xs ! i) else Fault)"

definition set_cell :: "'a list \<Rightarrow> nat \<Rightarrow> 'a \<Rightarrow> 'a list outcome" where
  "set_cell xs i v = (if i < length xs then Ok (xs[i := v]) else Fault)"

lemma cell_Ok [simp]: "i < length xs \<Longrightarrow> cell xs i = Ok (xs ! i)" "i < length xs \<Longrightarrow> set_cell xs i v = Ok (xs[i := v])"
  by (simp_all add: cell_def set_cell_def)

lemma unat_byte_less: "unat (c :: byte) < 256"
proof -
  have "unat c < 2 ^ LENGTH(8)" by (rule unsigned_less)
  then show ?thesis by simp
qed

section \<open>Exchanging two cells\<close>

definition aswap :: "'a list \<Rightarrow> nat \<Rightarrow> nat \<Rightarrow> 'a list" where
  "aswap xs i j = xs[i := xs ! j, j := xs ! i]"

lemma length_aswap [simp]: "length (aswap xs i j) = length xs"
  by (simp add: aswap_def)

lemma mset_aswap [simp]: "i < length xs \<Longrightarrow> j < length xs \<Longrightarrow> mset (aswap xs i j) = mset xs"
  by (rule mset_swap [of j xs i, unfolded list_update_swap, symmetric, THEN sym, folded aswap_def])

lemma nth_aswap:
  "i < length xs \<Longrightarrow> j < length xs \<Longrightarrow>
   aswap xs i j ! k = (if k = i then xs ! j else if k = j then xs ! i else xs ! k)"
  by (auto simp: aswap_def nth_list_update)

section \<open>Comparison functions\<close>

text \<open>
  The contract of a \<open>cmp_f\<close>: its sign orders its arguments as a total preorder.  Sorting, the
  heap, the trees and the hash tables rely on nothing else.
\<close>

locale cmp_order =
  fixes cmp :: "'a \<Rightarrow> 'a \<Rightarrow> int"
  assumes cmp_swap: "cmp x y > 0 \<longleftrightarrow> cmp y x < 0"
    and cmp_trans: "cmp x y \<le> 0 \<Longrightarrow> cmp y z \<le> 0 \<Longrightarrow> cmp x z \<le> 0"
begin

definition le :: "'a \<Rightarrow> 'a \<Rightarrow> bool" where "le x y \<longleftrightarrow> cmp x y \<le> 0"

lemma le_trans: "le x y \<Longrightarrow> le y z \<Longrightarrow> le x z"
  unfolding le_def by (rule cmp_trans)

lemma le_total: "le x y \<or> le y x"
  using cmp_swap [of x y] cmp_swap [of y x] by (auto simp: le_def)

lemma le_refl [simp]: "le x x"
  using le_total [of x x] by simp

lemma not_le: "\<not> le x y \<Longrightarrow> le y x"
  using le_total by blast

lemma cmp_sign:
  "cmp x y > 0 \<longleftrightarrow> \<not> le x y" "cmp x y \<le> 0 \<longleftrightarrow> le x y" "cmp x y < 0 \<longleftrightarrow> \<not> le y x" "cmp x y \<ge> 0 \<longleftrightarrow> le y x"
  using cmp_swap [of x y] cmp_swap [of y x] by (auto simp: le_def)

lemma cmp_zero: "cmp x y = 0 \<longleftrightarrow> le x y \<and> le y x"
  using cmp_sign(2,4) [of x y] by linarith

lemma cmp_refl [simp]: "cmp x x = 0"
  by (simp add: cmp_zero)

lemma transp_le: "transp le"
  using le_trans by (auto simp: transp_def)

end

lemma cmp_order_flip: "cmp_order cmp \<Longrightarrow> cmp_order (\<lambda>x y. cmp y x)"
  unfolding cmp_order_def by (metis linorder_not_less)

section \<open>Bits of words\<close>

text \<open>
  A bit of a shift-and-mask expression, as a condition on bits of its operands.  With a literal
  bit number the condition simplifies to one bit, so an identity of 8- or 32-bit words is checked
  position by position (\<open>ball_bits8\<close>, \<open>ball_bits32\<close>).
\<close>

lemmas bit_word_simps = bit_or_iff bit_and_iff bit_xor_iff bit_drop_bit_eq bit_push_bit_iff o_def

lemma bit_word_of_nat: "bit (of_nat n :: 'w::len word) i \<longleftrightarrow> i < LENGTH('w) \<and> bit n i"
  by transfer (simp add: bit_take_bit_iff bit_of_nat_iff)

lemma all_less_Suc_conj: "(\<forall>n < Suc k. P n) \<longleftrightarrow> (\<forall>n < k. P n) \<and> P k"
  by (auto simp: less_Suc_eq)

lemma ball_bits8: "(\<forall>n < (8 :: nat). P n) \<longleftrightarrow> P 0 \<and> P 1 \<and> P 2 \<and> P 3 \<and> P 4 \<and> P 5 \<and> P 6 \<and> P 7"
  by (simp only: numeral_eq_Suc all_less_Suc_conj pred_numeral_simps BitM.simps not_less_zero
      simp_thms One_nat_def conj_assoc)

lemma ball_bits32: "(\<forall>n < (32 :: nat). P n) \<longleftrightarrow> P 0 \<and> P 1 \<and> P 2 \<and> P 3 \<and> P 4 \<and> P 5 \<and> P 6 \<and> P 7
    \<and> P 8 \<and> P 9 \<and> P 10 \<and> P 11 \<and> P 12 \<and> P 13 \<and> P 14 \<and> P 15
    \<and> P 16 \<and> P 17 \<and> P 18 \<and> P 19 \<and> P 20 \<and> P 21 \<and> P 22 \<and> P 23
    \<and> P 24 \<and> P 25 \<and> P 26 \<and> P 27 \<and> P 28 \<and> P 29 \<and> P 30 \<and> P 31"
  by (simp only: numeral_eq_Suc all_less_Suc_conj pred_numeral_simps BitM.simps not_less_zero
      simp_thms One_nat_def conj_assoc)

section \<open>Messages in blocks\<close>

text \<open>
  A digest runs a function over the whole blocks of a message and keeps the bytes after them.
  \<open>blocks_more\<close> and \<open>tail_more\<close> say what feeding up to the end of the open block does.
\<close>

fun over_blocks :: "nat \<Rightarrow> ('a list \<Rightarrow> 's \<Rightarrow> 's) \<Rightarrow> 'a list \<Rightarrow> 's \<Rightarrow> 's" where
  "over_blocks B f bs s =
     (if B = 0 \<or> length bs < B then s else over_blocks B f (drop B bs) (f (take B bs) s))"

declare over_blocks.simps [simp del]

definition block_tail :: "nat \<Rightarrow> 'a list \<Rightarrow> 'a list" where
  "block_tail B bs = drop (B * (length bs div B)) bs"

lemma over_blocks_short [simp]: "length bs < B \<Longrightarrow> over_blocks B f bs s = s"
  by (simp add: over_blocks.simps)

lemma over_blocks_one: "length bs = B \<Longrightarrow> 0 < B \<Longrightarrow> over_blocks B f bs s = f bs s"
  by (subst over_blocks.simps) simp

lemma over_blocks_append:
  "0 < B \<Longrightarrow> B dvd length xs \<Longrightarrow> over_blocks B f (xs @ ys) s = over_blocks B f ys (over_blocks B f xs s)"
proof (induction B f xs s rule: over_blocks.induct)
  case (1 B f bs s)
  show ?case
  proof (cases "B = 0 \<or> length bs < B")
    case True
    then have "bs = []" using 1 by (auto dest: dvd_imp_le)
    then show ?thesis using 1 by simp
  next
    case False
    then have "B dvd length (drop B bs)" using 1 by (simp add: dvd_diff_nat)
    then show ?thesis using False 1(1,2)
      by (simp add: over_blocks.simps [of B f "bs @ ys"] over_blocks.simps [of B f bs])
  qed
qed

lemma length_block_tail: "length (block_tail B bs) = length bs mod B"
  by (simp add: block_tail_def minus_mult_div_eq_mod)

lemma block_tail_split: "bs = take (B * (length bs div B)) bs @ block_tail B bs"
  by (simp add: block_tail_def)

lemma dvd_block_front: "B dvd length (take (B * (length bs div B)) bs)"
proof -
  have "length (take (B * (length bs div B)) bs) = B * (length bs div B)"
    by (simp only: length_take min.absorb2 [OF times_div_less_eq_dividend])
  then show ?thesis by simp
qed

lemma over_blocks_tail:
  assumes "0 < B"
  shows "over_blocks B f (take (B * (length bs div B)) bs) s = over_blocks B f bs s"
proof -
  have "over_blocks B f bs s = over_blocks B f (block_tail B bs) (over_blocks B f (take (B * (length bs div B)) bs) s)"
    by (subst (1) block_tail_split [of bs B], rule over_blocks_append [OF assms dvd_block_front])
  then show ?thesis using assms by (simp add: length_block_tail)
qed

lemma blocks_more:
  assumes "length (block_tail B bs) + length x \<le> B" "0 < B"
  shows "over_blocks B f (bs @ x) s =
     (if length (block_tail B bs) + length x = B then f (block_tail B bs @ x) (over_blocks B f bs s)
      else over_blocks B f bs s)"
proof -
  let ?p = "take (B * (length bs div B)) bs"
  have "over_blocks B f (bs @ x) s = over_blocks B f (?p @ block_tail B bs @ x) s"
    using block_tail_split [of bs B] by (metis append.assoc)
  also have "\<dots> = over_blocks B f (block_tail B bs @ x) (over_blocks B f bs s)"
    by (subst over_blocks_append [OF assms(2) dvd_block_front]) (simp add: over_blocks_tail assms(2))
  finally show ?thesis using assms by (auto simp: over_blocks_one)
qed

lemma tail_more:
  assumes "length (block_tail B bs) + length x \<le> B" "0 < B"
  shows "block_tail B (bs @ x) = (if length (block_tail B bs) + length x = B then [] else block_tail B bs @ x)"
proof -
  have l: "length bs = B * (length bs div B) + length (block_tail B bs)" by (simp add: length_block_tail)
  show ?thesis
  proof (cases "length (block_tail B bs) + length x = B")
    case True
    then have "length (bs @ x) = B * (length bs div B + 1)" using l by (simp add: algebra_simps)
    then have "B * (length (bs @ x) div B) = length (bs @ x)" using assms(2) by simp
    then show ?thesis using True by (simp add: block_tail_def)
  next
    case False
    then have "length (bs @ x) div B = length bs div B" using l assms by (intro div_nat_eqI) (auto simp: algebra_simps)
    then show ?thesis using False by (simp add: block_tail_def)
  qed
qed

section \<open>Digests fed in pieces\<close>

text \<open>
  The contract of a checksum or digest that a client feeds chunk by chunk.  \<open>view\<close> is what a
  later call can observe of the state.  Under it the client may cut its message anywhere.
\<close>

locale stream_hash =
  fixes step :: "'h \<Rightarrow> 'a list \<Rightarrow> 'h"
    and view :: "'h \<Rightarrow> 'v"
    and valid :: "'h \<Rightarrow> bool"
  assumes valid_step: "valid h \<Longrightarrow> valid (step h xs)"
    and step_append: "valid h \<Longrightarrow> view (step (step h xs) ys) = view (step h (xs @ ys))"
begin

lemma chunks:
  "valid h \<Longrightarrow> view (fold (\<lambda>c h. step h c) (c # cs) h) = view (step h (c @ concat cs))"
proof (induction cs arbitrary: c h)
  case (Cons c' cs)
  then show ?case using valid_step [of h c] step_append [of h c "c' @ concat cs"] by simp
qed simp

lemma valid_chunks: "valid h \<Longrightarrow> valid (fold (\<lambda>c h. step h c) cs h)"
  by (induction cs arbitrary: h) (simp_all add: valid_step)

end

end
