(* ===== verification/Ring.thy ===== *)
theory Ring
  imports CatPrelude
begin

text \<open>
  The ring buffer of src/ring.c and include/cat/ring.h.  The state is the C struct: the backing
  array, the index of the oldest byte and the number of bytes held.  A buffer argument is a byte
  list, \<open>None\<close> a NULL pointer.  The contract is a bounded FIFO of bytes (\<open>ring_contents\<close>): put
  appends, dropping the oldest bytes when it may overwrite, get removes from the front.
\<close>

section \<open>State and operations\<close>

record ring =
  r_alloc :: nat
  r_data :: "byte list"
  r_start :: nat
  r_len :: nat

definition ring_avail :: "ring \<Rightarrow> nat" where
  "ring_avail r = r_alloc r - r_len r"

definition ckring :: "ring \<Rightarrow> bool" where
  "ckring r \<longleftrightarrow> r_alloc r > 0 \<and> r_start r < r_alloc r \<and> r_len r \<le> r_alloc r"

definition ring_init :: "byte list option \<Rightarrow> nat \<Rightarrow> ring outcome" where
  "ring_init d l = abort_unless (l \<noteq> 0) (case d of None \<Rightarrow> Abort
     | Some bs \<Rightarrow> Ok \<lparr>r_alloc = l, r_data = bs, r_start = 0, r_len = 0\<rparr>)"

definition ring_reset :: "ring \<Rightarrow> ring" where
  "ring_reset r = r\<lparr>r_start := 0, r_len := 0\<rparr>"

definition ring_last :: "ring \<Rightarrow> nat outcome" where
  "ring_last r = abort_unless (ckring r)
     (let toend = r_alloc r - r_start r in
      if r_len r < toend then Ok (r_start r + r_len r) else Ok (r_len r - toend))"

text \<open>Moving the start past the bytes that are about to be overwritten.\<close>

definition ring_make_room :: "ring \<Rightarrow> nat \<Rightarrow> nat \<Rightarrow> ring" where
  "ring_make_room r len avail =
     (let ovfl = len - avail in
      if len > avail
      then (if r_start r < r_alloc r - ovfl then r\<lparr>r_start := r_start r + ovfl\<rparr>
            else r\<lparr>r_start := ovfl - (r_alloc r - r_start r)\<rparr>)
      else r)"

text \<open>The copy at the end of \<open>ring_put\<close>, once the start has been moved.\<close>

definition ring_store :: "ring \<Rightarrow> nat \<Rightarrow> byte list \<Rightarrow> byte list outcome" where
  "ring_store r lst inp =
     (let toend = r_alloc r - lst in
      if lst \<ge> r_start r \<and> toend < length inp
      then obind (block_write (r_data r) lst (take toend inp))
             (\<lambda>d. block_write d 0 (drop toend inp))
      else block_write (r_data r) lst inp)"

definition ring_put :: "ring \<Rightarrow> byte list option \<Rightarrow> nat \<Rightarrow> bool \<Rightarrow> (ring \<times> nat) outcome" where
  "ring_put r inp len0 overwrite = abort_unless (ckring r)
     (let avail = ring_avail r;
          len = (if \<not> overwrite \<and> len0 > avail then avail else len0)
      in case inp of
        None \<Rightarrow> abort_unless (len \<le> avail) (Ok (r\<lparr>r_len := r_len r + len\<rparr>, len))
      | Some bs \<Rightarrow>
          if len > r_alloc r
          then abort_unless overwrite
                 (obind (block_read bs (len - r_alloc r) (r_alloc r)) (\<lambda>src.
                  obind (block_write (r_data r) 0 src) (\<lambda>d.
                  Ok (r\<lparr>r_start := 0, r_len := r_alloc r, r_data := d\<rparr>, len))))
          else obind (ring_last r) (\<lambda>lst.
                 abort_unless (len > avail \<longrightarrow> len - avail < r_len r)
                   (let r1 = ring_make_room r len avail
                    in obind (block_read bs 0 len) (\<lambda>src.
                       obind (ring_store r1 lst src) (\<lambda>d.
                       let r2 = r1\<lparr>r_data := d\<rparr>
                       in if r_alloc r2 - r_len r2 < len
                          then Ok (r2\<lparr>r_len := r_alloc r2\<rparr>, len)
                          else Ok (r2\<lparr>r_len := r_len r2 + len\<rparr>, len))))))"

text \<open>
  \<open>want\<close> is \<open>out != NULL\<close>; the bytes copied out are the second component of the result.
\<close>

definition ring_get :: "ring \<Rightarrow> bool \<Rightarrow> nat \<Rightarrow> (ring \<times> byte list \<times> nat) outcome" where
  "ring_get r want len0 = abort_unless (ckring r)
     (let len = (if len0 > r_len r then r_len r else len0);
          toend = r_alloc r - r_start r;
          fin = (\<lambda>r1. if r_len r1 = 0 then r1\<lparr>r_start := 0\<rparr> else r1)
      in if toend < len
         then obind (if want then obind (block_read (r_data r) (r_start r) toend) (\<lambda>a.
                                  obind (block_read (r_data r) 0 (len - toend)) (\<lambda>b. Ok (a @ b)))
                     else Ok []) (\<lambda>out.
              Ok (fin (r\<lparr>r_start := len - toend, r_len := r_len r - len\<rparr>), out, len))
         else obind (if want then block_read (r_data r) (r_start r) len else Ok []) (\<lambda>out.
              let s = r_start r + len in
              Ok (fin (r\<lparr>r_start := (if s = r_alloc r then 0 else s), r_len := r_len r - len\<rparr>),
                  out, len)))"

section \<open>Invariant and abstraction\<close>

definition ring_inv :: "ring \<Rightarrow> bool" where
  "ring_inv r \<longleftrightarrow> ckring r \<and> length (r_data r) = r_alloc r"

definition ring_contents :: "ring \<Rightarrow> byte list" where
  "ring_contents r = map (\<lambda>i. r_data r ! ((r_start r + i) mod r_alloc r)) [0..<r_len r]"

lemma length_ring_contents [simp]: "length (ring_contents r) = r_len r"
  by (simp add: ring_contents_def)

lemma nth_ring_contents:
  "i < r_len r \<Longrightarrow> ring_contents r ! i = r_data r ! ((r_start r + i) mod r_alloc r)"
  by (simp add: ring_contents_def)

lemma mod_once: "(a :: nat) < 2 * n \<Longrightarrow> a mod n = (if a < n then a else a - n)"
  by (simp add: mod_if)

lemma ring_last_Ok:
  assumes "ckring r" shows "ring_last r = Ok ((r_start r + r_len r) mod r_alloc r)"
proof -
  have "r_start r + r_len r < 2 * r_alloc r" using assms by (auto simp: ckring_def)
  from mod_once [OF this] assms show ?thesis
    by (auto simp: ring_last_def Let_def ckring_def)
qed

text \<open>The two-part copy writes byte \<open>k\<close> of the input at cell \<open>(lst + k) mod alloc\<close>.\<close>

lemma ring_store_cells:
  assumes "length (r_data r) = r_alloc r" "lst < r_alloc r" "length inp \<le> r_alloc r"
    and "lst \<ge> r_start r \<or> lst + length inp \<le> r_alloc r"
  shows "\<exists>d. ring_store r lst inp = Ok d \<and> length d = r_alloc r \<and>
     (\<forall>j < r_alloc r. d ! j =
        (if lst \<le> j \<and> j < lst + length inp then inp ! (j - lst)
         else if j + r_alloc r < lst + length inp then inp ! (j + r_alloc r - lst)
         else r_data r ! j))"
proof (cases "lst \<ge> r_start r \<and> r_alloc r - lst < length inp")
  case True
  define t where "t = r_alloc r - lst"
  define n where "n = r_alloc r"
  have tn: "lst + t = n" "t < length inp" "length inp \<le> n" "length (r_data r) = n"
    using True assms by (auto simp: t_def n_def)
  have "ring_store r lst inp =
     Ok (drop t inp @ drop (length inp - t) (take lst (r_data r)) @ take t inp)"
    using True assms by (simp add: ring_store_def Let_def t_def)
  moreover have "lst - (length inp - t) = n - length inp" using tn by linarith
  ultimately have "ring_store r lst inp =
     Ok (drop t inp @ take (n - length inp) (drop (length inp - t) (r_data r)) @ take t inp)"
    by (simp add: drop_take)
  moreover have "(drop t inp @ take (n - length inp) (drop (length inp - t) (r_data r)) @ take t inp) ! j =
      (if lst \<le> j \<and> j < lst + length inp then inp ! (j - lst)
       else if j + n < lst + length inp then inp ! (j + n - lst)
       else r_data r ! j)" (is "?d ! j = _") if j: "j < n" for j
  proof -
    consider "j < length inp - t" | "length inp - t \<le> j" "j < lst" | "lst \<le> j" by linarith
    then show ?thesis
    proof cases
      case 1
      moreover from this have "t + j = j + n - lst" "j + n < lst + length inp" "\<not> lst + length inp \<le> j"
        "lst \<le> j \<Longrightarrow> False"
        using tn by linarith+
      ultimately show ?thesis using tn by (auto simp: nth_append)
    next
      case 2
      then have "j - (length inp - t) < n - length inp" "\<not> lst \<le> j" "\<not> j + n < lst + length inp"
        "\<not> j < length inp - t" "length inp - t + (j - (length inp - t)) = j"
        "\<not> lst \<le> j" "\<not> t + j < length inp"
        using tn by linarith+
      then have "(drop t inp @ take (n - length inp) (drop (length inp - t) (r_data r)) @ take t inp) ! j
          = take (n - length inp) (drop (length inp - t) (r_data r)) ! (j - (length inp - t))"
        by (subst nth_append_right) (auto simp: nth_append tn)
      with \<open>j - (length inp - t) < n - length inp\<close> \<open>length inp - t + (j - (length inp - t)) = j\<close>
      have "?d ! j = r_data r ! j" using tn by simp
      with \<open>\<not> lst \<le> j\<close> \<open>\<not> j + n < lst + length inp\<close> show ?thesis by simp
    next
      case 3
      then have "\<not> j < length inp - t" "\<not> j + t - length inp < n - length inp"
        "j - (length inp - t) - (n - length inp) = j - lst" "j < lst + length inp" "j - lst < t"
        using tn j by linarith+
      then show ?thesis using tn 3 by (simp add: nth_append)
    qed
  qed
  ultimately show ?thesis using tn by (simp add: n_def)
next
  case False
  then have "ring_store r lst inp =
     Ok (take lst (r_data r) @ inp @ drop (lst + length inp) (r_data r))"
    using assms by (auto simp: ring_store_def Let_def)
  moreover have "lst + length inp \<le> r_alloc r" using False assms by auto
  ultimately show ?thesis
    using assms by (simp add: nth_block_write)
qed

lemma ring_store_nth:
  assumes "length (r_data r) = r_alloc r" "lst < r_alloc r" "length inp \<le> r_alloc r"
    and "lst \<ge> r_start r \<or> lst + length inp \<le> r_alloc r"
  obtains d where "ring_store r lst inp = Ok d" "length d = r_alloc r"
    "\<And>k. k < r_alloc r \<Longrightarrow> d ! ((lst + k) mod r_alloc r) =
       (if k < length inp then inp ! k else r_data r ! ((lst + k) mod r_alloc r))"
proof -
  obtain d where d: "ring_store r lst inp = Ok d" "length d = r_alloc r"
    and c: "\<And>j. j < r_alloc r \<Longrightarrow> d ! j =
        (if lst \<le> j \<and> j < lst + length inp then inp ! (j - lst)
         else if j + r_alloc r < lst + length inp then inp ! (j + r_alloc r - lst)
         else r_data r ! j)"
    using ring_store_cells [OF assms] by blast
  have "d ! ((lst + k) mod r_alloc r) =
      (if k < length inp then inp ! k else r_data r ! ((lst + k) mod r_alloc r))"
    if k: "k < r_alloc r" for k
  proof -
    have "(lst + k) mod r_alloc r = (if lst + k < r_alloc r then lst + k else lst + k - r_alloc r)"
      using k assms by (intro mod_once) simp
    then show ?thesis using k assms by (auto simp: c)
  qed
  with d show thesis by (rule that)
qed

section \<open>Functional behaviour\<close>

text \<open>Cells of the ring counted from a position \<open>p\<close> that has been moved modulo the size.\<close>

lemma mod_shift: "((p :: nat) mod n + k) mod n = (p + k) mod n"
  by (simp add: mod_simps)

lemma ring_after_store:
  assumes "length (r_data r) = r_alloc r" "ckring r" "length inp \<le> r_alloc r"
    and "drp \<le> r_len r" "r_len r - drp + length inp \<le> r_alloc r"
    and "s = (r_start r + drp) mod r_alloc r"
    and "\<And>k. k < r_alloc r \<Longrightarrow> d ! (((r_start r + r_len r) mod r_alloc r + k) mod r_alloc r) =
       (if k < length inp then inp ! k
        else r_data r ! (((r_start r + r_len r) mod r_alloc r + k) mod r_alloc r))"
  shows "ring_contents (r\<lparr>r_start := s, r_data := d, r_len := r_len r - drp + length inp\<rparr>) =
    drop drp (ring_contents r) @ inp" (is "?l = ?r")
proof (rule nth_equalityI)
  show "length ?l = length ?r" by simp
  fix i assume "i < length ?l"
  then have i: "i < r_len r - drp + length inp" by simp
  let ?n = "r_alloc r"
  have n: "0 < ?n" "r_len r \<le> ?n" using assms(2) by (auto simp: ckring_def)
  have l: "?l ! i = d ! ((r_start r + drp + i) mod ?n)"
    using i by (simp add: assms(6) mod_shift nth_ring_contents)
  show "?l ! i = ?r ! i"
  proof (cases "i < r_len r - drp")
    case True
    define k where "k = ?n - r_len r + drp + i"
    have "(r_start r + r_len r + k) mod ?n = (r_start r + drp + i + ?n) mod ?n"
    proof -
      have e: "r_start r + r_len r + k = r_start r + drp + i + ?n" using n by (simp add: k_def)
      show ?thesis unfolding e ..
    qed
    then have e: "((r_start r + r_len r) mod ?n + k) mod ?n = (r_start r + drp + i) mod ?n"
      by (simp add: mod_shift)
    have "k < ?n" "\<not> k < length inp"
      using True n assms(4,5) by (auto simp: k_def)
    then have "d ! ((r_start r + drp + i) mod ?n) = r_data r ! ((r_start r + drp + i) mod ?n)"
      using assms(7) [of k] by (simp add: e)
    then show ?thesis
      using True l by (simp add: nth_append nth_ring_contents add.assoc)
  next
    case False
    define k where "k = i - (r_len r - drp)"
    have "((r_start r + r_len r) mod ?n + k) mod ?n = (r_start r + drp + i) mod ?n"
      using False assms(4) unfolding mod_shift k_def by (simp add: add.assoc add.commute [of i])
    moreover have "k < length inp" "k < ?n" using False i assms(3) by (auto simp: k_def)
    ultimately have "d ! ((r_start r + drp + i) mod ?n) = inp ! k"
      using assms(7) [of k] by simp
    then show ?thesis using False l assms(4) by (simp add: nth_append k_def)
  qed
qed

lemma ring_put_spec:
  assumes inv: "ring_inv r" and bs: "len0 \<le> length bs"
    and m: "m = (if ow then len0 else min len0 (ring_avail r))"
    and full: "m = r_alloc r \<Longrightarrow> r_len r = 0"
  shows "\<exists>r'. ring_put r (Some bs) len0 ow = Ok (r', m) \<and> ring_inv r' \<and> r_alloc r' = r_alloc r \<and>
    ring_contents r' = drop (r_len r + m - r_alloc r) (ring_contents r @ take m bs)"
proof (cases "m > r_alloc r")
  case True
  have ck: "ckring r" "length (r_data r) = r_alloc r" using inv by (auto simp: ring_inv_def)
  have ow: "ow" "m = len0" using True m ck by (auto simp: ring_avail_def ckring_def split: if_splits)
  let ?r = "r\<lparr>r_start := 0, r_len := r_alloc r,
              r_data := take (r_alloc r) (drop (m - r_alloc r) bs)\<rparr>"
  have e: "ring_put r (Some bs) len0 ow = Ok (?r, m)"
    using True ow ck bs by (simp add: ring_put_def Let_def)
  have "ring_contents ?r = take (r_alloc r) (drop (m - r_alloc r) bs)"
    using True bs ow by (intro nth_equalityI) (auto simp: ring_contents_def)
  moreover have "drop (r_len r + m - r_alloc r) (ring_contents r @ take m bs) =
      take (r_alloc r) (drop (m - r_alloc r) bs)"
    using True by (simp add: drop_take)
  ultimately show ?thesis
    using e True ck bs ow by (intro exI [of _ ?r]) (auto simp: ring_inv_def ckring_def)
next
  case False
  let ?n = "r_alloc r" and ?a = "ring_avail r"
  have ck: "ckring r" "length (r_data r) = ?n" using inv by (auto simp: ring_inv_def)
  have n: "0 < ?n" "r_start r < ?n" "r_len r \<le> ?n" using ck by (auto simp: ckring_def)
  define drp where "drp = m - ?a"
  have d: "drp \<le> r_len r" "r_len r - drp + m = (if ?n - r_len r < m then ?n else r_len r + m)"
    using False n by (auto simp: drp_def ring_avail_def)
  have o: "m > ?a \<Longrightarrow> drp < r_len r"
    using False n full by (cases "m = ?n") (auto simp: drp_def ring_avail_def)
  define lst where "lst = (r_start r + r_len r) mod ?n"
  define s where "s = (r_start r + drp) mod ?n"
  have s: "s = (if m > ?a then (if r_start r < ?n - drp then r_start r + drp
                else drp - (?n - r_start r)) else r_start r)"
  proof -
    have "r_start r + drp < 2 * ?n" using n d(1) by linarith
    then have "s = (if r_start r + drp < ?n then r_start r + drp else r_start r + drp - ?n)"
      unfolding s_def by (rule mod_once)
    moreover have "\<not> m > ?a \<Longrightarrow> drp = 0" by (simp add: drp_def)
    ultimately show ?thesis using n by auto
  qed
  let ?r1 = "r\<lparr>r_start := s\<rparr>"
  have l: "lst < ?n" "lst = (if r_start r + r_len r < ?n then r_start r + r_len r
             else r_start r + r_len r - ?n)"
    using n mod_once [of "r_start r + r_len r" ?n] by (auto simp: lst_def)
  have sl: "s \<le> lst \<or> lst + m \<le> ?n"
  proof (cases "m > ?a")
    case True
    then have "drp + ?n = m + r_len r" using n by (simp add: drp_def ring_avail_def)
    moreover have "s = r_start r + drp \<or> s = r_start r + drp - ?n" "lst = r_start r + r_len r \<or> lst = r_start r + r_len r - ?n"
      using s l True n by (auto split: if_splits)
    moreover have "s = r_start r + drp - ?n \<Longrightarrow> drp \<ge> ?n - r_start r \<or> s = 0" using n d(1) by linarith
    ultimately show ?thesis using n l(1) d(1) s True by (auto split: if_splits)
  next
    case ma: False
    then have "m + r_len r \<le> ?n" "s = r_start r" using s n by (auto simp: ring_avail_def)
    with l n show ?thesis by (auto split: if_splits)
  qed
  obtain dt where dt: "ring_store ?r1 lst (take m bs) = Ok dt" "length dt = ?n"
    and c: "\<And>k. k < ?n \<Longrightarrow> dt ! ((lst + k) mod ?n) =
       (if k < length (take m bs) then take m bs ! k else r_data r ! ((lst + k) mod ?n))"
  proof (rule ring_store_nth [of ?r1 lst "take m bs"])
    show "length (r_data ?r1) = r_alloc ?r1" "lst < r_alloc ?r1" "length (take m bs) \<le> r_alloc ?r1"
      using ck l(1) False by auto
    show "r_start ?r1 \<le> lst \<or> lst + length (take m bs) \<le> r_alloc ?r1"
      using sl by auto
  qed (use that in auto)
  let ?r2 = "?r1\<lparr>r_data := dt, r_len := r_len r - drp + m\<rparr>"
  have le: "m \<le> length bs" "(if \<not> ow \<and> len0 > ?a then ?a else len0) = m"
    using m bs by auto
  have r1: "ring_make_room r m ?a = ?r1"
    by (simp add: s drp_def ring_make_room_def Let_def)
  have e: "ring_put r (Some bs) len0 ow = Ok (?r2, m)"
    using False ck le o d(2) dt(1)
    by (simp add: r1 ring_put_def Let_def ring_last_Ok lst_def [symmetric] drp_def [symmetric])
  have "ring_contents (r\<lparr>r_start := s, r_data := dt, r_len := r_len r - drp + length (take m bs)\<rparr>)
      = drop drp (ring_contents r) @ take m bs"
    by (rule ring_after_store)
       (use ck False d n le c in \<open>auto simp: s_def lst_def [symmetric] ring_avail_def drp_def\<close>)
  then have "ring_contents ?r2 = drop drp (ring_contents r) @ take m bs"
    using le(1) by (simp add: min_absorb2)
  moreover have "drop (r_len r + m - ?n) (ring_contents r @ take m bs) =
      drop drp (ring_contents r) @ take m bs"
    using d n by (cases "m > ?a") (auto simp: drp_def ring_avail_def add.commute)
  ultimately show ?thesis
    using e ck n d dt(2) by (intro exI [of _ ?r2]) (auto simp: ring_inv_def ckring_def s_def)
qed

lemma ring_put_full_aborts:
  assumes "ring_inv r" "r_len r > 0"
  shows "ring_put r (Some bs) (r_alloc r) True = Abort"
  using assms
  by (auto simp: ring_put_def ring_inv_def ckring_def ring_avail_def Let_def ring_last_Ok)

lemma ring_get_spec:
  assumes inv: "ring_inv r" and m: "m = min len0 (r_len r)"
  shows "\<exists>r'. ring_get r True len0 = Ok (r', take m (ring_contents r), m) \<and> ring_inv r' \<and>
    r_alloc r' = r_alloc r \<and> ring_contents r' = drop m (ring_contents r)"
proof -
  let ?n = "r_alloc r" and ?d = "r_data r"
  have n: "0 < ?n" "r_start r < ?n" "r_len r \<le> ?n" "length ?d = ?n" "m \<le> r_len r" "ckring r"
    using inv m by (auto simp: ring_inv_def ckring_def)
  define toend where "toend = ?n - r_start r"
  define s where "s = (r_start r + m) mod ?n"
  have s: "s = (if toend < m then m - toend else if r_start r + m = ?n then 0 else r_start r + m)"
    using n mod_once [of "r_start r + m" ?n] by (auto simp: s_def toend_def)
  define out where "out = (if toend < m then take toend (drop (r_start r) ?d) @ take (m - toend) ?d
                           else take m (drop (r_start r) ?d))"
  have out: "out = take m (ring_contents r)"
  proof (rule nth_equalityI)
    show "length out = length (take m (ring_contents r))"
      using n by (auto simp: out_def toend_def min_def)
    fix i assume "i < length out"
    then have i: "i < m" using n by (auto simp: out_def toend_def min_def split: if_splits)
    have "(r_start r + i) mod ?n = (if r_start r + i < ?n then r_start r + i else r_start r + i - ?n)"
      using i n by (intro mod_once) simp
    then show "out ! i = take m (ring_contents r) ! i"
      using i n by (auto simp: out_def nth_append nth_ring_contents toend_def min_def add.commute)
  qed
  let ?r1 = "r\<lparr>r_start := s, r_len := r_len r - m\<rparr>"
  let ?r' = "if r_len r - m = 0 then ?r1\<lparr>r_start := 0\<rparr> else ?r1"
  have lm: "(if len0 > r_len r then r_len r else len0) = m" using m by (simp add: min_def)
  have e: "ring_get r True len0 = Ok (?r', out, m)"
  proof (cases "toend < m")
    case True
    then have "r_start r + toend \<le> length ?d" "m - toend \<le> length ?d"
      using n by (auto simp: toend_def)
    with True n s show ?thesis
      by (simp add: ring_get_def lm Let_def toend_def [symmetric] out_def)
  next
    case False
    then have "r_start r + m \<le> length ?d" using n by (simp add: toend_def)
    with False n s show ?thesis
      by (simp add: ring_get_def lm Let_def toend_def [symmetric] out_def)
  qed
  have "ring_contents ?r1 = drop m (ring_contents r)"
  proof (rule nth_equalityI)
    show "length (ring_contents ?r1) = length (drop m (ring_contents r))" by simp
    fix i assume "i < length (ring_contents ?r1)"
    then have "i < r_len r - m" by simp
    then show "ring_contents ?r1 ! i = drop m (ring_contents r) ! i"
      by (simp add: nth_ring_contents s_def mod_shift add.assoc)
  qed
  moreover have "ring_contents (?r1\<lparr>r_start := 0\<rparr>) = drop m (ring_contents r)" if "r_len r - m = 0"
    using that by (simp add: ring_contents_def)
  ultimately show ?thesis
    using e out n by (intro exI [of _ ?r']) (auto simp: ring_inv_def ckring_def s_def)
qed

text \<open>Without a buffer to copy to, \<open>ring_get\<close> moves past the bytes.\<close>

lemma ring_skip_spec:
  assumes inv: "ring_inv r" and m: "m = min len0 (r_len r)"
  shows "\<exists>r'. ring_get r False len0 = Ok (r', [], m) \<and> ring_inv r' \<and>
    r_alloc r' = r_alloc r \<and> ring_contents r' = drop m (ring_contents r)"
proof -
  obtain r' where "ring_get r True len0 = Ok (r', take m (ring_contents r), m)" "ring_inv r'" "r_alloc r' = r_alloc r"
    "ring_contents r' = drop m (ring_contents r)" using ring_get_spec [OF assms] by blast
  then show ?thesis
    by (auto simp: ring_get_def Let_def outcome_simps split: if_splits)
qed

section \<open>The contract of a bounded byte queue\<close>

text \<open>
  What the calls do to the bytes held, for a queue of capacity \<open>cap\<close>.  A put that must not overwrite
  accepts what fits; one that may accepts everything and drops the oldest bytes beyond the capacity, but
  stops the program when the bytes are exactly as many as the capacity and some are held already.
\<close>

datatype fifo_op = Put "byte list" bool | Get nat | Skip nat

type_synonym fifo_result = "byte list \<times> nat"

fun fifo_step :: "nat \<Rightarrow> byte list \<Rightarrow> fifo_op \<Rightarrow> (byte list \<times> fifo_result) outcome" where
  "fifo_step cap q (Put xs ow) =
     (let m = (if ow then length xs else min (length xs) (cap - length q)) in
      if ow \<and> length xs = cap \<and> q \<noteq> [] then Abort else Ok (drop (length q + m - cap) (q @ take m xs), [], m))"
| "fifo_step cap q (Get k) = Ok (drop k q, take k q, min k (length q))"
| "fifo_step cap q (Skip k) = Ok (drop k q, [], min k (length q))"

text \<open>A client's calls in a row, with their results.\<close>

fun calls :: "('q \<Rightarrow> fifo_op \<Rightarrow> ('q \<times> fifo_result) outcome) \<Rightarrow> 'q \<Rightarrow> fifo_op list \<Rightarrow> ('q \<times> fifo_result list) outcome" where
  "calls step q [] = Ok (q, [])"
| "calls step q (c # cs) = obind (step q c) (\<lambda>(q, r). obind (calls step q cs) (\<lambda>(q, rs). Ok (q, r # rs)))"

text \<open>The bytes the puts that must not overwrite accepted, and the bytes the gets took out.\<close>

fun accepted :: "fifo_op list \<Rightarrow> fifo_result list \<Rightarrow> byte list" where
  "accepted (Put xs ow # cs) (r # rs) = take (snd r) xs @ accepted cs rs"
| "accepted (c # cs) (r # rs) = accepted cs rs"
| "accepted cs rs = []"

definition delivered :: "fifo_result list \<Rightarrow> byte list" where
  "delivered rs = concat (map fst rs)"

definition plain_op :: "fifo_op \<Rightarrow> bool" where
  "plain_op c \<longleftrightarrow> (case c of Put xs ow \<Rightarrow> \<not> ow | Get k \<Rightarrow> True | Skip k \<Rightarrow> False)"

text \<open>Without overwriting and skipping no byte is lost, whatever the order of the calls.\<close>

lemma fifo_plain:
  assumes "length q \<le> cap" "0 < cap" "plain_op c"
  shows "\<exists>q' r. fifo_step cap q c = Ok (q', r) \<and> length q' \<le> cap \<and> fst r @ q' = q @ accepted [c] [r]"
proof (cases c)
  case (Put xs ow)
  let ?m = "min (length xs) (cap - length q)"
  have "length q + ?m - cap = 0" using assms(1) by simp
  then show ?thesis using assms Put by (simp add: plain_op_def Let_def)
qed (use assms in \<open>auto simp: plain_op_def\<close>)

lemma fifo_conserves:
  assumes "length q \<le> cap" "0 < cap" "\<forall>c \<in> set cs. plain_op c"
  shows "\<exists>q' rs. calls (fifo_step cap) q cs = Ok (q', rs) \<and> delivered rs @ q' = q @ accepted cs rs"
  using assms(1,3)
proof (induction cs arbitrary: q)
  case Nil
  then show ?case by (simp add: delivered_def)
next
  case (Cons c cs)
  obtain q1 r where 1: "fifo_step cap q c = Ok (q1, r)" "length q1 \<le> cap" "fst r @ q1 = q @ accepted [c] [r]"
    using fifo_plain [OF Cons.prems(1) assms(2), of c] Cons.prems(2) by auto
  obtain q2 rs where 2: "calls (fifo_step cap) q1 cs = Ok (q2, rs)" "delivered rs @ q2 = q1 @ accepted cs rs"
    using Cons.IH [OF 1(2)] Cons.prems(2) by auto
  have "accepted (c # cs) (r # rs) = accepted [c] [r] @ accepted cs rs" by (cases c) simp_all
  then show ?case using 1(1,3) 2 by (simp add: delivered_def)
qed

text \<open>An implementation does to its contents what the contract says, and stops when the contract does.\<close>

locale byte_fifo =
  fixes inv :: "'q \<Rightarrow> bool"
    and contents :: "'q \<Rightarrow> byte list"
    and capacity :: "'q \<Rightarrow> nat"
    and step :: "'q \<Rightarrow> fifo_op \<Rightarrow> ('q \<times> fifo_result) outcome"
  assumes capacity_ok: "inv q \<Longrightarrow> length (contents q) \<le> capacity q \<and> 0 < capacity q"
    and step_ok: "inv q \<Longrightarrow> fifo_step (capacity q) (contents q) c = Ok (xs, r) \<Longrightarrow>
      \<exists>q'. step q c = Ok (q', r) \<and> inv q' \<and> capacity q' = capacity q \<and> contents q' = xs"
    and step_abort: "inv q \<Longrightarrow> fifo_step (capacity q) (contents q) c = Abort \<Longrightarrow> step q c = Abort"
begin

lemma fifo_step_no_fault: "fifo_step n xs c \<noteq> Fault"
  by (cases c) (auto simp: Let_def)

lemma calls_refine:
  assumes "inv q"
  shows "case calls (fifo_step (capacity q)) (contents q) cs of
      Ok (xs, rs) \<Rightarrow> \<exists>q'. calls step q cs = Ok (q', rs) \<and> inv q' \<and> capacity q' = capacity q \<and> contents q' = xs
    | Abort \<Rightarrow> calls step q cs = Abort
    | Fault \<Rightarrow> False"
  using assms
proof (induction cs arbitrary: q)
  case (Cons c cs)
  show ?case
  proof (cases "fifo_step (capacity q) (contents q) c")
    case (Ok a)
    obtain xs r where a: "a = (xs, r)" by (cases a)
    obtain q' where q': "step q c = Ok (q', r)" "inv q'" "capacity q' = capacity q" "contents q' = xs"
      using step_ok [OF Cons.prems] Ok a by blast
    show ?thesis using Cons.IH [OF q'(2)] q' Ok a by (auto split: outcome.splits)
  next
    case Abort
    then show ?thesis using step_abort [OF Cons.prems] by simp
  next
    case Fault
    then show ?thesis using fifo_step_no_fault by blast
  qed
qed simp

lemma calls_conserve:
  assumes "inv q" "\<forall>c \<in> set cs. plain_op c"
  shows "\<exists>q' rs. calls step q cs = Ok (q', rs) \<and> inv q' \<and> delivered rs @ contents q' = contents q @ accepted cs rs"
  using fifo_conserves [of "contents q" "capacity q" cs] calls_refine [OF assms(1), of cs] capacity_ok [OF assms(1)] assms(2) by auto

end

text \<open>The calls of the ring buffer.\<close>

fun ring_call :: "ring \<Rightarrow> fifo_op \<Rightarrow> (ring \<times> fifo_result) outcome" where
  "ring_call r (Put xs ow) = obind (ring_put r (Some xs) (length xs) ow) (\<lambda>(r, n). Ok (r, [], n))"
| "ring_call r (Get k) = ring_get r True k"
| "ring_call r (Skip k) = ring_get r False k"

interpretation rq: byte_fifo ring_inv ring_contents r_alloc ring_call
proof unfold_locales
  fix r c xs and n :: fifo_result assume inv: "ring_inv r"
  have ck: "r_len r \<le> r_alloc r" "0 < r_alloc r" using inv by (auto simp: ring_inv_def ckring_def)
  then show "length (ring_contents r) \<le> r_alloc r \<and> 0 < r_alloc r" by simp
  have e: "ring_contents r = [] \<longleftrightarrow> r_len r = 0" by (metis length_0_conv length_ring_contents)
  have av: "ring_avail r = r_alloc r - r_len r" by (simp add: ring_avail_def)
  show "\<exists>r'. ring_call r c = Ok (r', n) \<and> ring_inv r' \<and> r_alloc r' = r_alloc r \<and> ring_contents r' = xs"
    if s: "fifo_step (r_alloc r) (ring_contents r) c = Ok (xs, n)"
  proof (cases c)
    case (Put bs ow)
    define m where "m = (if ow then length bs else min (length bs) (ring_avail r))"
    have m0: "m = r_alloc r \<Longrightarrow> r_len r = 0" using s Put e ck by (cases ow) (auto simp: Let_def m_def av min_def split: if_splits)
    have m: "xs = drop (r_len r + m - r_alloc r) (ring_contents r @ take m bs)" "n = ([], m)"
      using s Put e by (auto simp: Let_def m_def av split: if_splits)
    show ?thesis using ring_put_spec [OF inv order_refl m_def m0] m Put by auto
  next
    case (Get k)
    then show ?thesis using ring_get_spec [OF inv refl, of k] s by (auto simp: min_def)
  next
    case (Skip k)
    then show ?thesis using ring_skip_spec [OF inv refl, of k] s by (auto simp: min_def)
  qed
  show "ring_call r c = Abort" if s: "fifo_step (r_alloc r) (ring_contents r) c = Abort"
  proof (cases c)
    case (Put bs ow)
    have m: "ow" "length bs = r_alloc r" "0 < r_len r" using s Put e by (auto simp: Let_def split: if_splits)
    then show ?thesis using ring_put_full_aborts [OF inv m(3), of bs] Put by simp
  qed (use s in auto)
qed

section \<open>Properties\<close>

text \<open>C20: a put of up to \<open>length bs\<close> bytes appends the accepted bytes to the contents and drops the
  oldest ones beyond the capacity; without the overwrite flag it accepts what fits.  The one case
  left out is an overwriting put of exactly the capacity into a ring that is not empty.\<close>

theorem ring_put_fifo:
  assumes "ring_inv r" "len0 \<le> length bs"
    and "m = (if ow then len0 else min len0 (ring_avail r))" "m = r_alloc r \<Longrightarrow> r_len r = 0"
  shows "\<exists>r'. ring_put r (Some bs) len0 ow = Ok (r', m) \<and> ring_inv r' \<and> r_alloc r' = r_alloc r \<and>
    ring_contents r' = drop (r_len r + m - r_alloc r) (ring_contents r @ take m bs)"
  using assms by (rule ring_put_spec)

theorem ring_put_fifo_witness:
  "let r = \<lparr>r_alloc = 4, r_data = [1, 2, 3, 4], r_start = 3, r_len = 2\<rparr> in
   \<exists>r'. ring_put r (Some [7, 8, 9]) 3 True = Ok (r', 3) \<and> ring_inv r' \<and> r_alloc r' = r_alloc r \<and>
    ring_contents r' = drop (r_len r + 3 - r_alloc r) (ring_contents r @ take 3 [7, 8, 9])"
  unfolding Let_def
  by (rule ring_put_fifo [where ow = True]) (simp_all add: ring_inv_def ckring_def)

text \<open>an overwriting put of exactly the capacity into a ring that holds data fails its assertion
  and stops the program, although longer and shorter overwriting puts succeed.\<close>

theorem ring_put_exact_capacity_aborts:
  assumes "ring_inv r" "r_len r > 0"
  shows "ring_put r (Some bs) (r_alloc r) True = Abort"
  using assms by (rule ring_put_full_aborts)

theorem ring_put_exact_capacity_aborts_witness:
  "ring_put \<lparr>r_alloc = 2, r_data = [1, 2], r_start = 0, r_len = 1\<rparr> (Some [7, 8]) 2 True = Abort"
  using ring_put_exact_capacity_aborts [of "\<lparr>r_alloc = 2, r_data = [1, 2], r_start = 0, r_len = 1\<rparr>" "[7, 8]"]
  by (simp add: ring_inv_def ckring_def)

text \<open>C18: Over any sequence of puts of a buffer, overwriting or not, and gets with or without a buffer, the ring does to the bytes
  it holds what the contract of a bounded queue says, with the same results, and stops the program exactly where the contract
  does, at an overwriting put of exactly the capacity into a ring that holds bytes.  If no put may overwrite and every get has a
  buffer, the sequence never stops, and the bytes got followed by those still held are those held before followed by those accepted.\<close>

theorem ring_calls_refine:
  assumes "ring_inv r"
  shows "(case calls (fifo_step (r_alloc r)) (ring_contents r) cs of
        Ok (q, rs) \<Rightarrow> \<exists>r'. calls ring_call r cs = Ok (r', rs) \<and> ring_inv r' \<and> r_alloc r' = r_alloc r \<and> ring_contents r' = q
      | Abort \<Rightarrow> calls ring_call r cs = Abort
      | Fault \<Rightarrow> False)
    \<and> ((\<forall>c \<in> set cs. plain_op c) \<longrightarrow>
        (\<exists>r' rs. calls ring_call r cs = Ok (r', rs) \<and> ring_inv r' \<and> delivered rs @ ring_contents r' = ring_contents r @ accepted cs rs))"
  using rq.calls_refine [OF assms, of cs] rq.calls_conserve [OF assms, of cs] by blast

theorem ring_calls_refine_witness:
  "let r = \<lparr>r_alloc = 2, r_data = [0, 0], r_start = 0, r_len = 0\<rparr> in
    (\<exists>r'. calls ring_call r [Put [1, 2, 3] True, Get 1, Put [4, 5] False] = Ok (r', [([], 3), ([2], 1), ([], 1)]) \<and> ring_contents r' = [3, 4])
    \<and> calls ring_call r [Put [1] False, Put [2, 3] True] = Abort"
proof -
  let ?r = "\<lparr>r_alloc = 2, r_data = [0, 0], r_start = 0, r_len = 0\<rparr>"
  have r: "ring_inv ?r" "ring_contents ?r = []" by (simp_all add: ring_inv_def ckring_def ring_contents_def)
  have f: "calls (fifo_step 2) [] [Put [1, 2, 3] True, Get 1, Put [4, 5] False] = Ok ([3, 4], [([], 3), ([2], 1), ([], 1)])"
    "calls (fifo_step 2) [] [Put [1] False, Put [2, 3] True] = Abort" by (simp_all add: Let_def)
  have "\<exists>r'. calls ring_call ?r [Put [1, 2, 3] True, Get 1, Put [4, 5] False] = Ok (r', [([], 3), ([2], 1), ([], 1)]) \<and> ring_contents r' = [3, 4]"
    using conjunct1 [OF ring_calls_refine [OF r(1), of "[Put [1, 2, 3] True, Get 1, Put [4, 5] False]"]]
    unfolding r(2) ring.simps f(1) outcome.case prod.case by blast
  moreover have "calls ring_call ?r [Put [1] False, Put [2, 3] True] = Abort"
    using conjunct1 [OF ring_calls_refine [OF r(1), of "[Put [1] False, Put [2, 3] True]"]] unfolding r(2) ring.simps f(2) outcome.case .
  ultimately show ?thesis unfolding Let_def by blast
qed

end
