(* ===== verification/DivMod.thy ===== *)
theory DivMod
  imports CatPrelude
begin

text \<open>
  Division without a divide instruction: \<open>uldivmod\<close> and \<open>ulldivmod\<close> of src/aux.c and
  \<open>_modulo\<close> of include/cat/hash.h (used where CAT_HAS_DIV is 0).  The three are one shift and
  subtract loop.  The word type is a parameter: \<open>ulong\<close> is 32 bits wide on the targets
  \<open>uldivmod\<close> was written for and 64 bits wide on LP64, and the loop count and the shift
  distance in the code are the literals 32 and 31 on both.
\<close>

section \<open>The loop\<close>

definition divmod_step :: "nat \<Rightarrow> 'w::len word \<Rightarrow> 'w word \<times> 'w word \<Rightarrow> 'w word \<times> 'w word" where
  "divmod_step k dsor = (\<lambda>(r, dend).
     let r1 = push_bit 1 r OR drop_bit k dend;
         dend1 = push_bit 1 dend
     in if r1 \<ge> dsor then (r1 - dsor, dend1 + 1) else (r1, dend1))"

fun divmod_loop :: "nat \<Rightarrow> nat \<Rightarrow> 'w::len word \<Rightarrow> 'w word \<times> 'w word \<Rightarrow> 'w word \<times> 'w word" where
  "divmod_loop k 0 dsor s = s"
| "divmod_loop k (Suc n) dsor s = divmod_loop k n dsor (divmod_step k dsor s)"

definition uldivmod :: "'w::len word \<Rightarrow> 'w word \<Rightarrow> bool \<Rightarrow> 'w word" where
  "uldivmod dend dsor wantq =
     (if dsor = 0 then 0xFFFFFFFF
      else (case divmod_loop 31 32 dsor (0, dend) of (r, q) \<Rightarrow> if wantq then q else r))"

definition ulldivmod :: "u64 \<Rightarrow> u64 \<Rightarrow> bool \<Rightarrow> u64" where
  "ulldivmod dend dsor wantq =
     (if dsor = 0 then 0xFFFFFFFFFFFFFFFF
      else (case divmod_loop 63 64 dsor (0, dend) of (r, q) \<Rightarrow> if wantq then q else r))"

definition modulo_c :: "u32 \<Rightarrow> u32 \<Rightarrow> u32" where
  "modulo_c dend dsor =
     (if dsor = 0 then - 1 else fst (divmod_loop 31 32 dsor (0, dend)))"

section \<open>Correctness at full width\<close>

text \<open>
  After \<open>i\<close> steps the remainder register and the low \<open>i\<close> bits of the dividend register are
  the remainder and the quotient of the top \<open>i\<close> bits of the dividend.
\<close>

definition divmod_inv :: "'w::len word \<Rightarrow> 'w word \<Rightarrow> nat \<Rightarrow> 'w word \<times> 'w word \<Rightarrow> bool" where
  "divmod_inv D dsor i = (\<lambda>(r, dend). \<exists>q.
     unat D div 2 ^ (LENGTH('w) - i) = q * unat dsor + unat r \<and> unat r < unat dsor \<and> q < 2 ^ i \<and>
     unat dend = (unat D mod 2 ^ (LENGTH('w) - i)) * 2 ^ i + q)"

lemma unat_less_pow: "unat (x :: 'w::len word) < 2 ^ LENGTH('w)"
  by (rule unsigned_less)

lemma shift1_add: "push_bit (Suc 0) (x :: 'w::len word) = x + x" "push_bit 1 x = x + x"
  by (simp_all add: push_bit_eq_mult)

lemma pow_halves: "i < w \<Longrightarrow> (2 :: nat) ^ (w - i) = 2 ^ (w - Suc i) * 2"
  by (metis Suc_diff_Suc power_Suc2)

lemma div_pow_step:
  assumes "i < w"
  shows "(D :: nat) div 2 ^ (w - Suc i) = 2 * (D div 2 ^ (w - i)) + D div 2 ^ (w - Suc i) mod 2"
  unfolding pow_halves [OF assms] div_mult2_eq by simp

lemma mod_pow_step:
  assumes "i < w"
  shows "(D :: nat) mod 2 ^ (w - i) = 2 ^ (w - Suc i) * (D div 2 ^ (w - Suc i) mod 2) + D mod 2 ^ (w - Suc i)"
  unfolding pow_halves [OF assms] mod_mult2_eq by simp

lemma divmod_inv_step:
  fixes D dsor :: "'w::len word"
  assumes inv: "divmod_inv D dsor i s" and i: "i < LENGTH('w)" and k: "Suc k = LENGTH('w)"
  shows "divmod_inv D dsor (Suc i) (divmod_step k dsor s)"
proof -
  obtain r dend where s: "s = (r, dend)" by (cases s)
  let ?w = "LENGTH('w)"
  obtain q where q: "unat D div 2 ^ (?w - i) = q * unat dsor + unat r" "unat r < unat dsor" "q < 2 ^ i"
    "unat dend = (unat D mod 2 ^ (?w - i)) * 2 ^ i + q"
    using inv by (auto simp: divmod_inv_def s)
  define b where "b = unat D div 2 ^ (?w - Suc i) mod 2"
  define m where "m = unat D mod 2 ^ (?w - Suc i)"
  have b: "b < 2" by (simp add: b_def)
  have pw: "(2 :: nat) ^ (?w - Suc i) * 2 ^ i = 2 ^ k"
    using i k by (simp flip: power_add)
  have m: "m < 2 ^ (?w - Suc i)" by (simp add: m_def)
  have dend: "unat dend = b * 2 ^ k + (m * 2 ^ i + q)"
    using q(4) i by (simp add: mod_pow_step b_def [symmetric] m_def [symmetric] pw [symmetric] algebra_simps)
  have lo: "m * 2 ^ i + q < 2 ^ k"
  proof -
    have "m * 2 ^ i + q < (m + 1) * 2 ^ i" using q(3) by simp
    also have "\<dots> \<le> 2 ^ (?w - Suc i) * 2 ^ i" using m by (intro mult_le_mono1) simp
    finally show ?thesis by (simp add: pw)
  qed
  have "unat (drop_bit k dend) = (b * 2 ^ k + (m * 2 ^ i + q)) div 2 ^ k"
    by (simp only: unat_drop_bit_eq) (simp only: drop_bit_eq_div dend)
  then have top: "unat (drop_bit k dend) = b" using lo by simp
  have "unat D div 2 ^ (?w - i) < 2 ^ i"
    using unat_less_pow [of D] i by (simp add: less_mult_imp_div_less flip: power_add)
  then have r: "unat r < 2 ^ i" using q(1) by simp
  have r2: "2 * unat r + b < 2 ^ ?w"
  proof -
    have "2 * unat r + 2 \<le> 2 ^ Suc i" using r by simp
    also have "\<dots> \<le> 2 ^ ?w" using i by (intro power_increasing) auto
    finally show ?thesis using b by linarith
  qed
  define r1 where "r1 = push_bit 1 r OR drop_bit k dend"
  have "push_bit 1 r AND drop_bit k dend = 0"
  proof (rule bit_word_eqI)
    fix n
    have "\<not> bit (drop_bit k dend) n" if "n \<ge> 1"
      using that k impossible_bit [of "k + n" dend] by (auto simp: bit_drop_bit_eq)
    then show "bit (push_bit 1 r AND drop_bit k dend) n = bit 0 n"
      by (cases "n \<ge> 1") (simp_all add: bit_and_iff bit_push_bit_iff del: push_bit_Suc)
  qed
  then have "r1 = push_bit 1 r + drop_bit k dend"
    by (simp add: r1_def disjunctive_add_eq_or)
  then have r1: "unat r1 = 2 * unat r + b"
    using r2 top by (cases "LENGTH('w) = Suc 0") (auto simp: unat_word_ariths push_bit_eq_mult)
  define dend1 where "dend1 = push_bit 1 dend"
  have "unat dend1 = (2 * (b * 2 ^ k + (m * 2 ^ i + q))) mod 2 ^ ?w"
    by (simp only: dend1_def shift1_add unat_word_ariths(1) dend mult_2)
  also have "\<dots> = (b * 2 ^ ?w + 2 * (m * 2 ^ i + q)) mod 2 ^ ?w"
    by (simp add: k [symmetric] algebra_simps)
  also have "\<dots> = 2 * (m * 2 ^ i + q)"
  proof -
    have "2 * (m * 2 ^ i + q) < 2 ^ ?w" using lo by (simp flip: k)
    then show ?thesis by simp
  qed
  finally have dend1: "unat dend1 = m * 2 ^ Suc i + 2 * q" by simp
  have D1: "unat D div 2 ^ (?w - Suc i) = 2 * q * unat dsor + unat r1"
    using div_pow_step [OF i, of "unat D"] q(1) r1 by (simp add: b_def algebra_simps)
  have step: "divmod_step k dsor s = (if r1 \<ge> dsor then (r1 - dsor, dend1 + 1) else (r1, dend1))"
    by (simp add: divmod_step_def s r1_def dend1_def Let_def)
  show ?thesis
  proof (cases "r1 \<ge> dsor")
    case True
    have ge: "unat dsor \<le> unat r1" using True by (simp add: word_le_nat_alt)
    have "2 * (m * 2 ^ i + q) + 1 < 2 ^ ?w" using lo by (simp flip: k)
    then have "unat (dend1 + 1) = m * 2 ^ Suc i + (2 * q + 1)"
      using dend1 by (simp add: unat_word_ariths)
    moreover have "unat (r1 - dsor) = unat r1 - unat dsor" using True by (simp add: unat_sub)
    moreover have "2 * q + 1 < 2 ^ Suc i" using q(3) by simp
    ultimately show ?thesis
      using D1 ge r1 q(2) b by (auto simp: divmod_inv_def step True m_def intro!: exI [of _ "2 * q + 1"])
  next
    case False
    then have "unat r1 < unat dsor" by (simp add: word_le_nat_alt)
    then show ?thesis
      using D1 dend1 q(3) False by (auto simp: divmod_inv_def step m_def intro!: exI [of _ "2 * q"])
  qed
qed

lemma divmod_inv_loop:
  fixes D dsor :: "'w::len word"
  assumes "divmod_inv D dsor i s" "i + n \<le> LENGTH('w)" "Suc k = LENGTH('w)"
  shows "divmod_inv D dsor (i + n) (divmod_loop k n dsor s)"
  using assms(1,2)
proof (induction n arbitrary: i s)
  case 0
  then show ?case by simp
next
  case (Suc n)
  then show ?case
    using divmod_inv_step [OF Suc.prems(1) _ assms(3)] Suc.IH [of "Suc i" "divmod_step k dsor s"] by simp
qed

lemma divmod_loop_correct:
  fixes D dsor :: "'w::len word"
  assumes "dsor \<noteq> 0" "Suc k = LENGTH('w)"
  shows "divmod_loop k LENGTH('w) dsor (0, D) = (D mod dsor, D div dsor)"
proof -
  have pos: "unat dsor > 0" using assms(1) by (simp add: unat_gt_0)
  have "divmod_inv D dsor 0 (0, D)"
    using pos unat_less_pow [of D] by (simp add: divmod_inv_def)
  from divmod_inv_loop [OF this _ assms(2), of "LENGTH('w)"]
  obtain r q where rq: "divmod_loop k LENGTH('w) dsor (0, D) = (r, q)"
    and v: "unat D = unat q * unat dsor + unat r" "unat r < unat dsor"
    by (cases "divmod_loop k LENGTH('w) dsor (0, D)") (auto simp: divmod_inv_def)
  have "unat D div unat dsor = unat q" "unat D mod unat dsor = unat r"
    using v pos by (simp_all add: div_nat_eqI mod_nat_eqI)
  then show ?thesis
    by (simp add: rq word_unat_eq_iff unat_div unat_mod)
qed

section \<open>Properties\<close>

text \<open>on a 32-bit \<open>ulong\<close>, \<open>uldivmod\<close> is unsigned division and remainder.\<close>

theorem uldivmod_correct:
  fixes a b :: u32
  assumes "b \<noteq> 0"
  shows "uldivmod a b True = a div b \<and> uldivmod a b False = a mod b"
  using divmod_loop_correct [of b 31 a] assms by (simp add: uldivmod_def)

theorem uldivmod_correct_witness: "uldivmod (100 :: u32) 7 True = 100 div 7 \<and> uldivmod (100 :: u32) 7 False = 100 mod 7"
  by (rule uldivmod_correct) simp

lemma ulldivmod_correct:
  assumes "b \<noteq> 0"
  shows "ulldivmod a b True = a div b \<and> ulldivmod a b False = a mod b"
  using divmod_loop_correct [of b 63 a] assms by (simp add: ulldivmod_def)

lemma modulo_c_correct: "b \<noteq> 0 \<Longrightarrow> modulo_c a b = a mod b"
  using divmod_loop_correct [of b 31 a] by (simp add: modulo_c_def)

text \<open>On LP64 the same code divides wrongly: 2^31 by 1 comes out as neither.\<close>

lemma uldivmod_lp64_wrong: "uldivmod (0x80000000 :: u64) 1 True \<noteq> 0x80000000 div 1"
  by (code_simp)


end
