(* ===== verification/Crc.thy ===== *)
theory Crc
  imports CatPrelude
begin

text \<open>
  The table-driven CRC-32 of src/crc.c, at the widths of an LP64 target: \<open>ulong\<close> is 64 bits,
  of which a residue uses the low 32.  The specification is the bit-at-a-time remainder over
  32-bit words in its two bit orders; the tables and the byte loops are proved equal to it, and
  the standard CRC-32 wrapper is an instance.  \<open>stream_hash\<close> is the contract of a checksum
  that is fed in pieces.
\<close>

section \<open>Bit reversal\<close>

definition rev8 :: "byte \<Rightarrow> byte" where
  "rev8 x0 = (let
     x = (drop_bit 4 x0 AND 0x0F) OR push_bit 4 x0;
     x = (drop_bit 2 x AND 0x33) OR (push_bit 2 x AND 0xCC);
     x = (drop_bit 1 x AND 0x55) OR (push_bit 1 x AND 0xAA) in x)"

definition rev32 :: "u64 \<Rightarrow> u64" where
  "rev32 x0 = (let
     x = (drop_bit 16 x0 AND 0xFFFF) OR push_bit 16 x0;
     x = (drop_bit 8 x AND 0x00FF00FF) OR (push_bit 8 x AND 0xFF00FF00);
     x = (drop_bit 4 x AND 0x0F0F0F0F) OR (push_bit 4 x AND 0xF0F0F0F0);
     x = (drop_bit 2 x AND 0x33333333) OR (push_bit 2 x AND 0xCCCCCCCC);
     x = (drop_bit 1 x AND 0x55555555) OR (push_bit 1 x AND 0xAAAAAAAA) in x)"

section \<open>Tables and byte loops\<close>

record crc32tab =
  resid :: "u64 list"

text \<open>The inner loop: \<open>n\<close> rounds of shifting one bit out of position 31.\<close>

fun crc_shift :: "u64 \<Rightarrow> nat \<Rightarrow> u64 \<Rightarrow> u64" where
  "crc_shift poly 0 r = r"
| "crc_shift poly (Suc n) r =
     crc_shift poly n (if drop_bit 31 r AND 1 \<noteq> 0 then push_bit 1 r XOR poly else push_bit 1 r)"

text \<open>The shift by 24 is done on an \<open>int\<close>, whose sign is then extended to the \<open>ulong\<close>.\<close>

definition int_shl24 :: "byte \<Rightarrow> u64" where
  "int_shl24 b = scast (push_bit 24 (ucast b :: 32 word))"

definition crc32t_be_init :: "u64 \<Rightarrow> crc32tab" where
  "crc32t_be_init poly =
     \<lparr>resid = map (\<lambda>i. crc_shift poly 8 (int_shl24 (of_nat i)) AND 0xFFFFFFFF) [0..<256]\<rparr>"

fun crc32t_be_loop :: "crc32tab \<Rightarrow> byte list \<Rightarrow> u64 \<Rightarrow> u64" where
  "crc32t_be_loop tab [] crc = crc"
| "crc32t_be_loop tab (b # bs) crc = crc32t_be_loop tab bs
     (resid tab ! unat ((ucast b XOR drop_bit 24 crc) AND 0xFF) XOR push_bit 8 crc)"

definition crc32t_be :: "crc32tab \<Rightarrow> byte list \<Rightarrow> u64 \<Rightarrow> u64" where
  "crc32t_be tab bs crc = crc32t_be_loop tab bs crc AND 0xFFFFFFFF"

definition crc32t_le_init :: "u64 \<Rightarrow> crc32tab" where
  "crc32t_le_init poly =
     \<lparr>resid = map (\<lambda>i. rev32 (crc_shift poly 8 (int_shl24 (rev8 (of_nat i))) AND 0xFFFFFFFF)) [0..<256]\<rparr>"

fun crc32t_le :: "crc32tab \<Rightarrow> byte list \<Rightarrow> u64 \<Rightarrow> u64" where
  "crc32t_le tab [] crc = crc"
| "crc32t_le tab (b # bs) crc = crc32t_le tab bs
     (resid tab ! unat ((ucast b XOR crc) AND 0xFF) XOR drop_bit 8 crc)"

section \<open>The standard CRC-32 and its global table\<close>

record crc_globals =
  crc32_table :: crc32tab
  crc32_table_initialized :: bool

definition CAT_CRC32_POLY :: u64 where "CAT_CRC32_POLY = 0x04C11DB7"
definition CAT_CRC32_POLY_REV :: u64 where "CAT_CRC32_POLY_REV = 0xEDB88320"

definition crc32_init :: "crc_globals \<Rightarrow> crc_globals" where
  "crc32_init g = g\<lparr>crc32_table := crc32t_le_init CAT_CRC32_POLY, crc32_table_initialized := True\<rparr>"

definition crc32_start :: "crc_globals \<Rightarrow> crc_globals \<times> u64" where
  "crc32_start g = (if \<not> crc32_table_initialized g then crc32_init g else g, 0xFFFFFFFF)"

definition crc32_step :: "crc_globals \<Rightarrow> byte list \<Rightarrow> u64 \<Rightarrow> u64" where
  "crc32_step g bs crc = crc32t_le (crc32_table g) bs crc"

definition crc32_finish :: "u64 \<Rightarrow> u64" where
  "crc32_finish crc = crc XOR 0xFFFFFFFF"

definition crc32 :: "crc_globals \<Rightarrow> byte list \<Rightarrow> crc_globals \<times> u64" where
  "crc32 g bs = (case crc32_start g of (g', c) \<Rightarrow> (g', crc32_finish (crc32_step g' bs c)))"

section \<open>Specification\<close>

text \<open>One bit of polynomial division, most significant bit first and least significant first.\<close>

definition be_bit :: "u32 \<Rightarrow> u32 \<Rightarrow> u32" where
  "be_bit p x = push_bit 1 x XOR (if bit x 31 then p else 0)"

definition le_bit :: "u32 \<Rightarrow> u32 \<Rightarrow> u32" where
  "le_bit p x = drop_bit 1 x XOR (if bit x 0 then p else 0)"

definition reflect :: "u32 \<Rightarrow> u32" where
  "reflect x = horner_sum of_bool 2 (map (bit x) (rev [0..<32]))"

definition be_spec :: "u32 \<Rightarrow> byte list \<Rightarrow> u32 \<Rightarrow> u32" where
  "be_spec p = fold (\<lambda>b c. (be_bit p ^^ 8) (c XOR push_bit 24 (ucast b)))"

definition le_spec :: "u32 \<Rightarrow> byte list \<Rightarrow> u32 \<Rightarrow> u32" where
  "le_spec p = fold (\<lambda>b c. (le_bit p ^^ 8) (c XOR ucast b))"

section \<open>Bit reversal is reflection\<close>

lemma bit_reflect: "bit (reflect x) n \<longleftrightarrow> n < 32 \<and> bit x (31 - n)"
  by (auto simp: reflect_def bit_horner_sum_bit_word_iff rev_nth)

lemma bit_rev8_ball: "\<forall>n < 8. bit (rev8 x) n = bit x (7 - n)"
  unfolding ball_bits8
  by (intro conjI; simp only: rev8_def Let_def bit_word_simps; simp)

lemma bit_rev8: "bit (rev8 x) n \<longleftrightarrow> n < 8 \<and> bit x (7 - n)"
  using bit_rev8_ball [of x] bit_imp_le_length [of "rev8 x" n] by auto

lemma bit_rev32_ball: "\<forall>n < 32. bit (rev32 x) n = bit x (31 - n)"
  unfolding ball_bits32
  by (intro conjI; simp only: rev32_def Let_def bit_word_simps; simp)

lemma and_masked_high: "take_bit 32 m = m \<Longrightarrow> 32 \<le> n \<Longrightarrow> \<not> bit ((y :: u64) AND m) n"
  by (metis bit_and_iff bit_take_bit_iff not_le)

lemma rev32_clean: "take_bit 32 (rev32 x) = rev32 x"
proof -
  have "\<not> bit ((y AND 0x55555555) OR (z AND 0xAAAAAAAA)) n" if "n \<ge> 32" for y z :: u64 and n
    using that and_masked_high [of "0x55555555" n y] and_masked_high [of "0xAAAAAAAA" n z]
    by (simp add: bit_or_iff)
  then have "\<not> bit (rev32 x) n" if "n \<ge> 32" for n
    using that unfolding rev32_def Let_def by blast
  then show ?thesis
    by (intro bit_word_eqI) (auto simp: bit_take_bit_iff simp flip: not_le)
qed

lemma bit_rev32: "bit (rev32 x) n \<longleftrightarrow> n < 32 \<and> bit x (31 - n)"
  using bit_rev32_ball [of x] rev32_clean [of x] by (metis bit_take_bit_iff)

lemma rev32_reflect: "rev32 (take_bit 32 x) = ucast (reflect (ucast x))"
  by (intro bit_word_eqI) (auto simp: bit_rev32 bit_ucast_iff bit_reflect bit_take_bit_iff)

section \<open>The shift register\<close>

lemma bit_be_bit: "bit (be_bit p x) n \<longleftrightarrow>
    (0 < n \<and> n < 32 \<and> bit x (n - 1)) \<noteq> (bit x 31 \<and> bit p n)"
  by (auto simp: be_bit_def bit_simps Suc_le_eq simp del: push_bit_Suc)

lemma bit_le_bit: "bit (le_bit p x) n \<longleftrightarrow> bit x (Suc n) \<noteq> (bit x 0 \<and> bit p n)"
  by (auto simp: le_bit_def bit_simps simp del: drop_bit_Suc)

lemma be_bit_xor: "be_bit p (x XOR y) = be_bit p x XOR be_bit p y"
  by (intro bit_word_eqI) (auto simp: bit_be_bit bit_xor_iff)

lemma le_bit_xor: "le_bit p (x XOR y) = le_bit p x XOR le_bit p y"
  by (intro bit_word_eqI) (auto simp: bit_le_bit bit_xor_iff)

lemma funpow_xor:
  fixes f :: "u32 \<Rightarrow> u32"
  assumes "\<And>x y. f (x XOR y) = f x XOR f y"
  shows "(f ^^ n) (x XOR y) = (f ^^ n) x XOR (f ^^ n) y"
  by (induction n) (simp_all add: assms)

lemma be_bits_shift: "n \<le> 8 \<Longrightarrow> (\<forall>k \<ge> 24. \<not> bit x k) \<Longrightarrow> (be_bit p ^^ n) x = push_bit n x"
proof (induction n)
  case (Suc n)
  then have "\<not> bit (push_bit n x) 31" by (auto simp: bit_push_bit_iff)
  then have "be_bit p (push_bit n x) = push_bit (Suc n) x"
    by (simp only: be_bit_def push_bit_push_bit if_False xor.right_neutral) simp
  with Suc show ?case by simp
qed simp

lemma le_bits_shift: "n \<le> 8 \<Longrightarrow> (\<forall>k < 8. \<not> bit x k) \<Longrightarrow> (le_bit p ^^ n) x = drop_bit n x"
proof (induction n)
  case (Suc n)
  then have "\<not> bit (drop_bit n x) 0" by (auto simp: bit_drop_bit_eq)
  then have "le_bit p (drop_bit n x) = drop_bit (Suc n) x"
    by (simp only: le_bit_def drop_bit_drop_bit if_False xor.right_neutral) simp
  with Suc show ?case by simp
qed simp

lemma be_bits8_split:
  "(be_bit p ^^ 8) x = (be_bit p ^^ 8) (x AND 0xFF000000) XOR push_bit 8 x"
proof -
  have m: "(0xFF000000 :: u32) = push_bit 24 (mask 8)" "(0x00FFFFFF :: u32) = mask 24"
    by (simp_all add: mask_eq_exp_minus_1)
  have "x = (x AND 0xFF000000) XOR (x AND 0x00FFFFFF)"
    unfolding m by (intro bit_word_eqI) (auto simp: bit_simps)
  then have "(be_bit p ^^ 8) x = (be_bit p ^^ 8) (x AND 0xFF000000) XOR (be_bit p ^^ 8) (x AND 0x00FFFFFF)"
    by (metis funpow_xor be_bit_xor)
  also have "(be_bit p ^^ 8) (x AND 0x00FFFFFF) = push_bit 8 (x AND 0x00FFFFFF)"
    by (rule be_bits_shift) (auto simp: m(2) bit_simps)
  also have "push_bit 8 (x AND 0x00FFFFFF) = push_bit 8 x"
    unfolding m by (intro bit_word_eqI) (auto simp: bit_simps)
  finally show ?thesis .
qed

lemma le_bits8_split:
  "(le_bit p ^^ 8) x = (le_bit p ^^ 8) (x AND 0xFF) XOR drop_bit 8 x"
proof -
  have m: "(0xFF :: u32) = mask 8" "(0xFFFFFF00 :: u32) = push_bit 8 (mask 24)"
    by (simp_all add: mask_eq_exp_minus_1)
  have "x = (x AND 0xFF) XOR (x AND 0xFFFFFF00)"
    unfolding m by (intro bit_word_eqI) (auto simp: bit_simps)
  then have "(le_bit p ^^ 8) x = (le_bit p ^^ 8) (x AND 0xFF) XOR (le_bit p ^^ 8) (x AND 0xFFFFFF00)"
    by (metis funpow_xor le_bit_xor)
  also have "(le_bit p ^^ 8) (x AND 0xFFFFFF00) = drop_bit 8 (x AND 0xFFFFFF00)"
    by (rule le_bits_shift) (auto simp: m(2) bit_simps)
  also have "drop_bit 8 (x AND 0xFFFFFF00) = drop_bit 8 x"
    unfolding m by (intro bit_word_eqI) (auto simp: bit_simps dest: bit_imp_le_length)
  finally show ?thesis .
qed

lemma crc_shift_low: "(ucast (crc_shift poly n r) :: u32) = (be_bit (ucast poly) ^^ n) (ucast r)"
proof (induction n arbitrary: r)
  case (Suc n)
  have "drop_bit 31 r AND 1 \<noteq> 0 \<longleftrightarrow> bit r 31"
    by (simp add: and_one_eq bit_iff_odd drop_bit_eq_div odd_iff_mod_2_eq_one)
  then have "(ucast (if drop_bit 31 r AND 1 \<noteq> 0 then push_bit 1 r XOR poly else push_bit 1 r) :: u32)
     = be_bit (ucast poly) (ucast r)"
    by (intro bit_word_eqI) (auto simp: bit_be_bit bit_simps Suc_le_eq simp del: push_bit_Suc)
  with Suc.IH show ?case by (simp add: funpow_swap1)
qed simp

lemma be_reflect: "reflect (be_bit p x) = le_bit (reflect p) (reflect x)"
proof (rule bit_word_eqI)
  fix n assume "n < LENGTH(32)"
  then show "bit (reflect (be_bit p x)) n = bit (le_bit (reflect p) (reflect x)) n"
    by (cases "n < 31") (auto simp: bit_be_bit bit_le_bit bit_reflect)
qed

lemma be_bits_reflect: "reflect ((be_bit p ^^ n) x) = (le_bit (reflect p) ^^ n) (reflect x)"
  by (induction n) (simp_all add: be_reflect)

section \<open>The tables\<close>

lemma ucast_int_shl24: "(ucast (int_shl24 b) :: u32) = push_bit 24 (ucast b)"
  by (intro bit_word_eqI) (auto simp: int_shl24_def bit_simps)

lemma and_low32: "x AND 0xFFFFFFFF = take_bit 32 (x :: u64)"
  by (simp add: take_bit_eq_mask mask_eq_exp_minus_1)

lemma resid_be: "i < 256 \<Longrightarrow> resid (crc32t_be_init poly) ! i =
    ucast ((be_bit (ucast poly) ^^ 8) (push_bit 24 (of_nat i)))"
proof -
  assume i: "i < 256"
  have "(ucast (of_nat i :: byte) :: u32) = of_nat i"
    using i by (simp add: word_unat_eq_iff unsigned_ucast_eq unsigned_of_nat take_bit_nat_eq_self)
  moreover have "take_bit 32 x = ucast (ucast x :: u32)" for x :: u64
    by (intro bit_word_eqI) (auto simp: bit_simps)
  ultimately show ?thesis
    using i by (simp add: crc32t_be_init_def and_low32 crc_shift_low ucast_int_shl24 del: funpow.simps)
qed

lemma reflect_rev8: "reflect (push_bit 24 (ucast (rev8 b))) = ucast b"
proof (rule bit_word_eqI)
  fix n
  have "bit b n \<Longrightarrow> n < 8" using bit_imp_le_length [of b n] by simp
  moreover have "n < 8 \<Longrightarrow> 7 - (7 - n) = n" by simp
  ultimately show "bit (reflect (push_bit 24 (ucast (rev8 b)))) n = bit (ucast b :: u32) n"
    by (auto simp: bit_reflect bit_simps bit_rev8)
qed

lemma resid_le: "i < 256 \<Longrightarrow> resid (crc32t_le_init poly) ! i =
    ucast ((le_bit (reflect (ucast poly)) ^^ 8) (of_nat i))"
proof -
  assume i: "i < 256"
  have "(ucast (of_nat i :: byte) :: u32) = of_nat i"
    using i by (simp add: word_unat_eq_iff unsigned_ucast_eq unsigned_of_nat take_bit_nat_eq_self)
  then show ?thesis
    using i by (simp add: crc32t_le_init_def and_low32 rev32_reflect crc_shift_low ucast_int_shl24
        be_bits_reflect reflect_rev8 del: funpow.simps)
qed

section \<open>The byte loops\<close>

lemma byte_index: "unat ((x :: u64) AND 0xFF) < 256"
proof -
  have "x AND 0xFF = take_bit 8 x" by (simp add: take_bit_eq_mask mask_eq_exp_minus_1)
  moreover have "take_bit 8 (unat x) < 2 ^ 8" by (rule take_bit_nat_less_exp)
  ultimately show ?thesis by (simp add: unsigned_take_bit_eq)
qed

lemma be_step_low: "(ucast (resid (crc32t_be_init poly) ! unat ((ucast b XOR drop_bit 24 crc) AND 0xFF) XOR push_bit 8 crc) :: u32)
    = (be_bit (ucast poly) ^^ 8) (ucast crc XOR push_bit 24 (ucast b))"
proof -
  define i where "i = (ucast b XOR drop_bit 24 crc) AND 0xFF"
  define c where "c = ucast crc XOR push_bit 24 (ucast b :: u32)"
  have m: "(0xFF000000 :: u32) = push_bit 24 (mask 8)" "(0xFF :: u64) = mask 8"
    by (simp_all add: mask_eq_exp_minus_1)
  have "push_bit 24 (ucast i) = c AND 0xFF000000"
    unfolding m i_def c_def by (intro bit_word_eqI) (auto simp: bit_simps)
  moreover have "push_bit 8 c = ucast (push_bit 8 crc)"
    unfolding c_def by (intro bit_word_eqI) (auto simp: bit_simps dest: bit_imp_le_length)
  moreover have "of_nat (unat i) = (ucast i :: u32)" by simp
  moreover have "unat i < 256" unfolding i_def by (rule byte_index)
  moreover have "(ucast (x XOR y) :: u32) = ucast x XOR ucast y" for x y :: u64
    by (intro bit_word_eqI) (auto simp: bit_simps)
  moreover have "ucast (ucast x :: u64) = x" for x :: u32
    by (intro bit_word_eqI) (auto simp: bit_simps)
  ultimately show ?thesis
    unfolding i_def [symmetric] c_def [symmetric] be_bits8_split [of _ c]
    by (simp add: resid_be del: funpow.simps of_nat_unat)
qed

lemma be_loop_low: "(ucast (crc32t_be_loop (crc32t_be_init poly) bs crc) :: u32)
    = be_spec (ucast poly) bs (ucast crc)"
  by (induction bs arbitrary: crc) (simp_all only: crc32t_be_loop.simps be_step_low be_spec_def fold.simps o_apply id_apply)

lemma le_step:
  fixes b :: byte and c :: u32
  shows "resid (crc32t_le_init poly) ! unat (((ucast b :: u64) XOR ucast c) AND 0xFF) XOR drop_bit 8 (ucast c)
    = ucast ((le_bit (reflect (ucast poly)) ^^ 8) (c XOR ucast b))"
proof -
  define i where "i = ((ucast b :: u64) XOR ucast c) AND 0xFF"
  define d where "d = c XOR ucast b"
  have m: "(0xFF :: u32) = mask 8" "(0xFF :: u64) = mask 8"
    by (simp_all add: mask_eq_exp_minus_1)
  have "ucast i = d AND 0xFF"
    unfolding m i_def d_def by (intro bit_word_eqI) (auto simp: bit_simps)
  moreover have "\<not> bit b (8 + n)" for n using bit_imp_le_length [of b "8 + n"] by auto
  then have "(ucast (drop_bit 8 d) :: u64) = drop_bit 8 (ucast c)"
    unfolding d_def by (intro bit_word_eqI) (auto simp: bit_simps dest: bit_imp_le_length)
  moreover have "of_nat (unat i) = (ucast i :: u32)" by simp
  moreover have "unat i < 256" unfolding i_def by (rule byte_index)
  moreover have "(ucast (x XOR y) :: u64) = ucast x XOR ucast y" for x y :: u32
    by (intro bit_word_eqI) (auto simp: bit_simps)
  ultimately show ?thesis
    unfolding i_def [symmetric] d_def [symmetric] le_bits8_split [of _ d]
    by (simp add: resid_le del: funpow.simps of_nat_unat)
qed

lemma le_loop: "crc32t_le (crc32t_le_init poly) bs (ucast c) = ucast (le_spec (reflect (ucast poly)) bs c)"
  by (induction bs arbitrary: c) (simp_all only: crc32t_le.simps le_step le_spec_def fold.simps o_apply id_apply)

section \<open>Properties\<close>

text \<open>the big-endian table and byte loop compute the bitwise remainder, for every polynomial,
  message and initial residue.\<close>

theorem crc32t_be_correct:
  "crc32t_be (crc32t_be_init poly) bs crc = ucast (be_spec (ucast poly) bs (ucast crc))"
proof -
  have "take_bit 32 x = ucast (ucast x :: u32)" for x :: u64
    by (intro bit_word_eqI) (auto simp: bit_simps)
  then show ?thesis by (simp add: crc32t_be_def and_low32 be_loop_low)
qed

text \<open>the little-endian table and byte loop compute the bitwise remainder in the reflected bit
  order, for every polynomial, message and 32-bit initial residue.\<close>

theorem crc32t_le_correct:
  "crc32t_le (crc32t_le_init poly) bs (ucast c) = ucast (le_spec (reflect (ucast poly)) bs c)"
  by (rule le_loop)

text \<open>A residue carries over from one piece of a message to the next.\<close>

lemma crc32t_le_append: "crc32t_le tab (xs @ ys) c = crc32t_le tab ys (crc32t_le tab xs c)"
  by (induction xs arbitrary: c) simp_all

lemma crc32t_be_tab_append:
  "crc32t_be (crc32t_be_init poly) (xs @ ys) c = crc32t_be (crc32t_be_init poly) ys (crc32t_be (crc32t_be_init poly) xs c)"
proof -
  have "ucast (ucast x :: u64) = x" for x :: u32
    by (intro bit_word_eqI) (auto simp: bit_simps)
  then show ?thesis by (simp add: crc32t_be_correct be_spec_def)
qed

interpretation crc_le: stream_hash "\<lambda>c bs. crc32t_le tab bs c" "\<lambda>c. c" "\<lambda>_. True" for tab
  by unfold_locales (simp_all add: crc32t_le_append)

interpretation crc_be: stream_hash "\<lambda>c bs. crc32t_be (crc32t_be_init poly) bs c" "\<lambda>c. c" "\<lambda>_. True" for poly
  by unfold_locales (simp_all add: crc32t_be_tab_append)

text \<open>The global table is the CRC-32 table once the flag says so.\<close>

definition crc_globals_ok :: "crc_globals \<Rightarrow> bool" where
  "crc_globals_ok g \<longleftrightarrow>
     (crc32_table_initialized g \<longrightarrow> crc32_table g = crc32t_le_init CAT_CRC32_POLY)"

lemma reflect_poly: "reflect (ucast CAT_CRC32_POLY) = ucast CAT_CRC32_POLY_REV"
  by (code_simp)

lemma crc32_start_ok:
  "crc_globals_ok g \<Longrightarrow> crc_globals_ok (fst (crc32_start g)) \<and>
     crc32_table (fst (crc32_start g)) = crc32t_le_init CAT_CRC32_POLY"
  by (auto simp: crc32_start_def crc32_init_def crc_globals_ok_def)

text \<open>C12: from any state in which the initialised flag is honest, feeding a message in pieces to
  \<open>crc32_step\<close> and finishing gives the standard reflected CRC-32 of the whole message.\<close>

theorem crc32_chunks_correct:
  assumes "crc_globals_ok g"
  shows "crc32_finish (fold (\<lambda>c crc. crc32_step (fst (crc32_start g)) c crc) (c # cs) (snd (crc32_start g)))
    = ucast (NOT (le_spec (ucast CAT_CRC32_POLY_REV) (c @ concat cs) 0xFFFFFFFF))"
proof -
  let ?t = "crc32t_le_init CAT_CRC32_POLY"
  have "fold (\<lambda>c crc. crc32_step (fst (crc32_start g)) c crc) (c # cs) (snd (crc32_start g))
      = crc32t_le ?t (c @ concat cs) (snd (crc32_start g))"
    using crc32_start_ok [OF assms] by (simp only: crc32_step_def crc_le.chunks [OF TrueI])
  also have "snd (crc32_start g) = ucast (0xFFFFFFFF :: u32)"
    by (simp add: crc32_start_def)
  moreover have "ucast (x :: u32) XOR 0xFFFFFFFF = (ucast (NOT x) :: u64)" for x
  proof -
    have m: "(0xFFFFFFFF :: u64) = mask 32" by (simp add: mask_eq_exp_minus_1)
    show ?thesis unfolding m by (intro bit_word_eqI) (auto simp: bit_simps dest: bit_imp_le_length)
  qed
  ultimately show ?thesis
    by (simp only: le_loop reflect_poly crc32_finish_def)
qed

theorem crc32_chunks_correct_witness:
  "let g = \<lparr>crc32_table = \<lparr>resid = []\<rparr>, crc32_table_initialized = False\<rparr> in
   crc32_finish (fold (\<lambda>c crc. crc32_step (fst (crc32_start g)) c crc) [[0x31, 0x32], [0x33]] (snd (crc32_start g)))
    = ucast (NOT (le_spec (ucast CAT_CRC32_POLY_REV) ([0x31, 0x32] @ concat [[0x33]]) 0xFFFFFFFF))"
  unfolding Let_def by (rule crc32_chunks_correct) (simp add: crc_globals_ok_def)

end
