(* ===== verification/Bitops.thy ===== *)
theory Bitops
  imports CatPrelude
begin

text \<open>
  The bit operations of src/bitops.c and the portable definitions of include/cat/archops.h: power
  of two rounding, population count, leading and trailing zeros, integer logarithm, compress and
  sheep-and-goats, permutation vectors and bit gathering.  Where the code has a 32-bit and a 64-bit
  copy of one algorithm, the shared loop is word-polymorphic and both copies are its instances.
\<close>

section \<open>Rounding to powers of two\<close>

definition rup2_32 :: "u32 \<Rightarrow> nat \<Rightarrow> u32" where
  "rup2_32 x lg2p = (let p2 = push_bit lg2p 1 - 1 in if lg2p > 31 then 0 else (x + p2) AND NOT p2)"

definition rdp2_32 :: "u32 \<Rightarrow> nat \<Rightarrow> u32" where
  "rdp2_32 x lg2p = (if lg2p > 31 then 0 else x AND NOT (push_bit lg2p 1 - 1))"

definition rup2_64 :: "u64 \<Rightarrow> nat \<Rightarrow> u64" where
  "rup2_64 x lg2p = (let p2 = push_bit lg2p 1 - 1 in if lg2p > 63 then 0 else (x + p2) AND NOT p2)"

definition rdp2_64 :: "u64 \<Rightarrow> nat \<Rightarrow> u64" where
  "rdp2_64 x lg2p = (if lg2p > 63 then 0 else x AND NOT (push_bit lg2p 1 - 1))"

section \<open>Counting bits\<close>

definition num_bits_array :: "nat list" where
  "num_bits_array =
    [0, 1, 1, 2, 1, 2, 2, 3, 1, 2, 2, 3, 2, 3, 3, 4, 1, 2, 2, 3, 2, 3, 3, 4, 2, 3, 3, 4, 3, 4, 4, 5,
     1, 2, 2, 3, 2, 3, 3, 4, 2, 3, 3, 4, 3, 4, 4, 5, 2, 3, 3, 4, 3, 4, 4, 5, 3, 4, 4, 5, 4, 5, 5, 6,
     1, 2, 2, 3, 2, 3, 3, 4, 2, 3, 3, 4, 3, 4, 4, 5, 2, 3, 3, 4, 3, 4, 4, 5, 3, 4, 4, 5, 4, 5, 5, 6,
     2, 3, 3, 4, 3, 4, 4, 5, 3, 4, 4, 5, 4, 5, 5, 6, 3, 4, 4, 5, 4, 5, 5, 6, 4, 5, 5, 6, 5, 6, 6, 7,
     1, 2, 2, 3, 2, 3, 3, 4, 2, 3, 3, 4, 3, 4, 4, 5, 2, 3, 3, 4, 3, 4, 4, 5, 3, 4, 4, 5, 4, 5, 5, 6,
     2, 3, 3, 4, 3, 4, 4, 5, 3, 4, 4, 5, 4, 5, 5, 6, 3, 4, 4, 5, 4, 5, 5, 6, 4, 5, 5, 6, 5, 6, 6, 7,
     2, 3, 3, 4, 3, 4, 4, 5, 3, 4, 4, 5, 4, 5, 5, 6, 3, 4, 4, 5, 4, 5, 5, 6, 4, 5, 5, 6, 5, 6, 6, 7,
     3, 4, 4, 5, 4, 5, 5, 6, 4, 5, 5, 6, 5, 6, 6, 7, 4, 5, 5, 6, 5, 6, 6, 7, 5, 6, 6, 7, 6, 7, 7, 8]"

definition num_leading_zeros_array :: "nat list" where
  "num_leading_zeros_array =
    [8, 7, 6, 6, 5, 5, 5, 5, 4, 4, 4, 4, 4, 4, 4, 4, 3, 3, 3, 3, 3, 3, 3, 3, 3, 3, 3, 3, 3, 3, 3, 3,
     2, 2, 2, 2, 2, 2, 2, 2, 2, 2, 2, 2, 2, 2, 2, 2, 2, 2, 2, 2, 2, 2, 2, 2, 2, 2, 2, 2, 2, 2, 2, 2,
     1, 1, 1, 1, 1, 1, 1, 1, 1, 1, 1, 1, 1, 1, 1, 1, 1, 1, 1, 1, 1, 1, 1, 1, 1, 1, 1, 1, 1, 1, 1, 1,
     1, 1, 1, 1, 1, 1, 1, 1, 1, 1, 1, 1, 1, 1, 1, 1, 1, 1, 1, 1, 1, 1, 1, 1, 1, 1, 1, 1, 1, 1, 1, 1,
     0, 0, 0, 0, 0, 0, 0, 0, 0, 0, 0, 0, 0, 0, 0, 0, 0, 0, 0, 0, 0, 0, 0, 0, 0, 0, 0, 0, 0, 0, 0, 0,
     0, 0, 0, 0, 0, 0, 0, 0, 0, 0, 0, 0, 0, 0, 0, 0, 0, 0, 0, 0, 0, 0, 0, 0, 0, 0, 0, 0, 0, 0, 0, 0,
     0, 0, 0, 0, 0, 0, 0, 0, 0, 0, 0, 0, 0, 0, 0, 0, 0, 0, 0, 0, 0, 0, 0, 0, 0, 0, 0, 0, 0, 0, 0, 0,
     0, 0, 0, 0, 0, 0, 0, 0, 0, 0, 0, 0, 0, 0, 0, 0, 0, 0, 0, 0, 0, 0, 0, 0, 0, 0, 0, 0, 0, 0, 0, 0]"

definition nbits8 :: "byte \<Rightarrow> nat" where "nbits8 x = num_bits_array ! unat x"
definition nlz8 :: "byte \<Rightarrow> nat" where "nlz8 x = num_leading_zeros_array ! unat x"

text \<open>The do loop over the bytes, \<open>k\<close> of which remain after the one looked at now.\<close>

fun nlz_loop :: "'w::len word \<Rightarrow> nat \<Rightarrow> nat \<Rightarrow> nat" where
  "nlz_loop x 0 n = n + nlz8 (ucast x)"
| "nlz_loop x (Suc k) n = (let b = nlz8 (ucast (drop_bit (8 * Suc k) x)); n' = n + b
     in if b = 8 then nlz_loop x k n' else n')"

definition nlz_32 :: "u32 \<Rightarrow> nat" where "nlz_32 x = nlz_loop x 3 0"
definition nlz_64 :: "u64 \<Rightarrow> nat" where "nlz_64 x = nlz_loop x 7 0"

definition ilog2_32 :: "u32 \<Rightarrow> int" where
  "ilog2_32 x = (if x = 0 then -1 else 31 - int (nlz_32 x))"

definition ilog2_64 :: "u64 \<Rightarrow> int" where
  "ilog2_64 x = (if x = 0 then -1 else 63 - int (nlz_64 x))"

definition pop_32 :: "u32 \<Rightarrow> nat" where
  "pop_32 x0 = (let
     x = (x0 AND 0x55555555) + (drop_bit 1 x0 AND 0x55555555);
     x = (x AND 0x33333333) + (drop_bit 2 x AND 0x33333333);
     x = (x AND 0x0F0F0F0F) + (drop_bit 4 x AND 0x0F0F0F0F);
     x = (x AND 0x00FF00FF) + (drop_bit 8 x AND 0x00FF00FF);
     x = x + drop_bit 16 x
   in unat (x AND 0x3F))"

definition ntz_32 :: "u32 \<Rightarrow> nat" where "ntz_32 x = pop_32 (NOT x AND (x - 1))"

definition pop_64 :: "u64 \<Rightarrow> nat" where
  "pop_64 x0 = (let
     x = (x0 AND 0x5555555555555555) + (drop_bit 1 x0 AND 0x5555555555555555);
     x = (x AND 0x3333333333333333) + (drop_bit 2 x AND 0x3333333333333333);
     x = (x AND 0x0F0F0F0F0F0F0F0F) + (drop_bit 4 x AND 0x0F0F0F0F0F0F0F0F);
     x = (x AND 0x00FF00FF00FF00FF) + (drop_bit 8 x AND 0x00FF00FF00FF00FF);
     x = (x AND 0x0000FFFF0000FFFF) + (drop_bit 16 x AND 0x0000FFFF0000FFFF);
     x = x + drop_bit 32 x
   in unat (x AND 0x7F))"

definition ntz_64 :: "u64 \<Rightarrow> nat" where "ntz_64 x = pop_64 (NOT x AND (x - 1))"

section \<open>Compress and sheep-and-goats\<close>

text \<open>\<open>prefix_l\<close> and \<open>prefix_r\<close> are the \<open>mp\<close> chains: xor with all bits to the left or right.\<close>

fun prefix_r :: "nat \<Rightarrow> 'w::len word \<Rightarrow> 'w word" where
  "prefix_r 0 mk = mk"
| "prefix_r (Suc k) mk = (let mp = prefix_r k mk in mp XOR push_bit (2 ^ k) mp)"

fun prefix_l :: "nat \<Rightarrow> 'w::len word \<Rightarrow> 'w word" where
  "prefix_l 0 mk = mk"
| "prefix_l (Suc k) mk = (let mp = prefix_l k mk in mp XOR drop_bit (2 ^ k) mp)"

definition compress_r_step :: "nat \<Rightarrow> nat \<Rightarrow> 'w::len word \<times> 'w word \<times> 'w word \<Rightarrow> 'w word \<times> 'w word \<times> 'w word" where
  "compress_r_step lg i = (\<lambda>(x, m, mk). let
     mp = prefix_r lg mk;
     mv = m AND mp;
     m = (m XOR mv) OR drop_bit (2 ^ i) mv;
     t = x AND mv;
     x = (x XOR t) OR drop_bit (2 ^ i) t;
     mk = mk AND NOT mp
   in (x, m, mk))"

definition compress_l_step :: "nat \<Rightarrow> nat \<Rightarrow> 'w::len word \<times> 'w word \<times> 'w word \<Rightarrow> 'w word \<times> 'w word \<times> 'w word" where
  "compress_l_step lg i = (\<lambda>(x, m, mk). let
     mp = prefix_l lg mk;
     mv = m AND mp;
     m = (m XOR mv) OR push_bit (2 ^ i) mv;
     t = x AND mv;
     x = (x XOR t) OR push_bit (2 ^ i) t;
     mk = mk AND NOT mp
   in (x, m, mk))"

definition compress_r :: "nat \<Rightarrow> 'w::len word \<Rightarrow> 'w word \<Rightarrow> 'w word" where
  "compress_r lg x m = fst (fold (compress_r_step lg) [0..<lg] (x AND m, m, push_bit 1 (NOT m)))"

definition compress_l :: "nat \<Rightarrow> 'w::len word \<Rightarrow> 'w word \<Rightarrow> 'w word" where
  "compress_l lg x m = fst (fold (compress_l_step lg) [0..<lg] (x AND m, m, drop_bit 1 (NOT m)))"

definition compress_l32 :: "u32 \<Rightarrow> u32 \<Rightarrow> u32" where "compress_l32 = compress_l 5"
definition compress_r32 :: "u32 \<Rightarrow> u32 \<Rightarrow> u32" where "compress_r32 = compress_r 5"
definition compress_l64 :: "u64 \<Rightarrow> u64 \<Rightarrow> u64" where "compress_l64 = compress_l 6"
definition compress_r64 :: "u64 \<Rightarrow> u64 \<Rightarrow> u64" where "compress_r64 = compress_r 6"

definition SAG32 :: "u32 \<Rightarrow> u32 \<Rightarrow> u32" where
  "SAG32 x msk = compress_l32 x msk OR compress_r32 x (NOT msk)"

definition SAG64 :: "u64 \<Rightarrow> u64 \<Rightarrow> u64" where
  "SAG64 x msk = compress_l64 x msk OR compress_r64 x (NOT msk)"

section \<open>Permutation vectors\<close>

text \<open>The first loop: every entry is in range and none occurs twice.\<close>

fun perm_check :: "byte \<Rightarrow> byte list \<Rightarrow> 'w::len word \<Rightarrow> bool" where
  "perm_check msk [] t = True"
| "perm_check msk (a # as) t =
     (if a AND NOT msk \<noteq> 0 then False
      else let b = push_bit (unat a) 1 in
        if t AND b \<noteq> 0 then False else perm_check msk as (t OR b))"

definition permvec_bit :: "nat \<Rightarrow> byte list \<Rightarrow> 'w::len word" where
  "permvec_bit i arr = fold (\<lambda>j v. v OR push_bit j (ucast (drop_bit i (arr ! j) AND 1))) [0..<length arr] 0"

definition arr_to_SAG_permvec32 :: "byte list \<Rightarrow> u32 list option" where
  "arr_to_SAG_permvec32 arr =
     (if \<not> perm_check 0x1F arr (0 :: u32) then None
      else let p0 = permvec_bit 0 arr;
               p1 = SAG32 (permvec_bit 1 arr) p0;
               p2 = SAG32 (SAG32 (permvec_bit 2 arr) p0) p1;
               p3 = SAG32 (SAG32 (SAG32 (permvec_bit 3 arr) p0) p1) p2;
               p4 = SAG32 (SAG32 (SAG32 (SAG32 (permvec_bit 4 arr) p0) p1) p2) p3
           in Some [p0, p1, p2, p3, p4])"

definition permute32_SAG :: "u32 \<Rightarrow> u32 list \<Rightarrow> u32" where
  "permute32_SAG bits pv =
     SAG32 (SAG32 (SAG32 (SAG32 (SAG32 bits (pv ! 0)) (pv ! 1)) (pv ! 2)) (pv ! 3)) (pv ! 4)"

definition arr_to_SAG_permvec64 :: "byte list \<Rightarrow> u64 list option" where
  "arr_to_SAG_permvec64 arr =
     (if \<not> perm_check 0x3F arr (0 :: u64) then None
      else let p0 = permvec_bit 0 arr;
               p1 = SAG64 (permvec_bit 1 arr) p0;
               p2 = SAG64 (SAG64 (permvec_bit 2 arr) p0) p1;
               p3 = SAG64 (SAG64 (SAG64 (permvec_bit 3 arr) p0) p1) p2;
               p4 = SAG64 (SAG64 (SAG64 (SAG64 (permvec_bit 4 arr) p0) p1) p2) p3;
               p5 = SAG64 (SAG64 (SAG64 (SAG64 (SAG64 (permvec_bit 5 arr) p0) p1) p2) p3) p4
           in Some [p0, p1, p2, p3, p4, p5])"

definition permute64_SAG :: "u64 \<Rightarrow> u64 list \<Rightarrow> u64" where
  "permute64_SAG bits pv =
     SAG64 (SAG64 (SAG64 (SAG64 (SAG64 (SAG64 bits (pv ! 0)) (pv ! 1)) (pv ! 2)) (pv ! 3)) (pv ! 4)) (pv ! 5)"

definition bitgather32 :: "u32 \<Rightarrow> byte list \<Rightarrow> u32" where
  "bitgather32 bits pos = fold (\<lambda>i x. x OR push_bit i (drop_bit (unat (pos ! i AND 0x1F)) bits AND 1)) [0..<32] 0"

definition bitgather64 :: "u64 \<Rightarrow> byte list \<Rightarrow> u64" where
  "bitgather64 bits pos = fold (\<lambda>i x. x OR push_bit i (drop_bit (unat (pos ! i AND 0x3F)) bits AND 1)) [0..<64] 0"

section \<open>Compress moves the selected bits together\<close>

text \<open>
  \<open>zeros_le m p\<close> is the number of unselected positions below \<open>p\<close>.  The selected bit at \<open>p\<close> has to
  move that far; round \<open>i\<close> moves it by \<open>2 ^ i\<close> when bit \<open>i\<close> of the distance is set.
\<close>

definition zeros_le :: "'w::len word \<Rightarrow> nat \<Rightarrow> nat" where
  "zeros_le m p = card {q. q < p \<and> \<not> bit m q}"

definition moved :: "'w::len word \<Rightarrow> nat \<Rightarrow> nat \<Rightarrow> nat" where
  "moved m i p = p - zeros_le m p mod 2 ^ i"

lemma zeros_le_Suc: "zeros_le m (Suc p) = zeros_le m p + (if bit m p then 0 else 1)"
proof -
  have "{q. q < Suc p \<and> \<not> bit m q} = {q. q < p \<and> \<not> bit m q} \<union> (if bit m p then {} else {p})"
    by (auto simp: less_Suc_eq)
  then show ?thesis by (simp add: zeros_le_def)
qed

lemma zeros_le_0 [simp]: "zeros_le m 0 = 0"
  by (simp add: zeros_le_def)

lemma zeros_le_le: "zeros_le m p \<le> p"
  by (induction p) (auto simp: zeros_le_Suc)

lemma zeros_le_diff: "zeros_le m p \<le> zeros_le m (p - d) + d"
  by (induction d) (auto simp: zeros_le_Suc diff_Suc split: nat.splits if_splits)

lemma zeros_le_mono: "p \<le> q \<Longrightarrow> zeros_le m p \<le> zeros_le m q"
  unfolding zeros_le_def by (intro card_mono) auto

text \<open>The prefix parity of \<open>prefix_r\<close>.\<close>

lemma bit_prefix_r:
  "bit (prefix_r k mk) n \<longleftrightarrow> odd (card {q. q \<le> n \<and> n < q + 2 ^ k \<and> bit (mk :: 'w::len word) q})"
    if "n < LENGTH('w)"
  using that
proof (induction k arbitrary: n)
  case 0
  have "{q. q \<le> n \<and> n < q + 1 \<and> bit mk q} = (if bit mk n then {n} else {})"
    by (auto simp: less_Suc_eq_le dest: le_antisym)
  then show ?case by simp
next
  case (Suc k)
  let ?S = "\<lambda>k n. {q. q \<le> n \<and> n < q + 2 ^ k \<and> bit mk q}"
  have fin: "finite (?S k n)" for k n by simp
  show ?case
  proof (cases "2 ^ k \<le> n")
    case True
    have "?S (Suc k) n = ?S k n \<union> ?S k (n - 2 ^ k)" using True by auto
    moreover have "?S k n \<inter> ?S k (n - 2 ^ k) = {}" using True by auto
    ultimately have "card (?S (Suc k) n) = card (?S k n) + card (?S k (n - 2 ^ k))"
      by (simp add: card_Un_disjoint)
    then show ?thesis using Suc True by (auto simp: Let_def bit_xor_iff bit_push_bit_iff)
  next
    case False
    then have "?S (Suc k) n = ?S k n" by auto
    then show ?thesis using Suc False by (simp add: Let_def bit_xor_iff bit_push_bit_iff)
  qed
qed

lemma bit_prefix_r_full:
  assumes "n < LENGTH('w)" "LENGTH('w) = 2 ^ lg"
  shows "bit (prefix_r lg mk) n \<longleftrightarrow> odd (card {q. q \<le> n \<and> bit (mk :: 'w::len word) q})"
proof -
  have "n < q + 2 ^ lg" for q using assms by linarith
  then show ?thesis using bit_prefix_r [OF assms(1), of lg mk] by simp
qed

text \<open>\<open>mk\<close> before round \<open>i\<close> holds every \<open>2 ^ i\<close>-th of the marks it started with.\<close>

definition marks :: "'w::len word \<Rightarrow> nat \<Rightarrow> 'w word \<Rightarrow> bool" where
  "marks m i mk \<longleftrightarrow> (\<forall>p < LENGTH('w). bit mk p \<longleftrightarrow>
     (0 < p \<and> \<not> bit m (p - 1) \<and> 2 ^ i dvd zeros_le m p))"

lemma marks_count:
  assumes "marks m i (mk :: 'w::len word)" "p < LENGTH('w)"
  shows "card {q. q \<le> p \<and> bit mk q} = zeros_le m p div 2 ^ i"
  using assms(2)
proof (induction p)
  case 0
  then have "{q. q \<le> 0 \<and> bit mk q} = {}" using assms(1) by (auto simp: marks_def)
  then show ?case by simp
next
  case (Suc p)
  have "{q. q \<le> Suc p \<and> bit mk q} = {q. q \<le> p \<and> bit mk q} \<union> (if bit mk (Suc p) then {Suc p} else {})"
    by (auto simp: le_Suc_eq)
  then have "card {q. q \<le> Suc p \<and> bit mk q} = card {q. q \<le> p \<and> bit mk q} + (if bit mk (Suc p) then 1 else 0)"
    by simp
  also have "\<dots> = zeros_le m p div 2 ^ i + (if \<not> bit m p \<and> 2 ^ i dvd Suc (zeros_le m p) then 1 else 0)"
    using Suc assms(1) by (auto simp: marks_def zeros_le_Suc)
  also have "\<dots> = zeros_le m (Suc p) div 2 ^ i"
    by (auto simp: zeros_le_Suc div_Suc mod_eq_0_iff_dvd)
  finally show ?case .
qed

lemma marks_step:
  fixes m mk :: "'w::len word"
  assumes "marks m i mk" "LENGTH('w) = 2 ^ lg"
  shows "marks m (Suc i) (mk AND NOT (prefix_r lg mk))"
  unfolding marks_def
proof (intro allI impI)
  fix p assume p: "p < LENGTH('w)"
  have "2 ^ Suc i dvd z \<longleftrightarrow> 2 ^ i dvd z \<and> even (z div 2 ^ i)" for z :: nat
    by (metis dvd_div_iff_mult dvd_mult_left dvd_power_iff_le nat_dvd_not_less power_Suc power_Suc2 zero_less_numeral zero_less_power not_gr_zero mult.commute)
  then show "bit (mk AND NOT (prefix_r lg mk)) p \<longleftrightarrow> 0 < p \<and> \<not> bit m (p - 1) \<and> 2 ^ Suc i dvd zeros_le m p"
    using assms(1) p by (auto simp: bit_and_iff bit_not_iff bit_prefix_r_full [OF p assms(2)]
        marks_count [OF assms(1) p] marks_def simp del: power_Suc)
qed

lemma moved_0 [simp]: "moved m 0 p = p"
  by (simp add: moved_def)

lemma moved_le: "moved m i p \<le> p"
  by (simp add: moved_def)

lemma mod_pow_Suc: "(z :: nat) mod 2 ^ Suc i = z mod 2 ^ i + (if odd (z div 2 ^ i) then 2 ^ i else 0)"
proof -
  have "z mod 2 ^ Suc i = z mod (2 ^ i * 2)" by (simp add: mult.commute)
  also have "\<dots> = 2 ^ i * (z div 2 ^ i mod 2) + z mod 2 ^ i" by (rule mod_mult2_eq)
  finally show ?thesis by (simp add: odd_iff_mod_2_eq_one)
qed

lemma moved_Suc: "moved m (Suc i) p = moved m i p - (if odd (zeros_le m p div 2 ^ i) then 2 ^ i else 0)"
  unfolding moved_def mod_pow_Suc by simp

lemma moved_Suc_le: "odd (zeros_le m p div 2 ^ i) \<Longrightarrow> 2 ^ i \<le> moved m i p"
proof -
  assume "odd (zeros_le m p div 2 ^ i)"
  then have "zeros_le m p mod 2 ^ Suc i = zeros_le m p mod 2 ^ i + 2 ^ i" by (simp add: mod_pow_Suc del: power_Suc)
  moreover have "zeros_le m p mod 2 ^ Suc i \<le> p"
    using zeros_le_le [of m p] mod_less_eq_dividend order_trans by blast
  ultimately show ?thesis by (simp add: moved_def)
qed

lemma zeros_le_moved: "zeros_le m (moved m i p) div 2 ^ i = zeros_le m p div 2 ^ i"
proof (rule antisym)
  show "zeros_le m (moved m i p) div 2 ^ i \<le> zeros_le m p div 2 ^ i"
    by (intro div_le_mono zeros_le_mono moved_le)
  have "zeros_le m p - zeros_le m p mod 2 ^ i \<le> zeros_le m (moved m i p)"
    using zeros_le_diff [of m p "zeros_le m p mod 2 ^ i"] by (simp add: moved_def)
  then have "(zeros_le m p - zeros_le m p mod 2 ^ i) div 2 ^ i \<le> zeros_le m (moved m i p) div 2 ^ i"
    by (rule div_le_mono)
  then show "zeros_le m p div 2 ^ i \<le> zeros_le m (moved m i p) div 2 ^ i"
    by (simp add: minus_mod_eq_mult_div)
qed

definition at_moved :: "'w::len word \<Rightarrow> nat \<Rightarrow> 'w word \<Rightarrow> 'w word \<Rightarrow> bool" where
  "at_moved m i y x \<longleftrightarrow> (\<forall>q. bit x q \<longleftrightarrow> (\<exists>p. bit m p \<and> bit y p \<and> q = moved m i p))"

lemma at_moved_step:
  fixes m x y mk mi :: "'w::len word"
  assumes x: "at_moved m i y x" and mk: "marks m i mk" and w: "LENGTH('w) = 2 ^ lg"
    and mi: "at_moved m i (- 1) mi"
    and t: "t = x AND (mi AND prefix_r lg mk)"
  shows "at_moved m (Suc i) y ((x XOR t) OR drop_bit (2 ^ i) t)"
proof -
  have par: "bit (prefix_r lg mk) (moved m i p) \<longleftrightarrow> odd (zeros_le m p div 2 ^ i)" if "bit m p" for p
  proof -
    have "moved m i p < LENGTH('w)"
      using bit_imp_le_length [OF that] moved_le [of m i p] by linarith
    then show ?thesis
      by (simp add: bit_prefix_r_full [OF _ w] marks_count [OF mk] zeros_le_moved)
  qed
  have bx: "bit x q \<longleftrightarrow> (\<exists>p. bit m p \<and> bit y p \<and> q = moved m i p)" for q
    using x by (simp add: at_moved_def)
  have bm: "bit mi (moved m i p)" if "bit m p" for p
    using mi that bit_imp_le_length [OF that] by (auto simp: at_moved_def)
  have "bit ((x XOR t) OR drop_bit (2 ^ i) t) q \<longleftrightarrow>
      (\<exists>p. bit m p \<and> bit y p \<and> q = moved m (Suc i) p)" (is "?l \<longleftrightarrow> ?r") for q
  proof
    assume ?l
    then consider "bit x q" "\<not> bit t q" | "bit t (2 ^ i + q)"
      by (auto simp: bit_or_iff bit_xor_iff bit_drop_bit_eq t bit_and_iff)
    then show ?r
    proof cases
      case 1
      then obtain p where p: "bit m p" "bit y p" "q = moved m i p" using bx by auto
      with 1 have "\<not> odd (zeros_le m p div 2 ^ i)" using bm par by (auto simp: t bit_and_iff)
      with p show ?thesis by (auto simp: moved_Suc)
    next
      case 2
      then obtain p where p: "bit m p" "bit y p" "2 ^ i + q = moved m i p" using bx by (auto simp: t bit_and_iff)
      with 2 have "odd (zeros_le m p div 2 ^ i)" using par by (auto simp: t bit_and_iff)
      with p have "q = moved m (Suc i) p" by (simp add: moved_Suc flip: p(3))
      with p show ?thesis by auto
    qed
  next
    assume ?r
    then obtain p where p: "bit m p" "bit y p" "q = moved m (Suc i) p" by auto
    have xp: "bit x (moved m i p)" using p bx by auto
    show ?l
    proof (cases "odd (zeros_le m p div 2 ^ i)")
      case True
      then have "2 ^ i + q = moved m i p" using p(3) moved_Suc_le [OF True] by (simp add: moved_Suc)
      moreover have "bit t (moved m i p)" using xp bm [OF p(1)] par [OF p(1)] True by (simp add: t bit_and_iff)
      ultimately show ?thesis by (simp add: bit_or_iff bit_drop_bit_eq)
    next
      case False
      then have "q = moved m i p" using p(3) by (simp add: moved_Suc)
      moreover have "\<not> bit t (moved m i p)" using par [OF p(1)] False by (simp add: t bit_and_iff)
      ultimately show ?thesis using xp by (simp add: bit_or_iff bit_xor_iff)
    qed
  qed
  then show ?thesis by (simp add: at_moved_def)
qed

lemma compress_r_loop:
  fixes x m :: "'w::len word"
  assumes w: "LENGTH('w) = 2 ^ lg"
    and "fold (compress_r_step lg) [0..<i] (x AND m, m, push_bit 1 (NOT m)) = (xi, mi, mk)"
  shows "at_moved m i x xi \<and> at_moved m i (- 1) mi \<and> marks m i mk"
  using assms(2)
proof (induction i arbitrary: xi mi mk)
  case 0
  then show ?case
    by (auto simp: at_moved_def marks_def bit_and_iff bit_push_bit_iff bit_not_iff Suc_le_eq
        simp del: push_bit_Suc dest: bit_imp_le_length)
next
  case (Suc i)
  obtain xj mj kj where j: "fold (compress_r_step lg) [0..<i] (x AND m, m, push_bit 1 (NOT m)) = (xj, mj, kj)"
    by (metis prod_cases3)
  note IH = Suc.IH [OF j]
  have "compress_r_step lg i (xj, mj, kj) = (xi, mi, mk)"
    using Suc.prems by (simp only: upt_Suc_append [OF le0] fold_append o_apply j fold.simps id_apply)
  then have e: "xi = (xj XOR (xj AND (mj AND prefix_r lg kj))) OR drop_bit (2 ^ i) (xj AND (mj AND prefix_r lg kj))"
      "mi = (mj XOR (mj AND prefix_r lg kj)) OR drop_bit (2 ^ i) (mj AND prefix_r lg kj)"
      "mk = kj AND NOT (prefix_r lg kj)"
    by (simp_all only: compress_r_step_def Let_def prod.case prod.inject)
  have a: "mj AND prefix_r lg kj = mj AND (mj AND prefix_r lg kj)" by (simp only: and.left_idem)
  from IH have h: "at_moved m i x xj" "at_moved m i (- 1) mj" "marks m i kj" by simp_all
  show ?case
    using at_moved_step [OF h(1) h(3) w h(2) refl] at_moved_step [OF h(2) h(3) w h(2) a] marks_step [OF h(3) w]
    by (simp only: e)
qed

lemma ones_below_Suc:
  "card {r. r < Suc p \<and> bit m r} = card {r. r < p \<and> bit m r} + (if bit (m :: 'w::len word) p then 1 else 0)"
proof -
  have "{r. r < Suc p \<and> bit m r} = {r. r < p \<and> bit m r} \<union> (if bit m p then {p} else {})"
    by (auto simp: less_Suc_eq)
  then show ?thesis by simp
qed

lemma zeros_le_card: "zeros_le m p + card {r. r < p \<and> bit m r} = p"
  by (induction p) (simp_all add: zeros_le_Suc ones_below_Suc)

lemma bit_compress_r:
  fixes x m :: "'w::len word"
  assumes w: "LENGTH('w) = 2 ^ lg"
  shows "bit (compress_r lg x m) q \<longleftrightarrow> (\<exists>p. bit m p \<and> bit x p \<and> q = card {r. r < p \<and> bit m r})"
proof -
  obtain xi mi mk where f: "fold (compress_r_step lg) [0..<lg] (x AND m, m, push_bit 1 (NOT m)) = (xi, mi, mk)"
    by (metis prod_cases3)
  have "moved m lg p = card {r. r < p \<and> bit m r}" if "bit m p" for p
  proof -
    have "zeros_le m p < 2 ^ lg" using zeros_le_le [of m p] bit_imp_le_length [OF that] w by simp
    then show ?thesis using zeros_le_card [of m p] by (simp add: moved_def)
  qed
  moreover have "compress_r lg x m = xi" by (simp only: compress_r_def f fst_conv)
  ultimately show ?thesis
    using compress_r_loop [OF w f] by (auto simp: at_moved_def)
qed

section \<open>The left form is the mirror image\<close>

definition wrev :: "'w::len word \<Rightarrow> 'w word" where
  "wrev x = horner_sum of_bool 2 (map (bit x) (rev [0..<LENGTH('w)]))"

lemma bit_wrev: "bit (wrev (x :: 'w::len word)) n \<longleftrightarrow> n < LENGTH('w) \<and> bit x (LENGTH('w) - Suc n)"
  by (auto simp: wrev_def bit_horner_sum_bit_word_iff rev_nth)

lemma wrev_wrev [simp]: "wrev (wrev x) = x"
  by (intro bit_word_eqI) (auto simp: bit_wrev Suc_diff_Suc)

lemma wrev_ops:
  "wrev (x AND y) = wrev x AND wrev y" "wrev (x OR y) = wrev x OR wrev y"
  "wrev (x XOR y) = wrev x XOR wrev y" "wrev (NOT x) = NOT (wrev x)"
  by (auto intro!: bit_word_eqI simp: bit_wrev bit_simps)

lemma wrev_push: "wrev (push_bit k x) = drop_bit k (wrev (x :: 'w::len word))"
proof (rule bit_word_eqI)
  fix n assume "n < LENGTH('w)"
  moreover have "LENGTH('w) - Suc n - k = LENGTH('w) - Suc (k + n)" by simp
  ultimately show "bit (wrev (push_bit k x)) n = bit (drop_bit k (wrev x)) n"
    by (auto simp: bit_wrev bit_push_bit_iff bit_drop_bit_eq)
qed

lemma wrev_drop: "wrev (drop_bit k x) = push_bit k (wrev (x :: 'w::len word))"
  using wrev_push [of k "wrev x"] by (metis wrev_wrev)

lemma wrev_prefix: "wrev (prefix_l k mk) = prefix_r k (wrev mk)"
  by (induction k) (simp_all add: Let_def wrev_ops wrev_drop)

lemma wrev_step:
  "compress_r_step lg i (wrev x, wrev m, wrev mk) =
    (case compress_l_step lg i (x, m, mk) of (x', m', mk') \<Rightarrow> (wrev x', wrev m', wrev mk'))"
  by (simp add: compress_r_step_def compress_l_step_def Let_def wrev_ops wrev_push wrev_prefix)

lemma compress_l_wrev: "compress_l lg x m = wrev (compress_r lg (wrev x) (wrev m))"
proof -
  have "fold (compress_r_step lg) is (wrev x, wrev m, wrev mk) =
    (case fold (compress_l_step lg) is (x, m, mk) of (x', m', mk') \<Rightarrow> (wrev x', wrev m', wrev mk'))"
    for "is" and x m mk :: "'a word"
  proof (induction "is" arbitrary: x m mk)
    case (Cons i "is")
    then show ?case by (cases "compress_l_step lg i (x, m, mk)") (simp add: wrev_step)
  qed simp
  from this [of "[0..<lg]" "x AND m" m "drop_bit 1 (NOT m)"] show ?thesis
    by (auto simp: compress_l_def compress_r_def wrev_ops wrev_drop split: prod.splits)
qed

lemma bit_compress_l:
  fixes x m :: "'w::len word"
  assumes w: "LENGTH('w) = 2 ^ lg"
  shows "bit (compress_l lg x m) q \<longleftrightarrow>
    (\<exists>p. bit m p \<and> bit x p \<and> q = LENGTH('w) - Suc (card {r. p < r \<and> bit m r}))"
proof -
  let ?w = "LENGTH('w)"
  have inv: "?w - Suc (?w - Suc r) = r" if "bit m r" for r
    using bit_imp_le_length [OF that] by simp
  have c: "card {r. r < ?w - Suc p \<and> bit (wrev m) r} = card {r. p < r \<and> bit m r}" if "p < ?w" for p
    by (rule bij_betw_same_card [of "\<lambda>r. ?w - Suc r"], rule bij_betw_byWitness [of _ "\<lambda>r. ?w - Suc r"])
      (use that in \<open>auto simp: bit_wrev inv dest: bit_imp_le_length\<close>)
  have lt: "card {r. p < r \<and> bit m r} < ?w" if "p < ?w" for p
  proof -
    have "{r. p < r \<and> bit m r} \<subseteq> {p <..< ?w}" using bit_imp_le_length [of m] by auto
    then have "card {r. p < r \<and> bit m r} \<le> card {p <..< ?w}" by (intro card_mono) simp_all
    then show ?thesis using that by simp
  qed
  have "bit (compress_l lg x m) q \<longleftrightarrow> q < ?w \<and>
     (\<exists>p. bit (wrev m) p \<and> bit (wrev x) p \<and> ?w - Suc q = card {r. r < p \<and> bit (wrev m) r})"
    by (simp add: compress_l_wrev bit_wrev [of "compress_r _ _ _"] bit_compress_r [OF w])
  also have "\<dots> \<longleftrightarrow> q < ?w \<and>
     (\<exists>p. p < ?w \<and> bit m p \<and> bit x p \<and> ?w - Suc q = card {r. p < r \<and> bit m r})" (is "?a \<longleftrightarrow> ?b")
  proof
    assume ?a
    then obtain p where "q < ?w" "p < ?w" "bit m (?w - Suc p)" "bit x (?w - Suc p)"
      "?w - Suc q = card {r. r < p \<and> bit (wrev m) r}" by (auto simp: bit_wrev)
    then show ?b using c [of "?w - Suc p"] by (auto simp: Suc_diff_Suc intro!: exI [of _ "?w - Suc p"])
  next
    assume ?b
    then obtain p where "q < ?w" "p < ?w" "bit m p" "bit x p" "?w - Suc q = card {r. p < r \<and> bit m r}" by auto
    then show ?a using c [of p] by (auto simp: bit_wrev Suc_diff_Suc intro!: exI [of _ "?w - Suc p"])
  qed
  also have "\<dots> \<longleftrightarrow> (\<exists>p. bit m p \<and> bit x p \<and> q = ?w - Suc (card {r. p < r \<and> bit m r}))"
  proof (safe, goal_cases)
    case (1 p) then show ?case by (intro exI [of _ p]) auto
  next
    case (2 p) then show ?case using lt [OF bit_imp_le_length [OF 2(1)]] by simp
  next
    case (3 p) then show ?case using lt [of p] bit_imp_le_length [of m p] by (intro exI [of _ p]) auto
  qed
  finally show ?thesis .
qed

section \<open>Sheep and goats\<close>

text \<open>Where the bit at position \<open>p\<close> goes: unselected bits to the right end, selected bits after
  them, both in their old order.\<close>

definition sag_pos :: "'w::len word \<Rightarrow> nat \<Rightarrow> nat" where
  "sag_pos m p = (if bit m p then zeros_le m LENGTH('w) + card {r. r < p \<and> bit m r} else zeros_le m p)"

definition sag :: "nat \<Rightarrow> 'w::len word \<Rightarrow> 'w word \<Rightarrow> 'w word" where
  "sag lg x m = compress_l lg x m OR compress_r lg x (NOT m)"

lemma SAG32_sag: "SAG32 = sag 5" and SAG64_sag: "SAG64 = sag 6"
  by (simp_all add: fun_eq_iff SAG32_def SAG64_def sag_def compress_l32_def compress_r32_def
      compress_l64_def compress_r64_def)

lemma ones_split:
  fixes m :: "'w::len word"
  assumes "bit m p"
  shows "LENGTH('w) - Suc (card {r. p < r \<and> bit m r}) = sag_pos m p"
proof -
  have p: "p < LENGTH('w)" using bit_imp_le_length [OF assms] .
  have "{r. r < LENGTH('w) \<and> bit m r} = {r. r < p \<and> bit m r} \<union> insert p {r. p < r \<and> bit m r}"
    using assms by (auto dest: bit_imp_le_length)
  moreover have "finite {r. p < r \<and> bit m r}"
    by (rule finite_subset [of _ "{..<LENGTH('w)}"]) (auto dest: bit_imp_le_length)
  ultimately have "card {r. r < LENGTH('w) \<and> bit m r} =
      card {r. r < p \<and> bit m r} + Suc (card {r. p < r \<and> bit m r})"
    by (auto simp: card_Un_disjoint disjoint_iff)
  then show ?thesis
    using zeros_le_card [of m "LENGTH('w)"] assms by (simp add: sag_pos_def)
qed

lemma bit_sag:
  fixes x m :: "'w::len word"
  assumes w: "LENGTH('w) = 2 ^ lg"
  shows "bit (sag lg x m) q \<longleftrightarrow> (\<exists>p. bit x p \<and> q = sag_pos m p)"
proof -
  have z: "card {r. r < p \<and> r < LENGTH('w) \<and> \<not> bit m r} = zeros_le m p" if "p < LENGTH('w)" for p
    unfolding zeros_le_def using that by (intro arg_cong [where f = card]) auto
  have "bit (compress_r lg x (NOT m)) q \<longleftrightarrow> (\<exists>p. \<not> bit m p \<and> bit x p \<and> q = sag_pos m p)"
    unfolding bit_compress_r [OF w]
    by (intro arg_cong [where f = Ex] ext) (auto simp: bit_not_iff sag_pos_def z dest: bit_imp_le_length)
  moreover have "bit (compress_l lg x m) q \<longleftrightarrow> (\<exists>p. bit m p \<and> bit x p \<and> q = sag_pos m p)"
    unfolding bit_compress_l [OF w] by (auto simp: ones_split)
  ultimately show ?thesis by (auto simp: sag_def bit_or_iff)
qed

text \<open>Positions compared through a key: how many items come strictly before one.\<close>

definition rank :: "nat \<Rightarrow> (nat \<Rightarrow> nat) \<Rightarrow> nat \<Rightarrow> nat" where
  "rank w f j = card {i. i < w \<and> (f i < f j \<or> f i = f j \<and> i < j)}"

lemma rank_less: "j < w \<Longrightarrow> rank w f j < w"
proof -
  assume j: "j < w"
  have "{i. i < w \<and> (f i < f j \<or> f i = f j \<and> i < j)} \<subseteq> {..<w} - {j}" by auto
  then have "rank w f j \<le> card ({..<w} - {j})" unfolding rank_def by (intro card_mono) auto
  then show ?thesis using j by simp
qed

lemma rank_mono:
  assumes "i < w" "j < w" "f i < f j \<or> f i = f j \<and> i < j"
  shows "rank w f i < rank w f j"
  unfolding rank_def
proof (rule psubset_card_mono)
  show "{k. k < w \<and> (f k < f i \<or> f k = f i \<and> k < i)} \<subset> {k. k < w \<and> (f k < f j \<or> f k = f j \<and> k < j)}"
    using assms by auto
qed simp

lemma rank_less_iff:
  assumes "i < w" "j < w"
  shows "rank w f i < rank w f j \<longleftrightarrow> f i < f j \<or> f i = f j \<and> i < j"
  using rank_mono [of i w j f] rank_mono [of j w i f] assms
  by (metis linorder_neqE_nat not_less_iff_gr_or_eq)

lemma rank_bij: "bij_betw (rank w f) {..<w} {..<w}"
proof -
  have "inj_on (rank w f) {..<w}"
    using rank_less_iff [of _ w _ f] by (intro inj_onI) (metis lessThan_iff linorder_neqE_nat less_irrefl)
  moreover have "rank w f ` {..<w} \<subseteq> {..<w}" by (auto simp: rank_less)
  ultimately show ?thesis by (simp add: bij_betw_def endo_inj_surj)
qed

text \<open>One pass of the radix sort: items sit at their rank by \<open>f\<close>, the mask holds bit \<open>b\<close> of each.\<close>

lemma sag_pos_rank:
  fixes m :: "'w::len word"
  assumes "\<And>i. i < LENGTH('w) \<Longrightarrow> bit m (rank LENGTH('w) f i) = b i" and j: "j < LENGTH('w)"
    and g: "\<And>i. g i = f i + (if b i then N else 0)" and N: "\<And>i. f i < N"
  shows "sag_pos m (rank LENGTH('w) f j) = rank LENGTH('w) g j"
proof -
  let ?w = "LENGTH('w)" and ?r = "rank LENGTH('w) f"
  have lt: "i < ?w \<Longrightarrow> ?r i < ?w" for i by (rule rank_less)
  have inj: "inj_on ?r {..<?w}" and img: "?r ` {..<?w} = {..<?w}"
    using rank_bij [of ?w f] by (simp_all add: bij_betw_def)
  have cnt: "card {q. q < ?w \<and> P q} = card {i. i < ?w \<and> P (?r i)}" for P
  proof -
    have "{q. q < ?w \<and> P q} = ?r ` {i. i < ?w \<and> P (?r i)}" using img lt by (auto simp: image_iff)
    moreover have "inj_on ?r {i. i < ?w \<and> P (?r i)}" by (rule inj_on_subset [OF inj]) auto
    ultimately show ?thesis by (simp add: card_image)
  qed
  have z: "zeros_le m p = card {q. q < ?w \<and> (q < p \<and> \<not> bit m q)}" if "p \<le> ?w" for p
    unfolding zeros_le_def using that by (intro arg_cong [where f = card]) auto
  have o: "card {q. q < ?r j \<and> bit m q} = card {q. q < ?w \<and> (q < ?r j \<and> bit m q)}"
    using lt [OF j] by (intro arg_cong [where f = card]) auto
  have key: "g i < g j \<or> g i = g j \<and> i < j \<longleftrightarrow>
      (\<not> b i \<and> b j) \<or> (b i = b j \<and> (f i < f j \<or> f i = f j \<and> i < j))" for i
    using N [of i] N [of j] by (auto simp: g)
  show ?thesis
  proof (cases "b j")
    case True
    have "{i. i < ?w \<and> (g i < g j \<or> g i = g j \<and> i < j)} =
      {i. i < ?w \<and> \<not> b i} \<union> {i. i < ?w \<and> (f i < f j \<or> f i = f j \<and> i < j) \<and> b i}"
      unfolding key using True by auto
    then have "rank ?w g j = card {i. i < ?w \<and> \<not> b i} + card {i. i < ?w \<and> (f i < f j \<or> f i = f j \<and> i < j) \<and> b i}"
      unfolding rank_def by (simp add: card_Un_disjoint disjoint_iff)
    moreover have "zeros_le m ?w = card {i. i < ?w \<and> \<not> b i}"
      by (subst z [OF order_refl], subst cnt, intro arg_cong [where f = card]) (auto simp: assms(1) lt)
    moreover have "card {q. q < ?r j \<and> bit m q} = card {i. i < ?w \<and> (f i < f j \<or> f i = f j \<and> i < j) \<and> b i}"
      by (subst o, subst cnt, intro arg_cong [where f = card]) (auto simp: assms(1) rank_less_iff j)
    ultimately show ?thesis using True assms(1) [OF j] by (simp add: sag_pos_def)
  next
    case False
    have "{i. i < ?w \<and> (g i < g j \<or> g i = g j \<and> i < j)} =
      {i. i < ?w \<and> (f i < f j \<or> f i = f j \<and> i < j) \<and> \<not> b i}"
      unfolding key using False by auto
    then have "rank ?w g j = card {i. i < ?w \<and> (f i < f j \<or> f i = f j \<and> i < j) \<and> \<not> b i}"
      by (simp add: rank_def)
    moreover have "zeros_le m (?r j) = card {i. i < ?w \<and> (f i < f j \<or> f i = f j \<and> i < j) \<and> \<not> b i}"
      by (subst z [OF less_imp_le [OF lt [OF j]]], subst cnt, intro arg_cong [where f = card])
        (auto simp: assms(1) rank_less_iff j)
    ultimately show ?thesis using False assms(1) [OF j] by (simp add: sag_pos_def)
  qed
qed

section \<open>Permutation vectors sort the bits\<close>

definition sag_chain :: "nat \<Rightarrow> 'w::len word list \<Rightarrow> 'w word \<Rightarrow> nat \<Rightarrow> 'w word" where
  "sag_chain lg pv x k = fold (\<lambda>i x. sag lg x (pv ! i)) [0..<k] x"

lemma sag_chain_Suc: "sag_chain lg pv x (Suc k) = sag lg (sag_chain lg pv x k) (pv ! k)"
  by (simp add: sag_chain_def)

lemma rank_zero: "j < w \<Longrightarrow> rank w (\<lambda>_. 0) j = j"
proof -
  assume "j < w"
  then have "{i. i < w \<and> i < j} = {..<j}" by auto
  then show ?thesis by (simp add: rank_def)
qed

lemma sag_chain_rank:
  fixes x :: "'w::len word"
  assumes w: "LENGTH('w) = 2 ^ lg"
    and pv: "\<And>k j. k < K \<Longrightarrow> j < LENGTH('w) \<Longrightarrow>
      bit (pv ! k) (rank LENGTH('w) (\<lambda>j. a j mod 2 ^ k) j) \<longleftrightarrow> odd (a j div 2 ^ k)"
  shows "k \<le> K \<Longrightarrow> bit (sag_chain lg pv x k) q \<longleftrightarrow>
    (\<exists>j. bit x j \<and> q = rank LENGTH('w) (\<lambda>j. a j mod 2 ^ k) j)"
proof (induction k arbitrary: q)
  case 0
  have "rank LENGTH('w) (\<lambda>j. a j mod 2 ^ 0) j = j" if "bit x j" for j
    using rank_zero [OF bit_imp_le_length [OF that]] by simp
  then show ?case by (auto simp: sag_chain_def)
next
  case (Suc k)
  have pos: "sag_pos (pv ! k) (rank LENGTH('w) (\<lambda>j. a j mod 2 ^ k) j) = rank LENGTH('w) (\<lambda>j. a j mod 2 ^ Suc k) j"
    if "bit x j" for j
    by (rule sag_pos_rank [where b = "\<lambda>j. odd (a j div 2 ^ k)" and N = "2 ^ k"])
      (use pv [of k] Suc.prems bit_imp_le_length [OF that] in \<open>auto simp: mod_pow_Suc simp del: power_Suc\<close>)
  show ?case
    unfolding sag_chain_Suc bit_sag [OF w] using Suc pos by auto
qed

lemma rank_perm:
  assumes "bij_betw a {..<w} {..<w}" "j < w"
  shows "rank w a j = a j"
proof -
  have inj: "inj_on a {..<w}" and img: "a ` {..<w} = {..<w}" using assms(1) by (simp_all add: bij_betw_def)
  have "{i. i < w \<and> (a i < a j \<or> a i = a j \<and> i < j)} = {i. i < w \<and> a i < a j}"
    using inj assms(2) by (auto dest: inj_onD)
  then have "rank w a j = card {i. i < w \<and> a i < a j}" by (simp add: rank_def)
  also have "\<dots> = card (a ` {i. i < w \<and> a i < a j})"
    by (rule card_image [symmetric]) (rule inj_on_subset [OF inj], auto)
  also have "a ` {i. i < w \<and> a i < a j} = {..<a j}"
  proof
    show "{..<a j} \<subseteq> a ` {i. i < w \<and> a i < a j}"
    proof
      fix y assume y: "y \<in> {..<a j}"
      have "a j < w" using img assms(2) by auto
      then have "y \<in> a ` {..<w}" using y unfolding img by auto
      then show "y \<in> a ` {i. i < w \<and> a i < a j}" using y by auto
    qed
  qed auto
  finally show ?thesis by simp
qed

lemma bit_permvec_bit:
  "bit (permvec_bit i arr :: 'w::len word) q \<longleftrightarrow> q < length arr \<and> q < LENGTH('w) \<and> bit (arr ! q) i"
proof -
  have b: "bit (push_bit j (ucast (drop_bit i x AND 1) :: 'w word)) q \<longleftrightarrow> q = j \<and> j < LENGTH('w) \<and> bit (x :: byte) i" for j x q
    by (auto simp: bit_push_bit_iff bit_ucast_iff bit_and_iff bit_drop_bit_eq bit_1_iff)
  have "bit (fold (\<lambda>j v. v OR push_bit j (ucast (drop_bit i (arr ! j) AND 1))) [0..<n] (0 :: 'w word)) q \<longleftrightarrow>
      q < n \<and> q < LENGTH('w) \<and> bit (arr ! q) i" for n
    by (induction n) (auto simp: bit_or_iff b less_Suc_eq)
  then show ?thesis by (simp add: permvec_bit_def)
qed

lemma permvec_sorts:
  fixes pv :: "'w::len word list"
  assumes w: "LENGTH('w) = 2 ^ lg" and len: "length arr = LENGTH('w)"
    and perm: "bij_betw (\<lambda>j. unat (arr ! j)) {..<LENGTH('w)} {..<LENGTH('w)}"
    and pv: "\<And>k. k < lg \<Longrightarrow> pv ! k = sag_chain lg pv (permvec_bit k arr) k"
    and j: "j < LENGTH('w)"
  shows "bit (sag_chain lg pv x lg) (unat (arr ! j)) = bit x j"
proof -
  let ?w = "LENGTH('w)" and ?a = "\<lambda>j. unat (arr ! j)"
  let ?f = "\<lambda>k j. ?a j mod 2 ^ k"
  have inj: "rank ?w (?f k) i = rank ?w (?f k) j \<longleftrightarrow> i = j" if "i < ?w" "j < ?w" for i j k
    using rank_bij [of ?w "?f k"] that by (auto simp: bij_betw_def inj_on_def)
  have "bit (pv ! k) (rank ?w (?f k) j) \<longleftrightarrow> odd (?a j div 2 ^ k)" if "k < lg" "j < ?w" for k j
    using that
  proof (induction k arbitrary: j rule: less_induct)
    case (less k)
    have "bit (pv ! k) (rank ?w (?f k) j) \<longleftrightarrow>
        (\<exists>i. bit (permvec_bit k arr :: 'w word) i \<and> rank ?w (?f k) j = rank ?w (?f k) i)"
      unfolding pv [OF less.prems(1)]
      by (rule sag_chain_rank [OF w, where K = k]) (use less in auto)
    also have "\<dots> \<longleftrightarrow> bit (arr ! j) k"
      using less.prems len by (auto simp: bit_permvec_bit inj)
    also have "\<dots> \<longleftrightarrow> odd (?a j div 2 ^ k)"
      by (simp add: bit_unsigned_iff flip: bit_iff_odd)
    finally show ?case .
  qed
  then have "bit (sag_chain lg pv x lg) (?a j) \<longleftrightarrow> (\<exists>i. bit x i \<and> ?a j = rank ?w (?f lg) i)"
    by (intro sag_chain_rank [OF w, where K = lg]) auto
  also have "\<dots> \<longleftrightarrow> (\<exists>i. bit x i \<and> ?a j = ?a i)"
  proof -
    have "?a i < 2 ^ lg" if "i < ?w" for i using perm that w by (auto simp: bij_betw_def)
    then have e: "rank ?w (?f lg) i = rank ?w ?a i" if "i < ?w" for i
      unfolding rank_def using that by (intro arg_cong [where f = card]) auto
    have "rank ?w (?f lg) i = ?a i" if "bit x i" for i
      using e rank_perm [OF perm] bit_imp_le_length [OF that] by simp
    then show ?thesis by metis
  qed
  also have "\<dots> \<longleftrightarrow> bit x j"
    using perm j by (auto simp: bij_betw_def inj_on_def dest: bit_imp_le_length)
  finally show ?thesis .
qed

lemma perm_check_iff:
  fixes t :: "'w::len word"
  assumes "\<And>a. a AND NOT msk = 0 \<longleftrightarrow> unat a < LENGTH('w)"
  shows "perm_check msk arr t \<longleftrightarrow>
    distinct arr \<and> (\<forall>a \<in> set arr. unat a < LENGTH('w) \<and> \<not> bit t (unat a))"
proof (induction arr arbitrary: t)
  case (Cons a arr)
  have b: "t AND 2 ^ unat a = 0 \<longleftrightarrow> \<not> bit t (unat a)"
    using bit_iff_and_push_bit_not_eq_0 [of t "unat a"] by simp
  have "bit (t OR push_bit (unat a) 1) n \<longleftrightarrow> bit t n \<or> n = unat a" if "unat a < LENGTH('w)" for n
    using that by (auto simp: bit_or_iff bit_exp_iff)
  then show ?case
    using Cons.IH [of "t OR push_bit (unat a) 1"] assms [of a]
    by (auto simp: b Let_def simp flip: word_unat_eq_iff)
qed simp

lemma distinct_bij:
  assumes "length arr = w" "distinct arr" "\<forall>a \<in> set arr. unat (a :: byte) < w"
  shows "bij_betw (\<lambda>j. unat (arr ! j)) {..<w} {..<w}"
proof -
  have "inj_on (\<lambda>j. unat (arr ! j)) {..<w}"
    using assms by (intro inj_onI) (simp add: nth_eq_iff_index_eq flip: word_unat_eq_iff)
  moreover have "(\<lambda>j. unat (arr ! j)) ` {..<w} \<subseteq> {..<w}" using assms by auto
  ultimately show ?thesis by (simp add: bij_betw_def endo_inj_surj)
qed

lemma byte_below: "(a :: byte) AND NOT 0x1F = 0 \<longleftrightarrow> unat a < 32" "(a :: byte) AND NOT 0x3F = 0 \<longleftrightarrow> unat a < 64"
proof -
  have "a AND NOT (mask k) = 0 \<longleftrightarrow> unat a < 2 ^ k" if "k < 8" for k
  proof -
    have "a AND NOT (mask k) = 0 \<longleftrightarrow> take_bit k a = a"
      by (auto simp: bit_eq_iff bit_simps)
    also have "\<dots> \<longleftrightarrow> unat a < 2 ^ k"
      by (metis take_bit_nat_eq_self take_bit_nat_less_exp unsigned_take_bit_eq word_unat_eq_iff)
    finally show ?thesis .
  qed
  from this [of 5] this [of 6] show "a AND NOT 0x1F = 0 \<longleftrightarrow> unat a < 32" "a AND NOT 0x3F = 0 \<longleftrightarrow> unat a < 64"
    by (simp_all add: mask_eq_exp_minus_1)
qed

lemmas byte_below_simps = byte_below [simplified]

text \<open>C8: \<open>arr_to_SAG_permvec32\<close> rejects exactly the arrays that are not permutations of 0 to 31, and for a
  permutation its vector makes \<open>permute32_SAG\<close> move bit \<open>j\<close> of every word to position \<open>arr[j]\<close>.\<close>

theorem permute32_SAG_correct:
  assumes "length arr = 32"
  shows "case arr_to_SAG_permvec32 arr of
      None \<Rightarrow> \<not> (distinct arr \<and> (\<forall>a \<in> set arr. unat a < 32))
    | Some pv \<Rightarrow> distinct arr \<and> (\<forall>a \<in> set arr. unat a < 32) \<and>
        (\<forall>x j. j < 32 \<longrightarrow> bit (permute32_SAG x pv) (unat (arr ! j)) = bit x j)"
proof (cases "distinct arr \<and> (\<forall>a \<in> set arr. unat a < 32)")
  case False
  then have "\<not> perm_check 0x1F arr (0 :: u32)" by (subst perm_check_iff) (auto simp: byte_below_simps)
  then show ?thesis using False by (auto simp: arr_to_SAG_permvec32_def)
next
  case True
  then have "perm_check 0x1F arr (0 :: u32)" by (subst perm_check_iff) (auto simp: byte_below_simps)
  then obtain pv where pv: "arr_to_SAG_permvec32 arr = Some pv" by (simp add: arr_to_SAG_permvec32_def Let_def)
  have chain: "pv ! k = sag_chain 5 pv (permvec_bit k arr) k" if "k < 5" for k
    using that pv \<open>perm_check 0x1F arr (0 :: u32)\<close>
    by (auto simp: arr_to_SAG_permvec32_def Let_def SAG32_sag sag_chain_def numeral_eq_Suc less_Suc_eq)
  have "permute32_SAG x pv = sag_chain 5 pv x 5" for x
    by (simp add: permute32_SAG_def SAG32_sag sag_chain_def numeral_eq_Suc)
  then have "bit (permute32_SAG x pv) (unat (arr ! j)) = bit x j" if "j < 32" for x j
    using permvec_sorts [of 5 arr pv j x] distinct_bij [of arr 32] chain True assms that by simp
  then show ?thesis using True pv by simp
qed

theorem permute32_SAG_correct_witness:
  "case arr_to_SAG_permvec32 (map of_nat (rev [0..<32])) of
      None \<Rightarrow> \<not> (distinct (map of_nat (rev [0..<32]) :: byte list) \<and> (\<forall>a \<in> set (map of_nat (rev [0..<32]) :: byte list). unat a < 32))
    | Some pv \<Rightarrow> distinct (map of_nat (rev [0..<32]) :: byte list) \<and> (\<forall>a \<in> set (map of_nat (rev [0..<32]) :: byte list). unat a < 32) \<and>
        (\<forall>x j. j < 32 \<longrightarrow> bit (permute32_SAG x pv) (unat ((map of_nat (rev [0..<32]) :: byte list) ! j)) = bit x j)"
  by (rule permute32_SAG_correct) simp

lemma permute64_SAG_correct:
  assumes "length arr = 64" "distinct arr" "\<forall>a \<in> set arr. unat a < 64"
  obtains pv where "arr_to_SAG_permvec64 arr = Some pv"
    "\<And>x j. j < 64 \<Longrightarrow> bit (permute64_SAG x pv) (unat (arr ! j)) = bit x j"
proof -
  have "perm_check 0x3F arr (0 :: u64)" using assms by (subst perm_check_iff) (auto simp: byte_below_simps)
  then obtain pv where pv: "arr_to_SAG_permvec64 arr = Some pv" by (simp add: arr_to_SAG_permvec64_def Let_def)
  have chain: "pv ! k = sag_chain 6 pv (permvec_bit k arr) k" if "k < 6" for k
    using that pv \<open>perm_check 0x3F arr (0 :: u64)\<close>
    by (auto simp: arr_to_SAG_permvec64_def Let_def SAG64_sag sag_chain_def numeral_eq_Suc less_Suc_eq)
  have "permute64_SAG x pv = sag_chain 6 pv x 6" for x
    by (simp add: permute64_SAG_def SAG64_sag sag_chain_def numeral_eq_Suc)
  then show thesis
    using permvec_sorts [of 6 arr pv] distinct_bij [of arr 64] chain assms by (intro that [OF pv]) simp
qed

section \<open>Rounding, logarithms and gathering\<close>

lemma rdp2_mod: "unat (x AND NOT (push_bit k 1 - 1)) = unat x - unat x mod 2 ^ k" for x :: "'w::len word"
proof -
  have "push_bit k 1 - 1 = (mask k :: 'w word)" by (simp add: mask_eq_exp_minus_1)
  moreover have "x AND NOT (mask k) = push_bit k (drop_bit k x)"
    by (intro bit_word_eqI) (auto simp: bit_simps)
  moreover have "unat (push_bit k (drop_bit k x)) = unat x - unat x mod 2 ^ k"
  proof -
    have "unat (push_bit k (drop_bit k x)) = take_bit LENGTH('w) (push_bit k (drop_bit k (unat x)))"
      by (simp add: unsigned_push_bit_eq unsigned_drop_bit_eq take_bit_push_bit take_bit_nat_eq_self [OF unsigned_less])
    moreover have "push_bit k (drop_bit k (unat x)) = unat x - unat x mod 2 ^ k"
      by (simp add: push_bit_eq_mult drop_bit_eq_div minus_mod_eq_div_mult)
    moreover have "unat x - unat x mod 2 ^ k < 2 ^ LENGTH('w)"
      using unsigned_less [of x] by (meson diff_le_self le_less_trans)
    ultimately show ?thesis by (simp add: take_bit_nat_eq_self)
  qed
  ultimately show ?thesis by simp
qed

lemma rdp2_32_floor: "k < 32 \<Longrightarrow> unat (rdp2_32 x k) = unat x - unat x mod 2 ^ k"
  by (simp add: rdp2_32_def rdp2_mod del: push_bit_of_1)

lemma rup2_32_ceil:
  assumes "k < 32" "unat x + 2 ^ k - 1 < 2 ^ 32"
  shows "unat (rup2_32 x k) = (unat x + 2 ^ k - 1) div 2 ^ k * 2 ^ k"
proof -
  have "(2 :: nat) ^ k < 2 ^ 32" using assms(1) by (intro power_strict_increasing) auto
  then have "unat (of_nat (2 ^ k) :: u32) = 2 ^ k"
    using assms(1) by (simp only: unsigned_of_nat) (simp add: take_bit_nat_eq_self)
  then have q: "unat (2 ^ k :: u32) = 2 ^ k" by simp
  then have p: "unat (2 ^ k - 1 :: u32) = 2 ^ k - 1"
    by (subst unat_sub) (simp_all add: word_le_nat_alt)
  have "unat (x + (2 ^ k - 1)) = unat x + (2 ^ k - 1)"
    using assms(2) by (simp add: unat_word_ariths(1) p del: diff_add_assoc)
  then show ?thesis
    using assms(1) rdp2_mod [of "x + (2 ^ k - 1)" k]
    by (simp add: rup2_32_def Let_def minus_mod_eq_div_mult)
qed

fun table_ok :: "(nat \<Rightarrow> nat \<Rightarrow> bool) \<Rightarrow> nat \<Rightarrow> nat list \<Rightarrow> bool" where
  "table_ok P i [] = True"
| "table_ok P i (b # bs) = (P i b \<and> table_ok P (i + 1) bs)"

lemma table_ok_nth: "table_ok P k bs \<Longrightarrow> i < length bs \<Longrightarrow> P (k + i) (bs ! i)"
proof (induction bs arbitrary: k i)
  case (Cons b bs)
  then show ?case using Cons.IH [of "k + 1" "i - 1"] by (cases i) simp_all
qed simp

lemma nlz8_table:
  "table_ok (\<lambda>i b. b \<le> 8 \<and> (b = 8 \<longleftrightarrow> i = 0) \<and> i < 2 ^ (8 - b) \<and> (i \<noteq> 0 \<longrightarrow> 2 ^ (7 - b) \<le> i))
    0 num_leading_zeros_array"
  by (simp add: num_leading_zeros_array_def)

lemma length_nlz_array: "length num_leading_zeros_array = 256"
  by (simp add: num_leading_zeros_array_def)

lemma nlz8_spec: "nlz8 y \<le> 8 \<and> (nlz8 y = 8 \<longleftrightarrow> y = 0) \<and> unat y < 2 ^ (8 - nlz8 y) \<and> (y \<noteq> 0 \<longrightarrow> 2 ^ (7 - nlz8 y) \<le> unat y)"
proof -
  have "unat y < 256" using unsigned_less [of y] by simp
  with table_ok_nth [OF nlz8_table, of "unat y"] show ?thesis
    by (simp add: nlz8_def length_nlz_array unat_eq_zero)
qed

lemma nlz_loop_spec:
  assumes "unat (x :: 'w::len word) < 2 ^ (8 * Suc k)" "x \<noteq> 0"
  shows "\<exists>z. nlz_loop x k n = n + z \<and> z < 8 * Suc k \<and> unat x < 2 ^ (8 * Suc k - z) \<and> 2 ^ (8 * Suc k - 1 - z) \<le> unat x"
  using assms(1)
proof (induction k arbitrary: n)
  case 0
  then have "unat (ucast x :: byte) = unat x" by (simp add: unsigned_ucast_eq take_bit_nat_eq_self)
  moreover from this have "(ucast x :: byte) \<noteq> 0" using assms(2) by (metis unat_eq_zero)
  ultimately show ?case using nlz8_spec [of "ucast x"] by (intro exI [of _ "nlz8 (ucast x)"]) auto
next
  case (Suc k)
  define m where "m = 8 * Suc k"
  define y where "y = (ucast (drop_bit m x) :: byte)"
  have "(2 :: nat) ^ (8 * Suc (Suc k)) = 256 * 2 ^ m" by (simp add: m_def power_add)
  then have "unat x < 256 * 2 ^ m" using Suc.prems by simp
  then have "unat x div 2 ^ m < 256" by (simp add: less_mult_imp_div_less)
  then have y: "unat y = unat x div 2 ^ m"
    unfolding y_def unsigned_ucast_eq unat_drop_bit_eq unfolding drop_bit_eq_div
    by (simp add: take_bit_nat_eq_self)
  have l: "nlz_loop x (Suc k) n = (if nlz8 y = 8 then nlz_loop x k (n + nlz8 y) else n + nlz8 y)"
    by (simp only: nlz_loop.simps Let_def y_def m_def)
  note b = nlz8_spec [of y]
  show ?case
  proof (cases "y = 0")
    case True
    then have "unat x < 2 ^ (8 * Suc k)" using y by (simp add: div_eq_0_iff m_def)
    then obtain z where "nlz_loop x k (n + 8) = n + 8 + z" "z < 8 * Suc k"
      "unat x < 2 ^ (8 * Suc k - z)" "2 ^ (8 * Suc k - 1 - z) \<le> unat x"
      using Suc.IH by blast
    then show ?thesis using True b by (intro exI [of _ "8 + z"]) (auto simp: l simp del: nlz_loop.simps)
  next
    case False
    define c where "c = nlz8 y"
    have c: "c < 8" "unat x div 2 ^ m < 2 ^ (8 - c)" "2 ^ (7 - c) \<le> unat x div 2 ^ m" "nlz_loop x (Suc k) n = n + c"
      using b False y by (auto simp: c_def l simp del: nlz_loop.simps)
    have "unat x < 2 ^ (8 - c) * 2 ^ m" using c(2) by (simp add: div_less_iff_less_mult)
    moreover have "2 ^ (7 - c) * 2 ^ m \<le> unat x" using c(3) by (simp add: less_eq_div_iff_mult_less_eq)
    moreover have "8 - c + m = 8 * Suc (Suc k) - c" "7 - c + m = 8 * Suc (Suc k) - 1 - c"
      using c(1) by (auto simp: m_def)
    ultimately show ?thesis using c(1) unfolding c(4)
      by (intro exI [of _ c]) (auto simp flip: power_add)
  qed
qed

lemma ilog2_32_floor_log:
  "x \<noteq> 0 \<Longrightarrow> \<exists>l. ilog2_32 x = int l \<and> l < 32 \<and> 2 ^ l \<le> unat x \<and> unat x < 2 ^ Suc l"
proof -
  assume x: "x \<noteq> 0"
  obtain z where "nlz_loop x 3 0 = z" "z < 32" "unat x < 2 ^ (32 - z)" "2 ^ (31 - z) \<le> unat x"
    using nlz_loop_spec [of x 3 0] x unsigned_less [of x] by auto
  moreover have "Suc (31 - z) = 32 - z" using \<open>z < 32\<close> by simp
  ultimately show ?thesis
    by (intro exI [of _ "31 - z"]) (auto simp: x ilog2_32_def nlz_32_def simp del: power_Suc)
qed

section \<open>Population count\<close>

text \<open>A word as a list of \<open>k\<close>-bit fields; a round adds neighbouring fields into fields twice as wide.\<close>

fun fields :: "nat \<Rightarrow> nat list \<Rightarrow> nat" where
  "fields k [] = 0"
| "fields k (f # fs) = f + 2 ^ k * fields k fs"

fun evens :: "nat list \<Rightarrow> nat list" where
  "evens (a # b # fs) = a # evens fs"
| "evens fs = fs"

fun odds :: "nat list \<Rightarrow> nat list" where
  "odds (a # b # fs) = b # odds fs"
| "odds fs = []"

fun pairs :: "nat list \<Rightarrow> nat list" where
  "pairs (a # b # fs) = (a + b) # pairs fs"
| "pairs fs = fs"

fun field_mask :: "nat \<Rightarrow> nat \<Rightarrow> nat" where
  "field_mask k 0 = 0"
| "field_mask k (Suc n) = (2 ^ k - 1) + 2 ^ (2 * k) * field_mask k n"

lemma and_fields:
  assumes "a < 2 ^ k" "c < 2 ^ k"
  shows "(a + 2 ^ k * x) AND (c + 2 ^ k * y) = (a AND c) + 2 ^ k * (x AND (y :: nat))"
proof -
  have j: "a + 2 ^ k * x = a OR push_bit k x" if "a < 2 ^ k" for a x :: nat
  proof -
    have lo: "bit a n \<Longrightarrow> n < k" for n
      using that by (metis bit_take_bit_iff take_bit_nat_eq_self)
    have "a AND push_bit k x = 0"
      by (intro bit_eqI) (auto simp: bit_and_iff bit_push_bit_iff dest!: lo)
    then show ?thesis by (metis disjunctive_add_eq_or mult.commute push_bit_eq_mult)
  qed
  have lo: "bit a n \<Longrightarrow> n < k" if "a < 2 ^ k" for a n :: nat
    using that by (metis bit_take_bit_iff take_bit_nat_eq_self)
  have "a AND c = take_bit k (a AND c)" using assms by (simp add: take_bit_nat_eq_self)
  then have "a AND c < 2 ^ k" by (metis take_bit_nat_less_exp)
  moreover have "(a OR push_bit k x) AND (c OR push_bit k y) = (a AND c) OR push_bit k (x AND y)"
    using lo [OF assms(1)] lo [OF assms(2)]
    by (intro bit_eqI) (auto simp: bit_simps dest: leD)
  ultimately show ?thesis using assms by (simp add: j)
qed

lemma and_low: "(x :: nat) AND (2 ^ k - 1) = x mod 2 ^ k"
  by (metis mask_eq_exp_minus_1 take_bit_eq_mask take_bit_eq_mod)

lemma fields_mask:
  assumes "k > 0"
  shows "length fs = 2 * n \<Longrightarrow> (\<forall>f \<in> set fs. f < 2 ^ k) \<Longrightarrow>
    fields k fs AND field_mask k n = fields (2 * k) (evens fs) \<and>
    drop_bit k (fields k fs) AND field_mask k n = fields (2 * k) (odds fs)"
proof (induction fs arbitrary: n rule: evens.induct)
  case (1 a b fs)
  then obtain n' where n: "n = Suc n'" "length fs = 2 * n'" by (cases n) auto
  have ab: "a < 2 ^ k" "b < 2 ^ k" using 1 by auto
  have dbl: "(2 :: nat) ^ (2 * k) = 2 ^ k * 2 ^ k" by (simp add: mult_2 power_add)
  have "a + 2 ^ k * b < 2 ^ (2 * k)"
  proof -
    have "a + 2 ^ k * b < 2 ^ k * Suc b" using ab by simp
    also have "\<dots> \<le> 2 ^ k * 2 ^ k" using ab by (intro mult_le_mono2) simp
    finally show ?thesis by (simp add: dbl)
  qed
  moreover have "(2 :: nat) ^ k \<le> 2 ^ (2 * k)" by (intro power_increasing) auto
  then have m: "(2 :: nat) ^ k - 1 < 2 ^ (2 * k)" by (metis One_nat_def diff_less less_le_trans zero_less_one zero_less_numeral zero_less_power)
  moreover have "(a + 2 ^ k * b) AND (2 ^ k - 1) = a"
    using ab by (simp add: and_low del: One_nat_def)
  moreover have "fields k (a # b # fs) = (a + 2 ^ k * b) + 2 ^ (2 * k) * fields k fs"
    by (simp only: fields.simps dbl) (simp add: algebra_simps)
  ultimately have e: "fields k (a # b # fs) AND field_mask k n =
      ((a + 2 ^ k * b) AND (2 ^ k - 1)) + 2 ^ (2 * k) * (fields k fs AND field_mask k n')"
    by (simp only: n(1) field_mask.simps and_fields)
  with \<open>(a + 2 ^ k * b) AND (2 ^ k - 1) = a\<close>
  have e: "fields k (a # b # fs) AND field_mask k n = fields (2 * k) (evens (a # b # fs))"
    using 1 n by simp
  have "drop_bit k (fields k (a # b # fs)) = b + 2 ^ k * fields k fs"
    using ab by (simp add: drop_bit_eq_div)
  also have "\<dots> = b + 2 ^ k * (fields k fs mod 2 ^ k) + 2 ^ (2 * k) * drop_bit k (fields k fs)"
    using mult_div_mod_eq [of "2 ^ k" "fields k fs"] unfolding dbl drop_bit_eq_div
    by (metis (no_types) add.assoc add_mult_distrib2 mult.assoc add.commute)
  finally have d: "drop_bit k (fields k (a # b # fs)) =
    (b + 2 ^ k * (fields k fs mod 2 ^ k)) + 2 ^ (2 * k) * drop_bit k (fields k fs)" .
  have "b + 2 ^ k * (fields k fs mod 2 ^ k) < 2 ^ (2 * k)"
  proof -
    have "b + 2 ^ k * (fields k fs mod 2 ^ k) < 2 ^ k * Suc (fields k fs mod 2 ^ k)" using ab by simp
    also have "\<dots> \<le> 2 ^ k * 2 ^ k" by (intro mult_le_mono2) (simp add: Suc_leI)
    finally show ?thesis by (simp add: dbl)
  qed
  moreover have "(b + 2 ^ k * (fields k fs mod 2 ^ k)) AND (2 ^ k - 1) = b"
    using ab by (simp add: and_low del: One_nat_def)
  ultimately have "drop_bit k (fields k (a # b # fs)) AND field_mask k n =
      b + 2 ^ (2 * k) * (drop_bit k (fields k fs) AND field_mask k n')"
    using m by (simp only: d n(1) field_mask.simps and_fields)
  then have "drop_bit k (fields k (a # b # fs)) AND field_mask k n = fields (2 * k) (odds (a # b # fs))"
    using 1 n by simp
  with e show ?case by blast
qed auto

lemma fields_pairs: "even (length fs) \<Longrightarrow> fields k (evens fs) + fields k (odds fs) = fields k (pairs fs)"
proof (induction fs rule: pairs.induct)
  case (1 a b fs)
  then have "fields k (pairs fs) = fields k (evens fs) + fields k (odds fs)" by simp
  then show ?case by (simp add: algebra_simps)
qed auto

lemma sum_pairs: "sum_list (pairs fs) = sum_list fs"
  by (induction fs rule: pairs.induct) auto

lemma pairs_bound: "even (length fs) \<Longrightarrow> \<forall>f \<in> set fs. f \<le> B \<Longrightarrow> \<forall>f \<in> set (pairs fs). f \<le> 2 * B"
  by (induction fs rule: pairs.induct) auto

lemma length_pairs: "even (length fs) \<Longrightarrow> length (pairs fs) = length fs div 2"
  by (induction fs rule: pairs.induct) auto

lemma fields_less: "\<forall>f \<in> set fs. f < 2 ^ k \<Longrightarrow> fields k fs < 2 ^ (k * length fs)"
proof (induction fs)
  case (Cons f fs)
  then have "f + 2 ^ k * fields k fs < 2 ^ k * Suc (fields k fs)" by simp
  also have "\<dots> \<le> 2 ^ k * 2 ^ (k * length fs)" using Cons by (intro mult_le_mono2) simp
  finally show ?case by (simp add: power_add)
qed simp

text \<open>One round of the count on a word whose fields are at most \<open>B\<close>.\<close>

lemma pop_round:
  fixes x :: "'w::len word"
  assumes x: "unat x = fields k fs" and len: "length fs = 2 * n" and k: "k > 0"
    and B: "\<forall>f \<in> set fs. f \<le> B" "2 * B < 2 ^ (2 * k)" "B < 2 ^ k"
    and w: "LENGTH('w) = 2 * k * n" and M: "unat M = field_mask k n"
  shows "unat ((x AND M) + (drop_bit k x AND M)) = fields (2 * k) (pairs fs) \<and>
    length (pairs fs) = n \<and> (\<forall>f \<in> set (pairs fs). f \<le> 2 * B) \<and> sum_list (pairs fs) = sum_list fs"
proof -
  have lt: "\<forall>f \<in> set fs. f < 2 ^ k" using B by auto
  have ev: "even (length fs)" using len by simp
  have "unat (x AND M) = fields (2 * k) (evens fs)" "unat (drop_bit k x AND M) = fields (2 * k) (odds fs)"
    using fields_mask [OF k len lt] x M by (simp_all add: unsigned_and_eq unat_drop_bit_eq)
  moreover have "fields (2 * k) (evens fs) + fields (2 * k) (odds fs) < 2 ^ LENGTH('w)"
  proof -
    have "\<forall>f \<in> set (pairs fs). f < 2 ^ (2 * k)" using pairs_bound [OF ev B(1)] B(2) by fastforce
    from fields_less [OF this] show ?thesis using ev len w by (simp add: fields_pairs length_pairs)
  qed
  ultimately show ?thesis
    using ev len pairs_bound [OF ev B(1)] by (simp add: unat_word_ariths(1) fields_pairs length_pairs sum_pairs)
qed

definition bit_fields :: "'w::len word \<Rightarrow> nat list" where
  "bit_fields x = map (\<lambda>i. of_bool (bit x i)) [0..<LENGTH('w)]"

lemma fields_bits: "fields 1 (map (\<lambda>i. of_bool (bit x i)) [0..<n]) = take_bit n (x :: nat)"
proof (induction n arbitrary: x)
  case (Suc n)
  have "fields 1 (map (\<lambda>i. of_bool (bit x i)) [0..<Suc n]) = of_bool (bit x 0) + 2 * take_bit n (x div 2)"
    using Suc.IH [of "x div 2"] by (simp only: map_upt_Suc) (simp add: bit_Suc)
  then show ?case by (simp add: take_bit_Suc bit_0 mod_2_eq_odd)
qed simp

lemma bit_fields_start:
  "unat (x :: 'w::len word) = fields 1 (bit_fields x)" "length (bit_fields x) = LENGTH('w)"
  "\<forall>f \<in> set (bit_fields x). f \<le> 1"
proof -
  have "bit_fields x = map (\<lambda>i. of_bool (bit (unat x) i)) [0..<LENGTH('w)]"
    by (simp add: bit_fields_def bit_unsigned_iff)
  then show "unat x = fields 1 (bit_fields x)"
    by (simp only: fields_bits) (simp add: take_bit_nat_eq_self [OF unsigned_less])
qed (auto simp: bit_fields_def)

lemma field_mask_numeral:
  "field_mask k (numeral v) = (2 ^ k - 1) + 2 ^ (2 * k) * field_mask k (pred_numeral v)"
  by (simp add: numeral_eq_Suc)

text \<open>The last two fields of the 32-bit count are added by one more shift.\<close>

lemma pop_32_count: "pop_32 x = sum_list (bit_fields x)"
proof -
  have w: "LENGTH(32) = 32" by simp
  define x1 where "x1 = (x AND 0x55555555) + (drop_bit 1 x AND 0x55555555)"
  define x2 where "x2 = (x1 AND 0x33333333) + (drop_bit 2 x1 AND 0x33333333)"
  define x3 where "x3 = (x2 AND 0x0F0F0F0F) + (drop_bit 4 x2 AND 0x0F0F0F0F)"
  define x4 where "x4 = (x3 AND 0x00FF00FF) + (drop_bit 8 x3 AND 0x00FF00FF)"
  have r1: "unat x1 = fields 2 (pairs (bit_fields x)) \<and> length (pairs (bit_fields x)) = 16 \<and>
      (\<forall>f \<in> set (pairs (bit_fields x)). f \<le> 2) \<and> sum_list (pairs (bit_fields x)) = sum_list (bit_fields x)"
    using pop_round [OF bit_fields_start(1) _ _ bit_fields_start(3), of x 16 "0x55555555"]
    by (simp add: x1_def bit_fields_start(2) field_mask_numeral)
  define f1 where "f1 = pairs (bit_fields x)"
  note r1 = r1 [folded f1_def]
  have r2: "unat x2 = fields 4 (pairs f1) \<and> length (pairs f1) = 8 \<and>
      (\<forall>f \<in> set (pairs f1). f \<le> 4) \<and> sum_list (pairs f1) = sum_list f1"
    using pop_round [of x1 2 f1 8 2 "0x33333333"] r1
    by (simp add: x2_def field_mask_numeral)
  define f2 where "f2 = pairs f1"
  note r2 = r2 [folded f2_def]
  have r3: "unat x3 = fields 8 (pairs f2) \<and> length (pairs f2) = 4 \<and>
      (\<forall>f \<in> set (pairs f2). f \<le> 8) \<and> sum_list (pairs f2) = sum_list f2"
    using pop_round [of x2 4 f2 4 4 "0x0F0F0F0F"] r2
    by (simp add: x3_def field_mask_numeral)
  define f3 where "f3 = pairs f2"
  note r3 = r3 [folded f3_def]
  have r4: "unat x4 = fields 16 (pairs f3) \<and> length (pairs f3) = 2 \<and>
      (\<forall>f \<in> set (pairs f3). f \<le> 16) \<and> sum_list (pairs f3) = sum_list f3"
    using pop_round [of x3 8 f3 2 8 "0x00FF00FF"] r3
    by (simp add: x4_def field_mask_numeral)
  then obtain a b where ab: "pairs f3 = [a, b]" by (auto simp: length_Suc_conv numeral_2_eq_2)
  have a: "a \<le> 16" "b \<le> 16" "a + b = sum_list (bit_fields x)" "unat x4 = a + 65536 * b"
    using r1 r2 r3 r4 by (simp_all add: ab)
  have "unat (x4 + drop_bit 16 x4) = a + 65536 * b + b"
  proof -
    have "unat (drop_bit 16 x4) = b"
      unfolding unat_drop_bit_eq unfolding drop_bit_eq_div using a by simp
    then show ?thesis using a by (simp add: unat_word_ariths(1))
  qed
  moreover have "(a + 65536 * b + b) mod 64 = a + b"
  proof -
    have "a + 65536 * b + b = (a + b) + 64 * (1024 * b)" by simp
    then show ?thesis using a by (simp only: mod_mult_self2) simp
  qed
  moreover have "unat (y AND 0x3F) = unat y mod 64" for y :: u32
    using and_low [of "unat y" 6] by (simp add: unsigned_and_eq)
  moreover have "pop_32 x = unat ((x4 + drop_bit 16 x4) AND 0x3F)"
    by (simp only: pop_32_def Let_def x1_def x2_def x3_def x4_def)
  ultimately show ?thesis using a by simp
qed

text \<open>the default \<open>pop_32\<close> counts the bits that are set, and for a nonzero word \<open>ilog2_32\<close>, computed from
  the table of leading zeros, is the floor of its base-2 logarithm.\<close>

theorem pop_ilog2_correct:
  "pop_32 x = card {i. bit x i} \<and>
   (if x = 0 then ilog2_32 x = -1
    else \<exists>l. ilog2_32 x = int l \<and> l < 32 \<and> 2 ^ l \<le> unat x \<and> unat x < 2 ^ Suc l)"
proof -
  have "sum_list (map (\<lambda>i. of_bool (P i)) [0..<n]) = card {i. i < n \<and> P i}" for P n
  proof (induction n)
    case (Suc n)
    have "{i. i < Suc n \<and> P i} = (if P n then insert n {i. i < n \<and> P i} else {i. i < n \<and> P i})"
      using less_Suc_eq by auto
    then show ?case using Suc by simp
  qed simp
  then have "pop_32 x = card {i. i < 32 \<and> bit x i}" by (simp add: pop_32_count bit_fields_def)
  also have "{i. i < 32 \<and> bit x i} = {i. bit x i}" by (auto dest: bit_imp_le_length)
  finally show ?thesis using ilog2_32_floor_log [of x] by (simp add: ilog2_32_def)
qed

end
