(* ===== verification/Arc4.thy ===== *)
theory Arc4
  imports CatPrelude
begin

text \<open>
  The ARC4 stream cipher of src/crypto.c.  The context is the 256-entry permutation and the two
  indices, which the code keeps below 256 by masking.  The contract of a stream cipher is a locale:
  encryption is exclusive or with a key stream that depends on the context alone, so decryption
  undoes encryption however the two sides cut the stream into calls.  That the key stream is the one
  of RC4 is a simulation: the published algorithm on a function from bytes to bytes, with indices
  that are bytes, against the code's array and masked integers.
\<close>

record arc4ctx =
  a_i :: nat
  a_j :: nat
  a_s :: "byte list"

definition arc4_swap :: "byte list \<Rightarrow> nat \<Rightarrow> nat \<Rightarrow> byte list" where
  "arc4_swap s i j = (let b = s ! i; s1 = s[i := s ! j] in s1[j := b])"

fun arc4_mix :: "byte list \<Rightarrow> nat \<Rightarrow> nat \<Rightarrow> nat \<Rightarrow> byte list \<Rightarrow> byte list" where
  "arc4_mix key 0 i j s = s"
| "arc4_mix key (Suc n) i j s =
     (let j' = (j + unat (s ! i) + unat (key ! (i mod length key))) mod 256
      in arc4_mix key n (i + 1) j' (arc4_swap s i j'))"

text \<open>An empty key passes the assertion and is then a division by zero.\<close>

definition arc4_init :: "byte list \<Rightarrow> arc4ctx outcome" where
  "arc4_init key =
     (if key = [] then Fault
      else Ok \<lparr>a_i = 0, a_j = 0, a_s = arc4_mix key 256 0 0 (map of_nat [0..<256])\<rparr>)"

text \<open>One turn of the loop both output functions share: the next key byte and context.\<close>

definition arc4_next :: "arc4ctx \<Rightarrow> byte \<times> arc4ctx" where
  "arc4_next c = (let
     i = (a_i c + 1) mod 256;
     j = (a_j c + unat (a_s c ! i)) mod 256;
     b1 = a_s c ! i;
     b2 = a_s c ! j;
     s = (a_s c)[i := b2, j := b1]
   in (s ! unat (b1 + b2), c\<lparr>a_i := i, a_j := j, a_s := s\<rparr>))"

fun arc4_gen :: "arc4ctx \<Rightarrow> nat \<Rightarrow> byte list \<times> arc4ctx" where
  "arc4_gen c 0 = ([], c)"
| "arc4_gen c (Suc n) = (let (k, c1) = arc4_next c; (out, c2) = arc4_gen c1 n in (k # out, c2))"

fun arc4_encrypt :: "arc4ctx \<Rightarrow> byte list \<Rightarrow> byte list \<times> arc4ctx" where
  "arc4_encrypt c [] = ([], c)"
| "arc4_encrypt c (b # bs) =
     (let (k, c1) = arc4_next c; (out, c2) = arc4_encrypt c1 bs in ((b XOR k) # out, c2))"

section \<open>The state stays a permutation\<close>

definition arc4_inv :: "arc4ctx \<Rightarrow> bool" where
  "arc4_inv c \<longleftrightarrow> a_i c < 256 \<and> a_j c < 256 \<and> length (a_s c) = 256 \<and> mset (a_s c) = mset (map of_nat [0..<256])"

lemma mset_update2:
  "i < length xs \<Longrightarrow> j < length xs \<Longrightarrow> mset (xs[i := xs ! j, j := xs ! i]) = mset xs"
  by (rule mset_swap [of j xs i, unfolded list_update_swap, symmetric, THEN sym]) 

lemma arc4_mix_perm:
  "i + n \<le> 256 \<Longrightarrow> length s = 256 \<Longrightarrow>
   length (arc4_mix key n i j s) = 256 \<and> mset (arc4_mix key n i j s) = mset s"
proof (induction n arbitrary: i j s)
  case (Suc n)
  let ?j = "(j + unat (s ! i) + unat (key ! (i mod length key))) mod 256"
  have "?j < 256" by simp
  then have "mset (arc4_swap s i ?j) = mset s" "length (arc4_swap s i ?j) = 256"
    using Suc.prems by (simp_all add: arc4_swap_def Let_def mset_update2)
  then show ?case using Suc by (simp add: Let_def)
qed simp

lemma arc4_init_inv: "arc4_init key = Ok c \<Longrightarrow> arc4_inv c"
  using arc4_mix_perm [of 0 256 "map of_nat [0..<256]" key 0]
  by (auto simp: arc4_init_def arc4_inv_def split: if_splits)

lemma arc4_next_inv: "arc4_inv c \<Longrightarrow> arc4_inv (snd (arc4_next c))"
  by (auto simp: arc4_inv_def arc4_next_def Let_def mset_update2)

lemma arc4_gen_inv: "arc4_inv c \<Longrightarrow> arc4_inv (snd (arc4_gen c n))"
  by (induction n arbitrary: c) (auto simp: Let_def split_def arc4_next_inv)

lemma arc4_encrypt_inv: "arc4_inv c \<Longrightarrow> arc4_inv (snd (arc4_encrypt c bs))"
  by (induction bs arbitrary: c) (auto simp: Let_def split_def arc4_next_inv)

section \<open>The contract of a stream cipher\<close>

text \<open>A client's sequence of calls on one context, and the bytes they return.\<close>

fun call_seq :: "('c \<Rightarrow> byte list \<Rightarrow> byte list \<times> 'c) \<Rightarrow> 'c \<Rightarrow> byte list list \<Rightarrow> byte list \<times> 'c" where
  "call_seq enc c [] = ([], c)"
| "call_seq enc c (m # ms) =
     (let (out, c1) = enc c m; (outs, c2) = call_seq enc c1 ms in (out @ outs, c2))"

locale stream_cipher =
  fixes gen :: "'c \<Rightarrow> nat \<Rightarrow> byte list \<times> 'c"
    and enc :: "'c \<Rightarrow> byte list \<Rightarrow> byte list \<times> 'c"
  assumes gen_length: "length (fst (gen c n)) = n"
    and gen_add: "gen c (m + n) = (fst (gen c m) @ fst (gen (snd (gen c m)) n), snd (gen (snd (gen c m)) n))"
    and enc_gen: "enc c xs = (map2 (XOR) xs (fst (gen c (length xs))), snd (gen c (length xs)))"
begin

lemma enc_length: "length (fst (enc c xs)) = length xs"
  by (simp add: enc_gen gen_length)

lemma enc_append: "enc c (xs @ ys) = (fst (enc c xs) @ fst (enc (snd (enc c xs)) ys), snd (enc (snd (enc c xs)) ys))"
  by (simp add: enc_gen gen_add gen_length)

lemma gen_0: "gen c 0 = ([], c) \<Longrightarrow> enc c [] = ([], c)"
  by (simp add: enc_gen)

lemma call_seq_concat:
  assumes "\<And>c. gen c 0 = ([], c)"
  shows "call_seq enc c ms = enc c (concat ms)"
proof (induction ms arbitrary: c)
  case Nil
  then show ?case using gen_0 [OF assms] by simp
next
  case (Cons m ms)
  then show ?case by (simp add: enc_append split_def Let_def)
qed

lemma enc_enc: "fst (enc c (fst (enc c xs))) = xs" "snd (enc c (fst (enc c xs))) = snd (enc c xs)"
proof -
  have "map2 (XOR) (map2 (XOR) xs ks) ks = xs" if "length xs = length ks" for ks :: "byte list"
    using that by (induction xs ks rule: list_induct2) (simp_all add: xor.assoc)
  then show "fst (enc c (fst (enc c xs))) = xs" "snd (enc c (fst (enc c xs))) = snd (enc c xs)"
    by (simp_all add: enc_gen gen_length)
qed

lemma decrypt_calls:
  assumes "\<And>c. gen c 0 = ([], c)" "concat ds = fst (call_seq enc c ms)"
  shows "call_seq enc c ds = (concat ms, snd (call_seq enc c ms))"
  using assms(2) by (simp add: call_seq_concat [OF assms(1)] enc_enc prod_eq_iff)

end

lemma length_arc4_gen: "length (fst (arc4_gen c n)) = n"
  by (induction n arbitrary: c) (auto simp: Let_def split_def)

lemma arc4_gen_add:
  "arc4_gen c (m + n) =
    (fst (arc4_gen c m) @ fst (arc4_gen (snd (arc4_gen c m)) n), snd (arc4_gen (snd (arc4_gen c m)) n))"
  by (induction m arbitrary: c) (auto simp: Let_def split_def)

lemma arc4_encrypt_gen:
  "arc4_encrypt c xs = (map2 (XOR) xs (fst (arc4_gen c (length xs))), snd (arc4_gen c (length xs)))"
  by (induction xs arbitrary: c) (auto simp: Let_def split_def)

interpretation arc4: stream_cipher arc4_gen arc4_encrypt
  by unfold_locales (fact length_arc4_gen arc4_gen_add arc4_encrypt_gen)+

section \<open>The published algorithm\<close>

text \<open>The state is a permutation of the bytes and two bytes; all sums are modulo 256.\<close>

type_synonym rc4_state = "(byte \<Rightarrow> byte) \<times> byte \<times> byte"

definition rc4_exch :: "(byte \<Rightarrow> byte) \<Rightarrow> byte \<Rightarrow> byte \<Rightarrow> byte \<Rightarrow> byte" where
  "rc4_exch S i j = S(i := S j, j := S i)"

definition rc4_schedule :: "byte list \<Rightarrow> byte \<Rightarrow> (byte \<Rightarrow> byte) \<times> byte \<Rightarrow> (byte \<Rightarrow> byte) \<times> byte" where
  "rc4_schedule key i = (\<lambda>(S, j). let j = j + S i + key ! (unat i mod length key) in (rc4_exch S i j, j))"

definition rc4_key :: "byte list \<Rightarrow> rc4_state" where
  "rc4_key key = (fst (fold (rc4_schedule key) (map of_nat [0..<256]) (\<lambda>x. x, 0)), 0, 0)"

definition rc4_step :: "rc4_state \<Rightarrow> byte \<times> rc4_state" where
  "rc4_step = (\<lambda>(S, i, j). let i = i + 1; j = j + S i; S = rc4_exch S i j in (S (S i + S j), S, i, j))"

fun rc4_bytes :: "rc4_state \<Rightarrow> nat \<Rightarrow> byte list" where
  "rc4_bytes st 0 = []"
| "rc4_bytes st (Suc n) = (let (k, st) = rc4_step st in k # rc4_bytes st n)"

definition rc4_keystream :: "byte list \<Rightarrow> nat \<Rightarrow> byte list" where
  "rc4_keystream key n = rc4_bytes (rc4_key key) n"

text \<open>The code's context as a state of the algorithm.\<close>

definition rc4_perm :: "byte list \<Rightarrow> byte \<Rightarrow> byte" where
  "rc4_perm s x = s ! unat x"

definition rc4_of :: "arc4ctx \<Rightarrow> rc4_state" where
  "rc4_of c = (rc4_perm (a_s c), of_nat (a_i c), of_nat (a_j c))"

lemma unat_byte_sum: "i < 256 \<Longrightarrow> unat (of_nat i :: byte) = i"
  by (simp add: unat_of_nat take_bit_nat_eq_self)

lemma byte_mod: "(of_nat (n mod 256) :: byte) = of_nat n"
  by (rule word_unat_eq_iff [THEN iffD2]) (simp add: unat_of_nat take_bit_eq_mod)

lemma byte_eq: "i < 256 \<Longrightarrow> (of_nat i :: byte) = x \<longleftrightarrow> unat x = i"
  using unat_byte_sum by auto

lemma rc4_perm_at: "i < 256 \<Longrightarrow> rc4_perm s (of_nat i) = s ! i"
  by (simp add: rc4_perm_def unat_byte_sum)

lemma rc4_perm_swap:
  assumes "i < 256" "j < 256" "length s = 256"
  shows "rc4_perm (s[i := s ! j, j := s ! i]) = rc4_exch (rc4_perm s) (of_nat i) (of_nat j)"
proof
  fix x :: byte
  show "rc4_perm (s[i := s ! j, j := s ! i]) x = rc4_exch (rc4_perm s) (of_nat i) (of_nat j) x"
    using assms byte_eq [OF assms(1), of x] byte_eq [OF assms(2), of x]
    by (auto simp: rc4_exch_def rc4_perm_def nth_list_update unat_byte_sum)
qed

text \<open>A turn of the code is a step of the algorithm.\<close>

lemma rc4_step_next:
  assumes "arc4_inv c"
  shows "rc4_step (rc4_of c) = (fst (arc4_next c), rc4_of (snd (arc4_next c)))"
proof -
  define i j s where "i = (a_i c + 1) mod 256" and "j = (a_j c + unat (a_s c ! i)) mod 256" and "s = (a_s c)[i := a_s c ! j, j := a_s c ! i]"
  have l: "i < 256" "j < 256" "length (a_s c) = 256" using assms by (simp_all add: i_def j_def arc4_inv_def)
  have n: "arc4_next c = (s ! unat (a_s c ! i + a_s c ! j), c\<lparr>a_i := i, a_j := j, a_s := s\<rparr>)"
    by (simp add: arc4_next_def Let_def i_def j_def s_def)
  have i: "of_nat (a_i c) + 1 = (of_nat i :: byte)" by (simp add: i_def byte_mod)
  have j: "of_nat (a_j c) + rc4_perm (a_s c) (of_nat i) = (of_nat j :: byte)" by (simp add: j_def byte_mod rc4_perm_at [OF l(1)])
  have s: "rc4_exch (rc4_perm (a_s c)) (of_nat i) (of_nat j) = rc4_perm s" unfolding s_def by (rule rc4_perm_swap [OF l, symmetric])
  have b: "s ! i = a_s c ! j" "s ! j = a_s c ! i" using l by (auto simp: s_def nth_list_update)
  have "rc4_step (rc4_of c) = (rc4_perm s (rc4_perm s (of_nat i) + rc4_perm s (of_nat j)), rc4_perm s, of_nat i, of_nat j)"
    by (simp add: rc4_step_def rc4_of_def Let_def i j s)
  then show ?thesis by (simp add: n rc4_of_def rc4_perm_at l b rc4_perm_def [of s "_ + _"] add.commute)
qed

lemma rc4_bytes_gen: "arc4_inv c \<Longrightarrow> fst (arc4_gen c n) = rc4_bytes (rc4_of c) n"
proof (induction n arbitrary: c)
  case (Suc n)
  then show ?case using Suc.IH [OF arc4_next_inv] rc4_step_next [OF Suc.prems] by (simp add: Let_def split_def)
qed simp

text \<open>So is the key set-up.\<close>

lemma rc4_mix:
  assumes "i + n = 256" "j < 256" "length s = 256"
  shows "rc4_perm (arc4_mix key n i j s) = fst (fold (rc4_schedule key) (map of_nat [i..<256]) (rc4_perm s, of_nat j))"
  using assms
proof (induction n arbitrary: i j s)
  case (Suc n)
  let ?j = "(j + unat (s ! i) + unat (key ! (i mod length key))) mod 256"
  have i: "i < 256" "[i..<256] = i # [Suc i..<256]" using Suc.prems(1) by (auto simp: upt_conv_Cons)
  have j: "?j < 256" by simp
  have "rc4_schedule key (of_nat i) (rc4_perm s, of_nat j) = (rc4_perm (arc4_swap s i ?j), of_nat ?j)"
    using rc4_perm_swap [OF i(1) j Suc.prems(3)]
    by (simp add: rc4_schedule_def Let_def byte_mod rc4_perm_at i(1) unat_byte_sum arc4_swap_def)
  moreover have "length (arc4_swap s i ?j) = 256" using Suc.prems(3) by (simp add: arc4_swap_def Let_def)
  ultimately show ?case using Suc.IH [of "Suc i" ?j "arc4_swap s i ?j"] Suc.prems(1) j by (simp add: i(2) Let_def)
qed simp

lemma rc4_init:
  assumes "arc4_init key = Ok c"
  shows "rc4_of c = rc4_key key"
proof -
  have "rc4_perm (map of_nat [0..<256]) = (\<lambda>x. x)"
  proof
    fix x :: byte
    have "unat x < 256" by (rule unat_byte_less)
    then show "rc4_perm (map of_nat [0..<256]) x = x" by (simp add: rc4_perm_def)
  qed
  then show ?thesis using assms rc4_mix [of 0 256 0 "map of_nat [0..<256]" key]
    by (auto simp: arc4_init_def rc4_of_def rc4_key_def split: if_splits)
qed

section \<open>Properties\<close>

text \<open>C15: For every key that is not empty, \<open>arc4_gen\<close> gives the key stream of the published RC4 algorithm, and encryption is the
  exclusive or of the message with it, however the message is cut into calls; so decryption with the same key, cut into any
  other calls, gives back the message and leaves both sides in the same context.  The table stays a permutation
  of the 256 byte values and the indices stay inside it.\<close>

theorem arc4_correct:
  assumes "key \<noteq> []"
  shows "\<exists>c. arc4_init key = Ok c \<and> fst (arc4_gen c n) = rc4_keystream key n
    \<and> fst (call_seq arc4_encrypt c ms) = map2 (XOR) (concat ms) (rc4_keystream key (length (concat ms)))
    \<and> arc4_inv c \<and> arc4_inv (snd (call_seq arc4_encrypt c ms))
    \<and> (\<forall>ds. concat ds = fst (call_seq arc4_encrypt c ms) \<longrightarrow> call_seq arc4_encrypt c ds = (concat ms, snd (call_seq arc4_encrypt c ms)))"
proof -
  obtain c where c: "arc4_init key = Ok c" using assms by (simp add: arc4_init_def)
  have inv: "arc4_inv c" using c by (rule arc4_init_inv)
  have gen: "fst (arc4_gen c n) = rc4_keystream key n" for n using rc4_bytes_gen [OF inv] by (simp add: rc4_keystream_def rc4_init [OF c])
  have seq: "call_seq arc4_encrypt c ms = arc4_encrypt c (concat ms)" by (rule arc4.call_seq_concat) simp
  then have "fst (call_seq arc4_encrypt c ms) = map2 (XOR) (concat ms) (rc4_keystream key (length (concat ms)))"
    by (simp add: arc4_encrypt_gen gen)
  moreover have "arc4_inv (snd (call_seq arc4_encrypt c ms))" unfolding seq by (rule arc4_encrypt_inv [OF inv])
  moreover have "call_seq arc4_encrypt c ds = (concat ms, snd (call_seq arc4_encrypt c ms))" if "concat ds = fst (call_seq arc4_encrypt c ms)" for ds
    using that by (rule arc4.decrypt_calls [rotated]) simp
  ultimately show ?thesis using c inv gen by blast
qed

theorem arc4_correct_witness:
  "\<exists>c. arc4_init [75, 101, 121] = Ok c \<and> fst (arc4_gen c 3) = rc4_keystream [75, 101, 121] 3 \<and>
    fst (call_seq arc4_encrypt c [[80], [108, 97]]) =
      map2 (XOR) (concat [[80], [108, 97]]) (rc4_keystream [75, 101, 121] (length (concat [[80 :: byte], [108, 97]])))"
proof -
  have "[75, 101, 121 :: byte] \<noteq> []" by simp
  from arc4_correct [OF this, of 3 "[[80], [108, 97]]"] show ?thesis by blast
qed

text \<open>From key set-up on, through any generation and encryption, the table is a permutation of the 256
  byte values and both indices stay inside it, so no table access is out of bounds.\<close>

theorem arc4_state_permutation:
  assumes "arc4_init key = Ok c"
  shows "arc4_inv c \<and> arc4_inv (snd (arc4_gen c n)) \<and> arc4_inv (snd (call_seq arc4_encrypt c ms))"
proof -
  have "arc4_inv (snd (call_seq arc4_encrypt c ms))" if "arc4_inv c" for c
    using that arc4_encrypt_inv by (subst arc4.call_seq_concat) simp_all
  then show ?thesis using arc4_init_inv [OF assms] arc4_gen_inv by blast
qed

theorem arc4_state_permutation_witness:
  "\<exists>c. arc4_init [1, 2, 3] = Ok c \<and> (arc4_inv c \<and> arc4_inv (snd (arc4_gen c 5)) \<and> arc4_inv (snd (call_seq arc4_encrypt c [[7], [8, 9]])))"
proof -
  obtain c where c: "arc4_init [1, 2, 3] = Ok c" by (simp add: arc4_init_def)
  from arc4_state_permutation [OF this] c show ?thesis by blast
qed

end
