(* ===== verification/Sha256.thy ===== *)
theory Sha256
  imports CatPrelude
begin

text \<open>
  SHA-256 of src/crypto.c.  Words are \<open>ulong\<close>, 64 bits on LP64, kept below 2^32 by masking.  The
  specification is FIPS 180-4 over 32-bit words: padding, message schedule, compression.  The
  incremental context represents the blocks already compressed and the bytes of the open block
  (\<open>sha_rep\<close>); feeding keeps this for every cut of the message.  The padding of \<open>sha256_fini\<close> takes
  the length modulo 63 where the standard has 64, so its digest is the standard's exactly under the
  condition of \<open>sha256_correct\<close>.
\<close>

section \<open>The code\<close>

definition sha256_k :: "u64 list" where
  "sha256_k =
     [0x428a2f98, 0x71374491, 0xb5c0fbcf, 0xe9b5dba5, 0x3956c25b, 0x59f111f1, 0x923f82a4, 0xab1c5ed5] @
     [0xd807aa98, 0x12835b01, 0x243185be, 0x550c7dc3, 0x72be5d74, 0x80deb1fe, 0x9bdc06a7, 0xc19bf174] @
     [0xe49b69c1, 0xefbe4786, 0x0fc19dc6, 0x240ca1cc, 0x2de92c6f, 0x4a7484aa, 0x5cb0a9dc, 0x76f988da] @
     [0x983e5152, 0xa831c66d, 0xb00327c8, 0xbf597fc7, 0xc6e00bf3, 0xd5a79147, 0x06ca6351, 0x14292967] @
     [0x27b70a85, 0x2e1b2138, 0x4d2c6dfc, 0x53380d13, 0x650a7354, 0x766a0abb, 0x81c2c92e, 0x92722c85] @
     [0xa2bfe8a1, 0xa81a664b, 0xc24b8b70, 0xc76c51a3, 0xd192e819, 0xd6990624, 0xf40e3585, 0x106aa070] @
     [0x19a4c116, 0x1e376c08, 0x2748774c, 0x34b0bcb5, 0x391c0cb3, 0x4ed8aa4a, 0x5b9cca4f, 0x682e6ff3] @
     [0x748f82ee, 0x78a5636f, 0x84c87814, 0x8cc70208, 0x90befffa, 0xa4506ceb, 0xbef9a3f7, 0xc67178f2]"

definition ror :: "u64 \<Rightarrow> nat \<Rightarrow> u64" where
  "ror x amt = (drop_bit amt x OR push_bit (32 - amt) x) AND 0xFFFFFFFF"

definition Ch :: "u64 \<Rightarrow> u64 \<Rightarrow> u64 \<Rightarrow> u64" where
  "Ch x y z = (x AND y) XOR (NOT x AND z)"

definition Maj :: "u64 \<Rightarrow> u64 \<Rightarrow> u64 \<Rightarrow> u64" where
  "Maj x y z = (x AND y) XOR (x AND z) XOR (y AND z)"

definition Sigma0 :: "u64 \<Rightarrow> u64" where "Sigma0 x = ror x 2 XOR ror x 13 XOR ror x 22"
definition Sigma1 :: "u64 \<Rightarrow> u64" where "Sigma1 x = ror x 6 XOR ror x 11 XOR ror x 25"
definition sigma0 :: "u64 \<Rightarrow> u64" where "sigma0 x = ror x 7 XOR ror x 18 XOR (drop_bit 3 x AND 0xFFFFFFFF)"
definition sigma1 :: "u64 \<Rightarrow> u64" where "sigma1 x = ror x 17 XOR ror x 19 XOR (drop_bit 10 x AND 0xFFFFFFFF)"

record sha256ctx =
  llo :: u64
  lhi :: u64
  sw :: "u64 list"
  sh :: "u64 list"

definition sha256_init :: sha256ctx where
  "sha256_init = \<lparr>llo = 0, lhi = 0, sw = replicate 64 0,
     sh = [0x6a09e667, 0xbb67ae85, 0x3c6ef372, 0xa54ff53a, 0x510e527f, 0x9b05688c, 0x1f83d9ab, 0x5be0cd19]\<rparr>"

definition sha_put :: "nat \<Rightarrow> byte \<Rightarrow> u64 list \<Rightarrow> u64 list" where
  "sha_put idx b w =
     (if idx mod 4 = 0 then w[idx div 4 := push_bit 24 (ucast b)]
      else if idx mod 4 = 1 then w[idx div 4 := w ! (idx div 4) OR push_bit 16 (ucast b)]
      else if idx mod 4 = 2 then w[idx div 4 := w ! (idx div 4) OR push_bit 8 (ucast b)]
      else w[idx div 4 := w ! (idx div 4) OR ucast b])"

fun sha_puts :: "nat \<Rightarrow> byte list \<Rightarrow> u64 list \<Rightarrow> u64 list" where
  "sha_puts idx [] w = w"
| "sha_puts idx (b # bs) w = sha_puts (idx + 1) bs (sha_put idx b w)"

definition sha256_add_bytes :: "sha256ctx \<Rightarrow> byte list \<Rightarrow> bool \<times> sha256ctx \<times> byte list" where
  "sha256_add_bytes s p = (let
     idx = unat (llo s AND 63);
     toadd = (if 64 - idx > length p then length p else 64 - idx);
     w = sha_puts idx (take toadd p) (sw s);
     olo = llo s;
     l = (olo + of_nat toadd) AND 0xFFFFFFFF
   in (idx + toadd = 64,
       s\<lparr>sw := w, llo := l, lhi := (if l < olo then lhi s + 1 else lhi s)\<rparr>, drop toadd p))"

definition sha_schedule :: "u64 list \<Rightarrow> u64 list" where
  "sha_schedule w = fold (\<lambda>i w. w[i := (sigma1 (w ! (i - 2)) + w ! (i - 7) + sigma0 (w ! (i - 15)) + w ! (i - 16))
     AND 0xFFFFFFFF]) [16..<64] w"

fun sha_round :: "u64 \<Rightarrow> u64 list \<Rightarrow> u64 list" where
  "sha_round kw [a, b, c, d, e, f, g, h] =
     (let t1 = (h + Sigma1 e + Ch e f g + kw) AND 0xFFFFFFFF;
          t2 = (Sigma0 a + Maj a b c) AND 0xFFFFFFFF
      in [(t1 + t2) AND 0xFFFFFFFF, a, b, c, (d + t1) AND 0xFFFFFFFF, e, f, g])"
| "sha_round kw v = v"

definition sha256_hash_block :: "sha256ctx \<Rightarrow> sha256ctx" where
  "sha256_hash_block s = (let
     w = sha_schedule (sw s);
     v = fold (\<lambda>i v. sha_round (sha256_k ! i + w ! i) v) [0..<64] (sh s)
   in s\<lparr>sw := w, sh := map2 (\<lambda>x y. (x + y) AND 0xFFFFFFFF) (sh s) v\<rparr>)"

text \<open>Each turn of the two loops takes at least one byte, so the number of bytes is enough fuel.\<close>

fun sha_loop :: "nat \<Rightarrow> sha256ctx \<Rightarrow> byte list \<Rightarrow> sha256ctx" where
  "sha_loop 0 s p = s"
| "sha_loop (Suc n) s p =
     (if p = [] then s
      else case sha256_add_bytes s p of (full, s1, p1) \<Rightarrow>
             sha_loop n (if full then sha256_hash_block s1 else s1) p1)"

definition sha256_add :: "sha256ctx \<Rightarrow> byte list \<Rightarrow> sha256ctx" where
  "sha256_add s p = sha_loop (length p) s p"

fun sha_fini_loop :: "nat \<Rightarrow> sha256ctx \<Rightarrow> byte list \<Rightarrow> sha256ctx" where
  "sha_fini_loop 0 s p = s"
| "sha_fini_loop (Suc n) s p =
     (if p = [] then s
      else case sha256_add_bytes s p of (full, s1, p1) \<Rightarrow> sha_fini_loop n (sha256_hash_block s1) p1)"

definition be_bytes32 :: "u64 \<Rightarrow> byte list" where
  "be_bytes32 x = [ucast (drop_bit 24 x), ucast (drop_bit 16 x), ucast (drop_bit 8 x), ucast x]"

definition sha_plen :: "sha256ctx \<Rightarrow> nat" where
  "sha_plen s = (let plen = 64 - unat (llo s mod 63) in if plen < 9 then plen + 64 else plen)"

definition sha_pad :: "sha256ctx \<Rightarrow> byte list" where
  "sha_pad s = (let
     plen = sha_plen s;
     hi = push_bit 3 (lhi s) + drop_bit 29 (llo s);
     lo = push_bit 3 (llo s) AND 0xFFFFFFFF
   in take (plen - 8) (0x80 # replicate 71 0) @ be_bytes32 hi @ be_bytes32 lo)"

definition sha256_fini :: "sha256ctx \<Rightarrow> byte list" where
  "sha256_fini s = concat (map be_bytes32 (sh (sha_fini_loop (sha_plen s) s (sha_pad s))))"

definition sha256 :: "byte list \<Rightarrow> byte list" where
  "sha256 m = sha256_fini (sha256_add sha256_init m)"

section \<open>FIPS 180-4\<close>

definition fCh :: "u32 \<Rightarrow> u32 \<Rightarrow> u32 \<Rightarrow> u32" where "fCh x y z = (x AND y) XOR (NOT x AND z)"
definition fMaj :: "u32 \<Rightarrow> u32 \<Rightarrow> u32 \<Rightarrow> u32" where "fMaj x y z = (x AND y) XOR (x AND z) XOR (y AND z)"
definition fS0 :: "u32 \<Rightarrow> u32" where "fS0 x = word_rotr 2 x XOR word_rotr 13 x XOR word_rotr 22 x"
definition fS1 :: "u32 \<Rightarrow> u32" where "fS1 x = word_rotr 6 x XOR word_rotr 11 x XOR word_rotr 25 x"
definition fs0 :: "u32 \<Rightarrow> u32" where "fs0 x = word_rotr 7 x XOR word_rotr 18 x XOR drop_bit 3 x"
definition fs1 :: "u32 \<Rightarrow> u32" where "fs1 x = word_rotr 17 x XOR word_rotr 19 x XOR drop_bit 10 x"

definition be_word :: "byte list \<Rightarrow> u32" where
  "be_word bs = fold (\<lambda>b x. push_bit 8 x OR ucast b) bs 0"

definition f_words :: "byte list \<Rightarrow> u32 list" where
  "f_words blk = map (\<lambda>q. be_word (take 4 (drop (4 * q) blk))) [0..<16]"

fun f_sched :: "nat \<Rightarrow> u32 list \<Rightarrow> u32 list" where
  "f_sched 0 W = W"
| "f_sched (Suc n) W = (let V = f_sched n W; t = length V
     in V @ [fs1 (V ! (t - 2)) + V ! (t - 7) + fs0 (V ! (t - 15)) + V ! (t - 16)])"

fun f_round :: "u32 \<Rightarrow> u32 list \<Rightarrow> u32 list" where
  "f_round kw [a, b, c, d, e, f, g, h] =
     (let t1 = h + fS1 e + fCh e f g + kw; t2 = fS0 a + fMaj a b c
      in [t1 + t2, a, b, c, d + t1, e, f, g])"
| "f_round kw v = v"

definition f_compress :: "byte list \<Rightarrow> u32 list \<Rightarrow> u32 list" where
  "f_compress blk H = (let W = f_sched 48 (f_words blk);
     v = fold (\<lambda>i v. f_round (ucast (sha256_k ! i) + W ! i) v) [0..<64] H in map2 (+) H v)"

definition f_blocks :: "byte list \<Rightarrow> u32 list \<Rightarrow> u32 list" where
  "f_blocks = over_blocks 64 f_compress"

definition f_init :: "u32 list" where
  "f_init = [0x6a09e667, 0xbb67ae85, 0x3c6ef372, 0xa54ff53a, 0x510e527f, 0x9b05688c, 0x1f83d9ab, 0x5be0cd19]"

definition be_bytes64 :: "u64 \<Rightarrow> byte list" where
  "be_bytes64 x = map (\<lambda>i. ucast (drop_bit (56 - 8 * i) x)) [0..<8]"

definition f_pad :: "byte list \<Rightarrow> byte list" where
  "f_pad m = m @ [0x80] @ replicate ((119 - length m mod 64) mod 64) 0 @ be_bytes64 (of_nat (8 * length m))"

definition f_digest :: "u32 list \<Rightarrow> byte list" where
  "f_digest H = concat (map (\<lambda>x. map (\<lambda>i. ucast (drop_bit (24 - 8 * i) x)) [0..<4]) H)"

definition sha256_spec :: "byte list \<Rightarrow> byte list" where
  "sha256_spec m = f_digest (f_blocks (f_pad m) f_init)"

section \<open>Words of the code are words of the standard\<close>

lemma low32: "x AND 0xFFFFFFFF = (ucast (ucast (x :: u64) :: u32) :: u64)"
proof -
  have m: "(0xFFFFFFFF :: u64) = mask 32" by (simp add: mask_eq_exp_minus_1)
  show ?thesis unfolding m by (intro bit_word_eqI) (auto simp: bit_simps)
qed

lemma down_add: "(ucast ((x :: u64) + y) :: u32) = ucast x + ucast y"
proof -
  have d: "(2 :: nat) ^ 32 dvd 2 ^ 64" by simp
  show ?thesis
    using mod_mod_cancel [OF d, of "unat x + unat y"]
    by (simp add: word_unat_eq_iff unsigned_ucast_eq unat_word_ariths(1) take_bit_eq_mod mod_simps)
qed

lemma down_up [simp]: "(ucast (ucast (x :: u32) :: u64) :: u32) = x"
  by (intro bit_word_eqI) (auto simp: bit_simps)

lemma up_inj [simp]: "(ucast (x :: u32) :: u64) = ucast y \<longleftrightarrow> x = y"
  by (metis down_up)

lemma ror_up:
  fixes x :: u32
  assumes k: "0 < k" "k < 32"
  shows "ror (ucast x) k = ucast (word_rotr k x)"
proof (rule bit_word_eqI)
  have m: "(0xFFFFFFFF :: u64) = mask 32" by (simp add: mask_eq_exp_minus_1)
  fix n assume "n < LENGTH(64)"
  show "bit (ror (ucast x) k) n = bit (ucast (word_rotr k x) :: u64) n"
  proof (cases "n < 32")
    case True
    have "(n + k) mod 32 = (if k + n < 32 then k + n else k + n - 32)" using True k by (auto simp: mod_if)
    then have r: "bit (word_rotr k x) n = bit x (if k + n < 32 then k + n else k + n - 32)"
      using True k by (simp add: bit_word_rotr_iff)
    have "n - (32 - k) = k + n - 32" using k by simp
    then show ?thesis using True k bit_imp_le_length [of x "k + n"]
      by (auto simp: ror_def m bit_and_iff bit_or_iff bit_mask_iff bit_drop_bit_eq bit_push_bit_iff bit_ucast_iff r)
  next
    case False
    then show ?thesis using bit_imp_le_length [of "word_rotr k x" n]
      by (auto simp: ror_def m bit_and_iff bit_mask_iff bit_ucast_iff)
  qed
qed

lemma xor_up: "(ucast (x :: u32) :: u64) XOR ucast y = ucast (x XOR y)"
  by (intro bit_word_eqI) (auto simp: bit_simps)

lemma shr_up: "drop_bit k (ucast (x :: u32) :: u64) AND 0xFFFFFFFF = ucast (drop_bit k x)"
  unfolding low32 by (intro bit_word_eqI) (auto simp: bit_simps dest: bit_imp_le_length)

lemma Ch_up: "Ch (ucast x) (ucast y) (ucast z) = ucast (fCh x y z)"
  unfolding Ch_def fCh_def by (intro bit_word_eqI) (auto simp: bit_simps dest: bit_imp_le_length)

lemma Maj_up: "Maj (ucast x) (ucast y) (ucast z) = ucast (fMaj x y z)"
  unfolding Maj_def fMaj_def by (intro bit_word_eqI) (auto simp: bit_simps)

lemma Sigma_up: "Sigma0 (ucast x) = ucast (fS0 x)" "Sigma1 (ucast x) = ucast (fS1 x)"
  "sigma0 (ucast x) = ucast (fs0 x)" "sigma1 (ucast x) = ucast (fs1 x)"
  by (simp_all add: Sigma0_def Sigma1_def sigma0_def sigma1_def fS0_def fS1_def fs0_def fs1_def
      ror_up xor_up shr_up)

lemma add_mask_up: "((x :: u64) + y) AND 0xFFFFFFFF = ucast (ucast x + ucast y :: u32)"
  by (simp only: low32 down_add)

lemma sha_round_up:
  assumes "length v = 8"
  shows "sha_round kw (map ucast v) = map ucast (f_round (ucast kw) v)"
proof -
  obtain a b c d e f g h where v: "v = [a, b, c, d, e, f, g, h]"
    using assms by (auto simp: length_Suc_conv eval_nat_numeral)
  show ?thesis
    by (simp add: v Let_def add_mask_up down_add Sigma_up Ch_up Maj_up)
qed

lemma length_f_round: "length v = 8 \<Longrightarrow> length (f_round kw v) = 8"
  by (auto simp: length_Suc_conv eval_nat_numeral Let_def)

section \<open>The message schedule\<close>

lemma take_update_last: "m < length xs \<Longrightarrow> take (Suc m) (xs[m := v]) = take m xs @ [v]"
  by (simp add: take_Suc_conv_app_nth)

lemma length_f_sched: "length (f_sched n W) = length W + n"
  by (induction n) (simp_all add: Let_def)

lemma sha_schedule_prefix:
  assumes "length w = 64" "take 16 w = map ucast W" "length W = 16"
  shows "16 + n \<le> 64 \<Longrightarrow>
    let w' = fold (\<lambda>i w. w[i := (sigma1 (w ! (i - 2)) + w ! (i - 7) + sigma0 (w ! (i - 15)) + w ! (i - 16)) AND 0xFFFFFFFF])
       [16..<16 + n] w
    in length w' = 64 \<and> take (16 + n) w' = map ucast (f_sched n W)"
proof (induction n)
  case 0
  then show ?case using assms by simp
next
  case (Suc n)
  let ?f = "\<lambda>i w. w[i := (sigma1 (w ! (i - 2)) + w ! (i - 7) + sigma0 (w ! (i - 15)) + w ! (i - 16)) AND 0xFFFFFFFF]"
  define w' where "w' = fold ?f [16..<16 + n] w"
  have w': "length w' = 64" "take (16 + n) w' = map ucast (f_sched n W)"
    using Suc by (simp_all add: w'_def Let_def)
  have l: "length (f_sched n W) = 16 + n" using assms by (simp add: length_f_sched)
  have nth: "w' ! j = ucast (f_sched n W ! j)" if "j < 16 + n" for j
    using that w'(2) l by (metis length_map nth_map nth_take)
  have e: "[16..<16 + Suc n] = [16..<16 + n] @ [16 + n]" by (simp only: add_Suc_right upt_Suc) simp
  have "fold ?f [16..<16 + Suc n] w = ?f (16 + n) w'" unfolding e w'_def by simp
  moreover have "take (16 + Suc n) (?f (16 + n) w') =
      take (16 + n) w' @ [(sigma1 (w' ! (14 + n)) + w' ! (9 + n) + sigma0 (w' ! (1 + n)) + w' ! n) AND 0xFFFFFFFF]"
    using Suc.prems w'(1) by (simp only: add_Suc_right take_update_last) simp
  ultimately show ?case
    using w' l nth [of "14 + n"] nth [of "9 + n"] nth [of "1 + n"] nth [of n]
    by (simp add: Let_def Sigma_up add_mask_up down_add add.commute)
qed

lemma sha_schedule_up:
  assumes "length w = 64" "take 16 w = map ucast W" "length W = 16"
  shows "length (sha_schedule w) = 64" "sha_schedule w = map ucast (f_sched 48 W)"
proof -
  have e: "16 + 48 = (64 :: nat)" by simp
  have "length (sha_schedule w) = 64 \<and> take 64 (sha_schedule w) = map ucast (f_sched 48 W)"
    unfolding sha_schedule_def by (rule sha_schedule_prefix [OF assms, of 48, unfolded e Let_def, OF order_refl])
  then show "length (sha_schedule w) = 64" "sha_schedule w = map ucast (f_sched 48 W)" by auto
qed

section \<open>One block\<close>

lemma sha_rounds_up:
  assumes "w = map ucast W"
  shows "length v = 8 \<Longrightarrow> (\<forall>i \<in> set is. i < length W) \<Longrightarrow>
    length (fold (\<lambda>i v. f_round (ucast (sha256_k ! i) + W ! i) v) is v) = 8 \<and>
    fold (\<lambda>i v. sha_round (sha256_k ! i + w ! i) v) is (map ucast v) =
    map ucast (fold (\<lambda>i v. f_round (ucast (sha256_k ! i) + W ! i) v) is v)"
proof (induction "is" arbitrary: v)
  case (Cons i "is")
  have "sha_round (sha256_k ! i + w ! i) (map ucast v) = map ucast (f_round (ucast (sha256_k ! i) + W ! i) v)"
    using Cons.prems by (simp add: sha_round_up assms down_add)
  then show ?case using Cons length_f_round [of v] by simp
qed simp

lemma map2_up: "length xs = length ys \<Longrightarrow>
    map2 (\<lambda>x y. (x + y) AND 0xFFFFFFFF) (map ucast xs) (map ucast ys) = (map ucast (map2 (+) xs (ys :: u32 list)) :: u64 list)"
  by (induction xs ys rule: list_induct2) (simp_all add: add_mask_up)

lemma length_f_words: "length (f_words blk) = 16"
  by (simp add: f_words_def)

lemma length_f_compress: "length H = 8 \<Longrightarrow> length (f_compress blk H) = 8"
  using sha_rounds_up [OF refl, of H "[0..<64]" "f_sched 48 (f_words blk)"]
  by (simp add: f_compress_def Let_def length_f_sched length_f_words del: upt.simps upt_rec_numeral)

lemma hash_block_up:
  assumes "length H = 8" "sh s = map ucast H" "length (sw s) = 64" "take 16 (sw s) = map ucast (f_words blk)"
  shows "sh (sha256_hash_block s) = map ucast (f_compress blk H)" "length (sw (sha256_hash_block s)) = 64"
    "llo (sha256_hash_block s) = llo s" "lhi (sha256_hash_block s) = lhi s"
proof -
  define W where "W = f_sched 48 (f_words blk)"
  have w: "length (sha_schedule (sw s)) = 64" "sha_schedule (sw s) = map ucast W" "length W = 64"
    using sha_schedule_up [OF assms(3,4) length_f_words] by (simp_all add: W_def length_f_sched length_f_words)
  define idxs where "idxs = [0..<64 :: nat]"
  have "\<forall>i \<in> set idxs. i < length W" by (simp add: idxs_def w)
  note r = sha_rounds_up [OF w(2) assms(1) this]
  show "sh (sha256_hash_block s) = map ucast (f_compress blk H)"
    using r assms(1) unfolding sha256_hash_block_def f_compress_def Let_def idxs_def [symmetric] W_def [symmetric]
    by (simp add: assms(2) map2_up)
  show "length (sw (sha256_hash_block s)) = 64" "llo (sha256_hash_block s) = llo s" "lhi (sha256_hash_block s) = lhi s"
    using w(1) by (simp_all add: sha256_hash_block_def Let_def)
qed

section \<open>Bytes of the open block\<close>

fun part :: "nat \<Rightarrow> byte list \<Rightarrow> u64" where
  "part k [] = 0"
| "part k (b # bs) = push_bit k (ucast b) OR part (k - 8) bs"

lemma part_snoc: "8 * length bs \<le> k \<Longrightarrow> part k (bs @ [b]) = part k bs OR push_bit (k - 8 * length bs) (ucast b)"
  by (induction bs arbitrary: k) (simp_all add: or.assoc)

lemma or_up: "(ucast (x OR y :: u32) :: u64) = ucast x OR ucast y"
  by (intro bit_word_eqI) (auto simp: bit_simps)

lemma push_up: "k \<le> 24 \<Longrightarrow> (ucast (push_bit k (ucast (b :: byte)) :: u32) :: u64) = push_bit k (ucast b)"
proof (rule bit_word_eqI)
  fix n assume "k \<le> 24"
  then show "bit (ucast (push_bit k (ucast b) :: u32) :: u64) n = bit (push_bit k (ucast b) :: u64) n"
    using bit_imp_le_length [of b "n - k"] by (auto simp: bit_simps)
qed

lemma part_word: "length bs = 4 \<Longrightarrow> part 24 bs = ucast (be_word bs)"
proof -
  assume "length bs = 4"
  then obtain a b c d where "bs = [a, b, c, d]" by (auto simp: length_Suc_conv eval_nat_numeral)
  moreover have "(ucast (ucast d :: u32) :: u64) = ucast d" using push_up [of 0 d] by simp
  ultimately show ?thesis
    by (simp add: be_word_def push_bit_or push_bit_push_bit or_up push_up or.assoc)
qed

definition part_ok :: "byte list \<Rightarrow> u64 list \<Rightarrow> bool" where
  "part_ok t w \<longleftrightarrow> (\<forall>q. 4 * q < length t \<longrightarrow> w ! q = part 24 (take 4 (drop (4 * q) t)))"

lemma part_ok_put:
  assumes "part_ok t w" "length t < 64" "length w = 64"
  shows "part_ok (t @ [b]) (sha_put (length t) b w)" "length (sha_put (length t) b w) = 64"
proof -
  let ?q = "length t div 4" and ?r = "length t mod 4"
  have l: "length t = 4 * ?q + ?r" by simp
  have q: "?q < 16" using assms(2) by simp
  define old where "old = (if ?r = 0 then 0 else w ! ?q)"
  have "push_bit (24 - 8 * ?r) (ucast b) = (if ?r = 0 then push_bit 24 (ucast b) else if ?r = 1 then push_bit 16 (ucast b)
      else if ?r = 2 then push_bit 8 (ucast b) else (ucast b :: u64))"
  proof -
    have "?r < 4" by simp
    then have "?r = 0 \<or> ?r = 1 \<or> ?r = 2 \<or> ?r = 3" by linarith
    then show ?thesis by auto
  qed
  then have put: "sha_put (length t) b w = w[?q := old OR push_bit (24 - 8 * ?r) (ucast b)]"
    by (simp add: sha_put_def old_def)
  then show "length (sha_put (length t) b w) = 64" using assms(3) by simp
  have tl: "length (drop (4 * ?q) t) = ?r" by (simp add: minus_mult_div_eq_mod)
  have old: "old = part 24 (drop (4 * ?q) t)"
  proof (cases "?r = 0")
    case True
    then show ?thesis using tl by (simp add: old_def)
  next
    case False
    then have "4 * ?q < length t" using l by linarith
    then have "w ! ?q = part 24 (take 4 (drop (4 * ?q) t))" using assms(1) unfolding part_ok_def by blast
    moreover have "take 4 (drop (4 * ?q) t) = drop (4 * ?q) t" using tl by simp
    ultimately show ?thesis using False by (simp add: old_def)
  qed
  show "part_ok (t @ [b]) (sha_put (length t) b w)"
    unfolding part_ok_def
  proof (intro allI impI)
    fix q assume "4 * q < length (t @ [b])"
    then consider "q < ?q" | "q = ?q" using l by (metis One_nat_def Suc_leI add.right_neutral add_Suc_right div_le_mono le_neq_implies_less length_append list.size(3,4) less_Suc_eq_le mult.commute nonzero_mult_div_cancel_left zero_neq_numeral)
    then show "sha_put (length t) b w ! q = part 24 (take 4 (drop (4 * q) (t @ [b])))"
    proof cases
      case 1
      then have "4 * q + 4 \<le> length t" using l by linarith
      then show ?thesis using 1 assms(1) by (simp add: put part_ok_def)
    next
      case 2
      have "take 4 (drop (4 * q) (t @ [b])) = drop (4 * ?q) t @ [b]" using 2 tl by simp
      moreover have "part 24 (drop (4 * ?q) t @ [b]) = part 24 (drop (4 * ?q) t) OR push_bit (24 - 8 * ?r) (ucast b)"
        using part_snoc [of "drop (4 * ?q) t" 24 b] tl by simp
      ultimately show ?thesis using 2 q assms(3) by (simp add: put old)
    qed
  qed
qed

lemma part_ok_puts:
  "part_ok t w \<Longrightarrow> length t + length x \<le> 64 \<Longrightarrow> length w = 64 \<Longrightarrow>
   part_ok (t @ x) (sha_puts (length t) x w) \<and> length (sha_puts (length t) x w) = 64"
proof (induction x arbitrary: t w)
  case (Cons b x)
  then show ?case using part_ok_put [of t w b] Cons.IH [of "t @ [b]" "sha_put (length t) b w"] by simp
qed simp

lemma part_ok_block:
  assumes "part_ok blk w" "length blk = 64" "length w = 64"
  shows "take 16 w = map ucast (f_words blk)"
proof (rule nth_equalityI)
  show "length (take 16 w) = length (map ucast (f_words blk))" using assms by (simp add: length_f_words)
  fix q assume "q < length (take 16 w)"
  then have q: "q < 16" using assms by simp
  then have "w ! q = part 24 (take 4 (drop (4 * q) blk))" using assms by (auto simp: part_ok_def)
  also have "\<dots> = ucast (be_word (take 4 (drop (4 * q) blk)))" using q assms by (intro part_word) simp
  finally show "take 16 w ! q = map ucast (f_words blk) ! q" using q by (simp add: f_words_def)
qed

section \<open>Feeding a message\<close>

definition sha_rep :: "byte list \<Rightarrow> sha256ctx \<Rightarrow> bool" where
  "sha_rep m s \<longleftrightarrow> length (sw s) = 64 \<and> sh s = map ucast (f_blocks m f_init) \<and>
     length (f_blocks m f_init) = 8 \<and> unat (llo s) = length m mod 2 ^ 32 \<and>
     lhi s = of_nat (length m div 2 ^ 32) \<and> part_ok (block_tail 64 m) (sw s)"

lemma sha_rep_init: "sha_rep [] sha256_init"
  by (simp add: sha_rep_def sha256_init_def f_blocks_def f_init_def part_ok_def block_tail_def)

lemma and63: "unat ((x :: u64) AND 63) = unat x mod 64"
proof -
  have "x AND 63 = take_bit 6 x" by (simp add: take_bit_eq_mask mask_eq_exp_minus_1)
  moreover have "unat (take_bit 6 x) = unat x mod 2 ^ 6"
    by (simp only: unsigned_take_bit_eq) (rule take_bit_eq_mod)
  ultimately show ?thesis by simp
qed

lemma mod_2_32_64: "(n mod 2 ^ 32) mod 64 = n mod (64 :: nat)"
  by (rule mod_mod_cancel) simp

text \<open>The byte counter over two words of 32 bits.\<close>

lemma sha_count:
  fixes l :: u64
  assumes "unat l = n mod 2 ^ 32" "t < 2 ^ 32"
    and "l' = (l + of_nat t) AND 0xFFFFFFFF"
  shows "unat l' = (n + t) mod 2 ^ 32"
    and "(if l' < l then (of_nat (n div 2 ^ 32) :: u64) + 1 else of_nat (n div 2 ^ 32)) = of_nat ((n + t) div 2 ^ 32)"
proof -
  have l: "unat l < 2 ^ 32" using assms(1) by simp
  have "unat (l + of_nat t) = unat l + t"
    using l assms(2) by (simp add: unat_word_ariths(1) unsigned_of_nat take_bit_nat_eq_self)
  moreover have "unat (x AND 0xFFFFFFFF) = unat x mod 2 ^ 32" for x :: u64
  proof -
    have "x AND 0xFFFFFFFF = take_bit 32 x" by (simp add: take_bit_eq_mask mask_eq_exp_minus_1)
    then show ?thesis by (simp only: unsigned_take_bit_eq) (rule take_bit_eq_mod)
  qed
  ultimately have l': "unat l' = (unat l + t) mod 2 ^ 32" using assms(3) by simp
  then show "unat l' = (n + t) mod 2 ^ 32" using assms(1) by (simp add: mod_simps)
  have "l' < l \<longleftrightarrow> unat l + t \<ge> 2 ^ 32"
    using l l' assms(2) by (auto simp: word_less_nat_alt mod_if)
  moreover have "(n + t) div 2 ^ 32 = n div 2 ^ 32 + (if unat l + t \<ge> 2 ^ 32 then 1 else 0)"
  proof -
    have "(n + t) div 2 ^ 32 = n div 2 ^ 32 + (unat l + t) div 2 ^ 32"
    proof -
      have "n = n mod 2 ^ 32 + 2 ^ 32 * (n div 2 ^ 32)" by simp
      then have "n + t = (unat l + t) + 2 ^ 32 * (n div 2 ^ 32)" using assms(1) by linarith
      then show ?thesis by (simp only: div_mult_self2) simp
    qed
    moreover have "(unat l + t) div 2 ^ 32 = (if unat l + t \<ge> 2 ^ 32 then 1 else 0)"
      using l assms(2) by (auto intro!: div_nat_eqI)
    ultimately show ?thesis by simp
  qed
  ultimately show "(if l' < l then (of_nat (n div 2 ^ 32) :: u64) + 1 else of_nat (n div 2 ^ 32)) = of_nat ((n + t) div 2 ^ 32)"
    by simp
qed

lemma sha_add_bytes_ok:
  assumes rep: "sha_rep m s" and r: "sha256_add_bytes s p = (full, s1, p1)"
  defines "k \<equiv> min (64 - length m mod 64) (length p)"
  shows "p1 = drop k p" "full \<longleftrightarrow> length m mod 64 + k = 64"
    and "full \<Longrightarrow> sha_rep (m @ take k p) (sha256_hash_block s1)"
    and "\<not> full \<Longrightarrow> sha_rep (m @ take k p) s1"
proof -
  let ?t = "block_tail 64 m" and ?x = "take k p"
  have lt: "length ?t = length m mod 64" by (rule length_block_tail)
  have "unat (llo s) = length m mod 2 ^ 32" using rep by (simp add: sha_rep_def)
  then have idx: "unat (llo s AND 63) = length m mod 64" by (simp only: and63 mod_2_32_64)
  have kk: "(if 64 - length m mod 64 > length p then length p else 64 - length m mod 64) = k" by (simp add: k_def)
  have e: "full \<longleftrightarrow> length m mod 64 + k = 64" "p1 = drop k p"
    "sw s1 = sha_puts (length ?t) ?x (sw s)" "sh s1 = sh s"
    "llo s1 = (llo s + of_nat k) AND 0xFFFFFFFF" "lhi s1 = (if llo s1 < llo s then lhi s + 1 else lhi s)"
    using r unfolding sha256_add_bytes_def Let_def idx kk lt by auto
  show "p1 = drop k p" "full \<longleftrightarrow> length m mod 64 + k = 64" by fact+
  have lx: "length ?x = k" "k \<le> 64" by (auto simp: k_def)
  have "length m mod 64 < 64" "k \<le> 64 - length m mod 64" by (simp_all add: k_def)
  then have le: "length ?t + length ?x \<le> 64" unfolding lt lx(1) by linarith
  have k32: "k < 2 ^ 32" using lx(2) by (rule le_less_trans) simp
  have lhs: "lhi s = of_nat (length m div 2 ^ 32)" "unat (llo s) = length m mod 2 ^ 32"
    using rep by (simp_all add: sha_rep_def)
  have cnt: "unat (llo s1) = length (m @ ?x) mod 2 ^ 32" "lhi s1 = of_nat (length (m @ ?x) div 2 ^ 32)"
    unfolding length_append lx(1) e(6) lhs(1) by (rule sha_count [OF lhs(2) k32 e(5)])+
  have po: "part_ok (?t @ ?x) (sw s1)" "length (sw s1) = 64"
    using part_ok_puts [of ?t "sw s" ?x] rep le by (simp_all add: e(3) sha_rep_def)
  note more = blocks_more [OF le, of f_compress f_init, folded f_blocks_def] tail_more [OF le]
  show "sha_rep (m @ ?x) (sha256_hash_block s1)" if full
  proof -
    have f: "length ?t + length ?x = 64" using that e(1) lt lx by simp
    have b: "take 16 (sw s1) = map ucast (f_words (?t @ ?x))" using f po by (intro part_ok_block) simp_all
    have h: "length (f_blocks m f_init) = 8" "sh s1 = map ucast (f_blocks m f_init)" using rep by (simp_all add: e(4) sha_rep_def)
    note hb = hash_block_up [OF h po(2) b]
    have "f_blocks (m @ ?x) f_init = f_compress (?t @ ?x) (f_blocks m f_init)" using more f by simp
    moreover have "block_tail 64 (m @ ?x) = []" using more f by simp
    ultimately show ?thesis
      unfolding sha_rep_def hb using cnt length_f_compress [OF h(1)] by (simp add: part_ok_def del: length_append)
  qed
  show "sha_rep (m @ ?x) s1" if "\<not> full"
  proof -
    have f: "length ?t + length ?x \<noteq> 64" using that e(1) lt lx by simp
    have "f_blocks (m @ ?x) f_init = f_blocks m f_init" "block_tail 64 (m @ ?x) = ?t @ ?x" using more f by simp_all
    then show ?thesis
      unfolding sha_rep_def using cnt po rep e(4) by (simp add: sha_rep_def del: length_append)
  qed
qed

lemma sha_loop_ok: "sha_rep m s \<Longrightarrow> length p \<le> n \<Longrightarrow> sha_rep (m @ p) (sha_loop n s p)"
proof (induction n arbitrary: m s p)
  case (Suc n)
  show ?case
  proof (cases "p = []")
    case True
    then show ?thesis using Suc by simp
  next
    case False
    obtain full s1 p1 where r: "sha256_add_bytes s p = (full, s1, p1)" by (metis prod_cases3)
    define k where "k = min (64 - length m mod 64) (length p)"
    have k: "0 < k" using False by (simp add: k_def)
    note ok = sha_add_bytes_ok [OF Suc.prems(1) r, folded k_def]
    have "sha_rep (m @ take k p) (if full then sha256_hash_block s1 else s1)" using ok by simp
    moreover have "length (drop k p) \<le> n" using k Suc.prems(2) by simp
    ultimately have "sha_rep ((m @ take k p) @ drop k p) (sha_loop n (if full then sha256_hash_block s1 else s1) (drop k p))"
      by (rule Suc.IH)
    moreover have "(m @ take k p) @ drop k p = m @ p" by simp
    ultimately show ?thesis using False r ok(1) by simp
  qed
qed simp

lemma sha256_add_ok: "sha_rep m s \<Longrightarrow> sha_rep (m @ p) (sha256_add s p)"
  by (simp add: sha256_add_def sha_loop_ok)

lemma sha256_adds_ok: "sha_rep m s \<Longrightarrow> sha_rep (m @ concat ps) (fold (\<lambda>p s. sha256_add s p) ps s)"
proof (induction ps arbitrary: m s)
  case (Cons p ps)
  from Cons.IH [OF sha256_add_ok [OF Cons.prems]] show ?case by simp
qed simp

section \<open>Padding and digest\<close>

lemma sha_fini_loop_ok:
  "sha_rep m s \<Longrightarrow> 64 dvd length m + length p \<Longrightarrow> length p \<le> n \<Longrightarrow> sha_rep (m @ p) (sha_fini_loop n s p)"
proof (induction n arbitrary: m s p)
  case (Suc n)
  show ?case
  proof (cases "p = []")
    case True
    then show ?thesis using Suc by simp
  next
    case False
    obtain full s1 p1 where r: "sha256_add_bytes s p = (full, s1, p1)" by (metis prod_cases3)
    define k where "k = min (64 - length m mod 64) (length p)"
    have k: "0 < k" using False by (simp add: k_def)
    note ok = sha_add_bytes_ok [OF Suc.prems(1) r, folded k_def]
    have "(length m mod 64 + length p) mod 64 = 0" using Suc.prems(2) by (simp add: mod_simps dvd_eq_mod_eq_0)
    moreover have "0 < length m mod 64 + length p" using False by simp
    ultimately have "64 \<le> length m mod 64 + length p" by (metis mod_less not_less less_irrefl)
    moreover have "length m mod 64 < 64" by simp
    ultimately have "length m mod 64 + k = 64" unfolding k_def by linarith
    then have rep: "sha_rep (m @ take k p) (sha256_hash_block s1)" using ok by simp
    have "length (m @ take k p) + length (drop k p) = length m + length p" by (simp add: k_def)
    then have "sha_rep ((m @ take k p) @ drop k p) (sha_fini_loop n (sha256_hash_block s1) (drop k p))"
      using Suc.prems(2,3) k by (intro Suc.IH [OF rep]) (simp_all del: length_append)
    moreover have "(m @ take k p) @ drop k p = m @ p" by simp
    ultimately show ?thesis using False r ok(1) by simp
  qed
qed simp

lemma be_bytes32_cong: "take_bit 32 x = take_bit 32 y \<Longrightarrow> be_bytes32 x = be_bytes32 y"
proof -
  assume "take_bit 32 x = take_bit 32 y"
  then have b: "bit x n = bit y n" if "n < 32" for n
    using that by (metis bit_take_bit_iff)
  have "(ucast (drop_bit k x) :: byte) = ucast (drop_bit k y)" if "k \<le> 24" for k
    using that by (intro bit_word_eqI) (auto simp: bit_simps b)
  from this [of 0] this [of 8] this [of 16] this [of 24] show ?thesis by (simp add: be_bytes32_def)
qed

lemma be_bytes64_split: "be_bytes64 z = be_bytes32 (drop_bit 32 z) @ be_bytes32 z"
proof -
  have u: "[0..<8] = [0, 1, 2, 3, 4, 5, 6, 7]" by (simp add: upt_rec)
  show ?thesis by (simp add: be_bytes64_def be_bytes32_def u drop_bit_drop_bit)
qed

lemma sha_length_bytes:
  assumes "unat l = n mod 2 ^ 32" "h = of_nat (n div 2 ^ 32)"
  shows "be_bytes32 (push_bit 3 h + drop_bit 29 l) @ be_bytes32 (push_bit 3 l AND 0xFFFFFFFF) = be_bytes64 (of_nat (8 * n))"
proof -
  have "l = of_nat (unat l)" by simp
  then have l: "l = of_nat (take_bit 32 n)" using assms(1) by (simp only: take_bit_eq_mod)
  have h: "h = of_nat (drop_bit 32 n)" using assms(2) by (simp add: drop_bit_eq_div)
  define N :: u64 where "N = of_nat (8 * n)"
  have z: "N = of_nat (push_bit 3 n)" by (simp add: N_def push_bit_eq_mult mult.commute)
  have bl: "bit l i \<longleftrightarrow> i < 32 \<and> bit n i" for i unfolding l bit_word_of_nat by (auto simp: bit_take_bit_iff)
  have bh: "bit h i \<longleftrightarrow> i < 64 \<and> bit n (32 + i)" for i unfolding h bit_word_of_nat by (simp add: bit_drop_bit_eq)
  have bz: "bit N i \<longleftrightarrow> i < 64 \<and> 3 \<le> i \<and> bit n (i - 3)" for i
    unfolding z bit_word_of_nat by (auto simp: bit_push_bit_iff)
  have "push_bit 3 h AND drop_bit 29 l = 0"
    by (intro bit_word_eqI) (auto simp: bit_and_iff bit_push_bit_iff bit_drop_bit_eq bl)
  then have or: "push_bit 3 h + drop_bit 29 l = push_bit 3 h OR drop_bit 29 l"
    by (simp add: disjunctive_add_eq_or)
  have "take_bit 32 (push_bit 3 h + drop_bit 29 l) = take_bit 32 (drop_bit 32 N)"
    unfolding or
  proof (rule bit_word_eqI)
    fix i :: nat
    have "32 + i - 3 = 29 + i" "3 \<le> i \<Longrightarrow> 32 + (i - 3) = 29 + i" by auto
    then show "bit (take_bit 32 (push_bit 3 h OR drop_bit 29 l)) i = bit (take_bit 32 (drop_bit 32 N)) i"
      by (auto simp: bit_take_bit_iff bit_or_iff bit_push_bit_iff bit_drop_bit_eq bl bh bz)
  qed
  moreover have "take_bit 32 (push_bit 3 l AND 0xFFFFFFFF) = take_bit 32 N"
  proof -
    have m: "(0xFFFFFFFF :: u64) = mask 32" by (simp add: mask_eq_exp_minus_1)
    show ?thesis unfolding m
      by (intro bit_word_eqI) (auto simp: bit_take_bit_iff bit_and_iff bit_mask_iff bit_push_bit_iff bl bz)
  qed
  ultimately show ?thesis unfolding be_bytes64_split N_def [symmetric] by (metis be_bytes32_cong)
qed

lemma sha_digest_up: "concat (map be_bytes32 (map ucast H)) = f_digest H"
proof -
  have u: "[0..<4] = [0, 1, 2, 3]" by (simp add: upt_rec)
  have "(ucast (drop_bit k (ucast (x :: u32) :: u64)) :: byte) = ucast (drop_bit k x)" for k x
    by (intro bit_word_eqI) (auto simp: bit_simps dest: bit_imp_le_length)
  from this [of 0] this have "be_bytes32 (ucast x) = map (\<lambda>i. ucast (drop_bit (24 - 8 * i) x)) [0..<4]" for x :: u32
    by (simp add: be_bytes32_def u)
  then show ?thesis by (simp add: f_digest_def comp_def)
qed

lemma sha_plen_cases:
  assumes "unat (llo s) mod 63 = r"
  shows "sha_plen s = (if r \<le> 55 then 64 - r else 128 - r)" "9 \<le> sha_plen s" "sha_plen s \<le> 72"
proof -
  have "unat (llo s mod 63) = r" using assms by (simp add: unat_mod)
  moreover have "r < 63" using assms by auto
  ultimately show "sha_plen s = (if r \<le> 55 then 64 - r else 128 - r)" "9 \<le> sha_plen s" "sha_plen s \<le> 72"
    by (auto simp: sha_plen_def Let_def)
qed

lemma sha_pad_eq:
  assumes "sha_rep m s"
  shows "sha_pad s = 0x80 # replicate (sha_plen s - 9) 0 @ be_bytes64 (of_nat (8 * length m))"
proof -
  have p: "9 \<le> sha_plen s" "sha_plen s \<le> 72" using sha_plen_cases [OF refl, of s] by simp_all
  then have "take (sha_plen s - 8) (0x80 # replicate 71 0) = 0x80 # replicate (sha_plen s - 9) (0 :: byte)"
    by (cases "sha_plen s - 8") (auto simp: take_Cons')
  then show ?thesis
    using sha_length_bytes [of "llo s" "length m" "lhi s"] assms
    by (simp add: sha_pad_def Let_def sha_rep_def)
qed

lemma length_be_bytes64: "length (be_bytes64 x) = 8"
  by (simp add: be_bytes64_def)

lemma sha256_fini_ok:
  assumes rep: "sha_rep m s" and len: "(length m mod 2 ^ 32) mod 63 = length m mod 64"
  shows "sha256_fini s = sha256_spec m"
proof -
  define r where "r = length m mod 64"
  have r: "r < 64" "unat (llo s) mod 63 = r" using rep len by (simp_all add: r_def sha_rep_def)
  note pl = sha_plen_cases [OF r(2)]
  have z: "sha_plen s - 9 = (119 - r) mod 64" using r(1) pl by (auto simp: mod_if)
  have pad: "m @ sha_pad s = f_pad m" by (simp add: sha_pad_eq [OF rep] f_pad_def z r_def)
  have lp: "length (sha_pad s) = sha_plen s" using pl by (simp add: sha_pad_eq [OF rep] length_be_bytes64)
  have "length m + sha_plen s = 64 * (length m div 64) + (r + sha_plen s)" by (simp add: r_def)
  moreover have "r + sha_plen s = 64 \<or> r + sha_plen s = 128" using pl r by auto
  ultimately have "64 dvd length m + length (sha_pad s)" unfolding lp by (metis dvd_add dvd_refl dvd_triv_left dvd_add_triv_right_iff mult_2 numeral_Bit0)
  from sha_fini_loop_ok [OF rep this] have "sha_rep (f_pad m) (sha_fini_loop (sha_plen s) s (sha_pad s))"
    using lp pad by simp
  then show ?thesis
    by (simp add: sha256_fini_def sha256_spec_def sha_rep_def sha_digest_up flip: map_map)
qed

section \<open>Properties\<close>

text \<open>C1: for every message, cut into any calls of \<open>sha256_add\<close>, whose length counted modulo 2^32 leaves the same
  remainder by 63 as by 64 (so every message below 63 bytes), the digest is the SHA-256 of FIPS 180-4.\<close>

theorem sha256_correct:
  assumes "(length (concat ps) mod 2 ^ 32) mod 63 = length (concat ps) mod 64"
  shows "sha256_fini (fold (\<lambda>p s. sha256_add s p) ps sha256_init) = sha256_spec (concat ps)"
proof -
  have "sha_rep (concat ps) (fold (\<lambda>p s. sha256_add s p) ps sha256_init)"
    using sha256_adds_ok [OF sha_rep_init, of ps] by simp
  then show ?thesis using assms by (rule sha256_fini_ok)
qed

theorem sha256_correct_witness:
  "sha256_fini (fold (\<lambda>p s. sha256_add s p) [[0x61], [0x62, 0x63]] sha256_init) = sha256_spec (concat [[0x61], [0x62, 0x63]])"
  by (rule sha256_correct) simp

lemma part_ok_zero:
  assumes "part_ok t w" "length t = 63"
  shows "part_ok (t @ [0]) w"
  unfolding part_ok_def
proof (intro allI impI)
  fix q assume "4 * q < length (t @ [0])"
  then have q: "q < 16" using assms by simp
  then have w: "w ! q = part 24 (take 4 (drop (4 * q) t))" using assms by (auto simp: part_ok_def)
  show "w ! q = part 24 (take 4 (drop (4 * q) (t @ [0])))"
  proof (cases "q = 15")
    case True
    have "take 4 (drop 60 (t @ [0])) = take 4 (drop 60 t) @ [0]" using assms(2) by simp
    moreover have "part 24 (take 4 (drop 60 t) @ [0]) = part 24 (take 4 (drop 60 t))"
      using assms(2) by (subst part_snoc) simp_all
    ultimately show ?thesis using w True by simp
  next
    case False
    then have "4 * q + 4 \<le> length t" using q assms by simp
    then show ?thesis using w by simp
  qed
qed

lemma sha256_padding_63_parts:
  assumes "length m = 63"
  shows "sha256 m = f_digest (f_compress (replicate 55 0 @ be_bytes64 504 @ [0]) (f_compress (m @ [0x80]) f_init))"
    and "sha256_spec m = f_digest (f_compress (replicate 56 0 @ be_bytes64 504) (f_compress (m @ [0x80]) f_init))"
proof -
  define s where "s = sha256_add sha256_init m"
  have rep: "sha_rep m s" using sha256_add_ok [OF sha_rep_init, of m] by (simp add: s_def)
  have "unat (llo s) mod 63 = 0" using rep assms by (simp add: sha_rep_def)
  note pl = sha_plen_cases(1) [OF this, simplified]
  define t :: "byte list" where "t = replicate 55 0 @ be_bytes64 504"
  have lt: "length t = 63" by (simp add: t_def length_be_bytes64)
  have pad: "sha_pad s = 0x80 # t" by (simp add: sha_pad_eq [OF rep] pl t_def assms)
  obtain f1 s1 p1 where r1: "sha256_add_bytes s (0x80 # t) = (f1, s1, p1)" by (metis prod_cases3)
  note ok1 = sha_add_bytes_ok [OF rep r1]
  have 1: "f1" "p1 = t" "sha_rep (m @ [0x80]) (sha256_hash_block s1)"
    using ok1 assms lt by simp_all
  define s2 where "s2 = sha256_hash_block s1"
  obtain f2 s3 p2 where r2: "sha256_add_bytes s2 t = (f2, s3, p2)" by (metis prod_cases3)
  note ok2 = sha_add_bytes_ok [OF 1(3) [folded s2_def] r2]
  have 2: "p2 = []" "\<not> f2" "sha_rep ((m @ [0x80]) @ t) s3" using ok2 assms lt by simp_all
  have loop: "sha_fini_loop 64 s (sha_pad s) = sha256_hash_block s3"
  proof -
    have n: "(64 :: nat) = Suc (Suc 62)" and ne: "t \<noteq> []" using lt by auto
    have z: "sha_fini_loop 62 c [] = c" for c by (metis sha_fini_loop.simps not0_implies_Suc)
    show ?thesis unfolding n pad
      by (simp only: sha_fini_loop.simps r1 1(2) r2 2(1) z s2_def [symmetric] ne list.distinct if_False prod.case)
  qed
  have blk: "block_tail 64 (m @ [0x80]) = []" "f_blocks (m @ [0x80]) f_init = f_compress (m @ [0x80]) f_init"
    using assms by (simp_all add: block_tail_def f_blocks_def over_blocks_one)
  have tl: "block_tail 64 ((m @ [0x80]) @ t) = t" "f_blocks ((m @ [0x80]) @ t) f_init = f_compress (m @ [0x80]) f_init"
    using tail_more [of 64 "m @ [0x80]" t] blocks_more [of 64 "m @ [0x80]" t f_compress f_init] blk lt
    by (simp_all add: f_blocks_def)
  have r3: "length (f_compress (m @ [0x80]) f_init) = 8" "sh s3 = map ucast (f_compress (m @ [0x80]) f_init)"
    "length (sw s3) = 64" "part_ok t (sw s3)"
    using 2(3) unfolding sha_rep_def tl by simp_all
  have w: "take 16 (sw s3) = map ucast (f_words (t @ [0]))"
    using part_ok_block [OF part_ok_zero [OF r3(4) lt] _ r3(3)] lt by simp
  have "sh (sha256_hash_block s3) = map ucast (f_compress (t @ [0]) (f_compress (m @ [0x80]) f_init))"
    by (rule hash_block_up(1) [OF r3(1,2,3) w])
  then show "sha256 m = f_digest (f_compress (replicate 55 0 @ be_bytes64 504 @ [0]) (f_compress (m @ [0x80]) f_init))"
    by (simp add: sha256_def sha256_fini_def pl loop sha_digest_up t_def flip: s_def map_map)
  have "f_pad m = (m @ [0x80]) @ replicate 56 0 @ be_bytes64 504" by (simp add: f_pad_def assms)
  moreover have "f_blocks ((m @ [0x80]) @ x) f_init = f_compress x (f_compress (m @ [0x80]) f_init)" if "length x = 64" for x
    using blocks_more [of 64 "m @ [0x80]" x f_compress f_init] blk that by (simp add: f_blocks_def)
  ultimately show "sha256_spec m = f_digest (f_compress (replicate 56 0 @ be_bytes64 504) (f_compress (m @ [0x80]) f_init))"
    by (simp add: sha256_spec_def length_be_bytes64)
qed

text \<open>every message of 63 bytes is padded to a last block that lacks one zero byte: its bit length stands one
  byte too early, and the digest is not computed from the padded message of FIPS 180-4.\<close>

theorem sha256_padding_63:
  assumes "length m = 63"
  shows "sha256 m = f_digest (f_compress (replicate 55 0 @ be_bytes64 504 @ [0]) (f_compress (m @ [0x80]) f_init)) \<and>
    sha256_spec m = f_digest (f_compress (replicate 56 0 @ be_bytes64 504) (f_compress (m @ [0x80]) f_init))"
  using sha256_padding_63_parts [OF assms] by blast

theorem sha256_padding_63_witness:
  "sha256 (replicate 63 0) = f_digest (f_compress (replicate 55 0 @ be_bytes64 504 @ [0]) (f_compress (replicate 63 0 @ [0x80]) f_init)) \<and>
    sha256_spec (replicate 63 0) = f_digest (f_compress (replicate 56 0 @ be_bytes64 504) (f_compress (replicate 63 0 @ [0x80]) f_init))"
  by (rule sha256_padding_63) simp

end
