(* ===== verification/SipHash.thy ===== *)
theory SipHash
  imports CatPrelude
begin

text \<open>
  SipHash-2-4 of src/crypto.c, which keeps each 64-bit word as two \<open>ulong\<close> halves, and the hash
  table functions built on it.  On an LP64 target a half has 64 bits of which the algorithm means
  the low 32.  The specification is the published algorithm over 64-bit words; the code agrees with
  it as long as no data byte with its top bit set is shifted by 24 (as an \<open>int\<close>), and a concrete
  message on which it disagrees is evaluated.
\<close>

section \<open>State and round\<close>

type_synonym half2 = "u64 \<times> u64"

record siphashctx =
  nbytes :: u32
  sstate :: half2
  v0 :: half2
  v1 :: half2
  v2 :: half2
  v3 :: half2

definition U8TOU32LE :: "byte list \<Rightarrow> nat \<Rightarrow> u64" where
  "U8TOU32LE p k = ucast (p ! k) OR push_bit 8 (ucast (p ! (k + 1))) OR
     push_bit 16 (ucast (p ! (k + 2))) OR push_bit 24 (ucast (p ! (k + 3)))"

definition siphash_init :: "byte list \<Rightarrow> siphashctx" where
  "siphash_init key = \<lparr>nbytes = 0, sstate = (0, 0),
     v0 = (0x70736575 XOR U8TOU32LE key 0, 0x736f6d65 XOR U8TOU32LE key 4),
     v1 = (0x6e646f6d XOR U8TOU32LE key 8, 0x646f7261 XOR U8TOU32LE key 12),
     v2 = (0x6e657261 XOR U8TOU32LE key 0, 0x6c796765 XOR U8TOU32LE key 4),
     v3 = (0x79746573 XOR U8TOU32LE key 8, 0x74656462 XOR U8TOU32LE key 12)\<rparr>"

definition ADD64 :: "half2 \<Rightarrow> half2 \<Rightarrow> half2" where
  "ADD64 a b = (let lo = (fst a + fst b) AND 0xFFFFFFFF;
                    hi = (snd a + (snd b + (if lo < fst a then 1 else 0))) AND 0xFFFFFFFF in (lo, hi))"

definition ROTL64 :: "half2 \<Rightarrow> nat \<Rightarrow> half2" where
  "ROTL64 v amt = (let out0 = drop_bit (32 - amt) (fst v); out1 = drop_bit (32 - amt) (snd v)
     in ((push_bit amt (fst v) OR out1) AND 0xFFFFFFFF, (push_bit amt (snd v) OR out0) AND 0xFFFFFFFF))"

definition ROTL64_32 :: "half2 \<Rightarrow> half2" where "ROTL64_32 v = (snd v, fst v)"

definition XOR64 :: "half2 \<Rightarrow> half2 \<Rightarrow> half2" where "XOR64 a b = (fst a XOR fst b, snd a XOR snd b)"

definition siphash_round :: "siphashctx \<Rightarrow> siphashctx" where
  "siphash_round c = (let
     c = c\<lparr>v0 := ADD64 (v0 c) (v1 c)\<rparr>;
     c = c\<lparr>v2 := ADD64 (v2 c) (v3 c)\<rparr>;
     c = c\<lparr>v1 := ROTL64 (v1 c) 13\<rparr>;
     c = c\<lparr>v3 := ROTL64 (v3 c) 16\<rparr>;
     c = c\<lparr>v1 := XOR64 (v1 c) (v0 c)\<rparr>;
     c = c\<lparr>v3 := XOR64 (v3 c) (v2 c)\<rparr>;
     c = c\<lparr>v0 := ROTL64_32 (v0 c)\<rparr>;
     c = c\<lparr>v2 := ADD64 (v2 c) (v1 c)\<rparr>;
     c = c\<lparr>v0 := ADD64 (v0 c) (v3 c)\<rparr>;
     c = c\<lparr>v1 := ROTL64 (v1 c) 17\<rparr>;
     c = c\<lparr>v3 := ROTL64 (v3 c) 21\<rparr>;
     c = c\<lparr>v1 := XOR64 (v1 c) (v2 c)\<rparr>;
     c = c\<lparr>v3 := XOR64 (v3 c) (v0 c)\<rparr>;
     c = c\<lparr>v2 := ROTL64_32 (v2 c)\<rparr>
   in c)"

section \<open>Adding bytes\<close>

text \<open>A byte shifted left as an \<open>int\<close> and widened with its sign to \<open>ulong\<close>.\<close>

definition int_shl :: "byte \<Rightarrow> nat \<Rightarrow> u64" where
  "int_shl b n = scast (push_bit n (ucast b :: 32 word))"

fun sip_slow :: "half2 \<Rightarrow> nat \<Rightarrow> byte list \<Rightarrow> half2" where
  "sip_slow st off [] = st"
| "sip_slow st off (b # bs) =
     sip_slow (if off < 4 then (fst st OR int_shl b (8 * off), snd st)
               else (fst st, snd st OR int_shl b (8 * (off - 4)))) (off + 1) bs"

definition siphash_add_bytes :: "siphashctx \<Rightarrow> byte list \<Rightarrow> bool \<times> siphashctx \<times> byte list" where
  "siphash_add_bytes c bp = (let off = unat (nbytes c mod 8) in
     if off = 0 \<and> length bp \<ge> 8
     then (True, c\<lparr>sstate :=
             (ucast (bp ! 0) OR int_shl (bp ! 1) 8 OR int_shl (bp ! 2) 16 OR int_shl (bp ! 3) 24,
              ucast (bp ! 4) OR int_shl (bp ! 5) 8 OR int_shl (bp ! 6) 16 OR int_shl (bp ! 7) 24),
             nbytes := nbytes c + 8\<rparr>, drop 8 bp)
     else let st = (if off = 0 then (0, 0) else sstate c);
              toadd = (if 8 - off > length bp then length bp else 8 - off);
              nb = nbytes c + of_nat toadd
          in (nb mod 8 = 0, c\<lparr>sstate := sip_slow st off (take toadd bp), nbytes := nb\<rparr>, drop toadd bp))"

definition sip_block :: "siphashctx \<Rightarrow> siphashctx" where
  "sip_block c = (let
     c = c\<lparr>v3 := XOR64 (v3 c) (sstate c)\<rparr>;
     c = siphash_round c;
     c = siphash_round c
   in c\<lparr>v0 := XOR64 (v0 c) (sstate c)\<rparr>)"

text \<open>The loop consumes at least one byte per turn (\<open>sip_add_bytes_progress\<close>), so the length of
  the input is enough fuel.\<close>

fun sip_loop :: "nat \<Rightarrow> siphashctx \<Rightarrow> byte list \<Rightarrow> siphashctx" where
  "sip_loop 0 c bp = c"
| "sip_loop (Suc n) c bp =
     (if bp = [] then c
      else case siphash_add_bytes c bp of (full, c1, bp1) \<Rightarrow>
             sip_loop n (if full then sip_block c1 else c1) bp1)"

definition siphash24_add :: "siphashctx \<Rightarrow> byte list \<Rightarrow> siphashctx" where
  "siphash24_add c bp = sip_loop (length bp) c bp"

definition le_bytes32 :: "u64 \<Rightarrow> byte list" where
  "le_bytes32 x = [ucast x, ucast (drop_bit 8 x), ucast (drop_bit 16 x), ucast (drop_bit 24 x)]"

definition siphash24_fini :: "siphashctx \<Rightarrow> byte list" where
  "siphash24_fini c = (let
     c = (if nbytes c mod 8 = 0 then c\<lparr>sstate := (0, 0)\<rparr> else c);
     c = c\<lparr>sstate := (fst (sstate c), snd (sstate c) OR ucast (push_bit 24 (nbytes c mod 256)))\<rparr>;
     c = sip_block c;
     c = c\<lparr>v2 := (fst (v2 c) XOR 0xff, snd (v2 c))\<rparr>;
     c = siphash_round (siphash_round (siphash_round (siphash_round c)));
     s0 = fst (v0 c) XOR fst (v1 c) XOR fst (v2 c) XOR fst (v3 c);
     s1 = snd (v0 c) XOR snd (v1 c) XOR snd (v2 c) XOR snd (v3 c)
   in le_bytes32 s0 @ le_bytes32 s1)"

definition siphash24 :: "byte list \<Rightarrow> byte list \<Rightarrow> byte list" where
  "siphash24 key p = siphash24_fini (siphash24_add (siphash_init key) p)"

section \<open>The hash-table front ends\<close>

text \<open>\<open>key[i % 4]\<close>: only the first four of the sixteen key bytes are ever changed.\<close>

definition ht_sh24_init :: "byte list \<Rightarrow> byte list" where
  "ht_sh24_init k = fold (\<lambda>i key. key[i mod 4 := (key ! (i mod 4)) XOR k ! i]) [0..<length k] (replicate 16 0)"

definition hash_word :: "byte list \<Rightarrow> u32" where
  "hash_word h = ucast (h ! 0) OR push_bit 8 (ucast (h ! 1)) OR push_bit 16 (ucast (h ! 2)) OR push_bit 24 (ucast (h ! 3))"

text \<open>The string is the characters before its terminating NUL.\<close>

definition ht_sh24_shash :: "byte list \<Rightarrow> byte list \<Rightarrow> u32" where
  "ht_sh24_shash s key = hash_word (siphash24 key s)"

definition ht_sh24_rhash :: "byte list \<Rightarrow> byte list \<Rightarrow> u32" where
  "ht_sh24_rhash r key = hash_word (siphash24 key r)"

section \<open>The published algorithm\<close>

type_synonym sip4 = "u64 \<times> u64 \<times> u64 \<times> u64"

definition rotl :: "nat \<Rightarrow> u64 \<Rightarrow> u64" where "rotl n x = word_rotl n x"

definition sip_round :: "sip4 \<Rightarrow> sip4" where
  "sip_round = (\<lambda>(a, b, c, d). let
     a = a + b; b = rotl 13 b; b = b XOR a; a = rotl 32 a;
     c = c + d; d = rotl 16 d; d = d XOR c;
     a = a + d; d = rotl 21 d; d = d XOR a;
     c = c + b; b = rotl 17 b; b = b XOR c; c = rotl 32 c
   in (a, b, c, d))"

definition le_word :: "byte list \<Rightarrow> u64" where
  "le_word bs = horner_sum ucast (2 ^ 8) bs"

definition sip_absorb :: "u64 \<Rightarrow> sip4 \<Rightarrow> sip4" where
  "sip_absorb m = (\<lambda>(a, b, c, d).
     case sip_round (sip_round (a, b, c, d XOR m)) of (a, b, c, d) \<Rightarrow> (a XOR m, b, c, d))"

definition sip_words :: "byte list \<Rightarrow> sip4 \<Rightarrow> sip4" where
  "sip_words = over_blocks 8 (\<lambda>blk. sip_absorb (le_word blk))"

abbreviation sip_tail :: "byte list \<Rightarrow> byte list" where
  "sip_tail \<equiv> block_tail 8"

definition siphash_spec :: "byte list \<Rightarrow> byte list \<Rightarrow> u64" where
  "siphash_spec key bs = (let
     k0 = le_word (take 8 key); k1 = le_word (take 8 (drop 8 key));
     s = (k0 XOR 0x736f6d6570736575, k1 XOR 0x646f72616e646f6d,
          k0 XOR 0x6c7967656e657261, k1 XOR 0x7465646279746573);
     s = sip_words bs s;
     s = sip_absorb (le_word (sip_tail bs) OR push_bit 56 (of_nat (length bs))) s
   in case s of (a, b, c, d) \<Rightarrow>
      (case (sip_round ^^ 4) (a, b, c XOR 0xff, d) of (a, b, c, d) \<Rightarrow> a XOR b XOR c XOR d))"

section \<open>Two halves are one 64-bit word\<close>

definition clean :: "half2 \<Rightarrow> bool" where
  "clean x \<longleftrightarrow> take_bit 32 (fst x) = fst x \<and> take_bit 32 (snd x) = snd x"

definition join :: "half2 \<Rightarrow> u64" where
  "join x = fst x OR push_bit 32 (snd x)"

lemma clean_bit: "clean x \<Longrightarrow> bit (fst x) n \<Longrightarrow> n < 32" "clean x \<Longrightarrow> bit (snd x) n \<Longrightarrow> n < 32"
  by (metis clean_def bit_take_bit_iff)+

lemma bit_join: "clean x \<Longrightarrow> bit (join x) n \<longleftrightarrow> (if n < 32 then bit (fst x) n else bit (snd x) (n - 32))"
  using clean_bit [of x n] clean_bit(2) [of x "n - 32"]
  by (auto simp: join_def bit_or_iff bit_push_bit_iff)

lemma cleanI: "(\<And>n. bit (fst x) n \<Longrightarrow> n < 32) \<Longrightarrow> (\<And>n. bit (snd x) n \<Longrightarrow> n < 32) \<Longrightarrow> clean x"
  unfolding clean_def by (auto intro!: bit_word_eqI simp: bit_take_bit_iff)

lemma mask32: "(0xFFFFFFFF :: u64) = mask 32" by (simp add: mask_eq_exp_minus_1)

lemma XOR64_clean: "clean x \<Longrightarrow> clean y \<Longrightarrow> clean (XOR64 x y)"
  by (rule cleanI) (auto simp: XOR64_def bit_xor_iff dest: clean_bit)

lemma XOR64_join: "clean x \<Longrightarrow> clean y \<Longrightarrow> join (XOR64 x y) = join x XOR join y"
  by (intro bit_word_eqI) (auto simp: bit_join XOR64_clean bit_xor_iff, auto simp: XOR64_def bit_xor_iff)

lemma ROTL64_32_clean: "clean x \<Longrightarrow> clean (ROTL64_32 x)"
  by (simp add: ROTL64_32_def clean_def)

lemma ROTL64_32_join: "clean x \<Longrightarrow> join (ROTL64_32 x) = rotl 32 (join x)"
proof (rule bit_word_eqI)
  fix n assume x: "clean x" and n: "n < LENGTH(64)"
  have "(n + 32) mod 64 = (if n < 32 then n + 32 else n - 32)" using n by (auto simp: mod_if)
  then show "bit (join (ROTL64_32 x)) n = bit (rotl 32 (join x)) n"
    using x n by (auto simp: bit_join ROTL64_32_clean rotl_def bit_word_rotl_iff) (auto simp: ROTL64_32_def)
qed

lemma ROTL64_clean: "clean (ROTL64 x k)"
  by (rule cleanI) (auto simp: ROTL64_def Let_def mask32 bit_and_iff bit_mask_iff)

lemma ROTL64_join:
  assumes x: "clean x" and k: "0 < k" "k < 32"
  shows "join (ROTL64 x k) = rotl k (join x)"
proof (rule bit_word_eqI)
  fix n assume n: "n < LENGTH(64)"
  have "(n + (64 - k)) mod 64 = (if n < k then n + 64 - k else n - k)" using n k by (auto simp: mod_if)
  then have r: "bit (rotl k (join x)) n = bit (join x) (if n < k then n + 64 - k else n - k)"
    using n k by (simp add: rotl_def bit_word_rotl_iff)
  have f: "bit (fst (ROTL64 x k)) i = (if i < k then bit (snd x) (32 + i - k) else bit (fst x) (i - k))" if "i < 32" for i
    using that k clean_bit(2) [OF x, of "32 - k + i"]
    by (auto simp: ROTL64_def Let_def mask32 bit_simps)
  have s: "bit (snd (ROTL64 x k)) i = (if i < k then bit (fst x) (32 + i - k) else bit (snd x) (i - k))" if "i < 32" for i
    using that k clean_bit(1) [OF x, of "32 - k + i"]
    by (auto simp: ROTL64_def Let_def mask32 bit_simps)
  show "bit (join (ROTL64 x k)) n = bit (rotl k (join x)) n"
    unfolding r using n k by (auto simp: bit_join [OF ROTL64_clean] bit_join [OF x] f s add.commute)
qed

lemma unat_clean: "clean x \<Longrightarrow> unat (fst x) < 2 ^ 32 \<and> unat (snd x) < 2 ^ 32"
  unfolding clean_def by (metis take_bit_nat_less_exp unsigned_take_bit_eq)

lemma unat_join: "clean x \<Longrightarrow> unat (join x) = unat (fst x) + 2 ^ 32 * unat (snd x)"
proof -
  assume x: "clean x"
  have "fst x AND push_bit 32 (snd x) = 0"
    by (intro bit_word_eqI) (auto simp: bit_and_iff bit_push_bit_iff dest: clean_bit(1) [OF x])
  then have "join x = fst x + push_bit 32 (snd x)"
    by (simp add: join_def disjunctive_add_eq_or)
  moreover have "unat (push_bit 32 (snd x)) = 2 ^ 32 * unat (snd x)"
    using unat_clean [OF x]
    by (simp add: push_bit_eq_mult unat_word_ariths(2))
  ultimately show ?thesis
    using unat_clean [OF x] by (simp add: unat_word_ariths(1))
qed

lemma and_mask32: "x AND 0xFFFFFFFF = take_bit 32 (x :: u64)"
  by (simp add: mask32 take_bit_eq_mask)

lemma unat_low32: "unat (x AND 0xFFFFFFFF) = unat (x :: u64) mod 2 ^ 32"
  unfolding and_mask32 unsigned_take_bit_eq by (rule take_bit_eq_mod)

lemma ADD64_clean: "clean (ADD64 x y)"
  by (simp add: ADD64_def clean_def Let_def and_mask32)

lemma ADD64_join:
  assumes x: "clean x" and y: "clean y"
  shows "join (ADD64 x y) = join x + join y"
proof -
  define a b c d where "a = unat (fst x)" "b = unat (snd x)" "c = unat (fst y)" "d = unat (snd y)"
  note abcd = this
  have lt: "a < 2 ^ 32" "b < 2 ^ 32" "c < 2 ^ 32" "d < 2 ^ 32"
    using unat_clean [OF x] unat_clean [OF y] by (simp_all add: abcd)
  define lo where "lo = (fst x + fst y) AND 0xFFFFFFFF"
  have "unat (fst x + fst y) = a + c" using lt by (simp add: unat_word_ariths(1) abcd [symmetric])
  then have ulo: "unat lo = (a + c) mod 2 ^ 32"
    by (simp only: lo_def unat_low32)
  define cy where "cy = (if a + c < 2 ^ 32 then 0 else 1 :: nat)"
  have cy: "unat (if lo < fst x then 1 else 0 :: u64) = cy"
    using lt ulo by (auto simp: cy_def word_less_nat_alt abcd [symmetric] mod_if)
  have "unat (snd x + (snd y + (if lo < fst x then 1 else 0))) = b + (d + cy)"
    using lt cy by (simp add: unat_word_ariths(1) abcd [symmetric] cy_def)
  then have uhi: "unat ((snd x + (snd y + (if lo < fst x then 1 else 0))) AND 0xFFFFFFFF) = (b + d + cy) mod 2 ^ 32"
    by (simp only: unat_low32 add.assoc)
  have "unat (join (ADD64 x y)) = (a + c) mod 2 ^ 32 + 2 ^ 32 * ((b + d + cy) mod 2 ^ 32)"
    unfolding unat_join [OF ADD64_clean]
    using ulo uhi by (simp add: ADD64_def Let_def lo_def [symmetric])
  also have "\<dots> = (a + 2 ^ 32 * b + (c + 2 ^ 32 * d)) mod 2 ^ 64"
    using lt by (auto simp: cy_def mod_if)
  also have "\<dots> = unat (join x + join y)"
    by (simp add: unat_word_ariths(1) unat_join x y abcd)
  finally show ?thesis by (simp add: word_unat_eq_iff)
qed

section \<open>The round and the absorption of a block\<close>

definition ctx_clean :: "siphashctx \<Rightarrow> bool" where
  "ctx_clean c \<longleftrightarrow> clean (v0 c) \<and> clean (v1 c) \<and> clean (v2 c) \<and> clean (v3 c)"

definition ctx_words :: "siphashctx \<Rightarrow> sip4" where
  "ctx_words c = (join (v0 c), join (v1 c), join (v2 c), join (v3 c))"

lemmas half_clean = ADD64_clean ROTL64_clean XOR64_clean ROTL64_32_clean
lemmas half_join = ADD64_join ROTL64_join XOR64_join ROTL64_32_join

lemma siphash_round_ok:
  assumes "ctx_clean c"
  shows "ctx_clean (siphash_round c) \<and> ctx_words (siphash_round c) = sip_round (ctx_words c) \<and>
    sstate (siphash_round c) = sstate c \<and> nbytes (siphash_round c) = nbytes c"
  using assms
  by (simp add: siphash_round_def ctx_clean_def ctx_words_def sip_round_def Let_def half_clean half_join)

lemma sip_block_ok:
  assumes "ctx_clean c" "clean (sstate c)"
  shows "ctx_clean (sip_block c) \<and> ctx_words (sip_block c) = sip_absorb (join (sstate c)) (ctx_words c) \<and>
    sstate (sip_block c) = sstate c \<and> nbytes (sip_block c) = nbytes c"
proof -
  define c1 where "c1 = c\<lparr>v3 := XOR64 (v3 c) (sstate c)\<rparr>"
  have 1: "ctx_clean c1" using assms by (simp add: c1_def ctx_clean_def XOR64_clean)
  note 2 = siphash_round_ok [OF 1]
  define c2 where "c2 = siphash_round (siphash_round c1)"
  have 3: "ctx_clean c2 \<and> ctx_words c2 = sip_round (sip_round (ctx_words c1)) \<and> sstate c2 = sstate c \<and> nbytes c2 = nbytes c"
    unfolding c2_def using 2 siphash_round_ok [of "siphash_round c1"] by (simp add: c1_def)
  have "sip_block c = c2\<lparr>v0 := XOR64 (v0 c2) (sstate c2)\<rparr>"
    by (simp only: sip_block_def Let_def c2_def c1_def)
  moreover have "ctx_words c1 = (join (v0 c), join (v1 c), join (v2 c), join (v3 c) XOR join (sstate c))"
    using assms by (simp add: c1_def ctx_words_def XOR64_join ctx_clean_def)
  ultimately show ?thesis
    using 3 assms by (auto simp: sip_absorb_def ctx_words_def ctx_clean_def XOR64_join XOR64_clean split: prod.splits)
qed

section \<open>Bytes of a block\<close>

lemma le_word_Nil [simp]: "le_word [] = 0"
  by (simp add: le_word_def)

lemma le_word_Cons: "le_word (b # bs) = ucast b OR push_bit 8 (le_word bs)"
proof -
  have "ucast b AND push_bit 8 (le_word bs) = 0"
    by (intro bit_word_eqI) (auto simp: bit_and_iff bit_push_bit_iff bit_ucast_iff dest: bit_imp_le_length)
  then show ?thesis
    by (simp add: le_word_def disjunctive_add_eq_or [symmetric] push_bit_eq_mult mult.commute)
qed

lemma le_word_append: "le_word (xs @ ys) = le_word xs OR push_bit (8 * length xs) (le_word ys)"
proof (induction xs)
  case (Cons x xs)
  have "push_bit 8 (a OR b) = push_bit 8 a OR push_bit 8 b" for a b :: u64
    by (rule push_bit_or)
  then show ?case using Cons by (simp add: le_word_Cons push_bit_push_bit or.assoc add.commute)
qed simp

definition ascii :: "byte list \<Rightarrow> bool" where
  "ascii bs \<longleftrightarrow> (\<forall>b \<in> set bs. b < 0x80)"

lemma ascii_bit: "b < (0x80 :: byte) \<Longrightarrow> bit b n \<Longrightarrow> n < 7"
proof -
  assume "b < 0x80"
  then have "unat b < 2 ^ 7" by (simp add: word_less_nat_alt)
  then have "take_bit 7 (unat b) = unat b" by (simp add: take_bit_nat_eq_self)
  then have "take_bit 7 b = b" by (metis unsigned_take_bit_eq word_unat_eq_iff)
  moreover assume "bit b n"
  ultimately show "n < 7" by (metis bit_take_bit_iff)
qed

lemma int_shl_ascii: "b < 0x80 \<Longrightarrow> n \<le> 24 \<Longrightarrow> int_shl b n = push_bit n (ucast b)"
proof (rule bit_word_eqI)
  fix m assume h: "b < 0x80" "n \<le> 24"
  note ab = ascii_bit [OF h(1)]
  show "bit (int_shl b n) m = bit (push_bit n (ucast b :: u64)) m"
    using h(2) ab [of "m - n"] ab [of "31 - n"] by (auto simp: int_shl_def bit_simps min_def)
qed

lemma join_or_lo: "join (fst x OR a, snd x) = join x OR a"
  by (simp add: join_def or.assoc or.commute or.left_commute)

lemma join_or_hi: "join (fst x, snd x OR a) = join x OR push_bit 32 a"
  by (simp add: join_def or.assoc or.commute or.left_commute push_bit_or)

lemma sip_slow_ok:
  "ascii bs \<Longrightarrow> off + length bs \<le> 8 \<Longrightarrow> clean st \<Longrightarrow>
   clean (sip_slow st off bs) \<and> join (sip_slow st off bs) = join st OR push_bit (8 * off) (le_word bs)"
proof (induction bs arbitrary: off st)
  case (Cons b bs)
  have b: "b < 0x80" "ascii bs" using Cons.prems(1) by (simp_all add: ascii_def)
  define st' where "st' = (if off < 4 then (fst st OR int_shl b (8 * off), snd st)
               else (fst st, snd st OR int_shl b (8 * (off - 4))))"
  have cl: "clean st'"
    using Cons.prems b(1) by (intro cleanI)
      (auto simp: st'_def bit_or_iff int_shl_ascii bit_push_bit_iff bit_ucast_iff dest: clean_bit split: if_splits dest!: ascii_bit)
  have "join st' = join st OR push_bit (8 * off) (ucast b)"
  proof (cases "off < 4")
    case True
    then show ?thesis using b(1) by (simp add: st'_def join_or_lo int_shl_ascii)
  next
    case False
    then have "32 + 8 * (off - 4) = 8 * off" by simp
    then show ?thesis using False b(1) Cons.prems(2)
      by (simp add: st'_def join_or_hi int_shl_ascii push_bit_push_bit)
  qed
  then show ?case
    using Cons.IH [OF b(2) _ cl, of "off + 1"] Cons.prems(2)
    by (simp add: st'_def [symmetric] le_word_Cons push_bit_or push_bit_push_bit or.assoc add.commute)
qed simp

section \<open>Feeding a message\<close>

lemma sip_words_short: "length bs < 8 \<Longrightarrow> sip_words bs s = s"
  by (simp add: sip_words_def)

lemma sip_words_more:
  assumes "length (sip_tail bs) + length x \<le> 8"
  shows "sip_words (bs @ x) s =
     (if length (sip_tail bs) + length x = 8 then sip_absorb (le_word (sip_tail bs @ x)) (sip_words bs s)
      else sip_words bs s)"
  unfolding sip_words_def by (rule blocks_more [OF assms]) simp

lemmas sip_tail_more = tail_more [of 8, simplified]

definition sip_key :: "byte list \<Rightarrow> sip4" where
  "sip_key key = (let k0 = le_word (take 8 key); k1 = le_word (take 8 (drop 8 key)) in
     (k0 XOR 0x736f6d6570736575, k1 XOR 0x646f72616e646f6d,
      k0 XOR 0x6c7967656e657261, k1 XOR 0x7465646279746573))"

text \<open>What the context holds after the bytes of \<open>bs\<close>.\<close>

definition sip_rep :: "byte list \<Rightarrow> byte list \<Rightarrow> siphashctx \<Rightarrow> bool" where
  "sip_rep key bs c \<longleftrightarrow> ctx_clean c \<and> ctx_words c = sip_words bs (sip_key key) \<and>
     nbytes c = of_nat (length bs) \<and>
     (length bs mod 8 \<noteq> 0 \<longrightarrow> clean (sstate c) \<and> join (sstate c) = le_word (sip_tail bs))"

lemma nbytes_mod: "unat ((of_nat n :: u32) mod 8) = n mod 8" "(of_nat n :: u32) mod 8 = 0 \<longleftrightarrow> n mod 8 = 0"
proof -
  have "(8 :: nat) dvd 2 ^ 32" by simp
  then have "(n mod 2 ^ 32) mod 8 = n mod 8" by (rule mod_mod_cancel)
  then show "unat ((of_nat n :: u32) mod 8) = n mod 8"
    by (simp add: unat_mod unsigned_of_nat take_bit_eq_mod)
  then show "(of_nat n :: u32) mod 8 = 0 \<longleftrightarrow> n mod 8 = 0"
    by (metis unat_eq_zero)
qed

lemma fast_is_slow:
  assumes "length bp \<ge> 8"
  shows "(ucast (bp ! 0) OR int_shl (bp ! 1) 8 OR int_shl (bp ! 2) 16 OR int_shl (bp ! 3) 24,
      ucast (bp ! 4) OR int_shl (bp ! 5) 8 OR int_shl (bp ! 6) 16 OR int_shl (bp ! 7) 24)
    = sip_slow (0, 0) 0 (take 8 bp)"
proof -
  have "int_shl b 0 = ucast b" for b
    by (intro bit_word_eqI) (auto simp: int_shl_def bit_simps min_def dest: bit_imp_le_length)
  moreover obtain b0 b1 b2 b3 b4 b5 b6 b7 bs where "bp = b0 # b1 # b2 # b3 # b4 # b5 # b6 # b7 # bs"
    using assms by (metis (no_types, opaque_lifting) Suc_le_length_iff numeral_eq_Suc pred_numeral_simps BitM.simps)
  ultimately show ?thesis by (simp add: or.assoc)
qed

lemma clean_0: "clean (0, 0)" "join (0, 0) = 0"
  by (simp_all add: clean_def join_def)

lemma sip_absorb_step:
  assumes rep: "sip_rep key bs c" and x: "ascii x" "length (sip_tail bs) + length x \<le> 8"
    and st: "st = (if length bs mod 8 = 0 then (0, 0) else sstate c)"
    and c1: "c1 = c\<lparr>sstate := sip_slow st (length bs mod 8) x, nbytes := nbytes c + of_nat (length x)\<rparr>"
  shows "sip_rep key (bs @ x) (if length (sip_tail bs) + length x = 8 then sip_block c1 else c1)"
proof -
  have l: "length (sip_tail bs) = length bs mod 8" by (rule length_block_tail)
  have "clean st \<and> join st = le_word (sip_tail bs)"
    using rep l by (auto simp: st sip_rep_def clean_0)
  then have s1: "clean (sstate c1)" "join (sstate c1) = le_word (sip_tail bs @ x)"
    using sip_slow_ok [OF x(1), of "length bs mod 8" st] x(2) l
    by (auto simp: c1 le_word_append)
  have c1': "ctx_clean c1" "ctx_words c1 = sip_words bs (sip_key key)" "nbytes c1 = of_nat (length (bs @ x))"
    using rep by (simp_all add: sip_rep_def c1 ctx_clean_def ctx_words_def)
  have t: "length (sip_tail (bs @ x)) = length (bs @ x) mod 8" by (rule length_block_tail)
  show ?thesis
  proof (cases "length (sip_tail bs) + length x = 8")
    case True
    then have "length (bs @ x) mod 8 = 0" using t sip_tail_more [OF x(2)] by simp
    then show ?thesis
      using True sip_block_ok [OF c1'(1) s1(1)] c1' s1 sip_words_more [OF x(2)]
      by (simp add: sip_rep_def)
  next
    case False
    then show ?thesis
      using c1' s1 sip_words_more [OF x(2)] sip_tail_more [OF x(2)] by (simp add: sip_rep_def)
  qed
qed

lemma sip_add_bytes_ok:
  assumes rep: "sip_rep key bs c" and a: "ascii bp" and ne: "bp \<noteq> []"
    and r: "siphash_add_bytes c bp = (full, c1, bp1)"
  shows "\<exists>x. bp = x @ bp1 \<and> x \<noteq> [] \<and> sip_rep key (bs @ x) (if full then sip_block c1 else c1)"
proof -
  define off where "off = length bs mod 8"
  have off: "unat (nbytes c mod 8) = off" "off < 8" using rep by (simp_all add: sip_rep_def nbytes_mod off_def)
  have l: "length (sip_tail bs) = off" by (simp add: off_def length_block_tail)
  have at: "ascii (take k bp)" for k using a set_take_subset [of k bp] by (auto simp: ascii_def)
  show ?thesis
  proof (cases "off = 0 \<and> length bp \<ge> 8")
    case True
    let ?x = "take 8 bp"
    have e: "full" "c1 = c\<lparr>sstate := sip_slow (0, 0) 0 ?x, nbytes := nbytes c + of_nat (length ?x)\<rparr>" "bp1 = drop 8 bp"
      using r True off unfolding siphash_add_bytes_def Let_def fast_is_slow [OF True [THEN conjunct2]] by auto
    have "sip_rep key (bs @ ?x) (if length (sip_tail bs) + length ?x = 8 then sip_block c1 else c1)"
      using True off_def l by (intro sip_absorb_step [OF rep at _ refl]) (simp_all add: e)
    then show ?thesis using True e l ne by (intro exI [of _ ?x]) auto
  next
    case False
    define k where "k = (if 8 - off > length bp then length bp else 8 - off)"
    let ?x = "take k bp"
    have k: "length ?x = k" "0 < k" "off + k \<le> 8" using ne off by (auto simp: k_def)
    define st where "st = (if off = 0 then (0, 0) else sstate c)"
    have "siphash_add_bytes c bp = ((nbytes c + of_nat k) mod 8 = 0,
        c\<lparr>sstate := sip_slow st off ?x, nbytes := nbytes c + of_nat k\<rparr>, drop k bp)"
      using False by (simp only: siphash_add_bytes_def Let_def off(1) if_False k_def [symmetric] st_def [symmetric])
    then have e: "full \<longleftrightarrow> (nbytes c + of_nat k) mod 8 = 0"
      "c1 = c\<lparr>sstate := sip_slow st off ?x, nbytes := nbytes c + of_nat (length ?x)\<rparr>" "bp1 = drop k bp"
      using r by (simp_all only: k(1) prod.inject)
    have "nbytes c + of_nat k = of_nat (length bs + k)" using rep by (simp add: sip_rep_def)
    then have "full \<longleftrightarrow> (length bs + k) mod 8 = 0" by (simp only: e(1) nbytes_mod(2))
    also have "\<dots> \<longleftrightarrow> (off + k) mod 8 = 0" by (simp add: off_def mod_simps)
    also have "\<dots> \<longleftrightarrow> off + k = 8" using k off by (auto simp: mod_if)
    finally have f: "full \<longleftrightarrow> length (sip_tail bs) + length ?x = 8" using l k by simp
    have "sip_rep key (bs @ ?x) (if length (sip_tail bs) + length ?x = 8 then sip_block c1 else c1)"
    proof (rule sip_absorb_step [OF rep at])
      show "length (sip_tail bs) + length ?x \<le> 8" using k l by simp
      show "st = (if length bs mod 8 = 0 then (0, 0) else sstate c)" by (simp only: st_def off_def)
      show "c1 = c\<lparr>sstate := sip_slow st (length bs mod 8) ?x, nbytes := nbytes c + of_nat (length ?x)\<rparr>"
        by (simp only: e(2) off_def)
    qed
    then show ?thesis using e k f ne by (intro exI [of _ ?x]) auto
  qed
qed

lemma sip_loop_ok:
  "sip_rep key bs c \<Longrightarrow> ascii bp \<Longrightarrow> length bp \<le> n \<Longrightarrow> sip_rep key (bs @ bp) (sip_loop n c bp)"
proof (induction n arbitrary: bs c bp)
  case (Suc n)
  show ?case
  proof (cases "bp = []")
    case True
    then show ?thesis using Suc by simp
  next
    case False
    obtain full c1 bp1 where r: "siphash_add_bytes c bp = (full, c1, bp1)" by (metis prod_cases3)
    obtain x where x: "bp = x @ bp1" "x \<noteq> []" "sip_rep key (bs @ x) (if full then sip_block c1 else c1)"
      using sip_add_bytes_ok [OF Suc.prems(1,2) False r] by blast
    have "ascii bp1" "length bp1 \<le> n" using x Suc.prems by (auto simp: ascii_def neq_Nil_conv)
    from Suc.IH [OF x(3) this] have "sip_rep key (bs @ bp) (sip_loop n (if full then sip_block c1 else c1) bp1)"
      using x(1) by simp
    then show ?thesis using False r by simp
  qed
qed simp

lemma siphash24_add_ok:
  "sip_rep key bs c \<Longrightarrow> ascii bp \<Longrightarrow> sip_rep key (bs @ bp) (siphash24_add c bp)"
  by (simp add: siphash24_add_def sip_loop_ok)

lemma siphash24_adds_ok:
  "sip_rep key bs c \<Longrightarrow> ascii (concat ps) \<Longrightarrow>
   sip_rep key (bs @ concat ps) (fold (\<lambda>p c. siphash24_add c p) ps c)"
proof (induction ps arbitrary: bs c)
  case (Cons p ps)
  then have "sip_rep key (bs @ p) (siphash24_add c p)" "ascii (concat ps)"
    by (auto simp: ascii_def intro!: siphash24_add_ok)
  from Cons.IH [OF this] show ?case by simp
qed simp

section \<open>Finishing\<close>

lemma take_drop_Suc: "k < length p \<Longrightarrow> take (Suc n) (drop k p) = p ! k # take n (drop (Suc k) p)"
  by (simp flip: Cons_nth_drop_Suc)

lemma take_drop_4: "k + 4 \<le> length p \<Longrightarrow> take 4 (drop k p) = [p ! k, p ! (k + 1), p ! (k + 2), p ! (k + 3)]"
  by (simp add: numeral_eq_Suc take_drop_Suc)

lemma le_word4: "le_word [a, b, c, d] =
    ucast a OR push_bit 8 (ucast b) OR push_bit 16 (ucast c) OR push_bit 24 (ucast d)"
  by (simp add: le_word_Cons push_bit_or push_bit_push_bit or.assoc)

lemma U8TOU32LE_word: "k + 4 \<le> length p \<Longrightarrow> U8TOU32LE p k = le_word (take 4 (drop k p))"
  by (simp only: U8TOU32LE_def take_drop_4 le_word4 or.assoc)

lemma le_word_bit: "bit (le_word bs) n \<Longrightarrow> n < 8 * length bs"
proof (induction bs arbitrary: n)
  case (Cons b bs)
  then consider "bit b n" | "8 \<le> n" "bit (le_word bs) (n - 8)"
    by (auto simp: le_word_Cons bit_or_iff bit_push_bit_iff bit_ucast_iff)
  then show ?case
  proof cases
    case 1
    then show ?thesis using bit_imp_le_length [of b n] by simp
  next
    case 2
    then show ?thesis using Cons.IH [of "n - 8"] by simp
  qed
qed simp

lemma U8TOU32LE_join:
  assumes "k + 8 \<le> length p"
  shows "clean (U8TOU32LE p k, U8TOU32LE p (k + 4))"
    and "join (U8TOU32LE p k, U8TOU32LE p (k + 4)) = le_word (take 8 (drop k p))"
proof -
  have u: "U8TOU32LE p k = le_word (take 4 (drop k p))" "U8TOU32LE p (k + 4) = le_word (take 4 (drop (k + 4) p))"
    using assms by (simp_all add: U8TOU32LE_word)
  show "clean (U8TOU32LE p k, U8TOU32LE p (k + 4))"
    using assms by (intro cleanI) (auto simp: u dest: le_word_bit)
  have "take 8 (drop k p) = take 4 (drop k p) @ take 4 (drop (k + 4) p)"
    using take_add [of 4 4 "drop k p"] by (simp add: add.commute)
  then show "join (U8TOU32LE p k, U8TOU32LE p (k + 4)) = le_word (take 8 (drop k p))"
    using assms by (simp add: u join_def le_word_append)
qed

lemma siphash_init_ok:
  assumes "length key = 16"
  shows "sip_rep key [] (siphash_init key)"
proof -
  have k: "clean (U8TOU32LE key 0, U8TOU32LE key 4)" "join (U8TOU32LE key 0, U8TOU32LE key 4) = le_word (take 8 key)"
    "clean (U8TOU32LE key 8, U8TOU32LE key 12)" "join (U8TOU32LE key 8, U8TOU32LE key 12) = le_word (take 8 (drop 8 key))"
    using U8TOU32LE_join [of 0 key] U8TOU32LE_join [of 8 key] assms by simp_all
  have x: "clean (fst h XOR a, snd h XOR b) \<and> join (fst h XOR a, snd h XOR b) = join (a, b) XOR join h"
    if "clean h" "clean (a, b)" for a b h
    using XOR64_clean [OF that] XOR64_join [OF that] by (simp add: XOR64_def xor.commute)
  have c: "clean (0x70736575, 0x736f6d65)" "clean (0x6e646f6d, 0x646f7261)"
    "clean (0x6e657261, 0x6c796765)" "clean (0x79746573, 0x74656462)"
    by (simp_all add: clean_def)
  have j: "join (0x70736575, 0x736f6d65) = 0x736f6d6570736575" "join (0x6e646f6d, 0x646f7261) = 0x646f72616e646f6d"
    "join (0x6e657261, 0x6c796765) = 0x6c7967656e657261" "join (0x79746573, 0x74656462) = 0x7465646279746573"
    by (simp_all add: join_def)
  note x0 = x [OF c(1) k(1), unfolded fst_conv snd_conv k j] and x1 = x [OF c(2) k(3), unfolded fst_conv snd_conv k j]
    and x2 = x [OF c(3) k(1), unfolded fst_conv snd_conv k j] and x3 = x [OF c(4) k(3), unfolded fst_conv snd_conv k j]
  show ?thesis
    using x0 x1 x2 x3
    by (simp add: sip_rep_def siphash_init_def ctx_clean_def ctx_words_def sip_words_short sip_key_def Let_def)
qed

definition word_bytes :: "u64 \<Rightarrow> byte list" where
  "word_bytes x = map (\<lambda>i. ucast (drop_bit (8 * i) x)) [0..<8]"

lemma le_bytes_join: "clean (a, b) \<Longrightarrow> le_bytes32 a @ le_bytes32 b = word_bytes (join (a, b))"
proof -
  assume c: "clean (a, b)"
  have lo: "(ucast (drop_bit n (join (a, b))) :: byte) = ucast (drop_bit n a)" if "n \<le> 24" for n
    using that by (intro bit_word_eqI) (auto simp: bit_simps bit_join [OF c])
  have hi: "(ucast (drop_bit (32 + n) (join (a, b))) :: byte) = ucast (drop_bit n b)" if "n \<le> 24" for n
    using that by (intro bit_word_eqI) (auto simp: bit_simps bit_join [OF c])
  have u: "[0..<8] = [0, 1, 2, 3, 4, 5, 6, 7]" by (simp add: upt_rec)
  show ?thesis
    using lo [of 0] lo [of 8] lo [of 16] lo [of 24] hi [of 0] hi [of 8] hi [of 16] hi [of 24]
    by (simp add: le_bytes32_def word_bytes_def u)
qed

lemma length_byte: "push_bit 32 (ucast (push_bit 24 ((of_nat n :: u32) mod 256))) = push_bit 56 (of_nat n :: u64)"
proof -
  have "(of_nat n :: u32) mod 256 = take_bit 8 (of_nat n)" by (simp add: take_bit_eq_mod)
  then show ?thesis
    by (intro bit_word_eqI) (auto simp: bit_simps bit_word_of_nat)
qed

lemma siphash24_fini_ok:
  assumes rep: "sip_rep key bs c"
  shows "siphash24_fini c = word_bytes (siphash_spec key bs)"
proof -
  define c1 where "c1 = (if nbytes c mod 8 = 0 then c\<lparr>sstate := (0, 0)\<rparr> else c)"
  define m :: u64 where "m = ucast (push_bit 24 (nbytes c1 mod 256))"
  define c2 where "c2 = c1\<lparr>sstate := (fst (sstate c1), snd (sstate c1) OR m)\<rparr>"
  define c3 where "c3 = sip_block c2"
  define c4 where "c4 = c3\<lparr>v2 := (fst (v2 c3) XOR 0xff, snd (v2 c3))\<rparr>"
  define c5 where "c5 = siphash_round (siphash_round (siphash_round (siphash_round c4)))"
  define x where "x = XOR64 (XOR64 (XOR64 (v0 c5) (v1 c5)) (v2 c5)) (v3 c5)"
  have l: "length (sip_tail bs) = length bs mod 8" by (rule length_block_tail)
  have 1: "ctx_clean c1" "ctx_words c1 = sip_words bs (sip_key key)" "clean (sstate c1)" "join (sstate c1) = le_word (sip_tail bs)"
    using rep l by (auto simp: c1_def sip_rep_def nbytes_mod clean_0 ctx_clean_def ctx_words_def)
  have m: "push_bit 32 m = push_bit 56 (of_nat (length bs))" "bit m n \<Longrightarrow> n < 32" for n
    using rep length_byte [of "length bs"] by (auto simp: m_def c1_def sip_rep_def bit_ucast_iff dest: bit_imp_le_length)
  have 2: "ctx_clean c2" "ctx_words c2 = sip_words bs (sip_key key)" "clean (sstate c2)"
    "join (sstate c2) = le_word (sip_tail bs) OR push_bit 56 (of_nat (length bs))"
    using 1 m by (auto simp: c2_def ctx_clean_def ctx_words_def join_or_hi bit_or_iff intro!: cleanI dest: clean_bit)
  have 3: "ctx_clean c3" "ctx_words c3 = sip_absorb (join (sstate c2)) (ctx_words c2)"
    using sip_block_ok [OF 2(1,3)] by (simp_all add: c3_def)
  have ff: "clean (0xff, 0)" "join (0xff, 0) = 0xff" by (simp_all add: clean_def join_def)
  have "c4 = c3\<lparr>v2 := XOR64 (v2 c3) (0xff, 0)\<rparr>" by (simp add: c4_def XOR64_def)
  then have 4: "ctx_clean c4" "ctx_words c4 = (case ctx_words c3 of (a, b, c, d) \<Rightarrow> (a, b, c XOR 0xff, d))"
    using 3(1) ff by (simp_all add: ctx_clean_def ctx_words_def XOR64_clean XOR64_join)
  have 5: "ctx_clean c5" "ctx_words c5 = (sip_round ^^ 4) (ctx_words c4)"
    using 4(1) by (simp_all add: c5_def siphash_round_ok numeral_eq_Suc)
  have x: "clean x" "join x = (case ctx_words c5 of (a, b, c, d) \<Rightarrow> a XOR b XOR c XOR d)"
    using 5(1) by (simp_all add: x_def ctx_clean_def ctx_words_def XOR64_clean XOR64_join xor.assoc)
  have "siphash24_fini c = le_bytes32 (fst x) @ le_bytes32 (snd x)"
    by (simp only: siphash24_fini_def Let_def c1_def c2_def c3_def c4_def c5_def m_def x_def XOR64_def fst_conv snd_conv xor.assoc)
  also have "\<dots> = word_bytes (join x)" using le_bytes_join [of "fst x" "snd x"] x(1) by simp
  also have "join x = siphash_spec key bs"
    unfolding x(2) 5(2) 4(2) 3(2) 2(2,4)
    by (simp add: siphash_spec_def sip_key_def Let_def split: prod.splits)
  finally show ?thesis .
qed

section \<open>A message with its top bit set, evaluated\<close>

lemma rotl_shift:
  assumes "0 < k" "k < 64" shows "rotl k x = push_bit k x OR drop_bit (64 - k) x"
proof (rule bit_word_eqI)
  fix n assume n: "n < LENGTH(64)"
  have "(n + (64 - k)) mod 64 = (if n < k then n + 64 - k else n - k)" using n assms by (auto simp: mod_if)
  then have r: "bit (rotl k x) n = bit x (if n < k then n + 64 - k else n - k)"
    using n assms by (simp add: rotl_def bit_word_rotl_iff)
  have "64 - k + n = n + 64 - k" using assms by simp
  then show "bit (rotl k x) n = bit (push_bit k x OR drop_bit (64 - k) x) n"
    using n assms bit_imp_le_length [of x "n + 64 - k"] unfolding r
    by (auto simp: bit_or_iff bit_push_bit_iff bit_drop_bit_eq)
qed
lemma funpow_4: "(f ^^ 4) x = f (f (f (f x)))"
  by (simp add: numeral_eq_Suc)

lemma sip_w_round0: "siphash_round \<lparr>nbytes = 4, sstate = (0xffffffff80000000, 0x4000000), v0 = (0x70736575, 0x736f6d65), v1 = (0x6e646f6d, 0x646f7261), v2 = (0x6e657261, 0x6c796765), v3 = (0xfffffffff9746573, 0x70656462)\<rparr>
  = \<lparr>nbytes = 4, sstate = (0xffffffff80000000, 0x4000000), v0 = (0xda898777, 0x1f9079e), v1 = (0x4bca2366, 0xf2651ba6), v2 = (0x1671bdd2, 0xbb145043), v3 = (0x2cade351, 0x567952ca)\<rparr>"
  by (simp add: siphash_round_def Let_def ADD64_def ROTL64_def ROTL64_32_def XOR64_def cong: let_weak_cong)

lemma sip_w_round1: "siphash_round \<lparr>nbytes = 4, sstate = (0xffffffff80000000, 0x4000000), v0 = (0xda898777, 0x1f9079e), v1 = (0x4bca2366, 0xf2651ba6), v2 = (0x1671bdd2, 0xbb145043), v3 = (0x2cade351, 0x567952ca)\<rparr>
  = \<lparr>nbytes = 4, sstate = (0xffffffff80000000, 0x4000000), v0 = (0x94ad1a9f, 0x699b3a7e), v1 = (0x4c7dbbe1, 0xbcc04937), v2 = (0x68b88d49, 0xa55f15b4), v3 = (0x7fe5726e, 0x9d8f33a0)\<rparr>"
  by (simp add: siphash_round_def Let_def ADD64_def ROTL64_def ROTL64_32_def XOR64_def cong: let_weak_cong)

lemma sip_w_round2: "siphash_round \<lparr>nbytes = 4, sstate = (0xffffffff80000000, 0x4000000), v0 = (0xffffffff14ad1a9f, 0x6d9b3a7e), v1 = (0x4c7dbbe1, 0xbcc04937), v2 = (0x68b88db6, 0xa55f15b4), v3 = (0x7fe5726e, 0x9d8f33a0)\<rparr>
  = \<lparr>nbytes = 4, sstate = (0xffffffff80000000, 0x4000000), v0 = (0xc54c2161, 0xd2790d31), v1 = (0x7cc4a7c6, 0xb2181f23), v2 = (0x666bb38e, 0xbef4e13c), v3 = (0x702208a7, 0x44a5322)\<rparr>"
  by (simp add: siphash_round_def Let_def ADD64_def ROTL64_def ROTL64_32_def XOR64_def cong: let_weak_cong)

lemma sip_w_round3: "siphash_round \<lparr>nbytes = 4, sstate = (0xffffffff80000000, 0x4000000), v0 = (0xc54c2161, 0xd2790d31), v1 = (0x7cc4a7c6, 0xb2181f23), v2 = (0x666bb38e, 0xbef4e13c), v3 = (0x702208a7, 0x44a5322)\<rparr>
  = \<lparr>nbytes = 4, sstate = (0xffffffff80000000, 0x4000000), v0 = (0x62bbe4d4, 0xd22e0da4), v1 = (0x93bcd573, 0xcd2fd5fc), v2 = (0x4ab4782c, 0xad75db99), v3 = (0x6d49e77c, 0x5db5c8f3)\<rparr>"
  by (simp add: siphash_round_def Let_def ADD64_def ROTL64_def ROTL64_32_def XOR64_def cong: let_weak_cong)

lemma sip_w_round4: "siphash_round \<lparr>nbytes = 4, sstate = (0xffffffff80000000, 0x4000000), v0 = (0x62bbe4d4, 0xd22e0da4), v1 = (0x93bcd573, 0xcd2fd5fc), v2 = (0x4ab4782c, 0xad75db99), v3 = (0x6d49e77c, 0x5db5c8f3)\<rparr>
  = \<lparr>nbytes = 4, sstate = (0xffffffff80000000, 0x4000000), v0 = (0xefdfe5bd, 0xba51840c), v1 = (0xa311e84e, 0x92a0cfc9), v2 = (0x710e1664, 0x24d5238a), v3 = (0xac679ea4, 0x82fb944c)\<rparr>"
  by (simp add: siphash_round_def Let_def ADD64_def ROTL64_def ROTL64_32_def XOR64_def cong: let_weak_cong)

lemma sip_w_round5: "siphash_round \<lparr>nbytes = 4, sstate = (0xffffffff80000000, 0x4000000), v0 = (0xefdfe5bd, 0xba51840c), v1 = (0xa311e84e, 0x92a0cfc9), v2 = (0x710e1664, 0x24d5238a), v3 = (0xac679ea4, 0x82fb944c)\<rparr>
  = \<lparr>nbytes = 4, sstate = (0xffffffff80000000, 0x4000000), v0 = (0xd0c38bc9, 0xc68de9bb), v1 = (0xf5d37b71, 0x33b5407b), v2 = (0xfcdc1f8b, 0xcd6dd167), v3 = (0x2ea5f84a, 0xb09d939d)\<rparr>"
  by (simp add: siphash_round_def Let_def ADD64_def ROTL64_def ROTL64_32_def XOR64_def cong: let_weak_cong)


lemma sip_s_round0: "sip_round (0x736f6d6570736575, 0x646f72616e646f6d, 0x6c7967656e657261, 0x70656462f9746573)
  = (0x9794079eda898777, 0xf2651ba64bca2366, 0xbb1450431671bdd2, 0xc01452ca2cbe90f1)"
  by (simp add: sip_round_def rotl_shift Let_def cong: let_weak_cong)

lemma sip_s_round1: "sip_round (0x9794079eda898777, 0xf2651ba64bca2366, 0xbb1450431671bdd2, 0xc01452ca2cbe90f1)
  = (0x50363a915dbab21c, 0x71ce49374c4d964f, 0xa56fc354a5b68d49, 0xa64c42a0875f8e4d)"
  by (simp add: sip_round_def rotl_shift Let_def cong: let_weak_cong)

lemma sip_s_round2: "sip_round (0x54363a91ddbab21c, 0x71ce49374c4d964f, 0xa56fc354a5b68db6, 0xa64c42a0875f8e4d)
  = (0x3324cb1669603e18, 0x8e5f41b68973dc11, 0xc5d7c2555ade7035, 0x6670a06120811d88)"
  by (simp add: sip_round_def rotl_shift Let_def cong: let_weak_cong)

lemma sip_s_round3: "sip_round (0x3324cb1669603e18, 0x8e5f41b68973dc11, 0xc5d7c2555ade7035, 0x6670a06120811d88)
  = (0x7efd5c61285bf899, 0xee3e52355371eafa, 0x4b5b99f55fb4099, 0x3811869c51ea7db1)"
  by (simp add: sip_round_def rotl_shift Let_def cong: let_weak_cong)

lemma sip_s_round4: "sip_round (0x7efd5c61285bf899, 0xee3e52355371eafa, 0x4b5b99f55fb4099, 0x3811869c51ea7db1)
  = (0x3628f565479034f1, 0xedb4c81692d13264, 0xee787c9ee4444533, 0xc13bff58ce77f93)"
  by (simp add: sip_round_def rotl_shift Let_def cong: let_weak_cong)

lemma sip_s_round5: "sip_round (0x3628f565479034f1, 0xedb4c81692d13264, 0xee787c9ee4444533, 0xc13bff58ce77f93)
  = (0x1fdb17c832968650, 0x6b2853ed989eca17, 0x6d59bfa9b56babb6, 0x11bac0d1283e2966)"
  by (simp add: sip_round_def rotl_shift Let_def cong: let_weak_cong)


lemmas sip_w_rounds = sip_w_round0 sip_w_round1 sip_w_round2 sip_w_round3 sip_w_round4 sip_w_round5
lemmas sip_s_rounds = sip_s_round0 sip_s_round1 sip_s_round2 sip_s_round3 sip_s_round4 sip_s_round5

lemma sip_w_init: "siphash_init (replicate 16 0) = \<lparr>nbytes = 0, sstate = (0, 0), v0 = (0x70736575, 0x736f6d65),
    v1 = (0x6e646f6d, 0x646f7261), v2 = (0x6e657261, 0x6c796765), v3 = (0x79746573, 0x74656462)\<rparr>"
  by (simp add: siphash_init_def U8TOU32LE_def)

lemma sip_w_add: "siphash24_add \<lparr>nbytes = 0, sstate = (0, 0), v0 = a, v1 = b, v2 = c, v3 = d\<rparr> [0, 0, 0, 0x80]
    = \<lparr>nbytes = 4, sstate = (0xFFFFFFFF80000000, 0), v0 = a, v1 = b, v2 = c, v3 = d\<rparr>"
  by (simp add: siphash24_add_def siphash_add_bytes_def int_shl_def)

lemma sip_w_code: "siphash24 (replicate 16 0) [0, 0, 0, 0x80] = [121, 23, 105, 247, 58, 235, 200, 136]"
  by (simp only: siphash24_def sip_w_init sip_w_add)
    (simp add: siphash24_fini_def sip_block_def XOR64_def le_bytes32_def Let_def sip_w_rounds cong: let_weak_cong)

lemma le_word_zeros: "le_word (replicate n 0) = 0"
  by (induction n) (simp_all add: le_word_Cons)

lemma sip_w_spec: "siphash_spec (replicate 16 0) [0, 0, 0, 0x80] = 0x8103b5d375dce97"
  by (simp add: siphash_spec_def le_word_Cons le_word_zeros sip_words_short block_tail_def sip_absorb_def sip_s_rounds funpow_4 Let_def cong: let_weak_cong)

section \<open>Properties\<close>

text \<open>C10: for a 16-byte key and data bytes below 0x80, of any total length and cut into any calls of
  \<open>siphash24_add\<close>, the result is the published SipHash-2-4 of the whole message.\<close>

theorem siphash24_correct:
  assumes "length key = 16" "ascii (concat ps)"
  shows "siphash24_fini (fold (\<lambda>p c. siphash24_add c p) ps (siphash_init key))
    = word_bytes (siphash_spec key (concat ps))"
  using siphash24_fini_ok [OF siphash24_adds_ok [OF siphash_init_ok [OF assms(1)] assms(2)]] by simp

theorem siphash24_correct_witness:
  "siphash24_fini (fold (\<lambda>p c. siphash24_add c p) [[1, 2, 3], [4, 5, 6, 7, 8, 9]] (siphash_init (replicate 16 0)))
    = word_bytes (siphash_spec (replicate 16 0) (concat [[1, 2, 3], [4, 5, 6, 7, 8, 9]]))"
  by (rule siphash24_correct) (simp_all add: ascii_def)

text \<open>on LP64 a data byte with its top bit set at a 24-bit shift gives a hash that is not SipHash: the sign
  of the shifted \<open>int\<close> fills the upper half of the \<open>ulong\<close> and is rotated back into the state.\<close>

theorem siphash24_sign_extension:
  "siphash24 (replicate 16 0) [0, 0, 0, 0x80] \<noteq> word_bytes (siphash_spec (replicate 16 0) [0, 0, 0, 0x80])"
  unfolding sip_w_code sip_w_spec by (simp add: word_bytes_def upt_rec)

end
