(* ===== verification/ArrayHeap.thy ===== *)
theory ArrayHeap
  imports CatPrelude
begin

text \<open>
  The array heap of include/cat/heap.h.  The state is the C struct: capacity, number of elements,
  the array, the comparison function and the memory manager.  \<open>mem_resize\<close> is an argument that
  gives the contents of the cells a larger array adds, or fails; \<open>None\<close> for the manager is a NULL
  pointer.  Sizes and positions are \<open>int\<close>s in C: \<open>heap_inv\<close> bounds the capacity, and with it every
  position, by 2^31, and the one position that can be larger, a child's, is checked.  The contract is
  that of a priority queue.
\<close>

section \<open>State and operations\<close>

record 'a heap =
  hp_size :: nat
  hp_fill :: nat
  hp_elem :: "'a list"
  hp_cmp :: "'a \<Rightarrow> 'a \<Rightarrow> int"
  hp_mm :: "(nat \<Rightarrow> 'a list option) option"

fun reheapup_loop :: "('a \<Rightarrow> 'a \<Rightarrow> int) \<Rightarrow> 'a list \<Rightarrow> nat \<Rightarrow> 'a list \<times> nat" where
  "reheapup_loop cmp e pos =
     (let ppos = (pos - 1) div 2
      in if pos > 0 \<and> cmp (e ! ppos) (e ! pos) > 0
         then reheapup_loop cmp (aswap e pos ppos) ppos else (e, pos))"

declare reheapup_loop.simps [simp del]

definition reheapup :: "'a heap \<Rightarrow> nat \<Rightarrow> 'a heap \<times> nat" where
  "reheapup hp pos =
     (if pos \<ge> hp_fill hp then (hp, 0)
      else case reheapup_loop (hp_cmp hp) (hp_elem hp) pos of (e, p) \<Rightarrow> (hp\<lparr>hp_elem := e\<rparr>, p))"

text \<open>
  A position is an \<open>int\<close>: \<open>(pos << 1) + 1\<close> is undefined from position 2^30 on, and is negative where the
  shift wraps, so that the cells before the array are compared.
\<close>

function reheapdown_loop :: "('a \<Rightarrow> 'a \<Rightarrow> int) \<Rightarrow> nat \<Rightarrow> 'a list \<Rightarrow> nat \<Rightarrow> 'a list outcome" where
  "reheapdown_loop cmp fill e pos =
     (if 2 * pos + 1 \<ge> 2 ^ 31 then Fault
      else if 2 * pos + 1 \<ge> fill then Ok e
      else let cld = (if 2 * pos + 2 < fill \<and> cmp (e ! (2 * pos + 1)) (e ! (2 * pos + 2)) > 0
                      then 2 * pos + 2 else 2 * pos + 1)
           in if cmp (e ! pos) (e ! cld) > 0 then reheapdown_loop cmp fill (aswap e cld pos) cld else Ok e)"
  by pat_completeness auto
termination by (relation "measure (\<lambda>(cmp, fill, e, pos). fill - pos)") auto

declare reheapdown_loop.simps [simp del]

definition reheapdown :: "'a heap \<Rightarrow> nat \<Rightarrow> 'a heap outcome" where
  "reheapdown hp pos =
     (if pos \<ge> hp_fill hp then Ok hp
      else obind (reheapdown_loop (hp_cmp hp) (hp_fill hp) (hp_elem hp) pos) (\<lambda>e. Ok (hp\<lparr>hp_elem := e\<rparr>)))"

text \<open>The loop of \<open>hp_init\<close>, from \<open>i = n - 1\<close> down to 0.\<close>

fun hp_init_loop :: "'a heap \<Rightarrow> nat \<Rightarrow> 'a heap outcome" where
  "hp_init_loop hp 0 = Ok hp"
| "hp_init_loop hp (Suc i) = obind (reheapdown hp i) (\<lambda>hp. hp_init_loop hp i)"

definition hp_init :: "'a list \<Rightarrow> int \<Rightarrow> int \<Rightarrow> ('a \<Rightarrow> 'a \<Rightarrow> int) \<Rightarrow> (nat \<Rightarrow> 'a list option) option \<Rightarrow> 'a heap outcome" where
  "hp_init e sz fill cmp mm = abort_unless (sz \<ge> 0) (abort_unless (fill \<ge> 0)
     (let hp = \<lparr>hp_size = nat sz, hp_fill = nat fill, hp_elem = e, hp_cmp = cmp, hp_mm = mm\<rparr>
      in if fill \<noteq> 0
         then let hp = (if fill > sz then hp\<lparr>hp_fill := nat sz\<rparr> else hp)
              in hp_init_loop hp (Suc (hp_fill hp div 2))
         else Ok hp))"

text \<open>
  \<open>hp_add\<close> gives the new heap, the position of the element and success.  The doubled size is an
  \<open>int\<close>: past 2^31 it is negative and the call fails.
\<close>

definition hp_add :: "'a heap \<Rightarrow> 'a \<Rightarrow> ('a heap \<times> nat) option" where
  "hp_add hp x =
     (let grown = (if hp_fill hp = hp_size hp
        then case hp_mm hp of None \<Rightarrow> None
          | Some mem_resize \<Rightarrow>
              let n = (if hp_size hp = 0 then 32 else 2 * hp_size hp)
              in if n \<ge> 2 ^ 31 then None
                 else case mem_resize (n - hp_size hp) of None \<Rightarrow> None
                   | Some new \<Rightarrow> Some (hp\<lparr>hp_elem := hp_elem hp @ new, hp_size := n\<rparr>)
        else Some hp)
      in case grown of None \<Rightarrow> None
         | Some hp \<Rightarrow> let n = hp_fill hp
             in Some (reheapup (hp\<lparr>hp_elem := (hp_elem hp)[n := x], hp_fill := n + 1\<rparr>) n))"

fun hp_find_loop :: "('a \<Rightarrow> 'a \<Rightarrow> int) \<Rightarrow> 'a list \<Rightarrow> 'a \<Rightarrow> nat \<Rightarrow> nat \<Rightarrow> int" where
  "hp_find_loop cmp e d i 0 = -1"
| "hp_find_loop cmp e d i (Suc n) = (if cmp (e ! i) d = 0 then int i else hp_find_loop cmp e d (i + 1) n)"

definition hp_find :: "'a heap \<Rightarrow> 'a \<Rightarrow> int" where
  "hp_find hp d = hp_find_loop (hp_cmp hp) (hp_elem hp) d 0 (hp_fill hp)"

definition hp_extract :: "'a heap \<Rightarrow> ('a heap \<times> 'a option) outcome" where
  "hp_extract hp =
     (if hp_fill hp = 0 then Ok (hp, None)
      else let hold = hp_elem hp ! 0; l = hp_fill hp - 1
           in obind (reheapdown (hp\<lparr>hp_elem := aswap (hp_elem hp) 0 l, hp_fill := l\<rparr>) 0) (\<lambda>hp. Ok (hp, Some hold)))"

definition hp_rem :: "'a heap \<Rightarrow> int \<Rightarrow> ('a heap \<times> 'a option) outcome" where
  "hp_rem hp elem = abort_unless (elem \<ge> 0)
     (let el = nat elem in
      if el \<ge> hp_fill hp then Ok (hp, None)
      else let l = hp_fill hp - 1;
               hp = hp\<lparr>hp_elem := aswap (hp_elem hp) el l, hp_fill := l\<rparr>;
               (hp, p) = reheapup hp el
           in obind (if p = el then reheapdown hp el else Ok hp) (\<lambda>hp. Ok (hp, Some (hp_elem hp ! l))))"

section \<open>Sifting without bounds\<close>

text \<open>The sift-down with positions that are any numbers: what the code computes while they fit into an \<open>int\<close>.\<close>

function sift_loop :: "('a \<Rightarrow> 'a \<Rightarrow> int) \<Rightarrow> nat \<Rightarrow> 'a list \<Rightarrow> nat \<Rightarrow> 'a list" where
  "sift_loop cmp fill e pos =
     (if 2 * pos + 1 \<ge> fill then e
      else let cld = (if 2 * pos + 2 < fill \<and> cmp (e ! (2 * pos + 1)) (e ! (2 * pos + 2)) > 0
                      then 2 * pos + 2 else 2 * pos + 1)
           in if cmp (e ! pos) (e ! cld) > 0 then sift_loop cmp fill (aswap e cld pos) cld else e)"
  by pat_completeness auto
termination by (relation "measure (\<lambda>(cmp, fill, e, pos). fill - pos)") auto

declare sift_loop.simps [simp del]

definition sift :: "'a heap \<Rightarrow> nat \<Rightarrow> 'a heap" where
  "sift hp pos =
     (if pos \<ge> hp_fill hp then hp else hp\<lparr>hp_elem := sift_loop (hp_cmp hp) (hp_fill hp) (hp_elem hp) pos\<rparr>)"

definition HP_MAX :: nat where "HP_MAX = 2 ^ 30"

lemma reheapdown_loop_sift:
  assumes "fill \<le> HP_MAX" "pos < fill"
  shows "reheapdown_loop cmp fill e pos = Ok (sift_loop cmp fill e pos)"
  using assms
proof (induction cmp fill e pos rule: sift_loop.induct)
  case (1 cmp fill e pos)
  have b: "\<not> 2 * pos + 1 \<ge> 2 ^ 31" using "1.prems" by (simp add: HP_MAX_def)
  show ?case
  proof (cases "2 * pos + 1 \<ge> fill")
    case True
    then show ?thesis using b by (simp add: reheapdown_loop.simps [of cmp] sift_loop.simps [of cmp])
  next
    case False
    define cld where "cld = (if 2 * pos + 2 < fill \<and> cmp (e ! (2 * pos + 1)) (e ! (2 * pos + 2)) > 0 then 2 * pos + 2 else 2 * pos + 1)"
    have c: "cld < fill" using False by (auto simp: cld_def)
    have r: "reheapdown_loop cmp fill e pos = (if cmp (e ! pos) (e ! cld) > 0 then reheapdown_loop cmp fill (aswap e cld pos) cld else Ok e)"
      by (subst reheapdown_loop.simps) (simp only: b False if_False Let_def cld_def)
    have t: "sift_loop cmp fill e pos = (if cmp (e ! pos) (e ! cld) > 0 then sift_loop cmp fill (aswap e cld pos) cld else e)"
      by (subst sift_loop.simps) (simp only: False if_False Let_def cld_def)
    have "reheapdown_loop cmp fill (aswap e cld pos) cld = Ok (sift_loop cmp fill (aswap e cld pos) cld)" if "cmp (e ! pos) (e ! cld) > 0"
      using "1.IH" [OF False cld_def that "1.prems"(1) c] .
    then show ?thesis unfolding r t by simp
  qed
qed

lemma reheapdown_sift: "hp_fill hp \<le> HP_MAX \<Longrightarrow> reheapdown hp pos = Ok (sift hp pos)"
  by (simp add: reheapdown_def sift_def reheapdown_loop_sift)

text \<open>A heap of more than 2^30 elements has positions from which sifting down is undefined.\<close>

lemma reheapdown_overflows: "HP_MAX \<le> pos \<Longrightarrow> pos < hp_fill hp \<Longrightarrow> reheapdown hp pos = Fault"
  by (simp add: reheapdown_def reheapdown_loop.simps HP_MAX_def)

section \<open>Heap order\<close>

definition par :: "nat \<Rightarrow> nat" where "par k = (k - 1) div 2"

lemma par_less: "0 < k \<Longrightarrow> par k < k"
  by (simp add: par_def)

lemma par_child: "0 < k \<Longrightarrow> par k = p \<longleftrightarrow> k = 2 * p + 1 \<or> k = 2 * p + 2"
  by (auto simp: par_def)

text \<open>Heap order below the positions from \<open>lo\<close> on.\<close>

definition heap_from :: "('a \<Rightarrow> 'a \<Rightarrow> int) \<Rightarrow> nat \<Rightarrow> nat \<Rightarrow> 'a list \<Rightarrow> bool" where
  "heap_from cmp lo fill e \<longleftrightarrow> (\<forall>k < fill. 0 < k \<and> lo \<le> par k \<longrightarrow> cmp (e ! par k) (e ! k) \<le> 0)"

context cmp_order
begin

lemma heap_from_le: "heap_from cmp lo fill e \<longleftrightarrow> (\<forall>k < fill. 0 < k \<and> lo \<le> par k \<longrightarrow> le (e ! par k) (e ! k))"
  by (simp add: heap_from_def le_def)

lemma sift_loop_ok:
  assumes "fill \<le> length e" "lo \<le> p"
    and "\<And>k. k < fill \<Longrightarrow> 0 < k \<Longrightarrow> lo \<le> par k \<Longrightarrow> par k \<noteq> p \<Longrightarrow> le (e ! par k) (e ! k)"
    and "\<And>k. k < fill \<Longrightarrow> 0 < k \<Longrightarrow> par k = p \<Longrightarrow> 0 < p \<Longrightarrow> lo \<le> par p \<Longrightarrow> le (e ! par p) (e ! k)"
  shows "heap_from cmp lo fill (sift_loop cmp fill e p) \<and>
    mset (sift_loop cmp fill e p) = mset e \<and> length (sift_loop cmp fill e p) = length e \<and>
    (\<forall>k. fill \<le> k \<longrightarrow> sift_loop cmp fill e p ! k = e ! k)"
  using assms
proof (induction "fill - p" arbitrary: e p rule: less_induct)
  case less
  note A = less.prems(3) and B = less.prems(4)
  show ?case
  proof (cases "2 * p + 1 \<ge> fill")
    case True
    then have "par k \<noteq> p" if "k < fill" "0 < k" for k using that by (auto simp: par_child)
    then have "heap_from cmp lo fill e" using A by (auto simp: heap_from_le)
    then show ?thesis using True by (simp add: sift_loop.simps)
  next
    case False
    define cld where "cld = (if 2 * p + 2 < fill \<and> cmp (e ! (2 * p + 1)) (e ! (2 * p + 2)) > 0 then 2 * p + 2 else 2 * p + 1)"
    have c: "cld < fill" "p < cld" "par cld = p" "0 < cld" using False by (auto simp: cld_def par_def)
    have best: "le (e ! cld) (e ! k)" if "k < fill" "0 < k" "par k = p" for k
      using that by (auto simp: cld_def par_child cmp_sign dest: not_le)
    have step: "sift_loop cmp fill e p =
        (if cmp (e ! p) (e ! cld) > 0 then sift_loop cmp fill (aswap e cld p) cld else e)"
      using False by (subst sift_loop.simps) (simp only: Let_def cld_def if_False)
    show ?thesis
    proof (cases "cmp (e ! p) (e ! cld) > 0")
      case True
      then have sw: "le (e ! cld) (e ! p)" by (auto simp: cmp_sign dest: not_le)
      have l: "cld < length e" "p < length e" using c less.prems(1) by auto
      let ?e = "aswap e cld p"
      note nth = nth_aswap [OF l]
      have ne: "cld \<noteq> p" "par p \<noteq> cld" using c par_less [of p] by (auto simp: par_def)
      have A': "le (?e ! par k) (?e ! k)" if k: "k < fill" "0 < k" "lo \<le> par k" "par k \<noteq> cld" for k
      proof -
        consider "k = cld" | "k \<noteq> cld" "par k = p" | "k = p" "par k \<noteq> p" | "k \<noteq> p" "k \<noteq> cld" "par k \<noteq> p" by blast
        then show ?thesis
        proof cases
          case 1 then show ?thesis using c ne sw by (simp add: nth)
        next
          case 2
          then have "k \<noteq> p" using par_less [OF k(2)] by auto
          then show ?thesis using 2 k ne best by (simp add: nth)
        next
          case 3
          then show ?thesis using B [OF c(1,4,3)] k ne by (simp add: nth)
        next
          case 4
          then show ?thesis using A [OF k(1,2,3)] k(4) by (simp add: nth)
        qed
      qed
      have B': "le (?e ! par cld) (?e ! k)"
        if k: "k < fill" "0 < k" "par k = cld" and "0 < cld" "lo \<le> par cld" for k
      proof -
        have "k \<noteq> cld" "k \<noteq> p" using par_less [OF k(2)] k(3) c by auto
        moreover have "le (e ! par k) (e ! k)" using A [OF k(1,2)] k(3) c(2) less.prems(2) by simp
        ultimately show ?thesis using k(3) c(3) ne by (simp add: nth)
      qed
      have "fill - cld < fill - p" "fill \<le> length ?e" "lo \<le> cld" using c less.prems(1,2) by auto
      note IH = less.hyps [OF this A' B']
      have "?e ! k = e ! k" if "fill \<le> k" for k using that c by (simp add: nth)
      moreover have "mset ?e = mset e" "length ?e = length e" using l by simp_all
      ultimately show ?thesis using IH by (simp only: step True if_True) auto
    next
      case False
      then have "le (e ! p) (e ! cld)" by (simp add: cmp_sign)
      then have "le (e ! par k) (e ! k)" if "k < fill" "0 < k" "lo \<le> par k" for k
        using A that best by (cases "par k = p") (auto intro: le_trans)
      then show ?thesis using False by (simp add: step heap_from_le)
    qed
  qed
qed

lemma reheapup_loop_ok:
  assumes "fill \<le> length e" "p < fill"
    and "\<And>k. k < fill \<Longrightarrow> 0 < k \<Longrightarrow> k \<noteq> p \<Longrightarrow> le (e ! par k) (e ! k)"
    and "\<And>k. k < fill \<Longrightarrow> 0 < k \<Longrightarrow> par k = p \<Longrightarrow> 0 < p \<Longrightarrow> le (e ! par p) (e ! k)"
    and "reheapup_loop cmp e p = (e', q)"
  shows "heap_from cmp 0 fill e' \<and> mset e' = mset e \<and> length e' = length e \<and>
    (\<forall>k. fill \<le> k \<longrightarrow> e' ! k = e ! k) \<and> q \<le> p \<and> e' ! q = e ! p \<and>
    (0 < p \<and> cmp (e ! par p) (e ! p) > 0 \<longrightarrow> q < p)"
  using assms
proof (induction p arbitrary: e rule: less_induct)
  case (less p)
  note A = less.prems(3) and B = less.prems(4)
  show ?case
  proof (cases "0 < p \<and> cmp (e ! par p) (e ! p) > 0")
    case True
    then have pp: "par p < p" by (simp add: par_less)
    then have l: "p < length e" "par p < length e" using less.prems by auto
    let ?e = "aswap e p (par p)"
    note nth = nth_aswap [OF l]
    have r: "reheapup_loop cmp ?e (par p) = (e', q)"
      using True less.prems(5) by (subst (asm) reheapup_loop.simps) (simp add: Let_def par_def)
    have sw: "le (e ! p) (e ! par p)" using True by (auto simp: cmp_sign dest: not_le)
    have A': "le (?e ! par k) (?e ! k)" if k: "k < fill" "0 < k" "k \<noteq> par p" for k
    proof (cases "k = p")
      case True
      then show ?thesis using sw pp by (simp add: nth)
    next
      case False
      have kk: "le (e ! par k) (e ! k)" using A [OF k(1,2) False] .
      consider "par k = p" | "par k = par p" "par k \<noteq> p" | "par k \<noteq> p" "par k \<noteq> par p" by blast
      then show ?thesis
      proof cases
        case 1 then show ?thesis using B [OF k(1,2) 1] True False k pp by (simp add: nth)
      next
        case 2 then show ?thesis using kk sw False k by (auto simp: nth intro: le_trans)
      next
        case 3 then show ?thesis using kk False k by (simp add: nth)
      qed
    qed
    have B': "le (?e ! par (par p)) (?e ! k)" if k: "k < fill" "0 < k" "par k = par p" "0 < par p" for k
    proof -
      have up: "le (e ! par (par p)) (e ! par p)" using A [of "par p"] less.prems(2) pp k(4) by simp
      have ne: "par (par p) \<noteq> par p" "par (par p) \<noteq> p" using par_less [OF k(4)] pp by auto
      show ?thesis
      proof (cases "k = p")
        case True
        then show ?thesis using up ne by (simp add: nth)
      next
        case False
        have "k \<noteq> par p" using par_less [OF k(2)] k(3) by auto
        moreover have "le (e ! par p) (e ! k)" using A [OF k(1,2) False] k(3) by simp
        ultimately show ?thesis using up ne False by (auto simp: nth intro: le_trans)
      qed
    qed
    have "fill \<le> length ?e" "par p < fill" using less.prems pp by auto
    then have IH: "heap_from cmp 0 fill e' \<and> mset e' = mset ?e \<and> length e' = length ?e \<and>
        (\<forall>k. fill \<le> k \<longrightarrow> e' ! k = ?e ! k) \<and> q \<le> par p \<and> e' ! q = ?e ! par p \<and>
        (0 < par p \<and> cmp (?e ! par (par p)) (?e ! par p) > 0 \<longrightarrow> q < par p)"
      using A' B' r by (intro less.IH [OF pp]) simp_all
    have "?e ! k = e ! k" if "fill \<le> k" for k using that less.prems(2) pp by (simp add: nth)
    note keep = this
    have same: "mset ?e = mset e" "length ?e = length e" "?e ! par p = e ! p" using l pp by (simp_all add: nth)
    have "\<forall>k. fill \<le> k \<longrightarrow> e' ! k = e ! k" using IH keep by metis
    moreover have "q \<le> p" "q < p" using IH pp by linarith+
    ultimately show ?thesis using IH unfolding same by blast
  next
    case False
    then have "reheapup_loop cmp e p = (e, p)"
      by (subst reheapup_loop.simps) (auto simp: Let_def par_def)
    then have e: "e' = e" "q = p" using less.prems(5) by simp_all
    have "le (e ! par k) (e ! k)" if "k < fill" "0 < k" for k
      using A [OF that] False that by (cases "k = p") (auto simp: cmp_sign)
    then show ?thesis using False by (simp add: e heap_from_le)
  qed
qed

lemma sift_root_ok:
  assumes "fill \<le> length e" "heap_from cmp (Suc i) fill e"
  shows "heap_from cmp i fill (sift_loop cmp fill e i) \<and>
    mset (sift_loop cmp fill e i) = mset e \<and> length (sift_loop cmp fill e i) = length e \<and>
    (\<forall>k. fill \<le> k \<longrightarrow> sift_loop cmp fill e i ! k = e ! k)"
proof (rule sift_loop_ok)
  fix k assume "k < fill" "0 < k" "i \<le> par k" "par k \<noteq> i"
  then show "le (e ! par k) (e ! k)" using assms(2) by (simp add: heap_from_le)
next
  fix k assume i: "0 < i" "i \<le> par i"
  show "le (e ! par i) (e ! k)" using par_less [OF i(1)] i(2) by linarith
qed (use assms in auto)

text \<open>The element at the root is a least one.\<close>

lemma heap_root_least: "heap_from cmp 0 fill e \<Longrightarrow> k < fill \<Longrightarrow> le (e ! 0) (e ! k)"
proof (induction k rule: less_induct)
  case (less k)
  show ?case
  proof (cases "k = 0")
    case False
    then have "par k < k" by (simp add: par_less)
    then have "le (e ! 0) (e ! par k)" "le (e ! par k) (e ! k)"
      using less False by (auto simp: heap_from_le)
    then show ?thesis by (rule le_trans)
  qed simp
qed

end

section \<open>The priority-queue contract\<close>

definition heap_inv :: "'a heap \<Rightarrow> bool" where
  "heap_inv hp \<longleftrightarrow> cmp_order (hp_cmp hp) \<and> hp_size hp < 2 ^ 31 \<and> hp_fill hp \<le> hp_size hp \<and> length (hp_elem hp) = hp_size hp \<and>
     heap_from (hp_cmp hp) 0 (hp_fill hp) (hp_elem hp)"

definition heap_items :: "'a heap \<Rightarrow> 'a multiset" where
  "heap_items hp = mset (take (hp_fill hp) (hp_elem hp))"

lemma mset_take_same:
  assumes "mset e' = mset e" "length e' = length e" "\<forall>k. n \<le> k \<longrightarrow> e' ! k = e ! k"
  shows "mset (take n e') = mset (take n e)"
proof -
  have "drop n e' = drop n e" using assms by (intro nth_equalityI) simp_all
  then show ?thesis using assms(1)
    by (metis add_right_cancel append_take_drop_id mset_append)
qed

lemma sift_inv:
  assumes "cmp_order (hp_cmp hp)" "hp_fill hp \<le> hp_size hp" "length (hp_elem hp) = hp_size hp"
    "heap_from (hp_cmp hp) (Suc i) (hp_fill hp) (hp_elem hp)"
  shows "heap_from (hp_cmp hp) i (hp_fill hp) (hp_elem (sift hp i)) \<and>
    length (hp_elem (sift hp i)) = hp_size hp \<and> heap_items (sift hp i) = heap_items hp \<and>
    (\<forall>k. hp_fill hp \<le> k \<longrightarrow> hp_elem (sift hp i) ! k = hp_elem hp ! k) \<and>
    hp_fill (sift hp i) = hp_fill hp \<and> hp_size (sift hp i) = hp_size hp \<and>
    hp_cmp (sift hp i) = hp_cmp hp \<and> hp_mm (sift hp i) = hp_mm hp"
proof (cases "i \<ge> hp_fill hp")
  case True
  have "heap_from (hp_cmp hp) i (hp_fill hp) (hp_elem hp)"
    unfolding heap_from_def
  proof (intro allI impI)
    fix k assume k: "k < hp_fill hp" "0 < k \<and> i \<le> par k"
    then show "hp_cmp hp (hp_elem hp ! par k) (hp_elem hp ! k) \<le> 0"
      using True par_less [of k] by linarith
  qed
  then show ?thesis using True assms by (simp add: sift_def)
next
  case False
  from cmp_order.sift_root_ok [OF assms(1) _ assms(4)] assms(2,3)
  show ?thesis using False assms
    by (auto simp: sift_def heap_items_def intro: mset_take_same)
qed

lemma hp_init_loop_ok:
  assumes "cmp_order (hp_cmp hp)" "hp_size hp < 2 ^ 31" "hp_fill hp \<le> hp_size hp" "length (hp_elem hp) = hp_size hp" "hp_fill hp \<le> HP_MAX"
    "heap_from (hp_cmp hp) n (hp_fill hp) (hp_elem hp)"
  shows "\<exists>hp'. hp_init_loop hp n = Ok hp' \<and> heap_inv hp' \<and> heap_items hp' = heap_items hp \<and> hp_fill hp' = hp_fill hp \<and> hp_cmp hp' = hp_cmp hp"
  using assms
proof (induction n arbitrary: hp)
  case 0
  then show ?case by (simp add: heap_inv_def)
next
  case (Suc n)
  have "hp_init_loop hp (Suc n) = hp_init_loop (sift hp n) n" using Suc.prems(5) by (simp add: reheapdown_sift)
  then show ?case using sift_inv [OF Suc.prems(1,3,4,6)] Suc.IH [of "sift hp n"] Suc.prems by simp
qed

lemma hp_init_ok:
  assumes "cmp_order cmp" "length e = sz" "sz < 2 ^ 31" "fill \<le> HP_MAX"
  shows "\<exists>hp. hp_init e (int sz) (int fill) cmp mm = Ok hp \<and> heap_inv hp \<and> heap_items hp = mset (take (min fill sz) e)
    \<and> hp_fill hp = min fill sz \<and> hp_cmp hp = cmp"
proof (cases "fill = 0")
  case True
  then show ?thesis using assms by (simp add: hp_init_def heap_inv_def heap_items_def heap_from_def)
next
  case False
  define hp where "hp = \<lparr>hp_size = sz, hp_fill = min fill sz, hp_elem = e, hp_cmp = cmp, hp_mm = mm\<rparr>"
  have "heap_from (hp_cmp hp) (Suc (hp_fill hp div 2)) (hp_fill hp) (hp_elem hp)"
    by (auto simp: heap_from_def par_def)
  from hp_init_loop_ok [OF _ _ _ _ _ this] have "\<exists>hp'. hp_init_loop hp (Suc (hp_fill hp div 2)) = Ok hp' \<and> heap_inv hp' \<and>
      heap_items hp' = heap_items hp \<and> hp_fill hp' = hp_fill hp \<and> hp_cmp hp' = hp_cmp hp"
    using assms by (simp add: hp_def)
  moreover have "hp_init e (int sz) (int fill) cmp mm = hp_init_loop hp (Suc (hp_fill hp div 2))"
  proof (cases "fill > sz")
    case True
    then show ?thesis using False by (simp add: hp_init_def hp_def Let_def del: hp_init_loop.simps)
  next
    case le: False
    then show ?thesis using False by (simp add: hp_init_def hp_def Let_def min_def del: hp_init_loop.simps)
  qed
  moreover have "heap_items hp = mset (take (min fill sz) e)" "hp_fill hp = min fill sz" "hp_cmp hp = cmp" by (simp_all add: heap_items_def hp_def)
  ultimately show ?thesis by simp
qed

section \<open>Adding, extracting, removing, finding\<close>

lemma hp_extract_ok:
  assumes inv: "heap_inv hp" and ne: "hp_fill hp \<noteq> 0" and mx: "hp_fill hp \<le> HP_MAX"
  shows "\<exists>hp' x. hp_extract hp = Ok (hp', Some x) \<and> hp_fill hp' \<le> HP_MAX \<and> heap_inv hp' \<and> heap_items hp = add_mset x (heap_items hp') \<and>
    (\<forall>y \<in># heap_items hp. hp_cmp hp x y \<le> 0) \<and> hp_cmp hp' = hp_cmp hp"
proof -
  define e l where "e = hp_elem hp" and "l = hp_fill hp - 1"
  have ord: "cmp_order (hp_cmp hp)" and fl: "hp_fill hp = Suc l" "l < length e" "hp_fill hp \<le> hp_size hp"
    "length e = hp_size hp" "hp_size hp < 2 ^ 31" and hf: "heap_from (hp_cmp hp) 0 (Suc l) e"
    using inv ne by (auto simp: heap_inv_def e_def l_def)
  define hp1 where "hp1 = hp\<lparr>hp_elem := aswap e 0 l, hp_fill := l\<rparr>"
  have "0 < length e" using fl(2) by linarith
  note nth = nth_aswap [OF this fl(2)]
  have "heap_from (hp_cmp hp1) (Suc 0) (hp_fill hp1) (hp_elem hp1)"
    unfolding heap_from_def
  proof (intro allI impI)
    fix k assume k: "k < hp_fill hp1" "0 < k \<and> Suc 0 \<le> par k"
    then have "par k < k" "k < l" by (simp_all add: par_less hp1_def)
    then show "hp_cmp hp1 (hp_elem hp1 ! par k) (hp_elem hp1 ! k) \<le> 0"
      using k hf by (simp add: hp1_def nth heap_from_def)
  qed
  from sift_inv [OF _ _ _ this] have r: "heap_inv (sift hp1 0)"
    "heap_items (sift hp1 0) = heap_items hp1" "hp_cmp (sift hp1 0) = hp_cmp hp" "hp_fill (sift hp1 0) \<le> HP_MAX"
    using ord fl mx by (simp_all add: hp1_def heap_inv_def)
  have "take (Suc l) (aswap e 0 l) = take l (aswap e 0 l) @ [e ! 0]"
    using fl(2) nth [of l] by (simp add: take_Suc_conv_app_nth)
  moreover have "mset (take (Suc l) (aswap e 0 l)) = mset (take (Suc l) e)"
    by (rule mset_take_same) (use fl(2) \<open>0 < length e\<close> in \<open>auto simp: nth\<close>)
  ultimately have "heap_items hp = add_mset (e ! 0) (heap_items hp1)"
    using fl(1) by (simp add: heap_items_def hp1_def e_def)
  moreover have "hp_cmp hp (e ! 0) y \<le> 0" if "y \<in># heap_items hp" for y
  proof -
    obtain k where "k < Suc l" "y = e ! k"
      using \<open>y \<in># heap_items hp\<close> fl by (auto simp: heap_items_def in_set_conv_nth e_def)
    then show ?thesis
      using cmp_order.heap_root_least [OF ord hf, of k] by (simp add: cmp_order.le_def [OF ord])
  qed
  moreover have "hp_extract hp = Ok (sift hp1 0, Some (e ! 0))"
    using ne mx by (simp add: hp_extract_def Let_def hp1_def e_def l_def reheapdown_sift)
  ultimately show ?thesis using r by auto
qed

lemma hp_extract_empty: "hp_fill hp = 0 \<Longrightarrow> hp_extract hp = Ok (hp, None)"
  by (simp add: hp_extract_def)

text \<open>A manager's answer has as many cells as were asked for.\<close>

definition mm_ok :: "'a heap \<Rightarrow> bool" where
  "mm_ok hp \<longleftrightarrow> (\<forall>f n new. hp_mm hp = Some f \<longrightarrow> f n = Some new \<longrightarrow> length new = n)"

lemma hp_push_ok:
  assumes inv: "heap_inv hp" and room: "hp_fill hp < hp_size hp"
    and r: "reheapup (hp\<lparr>hp_elem := (hp_elem hp)[hp_fill hp := x], hp_fill := hp_fill hp + 1\<rparr>) (hp_fill hp) = (hp', p)"
  shows "heap_inv hp' \<and> heap_items hp' = add_mset x (heap_items hp) \<and> hp_cmp hp' = hp_cmp hp \<and>
    p < hp_fill hp' \<and> hp_elem hp' ! p = x"
proof -
  define n e where "n = hp_fill hp" and "e = (hp_elem hp)[n := x]"
  have ord: "cmp_order (hp_cmp hp)" and l: "length e = hp_size hp" "n < length e"
    and hf: "heap_from (hp_cmp hp) 0 n (hp_elem hp)"
    using inv room by (auto simp: heap_inv_def e_def n_def)
  obtain e' where e': "reheapup_loop (hp_cmp hp) e n = (e', p)" "hp' = hp\<lparr>hp_elem := e', hp_fill := n + 1\<rparr>"
    using r by (auto simp: reheapup_def e_def n_def split: prod.splits)
  have A: "cmp_order.le (hp_cmp hp) (e ! par k) (e ! k)" if "k < n + 1" "0 < k" "k \<noteq> n" for k
    using hf that par_less [OF that(2)] by (simp add: heap_from_def cmp_order.le_def [OF ord] e_def)
  have B: "cmp_order.le (hp_cmp hp) (e ! par n) (e ! k)" if "k < n + 1" "0 < k" "par k = n" "0 < n" for k
    using par_less [OF that(2)] that by simp
  have ok: "heap_from (hp_cmp hp) 0 (n + 1) e' \<and> mset e' = mset e \<and> length e' = length e \<and>
    (\<forall>k. n + 1 \<le> k \<longrightarrow> e' ! k = e ! k) \<and> p \<le> n \<and> e' ! p = e ! n \<and>
    (0 < n \<and> hp_cmp hp (e ! par n) (e ! n) > 0 \<longrightarrow> p < n)"
    using A B l(2) e'(1) by (intro cmp_order.reheapup_loop_ok [OF ord, of "n + 1" e n e' p]) simp_all
  then have "mset (take (n + 1) e') = mset (take (n + 1) e)" by (intro mset_take_same) simp_all
  also have "take (n + 1) e = take n (hp_elem hp) @ [x]"
    using l by (simp add: e_def take_Suc_conv_app_nth)
  finally show ?thesis
    using ok inv room l by (auto simp: e'(2) heap_inv_def heap_items_def n_def e_def)
qed

lemma hp_add_ok:
  assumes inv: "heap_inv hp" and mm: "mm_ok hp" and r: "hp_add hp x = Some (hp', p)"
  shows "heap_inv hp' \<and> heap_items hp' = add_mset x (heap_items hp) \<and> hp_cmp hp' = hp_cmp hp \<and>
    p < hp_fill hp' \<and> hp_elem hp' ! p = x"
proof (cases "hp_fill hp = hp_size hp")
  case False
  have room: "hp_fill hp < hp_size hp" using False inv by (simp add: heap_inv_def)
  show ?thesis by (rule hp_push_ok [OF inv room]) (use r False in \<open>simp add: hp_add_def Let_def\<close>)
next
  case True
  define n where "n = (if hp_size hp = 0 then 32 else 2 * hp_size hp)"
  obtain f new where n: "hp_mm hp = Some f" "f (n - hp_size hp) = Some new" "n < 2 ^ 31"
    "reheapup ((hp\<lparr>hp_elem := hp_elem hp @ new, hp_size := n\<rparr>)\<lparr>hp_elem := (hp_elem hp @ new)[hp_fill hp := x],
       hp_fill := hp_fill hp + 1\<rparr>) (hp_fill hp) = (hp', p)"
    using r True unfolding hp_add_def n_def [symmetric] Let_def
    by (auto split: option.splits if_split_asm)
  define hp1 where "hp1 = hp\<lparr>hp_elem := hp_elem hp @ new, hp_size := n\<rparr>"
  have "length new = n - hp_size hp" "hp_size hp < n" using mm n(1,2) by (auto simp: mm_ok_def n_def)
  moreover have "heap_from (hp_cmp hp) 0 (hp_fill hp) (hp_elem hp @ new)"
    unfolding heap_from_def
  proof (intro allI impI)
    fix k assume "k < hp_fill hp" "0 < k \<and> 0 \<le> par k"
    then show "hp_cmp hp ((hp_elem hp @ new) ! par k) ((hp_elem hp @ new) ! k) \<le> 0"
      using inv par_less [of k] by (simp add: heap_inv_def heap_from_def nth_append)
  qed
  ultimately have inv1: "heap_inv hp1" "hp_fill hp1 < hp_size hp1"
    using inv True n(3) by (simp_all add: heap_inv_def hp1_def)
  have "reheapup (hp1\<lparr>hp_elem := (hp_elem hp1)[hp_fill hp1 := x], hp_fill := hp_fill hp1 + 1\<rparr>) (hp_fill hp1) = (hp', p)"
    using n(4) by (simp add: hp1_def)
  note pushed = hp_push_ok [OF inv1 this]
  have "heap_items hp1 = heap_items hp" "hp_cmp hp1 = hp_cmp hp"
    using inv True by (simp_all add: hp1_def heap_items_def heap_inv_def)
  with pushed show ?thesis by simp
qed

lemma hp_add_fails:
  "hp_add hp x = None \<longleftrightarrow> hp_fill hp = hp_size hp \<and>
    (case hp_mm hp of None \<Rightarrow> True
     | Some f \<Rightarrow> (let n = (if hp_size hp = 0 then 32 else 2 * hp_size hp) in n \<ge> 2 ^ 31 \<or> f (n - hp_size hp) = None))"
  by (auto simp: hp_add_def Let_def split: option.splits)

lemma hp_rem_ok:
  assumes inv: "heap_inv hp" and el: "el < hp_fill hp" and mx: "hp_fill hp \<le> HP_MAX"
  shows "\<exists>hp'. hp_rem hp (int el) = Ok (hp', Some (hp_elem hp ! el)) \<and> heap_inv hp' \<and>
    heap_items hp = add_mset (hp_elem hp ! el) (heap_items hp') \<and> hp_fill hp' < hp_size hp'"
proof -
  define e l where "e = hp_elem hp" and "l = hp_fill hp - 1"
  have ord: "cmp_order (hp_cmp hp)" and fl: "hp_fill hp = Suc l" "l < length e" "hp_fill hp \<le> hp_size hp"
    "length e = hp_size hp" "el \<le> l" "hp_size hp < 2 ^ 31" and hf: "heap_from (hp_cmp hp) 0 (Suc l) e"
    using inv el by (auto simp: heap_inv_def e_def l_def)
  note le = cmp_order.le_def [OF ord] and sgn = cmp_order.cmp_sign [OF ord]
  have ele: "el < length e" using fl by linarith
  note nth = nth_aswap [OF ele fl(2)]
  let ?e = "aswap e el l"
  define hp1 where "hp1 = hp\<lparr>hp_elem := ?e, hp_fill := l\<rparr>"
  obtain hp2 q where up: "reheapup hp1 el = (hp2, q)" by (metis surj_pair)
  define hp3 where "hp3 = (if q = el then sift hp2 el else hp2)"
  have "hp_fill hp2 \<le> HP_MAX" using up mx fl(1) by (auto simp: reheapup_def hp1_def split: if_splits prod.splits)
  then have rem: "hp_rem hp (int el) = Ok (hp3, Some (hp_elem hp3 ! l))"
    using el up by (simp add: hp_rem_def Let_def hp1_def e_def l_def hp3_def reheapdown_sift)
  have H: "cmp_order.le (hp_cmp hp) (e ! par k) (e ! k)" if "k \<le> l" "0 < k" for k
    using hf that by (simp add: heap_from_def le)
  have goal: "heap_from (hp_cmp hp) 0 l (hp_elem hp3) \<and> mset (hp_elem hp3) = mset ?e \<and>
    length (hp_elem hp3) = length ?e \<and> (\<forall>k. l \<le> k \<longrightarrow> hp_elem hp3 ! k = ?e ! k) \<and>
    hp_fill hp3 = l \<and> hp_size hp3 = hp_size hp \<and> hp_cmp hp3 = hp_cmp hp"
  proof (cases "el = l")
    case True
    then have "hp2 = hp1" using up by (simp add: reheapup_def hp1_def)
    moreover have "sift hp1 el = hp1" using True by (simp add: sift_def hp1_def)
    ultimately have "hp3 = hp1" by (simp add: hp3_def)
    moreover have "aswap e l l = e" by (simp add: aswap_def)
    moreover have "heap_from (hp_cmp hp) 0 l e" using hf by (simp add: heap_from_def)
    ultimately show ?thesis using True by (simp add: hp1_def)
  next
    case False
    then have el: "el < l" using fl by simp
    obtain e2 where e2: "reheapup_loop (hp_cmp hp) ?e el = (e2, q)" "hp2 = hp1\<lparr>hp_elem := e2\<rparr>"
      using up el by (auto simp: reheapup_def hp1_def split: prod.splits)
    have B: "cmp_order.le (hp_cmp hp) (?e ! par el) (?e ! k)" if k: "k < l" "0 < k" "par k = el" "0 < el" for k
    proof -
      have "cmp_order.le (hp_cmp hp) (e ! par el) (e ! k)"
        using H [of el] H [of k] k el cmp_order.le_trans [OF ord] by (metis less_imp_le)
      moreover have "par el < el" "k \<noteq> el" using par_less [OF k(4)] par_less [OF k(2)] k(3) by auto
      ultimately show ?thesis using k el by (simp add: nth)
    qed
    have other: "cmp_order.le (hp_cmp hp) (?e ! par k) (?e ! k)" if k: "k < l" "0 < k" "k \<noteq> el" "par k \<noteq> el" for k
      using H [of k] k par_less [OF k(2)] by (simp add: nth)
    show ?thesis
    proof (cases "0 < el \<and> hp_cmp hp (?e ! par el) (?e ! el) > 0")
      case True
      have A: "cmp_order.le (hp_cmp hp) (?e ! par k) (?e ! k)" if k: "k < l" "0 < k" "k \<noteq> el" for k
      proof (cases "par k = el")
        case True
        have "cmp_order.le (hp_cmp hp) (?e ! el) (?e ! par el)"
          using \<open>0 < el \<and> _\<close> sgn(1) cmp_order.not_le [OF ord] by blast
        then show ?thesis using B [OF k(1,2) True] \<open>0 < el \<and> _\<close> True cmp_order.le_trans [OF ord] by blast
      qed (use other k in blast)
      have "heap_from (hp_cmp hp) 0 l e2 \<and> mset e2 = mset ?e \<and> length e2 = length ?e \<and>
        (\<forall>k. l \<le> k \<longrightarrow> e2 ! k = ?e ! k) \<and> q \<le> el \<and> e2 ! q = ?e ! el \<and>
        (0 < el \<and> hp_cmp hp (?e ! par el) (?e ! el) > 0 \<longrightarrow> q < el)"
        using A B fl el e2(1) by (intro cmp_order.reheapup_loop_ok [OF ord, of l ?e el e2 q]) simp_all
      then show ?thesis using True by (auto simp: hp3_def e2(2) hp1_def)
    next
      case False
      then have "reheapup_loop (hp_cmp hp) ?e el = (?e, el)"
        by (subst reheapup_loop.simps) (auto simp: Let_def par_def)
      then have q: "e2 = ?e" "q = el" using e2(1) by simp_all
      have A: "cmp_order.le (hp_cmp hp) (?e ! par k) (?e ! k)" if k: "k < l" "0 < k" "par k \<noteq> el" for k
      proof (cases "k = el")
        case True
        then show ?thesis using False k by (simp add: le)
      qed (use other k in blast)
      have "heap_from (hp_cmp hp) 0 l (sift_loop (hp_cmp hp) l ?e el) \<and>
        mset (sift_loop (hp_cmp hp) l ?e el) = mset ?e \<and> length (sift_loop (hp_cmp hp) l ?e el) = length ?e \<and>
        (\<forall>k. l \<le> k \<longrightarrow> sift_loop (hp_cmp hp) l ?e el ! k = ?e ! k)"
        using A B fl by (intro cmp_order.sift_loop_ok [OF ord]) simp_all
      then show ?thesis using el by (simp add: hp3_def q e2(2) hp1_def sift_def)
    qed
  qed
  have "mset (take l (hp_elem hp3)) = mset (take l ?e)" using goal by (intro mset_take_same) simp_all
  moreover have "mset (take (Suc l) ?e) = mset (take (Suc l) e)"
    by (rule mset_take_same) (use fl ele in \<open>auto simp: nth\<close>)
  moreover have "take (Suc l) ?e = take l ?e @ [e ! el]"
    using fl by (simp add: take_Suc_conv_app_nth nth)
  ultimately have "heap_items hp = add_mset (e ! el) (heap_items hp3)"
    using goal fl(1) by (simp add: heap_items_def e_def)
  moreover have "hp_elem hp3 ! l = e ! el" using goal fl by (simp add: nth)
  ultimately show ?thesis using goal ord fl rem by (auto simp: heap_inv_def e_def)
qed

lemma heap_items_size: "heap_inv hp \<Longrightarrow> size (heap_items hp) = hp_fill hp"
  by (simp add: heap_items_def heap_inv_def)

lemma hp_find_loop_ok:
  "(hp_find_loop cmp e d i n = -1 \<longleftrightarrow> (\<forall>k. i \<le> k \<and> k < i + n \<longrightarrow> cmp (e ! k) d \<noteq> 0)) \<and>
   (hp_find_loop cmp e d i n \<noteq> -1 \<longrightarrow> (\<exists>k. hp_find_loop cmp e d i n = int k \<and> i \<le> k \<and> k < i + n \<and> cmp (e ! k) d = 0))"
proof (induction n arbitrary: i)
  case (Suc n)
  show ?case
  proof (cases "cmp (e ! i) d = 0")
    case True then show ?thesis by auto
  next
    case False
    have "i \<le> k \<and> k < i + Suc n \<longleftrightarrow> k = i \<or> (i + 1 \<le> k \<and> k < i + 1 + n)" for k by auto
    then show ?thesis using Suc.IH [of "i + 1"] False by auto
  qed
qed simp

section \<open>Priority queues\<close>

text \<open>A client takes elements out until the queue is empty.\<close>

fun drain :: "('q \<Rightarrow> ('q \<times> 'a option) outcome) \<Rightarrow> nat \<Rightarrow> 'q \<Rightarrow> 'a list outcome" where
  "drain takeout 0 q = Ok []"
| "drain takeout (Suc n) q = obind (takeout q) (\<lambda>(q', r). case r of None \<Rightarrow> Ok []
     | Some x \<Rightarrow> obind (drain takeout n q') (\<lambda>xs. Ok (x # xs)))"

locale priority_queue =
  fixes inv :: "'q \<Rightarrow> bool"
    and items :: "'q \<Rightarrow> 'a multiset"
    and le :: "'a \<Rightarrow> 'a \<Rightarrow> bool"
    and takeout :: "'q \<Rightarrow> ('q \<times> 'a option) outcome"
  assumes takeout_empty: "inv q \<Longrightarrow> items q = {#} \<Longrightarrow> \<exists>q'. takeout q = Ok (q', None)"
    and takeout_least: "inv q \<Longrightarrow> items q \<noteq> {#} \<Longrightarrow> \<exists>q' x. takeout q = Ok (q', Some x) \<and> inv q' \<and>
      items q = add_mset x (items q') \<and> (\<forall>y \<in># items q. le x y)"
begin

lemma drain_empty: "inv q \<Longrightarrow> items q = {#} \<Longrightarrow> drain takeout n q = Ok []"
  using takeout_empty [of q] by (cases n) auto

lemma drain_sorted:
  "inv q \<Longrightarrow> size (items q) \<le> n \<Longrightarrow> \<exists>xs. drain takeout n q = Ok xs \<and> drain takeout (Suc n) q = Ok xs \<and>
     mset xs = items q \<and> sorted_wrt le xs"
proof (induction n arbitrary: q)
  case 0
  then show ?case using drain_empty [of q "Suc 0"] by simp
next
  case (Suc n)
  show ?case
  proof (cases "items q = {#}")
    case True
    then show ?thesis using drain_empty [OF Suc.prems(1)] by (intro exI [of _ "[]"]) (simp del: drain.simps)
  next
    case False
    obtain q' x where e: "takeout q = Ok (q', Some x)" "inv q'" "items q = add_mset x (items q')" "\<forall>y \<in># items q. le x y"
      using takeout_least [OF Suc.prems(1) False] by blast
    obtain xs where xs: "drain takeout n q' = Ok xs" "drain takeout (Suc n) q' = Ok xs" "mset xs = items q'" "sorted_wrt le xs"
      using Suc.IH [OF e(2)] Suc.prems(2) e(3) by auto
    have "le x y" if "y \<in> set xs" for y using e(3,4) that xs(3) by (metis insert_iff set_mset_add_mset_insert set_mset_mset)
    then show ?thesis using xs by (simp add: e(1,3))
  qed
qed

end

interpretation hp: priority_queue "\<lambda>hp. heap_inv hp \<and> hp_fill hp \<le> HP_MAX \<and> hp_cmp hp = cmp" heap_items
    "\<lambda>x y. cmp x y \<le> 0" hp_extract
  for cmp :: "'a \<Rightarrow> 'a \<Rightarrow> int"
proof unfold_locales
  fix q :: "'a heap" assume inv: "heap_inv q \<and> hp_fill q \<le> HP_MAX \<and> hp_cmp q = cmp"
  have z: "heap_items q = {#} \<longleftrightarrow> hp_fill q = 0"
    using inv by (auto simp: heap_items_def heap_inv_def)
  show "heap_items q = {#} \<Longrightarrow> \<exists>q'. hp_extract q = Ok (q', None)"
    by (simp add: z hp_extract_empty)
  show "heap_items q \<noteq> {#} \<Longrightarrow> \<exists>q' x. hp_extract q = Ok (q', Some x) \<and>
      (heap_inv q' \<and> hp_fill q' \<le> HP_MAX \<and> hp_cmp q' = cmp) \<and>
      heap_items q = add_mset x (heap_items q') \<and> (\<forall>y \<in># heap_items q. cmp x y \<le> 0)"
    using hp_extract_ok [of q] inv unfolding z by auto
qed

section \<open>Properties\<close>

text \<open>The queue order of a concrete comparison, for the witnesses.\<close>

lemma cmp_order_diff: "cmp_order (\<lambda>x y :: int. x - y)"
  by unfold_locales auto

text \<open>C27: Building a heap with \<open>hp_init\<close> from at most 2^30 elements and taking the elements out
  with \<open>hp_extract\<close> until none is left never overflows an \<open>int\<close> position and yields the elements,
  each exactly once, in ascending order; \<open>hp_extract\<close> on the empty heap returns NULL.  (From more
  elements \<open>hp_init\<close> and \<open>hp_extract\<close> may sift from a position whose child's index overflows.)\<close>

theorem hp_drain_sorts:
  assumes "cmp_order cmp" "length e = sz" "sz < 2 ^ 31" "fill \<le> HP_MAX"
  shows "\<exists>hp xs. hp_init e (int sz) (int fill) cmp mm = Ok hp \<and> hp_fill hp = min fill sz \<and>
    drain hp_extract (min fill sz) hp = Ok xs \<and> drain hp_extract (Suc (min fill sz)) hp = Ok xs \<and>
    mset xs = mset (take fill e) \<and> sorted_wrt (\<lambda>x y. cmp x y \<le> 0) xs"
proof -
  obtain hp where hp: "hp_init e (int sz) (int fill) cmp mm = Ok hp" "heap_inv hp"
    "heap_items hp = mset (take (min fill sz) e)" "hp_fill hp = min fill sz" "hp_cmp hp = cmp"
    using hp_init_ok [OF assms] by blast
  have "heap_inv hp \<and> hp_fill hp \<le> HP_MAX \<and> hp_cmp hp = cmp" "size (heap_items hp) \<le> min fill sz"
    using hp assms by auto
  from hp.drain_sorted [OF this] have "\<exists>xs. drain hp_extract (min fill sz) hp = Ok xs \<and>
    drain hp_extract (Suc (min fill sz)) hp = Ok xs \<and> mset xs = heap_items hp \<and> sorted_wrt (\<lambda>x y. cmp x y \<le> 0) xs" .
  moreover have "take (min fill sz) e = take fill e" using assms(2) by (simp add: min_def)
  ultimately show ?thesis using hp by simp
qed

lemma hp_drain_sorts_witness:
  "\<exists>hp. hp_init [5, 1, 4, 1] 4 4 (\<lambda>x y :: int. x - y) None = Ok hp \<and> drain hp_extract 4 hp = Ok [1, 1, 4, 5]"
proof -
  obtain hp xs where r: "hp_init [5, 1, 4, 1] 4 4 (\<lambda>x y :: int. x - y) None = Ok hp" "drain hp_extract 4 hp = Ok xs"
    "mset xs = mset [5, 1, 4, 1]" "sorted_wrt (\<lambda>x y. x - y \<le> (0 :: int)) xs"
    using hp_drain_sorts [OF cmp_order_diff, of "[5, 1, 4, 1]" 4 4 None] by (auto simp: HP_MAX_def)
  have "sorted xs" "mset xs = mset [1, 1, 4, 5]" using r(3,4) by simp_all
  then have "xs = sort [1, 1, 4, 5]" by (intro properties_for_sort [symmetric]) simp_all
  then show ?thesis using r by simp
qed

text \<open>C32: \<open>hp_add\<close> that succeeds, growing the array when it is full, puts the element at the
  position it reports and keeps the heap in order; on a heap of at most 2^30 elements \<open>hp_rem\<close> of
  any position of the result returns the element stored there and leaves a heap in order that
  holds exactly the other elements.  \<open>hp_rem\<close> of a position past the last gives NULL and changes
  nothing, of a negative one aborts.  \<open>hp_add\<close> fails only on a full heap whose array cannot be
  extended.\<close>

theorem hp_add_rem_ok:
  assumes "heap_inv hp" "mm_ok hp" "hp_add hp x = Some (hp1, p)"
  shows "heap_inv hp1 \<and> heap_items hp1 = add_mset x (heap_items hp) \<and> hp_fill hp1 = Suc (hp_fill hp) \<and>
    p < hp_fill hp1 \<and> hp_elem hp1 ! p = x \<and>
    (hp_fill hp1 \<le> HP_MAX \<longrightarrow> (\<forall>el < hp_fill hp1. \<exists>hp2. hp_rem hp1 (int el) = Ok (hp2, Some (hp_elem hp1 ! el)) \<and>
       heap_inv hp2 \<and> heap_items hp1 = add_mset (hp_elem hp1 ! el) (heap_items hp2))) \<and>
    (\<forall>el. int (hp_fill hp1) \<le> el \<longrightarrow> hp_rem hp1 el = Ok (hp1, None)) \<and> (\<forall>el < 0. hp_rem hp1 el = Abort) \<and>
    (\<forall>y. hp_add hp1 y = None \<longleftrightarrow> hp_fill hp1 = hp_size hp1 \<and>
       (case hp_mm hp1 of None \<Rightarrow> True
        | Some f \<Rightarrow> (let n = (if hp_size hp1 = 0 then 32 else 2 * hp_size hp1) in n \<ge> 2 ^ 31 \<or> f (n - hp_size hp1) = None)))"
proof -
  note add = hp_add_ok [OF assms]
  moreover have "hp_fill hp1 = Suc (hp_fill hp)"
  proof -
    have "heap_inv hp1" "heap_items hp1 = add_mset x (heap_items hp)" using add by blast+
    then show ?thesis by (metis assms(1) heap_items_size size_add_mset)
  qed
  moreover have "\<exists>hp2. hp_rem hp1 (int el) = Ok (hp2, Some (hp_elem hp1 ! el)) \<and> heap_inv hp2 \<and>
      heap_items hp1 = add_mset (hp_elem hp1 ! el) (heap_items hp2)" if "el < hp_fill hp1" "hp_fill hp1 \<le> HP_MAX" for el
    using hp_rem_ok [of hp1 el] add that by blast
  moreover have "hp_rem hp1 el = Ok (hp1, None)" if "int (hp_fill hp1) \<le> el" for el
    using that by (simp add: hp_rem_def le_nat_iff)
  moreover have "hp_rem hp1 el = Abort" if "el < 0" for el
    using that by (simp add: hp_rem_def)
  ultimately show ?thesis by (simp only: hp_add_fails) simp
qed

definition demo_heap :: "int heap" where
  "demo_heap = \<lparr>hp_size = 1, hp_fill = 1, hp_elem = [7], hp_cmp = (\<lambda>x y. x - y), hp_mm = Some (\<lambda>n. Some (replicate n 0))\<rparr>"

lemma hp_add_rem_ok_witness:
  "\<exists>hp1 p hp2. hp_add demo_heap 3 = Some (hp1, p) \<and> hp_elem hp1 ! p = 3 \<and> heap_items hp1 = {#3, 7#} \<and>
    hp_rem hp1 (int p) = Ok (hp2, Some 3) \<and> heap_items hp2 = {#7#}"
proof -
  have inv: "heap_inv demo_heap" "mm_ok demo_heap"
    using cmp_order_diff by (auto simp: heap_inv_def demo_heap_def heap_from_def par_def mm_ok_def)
  obtain hp1 p where r: "hp_add demo_heap 3 = Some (hp1, p)"
    by (cases "reheapup (demo_heap\<lparr>hp_size := 2, hp_elem := [7, 3], hp_fill := Suc (Suc 0)\<rparr>) (Suc 0)")
       (simp add: hp_add_def demo_heap_def)
  have d: "heap_items demo_heap = {#7#}" "hp_fill demo_heap = 1" by (simp_all add: heap_items_def demo_heap_def)
  note ok = hp_add_rem_ok [OF inv r]
  have e: "p < hp_fill hp1" "hp_elem hp1 ! p = 3" "heap_items hp1 = {#3, 7#}" "hp_fill hp1 \<le> HP_MAX"
    using ok by (simp_all add: d HP_MAX_def)
  obtain hp2 where "hp_rem hp1 (int p) = Ok (hp2, Some (hp_elem hp1 ! p))" "heap_items hp1 = add_mset (hp_elem hp1 ! p) (heap_items hp2)"
    using ok e by blast
  with r e show ?thesis by simp
qed

end
