(* ===== verification/Sort.thy ===== *)
theory Sort
  imports ArrayHeap
begin

text \<open>
  The array sorts of src/sort.c: insertion, selection and heap sort, with their entry points.

  An array of \<open>nelem\<close> elements of \<open>esize\<close> bytes is the list of its elements and a pointer to an
  element is its index; \<open>SWAP_elements\<close> justifies this for the loops of the macro SWAP.  A routine called on a sub-array is applied with \<open>on_sub\<close> to that piece of the list.
\<close>

section \<open>Exchanging two elements\<close>

text \<open>
  SWAPTYPE selects from the element size and the alignment of the array whether SWAP moves a
  pointer, longs or bytes.  The array is here the list of its bytes, \<open>a\<close> and \<open>b\<close> are offsets and
  \<open>u\<close> is the number of bytes moved at a time.
\<close>

datatype swaptype = PTRSWAP | BULKLONG | BULKBYTE

definition SWAPTYPE :: "u64 \<Rightarrow> nat \<Rightarrow> swaptype" where
  "SWAPTYPE addr esize =
     (if esize = 8 \<and> addr mod 8 = 0 then PTRSWAP
      else if esize mod 8 = 0 \<and> addr mod 8 = 0 then BULKLONG
      else BULKBYTE)"

definition bytes_at :: "'c list \<Rightarrow> nat \<Rightarrow> nat \<Rightarrow> 'c list" where
  "bytes_at mem a u = take u (drop a mem)"

definition store_at :: "'c list \<Rightarrow> nat \<Rightarrow> 'c list \<Rightarrow> 'c list" where
  "store_at mem a bs = take a mem @ bs @ drop (a + length bs) mem"

fun swap_loop :: "nat \<Rightarrow> 'c list \<Rightarrow> nat \<Rightarrow> nat \<Rightarrow> nat \<Rightarrow> 'c list" where
  "swap_loop u mem a b 0 = mem"
| "swap_loop u mem a b (Suc n) =
     (let t = bytes_at mem a u;
          mem = store_at mem a (bytes_at mem b u);
          mem = store_at mem b t
      in swap_loop u mem (a + u) (b + u) n)"

definition SWAP :: "swaptype \<Rightarrow> nat \<Rightarrow> 'c list \<Rightarrow> nat \<Rightarrow> nat \<Rightarrow> 'c list" where
  "SWAP ty esize mem a b =
     (case ty of PTRSWAP \<Rightarrow> swap_loop 8 mem a b 1
      | BULKLONG \<Rightarrow> swap_loop 8 mem a b (esize div 8)
      | BULKBYTE \<Rightarrow> swap_loop 1 mem a b esize)"

section \<open>Insertion and selection sort\<close>

fun isort_inner :: "('a \<Rightarrow> 'a \<Rightarrow> int) \<Rightarrow> 'a list \<Rightarrow> nat \<Rightarrow> 'a list" where
  "isort_inner cmp xs 0 = xs"
| "isort_inner cmp xs (Suc tmp) =
     (if cmp (xs ! tmp) (xs ! Suc tmp) > 0 then isort_inner cmp (aswap xs tmp (Suc tmp)) tmp else xs)"

definition isort_i :: "('a \<Rightarrow> 'a \<Rightarrow> int) \<Rightarrow> 'a list \<Rightarrow> 'a list" where
  "isort_i cmp xs = fold (\<lambda>p1 xs. isort_inner cmp xs p1) [1..<length xs] xs"

definition ssort_min :: "('a \<Rightarrow> 'a \<Rightarrow> int) \<Rightarrow> 'a list \<Rightarrow> nat \<Rightarrow> nat" where
  "ssort_min cmp xs p1 =
     fold (\<lambda>p2 mn. if cmp (xs ! mn) (xs ! p2) > 0 then p2 else mn) [p1 + 1..<length xs] p1"

definition ssort_i :: "('a \<Rightarrow> 'a \<Rightarrow> int) \<Rightarrow> 'a list \<Rightarrow> 'a list" where
  "ssort_i cmp xs =
     fold (\<lambda>p1 xs. let mn = ssort_min cmp xs p1 in if mn \<noteq> p1 then aswap xs p1 mn else xs)
       [0..<length xs - 1] xs"

section \<open>Heap sort\<close>

function reheap_down_loop :: "('a \<Rightarrow> 'a \<Rightarrow> int) \<Rightarrow> nat \<Rightarrow> 'a list \<Rightarrow> nat \<Rightarrow> 'a list" where
  "reheap_down_loop cmp nelem xs pos =
     (if 2 * pos + 1 \<ge> nelem then xs
      else let cld = (if 2 * pos + 2 < nelem \<and> cmp (xs ! (2 * pos + 2)) (xs ! (2 * pos + 1)) > 0
                      then 2 * pos + 2 else 2 * pos + 1)
           in if cmp (xs ! pos) (xs ! cld) < 0 then reheap_down_loop cmp nelem (aswap xs pos cld) cld else xs)"
  by pat_completeness auto
termination by (relation "measure (\<lambda>(cmp, nelem, xs, pos). nelem - pos)") auto

declare reheap_down_loop.simps [simp del]

definition reheap_down :: "('a \<Rightarrow> 'a \<Rightarrow> int) \<Rightarrow> nat \<Rightarrow> 'a list \<Rightarrow> nat \<Rightarrow> 'a list" where
  "reheap_down cmp nelem xs pos = (if pos \<ge> nelem then xs else reheap_down_loop cmp nelem xs pos)"

fun hsort_loop :: "('a \<Rightarrow> 'a \<Rightarrow> int) \<Rightarrow> nat \<Rightarrow> 'a list \<Rightarrow> 'a list" where
  "hsort_loop cmp nelem xs =
     (if nelem > 1
      then hsort_loop cmp (nelem - 1) (reheap_down cmp (nelem - 1) (aswap xs 0 (nelem - 1)) 0)
      else xs)"

declare hsort_loop.simps [simp del]

definition hsort_i :: "('a \<Rightarrow> 'a \<Rightarrow> int) \<Rightarrow> 'a list \<Rightarrow> 'a list" where
  "hsort_i cmp xs =
     hsort_loop cmp (length xs)
       (fold (\<lambda>i ys. reheap_down cmp (length xs) ys i) (rev [0..<length xs div 2 + 1]) xs)"

section \<open>Sub-arrays and the entry points\<close>

definition on_sub :: "nat \<Rightarrow> nat \<Rightarrow> ('a list \<Rightarrow> 'a list) \<Rightarrow> 'a list \<Rightarrow> 'a list" where
  "on_sub s n f xs = take s xs @ f (take n (drop s xs)) @ drop (s + n) xs"

text \<open>The guards every entry point has; the NULL pointers are \<open>None\<close>.\<close>

definition sort_guarded ::
  "(('a \<Rightarrow> 'a \<Rightarrow> int) \<Rightarrow> 'a list \<Rightarrow> 'a list) \<Rightarrow>
   'a list option \<Rightarrow> nat \<Rightarrow> nat \<Rightarrow> ('a \<Rightarrow> 'a \<Rightarrow> int) option \<Rightarrow> 'a list option" where
  "sort_guarded sort_i arr nelem esize cmp =
     (case (arr, cmp) of
        (Some xs, Some c) \<Rightarrow>
          if nelem \<le> 1 \<or> esize = 0 then arr else Some (on_sub 0 nelem (sort_i c) xs)
      | _ \<Rightarrow> arr)"

definition isort_array :: "'a list option \<Rightarrow> nat \<Rightarrow> nat \<Rightarrow> ('a \<Rightarrow> 'a \<Rightarrow> int) option \<Rightarrow> 'a list option" where
  "isort_array = sort_guarded isort_i"

definition ssort_array :: "'a list option \<Rightarrow> nat \<Rightarrow> nat \<Rightarrow> ('a \<Rightarrow> 'a \<Rightarrow> int) option \<Rightarrow> 'a list option" where
  "ssort_array = sort_guarded ssort_i"

definition hsort_array :: "'a list option \<Rightarrow> nat \<Rightarrow> nat \<Rightarrow> ('a \<Rightarrow> 'a \<Rightarrow> int) option \<Rightarrow> 'a list option" where
  "hsort_array = sort_guarded hsort_i"

section \<open>SWAP exchanges two elements\<close>

lemma length_store_at [simp]: "a + length bs \<le> length mem \<Longrightarrow> length (store_at mem a bs) = length mem"
  by (simp add: store_at_def)

lemma nth_store_at:
  "a + length bs \<le> length mem \<Longrightarrow> k < length mem \<Longrightarrow>
   store_at mem a bs ! k = (if a \<le> k \<and> k < a + length bs then bs ! (k - a) else mem ! k)"
  unfolding store_at_def by (rule nth_block_write)

lemma length_bytes_at [simp]: "a + u \<le> length mem \<Longrightarrow> length (bytes_at mem a u) = u"
  by (simp add: bytes_at_def)

lemma nth_bytes_at: "a + u \<le> length mem \<Longrightarrow> k < u \<Longrightarrow> bytes_at mem a u ! k = mem ! (a + k)"
  by (simp add: bytes_at_def)

lemma swap_loop_nth:
  assumes "a + u * n \<le> length mem" "b + u * n \<le> length mem" "a + w \<le> b \<or> b + w \<le> a" "u * n \<le> w"
  shows "length (swap_loop u mem a b n) = length mem \<and>
    (\<forall>k < length mem. swap_loop u mem a b n ! k =
      (if a \<le> k \<and> k < a + u * n then mem ! (b + (k - a))
       else if b \<le> k \<and> k < b + u * n then mem ! (a + (k - b)) else mem ! k))"
  using assms
proof (induction n arbitrary: mem a b w)
  case (Suc n)
  let ?m1 = "store_at mem a (bytes_at mem b u)"
  let ?m2 = "store_at ?m1 b (bytes_at mem a u)"
  have l: "a + u \<le> length mem" "b + u \<le> length mem" "a + u \<le> b \<or> b + u \<le> a" using Suc.prems by auto
  have m: "length ?m2 = length mem" "k < length mem \<Longrightarrow> ?m2 ! k = (if a \<le> k \<and> k < a + u then mem ! (b + (k - a))
      else if b \<le> k \<and> k < b + u then mem ! (a + (k - b)) else mem ! k)" for k
    using l by (auto simp: nth_store_at nth_bytes_at)
  have IH: "length (swap_loop u ?m2 (a + u) (b + u) n) = length ?m2 \<and>
    (\<forall>k < length ?m2. swap_loop u ?m2 (a + u) (b + u) n ! k =
      (if a + u \<le> k \<and> k < a + u + u * n then ?m2 ! (b + u + (k - (a + u)))
       else if b + u \<le> k \<and> k < b + u + u * n then ?m2 ! (a + u + (k - (b + u))) else ?m2 ! k))"
    by (rule Suc.IH [where w = "w - u"]) (use Suc.prems m(1) in auto)
  have step: "swap_loop u mem a b (Suc n) = swap_loop u ?m2 (a + u) (b + u) n" by (simp add: Let_def)
  define q where "q = u * n"
  have r: "a + (u + q) \<le> length mem" "b + (u + q) \<le> length mem" "a + w \<le> b \<or> b + w \<le> a" "u + q \<le> w"
    using Suc.prems by (simp_all add: q_def)
  have N: "swap_loop u mem a b (Suc n) ! k = (if a + u \<le> k \<and> k < a + u + q then ?m2 ! (b + u + (k - (a + u)))
       else if b + u \<le> k \<and> k < b + u + q then ?m2 ! (a + u + (k - (b + u))) else ?m2 ! k)" if "k < length mem" for k
    using IH that unfolding step q_def by (simp only: m(1))
  have "swap_loop u mem a b (Suc n) ! k =
      (if a \<le> k \<and> k < a + (u + q) then mem ! (b + (k - a))
       else if b \<le> k \<and> k < b + (u + q) then mem ! (a + (k - b)) else mem ! k)" if k: "k < length mem" for k
  proof -
    consider "a + u \<le> k" "k < a + u + q" | "b + u \<le> k" "k < b + u + q"
      | "\<not> (a + u \<le> k \<and> k < a + u + q)" "\<not> (b + u \<le> k \<and> k < b + u + q)" by linarith
    then show ?thesis
    proof cases
      case 1
      then have e: "b + u + (k - (a + u)) = b + (k - a)" and l: "b + (k - a) < length mem" using r by linarith+
      have "swap_loop u mem a b (Suc n) ! k = ?m2 ! (b + (k - a))" using N [OF k] 1 by (simp only: e) simp
      also have "\<dots> = mem ! (b + (k - a))" using m(2) [OF l] 1 r by (simp only:) (auto split: if_splits)
      finally show ?thesis using 1 r by simp
    next
      case 2
      then have e: "a + u + (k - (b + u)) = a + (k - b)" and l: "a + (k - b) < length mem"
        and n: "\<not> (a + u \<le> k \<and> k < a + u + q)" "\<not> (a \<le> k \<and> k < a + (u + q))" using r by linarith+
      have "swap_loop u mem a b (Suc n) ! k = ?m2 ! (a + (k - b))" using N [OF k] 2 n by (simp only: e) simp
      also have "\<dots> = mem ! (a + (k - b))" using m(2) [OF l] 2 r by (simp only:) (auto split: if_splits)
      finally show ?thesis using 2 n by (simp only: if_not_P n(2)) simp
    next
      case 3
      then have "swap_loop u mem a b (Suc n) ! k = ?m2 ! k" using N [OF k] by auto
      then show ?thesis using m(2) [OF k] 3 r by auto
    qed
  qed
  then show ?case using IH unfolding step by (simp add: m(1) q_def add.commute)
qed auto

lemma nth_concat_blocks:
  "\<forall>x \<in> set xs. length x = e \<Longrightarrow> i < length xs \<Longrightarrow> r < e \<Longrightarrow> concat xs ! (i * e + r) = xs ! i ! r"
proof (induction xs arbitrary: i)
  case (Cons x xs)
  then show ?case by (cases i) (auto simp: nth_append)
qed simp

lemma length_concat_blocks: "\<forall>x \<in> set xs. length x = e \<Longrightarrow> length (concat xs) = length xs * e"
  by (induction xs) auto

lemma concat_blocks_eqI:
  assumes "\<forall>x \<in> set xs. length x = e" "length ys = length xs * e"
    "\<And>i r. i < length xs \<Longrightarrow> r < e \<Longrightarrow> ys ! (i * e + r) = xs ! i ! r"
  shows "ys = concat xs"
proof (rule nth_equalityI)
  show "length ys = length (concat xs)" by (simp only: assms(2) length_concat_blocks [OF assms(1)])
  fix k assume "k < length ys"
  then have k: "k < length xs * e" using assms(2) by simp
  then have e: "0 < e" by (cases e) auto
  have "k div e < length xs" "k mod e < e" using k e by (simp_all add: less_mult_imp_div_less)
  then have "ys ! (k div e * e + k mod e) = concat xs ! (k div e * e + k mod e)"
    using assms(3) [of "k div e" "k mod e"] nth_concat_blocks [OF assms(1), of "k div e" "k mod e"] by (simp only:)
  then show "ys ! k = concat xs ! k" by (simp only: div_mult_mod_eq)
qed

lemma block_in_range: "(i :: nat) < n \<Longrightarrow> i * e + e \<le> n * e"
  by (metis Suc_leI add.commute mult_Suc mult_le_mono1)

lemma block_apart: "(i :: nat) \<noteq> j \<Longrightarrow> i * e + e \<le> j * e \<or> j * e + e \<le> i * e"
  by (metis block_in_range nat_neq_iff)

lemma in_block_iff: "r < e \<Longrightarrow> i * e \<le> k * e + r \<and> k * e + r < i * e + e \<longleftrightarrow> (i :: nat) = k"
proof -
  assume r: "r < e"
  show ?thesis
  proof (cases "i = k")
    case False
    then show ?thesis using block_apart [OF False, of e] r by auto
  qed (use r in auto)
qed

lemma SWAP_nth:
  assumes "ty = SWAPTYPE addr e" "0 < e" "a + e \<le> length mem" "b + e \<le> length mem" "a + e \<le> b \<or> b + e \<le> a"
  shows "length (SWAP ty e mem a b) = length mem \<and>
    (\<forall>k < length mem. SWAP ty e mem a b ! k =
      (if a \<le> k \<and> k < a + e then mem ! (b + (k - a))
       else if b \<le> k \<and> k < b + e then mem ! (a + (k - b)) else mem ! k))"
proof -
  have "\<exists>u n. u * n = e \<and> SWAP ty e mem a b = swap_loop u mem a b n"
  proof (cases ty)
    case PTRSWAP
    then have "e = 8" using assms(1) by (auto simp: SWAPTYPE_def split: if_splits)
    then show ?thesis using PTRSWAP by (intro exI [of _ 8] exI [of _ 1]) (simp add: SWAP_def)
  next
    case BULKLONG
    then have "8 * (e div 8) = e" using assms(1) by (auto simp: SWAPTYPE_def split: if_splits)
    then show ?thesis using BULKLONG by (intro exI [of _ 8] exI [of _ "e div 8"]) (simp add: SWAP_def)
  next
    case BULKBYTE
    then show ?thesis by (intro exI [of _ 1] exI [of _ e]) (simp add: SWAP_def)
  qed
  then obtain u n where "u * n = e" "SWAP ty e mem a b = swap_loop u mem a b n" by blast
  with swap_loop_nth [of a u n mem b e] assms show ?thesis by simp
qed

theorem SWAP_elements:
  assumes "0 < esize" "\<forall>x \<in> set xs. length x = esize" "i < length xs" "j < length xs" "i \<noteq> j"
  shows "SWAP (SWAPTYPE addr esize) esize (concat xs) (i * esize) (j * esize) = concat (aswap xs i j)"
proof (rule concat_blocks_eqI [where e = esize])
  note len = length_concat_blocks [OF assms(2)]
  note S = SWAP_nth [OF refl assms(1), of "i * esize" "concat xs" "j * esize" addr, unfolded len,
      OF block_in_range [OF assms(3)] block_in_range [OF assms(4)] block_apart [OF assms(5)]]
  have "set (aswap xs i j) = set xs" using assms(3,4) by (metis mset_aswap mset_eq_setD)
  then show "\<forall>x \<in> set (aswap xs i j). length x = esize" using assms(2) by simp
  show "length (SWAP (SWAPTYPE addr esize) esize (concat xs) (i * esize) (j * esize)) = length (aswap xs i j) * esize"
    using S by simp
  fix k r assume k: "k < length (aswap xs i j)" and r: "r < esize"
  then have "k * esize + r < length xs * esize" using block_in_range [of k "length xs" esize] by simp
  then show "SWAP (SWAPTYPE addr esize) esize (concat xs) (i * esize) (j * esize) ! (k * esize + r) = aswap xs i j ! k ! r"
    using S k r assms by (simp add: in_block_iff nth_aswap nth_concat_blocks)
qed

section \<open>The contract of a sort\<close>

text \<open>
  What the entry points rely on: the routine permutes the sub-array it is given and leaves it in
  order, whatever comparison is passed, as long as that is a total preorder.
\<close>

locale array_sorter =
  fixes sort_i :: "('a \<Rightarrow> 'a \<Rightarrow> int) \<Rightarrow> 'a list \<Rightarrow> 'a list"
  assumes sort_mset: "cmp_order cmp \<Longrightarrow> mset (sort_i cmp xs) = mset xs"
    and sort_sorted: "cmp_order cmp \<Longrightarrow> sorted_wrt (\<lambda>x y. cmp x y \<le> 0) (sort_i cmp xs)"
begin

lemma sort_length: "cmp_order cmp \<Longrightarrow> length (sort_i cmp xs) = length xs"
  using sort_mset by (metis size_mset)

lemma guarded_sorts:
  assumes "cmp_order cmp" "nelem \<le> length xs" "esize \<noteq> 0"
  shows "\<exists>ys. sort_guarded sort_i (Some xs) nelem esize (Some cmp) = Some ys \<and> mset ys = mset xs \<and>
    sorted_wrt (\<lambda>x y. cmp x y \<le> 0) (take nelem ys) \<and> drop nelem ys = drop nelem xs"
proof (cases "nelem \<le> 1")
  case True
  then have "sorted_wrt (\<lambda>x y. cmp x y \<le> 0) (take nelem xs)" by (cases nelem; cases xs) auto
  then show ?thesis using True by (simp add: sort_guarded_def)
next
  case False
  have l: "length (sort_i cmp (take nelem xs)) = nelem" using assms by (simp add: sort_length)
  then have "on_sub 0 nelem (sort_i cmp) xs = sort_i cmp (take nelem xs) @ drop nelem xs" by (simp add: on_sub_def)
  moreover have "mset (take nelem xs) + mset (drop nelem xs) = mset xs"
    by (metis append_take_drop_id mset_append)
  ultimately show ?thesis using False assms l by (simp add: sort_guarded_def sort_mset sort_sorted)
qed

lemma guarded_declines:
  "nelem \<le> 1 \<or> esize = 0 \<or> arr = None \<or> cmp = None \<Longrightarrow> sort_guarded sort_i arr nelem esize cmp = arr"
  by (auto simp: sort_guarded_def split: option.splits)

end

lemma aswap_commute: "aswap xs i j = aswap xs j i"
  by (cases "i = j") (simp_all add: aswap_def list_update_swap)

section \<open>Insertion sort\<close>

lemma isort_inner_split:
  "\<exists>as bs. ys = as @ bs \<and> isort_inner cmp (ys @ x # zs) (length ys) = as @ x # bs @ zs \<and>
     (\<forall>b \<in> set bs. cmp b x > 0) \<and> (as \<noteq> [] \<longrightarrow> cmp (List.last as) x \<le> 0)"
proof (induction ys arbitrary: zs rule: rev_induct)
  case (snoc y ys)
  have sw: "aswap (ys @ y # x # zs) (length ys) (Suc (length ys)) = ys @ x # y # zs"
    by (simp add: aswap_def nth_append list_update_append)
  show ?case
  proof (cases "cmp y x > 0")
    case True
    obtain as bs where "ys = as @ bs" "isort_inner cmp (ys @ x # y # zs) (length ys) = as @ x # bs @ y # zs"
      "\<forall>b \<in> set bs. cmp b x > 0" "as \<noteq> [] \<longrightarrow> cmp (List.last as) x \<le> 0"
      using snoc by blast
    note r = this
    have "isort_inner cmp ((ys @ [y]) @ x # zs) (length (ys @ [y])) = isort_inner cmp (ys @ x # y # zs) (length ys)"
      using True sw by (simp add: nth_append)
    then have "isort_inner cmp ((ys @ [y]) @ x # zs) (length (ys @ [y])) = as @ x # (bs @ [y]) @ zs"
      using r(2) by simp
    moreover have "ys @ [y] = as @ (bs @ [y])" "\<forall>b \<in> set (bs @ [y]). cmp b x > 0" using r True by auto
    ultimately show ?thesis using r(4) by blast
  next
    case False
    then have "isort_inner cmp ((ys @ [y]) @ x # zs) (length (ys @ [y])) = (ys @ [y]) @ x # [] @ zs"
      "ys @ [y] = (ys @ [y]) @ []" "\<forall>b \<in> set []. cmp b x > 0" "ys @ [y] \<noteq> [] \<longrightarrow> cmp (List.last (ys @ [y])) x \<le> 0"
      by (simp_all add: nth_append)
    then show ?thesis by blast
  qed
qed simp

context cmp_order
begin

definition isorted_upto :: "nat \<Rightarrow> 'a list \<Rightarrow> 'a list \<Rightarrow> bool" where
  "isorted_upto p xs ys \<longleftrightarrow> mset ys = mset xs \<and> sorted_wrt le (take p ys) \<and>
     (\<forall>z. filter (\<lambda>x. cmp x z = 0) ys = filter (\<lambda>x. cmp x z = 0) xs)"

lemma isort_inner_ok:
  assumes "isorted_upto p xs ws" "p < length ws"
  shows "isorted_upto (Suc p) xs (isort_inner cmp ws p)"
proof -
  define ys x zs where "ys = take p ws" and "x = ws ! p" and "zs = drop (Suc p) ws"
  have ws: "ws = ys @ x # zs" "length ys = p"
    using assms(2) by (simp_all add: ys_def x_def zs_def id_take_nth_drop [symmetric])
  obtain as bs where r: "ys = as @ bs" "isort_inner cmp ws p = as @ x # bs @ zs"
    "\<forall>b \<in> set bs. cmp b x > 0" "as \<noteq> [] \<longrightarrow> cmp (List.last as) x \<le> 0"
    using isort_inner_split [of ys cmp x zs] ws by metis
  have s: "sorted_wrt le (as @ bs)" using assms(1) ws by (simp add: isorted_upto_def r(1))
  have "le a x" if "a \<in> set as" for a
  proof -
    have "as = butlast as @ [List.last as]" using that by (metis append_butlast_last_id empty_iff list.set(1))
    then have "a = List.last as \<or> le a (List.last as)"
      using s that by (metis Un_iff empty_set list.set(2) set_append singleton_iff sorted_wrt_append)
    then show ?thesis using r(4) that le_trans by (auto simp: le_def)
  qed
  moreover have "le x b" if "b \<in> set bs" for b using r(3) that cmp_sign(1) not_le by blast
  ultimately have "sorted_wrt le (as @ x # bs)" using s by (auto simp: sorted_wrt_append)
  moreover have "filter (\<lambda>x. cmp x z = 0) (as @ x # bs @ zs) = filter (\<lambda>x. cmp x z = 0) ws" for z
  proof (cases "cmp x z = 0")
    case True
    then have "cmp b z \<noteq> 0" if "b \<in> set bs" for b
      using r(3) that le_trans [of b z x] by (auto simp: cmp_zero cmp_sign)
    then have "filter (\<lambda>x. cmp x z = 0) bs = []" by simp
    then show ?thesis by (simp add: ws(1) r(1))
  qed (simp add: ws(1) r(1))
  moreover have "take (Suc p) (as @ x # bs @ zs) = as @ x # bs" using ws(2) r(1) by (simp add: Suc_diff_le)
  moreover have "mset (as @ x # bs @ zs) = mset ws" by (simp add: ws(1) r(1))
  ultimately show ?thesis using assms(1) unfolding isorted_upto_def r(2) by simp
qed

lemma isort_ok: "isorted_upto (length xs) xs (isort_i cmp xs)"
proof (cases "xs = []")
  case True
  then show ?thesis by (simp add: isorted_upto_def isort_i_def)
next
  case False
  have "isorted_upto n xs (fold (\<lambda>p1 xs. isort_inner cmp xs p1) [1..<n] xs)" if "1 \<le> n" "n \<le> length xs" for n
    using that
  proof (induction n rule: dec_induct)
    case base
    show ?case by (cases xs) (simp_all add: isorted_upto_def)
  next
    case (step n)
    define ys where "ys = fold (\<lambda>p1 xs. isort_inner cmp xs p1) [1..<n] xs"
    have "isorted_upto n xs ys" using step by (simp add: ys_def)
    moreover from this have "length ys = length xs" by (metis isorted_upto_def size_mset)
    ultimately show ?case using step isort_inner_ok [of n xs ys] by (simp add: ys_def)
  qed
  then show ?thesis using False by (simp add: isort_i_def Suc_le_eq)
qed

end

lemma isort_stable:
  "cmp_order cmp \<Longrightarrow> filter (\<lambda>x. cmp x z = 0) (isort_i cmp xs) = filter (\<lambda>x. cmp x z = 0) xs"
  using cmp_order.isort_ok by (fastforce simp: cmp_order.isorted_upto_def)

interpretation isort: array_sorter isort_i
proof
  fix cmp :: "'a \<Rightarrow> 'a \<Rightarrow> int" and xs
  assume o: "cmp_order cmp"
  note ok = cmp_order.isort_ok [OF o, of xs, unfolded cmp_order.isorted_upto_def [OF o]]
  show m: "mset (isort_i cmp xs) = mset xs" using ok by blast
  then have "length (isort_i cmp xs) = length xs" by (metis size_mset)
  then show "sorted_wrt (\<lambda>x y. cmp x y \<le> 0) (isort_i cmp xs)" using ok by (simp add: cmp_order.le_def [OF o, abs_def])
qed

section \<open>Selection sort\<close>

context cmp_order
begin

lemma ssort_min_ok:
  assumes "p < length xs"
  shows "p \<le> ssort_min cmp xs p \<and> ssort_min cmp xs p < length xs \<and>
    (\<forall>j. p \<le> j \<and> j < length xs \<longrightarrow> le (xs ! ssort_min cmp xs p) (xs ! j))"
proof -
  define g where "g n = fold (\<lambda>p2 mn. if cmp (xs ! mn) (xs ! p2) > 0 then p2 else mn) [p + 1..<n] p" for n
  have "p \<le> g n \<and> g n < n \<and> (\<forall>j. p \<le> j \<and> j < n \<longrightarrow> le (xs ! g n) (xs ! j))" if "Suc p \<le> n" "n \<le> length xs" for n
    using that
  proof (induction n rule: dec_induct)
    case base
    have "j = p" if "p \<le> j" "j < Suc p" for j using that by simp
    then show ?case by (fastforce simp: g_def)
  next
    case (step n)
    have gS: "g (Suc n) = (if cmp (xs ! g n) (xs ! n) > 0 then n else g n)"
      using step(1) by (simp add: g_def)
    show ?case
    proof (cases "cmp (xs ! g n) (xs ! n) > 0")
      case True
      then have "le (xs ! n) (xs ! g n)" by (simp add: cmp_sign not_le)
      then show ?thesis using step True le_trans unfolding gS by (auto simp: less_Suc_eq)
    next
      case False
      then show ?thesis using step unfolding gS by (auto simp: less_Suc_eq cmp_sign)
    qed
  qed
  from this [of "length xs"] assms show ?thesis by (simp add: g_def ssort_min_def)
qed

definition least_upto :: "nat \<Rightarrow> 'a list \<Rightarrow> bool" where
  "least_upto p xs \<longleftrightarrow> (\<forall>i j. i < p \<and> i < j \<and> j < length xs \<longrightarrow> le (xs ! i) (xs ! j))"

lemma ssort_step_ok:
  assumes "least_upto p xs" "p < length xs" and m: "m = ssort_min cmp xs p"
  shows "least_upto (Suc p) (aswap xs p m)"
  unfolding least_upto_def
proof (intro allI impI)
  have mn: "p \<le> m" "m < length xs" "\<And>j. p \<le> j \<Longrightarrow> j < length xs \<Longrightarrow> le (xs ! m) (xs ! j)"
    using ssort_min_ok [OF assms(2)] by (simp_all add: m)
  note nth = nth_aswap [OF assms(2) mn(2)]
  fix i j assume ij: "i < Suc p \<and> i < j \<and> j < length (aswap xs p m)"
  show "le (aswap xs p m ! i) (aswap xs p m ! j)"
  proof (cases "i = p")
    case True
    then show ?thesis using ij mn assms(2) by (auto simp: nth)
  next
    case False
    then have "i < p" using ij by simp
    then have "le (xs ! i) (xs ! k)" if "p \<le> k \<or> k = j" "k < length xs" for k
      using assms(1) that ij by (auto simp: least_upto_def)
    then show ?thesis using \<open>i < p\<close> ij mn assms(2) by (auto simp: nth)
  qed
qed

lemma ssort_ok: "least_upto (length xs - 1) (ssort_i cmp xs) \<and> mset (ssort_i cmp xs) = mset xs"
proof -
  define g where "g n = fold (\<lambda>p1 xs. let mn = ssort_min cmp xs p1 in if mn \<noteq> p1 then aswap xs p1 mn else xs) [0..<n] xs" for n
  have "least_upto n (g n) \<and> mset (g n) = mset xs" if "n \<le> length xs - 1" for n
    using that
  proof (induction n)
    case 0
    then show ?case by (simp add: least_upto_def g_def)
  next
    case (Suc n)
    have len: "length (g n) = length xs" using Suc by (metis Suc_leD size_mset)
    have n: "n < length (g n)" using Suc.prems len by simp
    define m where "m = ssort_min cmp (g n) n"
    have "g (Suc n) = aswap (g n) n m" by (simp add: g_def m_def Let_def aswap_def)
    moreover have "m < length (g n)" using ssort_min_ok [OF n] by (simp add: m_def)
    ultimately show ?case using Suc ssort_step_ok [OF _ n m_def] n by simp
  qed
  from this [of "length xs - 1"] show ?thesis by (simp add: ssort_i_def g_def)
qed

end

interpretation ssort: array_sorter ssort_i
proof
  fix cmp :: "'a \<Rightarrow> 'a \<Rightarrow> int" and xs
  assume o: "cmp_order cmp"
  note ok = cmp_order.ssort_ok [OF o, of xs, unfolded cmp_order.least_upto_def [OF o]]
  show m: "mset (ssort_i cmp xs) = mset xs" using ok by blast
  then have "length (ssort_i cmp xs) = length xs" by (metis size_mset)
  then have "\<forall>i j. i < j \<and> j < length (ssort_i cmp xs) \<longrightarrow> cmp_order.le cmp (ssort_i cmp xs ! i) (ssort_i cmp xs ! j)"
    using ok by auto
  then show "sorted_wrt (\<lambda>x y. cmp x y \<le> 0) (ssort_i cmp xs)"
    by (simp add: sorted_wrt_iff_nth_less cmp_order.le_def [OF o])
qed

section \<open>Heap sort\<close>

text \<open>\<open>reheap_down\<close> is the sift-down of the heap module for the reversed order.\<close>

lemma reheap_down_loop_eq:
  assumes "cmp_order cmp"
  shows "reheap_down_loop cmp n xs pos = sift_loop (\<lambda>x y. cmp y x) n xs pos"
  using cmp_order.cmp_swap [OF assms]
proof (induction cmp n xs pos rule: reheap_down_loop.induct)
  case (1 cmp n xs pos)
  show ?case
    by (subst reheap_down_loop.simps, subst sift_loop.simps)
       (use 1 in \<open>simp add: Let_def aswap_commute [of _ pos]\<close>)
qed

lemma hsort_step:
  assumes o: "cmp_order cmp" and n: "n < length xs" "0 < n"
    and h: "heap_from (\<lambda>x y. cmp y x) 0 (Suc n) xs"
    and tl: "\<forall>i j. i < j \<and> Suc n \<le> j \<and> j < length xs \<longrightarrow> cmp (xs ! i) (xs ! j) \<le> 0"
    and r: "r = reheap_down cmp n (aswap xs 0 n) 0"
  shows "heap_from (\<lambda>x y. cmp y x) 0 n r \<and> mset r = mset xs \<and>
    (\<forall>i j. i < j \<and> n \<le> j \<and> j < length r \<longrightarrow> cmp (r ! i) (r ! j) \<le> 0)"
proof -
  note f = cmp_order_flip [OF o]
  define e where "e = aswap xs 0 n"
  have "0 < length xs" using n by linarith
  note nth = nth_aswap [OF this n(1), folded e_def]
  have len: "length e = length xs" by (simp add: e_def)
  have "heap_from (\<lambda>x y. cmp y x) (Suc 0) n e"
    unfolding heap_from_def
  proof (intro allI impI)
    fix k assume k: "k < n" "0 < k \<and> Suc 0 \<le> par k"
    then have "par k < k" by (simp add: par_less)
    then show "cmp (e ! k) (e ! par k) \<le> 0" using k h by (simp add: nth heap_from_def)
  qed
  from cmp_order.sift_root_ok [OF f _ this] n
  have R: "heap_from (\<lambda>x y. cmp y x) 0 n r" "mset r = mset e" "length r = length e" "\<forall>k. n \<le> k \<longrightarrow> r ! k = e ! k"
    by (simp_all add: r e_def reheap_down_def reheap_down_loop_eq [OF o])
  have low: "\<exists>i'. i' \<le> n \<and> r ! i = xs ! i'" if "i < n" for i
  proof -
    have "mset (take n r) = mset (take n e)" using R by (intro mset_take_same) simp_all
    then have "r ! i \<in> set (take n e)"
      using that R(3) len n by (metis in_set_conv_nth length_take min.absorb2 mset_eq_setD nth_take order.strict_implies_order)
    then obtain i1 where "i1 < n" "r ! i = e ! i1" using n len by (auto simp: in_set_conv_nth)
    then show ?thesis using n by (cases "i1 = 0") (auto simp: nth intro: less_imp_le)
  qed
  have "cmp (r ! i) (r ! j) \<le> 0" if ij: "i < j" "n \<le> j" "j < length r" for i j
  proof (cases "j = n")
    case True
    obtain i' where "i' \<le> n" "r ! i = xs ! i'" using low ij True by blast
    then show ?thesis using cmp_order.heap_root_least [OF f h, of i'] R(4) True
      by (simp add: nth cmp_order.le_def [OF f])
  next
    case False
    then have j: "r ! j = xs ! j" "Suc n \<le> j" "j < length xs" using ij R len n by (auto simp: nth)
    have "\<exists>i' < j. r ! i = xs ! i'"
    proof (cases "i < n")
      case True then show ?thesis using low j(2) by (meson le_less_trans Suc_le_eq)
    next
      case False
      then have "r ! i = (if i = n then xs ! 0 else xs ! i)" using R(4) n by (simp add: nth)
      then show ?thesis using ij j(2) by (metis Suc_le_eq gr_zeroI not_less0)
    qed
    then show ?thesis using tl j by auto
  qed
  moreover have "mset r = mset xs" using R(2) n \<open>0 < length xs\<close> by (simp add: e_def)
  ultimately show ?thesis using R(1) by blast
qed

lemma hsort_loop_ok:
  assumes "cmp_order cmp" "n \<le> length xs" "heap_from (\<lambda>x y. cmp y x) 0 n xs"
    "\<forall>i j. i < j \<and> n \<le> j \<and> j < length xs \<longrightarrow> cmp (xs ! i) (xs ! j) \<le> 0"
  shows "mset (hsort_loop cmp n xs) = mset xs \<and> sorted_wrt (\<lambda>x y. cmp x y \<le> 0) (hsort_loop cmp n xs)"
  using assms
proof (induction n arbitrary: xs rule: less_induct)
  case (less n)
  show ?case
  proof (cases "n > 1")
    case True
    then obtain m where m: "n = Suc m" "0 < m" by (cases n) auto
    define r where "r = reheap_down cmp m (aswap xs 0 m) 0"
    from hsort_step [OF less.prems(1) _ m(2) _ _ r_def] less.prems m
    have R: "heap_from (\<lambda>x y. cmp y x) 0 m r" "mset r = mset xs"
      "\<forall>i j. i < j \<and> m \<le> j \<and> j < length r \<longrightarrow> cmp (r ! i) (r ! j) \<le> 0" by simp_all
    have "hsort_loop cmp n xs = hsort_loop cmp m r"
      using True m by (subst hsort_loop.simps) (simp add: r_def)
    moreover have "m \<le> length r" using R(2) less.prems(2) m by (metis Suc_leD size_mset)
    ultimately show ?thesis using less.IH [of m r] R less.prems(1) m by simp
  next
    case False
    then have "\<forall>i j. i < j \<and> j < length xs \<longrightarrow> cmp (xs ! i) (xs ! j) \<le> 0"
      using less.prems(4) by (metis gr_implies_not0 le_less_Suc_eq less_one linorder_not_le not_less_eq)
    then show ?thesis using False by (subst hsort_loop.simps, subst hsort_loop.simps) (simp add: sorted_wrt_iff_nth_less)
  qed
qed

lemma hsort_build_ok:
  assumes o: "cmp_order cmp" and "heap_from (\<lambda>x y. cmp y x) n (length xs) xs"
  shows "heap_from (\<lambda>x y. cmp y x) 0 (length xs) (fold (\<lambda>i ys. reheap_down cmp (length xs) ys i) (rev [0..<n]) xs) \<and>
    mset (fold (\<lambda>i ys. reheap_down cmp (length xs) ys i) (rev [0..<n]) xs) = mset xs"
  using assms(2)
proof (induction n arbitrary: xs)
  case (Suc n)
  have "heap_from (\<lambda>x y. cmp y x) n (length xs) (reheap_down cmp (length xs) xs n) \<and>
    mset (reheap_down cmp (length xs) xs n) = mset xs"
  proof (cases "n \<ge> length xs")
    case True
    have "\<not> n \<le> par k" if "k < length xs" "0 < k" for k using par_less [OF that(2)] that(1) True by linarith
    then have "heap_from (\<lambda>x y. cmp y x) n (length xs) xs" by (auto simp: heap_from_def)
    then show ?thesis using True by (simp add: reheap_down_def)
  next
    case False
    then show ?thesis
      using cmp_order.sift_root_ok [OF cmp_order_flip [OF o] order.refl Suc.prems]
      by (simp add: reheap_down_def reheap_down_loop_eq [OF o])
  qed
  moreover from this have "length (reheap_down cmp (length xs) xs n) = length xs" by (metis size_mset)
  ultimately show ?case using Suc.IH [of "reheap_down cmp (length xs) xs n"] by simp
qed simp

interpretation hsort: array_sorter hsort_i
proof
  fix cmp :: "'a \<Rightarrow> 'a \<Rightarrow> int" and xs
  assume o: "cmp_order cmp"
  define ys where "ys = fold (\<lambda>i ys. reheap_down cmp (length xs) ys i) (rev [0..<length xs div 2 + 1]) xs"
  have "heap_from (\<lambda>x y. cmp y x) (length xs div 2 + 1) (length xs) xs"
    by (auto simp: heap_from_def par_def)
  from hsort_build_ok [OF o this] have b: "heap_from (\<lambda>x y. cmp y x) 0 (length xs) ys" "mset ys = mset xs"
    by (simp_all only: ys_def)
  then have l: "length ys = length xs" by (metis size_mset)
  have "hsort_i cmp xs = hsort_loop cmp (length xs) ys" by (simp only: hsort_i_def ys_def)
  with hsort_loop_ok [OF o _ b(1)] b(2) l
  show "mset (hsort_i cmp xs) = mset xs" "sorted_wrt (\<lambda>x y. cmp x y \<le> 0) (hsort_i cmp xs)" by simp_all
qed

end
