(* ===== verification/QSort.thy ===== *)
theory QSort
  imports Sort
begin

text \<open>
  The introspective quick sort of src/sort.c with its explicit work stack, and the permutation of
  an array along a vector of pointers.  \<open>qs_loop\<close> is the main loop, \<open>qs_partition\<close> the inner one;
  both are partial functions whose value \<open>None\<close> is non-termination, so that returning is a
  theorem (\<open>qs_loop_ok\<close>, \<open>permute_loop_ok\<close>).
\<close>

section \<open>Quick sort\<close>

definition QS_MAXDEPTH :: nat where "QS_MAXDEPTH = 48"
definition ISORT_THRESH :: nat where "ISORT_THRESH = 8"

text \<open>An entry of the work stack.\<close>

record qswork =
  qs_start :: nat
  qs_nelem :: nat
  qs_depth :: nat

definition median3 :: "('a \<Rightarrow> 'a \<Rightarrow> int) \<Rightarrow> 'a list \<Rightarrow> nat \<Rightarrow> nat \<Rightarrow> nat \<Rightarrow> nat" where
  "median3 cmp xs m1 m2 m3 =
     (if cmp (xs ! m1) (xs ! m2) < 0
      then if cmp (xs ! m2) (xs ! m3) < 0 then m2
           else if cmp (xs ! m1) (xs ! m3) < 0 then m3
           else m1
      else if cmp (xs ! m1) (xs ! m3) < 0 then m1
           else if cmp (xs ! m2) (xs ! m3) < 0 then m3
           else m2)"

definition qs_pivot :: "('a \<Rightarrow> 'a \<Rightarrow> int) \<Rightarrow> 'a list \<Rightarrow> nat \<Rightarrow> nat \<Rightarrow> nat" where
  "qs_pivot cmp xs start n =
     (let m1 = start; m2 = start + n div 2; m3 = start + n - 1 in
      if n > 64
      then let stride = n div 9;
               m1 = median3 cmp xs m1 (m1 + stride) (m1 + stride * 2);
               m2 = median3 cmp xs (m2 - stride) m2 (m2 + stride);
               m3 = median3 cmp xs (m3 - stride * 2) (m3 - stride) m3
           in median3 cmp xs m1 m2 m3
      else median3 cmp xs m1 m2 m3)"

text \<open>
  The two scans of the partition.  The flag of the result says that the scan met the other end
  (\<open>goto done_inner\<close>).  The loops return \<open>None\<close> only if they do not end.
\<close>

partial_function (option) qs_up ::
  "('a \<Rightarrow> 'a \<Rightarrow> int) \<Rightarrow> 'a list \<Rightarrow> nat \<Rightarrow> nat \<Rightarrow> nat \<Rightarrow> (bool \<times> nat \<times> nat) option" where
  "qs_up cmp xs start lo hi =
     (if cmp (xs ! start) (xs ! lo) \<ge> 0
      then if lo = hi then Some (True, lo, hi + 1) else qs_up cmp xs start (lo + 1) hi
      else Some (False, lo, hi))"

partial_function (option) qs_down ::
  "('a \<Rightarrow> 'a \<Rightarrow> int) \<Rightarrow> 'a list \<Rightarrow> nat \<Rightarrow> nat \<Rightarrow> nat \<Rightarrow> (bool \<times> nat \<times> nat) option" where
  "qs_down cmp xs start lo hi =
     (if cmp (xs ! start) (xs ! hi) < 0
      then if lo = hi then Some (True, lo - 1, hi) else qs_down cmp xs start lo (hi - 1)
      else Some (False, lo, hi))"

partial_function (option) qs_partition ::
  "('a \<Rightarrow> 'a \<Rightarrow> int) \<Rightarrow> 'a list \<Rightarrow> nat \<Rightarrow> nat \<Rightarrow> nat \<Rightarrow> ('a list \<times> nat \<times> nat) option" where
  "qs_partition cmp xs start lo hi =
     Option.bind (qs_up cmp xs start lo hi) (\<lambda>(fin, lo, hi).
       if fin then Some (xs, lo, hi)
       else Option.bind (qs_down cmp xs start lo hi) (\<lambda>(fin, lo, hi).
         if fin then Some (xs, lo, hi)
         else let xs = aswap xs lo hi
              in if lo + 1 = hi then Some (xs, lo, hi)
                 else qs_partition cmp xs start (lo + 1) (hi - 1)))"

text \<open>
  The main loop.  \<open>stack\<close> holds the pending sub-arrays, last pushed first; a push on a full
  stack writes past \<open>stack[QS_MAXDEPTH]\<close>.
\<close>

partial_function (option) qs_loop ::
  "('a \<Rightarrow> 'a \<Rightarrow> int) \<Rightarrow> nat \<Rightarrow> 'a list \<Rightarrow> nat \<Rightarrow> nat \<Rightarrow> nat \<Rightarrow> qswork list \<Rightarrow> 'a list outcome option" where
  "qs_loop cmp bailout xs start n depth stack =
     (if depth > bailout
      then let xs = on_sub start n (hsort_i cmp) xs
           in case stack of [] \<Rightarrow> Some (Ok xs)
              | w # stack \<Rightarrow> qs_loop cmp bailout xs (qs_start w) (qs_nelem w) (qs_depth w) stack
      else
        let pivot = qs_pivot cmp xs start n;
            xs = (if pivot \<noteq> start then aswap xs start pivot else xs);
            fin = start + n
        in Option.bind (qs_partition cmp xs start (start + 1) (fin - 1)) (\<lambda>(xs, lo, hi).
             let xs = aswap xs start lo; depth = depth + 1; n = fin - hi; nlo = lo - start
             in if n > ISORT_THRESH
                then if nlo > ISORT_THRESH
                     then if length stack < QS_MAXDEPTH
                          then qs_loop cmp bailout xs hi n depth
                                 (\<lparr>qs_start = start, qs_nelem = nlo, qs_depth = depth\<rparr> # stack)
                          else Some Fault
                     else qs_loop cmp bailout (on_sub start nlo (isort_i cmp) xs) hi n depth stack
                else let xs = on_sub hi n (isort_i cmp) xs
                     in if nlo \<le> ISORT_THRESH
                        then let xs = on_sub start nlo (isort_i cmp) xs
                             in case stack of [] \<Rightarrow> Some (Ok xs)
                                | w # stack \<Rightarrow> qs_loop cmp bailout xs (qs_start w) (qs_nelem w) (qs_depth w) stack
                        else qs_loop cmp bailout xs start nlo depth stack))"

fun qs_log2 :: "nat \<Rightarrow> nat" where
  "qs_log2 n = (if n div 2 = 0 then 0 else Suc (qs_log2 (n div 2)))"

declare qs_log2.simps [simp del]

definition qsort_array ::
  "'a list option \<Rightarrow> nat \<Rightarrow> nat \<Rightarrow> ('a \<Rightarrow> 'a \<Rightarrow> int) option \<Rightarrow> 'a list option outcome option" where
  "qsort_array arr nelem esize cmp =
     (case (arr, cmp) of
        (Some xs, Some c) \<Rightarrow>
          if nelem \<le> 1 \<or> esize = 0 then Some (Ok arr)
          else if nelem \<le> ISORT_THRESH then Some (Ok (Some (on_sub 0 nelem (isort_i c) xs)))
          else let bailout = qs_log2 nelem * 2;
                   bailout = (if bailout > QS_MAXDEPTH - 3 then QS_MAXDEPTH - 3 else bailout)
               in map_option (\<lambda>r. obind r (\<lambda>xs. Ok (Some xs))) (qs_loop c bailout xs 0 nelem 1 [])
      | _ \<Rightarrow> Some (Ok arr))"

section \<open>Pointer vectors\<close>

text \<open>A pointer into the array is its element index.  The overflow guard is the code's.\<close>

definition too_many :: "nat \<Rightarrow> nat \<Rightarrow> bool" where
  "too_many nelem esize \<longleftrightarrow> (2 ^ 64 - 1) div esize < nelem"

definition array_to_voidp :: "nat list \<Rightarrow> nat \<Rightarrow> nat \<Rightarrow> nat list" where
  "array_to_voidp varr nelem esize =
     (if nelem < 1 \<or> esize = 0 \<or> too_many nelem esize then varr
      else [0..<nelem] @ drop nelem varr)"

partial_function (option) permute_cycle ::
  "nat \<Rightarrow> 'a list \<Rightarrow> nat list \<Rightarrow> nat \<Rightarrow> nat \<Rightarrow> ('a list \<times> nat list \<times> nat \<times> nat) option" where
  "permute_cycle phi xs varr to lastp =
     (let xs = xs[lastp := xs ! (varr ! to)]; hold = lastp; lastp = varr ! to;
          varr = varr[to := hold]; to = lastp
      in if varr ! to \<noteq> phi then permute_cycle phi xs varr to lastp else Some (xs, varr, to, lastp))"

fun permute_loop :: "nat \<Rightarrow> nat \<Rightarrow> 'a list \<Rightarrow> nat list \<Rightarrow> ('a list \<times> nat list) option" where
  "permute_loop 0 hi xs varr = Some (xs, varr)"
| "permute_loop (Suc left) hi xs varr =
     (if varr ! hi = hi then permute_loop left (hi + 1) xs varr
      else let tmp = xs ! hi
           in Option.bind (permute_cycle hi xs varr hi hi) (\<lambda>(xs, varr, to, lastp).
                permute_loop left (hi + 1) (xs[lastp := tmp]) (varr[to := lastp])))"

definition permute_array :: "'a list \<Rightarrow> nat list \<Rightarrow> nat \<Rightarrow> nat \<Rightarrow> ('a list \<times> nat list) option" where
  "permute_array xs varr nelem esize =
     (if nelem < 2 \<or> esize = 0 \<or> too_many nelem esize then Some (xs, varr)
      else permute_loop nelem 0 xs varr)"

section \<open>Partition\<close>

lemma mset_sub_same:
  assumes "mset ys = mset xs" "s \<le> e" "\<forall>k. k < s \<or> e \<le> k \<longrightarrow> ys ! k = xs ! k"
  shows "mset (take (e - s) (drop s ys)) = mset (take (e - s) (drop s xs))"
proof -
  have l: "length ys = length xs" using assms(1) by (metis size_mset)
  have split: "zs = take s zs @ take (e - s) (drop s zs) @ drop e zs" for zs :: "'a list"
    using assms(2) by (metis append_take_drop_id drop_drop le_add_diff_inverse2)
  have "take s ys = take s xs" "drop e ys = drop e xs" using assms(3) l by (auto intro: nth_equalityI)
  moreover have "mset (take s zs) + (mset (take (e - s) (drop s zs)) + mset (drop e zs)) = mset zs" for zs :: "'a list"
    using split [of zs] by (metis mset_append)
  ultimately show ?thesis using assms(1) by (metis add_left_cancel add_right_cancel)
qed

lemma median3_in: "median3 cmp xs a b c \<in> {a, b, c}"
  by (simp add: median3_def)

lemma qs_pivot_in: "9 \<le> n \<Longrightarrow> start \<le> qs_pivot cmp xs start n \<and> qs_pivot cmp xs start n < start + n"
proof -
  assume n: "9 \<le> n"
  define st where "st = n div 9"
  have "9 * st \<le> n" "0 < st" using n by (simp_all add: st_def div_greater_zero_iff)
  then have "x \<in> {start, start + st, start + st * 2, start + n div 2 - st, start + n div 2, start + n div 2 + st,
      start + n - 1 - st * 2, start + n - 1 - st, start + n - 1} \<Longrightarrow> start \<le> x \<and> x < start + n" for x
    by auto
  moreover have "qs_pivot cmp xs start n \<in> {start, start + st, start + st * 2, start + n div 2 - st, start + n div 2,
      start + n div 2 + st, start + n - 1 - st * 2, start + n - 1 - st, start + n - 1}"
    unfolding qs_pivot_def Let_def st_def [symmetric]
    using median3_in [of cmp xs start "start + st" "start + st * 2"]
      median3_in [of cmp xs "start + n div 2 - st" "start + n div 2" "start + n div 2 + st"]
      median3_in [of cmp xs "start + n - 1 - st * 2" "start + n - 1 - st" "start + n - 1"]
      median3_in [of cmp xs start "start + n div 2" "start + n - 1"]
    by (auto dest!: median3_in [THEN subsetD [rotated]] simp: median3_def [of _ _ "median3 _ _ _ _ _"])
  ultimately show ?thesis by blast
qed

lemma qs_up_ok:
  assumes "lo \<le> hi"
  shows "\<exists>fin lo' hi'. qs_up cmp xs s lo hi = Some (fin, lo', hi') \<and> lo \<le> lo' \<and> lo' \<le> hi \<and>
    (\<forall>k. lo \<le> k \<and> k < lo' \<longrightarrow> cmp (xs ! s) (xs ! k) \<ge> 0) \<and>
    (if fin then lo' = hi \<and> hi' = hi + 1 \<and> cmp (xs ! s) (xs ! hi) \<ge> 0 else hi' = hi \<and> cmp (xs ! s) (xs ! lo') < 0)"
  using assms
proof (induction "hi - lo" arbitrary: lo)
  case 0
  then show ?case by (subst qs_up.simps) auto
next
  case (Suc n)
  show ?case
  proof (cases "cmp (xs ! s) (xs ! lo) \<ge> 0")
    case True
    have "n = hi - (lo + 1)" "lo + 1 \<le> hi" using Suc.hyps(2) by simp_all
    from Suc.hyps(1) [OF this] obtain fin lo' hi' where r: "qs_up cmp xs s (lo + 1) hi = Some (fin, lo', hi')" "lo + 1 \<le> lo'"
      "lo' \<le> hi" "\<forall>k. lo + 1 \<le> k \<and> k < lo' \<longrightarrow> cmp (xs ! s) (xs ! k) \<ge> 0"
      "if fin then lo' = hi \<and> hi' = hi + 1 \<and> cmp (xs ! s) (xs ! hi) \<ge> 0 else hi' = hi \<and> cmp (xs ! s) (xs ! lo') < 0" by blast
    have "\<forall>k. lo \<le> k \<and> k < lo' \<longrightarrow> cmp (xs ! s) (xs ! k) \<ge> 0"
      using r(4) True by (metis Suc_eq_plus1 Suc_leI le_neq_implies_less)
    moreover have "qs_up cmp xs s lo hi = Some (fin, lo', hi')"
      using True r(1) Suc.hyps(2) by (subst qs_up.simps) auto
    ultimately show ?thesis
      by - (rule exI [of _ fin], rule exI [of _ lo'], rule exI [of _ hi'], use r in simp)
  next
    case False
    then show ?thesis using Suc.prems by (subst qs_up.simps) auto
  qed
qed

lemma qs_down_ok:
  assumes "lo \<le> hi" "cmp (xs ! s) (xs ! lo) < 0"
  shows "\<exists>fin lo' hi'. qs_down cmp xs s lo hi = Some (fin, lo', hi') \<and> lo \<le> hi' \<and> hi' \<le> hi \<and>
    (\<forall>k. hi' < k \<and> k \<le> hi \<longrightarrow> cmp (xs ! s) (xs ! k) < 0) \<and>
    (if fin then hi' = lo \<and> lo' = lo - 1 \<and> cmp (xs ! s) (xs ! lo) < 0 else lo' = lo \<and> lo < hi' \<and> cmp (xs ! s) (xs ! hi') \<ge> 0)"
  using assms(1)
proof (induction "hi - lo" arbitrary: hi)
  case 0
  then show ?case using assms(2) by (subst qs_down.simps) auto
next
  case (Suc n)
  show ?case
  proof (cases "cmp (xs ! s) (xs ! hi) < 0")
    case True
    have "n = hi - 1 - lo" "lo \<le> hi - 1" using Suc.hyps(2) by simp_all
    from Suc.hyps(1) [OF this] obtain fin lo' hi' where r: "qs_down cmp xs s lo (hi - 1) = Some (fin, lo', hi')" "lo \<le> hi'"
      "hi' \<le> hi - 1" "\<forall>k. hi' < k \<and> k \<le> hi - 1 \<longrightarrow> cmp (xs ! s) (xs ! k) < 0"
      "if fin then hi' = lo \<and> lo' = lo - 1 \<and> cmp (xs ! s) (xs ! lo) < 0 else lo' = lo \<and> lo < hi' \<and> cmp (xs ! s) (xs ! hi') \<ge> 0" by blast
    have "\<forall>k. hi' < k \<and> k \<le> hi \<longrightarrow> cmp (xs ! s) (xs ! k) < 0"
    proof (intro allI impI)
      fix k assume "hi' < k \<and> k \<le> hi"
      then show "cmp (xs ! s) (xs ! k) < 0" using r(4) True by (cases "k = hi") auto
    qed
    moreover have "qs_down cmp xs s lo hi = Some (fin, lo', hi')"
      using True r(1) Suc.hyps(2) by (subst qs_down.simps) auto
    ultimately show ?thesis
      by - (rule exI [of _ fin], rule exI [of _ lo'], rule exI [of _ hi'], use r in auto)
  next
    case False
    have "lo < hi" using Suc.hyps(2) by simp
    then show ?thesis using False by (subst qs_down.simps) auto
  qed
qed

text \<open>
  \<open>qs_split\<close> is the invariant of the partition: what lies below \<open>lo\<close> is not above the pivot at \<open>s\<close>,
  what lies above \<open>hi\<close> is.
\<close>

definition qs_split :: "('a \<Rightarrow> 'a \<Rightarrow> int) \<Rightarrow> 'a list \<Rightarrow> nat \<Rightarrow> nat \<Rightarrow> nat \<Rightarrow> nat \<Rightarrow> bool" where
  "qs_split cmp xs s e lo hi \<longleftrightarrow>
     (\<forall>k. s < k \<and> k < lo \<longrightarrow> cmp (xs ! s) (xs ! k) \<ge> 0) \<and> (\<forall>k. hi < k \<and> k < e \<longrightarrow> cmp (xs ! s) (xs ! k) < 0)"

lemma qs_partition_ok:
  assumes "s < lo" "lo \<le> hi" "hi < e" "e \<le> length xs" "qs_split cmp xs s e lo hi"
  shows "\<exists>ys lo'. qs_partition cmp xs s lo hi = Some (ys, lo', lo' + 1) \<and> mset ys = mset xs \<and>
    (\<forall>k. k \<le> s \<or> e \<le> k \<longrightarrow> ys ! k = xs ! k) \<and> mset (take (e - s) (drop s ys)) = mset (take (e - s) (drop s xs)) \<and>
    s \<le> lo' \<and> lo' < e \<and>
    (\<forall>k. s < k \<and> k \<le> lo' \<longrightarrow> cmp (ys ! s) (ys ! k) \<ge> 0) \<and> (\<forall>k. lo' < k \<and> k < e \<longrightarrow> cmp (ys ! s) (ys ! k) < 0)"
  using assms
proof (induction "hi - lo" arbitrary: lo hi xs rule: less_induct)
  case less
  note pre = less.prems(5) [unfolded qs_split_def]
  obtain fin lo1 hi1 where up: "qs_up cmp xs s lo hi = Some (fin, lo1, hi1)" "lo \<le> lo1" "lo1 \<le> hi"
    "\<forall>k. lo \<le> k \<and> k < lo1 \<longrightarrow> cmp (xs ! s) (xs ! k) \<ge> 0"
    "if fin then lo1 = hi \<and> hi1 = hi + 1 \<and> cmp (xs ! s) (xs ! hi) \<ge> 0 else hi1 = hi \<and> cmp (xs ! s) (xs ! lo1) < 0"
    using qs_up_ok [OF less.prems(2), of cmp xs s] by blast
  have low: "cmp (xs ! s) (xs ! k) \<ge> 0" if "s < k" "k < lo1" for k
    using pre up(4) that by (meson not_less)
  show ?case
  proof (cases fin)
    case True
    then have "cmp (xs ! s) (xs ! k) \<ge> 0" if "s < k" "k \<le> hi" for k
      using low up(5) that by (cases "k = hi") auto
    then show ?thesis using True up(1,5) pre less.prems
      by - (rule exI [of _ xs], rule exI [of _ hi], simp add: qs_partition.simps [of cmp xs s lo hi])
  next
    case nfin: False
    then have u: "hi1 = hi" "cmp (xs ! s) (xs ! lo1) < 0" using up(5) by simp_all
    obtain fin lo2 hi2 where dn: "qs_down cmp xs s lo1 hi = Some (fin, lo2, hi2)" "lo1 \<le> hi2" "hi2 \<le> hi"
      "\<forall>k. hi2 < k \<and> k \<le> hi \<longrightarrow> cmp (xs ! s) (xs ! k) < 0"
      "if fin then hi2 = lo1 \<and> lo2 = lo1 - 1 \<and> cmp (xs ! s) (xs ! lo1) < 0
       else lo2 = lo1 \<and> lo1 < hi2 \<and> cmp (xs ! s) (xs ! hi2) \<ge> 0"
      using qs_down_ok [OF up(3), of cmp xs s, OF u(2)] by blast
    have high: "cmp (xs ! s) (xs ! k) < 0" if "hi2 < k" "k < e" for k
      using pre dn(4) that by (meson not_less)
    show ?thesis
    proof (cases fin)
      case True
      then have d: "hi2 = lo1 - 1 + 1" "lo2 = lo1 - 1" using dn(5) less.prems(1) up(2) by simp_all
      have "cmp (xs ! s) (xs ! k) < 0" if "lo1 - 1 < k" "k < e" for k
        proof (cases "k = lo1")
        case False
        then have "hi2 < k" using that d(1) less.prems(1) up(2) by linarith
        then show ?thesis using high that by blast
      qed (simp add: u(2))
      then show ?thesis using True nfin up dn(1) u d low less.prems
        by - (rule exI [of _ xs], rule exI [of _ "lo1 - 1"], auto simp: qs_partition.simps [of cmp xs s lo hi])
    next
      case False
      then have d: "lo2 = lo1" "lo1 < hi2" "cmp (xs ! s) (xs ! hi2) \<ge> 0" using dn(5) by simp_all
      define ys where "ys = aswap xs lo1 hi2"
      have b: "lo1 < length xs" "hi2 < length xs" "s < lo1" "hi2 < e" using d up dn less.prems by linarith+
      note nth = nth_aswap [OF b(1,2), folded ys_def]
      have ys: "mset ys = mset xs" "ys ! s = xs ! s" "length ys = length xs" "\<forall>k. k \<le> s \<or> e \<le> k \<longrightarrow> ys ! k = xs ! k"
        using b d by (auto simp: ys_def nth_aswap)
      have sub: "mset (take (e - s) (drop s ys)) = mset (take (e - s) (drop s xs))"
        using b less.prems d by (intro mset_sub_same) (auto simp: ys nth)
      have lowy: "cmp (ys ! s) (ys ! k) \<ge> 0" if "s < k" "k \<le> lo1" for k
        using low d that b by (cases "k = lo1") (simp_all add: nth)
      have highy: "cmp (ys ! s) (ys ! k) < 0" if "hi2 \<le> k" "k < e" for k
        using high u d that b by (cases "k = hi2") (simp_all add: nth)
      have step: "qs_partition cmp xs s lo hi =
          (if lo1 + 1 = hi2 then Some (ys, lo1, hi2) else qs_partition cmp ys s (lo1 + 1) (hi2 - 1))"
        using up(1) nfin dn(1) False d u by (subst qs_partition.simps) (simp add: ys_def Let_def)
      show ?thesis
      proof (cases "lo1 + 1 = hi2")
        case True
        then show ?thesis using step ys sub lowy highy b
          by - (rule exI [of _ ys], rule exI [of _ lo1], auto simp: Suc_le_eq)
      next
        case False
        have "qs_split cmp ys s e (lo1 + 1) (hi2 - 1)"
          using lowy highy False d by (auto simp: qs_split_def)
        moreover have "hi2 - 1 - (lo1 + 1) < hi - lo" using d dn up False by linarith
        ultimately show ?thesis using less.hyps [of "hi2 - 1" "lo1 + 1" ys] step ys sub b False d less.prems by auto
      qed
    qed
  qed
qed

section \<open>Pending sub-arrays\<close>

text \<open>
  While quick sort runs, two elements of the first \<open>N\<close> are in order or lie in the same pending
  sub-array; the pending sub-arrays do not overlap.
\<close>

definition qs_apart :: "nat \<times> nat \<Rightarrow> nat \<times> nat \<Rightarrow> bool" where
  "qs_apart a b \<longleftrightarrow> fst a + snd a \<le> fst b \<or> fst b + snd b \<le> fst a"

definition qs_pending :: "('a \<Rightarrow> 'a \<Rightarrow> int) \<Rightarrow> nat \<Rightarrow> (nat \<times> nat) list \<Rightarrow> 'a list \<Rightarrow> bool" where
  "qs_pending cmp N rs xs \<longleftrightarrow> N \<le> length xs \<and> (\<forall>r \<in> set rs. fst r + snd r \<le> N) \<and> sorted_wrt qs_apart rs \<and>
     (\<forall>i j. i < j \<and> j < N \<longrightarrow> cmp (xs ! i) (xs ! j) \<le> 0 \<or> (\<exists>r \<in> set rs. fst r \<le> i \<and> j < fst r + snd r))"

lemma qs_pending_sorted: "qs_pending cmp N [] xs \<Longrightarrow> sorted_wrt (\<lambda>x y. cmp x y \<le> 0) (take N xs)"
  by (auto simp: qs_pending_def sorted_wrt_iff_nth_less)

lemma qs_pending_first: "N \<le> length xs \<Longrightarrow> qs_pending cmp N [(0, N)] xs"
  by (simp add: qs_pending_def)

lemma qs_pending_swap: "qs_pending cmp N (a # b # rs) xs \<Longrightarrow> qs_pending cmp N (b # a # rs) xs"
  by (auto simp: qs_pending_def qs_apart_def)

lemma qs_pending_solve:
  "qs_pending cmp N ((s, n) # rs) xs \<Longrightarrow> (\<And>i j. s \<le> i \<Longrightarrow> i < j \<Longrightarrow> j < s + n \<Longrightarrow> cmp (xs ! i) (xs ! j) \<le> 0) \<Longrightarrow>
   qs_pending cmp N rs xs"
  unfolding qs_pending_def by (simp only: list.set ball_simps bex_simps fst_conv snd_conv sorted_wrt.simps) metis

lemma qs_pending_perm:
  assumes p: "qs_pending cmp N ((s, n) # rs) xs" and m: "mset ys = mset xs"
    and out: "\<forall>k. k < s \<or> s + n \<le> k \<longrightarrow> ys ! k = xs ! k"
  shows "qs_pending cmp N ((s, n) # rs) ys"
proof -
  have len: "length ys = length xs" using m by (metis size_mset)
  have sn: "s + n \<le> length xs" using p by (simp add: qs_pending_def)
  have inside: "\<exists>k'. s \<le> k' \<and> k' < s + n \<and> ys ! k = xs ! k'" if k: "s \<le> k" "k < s + n" for k
  proof -
    have "mset (take (s + n - s) (drop s ys)) = mset (take (s + n - s) (drop s xs))"
      by (rule mset_sub_same [OF m _ out]) simp
    from mset_eq_setD [OF this] have "set (take n (drop s ys)) = set (take n (drop s xs))" by simp
    moreover have "ys ! k \<in> set (take n (drop s ys))"
    proof -
      have "k - s < n" "s \<le> length ys" "k - s < length (take n (drop s ys))" using k sn len by auto
      then show ?thesis using nth_mem [of "k - s" "take n (drop s ys)"] k(1) by (simp only: nth_take nth_drop le_add_diff_inverse)
    qed
    ultimately obtain q where "q < n" "ys ! k = xs ! (s + q)" using sn by (auto simp: in_set_conv_nth)
    then show ?thesis by (intro exI [of _ "s + q"]) simp
  qed
  have "cmp (ys ! i) (ys ! j) \<le> 0 \<or> (\<exists>r \<in> set ((s, n) # rs). fst r \<le> i \<and> j < fst r + snd r)"
    if ij: "i < j" "j < N" for i j
  proof -
    have P: "cmp (xs ! i) (xs ! j) \<le> 0 \<or> s \<le> i \<and> j < s + n \<or> (\<exists>r \<in> set rs. fst r \<le> i \<and> j < fst r + snd r)"
      if "i < j" "j < N" for i j using p that by (auto simp: qs_pending_def)
    have ap: "s + n \<le> fst r \<or> fst r + snd r \<le> s" if "r \<in> set rs" for r
      using p that by (auto simp: qs_pending_def qs_apart_def)
    consider (in1) "s \<le> i" "j < s + n" | (left) "s \<le> i" "i < s + n" "s + n \<le> j" | (right) "i < s" "s \<le> j" "j < s + n"
      | (out) "i < s \<or> s + n \<le> i" "j < s \<or> s + n \<le> j" using ij by linarith
    then show ?thesis
    proof cases
      case in1 then show ?thesis by simp
    next
      case left
      then obtain i' where i': "s \<le> i'" "i' < s + n" "ys ! i = xs ! i'" using inside by blast
      then show ?thesis using P [of i' j] ap left ij out by fastforce
    next
      case right
      then obtain j' where j': "s \<le> j'" "j' < s + n" "ys ! j = xs ! j'" using inside by blast
      then have "j' < N" using p by (simp add: qs_pending_def)
      then show ?thesis using P [of i j'] ap right ij j' out by fastforce
    next
      case out2: out
      then show ?thesis using P [OF ij] out by auto
    qed
  qed
  then show ?thesis using p len by (simp add: qs_pending_def)
qed

lemma qs_pending_split:
  assumes o: "cmp_order cmp" and p: "qs_pending cmp N ((s, n) # rs) xs" and lo: "s \<le> lo" "lo < s + n"
    and lower: "\<And>k. s \<le> k \<Longrightarrow> k < lo \<Longrightarrow> cmp (xs ! k) (xs ! lo) \<le> 0"
    and upper: "\<And>k. lo < k \<Longrightarrow> k < s + n \<Longrightarrow> cmp (xs ! lo) (xs ! k) \<le> 0"
  shows "qs_pending cmp N ((s, lo - s) # (lo + 1, s + n - (lo + 1)) # rs) xs"
proof -
  let ?rs = "(s, lo - s) # (lo + 1, s + n - (lo + 1)) # rs"
  have "cmp (xs ! i) (xs ! j) \<le> 0 \<or> (\<exists>r \<in> set ?rs. fst r \<le> i \<and> j < fst r + snd r)" if ij: "i < j" "j < N" for i j
  proof (cases "s \<le> i \<and> j < s + n")
    case True
    then consider "j < lo" | "j = lo" | "i = lo" | "i < lo" "lo < j" | "lo < i" using ij by linarith
    then show ?thesis
    proof cases
      case 4
      then have "cmp (xs ! i) (xs ! j) \<le> 0"
        using cmp_order.cmp_trans [OF o lower [of i] upper [of j]] True by simp
      then show ?thesis by simp
    qed (use True ij lower upper lo in auto)
  next
    case False
    then show ?thesis using p ij by (fastforce simp: qs_pending_def)
  qed
  then show ?thesis using p lo by (auto simp: qs_pending_def qs_apart_def)
qed

lemma nth_on_sub:
  assumes "s + n \<le> length xs" "length (f (take n (drop s xs))) = n"
  shows "on_sub s n f xs ! k = (if s \<le> k \<and> k < s + n then f (take n (drop s xs)) ! (k - s) else xs ! k)"
  using assms by (auto simp: on_sub_def nth_append not_less intro!: arg_cong [where f = "(!) xs"])

context array_sorter
begin

lemma on_sub_mset:
  assumes "cmp_order cmp" "s + n \<le> length xs"
  shows "mset (on_sub s n (sort_i cmp) xs) = mset xs"
proof -
  have "mset xs = mset (take s xs) + (mset (take n (drop s xs)) + mset (drop (s + n) xs))"
    by (metis add.commute append_take_drop_id drop_drop mset_append)
  then show ?thesis using assms by (simp add: on_sub_def sort_mset)
qed

lemma on_sub_pending:
  assumes "cmp_order cmp" "qs_pending cmp N ((s, n) # rs) xs"
  shows "qs_pending cmp N rs (on_sub s n (sort_i cmp) xs)"
proof -
  have sn: "s + n \<le> length xs" using assms(2) by (simp add: qs_pending_def)
  then have l: "length (sort_i cmp (take n (drop s xs))) = n" using assms(1) by (simp add: sort_length)
  note nth = nth_on_sub [where f = "sort_i cmp", OF sn l]
  have s: "sorted_wrt (\<lambda>x y. cmp x y \<le> 0) (sort_i cmp (take n (drop s xs)))" by (rule sort_sorted [OF assms(1)])
  have "qs_pending cmp N ((s, n) # rs) (on_sub s n (sort_i cmp) xs)"
    by (rule qs_pending_perm [OF assms(2) on_sub_mset [OF assms(1) sn]]) (auto simp: nth)
  then show ?thesis
  proof (rule qs_pending_solve)
    fix i j assume "s \<le> i" "i < j" "j < s + n"
    then show "cmp (on_sub s n (sort_i cmp) xs ! i) (on_sub s n (sort_i cmp) xs ! j) \<le> 0"
      using s l by (simp add: nth sorted_wrt_iff_nth_less)
  qed
qed

text \<open>What a step of quick sort owes to a sort of a pending sub-array.\<close>

lemma on_sub_step:
  assumes "cmp_order cmp" "qs_pending cmp N ((s, n) # rs) xs"
  shows "qs_pending cmp N rs (on_sub s n (sort_i cmp) xs) \<and> mset (on_sub s n (sort_i cmp) xs) = mset xs \<and>
    drop N (on_sub s n (sort_i cmp) xs) = drop N xs"
proof -
  have sn: "s + n \<le> N" "N \<le> length xs" using assms(2) by (simp_all add: qs_pending_def)
  then have sl: "s + n \<le> length xs" by simp
  then have l: "length (sort_i cmp (take n (drop s xs))) = n" using assms(1) by (simp add: sort_length)
  have m: "mset (on_sub s n (sort_i cmp) xs) = mset xs" by (rule on_sub_mset [OF assms(1) sl])
  then have "length (on_sub s n (sort_i cmp) xs) = length xs" by (metis size_mset)
  then have "drop N (on_sub s n (sort_i cmp) xs) = drop N xs"
    using sn by (intro nth_equalityI) (simp_all add: nth_on_sub [where f = "sort_i cmp", OF sl l])
  then show ?thesis using on_sub_pending [OF assms] m by blast
qed

end

section \<open>The main loop of quick sort\<close>

lemma qs_step:
  assumes o: "cmp_order cmp" and p: "qs_pending cmp N ((s, n) # rs) xs" and n: "9 \<le> n"
    and ws: "ws = (if qs_pivot cmp xs s n \<noteq> s then aswap xs s (qs_pivot cmp xs s n) else xs)"
  shows "\<exists>ys lo. qs_partition cmp ws s (s + 1) (s + n - 1) = Some (ys, lo, lo + 1) \<and> s \<le> lo \<and> lo < s + n \<and>
    mset (aswap ys s lo) = mset xs \<and> drop N (aswap ys s lo) = drop N xs \<and>
    qs_pending cmp N ((s, lo - s) # (lo + 1, s + n - (lo + 1)) # rs) (aswap ys s lo)"
proof -
  have sn: "s + n \<le> N" "N \<le> length xs" using p by (simp_all add: qs_pending_def)
  define pv where "pv = qs_pivot cmp xs s n"
  have pv: "s \<le> pv" "pv < s + n" using qs_pivot_in [OF n, of s cmp xs] by (simp_all add: pv_def)
  have "s < length xs" "pv < length xs" using sn pv n by linarith+
  then have w: "mset ws = mset xs" "\<forall>k. k < s \<or> s + n \<le> k \<longrightarrow> ws ! k = xs ! k"
    using pv n by (auto simp: ws pv_def [symmetric] nth_aswap)
  then have wl: "length ws = length xs" by (metis size_mset)
  obtain ys lo where q: "qs_partition cmp ws s (s + 1) (s + n - 1) = Some (ys, lo, lo + 1)" "mset ys = mset ws"
    "\<forall>k. k \<le> s \<or> s + n \<le> k \<longrightarrow> ys ! k = ws ! k" "s \<le> lo" "lo < s + n"
    "\<forall>k. s < k \<and> k \<le> lo \<longrightarrow> cmp (ys ! s) (ys ! k) \<ge> 0" "\<forall>k. lo < k \<and> k < s + n \<longrightarrow> cmp (ys ! s) (ys ! k) < 0"
  proof -
    have "s < s + 1" "s + 1 \<le> s + n - 1" "s + n - 1 < s + n" "s + n \<le> length ws" using n sn wl by linarith+
    moreover have "qs_split cmp ws s (s + n) (s + 1) (s + n - 1)" using n by (auto simp: qs_split_def)
    ultimately show thesis using qs_partition_ok [of s "s + 1" "s + n - 1" "s + n" ws cmp] that by blast
  qed
  have yl: "length ys = length xs" using q(2) wl by (metis size_mset)
  have b: "s < length ys" "lo < length ys" using yl sn q(4,5) by linarith+
  note nth = nth_aswap [OF b]
  have m: "mset (aswap ys s lo) = mset xs" using q(2) w(1) b by simp
  have out: "\<forall>k. k < s \<or> s + n \<le> k \<longrightarrow> aswap ys s lo ! k = xs ! k" using q(3,4,5) w(2) by (auto simp: nth)
  have "qs_pending cmp N ((s, n) # rs) (aswap ys s lo)" by (rule qs_pending_perm [OF p m out])
  then have "qs_pending cmp N ((s, lo - s) # (lo + 1, s + n - (lo + 1)) # rs) (aswap ys s lo)"
  proof (rule qs_pending_split [OF o _ q(4,5)])
    fix k assume k: "s \<le> k" "k < lo"
    then have "cmp (ys ! s) (if k = s then ys ! lo else ys ! k) \<ge> 0" using q(6) by auto
    then show "cmp (aswap ys s lo ! k) (aswap ys s lo ! lo) \<le> 0"
      using k cmp_order.cmp_sign(2,4) [OF o] by (auto simp: nth)
  next
    fix k assume k: "lo < k" "k < s + n"
    then show "cmp (aswap ys s lo ! lo) (aswap ys s lo ! k) \<le> 0" using q(4,7) by (auto simp: nth)
  qed
  moreover have "drop N (aswap ys s lo) = drop N xs"
    using sn yl out by (intro nth_equalityI) simp_all
  ultimately show ?thesis using q(1,4,5) m by blast
qed

text \<open>
  The depths on the stack decrease from its top, so it never holds more entries than the depth
  of the current sub-array, which stops growing at the bail-out depth.
\<close>

fun qs_stack_ok :: "nat \<Rightarrow> qswork list \<Rightarrow> bool" where
  "qs_stack_ok d [] = True"
| "qs_stack_ok d (w # ws) = (2 \<le> qs_depth w \<and> qs_depth w \<le> d \<and> 9 \<le> qs_nelem w \<and> qs_stack_ok (qs_depth w - 1) ws)"

definition qs_regions :: "qswork list \<Rightarrow> (nat \<times> nat) list" where
  "qs_regions = map (\<lambda>w. (qs_start w, qs_nelem w))"

lemma qs_stack_ok_mono: "qs_stack_ok d ws \<Longrightarrow> d \<le> d' \<Longrightarrow> qs_stack_ok d' ws"
  by (cases ws) auto

lemma qs_stack_length: "qs_stack_ok d ws \<Longrightarrow> 1 \<le> d \<Longrightarrow> length ws < d"
  by (induction d ws rule: qs_stack_ok.induct) fastforce+

lemma qs_loop_ok:
  assumes o: "cmp_order cmp" and bo: "bailout \<le> 45"
    and p: "qs_pending cmp N ((s, n) # qs_regions stack) xs" and n: "9 \<le> n"
    and st: "qs_stack_ok depth stack" "1 \<le> depth" "depth \<le> bailout + 1"
  shows "\<exists>ys. qs_loop cmp bailout xs s n depth stack = Some (Ok ys) \<and> mset ys = mset xs \<and>
    drop N ys = drop N xs \<and> qs_pending cmp N [] ys"
  using p n st
proof (induction "n + sum_list (map qs_nelem stack)" arbitrary: s n depth stack xs rule: less_induct)
  case less
  note p = less.prems(1) and n = less.prems(2) and st = less.prems(3-5)
  have pop: "\<exists>ys. (case stack of [] \<Rightarrow> Some (Ok ws)
      | w # stack \<Rightarrow> qs_loop cmp bailout ws (qs_start w) (qs_nelem w) (qs_depth w) stack) = Some (Ok ys) \<and>
      mset ys = mset xs \<and> drop N ys = drop N xs \<and> qs_pending cmp N [] ys"
    if w: "qs_pending cmp N (qs_regions stack) ws" "mset ws = mset xs" "drop N ws = drop N xs" for ws
  proof (cases stack)
    case Nil
    then show ?thesis using w by (simp add: qs_regions_def)
  next
    case (Cons v vs)
    have "\<exists>ys. qs_loop cmp bailout ws (qs_start v) (qs_nelem v) (qs_depth v) vs = Some (Ok ys) \<and> mset ys = mset ws \<and>
        drop N ys = drop N ws \<and> qs_pending cmp N [] ys"
      using w(1) st n by (intro less.hyps) (auto simp: Cons qs_regions_def intro: qs_stack_ok_mono)
    then show ?thesis using w by (simp add: Cons)
  qed
  show ?case
  proof (cases "depth > bailout")
    case True
    from hsort.on_sub_step [OF o p] show ?thesis
      using pop [of "on_sub s n (hsort_i cmp) xs"] True by (subst qs_loop.simps) (simp add: Let_def)
  next
    case False
    define ws where "ws = (if qs_pivot cmp xs s n \<noteq> s then aswap xs s (qs_pivot cmp xs s n) else xs)"
    obtain ys lo where q: "qs_partition cmp ws s (s + 1) (s + n - 1) = Some (ys, lo, lo + 1)" "s \<le> lo" "lo < s + n"
      "mset (aswap ys s lo) = mset xs" "drop N (aswap ys s lo) = drop N xs"
      "qs_pending cmp N ((s, lo - s) # (lo + 1, s + n - (lo + 1)) # qs_regions stack) (aswap ys s lo)"
      using qs_step [OF o p n ws_def] by blast
    define zs nl nh where "zs = aswap ys s lo" and "nl = lo - s" and "nh = s + n - (lo + 1)"
    have z: "mset zs = mset xs" "drop N zs = drop N xs" "qs_pending cmp N ((s, nl) # (lo + 1, nh) # qs_regions stack) zs"
      "nl + nh < n" using q by (simp_all add: zs_def nl_def nh_def)
    have ok: "qs_stack_ok (depth + 1) stack" "depth + 1 \<le> bailout + 1" "length stack < QS_MAXDEPTH"
      using st False bo qs_stack_length [OF st(1,2)] by (auto simp: QS_MAXDEPTH_def intro: qs_stack_ok_mono)
    have unfold: "qs_loop cmp bailout xs s n depth stack =
      (if nh > ISORT_THRESH
       then if nl > ISORT_THRESH
            then qs_loop cmp bailout zs (lo + 1) nh (depth + 1) (\<lparr>qs_start = s, qs_nelem = nl, qs_depth = depth + 1\<rparr> # stack)
            else qs_loop cmp bailout (on_sub s nl (isort_i cmp) zs) (lo + 1) nh (depth + 1) stack
       else let us = on_sub (lo + 1) nh (isort_i cmp) zs
            in if nl \<le> ISORT_THRESH
               then let us = on_sub s nl (isort_i cmp) us
                    in case stack of [] \<Rightarrow> Some (Ok us)
                       | w # stack \<Rightarrow> qs_loop cmp bailout us (qs_start w) (qs_nelem w) (qs_depth w) stack
               else qs_loop cmp bailout us s nl (depth + 1) stack)"
      using False ok(3) by (subst qs_loop.simps)
        (simp only: Let_def ws_def [symmetric] q(1) bind.simps prod.case zs_def nl_def nh_def if_False if_True)
    note lowfirst = isort.on_sub_step [OF o z(3)]
    note highfirst = isort.on_sub_step [OF o qs_pending_swap [OF z(3)]]
    show ?thesis
    proof (cases "nh > ISORT_THRESH")
      case h: True
      show ?thesis
      proof (cases "nl > ISORT_THRESH")
        case True
        have "\<exists>ys. qs_loop cmp bailout zs (lo + 1) nh (depth + 1) (\<lparr>qs_start = s, qs_nelem = nl, qs_depth = depth + 1\<rparr> # stack) =
            Some (Ok ys) \<and> mset ys = mset zs \<and> drop N ys = drop N zs \<and> qs_pending cmp N [] ys"
          using z h True st ok(2) qs_pending_swap [OF z(3)] n
          by (intro less.hyps) (simp_all add: qs_regions_def ISORT_THRESH_def)
        then show ?thesis unfolding unfold using h True z by simp
      next
        case False
        have "\<exists>ys. qs_loop cmp bailout (on_sub s nl (isort_i cmp) zs) (lo + 1) nh (depth + 1) stack = Some (Ok ys) \<and>
            mset ys = mset (on_sub s nl (isort_i cmp) zs) \<and> drop N ys = drop N (on_sub s nl (isort_i cmp) zs) \<and> qs_pending cmp N [] ys"
          using lowfirst h ok n z(4) by (intro less.hyps) (simp_all add: ISORT_THRESH_def)
        then show ?thesis unfolding unfold using h False z lowfirst by simp
      qed
    next
      case h: False
      define us where "us = on_sub (lo + 1) nh (isort_i cmp) zs"
      note hf = highfirst [folded us_def]
      show ?thesis
      proof (cases "nl > ISORT_THRESH")
        case True
        have "\<exists>ys. qs_loop cmp bailout us s nl (depth + 1) stack = Some (Ok ys) \<and> mset ys = mset us \<and>
            drop N ys = drop N us \<and> qs_pending cmp N [] ys"
          using hf True ok n z(4) by (intro less.hyps) (simp_all add: ISORT_THRESH_def)
        then show ?thesis unfolding unfold us_def [symmetric] Let_def using h True z hf by simp
      next
        case False
        from hf have "qs_pending cmp N ((s, nl) # qs_regions stack) us" by blast
        note lf = isort.on_sub_step [OF o this]
        have "\<exists>ys. (case stack of [] \<Rightarrow> Some (Ok (on_sub s nl (isort_i cmp) us))
          | w # stack \<Rightarrow> qs_loop cmp bailout (on_sub s nl (isort_i cmp) us) (qs_start w) (qs_nelem w) (qs_depth w) stack) = Some (Ok ys) \<and>
          mset ys = mset xs \<and> drop N ys = drop N xs \<and> qs_pending cmp N [] ys"
          using lf hf z by (intro pop) simp_all
        then show ?thesis unfolding unfold us_def [symmetric] Let_def using h False by simp
      qed
    qed
  qed
qed

lemma qsort_array_ok:
  assumes o: "cmp_order cmp" and n: "nelem \<le> length xs" "esize \<noteq> 0"
  shows "\<exists>ys. qsort_array (Some xs) nelem esize (Some cmp) = Some (Ok (Some ys)) \<and> mset ys = mset xs \<and>
    sorted_wrt (\<lambda>x y. cmp x y \<le> 0) (take nelem ys) \<and> drop nelem ys = drop nelem xs"
proof (cases "nelem \<le> ISORT_THRESH")
  case True
  then have "qsort_array (Some xs) nelem esize (Some cmp) = Some (Ok (sort_guarded isort_i (Some xs) nelem esize (Some cmp)))"
    by (auto simp: qsort_array_def sort_guarded_def)
  then show ?thesis using isort.guarded_sorts [OF o n] by auto
next
  case False
  define b where "b = (if qs_log2 nelem * 2 > QS_MAXDEPTH - 3 then QS_MAXDEPTH - 3 else qs_log2 nelem * 2)"
  have "b \<le> 45" by (simp add: b_def QS_MAXDEPTH_def)
  moreover have "qs_pending cmp nelem ((0, nelem) # qs_regions []) xs"
    using n qs_pending_first by (simp add: qs_regions_def)
  ultimately obtain ys where ys: "qs_loop cmp b xs 0 nelem 1 [] = Some (Ok ys)" "mset ys = mset xs"
    "drop nelem ys = drop nelem xs" "qs_pending cmp nelem [] ys"
    using qs_loop_ok [OF o, of b nelem 0 nelem "[]" xs 1] False by (auto simp: ISORT_THRESH_def)
  have "qsort_array (Some xs) nelem esize (Some cmp) = map_option (\<lambda>r. obind r (\<lambda>xs. Ok (Some xs))) (qs_loop cmp b xs 0 nelem 1 [])"
    using False n unfolding b_def by (simp add: qsort_array_def ISORT_THRESH_def Let_def)
  then show ?thesis using ys qs_pending_sorted [OF ys(4)] by simp
qed

section \<open>Permuting along a pointer vector\<close>

text \<open>
  Inside a cycle: \<open>to\<close> is the slot whose content has moved away, \<open>tmp\<close> the element that opened
  the cycle at \<open>hi\<close>, and \<open>T\<close> the array that the vector asked for at the start.
\<close>

definition perm_vec :: "nat list \<Rightarrow> nat \<Rightarrow> bool" where
  "perm_vec varr n \<longleftrightarrow> mset varr = mset [0..<n]"

definition cycle_inv :: "nat \<Rightarrow> (nat \<Rightarrow> 'a) \<Rightarrow> 'a \<Rightarrow> nat \<Rightarrow> 'a list \<Rightarrow> nat list \<Rightarrow> nat \<Rightarrow> bool" where
  "cycle_inv n T tmp hi xs varr to \<longleftrightarrow>
     length xs = n \<and> length varr = n \<and> hi < n \<and> to < n \<and> to \<noteq> hi \<and> varr ! hi = hi \<and> to \<notin> set varr \<and>
     perm_vec (varr[hi := to]) n \<and> (\<forall>i < hi. varr ! i = i) \<and>
     (\<forall>i < n. T i = (if varr ! i = hi \<and> i \<noteq> hi then tmp else xs ! (varr ! i)))"

lemma perm_vec_props:
  assumes "perm_vec v n"
  shows "length v = n" "distinct v" "i < n \<Longrightarrow> v ! i < n" "i < n \<Longrightarrow> j < n \<Longrightarrow> v ! i = v ! j \<longleftrightarrow> i = j"
proof -
  show l: "length v = n" using assms by (metis length_upt minus_nat.diff_0 perm_vec_def size_mset)
  show d: "distinct v" using assms by (metis distinct_upt mset_eq_imp_distinct_iff perm_vec_def)
  have "set v = {..<n}" using assms by (metis atLeast_upt mset_eq_setD perm_vec_def)
  then show "i < n \<Longrightarrow> v ! i < n" using l by (metis lessThan_iff nth_mem)
  show "i < n \<Longrightarrow> j < n \<Longrightarrow> v ! i = v ! j \<longleftrightarrow> i = j" using l d by (simp add: nth_eq_iff_index_eq)
qed

lemma perm_vec_swap: "perm_vec v n \<Longrightarrow> i < n \<Longrightarrow> j < n \<Longrightarrow> perm_vec (aswap v i j) n"
  using perm_vec_props(1) by (metis mset_aswap perm_vec_def)

lemma cycle_inv_facts:
  assumes "cycle_inv n T tmp hi xs varr to"
  shows "varr ! to < n" "varr ! to \<noteq> to" "\<And>i. i < n \<Longrightarrow> i \<noteq> to \<Longrightarrow> i \<noteq> hi \<Longrightarrow> varr ! i \<noteq> varr ! to"
    "perm_vec (varr[to := to, hi := varr ! to]) n"
proof -
  let ?u = "varr[hi := to]"
  have c: "length varr = n" "hi < n" "to < n" "to \<noteq> hi" "to \<notin> set varr" "perm_vec ?u n"
    using assms by (simp_all add: cycle_inv_def)
  note P = perm_vec_props [OF c(6)]
  have u: "?u ! to = varr ! to" using c by simp
  show "varr ! to < n" using P(3) [OF c(3)] u by simp
  show "varr ! to \<noteq> to" using c by (metis nth_mem)
  show "\<And>i. i < n \<Longrightarrow> i \<noteq> to \<Longrightarrow> i \<noteq> hi \<Longrightarrow> varr ! i \<noteq> varr ! to" using P(4) [OF _ c(3)] c by fastforce
  have "aswap ?u hi to = varr[to := to, hi := varr ! to]"
    using c by (simp add: aswap_def list_update_swap)
  then show "perm_vec (varr[to := to, hi := varr ! to]) n" using perm_vec_swap [OF c(6,2,3)] by simp
qed

lemma cycle_inv_step:
  assumes c: "cycle_inv n T tmp hi xs varr to" and go: "varr ! to \<noteq> hi"
  shows "cycle_inv n T tmp hi (xs[to := xs ! (varr ! to)]) (varr[to := to]) (varr ! to)"
proof -
  note F = cycle_inv_facts [OF c]
  have C: "length xs = n" "length varr = n" "hi < n" "to < n" "to \<noteq> hi" "varr ! hi = hi" "to \<notin> set varr"
    "\<forall>i < hi. varr ! i = i" "\<forall>i < n. T i = (if varr ! i = hi \<and> i \<noteq> hi then tmp else xs ! (varr ! i))"
    using c by (simp_all add: cycle_inv_def)
  have nt: "varr ! i \<noteq> to" if "i < n" for i using C(2,7) that by (metis nth_mem)
  have "varr ! to \<notin> set (varr[to := to])"
  proof
    assume "varr ! to \<in> set (varr[to := to])"
    then obtain i where i: "i < n" "varr[to := to] ! i = varr ! to" using C(2) by (metis in_set_conv_nth length_list_update)
    then show False using F(2) F(3) [of i] C(2,4,6) go by (cases "i = to"; cases "i = hi") auto
  qed
  moreover have "\<forall>i < n. T i = (if varr[to := to] ! i = hi \<and> i \<noteq> hi then tmp else xs[to := xs ! (varr ! to)] ! (varr[to := to] ! i))"
    using C go nt by (auto simp: nth_list_update)
  ultimately show ?thesis using C F(1,4) go by (simp add: cycle_inv_def nth_list_update)
qed

lemma permute_cycle_ok:
  assumes "cycle_inv n T tmp hi xs varr to" "varr ! to \<noteq> hi"
  shows "\<exists>ys v to'. permute_cycle hi xs varr to to = Some (ys, v, to', to') \<and> cycle_inv n T tmp hi ys v to' \<and> v ! to' = hi"
  using assms
proof (induction "card {i. i < n \<and> varr ! i \<noteq> i}" arbitrary: xs varr to rule: less_induct)
  case less
  note c = less.prems(1) and go = less.prems(2)
  note F = cycle_inv_facts [OF c]
  define ys v where "ys = xs[to := xs ! (varr ! to)]" and "v = varr[to := to]"
  have c': "cycle_inv n T tmp hi ys v (varr ! to)" using cycle_inv_step [OF c go] by (simp add: ys_def v_def)
  have step: "permute_cycle hi xs varr to to =
      (if v ! (varr ! to) \<noteq> hi then permute_cycle hi ys v (varr ! to) (varr ! to) else Some (ys, v, varr ! to, varr ! to))"
    by (subst permute_cycle.simps) (simp add: Let_def ys_def v_def)
  have t: "to < n" "length varr = n" using c by (simp_all add: cycle_inv_def)
  then have "{i. i < n \<and> v ! i \<noteq> i} \<subset> {i. i < n \<and> varr ! i \<noteq> i}"
    using F(2) by (auto simp: v_def nth_list_update)
  then have "card {i. i < n \<and> v ! i \<noteq> i} < card {i. i < n \<and> varr ! i \<noteq> i}" by (intro psubset_card_mono) simp_all
  then show ?case using less.hyps [OF _ c'] c' step by (cases "v ! (varr ! to) = hi") simp_all
qed

lemma cycle_start:
  assumes "perm_vec varr n" "length xs = n" "hi < n" "varr ! hi \<noteq> hi" "\<forall>i < hi. varr ! i = i"
    "\<forall>i < n. T i = xs ! (varr ! i)"
  shows "cycle_inv n T (xs ! hi) hi (xs[hi := xs ! (varr ! hi)]) (varr[hi := hi]) (varr ! hi)"
proof -
  note P = perm_vec_props [OF assms(1)]
  have "varr ! hi \<notin> set (varr[hi := hi])"
  proof
    assume "varr ! hi \<in> set (varr[hi := hi])"
    then obtain i where "i < n" "varr[hi := hi] ! i = varr ! hi" using P(1) by (metis in_set_conv_nth length_list_update)
    then show False using P(1) P(4) [of i hi] assms(3,4) by (cases "i = hi") auto
  qed
  moreover have "\<forall>i < n. T i = (if varr[hi := hi] ! i = hi \<and> i \<noteq> hi then xs ! hi else xs[hi := xs ! (varr ! hi)] ! (varr[hi := hi] ! i))"
    using assms P(1) by (auto simp: nth_list_update)
  moreover have "varr[hi := hi, hi := varr ! hi] = varr" by simp
  moreover have "varr ! hi < n" using P(3) assms(3) by blast
  moreover have "\<forall>i < hi. varr[hi := hi] ! i = i" using assms(5) by simp
  ultimately show ?thesis unfolding cycle_inv_def using assms(1-4) P(1) by (simp del: split_paired_All)
qed

lemma cycle_finish:
  assumes c: "cycle_inv n T tmp hi xs varr to" and fin: "varr ! to = hi"
  shows "perm_vec (varr[to := to]) n \<and> length (xs[to := tmp]) = n \<and> (\<forall>i \<le> hi. varr[to := to] ! i = i) \<and>
    (\<forall>i < n. T i = xs[to := tmp] ! (varr[to := to] ! i))"
proof -
  note F = cycle_inv_facts [OF c]
  have C: "length xs = n" "length varr = n" "hi < n" "to < n" "to \<noteq> hi" "varr ! hi = hi" "to \<notin> set varr"
    "\<forall>i < hi. varr ! i = i" "\<forall>i < n. T i = (if varr ! i = hi \<and> i \<noteq> hi then tmp else xs ! (varr ! i))"
    using c by (simp_all add: cycle_inv_def)
  have nt: "varr ! i \<noteq> to" if "i < n" for i using C(2,7) that by (metis nth_mem)
  have "varr[to := to, hi := hi] = varr[to := to]" using C by (metis length_list_update list_update_id nth_list_update_neq)
  then have "perm_vec (varr[to := to]) n" using F(4) fin by simp
  moreover have "\<forall>i \<le> hi. varr[to := to] ! i = i" using C by (auto simp: nth_list_update le_less)
  moreover have "T i = xs[to := tmp] ! (varr[to := to] ! i)" if "i < n" for i
  proof (cases "i = to")
    case False
    then have "i \<noteq> hi \<Longrightarrow> varr ! i \<noteq> hi" using F(3) [OF that False] fin by simp
    then have "T i = xs ! (varr ! i)" using C(9) that by metis
    then show ?thesis using False nt [OF that] C(2) by (simp add: nth_list_update)
  qed (use C fin in simp)
  ultimately show ?thesis using C(1) by simp
qed

lemma permute_loop_ok:
  assumes "perm_vec varr n" "length xs = n" "hi + left = n" "\<forall>i < hi. varr ! i = i" "\<forall>i < n. T i = xs ! (varr ! i)"
  shows "permute_loop left hi xs varr = Some (map T [0..<n], [0..<n])"
  using assms
proof (induction left arbitrary: hi xs varr)
  case 0
  then have "varr = [0..<n]" "xs = map T [0..<n]" using perm_vec_props(1) [OF 0(1)] by (auto intro!: nth_equalityI)
  then show ?case by simp
next
  case (Suc left)
  show ?case
  proof (cases "varr ! hi = hi")
    case True
    then show ?thesis using Suc by (simp add: less_Suc_eq)
  next
    case False
    define xs1 v1 to1 where "xs1 = xs[hi := xs ! (varr ! hi)]" and "v1 = varr[hi := hi]" and "to1 = varr ! hi"
    have c1: "cycle_inv n T (xs ! hi) hi xs1 v1 to1"
      using cycle_start [OF Suc.prems(1,2) _ False Suc.prems(4,5)] Suc.prems(3) by (simp add: xs1_def v1_def to1_def)
    have first: "permute_cycle hi xs varr hi hi =
        (if v1 ! to1 \<noteq> hi then permute_cycle hi xs1 v1 to1 to1 else Some (xs1, v1, to1, to1))"
      by (subst permute_cycle.simps) (simp add: Let_def xs1_def v1_def to1_def)
    obtain ys v to where r: "permute_cycle hi xs varr hi hi = Some (ys, v, to, to)" "cycle_inv n T (xs ! hi) hi ys v to" "v ! to = hi"
    proof (cases "v1 ! to1 = hi")
      case True
      then show thesis using that first c1 by simp
    next
      case False
      then show thesis using that first permute_cycle_ok [OF c1 False] by auto
    qed
    from cycle_finish [OF r(2,3)] have "permute_loop left (hi + 1) (ys[to := xs ! hi]) (v[to := to]) = Some (map T [0..<n], [0..<n])"
      using Suc.prems(3) by (intro Suc.IH) auto
    then show ?thesis using False r(1) by simp
  qed
qed

lemma permute_array_ok:
  assumes "mset varr = mset [0..<n]" "length xs = n" "esize \<noteq> 0" "\<not> too_many n esize"
  shows "permute_array xs varr n esize = Some (map (\<lambda>i. xs ! (varr ! i)) [0..<n], [0..<n])"
proof (cases "n < 2")
  case True
  have p: "perm_vec varr n" using assms(1) by (simp add: perm_vec_def)
  have "n = 0 \<or> n = 1" using True by auto
  then have "varr = [0..<n]" using perm_vec_props(1,3) [OF p] by (auto intro!: nth_equalityI)
  moreover have "map (\<lambda>i. xs ! i) [0..<n] = xs" using assms(2) map_nth [of xs] by simp
  moreover have "map (\<lambda>i. xs ! ([0..<n] ! i)) [0..<n] = map (\<lambda>i. xs ! i) [0..<n]" by simp
  ultimately show ?thesis using True by (simp add: permute_array_def)
next
  case False
  then show ?thesis using assms permute_loop_ok [of varr n xs 0 n "\<lambda>i. xs ! (varr ! i)"]
    by (simp add: permute_array_def perm_vec_def)
qed

section \<open>Properties\<close>

text \<open>C2: \<open>qsort_array\<close> returns on every input: it neither loops nor writes past its work
  stack of 48 entries, and the first \<open>nelem\<close> elements come back in ascending order, the same
  elements as before, with everything beyond them untouched.\<close>

theorem qsort_array_sorts:
  assumes "cmp_order cmp" "nelem \<le> length xs" "esize \<noteq> 0"
  shows "\<exists>ys. qsort_array (Some xs) nelem esize (Some cmp) = Some (Ok (Some ys)) \<and>
    mset (take nelem ys) = mset (take nelem xs) \<and> sorted_wrt (\<lambda>x y. cmp x y \<le> 0) (take nelem ys) \<and>
    drop nelem ys = drop nelem xs"
proof -
  obtain ys where ys: "qsort_array (Some xs) nelem esize (Some cmp) = Some (Ok (Some ys))" "mset ys = mset xs"
    "sorted_wrt (\<lambda>x y. cmp x y \<le> 0) (take nelem ys)" "drop nelem ys = drop nelem xs"
    using qsort_array_ok [OF assms] by blast
  have "mset (take nelem zs) + mset (drop nelem zs) = mset zs" for zs :: "'a list"
    by (metis append_take_drop_id mset_append)
  then show ?thesis using ys by (metis add_right_cancel)
qed

lemma qsort_array_sorts_witness:
  "\<exists>ys. qsort_array (Some [9, 3, 7, 1, 8, 2, 6, 4, 5, 0 :: int]) 9 4 (Some (\<lambda>x y. x - y)) = Some (Ok (Some ys)) \<and>
     take 9 ys = [1, 2, 3, 4, 5, 6, 7, 8, 9] \<and> drop 9 ys = [0]"
proof -
  obtain ys where ys: "qsort_array (Some [9, 3, 7, 1, 8, 2, 6, 4, 5, 0 :: int]) 9 4 (Some (\<lambda>x y. x - y)) = Some (Ok (Some ys))"
    "mset (take 9 ys) = mset [9, 3, 7, 1, 8, 2, 6, 4, 5 :: int]" "sorted_wrt (\<lambda>x y. x - y \<le> (0 :: int)) (take 9 ys)" "drop 9 ys = [0]"
    using qsort_array_sorts [OF cmp_order_diff, of 9 "[9, 3, 7, 1, 8, 2, 6, 4, 5, 0]" 4] by auto
  have "take 9 ys = sort [9, 3, 7, 1, 8, 2, 6, 4, 5]"
    using ys(2,3) by (intro properties_for_sort [symmetric]) simp_all
  then show ?thesis using ys(1,4) by simp
qed

text \<open>C22: Insertion, selection and heap sort each return the first \<open>nelem\<close> elements in ascending
  order and leave the rest of the array alone; insertion sort moreover keeps equal elements in
  their original order.  With a NULL array or comparison, one element or a zero element size
  they change nothing.\<close>

theorem simple_sorts_correct:
  assumes "cmp_order cmp" "nelem \<le> length xs" "esize \<noteq> 0" "f \<in> {isort_array, ssort_array, hsort_array}"
  shows "(\<exists>ys. f (Some xs) nelem esize (Some cmp) = Some ys \<and> mset ys = mset xs \<and>
      sorted_wrt (\<lambda>x y. cmp x y \<le> 0) (take nelem ys) \<and> drop nelem ys = drop nelem xs) \<and>
    (\<exists>ys. isort_array (Some xs) (length xs) esize (Some cmp) = Some ys \<and>
      filter (\<lambda>x. cmp x z = 0) ys = filter (\<lambda>x. cmp x z = 0) xs) \<and>
    f None nelem esize (Some cmp) = None \<and> f (Some xs) nelem esize None = Some xs \<and>
    f (Some xs) nelem 0 (Some cmp) = Some xs \<and> f (Some xs) 1 esize (Some cmp) = Some xs"
proof -
  have st: "\<exists>ys. isort_array (Some xs) (length xs) esize (Some cmp) = Some ys \<and>
      filter (\<lambda>x. cmp x z = 0) ys = filter (\<lambda>x. cmp x z = 0) xs"
    using isort_stable [OF assms(1), of z xs]
    by (auto simp: isort_array_def sort_guarded_def on_sub_def)
  consider "f = isort_array" | "f = ssort_array" | "f = hsort_array" using assms(4) by auto
  then show ?thesis
  proof cases
    case 1 then show ?thesis using isort.guarded_sorts [OF assms(1-3)] st
      by (simp only: isort_array_def) (simp add: sort_guarded_def)
  next
    case 2 then show ?thesis using ssort.guarded_sorts [OF assms(1-3)] st
      by (simp only: ssort_array_def) (simp add: sort_guarded_def)
  next
    case 3 then show ?thesis using hsort.guarded_sorts [OF assms(1-3)] st
      by (simp only: hsort_array_def) (simp add: sort_guarded_def)
  qed
qed

lemma simple_sorts_correct_witness:
  "\<exists>ys. hsort_array (Some [3, 1, 2 :: int]) 3 4 (Some (\<lambda>x y. x - y)) = Some ys \<and> ys = [1, 2, 3]"
proof -
  have "hsort_array \<in> {isort_array, ssort_array, hsort_array}" by simp
  from simple_sorts_correct [OF cmp_order_diff, of 3 "[3, 1, 2]" 4, OF _ _ this, THEN conjunct1]
  have "\<exists>ys. hsort_array (Some [3, 1, 2 :: int]) 3 4 (Some (\<lambda>x y. x - y)) = Some ys \<and> mset ys = mset [3, 1, 2] \<and>
    sorted_wrt (\<lambda>x y. x - y \<le> (0 :: int)) (take 3 ys) \<and> drop 3 ys = []" by simp
  then obtain ys where "hsort_array (Some [3, 1, 2 :: int]) 3 4 (Some (\<lambda>x y. x - y)) = Some ys" "mset ys = mset [3, 1, 2]"
    "sorted_wrt (\<lambda>x y. x - y \<le> (0 :: int)) (take 3 ys)" "drop 3 ys = []" by blast
  moreover from this have "ys = sort [3, 1, 2]" by (intro properties_for_sort [symmetric]) auto
  ultimately show ?thesis by simp
qed

text \<open>C11: Sorting an array indirectly: filling a pointer vector with \<open>array_to_voidp\<close>, sorting
  the pointers with \<open>qsort_array\<close> by what they point to and moving the elements with
  \<open>permute_array\<close>, each of which returns, leaves the array sorted, with its elements
  unchanged as a multiset, and every pointer of the vector at its own slot again.\<close>

theorem indirect_sort_correct:
  assumes "cmp_order cmp" "n = length xs" "esize \<noteq> 0" "\<not> too_many n esize" "length varr0 = n"
  shows "\<exists>varr ys. qsort_array (Some (array_to_voidp varr0 n esize)) n 8 (Some (\<lambda>p q. cmp (xs ! p) (xs ! q))) =
      Some (Ok (Some varr)) \<and>
    permute_array xs varr n esize = Some (ys, [0..<n]) \<and> mset ys = mset xs \<and> sorted_wrt (\<lambda>x y. cmp x y \<le> 0) ys"
proof -
  have o: "cmp_order (\<lambda>p q. cmp (xs ! p) (xs ! q))"
    using assms(1) unfolding cmp_order_def by blast
  have v: "array_to_voidp varr0 n esize = [0..<n]"
    using assms by (cases "n = 0") (simp_all add: array_to_voidp_def)
  obtain varr where q: "qsort_array (Some [0..<n]) n 8 (Some (\<lambda>p q. cmp (xs ! p) (xs ! q))) = Some (Ok (Some varr))"
    "mset varr = mset [0..<n]" "sorted_wrt (\<lambda>p q. cmp (xs ! p) (xs ! q) \<le> 0) (take n varr)"
    using qsort_array_ok [OF o, of n "[0..<n]" 8] by auto
  have l: "length varr = n" using q(2) by (metis length_upt minus_nat.diff_0 size_mset)
  define ys where "ys = map (\<lambda>i. xs ! (varr ! i)) [0..<n]"
  have ys: "ys = map ((!) xs) varr" using l by (auto simp: ys_def intro: nth_equalityI)
  have "mset ys = image_mset ((!) xs) (mset [0..<n])" unfolding ys q(2) [symmetric] by simp
  also have "\<dots> = mset xs" by (metis assms(2) map_nth mset_map)
  finally have "mset ys = mset xs" .
  moreover have "sorted_wrt (\<lambda>x y. cmp x y \<le> 0) ys" using q(3) l by (simp add: ys sorted_wrt_map)
  ultimately show ?thesis using q(1) v permute_array_ok [OF q(2) assms(2) [symmetric] assms(3,4)] by (auto simp: ys_def)
qed

lemma indirect_sort_correct_witness:
  "\<exists>varr. permute_array [5, 2, 9 :: int] varr 3 4 = Some ([2, 5, 9], [0..<3])"
proof -
  obtain varr ys where r: "permute_array [5, 2, 9 :: int] varr 3 4 = Some (ys, [0..<3])" "mset ys = mset [5, 2, 9]"
    "sorted_wrt (\<lambda>x y. x - y \<le> (0 :: int)) ys"
    using indirect_sort_correct [OF cmp_order_diff, of 3 "[5, 2, 9]" 4 "[0, 0, 0]"] by (auto simp: too_many_def)
  then have "ys = sort [5, 2, 9]" by (intro properties_for_sort [symmetric]) auto
  then show ?thesis using r(1) by auto
qed

end
