(* ===== verification/CString.thy ===== *)
theory CString
  imports CatPrelude
begin

text \<open>
  The string and memory functions of src/catlibc.c, the raw blobs of src/raw.c and the
  comparison functions of src/aux.c.

  A pointer is the list of bytes from its target to the end of the object, so \<open>*p\<close> is the head
  and \<open>p + 1\<close> the tail; reading the empty list is an access past the object and faults.
  \<open>char\<close> is signed, \<open>uchar\<close> is not.  The functions that move bytes inside one object
  (\<open>memmove\<close>) take the object and offsets.
\<close>

section \<open>Memory\<close>

fun memcmp :: "byte list \<Rightarrow> byte list \<Rightarrow> nat \<Rightarrow> int outcome" where
  "memcmp b1 b2 0 = Ok 0"
| "memcmp (x # b1) (y # b2) (Suc len) = (if x = y then memcmp b1 b2 len else Ok (uint x - uint y))"
| "memcmp b1 b2 (Suc len) = Fault"

fun move_up :: "byte list \<Rightarrow> nat \<Rightarrow> nat \<Rightarrow> nat \<Rightarrow> byte list" where
  "move_up mem d s 0 = mem"
| "move_up mem d s (Suc len) = move_up (mem[d := mem ! s]) (d + 1) (s + 1) len"

fun move_down :: "byte list \<Rightarrow> nat \<Rightarrow> nat \<Rightarrow> nat \<Rightarrow> byte list" where
  "move_down mem d s 0 = mem"
| "move_down mem d s (Suc len) = move_down (mem[d - 1 := mem ! (s - 1)]) (d - 1) (s - 1) len"

definition memmove :: "byte list \<Rightarrow> nat \<Rightarrow> nat \<Rightarrow> nat \<Rightarrow> byte list outcome" where
  "memmove mem dst src len =
     (if dst + len \<le> length mem \<and> src + len \<le> length mem
      then Ok (if src < dst then move_up mem dst src len
               else if src > dst then move_down mem (dst + len) (src + len) len
               else mem)
      else Fault)"

definition memcpy :: "byte list \<Rightarrow> nat \<Rightarrow> nat \<Rightarrow> nat \<Rightarrow> byte list outcome" where
  "memcpy = memmove"

fun memset :: "byte list \<Rightarrow> byte \<Rightarrow> nat \<Rightarrow> byte list outcome" where
  "memset p c 0 = Ok p"
| "memset [] c (Suc len) = Fault"
| "memset (x # p) c (Suc len) = memset (c # p) c len"

section \<open>Strings\<close>

fun strlen :: "byte list \<Rightarrow> nat outcome" where
  "strlen [] = Fault"
| "strlen (c # s) = (if c = 0 then Ok 0 else obind (strlen s) (\<lambda>n. Ok (n + 1)))"

definition str_diff :: "byte \<Rightarrow> byte \<Rightarrow> int" where
  "str_diff x y = (if x = y then 0 else if x = 0 then -1 else if y = 0 then 1 else uint x - uint y)"

fun strcmp :: "byte list \<Rightarrow> byte list \<Rightarrow> int outcome" where
  "strcmp (x # c1) (y # c2) = (if x = y \<and> x \<noteq> 0 \<and> y \<noteq> 0 then strcmp c1 c2 else Ok (str_diff x y))"
| "strcmp c1 c2 = Fault"

fun strncmp :: "byte list \<Rightarrow> byte list \<Rightarrow> nat \<Rightarrow> int outcome" where
  "strncmp c1 c2 0 = Ok 0"
| "strncmp (x # c1) (y # c2) (Suc n) =
     (if x = y \<and> x \<noteq> 0 \<and> y \<noteq> 0 then strncmp c1 c2 n else Ok (str_diff x y))"
| "strncmp c1 c2 (Suc n) = Fault"

text \<open>The pointer \<open>strchr\<close> returns is the offset into the string, NULL is \<open>None\<close>.\<close>

fun strchr :: "byte list \<Rightarrow> int \<Rightarrow> nat option outcome" where
  "strchr [] ch = Fault"
| "strchr (c # s) ch =
     (if c = 0 then Ok None
      else if sint c = ch then Ok (Some 0)
      else obind (strchr s ch) (\<lambda>r. Ok (map_option Suc r)))"

text \<open>\<open>strrchr\<close> never advances \<open>s\<close>: \<open>None\<close> stands for a call that does not return.\<close>

partial_function (option) strrchr_loop :: "byte list \<Rightarrow> int \<Rightarrow> nat option \<Rightarrow> nat option outcome option" where
  "strrchr_loop s ch lst =
     (case s of [] \<Rightarrow> Some Fault
      | c # s' \<Rightarrow> if c \<noteq> 0 then strrchr_loop s ch (if sint c = ch then Some 0 else lst) else Some (Ok lst))"

definition strrchr :: "byte list \<Rightarrow> int \<Rightarrow> nat option outcome option" where
  "strrchr s ch = strrchr_loop s ch None"

fun strcpy :: "byte list \<Rightarrow> byte list \<Rightarrow> byte list outcome" where
  "strcpy (d # dst) (c # src) =
     (if c = 0 then Ok (c # dst) else obind (strcpy dst src) (\<lambda>r. Ok (c # r)))"
| "strcpy dst src = Fault"

text \<open>The bit map of \<open>strspn\<close>: one bit per byte value in 32 bytes.\<close>

definition map_set :: "byte list \<Rightarrow> byte \<Rightarrow> byte list" where
  "map_set mp p =
     mp[unat (drop_bit 3 p) := mp ! unat (drop_bit 3 p) OR push_bit (unat (p AND 7)) 1]"

definition map_has :: "byte list \<Rightarrow> byte \<Rightarrow> bool" where
  "map_has mp p \<longleftrightarrow> mp ! unat (drop_bit 3 p) AND push_bit (unat (p AND 7)) 1 \<noteq> 0"

fun spn_fill :: "byte list \<Rightarrow> byte list \<Rightarrow> byte list outcome" where
  "spn_fill mp [] = Fault"
| "spn_fill mp (p # ps) = (if p \<noteq> 0 then spn_fill (map_set mp p) ps else Ok mp)"

fun cspn_fill :: "byte list \<Rightarrow> byte list \<Rightarrow> byte list outcome" where
  "cspn_fill mp [] = Fault"
| "cspn_fill mp (p # ps) = (let mp = map_set mp p in if p \<noteq> 0 then cspn_fill mp ps else Ok mp)"

fun spn_count :: "bool \<Rightarrow> byte list \<Rightarrow> byte list \<Rightarrow> nat outcome" where
  "spn_count want mp [] = Fault"
| "spn_count want mp (p # s) =
     (if map_has mp p = want then obind (spn_count want mp s) (\<lambda>n. Ok (n + 1)) else Ok 0)"

definition strspn :: "byte list \<Rightarrow> byte list \<Rightarrow> nat outcome" where
  "strspn s accept = obind (spn_fill (replicate 32 0) accept) (\<lambda>mp. spn_count True mp s)"

definition strcspn :: "byte list \<Rightarrow> byte list \<Rightarrow> nat outcome" where
  "strcspn s reject = obind (cspn_fill (replicate 32 0) reject) (\<lambda>mp. spn_count False mp s)"

text \<open>\<open>malloc\<close> is a parameter: the fresh object of the size asked for, or NULL.\<close>

definition strdup :: "(nat \<Rightarrow> byte list option) \<Rightarrow> byte list \<Rightarrow> byte list option outcome" where
  "strdup malloc s =
     obind (strlen s) (\<lambda>n. case malloc (n + 1) of
         None \<Rightarrow> Ok None
       | Some ns \<Rightarrow> obind (block_read s 0 (n + 1)) (\<lambda>bs.
           obind (block_write ns 0 bs) (\<lambda>ns. Ok (Some ns))))"

section \<open>Character classes\<close>

definition isdigit :: "int \<Rightarrow> bool" where "isdigit c \<longleftrightarrow> c \<ge> 48 \<and> c \<le> 57"

definition isxdigit :: "int \<Rightarrow> bool" where
  "isxdigit c \<longleftrightarrow> c \<ge> 48 \<and> c \<le> 57 \<or> c \<ge> 97 \<and> c \<le> 102 \<or> (c \<ge> 65 \<or> c \<le> 70)"

definition isspace :: "int \<Rightarrow> bool" where "isspace c \<longleftrightarrow> c = 32 \<or> c = 9"

definition isprint :: "int \<Rightarrow> bool" where "isprint c \<longleftrightarrow> c \<ge> 32 \<and> c \<le> 126"

definition islower :: "int \<Rightarrow> bool" where "islower c \<longleftrightarrow> c \<ge> 97 \<and> c \<le> 122"

definition isupper :: "int \<Rightarrow> bool" where "isupper c \<longleftrightarrow> c \<ge> 65 \<and> c \<le> 90"

definition toupper :: "int \<Rightarrow> int" where "toupper c = (if c \<ge> 97 \<and> c \<le> 122 then c - (97 - 65) else c)"

definition tolower :: "int \<Rightarrow> int" where "tolower c = (if c \<ge> 65 \<and> c \<le> 90 then c + (97 - 65) else c)"

definition isalpha :: "int \<Rightarrow> bool" where
  "isalpha c \<longleftrightarrow> (let uc = toupper c in uc \<ge> 65 \<and> uc \<le> 90)"

definition isalnum :: "int \<Rightarrow> bool" where "isalnum c \<longleftrightarrow> isalpha c \<or> isdigit c"

section \<open>Numbers\<close>

text \<open>
  The position in the string is an offset; \<open>rd\<close> reads a \<open>char\<close>.  \<open>num_prefix\<close> is the start both
  conversions share: blanks, the sign and the base.
\<close>

definition rd :: "byte list \<Rightarrow> nat \<Rightarrow> int outcome" where
  "rd s i = (if i < length s then Ok (sint (s ! i)) else Fault)"

function skip_blanks :: "byte list \<Rightarrow> nat \<Rightarrow> nat outcome" where
  "skip_blanks s i =
     (if i < length s
      then let c = sint (s ! i) in if c = 32 \<or> c = 9 \<or> c = 10 then skip_blanks s (i + 1) else Ok i
      else Fault)"
  by pat_completeness auto
termination by (relation "measure (\<lambda>(s, i). length s - i)") auto

declare skip_blanks.simps [simp del]

definition num_prefix :: "byte list \<Rightarrow> int \<Rightarrow> (nat \<times> bool \<times> int) outcome" where
  "num_prefix s base =
     abort_unless (base \<ge> 0 \<and> base \<noteq> 1 \<and> base \<le> 36)
       (obind (skip_blanks s 0) (\<lambda>i. obind (rd s i) (\<lambda>c.
          let (i, negate) = (if c = 43 then (i + 1, False) else if c = 45 then (i + 1, True) else (i, False))
          in obind (rd s i) (\<lambda>c.
             if base = 0
             then if c = 48
                  then obind (rd s (i + 1)) (\<lambda>c1. Ok (i, negate, if c1 = 120 then 16 else 8))
                  else Ok (i, negate, 10)
             else let i = (if base = 8 \<and> c = 48 then i + 1 else i)
                  in if base = 16 \<and> c = 48
                     then obind (rd s (i + 1)) (\<lambda>c1. Ok (if c1 = 120 then i + 2 else i, negate, base))
                     else Ok (i, negate, base)))))"

definition num_fold :: "int \<Rightarrow> int" where
  "num_fold c = (if c \<ge> 65 \<and> c \<le> 90 then c - (97 - 65) else c)"

definition num_maxn :: "int \<Rightarrow> int" where "num_maxn base = (if base \<le> 10 then 48 + base - 1 else 57)"
definition num_minc :: "int \<Rightarrow> int" where "num_minc base = (if base \<le> 10 then 0 else 97)"
definition num_maxc :: "int \<Rightarrow> int" where "num_maxc base = (if base \<le> 10 then 0 else 97 + base - 1)"

text \<open>
  The digit loops: offset, accumulator and whether a digit was seen.  \<open>strtol\<close> and \<open>strtoul\<close>
  differ in the test that ends the number.  The accumulator is a 64-bit word in both.
\<close>

function num_loop :: "(int \<Rightarrow> bool) \<Rightarrow> int \<Rightarrow> byte list \<Rightarrow> nat \<Rightarrow> u64 \<Rightarrow> bool \<Rightarrow> (nat \<times> u64 \<times> bool) outcome" where
  "num_loop stops base s i l adigit =
     (if i < length s
      then let c = num_fold (sint (s ! i))
           in if stops c then Ok (i, l, adigit)
              else num_loop stops base s (i + 1)
                     (l * of_int base + (if c \<ge> 48 \<and> c \<le> num_maxn base then of_int (c - 48) else of_int (c - 97)))
                     True
      else Fault)"
  by pat_completeness auto
termination by (relation "measure (\<lambda>(stops, base, s, i, l, adigit). length s - i)") auto

declare num_loop.simps [simp del]

definition strtol_stops :: "int \<Rightarrow> int \<Rightarrow> bool" where
  "strtol_stops base c \<longleftrightarrow> (c < 48 \<or> c > num_maxn base) \<and> (c < num_minc base \<or> c > num_maxc base)"

definition strtoul_stops :: "int \<Rightarrow> int \<Rightarrow> bool" where
  "strtoul_stops base c \<longleftrightarrow>
     (c < 48 \<or> c > num_maxn base) \<and> (num_minc base = 0 \<or> c < num_minc base \<or> c > num_maxc base)"

text \<open>Both give the value and the offset stored through \<open>cpp\<close>, the start when no digit was read.\<close>

definition strtol :: "byte list \<Rightarrow> int \<Rightarrow> (int \<times> nat) outcome" where
  "strtol s base =
     obind (num_prefix s base) (\<lambda>(i, negate, base).
       obind (num_loop (strtol_stops base) base s i 0 False) (\<lambda>(i, l, adigit).
         Ok (sint (if negate then - l else l), if adigit then i else 0)))"

definition strtoul :: "byte list \<Rightarrow> int \<Rightarrow> (u64 \<times> nat) outcome" where
  "strtoul s base =
     obind (num_prefix s base) (\<lambda>(i, negate, base).
       obind (num_loop (strtoul_stops base) base s i 0 False) (\<lambda>(i, l, adigit).
         Ok (if negate then - l else l, if adigit then i else 0)))"

section \<open>Raw blobs and comparison functions\<close>

record raw =
  raw_len :: nat
  raw_data :: "byte list"

text \<open>\<open>raw_cmp\<close> compares two distinct blobs; the identical pointer is the case of equal blobs.\<close>

fun raw_diff :: "byte list \<Rightarrow> byte list \<Rightarrow> nat \<Rightarrow> int outcome" where
  "raw_diff p1 p2 0 = Ok 0"
| "raw_diff (x # p1) (y # p2) (Suc len) =
     (if x = y then raw_diff p1 p2 len else Ok (if uint x - uint y < 0 then -1 else 1))"
| "raw_diff p1 p2 (Suc len) = Fault"

definition raw_cmp :: "raw \<Rightarrow> raw \<Rightarrow> int outcome" where
  "raw_cmp r1 r2 =
     obind (raw_diff (raw_data r1) (raw_data r2) (if raw_len r1 < raw_len r2 then raw_len r1 else raw_len r2))
       (\<lambda>rv. Ok (if rv = 0 \<and> raw_len r1 \<noteq> raw_len r2 then (if raw_len r1 < raw_len r2 then -1 else 1) else rv))"

definition str_to_raw :: "byte list \<Rightarrow> bool \<Rightarrow> raw outcome" where
  "str_to_raw s terminate =
     obind (strlen s) (\<lambda>n. Ok \<lparr>raw_len = (if terminate then n + 1 else n), raw_data = s\<rparr>)"

definition cmp_str :: "byte list \<Rightarrow> byte list \<Rightarrow> int outcome" where
  "cmp_str = strcmp"

definition cmp_raw :: "raw \<Rightarrow> raw \<Rightarrow> int outcome" where
  "cmp_raw k1 k2 =
     (if raw_len k1 > raw_len k2 then Ok (-1)
      else if raw_len k1 < raw_len k2 then Ok 1
      else memcmp (raw_data k1) (raw_data k2) (raw_len k1))"

text \<open>The difference of two pointers is 64 bits wide and is returned as an \<open>int\<close> of 32.\<close>

definition cmp_ptr :: "u64 \<Rightarrow> u64 \<Rightarrow> int" where
  "cmp_ptr k1 k2 = sint (ucast (k1 - k2) :: u32)"

definition cmp_intptr :: "u64 \<Rightarrow> u64 \<Rightarrow> int" where
  "cmp_intptr k1 k2 = sint (ucast (k1 - k2) :: u32)"

definition cmp_uintptr :: "u64 \<Rightarrow> u64 \<Rightarrow> int" where
  "cmp_uintptr v1 v2 = (if v1 < v2 then -1 else if v1 = v2 then 0 else 1)"

section \<open>Lexicographic order\<close>

text \<open>The reference order of byte strings: at the first difference, by unsigned value; a proper
  prefix comes first.\<close>

fun lexcmp :: "byte list \<Rightarrow> byte list \<Rightarrow> int" where
  "lexcmp [] [] = 0"
| "lexcmp [] (y # ys) = -1"
| "lexcmp (x # xs) [] = 1"
| "lexcmp (x # xs) (y # ys) = (if x = y then lexcmp xs ys else uint x - uint y)"

lemma uint_diff_zero: "uint (x :: byte) - uint y = 0 \<longleftrightarrow> x = y"
  by (metis eq_iff_diff_eq_0 word_uint_eqI)

lemma uint_neq: "(x :: byte) \<noteq> y \<Longrightarrow> uint x \<noteq> uint y"
  by (simp add: word_uint_eq_iff)

lemma lexcmp_swap: "lexcmp xs ys > 0 \<longleftrightarrow> lexcmp ys xs < 0"
  by (induction xs ys rule: lexcmp.induct) auto

lemma lexcmp_trans: "lexcmp xs ys \<le> 0 \<Longrightarrow> lexcmp ys zs \<le> 0 \<Longrightarrow> lexcmp xs zs \<le> 0"
proof (induction xs ys arbitrary: zs rule: lexcmp.induct)
  case (4 x xs y ys)
  show ?case
  proof (cases zs)
    case Nil
    then show ?thesis using 4 by simp
  next
    case (Cons z zs')
    show ?thesis
    proof (cases "x = y \<and> y = z")
      case True
      then show ?thesis using 4 Cons by simp
    next
      case False
      have "uint x < uint y" if "x \<noteq> y" using 4(2) that uint_diff_zero [of x y] by simp
      moreover have "uint y < uint z" if "y \<noteq> z" using 4(3) that uint_diff_zero [of y z] Cons by simp
      ultimately show ?thesis using False Cons by (cases "x = y"; cases "y = z"; auto)
    qed
  qed
next
  case 1 then show ?case by simp
next
  case (2 y ys)
  then show ?case by (cases zs) simp_all
next
  case (3 x xs)
  then show ?case by simp
qed

interpretation lex: cmp_order lexcmp
  by unfold_locales (fact lexcmp_swap, fact lexcmp_trans)

lemma lexcmp_zero: "lexcmp xs ys = 0 \<longleftrightarrow> xs = ys"
  by (induction xs ys rule: lexcmp.induct) (auto simp: uint_diff_zero [simplified])

lemma cmp_order_via: "cmp_order c \<Longrightarrow> cmp_order (\<lambda>x y. c (f x) (f y))"
  unfolding cmp_order_def by blast

lemma cmp_order_sgn:
  assumes "cmp_order c"
  shows "cmp_order (\<lambda>x y. sgn (c x y))"
proof -
  have "sgn v \<le> 0 \<longleftrightarrow> v \<le> 0" for v :: int by (simp add: sgn_if)
  then show ?thesis using assms unfolding cmp_order_def by (simp only: sgn_greater sgn_less) blast
qed

section \<open>The comparisons compute it\<close>

lemma strlen_ok: "0 \<notin> set s \<Longrightarrow> strlen (s @ 0 # r) = Ok (length s)"
  by (induction s) auto

lemma strcmp_ok: "0 \<notin> set a \<Longrightarrow> 0 \<notin> set b \<Longrightarrow> strcmp (a @ 0 # r) (b @ 0 # s) = Ok (lexcmp a b)"
  by (induction a b rule: lexcmp.induct) (auto simp: str_diff_def)

lemma strncmp_ok:
  "0 \<notin> set a \<Longrightarrow> 0 \<notin> set b \<Longrightarrow> strncmp (a @ 0 # r) (b @ 0 # s) n = Ok (lexcmp (take n a) (take n b))"
proof (induction a b arbitrary: n rule: lexcmp.induct)
  case 1 then show ?case by (cases n) (auto simp: str_diff_def)
next
  case 2 then show ?case by (cases n) (auto simp: str_diff_def)
next
  case 3 then show ?case by (cases n) (auto simp: str_diff_def)
next
  case 4 then show ?case by (cases n) (auto simp: str_diff_def)
qed

lemma memcmp_ok: "length a = n \<Longrightarrow> length b = n \<Longrightarrow> memcmp (a @ r) (b @ s) n = Ok (lexcmp a b)"
  by (induction a b arbitrary: n rule: lexcmp.induct) auto

lemma raw_diff_ok:
  "length a \<le> length b \<Longrightarrow> raw_diff a b (length a) = Ok (sgn (lexcmp a (take (length a) b)))"
proof (induction a b rule: lexcmp.induct)
  case (4 x xs y ys)
  show ?case using 4 uint_neq [of x y] by (cases "x = y") (auto simp: sgn_if)
qed auto

lemma raw_diff_swap:
  "length a \<ge> length b \<Longrightarrow> raw_diff a b (length b) = Ok (sgn (lexcmp (take (length b) a) b))"
proof (induction a b rule: lexcmp.induct)
  case (4 x xs y ys)
  show ?case using 4 uint_neq [of x y] by (cases "x = y") (auto simp: sgn_if)
qed auto

lemma lexcmp_prefix:
  "length a < length b \<Longrightarrow> lexcmp a b = (let c = lexcmp a (take (length a) b) in if c = 0 then -1 else c)"
  by (induction a b rule: lexcmp.induct) (auto simp: Let_def uint_neq)

lemma lexcmp_prefix2:
  "length b < length a \<Longrightarrow> lexcmp a b = (let c = lexcmp (take (length b) a) b in if c = 0 then 1 else c)"
  by (induction a b rule: lexcmp.induct) (auto simp: Let_def uint_neq)

definition blob :: "byte list \<Rightarrow> raw" where
  "blob b = \<lparr>raw_len = length b, raw_data = b\<rparr>"

lemma raw_cmp_ok: "raw_cmp (blob a) (blob b) = Ok (sgn (lexcmp a b))"
proof -
  consider "length a < length b" | "length b < length a" | "length a = length b" by linarith
  then show ?thesis
  proof cases
    case 1
    then show ?thesis using raw_diff_ok [of a b] lexcmp_prefix [OF 1] by (simp add: raw_cmp_def blob_def Let_def sgn_0_0)
  next
    case 2
    then show ?thesis using raw_diff_swap [of b a] lexcmp_prefix2 [OF 2] by (simp add: raw_cmp_def blob_def Let_def sgn_0_0)
  next
    case 3
    then show ?thesis using raw_diff_ok [of a b] by (simp add: raw_cmp_def blob_def)
  qed
qed

lemma cmp_raw_ok:
  "cmp_raw (blob a) (blob b) = Ok (if length a > length b then -1 else if length a < length b then 1 else lexcmp a b)"
  using memcmp_ok [of a "length a" b "[]" "[]"] by (auto simp: cmp_raw_def blob_def)

definition the_Ok :: "int outcome \<Rightarrow> int" where
  "the_Ok m = (case m of Ok v \<Rightarrow> v | _ \<Rightarrow> 0)"

definition c_str :: "byte list \<Rightarrow> byte list" where
  "c_str s = takeWhile (\<lambda>c. c \<noteq> 0) s @ [0]"

lemma cmp_str_ok: "cmp_str (c_str a) (c_str b) = Ok (lexcmp (takeWhile (\<lambda>c. c \<noteq> 0) a) (takeWhile (\<lambda>c. c \<noteq> 0) b))"
  unfolding c_str_def cmp_str_def by (intro strcmp_ok) (auto dest: set_takeWhileD)

text \<open>The comparison functions the containers are used with are total preorders on their
  domains and return on all of it: pointers as integers, C strings (the lexicographic order of
  unsigned bytes, zero exactly on equal strings), and raw blobs in both orders.  The one on
  signed pointer values is not: it cuts the 64-bit difference down to 32 bits.\<close>

theorem comparisons_ordered:
  "cmp_order cmp_uintptr \<and>
   cmp_order (\<lambda>a b. the_Ok (cmp_str (c_str a) (c_str b))) \<and>
   cmp_order (\<lambda>a b. the_Ok (cmp_raw (blob a) (blob b))) \<and>
   cmp_order (\<lambda>a b. the_Ok (raw_cmp (blob a) (blob b))) \<and>
   (\<exists>v. cmp_str (c_str a) (c_str b) = Ok v \<and> (v = 0 \<longleftrightarrow> c_str a = c_str b)) \<and>
   (\<exists>v. cmp_raw (blob a) (blob b) = Ok v \<and> (v = 0 \<longleftrightarrow> a = b)) \<and>
   (\<exists>v. raw_cmp (blob a) (blob b) = Ok v \<and> (v = 0 \<longleftrightarrow> a = b)) \<and>
   \<not> cmp_order cmp_intptr"
proof (intro conjI)
  show "cmp_order cmp_uintptr" by unfold_locales (auto simp: cmp_uintptr_def split: if_splits)
  show "cmp_order (\<lambda>a b. the_Ok (cmp_str (c_str a) (c_str b)))"
    unfolding cmp_str_ok the_Ok_def by (simp add: cmp_order_via [OF lex.cmp_order_axioms])
  have "cmp_order (\<lambda>a b. if length a > length b then -1 else if length a < length b then 1 else lexcmp a b)"
    by unfold_locales (auto simp: lexcmp_swap dest: lexcmp_trans split: if_splits)
  then show "cmp_order (\<lambda>a b. the_Ok (cmp_raw (blob a) (blob b)))" by (simp add: cmp_raw_ok the_Ok_def)
  have "cmp_order (\<lambda>a b. sgn (lexcmp a b))"
    by (rule cmp_order_sgn [OF lex.cmp_order_axioms])
  then show "cmp_order (\<lambda>a b. the_Ok (raw_cmp (blob a) (blob b)))" by (simp add: raw_cmp_ok the_Ok_def)
  show "\<exists>v. cmp_str (c_str a) (c_str b) = Ok v \<and> (v = 0 \<longleftrightarrow> c_str a = c_str b)"
    unfolding cmp_str_ok by (simp add: lexcmp_zero c_str_def)
  show "\<exists>v. cmp_raw (blob a) (blob b) = Ok v \<and> (v = 0 \<longleftrightarrow> a = b)"
    by (auto simp: cmp_raw_ok lexcmp_zero)
  show "\<exists>v. raw_cmp (blob a) (blob b) = Ok v \<and> (v = 0 \<longleftrightarrow> a = b)"
    by (simp add: raw_cmp_ok sgn_0_0 lexcmp_zero)
  have "cmp_intptr (2 ^ 31) 0 < 0" "\<not> cmp_intptr 0 (2 ^ 31) > 0"
    by (simp_all add: cmp_intptr_def)
  then show "\<not> cmp_order cmp_intptr" unfolding cmp_order_def by blast
qed

section \<open>Spans\<close>

lemma map_index: "unat (drop_bit 3 (p :: byte)) < 32" "unat (p AND 7) < 8"
proof -
  show "unat (drop_bit 3 p) < 32" using unat_byte_less [of p] by (simp add: unat_drop_bit_eq drop_bit_nat_def less_mult_imp_div_less)
  have "p AND 7 \<le> 7" by (rule word_and_le1)
  then show "unat (p AND 7) < 8" by (simp add: word_le_nat_alt)
qed

lemma map_has_bit: "map_has mp p \<longleftrightarrow> bit (mp ! unat (drop_bit 3 p)) (unat (p AND 7))"
proof -
  have "x AND push_bit k 1 \<noteq> 0 \<longleftrightarrow> bit x k" if "k < 8" for x :: byte and k
  proof -
    have "x AND push_bit k 1 = of_bool (bit x k) * push_bit k 1"
      using that by (intro bit_word_eqI) (auto simp: bit_simps)
    moreover have "push_bit k (1 :: byte) \<noteq> 0" using that by (auto simp: bit_eq_iff bit_simps)
    ultimately show ?thesis by simp
  qed
  then show ?thesis using map_index(2) by (simp add: map_has_def)
qed

lemma map_split: "drop_bit 3 p = drop_bit 3 q \<and> p AND 7 = q AND 7 \<longleftrightarrow> p = (q :: byte)"
proof
  assume a: "drop_bit 3 p = drop_bit 3 q \<and> p AND 7 = q AND 7"
  have "x = push_bit 3 (drop_bit 3 x) OR (x AND 7)" for x :: byte
  proof (intro bit_word_eqI)
    fix n assume "n < LENGTH(8)"
    have "\<forall>n < 8. bit (7 :: byte) n \<longleftrightarrow> n < 3" by (simp add: ball_bits8)
    then show "bit x n \<longleftrightarrow> bit (push_bit 3 (drop_bit 3 x) OR (x AND 7)) n"
      using \<open>n < _\<close> by (auto simp: bit_simps)
  qed
  then show "p = q" using a by metis
qed simp

lemma map_set_has:
  assumes "length mp = 32"
  shows "map_has (map_set mp p) q \<longleftrightarrow> map_has mp q \<or> p = q"
proof (cases "drop_bit 3 p = drop_bit 3 q")
  case True
  have "bit (push_bit (unat (p AND 7)) (1 :: byte)) (unat (q AND 7)) \<longleftrightarrow> p AND 7 = q AND 7"
    using map_index(2) [of p] map_index(2) [of q] by (auto simp: bit_simps word_unat_eq_iff)
  then show ?thesis using True assms map_index(1) [of q] map_split [of p q]
    by (auto simp: map_has_bit map_set_def bit_or_iff)
next
  case False
  then have "unat (drop_bit 3 p) \<noteq> unat (drop_bit 3 q)" by (simp add: word_unat_eq_iff)
  then show ?thesis using False by (auto simp: map_has_def map_set_def)
qed

lemma length_map_set [simp]: "length (map_set mp p) = length mp"
  by (simp add: map_set_def)

lemma spn_fill_ok:
  "0 \<notin> set a \<Longrightarrow> length mp = 32 \<Longrightarrow>
   \<exists>mp'. spn_fill mp (a @ 0 # r) = Ok mp' \<and> (\<forall>q. map_has mp' q \<longleftrightarrow> map_has mp q \<or> q \<in> set a)"
proof (induction a arbitrary: mp)
  case (Cons c a)
  then show ?case using Cons.IH [of "map_set mp c"] by (auto simp: map_set_has)
qed simp

lemma cspn_fill_ok:
  "0 \<notin> set a \<Longrightarrow> length mp = 32 \<Longrightarrow>
   \<exists>mp'. cspn_fill mp (a @ 0 # r) = Ok mp' \<and> (\<forall>q. map_has mp' q \<longleftrightarrow> map_has mp q \<or> q \<in> set (a @ [0]))"
proof (induction a arbitrary: mp)
  case (Cons c a)
  then show ?case using Cons.IH [of "map_set mp c"] by (auto simp: map_set_has Let_def)
qed (auto simp: map_set_has Let_def)

lemma spn_count_ok:
  "map_has mp 0 \<noteq> want \<Longrightarrow> spn_count want mp (s @ 0 # r) = Ok (length (takeWhile (\<lambda>c. map_has mp c = want) s))"
  by (induction s) auto

lemma map_has_empty: "\<not> map_has (replicate 32 0) q"
  using map_index(1) [of q] by (simp add: map_has_def)

text \<open>\<open>strspn\<close> is the length of the longest prefix of bytes of the accept string,
  \<open>strcspn\<close> the length of the longest prefix of bytes outside the reject string; the 32-byte
  bit map they build answers membership for every byte value and neither reads past the
  terminators.\<close>

theorem strspn_strcspn_correct:
  assumes "0 \<notin> set s" "0 \<notin> set a"
  shows "strspn (s @ 0 # r) (a @ 0 # q) = Ok (length (takeWhile (\<lambda>c. c \<in> set a) s)) \<and>
    strcspn (s @ 0 # r) (a @ 0 # q) = Ok (length (takeWhile (\<lambda>c. c \<notin> set a) s))"
proof
  obtain mp where m: "spn_fill (replicate 32 0) (a @ 0 # q) = Ok mp" "\<forall>q. map_has mp q \<longleftrightarrow> q \<in> set a"
    using spn_fill_ok [OF assms(2), of "replicate 32 0" q] map_has_empty by auto
  show "strspn (s @ 0 # r) (a @ 0 # q) = Ok (length (takeWhile (\<lambda>c. c \<in> set a) s))"
    using m spn_count_ok [of mp True s r] assms(2) by (simp add: strspn_def)
  obtain mc where c: "cspn_fill (replicate 32 0) (a @ 0 # q) = Ok mc" "\<forall>q. map_has mc q \<longleftrightarrow> q \<in> set (a @ [0])"
    using cspn_fill_ok [OF assms(2), of "replicate 32 0" q] map_has_empty by auto
  have "takeWhile (\<lambda>c. map_has mc c = False) s = takeWhile (\<lambda>c. c \<notin> set a) s"
    using c(2) assms(1) by (intro takeWhile_cong) auto
  then show "strcspn (s @ 0 # r) (a @ 0 # q) = Ok (length (takeWhile (\<lambda>c. c \<notin> set a) s))"
    using c spn_count_ok [of mc False s r] by (simp add: strcspn_def)
qed

lemma strspn_strcspn_correct_witness:
  "strspn [49, 50, 97, 0] [50, 49, 0] = Ok 2 \<and> strcspn [49, 50, 97, 0] [97, 0] = Ok 2"
  using strspn_strcspn_correct [of "[49, 50, 97]" "[50, 49]" "[]" "[]"]
    strspn_strcspn_correct [of "[49, 50, 97]" "[97]" "[]" "[]"] by simp

section \<open>Moving bytes\<close>

lemma move_up_nth:
  "d + len \<le> length mem \<Longrightarrow> s + len \<le> length mem \<Longrightarrow> d + len \<le> s \<or> s + len \<le> d \<Longrightarrow>
   length (move_up mem d s len) = length mem \<and>
   (\<forall>k < length mem. move_up mem d s len ! k = (if d \<le> k \<and> k < d + len then mem ! (s + (k - d)) else mem ! k))"
proof (induction mem d s len rule: move_up.induct)
  case (2 mem d s len)
  have IH: "length (move_up (mem[d := mem ! s]) (d + 1) (s + 1) len) = length mem"
    "\<And>k. k < length mem \<Longrightarrow> move_up (mem[d := mem ! s]) (d + 1) (s + 1) len ! k =
      (if d + 1 \<le> k \<and> k < d + 1 + len then mem[d := mem ! s] ! (s + 1 + (k - (d + 1))) else mem[d := mem ! s] ! k)"
    using 2 by auto
  have "mem[d := mem ! s] ! (s + 1 + (k - (d + 1))) = mem ! (s + (k - d))" if "d + 1 \<le> k" "k < d + 1 + len" for k
  proof -
    have "s + 1 + (k - (d + 1)) = s + (k - d)" "s + (k - d) \<noteq> d" using 2(4) that by linarith+
    then show ?thesis by (simp only: nth_list_update_neq)
  qed
  then show ?case using IH 2(2) by (auto simp: nth_list_update not_le less_Suc_eq_le)
qed auto

lemma move_down_nth:
  "d + len \<le> length mem \<Longrightarrow> s + len \<le> length mem \<Longrightarrow> d + len \<le> s \<or> s + len \<le> d \<Longrightarrow>
   length (move_down mem (d + len) (s + len) len) = length mem \<and>
   (\<forall>k < length mem. move_down mem (d + len) (s + len) len ! k = (if d \<le> k \<and> k < d + len then mem ! (s + (k - d)) else mem ! k))"
proof (induction len arbitrary: mem)
  case (Suc len)
  define m1 where "m1 = mem[d + len := mem ! (s + len)]"
  have IH: "length (move_down m1 (d + len) (s + len) len) = length mem"
    "\<And>k. k < length mem \<Longrightarrow> move_down m1 (d + len) (s + len) len ! k = (if d \<le> k \<and> k < d + len then m1 ! (s + (k - d)) else m1 ! k)"
    using Suc.IH [of m1] Suc.prems by (auto simp: m1_def)
  have "m1 ! (s + (k - d)) = mem ! (s + (k - d))" if "d \<le> k" "k < d + len" for k
    using Suc.prems(3) that by (auto simp: m1_def nth_list_update)
  moreover have "m1 ! k = (if k = d + len then mem ! (s + (k - d)) else mem ! k)" if "k < length mem" for k
    using that Suc.prems(1) by (simp add: m1_def nth_list_update)
  moreover have "move_down mem (d + Suc len) (s + Suc len) (Suc len) = move_down m1 (d + len) (s + len) len"
    by (simp add: m1_def)
  ultimately show ?case using IH Suc.prems by (auto simp: less_Suc_eq)
qed auto

text \<open>\<open>memmove\<close> and \<open>memcpy\<close> copy \<open>len\<close> bytes and change nothing else when source and
  destination are the same or do not overlap, and fault when either leaves the object.  The
  directions are chosen the wrong way round, so overlapping moves, which \<open>memmove\<close> exists for,
  repeat bytes instead of moving them.\<close>

theorem memmove_correct:
  "(dst + len \<le> length mem \<and> src + len \<le> length mem \<and> (dst + len \<le> src \<or> src + len \<le> dst \<or> src = dst) \<longrightarrow>
     memmove mem dst src len = Ok (take dst mem @ take len (drop src mem) @ drop (dst + len) mem)) \<and>
   (dst + len > length mem \<or> src + len > length mem \<longrightarrow> memmove mem dst src len = Fault) \<and>
   memmove [1, 2, 3] 1 0 2 = Ok [1, 1, 1] \<and> memmove [1, 2, 3] 0 1 2 = Ok [3, 3, 3]"
proof (intro conjI impI)
  assume a: "dst + len \<le> length mem \<and> src + len \<le> length mem \<and> (dst + len \<le> src \<or> src + len \<le> dst \<or> src = dst)"
  let ?r = "take dst mem @ take len (drop src mem) @ drop (dst + len) mem"
  have r: "length ?r = length mem" "\<And>k. k < length mem \<Longrightarrow> ?r ! k = (if dst \<le> k \<and> k < dst + len then mem ! (src + (k - dst)) else mem ! k)"
    using a nth_block_write [of dst "take len (drop src mem)" mem] by auto
  consider "src = dst" | "src \<noteq> dst" "dst + len \<le> src \<or> src + len \<le> dst" using a by blast
  then show "memmove mem dst src len = Ok ?r"
  proof cases
    case 1
    then show ?thesis using a by (auto simp: memmove_def) (metis append_take_drop_id drop_drop add.commute)
  next
    case 2
    then have "move_up mem dst src len = ?r" "move_down mem (dst + len) (src + len) len = ?r"
      using a r move_up_nth [of dst len mem src] move_down_nth [of dst len mem src] by (auto intro!: nth_equalityI)
    then show ?thesis using 2 a by (simp add: memmove_def)
  qed
qed (auto simp: memmove_def eval_nat_numeral)

lemma memmove_correct_witness: "memmove [1, 2, 3, 4] 0 2 2 = Ok [3, 4, 3, 4]"
  using memmove_correct [of 0 2 "[1, 2, 3, 4]" 2] by simp

section \<open>Searching and copying\<close>

lemma strchr_ok:
  "0 \<notin> set s \<Longrightarrow> strchr (s @ 0 # r) ch =
     Ok (if \<exists>c \<in> set s. sint c = ch then Some (length (takeWhile (\<lambda>c. sint c \<noteq> ch) s)) else None)"
  by (induction s) auto

lemma strcpy_ok:
  "0 \<notin> set s \<Longrightarrow> length s < length dst \<Longrightarrow> strcpy dst (s @ 0 # r) = Ok (s @ 0 # drop (length s + 1) dst)"
proof (induction s arbitrary: dst)
  case Nil
  then show ?case by (cases dst) auto
next
  case (Cons c s)
  then show ?case by (cases dst) auto
qed

lemma strdup_ok:
  assumes "0 \<notin> set s" "malloc (length s + 1) = Some ns" "length ns = length s + 1"
  shows "strdup malloc (s @ 0 # r) = Ok (Some (s @ [0]))"
  using assms by (simp add: strdup_def strlen_ok)

lemma strrchr_loop_stops:
  assumes "strrchr_loop w ch lst = Some y"
  shows "w = [] \<or> hd w = 0"
proof (rule strrchr_loop.raw_induct [where P = "\<lambda>w ch lst y. w = [] \<or> hd w = 0", OF _ assms])
  fix loop w ch lst y
  assume IH: "\<And>w ch lst y. loop w ch lst = Some y \<Longrightarrow> w = [] \<or> hd w = 0"
    and r: "(case w of [] \<Rightarrow> Some Fault | c # s' \<Rightarrow> if c \<noteq> 0 then loop w ch (if sint c = ch then Some 0 else lst) else Some (Ok lst)) = Some y"
  show "w = [] \<or> hd w = 0" using r by (cases w) (auto split: if_split_asm dest!: IH)
qed

text \<open>\<open>strrchr\<close> returns exactly on the empty string: on every other one its loop never
  advances and the call does not return.\<close>

theorem strrchr_returns_iff:
  "s \<noteq> [] \<Longrightarrow> (\<exists>r. strrchr s ch = Some r) \<longleftrightarrow> hd s = 0"
proof -
  assume s: "s \<noteq> []"
  have stuck: "strrchr_loop (c # t) ch lst = None" if "c \<noteq> 0" for c t lst
  proof -
    have "strrchr_loop (c # t) ch lst \<noteq> Some y" for y using strrchr_loop_stops [of "c # t" ch lst y] that by auto
    then show ?thesis by (cases "strrchr_loop (c # t) ch lst") auto
  qed
  obtain c t where "s = c # t" using s by (cases s) auto
  then show ?thesis using stuck by (cases "c = 0") (simp_all add: strrchr_def strrchr_loop.simps [of "0 # t"])
qed

lemma strrchr_returns_iff_witness: "\<not> (\<exists>r. strrchr [97, 47, 98, 0] 47 = Some r)"
  using strrchr_returns_iff [of "[97, 47, 98, 0]" 47] by simp

section \<open>Decimal numbers\<close>

definition digit :: "nat \<Rightarrow> byte" where "digit d = of_nat (48 + d)"

definition decimal :: "nat list \<Rightarrow> nat" where "decimal ds = fold (\<lambda>d n. n * 10 + d) ds 0"

lemma sint_small: "n < 128 \<Longrightarrow> sint (of_nat n :: byte) = int n"
  by (simp add: signed_of_nat signed_take_bit_int_eq_self) 

lemma sint_digit: "d < 10 \<Longrightarrow> sint (digit d) = 48 + int d"
  using sint_small [of "48 + d"] by (simp add: digit_def)

lemma num_loop_digits:
  assumes "\<forall>d \<in> set ds. d < 10" "\<And>c. 48 \<le> c \<Longrightarrow> c \<le> 57 \<Longrightarrow> \<not> stops c" "s = pre @ map digit ds @ rest"
  shows "num_loop stops 10 s (length pre) (of_nat n) ad =
    num_loop stops 10 s (length pre + length ds) (of_nat (fold (\<lambda>d n. n * 10 + d) ds n)) (ad \<or> ds \<noteq> [])"
  using assms(1,3)
proof (induction ds arbitrary: pre n ad)
  case (Cons d ds)
  have d: "sint (s ! length pre) = 48 + int d" "length pre < length s" "d < 10"
    using Cons.prems by (simp_all add: sint_digit nth_append)
  have ns: "\<not> stops (48 + int d)" using assms(2) d(3) by simp
  have "num_loop stops 10 s (length pre) (of_nat n) ad =
    num_loop stops 10 s (length pre + 1) (of_nat (n * 10 + d)) True"
    using d ns by (subst num_loop.simps) (simp add: num_fold_def num_maxn_def)
  also have "\<dots> = num_loop stops 10 s (length (pre @ [digit d])) (of_nat (n * 10 + d)) True" by simp
  also have "\<dots> = num_loop stops 10 s (length pre + length (d # ds)) (of_nat (fold (\<lambda>d n. n * 10 + d) (d # ds) n)) True"
    using Cons.IH [of "pre @ [digit d]" "n * 10 + d" True] Cons.prems by simp
  finally show ?case by simp
qed simp

lemma num_fold_nondigit: "\<not> (48 \<le> c \<and> c \<le> 57) \<Longrightarrow> \<not> (80 \<le> c \<and> c \<le> 89) \<Longrightarrow> \<not> (48 \<le> num_fold c \<and> num_fold c \<le> 57)"
  by (auto simp: num_fold_def)

lemma skip_blanks_ok:
  "k < length s \<Longrightarrow> i \<le> k \<Longrightarrow> (\<forall>j. i \<le> j \<and> j < k \<longrightarrow> s ! j = 32) \<Longrightarrow> sint (s ! k) \<notin> {32, 9, 10} \<Longrightarrow> skip_blanks s i = Ok k"
proof (induction "k - i" arbitrary: i)
  case 0
  then show ?case by (subst skip_blanks.simps) simp
next
  case (Suc n)
  then have "skip_blanks s (i + 1) = Ok k" by (intro Suc.hyps) auto
  moreover have "s ! i = 32" using Suc by simp
  ultimately show ?case using Suc by (subst skip_blanks.simps) simp
qed

text \<open>\<open>strtoul\<close> in base 10 reads blanks, an optional sign and the digits up to the first
  other character (other than P to Y, which the case folding takes for 0 to 9): it returns their
  value modulo 2^64, negated for a minus sign, and the end of the digits.  \<open>strtol\<close> in base 10 takes the terminating NUL for a digit: on a string that
  ends with its digits it runs past the end of the object.\<close>

theorem strtoul_decimal_correct:
  assumes "ds \<noteq> []" "\<forall>d \<in> set ds. d < 10" "\<not> (48 \<le> sint c \<and> sint c \<le> 57)" "\<not> (80 \<le> sint c \<and> sint c \<le> 89)" "sg \<in> {[], [43], [45]}"
  shows "strtoul (replicate k 32 @ sg @ map digit ds @ c # r) 10 =
      Ok (if sg = [45] then - of_nat (decimal ds) else of_nat (decimal ds), k + length sg + length ds) \<and>
    strtol (map digit ds @ [0]) 10 = Fault"
proof
  define s where "s = replicate k 32 @ sg @ map digit ds @ c # r"
  obtain d ds' where ds: "ds = d # ds'" using assms(1) by (cases ds) auto
  have d: "sint (digit d) = 48 + int d" "d < 10" using assms(2) by (simp_all add: ds sint_digit)
  have first: "s ! k = (case sg of [] \<Rightarrow> digit d | x # _ \<Rightarrow> x)" "k < length s"
    by (auto simp: s_def nth_append ds split: list.splits)
  have second: "s ! (k + length sg) = digit d" "k + length sg < length s" by (simp_all add: s_def nth_append ds)
  have "skip_blanks s 0 = Ok k"
  proof (rule skip_blanks_ok)
    show "sint (s ! k) \<notin> {32, 9, 10}" using assms(5) d first by (auto split: list.splits)
  qed (use first in \<open>auto simp: s_def nth_append\<close>)
  then have pre: "num_prefix s 10 = Ok (k + length sg, sg = [45], 10)"
    using assms(5) d first second by (auto simp: num_prefix_def rd_def Let_def split: if_splits)
  have stops: "\<not> strtoul_stops 10 x" if "48 \<le> x" "x \<le> 57" for x using that by (simp add: strtoul_stops_def num_maxn_def)
  have "num_loop (strtoul_stops 10) 10 s (k + length sg) 0 False =
    num_loop (strtoul_stops 10) 10 s (k + length sg + length ds) (of_nat (decimal ds)) True"
    using num_loop_digits [OF assms(2), of "strtoul_stops 10" s "replicate k 32 @ sg" "c # r" 0 False] stops assms(1)
    by (simp add: s_def decimal_def)
  also have "\<dots> = Ok (k + length sg + length ds, of_nat (decimal ds), True)"
  proof -
    have "s ! (k + length sg + length ds) = c" "k + length sg + length ds < length s"
      by (simp_all add: s_def nth_append)
    moreover have "strtoul_stops 10 (num_fold (sint c))"
      using num_fold_nondigit [OF assms(3,4)] by (auto simp: strtoul_stops_def num_maxn_def num_minc_def)
    ultimately show ?thesis by (subst num_loop.simps) simp
  qed
  finally show "strtoul s 10 = Ok (if sg = [45] then - of_nat (decimal ds) else of_nat (decimal ds), k + length sg + length ds)"
    by (simp add: strtoul_def pre)
next
  obtain d ds' where ds: "ds = d # ds'" using assms(1) by (cases ds) auto
  have d: "sint (digit d) = 48 + int d" "d < 10" using assms(2) by (simp_all add: ds sint_digit)
  define s where "s = map digit ds @ [0]"
  have s0: "s ! 0 = digit d" "0 < length s" by (simp_all add: s_def ds)
  have "skip_blanks s 0 = Ok 0" using s0 d by (intro skip_blanks_ok) auto
  then have pre: "num_prefix s 10 = Ok (0, False, 10)"
    using s0 d by (simp add: num_prefix_def rd_def Let_def)
  have stops: "\<not> strtol_stops 10 x" if "48 \<le> x" "x \<le> 57" for x using that by (simp add: strtol_stops_def num_maxn_def)
  have "num_loop (strtol_stops 10) 10 s 0 0 False =
    num_loop (strtol_stops 10) 10 s (length ds) (of_nat (decimal ds)) True"
    using num_loop_digits [OF assms(2), of "strtol_stops 10" s "[]" "[0]" 0 False] stops assms(1)
    by (simp add: s_def decimal_def)
  also have "\<dots> = Fault"
  proof -
    have "s ! length ds = 0" "length s = Suc (length ds)" by (simp_all add: s_def nth_append)
    moreover have "\<not> strtol_stops 10 (num_fold 0)" by (simp add: strtol_stops_def num_fold_def num_minc_def num_maxc_def)
    ultimately show ?thesis by (subst num_loop.simps, subst num_loop.simps) simp
  qed
  finally show "strtol s 10 = Fault" by (simp add: strtol_def pre)
qed

lemma strtoul_decimal_correct_witness:
  "strtoul [32, 45, 52, 50, 59] 10 = Ok (- 42, 4)"
  using strtoul_decimal_correct [of "[4, 2]" 59 "[45]" 1 "[]"] by (simp add: digit_def decimal_def)

section \<open>Character classes\<close>

lemma ctype_ok:
  "isalpha c \<longleftrightarrow> islower c \<or> isupper c" "toupper (tolower c) = toupper c"
  "isupper c \<Longrightarrow> islower (tolower c)" "islower c \<Longrightarrow> isupper (toupper c)"
  by (auto simp: isalpha_def islower_def isupper_def toupper_def tolower_def Let_def)

lemma isxdigit_always: "isxdigit c"
  by (auto simp: isxdigit_def)

lemma memset_first_only: "memset (x # p) c n = Ok ((if n = 0 then x else c) # p)"
  by (induction n arbitrary: x) auto

lemma strtoul_letters_wrong: "strtoul [102, 102, 0] 16 = Ok (85, 2)" "strtoul [49, 80, 0] 10 = Ok (10, 2)"
  by code_simp+

end
