(* ===== verification/Loops.thy ===== *)
theory Loops
  imports CatPrelude
begin

text \<open>
  Loops that need not end.  A computation of type \<open>'a run\<close> is \<open>None\<close> when it does not return
  and \<open>Some\<close> of an \<open>outcome\<close> when it does; \<open>while_run\<close> is the C loop whose test and body are
  such computations, and \<open>while_run_rule\<close> its rule for total correctness.
\<close>

type_synonym 'a run = "'a outcome option"

definition rbind :: "'a run \<Rightarrow> ('a \<Rightarrow> 'b run) \<Rightarrow> 'b run" where
  "rbind m f = (case m of None \<Rightarrow> None
     | Some r \<Rightarrow> (case r of Ok a \<Rightarrow> f a | Abort \<Rightarrow> Some Abort | Fault \<Rightarrow> Some Fault))"

abbreviation ret :: "'a \<Rightarrow> 'a run" where "ret a \<equiv> Some (Ok a)"

lemma rbind_simps [simp, outcome_simps]:
  "rbind None f = None" "rbind (ret a) f = f a"
  "rbind (Some Abort) f = Some Abort" "rbind (Some Fault) f = Some Fault"
  by (simp_all add: rbind_def)

lemma rbind_eq_ret [outcome_simps]:
  "rbind m f = ret b \<longleftrightarrow> (\<exists>a. m = ret a \<and> f a = ret b)"
  by (cases m; cases "the m") auto

lemma rbind_mono [partial_function_mono]:
  assumes "mono_option B" "\<And>y. mono_option (\<lambda>f. C y f)"
  shows "mono_option (\<lambda>f. rbind (B f) (\<lambda>y. C y f))"
proof -
  have eq: "rbind m f = Option.bind m (\<lambda>r. case r of Ok a \<Rightarrow> f a | Abort \<Rightarrow> Some Abort | Fault \<Rightarrow> Some Fault)" for m f
    by (cases m) (auto simp: rbind_def split: outcome.splits)
  have "mono_option (\<lambda>f. case r of Ok a \<Rightarrow> C a f | Abort \<Rightarrow> Some Abort | Fault \<Rightarrow> Some Fault)" for r
    by (cases r) (simp_all add: assms(2) option.const_mono)
  then show ?thesis unfolding eq by (intro bind_mono assms(1))
qed

partial_function (option) while_run :: "('s \<Rightarrow> bool outcome) \<Rightarrow> ('s \<Rightarrow> 's run) \<Rightarrow> 's \<Rightarrow> 's run" where
  "while_run b c s =
     (case b s of
        Ok t \<Rightarrow>
          if t
          then (case c s of None \<Rightarrow> None
                | Some r \<Rightarrow> (case r of Ok s' \<Rightarrow> while_run b c s' | Abort \<Rightarrow> Some Abort | Fault \<Rightarrow> Some Fault))
          else ret s
      | Abort \<Rightarrow> Some Abort
      | Fault \<Rightarrow> Some Fault)"

lemma while_run_step:
  "b s = Ok True \<Longrightarrow> c s = ret s' \<Longrightarrow> while_run b c s = while_run b c s'"
  "b s = Ok False \<Longrightarrow> while_run b c s = ret s"
  by (simp_all add: while_run.simps)

text \<open>The measure \<open>n\<close> and what else the invariant names are ghosts: they need not be functions of the state.\<close>

lemma while_run_ghost:
  assumes "I (n :: nat) s"
    and "\<And>n s. I n s \<Longrightarrow> b s = Ok True \<or> b s = Ok False"
    and "\<And>n s. I n s \<Longrightarrow> b s = Ok True \<Longrightarrow> \<exists>s' n'. c s = ret s' \<and> I n' s' \<and> n' < n"
  shows "\<exists>s' n'. while_run b c s = ret s' \<and> I n' s' \<and> b s' = Ok False"
  using assms(1)
proof (induction n arbitrary: s rule: less_induct)
  case (less n)
  consider "b s = Ok True" | "b s = Ok False" using assms(2) less.prems by blast
  then show ?case
  proof cases
    case 1
    obtain s' n' where s': "c s = ret s'" "I n' s'" "n' < n" using assms(3) less.prems 1 by blast
    have "while_run b c s = while_run b c s'" by (rule while_run_step(1)) (fact 1 s'(1))+
    then show ?thesis using less.IH [OF s'(3,2)] by simp
  next
    case 2
    have "while_run b c s = ret s" by (rule while_run_step(2)) (fact 2)
    then show ?thesis using less.prems 2 by blast
  qed
qed

lemma while_run_rule:
  fixes f :: "'s \<Rightarrow> nat"
  assumes "I s"
    and "\<And>s. I s \<Longrightarrow> b s = Ok True \<or> b s = Ok False"
    and "\<And>s. I s \<Longrightarrow> b s = Ok True \<Longrightarrow> \<exists>s'. c s = ret s' \<and> I s' \<and> f s' < f s"
  shows "\<exists>s'. while_run b c s = ret s' \<and> I s' \<and> b s' = Ok False"
  using while_run_ghost [of "\<lambda>n s. I s \<and> n = f s" "f s" s b c] assms by blast

text \<open>A \<open>for\<close> loop over a known list of indices.\<close>

fun for_run :: "'i list \<Rightarrow> ('i \<Rightarrow> 's \<Rightarrow> 's run) \<Rightarrow> 's \<Rightarrow> 's run" where
  "for_run [] c s = ret s"
| "for_run (i # is') c s = rbind (c i s) (for_run is' c)"

lemma for_run_upt:
  assumes "I a s" "a \<le> b"
    and "\<And>i s. a \<le> i \<Longrightarrow> i < b \<Longrightarrow> I i s \<Longrightarrow> \<exists>s'. c i s = ret s' \<and> I (Suc i) s'"
  shows "\<exists>s'. for_run [a..<b] c s = ret s' \<and> I b s'"
  using assms
proof (induction "b - a" arbitrary: a s)
  case 0
  then show ?case by simp
next
  case (Suc d)
  then have lt: "a < b" by simp
  obtain s' where s': "c a s = ret s'" "I (Suc a) s'" using Suc.prems(3) [of a s] Suc.prems(1) lt by blast
  have "\<exists>s''. for_run [Suc a..<b] c s' = ret s'' \<and> I b s''"
    by (rule Suc.hyps(1)) (use Suc.hyps(2) lt s'(2) Suc.prems(3) in auto)
  then show ?case using lt s'(1) by (simp add: upt_conv_Cons)
qed

end
