(* ===== verification/Kmp.thy ===== *)
theory Kmp
  imports Loops "HOL-Library.Sublist"
begin

text \<open>
  Knuth-Morris-Pratt matching, the first matcher of src/match.c: \<open>kmp_pinit\<close> builds the table
  of skips, \<open>kmp_match\<close> scans the text.  The loop that falls back through the table
  (\<open>kmp_back\<close>) ends only for a table whose entries decrease; it is a partial function, and that
  it ends on the table \<open>kmp_pinit\<close> builds is part of the theorem.  Every access to the pattern, the
  table and the text is checked: one outside the array is a \<open>Fault\<close>.
\<close>

section \<open>The code\<close>

record kmppat =
  kmp_skips :: "nat list"
  kmp_pat :: "byte list"

partial_function (option) kmp_back :: "byte list \<Rightarrow> nat list \<Rightarrow> byte \<Rightarrow> nat \<Rightarrow> nat run" where
  "kmp_back pp skips c k =
     (if k > 0
      then rbind (Some (cell pp k)) (\<lambda>x.
             if x \<noteq> c then rbind (Some (cell skips (k - 1))) (kmp_back pp skips c) else ret k)
      else ret k)"

fun kmp_build :: "byte list \<Rightarrow> nat list \<Rightarrow> nat \<Rightarrow> nat \<Rightarrow> nat \<Rightarrow> nat list run" where
  "kmp_build pp skips q k 0 = ret skips"
| "kmp_build pp skips q k (Suc left) =
     rbind (Some (cell pp q)) (\<lambda>c.
     rbind (kmp_back pp skips c k) (\<lambda>k.
     rbind (Some (cell pp k)) (\<lambda>x.
       let k = (if x = c then k + 1 else k)
       in rbind (Some (set_cell skips q k)) (\<lambda>skips. kmp_build pp skips (q + 1) k left))))"

definition kmp_pinit :: "byte list \<Rightarrow> nat list \<Rightarrow> kmppat run" where
  "kmp_pinit pat skips =
     rbind (Some (set_cell skips 0 0)) (\<lambda>skips.
     rbind (kmp_build pat skips 1 0 (length pat - 1)) (\<lambda>skips. ret \<lparr>kmp_skips = skips, kmp_pat = pat\<rparr>))"

text \<open>
  The scan reads \<open>pp[q]\<close> before it compares \<open>q\<close> with the length of the pattern, so an empty
  pattern is read past its end.
\<close>

fun kmp_scan :: "byte list \<Rightarrow> byte list \<Rightarrow> nat list \<Rightarrow> nat \<Rightarrow> nat \<Rightarrow> nat \<Rightarrow> nat option run" where
  "kmp_scan sp pp skips i q 0 = ret None"
| "kmp_scan sp pp skips i q (Suc left) =
     rbind (Some (cell sp i)) (\<lambda>c.
     rbind (kmp_back pp skips c q) (\<lambda>q.
     rbind (Some (cell pp q)) (\<lambda>x.
       let q = (if x = c then q + 1 else q)
       in if q = length pp then ret (Some (i + 1 - length pp)) else kmp_scan sp pp skips (i + 1) q left)))"

definition kmp_match :: "byte list \<Rightarrow> kmppat \<Rightarrow> nat option run" where
  "kmp_match str pat = kmp_scan str (kmp_pat pat) (kmp_skips pat) 0 0 (length str)"

section \<open>Occurrences\<close>

definition occurs_at :: "'a list \<Rightarrow> 'a list \<Rightarrow> nat \<Rightarrow> bool" where
  "occurs_at pat str i \<longleftrightarrow> i + length pat \<le> length str \<and> take (length pat) (drop i str) = pat"

text \<open>What a matcher promises: the first occurrence, or that there is none.\<close>

definition first_occurrence :: "'a list \<Rightarrow> 'a list \<Rightarrow> nat option \<Rightarrow> bool" where
  "first_occurrence pat str r =
     (case r of None \<Rightarrow> \<forall>i. \<not> occurs_at pat str i
      | Some i \<Rightarrow> occurs_at pat str i \<and> (\<forall>j < i. \<not> occurs_at pat str j))"

section \<open>Borders\<close>

text \<open>\<open>suf p k t\<close>: the first \<open>k\<close> elements of the pattern end the text read so far.\<close>

definition suf :: "'a list \<Rightarrow> nat \<Rightarrow> 'a list \<Rightarrow> bool" where
  "suf p k t \<longleftrightarrow> k \<le> length p \<and> suffix (take k p) t"

definition best :: "'a list \<Rightarrow> 'a list \<Rightarrow> nat \<Rightarrow> bool" where
  "best p t k \<longleftrightarrow> suf p k t \<and> (\<forall>j. suf p j t \<longrightarrow> j \<le> k)"

lemma suf_0 [simp]: "suf p 0 t"
  by (simp add: suf_def)

lemma suf_le: "suf p k t \<Longrightarrow> k \<le> length t"
  by (auto simp: suf_def dest: suffix_length_le)

lemma suf_snoc: "suf p (Suc k) (t @ [c]) \<longleftrightarrow> k < length p \<and> p ! k = c \<and> suf p k t"
  by (auto simp: suf_def take_Suc_conv_app_nth Suc_le_eq)

lemma suf_shorter:
  assumes "suf p k t" "j \<le> k"
  shows "suf p j t \<longleftrightarrow> suf p j (take k p)"
proof -
  have "length (take j p) \<le> length (take k p)" using assms by simp
  then have "suffix (take j p) t \<longleftrightarrow> suffix (take j p) (take k p)"
    using assms(1) unfolding suf_def by (meson suffix_length_suffix suffix_order.trans)
  then show ?thesis by (simp add: suf_def)
qed

lemma suf_proper: "j < k \<Longrightarrow> k \<le> length p \<Longrightarrow> suf p j (take k p) \<longleftrightarrow> suf p j (drop 1 (take k p))"
proof -
  assume a: "j < k" "k \<le> length p"
  then have "take k p \<noteq> []" by auto
  then obtain x xs where x: "take k p = x # xs" by (cases "take k p") auto
  moreover have "length (take j p) \<le> length xs"
  proof -
    have "Suc (length xs) = k" using arg_cong [OF x, of length] a by simp
    then show ?thesis using a by simp
  qed
  then have "take j p \<noteq> x # xs" by (metis length_Cons not_less_eq_eq order.refl)
  ultimately show ?thesis by (auto simp: suf_def suffix_Cons)
qed

definition table_ok :: "'a list \<Rightarrow> nat list \<Rightarrow> nat \<Rightarrow> bool" where
  "table_ok p skips n \<longleftrightarrow> (\<forall>q. 1 \<le> q \<and> q \<le> n \<longrightarrow> best p (drop 1 (take q p)) (skips ! (q - 1)))"

lemma kmp_back_ok:
  assumes "table_ok p skips k" "suf p k t" "k < length p" "length p \<le> length skips"
    "\<And>j. suf p j t \<Longrightarrow> j < length p \<Longrightarrow> p ! j = c \<Longrightarrow> j \<le> k"
  shows "\<exists>k'. kmp_back p skips c k = ret k' \<and> suf p k' t \<and> k' \<le> k \<and> (k' = 0 \<or> p ! k' = c) \<and>
    (\<forall>j. suf p j t \<longrightarrow> j < length p \<longrightarrow> p ! j = c \<longrightarrow> j \<le> k')"
  using assms
proof (induction k rule: less_induct)
  case (less k)
  show ?case
  proof (cases "k > 0 \<and> p ! k \<noteq> c")
    case True
    define k2 where "k2 = skips ! (k - 1)"
    have b: "best p (drop 1 (take k p)) k2" using less.prems(1) True by (simp add: table_ok_def k2_def)
    then have k2: "k2 < k" using suf_le [of p k2 "drop 1 (take k p)"] less.prems(3) True by (auto simp: best_def)
    have s2: "suf p k2 t"
      using b k2 less.prems(2,3) suf_proper [of k2 k p] suf_shorter [of p k t k2] by (simp add: best_def)
    have "j \<le> k2" if "suf p j t" "j < length p" "p ! j = c" for j
    proof -
      have "j < k" using less.prems(5) [OF that] that(3) True by (cases "j = k") auto
      then have "suf p j (drop 1 (take k p))"
        using that(1) less.prems(2,3) suf_proper [of j k p] suf_shorter [of p k t j] by simp
      then show ?thesis using b by (simp add: best_def)
    qed
    moreover have "table_ok p skips k2" using less.prems(1) k2 by (simp add: table_ok_def)
    ultimately obtain k' where "kmp_back p skips c k2 = ret k'" "suf p k' t" "k' \<le> k2" "k' = 0 \<or> p ! k' = c"
      "\<forall>j. suf p j t \<longrightarrow> j < length p \<longrightarrow> p ! j = c \<longrightarrow> j \<le> k'"
      using less.IH [OF k2 _ s2] k2 less.prems(3,4) by auto
    moreover have "kmp_back p skips c k = kmp_back p skips c k2"
      using True less.prems(3,4) by (subst kmp_back.simps) (simp add: k2_def)
    ultimately show ?thesis using k2 by (intro exI [of _ k']) auto
  next
    case False
    then have "kmp_back p skips c k = ret k" using less.prems(3) by (subst kmp_back.simps) auto
    then show ?thesis using less.prems False by (intro exI [of _ k]) auto
  qed
qed

lemma kmp_step:
  assumes "table_ok p skips k" "best p t k" "k < length p" "length p \<le> length skips"
  shows "\<exists>k'. kmp_back p skips c k = ret k' \<and> k' < length p \<and> best p (t @ [c]) (if p ! k' = c then k' + 1 else k')"
proof -
  obtain k' where k': "kmp_back p skips c k = ret k'" "suf p k' t" "k' \<le> k" "k' = 0 \<or> p ! k' = c"
    "\<forall>j. suf p j t \<longrightarrow> j < length p \<longrightarrow> p ! j = c \<longrightarrow> j \<le> k'"
    using kmp_back_ok [OF assms(1) _ assms(3,4), of t c] assms(2) by (auto simp: best_def)
  have "best p (t @ [c]) (if p ! k' = c then k' + 1 else k')"
    unfolding best_def
  proof (intro conjI allI impI)
    show "suf p (if p ! k' = c then k' + 1 else k') (t @ [c])" using k' assms(3) by (auto simp: suf_snoc)
    fix j assume j: "suf p j (t @ [c])"
    show "j \<le> (if p ! k' = c then k' + 1 else k')"
    proof (cases j)
      case (Suc i)
      then have "i \<le> k'" "p ! i = c" using j k'(5) by (simp_all add: suf_snoc)
      then show ?thesis using Suc k'(4) by (cases "i = k'") auto
    qed simp
  qed
  then show ?thesis using k' assms(3) by auto
qed

lemma kmp_build_ok:
  assumes "table_ok p skips q" "1 \<le> q" "q + left = length p" "length p \<le> length skips"
    "best p (drop 1 (take q p)) k"
  shows "\<exists>sk. kmp_build p skips q k left = ret sk \<and> table_ok p sk (length p) \<and> length sk = length skips"
  using assms
proof (induction left arbitrary: skips q k)
  case 0
  then show ?case by simp
next
  case (Suc left)
  have kq: "k < q" using suf_le [of p k "drop 1 (take q p)"] Suc.prems(2,3,5) by (auto simp: best_def)
  have "table_ok p skips k" using Suc.prems(1) kq by (simp add: table_ok_def)
  moreover have "k < length p" using kq Suc.prems by simp
  ultimately obtain k' where k': "kmp_back p skips (p ! q) k = ret k'" "k' < length p"
    "best p (drop 1 (take q p) @ [p ! q]) (if p ! k' = p ! q then k' + 1 else k')"
    using kmp_step [OF _ Suc.prems(5) _ Suc.prems(4), of "p ! q"] by blast
  define k2 where "k2 = (if p ! k' = p ! q then k' + 1 else k')"
  have "drop 1 (take (q + 1) p) = drop 1 (take q p) @ [p ! q]"
    using Suc.prems(2,3) by (simp add: take_Suc_conv_app_nth)
  then have b: "best p (drop 1 (take (q + 1) p)) k2" using k'(3) by (simp add: k2_def)
  moreover have "table_ok p (skips[q := k2]) (q + 1)"
    unfolding table_ok_def
  proof (intro allI impI)
    fix r assume r: "1 \<le> r \<and> r \<le> q + 1"
    show "best p (drop 1 (take r p)) (skips[q := k2] ! (r - 1))"
    proof (cases "r = q + 1")
      case True
      then show ?thesis using b Suc.prems(3,4) by simp
    next
      case False
      then have "r \<le> q" "r - 1 \<noteq> q" using r by linarith+
      then show ?thesis using Suc.prems(1) r by (simp add: table_ok_def)
    qed
  qed
  ultimately have "\<exists>sk. kmp_build p (skips[q := k2]) (q + 1) k2 left = ret sk \<and> table_ok p sk (length p) \<and> length sk = length (skips[q := k2])"
    using Suc.prems(3,4) by (intro Suc.IH) auto
  moreover have "q < length p" "q < length skips" using Suc.prems(3,4) by simp_all
  ultimately show ?case using k'(1,2) by (simp add: k2_def Let_def)
qed

lemma kmp_pinit_ok:
  assumes "pat \<noteq> []" "length pat \<le> length skips"
  shows "\<exists>kp. kmp_pinit pat skips = ret kp \<and> kmp_pat kp = pat \<and> table_ok pat (kmp_skips kp) (length pat) \<and> length (kmp_skips kp) = length skips"
proof -
  have d: "drop 1 (take 1 pat) = []" by (cases pat) auto
  then have b: "best pat (drop 1 (take 1 pat)) 0" by (auto simp: best_def dest: suf_le)
  moreover have "table_ok pat (skips[0 := 0]) 1"
    unfolding table_ok_def
  proof (intro allI impI)
    fix q assume "1 \<le> q \<and> q \<le> (1 :: nat)"
    then have q: "q = 1" by simp
    have "0 < length skips" using assms by (cases pat; cases skips) auto
    then show "best pat (drop 1 (take q pat)) (skips[0 := 0] ! (q - 1))" using b by (simp add: q)
  qed
  moreover have "1 + (length pat - 1) = length pat" using assms(1) by (cases pat) auto
  ultimately obtain sk where "kmp_build pat (skips[0 := 0]) 1 0 (length pat - 1) = ret sk" "table_ok pat sk (length pat)" "length sk = length skips"
    using kmp_build_ok [of pat "skips[0 := 0]" 1 "length pat - 1" 0] assms by auto
  moreover have "0 < length skips" using assms by (cases pat; cases skips) auto
  ultimately show ?thesis by (simp add: kmp_pinit_def)
qed

lemma suffix_iff_drop: "suffix xs ys \<longleftrightarrow> length xs \<le> length ys \<and> drop (length ys - length xs) ys = xs"
proof
  assume "suffix xs ys"
  then show "length xs \<le> length ys \<and> drop (length ys - length xs) ys = xs" by (auto simp: suffix_def)
next
  assume "length xs \<le> length ys \<and> drop (length ys - length xs) ys = xs"
  then show "suffix xs ys" by (metis suffix_drop)
qed

lemma suf_whole:
  "n \<le> length s \<Longrightarrow> suf p (length p) (take n s) \<longleftrightarrow> length p \<le> n \<and> occurs_at p s (n - length p)"
proof -
  assume n: "n \<le> length s"
  show ?thesis
  proof (cases "length p \<le> n")
    case True
    have "suffix p (take n s) \<longleftrightarrow> drop (n - length p) (take n s) = p"
      using True n by (simp add: suffix_iff_drop)
    also have "drop (n - length p) (take n s) = take (length p) (drop (n - length p) s)"
      using True by (simp add: drop_take)
    finally show ?thesis using True n by (simp add: suf_def occurs_at_def)
  next
    case False
    then show ?thesis using n by (auto dest: suf_le)
  qed
qed

lemma kmp_scan_ok:
  assumes "table_ok p skips (length p)" "i + left = length s" "best p (take i s) q" "q < length p"
    "\<And>j. j + length p \<le> i \<Longrightarrow> \<not> occurs_at p s j" "length p \<le> length skips"
  shows "\<exists>r. kmp_scan s p skips i q left = ret r \<and> first_occurrence p s r"
  using assms(2-5)
proof (induction left arbitrary: i q)
  case 0
  have "\<not> occurs_at p s j" for j
    using 0(4) [of j] 0(1) by (auto simp: occurs_at_def)
  then show ?case by (simp add: first_occurrence_def)
next
  case (Suc left)
  have "table_ok p skips q" using assms(1) Suc.prems(3) by (simp add: table_ok_def)
  then obtain q' where q': "kmp_back p skips (s ! i) q = ret q'" "q' < length p"
    "best p (take i s @ [s ! i]) (if p ! q' = s ! i then q' + 1 else q')"
    using kmp_step [OF _ Suc.prems(2,3) assms(6)] by blast
  define q2 where "q2 = (if p ! q' = s ! i then q' + 1 else q')"
  have b: "best p (take (i + 1) s) q2" using q'(3) Suc.prems(1) by (simp add: q2_def take_Suc_conv_app_nth)
  have step: "kmp_scan s p skips i q (Suc left) =
      (if q2 = length p then ret (Some (i + 1 - length p)) else kmp_scan s p skips (i + 1) q2 left)"
    using q'(1,2) Suc.prems(1) by (simp add: q2_def Let_def)
  have i1: "i + 1 \<le> length s" using Suc.prems(1) by simp
  show ?case
  proof (cases "q2 = length p")
    case True
    then have "suf p (length p) (take (i + 1) s)" using b by (simp add: best_def)
    then have o: "length p \<le> i + 1" "occurs_at p s (i + 1 - length p)" using suf_whole [OF i1] by simp_all
    moreover have "\<not> occurs_at p s j" if "j < i + 1 - length p" for j using Suc.prems(4) that by simp
    ultimately show ?thesis using step True by (simp add: first_occurrence_def)
  next
    case False
    have "q2 \<le> length p" using b by (simp add: best_def suf_def)
    have "\<not> occurs_at p s j" if "j + length p \<le> i + 1" for j
    proof (cases "j + length p \<le> i")
      case False
      then have j: "j = i + 1 - length p" "length p \<le> i + 1" using that by linarith+
      have "\<not> suf p (length p) (take (i + 1) s)"
        using b \<open>q2 \<noteq> length p\<close> \<open>q2 \<le> length p\<close> by (auto simp: best_def)
      then show ?thesis using suf_whole [OF i1, of p] j by simp
    qed (use Suc.prems(4) in simp)
    then have "\<exists>r. kmp_scan s p skips (i + 1) q2 left = ret r \<and> first_occurrence p s r"
      using Suc.prems(1) b False \<open>q2 \<le> length p\<close> by (intro Suc.IH) auto
    then show ?thesis using step False by simp
  qed
qed

section \<open>Properties\<close>

text \<open>C16: For every pattern that is not empty, \<open>kmp_pinit\<close> and then \<open>kmp_match\<close> return on every
  text, and the result is the first place where the pattern occurs, or that it does not occur;
  nothing outside the text, the pattern and the table is read or written.  The table can have any initial
  content.  An empty pattern is read past its end as soon as the text has a byte.\<close>

theorem kmp_correct:
  assumes "pat \<noteq> []" "length pat \<le> length skips"
  shows "(\<exists>kp r. kmp_pinit pat skips = ret kp \<and> kmp_match str kp = ret r \<and> first_occurrence pat str r) \<and>
    kmp_match (c # str) \<lparr>kmp_skips = skips, kmp_pat = []\<rparr> = Some Fault"
proof
  obtain kp where kp: "kmp_pinit pat skips = ret kp" "kmp_pat kp = pat" "table_ok pat (kmp_skips kp) (length pat)" "length (kmp_skips kp) = length skips"
    using kmp_pinit_ok [OF assms] by blast
  have "best pat (take 0 str) 0" by (auto simp: best_def dest: suf_le)
  then have "\<exists>r. kmp_scan str pat (kmp_skips kp) 0 0 (length str) = ret r \<and> first_occurrence pat str r"
    using assms(1) assms(2) kp(4) by (intro kmp_scan_ok [OF kp(3)]) auto
  then show "\<exists>kp r. kmp_pinit pat skips = ret kp \<and> kmp_match str kp = ret r \<and> first_occurrence pat str r"
    using kp by (auto simp: kmp_match_def)
  have "kmp_back [] skips c 0 = ret 0" by (subst kmp_back.simps) simp
  then show "kmp_match (c # str) \<lparr>kmp_skips = skips, kmp_pat = []\<rparr> = Some Fault" by (simp add: kmp_match_def cell_def)
qed

lemma kmp_correct_witness:
  "\<exists>kp r. kmp_pinit [1, 2, 1] [0, 0, 0] = ret kp \<and> kmp_match [1, 2, 2, 1, 2, 1] kp = ret r \<and>
     first_occurrence [1, 2, 1 :: byte] [1, 2, 2, 1, 2, 1] r"
  using kmp_correct [of "[1, 2, 1]" "[0, 0, 0]" "[1, 2, 2, 1, 2, 1]" 0] by simp

end
