(* ===== verification/BoyerMoore.thy ===== *)
theory BoyerMoore
  imports Kmp
begin

text \<open>
  Boyer-Moore matching, the second matcher of src/match.c: the last-occurrence table, the
  good-suffix table built by \<open>bm_pinit\<close> in two passes, and the scan \<open>bm_match\<close>.
  In the comments of the proofs, positions are counted from 1 as \<open>J = j + 1\<close>, which is how the
  code stores them in \<open>scratch\<close>.
\<close>

section \<open>The code\<close>

record bmpat =
  bm_last :: "nat list"
  bm_pat :: "byte list"
  bm_skips :: "nat list option"

definition bm_last_tab :: "byte list \<Rightarrow> nat list" where
  "bm_last_tab pp = fold (\<lambda>i lst. lst[unat (pp ! i) := i + 1]) [0..<length pp] (replicate 256 0)"

partial_function (option) bm_while ::
  "byte list \<Rightarrow> nat list \<Rightarrow> nat list \<Rightarrow> nat \<Rightarrow> nat \<Rightarrow> (nat list \<times> nat) option" where
  "bm_while pp skips scratch i j =
     (if i < length pp \<and> pp ! i \<noteq> pp ! j
      then bm_while pp (if skips ! i = 0 then skips[i := i - j] else skips) scratch (scratch ! i - 1) j
      else Some (skips, i))"

fun bm_pass1 :: "byte list \<Rightarrow> nat list \<Rightarrow> nat list \<Rightarrow> nat \<Rightarrow> nat \<Rightarrow> (nat list \<times> nat list \<times> nat) option" where
  "bm_pass1 pp skips scratch i 0 =
     (let scratch = scratch[0 := i + 1]
      in Option.bind (bm_while pp skips scratch i 0) (\<lambda>(skips, i). Some (skips, scratch, i - 1)))"
| "bm_pass1 pp skips scratch i (Suc j) =
     (let scratch = scratch[Suc j := i + 1]
      in Option.bind (bm_while pp skips scratch i (Suc j)) (\<lambda>(skips, i). bm_pass1 pp skips scratch (i - 1) j))"

definition bm_pass2 :: "nat \<Rightarrow> nat list \<Rightarrow> nat list \<Rightarrow> nat \<Rightarrow> nat list \<times> nat" where
  "bm_pass2 len skips scratch i =
     fold (\<lambda>j (skips, i). (if skips ! j = 0 then skips[j := i + 1] else skips,
                           if i = j then scratch ! j - 1 else i)) [0..<len] (skips, i)"

definition bm_pinit :: "bmpat \<Rightarrow> byte list \<Rightarrow> nat list \<Rightarrow> nat list \<Rightarrow> bmpat option" where
  "bm_pinit bmp pat skips scratch =
     (let bmp = bmp\<lparr>bm_pat := pat, bm_skips := Some skips\<rparr>; len = length pat
      in if len = 0 then Some bmp
         else let skips = fold (\<lambda>i sk. sk[i := 0]) [0..<len] skips
              in map_option (\<lambda>(skips, scratch, i).
                     bmp\<lparr>bm_last := bm_last_tab pat, bm_skips := Some (fst (bm_pass2 len skips scratch i))\<rparr>)
                   (bm_pass1 pat skips scratch len (len - 1)))"

definition bm_pinit_lite :: "bmpat \<Rightarrow> byte list \<Rightarrow> bmpat" where
  "bm_pinit_lite bmp pat =
     (let bmp = bmp\<lparr>bm_pat := pat, bm_skips := None\<rparr>
      in if length pat = 0 then bmp else bmp\<lparr>bm_last := bm_last_tab pat\<rparr>)"

fun bm_cmp :: "byte list \<Rightarrow> byte list \<Rightarrow> nat \<Rightarrow> nat \<Rightarrow> nat outcome" where
  "bm_cmp pp sp i 0 = Ok 0"
| "bm_cmp pp sp i (Suc j) =
     (if i + j \<ge> length sp then Fault
      else if pp ! j = sp ! (i + j) then bm_cmp pp sp i j else Ok (Suc j))"

definition bm_skip :: "nat list \<Rightarrow> nat list \<Rightarrow> byte \<Rightarrow> nat \<Rightarrow> nat" where
  "bm_skip lst skips c j =
     (let skip = lst ! unat c;
          skip = (if skip < j then j - skip else 1)
      in if skip < skips ! (j - 1) then skips ! (j - 1) else skip)"

lemma bm_skip_pos: "0 < bm_skip lst skips c j"
  by (auto simp: bm_skip_def Let_def)

text \<open>\<open>lim\<close> is \<open>slen - plen\<close>, computed without sign in 64 bits.\<close>

function bm_loop :: "nat list \<Rightarrow> nat list \<Rightarrow> byte list \<Rightarrow> byte list \<Rightarrow> nat \<Rightarrow> nat \<Rightarrow> nat option outcome" where
  "bm_loop lst skips pp sp lim i =
     (if i \<le> lim
      then obind (bm_cmp pp sp i (length pp)) (\<lambda>j.
             if j = 0 then Ok (Some i)
             else bm_loop lst skips pp sp lim (i + bm_skip lst skips (sp ! (i + j - 1)) j))
      else Ok None)"
  by pat_completeness auto
termination
  by (relation "measure (\<lambda>(lst, skips, pp, sp, lim, i). Suc lim - i)") (use bm_skip_pos in \<open>auto intro: diff_less_mono2\<close>)

declare bm_loop.simps [simp del]

definition bm_match :: "byte list \<Rightarrow> bmpat \<Rightarrow> nat option outcome" where
  "bm_match str pat =
     (case bm_skips pat of None \<Rightarrow> Abort
      | Some skips \<Rightarrow>
          bm_loop (bm_last pat) skips (bm_pat pat) str
            ((length str + 2 ^ 64 - length (bm_pat pat)) mod 2 ^ 64) 0)"

section \<open>The last-occurrence table\<close>

lemma length_bm_last_tab: "length (bm_last_tab pp) = 256"
proof -
  have "length (fold (\<lambda>i lst. lst[unat (pp ! i) := i + 1]) is1 lst) = length lst" for is1 lst
    by (induction is1 arbitrary: lst) auto
  then show ?thesis by (simp add: bm_last_tab_def)
qed

lemma bm_last_tab_ok: "k < length pp \<Longrightarrow> k < bm_last_tab pp ! unat (pp ! k)"
proof -
  define g where "g n = fold (\<lambda>i lst. lst[unat (pp ! i) := i + 1]) [0..<n] (replicate 256 (0 :: nat))" for n
  have len: "length (g n) = 256" for n by (induction n) (simp_all add: g_def)
  have b: "unat (c :: byte) < 256" for c
  proof -
    have "unat c < 2 ^ LENGTH(8)" by (rule unsigned_less)
    then show ?thesis by simp
  qed
  have "k < g n ! unat (pp ! k)" if "k < n" for n
    using that
  proof (induction n)
    case (Suc n)
    have "g (Suc n) = (g n)[unat (pp ! n) := n + 1]" by (simp add: g_def)
    then show ?case using Suc len [of n] b [of "pp ! n"] by (cases "unat (pp ! n) = unat (pp ! k)") (auto simp: less_Suc_eq)
  qed simp
  then show "k < length pp \<Longrightarrow> k < bm_last_tab pp ! unat (pp ! k)" by (simp add: bm_last_tab_def g_def)
qed

section \<open>Shifts\<close>

text \<open>
  After a match of \<open>p[j..]\<close> and a mismatch at \<open>j - 1\<close>, a shift by \<open>s\<close> is consistent with what was
  read if the shifted pattern repeats the matched part and has another byte at the mismatch.
\<close>

definition consistent :: "'a list \<Rightarrow> nat \<Rightarrow> nat \<Rightarrow> bool" where
  "consistent p j s \<longleftrightarrow> (\<forall>k. j \<le> k \<and> s \<le> k \<and> k < length p \<longrightarrow> p ! (k - s) = p ! k) \<and>
     (s < j \<longrightarrow> p ! (j - 1 - s) \<noteq> p ! (j - 1))"

definition skips_ok :: "'a list \<Rightarrow> nat list \<Rightarrow> bool" where
  "skips_ok p sk \<longleftrightarrow> (\<forall>j s. 1 \<le> j \<and> j \<le> length p \<and> 0 < s \<and> s < sk ! (j - 1) \<longrightarrow> \<not> consistent p j s)"

lemma occurs_at_nth:
  "occurs_at p s i \<longleftrightarrow> i + length p \<le> length s \<and> (\<forall>k < length p. p ! k = s ! (i + k))"
proof -
  have "i + length p \<le> length s \<Longrightarrow> take (length p) (drop i s) = p \<longleftrightarrow> (\<forall>k < length p. p ! k = s ! (i + k))"
    by (auto simp: list_eq_iff_nth_eq)
  then show ?thesis by (auto simp: occurs_at_def)
qed

lemma bm_cmp_ok:
  "i + n \<le> length sp \<Longrightarrow> \<exists>j \<le> n. bm_cmp pp sp i n = Ok j \<and> (\<forall>k. j \<le> k \<and> k < n \<longrightarrow> pp ! k = sp ! (i + k)) \<and>
     (0 < j \<longrightarrow> pp ! (j - 1) \<noteq> sp ! (i + j - 1))"
proof (induction n)
  case (Suc n)
  show ?case
  proof (cases "pp ! n = sp ! (i + n)")
    case True
    obtain j where "j \<le> n" "bm_cmp pp sp i n = Ok j" "\<forall>k. j \<le> k \<and> k < n \<longrightarrow> pp ! k = sp ! (i + k)"
      "0 < j \<longrightarrow> pp ! (j - 1) \<noteq> sp ! (i + j - 1)" using Suc by auto
    then show ?thesis using True Suc.prems by (intro exI [of _ j]) (auto simp: less_Suc_eq)
  next
    case False
    then show ?thesis using Suc.prems by (intro exI [of _ "Suc n"]) auto
  qed
qed simp

lemma bm_skip_safe:
  assumes sk: "skips_ok p sk" and lst: "\<And>k. k < length p \<Longrightarrow> k < lst ! unat (p ! k)"
    and j: "1 \<le> j" "j \<le> length p" and m: "\<forall>k. j \<le> k \<and> k < length p \<longrightarrow> p ! k = s ! (i + k)"
    and mis: "p ! (j - 1) \<noteq> s ! (i + j - 1)" and d: "0 < d" "d < bm_skip lst sk (s ! (i + j - 1)) j"
  shows "\<not> occurs_at p s (i + d)"
proof
  assume o: "occurs_at p s (i + d)"
  have at: "p ! (k - d) = s ! (i + k)" if "d \<le> k" "k < length p" for k
    using o that by (auto simp: occurs_at_nth dest!: spec [of _ "k - d"])
  have "consistent p j d"
    unfolding consistent_def
  proof (intro conjI allI impI)
    fix k assume "j \<le> k \<and> d \<le> k \<and> k < length p"
    then show "p ! (k - d) = p ! k" using at m by auto
  next
    assume "d < j"
    then show "p ! (j - 1 - d) \<noteq> p ! (j - 1)" using at [of "j - 1"] mis j by auto
  qed
  then have "\<not> d < sk ! (j - 1)" using sk j d(1) by (auto simp: skips_ok_def)
  then have L: "d < j - lst ! unat (s ! (i + j - 1))" "lst ! unat (s ! (i + j - 1)) < j"
    using d by (auto simp: bm_skip_def Let_def split: if_splits)
  then have "p ! (j - 1 - d) = s ! (i + (j - 1))" using at [of "j - 1"] j by simp
  then have "j - 1 - d < lst ! unat (s ! (i + j - 1))" using lst [of "j - 1 - d"] j by simp
  then show False using L j d(1) by linarith
qed

lemma bm_loop_ok:
  assumes sk: "skips_ok p sk" and lst: "\<And>k. k < length p \<Longrightarrow> k < lst ! unat (p ! k)" and l: "length p \<le> length s"
    and before: "\<forall>k < i. \<not> occurs_at p s k"
  shows "\<exists>r. bm_loop lst sk p s (length s - length p) i = Ok r \<and> first_occurrence p s r"
  using before
proof (induction "Suc (length s) - i" arbitrary: i rule: less_induct)
  case less
  show ?case
  proof (cases "i \<le> length s - length p")
    case True
    then have "i + length p \<le> length s" using l by simp
    then obtain j where j: "j \<le> length p" "bm_cmp p s i (length p) = Ok j" "\<forall>k. j \<le> k \<and> k < length p \<longrightarrow> p ! k = s ! (i + k)"
      "0 < j \<longrightarrow> p ! (j - 1) \<noteq> s ! (i + j - 1)" using bm_cmp_ok by blast
    show ?thesis
    proof (cases "j = 0")
      case True
      then have "occurs_at p s i" using j(3) \<open>i + length p \<le> length s\<close> by (simp add: occurs_at_nth)
      then show ?thesis using True j(2) \<open>i \<le> _\<close> less.prems
        by (subst bm_loop.simps) (simp add: first_occurrence_def)
    next
      case False
      define d where "d = bm_skip lst sk (s ! (i + j - 1)) j"
      have "\<not> occurs_at p s k" if "k < i + d" for k
      proof -
        have "\<not> occurs_at p s i"
        proof
          assume "occurs_at p s i"
          then have "p ! (j - 1) = s ! (i + (j - 1))" using j(1) False by (simp add: occurs_at_nth)
          then show False using j(4) False by simp
        qed
        moreover have "\<not> occurs_at p s (i + e)" if "0 < e" "e < d" for e
          using bm_skip_safe [OF sk lst _ j(1,3) _ that(1)] False j(4) that(2) by (simp add: d_def)
        ultimately show ?thesis using less.prems that
          by (metis add_diff_inverse_nat less_diff_conv2 nat_neq_iff not_less_iff_gr_or_eq zero_less_diff add_less_cancel_left)
      qed
      moreover have "Suc (length s) - (i + d) < Suc (length s) - i"
        using bm_skip_pos [of lst sk "s ! (i + j - 1)" j] True by (auto simp: d_def)
      ultimately have "\<exists>r. bm_loop lst sk p s (length s - length p) (i + d) = Ok r \<and> first_occurrence p s r"
        by (intro less.hyps) auto
      then show ?thesis using True False j(2) by (subst bm_loop.simps) (simp add: d_def)
    qed
  next
    case False
    then have "\<not> occurs_at p s k" for k using less.prems l by (cases "k < i") (auto simp: occurs_at_nth)
    then show ?thesis using False by (subst bm_loop.simps) (simp add: first_occurrence_def)
  qed
qed

section \<open>Borders of suffixes\<close>

text \<open>\<open>isb p I J\<close>: the suffix from \<open>J\<close> is a border of the suffix from \<open>I\<close>.\<close>

definition isb :: "'a list \<Rightarrow> nat \<Rightarrow> nat \<Rightarrow> bool" where
  "isb p I J \<longleftrightarrow> I < J \<and> J \<le> length p \<and> (\<forall>k. J \<le> k \<and> k < length p \<longrightarrow> p ! (k - (J - I)) = p ! k)"

definition isf :: "'a list \<Rightarrow> nat \<Rightarrow> nat \<Rightarrow> bool" where
  "isf p I F \<longleftrightarrow> I < F \<and> (if F = Suc (length p) then I = length p else isb p I F) \<and> (\<forall>J. isb p I J \<longrightarrow> F \<le> J)"

lemma isb_end: "I < length p \<Longrightarrow> isb p I (length p)"
  by (simp add: isb_def)

lemma isb_trans: "isb p I J \<Longrightarrow> isb p J K \<Longrightarrow> isb p I K"
  unfolding isb_def
proof (intro conjI allI impI, goal_cases)
  case (3 k)
  have a: "J \<le> k - (K - J)" "k - (K - J) < length p" using 3 by auto
  have "p ! (k - (K - J) - (J - I)) = p ! (k - (K - J))" using 3(1) a by blast
  also have "\<dots> = p ! k" using 3(2,3) by blast
  also have "k - (K - J) - (J - I) = k - (K - I)" using 3 by auto
  finally show ?case .
qed auto

lemma isb_between:
  assumes "isb p I J" "isb p I J'" "J' < J"
  shows "isb p J' J"
  unfolding isb_def
proof (intro conjI allI impI)
  show "J' < J" "J \<le> length p" using assms by (auto simp: isb_def)
  fix k assume k: "J \<le> k \<and> k < length p"
  have "J' \<le> k - (J - J')" "k - (J - J') < length p" using k assms by (auto simp: isb_def)
  then have "p ! (k - (J - J') - (J' - I)) = p ! (k - (J - J'))" using assms(2) by (auto simp: isb_def)
  moreover have "p ! (k - (J - I)) = p ! k" using assms(1) k by (auto simp: isb_def)
  moreover have "k - (J - J') - (J' - I) = k - (J - I)" using k assms by (auto simp: isb_def)
  ultimately show "p ! (k - (J - J')) = p ! k" by simp
qed

lemma isb_extend:
  assumes "1 \<le> I" "J \<le> length p"
  shows "isb p (I - 1) (J - 1) \<longleftrightarrow> isb p I J \<and> p ! (I - 1) = p ! (J - 1)"
proof
  assume a: "isb p (I - 1) (J - 1)"
  then have IJ: "I < J" "I - 1 < J - 1" by (auto simp: isb_def)
  then have sh: "J - 1 - (I - 1) = J - I" using assms by simp
  have *: "p ! (k - (J - I)) = p ! k" if "J - 1 \<le> k" "k < length p" for k using a that sh by (auto simp: isb_def)
  have "J - 1 - (J - I) = I - 1" using IJ assms by simp
  then show "isb p I J \<and> p ! (I - 1) = p ! (J - 1)" using IJ assms *[of "J - 1"] * by (auto simp: isb_def)
next
  assume a: "isb p I J \<and> p ! (I - 1) = p ! (J - 1)"
  then have IJ: "I < J" by (auto simp: isb_def)
  then have sh: "J - 1 - (I - 1) = J - I" "J - 1 - (J - I) = I - 1" using assms by auto
  show "isb p (I - 1) (J - 1)"
    unfolding isb_def sh(1)
  proof (intro conjI allI impI)
    show "I - 1 < J - 1" "J - 1 \<le> length p" using IJ assms by auto
    fix k assume k: "J - 1 \<le> k \<and> k < length p"
    show "p ! (k - (J - I)) = p ! k"
    proof (cases "k = J - 1")
      case True then show ?thesis using a sh(2) by simp
    next
      case False
      then have "J \<le> k" using k by linarith
      then show ?thesis using a k by (auto simp: isb_def)
    qed
  qed
qed

section \<open>The good-suffix table\<close>

definition kind1 :: "'a list \<Rightarrow> nat \<Rightarrow> nat \<Rightarrow> bool" where
  "kind1 p I J \<longleftrightarrow> 1 \<le> I \<and> isb p I J \<and> p ! (I - 1) \<noteq> p ! (J - 1)"

lemma consistent_iff:
  assumes "1 \<le> j" "j \<le> length p" "0 < s" "s \<le> length p"
  shows "consistent p j s \<longleftrightarrow> (if s < j then kind1 p (j - s) j else isb p 0 s)"
proof (cases "s < j")
  case True
  then have "j - (j - s) = s" "j - s - 1 = j - 1 - s" by auto
  then show ?thesis using True assms by (auto simp: consistent_def kind1_def isb_def)
next
  case False
  then show ?thesis using assms by (auto simp: consistent_def isb_def)
qed

text \<open>An entry that is set holds the least shift of the first kind.\<close>

definition entry_set :: "'a list \<Rightarrow> nat list \<Rightarrow> nat \<Rightarrow> bool" where
  "entry_set p sk J \<longleftrightarrow> sk ! (J - 1) < J \<and> kind1 p (J - sk ! (J - 1)) J \<and> (\<forall>I > J - sk ! (J - 1). \<not> kind1 p I J)"

text \<open>\<open>sk\<close> covers the shifts from the positions above \<open>I\<close>, and for \<open>I\<close> those to entries below \<open>J\<close>.\<close>

definition sk_inv :: "'a list \<Rightarrow> nat \<Rightarrow> nat \<Rightarrow> nat list \<Rightarrow> bool" where
  "sk_inv p I J sk \<longleftrightarrow> length sk = length p \<and>
     (\<forall>J0. 1 \<le> J0 \<and> J0 \<le> length p \<longrightarrow>
        (if sk ! (J0 - 1) = 0 then (\<forall>I' > I. \<not> kind1 p I' J0) \<and> (J0 < J \<longrightarrow> \<not> kind1 p I J0)
         else entry_set p sk J0))"

lemma sk_inv_mono: "sk_inv p I J sk \<Longrightarrow> J' \<le> J \<Longrightarrow> sk_inv p I J' sk"
  by (auto simp: sk_inv_def split: if_splits)

lemma sk_inv_next: "sk_inv p I (Suc (length p)) sk \<Longrightarrow> 1 \<le> I \<Longrightarrow> sk_inv p (I - 1) 0 sk"
  unfolding sk_inv_def
proof (intro conjI allI impI, goal_cases)
  case (2 J0)
  then show ?case
    by (auto split: if_splits) (metis Suc_lessI Suc_pred le_imp_less_Suc less_Suc_eq_le nat_neq_iff not_less_eq)
qed simp

lemma sk_inv_update:
  assumes inv: "sk_inv p I J sk" and J: "isb p I J" "1 \<le> I" "p ! (J - 1) \<noteq> p ! (I - 1)"
  shows "sk_inv p I (Suc J) (if sk ! (J - 1) = 0 then sk[J - 1 := J - I] else sk)"
proof -
  have b: "I < J" "J \<le> length p" using J by (auto simp: isb_def)
  have k: "kind1 p I J" using J by (auto simp: kind1_def)
  let ?sk = "if sk ! (J - 1) = 0 then sk[J - 1 := J - I] else sk"
  have len: "length sk = length p" using inv by (simp add: sk_inv_def)
  show ?thesis
    unfolding sk_inv_def
  proof (intro conjI allI impI)
    show "length ?sk = length p" using len by simp
    fix J0 assume J0: "1 \<le> J0 \<and> J0 \<le> length p"
    note old = inv [unfolded sk_inv_def, THEN conjunct2, rule_format, OF J0]
    show "if ?sk ! (J0 - 1) = 0 then (\<forall>I' > I. \<not> kind1 p I' J0) \<and> (J0 < Suc J \<longrightarrow> \<not> kind1 p I J0) else entry_set p ?sk J0"
    proof (cases "J0 = J")
      case True
      show ?thesis
      proof (cases "sk ! (J - 1) = 0")
        case z: True
        then have "?sk ! (J - 1) = J - I" using len b by simp
        moreover have "\<forall>I' > I. \<not> kind1 p I' J" using old z True by simp
        moreover have "J - (J - I) = I" using b by simp
        ultimately show ?thesis using True k b J(2) by (simp add: entry_set_def)
      next
        case False
        then show ?thesis using old True by simp
      qed
    next
      case False
      have n: "J0 - 1 \<noteq> J - 1" using False J0 b J(2) by linarith
      then have "?sk ! (J0 - 1) = sk ! (J0 - 1)" by simp
      then show ?thesis using old False by (auto simp: entry_set_def split: if_splits)
    qed
  qed
qed

text \<open>
  The inner loop of the first pass: it walks the borders \<open>J\<close> of the suffix from \<open>I\<close>, all of
  which so far are followed by another byte, and stops at the first that is not.
\<close>

lemma bm_while_ok:
  assumes I: "1 \<le> I" "I \<le> length p" and sc: "\<forall>K. I < K \<and> K \<le> length p \<longrightarrow> isf p K (scratch ! (K - 1))"
    and inv: "sk_inv p I J sk" and J: "I < J" "if J = Suc (length p) then True else isb p I J"
    and walked: "\<forall>K. isb p I K \<and> K < J \<longrightarrow> p ! (K - 1) \<noteq> p ! (I - 1)"
  shows "\<exists>sk' J'. bm_while p sk scratch (J - 1) (I - 1) = Some (sk', J' - 1) \<and> sk_inv p I J' sk' \<and> I < J' \<and>
    (if J' = Suc (length p) then True else isb p I J' \<and> p ! (J' - 1) = p ! (I - 1)) \<and>
    (\<forall>K. isb p I K \<and> K < J' \<longrightarrow> p ! (K - 1) \<noteq> p ! (I - 1))"
  using inv J walked
proof (induction "Suc (length p) - J" arbitrary: J sk rule: less_induct)
  case less
  note inv = less.prems(1) and J = less.prems(2,3) and walked = less.prems(4)
  have J1: "J - 1 < length p \<longleftrightarrow> J \<noteq> Suc (length p)"
    using J I by (auto simp: isb_def split: if_splits)
  show ?case
  proof (cases "J \<noteq> Suc (length p) \<and> p ! (J - 1) \<noteq> p ! (I - 1)")
    case False
    then have "bm_while p sk scratch (J - 1) (I - 1) = Some (sk, J - 1)" using J1 by (subst bm_while.simps) auto
    then show ?thesis using False inv J walked by (intro exI [of _ sk], intro exI [of _ J]) auto
  next
    case True
    define sk1 where "sk1 = (if sk ! (J - 1) = 0 then sk[J - 1 := J - I] else sk)"
    define F where "F = scratch ! (J - 1)"
    have b: "isb p I J" "J \<le> length p" "I < J" using J True by (auto simp: isb_def)
    have f: "isf p J F" using sc b by (simp add: F_def)
    then have JF: "J < F" by (simp add: isf_def)
    have nxt: "K = J \<or> K < J \<or> F \<le> K" if "isb p I K" for K
    proof (cases "J < K")
      case True
      then show ?thesis using f isb_between [OF that b(1) True] unfolding isf_def by blast
    qed auto
    have "sk_inv p I (Suc J) sk1" using sk_inv_update [OF inv b(1) I(1)] True by (simp add: sk1_def)
    moreover have "\<not> kind1 p I K" if "Suc J \<le> K" "K < F" for K
    proof
      assume "kind1 p I K"
      then have "isb p I K" by (simp add: kind1_def)
      then show False using nxt [of K] that by linarith
    qed
    ultimately have inv1: "sk_inv p I F sk1"
      unfolding sk_inv_def by (metis not_less_eq_eq not_le)
    have h1: "if F = Suc (length p) then True else isb p I F"
      using f b(1) isb_trans by (auto simp: isf_def)
    have h2: "\<forall>K. isb p I K \<and> K < F \<longrightarrow> p ! (K - 1) \<noteq> p ! (I - 1)"
      using nxt walked True by (metis not_le)
    have h0: "Suc (length p) - F < Suc (length p) - J" "I < F" using JF b by simp_all
    obtain sk' J' where r: "bm_while p sk1 scratch (F - 1) (I - 1) = Some (sk', J' - 1)" "sk_inv p I J' sk'" "I < J'"
      "if J' = Suc (length p) then True else isb p I J' \<and> p ! (J' - 1) = p ! (I - 1)"
      "\<forall>K. isb p I K \<and> K < J' \<longrightarrow> p ! (K - 1) \<noteq> p ! (I - 1)"
      using less.hyps [OF h0(1) inv1 h0(2) h1 h2] by blast
    have "J - 1 - (I - 1) = J - I" using I by simp
    then have "bm_while p sk scratch (J - 1) (I - 1) = bm_while p sk1 scratch (F - 1) (I - 1)"
      using True J1 by (subst bm_while.simps) (simp add: sk1_def F_def)
    then have "bm_while p sk scratch (J - 1) (I - 1) = Some (sk', J' - 1)" using r(1) by simp
    with r(2-5) show ?thesis by blast
  qed
qed


lemma isf_prev:
  assumes I: "1 \<le> I" "I \<le> length p" and J: "I < J" "if J = Suc (length p) then True else isb p I J \<and> p ! (J - 1) = p ! (I - 1)"
    and walked: "\<forall>K. isb p I K \<and> K < J \<longrightarrow> p ! (K - 1) \<noteq> p ! (I - 1)"
  shows "isf p (I - 1) (J - 1)"
  unfolding isf_def
proof (intro conjI allI impI)
  have Jm: "J \<le> Suc (length p)" using J by (auto simp: isb_def split: if_splits)
  show "I - 1 < J - 1" using I J(1) by linarith
  have "isb p (I - 1) (J - 1)"
  proof (cases "J = Suc (length p)")
    case True
    then show ?thesis using isb_end [of "I - 1" p] I by simp
  next
    case False
    then show ?thesis using isb_extend [OF I(1), of J p] J Jm by simp
  qed
  moreover have "J - 1 \<noteq> Suc (length p)" using Jm by simp
  ultimately show "if J - 1 = Suc (length p) then I - 1 = length p else isb p (I - 1) (J - 1)" by simp
  fix K assume K: "isb p (I - 1) K"
  show "J - 1 \<le> K"
  proof (cases "K = length p")
    case False
    then have "Suc K \<le> length p" using K by (simp add: isb_def)
    then have "isb p I (Suc K) \<and> p ! (I - 1) = p ! K" using isb_extend [OF I(1), of "Suc K" p] K by simp
    then show ?thesis using walked by fastforce
  qed (use Jm in simp)
qed

lemma bm_iter:
  assumes j: "Suc j \<le> length p" and f: "isf p (Suc j) (i + 1)" and inv: "sk_inv p (Suc j) 0 sk"
    and l: "length p \<le> length scratch" and sc: "\<forall>K. Suc j < K \<and> K \<le> length p \<longrightarrow> isf p K (scratch ! (K - 1))"
  shows "\<exists>sk' i'. bm_while p sk (scratch[j := i + 1]) i j = Some (sk', i') \<and> sk_inv p j 0 sk' \<and> isf p j i' \<and>
    (\<forall>K. j < K \<and> K \<le> length p \<longrightarrow> isf p K (scratch[j := i + 1] ! (K - 1)))"
proof -
  let ?sc = "scratch[j := i + 1]"
  have sc1: "\<forall>K. j < K \<and> K \<le> length p \<longrightarrow> isf p K (?sc ! (K - 1))"
  proof (intro allI impI)
    fix K assume K: "j < K \<and> K \<le> length p"
    show "isf p K (?sc ! (K - 1))"
    proof (cases "K = Suc j")
      case True
      then have "?sc ! (K - 1) = i + 1" using l j by simp
      then show ?thesis using f True by simp
    next
      case False
      then have "K - 1 \<noteq> j" "Suc j < K" using K by linarith+
      then show ?thesis using sc K by simp
    qed
  qed
  have st: "Suc j < i + 1" "if i + 1 = Suc (length p) then True else isb p (Suc j) (i + 1)"
    "\<And>K. isb p (Suc j) K \<Longrightarrow> i + 1 \<le> K"
    using f by (auto simp: isf_def split: if_splits)
  then have inv1: "sk_inv p (Suc j) (i + 1) sk"
    using inv unfolding sk_inv_def kind1_def by (metis not_le)
  have w: "\<forall>K. isb p (Suc j) K \<and> K < i + 1 \<longrightarrow> p ! (K - 1) \<noteq> p ! (Suc j - 1)" using st(3) by (auto simp: not_less [symmetric])
  have sc2: "\<forall>K. Suc j < K \<and> K \<le> length p \<longrightarrow> isf p K (?sc ! (K - 1))" using sc1 by simp
  obtain sk' J' where r: "bm_while p sk ?sc (i + 1 - 1) (Suc j - 1) = Some (sk', J' - 1)" "sk_inv p (Suc j) J' sk'" "Suc j < J'"
      "if J' = Suc (length p) then True else isb p (Suc j) J' \<and> p ! (J' - 1) = p ! (Suc j - 1)"
      "\<forall>K. isb p (Suc j) K \<and> K < J' \<longrightarrow> p ! (K - 1) \<noteq> p ! (Suc j - 1)"
    using bm_while_ok [OF _ j sc2 inv1 st(1,2) w] by auto
  have "sk_inv p (Suc j) (Suc (length p)) sk'"
    unfolding sk_inv_def
  proof (intro conjI allI impI)
    show "length sk' = length p" using r(2) by (simp add: sk_inv_def)
    fix J0 assume J0: "1 \<le> J0 \<and> J0 \<le> length p"
    note old = r(2) [unfolded sk_inv_def, THEN conjunct2, rule_format, OF J0]
    have "\<not> kind1 p (Suc j) J0" if z: "sk' ! (J0 - 1) = 0"
    proof
      assume k: "kind1 p (Suc j) J0"
      then have "J' \<le> J0" using old z by auto
      then have J': "isb p (Suc j) J'" "p ! (J' - 1) = p ! j" using r(4) J0 by (auto split: if_splits)
      then have "J' < J0" using k \<open>J' \<le> J0\<close> by (cases "J' = J0") (auto simp: kind1_def)
      then have "kind1 p J' J0" using k J' isb_between [of p "Suc j" J0 J'] r(3) by (auto simp: kind1_def)
      then show False using old z r(3) by auto
    qed
    then show "if sk' ! (J0 - 1) = 0 then (\<forall>I' > Suc j. \<not> kind1 p I' J0) \<and> (J0 < Suc (length p) \<longrightarrow> \<not> kind1 p (Suc j) J0)
      else entry_set p sk' J0" using old by auto
  qed
  from sk_inv_next [OF this] have "sk_inv p j 0 sk'" by simp
  moreover have "isf p j (J' - 1)" using isf_prev [of "Suc j" p J'] j r(3-5) by simp
  ultimately show ?thesis using r(1) sc1 by auto
qed

lemma bm_pass1_ok:
  assumes "Suc j \<le> length p" "isf p (Suc j) (i + 1)" "sk_inv p (Suc j) 0 sk" "length p \<le> length scratch"
    "\<forall>K. Suc j < K \<and> K \<le> length p \<longrightarrow> isf p K (scratch ! (K - 1))"
  shows "\<exists>sk' sc' i'. bm_pass1 p sk scratch i j = Some (sk', sc', i') \<and> sk_inv p 0 0 sk' \<and> isf p 0 (i' + 1) \<and>
    (\<forall>K. 0 < K \<and> K \<le> length p \<longrightarrow> isf p K (sc' ! (K - 1)))"
  using assms
proof (induction j arbitrary: i sk scratch)
  case (0 i sk scratch)
  obtain sk' i' where r: "bm_while p sk (scratch[0 := i + 1]) i 0 = Some (sk', i')" "sk_inv p 0 0 sk'" "isf p 0 i'"
    "\<forall>K. 0 < K \<and> K \<le> length p \<longrightarrow> isf p K (scratch[0 := i + 1] ! (K - 1))"
    using bm_iter [OF 0] by blast
  have "0 < i'" using r(3) by (simp add: isf_def)
  then show ?case using r by (simp add: Let_def)
next
  case (Suc j)
  obtain sk' i' where r: "bm_while p sk (scratch[Suc j := i + 1]) i (Suc j) = Some (sk', i')" "sk_inv p (Suc j) 0 sk'" "isf p (Suc j) i'"
    "\<forall>K. Suc j < K \<and> K \<le> length p \<longrightarrow> isf p K (scratch[Suc j := i + 1] ! (K - 1))"
    using bm_iter [OF Suc.prems] by blast
  have "0 < i'" using r(3) by (simp add: isf_def)
  then have "\<exists>sk2 sc2 i2. bm_pass1 p sk' (scratch[Suc j := i + 1]) (i' - 1) j = Some (sk2, sc2, i2) \<and> sk_inv p 0 0 sk2 \<and> isf p 0 (i2 + 1) \<and>
    (\<forall>K. 0 < K \<and> K \<le> length p \<longrightarrow> isf p K (sc2 ! (K - 1)))"
    using r Suc.prems by (intro Suc.IH) simp_all
  then show ?case using r(1) by (simp add: Let_def)
qed

text \<open>The second pass fills the other entries with the least border of the pattern not before them.\<close>

definition isg :: "'a list \<Rightarrow> nat \<Rightarrow> nat \<Rightarrow> bool" where
  "isg p n G \<longleftrightarrow> n < G \<and> isb p 0 G \<and> (\<forall>K. isb p 0 K \<and> n < K \<longrightarrow> G \<le> K)"

lemma isg_next:
  assumes "isg p n G" "Suc n < length p" "isf p (Suc n) F"
  shows "isg p (Suc n) (if G = Suc n then F else G)"
proof (cases "G = Suc n")
  case True
  then have b: "isb p 0 (Suc n)" using assms(1) by (simp add: isg_def)
  have F: "isb p (Suc n) F" "Suc n < F" "\<forall>K. isb p (Suc n) K \<longrightarrow> F \<le> K" using assms(2,3) by (auto simp: isf_def split: if_splits)
  have "F \<le> K" if "isb p 0 K" "Suc n < K" for K using isb_between [OF that(1) b that(2)] F(3) by blast
  then show ?thesis using True F isb_trans [OF b F(1)] by (simp add: isg_def)
next
  case False
  then have "Suc n < G" using assms(1) by (simp add: isg_def)
  then show ?thesis using False assms(1) by (auto simp: isg_def)
qed

lemma bm_pass2_ok:
  assumes f: "isf p 0 (i + 1)" and p: "p \<noteq> []" and l: "length sk = length p"
    and sc: "\<forall>K. 0 < K \<and> K \<le> length p \<longrightarrow> isf p K (scratch ! (K - 1))"
  shows "\<forall>J. 1 \<le> J \<and> J \<le> length p \<longrightarrow>
    (if sk ! (J - 1) = 0 then isg p (J - 1) (fst (bm_pass2 (length p) sk scratch i) ! (J - 1))
     else fst (bm_pass2 (length p) sk scratch i) ! (J - 1) = sk ! (J - 1))"
proof -
  define g where "g n = fold (\<lambda>j (skips, i). (if skips ! j = 0 then skips[j := i + 1] else skips,
                           if i = j then scratch ! j - 1 else i)) [0..<n] (sk, i)" for n
  have "length (fst (g n)) = length p \<and> (n < length p \<longrightarrow> isg p n (snd (g n) + 1)) \<and>
    (\<forall>J. n < J \<and> J \<le> length p \<longrightarrow> fst (g n) ! (J - 1) = sk ! (J - 1)) \<and>
    (\<forall>J. 1 \<le> J \<and> J \<le> n \<longrightarrow> (if sk ! (J - 1) = 0 then isg p (J - 1) (fst (g n) ! (J - 1)) else fst (g n) ! (J - 1) = sk ! (J - 1)))"
    if "n \<le> length p" for n
    using that
  proof (induction n)
    case 0
    have "isg p 0 (i + 1)" using f p by (auto simp: isg_def isf_def split: if_splits)
    then show ?case using l by (simp add: g_def)
  next
    case (Suc n)
    obtain s v where sv: "g n = (s, v)" by (cases "g n")
    then have IH: "length s = length p" "isg p n (v + 1)" "\<And>J. n < J \<Longrightarrow> J \<le> length p \<Longrightarrow> s ! (J - 1) = sk ! (J - 1)"
      "\<And>J. 1 \<le> J \<Longrightarrow> J \<le> n \<Longrightarrow> if sk ! (J - 1) = 0 then isg p (J - 1) (s ! (J - 1)) else s ! (J - 1) = sk ! (J - 1)"
      using Suc by auto
    have gS: "g (Suc n) = (if s ! n = 0 then s[n := v + 1] else s, if v = n then scratch ! n - 1 else v)"
      using sv by (simp add: g_def)
    have sn: "s ! n = sk ! n" using IH(3) [of "Suc n"] Suc.prems by simp
    have "isg p (Suc n) (snd (g (Suc n)) + 1)" if "Suc n < length p"
    proof -
      have F: "isf p (Suc n) (scratch ! n)" using sc Suc.prems by (metis Suc_le_eq diff_Suc_1 zero_less_Suc)
      then have "0 < scratch ! n" by (simp add: isf_def)
      then show ?thesis using isg_next [OF IH(2) that F] by (auto simp: gS split: if_splits)
    qed
    moreover have "fst (g (Suc n)) ! (J - 1) = sk ! (J - 1)" if "Suc n < J" "J \<le> length p" for J
    proof -
      have "n \<noteq> J - 1" using that by linarith
      then show ?thesis using IH(3) [of J] that by (simp add: gS)
    qed
    moreover have "if sk ! (J - 1) = 0 then isg p (J - 1) (fst (g (Suc n)) ! (J - 1)) else fst (g (Suc n)) ! (J - 1) = sk ! (J - 1)"
      if "1 \<le> J" "J \<le> Suc n" for J
    proof (cases "J = Suc n")
      case True
      then show ?thesis using IH(1,2) sn Suc.prems by (simp add: gS)
    next
      case False
      then have "n \<noteq> J - 1" "J \<le> n" using that by linarith+
      then show ?thesis using IH(4) [OF that(1)] by (simp add: gS split: if_splits)
    qed
    moreover have "length (fst (g (Suc n))) = length p" using IH(1) by (simp add: gS)
    ultimately show ?case by blast
  qed
  from this [of "length p"] have "\<forall>J. 1 \<le> J \<and> J \<le> length p \<longrightarrow> (if sk ! (J - 1) = 0
    then isg p (J - 1) (fst (g (length p)) ! (J - 1)) else fst (g (length p)) ! (J - 1) = sk ! (J - 1))" by blast
  moreover have "bm_pass2 (length p) sk scratch i = g (length p)" by (simp only: bm_pass2_def g_def)
  ultimately show ?thesis by (simp only:)
qed

lemma bm_tables_ok:
  assumes "p \<noteq> []" "length sk = length p" "length p \<le> length scratch" "\<forall>k < length p. sk ! k = 0"
  shows "\<exists>sk1 sc i. bm_pass1 p sk scratch (length p) (length p - 1) = Some (sk1, sc, i) \<and>
    skips_ok p (fst (bm_pass2 (length p) sk1 sc i))"
proof -
  obtain m where m: "length p = Suc m" using assms(1) by (cases p) auto
  have none: "\<not> kind1 p I J" if "length p < I \<or> length p = I" for I J using that by (auto simp: kind1_def isb_def)
  have "isf p (Suc m) (Suc m + 1)" using m by (auto simp: isf_def isb_def)
  have "sk_inv p (Suc m) 0 sk" using assms(2,4) m none by (auto simp: sk_inv_def)
  obtain sk1 sc i where r: "bm_pass1 p sk scratch (Suc m) m = Some (sk1, sc, i)" "sk_inv p 0 0 sk1" "isf p 0 (i + 1)"
    "\<forall>K. 0 < K \<and> K \<le> length p \<longrightarrow> isf p K (sc ! (K - 1))"
  proof -
    have "\<forall>K. Suc m < K \<and> K \<le> length p \<longrightarrow> isf p K (scratch ! (K - 1))" unfolding m by (metis not_le)
    with bm_pass1_ok [of m p "Suc m" sk scratch] \<open>isf p (Suc m) (Suc m + 1)\<close> \<open>sk_inv p (Suc m) 0 sk\<close> m assms(3)
    show thesis using that by auto
  qed
  have l: "length sk1 = length p" using r(2) by (simp add: sk_inv_def)
  define t where "t = fst (bm_pass2 (length p) sk1 sc i)"
  note P2 = bm_pass2_ok [OF r(3) assms(1) l r(4), folded t_def]
  have "\<not> consistent p j s" if j: "1 \<le> j" "j \<le> length p" and s: "0 < s" "s < t ! (j - 1)" for j s
  proof
    assume c: "consistent p j s"
    note inv = r(2) [unfolded sk_inv_def, THEN conjunct2, rule_format, OF conjI, OF j]
    show False
    proof (cases "sk1 ! (j - 1) = 0")
      case True
      then have g: "isg p (j - 1) (t ! (j - 1))" using P2 j by auto
      then have "s \<le> length p" using s by (auto simp: isg_def isb_def)
      from c consistent_iff [OF j s(1) this] have c2: "if s < j then kind1 p (j - s) j else isb p 0 s" by blast
      show False
      proof (cases "s < j")
        case True
        then show False using c2 inv \<open>sk1 ! (j - 1) = 0\<close> by (auto dest!: spec [of _ "j - s"])
      next
        case False
        then have "isb p 0 s" "j - 1 < s" using c2 j by auto
        then show False using g s(2) by (auto simp: isg_def)
      qed
    next
      case False
      then have e: "entry_set p sk1 j" "t ! (j - 1) = sk1 ! (j - 1)" using inv P2 j by auto
      then have sj: "s < j" "j - sk1 ! (j - 1) < j - s" using s by (auto simp: entry_set_def)
      then have "kind1 p (j - s) j" using c consistent_iff [OF j s(1)] j by auto
      then show False using e(1) sj(2) by (auto simp: entry_set_def)
    qed
  qed
  then show ?thesis using r(1) m by (auto simp: skips_ok_def t_def)
qed


section \<open>The matcher contract\<close>

text \<open>
  What a client of a string matcher relies on.  The answer is determined by the contract, so any
  two matchers agree.
\<close>

locale matcher =
  fixes search :: "byte list \<Rightarrow> byte list \<Rightarrow> nat option"
  assumes search_first: "pat \<noteq> [] \<Longrightarrow> length pat \<le> length str \<Longrightarrow> length str < 2 ^ 64 \<Longrightarrow> first_occurrence pat str (search pat str)"
begin

lemma search_unique:
  assumes "pat \<noteq> []" "length pat \<le> length str" "length str < 2 ^ 64" "first_occurrence pat str r"
  shows "search pat str = r"
proof -
  have f: "first_occurrence pat str (search pat str)" by (rule search_first [OF assms(1-3)])
  show ?thesis
  proof (cases "search pat str"; cases r)
    fix i j assume "search pat str = Some i" "r = Some j"
    then show ?thesis using f assms(4) by (auto simp: first_occurrence_def) (metis nat_neq_iff)
  qed (use f assms(4) in \<open>auto simp: first_occurrence_def\<close>)
qed

lemma search_found_iff:
  "pat \<noteq> [] \<Longrightarrow> length pat \<le> length str \<Longrightarrow> length str < 2 ^ 64 \<Longrightarrow> search pat str \<noteq> None \<longleftrightarrow> (\<exists>i. occurs_at pat str i)"
  using search_first [of pat str] by (auto simp: first_occurrence_def split: option.splits)

end

text \<open>The two matchers with their preparation, on zeroed tables.\<close>

definition kmp_search :: "byte list \<Rightarrow> byte list \<Rightarrow> nat option" where
  "kmp_search pat str =
     (case rbind (kmp_pinit pat (replicate (length pat) 0)) (kmp_match str) of Some (Ok r) \<Rightarrow> r | _ \<Rightarrow> None)"

definition bm_search :: "byte list \<Rightarrow> byte list \<Rightarrow> nat option" where
  "bm_search pat str =
     (case bm_pinit \<lparr>bm_last = [], bm_pat = [], bm_skips = None\<rparr> pat (replicate (length pat) 0) (replicate (length pat) 0) of
        None \<Rightarrow> None
      | Some bp \<Rightarrow> (case bm_match str bp of Ok r \<Rightarrow> r | _ \<Rightarrow> None))"

lemma zero_fold: "length (fold (\<lambda>i sk. sk[i := 0]) [0..<n] sk) = length sk \<and>
   (\<forall>k < length sk. fold (\<lambda>i sk. sk[i := 0 :: nat]) [0..<n] sk ! k = (if k < n then 0 else sk ! k))"
  by (induction n) (auto simp: nth_list_update less_Suc_eq)

lemma bm_pinit_ok:
  assumes "pat \<noteq> []" "length skips = length pat" "length pat \<le> length scratch"
  shows "\<exists>bp sk. bm_pinit bmp pat skips scratch = Some bp \<and> bm_pat bp = pat \<and> bm_last bp = bm_last_tab pat \<and>
    bm_skips bp = Some sk \<and> skips_ok pat sk"
proof -
  define sk0 where "sk0 = fold (\<lambda>i sk. sk[i := 0 :: nat]) [0..<length pat] skips"
  have "length sk0 = length pat" "\<forall>k < length pat. sk0 ! k = 0"
    using zero_fold [of "length pat" skips] assms(2) by (simp_all add: sk0_def)
  from bm_tables_ok [OF assms(1) this(1) assms(3) this(2)] obtain sk1 sc i
    where r: "bm_pass1 pat sk0 scratch (length pat) (length pat - 1) = Some (sk1, sc, i)"
      "skips_ok pat (fst (bm_pass2 (length pat) sk1 sc i))" by blast
  then show ?thesis using assms(1) by (simp add: bm_pinit_def Let_def sk0_def [symmetric])
qed

lemma bm_match_ok:
  assumes "bm_skips bp = Some sk" "skips_ok (bm_pat bp) sk" "bm_last bp = bm_last_tab (bm_pat bp)"
    "length (bm_pat bp) \<le> length str" "length str < 2 ^ 64"
  shows "\<exists>r. bm_match str bp = Ok r \<and> first_occurrence (bm_pat bp) str r"
proof -
  have "(length str + 2 ^ 64 - length (bm_pat bp)) mod 2 ^ 64 = length str - length (bm_pat bp)"
  proof -
    have "length str + 2 ^ 64 - length (bm_pat bp) = length str - length (bm_pat bp) + 2 ^ 64" using assms(4) by simp
    then show ?thesis using assms(5) by (simp only: mod_add_self2) (simp add: less_imp_diff_less)
  qed
  then show ?thesis
    using bm_loop_ok [where i = 0, OF assms(2) bm_last_tab_ok assms(4)] assms(1,3) by (simp add: bm_match_def)
qed

interpretation kmp: matcher kmp_search
proof
  fix pat str :: "byte list" assume "pat \<noteq> []"
  then obtain kp where kp: "kmp_pinit pat (replicate (length pat) 0) = ret kp" "kmp_pat kp = pat"
    "table_ok pat (kmp_skips kp) (length pat)" "length (kmp_skips kp) = length pat" using kmp_pinit_ok [of pat "replicate (length pat) 0"] by auto
  have "best pat (take 0 str) 0" by (auto simp: best_def dest: suf_le)
  then have "\<exists>r. kmp_scan str pat (kmp_skips kp) 0 0 (length str) = ret r \<and> first_occurrence pat str r"
    using \<open>pat \<noteq> []\<close> kp(4) by (intro kmp_scan_ok [OF kp(3)]) auto
  then show "first_occurrence pat str (kmp_search pat str)" using kp by (auto simp: kmp_search_def kmp_match_def)
qed

interpretation bm: matcher bm_search
proof
  fix pat str :: "byte list" assume a: "pat \<noteq> []" "length pat \<le> length str" "length str < 2 ^ 64"
  obtain bp sk where b: "bm_pinit \<lparr>bm_last = [], bm_pat = [], bm_skips = None\<rparr> pat (replicate (length pat) 0) (replicate (length pat) 0) = Some bp"
    "bm_pat bp = pat" "bm_last bp = bm_last_tab pat" "bm_skips bp = Some sk" "skips_ok pat sk"
    using bm_pinit_ok [OF a(1), of "replicate (length pat) 0" "replicate (length pat) 0"] by fastforce
  then obtain r where "bm_match str bp = Ok r" "first_occurrence pat str r" using bm_match_ok [of bp sk str] a by auto
  then show "first_occurrence pat str (bm_search pat str)" using b(1) by (simp add: bm_search_def)
qed

section \<open>Properties\<close>

text \<open>C3: For a pattern that is not empty and not longer than the text, \<open>bm_pinit\<close> returns with
  the table of safe shifts whatever the two work arrays held, and \<open>bm_match\<close> on it finds the
  first place where the pattern occurs or that it does not occur, reading nothing outside the
  text: the same answer as Knuth-Morris-Pratt gives.\<close>

theorem boyer_moore_correct:
  assumes "pat \<noteq> []" "length skips = length pat" "length pat \<le> length scratch"
    "length pat \<le> length str" "length str < 2 ^ 64"
  shows "\<exists>bp r. bm_pinit bmp pat skips scratch = Some bp \<and> bm_match str bp = Ok r \<and>
    first_occurrence pat str r \<and> kmp_search pat str = r"
proof -
  obtain bp sk where b: "bm_pinit bmp pat skips scratch = Some bp" "bm_pat bp = pat" "bm_last bp = bm_last_tab pat"
    "bm_skips bp = Some sk" "skips_ok pat sk" using bm_pinit_ok [OF assms(1-3)] by blast
  then obtain r where "bm_match str bp = Ok r" "first_occurrence pat str r" using bm_match_ok [of bp sk str] assms by auto
  then show ?thesis using b(1) kmp.search_unique [OF assms(1,4,5)] by blast
qed

lemma boyer_moore_correct_witness:
  "\<exists>bp r. bm_pinit \<lparr>bm_last = [], bm_pat = [], bm_skips = None\<rparr> [1, 2, 1] [7, 7, 7] [0, 0, 0] = Some bp \<and>
     bm_match [1, 2, 2, 1, 2, 1] bp = Ok r \<and> kmp_search [1, 2, 1] [1, 2, 2, 1, 2, 1] = r"
  using boyer_moore_correct [of "[1, 2, 1]" "[7, 7, 7]" "[0, 0, 0]" "[1, 2, 2, 1, 2, 1]"
      "\<lparr>bm_last = [], bm_pat = [], bm_skips = None\<rparr>"] by auto

text \<open>\<open>bm_match\<close> is not total: a pattern longer than the text makes \<open>slen - plen\<close> wrap round
  and the scan reads past the text, and a pattern prepared with \<open>bm_pinit_lite\<close>, which has no
  skip table, fails the assertion on it for every text.\<close>

theorem bm_match_fails:
  assumes "length str < length (bm_pat bp)" "bm_skips bp \<noteq> None"
  shows "bm_match str bp = Fault \<and> bm_match s (bm_pinit_lite bp2 pat) = Abort"
proof
  obtain sk where sk: "bm_skips bp = Some sk" using assms(2) by blast
  obtain n where n: "length (bm_pat bp) = Suc n" using assms(1) by (cases "length (bm_pat bp)") auto
  then have "bm_cmp (bm_pat bp) str 0 (length (bm_pat bp)) = Fault" using assms(1) by simp
  then show "bm_match str bp = Fault" using sk by (simp add: bm_match_def bm_loop.simps [of _ _ _ _ _ 0])
  show "bm_match s (bm_pinit_lite bp2 pat) = Abort" by (simp add: bm_match_def bm_pinit_lite_def Let_def)
qed

lemma bm_match_fails_witness:
  "bm_match [1] \<lparr>bm_last = replicate 256 0, bm_pat = [1, 2], bm_skips = Some [2, 2]\<rparr> = Fault"
  using bm_match_fails [of "[1]" "\<lparr>bm_last = replicate 256 0, bm_pat = [1, 2], bm_skips = Some [2, 2]\<rparr>"] by simp

end
