(* ===== verification/Utf8.thy ===== *)
theory Utf8
  imports CatPrelude
begin

text \<open>
  The UTF-8 functions of src/str.c.  A pointer into a string is the list of bytes from its
  target to the end of the object; code points are \<open>ulong\<close>, 64 bits.  Where the code writes an
  output array of limited length, the model gives the list of what was written.
\<close>

section \<open>Lengths\<close>

definition utf8_lentab :: "int list" where
  "utf8_lentab =
     replicate 128 1 @ replicate 64 (-1) @
     replicate 32 2 @ replicate 16 3 @ replicate 8 4 @ replicate 4 5 @ replicate 2 6 @ replicate 2 (-1)"

definition utf8_nbytes :: "byte \<Rightarrow> int" where
  "utf8_nbytes c = utf8_lentab ! unat c"

text \<open>\<open>hibit\<close> is \<open>1 << b\<close>; past bit 0 it is 0 and the loop ends.\<close>

fun first_zero :: "byte \<Rightarrow> nat \<Rightarrow> int" where
  "first_zero c 0 = 0"
| "first_zero c (Suc b) = (if c AND push_bit b 1 \<noteq> 0 then 1 + first_zero c b else 0)"

definition utf8_find_nbytes :: "byte \<Rightarrow> int" where
  "utf8_find_nbytes c =
     (let firstz = first_zero c 8
      in if firstz = 0 then 1 else if firstz = 1 then -1 else if firstz \<ge> 7 then -1 else firstz)"

section \<open>Validation\<close>

fun utf8_conts :: "byte list \<Rightarrow> nat \<Rightarrow> bool outcome" where
  "utf8_conts s 0 = Ok True"
| "utf8_conts [] (Suc n) = Fault"
| "utf8_conts (c # s) (Suc n) = (if c AND 0xC0 \<noteq> 0x80 then Ok False else utf8_conts s n)"

definition utf8_overlong :: "byte list \<Rightarrow> int \<Rightarrow> bool" where
  "utf8_overlong s nb =
     (if nb = 2 then s ! 0 AND 0xFE = 0xC0
      else if nb = 3 then s ! 0 = 0xE0 \<and> s ! 1 AND 0xE0 = 0x80
      else if nb = 4 then s ! 0 = 0xF0 \<and> s ! 1 AND 0xF0 = 0x80
      else if nb = 5 then s ! 0 = 0xF8 \<and> s ! 1 AND 0xF8 = 0x80
      else if nb = 6 then s ! 0 = 0xFC \<and> s ! 1 AND 0xFC = 0x80
      else False)"

definition utf8_validate_char :: "byte list \<Rightarrow> nat \<Rightarrow> int outcome" where
  "utf8_validate_char s mx =
     (case s of [] \<Rightarrow> Fault
      | c # t \<Rightarrow>
          let nb = utf8_nbytes c
          in if nb < 0 \<or> mx > 0 \<and> nb > int mx then Ok (-1)
             else obind (utf8_conts t (nat nb - 1)) (\<lambda>good.
                    if \<not> good \<or> utf8_overlong s nb then Ok (-1) else abort_unless (nb > 0) (Ok nb)))"

lemma utf8_validate_char_pos: "utf8_validate_char s mx = Ok n \<Longrightarrow> \<not> n < 0 \<Longrightarrow> 0 < n"
  by (auto simp: utf8_validate_char_def Let_def outcome_simps split: list.splits if_splits)

text \<open>
  The result code and what is stored through \<open>epos\<close>: nothing (\<open>None\<close>), NULL (\<open>Some None\<close>) or
  the offset of the first bad character.
\<close>

function utf8_validate_loop :: "byte list \<Rightarrow> nat \<Rightarrow> nat \<Rightarrow> bool \<Rightarrow> (int \<times> nat option option) outcome" where
  "utf8_validate_loop s off slen term0 =
     (if slen > 0
      then case drop off s of [] \<Rightarrow> Fault
           | c # _ \<Rightarrow>
               if term0 \<and> c = 0 then Ok (0, None)
               else (case utf8_validate_char (drop off s) slen of
                   Ok n \<Rightarrow> if n < 0 then Ok (-1, Some (Some off))
                            else utf8_validate_loop s (off + nat n) (slen - nat n) term0
                 | Abort \<Rightarrow> Abort | Fault \<Rightarrow> Fault)
      else Ok (0, Some None))"
  by pat_completeness auto
termination
  by (relation "measure (\<lambda>(s, off, slen, term0). slen)") (auto dest: utf8_validate_char_pos)

declare utf8_validate_loop.simps [simp del]

definition utf8_validate :: "byte list \<Rightarrow> nat \<Rightarrow> bool \<Rightarrow> (int \<times> nat option option) outcome" where
  "utf8_validate s slen term0 = utf8_validate_loop s 0 slen term0"

text \<open>Count and longest character; a last character cut short makes \<open>slen\<close> wrap round.\<close>

function utf8_nchars_loop :: "byte list \<Rightarrow> nat \<Rightarrow> nat \<Rightarrow> int \<Rightarrow> (nat \<times> int) outcome" where
  "utf8_nchars_loop s slen nc mx =
     (if slen > 0
      then case s of [] \<Rightarrow> Fault
           | c # t \<Rightarrow>
               let len = utf8_nbytes c
               in if len > 0
                  then utf8_nchars_loop (drop (nat len) s)
                         (if nat len \<le> slen then slen - nat len else slen + 2 ^ 64 - nat len)
                         (nc + 1) (if len > mx then len else mx)
                  else Abort
      else Ok (nc, mx))"
  by pat_completeness auto
termination by (relation "measure (\<lambda>(s, slen, nc, mx). length s)") auto

declare utf8_nchars_loop.simps [simp del]

definition utf8_nchars :: "byte list \<Rightarrow> nat \<Rightarrow> (nat \<times> int) outcome" where
  "utf8_nchars s slen = utf8_nchars_loop s slen 0 0"

section \<open>Decoding\<close>

definition utf8_cdtab :: "(nat \<times> u64) list" where
  "utf8_cdtab = [(0, 0), (0, 0x7F), (6, 0x1F), (12, 0x0F), (18, 0x07), (24, 0x03), (30, 0x01)]"

definition utf8_decode :: "byte list \<Rightarrow> nat \<Rightarrow> u64" where
  "utf8_decode src clen =
     (let cd = utf8_cdtab ! clen
      in fold (\<lambda>i v. v OR push_bit (6 * (clen - 1 - i)) (ucast (src ! i) AND 0x3F)) [1..<clen]
           (push_bit (fst cd) (ucast (src ! 0) AND snd cd)))"

function utf8_to_utf32_loop ::
  "nat \<Rightarrow> byte list \<Rightarrow> nat \<Rightarrow> nat \<Rightarrow> u64 list \<Rightarrow> (int \<times> u64 list) outcome" where
  "utf8_to_utf32_loop dlen src slen nconv dst =
     (if slen > 0
      then case utf8_validate_char src slen of
             Ok clen \<Rightarrow>
               if clen < 0 then Ok (-1, dst)
               else utf8_to_utf32_loop dlen (drop (nat clen) src) (slen - nat clen) (nconv + 1)
                      (if nconv < dlen then dst @ [utf8_decode src (nat clen)] else dst)
           | Abort \<Rightarrow> Abort | Fault \<Rightarrow> Fault
      else Ok (int nconv, dst))"
  by pat_completeness auto
termination
  by (relation "measure (\<lambda>(dlen, src, slen, nconv, dst). slen)") (auto dest: utf8_validate_char_pos)

declare utf8_to_utf32_loop.simps [simp del]

definition utf8_to_utf32 :: "nat \<Rightarrow> byte list \<Rightarrow> nat \<Rightarrow> (int \<times> u64 list) outcome" where
  "utf8_to_utf32 dlen src slen = utf8_to_utf32_loop dlen src slen 0 []"

function utf8_to_utf16_loop ::
  "nat \<Rightarrow> byte list \<Rightarrow> nat \<Rightarrow> nat \<Rightarrow> u16 list \<Rightarrow> (int \<times> u16 list) outcome" where
  "utf8_to_utf16_loop dlen src slen nconv dst =
     (if slen > 0
      then case utf8_validate_char src slen of
             Ok clen \<Rightarrow>
               if clen < 0 \<or> clen > 3 then Ok (-1, dst)
               else let v = utf8_decode src (nat clen);
                        (bad, nconv, dst) =
                          (if nconv < dlen
                           then if v > 0xFFFF
                                then if v > 0x10FFFF then (True, nconv, dst)
                                     else let nconv = nconv + 1
                                          in (False, nconv,
                                              if nconv < dlen
                                              then dst @ [0xD800 OR ucast (drop_bit 10 ((v - 0x10000) AND 0xFFC00)),
                                                          0xDC00 OR ucast ((v - 0x10000) AND 0x3FF)]
                                              else dst)
                                else (False, nconv, dst @ [ucast v])
                           else (False, nconv, dst))
                    in if bad then Ok (-1, dst)
                       else utf8_to_utf16_loop dlen (drop (nat clen) src) (slen - nat clen) (nconv + 1) dst
           | Abort \<Rightarrow> Abort | Fault \<Rightarrow> Fault
      else Ok (int nconv, dst))"
  by pat_completeness auto
termination
  by (relation "measure (\<lambda>(dlen, src, slen, nconv, dst). slen)") (auto dest: utf8_validate_char_pos)

declare utf8_to_utf16_loop.simps [simp del]

definition utf8_to_utf16 :: "nat \<Rightarrow> byte list \<Rightarrow> nat \<Rightarrow> (int \<times> u16 list) outcome" where
  "utf8_to_utf16 dlen src slen = utf8_to_utf16_loop dlen src slen 0 []"

section \<open>Encoding\<close>

definition utf8_enc_len :: "u64 \<Rightarrow> int" where
  "utf8_enc_len val =
     (if val AND 0x80000000 \<noteq> 0 then -1
      else if val AND 0xFFFFFF80 = 0 then 1
      else if val AND 0xFFFFF800 = 0 then 2
      else if val AND 0xFFFF0000 = 0 then 3
      else if val AND 0xFFE00000 = 0 then 4
      else if val AND 0xFC000000 = 0 then 5
      else 6)"

definition utf8_lead :: "byte \<Rightarrow> u64 \<Rightarrow> u64 \<Rightarrow> nat \<Rightarrow> byte" where
  "utf8_lead tag v m n = tag OR ucast (drop_bit n (v AND m))"

definition utf8_encode :: "u64 \<Rightarrow> int \<Rightarrow> byte list outcome" where
  "utf8_encode v enclen =
     (if enclen = 1 then Ok [ucast v]
      else if enclen = 2 then Ok [utf8_lead 0xC0 v 0x7C0 6, utf8_lead 0x80 v 0x3F 0]
      else if enclen = 3 then Ok [utf8_lead 0xE0 v 0xF000 12, utf8_lead 0x80 v 0xFC0 6, utf8_lead 0x80 v 0x3F 0]
      else if enclen = 4 then Ok [utf8_lead 0xF0 v 0x1C0000 18, utf8_lead 0x80 v 0x3F000 12,
        utf8_lead 0x80 v 0xFC0 6, utf8_lead 0x80 v 0x3F 0]
      else if enclen = 5 then Ok [utf8_lead 0xF8 v 0x3000000 24, utf8_lead 0x80 v 0xFC0000 18,
        utf8_lead 0x80 v 0x3F000 12, utf8_lead 0x80 v 0xFC0 6, utf8_lead 0x80 v 0x3F 0]
      else if enclen = 6 then Ok [utf8_lead 0xFC v 0x40000000 30, utf8_lead 0x80 v 0x3F000000 24,
        utf8_lead 0x80 v 0xFC0000 18, utf8_lead 0x80 v 0x3F000 12, utf8_lead 0x80 v 0xFC0 6, utf8_lead 0x80 v 0x3F 0]
      else Abort)"

definition INT_MAX :: int where "INT_MAX = 2 ^ 31 - 1"

text \<open>\<open>dst\<close> is the list written so far, \<open>None\<close> for a NULL destination.\<close>

definition utf8_put :: "u64 \<Rightarrow> int \<Rightarrow> byte list option \<Rightarrow> nat \<Rightarrow> (byte list option \<times> nat) outcome" where
  "utf8_put v enclen dst dlen =
     (case dst of
        Some out \<Rightarrow>
          if int dlen \<ge> enclen
          then obind (utf8_encode v enclen) (\<lambda>bs. Ok (Some (out @ bs), dlen - nat enclen))
          else Ok (dst, dlen)
      | None \<Rightarrow> Ok (dst, dlen))"

fun utf32_to_utf8_loop ::
  "byte list option \<Rightarrow> nat \<Rightarrow> u64 list \<Rightarrow> int \<Rightarrow> (int \<times> byte list option) outcome" where
  "utf32_to_utf8_loop dst dlen [] tlen = Ok (tlen, dst)"
| "utf32_to_utf8_loop dst dlen (v # src) tlen =
     (let enclen = utf8_enc_len v
      in if enclen < 0 then Ok (-1, dst)
         else abort_unless (enclen \<ge> 1 \<and> enclen \<le> 6)
                (obind (utf8_put v enclen dst dlen) (\<lambda>(dst, dlen).
                   if INT_MAX - tlen < enclen then Ok (-1, dst)
                   else utf32_to_utf8_loop dst dlen src (tlen + enclen))))"

definition utf32_to_utf8 :: "bool \<Rightarrow> nat \<Rightarrow> u64 list \<Rightarrow> (int \<times> byte list option) outcome" where
  "utf32_to_utf8 null dlen src =
     (let dst = (if null then None else Some [])
      in if int (length src) \<ge> INT_MAX then Ok (-1, dst) else utf32_to_utf8_loop dst dlen src 0)"

text \<open>The value of a unit or surrogate pair, and how many units it takes.\<close>

definition utf16_value :: "u16 list \<Rightarrow> (u64 \<times> nat) option" where
  "utf16_value src =
     (let v = src ! 0
      in if v \<ge> 0xDC00 \<and> v \<le> 0xDFFF then None
         else if v AND 0xFC00 = 0xD800
         then if length src < 2 \<or> src ! 1 AND 0xFC00 \<noteq> 0xDC00 then None
              else Some (push_bit 10 (ucast (src ! 0 AND 0x3FF)) OR ucast (src ! 1 AND 0x3FF), 2)
         else Some (ucast v, 1))"

function utf16_to_utf8_loop ::
  "byte list option \<Rightarrow> nat \<Rightarrow> u16 list \<Rightarrow> int \<Rightarrow> (int \<times> byte list option) outcome" where
  "utf16_to_utf8_loop dst dlen src tlen =
     (if src = [] then Ok (tlen, dst)
      else case utf16_value src of None \<Rightarrow> Ok (-1, dst)
        | Some (v, k) \<Rightarrow>
            let enclen = utf8_enc_len v
            in if enclen < 0 then Ok (-1, dst)
               else abort_unless (enclen \<ge> 1 \<and> enclen \<le> 3)
                      (obind (utf8_put v enclen dst dlen) (\<lambda>(dst, dlen).
                         if INT_MAX - tlen < enclen then Ok (-1, dst)
                         else utf16_to_utf8_loop dst dlen (drop k src) (tlen + enclen))))"
  by pat_completeness auto
termination
  by (relation "measure (\<lambda>(dst, dlen, src, tlen). length src)")
     (auto simp: utf16_value_def Let_def split: if_splits)

declare utf16_to_utf8_loop.simps [simp del]

definition utf16_to_utf8 :: "bool \<Rightarrow> nat \<Rightarrow> u16 list \<Rightarrow> (int \<times> byte list option) outcome" where
  "utf16_to_utf8 null dlen src =
     (let dst = (if null then None else Some [])
      in if int (length src) \<ge> INT_MAX then Ok (-1, dst) else utf16_to_utf8_loop dst dlen src 0)"

section \<open>Walking\<close>

text \<open>Whether \<open>n\<close> bytes at two pointers agree: the inner comparison loops.\<close>

fun bytes_agree :: "byte list \<Rightarrow> byte list \<Rightarrow> nat \<Rightarrow> bool outcome" where
  "bytes_agree s c 0 = Ok True"
| "bytes_agree (x # s) (y # c) (Suc n) = (if x \<noteq> y then Ok False else bytes_agree s c n)"
| "bytes_agree s c (Suc n) = Fault"

function utf8_char_is_in :: "byte list \<Rightarrow> int \<Rightarrow> byte list \<Rightarrow> bool outcome" where
  "utf8_char_is_in c cnb set0 =
     (case set0 of [] \<Rightarrow> Fault
      | x # t \<Rightarrow>
          if x = 0 then Ok False
          else let snb = utf8_nbytes x
               in if snb > 0
                  then if cnb = snb
                       then obind (bytes_agree set0 c (nat snb)) (\<lambda>eq.
                              if eq then Ok True else utf8_char_is_in c cnb (drop (nat snb) set0))
                       else utf8_char_is_in c cnb (drop (nat snb) set0)
                  else Abort)"
  by pat_completeness auto
termination by (relation "measure (\<lambda>(c, cnb, set0). length set0)") auto

declare utf8_char_is_in.simps [simp del]

function utf8_span_loop :: "bool \<Rightarrow> byte list \<Rightarrow> byte list \<Rightarrow> nat \<Rightarrow> nat outcome" where
  "utf8_span_loop stop_at s set0 off =
     (case s of [] \<Rightarrow> Fault
      | x # t \<Rightarrow>
          if x = 0 then Ok off
          else let len = utf8_nbytes x
               in if len > 0
                  then obind (utf8_char_is_in s len set0) (\<lambda>isin.
                         if isin = stop_at then Ok off
                         else utf8_span_loop stop_at (drop (nat len) s) set0 (off + nat len))
                  else Abort)"
  by pat_completeness auto
termination by (relation "measure (\<lambda>(stop_at, s, set0, off). length s)") auto

declare utf8_span_loop.simps [simp del]

definition utf8_span :: "byte list \<Rightarrow> byte list \<Rightarrow> nat outcome" where
  "utf8_span s accept = utf8_span_loop False s accept 0"

definition utf8_cspan :: "byte list \<Rightarrow> byte list \<Rightarrow> nat outcome" where
  "utf8_cspan s reject = utf8_span_loop True s reject 0"

function utf8_findc_loop :: "byte list \<Rightarrow> byte list \<Rightarrow> int \<Rightarrow> nat \<Rightarrow> nat option outcome" where
  "utf8_findc_loop s c clen off =
     (case s of [] \<Rightarrow> Fault
      | x # t \<Rightarrow>
          if x = 0 then Ok None
          else if clen = 1 \<and> x AND 0x80 = 0
          then if x = c ! 0 then Ok (Some off) else utf8_findc_loop t c clen (off + 1)
          else let slen = utf8_nbytes x
               in if slen > 0
                  then if slen = clen
                       then obind (bytes_agree s c (nat slen)) (\<lambda>eq.
                              if eq then Ok (Some off)
                              else utf8_findc_loop (drop (nat slen) s) c clen (off + nat slen))
                       else utf8_findc_loop (drop (nat slen) s) c clen (off + nat slen)
                  else Abort)"
  by pat_completeness auto
termination by (relation "measure (\<lambda>(s, c, clen, off). length s)") auto

declare utf8_findc_loop.simps [simp del]

definition utf8_findc :: "byte list \<Rightarrow> byte list \<Rightarrow> nat option outcome" where
  "utf8_findc s c =
     obind (utf8_validate_char c 0) (\<lambda>clen. abort_unless (clen > 0) (utf8_findc_loop s c clen 0))"

fun utf8_skip_help :: "byte list \<Rightarrow> nat \<Rightarrow> bool \<Rightarrow> nat \<Rightarrow> nat option outcome" where
  "utf8_skip_help s 0 tc off = Ok (Some off)"
| "utf8_skip_help s (Suc n) tc off =
     (case s of [] \<Rightarrow> Fault
      | x # t \<Rightarrow>
          let clen = utf8_nbytes x
          in if clen < 0 \<or> tc \<and> clen = 1 \<and> x = 0 then Ok None
             else utf8_skip_help (drop (nat clen) s) n tc (off + nat clen))"

definition utf8_skip :: "byte list \<Rightarrow> nat \<Rightarrow> nat option outcome" where
  "utf8_skip s n = utf8_skip_help s n False 0"

definition utf8_skip_tck :: "byte list \<Rightarrow> nat \<Rightarrow> nat option outcome" where
  "utf8_skip_tck s n = utf8_skip_help s n True 0"

section \<open>Bits of a lead byte\<close>

lemma ball_bits64: "(\<forall>n < (64 :: nat). P n) \<longleftrightarrow> (\<forall>n < 32. P n) \<and> P 32 \<and> P 33 \<and> P 34 \<and> P 35 \<and> P 36 \<and> P 37 \<and> P 38 \<and> P 39
    \<and> P 40 \<and> P 41 \<and> P 42 \<and> P 43 \<and> P 44 \<and> P 45 \<and> P 46 \<and> P 47
    \<and> P 48 \<and> P 49 \<and> P 50 \<and> P 51 \<and> P 52 \<and> P 53 \<and> P 54 \<and> P 55
    \<and> P 56 \<and> P 57 \<and> P 58 \<and> P 59 \<and> P 60 \<and> P 61 \<and> P 62 \<and> P 63"
  by (simp only: numeral_eq_Suc all_less_Suc_conj pred_numeral_simps BitM.simps not_less_zero
      simp_thms One_nat_def conj_assoc)

lemma eq_byte_bits: "(x :: byte) = y \<longleftrightarrow> (\<forall>n < 8. bit x n \<longleftrightarrow> bit y n)"
  by (auto simp: bit_eq_iff dest: bit_imp_le_length intro: bit_word_eqI)

lemma eq_u64_bits: "(x :: u64) = y \<longleftrightarrow> (\<forall>n < 64. bit x n \<longleftrightarrow> bit y n)"
  by (auto simp: bit_eq_iff dest: bit_imp_le_length intro: bit_word_eqI)

lemma bit_byte_odd: "bit (c :: byte) k \<longleftrightarrow> odd (unat c div 2 ^ k)"
proof -
  have "bit (unat c) k \<longleftrightarrow> bit c k" by (simp add: bit_unsigned_iff)
  then show ?thesis by (simp add: bit_iff_odd)
qed

text \<open>The leading ones of a byte by its value.\<close>

lemma odd_div_range:
  assumes "2 * m * p \<le> n" "n < (2 * m + 2) * (p :: nat)"
  shows "odd (n div p) \<longleftrightarrow> (2 * m + 1) * p \<le> n"
proof (cases "(2 * m + 1) * p \<le> n")
  case True
  then have "n div p = 2 * m + 1" using assms(2) by (intro div_nat_eqI) (auto simp: algebra_simps)
  then show ?thesis using True by simp
next
  case False
  then have "n div p = 2 * m" using assms(1) by (intro div_nat_eqI) (auto simp: algebra_simps)
  then show ?thesis using False by simp
qed

lemma lead_ranges:
  "bit c 7 \<longleftrightarrow> 128 \<le> unat (c :: byte)"
  "128 \<le> unat c \<Longrightarrow> bit c 6 \<longleftrightarrow> 192 \<le> unat c"
  "192 \<le> unat c \<Longrightarrow> bit c 5 \<longleftrightarrow> 224 \<le> unat c"
  "224 \<le> unat c \<Longrightarrow> bit c 4 \<longleftrightarrow> 240 \<le> unat c"
  "240 \<le> unat c \<Longrightarrow> bit c 3 \<longleftrightarrow> 248 \<le> unat c"
  "248 \<le> unat c \<Longrightarrow> bit c 2 \<longleftrightarrow> 252 \<le> unat c"
  "252 \<le> unat c \<Longrightarrow> bit c 1 \<longleftrightarrow> 254 \<le> unat c"
  unfolding bit_byte_odd using unat_byte_less [of c]
    odd_div_range [of 0 128 "unat c"] odd_div_range [of 1 64 "unat c"] odd_div_range [of 3 32 "unat c"]
    odd_div_range [of 7 16 "unat c"] odd_div_range [of 15 8 "unat c"] odd_div_range [of 31 4 "unat c"]
    odd_div_range [of 63 2 "unat c"]
  by simp_all

lemma first_zero_numeral:
  "first_zero c (numeral k) = (if bit c (pred_numeral k) then 1 + first_zero c (pred_numeral k) else 0)"
  by (simp only: numeral_eq_Suc first_zero.simps bit_iff_and_push_bit_not_eq_0)

lemma first_zero_1: "first_zero c (Suc 0) = (if bit c 0 then 1 else 0)"
  by (simp only: first_zero.simps bit_iff_and_push_bit_not_eq_0) simp

lemma first_zero_bits: "first_zero c 8 = (if \<not> bit c 7 then 0 else if \<not> bit c 6 then 1 else if \<not> bit c 5 then 2
  else if \<not> bit c 4 then 3 else if \<not> bit c 3 then 4 else if \<not> bit c 2 then 5 else if \<not> bit c 1 then 6
  else if \<not> bit c 0 then 7 else 8)"
  by (simp add: first_zero_numeral first_zero_1 del: first_zero.simps(2))

text \<open>The table of character lengths is the count of leading one bits that
  \<open>utf8_find_nbytes\<close> computes, for every byte: 1 for ASCII, the number of leading ones for 2 to
  6 of them, and -1 for a continuation byte and for 0xFE and 0xFF.\<close>

theorem utf8_lentab_correct: "utf8_nbytes c = utf8_find_nbytes c"
proof -
  have "utf8_nbytes c = (if unat c < 128 then 1 else if unat c < 192 then -1 else if unat c < 224 then 2
    else if unat c < 240 then 3 else if unat c < 248 then 4 else if unat c < 252 then 5 else if unat c < 254 then 6 else -1)"
    using unat_byte_less [of c] unfolding utf8_nbytes_def utf8_lentab_def
    by (simp only: nth_append length_replicate) (auto simp: nth_replicate)
  moreover have "utf8_find_nbytes c = (if \<not> bit c 7 then 1 else if \<not> bit c 6 then -1 else if \<not> bit c 5 then 2
    else if \<not> bit c 4 then 3 else if \<not> bit c 3 then 4 else if \<not> bit c 2 then 5 else if \<not> bit c 1 then 6 else -1)"
    by (simp add: utf8_find_nbytes_def first_zero_bits)
  ultimately show ?thesis using lead_ranges [of c] by (simp add: not_less)
qed

lemma nbytes_bits:
  "utf8_nbytes c = (if \<not> bit c 7 then 1 else if \<not> bit c 6 then -1 else if \<not> bit c 5 then 2
     else if \<not> bit c 4 then 3 else if \<not> bit c 3 then 4 else if \<not> bit c 2 then 5 else if \<not> bit c 1 then 6 else -1)"
  unfolding utf8_lentab_correct utf8_find_nbytes_def Let_def first_zero_bits by simp

lemma cont_bits: "c AND 0xC0 \<noteq> 0x80 \<longleftrightarrow> \<not> (bit (c :: byte) 7 \<and> \<not> bit c 6)"
  unfolding eq_byte_bits ball_bits8 by (auto simp: bit_and_iff)

section \<open>One character\<close>

text \<open>The bits of a code point that the encoder can write: below bit 31.\<close>

lemmas char_bits = utf8_lead_def bit_or_iff bit_and_iff bit_unsigned_iff bit_drop_bit_eq bit_push_bit_iff

lemma and_zero_bits: "(v :: u64) AND m = 0 \<longleftrightarrow> (\<forall>n < 64. \<not> (bit v n \<and> bit m n))"
  unfolding eq_u64_bits by (auto simp: bit_and_iff)

definition small :: "u64 \<Rightarrow> bool" where "small v \<longleftrightarrow> (\<forall>n < 64. 31 \<le> n \<longrightarrow> \<not> bit v n)"

lemma small_iff: "small v \<longleftrightarrow> v < 2 ^ 31"
proof
  assume s: "small v"
  have "take_bit 31 v = v"
  proof (rule bit_word_eqI)
    fix n assume "n < LENGTH(64)"
    then show "bit (take_bit 31 v) n \<longleftrightarrow> bit v n" using s by (auto simp: bit_take_bit_iff small_def)
  qed
  then have "unat v < 2 ^ 31" by (metis take_bit_nat_less_exp unsigned_take_bit_eq)
  then show "v < 2 ^ 31" by (simp add: word_less_nat_alt)
next
  assume "v < 2 ^ 31"
  then have "take_bit 31 v = v" by (simp add: word_less_nat_alt word_unat_eq_iff unsigned_take_bit_eq take_bit_nat_eq_self)
  then show "small v" unfolding small_def by (metis bit_take_bit_iff not_le)
qed

lemma small_bits: "small v \<longleftrightarrow> \<not> bit v 31 \<and> \<not> bit v 32 \<and> \<not> bit v 33 \<and> \<not> bit v 34 \<and> \<not> bit v 35 \<and> \<not> bit v 36
   \<and> \<not> bit v 37 \<and> \<not> bit v 38 \<and> \<not> bit v 39 \<and> \<not> bit v 40 \<and> \<not> bit v 41 \<and> \<not> bit v 42 \<and> \<not> bit v 43
   \<and> \<not> bit v 44 \<and> \<not> bit v 45 \<and> \<not> bit v 46 \<and> \<not> bit v 47 \<and> \<not> bit v 48 \<and> \<not> bit v 49 \<and> \<not> bit v 50
   \<and> \<not> bit v 51 \<and> \<not> bit v 52 \<and> \<not> bit v 53 \<and> \<not> bit v 54 \<and> \<not> bit v 55 \<and> \<not> bit v 56 \<and> \<not> bit v 57
   \<and> \<not> bit v 58 \<and> \<not> bit v 59 \<and> \<not> bit v 60 \<and> \<not> bit v 61 \<and> \<not> bit v 62 \<and> \<not> bit v 63"
  unfolding small_def ball_bits64 ball_bits32 by simp

lemma enc1_bits: "v AND 0xFFFFFF80 = 0 \<longleftrightarrow> \<not> bit v 7 \<and> \<not> bit v 8 \<and> \<not> bit v 9 \<and> \<not> bit v 10 \<and> v AND 0xFFFFF800 = 0" for v :: u64
  unfolding and_zero_bits ball_bits64 ball_bits32 by simp
lemma enc2_bits: "v AND 0xFFFFF800 = 0 \<longleftrightarrow> \<not> bit v 11 \<and> \<not> bit v 12 \<and> \<not> bit v 13 \<and> \<not> bit v 14 \<and> \<not> bit v 15 \<and> v AND 0xFFFF0000 = 0" for v :: u64
  unfolding and_zero_bits ball_bits64 ball_bits32 by simp
lemma enc3_bits: "v AND 0xFFFF0000 = 0 \<longleftrightarrow> \<not> bit v 16 \<and> \<not> bit v 17 \<and> \<not> bit v 18 \<and> \<not> bit v 19 \<and> \<not> bit v 20 \<and> v AND 0xFFE00000 = 0" for v :: u64
  unfolding and_zero_bits ball_bits64 ball_bits32 by simp
lemma enc4_bits: "v AND 0xFFE00000 = 0 \<longleftrightarrow> \<not> bit v 21 \<and> \<not> bit v 22 \<and> \<not> bit v 23 \<and> \<not> bit v 24 \<and> \<not> bit v 25 \<and> v AND 0xFC000000 = 0" for v :: u64
  unfolding and_zero_bits ball_bits64 ball_bits32 by simp
lemma enc5_bits: "v AND 0xFC000000 = 0 \<longleftrightarrow> \<not> bit v 26 \<and> \<not> bit v 27 \<and> \<not> bit v 28 \<and> \<not> bit v 29 \<and> \<not> bit v 30 \<and> \<not> bit v 31" for v :: u64
  unfolding and_zero_bits ball_bits64 ball_bits32 by simp
lemma enc0_bits: "v AND 0x80000000 = 0 \<longleftrightarrow> \<not> bit v 31" for v :: u64
  unfolding and_zero_bits ball_bits64 ball_bits32 by simp

lemmas enc_bits = enc1_bits enc2_bits enc3_bits enc4_bits enc5_bits enc0_bits

lemma decode_encode_6:
  "small v \<Longrightarrow> utf8_decode ([utf8_lead 0xFC v 0x40000000 30, utf8_lead 0x80 v 0x3F000000 24,
        utf8_lead 0x80 v 0xFC0000 18, utf8_lead 0x80 v 0x3F000 12, utf8_lead 0x80 v 0xFC0 6, utf8_lead 0x80 v 0x3F 0] @ r) 6 = v"
  unfolding small_bits utf8_decode_def eq_u64_bits ball_bits64 ball_bits32 utf8_cdtab_def
  by (simp add: char_bits upt_rec)

lemma validate_okI:
  assumes "utf8_nbytes c = nb" "utf8_conts t (nat nb - 1) = Ok True" "\<not> utf8_overlong (c # t) nb" "0 < nb"
    "mx = 0 \<or> nb \<le> int mx"
  shows "utf8_validate_char (c # t) mx = Ok nb"
  using assms by (auto simp: utf8_validate_char_def)

lemma nbytes_lead:
  "\<not> bit v 7 \<Longrightarrow> utf8_nbytes (ucast v) = 1"
  "utf8_nbytes (utf8_lead 0xC0 v 0x7C0 6) = 2"
  "utf8_nbytes (utf8_lead 0xE0 v 0xF000 12) = 3"
  "utf8_nbytes (utf8_lead 0xF0 v 0x1C0000 18) = 4"
  "utf8_nbytes (utf8_lead 0xF8 v 0x3000000 24) = 5"
  "utf8_nbytes (utf8_lead 0xFC v 0x40000000 30) = 6"
  by (simp_all add: nbytes_bits char_bits)

lemma utf8_conts_pos: "0 < k \<Longrightarrow> utf8_conts (c # t) k = (if c AND 0xC0 \<noteq> 0x80 then Ok False else utf8_conts t (k - 1))"
  by (cases k) auto

lemma conts_lead:
  "0 < k \<Longrightarrow> utf8_conts (utf8_lead 0x80 v 0x3F 0 # t) k = utf8_conts t (k - 1)"
  "0 < k \<Longrightarrow> utf8_conts (utf8_lead 0x80 v 0xFC0 6 # t) k = utf8_conts t (k - 1)"
  "0 < k \<Longrightarrow> utf8_conts (utf8_lead 0x80 v 0x3F000 12 # t) k = utf8_conts t (k - 1)"
  "0 < k \<Longrightarrow> utf8_conts (utf8_lead 0x80 v 0xFC0000 18 # t) k = utf8_conts t (k - 1)"
  "0 < k \<Longrightarrow> utf8_conts (utf8_lead 0x80 v 0x3F000000 24 # t) k = utf8_conts t (k - 1)"
  by (simp_all add: utf8_conts_pos cont_bits char_bits)

lemma cont_lead_0: "utf8_lead 0x80 v 0x3F 0 AND 0xC0 = 0x80"
  using cont_bits [of "utf8_lead 0x80 v 0x3F 0"] by (simp add: char_bits)

lemma over_2: "utf8_lead 0xC0 v 0x7C0 6 AND 0xFE = 0xC0 \<longleftrightarrow> \<not> bit v 7 \<and> \<not> bit v 8 \<and> \<not> bit v 9 \<and> \<not> bit v 10"
  unfolding eq_byte_bits ball_bits8 by (auto simp: char_bits)
lemma over_3: "utf8_lead 0xE0 v 0xF000 12 = 0xE0 \<and> utf8_lead 0x80 v 0xFC0 6 AND 0xE0 = 0x80
  \<longleftrightarrow> \<not> bit v 11 \<and> \<not> bit v 12 \<and> \<not> bit v 13 \<and> \<not> bit v 14 \<and> \<not> bit v 15"
  unfolding eq_byte_bits ball_bits8 by (auto simp: char_bits)
lemma over_4: "utf8_lead 0xF0 v 0x1C0000 18 = 0xF0 \<and> utf8_lead 0x80 v 0x3F000 12 AND 0xF0 = 0x80
  \<longleftrightarrow> \<not> bit v 16 \<and> \<not> bit v 17 \<and> \<not> bit v 18 \<and> \<not> bit v 19 \<and> \<not> bit v 20"
  unfolding eq_byte_bits ball_bits8 by (auto simp: char_bits)
lemma over_5: "utf8_lead 0xF8 v 0x3000000 24 = 0xF8 \<and> utf8_lead 0x80 v 0xFC0000 18 AND 0xF8 = 0x80
  \<longleftrightarrow> \<not> bit v 21 \<and> \<not> bit v 22 \<and> \<not> bit v 23 \<and> \<not> bit v 24 \<and> \<not> bit v 25"
  unfolding eq_byte_bits ball_bits8 by (auto simp: char_bits)
lemma over_6: "utf8_lead 0xFC v 0x40000000 30 = 0xFC \<and> utf8_lead 0x80 v 0x3F000000 24 AND 0xFC = 0x80
  \<longleftrightarrow> \<not> bit v 26 \<and> \<not> bit v 27 \<and> \<not> bit v 28 \<and> \<not> bit v 29 \<and> \<not> bit v 30"
  unfolding eq_byte_bits ball_bits8 by (auto simp: char_bits)

lemmas over = over_2 over_3 over_4 over_5 over_6

lemma not_over:
  "v AND 0xFFFFF800 = 0 \<Longrightarrow> v AND 0xFFFFFF80 \<noteq> 0 \<Longrightarrow> utf8_lead 0xC0 v 0x7C0 6 AND 0xFE \<noteq> 0xC0"
  "v AND 0xFFFF0000 = 0 \<Longrightarrow> v AND 0xFFFFF800 \<noteq> 0 \<Longrightarrow> \<not> (utf8_lead 0xE0 v 0xF000 12 = 0xE0 \<and> utf8_lead 0x80 v 0xFC0 6 AND 0xE0 = 0x80)"
  "v AND 0xFFE00000 = 0 \<Longrightarrow> v AND 0xFFFF0000 \<noteq> 0 \<Longrightarrow> \<not> (utf8_lead 0xF0 v 0x1C0000 18 = 0xF0 \<and> utf8_lead 0x80 v 0x3F000 12 AND 0xF0 = 0x80)"
  "v AND 0xFC000000 = 0 \<Longrightarrow> v AND 0xFFE00000 \<noteq> 0 \<Longrightarrow> \<not> (utf8_lead 0xF8 v 0x3000000 24 = 0xF8 \<and> utf8_lead 0x80 v 0xFC0000 18 AND 0xF8 = 0x80)"
  "\<not> bit v 31 \<Longrightarrow> v AND 0xFC000000 \<noteq> 0 \<Longrightarrow> \<not> (utf8_lead 0xFC v 0x40000000 30 = 0xFC \<and> utf8_lead 0x80 v 0x3F000000 24 AND 0xFC = 0x80)"
  unfolding over by (simp_all add: enc1_bits enc2_bits enc3_bits enc4_bits enc5_bits del: de_Morgan_conj)

lemma enc_len_cases:
  assumes "small v"
  obtains "utf8_enc_len v = 1" "v AND 0xFFFFFF80 = 0"
    | "utf8_enc_len v = 2" "v AND 0xFFFFF800 = 0" "v AND 0xFFFFFF80 \<noteq> 0"
    | "utf8_enc_len v = 3" "v AND 0xFFFF0000 = 0" "v AND 0xFFFFF800 \<noteq> 0"
    | "utf8_enc_len v = 4" "v AND 0xFFE00000 = 0" "v AND 0xFFFF0000 \<noteq> 0"
    | "utf8_enc_len v = 5" "v AND 0xFC000000 = 0" "v AND 0xFFE00000 \<noteq> 0"
    | "utf8_enc_len v = 6" "v AND 0xFC000000 \<noteq> 0"
proof -
  have z: "v AND 0x80000000 = 0" using assms by (simp add: enc0_bits small_bits)
  consider "v AND 0xFFFFFF80 = 0" | "v AND 0xFFFFFF80 \<noteq> 0" "v AND 0xFFFFF800 = 0"
    | "v AND 0xFFFFFF80 \<noteq> 0" "v AND 0xFFFFF800 \<noteq> 0" "v AND 0xFFFF0000 = 0"
    | "v AND 0xFFFFFF80 \<noteq> 0" "v AND 0xFFFFF800 \<noteq> 0" "v AND 0xFFFF0000 \<noteq> 0" "v AND 0xFFE00000 = 0"
    | "v AND 0xFFFFFF80 \<noteq> 0" "v AND 0xFFFFF800 \<noteq> 0" "v AND 0xFFFF0000 \<noteq> 0" "v AND 0xFFE00000 \<noteq> 0" "v AND 0xFC000000 = 0"
    | "v AND 0xFFFFFF80 \<noteq> 0" "v AND 0xFFFFF800 \<noteq> 0" "v AND 0xFFFF0000 \<noteq> 0" "v AND 0xFFE00000 \<noteq> 0" "v AND 0xFC000000 \<noteq> 0"
    by blast
  then show thesis by cases (rule that; simp add: utf8_enc_len_def z)+
qed

lemma validate_encode:
  assumes "small v" "utf8_encode v (utf8_enc_len v) = Ok bs" "mx = 0 \<or> utf8_enc_len v \<le> int mx"
  shows "utf8_validate_char (bs @ r) mx = Ok (utf8_enc_len v)"
proof -
  have n: "\<not> bit v 31" using assms(1) by (simp add: small_bits)
  note shape = assms(2,3) not_over [of v] n
  note rules = utf8_encode_def utf8_overlong_def conts_lead cont_lead_0 nbytes_lead
  show ?thesis
    using \<open>small v\<close>
  proof (cases rule: enc_len_cases)
    case 1
    then have "\<not> bit v 7" by (simp add: enc1_bits)
    with 1 shape(1,2) show ?thesis by (auto simp: rules intro!: validate_okI)
  next
    case 2 with shape show ?thesis by (auto simp: rules intro!: validate_okI)
  next
    case 3 with shape show ?thesis by (auto simp: rules intro!: validate_okI)
  next
    case 4 with shape show ?thesis by (auto simp: rules intro!: validate_okI)
  next
    case 5 with shape show ?thesis by (auto simp: rules intro!: validate_okI)
  next
    case 6 with shape show ?thesis by (auto simp: rules intro!: validate_okI)
  qed
qed

lemma decode_encode_1: "\<forall>n < 64. 7 \<le> n \<longrightarrow> \<not> bit v n \<Longrightarrow> utf8_decode ([ucast (v :: u64)] @ r) 1 = v"
  unfolding ball_bits64 ball_bits32 utf8_decode_def eq_u64_bits utf8_cdtab_def
  by (simp add: char_bits upt_rec)
lemma decode_encode_2: "\<forall>n < 64. 11 \<le> n \<longrightarrow> \<not> bit v n \<Longrightarrow> utf8_decode ([utf8_lead 0xC0 v 0x7C0 6, utf8_lead 0x80 v 0x3F 0] @ r) 2 = v"
  unfolding ball_bits64 ball_bits32 utf8_decode_def eq_u64_bits utf8_cdtab_def
  by (simp add: char_bits upt_rec)
lemma decode_encode_3: "\<forall>n < 64. 16 \<le> n \<longrightarrow> \<not> bit v n \<Longrightarrow> utf8_decode ([utf8_lead 0xE0 v 0xF000 12, utf8_lead 0x80 v 0xFC0 6, utf8_lead 0x80 v 0x3F 0] @ r) 3 = v"
  unfolding ball_bits64 ball_bits32 utf8_decode_def eq_u64_bits utf8_cdtab_def
  by (simp add: char_bits upt_rec)
lemma decode_encode_4: "\<forall>n < 64. 21 \<le> n \<longrightarrow> \<not> bit v n \<Longrightarrow> utf8_decode ([utf8_lead 0xF0 v 0x1C0000 18, utf8_lead 0x80 v 0x3F000 12,
        utf8_lead 0x80 v 0xFC0 6, utf8_lead 0x80 v 0x3F 0] @ r) 4 = v"
  unfolding ball_bits64 ball_bits32 utf8_decode_def eq_u64_bits utf8_cdtab_def
  by (simp add: char_bits upt_rec)
lemma decode_encode_5: "\<forall>n < 64. 26 \<le> n \<longrightarrow> \<not> bit v n \<Longrightarrow> utf8_decode ([utf8_lead 0xF8 v 0x3000000 24, utf8_lead 0x80 v 0xFC0000 18,
        utf8_lead 0x80 v 0x3F000 12, utf8_lead 0x80 v 0xFC0 6, utf8_lead 0x80 v 0x3F 0] @ r) 5 = v"
  unfolding ball_bits64 ball_bits32 utf8_decode_def eq_u64_bits utf8_cdtab_def
  by (simp add: char_bits upt_rec)

lemma decode_encode:
  assumes "small v" "utf8_encode v (utf8_enc_len v) = Ok bs"
  shows "utf8_decode (bs @ r) (nat (utf8_enc_len v)) = v"
  using \<open>small v\<close>
proof (cases rule: enc_len_cases)
  case 1
  with assms(1) have "\<forall>n < 64. 7 \<le> n \<longrightarrow> \<not> bit v n"
    unfolding ball_bits64 ball_bits32 by (simp add: enc_bits small_bits)
  then show ?thesis using 1 assms(2) decode_encode_1 [of v r] by (auto simp: utf8_encode_def)
next
  case 2
  with assms(1) have "\<forall>n < 64. 11 \<le> n \<longrightarrow> \<not> bit v n"
    unfolding ball_bits64 ball_bits32 by (simp add: enc_bits small_bits)
  then show ?thesis using 2 assms(2) decode_encode_2 [of v r] by (auto simp: utf8_encode_def)
next
  case 3
  with assms(1) have "\<forall>n < 64. 16 \<le> n \<longrightarrow> \<not> bit v n"
    unfolding ball_bits64 ball_bits32 by (simp add: enc_bits small_bits)
  then show ?thesis using 3 assms(2) decode_encode_3 [of v r] by (auto simp: utf8_encode_def)
next
  case 4
  with assms(1) have "\<forall>n < 64. 21 \<le> n \<longrightarrow> \<not> bit v n"
    unfolding ball_bits64 ball_bits32 by (simp add: enc_bits small_bits)
  then show ?thesis using 4 assms(2) decode_encode_4 [of v r] by (auto simp: utf8_encode_def)
next
  case 5
  with assms(1) have "\<forall>n < 64. 26 \<le> n \<longrightarrow> \<not> bit v n"
    unfolding ball_bits64 ball_bits32 by (simp add: enc_bits small_bits)
  then show ?thesis using 5 assms(2) decode_encode_5 [of v r] by (auto simp: utf8_encode_def)
next
  case 6
  with assms decode_encode_6 [of v r] show ?thesis by (auto simp: utf8_encode_def)
qed

lemma enc_len_bounds: "small v \<Longrightarrow> 1 \<le> utf8_enc_len v \<and> utf8_enc_len v \<le> 6"
  by (auto elim!: enc_len_cases)

lemma encode_ok: "1 \<le> n \<Longrightarrow> n \<le> 6 \<Longrightarrow> \<exists>bs. utf8_encode v n = Ok bs \<and> int (length bs) = n"
  by (auto simp: utf8_encode_def)

section \<open>Strings\<close>

text \<open>The reference encoding of a list of code points.\<close>

definition enc_char :: "u64 \<Rightarrow> byte list" where
  "enc_char v = (case utf8_encode v (utf8_enc_len v) of Ok bs \<Rightarrow> bs | _ \<Rightarrow> [])"

definition enc_string :: "u64 list \<Rightarrow> byte list" where
  "enc_string vs = concat (map enc_char vs)"

lemma enc_char:
  assumes "v < 2 ^ 31"
  shows "utf8_encode v (utf8_enc_len v) = Ok (enc_char v)" "int (length (enc_char v)) = utf8_enc_len v"
    "1 \<le> utf8_enc_len v" "utf8_enc_len v \<le> 6"
    "mx = 0 \<or> utf8_enc_len v \<le> int mx \<Longrightarrow> utf8_validate_char (enc_char v @ r) mx = Ok (utf8_enc_len v)"
    "utf8_decode (enc_char v @ r) (nat (utf8_enc_len v)) = v"
proof -
  have s: "small v" using assms small_iff by blast
  note b = enc_len_bounds [OF s]
  then show "1 \<le> utf8_enc_len v" "utf8_enc_len v \<le> 6" by auto
  obtain bs where bs: "utf8_encode v (utf8_enc_len v) = Ok bs" "int (length bs) = utf8_enc_len v"
    using b encode_ok by blast
  then have e: "enc_char v = bs" by (simp add: enc_char_def)
  show "utf8_encode v (utf8_enc_len v) = Ok (enc_char v)" "int (length (enc_char v)) = utf8_enc_len v"
    using bs e by auto
  show "mx = 0 \<or> utf8_enc_len v \<le> int mx \<Longrightarrow> utf8_validate_char (enc_char v @ r) mx = Ok (utf8_enc_len v)"
    unfolding e by (rule validate_encode [OF s bs(1)])
  show "utf8_decode (enc_char v @ r) (nat (utf8_enc_len v)) = v"
    unfolding e by (rule decode_encode [OF s bs(1)])
qed

lemma utf32_to_utf8_loop_ok:
  "\<forall>v \<in> set vs. v < 2 ^ 31 \<Longrightarrow> length (enc_string vs) \<le> dlen \<Longrightarrow> 0 \<le> tlen \<Longrightarrow> tlen + int (length (enc_string vs)) \<le> INT_MAX
   \<Longrightarrow> utf32_to_utf8_loop (Some out) dlen vs tlen = Ok (tlen + int (length (enc_string vs)), Some (out @ enc_string vs))"
proof (induction vs arbitrary: out dlen tlen)
  case Nil
  then show ?case by (simp add: enc_string_def)
next
  case (Cons v vs)
  have v: "v < 2 ^ 31" using Cons.prems(1) by simp
  have e: "enc_string (v # vs) = enc_char v @ enc_string vs" by (simp add: enc_string_def)
  have l: "int (length (enc_char v)) = utf8_enc_len v" "1 \<le> utf8_enc_len v" "utf8_enc_len v \<le> 6"
    by (rule enc_char [OF v])+
  then have n: "nat (utf8_enc_len v) = length (enc_char v)" by simp
  have put: "utf8_put v (utf8_enc_len v) (Some out) dlen = Ok (Some (out @ enc_char v), dlen - length (enc_char v))"
    using Cons.prems(2) l enc_char(1) [OF v] by (simp add: utf8_put_def e n)
  have "utf32_to_utf8_loop (Some out) dlen (v # vs) tlen
      = utf32_to_utf8_loop (Some (out @ enc_char v)) (dlen - length (enc_char v)) vs (tlen + utf8_enc_len v)"
    using l Cons.prems(4) by (simp add: put e)
  also have "\<dots> = Ok (tlen + utf8_enc_len v + int (length (enc_string vs)), Some ((out @ enc_char v) @ enc_string vs))"
    by (rule Cons.IH) (use Cons.prems l e in auto)
  finally show ?case using l(1) by (simp add: e)
qed

lemma utf8_to_utf32_loop_ok:
  "\<forall>v \<in> set vs. v < 2 ^ 31 \<Longrightarrow> nconv + length vs \<le> dlen
   \<Longrightarrow> utf8_to_utf32_loop dlen (enc_string vs) (length (enc_string vs)) nconv out = Ok (int (nconv + length vs), out @ vs)"
proof (induction vs arbitrary: nconv out)
  case Nil
  then show ?case by (simp add: enc_string_def utf8_to_utf32_loop.simps)
next
  case (Cons v vs)
  have v: "v < 2 ^ 31" using Cons.prems(1) by simp
  have e: "enc_string (v # vs) = enc_char v @ enc_string vs" by (simp add: enc_string_def)
  have l: "int (length (enc_char v)) = utf8_enc_len v" "1 \<le> utf8_enc_len v"
    by (rule enc_char [OF v])+
  then have n: "nat (utf8_enc_len v) = length (enc_char v)" "enc_char v \<noteq> []" by auto
  have val: "utf8_validate_char (enc_char v @ enc_string vs) (length (enc_string (v # vs))) = Ok (utf8_enc_len v)"
    by (rule enc_char(5) [OF v]) (simp add: e flip: l(1))
  have d: "utf8_decode (enc_char v @ enc_string vs) (length (enc_char v)) = v"
    using enc_char(6) [OF v] n by simp
  have "utf8_to_utf32_loop dlen (enc_string (v # vs)) (length (enc_string (v # vs))) nconv out
      = utf8_to_utf32_loop dlen (enc_string vs) (length (enc_string vs)) (nconv + 1) (out @ [v])"
    by (subst utf8_to_utf32_loop.simps) (use Cons.prems l n val d in \<open>simp add: e\<close>)
  also have "\<dots> = Ok (int (nconv + 1 + length vs), (out @ [v]) @ vs)"
    by (rule Cons.IH) (use Cons.prems in auto)
  finally show ?case by simp
qed

lemma utf8_validate_loop_ok:
  "\<forall>v \<in> set vs. v < 2 ^ 31
   \<Longrightarrow> utf8_validate_loop (pre @ enc_string vs) (length pre) (length (enc_string vs)) False = Ok (0, Some None)"
proof (induction vs arbitrary: pre)
  case Nil
  then show ?case by (simp add: enc_string_def utf8_validate_loop.simps)
next
  case (Cons v vs)
  have v: "v < 2 ^ 31" using Cons.prems(1) by simp
  have e: "enc_string (v # vs) = enc_char v @ enc_string vs" by (simp add: enc_string_def)
  have l: "int (length (enc_char v)) = utf8_enc_len v" "1 \<le> utf8_enc_len v"
    by (rule enc_char [OF v])+
  then have n: "nat (utf8_enc_len v) = length (enc_char v)" "enc_char v \<noteq> []" by auto
  have val: "utf8_validate_char (enc_char v @ enc_string vs) (length (enc_string (v # vs))) = Ok (utf8_enc_len v)"
    by (rule enc_char(5) [OF v]) (simp add: e flip: l(1))
  have "utf8_validate_loop (pre @ enc_string (v # vs)) (length pre) (length (enc_string (v # vs))) False
      = utf8_validate_loop ((pre @ enc_char v) @ enc_string vs) (length (pre @ enc_char v)) (length (enc_string vs)) False"
    by (subst utf8_validate_loop.simps) (use l n val in \<open>auto simp: e neq_Nil_conv\<close>)
  also have "\<dots> = Ok (0, Some None)"
    by (rule Cons.IH) (use Cons.prems in auto)
  finally show ?case .
qed

lemma enc_string_length:
  "\<forall>v \<in> set vs. v < 2 ^ 31 \<Longrightarrow> length (enc_string vs) \<le> 6 * length vs"
proof (induction vs)
  case (Cons v vs)
  have "int (length (enc_char v)) \<le> 6" using enc_char(2,4) [of v] Cons.prems by simp
  with Cons show ?case by (simp add: enc_string_def)
qed (simp add: enc_string_def)

text \<open>C17: Encoding code points below 2^31, few enough for their bytes to be counted by an \<open>int\<close>, with
  \<open>utf32_to_utf8\<close> into a large enough buffer returns the number of bytes written; the bytes are valid UTF-8 for \<open>utf8_validate\<close>; and
  \<open>utf8_to_utf32\<close> turns them back into the code points and returns how many they are.\<close>

theorem utf8_utf32_roundtrip:
  assumes "\<forall>v \<in> set vs. v < 2 ^ 31" "6 * length vs \<le> dlen" "6 * int (length vs) < INT_MAX" "length vs \<le> n"
  shows "\<exists>bytes. utf32_to_utf8 False dlen vs = Ok (int (length bytes), Some bytes)
    \<and> utf8_validate bytes (length bytes) False = Ok (0, Some None)
    \<and> utf8_to_utf32 n bytes (length bytes) = Ok (int (length vs), vs)"
proof (intro exI conjI)
  note len = enc_string_length [OF assms(1)]
  have "\<not> int (length vs) \<ge> INT_MAX" using assms(3) by simp
  then show "utf32_to_utf8 False dlen vs = Ok (int (length (enc_string vs)), Some (enc_string vs))"
    using utf32_to_utf8_loop_ok [OF assms(1), of dlen 0 "[]"] len assms by (simp add: utf32_to_utf8_def)
  show "utf8_validate (enc_string vs) (length (enc_string vs)) False = Ok (0, Some None)"
    using utf8_validate_loop_ok [OF assms(1), of "[]"] by (simp add: utf8_validate_def)
  show "utf8_to_utf32 n (enc_string vs) (length (enc_string vs)) = Ok (int (length vs), vs)"
    using utf8_to_utf32_loop_ok [OF assms(1), of 0 n "[]"] assms(4) by (simp add: utf8_to_utf32_def)
qed

lemma utf8_utf32_roundtrip_witness:
  "\<exists>bytes. utf32_to_utf8 False 24 [0x41, 0xE9, 0x20AC, 0x1F600] = Ok (int (length bytes), Some bytes)
    \<and> utf8_validate bytes (length bytes) False = Ok (0, Some None)
    \<and> utf8_to_utf32 4 bytes (length bytes) = Ok (int (length [0x41, 0xE9, 0x20AC, 0x1F600 :: u64]), [0x41, 0xE9, 0x20AC, 0x1F600])"
  by (rule utf8_utf32_roundtrip) (simp_all add: INT_MAX_def)

text \<open>\<open>utf16_to_utf8\<close> decodes a surrogate pair without adding 0x10000: the pair for U+10041
  comes out as the single byte of U+0041, and the pair for U+10FFFF fails the assertion that the
  encoding has at most three bytes.\<close>

theorem utf16_surrogates_wrong:
  "utf16_to_utf8 False 8 [0xD800, 0xDC41] = Ok (1, Some [0x41]) \<and> utf16_to_utf8 False 8 [0xDBFF, 0xDFFF] = Abort"
  by (rule conjI; code_simp)

end
