(* ===== verification/CatList.thy ===== *)
theory CatList
  imports Loops
begin

text \<open>
  The circular doubly linked lists of include/cat/list.h and the callback lists of src/cb.c.

  The heap maps the address of each \<open>struct list\<close> to its two pointers; an address with no
  entry is not a node (0 is NULL) and using it faults.  List heads and elements are both nodes.
  The addresses of local variables of type \<open>struct list\<close> are parameters.
\<close>

section \<open>Nodes\<close>

type_synonym addr = nat

record lnode =
  lnext :: addr
  lprev :: addr

type_synonym lheap = "addr \<rightharpoonup> lnode"

definition l_next :: "lheap \<Rightarrow> addr \<Rightarrow> addr outcome" where
  "l_next h p = (case h p of None \<Rightarrow> Fault | Some n \<Rightarrow> Ok (lnext n))"

definition l_prev :: "lheap \<Rightarrow> addr \<Rightarrow> addr outcome" where
  "l_prev h p = (case h p of None \<Rightarrow> Fault | Some n \<Rightarrow> Ok (lprev n))"

definition set_next :: "addr \<Rightarrow> addr \<Rightarrow> lheap \<Rightarrow> lheap outcome" where
  "set_next p q h = (case h p of None \<Rightarrow> Fault | Some n \<Rightarrow> Ok (h(p \<mapsto> n\<lparr>lnext := q\<rparr>)))"

definition set_prev :: "addr \<Rightarrow> addr \<Rightarrow> lheap \<Rightarrow> lheap outcome" where
  "set_prev p q h = (case h p of None \<Rightarrow> Fault | Some n \<Rightarrow> Ok (h(p \<mapsto> n\<lparr>lprev := q\<rparr>)))"

section \<open>Basic operations\<close>

definition l_init :: "addr \<Rightarrow> lheap \<Rightarrow> lheap outcome" where
  "l_init head h = abort_unless (head \<noteq> 0) (obind (set_prev head head h) (set_next head head))"

definition l_ins :: "addr \<Rightarrow> addr \<Rightarrow> lheap \<Rightarrow> lheap outcome" where
  "l_ins prev elem h =
     abort_unless (prev \<noteq> 0) (abort_unless (elem \<noteq> 0)
       (obind (l_next h prev) (\<lambda>nxt.
        obind (if nxt \<noteq> 0 then obind (l_prev h nxt) (\<lambda>p. Ok (p = prev)) else Ok False) (\<lambda>ok.
        abort_unless ok
          (obind (set_next elem nxt h) (\<lambda>h.
           obind (set_prev elem prev h) (\<lambda>h.
           obind (set_next prev elem h) (set_prev nxt elem))))))))"

definition l_rem :: "addr \<Rightarrow> lheap \<Rightarrow> lheap outcome" where
  "l_rem elem h =
     abort_unless (elem \<noteq> 0)
       (obind (l_next h elem) (\<lambda>nxt.
        obind (l_prev h elem) (\<lambda>prv.
        obind (if nxt \<noteq> 0 then obind (l_prev h nxt) (\<lambda>p. Ok (p = elem)) else Ok False) (\<lambda>ok1.
        abort_unless ok1
          (obind (if prv \<noteq> 0 then obind (l_next h prv) (\<lambda>p. Ok (p = elem)) else Ok False) (\<lambda>ok2.
           abort_unless ok2
             (obind (set_next prv nxt h) (\<lambda>h.
              obind (set_prev nxt prv h) (\<lambda>h.
              obind (set_next elem elem h) (set_prev elem elem))))))))))"

definition l_enq :: "addr \<Rightarrow> addr \<Rightarrow> lheap \<Rightarrow> lheap outcome" where
  "l_enq l elem h = obind (l_prev h l) (\<lambda>p. l_ins p elem h)"

definition l_deq :: "addr \<Rightarrow> lheap \<Rightarrow> (addr option \<times> lheap) outcome" where
  "l_deq l h =
     abort_unless (l \<noteq> 0)
       (obind (l_next h l) (\<lambda>first.
          if first \<noteq> l then obind (l_rem first h) (\<lambda>h. Ok (Some first, h)) else Ok (None, h)))"

definition l_push :: "addr \<Rightarrow> addr \<Rightarrow> lheap \<Rightarrow> lheap outcome" where
  "l_push l elem h = l_ins l elem h"

definition l_pop :: "addr \<Rightarrow> lheap \<Rightarrow> (addr option \<times> lheap) outcome" where
  "l_pop l h =
     abort_unless (l \<noteq> 0)
       (obind (l_next h l) (\<lambda>first.
          if first = l then Ok (None, h) else obind (l_rem first h) (\<lambda>h. Ok (Some first, h))))"

definition l_isempty :: "addr \<Rightarrow> lheap \<Rightarrow> bool outcome" where
  "l_isempty l h = abort_unless (l \<noteq> 0) (obind (l_next h l) (\<lambda>n. Ok (n = l)))"

definition l_onlist :: "addr \<Rightarrow> lheap \<Rightarrow> bool outcome" where
  "l_onlist l h = abort_unless (l \<noteq> 0) (obind (l_next h l) (\<lambda>n. Ok (n \<noteq> l)))"

text \<open>The counter is an \<open>unsigned long\<close>.\<close>

definition l_length :: "addr \<Rightarrow> lheap \<Rightarrow> u64 run" where
  "l_length l h =
     (case abort_unless (l \<noteq> 0) (obind (l_next h l) (\<lambda>n. abort_unless (n \<noteq> 0) (Ok n))) of
        Ok first \<Rightarrow>
          rbind (while_run (\<lambda>(t, n). Ok (t \<noteq> l)) (\<lambda>(t, n). Some (obind (l_next h t) (\<lambda>t. Ok (t, n + 1)))) (first, 0))
            (\<lambda>(t, n). ret n)
      | Abort \<Rightarrow> Some Abort
      | Fault \<Rightarrow> Some Fault)"

text \<open>\<open>f\<close> may change the heap and a state of its own.\<close>

definition l_apply :: "addr \<Rightarrow> (addr \<Rightarrow> lheap \<times> 's \<Rightarrow> (lheap \<times> 's) run) \<Rightarrow> lheap \<times> 's \<Rightarrow> (lheap \<times> 's) run" where
  "l_apply l f st =
     (case abort_unless (l \<noteq> 0) (l_next (fst st) l) of
        Ok first \<Rightarrow>
          rbind (while_run (\<lambda>(t, st). Ok (t \<noteq> l))
                   (\<lambda>(t, st). rbind (Some (l_next (fst st) t)) (\<lambda>nxt. rbind (f t st) (\<lambda>st. ret (nxt, st))))
                   (first, st))
            (\<lambda>(t, st). ret st)
      | Abort \<Rightarrow> Some Abort
      | Fault \<Rightarrow> Some Fault)"

section \<open>Moving chunks\<close>

definition l_move :: "addr \<Rightarrow> addr \<Rightarrow> lheap \<Rightarrow> lheap outcome" where
  "l_move dst src h =
     abort_unless (dst \<noteq> 0) (abort_unless (src \<noteq> 0)
       (obind (l_next h src) (\<lambda>n. obind (set_next dst n h) (\<lambda>h.
        obind (l_prev h src) (\<lambda>p. obind (set_prev dst p h) (\<lambda>h.
        obind (l_next h src) (\<lambda>n. obind (set_prev n dst h) (\<lambda>h.
        obind (l_prev h src) (\<lambda>p. obind (set_next p dst h) (\<lambda>h.
        obind (set_prev src src h) (set_next src src)))))))))))"

definition l_cut :: "addr \<Rightarrow> addr \<Rightarrow> addr \<Rightarrow> lheap \<Rightarrow> lheap outcome" where
  "l_cut dst first lst h =
     abort_unless (first \<noteq> 0) (abort_unless (lst \<noteq> 0)
       (obind (if dst \<noteq> 0 then l_isempty dst h else Ok False) (\<lambda>ok. abort_unless ok
         (obind (l_prev h first) (\<lambda>prev.
          obind (l_next h lst) (\<lambda>after.
          obind (set_next dst first h) (\<lambda>h.
          obind (set_prev dst lst h) (\<lambda>h.
          obind (set_prev first dst h) (\<lambda>h.
          obind (set_next lst dst h) (\<lambda>h.
          obind (set_next prev after h) (set_prev after prev)))))))))))"

definition l_splice :: "addr \<Rightarrow> addr \<Rightarrow> lheap \<Rightarrow> lheap outcome" where
  "l_splice prev list2 h =
     abort_unless (list2 \<noteq> 0) (abort_unless (prev \<noteq> 0)
       (obind (l_isempty list2 h) (\<lambda>empty.
          if empty then Ok h
          else obind (l_next h prev) (\<lambda>after.
               obind (l_next h list2) (\<lambda>l2s.
               obind (l_prev h list2) (\<lambda>l2e.
               obind (set_prev l2s prev h) (\<lambda>h.
               obind (set_next prev l2s h) (\<lambda>h.
               obind (set_next l2e after h) (\<lambda>h.
               obind (set_prev after l2e h) (\<lambda>h.
               obind (set_prev list2 list2 h) (set_next list2 list2)))))))))))"

definition l_append :: "addr \<Rightarrow> addr \<Rightarrow> lheap \<Rightarrow> lheap outcome" where
  "l_append list1 list2 h =
     abort_unless (list1 \<noteq> 0) (abort_unless (list2 \<noteq> 0)
       (obind (l_prev h list1) (\<lambda>t. l_splice t list2 h)))"

section \<open>Merge sort\<close>

definition both_nonempty :: "addr \<Rightarrow> addr \<Rightarrow> lheap \<Rightarrow> bool outcome" where
  "both_nonempty l1 l2 h =
     obind (l_isempty l1 h) (\<lambda>e1. if e1 then Ok False else obind (l_isempty l2 h) (\<lambda>e2. Ok (\<not> e2)))"

definition nonempty :: "addr \<Rightarrow> lheap \<Rightarrow> bool outcome" where
  "nonempty l h = obind (l_isempty l h) (\<lambda>e. Ok (\<not> e))"

text \<open>\<open>l_rem(t); l_ins(l_tail(&mlist), t);\<close>\<close>

definition to_tail :: "addr \<Rightarrow> addr \<Rightarrow> lheap \<Rightarrow> lheap outcome" where
  "to_tail m t h = obind (l_rem t h) (\<lambda>h. obind (l_prev h m) (\<lambda>p. l_ins p t h))"

definition merge_step :: "(addr \<Rightarrow> addr \<Rightarrow> int) \<Rightarrow> addr \<Rightarrow> addr \<Rightarrow> addr \<Rightarrow> lheap \<Rightarrow> lheap outcome" where
  "merge_step cmp m l1 l2 h =
     obind (l_next h l1) (\<lambda>a. obind (l_next h l2) (\<lambda>b.
       obind (if cmp a b < 0 then l_next h l1 else l_next h l2) (\<lambda>t. to_tail m t h)))"

definition drain_step :: "addr \<Rightarrow> addr \<Rightarrow> lheap \<Rightarrow> lheap outcome" where
  "drain_step m r h = obind (l_next h r) (\<lambda>t. to_tail m t h)"

definition l_merge :: "(addr \<Rightarrow> addr \<Rightarrow> int) \<Rightarrow> addr \<Rightarrow> addr \<Rightarrow> addr \<Rightarrow> lheap \<Rightarrow> lheap run" where
  "l_merge cmp mlist l1 l2 h =
     rbind (Some (l_init mlist h)) (\<lambda>h.
     rbind (while_run (both_nonempty l1 l2) (\<lambda>h. Some (merge_step cmp mlist l1 l2 h)) h) (\<lambda>h.
     rbind (Some (l_isempty l1 h)) (\<lambda>e. let rest = (if e then l2 else l1) in
     rbind (while_run (nonempty rest) (\<lambda>h. Some (drain_step mlist rest h)) h) (\<lambda>h.
     Some (l_move l1 mlist h)))))"

text \<open>\<open>arr\<close> gives the addresses of the 48 local lists, \<open>mlist\<close> that of the local of \<open>l_merge\<close>.\<close>

definition sort_place :: "(addr \<Rightarrow> addr \<Rightarrow> int) \<Rightarrow> addr \<Rightarrow> addr \<Rightarrow> lheap \<Rightarrow> (bool \<times> lheap) outcome" where
  "sort_place cmp arr0 node h =
     obind (l_isempty arr0 h) (\<lambda>wasempty.
       if wasempty then obind (l_ins arr0 node h) (\<lambda>h. Ok (True, h))
       else obind (l_next h arr0) (\<lambda>hd0.
            if cmp node hd0 < 0 then obind (l_ins arr0 node h) (\<lambda>h. Ok (False, h))
            else obind (l_ins hd0 node h) (\<lambda>h. Ok (False, h))))"

definition sort_carry :: "(addr \<Rightarrow> addr \<Rightarrow> int) \<Rightarrow> addr \<Rightarrow> (nat \<Rightarrow> addr) \<Rightarrow> nat \<Rightarrow> bool \<times> lheap \<Rightarrow> (bool \<times> lheap) run" where
  "sort_carry cmp mlist arr i st =
     (case st of (wasempty, h) \<Rightarrow>
        if wasempty then ret (wasempty, h)
        else rbind (Some (l_isempty (arr i) h)) (\<lambda>wasempty.
             rbind (if wasempty then Some (l_move (arr i) (arr (i - 1)) h)
                    else l_merge cmp mlist (arr i) (arr (i - 1)) h) (\<lambda>h. ret (wasempty, h))))"

definition sort_one :: "(addr \<Rightarrow> addr \<Rightarrow> int) \<Rightarrow> addr \<Rightarrow> (nat \<Rightarrow> addr) \<Rightarrow> addr \<Rightarrow> lheap \<Rightarrow> lheap run" where
  "sort_one cmp mlist arr l h =
     rbind (Some (l_next h l)) (\<lambda>node.
     rbind (Some (l_rem node h)) (\<lambda>h.
     rbind (Some (sort_place cmp (arr 0) node h)) (\<lambda>st.
     rbind (for_run [1..<48] (sort_carry cmp mlist arr) st) (\<lambda>(w, h). ret h))))"

definition sort_collect :: "(addr \<Rightarrow> addr \<Rightarrow> int) \<Rightarrow> addr \<Rightarrow> (nat \<Rightarrow> addr) \<Rightarrow> nat \<Rightarrow> nat \<times> lheap \<Rightarrow> (nat \<times> lheap) run" where
  "sort_collect cmp mlist arr i st =
     (case st of (lne, h) \<Rightarrow>
        rbind (Some (l_isempty (arr i) h)) (\<lambda>e.
          if e then ret (lne, h)
          else rbind (l_merge cmp mlist (arr i) (arr lne) h) (\<lambda>h. ret (i, h))))"

definition l_sort :: "(addr \<Rightarrow> addr \<Rightarrow> int) \<Rightarrow> addr \<Rightarrow> (nat \<Rightarrow> addr) \<Rightarrow> addr \<Rightarrow> lheap \<Rightarrow> lheap run" where
  "l_sort cmp mlist arr l h =
     rbind (Some (abort_unless (l \<noteq> 0) (Ok h))) (\<lambda>h.
     rbind (for_run [0..<48] (\<lambda>i h. Some (l_init (arr i) h)) h) (\<lambda>h.
     rbind (while_run (nonempty l) (sort_one cmp mlist arr l) h) (\<lambda>h.
     rbind (for_run [1..<48] (sort_collect cmp mlist arr) (0, h)) (\<lambda>(lne, h).
     Some (l_move l (arr lne) h)))))"

section \<open>Callbacks\<close>

text \<open>
  A \<open>struct callback\<close> begins with its list node, so both have one address.  What its function
  does is the parameter \<open>call\<close>; \<open>cb_run\<close> reads the next node before it calls.
\<close>

record cb =
  cb_ctx :: u64
  cb_func :: u64

definition cb_init :: "addr \<Rightarrow> u64 \<Rightarrow> u64 \<Rightarrow> lheap \<times> (addr \<rightharpoonup> cb) \<Rightarrow> (lheap \<times> (addr \<rightharpoonup> cb)) outcome" where
  "cb_init a f ctx st =
     abort_unless (a \<noteq> 0) (abort_unless (f \<noteq> 0)
       (obind (l_init a (fst st)) (\<lambda>h.
          case snd st a of None \<Rightarrow> Fault
          | Some c \<Rightarrow> Ok (h, (snd st)(a \<mapsto> c\<lparr>cb_ctx := ctx, cb_func := f\<rparr>)))))"

definition cb_call :: "(u64 \<Rightarrow> addr \<Rightarrow> lheap \<times> 's \<Rightarrow> (int \<times> lheap \<times> 's) run) \<Rightarrow> (addr \<rightharpoonup> cb) \<Rightarrow> addr
    \<Rightarrow> lheap \<times> 's \<Rightarrow> (int \<times> lheap \<times> 's) run" where
  "cb_call call cbs a st =
     (if a = 0 then Some Abort
      else case cbs a of None \<Rightarrow> Some Fault
           | Some c \<Rightarrow> if cb_func c = 0 then Some Abort else call (cb_func c) a st)"

definition cb_run :: "(u64 \<Rightarrow> addr \<Rightarrow> lheap \<times> 's \<Rightarrow> (int \<times> lheap \<times> 's) run) \<Rightarrow> (addr \<rightharpoonup> cb) \<Rightarrow> addr
    \<Rightarrow> lheap \<times> 's \<Rightarrow> (int \<times> lheap \<times> 's) run" where
  "cb_run call cbs l st =
     rbind (Some (abort_unless (l \<noteq> 0) (l_next (fst st) l))) (\<lambda>first.
     rbind (while_run (\<lambda>(node, r, st). Ok (r = 0 \<and> node \<noteq> l))
              (\<lambda>(node, r, st).
                 rbind (Some (l_next (fst st) node)) (\<lambda>nxt.
                   case cbs node of None \<Rightarrow> Some Fault
                   | Some c \<Rightarrow> rbind (call (cb_func c) node st) (\<lambda>(r, st). ret (nxt, r, st))))
              (first, 0, st))
       (\<lambda>(node, r, st). ret (r, st)))"

definition cb_reg :: "addr \<Rightarrow> addr \<Rightarrow> lheap \<Rightarrow> lheap outcome" where
  "cb_reg l a h = abort_unless (l \<noteq> 0) (abort_unless (a \<noteq> 0) (l_ins l a h))"

definition cb_unreg :: "addr \<Rightarrow> lheap \<Rightarrow> lheap outcome" where
  "cb_unreg a h = abort_unless (a \<noteq> 0) (l_rem a h)"

section \<open>The lists a heap holds\<close>

definition nx :: "lheap \<Rightarrow> addr \<Rightarrow> addr" where "nx h p = lnext (the (h p))"
definition pv :: "lheap \<Rightarrow> addr \<Rightarrow> addr" where "pv h p = lprev (the (h p))"

fun seg :: "lheap \<Rightarrow> addr \<Rightarrow> addr list \<Rightarrow> addr \<Rightarrow> bool" where
  "seg h p [] q \<longleftrightarrow> nx h p = q \<and> pv h q = p"
| "seg h p (x # xs) q \<longleftrightarrow> nx h p = x \<and> pv h x = p \<and> seg h x xs q"

definition node :: "lheap \<Rightarrow> addr \<Rightarrow> bool" where "node h p \<longleftrightarrow> p \<noteq> 0 \<and> h p \<noteq> None"

text \<open>\<open>l\<close> is the head of a well-formed list with the elements \<open>xs\<close>.\<close>

definition ring :: "lheap \<Rightarrow> addr \<Rightarrow> addr list \<Rightarrow> bool" where
  "ring h l xs \<longleftrightarrow> distinct (l # xs) \<and> (\<forall>p \<in> set (l # xs). node h p) \<and> seg h l xs l"

definition un :: "addr \<Rightarrow> addr \<Rightarrow> lheap \<Rightarrow> lheap" where "un p q h = h(p \<mapsto> (the (h p))\<lparr>lnext := q\<rparr>)"
definition up :: "addr \<Rightarrow> addr \<Rightarrow> lheap \<Rightarrow> lheap" where "up p q h = h(p \<mapsto> (the (h p))\<lparr>lprev := q\<rparr>)"

named_theorems heap_simps \<open>reading and writing nodes\<close>

lemma node_0 [simp]: "\<not> node h 0" by (simp add: node_def)

lemma heap_reads [heap_simps]:
  "node h p \<Longrightarrow> l_next h p = Ok (nx h p)" "node h p \<Longrightarrow> l_prev h p = Ok (pv h p)"
  "node h p \<Longrightarrow> set_next p q h = Ok (un p q h)" "node h p \<Longrightarrow> set_prev p q h = Ok (up p q h)"
  by (auto simp: node_def l_next_def l_prev_def set_next_def set_prev_def nx_def pv_def un_def up_def)

lemma heap_writes [heap_simps]:
  "nx (un p q h) r = (if r = p then q else nx h r)" "pv (un p q h) r = pv h r"
  "nx (up p q h) r = nx h r" "pv (up p q h) r = (if r = p then q else pv h r)"
  "node (un p q h) r \<longleftrightarrow> node h r \<or> r = p \<and> p \<noteq> 0" "node (up p q h) r \<longleftrightarrow> node h r \<or> r = p \<and> p \<noteq> 0"
  by (auto simp: nx_def pv_def un_def up_def node_def)

lemma heap_frame: "r \<noteq> p \<Longrightarrow> un p q h r = h r" "r \<noteq> p \<Longrightarrow> up p q h r = h r"
  by (simp_all add: un_def up_def)

lemma node_nz: "node h p \<Longrightarrow> p \<noteq> 0" "node h p \<Longrightarrow> 0 < p" by (auto simp: node_def)

lemma seg_append: "seg h p (xs @ y # ys) q \<longleftrightarrow> seg h p xs y \<and> seg h y ys q"
  by (induction xs arbitrary: p) auto

lemma seg_frame:
  "(\<And>r. r \<in> set (p # xs) \<Longrightarrow> nx h' r = nx h r) \<Longrightarrow> (\<And>r. r \<in> set (xs @ [q]) \<Longrightarrow> pv h' r = pv h r)
   \<Longrightarrow> seg h' p xs q = seg h p xs q"
  by (induction xs arbitrary: p) auto

lemma ring_frame: "(\<And>r. r \<in> set (l # xs) \<Longrightarrow> h' r = h r) \<Longrightarrow> ring h' l xs = ring h l xs"
  unfolding ring_def by (subst seg_frame [of l xs h' h l]) (auto simp: nx_def pv_def node_def)

lemma ring_rotate: "ring h l (as @ p # bs) \<longleftrightarrow> ring h p (bs @ l # as)"
  by (auto simp: ring_def seg_append)

lemma ring_Cons: "ring h l (x # xs) \<longleftrightarrow> distinct (l # x # xs) \<and> (\<forall>p \<in> set (l # x # xs). node h p)
   \<and> nx h l = x \<and> pv h x = l \<and> seg h x xs l"
  by (auto simp: ring_def)

lemma ring_Nil: "ring h l [] \<longleftrightarrow> node h l \<and> nx h l = l \<and> pv h l = l"
  by (auto simp: ring_def)

lemma ring_ends:
  assumes "ring h l xs"
  shows "nx h l = hd (xs @ [l])" "pv h l = last (l # xs)" "node h l"
proof -
  show "nx h l = hd (xs @ [l])" "node h l" using assms by (cases xs; simp add: ring_def)+
  show "pv h l = last (l # xs)"
    by (cases xs rule: rev_cases) (use assms in \<open>auto simp: ring_def seg_append\<close>)
qed

text \<open>Insertion after the head, and removal of the element that a rotation makes the head.\<close>

lemma l_ins_head:
  assumes "ring h l xs" "e \<notin> set (l # xs)" "node h e"
  shows "\<exists>h'. l_ins l e h = Ok h' \<and> ring h' l (e # xs) \<and> (\<forall>a. a \<notin> set (l # e # xs) \<longrightarrow> h' a = h a)"
proof (cases xs)
  case Nil
  then show ?thesis using assms
    by (auto simp: l_ins_def ring_Nil ring_Cons heap_simps heap_frame node_nz)
next
  case (Cons y ys)
  let ?h = "up y e (un l e (up e l (un e y h)))"
  have "seg ?h y ys l \<longleftrightarrow> seg h y ys l"
    by (rule seg_frame) (use assms Cons in \<open>auto simp: heap_simps ring_Cons\<close>)
  then show ?thesis using assms Cons
    by (auto simp: l_ins_def ring_Cons heap_simps heap_frame node_nz)
qed

lemma l_rem_head:
  assumes "ring h e (y # ys)"
  shows "\<exists>h'. l_rem e h = Ok h' \<and> ring h' e [] \<and> ring h' y ys \<and> (\<forall>a. a \<notin> set (e # y # ys) \<longrightarrow> h' a = h a)"
proof (cases ys rule: rev_cases)
  case Nil
  then show ?thesis using assms
    by (auto simp: l_rem_def ring_Nil ring_Cons heap_simps heap_frame node_nz)
next
  case (snoc zs z)
  let ?h = "up e e (un e e (up y z (un z y h)))"
  have "seg ?h y zs z \<longleftrightarrow> seg h y zs z"
    by (rule seg_frame) (use assms snoc in \<open>auto simp: heap_simps ring_Cons seg_append\<close>)
  then have s: "seg ?h y (zs @ [z]) y"
    using assms snoc by (auto simp: ring_Cons seg_append heap_simps)
  have "l_rem e h = Ok ?h" using assms snoc by (auto simp: l_rem_def ring_Cons seg_append heap_simps node_nz)
  moreover have "ring ?h e []" "ring ?h y ys" "\<forall>a. a \<notin> set (e # y # ys) \<longrightarrow> ?h a = h a"
    using assms snoc s by (auto simp: ring_Nil ring_def heap_simps heap_frame node_nz)
  ultimately show ?thesis by blast
qed

lemma l_move_ring:
  assumes "ring h src (x # xs)" "node h dst" "dst \<notin> set (src # x # xs)"
  shows "\<exists>h'. l_move dst src h = Ok h' \<and> ring h' dst (x # xs) \<and> ring h' src [] \<and> (\<forall>a. a \<notin> set (dst # src # x # xs) \<longrightarrow> h' a = h a)"
proof -
  define z where "z = last (x # xs)"
  have z: "pv h src = z" "nx h src = x" using ring_ends [OF assms(1)] by (auto simp: z_def)
  let ?h = "un src src (up src src (un z dst (up x dst (up dst z (un dst x h)))))"
  have n: "node h src" "node h x" "node h z" "z \<noteq> src" "x \<noteq> src" "dst \<noteq> src" "x \<noteq> dst" "z \<noteq> dst" "z \<in> set (x # xs)"
    using assms unfolding z_def by (auto simp: ring_def split: if_splits)
  have "l_move dst src h = Ok ?h" using n z assms(2) by (simp add: l_move_def heap_simps node_nz)
  moreover have "seg ?h dst (x # xs) dst"
  proof (cases xs rule: rev_cases)
    case Nil
    then show ?thesis using n by (simp add: heap_simps z_def)
  next
    case (snoc ys w)
    have w: "w = z" by (simp add: z_def snoc)
    have "seg ?h x ys z \<longleftrightarrow> seg h x ys z"
      by (rule seg_frame) (use assms n snoc w in \<open>auto simp: heap_simps ring_def\<close>)
    then show ?thesis using assms(1) n snoc w by (simp add: seg_append heap_simps ring_def)
  qed
  then have "ring ?h dst (x # xs)" "ring ?h src []"
    using n assms by (auto simp: ring_Nil ring_def heap_simps node_nz)
  moreover have "\<forall>a. a \<notin> set (dst # src # x # xs) \<longrightarrow> ?h a = h a"
    using n(9) by (metis heap_frame list.set_intros(1,2))
  ultimately show ?thesis by blast
qed

lemma l_ins_ring:
  assumes "ring h l xs" "l # xs = as @ p # bs" "e \<notin> set (l # xs)" "node h e"
  shows "\<exists>h'. l_ins p e h = Ok h' \<and> ring h' l (tl (as @ p # e # bs)) \<and> (\<forall>a. a \<notin> set (l # e # xs) \<longrightarrow> h' a = h a)"
proof (cases as)
  case Nil
  then show ?thesis using assms l_ins_head [of h l xs e] by simp
next
  case (Cons x as')
  then have xs: "x = l" "xs = as' @ p # bs" using assms(2) by auto
  have r: "ring h p (bs @ l # as')" using assms(1) by (simp add: xs(2) ring_rotate)
  have "e \<notin> set (p # bs @ l # as')" using assms(3) by (auto simp: xs)
  then obtain h' where h': "l_ins p e h = Ok h'" "ring h' p (e # bs @ l # as')"
      "\<forall>a. a \<notin> set (p # e # bs @ l # as') \<longrightarrow> h' a = h a"
    using l_ins_head [OF r _ assms(4)] by blast
  have "ring h' l (as' @ p # e # bs)" using h'(2) ring_rotate [of h' p "e # bs" l as'] by simp
  then show ?thesis using h' by (auto simp: Cons xs)
qed

lemma l_rem_ring:
  assumes "ring h l (as @ e # bs)"
  shows "\<exists>h'. l_rem e h = Ok h' \<and> ring h' e [] \<and> ring h' l (as @ bs) \<and> (\<forall>a. a \<notin> set (l # as @ e # bs) \<longrightarrow> h' a = h a)"
proof -
  have r: "ring h e (bs @ l # as)" using assms by (simp add: ring_rotate)
  show ?thesis
  proof (cases bs)
    case Nil
    with r l_rem_head [of h e l as] show ?thesis by auto
  next
    case (Cons y bs')
    with r l_rem_head [of h e y "bs' @ l # as"] obtain h' where
      h': "l_rem e h = Ok h'" "ring h' e []" "ring h' y (bs' @ l # as)" "\<forall>a. a \<notin> set (e # y # bs' @ l # as) \<longrightarrow> h' a = h a"
      by auto
    have "ring h' l (as @ y # bs')" using h'(3) by (simp add: ring_rotate)
    then show ?thesis using h' Cons by auto
  qed
qed

text \<open>
  The lists of a heap: from each head to its elements, no node in two places.
\<close>

definition nodes :: "(addr \<rightharpoonup> addr list) \<Rightarrow> addr set \<Rightarrow> addr set" where
  "nodes R D = {a. \<exists>l xs. l \<in> D \<and> R l = Some xs \<and> a \<in> set (l # xs)}"

definition rings :: "lheap \<Rightarrow> (addr \<rightharpoonup> addr list) \<Rightarrow> bool" where
  "rings h R \<longleftrightarrow> (\<forall>l xs. R l = Some xs \<longrightarrow> ring h l xs)
     \<and> (\<forall>l xs m ys. R l = Some xs \<longrightarrow> R m = Some ys \<longrightarrow> l \<noteq> m \<longrightarrow> set (l # xs) \<inter> set (m # ys) = {})"

lemma rings_ring: "rings h R \<Longrightarrow> R l = Some xs \<Longrightarrow> ring h l xs"
  by (simp add: rings_def)

lemma rings_disjoint: "rings h R \<Longrightarrow> R l = Some xs \<Longrightarrow> R m = Some ys \<Longrightarrow> l \<noteq> m \<Longrightarrow> set (l # xs) \<inter> set (m # ys) = {}"
  unfolding rings_def by blast

lemma rings_change:
  assumes r: "rings h R"
    and out: "\<And>a. a \<notin> N \<Longrightarrow> h' a = h a"
    and same: "\<And>l. l \<notin> D \<Longrightarrow> R' l = R l"
    and new: "\<And>l xs. l \<in> D \<Longrightarrow> R' l = Some xs \<Longrightarrow> ring h' l xs \<and> set (l # xs) \<subseteq> N"
    and dis: "\<And>l xs m ys. l \<in> D \<Longrightarrow> m \<in> D \<Longrightarrow> l \<noteq> m \<Longrightarrow> R' l = Some xs \<Longrightarrow> R' m = Some ys \<Longrightarrow> set (l # xs) \<inter> set (m # ys) = {}"
    and old: "\<And>l xs. l \<notin> D \<Longrightarrow> R l = Some xs \<Longrightarrow> set (l # xs) \<inter> N = {}"
  shows "rings h' R'"
  unfolding rings_def
proof (rule conjI; intro allI impI)
  fix l xs assume a: "R' l = Some xs"
  show "ring h' l xs"
  proof (cases "l \<in> D")
    case True then show ?thesis using new a by blast
  next
    case False
    then have "R l = Some xs" using same a by simp
    moreover have "\<And>r. r \<in> set (l # xs) \<Longrightarrow> h' r = h r" using out old [OF False calculation] by blast
    ultimately show ?thesis using rings_ring [OF r] ring_frame by blast
  qed
next
  fix l xs m ys assume a: "R' l = Some xs" "R' m = Some ys" "l \<noteq> m"
  have o: "R k = Some zs" if "k \<notin> D" "R' k = Some zs" for k zs using same that by simp
  show "set (l # xs) \<inter> set (m # ys) = {}"
  proof (cases "l \<in> D"; cases "m \<in> D")
    assume "l \<in> D" "m \<in> D" then show ?thesis using dis a by blast
  next
    assume "l \<in> D" "m \<notin> D" then show ?thesis using new [OF _ a(1)] old [OF _ o [OF _ a(2)]] by blast
  next
    assume "l \<notin> D" "m \<in> D" then show ?thesis using new [OF _ a(2)] old [OF _ o [OF _ a(1)]] by blast
  next
    assume "l \<notin> D" "m \<notin> D" then show ?thesis using rings_disjoint [OF r] o a by blast
  qed
qed

text \<open>A node that is on no list; initialising it makes it the head of an empty list.\<close>

definition unused :: "lheap \<Rightarrow> (addr \<rightharpoonup> addr list) \<Rightarrow> addr \<Rightarrow> bool" where
  "unused h R m \<longleftrightarrow> node h m \<and> (\<forall>l xs. R l = Some xs \<longrightarrow> m \<notin> set (l # xs))"

lemma unused_notin: "unused h R a \<Longrightarrow> R l = Some xs \<Longrightarrow> a \<notin> set (l # xs)"
  by (simp only: unused_def) blast

lemma unused_frame:
  "unused h R a \<Longrightarrow> h' a = h a \<Longrightarrow> (\<And>l xs. R' l = Some xs \<Longrightarrow> R' l = R l \<or> a \<notin> set (l # xs)) \<Longrightarrow> unused h' R' a"
  unfolding unused_def node_def by metis

lemma rings_ins:
  assumes r: "rings h R" and l: "R l = Some xs" "l # xs = as @ p # bs" and e: "R e = Some []" "l \<noteq> e"
  shows "\<exists>h'. l_ins p e h = Ok h' \<and> rings h' (R(e := None, l \<mapsto> tl (as @ p # e # bs)))
    \<and> (\<forall>a. unused h R a \<longrightarrow> unused h' (R(e := None, l \<mapsto> tl (as @ p # e # bs))) a)"
proof -
  have "e \<notin> set (l # xs)" using rings_disjoint [OF r l(1) e] by auto
  moreover have "node h e" using rings_ring [OF r e(1)] by (simp add: ring_Nil)
  ultimately obtain h' where h': "l_ins p e h = Ok h'" "ring h' l (tl (as @ p # e # bs))"
      "\<forall>a. a \<notin> set (l # e # xs) \<longrightarrow> h' a = h a"
    using l_ins_ring [OF rings_ring [OF r l(1)] l(2)] by blast
  have s: "set (l # tl (as @ p # e # bs)) = set (l # e # xs)" using l(2) by (cases as) auto
  have "rings h' (R(e := None, l \<mapsto> tl (as @ p # e # bs)))"
  proof (rule rings_change [OF r, where N = "set (l # e # xs)" and D = "{l, e}"])
    fix k ys assume k: "k \<notin> {l, e}" "R k = Some ys"
    show "set (k # ys) \<inter> set (l # e # xs) = {}"
      using rings_disjoint [OF r k(2) l(1)] rings_disjoint [OF r k(2) e(1)] k(1) by auto
  next
    fix k ys assume "k \<in> {l, e}" "(R(e := None, l \<mapsto> tl (as @ p # e # bs))) k = Some ys"
    then have "k = l" "ys = tl (as @ p # e # bs)" using e by (auto split: if_splits)
    then show "ring h' k ys \<and> set (k # ys) \<subseteq> set (l # e # xs)" using h'(2) s by simp
  qed (use h'(3) e(2) in \<open>auto split: if_splits\<close>)
  moreover have "unused h' (R(e := None, l \<mapsto> tl (as @ p # e # bs))) a" if a: "unused h R a" for a
  proof (rule unused_frame [OF a])
    have n: "a \<notin> set (l # e # xs)" using a l(1) e(1) by (auto simp: unused_def)
    then show "h' a = h a" using h'(3) by blast
    show "(R(e := None, l \<mapsto> tl (as @ p # e # bs))) k = R k \<or> a \<notin> set (k # ys)"
      if "(R(e := None, l \<mapsto> tl (as @ p # e # bs))) k = Some ys" for k ys
      using that n s by (auto split: if_splits)
  qed
  ultimately show ?thesis using h'(1) by blast
qed

lemma rings_rem:
  assumes r: "rings h R" and l: "R l = Some (as @ e # bs)"
  shows "\<exists>h'. l_rem e h = Ok h' \<and> rings h' (R(l \<mapsto> as @ bs, e \<mapsto> []))
    \<and> (\<forall>a. unused h R a \<longrightarrow> unused h' (R(l \<mapsto> as @ bs, e \<mapsto> [])) a)"
proof -
  have rl: "ring h l (as @ e # bs)" by (rule rings_ring [OF r l])
  then have ne: "e \<noteq> l" "e \<notin> set as" "e \<notin> set bs" by (auto simp: ring_def)
  obtain h' where h': "l_rem e h = Ok h'" "ring h' e []" "ring h' l (as @ bs)" "\<forall>a. a \<notin> set (l # as @ e # bs) \<longrightarrow> h' a = h a"
    using l_rem_ring [OF rl] by blast
  have "rings h' (R(l \<mapsto> as @ bs, e \<mapsto> []))"
  proof (rule rings_change [OF r, where N = "set (l # as @ e # bs)" and D = "{l, e}"])
    fix k ys assume k: "k \<notin> {l, e}" "R k = Some ys"
    show "set (k # ys) \<inter> set (l # as @ e # bs) = {}"
      using rings_disjoint [OF r k(2) l] k(1) by auto
  next
    fix k ys assume "k \<in> {l, e}" "(R(l \<mapsto> as @ bs, e \<mapsto> [])) k = Some ys"
    then show "ring h' k ys \<and> set (k # ys) \<subseteq> set (l # as @ e # bs)" using h'(2,3) ne by (auto split: if_splits)
  next
    fix k ys m zs assume "k \<in> {l, e}" "m \<in> {l, e}" "k \<noteq> m" "(R(l \<mapsto> as @ bs, e \<mapsto> [])) k = Some ys"
      "(R(l \<mapsto> as @ bs, e \<mapsto> [])) m = Some zs"
    then show "set (k # ys) \<inter> set (m # zs) = {}" using ne by (auto split: if_splits)
  qed (use h'(4) in auto)
  moreover have "unused h' (R(l \<mapsto> as @ bs, e \<mapsto> [])) a" if a: "unused h R a" for a
  proof (rule unused_frame [OF a])
    have n: "a \<notin> set (l # as @ e # bs)" by (rule unused_notin [OF a l])
    then show "h' a = h a" using h'(4) by blast
    show "(R(l \<mapsto> as @ bs, e \<mapsto> [])) k = R k \<or> a \<notin> set (k # ys)" if "(R(l \<mapsto> as @ bs, e \<mapsto> [])) k = Some ys" for k ys
      using that n by (auto split: if_splits)
  qed
  ultimately show ?thesis using h'(1) by blast
qed

lemma rings_move:
  assumes r: "rings h R" and src: "R src = Some (x # xs)" and dst: "R dst = Some []"
  shows "\<exists>h'. l_move dst src h = Ok h' \<and> rings h' (R(dst \<mapsto> x # xs, src \<mapsto> []))
    \<and> (\<forall>a. unused h R a \<longrightarrow> unused h' (R(dst \<mapsto> x # xs, src \<mapsto> [])) a)"
proof -
  have ne: "dst \<noteq> src" using src dst by auto
  have d: "dst \<notin> set (src # x # xs)" using rings_disjoint [OF r src dst] ne by auto
  have "node h dst" using rings_ring [OF r dst] by (simp add: ring_Nil)
  then obtain h' where h': "l_move dst src h = Ok h'" "ring h' dst (x # xs)" "ring h' src []"
      "\<forall>a. a \<notin> set (dst # src # x # xs) \<longrightarrow> h' a = h a"
    using l_move_ring [OF rings_ring [OF r src] _ d] by blast
  have s: "src \<notin> set (x # xs)" using rings_ring [OF r src] by (simp add: ring_def)
  have "rings h' (R(dst \<mapsto> x # xs, src \<mapsto> []))"
  proof (rule rings_change [OF r, where N = "set (dst # src # x # xs)" and D = "{dst, src}"])
    fix k ys assume k: "k \<notin> {dst, src}" "R k = Some ys"
    show "set (k # ys) \<inter> set (dst # src # x # xs) = {}"
      using rings_disjoint [OF r k(2) src] rings_disjoint [OF r k(2) dst] k(1) by auto
  next
    fix k ys assume "k \<in> {dst, src}" "(R(dst \<mapsto> x # xs, src \<mapsto> [])) k = Some ys"
    then show "ring h' k ys \<and> set (k # ys) \<subseteq> set (dst # src # x # xs)" using h'(2,3) by (auto split: if_splits)
  next
    fix k ys m zs assume "k \<in> {dst, src}" "m \<in> {dst, src}" "k \<noteq> m" "(R(dst \<mapsto> x # xs, src \<mapsto> [])) k = Some ys"
      "(R(dst \<mapsto> x # xs, src \<mapsto> [])) m = Some zs"
    then show "set (k # ys) \<inter> set (m # zs) = {}" using d s ne by (auto split: if_splits)
  qed (use h'(4) in auto)
  moreover have "unused h' (R(dst \<mapsto> x # xs, src \<mapsto> [])) a" if a: "unused h R a" for a
  proof (rule unused_frame [OF a])
    have n: "a \<notin> set (dst # src # x # xs)" using unused_notin [OF a src] unused_notin [OF a dst] by auto
    then show "h' a = h a" using h'(4) by blast
    show "(R(dst \<mapsto> x # xs, src \<mapsto> [])) k = R k \<or> a \<notin> set (k # ys)" if "(R(dst \<mapsto> x # xs, src \<mapsto> [])) k = Some ys" for k ys
      using that n by (auto split: if_splits)
  qed
  ultimately show ?thesis using h'(1) by blast
qed

lemma rings_init:
  assumes r: "rings h R" and m: "unused h R m"
  shows "\<exists>h'. l_init m h = Ok h' \<and> rings h' (R(m \<mapsto> [])) \<and> (\<forall>a. a \<noteq> m \<longrightarrow> h' a = h a)"
proof -
  let ?h = "un m m (up m m h)"
  have n: "node h m" using m by (simp add: unused_def)
  then have "l_init m h = Ok ?h" by (simp add: l_init_def heap_simps node_nz)
  moreover have "rings ?h (R(m \<mapsto> []))"
  proof (rule rings_change [OF r, where N = "{m}" and D = "{m}"])
    fix k ys assume "k \<notin> {m}" "R k = Some ys"
    then show "set (k # ys) \<inter> {m} = {}" using m by (auto simp: unused_def)
  qed (use n in \<open>auto simp: ring_Nil heap_simps heap_frame node_nz\<close>)
  ultimately show ?thesis by (auto simp: heap_frame)
qed

lemma rings_less: "rings h R \<Longrightarrow> rings h (R(l := None))"
  unfolding rings_def by (auto split: if_splits)

lemma rings_unused:
  assumes "rings h R" "R m = Some []" shows "unused h (R(m := None)) m"
  using rings_ring [OF assms] rings_disjoint [OF assms(1) _ assms(2)] by (auto simp: unused_def ring_Nil split: if_splits)

lemma rings_isempty: "rings h R \<Longrightarrow> R l = Some xs \<Longrightarrow> l_isempty l h = Ok (xs = [])"
proof -
  assume a: "rings h R" "R l = Some xs"
  then have r: "ring h l xs" by (rule rings_ring)
  then show ?thesis using ring_ends [OF r] by (cases xs) (auto simp: l_isempty_def heap_simps node_nz ring_def)
qed

lemma rings_next: "rings h R \<Longrightarrow> R l = Some xs \<Longrightarrow> l_next h l = Ok (hd (xs @ [l]))"
  using ring_ends [OF rings_ring] by (simp add: heap_simps)

lemma rings_prev: "rings h R \<Longrightarrow> R l = Some xs \<Longrightarrow> l_prev h l = Ok (last (l # xs))"
  using ring_ends(2,3) [OF rings_ring] by (simp only: heap_simps)

lemma rings_submap:
  assumes "rings h R" "R' \<subseteq>\<^sub>m R" shows "rings h R'"
proof -
  have *: "R l = Some xs" if "R' l = Some xs" for l xs using assms(2) that unfolding map_le_def by (metis domI)
  show ?thesis using assms(1) * unfolding rings_def by blast
qed

lemma node_fresh: "unused h R m \<Longrightarrow> R m = None"
  by (cases "R m") (auto simp: unused_def)

section \<open>Merging and sorting\<close>

fun merge_lists :: "('a \<Rightarrow> 'a \<Rightarrow> int) \<Rightarrow> 'a list \<Rightarrow> 'a list \<Rightarrow> 'a list" where
  "merge_lists cmp (x # xs) (y # ys) =
     (if cmp x y < 0 then x # merge_lists cmp xs (y # ys) else y # merge_lists cmp (x # xs) ys)"
| "merge_lists cmp [] ys = ys"
| "merge_lists cmp xs [] = xs"

lemma mset_merge_lists [simp]: "mset (merge_lists cmp xs ys) = mset xs + mset ys"
  by (induction cmp xs ys rule: merge_lists.induct) auto

lemma set_merge_lists: "set (merge_lists cmp xs ys) = set xs \<union> set ys"
  by (metis mset_merge_lists set_mset_mset set_mset_union)

lemma merge_lists_Nil2 [simp]: "merge_lists cmp xs [] = xs"
  by (cases xs) auto

context cmp_order
begin

lemma sorted_merge:
  "sorted_wrt le xs \<Longrightarrow> sorted_wrt le ys \<Longrightarrow> sorted_wrt le (merge_lists cmp xs ys)"
proof (induction xs arbitrary: ys)
  case (Cons x xs)
  note rest = Cons.IH and xxs = Cons.prems(1)
  from \<open>sorted_wrt le ys\<close> show ?case
  proof (induction ys)
    case Nil
    then show ?case using xxs by simp
  next
    case (Cons y ys)
    show ?case
    proof (cases "cmp x y < 0")
      case True
      then have "le x y" by (simp add: cmp_sign not_le)
      then have "\<forall>z \<in> set (y # ys). le x z" using Cons.prems le_trans by auto
      moreover have "sorted_wrt le (merge_lists cmp xs (y # ys))" using rest [OF _ Cons.prems] xxs by simp
      ultimately show ?thesis using xxs True by (auto simp: set_merge_lists)
    next
      case False
      then have "le y x" by (simp add: cmp_sign)
      then have "\<forall>z \<in> set (x # xs). le y z" using xxs le_trans by auto
      then show ?thesis using Cons False by (auto simp: set_merge_lists)
    qed
  qed
qed auto

end

lemma to_tail_ok:
  assumes r: "rings h R" and l: "R l = Some (t # xs)" and m: "R m = Some zs" "l \<noteq> m"
  shows "\<exists>h'. to_tail m t h = Ok h' \<and> rings h' (R(l \<mapsto> xs, m \<mapsto> zs @ [t]))"
proof -
  have t: "t \<noteq> l" using rings_ring [OF r l] by (auto simp: ring_def)
  have tm: "t \<noteq> m" using rings_disjoint [OF r l m] by auto
  have tn: "R t = None" using rings_disjoint [OF r l, of t] t by (cases "R t") auto
  obtain h1 where h1: "l_rem t h = Ok h1" "rings h1 (R(l \<mapsto> xs, t \<mapsto> []))"
    using rings_rem [OF r, of l "[]" t xs] l by auto
  have p: "l_prev h1 m = Ok (last (m # zs))" by (rule rings_prev [OF h1(2)]) (use m t tm in simp)
  have "m # zs = butlast (m # zs) @ last (m # zs) # []" by (metis append_butlast_last_id list.discI)
  from rings_ins [OF h1(2) _ this, of t] m t tm obtain h2 where
    h2: "l_ins (last (m # zs)) t h1 = Ok h2"
      "rings h2 ((R(l \<mapsto> xs, t \<mapsto> []))(t := None, m \<mapsto> tl (butlast (m # zs) @ last (m # zs) # t # [])))" by auto
  have "tl (butlast (m # zs) @ last (m # zs) # t # []) = zs @ [t]"
    by (cases zs rule: rev_cases) (auto simp: butlast_append)
  moreover have "(R(l \<mapsto> xs, t \<mapsto> []))(t := None, m \<mapsto> zs @ [t]) = R(l \<mapsto> xs, m \<mapsto> zs @ [t])"
    using tn t by (auto simp: fun_eq_iff)
  ultimately show ?thesis using h1(1) p h2 by (auto simp: to_tail_def)
qed

lemma rings_test:
  assumes "rings h R" "R l1 = Some xs" "R l2 = Some ys"
  shows "nonempty l1 h = Ok (xs \<noteq> [])" "both_nonempty l1 l2 h = Ok (xs \<noteq> [] \<and> ys \<noteq> [])"
  using rings_isempty [OF assms(1,2)] rings_isempty [OF assms(1,3)] by (auto simp: nonempty_def both_nonempty_def)

lemma drain_loop:
  assumes r: "rings h R" and l: "R l = Some xs" and m: "R m = Some zs" "l \<noteq> m"
  shows "\<exists>h'. while_run (nonempty l) (\<lambda>h. Some (drain_step m l h)) h = ret h' \<and> rings h' (R(l \<mapsto> [], m \<mapsto> zs @ xs))"
proof -
  let ?I = "\<lambda>n h. \<exists>us ys. rings h (R(l \<mapsto> ys, m \<mapsto> us)) \<and> us @ ys = zs @ xs \<and> n = length ys"
  have "\<exists>h' n'. while_run (nonempty l) (\<lambda>h. Some (drain_step m l h)) h = ret h' \<and> ?I n' h' \<and> nonempty l h' = Ok False"
  proof (rule while_run_ghost)
    have "R(l \<mapsto> xs, m \<mapsto> zs) = R" using l m by (auto simp: fun_eq_iff)
    then show "?I (length xs) h" using r by force
  next
    fix n h assume "?I n h"
    then show "nonempty l h = Ok True \<or> nonempty l h = Ok False" using rings_test(1) [of h _ l] m(2) by fastforce
  next
    fix n h assume I: "?I n h" and b: "nonempty l h = Ok True"
    then obtain us ys where us: "rings h (R(l \<mapsto> ys, m \<mapsto> us))" "us @ ys = zs @ xs" "n = length ys" by blast
    have "nonempty l h = Ok (ys \<noteq> [])" by (rule rings_test(1) [OF us(1)]) (use m in auto)
    then obtain t ts where ts: "ys = t # ts" using b by (cases ys) auto
    have "l_next h l = Ok t" using rings_next [OF us(1), of l ys] m(2) ts by simp
    moreover obtain h' where h': "to_tail m t h = Ok h'" "rings h' (R(l \<mapsto> ts, m \<mapsto> us @ [t]))"
      using to_tail_ok [OF us(1), of l t ts m us] m(2) ts by (auto simp: fun_upd_twist)
    ultimately have "Some (drain_step m l h) = ret h'" by (simp add: drain_step_def)
    moreover have "?I (length ts) h'" using h'(2) us(2) ts by force
    ultimately show "\<exists>h' n'. Some (drain_step m l h) = ret h' \<and> ?I n' h' \<and> n' < n"
      using us(3) ts by auto
  qed
  then obtain h' us ys where h': "while_run (nonempty l) (\<lambda>h. Some (drain_step m l h)) h = ret h'"
    "rings h' (R(l \<mapsto> ys, m \<mapsto> us))" "us @ ys = zs @ xs" "nonempty l h' = Ok False" by blast
  have "nonempty l h' = Ok (ys \<noteq> [])" by (rule rings_test(1) [OF h'(2)]) (use m in auto)
  then show ?thesis using h' by auto
qed

lemma merge_loop:
  assumes r: "rings h R" and l1: "R l1 = Some xs" and l2: "R l2 = Some ys" and m: "R m = Some []"
    and ne: "l1 \<noteq> l2" "l1 \<noteq> m" "l2 \<noteq> m"
  shows "\<exists>h' us as bs. while_run (both_nonempty l1 l2) (\<lambda>h. Some (merge_step cmp m l1 l2 h)) h = ret h'
    \<and> rings h' (R(l1 \<mapsto> as, l2 \<mapsto> bs, m \<mapsto> us)) \<and> us @ as @ bs = merge_lists cmp xs ys \<and> (as = [] \<or> bs = [])"
proof -
  let ?R = "\<lambda>us as bs. R(l1 \<mapsto> as, l2 \<mapsto> bs, m \<mapsto> us)"
  let ?I = "\<lambda>n h. \<exists>us as bs. rings h (?R us as bs) \<and> us @ merge_lists cmp as bs = merge_lists cmp xs ys \<and> n = length as + length bs"
  have "\<exists>h' n'. while_run (both_nonempty l1 l2) (\<lambda>h. Some (merge_step cmp m l1 l2 h)) h = ret h' \<and> ?I n' h' \<and> both_nonempty l1 l2 h' = Ok False"
  proof (rule while_run_ghost)
    have "?R [] xs ys = R" using l1 l2 m by (auto simp: fun_eq_iff)
    then show "?I (length xs + length ys) h" using r by force
  next
    fix n h assume "?I n h"
    then show "both_nonempty l1 l2 h = Ok True \<or> both_nonempty l1 l2 h = Ok False" using rings_test(2) [of h _ l1 _ l2] ne by fastforce
  next
    fix n h assume I: "?I n h" and b: "both_nonempty l1 l2 h = Ok True"
    then obtain us as bs where us: "rings h (?R us as bs)" "us @ merge_lists cmp as bs = merge_lists cmp xs ys" "n = length as + length bs" by blast
    have "both_nonempty l1 l2 h = Ok (as \<noteq> [] \<and> bs \<noteq> [])" by (rule rings_test(2) [OF us(1)]) (use ne in auto)
    then obtain x as' y bs' where t: "as = x # as'" "bs = y # bs'" using b by (cases as; cases bs) auto
    have hd: "l_next h l1 = Ok x" "l_next h l2 = Ok y"
      using rings_next [OF us(1), of l1 as] rings_next [OF us(1), of l2 bs] ne t by auto
    show "\<exists>h' n'. Some (merge_step cmp m l1 l2 h) = ret h' \<and> ?I n' h' \<and> n' < n"
    proof (cases "cmp x y < 0")
      case True
      obtain h' where h': "to_tail m x h = Ok h'" "rings h' (?R (us @ [x]) as' bs)"
        using to_tail_ok [OF us(1), of l1 x as' m us] ne t by (auto simp: fun_upd_twist)
      have "Some (merge_step cmp m l1 l2 h) = ret h'" using hd True h'(1) by (simp add: merge_step_def)
      moreover have "?I (length as' + length bs) h'" using h'(2) us(2) t True by force
      ultimately show ?thesis using us(3) t by auto
    next
      case False
      obtain h' where h': "to_tail m y h = Ok h'" "rings h' (?R (us @ [y]) as bs')"
        using to_tail_ok [OF us(1), of l2 y bs' m us] ne t by (auto simp: fun_upd_twist)
      have "Some (merge_step cmp m l1 l2 h) = ret h'" using hd False h'(1) by (simp add: merge_step_def)
      moreover have "?I (length as + length bs') h'" using h'(2) us(2) t False by force
      ultimately show ?thesis using us(3) t by auto
    qed
  qed
  then obtain h' us as bs where h': "while_run (both_nonempty l1 l2) (\<lambda>h. Some (merge_step cmp m l1 l2 h)) h = ret h'"
    "rings h' (?R us as bs)" "us @ merge_lists cmp as bs = merge_lists cmp xs ys" "both_nonempty l1 l2 h' = Ok False" by blast
  have "both_nonempty l1 l2 h' = Ok (as \<noteq> [] \<and> bs \<noteq> [])" by (rule rings_test(2) [OF h'(2)]) (use ne in auto)
  then have "as = [] \<or> bs = []" using h'(4) by simp
  moreover from this have "us @ as @ bs = merge_lists cmp xs ys" using h'(3) by auto
  ultimately show ?thesis using h'(1,2) by blast
qed

lemma l_merge_ok:
  assumes r: "rings h R" and l1: "R l1 = Some xs" and l2: "R l2 = Some ys" and ne: "l1 \<noteq> l2" "xs \<noteq> [] \<or> ys \<noteq> []"
    and m: "unused h R m" "R m = None"
  shows "\<exists>h'. l_merge cmp m l1 l2 h = ret h' \<and> rings h' (R(l1 \<mapsto> merge_lists cmp xs ys, l2 \<mapsto> []))
    \<and> unused h' (R(l1 \<mapsto> merge_lists cmp xs ys, l2 \<mapsto> [])) m"
proof -
  have mne: "l1 \<noteq> m" "l2 \<noteq> m" using m l1 l2 by auto
  obtain h1 where h1: "l_init m h = Ok h1" "rings h1 (R(m \<mapsto> []))" using rings_init [OF r m(1)] by blast
  obtain h2 us as bs where h2: "while_run (both_nonempty l1 l2) (\<lambda>h. Some (merge_step cmp m l1 l2 h)) h1 = ret h2"
    "rings h2 (R(m \<mapsto> [], l1 \<mapsto> as, l2 \<mapsto> bs, m \<mapsto> us))" "us @ as @ bs = merge_lists cmp xs ys" "as = [] \<or> bs = []"
    using merge_loop [OF h1(2), of l1 xs l2 ys m cmp] l1 l2 ne mne by auto
  let ?rest = "if as = [] then l2 else l1"
  have e: "l_isempty l1 h2 = Ok (as = [])" by (rule rings_isempty [OF h2(2)]) (use ne mne in auto)
  have "(R(m \<mapsto> [], l1 \<mapsto> as, l2 \<mapsto> bs, m \<mapsto> us)) ?rest = Some (as @ bs)" "?rest \<noteq> m"
    using ne mne h2(4) by auto
  then obtain h3 where h3: "while_run (nonempty ?rest) (\<lambda>h. Some (drain_step m ?rest h)) h2 = ret h3"
    "rings h3 ((R(m \<mapsto> [], l1 \<mapsto> as, l2 \<mapsto> bs, m \<mapsto> us))(?rest \<mapsto> [], m \<mapsto> us @ as @ bs))"
    using drain_loop [OF h2(2), of ?rest "as @ bs" m us] by auto
  have "(R(m \<mapsto> [], l1 \<mapsto> as, l2 \<mapsto> bs, m \<mapsto> us))(?rest \<mapsto> [], m \<mapsto> us @ as @ bs)
      = R(l1 \<mapsto> [], l2 \<mapsto> [], m \<mapsto> merge_lists cmp xs ys)"
    using h2(3,4) ne mne by (auto simp: fun_eq_iff)
  then have h3': "rings h3 (R(l1 \<mapsto> [], l2 \<mapsto> [], m \<mapsto> merge_lists cmp xs ys))" using h3(2) by simp
  have "mset (merge_lists cmp xs ys) \<noteq> {#}" using ne(2) by simp
  then obtain z zs where z: "merge_lists cmp xs ys = z # zs" by (cases "merge_lists cmp xs ys") auto
  let ?R = "R(l1 \<mapsto> merge_lists cmp xs ys, l2 \<mapsto> [])"
  obtain h4 where h4: "l_move l1 m h3 = Ok h4" "rings h4 ((R(l1 \<mapsto> [], l2 \<mapsto> [], m \<mapsto> z # zs))(l1 \<mapsto> z # zs, m \<mapsto> []))"
    using rings_move [OF h3' [unfolded z], of m z zs l1] ne mne by auto
  have "((R(l1 \<mapsto> [], l2 \<mapsto> [], m \<mapsto> z # zs))(l1 \<mapsto> z # zs, m \<mapsto> []))(m := None) = ?R"
    using ne mne m(2) z by (auto simp: fun_eq_iff)
  then have "rings h4 ?R" "unused h4 ?R m"
    using rings_less [OF h4(2), of m] rings_unused [OF h4(2), of m] by simp_all
  moreover have "l_merge cmp m l1 l2 h = ret h4"
    using h1(1) h2(1) e h3(1) h4(1) by (simp add: l_merge_def Let_def)
  ultimately show ?thesis by blast
qed

text \<open>What holds between the steps of \<open>l_sort\<close>: the unsorted rest \<open>L\<close>, and 48 sorted lists.\<close>

definition slots :: "(nat \<Rightarrow> addr) \<Rightarrow> (addr \<rightharpoonup> addr list) \<Rightarrow> addr multiset" where
  "slots arr R = (\<Sum>i<48. mset (the (R (arr i))))"

definition sorting :: "(addr \<Rightarrow> addr \<Rightarrow> int) \<Rightarrow> (nat \<Rightarrow> addr) \<Rightarrow> addr \<Rightarrow> addr \<Rightarrow> (addr \<rightharpoonup> addr list) \<Rightarrow> lheap
    \<Rightarrow> (addr \<rightharpoonup> addr list) \<Rightarrow> addr list \<Rightarrow> bool" where
  "sorting cmp arr m l R0 h R L \<longleftrightarrow> rings h R \<and> unused h R m \<and> R l = Some L
     \<and> (\<forall>a. a \<noteq> l \<longrightarrow> a \<notin> arr ` {..<48} \<longrightarrow> R a = R0 a)
     \<and> (\<forall>i<48. \<exists>ys. R (arr i) = Some ys \<and> sorted_wrt (\<lambda>x y. cmp x y \<le> 0) ys)"

definition locals_ok :: "(nat \<Rightarrow> addr) \<Rightarrow> addr \<Rightarrow> bool" where
  "locals_ok arr l \<longleftrightarrow> inj_on arr {..<48} \<and> l \<notin> arr ` {..<48}"

lemma locals_neq: "locals_ok arr l \<Longrightarrow> i < 48 \<Longrightarrow> j < 48 \<Longrightarrow> arr i = arr j \<longleftrightarrow> i = j"
  "locals_ok arr l \<Longrightarrow> i < 48 \<Longrightarrow> arr i \<noteq> l"
  by (auto simp: locals_ok_def inj_on_def)

lemma slots_update:
  assumes "locals_ok arr l" "i < 48"
  shows "slots arr (R(arr i \<mapsto> zs)) + mset (the (R (arr i))) = slots arr R + mset zs"
proof -
  have "(\<Sum>k\<in>{..<48}-{i}. mset (the ((R(arr i \<mapsto> zs)) (arr k)))) = (\<Sum>k\<in>{..<48}-{i}. mset (the (R (arr k))))"
    by (rule sum.cong) (use locals_neq [OF assms(1)] assms(2) in auto)
  then show ?thesis
    using assms(2) sum.remove [of "{..<48}" i "\<lambda>k. mset (the (R (arr k)))"]
      sum.remove [of "{..<48}" i "\<lambda>k. mset (the ((R(arr i \<mapsto> zs)) (arr k)))"]
    by (simp add: slots_def)
qed

lemma slots_move:
  assumes "locals_ok arr l" "i < 48" "j < 48" "i \<noteq> j" "R (arr i) = Some as" "R (arr j) = Some bs" "mset zs = mset as + mset bs"
  shows "slots arr (R(arr i \<mapsto> zs, arr j \<mapsto> [])) = slots arr R"
  using slots_update [OF assms(1,2), of R zs] slots_update [OF assms(1,3), of "R(arr i \<mapsto> zs)" "[]"]
    locals_neq [OF assms(1)] assms(2-) by simp

lemma slots_other: "l \<notin> arr ` {..<48} \<Longrightarrow> slots arr (R(l \<mapsto> xs)) = slots arr R" "l \<notin> arr ` {..<48} \<Longrightarrow> slots arr (R(l := None)) = slots arr R"
  by (auto simp: slots_def intro!: sum.cong)

lemma sorting_slot:
  assumes "sorting cmp arr m l R0 h R L" "locals_ok arr l" "i < 48" "sorted_wrt (\<lambda>x y. cmp x y \<le> 0) zs"
    "j < 48" "rings h' (R(arr i \<mapsto> zs, arr j \<mapsto> []))" "unused h' (R(arr i \<mapsto> zs, arr j \<mapsto> [])) m"
  shows "sorting cmp arr m l R0 h' (R(arr i \<mapsto> zs, arr j \<mapsto> [])) L"
  using assms locals_neq [OF assms(2)] unfolding sorting_def by auto

lemma sorting_at: "sorting cmp arr m l R0 h R L \<Longrightarrow> i < 48 \<Longrightarrow> \<exists>ys. R (arr i) = Some ys \<and> sorted_wrt (\<lambda>x y. cmp x y \<le> 0) ys"
  by (simp add: sorting_def)

lemma sort_init:
  assumes r: "rings h R" and a: "inj_on arr {..<48}" "\<forall>i<48. unused h R (arr i)" and m: "unused h R m" "m \<notin> arr ` {..<48}"
    and l: "R l = Some xs"
  shows "\<exists>h' R'. for_run [0..<48] (\<lambda>i h. Some (l_init (arr i) h)) h = ret h' \<and> sorting cmp arr m l R h' R' xs
    \<and> (\<forall>i<48. R' (arr i) = Some [])"
proof -
  define Q where "Q i = (\<lambda>a. if a \<in> arr ` {..<i} then Some [] else R a)" for i :: nat
  have step: "Q (Suc i) = (Q i)(arr i \<mapsto> [])" for i
    unfolding Q_def lessThan_Suc by (auto simp: fun_eq_iff)
  let ?I = "\<lambda>i h. rings h (Q i) \<and> unused h (Q i) m \<and> (\<forall>j. i \<le> j \<longrightarrow> j < 48 \<longrightarrow> unused h (Q i) (arr j))"
  have "\<exists>h'. for_run [0..<48] (\<lambda>i h. Some (l_init (arr i) h)) h = ret h' \<and> ?I 48 h'"
  proof (rule for_run_upt [where I = ?I])
    have "Q 0 = R" by (simp add: Q_def)
    then show "?I 0 h" using r a m by simp
  next
    fix i :: nat and h assume "0 \<le> i" and i: "i < 48" and I: "?I i h"
    then obtain h' where h': "l_init (arr i) h = Ok h'" "rings h' (Q (Suc i))" "\<forall>a. a \<noteq> arr i \<longrightarrow> h' a = h a"
      using rings_init [of h "Q i" "arr i"] unfolding step by blast
    have u: "unused h' (Q (Suc i)) a" if "unused h (Q i) a" "a \<noteq> arr i" for a
    proof (rule unused_frame [OF that(1)])
      show "h' a = h a" using h'(3) that(2) by simp
      show "Q (Suc i) k = Q i k \<or> a \<notin> set (k # ys)" if "Q (Suc i) k = Some ys" for k ys
        using that \<open>a \<noteq> arr i\<close> by (cases "k = arr i") (auto simp: step)
    qed
    have "unused h' (Q (Suc i)) m" using u I m(2) i by auto
    moreover have "unused h' (Q (Suc i)) (arr j)" if "Suc i \<le> j" "j < 48" for j
      using u [of "arr j"] I that i inj_onD [OF a(1), of j i] by force
    ultimately show "\<exists>h'. Some (l_init (arr i) h) = ret h' \<and> ?I (Suc i) h'" using h'(1,2) by blast
  qed simp
  then obtain h' where h': "for_run [0..<48] (\<lambda>i h. Some (l_init (arr i) h)) h = ret h'" "?I 48 h'" by blast
  have "l \<notin> arr ` {..<48}" using a(2) l unused_notin by fastforce
  then have "sorting cmp arr m l R h' (Q 48) xs" using h'(2) l by (auto simp: sorting_def Q_def)
  moreover have "\<forall>i<48. Q 48 (arr i) = Some []" by (auto simp: Q_def)
  ultimately show ?thesis using h'(1) by blast
qed

lemma sort_carry_ok:
  assumes c: "cmp_order cmp" and lo: "locals_ok arr l"
    and s: "sorting cmp arr m l R0 h R L" and w: "length (the (R (arr 0))) \<le> 1 \<or> \<not> w" "w \<or> R (arr 0) \<noteq> Some []"
  shows "\<exists>w' h' R'. for_run [1..<48] (sort_carry cmp m arr) (w, h) = ret (w', h') \<and> sorting cmp arr m l R0 h' R' L
    \<and> slots arr R' = slots arr R \<and> length (the (R' (arr 0))) \<le> 1"
proof -
  let ?I = "\<lambda>i st. \<exists>R'. sorting cmp arr m l R0 (snd st) R' L \<and> slots arr R' = slots arr R
     \<and> (fst st \<or> R' (arr (i - 1)) \<noteq> Some []) \<and> (1 < i \<or> fst st \<longrightarrow> length (the (R' (arr 0))) \<le> 1)"
  have "\<exists>st. for_run [1..<48] (sort_carry cmp m arr) (w, h) = ret st \<and> ?I 48 st"
  proof (rule for_run_upt [where I = ?I])
    show "?I 1 (w, h)" by (rule exI [of _ R]) (use s w in auto)
  next
    fix i and st :: "bool \<times> lheap" assume i: "1 \<le> i" "i < 48" and I: "?I i st"
    obtain w h where st: "st = (w, h)" by (cases st)
    obtain R' where R': "sorting cmp arr m l R0 h R' L" "slots arr R' = slots arr R"
      "w \<or> R' (arr (i - 1)) \<noteq> Some []" "1 < i \<or> w \<longrightarrow> length (the (R' (arr 0))) \<le> 1"
      using I st by auto
    show "\<exists>st'. sort_carry cmp m arr i st = ret st' \<and> ?I (Suc i) st'"
    proof (cases w)
      case True
      then have "sort_carry cmp m arr i st = ret st" by (simp add: sort_carry_def st)
      moreover have "?I (Suc i) st" using R' True st by auto
      ultimately show ?thesis by blast
    next
      case False
      obtain as where as: "R' (arr (i - 1)) = Some as" "sorted_wrt (\<lambda>x y. cmp x y \<le> 0) as"
        using sorting_at [OF R'(1), of "i - 1"] less_imp_diff_less [OF i(2), of 1] by blast
      obtain bs where bs: "R' (arr i) = Some bs" "sorted_wrt (\<lambda>x y. cmp x y \<le> 0) bs"
        using sorting_at [OF R'(1), of i] i by auto
      have r: "rings h R'" "unused h R' m" using R'(1) by (auto simp: sorting_def)
      have ne: "arr i \<noteq> arr (i - 1)" using locals_neq(1) [OF lo, of i "i - 1"] i by auto
      have e: "l_isempty (arr i) h = Ok (bs = [])" by (rule rings_isempty [OF r(1) bs(1)])
      have "as \<noteq> []" using R'(3) False as(1) by simp
      then obtain a as' where a: "as = a # as'" by (cases as) auto
      let ?zs = "if bs = [] then as else merge_lists cmp bs as"
      let ?Q = "R'(arr i \<mapsto> ?zs, arr (i - 1) \<mapsto> [])"
      obtain h' where h': "(if bs = [] then Some (l_move (arr i) (arr (i - 1)) h) else l_merge cmp m (arr i) (arr (i - 1)) h) = ret h'"
        "rings h' ?Q" "unused h' ?Q m"
      proof (cases "bs = []")
        case True
        then show ?thesis using that rings_move [OF r(1), of "arr (i - 1)" a as' "arr i"] as(1) bs(1) a r(2) by auto
      next
        case False
        then show ?thesis using that l_merge_ok [OF r(1) bs(1) as(1) ne _ r(2) node_fresh [OF r(2)], of cmp] by auto
      qed
      have "sort_carry cmp m arr i st = ret (bs = [], h')"
        using e h'(1) False by (auto simp: sort_carry_def st split: if_splits)
      moreover have "sorted_wrt (\<lambda>x y. cmp x y \<le> 0) ?zs"
        using cmp_order.sorted_merge [OF c] as(2) bs(2) unfolding cmp_order.le_def [OF c] by simp
      then have "sorting cmp arr m l R0 h' ?Q L"
        using sorting_slot [OF R'(1) lo i(2) _ _ h'(2,3)] i by auto
      moreover have "slots arr ?Q = slots arr R"
        using slots_move [OF lo, of i "i - 1" R' bs as ?zs] i bs(1) as(1) R'(2) by auto
      moreover have "?Q (arr i) \<noteq> Some []"
      proof -
        have "mset (merge_lists cmp bs as) \<noteq> {#}" using a by simp
        then have "merge_lists cmp bs as \<noteq> []" by (metis mset.simps(1))
        then have "?zs \<noteq> []" using a by simp
        then show ?thesis using ne by simp
      qed
      moreover have "length (the (?Q (arr 0))) \<le> 1"
        using R'(4) i locals_neq(1) [OF lo, of i 0] by (cases "i = 1") auto
      ultimately have "?I (Suc i) (bs = [], h')" by (intro exI [of _ ?Q]) auto
      then show ?thesis using \<open>sort_carry cmp m arr i st = ret (bs = [], h')\<close> by blast
    qed
  qed simp
  then show ?thesis by fastforce
qed

lemma sort_place_ok:
  assumes c: "cmp_order cmp" and r: "rings h R" and a: "R a = Some ys" "length ys \<le> 1" and t: "R t = Some []" "a \<noteq> t"
  shows "\<exists>h' zs. sort_place cmp a t h = Ok (ys = [], h') \<and> rings h' (R(t := None, a \<mapsto> zs))
    \<and> (\<forall>m. unused h R m \<longrightarrow> unused h' (R(t := None, a \<mapsto> zs)) m)
    \<and> mset zs = add_mset t (mset ys) \<and> sorted_wrt (\<lambda>x y. cmp x y \<le> 0) zs"
proof (cases ys)
  case Nil
  obtain h' where "l_ins a t h = Ok h'" "rings h' (R(t := None, a \<mapsto> [t]))" "\<forall>m. unused h R m \<longrightarrow> unused h' (R(t := None, a \<mapsto> [t])) m"
    using rings_ins [OF r a(1), of "[]" a "[]" t] t Nil by auto
  moreover have "l_isempty a h = Ok True" using rings_isempty [OF r a(1)] Nil by simp
  ultimately show ?thesis using Nil by (intro exI [of _ h'] exI [of _ "[t]"]) (simp add: sort_place_def)
next
  case (Cons x xs)
  then have ys: "ys = [x]" using a(2) by simp
  have e: "l_isempty a h = Ok False" "l_next h a = Ok x"
    using rings_isempty [OF r a(1)] rings_next [OF r a(1)] ys by simp_all
  show ?thesis
  proof (cases "cmp t x < 0")
    case True
    obtain h' where "l_ins a t h = Ok h'" "rings h' (R(t := None, a \<mapsto> [t, x]))" "\<forall>m. unused h R m \<longrightarrow> unused h' (R(t := None, a \<mapsto> [t, x])) m"
      using rings_ins [OF r a(1), of "[]" a "[x]" t] t ys by auto
    then show ?thesis using True ys e by (intro exI [of _ h'] exI [of _ "[t, x]"]) (simp add: sort_place_def)
  next
    case False
    obtain h' where "l_ins x t h = Ok h'" "rings h' (R(t := None, a \<mapsto> [x, t]))" "\<forall>m. unused h R m \<longrightarrow> unused h' (R(t := None, a \<mapsto> [x, t])) m"
      using rings_ins [OF r a(1), of "[a]" x "[]" t] t ys by auto
    moreover have "cmp x t \<le> 0" using cmp_order.cmp_swap [OF c, of x t] False by linarith
    ultimately show ?thesis using False ys e by (intro exI [of _ h'] exI [of _ "[x, t]"]) (simp add: sort_place_def)
  qed
qed

lemma sort_one_ok:
  assumes c: "cmp_order cmp" and lo: "locals_ok arr l"
    and s: "sorting cmp arr m l R0 h R (t # L)" and w: "length (the (R (arr 0))) \<le> 1"
  shows "\<exists>h' R'. sort_one cmp m arr l h = ret h' \<and> sorting cmp arr m l R0 h' R' L
    \<and> slots arr R' = slots arr R + {#t#} \<and> length (the (R' (arr 0))) \<le> 1"
proof -
  have r: "rings h R" "R l = Some (t # L)" "unused h R m" using s by (auto simp: sorting_def)
  have tl: "t \<noteq> l" using rings_ring [OF r(1,2)] by (auto simp: ring_def)
  have tn: "R t = None" using rings_disjoint [OF r(1,2), of t] tl by (cases "R t") auto
  have ta: "t \<noteq> arr i" if "i < 48" for i using sorting_at [OF s that] tn by auto
  have la: "l \<notin> arr ` {..<48}" using lo by (simp add: locals_ok_def)
  obtain ys where ys: "R (arr 0) = Some ys" "sorted_wrt (\<lambda>x y. cmp x y \<le> 0) ys" using sorting_at [OF s, of 0] by auto
  obtain h1 where h1: "l_rem t h = Ok h1" "rings h1 (R(l \<mapsto> L, t \<mapsto> []))" "unused h1 (R(l \<mapsto> L, t \<mapsto> [])) m"
    using rings_rem [OF r(1), of l "[]" t L] r(2,3) by auto
  obtain h2 zs where h2: "sort_place cmp (arr 0) t h1 = Ok (ys = [], h2)" "rings h2 ((R(l \<mapsto> L, t \<mapsto> []))(t := None, arr 0 \<mapsto> zs))"
      "unused h2 ((R(l \<mapsto> L, t \<mapsto> []))(t := None, arr 0 \<mapsto> zs)) m" "mset zs = add_mset t (mset ys)" "sorted_wrt (\<lambda>x y. cmp x y \<le> 0) zs"
    using sort_place_ok [OF c h1(2), of "arr 0" ys t] ys w ta [of 0] locals_neq(2) [OF lo, of 0] h1(3) by auto
  let ?Q = "R(l \<mapsto> L, arr 0 \<mapsto> zs)"
  have q: "(R(l \<mapsto> L, t \<mapsto> []))(t := None, arr 0 \<mapsto> zs) = ?Q" using tn tl ta [of 0] by (auto simp: fun_eq_iff)
  have "sorting cmp arr m l R0 h2 ?Q L"
    unfolding sorting_def
  proof (intro conjI allI impI)
    show "rings h2 ?Q" "unused h2 ?Q m" using h2(2,3) q by auto
    show "?Q l = Some L" using locals_neq(2) [OF lo, of 0] by auto
    show "?Q a = R0 a" if "a \<noteq> l" "a \<notin> arr ` {..<48}" for a using s that by (auto simp: sorting_def)
    show "\<exists>ys. ?Q (arr i) = Some ys \<and> sorted_wrt (\<lambda>x y. cmp x y \<le> 0) ys" if "i < 48" for i
      using sorting_at [OF s that] h2(5) locals_neq(2) [OF lo that] by auto
  qed
  moreover have "length (the (?Q (arr 0))) \<le> 1 \<or> \<not> ys = []" using arg_cong [OF h2(4), of size] by auto
  moreover have "zs \<noteq> []" using h2(4) by auto
  then have "ys = [] \<or> ?Q (arr 0) \<noteq> Some []" by simp
  ultimately obtain w' h' R' where fin: "for_run [1..<48] (sort_carry cmp m arr) (ys = [], h2) = ret (w', h')"
    "sorting cmp arr m l R0 h' R' L" "slots arr R' = slots arr ?Q" "length (the (R' (arr 0))) \<le> 1"
    using sort_carry_ok [OF c lo] by blast
  have "slots arr ?Q + mset ys = slots arr R + mset zs"
    using slots_update [OF lo, of 0 "R(l \<mapsto> L)" zs] slots_other(1) [OF la] ys(1) locals_neq(2) [OF lo, of 0] by simp
  then have "slots arr R' = slots arr R + {#t#}" using fin(3) h2(4) by simp
  moreover have "l_next h l = Ok t" using rings_next [OF r(1,2)] by simp
  then have "sort_one cmp m arr l h = ret h'" using h1(1) h2(1) fin(1) by (simp add: sort_one_def)
  ultimately show ?thesis using fin(2,4) by blast
qed

lemma sort_loop_ok:
  assumes c: "cmp_order cmp" and lo: "locals_ok arr l"
    and s: "sorting cmp arr m l R0 h R xs" and e: "\<forall>i<48. R (arr i) = Some []"
  shows "\<exists>h' R'. while_run (nonempty l) (sort_one cmp m arr l) h = ret h' \<and> sorting cmp arr m l R0 h' R' []
    \<and> slots arr R' = mset xs"
proof -
  let ?I = "\<lambda>n h. \<exists>R' L. sorting cmp arr m l R0 h R' L \<and> slots arr R' + mset L = mset xs \<and> length (the (R' (arr 0))) \<le> 1 \<and> n = length L"
  have test: "nonempty l h = Ok (L \<noteq> [])" if "sorting cmp arr m l R0 h R' L" for h R' L
    using rings_isempty [of h R' l L] that by (simp add: sorting_def nonempty_def)
  have "\<exists>h' n'. while_run (nonempty l) (sort_one cmp m arr l) h = ret h' \<and> ?I n' h' \<and> nonempty l h' = Ok False"
  proof (rule while_run_ghost)
    have "slots arr R = {#}" using e by (simp add: slots_def)
    then show "?I (length xs) h" using s e by force
  next
    fix n h assume "?I n h"
    then show "nonempty l h = Ok True \<or> nonempty l h = Ok False" using test by fastforce
  next
    fix n h assume "?I n h" and b: "nonempty l h = Ok True"
    then obtain R' L where R': "sorting cmp arr m l R0 h R' L" "slots arr R' + mset L = mset xs" "length (the (R' (arr 0))) \<le> 1" "n = length L" by blast
    then obtain t L' where L: "L = t # L'" using test [OF R'(1)] b by (cases L) auto
    obtain h' R'' where h': "sort_one cmp m arr l h = ret h'" "sorting cmp arr m l R0 h' R'' L'" "slots arr R'' = slots arr R' + {#t#}"
      "length (the (R'' (arr 0))) \<le> 1"
      using sort_one_ok [OF c lo R'(1) [unfolded L] R'(3)] by blast
    moreover have "slots arr R'' + mset L' = mset xs" using R'(2) h'(3) L by simp
    ultimately show "\<exists>h' n'. sort_one cmp m arr l h = ret h' \<and> ?I n' h' \<and> n' < n" using R'(4) L by force
  qed
  then obtain h' R' L where h': "while_run (nonempty l) (sort_one cmp m arr l) h = ret h'" "sorting cmp arr m l R0 h' R' L"
    "slots arr R' + mset L = mset xs" "nonempty l h' = Ok False" by blast
  then have "L = []" using test by fastforce
  then show ?thesis using h' by auto
qed

lemma sort_collect_ok:
  assumes c: "cmp_order cmp" and lo: "locals_ok arr l"
    and s: "sorting cmp arr m l R0 h R []" and xs: "slots arr R = mset xs"
  shows "\<exists>j h' R' ys. for_run [1..<48] (sort_collect cmp m arr) (0, h) = ret (j, h') \<and> sorting cmp arr m l R0 h' R' []
    \<and> j < 48 \<and> (xs = [] \<longrightarrow> j = 0) \<and> R' (arr j) = Some ys \<and> mset ys = mset xs"
proof -
  let ?I = "\<lambda>i st. \<exists>R'. sorting cmp arr m l R0 (snd st) R' [] \<and> slots arr R' = mset xs \<and> fst st < i
    \<and> (fst st = 0 \<or> R' (arr (fst st)) \<noteq> Some []) \<and> (\<forall>k<i. k \<noteq> fst st \<longrightarrow> R' (arr k) = Some [])"
  have "\<exists>st. for_run [1..<48] (sort_collect cmp m arr) (0, h) = ret st \<and> ?I 48 st"
  proof (rule for_run_upt [where I = ?I])
    show "?I 1 (0, h)" by (rule exI [of _ R]) (use s xs in auto)
  next
    fix i and st :: "nat \<times> lheap" assume i: "1 \<le> i" "i < 48" and I: "?I i st"
    obtain j h where st: "st = (j, h)" by (cases st)
    obtain R' where R': "sorting cmp arr m l R0 h R' []" "slots arr R' = mset xs" "j < i" "j = 0 \<or> R' (arr j) \<noteq> Some []"
      "\<forall>k<i. k \<noteq> j \<longrightarrow> R' (arr k) = Some []" using I st by auto
    have j: "j < 48" "i \<noteq> j" using R'(3) i by auto
    have r: "rings h R'" "unused h R' m" using R'(1) by (auto simp: sorting_def)
    obtain as where as: "R' (arr j) = Some as" "sorted_wrt (\<lambda>x y. cmp x y \<le> 0) as" using sorting_at [OF R'(1) j(1)] by auto
    obtain bs where bs: "R' (arr i) = Some bs" "sorted_wrt (\<lambda>x y. cmp x y \<le> 0) bs" using sorting_at [OF R'(1) i(2)] by auto
    have e: "l_isempty (arr i) h = Ok (bs = [])" by (rule rings_isempty [OF r(1) bs(1)])
    have ne: "arr i \<noteq> arr j" using locals_neq(1) [OF lo i(2) j(1)] j(2) by simp
    show "\<exists>st'. sort_collect cmp m arr i st = ret st' \<and> ?I (Suc i) st'"
    proof (cases "bs = []")
      case True
      then have "sort_collect cmp m arr i st = ret st" using e by (simp add: sort_collect_def st)
      moreover have "?I (Suc i) st" by (rule exI [of _ R']) (use R' st True bs in \<open>auto simp: less_Suc_eq\<close>)
      ultimately show ?thesis by blast
    next
      case False
      let ?zs = "merge_lists cmp bs as"
      let ?Q = "R'(arr i \<mapsto> ?zs, arr j \<mapsto> [])"
      obtain h' where h': "l_merge cmp m (arr i) (arr j) h = ret h'" "rings h' ?Q" "unused h' ?Q m"
        using l_merge_ok [OF r(1) bs(1) as(1) ne _ r(2) node_fresh [OF r(2)], of cmp] False by auto
      have "sort_collect cmp m arr i st = ret (i, h')" using e False h'(1) by (simp add: sort_collect_def st)
      moreover have "sorted_wrt (\<lambda>x y. cmp x y \<le> 0) ?zs"
        using cmp_order.sorted_merge [OF c] as(2) bs(2) unfolding cmp_order.le_def [OF c] by simp
      then have "sorting cmp arr m l R0 h' ?Q []" by (rule sorting_slot [OF R'(1) lo i(2) _ j(1) h'(2,3)])
      moreover have "slots arr ?Q = mset xs"
        using slots_move [OF lo i(2) j bs(1) as(1), of ?zs] R'(2) by auto
      moreover have "?Q (arr i) \<noteq> Some []"
      proof -
        have "mset ?zs \<noteq> {#}" using False by simp
        then have "?zs \<noteq> []" by (metis mset.simps(1))
        then show ?thesis using ne by simp
      qed
      moreover have "\<forall>k<Suc i. k \<noteq> i \<longrightarrow> ?Q (arr k) = Some []"
        using R'(5) locals_neq(1) [OF lo] i(2) by (auto simp: less_Suc_eq)
      ultimately have "?I (Suc i) (i, h')" by (intro exI [of _ ?Q]) auto
      then show ?thesis using \<open>sort_collect cmp m arr i st = ret (i, h')\<close> by blast
    qed
  qed simp
  then obtain j h' R' where f: "for_run [1..<48] (sort_collect cmp m arr) (0, h) = ret (j, h')" "sorting cmp arr m l R0 h' R' []"
    "slots arr R' = mset xs" "j < 48" "j = 0 \<or> R' (arr j) \<noteq> Some []" "\<forall>k<48. k \<noteq> j \<longrightarrow> R' (arr k) = Some []" by fastforce
  obtain ys where ys: "R' (arr j) = Some ys" using sorting_at [OF f(2,4)] by blast
  have "slots arr R' = mset (the (R' (arr j))) + (\<Sum>i\<in>{..<48}-{j}. mset (the (R' (arr i))))"
    unfolding slots_def by (rule sum.remove) (use f(4) in auto)
  moreover have "(\<Sum>i\<in>{..<48}-{j}. mset (the (R' (arr i)))) = {#}" by (rule sum.neutral) (use f(6) in auto)
  ultimately have "mset ys = mset xs" using f(3) ys by simp
  then show ?thesis using f ys by auto
qed

text \<open>Up to the final \<open>l_move\<close>.\<close>

lemma l_sort_runs:
  assumes c: "cmp_order cmp" and r: "rings h R" and l: "R l = Some xs"
    and a: "inj_on arr {..<48}" "\<forall>i<48. unused h R (arr i)" and m: "unused h R m" "m \<notin> arr ` {..<48}"
  shows "\<exists>j h' R' ys. l_sort cmp m arr l h = Some (l_move l (arr j) h') \<and> sorting cmp arr m l R h' R' []
    \<and> j < 48 \<and> (xs = [] \<longrightarrow> j = 0) \<and> R' (arr j) = Some ys \<and> mset ys = mset xs"
proof -
  have nl: "l \<noteq> 0" using rings_ring [OF r l] node_nz(1) by (auto simp: ring_def)
  have "l \<notin> arr ` {..<48}" using a(2) l unused_notin by fastforce
  then have lo: "locals_ok arr l" using a(1) by (simp add: locals_ok_def)
  obtain h1 R1 where 1: "for_run [0..<48] (\<lambda>i h. Some (l_init (arr i) h)) h = ret h1" "sorting cmp arr m l R h1 R1 xs"
    "\<forall>i<48. R1 (arr i) = Some []" using sort_init [OF r a m l] by blast
  obtain h2 R2 where 2: "while_run (nonempty l) (sort_one cmp m arr l) h1 = ret h2" "sorting cmp arr m l R h2 R2 []" "slots arr R2 = mset xs"
    using sort_loop_ok [OF c lo 1(2,3)] by blast
  obtain j h3 R3 ys where 3: "for_run [1..<48] (sort_collect cmp m arr) (0, h2) = ret (j, h3)" "sorting cmp arr m l R h3 R3 []"
    "j < 48" "xs = [] \<longrightarrow> j = 0" "R3 (arr j) = Some ys" "mset ys = mset xs"
    using sort_collect_ok [OF c lo 2(2,3)] by blast
  have "l_sort cmp m arr l h = Some (l_move l (arr j) h3)"
    using nl 1(1) 2(1) 3(1) by (simp add: l_sort_def)
  then show ?thesis using 3 by blast
qed

text \<open>C9: \<open>l_sort\<close> returns on every non-empty list, whatever its length, and leaves the list well
  formed and holding its nodes in order; every other list of the heap is as it was.  \<open>R\<close> gives
  the elements of each list of the heap, and the 48 local lists and the local of \<open>l_merge\<close> are nodes of
  none of them.\<close>

theorem l_sort_sorts:
  assumes "cmp_order cmp" "rings h R" "R l = Some xs" "xs \<noteq> []"
    and "inj_on arr {..<48}" "\<forall>i<48. unused h R (arr i)" "unused h R m" "m \<notin> arr ` {..<48}"
  shows "\<exists>h' ys. l_sort cmp m arr l h = ret h' \<and> rings h' (R(l \<mapsto> ys)) \<and> mset ys = mset xs
    \<and> sorted_wrt (\<lambda>x y. cmp x y \<le> 0) ys"
proof -
  obtain j h1 R1 ys where 1: "l_sort cmp m arr l h = Some (l_move l (arr j) h1)" "sorting cmp arr m l R h1 R1 []"
    "j < 48" "R1 (arr j) = Some ys" "mset ys = mset xs"
    using l_sort_runs [OF assms(1-3,5-8)] by blast
  have s: "rings h1 R1" "R1 l = Some []" "sorted_wrt (\<lambda>x y. cmp x y \<le> 0) ys"
    using 1(2) sorting_at [OF 1(2,3)] 1(4) by (auto simp: sorting_def)
  have "ys \<noteq> []" using 1(5) assms(4) by auto
  then obtain y ys' where y: "ys = y # ys'" by (cases ys) auto
  obtain h2 where h2: "l_move l (arr j) h1 = Ok h2" "rings h2 (R1(l \<mapsto> ys, arr j \<mapsto> []))"
    using rings_move [OF s(1) 1(4) [unfolded y] s(2)] y by auto
  have fresh: "R (arr i) = None" if "i < 48" for i by (rule node_fresh) (use assms(6) that in blast)
  have "R(l \<mapsto> ys) \<subseteq>\<^sub>m R1(l \<mapsto> ys, arr j \<mapsto> [])"
  proof -
    have "R k = R1 k" if "R k \<noteq> None" "k \<noteq> l" for k
    proof -
      have "k \<notin> arr ` {..<48}" using fresh that(1) by auto
      then show ?thesis using 1(2) that(2) by (simp add: sorting_def)
    qed
    moreover have "R (arr j) = None" by (rule fresh [OF 1(3)])
    moreover have "arr j \<noteq> l" using calculation(2) assms(3) by auto
    ultimately show ?thesis by (auto simp: map_le_def)
  qed
  then have "rings h2 (R(l \<mapsto> ys))" by (rule rings_submap [OF h2(2)])
  then show ?thesis using 1(1,5) h2(1) s(3) by auto
qed

text \<open>Moving an empty list leaves its destination's \<open>prev\<close> pointing at the source, so \<open>l_sort\<close> of an
  empty list leaves the list with a pointer into the local array of the finished call: it is no
  longer a well-formed list.\<close>

theorem l_sort_empty_dangles:
  assumes "cmp_order cmp" "rings h R" "R l = Some []"
    and "inj_on arr {..<48}" "\<forall>i<48. unused h R (arr i)" "unused h R m" "m \<notin> arr ` {..<48}"
  shows "\<exists>h'. l_sort cmp m arr l h = ret h' \<and> l_next h' l = Ok l \<and> l_prev h' l = Ok (arr 0) \<and> \<not> ring h' l []"
proof -
  obtain h1 R1 where 1: "l_sort cmp m arr l h = Some (l_move l (arr 0) h1)" "sorting cmp arr m l R h1 R1 []" "R1 (arr 0) = Some []"
    using l_sort_runs [OF assms(1-3,4-7)] by auto
  have "R (arr 0) = None" by (rule node_fresh [of h]) (use assms(5) in auto)
  then have ne: "arr 0 \<noteq> l" using assms(3) by auto
  have n: "node h1 (arr 0)" "nx h1 (arr 0) = arr 0" "pv h1 (arr 0) = arr 0" "node h1 l"
    using rings_ring [of h1 R1 "arr 0" "[]"] rings_ring [of h1 R1 l "[]"] 1(2,3) by (simp_all add: sorting_def ring_Nil)
  let ?h = "un (arr 0) (arr 0) (up (arr 0) (arr 0) (un l l (up (arr 0) l (up l (arr 0) (un l (arr 0) h1)))))"
  have "l_move l (arr 0) h1 = Ok ?h" using n ne by (simp add: l_move_def heap_simps node_nz)
  moreover have "nx ?h l = l" "pv ?h l = arr 0" "node ?h l" using n ne by (auto simp: heap_simps)
  ultimately show ?thesis using 1(1) ne by (auto simp: heap_reads ring_Nil)
qed

text \<open>Three nodes at 1, 2 and 3 on a list with head 1, and unused memory elsewhere.\<close>

definition sample_heap :: lheap where
  "sample_heap = (\<lambda>p. if p = 0 then None else Some \<lparr>lnext = 0, lprev = 0\<rparr>)
     (1 \<mapsto> \<lparr>lnext = 2, lprev = 3\<rparr>, 2 \<mapsto> \<lparr>lnext = 3, lprev = 1\<rparr>, 3 \<mapsto> \<lparr>lnext = 1, lprev = 2\<rparr>, 4 \<mapsto> \<lparr>lnext = 4, lprev = 4\<rparr>)"

lemma sample_rings: "rings sample_heap [1 \<mapsto> [2, 3], 4 \<mapsto> []]"
  by (auto simp: rings_def ring_def node_def nx_def pv_def sample_heap_def split: if_splits)

lemma sample_unused: "4 < a \<Longrightarrow> unused sample_heap [1 \<mapsto> [2, 3], 4 \<mapsto> []] a"
  by (auto simp: unused_def node_def sample_heap_def split: if_splits)

lemma cmp_order_addr: "cmp_order (\<lambda>x y. int y - int x)"
  by unfold_locales auto

lemma l_sort_sorts_witness:
  "\<exists>h' ys. l_sort (\<lambda>x y. int y - int x) 5 (\<lambda>i. 10 + i) 1 sample_heap = ret h' \<and> rings h' ([1 \<mapsto> [2, 3], 4 \<mapsto> []](1 \<mapsto> ys))
    \<and> mset ys = mset [2, 3] \<and> sorted_wrt (\<lambda>x y. int y - int x \<le> 0) ys"
  by (rule l_sort_sorts [OF cmp_order_addr sample_rings]) (auto simp: sample_unused simp del: One_nat_def)

lemma l_sort_empty_dangles_witness:
  "\<exists>h'. l_sort (\<lambda>x y. int y - int x) 5 (\<lambda>i. 10 + i) 4 sample_heap = ret h' \<and> l_next h' 4 = Ok 4
    \<and> l_prev h' 4 = Ok ((\<lambda>i. 10 + i) 0) \<and> \<not> ring h' 4 []"
  by (rule l_sort_empty_dangles [OF cmp_order_addr sample_rings]) (auto simp: sample_unused simp del: One_nat_def)

section \<open>Queues and chunks\<close>

lemma rings_enq:
  assumes r: "rings h R" and l: "R l = Some xs" and e: "R e = Some []" "l \<noteq> e"
  shows "\<exists>h'. l_enq l e h = Ok h' \<and> rings h' (R(e := None, l \<mapsto> xs @ [e]))"
proof -
  have s: "l # xs = butlast (l # xs) @ last (l # xs) # []" by (metis append_butlast_last_id list.discI)
  have "tl (butlast (l # xs) @ last (l # xs) # e # []) = xs @ [e]"
    by (cases xs rule: rev_cases) (auto simp: butlast_append)
  then show ?thesis using rings_ins [OF r l s e] rings_prev [OF r l] by (auto simp: l_enq_def)
qed

lemma rings_push:
  assumes "rings h R" "R l = Some xs" "R e = Some []" "l \<noteq> e"
  shows "\<exists>h'. l_push l e h = Ok h' \<and> rings h' (R(e := None, l \<mapsto> e # xs))"
  using rings_ins [OF assms(1,2), of "[]" l xs e] assms(3,4) by (auto simp: l_push_def)

lemma rings_pop:
  assumes r: "rings h R" and l: "R l = Some (x # xs)"
  shows "\<exists>h'. l_pop l h = Ok (Some x, h') \<and> l_deq l h = Ok (Some x, h') \<and> rings h' (R(l \<mapsto> xs, x \<mapsto> []))"
proof -
  have n: "node h l" "x \<noteq> l" using rings_ring [OF r l] by (auto simp: ring_def)
  show ?thesis
    using rings_rem [OF r, of l "[]" x xs] l rings_next [OF r l] n by (auto simp: l_pop_def l_deq_def node_nz)
qed

lemma rings_pop_empty:
  assumes "rings h R" "R l = Some []" shows "l_pop l h = Ok (None, h)" "l_deq l h = Ok (None, h)"
  using rings_next [OF assms] rings_ring [OF assms] by (auto simp: l_pop_def l_deq_def node_nz ring_Nil)

lemma ring_walk:
  assumes "ring h l xs"
  shows "while_run (\<lambda>(t, n). Ok (t \<noteq> l)) (\<lambda>(t, n). Some (obind (l_next h t) (\<lambda>t. Ok (t, n + 1)))) (hd (xs @ [l]), n)
      = ret (l, n + of_nat (length xs) :: u64)"
proof -
  have "while_run (\<lambda>(t, n). Ok (t \<noteq> l)) (\<lambda>(t, n). Some (obind (l_next h t) (\<lambda>t. Ok (t, n + 1)))) (hd (ys @ [l]), n)
      = ret (l, n + of_nat (length ys) :: u64)"
    if "seg h p ys l" "l \<notin> set ys" "\<forall>y \<in> set ys. node h y" for p ys
    using that
  proof (induction ys arbitrary: p n)
    case Nil
    then show ?case by (simp add: while_run_step(2))
  next
    case (Cons y ys)
    have "nx h y = hd (ys @ [l])" using Cons.prems(1) by (cases ys) auto
    then have "l_next h y = Ok (hd (ys @ [l]))" using Cons.prems(3) by (simp add: heap_reads)
    moreover have "seg h y ys l" using Cons.prems(1) by simp
    ultimately show ?case using Cons.IH [of y "n + 1"] Cons.prems(2,3)
      by (subst while_run_step(1)) (auto simp: algebra_simps)
  qed
  then show ?thesis using assms by (auto simp: ring_def)
qed

lemma rings_length:
  assumes "rings h R" "R l = Some xs" shows "l_length l h = ret (of_nat (length xs))"
proof -
  have r: "ring h l xs" by (rule rings_ring [OF assms])
  then have n: "l \<noteq> 0" "hd (xs @ [l]) \<noteq> 0" by (cases xs; auto simp: ring_def node_nz)+
  show ?thesis using ring_walk [OF r, of 0] rings_next [OF assms] n by (simp add: l_length_def)
qed

text \<open>C28: A linked list is a double-ended queue of its nodes.  \<open>l_enq\<close> appends a free node and \<open>l_push\<close>
  prepends it, \<open>l_deq\<close> and \<open>l_pop\<close> take the first and give NULL on the empty list, \<open>l_length\<close> counts
  modulo 2^64 and returns; no other list of the heap changes.\<close>

theorem list_is_deque:
  assumes r: "rings h R" and l: "R l = Some xs"
  shows "(R e = Some [] \<longrightarrow> l \<noteq> e \<longrightarrow>
      (\<exists>h'. l_enq l e h = Ok h' \<and> rings h' (R(e := None, l \<mapsto> xs @ [e])))
      \<and> (\<exists>h'. l_push l e h = Ok h' \<and> rings h' (R(e := None, l \<mapsto> e # xs))))
    \<and> (case xs of [] \<Rightarrow> l_pop l h = Ok (None, h) \<and> l_deq l h = Ok (None, h)
       | x # ys \<Rightarrow> \<exists>h'. l_pop l h = Ok (Some x, h') \<and> l_deq l h = Ok (Some x, h') \<and> rings h' (R(l \<mapsto> ys, x \<mapsto> [])))
    \<and> l_length l h = ret (of_nat (length xs)) \<and> l_isempty l h = Ok (xs = [])"
  using rings_enq [OF r l, of e] rings_push [OF r l, of e] rings_pop [OF r, of l] rings_pop_empty [OF r, of l]
    rings_length [OF r l] rings_isempty [OF r l] l by (auto split: list.split)

lemma list_is_deque_witness:
  "(\<exists>h'. l_enq 1 4 sample_heap = Ok h' \<and> rings h' ([1 \<mapsto> [2, 3], 4 \<mapsto> []](4 := None, 1 \<mapsto> [2, 3] @ [4]))) \<and> l_length 1 sample_heap = ret 2"
  using list_is_deque [OF sample_rings, of 1 "[2, 3]" 4] by auto

lemma splice_ring:
  assumes l2: "ring h l2 (x # xs)" and l1: "ring h l1 ys" and d: "set (l1 # ys) \<inter> set (l2 # x # xs) = {}"
  shows "\<exists>h'. l_splice (last (l1 # ys)) l2 h = Ok h' \<and> ring h' l1 (ys @ x # xs) \<and> ring h' l2 []
    \<and> (\<forall>a. a \<notin> set (l1 # ys) \<union> set (l2 # x # xs) \<longrightarrow> h' a = h a)"
proof -
  define p z where "p = last (l1 # ys)" and "z = last (x # xs)"
  have e: "nx h l2 = x" "pv h l2 = z" "pv h l1 = p" "node h l2"
    using ring_ends [OF l2] ring_ends [OF l1] by (auto simp: p_def z_def)
  have i: "p \<in> set (l1 # ys)" "z \<in> set (x # xs)" unfolding p_def z_def by (rule last_in_set; simp)+
  have n: "node h p" "node h z" "node h x" "node h l1" "nx h p = l1"
  proof -
    show "node h p" "node h z" "node h x" "node h l1" using l1 l2 i unfolding ring_def by auto
    show "nx h p = l1" by (cases ys rule: rev_cases) (use l1 in \<open>auto simp: ring_def p_def seg_append\<close>)
  qed
  have ne: "p \<noteq> l2" "z \<noteq> l1" "x \<noteq> l2" "z \<noteq> l2" "x \<noteq> l1" "l1 \<noteq> l2" "p \<notin> set (x # xs)" "l1 \<notin> set (x # xs)"
    "z \<notin> set (l1 # ys)" "x \<notin> set (l1 # ys)" "l2 \<notin> set (l1 # ys)"
  proof -
    have "p \<notin> set (l2 # x # xs)" "l1 \<notin> set (l2 # x # xs)" using d i(1) by auto
    then show "p \<noteq> l2" "x \<noteq> l1" "l1 \<noteq> l2" "p \<notin> set (x # xs)" "l1 \<notin> set (x # xs)" by auto
    have "z \<notin> set (l1 # ys)" using d i(2) by (metis disjoint_iff list.set_intros(2))
    then show "z \<notin> set (l1 # ys)" "z \<noteq> l1" by auto
    show "x \<notin> set (l1 # ys)" "l2 \<notin> set (l1 # ys)" using d by auto
    have "l2 \<notin> set (x # xs)" using l2 by (simp add: ring_def)
    then show "x \<noteq> l2" "z \<noteq> l2" using i(2) by auto
  qed
  let ?h = "un l2 l2 (up l2 l2 (up l1 z (un z l1 (un p x (up x p h)))))"
  have "l_splice p l2 h = Ok ?h"
    using e n ne by (simp add: l_splice_def l_isempty_def heap_simps node_nz)
  moreover have "seg ?h l1 ys x"
  proof (cases ys rule: rev_cases)
    case Nil
    then show ?thesis using ne by (simp add: heap_simps p_def)
  next
    case (snoc ys' q)
    then have q: "q = p" by (simp add: p_def)
    have "seg ?h l1 ys' p \<longleftrightarrow> seg h l1 ys' p"
      by (rule seg_frame) (use snoc q ne l1 in \<open>auto simp: heap_simps ring_def\<close>)
    moreover have "seg h l1 ys' p" using l1 by (simp add: ring_def snoc q seg_append)
    moreover have "nx ?h p = x" "pv ?h x = p" using ne(1,3,5,7) i(2) ne(2) by (auto simp: heap_simps)
    ultimately show ?thesis by (simp only: snoc q seg_append seg.simps)
  qed
  moreover have "seg ?h x xs l1"
  proof (cases xs rule: rev_cases)
    case Nil
    then show ?thesis using ne by (simp add: heap_simps z_def)
  next
    case (snoc xs' q)
    then have q: "q = z" by (simp add: z_def)
    have "seg ?h x xs' z \<longleftrightarrow> seg h x xs' z"
      by (rule seg_frame) (use snoc q ne l2 in \<open>auto simp: heap_simps ring_def\<close>)
    moreover have "seg h x xs' z" using l2 by (simp add: ring_def snoc q seg_append)
    moreover have "nx ?h z = l1" "pv ?h l1 = z" using ne(2,4) ne(1,3,5,6) by (auto simp: heap_simps)
    ultimately show ?thesis by (simp only: snoc q seg_append seg.simps)
  qed
  moreover have "ring ?h l2 []" using e(4) by (simp add: ring_Nil heap_simps)
  moreover have "?h a = h a" if "a \<notin> set (l1 # ys) \<union> set (l2 # x # xs)" for a
  proof -
    have "a \<noteq> p" "a \<noteq> z" "a \<noteq> x" "a \<noteq> l1" "a \<noteq> l2" using that i by auto
    then show ?thesis by (simp add: heap_frame)
  qed
  ultimately show ?thesis
    using l1 l2 d unfolding p_def by (auto simp: ring_def seg_append heap_simps node_nz)
qed

lemma rings_append:
  assumes r: "rings h R" and l: "R l1 = Some ys" "R l2 = Some xs" "l1 \<noteq> l2"
  shows "\<exists>h'. l_append l1 l2 h = Ok h' \<and> rings h' (R(l1 \<mapsto> ys @ xs, l2 \<mapsto> []))"
proof -
  have n: "l1 \<noteq> 0" "l2 \<noteq> 0" "last (l1 # ys) \<noteq> 0"
    using rings_ring [OF r l(1)] rings_ring [OF r l(2)] last_in_set [of "l1 # ys"] unfolding ring_def
    by (metis list.distinct(1) list.set_intros(1) node_nz(1))+
  have p: "l_prev h l1 = Ok (last (l1 # ys))" by (rule rings_prev [OF r l(1)])
  have d: "set (l1 # ys) \<inter> set (l2 # xs) = {}" by (rule rings_disjoint [OF r l])
  show ?thesis
  proof (cases xs)
    case Nil
    have "R(l1 \<mapsto> ys @ xs, l2 \<mapsto> []) = R" using l Nil by (auto simp: fun_eq_iff)
    then show ?thesis using n p r rings_isempty [OF r l(2)] Nil by (simp add: l_append_def l_splice_def)
  next
    case (Cons x xs')
    obtain h' where h': "l_splice (last (l1 # ys)) l2 h = Ok h'" "ring h' l1 (ys @ xs)" "ring h' l2 []"
        "\<forall>a. a \<notin> set (l1 # ys) \<union> set (l2 # xs) \<longrightarrow> h' a = h a"
      using splice_ring [of h l2 x xs' l1 ys] rings_ring [OF r l(1)] rings_ring [OF r l(2)] d Cons by blast
    have "rings h' (R(l1 \<mapsto> ys @ xs, l2 \<mapsto> []))"
    proof (rule rings_change [OF r, where N = "set (l1 # ys) \<union> set (l2 # xs)" and D = "{l1, l2}"])
      fix k zs assume k: "k \<notin> {l1, l2}" "R k = Some zs"
      show "set (k # zs) \<inter> (set (l1 # ys) \<union> set (l2 # xs)) = {}"
        using rings_disjoint [OF r k(2) l(1)] rings_disjoint [OF r k(2) l(2)] k(1) by blast
    next
      fix k zs m ws assume "k \<in> {l1, l2}" "m \<in> {l1, l2}" "k \<noteq> m" "(R(l1 \<mapsto> ys @ xs, l2 \<mapsto> [])) k = Some zs"
        "(R(l1 \<mapsto> ys @ xs, l2 \<mapsto> [])) m = Some ws"
      moreover have "l2 \<notin> set (l1 # ys @ xs)" using d rings_ring [OF r l(2)] by (auto simp: ring_def)
      ultimately show "set (k # zs) \<inter> set (m # ws) = {}" using l(3) by (auto split: if_splits)
    next
      fix k zs assume "k \<in> {l1, l2}" "(R(l1 \<mapsto> ys @ xs, l2 \<mapsto> [])) k = Some zs"
      then show "ring h' k zs \<and> set (k # zs) \<subseteq> set (l1 # ys) \<union> set (l2 # xs)" using h'(2,3) by (auto split: if_splits)
    qed (use h'(4) in auto)
    then show ?thesis using n p h'(1) by (auto simp: l_append_def)
  qed
qed

end
