(* ===== verification/CatTime.thy ===== *)
theory CatTime
  imports CatPrelude
begin

text \<open>
  The time values of include/cat/time.h: seconds and nanoseconds as two \<open>long\<close>s.  A result
  that does not fit in 64 bits is signed overflow, which C leaves undefined: \<open>Fault\<close>.  The
  conversions to and from \<open>double\<close> and the clocks are not modelled.
\<close>

record cat_time =
  sec :: int
  nsec :: int

definition long :: "int \<Rightarrow> int outcome" where
  "long x = (if - (2 ^ 63) \<le> x \<and> x < 2 ^ 63 then Ok x else Fault)"

definition tm_zero :: cat_time where "tm_zero = \<lparr>sec = 0, nsec = 0\<rparr>"

function tm_norm_down :: "int \<Rightarrow> int \<Rightarrow> cat_time outcome" where
  "tm_norm_down s n =
     (if n > 1000000000 \<or> s < 0 \<and> n > 0
      then (case long (s + 1) of Ok s' \<Rightarrow> tm_norm_down s' (n - 1000000000) | Abort \<Rightarrow> Abort | Fault \<Rightarrow> Fault)
      else Ok \<lparr>sec = s, nsec = n\<rparr>)"
  by pat_completeness auto
termination by (relation "measure (\<lambda>(s, n). nat n)") auto

function tm_norm_up :: "int \<Rightarrow> int \<Rightarrow> cat_time outcome" where
  "tm_norm_up s n =
     (if n < -1000000000 \<or> s > 0 \<and> n < 0
      then (case long (s - 1) of Ok s' \<Rightarrow> tm_norm_up s' (n + 1000000000) | Abort \<Rightarrow> Abort | Fault \<Rightarrow> Fault)
      else Ok \<lparr>sec = s, nsec = n\<rparr>)"
  by pat_completeness auto
termination by (relation "measure (\<lambda>(s, n). nat (- n))") auto

declare tm_norm_down.simps [simp del] tm_norm_up.simps [simp del]

definition tm_normalize :: "cat_time \<Rightarrow> cat_time outcome" where
  "tm_normalize t = obind (tm_norm_down (sec t) (nsec t)) (\<lambda>t. tm_norm_up (sec t) (nsec t))"

text \<open>The last call normalises \<open>t2\<close> again, not the sum.\<close>

definition tm_add :: "cat_time \<Rightarrow> cat_time \<Rightarrow> cat_time outcome" where
  "tm_add t1 t2 =
     obind (tm_normalize t1) (\<lambda>t1. obind (tm_normalize t2) (\<lambda>t2.
     obind (long (sec t1 + sec t2)) (\<lambda>s. obind (long (nsec t1 + nsec t2)) (\<lambda>n.
     obind (tm_normalize t2) (\<lambda>_. Ok \<lparr>sec = s, nsec = n\<rparr>)))))"

definition tm_sub :: "cat_time \<Rightarrow> cat_time \<Rightarrow> cat_time outcome" where
  "tm_sub t1 t2 =
     obind (tm_normalize t1) (\<lambda>t1. obind (tm_normalize t2) (\<lambda>t2.
     obind (long (sec t1 - sec t2)) (\<lambda>s. obind (long (nsec t1 - nsec t2)) (\<lambda>n.
     tm_normalize \<lparr>sec = s, nsec = n\<rparr>))))"

definition tm_eqz :: "cat_time \<Rightarrow> bool" where "tm_eqz t \<longleftrightarrow> sec t = 0 \<and> nsec t = 0"

definition tm_ltz :: "cat_time \<Rightarrow> bool outcome" where
  "tm_ltz t = obind (tm_normalize t) (\<lambda>t. Ok (sec t < 0 \<or> nsec t < 0))"

definition tm_gtz :: "cat_time \<Rightarrow> bool outcome" where
  "tm_gtz t = obind (tm_normalize t) (\<lambda>t. Ok (sec t > 0 \<or> nsec t > 0))"

definition tm_lez :: "cat_time \<Rightarrow> bool outcome" where
  "tm_lez t = obind (tm_gtz t) (\<lambda>b. Ok (\<not> b))"

definition tm_gez :: "cat_time \<Rightarrow> bool outcome" where
  "tm_gez t = obind (tm_ltz t) (\<lambda>b. Ok (\<not> b))"

definition tm_cmp :: "cat_time \<Rightarrow> cat_time \<Rightarrow> int outcome" where
  "tm_cmp t1 t2 =
     obind (tm_normalize t1) (\<lambda>t1. obind (tm_normalize t2) (\<lambda>t2.
     obind (long (sec t1 - sec t2)) (\<lambda>d.
     obind (if d = 0 then long (nsec t1 - nsec t2) else Ok d) (\<lambda>d.
       Ok (if d < 0 then -1 else if d > 0 then 1 else 0)))))"

text \<open>The arguments are pointers, \<open>None\<close> is NULL.\<close>

definition tm_cmpf :: "cat_time option \<Rightarrow> cat_time option \<Rightarrow> int outcome" where
  "tm_cmpf t1p t2p = (case (t1p, t2p) of (Some t1, Some t2) \<Rightarrow> tm_cmp t1 t2 | _ \<Rightarrow> Abort)"

definition tm_sec :: "cat_time \<Rightarrow> int outcome" where
  "tm_sec t = obind (tm_normalize t) (\<lambda>t. Ok (sec t))"

definition tm_nsec :: "cat_time \<Rightarrow> int outcome" where
  "tm_nsec t = obind (tm_normalize t) (\<lambda>t. Ok (nsec t))"

definition tm_lset :: "int \<Rightarrow> int \<Rightarrow> cat_time outcome" where
  "tm_lset s n = tm_normalize \<lparr>sec = s, nsec = n\<rparr>"

text \<open>The time since the mark, and the new mark stored through \<open>old\<close>.\<close>

definition tm_mark :: "cat_time option \<Rightarrow> cat_time \<Rightarrow> (cat_time \<times> cat_time) outcome" where
  "tm_mark old tnew = (case old of None \<Rightarrow> Abort | Some t \<Rightarrow> obind (tm_sub tnew t) (\<lambda>d. Ok (d, tnew)))"

section \<open>The value of a time\<close>

definition tval :: "cat_time \<Rightarrow> int" where "tval t = sec t * 1000000000 + nsec t"

definition tnormal :: "cat_time \<Rightarrow> bool" where
  "tnormal t \<longleftrightarrow> \<bar>nsec t\<bar> \<le> 1000000000 \<and> \<not> (sec t < 0 \<and> nsec t > 0) \<and> \<not> (sec t > 0 \<and> nsec t < 0)"

text \<open>Seconds far enough from the limits of a \<open>long\<close> for the carry of any nanoseconds.\<close>

definition tsafe :: "cat_time \<Rightarrow> bool" where "tsafe t \<longleftrightarrow> \<bar>sec t\<bar> \<le> 2 ^ 60 \<and> \<bar>nsec t\<bar> < 2 ^ 63"

lemma norm_down:
  "- (2 ^ 63) \<le> s \<Longrightarrow> s + (if n > 0 then n div 1000000000 + 1 else 0) < 2 ^ 63 \<Longrightarrow>
   \<exists>t. tm_norm_down s n = Ok t \<and> tval t = s * 1000000000 + n \<and> nsec t \<le> 1000000000 \<and> \<not> (sec t < 0 \<and> nsec t > 0)
     \<and> s \<le> sec t \<and> sec t \<le> s + (if n > 0 then n div 1000000000 + 1 else 0) \<and> min n (-1000000000) \<le> nsec t"
proof (induction s n rule: tm_norm_down.induct)
  case (1 s n)
  show ?case
  proof (cases "n > 1000000000 \<or> s < 0 \<and> n > 0")
    case False
    then show ?thesis by (subst tm_norm_down.simps) (auto simp: tval_def)
  next
    case True
    then have n: "n > 0" by auto
    have d: "(n - 1000000000) div 1000000000 = n div 1000000000 - 1" by simp
    have s1: "long (s + 1) = Ok (s + 1)" using 1(2,3) n by (simp add: long_def)
    have "\<exists>t. tm_norm_down (s + 1) (n - 1000000000) = Ok t \<and> tval t = (s + 1) * 1000000000 + (n - 1000000000) \<and> nsec t \<le> 1000000000
       \<and> \<not> (sec t < 0 \<and> nsec t > 0) \<and> s + 1 \<le> sec t
       \<and> sec t \<le> s + 1 + (if n - 1000000000 > 0 then (n - 1000000000) div 1000000000 + 1 else 0) \<and> min (n - 1000000000) (-1000000000) \<le> nsec t"
      by (rule 1(1) [OF True s1]) (use 1(2,3) n d in auto)
    then show ?thesis using True s1 n d by (subst tm_norm_down.simps) (auto split: if_splits)
  qed
qed

lemma norm_up:
  "s < 2 ^ 63 \<Longrightarrow> - (2 ^ 63) \<le> s - (if n < 0 then (- n) div 1000000000 + 1 else 0) \<Longrightarrow> n \<le> 1000000000 \<Longrightarrow> \<not> (s < 0 \<and> n > 0) \<Longrightarrow>
   \<exists>t. tm_norm_up s n = Ok t \<and> tval t = s * 1000000000 + n \<and> tnormal t
     \<and> sec t \<le> s \<and> s - (if n < 0 then (- n) div 1000000000 + 1 else 0) \<le> sec t"
proof (induction s n rule: tm_norm_up.induct)
  case (1 s n)
  show ?case
  proof (cases "n < -1000000000 \<or> s > 0 \<and> n < 0")
    case False
    then show ?thesis using 1(4,5) by (subst tm_norm_up.simps) (auto simp: tval_def tnormal_def)
  next
    case True
    then have n: "n < 0" by auto
    have "- (n + 1000000000) = - n - 1000000000" by simp
    then have d: "(- (n + 1000000000)) div 1000000000 = (- n) div 1000000000 - 1"
      using div_add_self2 [of 1000000000 "- n - 1000000000"] by simp
    have s1: "long (s - 1) = Ok (s - 1)" using 1(2,3) n by (simp add: long_def split: if_splits)
    have "\<exists>t. tm_norm_up (s - 1) (n + 1000000000) = Ok t \<and> tval t = (s - 1) * 1000000000 + (n + 1000000000) \<and> tnormal t
       \<and> sec t \<le> s - 1 \<and> s - 1 - (if n + 1000000000 < 0 then (- (n + 1000000000)) div 1000000000 + 1 else 0) \<le> sec t"
    proof (rule 1(1) [OF True s1])
      show "s - 1 < 2 ^ 63" "n + 1000000000 \<le> 1000000000" "\<not> (s - 1 < 0 \<and> n + 1000000000 > 0)" using 1(2) n True by auto
      show "- (2 ^ 63) \<le> s - 1 - (if n + 1000000000 < 0 then (- (n + 1000000000)) div 1000000000 + 1 else 0)"
        using 1(3) n d by (auto split: if_splits)
    qed
    then show ?thesis using True s1 n d by (subst tm_norm_up.simps) (auto split: if_splits)
  qed
qed

lemma div_small: "0 \<le> n \<Longrightarrow> n < 2 ^ 63 \<Longrightarrow> n div 1000000000 + 1 \<le> (2 ^ 34 :: int)"
proof -
  assume "0 \<le> n" "n < (2 ^ 63 :: int)"
  then have "n div 1000000000 \<le> (2 ^ 63) div 1000000000" by (intro zdiv_mono1) auto
  then show ?thesis by simp
qed

lemma tm_normalize_within:
  assumes "\<bar>sec t\<bar> \<le> B" "B \<le> 2 ^ 62" "\<bar>nsec t\<bar> < 2 ^ 63"
  shows "\<exists>u. tm_normalize t = Ok u \<and> tval u = tval t \<and> tnormal u \<and> \<bar>sec u\<bar> \<le> B + 2 ^ 34"
proof -
  define c where "c = (if nsec t > 0 then nsec t div 1000000000 + 1 else 0)"
  have c: "0 \<le> c" "c \<le> 2 ^ 34" unfolding c_def using div_small [of "nsec t"] assms(3) by (auto simp: div_int_pos_iff)
  have "- (2 ^ 63) \<le> sec t" "sec t + c < 2 ^ 63" using assms(1,2) c by auto
  then obtain u where u: "tm_norm_down (sec t) (nsec t) = Ok u" "tval u = sec t * 1000000000 + nsec t" "nsec u \<le> 1000000000"
      "\<not> (sec u < 0 \<and> nsec u > 0)" "sec t \<le> sec u" "sec u \<le> sec t + c" "min (nsec t) (-1000000000) \<le> nsec u"
    unfolding c_def using norm_down by blast
  define d where "d = (if nsec u < 0 then (- nsec u) div 1000000000 + 1 else 0)"
  have "- nsec u < 2 ^ 63" using u(7) assms(3) by (auto simp: min_def split: if_splits)
  then have d: "0 \<le> d" "d \<le> 2 ^ 34" unfolding d_def using div_small [of "- nsec u"] by (auto simp: div_int_pos_iff)
  have "sec u < 2 ^ 63" "- (2 ^ 63) \<le> sec u - d" using assms(1,2) c u(5,6) d by auto
  then obtain v where v: "tm_norm_up (sec u) (nsec u) = Ok v" "tval v = sec u * 1000000000 + nsec u" "tnormal v"
      "sec v \<le> sec u" "sec u - d \<le> sec v"
    unfolding d_def using norm_up u(3,4) by blast
  have "\<bar>sec v\<bar> \<le> B + 2 ^ 34" using v(4,5) u(5,6) c d assms(1) by linarith
  moreover have "tval v = tval t" using v(2) u(2) by (simp add: tval_def)
  ultimately show ?thesis using u(1) v(1,3) by (auto simp: tm_normalize_def)
qed

lemma tm_normalize_ok:
  assumes "tsafe t"
  shows "\<exists>u. tm_normalize t = Ok u \<and> tval u = tval t \<and> tnormal u \<and> \<bar>sec u\<bar> \<le> 2 ^ 60 + 2 ^ 34"
  using tm_normalize_within [of t "2 ^ 60"] assms by (auto simp: tsafe_def)

lemma tsafe_normal: "tnormal t \<Longrightarrow> \<bar>sec t\<bar> \<le> 2 ^ 60 \<Longrightarrow> tsafe t"
  by (auto simp: tsafe_def tnormal_def)

text \<open>No whole seconds are left in the nanoseconds of the normal form.\<close>

definition twhole :: "cat_time \<Rightarrow> bool" where
  "twhole t \<longleftrightarrow> nsec t = 0 \<or> \<not> 1000000000 dvd nsec t"

lemma twhole_normal:
  assumes "tm_normalize t = Ok u" "tval u = tval t" "tnormal u" "twhole t"
  shows "\<bar>nsec u\<bar> < 1000000000"
proof (cases "nsec t = 0")
  case True
  then have "u = t" using assms(1)
    by (cases t) (simp add: tm_normalize_def tm_norm_down.simps tm_norm_up.simps)
  then show ?thesis using True by simp
next
  case False
  then have n: "\<not> 1000000000 dvd nsec t" using assms(4) by (simp add: twhole_def)
  have "nsec u = nsec t + (sec t - sec u) * 1000000000" using assms(2) by (simp add: tval_def algebra_simps)
  then have "\<not> 1000000000 dvd nsec u" using n by (simp add: dvd_add_left_iff)
  then have "nsec u \<noteq> 1000000000" "nsec u \<noteq> -1000000000" by auto
  then show ?thesis using assms(3) by (auto simp: tnormal_def)
qed

lemma tm_ops:
  assumes "tsafe t1" "tsafe t2"
  shows "\<exists>d s c. tm_sub t1 t2 = Ok d \<and> tval d = tval t1 - tval t2 \<and> tnormal d
    \<and> tm_add t1 t2 = Ok s \<and> tval s = tval t1 + tval t2
    \<and> tm_cmp t1 t2 = Ok c \<and> (twhole t1 \<and> twhole t2 \<longrightarrow> c = sgn (tval t1 - tval t2))"
proof -
  obtain u1 where u1: "tm_normalize t1 = Ok u1" "tval u1 = tval t1" "tnormal u1" "\<bar>sec u1\<bar> \<le> 2 ^ 60 + 2 ^ 34"
    using tm_normalize_ok [OF assms(1)] by blast
  obtain u2 where u2: "tm_normalize t2 = Ok u2" "tval u2 = tval t2" "tnormal u2" "\<bar>sec u2\<bar> \<le> 2 ^ 60 + 2 ^ 34"
    using tm_normalize_ok [OF assms(2)] by blast
  have n: "\<bar>nsec u1\<bar> \<le> 1000000000" "\<bar>nsec u2\<bar> \<le> 1000000000" using u1(3) u2(3) by (auto simp: tnormal_def)
  have l: "long (sec u1 - sec u2) = Ok (sec u1 - sec u2)" "long (sec u1 + sec u2) = Ok (sec u1 + sec u2)"
    "long (nsec u1 - nsec u2) = Ok (nsec u1 - nsec u2)" "long (nsec u1 + nsec u2) = Ok (nsec u1 + nsec u2)"
    using u1(4) u2(4) n by (auto simp: long_def)
  let ?d = "\<lparr>sec = sec u1 - sec u2, nsec = nsec u1 - nsec u2\<rparr>"
  have "\<bar>sec ?d\<bar> \<le> 2 ^ 62" "\<bar>nsec ?d\<bar> < 2 ^ 63" using u1(4) u2(4) n by auto
  then obtain d where d: "tm_normalize ?d = Ok d" "tval d = tval ?d" "tnormal d"
    using tm_normalize_within [of ?d "2 ^ 62"] by auto
  have "tm_sub t1 t2 = Ok d" "tval d = tval t1 - tval t2"
    using u1(1,2) u2(1,2) l d by (auto simp: tm_sub_def tval_def algebra_simps)
  moreover have u22: "\<exists>v. tm_normalize u2 = Ok v"
    using tm_normalize_within [of u2 "2 ^ 62"] u2(4) n by auto
  then have "tm_add t1 t2 = Ok \<lparr>sec = sec u1 + sec u2, nsec = nsec u1 + nsec u2\<rparr>"
    "tval \<lparr>sec = sec u1 + sec u2, nsec = nsec u1 + nsec u2\<rparr> = tval t1 + tval t2"
    using u1(1,2) u2(1,2) l by (auto simp: tm_add_def tval_def algebra_simps)
  moreover obtain c where c: "tm_cmp t1 t2 = Ok c"
    "c = (if sec u1 \<noteq> sec u2 then sgn (sec u1 - sec u2) else sgn (nsec u1 - nsec u2))"
    using u1(1) u2(1) l by (auto simp: tm_cmp_def sgn_if)
  moreover have "c = sgn (tval t1 - tval t2)" if w: "twhole t1" "twhole t2"
  proof -
    have b: "\<bar>nsec u1\<bar> < 1000000000" "\<bar>nsec u2\<bar> < 1000000000"
      using twhole_normal [OF u1(1-3) w(1)] twhole_normal [OF u2(1-3) w(2)] by auto
    have "tval t1 - tval t2 > 0" if "sec u1 > sec u2"
    proof -
      have "nsec u1 - nsec u2 > -1000000000"
        using b u1(3) u2(3) that unfolding tnormal_def by (cases "sec u2 < 0") linarith+
      then show ?thesis using that u1(2) u2(2) by (simp add: tval_def)
    qed
    moreover have "tval t1 - tval t2 < 0" if "sec u1 < sec u2"
    proof -
      have "nsec u2 - nsec u1 > -1000000000"
        using b u1(3) u2(3) that unfolding tnormal_def by (cases "sec u1 < 0") linarith+
      then show ?thesis using that u1(2) u2(2) by (simp add: tval_def)
    qed
    moreover have "tval t1 - tval t2 = nsec u1 - nsec u2" if "sec u1 = sec u2"
      using that u1(2) u2(2) by (simp add: tval_def)
    ultimately show ?thesis using c(2) by (auto simp: sgn_if)
  qed
  ultimately show ?thesis using d(3) by blast
qed

text \<open>For times within 2^60 seconds, \<open>tm_sub\<close> and \<open>tm_add\<close> give the difference and the sum, the
  difference in normal form; and \<open>tm_cmp\<close> orders the times by their value when neither has a non-zero
  whole number of seconds in its nanoseconds.\<close>

theorem time_arithmetic:
  assumes "tsafe t1" "tsafe t2"
  shows "\<exists>d s c. tm_sub t1 t2 = Ok d \<and> tval d = tval t1 - tval t2 \<and> tnormal d
    \<and> tm_add t1 t2 = Ok s \<and> tval s = tval t1 + tval t2
    \<and> tm_cmp t1 t2 = Ok c \<and> (twhole t1 \<and> twhole t2 \<longrightarrow> c = sgn (tval t1 - tval t2))"
  by (rule tm_ops [OF assms])

lemma time_arithmetic_witness:
  "\<exists>d s c. tm_sub \<lparr>sec = 5, nsec = 1\<rparr> \<lparr>sec = 4, nsec = 2\<rparr> = Ok d \<and> tval d = 999999999 \<and> tnormal d
    \<and> tm_add \<lparr>sec = 5, nsec = 1\<rparr> \<lparr>sec = 4, nsec = 2\<rparr> = Ok s \<and> tval s = 9000000003
    \<and> tm_cmp \<lparr>sec = 5, nsec = 1\<rparr> \<lparr>sec = 4, nsec = 2\<rparr> = Ok c \<and> c = 1"
  using time_arithmetic [of "\<lparr>sec = 5, nsec = 1\<rparr>" "\<lparr>sec = 4, nsec = 2\<rparr>"] by (auto simp: tsafe_def tval_def twhole_def)

text \<open>The exceptions: a whole second in the nanoseconds, and the sum that \<open>tm_add\<close> leaves as it is.\<close>

lemma time_exceptions:
  "tm_cmp \<lparr>sec = 0, nsec = 1000000000\<rparr> \<lparr>sec = 1, nsec = 0\<rparr> = Ok (-1)
   \<and> tm_add \<lparr>sec = 0, nsec = 600000000\<rparr> \<lparr>sec = 0, nsec = 600000000\<rparr> = Ok \<lparr>sec = 0, nsec = 1200000000\<rparr>"
  by (rule conjI; code_simp)

section \<open>Times that count down\<close>

definition tnn :: "cat_time \<Rightarrow> bool" where
  "tnn t \<longleftrightarrow> 0 \<le> sec t \<and> sec t \<le> 2 ^ 60 \<and> 0 \<le> nsec t \<and> nsec t < 1000000000"

lemma tnn_tval: "tnn t \<Longrightarrow> 0 \<le> tval t" by (simp add: tnn_def tval_def)

lemma tnn_safe: "tnn t \<Longrightarrow> tsafe t \<and> twhole t"
  by (auto simp: tnn_def tsafe_def twhole_def dest: zdvd_imp_le)

lemma tm_normalize_nn: "tnn t \<Longrightarrow> tm_normalize t = Ok t"
  by (cases t) (simp add: tnn_def tm_normalize_def tm_norm_down.simps tm_norm_up.simps)

lemma tm_cmp_nn: "tnn t1 \<Longrightarrow> tnn t2 \<Longrightarrow> tm_cmp t1 t2 = Ok (sgn (tval t1 - tval t2))"
  using tm_ops [of t1 t2] tnn_safe by blast

lemma tm_sub_nn:
  assumes "tnn t1" "tnn t2" "tval t2 \<le> tval t1"
  shows "\<exists>d. tm_sub t1 t2 = Ok d \<and> tval d = tval t1 - tval t2 \<and> tnn d"
proof -
  let ?d = "\<lparr>sec = sec t1 - sec t2, nsec = nsec t1 - nsec t2\<rparr>"
  have b: "\<bar>sec ?d\<bar> \<le> 2 ^ 60" "\<bar>nsec ?d\<bar> < 1000000000" using assms(1,2) by (auto simp: tnn_def)
  obtain u where u: "tm_normalize ?d = Ok u" "tval u = tval ?d" "tnormal u"
    using tm_normalize_within [of ?d "2 ^ 60"] b by auto
  have "nsec ?d = 0 \<or> \<not> 1000000000 dvd nsec ?d" using b(2) dvd_imp_le_int [of "nsec ?d" 1000000000] by auto
  then have c: "\<bar>nsec u\<bar> < 1000000000" by (intro twhole_normal [OF u]) (simp add: twhole_def)
  have v: "tval u = tval t1 - tval t2" using u(2) by (simp add: tval_def algebra_simps)
  have "0 \<le> sec u * 1000000000 + nsec u" using v assms(3) by (simp add: tval_def)
  moreover have "sec u * 1000000000 + nsec u \<le> sec t1 * 1000000000 + nsec t1"
    using v tnn_tval [OF assms(2)] by (simp add: tval_def)
  ultimately have "tnn u" using c u(3) assms(1) by (auto simp: tnn_def tnormal_def)
  moreover have "tm_sub t1 t2 = Ok u"
    using u(1) assms(1,2) by (simp add: tm_sub_def tm_normalize_nn long_def tnn_def)
  ultimately show ?thesis using v by blast
qed

end
