(* ===== verification/DeltaList.thy ===== *)
theory DeltaList
  imports CatList CatTime
begin

text \<open>
  The delta lists of include/cat/dlist.h: a linked list of timers, each with the time left after
  its predecessor expires.  A \<open>struct dlist\<close> begins with its list node; the state is the heap of
  nodes and the times.
\<close>

record dheap =
  dl_list :: lheap
  dl_ttl :: "addr \<rightharpoonup> cat_time"

definition ttl :: "dheap \<Rightarrow> addr \<Rightarrow> cat_time outcome" where
  "ttl s a = (case dl_ttl s a of None \<Rightarrow> Fault | Some t \<Rightarrow> Ok t)"

definition set_ttl :: "addr \<Rightarrow> cat_time \<Rightarrow> dheap \<Rightarrow> dheap outcome" where
  "set_ttl a t s = (case dl_ttl s a of None \<Rightarrow> Fault | Some _ \<Rightarrow> Ok (s\<lparr>dl_ttl := (dl_ttl s)(a \<mapsto> t)\<rparr>))"

definition on_list :: "(lheap \<Rightarrow> lheap outcome) \<Rightarrow> dheap \<Rightarrow> dheap outcome" where
  "on_list f s = obind (f (dl_list s)) (\<lambda>h. Ok (s\<lparr>dl_list := h\<rparr>))"

definition dl_init :: "addr \<Rightarrow> cat_time \<Rightarrow> dheap \<Rightarrow> dheap outcome" where
  "dl_init a t s =
     abort_unless (a \<noteq> 0)
       (obind (on_list (l_init a) s) (\<lambda>s.
        obind (set_ttl a t s) (\<lambda>s.
        obind (tm_ltz t) (\<lambda>neg. if neg then set_ttl a tm_zero s else Ok s))))"

text \<open>The loop ends at the head, or at the first element due later than the new one.\<close>

definition dl_ins_step :: "dheap \<Rightarrow> addr \<times> cat_time \<times> bool \<Rightarrow> (addr \<times> cat_time \<times> bool) outcome" where
  "dl_ins_step s st =
     (case st of (t, left, brk) \<Rightarrow>
        obind (ttl s t) (\<lambda>d.
        obind (tm_cmp left d) (\<lambda>c.
          if c < 0 then Ok (t, left, True)
          else obind (tm_sub left d) (\<lambda>left. obind (l_next (dl_list s) t) (\<lambda>t. Ok (t, left, False))))))"

definition dl_ins :: "addr \<Rightarrow> addr \<Rightarrow> dheap \<Rightarrow> dheap run" where
  "dl_ins l a s =
     rbind (Some (abort_unless (l \<noteq> 0 \<and> a \<noteq> 0)
              (obind (ttl s a) (\<lambda>left. obind (l_next (dl_list s) l) (\<lambda>t. Ok (t, left, False)))))) (\<lambda>st.
     rbind (while_run (\<lambda>(t, left, brk). Ok (\<not> brk \<and> t \<noteq> l)) (\<lambda>st. Some (dl_ins_step s st)) st) (\<lambda>(t, left, brk).
     Some (obind (if t \<noteq> l then obind (ttl s t) (\<lambda>d. obind (tm_sub d left) (\<lambda>d. set_ttl t d s)) else Ok s) (\<lambda>s.
           obind (l_prev (dl_list s) t) (\<lambda>p.
           obind (on_list (l_ins p a) s) (set_ttl a left))))))"

definition dl_first :: "addr \<Rightarrow> dheap \<Rightarrow> cat_time outcome" where
  "dl_first l s =
     abort_unless (l \<noteq> 0)
       (obind (l_isempty l (dl_list s)) (\<lambda>e.
          if e then tm_lset (-1) (-1) else obind (l_next (dl_list s) l) (ttl s)))"

definition dl_deq :: "addr \<Rightarrow> dheap \<Rightarrow> (addr option \<times> dheap) outcome" where
  "dl_deq l s =
     abort_unless (l \<noteq> 0)
       (obind (l_isempty l (dl_list s)) (\<lambda>e.
          if e then Ok (None, s)
          else obind (l_next (dl_list s) l) (\<lambda>t. obind (on_list (l_rem t) s) (\<lambda>s. Ok (Some t, s)))))"

definition dl_adv_step :: "dheap \<Rightarrow> addr \<times> cat_time \<times> bool \<Rightarrow> (addr \<times> cat_time \<times> bool) outcome" where
  "dl_adv_step s st =
     (case st of (t, delta, brk) \<Rightarrow>
        obind (ttl s t) (\<lambda>d.
        obind (tm_cmp d delta) (\<lambda>c.
          if c > 0 then Ok (t, delta, True)
          else obind (tm_sub delta d) (\<lambda>delta. obind (l_next (dl_list s) t) (\<lambda>t. Ok (t, delta, False))))))"

text \<open>The nodes from \<open>hd\<close> to \<open>t\<close> move to the list \<open>out\<close>.\<close>

definition dl_unlink :: "addr \<Rightarrow> addr \<Rightarrow> addr \<Rightarrow> addr \<Rightarrow> lheap \<Rightarrow> lheap outcome" where
  "dl_unlink l out hd0 t h =
     obind (l_next h t) (\<lambda>n. obind (set_next l n h) (\<lambda>h.
     obind (l_next h t) (\<lambda>n. obind (set_prev n l h) (\<lambda>h.
     obind (set_prev hd0 out h) (\<lambda>h.
     obind (set_next out hd0 h) (\<lambda>h.
     obind (set_next t out h) (set_prev out t)))))))"

definition dl_adv :: "addr \<Rightarrow> cat_time \<Rightarrow> addr \<Rightarrow> dheap \<Rightarrow> dheap run" where
  "dl_adv l delta out s =
     rbind (Some (abort_unless (l \<noteq> 0 \<and> out \<noteq> 0) (on_list (l_init out) s))) (\<lambda>s.
     rbind (Some (l_isempty l (dl_list s))) (\<lambda>e.
     if e then ret s
     else rbind (Some (l_next (dl_list s) l)) (\<lambda>t.
          rbind (while_run (\<lambda>(t, delta, brk). Ok (\<not> brk \<and> t \<noteq> l)) (\<lambda>st. Some (dl_adv_step s st)) (t, delta, False))
            (\<lambda>(t, delta, brk).
          Some (obind (if t \<noteq> l then obind (ttl s t) (\<lambda>d. obind (tm_sub d delta) (\<lambda>d. set_ttl t d s)) else Ok s) (\<lambda>s.
                obind (l_next (dl_list s) l) (\<lambda>hd0.
                obind (l_prev (dl_list s) t) (\<lambda>t.
                obind (l_next (dl_list s) t) (\<lambda>n.
                  if n = hd0 then Ok s else on_list (dl_unlink l out hd0 t) s)))))))))"

definition dl_rem :: "addr \<Rightarrow> dheap \<Rightarrow> dheap outcome" where
  "dl_rem a s =
     obind (l_onlist a (dl_list s)) (\<lambda>on.
       if on
       then obind (l_next (dl_list s) a) (\<lambda>n.
            obind (ttl s n) (\<lambda>t1. obind (ttl s a) (\<lambda>t2.
            obind (tm_add t1 t2) (\<lambda>t.
            obind (set_ttl n t s) (on_list (l_rem a))))))
       else Ok s)"

definition dl_update :: "addr \<Rightarrow> addr \<Rightarrow> cat_time \<Rightarrow> dheap \<Rightarrow> dheap run" where
  "dl_update l a t s =
     rbind (Some (dl_rem a s)) (\<lambda>s.
     rbind (Some (set_ttl a t s)) (\<lambda>s.
     rbind (Some (obind (tm_ltz t) (\<lambda>neg. if neg then set_ttl a tm_zero s else Ok s))) (dl_ins l a)))"

section \<open>When each timer is due\<close>

definition tv :: "dheap \<Rightarrow> addr \<Rightarrow> int" where "tv s x = tval (the (dl_ttl s x))"

fun due :: "dheap \<Rightarrow> int \<Rightarrow> addr list \<Rightarrow> (addr \<times> int) list" where
  "due s b [] = []"
| "due s b (x # xs) = (x, b + tv s x) # due s (b + tv s x) xs"

definition dl_ok :: "dheap \<Rightarrow> addr list \<Rightarrow> bool" where
  "dl_ok s xs \<longleftrightarrow> (\<forall>x \<in> set xs. \<exists>t. dl_ttl s x = Some t \<and> tnn t)"

lemma due_append: "due s b (xs @ ys) = due s b xs @ due s (b + sum_list (map (tv s) xs)) ys"
  by (induction xs arbitrary: b) (auto simp: algebra_simps)

lemma map_fst_due [simp]: "map fst (due s b xs) = xs"
  by (induction xs arbitrary: b) auto

lemma due_cong: "(\<And>x. x \<in> set xs \<Longrightarrow> tv s' x = tv s x) \<Longrightarrow> due s' b xs = due s b xs"
  by (induction xs arbitrary: b) auto

lemma due_shift: "due s (b - d) xs = map (\<lambda>(x, t). (x, t - d)) (due s b xs)"
proof (induction xs arbitrary: b)
  case (Cons x xs)
  show ?case using Cons.IH [of "b + tv s x"] by (simp add: algebra_simps)
qed simp

lemma dl_ok_tv: "dl_ok s xs \<Longrightarrow> x \<in> set xs \<Longrightarrow> 0 \<le> tv s x"
  using tnn_tval by (force simp: dl_ok_def tv_def)

lemma due_least: "dl_ok s xs \<Longrightarrow> (x, t) \<in> set (due s b xs) \<Longrightarrow> b \<le> t"
proof (induction xs arbitrary: b)
  case (Cons y ys)
  have o: "dl_ok s ys" "0 \<le> tv s y" using Cons.prems(1) dl_ok_tv [of s "y # ys" y] by (auto simp: dl_ok_def)
  show ?case
  proof (cases "(x, t) = (y, b + tv s y)")
    case True then show ?thesis using o(2) by simp
  next
    case False
    then have "(x, t) \<in> set (due s (b + tv s y) ys)" using Cons.prems(2) by auto
    then show ?thesis using Cons.IH [OF o(1)] o(2) by fastforce
  qed
qed simp

text \<open>The pointers at a position of a list.\<close>

lemma ring_at:
  assumes "ring h l (as @ bs)"
  shows "bs \<noteq> [] \<Longrightarrow> l_next h (hd bs) = Ok (hd (tl bs @ [l]))" "l_prev h (hd (bs @ [l])) = Ok (last (l # as))"
proof -
  show "l_prev h (hd (bs @ [l])) = Ok (last (l # as))"
  proof (cases bs)
    case Nil
    then show ?thesis using assms ring_ends [of h l as] by (simp add: heap_reads)
  next
    case (Cons b bs')
    then have r: "ring h b (bs' @ l # as)" using assms by (simp add: ring_rotate)
    have "last (b # bs' @ l # as) = last (l # as)" by simp
    then show ?thesis using ring_ends [OF r] Cons by (simp add: heap_reads)
  qed
  assume "bs \<noteq> []"
  show "l_next h (hd bs) = Ok (hd (tl bs @ [l]))"
  proof -
    obtain b bs' where b: "bs = b # bs'" using \<open>bs \<noteq> []\<close> by (cases bs) auto
    then have r: "ring h b (bs' @ l # as)" using assms by (simp add: ring_rotate)
    show ?thesis using ring_ends(1,3) [OF r] b by (cases bs') (auto simp: heap_reads)
  qed
qed

lemma ttl_at: "dl_ok s xs \<Longrightarrow> x \<in> set xs \<Longrightarrow> \<exists>d. ttl s x = Ok d \<and> tnn d \<and> tval d = tv s x"
  by (force simp: dl_ok_def ttl_def tv_def)

lemma dl_walk:
  assumes "ring (dl_list s) l (as @ bs)" "dl_ok s bs" "tnn left"
    and step: "\<And>t left d. t \<noteq> l \<Longrightarrow> ttl s t = Ok d \<Longrightarrow> tnn d \<Longrightarrow> tnn left \<Longrightarrow>
       c (t, left, False) = (if stop (tval left) (tval d) then ret (t, left, True)
          else Some (obind (tm_sub left d) (\<lambda>left. obind (l_next (dl_list s) t) (\<lambda>t. Ok (t, left, False)))))"
    and le: "\<And>x y. \<not> stop x y \<Longrightarrow> y \<le> x"
  shows "\<exists>cs ds left' brk. bs = cs @ ds
    \<and> while_run (\<lambda>(t, left, brk). Ok (\<not> brk \<and> t \<noteq> l)) c (hd (bs @ [l]), left, False) = ret (hd (ds @ [l]), left', brk)
    \<and> tnn left' \<and> tval left' = tval left - sum_list (map (tv s) cs) \<and> (ds \<noteq> [] \<longrightarrow> stop (tval left') (tv s (hd ds)))"
  using assms(1-3)
proof (induction bs arbitrary: as left)
  case Nil
  have "while_run (\<lambda>(t, left, brk). Ok (\<not> brk \<and> t \<noteq> l)) c (l, left, False) = ret (l, left, False)"
    by (rule while_run_step(2)) simp
  then show ?case using Nil.prems(3) by (intro exI [of _ "[]"]) auto
next
  case (Cons b bs)
  obtain d where d: "ttl s b = Ok d" "tnn d" "tval d = tv s b" using ttl_at [OF Cons.prems(2)] by auto
  have bl: "b \<noteq> l" using Cons.prems(1) by (auto simp: ring_def)
  show ?case
  proof (cases "stop (tval left) (tval d)")
    case True
    have "while_run (\<lambda>(t, left, brk). Ok (\<not> brk \<and> t \<noteq> l)) c (b, left, False)
        = while_run (\<lambda>(t, left, brk). Ok (\<not> brk \<and> t \<noteq> l)) c (b, left, True)"
      by (rule while_run_step(1)) (use bl step [OF bl d(1,2) Cons.prems(3)] True in auto)
    also have "\<dots> = ret (b, left, True)" by (rule while_run_step(2)) simp
    finally show ?thesis using Cons.prems(3) True d(3) by (intro exI [of _ "[]"] exI [of _ "b # bs"]) auto
  next
    case False
    obtain left1 where l1: "tm_sub left d = Ok left1" "tval left1 = tval left - tval d" "tnn left1"
      using tm_sub_nn [OF Cons.prems(3) d(2) le [OF False]] by blast
    have "l_next (dl_list s) b = Ok (hd (bs @ [l]))" using ring_at(1) [OF Cons.prems(1)] by simp
    then have w: "while_run (\<lambda>(t, left, brk). Ok (\<not> brk \<and> t \<noteq> l)) c (b, left, False)
        = while_run (\<lambda>(t, left, brk). Ok (\<not> brk \<and> t \<noteq> l)) c (hd (bs @ [l]), left1, False)"
      by (intro while_run_step(1)) (use bl step [OF bl d(1,2) Cons.prems(3)] False l1(1) in auto)
    have "ring (dl_list s) l ((as @ [b]) @ bs)" "dl_ok s bs" using Cons.prems(1,2) by (simp_all add: dl_ok_def)
    note r = Cons.IH [OF this l1(3)]
    obtain cs ds left' brk where r: "bs = cs @ ds"
      "while_run (\<lambda>(t, left, brk). Ok (\<not> brk \<and> t \<noteq> l)) c (hd (bs @ [l]), left1, False) = ret (hd (ds @ [l]), left', brk)"
      "tnn left'" "tval left' = tval left1 - sum_list (map (tv s) cs)" "ds \<noteq> [] \<longrightarrow> stop (tval left') (tv s (hd ds))"
      using r by blast
    have "while_run (\<lambda>(t, left, brk). Ok (\<not> brk \<and> t \<noteq> l)) c (hd ((b # bs) @ [l]), left, False) = ret (hd (ds @ [l]), left', brk)"
      using w r(2) by simp
    moreover have "b # bs = (b # cs) @ ds" using r(1) by simp
    moreover have "tval left' = tval left - sum_list (map (tv s) (b # cs))" using r(4) l1(2) d(3) by simp
    ultimately show ?thesis using r(3,5) by blast
  qed
qed

lemma dl_steps:
  assumes "ttl s t = Ok d" "tnn d" "tnn left"
  shows "Some (dl_ins_step s (t, left, False)) = (if tval left < tval d then ret (t, left, True)
      else Some (obind (tm_sub left d) (\<lambda>left. obind (l_next (dl_list s) t) (\<lambda>t. Ok (t, left, False)))))"
    "Some (dl_adv_step s (t, left, False)) = (if tval left < tval d then ret (t, left, True)
      else Some (obind (tm_sub left d) (\<lambda>left. obind (l_next (dl_list s) t) (\<lambda>t. Ok (t, left, False)))))"
  using assms tm_cmp_nn [of left d] tm_cmp_nn [of d left] by (auto simp: dl_ins_step_def dl_adv_step_def sgn_if)

lemma due_split:
  assumes ok: "dl_ok s (cs @ ds)" and T: "0 \<le> T - sum_list (map (tv s) cs)" "ds \<noteq> [] \<longrightarrow> T - sum_list (map (tv s) cs) < tv s (hd ds)"
  shows "filter (\<lambda>(x, t). t \<le> T) (due s 0 (cs @ ds)) = due s 0 cs"
    "filter (\<lambda>(x, t). t > T) (due s 0 (cs @ ds)) = due s (sum_list (map (tv s) cs)) ds"
proof -
  have c: "t \<le> T" if "(x, t) \<in> set (due s 0 cs)" for x t
  proof -
    have "t \<le> b + sum_list (map (tv s) ys)" if "dl_ok s ys" "(x, t) \<in> set (due s b ys)" for b ys
      using that
    proof (induction ys arbitrary: b)
      case (Cons y ys)
      have o: "dl_ok s ys" using Cons.prems(1) by (simp add: dl_ok_def)
      have "0 \<le> sum_list (map (tv s) ys)" by (rule sum_list_nonneg) (use dl_ok_tv [OF o] in auto)
      then show ?case using Cons.IH [OF o, of "b + tv s y"] Cons.prems(2) by (auto simp: algebra_simps)
    qed simp
    from this [of cs 0] show ?thesis using that T(1) ok by (fastforce simp: dl_ok_def)
  qed
  have d: "t > T" if "(x, t) \<in> set (due s (sum_list (map (tv s) cs)) ds)" for x t
  proof -
    obtain z zs where z: "ds = z # zs" using \<open>(x, t) \<in> _\<close> by (cases ds) auto
    have "dl_ok s zs" using ok z by (simp add: dl_ok_def)
    then have "sum_list (map (tv s) cs) + tv s z \<le> t" using that z due_least by auto
    then show ?thesis using T(2) z by simp
  qed
  have "filter (\<lambda>(x, t). t \<le> T) (due s 0 cs) = due s 0 cs" "filter (\<lambda>(x, t). t > T) (due s 0 cs) = []"
    using c by (auto simp: filter_id_conv filter_empty_conv) (fastforce simp: not_less)
  moreover have "filter (\<lambda>(x, t). t \<le> T) (due s (sum_list (map (tv s) cs)) ds) = []"
    "filter (\<lambda>(x, t). t > T) (due s (sum_list (map (tv s) cs)) ds) = due s (sum_list (map (tv s) cs)) ds"
    using d by (auto simp: filter_id_conv filter_empty_conv) (fastforce simp: not_less)
  ultimately show "filter (\<lambda>(x, t). t \<le> T) (due s 0 (cs @ ds)) = due s 0 cs"
    "filter (\<lambda>(x, t). t > T) (due s 0 (cs @ ds)) = due s (sum_list (map (tv s) cs)) ds"
    by (simp_all add: due_append)
qed

lemma set_ttl_ok: "dl_ttl s a = Some t \<Longrightarrow> set_ttl a t' s = Ok (s\<lparr>dl_ttl := (dl_ttl s)(a \<mapsto> t')\<rparr>)"
  by (simp add: set_ttl_def)

text \<open>C21: \<open>dl_ins\<close> is an insertion into a queue of timers ordered by when they are due.  The list after it is
  the old one with the new node after every timer due no later than it, and each timer is due when it was;
  the times stay in normal form.\<close>

theorem dl_ins_keeps_due_times:
  assumes r: "rings (dl_list s) R" and l: "R l = Some xs" and a: "R a = Some []" "l \<noteq> a"
    and ok: "dl_ok s xs" and t: "dl_ttl s a = Some t" "tnn t"
  shows "\<exists>s' E. dl_ins l a s = ret s'
    \<and> E = filter (\<lambda>(x, d). d \<le> tval t) (due s 0 xs) @ (a, tval t) # filter (\<lambda>(x, d). d > tval t) (due s 0 xs)
    \<and> rings (dl_list s') (R(a := None, l \<mapsto> map fst E)) \<and> due s' 0 (map fst E) = E \<and> dl_ok s' (map fst E)"
proof -
  have rl: "ring (dl_list s) l xs" by (rule rings_ring [OF r l])
  have ra: "ring (dl_list s) a []" by (rule rings_ring [OF r a(1)])
  have nz: "l \<noteq> 0" "a \<noteq> 0" using rl ra by (auto simp: ring_def node_nz)
  have ax: "a \<notin> set xs" using rings_disjoint [OF r l a] by auto
  have "\<exists>cs ds left' brk. xs = cs @ ds
    \<and> while_run (\<lambda>(t, left, brk). Ok (\<not> brk \<and> t \<noteq> l)) (\<lambda>st. Some (dl_ins_step s st)) (hd (xs @ [l]), t, False) = ret (hd (ds @ [l]), left', brk)
    \<and> tnn left' \<and> tval left' = tval t - sum_list (map (tv s) cs) \<and> (ds \<noteq> [] \<longrightarrow> tval left' < tv s (hd ds))"
  proof (rule dl_walk [where as = "[]" and stop = "\<lambda>x y. x < y"])
    show "ring (dl_list s) l ([] @ xs)" using rl by simp
  qed (use ok t dl_steps(1) in auto)
  then obtain cs ds left' brk where w: "xs = cs @ ds"
    "while_run (\<lambda>(t, left, brk). Ok (\<not> brk \<and> t \<noteq> l)) (\<lambda>st. Some (dl_ins_step s st)) (hd (xs @ [l]), t, False) = ret (hd (ds @ [l]), left', brk)"
    "tnn left'" "tval left' = tval t - sum_list (map (tv s) cs)" "ds \<noteq> [] \<longrightarrow> tval left' < tv s (hd ds)" by blast
  define E where "E = due s 0 cs @ (a, tval t) # due s (sum_list (map (tv s) cs)) ds"
  have "0 \<le> tval t - sum_list (map (tv s) cs)" using tnn_tval [OF w(3)] w(4) by simp
  then have E: "E = filter (\<lambda>(x, d). d \<le> tval t) (due s 0 xs) @ (a, tval t) # filter (\<lambda>(x, d). d > tval t) (due s 0 xs)"
    using due_split [of s cs ds "tval t"] ok w unfolding E_def by simp
  have mE: "map fst E = cs @ a # ds" by (simp add: E_def)
  have rl': "ring (dl_list s) l (cs @ ds)" using rl w(1) by simp
  have prv: "l_prev (dl_list s) (hd (ds @ [l])) = Ok (last (l # cs))" by (rule ring_at(2) [OF rl'])
  have "l # xs = butlast (l # cs) @ last (l # cs) # ds" unfolding w(1)
    by (metis append.assoc append_Cons append_Nil append_butlast_last_id list.discI)
  then obtain h' where h': "l_ins (last (l # cs)) a (dl_list s) = Ok h'"
    "rings h' (R(a := None, l \<mapsto> tl (butlast (l # cs) @ last (l # cs) # a # ds)))"
    using rings_ins [OF r l _ a(1,2)] by blast
  have "tl (butlast (l # cs) @ last (l # cs) # a # ds) = cs @ a # ds"
    by (cases cs rule: rev_cases) (auto simp: butlast_append)
  then have rings': "rings h' (R(a := None, l \<mapsto> map fst E))" using h'(2) mE by simp
  have nxt: "l_next (dl_list s) l = Ok (hd (xs @ [l]))" by (rule rings_next [OF r l])
  have ttla: "ttl s a = Ok t" using t(1) by (simp add: ttl_def)
  show ?thesis
  proof (cases ds)
    case Nil
    let ?s = "s\<lparr>dl_list := h', dl_ttl := (dl_ttl s)(a \<mapsto> left')\<rparr>"
    have "dl_ins l a s = ret ?s"
      using nz nxt ttla w(2) prv h'(1) Nil t(1) by (simp add: dl_ins_def on_list_def set_ttl_def)
    moreover have "due ?s 0 (map fst E) = E"
    proof -
      have "due ?s 0 cs = due s 0 cs" "sum_list (map (tv ?s) cs) = sum_list (map (tv s) cs)" "tv ?s a = tval left'"
        using ax w(1) by (auto simp: tv_def intro!: due_cong arg_cong [where f = sum_list])
      then show ?thesis using w(4) by (simp add: mE due_append) (simp add: E_def Nil)
    qed
    moreover have "dl_ok ?s (map fst E)" using ok w(1,3) by (auto simp: dl_ok_def mE Nil)
    ultimately show ?thesis using E rings' by auto
  next
    case (Cons z zs)
    have zx: "z \<in> set xs" "z \<noteq> l" "z \<noteq> a" using w(1) Cons rl ax by (auto simp: ring_def)
    obtain d where d: "ttl s z = Ok d" "tnn d" "tval d = tv s z" using ttl_at [OF ok zx(1)] by blast
    obtain e where e: "tm_sub d left' = Ok e" "tval e = tval d - tval left'" "tnn e"
      using tm_sub_nn [OF d(2) w(3)] w(5) d(3) Cons by auto
    let ?s = "s\<lparr>dl_list := h', dl_ttl := (dl_ttl s)(z \<mapsto> e, a \<mapsto> left')\<rparr>"
    obtain dz where dz: "dl_ttl s z = Some dz" using d(1) by (auto simp: ttl_def split: option.splits)
    have "dl_ins l a s = ret ?s"
      using nz nxt ttla w(2) prv h'(1) Cons t(1) d(1) e(1) zx dz by (simp add: dl_ins_def on_list_def set_ttl_def)
    moreover have "due ?s 0 (map fst E) = E"
    proof -
      have dis: "z \<notin> set cs" "z \<notin> set zs" "a \<notin> set cs" "a \<notin> set zs" using rl w(1) Cons ax by (auto simp: ring_def)
      have "due ?s 0 cs = due s 0 cs" "sum_list (map (tv ?s) cs) = sum_list (map (tv s) cs)" "tv ?s a = tval left'" "tv ?s z = tval e"
        "\<And>b. due ?s b zs = due s b zs"
        using dis zx by (auto simp: tv_def intro!: due_cong arg_cong [where f = sum_list])
      then show ?thesis using w(4) e(2) d(3) by (simp add: mE due_append Cons) (simp add: E_def Cons add.commute)
    qed
    moreover have "dl_ok ?s (map fst E)" using ok w(1,3) e(3) by (auto simp: dl_ok_def mE Cons)
    ultimately show ?thesis using E rings' by auto
  qed
qed

lemma dl_unlink_ring:
  assumes r: "ring h l ((x # xs) @ bs)" and o: "ring h out []" "out \<notin> set (l # (x # xs) @ bs)"
  shows "\<exists>h'. dl_unlink l out x (last (x # xs)) h = Ok h' \<and> ring h' l bs \<and> ring h' out (x # xs)
    \<and> (\<forall>a. a \<notin> set (out # l # (x # xs) @ bs) \<longrightarrow> h' a = h a)"
proof -
  define t n where "t = last (x # xs)" and "n = hd (bs @ [l])"
  have t: "t \<in> set (x # xs)" unfolding t_def by (rule last_in_set) simp
  have n: "n \<in> set (l # bs)" unfolding n_def by (cases bs) auto
  have d: "distinct (l # (x # xs) @ bs)" using r by (simp add: ring_def)
  have ne: "t \<noteq> l" "n \<noteq> t" "n \<noteq> x" "t \<noteq> out" "x \<noteq> out" "n \<noteq> out" "l \<noteq> out" "x \<noteq> l" "n \<notin> set (x # xs)" "t \<notin> set bs" "x \<notin> set bs"
    using t n d o(2) by auto
  have nd: "node h t" "node h n" "node h x" "node h l" "node h out"
    using r o(1) t n by (auto simp: ring_def)
  have "seg h x (xs @ bs) l" using r by (simp add: ring_def)
  then have sx: "nx h t = n" "\<And>ys q. xs = ys @ [q] \<Longrightarrow> seg h x ys q" "bs \<noteq> [] \<Longrightarrow> seg h n (tl bs) l"
    unfolding t_def n_def by (cases xs rule: rev_cases; cases bs; auto simp: seg_append)+
  let ?h = "up out t (un t out (un out x (up x out (up n l (un l n h)))))"
  have "dl_unlink l out x t h = Ok ?h" using nd ne sx(1) by (simp add: dl_unlink_def heap_simps)
  moreover have "ring ?h out (x # xs)"
  proof -
    have "seg ?h x xs out"
    proof (cases xs rule: rev_cases)
      case Nil
      then show ?thesis using ne by (simp add: heap_simps t_def)
    next
      case (snoc ys q)
      then have q: "q = t" by (simp add: t_def)
      have "seg ?h x ys t \<longleftrightarrow> seg h x ys t"
        by (rule seg_frame) (use d ne snoc q o(2) in \<open>auto simp: heap_simps\<close>)
      moreover have "nx ?h t = out" "pv ?h out = t" using ne by (simp_all add: heap_simps)
      ultimately show ?thesis using sx(2) by (simp only: snoc q seg_append seg.simps)
    qed
    moreover have "nx ?h out = x" "pv ?h x = out" using ne by (simp_all add: heap_simps)
    moreover have "\<forall>p \<in> set (out # x # xs). node ?h p" using r nd by (auto simp: ring_def heap_simps)
    ultimately show ?thesis using d o(2) by (simp add: ring_def)
  qed
  moreover have "ring ?h l bs"
  proof (cases bs)
    case Nil
    then show ?thesis using nd ne by (simp add: ring_Nil heap_simps n_def node_nz)
  next
    case (Cons b bs')
    then have b: "n = b" by (simp add: n_def)
    have "seg ?h b bs' l \<longleftrightarrow> seg h b bs' l"
      by (rule seg_frame) (use d ne b Cons o(2) in \<open>auto simp: heap_simps\<close>)
    then have "seg ?h b bs' l" using sx(3) Cons b by simp
    moreover have "nx ?h l = b" "pv ?h b = l" using ne b by (simp_all add: heap_simps)
    moreover have "\<forall>p \<in> set (l # b # bs'). node ?h p" using r Cons by (auto simp: ring_def heap_simps)
    ultimately show ?thesis using d Cons by (auto simp: ring_Cons)
  qed
  moreover have "?h a = h a" if "a \<notin> set (out # l # (x # xs) @ bs)" for a
  proof -
    have "a \<noteq> t" "a \<noteq> n" "a \<noteq> x" "a \<noteq> l" "a \<noteq> out" using that t n by auto
    then show ?thesis by (simp add: heap_frame)
  qed
  ultimately show ?thesis unfolding t_def by blast
qed

lemma rings_unlink:
  assumes r: "rings h R" and l: "R l = Some ((x # xs) @ bs)" and o: "R out = Some []"
  shows "\<exists>h'. dl_unlink l out x (last (x # xs)) h = Ok h' \<and> rings h' (R(l \<mapsto> bs, out \<mapsto> x # xs))"
proof -
  have lo: "l \<noteq> out" using l o by auto
  have d: "out \<notin> set (l # (x # xs) @ bs)" using rings_disjoint [OF r l o lo] by auto
  have dl: "distinct (l # (x # xs) @ bs)" using rings_ring [OF r l] by (simp add: ring_def)
  obtain h' where h': "dl_unlink l out x (last (x # xs)) h = Ok h'" "ring h' l bs" "ring h' out (x # xs)"
    "\<forall>a. a \<notin> set (out # l # (x # xs) @ bs) \<longrightarrow> h' a = h a"
    using dl_unlink_ring [OF rings_ring [OF r l] rings_ring [OF r o] d] by blast
  have "rings h' (R(l \<mapsto> bs, out \<mapsto> x # xs))"
  proof (rule rings_change [OF r, where N = "set (out # l # (x # xs) @ bs)" and D = "{l, out}"])
    fix k ys assume k: "k \<notin> {l, out}" "R k = Some ys"
    show "set (k # ys) \<inter> set (out # l # (x # xs) @ bs) = {}"
      using rings_disjoint [OF r k(2) l] rings_disjoint [OF r k(2) o] k(1) by auto
  next
    fix k ys assume "k \<in> {l, out}" "(R(l \<mapsto> bs, out \<mapsto> x # xs)) k = Some ys"
    then show "ring h' k ys \<and> set (k # ys) \<subseteq> set (out # l # (x # xs) @ bs)" using h'(2,3) by (auto split: if_splits)
  next
    fix k ys m zs assume "k \<in> {l, out}" "m \<in> {l, out}" "k \<noteq> m" "(R(l \<mapsto> bs, out \<mapsto> x # xs)) k = Some ys"
      "(R(l \<mapsto> bs, out \<mapsto> x # xs)) m = Some zs"
    then show "set (k # ys) \<inter> set (m # zs) = {}" using d dl lo by (auto split: if_splits)
  qed (use h'(4) in auto)
  then show ?thesis using h'(1) by blast
qed

text \<open>C19: \<open>dl_adv\<close> advances the clock: it moves to \<open>out\<close>, in order, exactly the timers due within
  \<open>delta\<close>, and every timer that stays is due \<open>delta\<close> earlier.\<close>

theorem dl_adv_expires_due:
  assumes r: "rings (dl_list s) R" and l: "R l = Some xs" and o: "R out = Some []" "l \<noteq> out"
    and ok: "dl_ok s xs" and t: "tnn delta"
  shows "\<exists>s' gone kept. dl_adv l delta out s = ret s'
    \<and> gone = filter (\<lambda>(x, d). d \<le> tval delta) (due s 0 xs) \<and> kept = filter (\<lambda>(x, d). d > tval delta) (due s 0 xs)
    \<and> rings (dl_list s') (R(l \<mapsto> map fst kept, out \<mapsto> map fst gone))
    \<and> due s' 0 (map fst kept) = map (\<lambda>(x, d). (x, d - tval delta)) kept \<and> dl_ok s' (map fst kept)"
proof -
  have rl: "ring (dl_list s) l xs" by (rule rings_ring [OF r l])
  have ro: "ring (dl_list s) out []" by (rule rings_ring [OF r o(1)])
  have nz: "l \<noteq> 0" "out \<noteq> 0" using rl ro by (auto simp: ring_def node_nz)
  have init: "l_init out (dl_list s) = Ok (dl_list s)"
  proof -
    have "out \<noteq> 0" "dl_list s out \<noteq> None" "nx (dl_list s) out = out" "pv (dl_list s) out = out"
      using ro by (auto simp: ring_Nil node_def)
    then obtain n where n: "dl_list s out = Some n" "n = \<lparr>lnext = out, lprev = out\<rparr>"
      by (cases "dl_list s out") (auto simp: nx_def pv_def)
    have "(dl_list s)(out \<mapsto> n) = dl_list s" using n(1) by (rule fun_upd_idem)
    then show ?thesis using n nz(2) by (simp add: l_init_def set_prev_def set_next_def)
  qed
  have s0: "on_list (l_init out) s = Ok s" using init by (simp add: on_list_def)
  show ?thesis
  proof (cases "xs = []")
    case True
    then have "dl_adv l delta out s = ret s" using nz s0 rings_isempty [OF r l] by (simp add: dl_adv_def)
    moreover have "R(l \<mapsto> [], out \<mapsto> []) = R" using l o True by (auto simp: fun_eq_iff)
    ultimately show ?thesis using r True by (auto simp: dl_ok_def)
  next
    case False
    have "\<exists>cs ds left' brk. xs = cs @ ds
      \<and> while_run (\<lambda>(t, left, brk). Ok (\<not> brk \<and> t \<noteq> l)) (\<lambda>st. Some (dl_adv_step s st)) (hd (xs @ [l]), delta, False) = ret (hd (ds @ [l]), left', brk)
      \<and> tnn left' \<and> tval left' = tval delta - sum_list (map (tv s) cs) \<and> (ds \<noteq> [] \<longrightarrow> tval left' < tv s (hd ds))"
    proof (rule dl_walk [where as = "[]" and stop = "\<lambda>x y. x < y"])
      show "ring (dl_list s) l ([] @ xs)" using rl by simp
    qed (use ok t dl_steps(2) in auto)
    then obtain cs ds left' brk where w: "xs = cs @ ds"
      "while_run (\<lambda>(t, left, brk). Ok (\<not> brk \<and> t \<noteq> l)) (\<lambda>st. Some (dl_adv_step s st)) (hd (xs @ [l]), delta, False) = ret (hd (ds @ [l]), left', brk)"
      "tnn left'" "tval left' = tval delta - sum_list (map (tv s) cs)" "ds \<noteq> [] \<longrightarrow> tval left' < tv s (hd ds)" by blast
    have "0 \<le> tval delta - sum_list (map (tv s) cs)" using tnn_tval [OF w(3)] w(4) by simp
    then have E: "filter (\<lambda>(x, d). d \<le> tval delta) (due s 0 xs) = due s 0 cs"
      "filter (\<lambda>(x, d). d > tval delta) (due s 0 xs) = due s (sum_list (map (tv s) cs)) ds"
      using due_split [of s cs ds "tval delta"] ok w by simp_all
    have rl': "ring (dl_list s) l (cs @ ds)" using rl w(1) by simp
    have prv: "l_prev (dl_list s) (hd (ds @ [l])) = Ok (last (l # cs))" by (rule ring_at(2) [OF rl'])
    have nxt: "l_next (dl_list s) l = Ok (hd (xs @ [l]))" by (rule rings_next [OF r l])
    have e: "l_isempty l (dl_list s) = Ok False" using rings_isempty [OF r l] False by simp
    define fin where "fin s' = obind (l_next (dl_list s') l) (\<lambda>hd0. obind (l_prev (dl_list s') (hd (ds @ [l]))) (\<lambda>t.
        obind (l_next (dl_list s') t) (\<lambda>n. if n = hd0 then Ok s' else on_list (dl_unlink l out hd0 t) s')))" for s'
    have fin: "\<exists>h'. fin s' = Ok (s'\<lparr>dl_list := h'\<rparr>) \<and> rings h' (R(l \<mapsto> ds, out \<mapsto> cs))" if "dl_list s' = dl_list s" for s'
    proof (cases cs)
      case Nil
      have "R(l \<mapsto> ds, out \<mapsto> []) = R" using l o w(1) Nil by (auto simp: fun_eq_iff)
      moreover have "fin s' = Ok s'" using nxt prv Nil w(1) that by (simp add: fin_def)
      moreover have "s'\<lparr>dl_list := dl_list s\<rparr> = s'" by (cases s') (use that in simp)
      ultimately show ?thesis using r Nil by (intro exI [of _ "dl_list s"]) simp
    next
      case (Cons x cs')
      obtain h' where h': "dl_unlink l out x (last (x # cs')) (dl_list s) = Ok h'" "rings h' (R(l \<mapsto> ds, out \<mapsto> x # cs'))"
        using rings_unlink [OF r, of l x cs' ds out] l o w(1) Cons by auto
      have "cs = butlast cs @ [last cs]" using Cons by simp
      then have "ring (dl_list s) l (butlast cs @ last cs # ds)" using rl' by (metis append.assoc append_Cons append_Nil)
      then have nt: "l_next (dl_list s) (last cs) = Ok (hd (ds @ [l]))" using ring_at(1) [of "dl_list s" l "butlast cs" "last cs # ds"] by simp
      have "hd (ds @ [l]) \<noteq> x" using rl' Cons by (cases ds) (auto simp: ring_def)
      moreover have "l_next (dl_list s') l = Ok x" using nxt w(1) Cons that by simp
      moreover have "l_prev (dl_list s') (hd (ds @ [l])) = Ok (last cs)" using prv Cons that by simp
      moreover have "l_next (dl_list s') (last cs) = Ok (hd (ds @ [l]))" using nt that by simp
      moreover have "dl_unlink l out x (last cs) (dl_list s') = Ok h'" using h'(1) Cons that by simp
      ultimately have "fin s' = Ok (s'\<lparr>dl_list := h'\<rparr>)" by (simp add: fin_def on_list_def)
      then show ?thesis using h'(2) Cons by blast
    qed
    show ?thesis
    proof (cases ds)
      case Nil
      obtain h' where h': "fin s = Ok (s\<lparr>dl_list := h'\<rparr>)" "rings h' (R(l \<mapsto> ds, out \<mapsto> cs))" using fin by blast
      have "dl_adv l delta out s = Some (fin s)"
        using nz s0 e nxt w(2) Nil by (simp add: dl_adv_def fin_def)
      then show ?thesis using h' E Nil by (auto simp: dl_ok_def)
    next
      case (Cons z zs)
      have zx: "z \<in> set xs" "z \<noteq> l" using w(1) Cons rl by (auto simp: ring_def)
      obtain d where d: "ttl s z = Ok d" "tnn d" "tval d = tv s z" using ttl_at [OF ok zx(1)] by blast
      obtain dz where dz: "dl_ttl s z = Some dz" using d(1) by (auto simp: ttl_def split: option.splits)
      obtain f where f: "tm_sub d left' = Ok f" "tval f = tval d - tval left'" "tnn f"
        using tm_sub_nn [OF d(2) w(3)] w(5) d(3) Cons by auto
      let ?s = "s\<lparr>dl_ttl := (dl_ttl s)(z \<mapsto> f)\<rparr>"
      obtain h' where h': "fin ?s = Ok (?s\<lparr>dl_list := h'\<rparr>)" "rings h' (R(l \<mapsto> ds, out \<mapsto> cs))" using fin [of ?s] by auto
      have "dl_adv l delta out s = Some (fin ?s)"
        using nz s0 e nxt w(2) Cons zx d(1) f(1) dz by (simp add: dl_adv_def fin_def set_ttl_def)
      moreover have "due (?s\<lparr>dl_list := h'\<rparr>) 0 ds = map (\<lambda>(x, d). (x, d - tval delta)) (due s (sum_list (map (tv s) cs)) ds)"
      proof -
        have "z \<notin> set zs" using rl w(1) Cons by (simp add: ring_def)
        then have "tv (?s\<lparr>dl_list := h'\<rparr>) z = tval f" "\<And>b. due (?s\<lparr>dl_list := h'\<rparr>) b zs = due s b zs"
          by (auto simp: tv_def intro!: due_cong)
        moreover have "tval f = sum_list (map (tv s) cs) + tv s z - tval delta" using f(2) w(4) d(3) by simp
        ultimately show ?thesis by (simp add: Cons due_shift)
      qed
      moreover have "dl_ok (?s\<lparr>dl_list := h'\<rparr>) ds" using ok w(1) f(3) by (auto simp: dl_ok_def Cons)
      ultimately show ?thesis using h' E by (intro exI [of _ "?s\<lparr>dl_list := h'\<rparr>"]) simp
    qed
  qed
qed

definition sample_timers :: dheap where
  "sample_timers = \<lparr>dl_list = sample_heap,
     dl_ttl = [2 \<mapsto> \<lparr>sec = 1, nsec = 0\<rparr>, 3 \<mapsto> \<lparr>sec = 2, nsec = 0\<rparr>, 4 \<mapsto> \<lparr>sec = 1, nsec = 500000000\<rparr>]\<rparr>"

lemma sample_timers: "rings (dl_list sample_timers) [1 \<mapsto> [2, 3], 4 \<mapsto> []]" "dl_ok sample_timers [2, 3]"
  using sample_rings by (auto simp: sample_timers_def dl_ok_def tnn_def)

lemma dl_ins_keeps_due_times_witness:
  "\<exists>s' E. dl_ins 1 4 sample_timers = ret s'
    \<and> E = filter (\<lambda>(x, d). d \<le> tval \<lparr>sec = 1, nsec = 500000000\<rparr>) (due sample_timers 0 [2, 3])
        @ (4, tval \<lparr>sec = 1, nsec = 500000000\<rparr>) # filter (\<lambda>(x, d). d > tval \<lparr>sec = 1, nsec = 500000000\<rparr>) (due sample_timers 0 [2, 3])
    \<and> rings (dl_list s') ([1 \<mapsto> [2, 3], 4 \<mapsto> []](4 := None, 1 \<mapsto> map fst E)) \<and> due s' 0 (map fst E) = E \<and> dl_ok s' (map fst E)"
  by (rule dl_ins_keeps_due_times [OF sample_timers(1) _ _ _ sample_timers(2)]) (auto simp: sample_timers_def tnn_def)

lemma dl_adv_expires_due_witness:
  "\<exists>s' gone kept. dl_adv 1 \<lparr>sec = 2, nsec = 0\<rparr> 4 sample_timers = ret s'
    \<and> gone = filter (\<lambda>(x, d). d \<le> tval \<lparr>sec = 2, nsec = 0\<rparr>) (due sample_timers 0 [2, 3])
    \<and> kept = filter (\<lambda>(x, d). d > tval \<lparr>sec = 2, nsec = 0\<rparr>) (due sample_timers 0 [2, 3])
    \<and> rings (dl_list s') ([1 \<mapsto> [2, 3], 4 \<mapsto> []](1 \<mapsto> map fst kept, 4 \<mapsto> map fst gone))
    \<and> due s' 0 (map fst kept) = map (\<lambda>(x, d). (x, d - tval \<lparr>sec = 2, nsec = 0\<rparr>)) kept \<and> dl_ok s' (map fst kept)"
  by (rule dl_adv_expires_due [OF sample_timers(1) _ _ _ sample_timers(2)]) (auto simp: tnn_def)

end
