(* ===== verification/NodeTable.thy ===== *)
theory NodeTable
  imports Loops
begin

text \<open>
  The contract the hash tables and the search trees share, stated once: a table of nodes, each
  carrying a key, with lookup, insertion of a node whose key is not in the table, and removal of
  a node.  \<open>rep s E\<close> says that the state \<open>s\<close> is a well-formed table of the nodes and keys \<open>E\<close>,
  and \<open>free s n k\<close> that \<open>n\<close> is a node with the key \<open>k\<close> ready to be inserted.
\<close>

locale dictionary =
  fixes rep :: "'s \<Rightarrow> ('n \<times> 'k) set \<Rightarrow> bool"
    and free :: "'s \<Rightarrow> 'n \<Rightarrow> 'k \<Rightarrow> bool"
    and same :: "'k \<Rightarrow> 'k \<Rightarrow> bool"
    and find :: "'k \<Rightarrow> 's \<Rightarrow> 'n option run"
    and ins :: "'n \<Rightarrow> 's \<Rightarrow> 's run"
    and rem :: "'n \<Rightarrow> 's \<Rightarrow> 's run"
  assumes find_some: "rep s E \<Longrightarrow> \<exists>r. find k s = ret r
      \<and> (case r of Some n \<Rightarrow> \<exists>j. (n, j) \<in> E \<and> same j k | None \<Rightarrow> \<forall>(m, j) \<in> E. \<not> same j k)"
    and ins_ok: "rep s E \<Longrightarrow> free s n k \<Longrightarrow> \<forall>(m, j) \<in> E. \<not> same j k \<Longrightarrow> \<exists>s'. ins n s = ret s' \<and> rep s' (insert (n, k) E)"
    and rem_ok: "rep s E \<Longrightarrow> (n, k) \<in> E \<Longrightarrow> \<exists>s'. rem n s = ret s' \<and> rep s' (E - {(n, k)}) \<and> free s' n k"
    and same_refl: "same k k"
    and same_sym: "same j k \<Longrightarrow> same k j"
    and same_trans: "same j k \<Longrightarrow> same k l \<Longrightarrow> same j l"
    and rep_fun: "rep s E \<Longrightarrow> (n, j) \<in> E \<Longrightarrow> (n, k) \<in> E \<Longrightarrow> j = k"
begin

text \<open>The keys in the table are pairwise different.\<close>

definition unique :: "('n \<times> 'k) set \<Rightarrow> bool" where
  "unique E \<longleftrightarrow> (\<forall>(n, j) \<in> E. \<forall>(m, k) \<in> E. same j k \<longrightarrow> n = m)"

lemma uniqueD: "unique E \<Longrightarrow> (n, j) \<in> E \<Longrightarrow> (m, k) \<in> E \<Longrightarrow> same j k \<Longrightarrow> n = m"
  by (auto simp: unique_def)

lemma find_present: "rep s E \<Longrightarrow> unique E \<Longrightarrow> (n, j) \<in> E \<Longrightarrow> same j k \<Longrightarrow> find k s = ret (Some n)"
proof -
  assume a: "rep s E" "unique E" "(n, j) \<in> E" "same j k"
  obtain r where r: "find k s = ret r" "case r of Some n \<Rightarrow> \<exists>j. (n, j) \<in> E \<and> same j k | None \<Rightarrow> \<forall>(m, j) \<in> E. \<not> same j k"
    using find_some [OF a(1)] by blast
  then obtain m l where m: "r = Some m" "(m, l) \<in> E" "same l k" using a(3,4) by (cases r) auto
  have "same j l" using a(4) m(3) same_sym same_trans by blast
  then have "n = m" using a(2,3) m(2) unfolding unique_def by blast
  then show ?thesis using r(1) m(1) by simp
qed

lemma find_absent: "rep s E \<Longrightarrow> \<forall>(m, j) \<in> E. \<not> same j k \<Longrightarrow> find k s = ret None"
  using find_some [of s E k] by (fastforce split: option.splits)

text \<open>A node that went in is found under its key, and no longer once it is taken out again.\<close>

lemma insert_find_remove:
  assumes "rep s E" "unique E" "free s n k" "\<forall>(m, j) \<in> E. \<not> same j k"
  shows "\<exists>s' s''. ins n s = ret s' \<and> rep s' (insert (n, k) E) \<and> unique (insert (n, k) E)
    \<and> (\<forall>l. same k l \<longrightarrow> find l s' = ret (Some n))
    \<and> (\<forall>m j. (m, j) \<in> E \<longrightarrow> find j s' = ret (Some m))
    \<and> rem n s' = ret s'' \<and> rep s'' E \<and> find k s'' = ret None"
proof -
  obtain s' where s': "ins n s = ret s'" "rep s' (insert (n, k) E)" using ins_ok [OF assms(1,3,4)] by blast
  have u: "unique (insert (n, k) E)"
    using assms(2,4) same_sym unfolding unique_def by blast
  obtain s'' where s'': "rem n s' = ret s''" "rep s'' (insert (n, k) E - {(n, k)})"
    using rem_ok [OF s'(2), of n k] by blast
  have "(n, k) \<notin> E" using assms(4) same_refl by blast
  then have e: "rep s'' E" using s''(2) by simp
  show ?thesis
    using s' u s''(1) e find_present [OF s'(2) u] find_absent [OF e assms(4)] same_refl by blast
qed

text \<open>Removing a node leaves every other key where it was.\<close>

lemma remove_keeps_rest:
  assumes "rep s E" "unique E" "(n, k) \<in> E"
  shows "\<exists>s'. rem n s = ret s' \<and> rep s' (E - {(n, k)}) \<and> unique (E - {(n, k)})
    \<and> find k s' = ret None \<and> (\<forall>m j. (m, j) \<in> E \<longrightarrow> m \<noteq> n \<longrightarrow> find j s' = ret (Some m))"
proof -
  obtain s' where s': "rem n s = ret s'" "rep s' (E - {(n, k)})" using rem_ok [OF assms(1,3)] by blast
  have u: "unique (E - {(n, k)})" using assms(2) by (auto simp: unique_def)
  have "\<not> same j k" if "(m, j) \<in> E - {(n, k)}" for m j
  proof
    assume "same j k"
    then have "m = n" using uniqueD [OF assms(2) _ assms(3)] that by blast
    then show False using rep_fun [OF assms(1) _ assms(3)] that by blast
  qed
  then have "find k s' = ret None" using find_absent [OF s'(2)] by blast
  moreover have "find j s' = ret (Some m)" if "(m, j) \<in> E" "m \<noteq> n" for m j
    using find_present [OF s'(2) u _ same_refl, of m j] that by simp
  ultimately show ?thesis using s' u by auto
qed

end

end
