(* ===== verification/Hash.thy ===== *)
theory Hash
  imports NodeTable CString DivMod
begin

text \<open>
  The hash tables of include/cat/hash.h: an array of buckets, each the head of a chain of nodes
  that also point back at the pointer that points at them.

  A \<open>struct hnode **\<close> is either a bucket or the \<open>next\<close> field of a node.  A key is a value: the
  program reads it only through the comparison and hash functions, which are parameters.
\<close>

type_synonym haddr = nat

datatype href = Bkt nat | NextOf haddr

record 'k hnode =
  h_next :: haddr
  h_prevp :: "href option"
  h_key :: "'k option"

record 'k htab =
  bkts :: "haddr list"
  nbkts :: u32
  po2mask :: u32
  hnodes :: "haddr \<rightharpoonup> 'k hnode"

definition hget :: "'k htab \<Rightarrow> haddr \<Rightarrow> 'k hnode outcome" where
  "hget t a = (case hnodes t a of None \<Rightarrow> Fault | Some n \<Rightarrow> Ok n)"

definition hput :: "haddr \<Rightarrow> ('k hnode \<Rightarrow> 'k hnode) \<Rightarrow> 'k htab \<Rightarrow> 'k htab outcome" where
  "hput a f t = (case hnodes t a of None \<Rightarrow> Fault | Some n \<Rightarrow> Ok (t\<lparr>hnodes := (hnodes t)(a \<mapsto> f n)\<rparr>))"

text \<open>Reading and writing through a \<open>struct hnode **\<close>.\<close>

definition href_get :: "'k htab \<Rightarrow> href \<Rightarrow> haddr outcome" where
  "href_get t r =
     (case r of Bkt i \<Rightarrow> if i < length (bkts t) then Ok (bkts t ! i) else Fault
      | NextOf a \<Rightarrow> obind (hget t a) (\<lambda>n. Ok (h_next n)))"

definition href_set :: "href \<Rightarrow> haddr \<Rightarrow> 'k htab \<Rightarrow> 'k htab outcome" where
  "href_set r v t =
     (case r of Bkt i \<Rightarrow> if i < length (bkts t) then Ok (t\<lparr>bkts := (bkts t)[i := v]\<rparr>) else Fault
      | NextOf a \<Rightarrow> hput a (\<lambda>n. n\<lparr>h_next := v\<rparr>) t)"

section \<open>Operations\<close>

definition ht_init :: "haddr list \<Rightarrow> u32 \<Rightarrow> 'k htab \<Rightarrow> 'k htab outcome" where
  "ht_init arr n t =
     abort_unless (n > 0)
       (if unat n \<le> length arr
        then Ok (t\<lparr>nbkts := n, bkts := replicate (unat n) 0 @ drop (unat n) arr,
                   po2mask := (if n AND (n - 1) = 0 then n - 1 else 0)\<rparr>)
        else Fault)"

definition ht_ninit :: "haddr \<Rightarrow> 'k option \<Rightarrow> 'k htab \<Rightarrow> 'k htab outcome" where
  "ht_ninit a k t =
     abort_unless (a \<noteq> 0) (abort_unless (k \<noteq> None)
       (hput a (\<lambda>n. n\<lparr>h_next := 0, h_prevp := None, h_key := k\<rparr>) t))"

text \<open>\<open>CAT_HAS_DIV\<close> is the parameter \<open>has_div\<close>; without it the remainder is \<open>_modulo\<close> of \<open>DivMod\<close>.\<close>

definition ht_bucket :: "bool \<Rightarrow> 'k htab \<Rightarrow> u32 \<Rightarrow> nat" where
  "ht_bucket has_div t h =
     (if po2mask t \<noteq> 0 then unat (h AND po2mask t)
      else if has_div then unat (h mod nbkts t) else unat (modulo_c h (nbkts t)))"

text \<open>\<open>ht_hash\<close> applies the hash function of the table.\<close>

definition ht_hash :: "('k option \<Rightarrow> u32) \<Rightarrow> 'k option \<Rightarrow> u32" where "ht_hash hash k = hash k"

definition ht_lkup :: "bool \<Rightarrow> ('k option \<Rightarrow> 'k option \<Rightarrow> int) \<Rightarrow> ('k option \<Rightarrow> u32) \<Rightarrow> 'k htab \<Rightarrow> 'k option
    \<Rightarrow> (haddr option \<times> u32) run" where
  "ht_lkup has_div cmp hash t k =
     (if k = None then Some Abort
      else let h = hash k
           in rbind (Some (href_get t (Bkt (ht_bucket has_div t h)))) (\<lambda>node.
              rbind (while_run (\<lambda>(node, found). Ok (node \<noteq> 0 \<and> found = None))
                       (\<lambda>(node, found). Some (obind (hget t node) (\<lambda>n.
                          if cmp (h_key n) k = 0 then Ok (node, Some node) else Ok (h_next n, None))))
                       (node, None))
              (\<lambda>(node, found). ret (found, h))))"

definition ht_ins :: "bool \<Rightarrow> haddr \<Rightarrow> u32 \<Rightarrow> 'k htab \<Rightarrow> 'k htab outcome" where
  "ht_ins has_div node h t =
     abort_unless (node \<noteq> 0)
       (let trav = Bkt (ht_bucket has_div t h)
        in obind (hput node (\<lambda>n. n\<lparr>h_prevp := Some trav\<rparr>) t) (\<lambda>t.
           obind (href_get t trav) (\<lambda>first.
           obind (hput node (\<lambda>n. n\<lparr>h_next := first\<rparr>) t) (\<lambda>t.
           obind (if first \<noteq> 0 then hput first (\<lambda>n. n\<lparr>h_prevp := Some (NextOf node)\<rparr>) t else Ok t)
             (href_set trav node)))))"

definition ht_ins_h :: "bool \<Rightarrow> ('k option \<Rightarrow> u32) \<Rightarrow> haddr \<Rightarrow> 'k htab \<Rightarrow> 'k htab outcome" where
  "ht_ins_h has_div hash node t =
     abort_unless (node \<noteq> 0) (obind (hget t node) (\<lambda>n. ht_ins has_div node (ht_hash hash (h_key n)) t))"

definition ht_rem :: "haddr \<Rightarrow> 'k htab \<Rightarrow> 'k htab outcome" where
  "ht_rem node t =
     abort_unless (node \<noteq> 0)
       (obind (hget t node) (\<lambda>n.
        obind (case h_prevp n of
                 None \<Rightarrow> Ok t
               | Some r \<Rightarrow>
                   obind (href_set r (h_next n) t) (\<lambda>t.
                   obind (if h_next n \<noteq> 0 then hput (h_next n) (\<lambda>n. n\<lparr>h_prevp := Some r\<rparr>) t else Ok t)
                     (hput node (\<lambda>n. n\<lparr>h_prevp := None\<rparr>))))
          (hput node (\<lambda>n. n\<lparr>h_next := 0\<rparr>))))"

text \<open>\<open>f\<close> may change the table and a state of its own; the next node is read before the call.\<close>

definition ht_apply :: "(haddr \<Rightarrow> 'k htab \<times> 's \<Rightarrow> ('k htab \<times> 's) run) \<Rightarrow> 'k htab \<times> 's \<Rightarrow> ('k htab \<times> 's) run" where
  "ht_apply f st =
     for_run [0..<unat (nbkts (fst st))]
       (\<lambda>i st. rbind (Some (href_get (fst st) (Bkt i))) (\<lambda>node.
          rbind (while_run (\<lambda>(node, st). Ok (node \<noteq> 0))
                   (\<lambda>(node, st). rbind (Some (hget (fst st) node)) (\<lambda>n. rbind (f node st) (\<lambda>st. ret (h_next n, st))))
                   (node, st))
            (\<lambda>(node, st). ret st))) st"

section \<open>Hash functions\<close>

definition hash_byte :: "u32 \<Rightarrow> byte \<Rightarrow> u32" where
  "hash_byte h c =
     (let h = push_bit 4 h + ucast c; g = h AND 0xf000000
      in if g \<noteq> 0 then (h XOR drop_bit 24 g) XOR g else h)"

fun ht_shash_loop :: "byte list \<Rightarrow> u32 \<Rightarrow> u32 outcome" where
  "ht_shash_loop [] h = Fault"
| "ht_shash_loop (c # p) h = (if c \<noteq> 0 then ht_shash_loop p (hash_byte h c) else Ok h)"

definition ht_shash :: "byte list \<Rightarrow> u32 outcome" where "ht_shash key = ht_shash_loop key 0"

fun ht_rhash_loop :: "byte list \<Rightarrow> nat \<Rightarrow> u32 \<Rightarrow> u32 outcome" where
  "ht_rhash_loop p 0 h = Ok h"
| "ht_rhash_loop [] (Suc l) h = Fault"
| "ht_rhash_loop (c # p) (Suc l) h = ht_rhash_loop p l (hash_byte h c)"

text \<open>The length is truncated to an unsigned int first; \<open>data\<close> is NULL when \<open>null\<close> is set.\<close>

definition ht_rhash :: "raw \<Rightarrow> bool \<Rightarrow> u32 outcome" where
  "ht_rhash r null =
     (let l = of_nat (raw_len r) :: u32
      in abort_unless (l \<noteq> 0) (abort_unless (\<not> null) (ht_rhash_loop (raw_data r) (unat l) 0)))"

definition ht_phash :: "u64 \<Rightarrow> u32" where "ht_phash key = ucast (drop_bit 2 key)"

definition ht_ihash :: "u64 \<Rightarrow> u32" where
  "ht_ihash v = ucast ((v * drop_bit 7 v + drop_bit 25 v) OR push_bit 18 v)"

section \<open>Chains\<close>

lemma ht_bucket_less:
  assumes "nbkts t > 0" "po2mask t = (if nbkts t AND (nbkts t - 1) = 0 then nbkts t - 1 else 0)"
  shows "ht_bucket d t h < unat (nbkts t)"
proof -
  have n: "unat (nbkts t) > 0" using assms(1) by (simp add: word_less_nat_alt)
  show ?thesis
  proof (cases "po2mask t = 0")
    case True
    have "nbkts t \<noteq> 0" using assms(1) by auto
    then show ?thesis using True n by (simp add: ht_bucket_def modulo_c_correct unat_mod)
  next
    case False
    then have m: "po2mask t = nbkts t - 1" using assms(2) by (auto split: if_splits)
    have "unat (h AND po2mask t) \<le> unat (po2mask t)"
      by (metis word_and_le1 word_le_nat_alt)
    also have "\<dots> < unat (nbkts t)"
      using m n False by (metis gr_implies_not0 measure_unat unat_0 word_less_nat_alt)
    finally show ?thesis using False by (simp add: ht_bucket_def)
  qed
qed

lemma ht_bucket_div: "nbkts t > 0 \<Longrightarrow> ht_bucket d t h = ht_bucket True t h"
  by (auto simp: ht_bucket_def modulo_c_correct)

lemma ht_bucket_cong: "nbkts t = nbkts t' \<Longrightarrow> po2mask t = po2mask t' \<Longrightarrow> ht_bucket d t = ht_bucket d t'"
  by (auto simp: ht_bucket_def fun_eq_iff)

fun hchain :: "(haddr \<rightharpoonup> 'k hnode) \<Rightarrow> href \<Rightarrow> haddr \<Rightarrow> haddr list \<Rightarrow> bool" where
  "hchain N r p [] \<longleftrightarrow> p = 0"
| "hchain N r p (x # xs) \<longleftrightarrow> p = x \<and> x \<noteq> 0
     \<and> (\<exists>n. N x = Some n \<and> h_prevp n = Some r \<and> hchain N (NextOf x) (h_next n) xs)"

lemma hchain_frame: "(\<And>x. x \<in> set xs \<Longrightarrow> N' x = N x) \<Longrightarrow> hchain N' r p xs = hchain N r p xs"
proof (induction xs arbitrary: r p)
  case (Cons x xs)
  have "hchain N' r' q xs = hchain N r' q xs" for r' q by (rule Cons.IH) (use Cons.prems in simp)
  moreover have "N' x = N x" using Cons.prems by simp
  ultimately show ?case by simp
qed simp

lemma hchain_nz: "hchain N r p xs \<Longrightarrow> 0 \<notin> set xs"
  by (induction xs arbitrary: r p) auto

lemma hchain_dom: "hchain N r p xs \<Longrightarrow> x \<in> set xs \<Longrightarrow> N x \<noteq> None"
  by (induction xs arbitrary: r p) auto


text \<open>\<open>ch b\<close> lists the nodes of bucket \<open>b\<close>.\<close>

definition ht_rep :: "('k option \<Rightarrow> u32) \<Rightarrow> 'k htab \<Rightarrow> (nat \<Rightarrow> haddr list) \<Rightarrow> bool" where
  "ht_rep hash t ch \<longleftrightarrow>
     nbkts t > 0 \<and> po2mask t = (if nbkts t AND (nbkts t - 1) = 0 then nbkts t - 1 else 0)
     \<and> unat (nbkts t) \<le> length (bkts t)
     \<and> (\<forall>b < unat (nbkts t). hchain (hnodes t) (Bkt b) (bkts t ! b) (ch b) \<and> distinct (ch b))
     \<and> (\<forall>b < unat (nbkts t). \<forall>c < unat (nbkts t). b \<noteq> c \<longrightarrow> set (ch b) \<inter> set (ch c) = {})
     \<and> (\<forall>b < unat (nbkts t). \<forall>x \<in> set (ch b). ht_bucket True t (hash (h_key (the (hnodes t x)))) = b)"

definition ht_elems :: "'k htab \<Rightarrow> (nat \<Rightarrow> haddr list) \<Rightarrow> haddr set" where
  "ht_elems t ch = (\<Union>b < unat (nbkts t). set (ch b))"

section \<open>Lookup\<close>

lemma lkup_walk:
  assumes "hchain (hnodes t) r p xs"
  shows "\<exists>q. while_run (\<lambda>(node, found). Ok (node \<noteq> 0 \<and> found = None))
      (\<lambda>(node, found). Some (obind (hget t node) (\<lambda>n. if cmp (h_key n) k = (0 :: int) then Ok (node, Some node) else Ok (h_next n, None))))
      (p, None) = ret (q, List.find (\<lambda>x. cmp (h_key (the (hnodes t x))) k = 0) xs)"
  using assms
proof (induction xs arbitrary: r p)
  case Nil
  then show ?case by (simp add: while_run_step(2))
next
  case (Cons x xs)
  then obtain n where n: "p = x" "x \<noteq> 0" "hnodes t x = Some n" "hchain (hnodes t) (NextOf x) (h_next n) xs" by auto
  show ?case
  proof (cases "cmp (h_key n) k = 0")
    case True
    then show ?thesis using n by (subst while_run_step(1)) (auto simp: hget_def while_run_step(2))
  next
    case False
    then show ?thesis using n Cons.IH [OF n(4)] by (subst while_run_step(1)) (auto simp: hget_def)
  qed
qed

lemma ht_rep_bucket: "ht_rep hash t ch \<Longrightarrow> ht_bucket d t h < unat (nbkts t) \<and> ht_bucket d t h = ht_bucket True t h"
  using ht_bucket_less ht_bucket_div by (auto simp: ht_rep_def)

lemma ht_lkup_ok:
  assumes "ht_rep hash t ch" "k \<noteq> None"
  shows "ht_lkup d cmp hash t k
    = ret (List.find (\<lambda>x. cmp (h_key (the (hnodes t x))) k = 0) (ch (ht_bucket True t (hash k))), hash k)"
proof -
  let ?b = "ht_bucket True t (hash k)"
  have b: "?b < unat (nbkts t)" "ht_bucket d t (hash k) = ?b" using ht_rep_bucket [OF assms(1)] by blast+
  then have c: "hchain (hnodes t) (Bkt ?b) (bkts t ! ?b) (ch ?b)" "?b < length (bkts t)" using assms(1) by (auto simp: ht_rep_def)
  show ?thesis
    using lkup_walk [OF c(1), of cmp k] assms(2) c(2) b(2) by (auto simp: ht_lkup_def Let_def href_get_def)
qed

section \<open>Insertion and removal\<close>

definition same_keys :: "'k htab \<Rightarrow> 'k htab \<Rightarrow> bool" where
  "same_keys t t' \<longleftrightarrow> (\<forall>x. map_option h_key (hnodes t' x) = map_option h_key (hnodes t x))"

lemma same_keys_the: "same_keys t t' \<Longrightarrow> hnodes t x \<noteq> None \<Longrightarrow> h_key (the (hnodes t' x)) = h_key (the (hnodes t x))"
proof -
  assume a: "same_keys t t'" "hnodes t x \<noteq> None"
  from a(1) have "map_option h_key (hnodes t' x) = map_option h_key (hnodes t x)" by (simp add: same_keys_def)
  then show ?thesis using a(2) by (cases "hnodes t x"; cases "hnodes t' x") auto
qed

lemma ht_elems_dom: "ht_rep hash t ch \<Longrightarrow> x \<in> ht_elems t ch \<Longrightarrow> hnodes t x \<noteq> None"
  unfolding ht_rep_def ht_elems_def using hchain_dom by fastforce

lemma ht_ins_ok:
  assumes r: "ht_rep hash t ch" and n: "hnodes t n = Some nd" "n \<noteq> 0" "n \<notin> ht_elems t ch"
  defines "b \<equiv> ht_bucket True t (hash (h_key nd))"
  shows "\<exists>t'. ht_ins d n (hash (h_key nd)) t = Ok t' \<and> ht_rep hash t' (ch(b := n # ch b)) \<and> same_keys t t' \<and> nbkts t' = nbkts t"
proof -
  have b: "b < unat (nbkts t)" "ht_bucket d t (hash (h_key nd)) = b" using ht_rep_bucket [OF r] unfolding b_def by blast+
  have len: "b < length (bkts t)" using r b(1) by (auto simp: ht_rep_def)
  let ?N = "hnodes t" and ?f = "bkts t ! b"
  have c: "hchain ?N (Bkt b) ?f (ch b)" "distinct (ch b)" using r b(1) by (auto simp: ht_rep_def)
  have nb: "n \<notin> set (ch c)" if "c < unat (nbkts t)" for c using n(3) that by (auto simp: ht_elems_def)
  let ?nd = "nd\<lparr>h_prevp := Some (Bkt b), h_next := ?f\<rparr>"
  let ?N1 = "?N(n \<mapsto> ?nd)"
  let ?N2 = "if ?f \<noteq> 0 then ?N1(?f \<mapsto> (the (?N ?f))\<lparr>h_prevp := Some (NextOf n)\<rparr>) else ?N1"
  have fn: "?f \<noteq> 0 \<Longrightarrow> ?f \<noteq> n \<and> ?N ?f \<noteq> None \<and> ch b = ?f # tl (ch b)"
    using c(1) nb [OF b(1)] by (cases "ch b") auto
  let ?t = "t\<lparr>hnodes := ?N2, bkts := (bkts t)[b := n]\<rparr>"
  have "ht_ins d n (hash (h_key nd)) t = Ok ?t"
    using n(1,2) b(2) len fn by (cases "?f = 0") (auto simp: ht_ins_def Let_def hput_def href_get_def href_set_def)
  moreover have keys: "same_keys t ?t" using n(1) fn by (auto simp: same_keys_def)
  moreover have "ht_rep hash ?t (ch(b := n # ch b))"
  proof -
    have other: "hchain ?N2 r' p (ch c) = hchain ?N r' p (ch c)" if "c < unat (nbkts t)" "c \<noteq> b" for c r' p
    proof (rule hchain_frame)
      fix x assume x: "x \<in> set (ch c)"
      have "x \<noteq> n" using nb [OF that(1)] x by auto
      moreover have "x \<noteq> ?f" if "?f \<noteq> 0"
      proof -
        have "?f \<in> set (ch b)" using fn [OF that] by (metis list.set_intros(1))
        then show ?thesis using r x \<open>c \<noteq> b\<close> \<open>c < _\<close> b(1) unfolding ht_rep_def by blast
      qed
      ultimately show "?N2 x = ?N x" by auto
    qed
    have mine: "hchain ?N2 (Bkt b) n (n # ch b)"
    proof (cases "ch b")
      case Nil
      then show ?thesis using c(1) n(2) by simp
    next
      case (Cons x xs)
      then obtain nx where x: "?f = x" "x \<noteq> 0" "?N x = Some nx" "hchain ?N (NextOf x) (h_next nx) xs" using c(1) by auto
      have "hchain ?N2 (NextOf x) (h_next nx) xs = hchain ?N (NextOf x) (h_next nx) xs"
        by (rule hchain_frame) (use c(2) Cons nb [OF b(1)] x in auto)
      then show ?thesis using x n(2) Cons fn by auto
    qed
    have bu: "ht_bucket True ?t = ht_bucket True t" by (rule ht_bucket_cong) auto
    have ks: "h_key (the (hnodes ?t x)) = h_key (the (?N x))" if "?N x \<noteq> None" for x by (rule same_keys_the [OF keys that])
    have kb: "ht_bucket True ?t (hash (h_key (the (hnodes ?t x)))) = c" if "c < unat (nbkts t)" "x \<in> set (ch c)" for c x
    proof -
      have "?N x \<noteq> None" by (rule ht_elems_dom [OF r]) (use that in \<open>auto simp: ht_elems_def\<close>)
      then show ?thesis using r that ks bu unfolding ht_rep_def by metis
    qed
    have kn: "ht_bucket True ?t (hash (h_key (the (hnodes ?t n)))) = b" using ks [of n] n(1) bu b_def by simp
    show ?thesis
      unfolding ht_rep_def
    proof (intro conjI allI impI ballI)
      show "nbkts ?t > 0" "po2mask ?t = (if nbkts ?t AND (nbkts ?t - 1) = 0 then nbkts ?t - 1 else 0)"
        "unat (nbkts ?t) \<le> length (bkts ?t)" using r by (auto simp: ht_rep_def)
    next
      fix c assume c': "c < unat (nbkts ?t)"
      show "hchain (hnodes ?t) (Bkt c) (bkts ?t ! c) ((ch(b := n # ch b)) c)"
        using mine other [of c] c' r len by (cases "c = b") (auto simp: ht_rep_def)
      show "distinct ((ch(b := n # ch b)) c)" using c' r nb c(2) by (auto simp: ht_rep_def)
      fix x assume "x \<in> set ((ch(b := n # ch b)) c)"
      then show "ht_bucket True ?t (hash (h_key (the (hnodes ?t x)))) = c"
        using kb [of c x] kn c' by (cases "c = b") auto
    next
      fix c e assume "c < unat (nbkts ?t)" "e < unat (nbkts ?t)" "c \<noteq> e"
      then show "set ((ch(b := n # ch b)) c) \<inter> set ((ch(b := n # ch b)) e) = {}"
        using r nb by (auto simp: ht_rep_def)
    qed
  qed
  ultimately show ?thesis by auto
qed

text \<open>What \<open>ht_rem\<close> does to the nodes: \<open>r'\<close> is the pointer that points at the node.\<close>

definition rem_nodes :: "(haddr \<rightharpoonup> 'k hnode) \<Rightarrow> href \<Rightarrow> haddr \<Rightarrow> 'k hnode \<Rightarrow> haddr \<rightharpoonup> 'k hnode" where
  "rem_nodes N r' n nd =
     (let N1 = (case r' of Bkt _ \<Rightarrow> N | NextOf a \<Rightarrow> N(a \<mapsto> (the (N a))\<lparr>h_next := h_next nd\<rparr>));
          N2 = (if h_next nd \<noteq> 0 then N1(h_next nd \<mapsto> (the (N1 (h_next nd)))\<lparr>h_prevp := Some r'\<rparr>) else N1)
      in N2(n \<mapsto> nd\<lparr>h_prevp := None, h_next := 0\<rparr>))"

lemma rem_nodes_other:
  "x \<noteq> n \<Longrightarrow> r' \<noteq> NextOf x \<Longrightarrow> x \<noteq> h_next nd \<Longrightarrow> rem_nodes N r' n nd x = N x"
  by (auto simp: rem_nodes_def Let_def split: href.splits)

lemma hchain_prevp:
  "hchain N r p (xs @ n # ys) \<Longrightarrow> \<exists>nd. N n = Some nd \<and> h_prevp nd = Some (if xs = [] then r else NextOf (last xs))
    \<and> hchain N (NextOf n) (h_next nd) ys"
  by (induction xs arbitrary: r p) auto

lemma chain_rem:
  assumes "hchain N r p (xs @ n # ys)" "distinct (xs @ n # ys)" "N n = Some nd" "\<And>a. r = NextOf a \<Longrightarrow> a \<notin> set (xs @ n # ys)"
  defines "r' \<equiv> if xs = [] then r else NextOf (last xs)"
  shows "hchain (rem_nodes N r' n nd) r (if xs = [] then h_next nd else p) (xs @ ys)"
  using assms(1,2,4) unfolding r'_def
proof (induction xs arbitrary: r p)
  case Nil
  show ?case
  proof (cases ys)
    case Nil
    then show ?thesis using assms(3) \<open>hchain N r p ([] @ n # ys)\<close> by auto
  next
    case (Cons y zs)
    then obtain ny where y: "h_next nd = y" "y \<noteq> 0" "N y = Some ny" "h_prevp ny = Some (NextOf n)" "hchain N (NextOf y) (h_next ny) zs"
      using Nil.prems(1) assms(3) by auto
    have d: "y \<noteq> n" "n \<notin> set zs" "y \<notin> set zs" using Nil.prems(2) Cons by auto
    have a: "r = NextOf c \<Longrightarrow> c \<noteq> y \<and> c \<notin> set zs" for c using Nil.prems(3) Cons by auto
    have "hchain (rem_nodes N r n nd) (NextOf y) (h_next ny) zs = hchain N (NextOf y) (h_next ny) zs"
    proof (rule hchain_frame)
      fix x assume "x \<in> set zs"
      then show "rem_nodes N r n nd x = N x" using d a y(1) by (intro rem_nodes_other) auto
    qed
    moreover have "rem_nodes N r n nd y = Some (ny\<lparr>h_prevp := Some r\<rparr>)"
      using y d(1) a by (auto simp: rem_nodes_def Let_def split: href.splits)
    ultimately show ?thesis using Cons y by auto
  qed
next
  case (Cons x xs')
  let ?r = "if x # xs' = [] then r else NextOf (last (x # xs'))"
  obtain nx where x: "p = x" "x \<noteq> 0" "N x = Some nx" "h_prevp nx = Some r" "hchain N (NextOf x) (h_next nx) (xs' @ n # ys)"
    using Cons.prems(1) by auto
  have d: "x \<notin> set (xs' @ n # ys)" "distinct (xs' @ n # ys)" using Cons.prems(2) by auto
  have ih: "hchain (rem_nodes N (if xs' = [] then NextOf x else NextOf (last xs')) n nd) (NextOf x)
      (if xs' = [] then h_next nd else h_next nx) (xs' @ ys)"
    by (rule Cons.IH [OF x(5) d(2)]) (use d(1) in auto)
  have r: "?r = (if xs' = [] then NextOf x else NextOf (last xs'))" by simp
  have nn: "h_next nd = 0 \<or> h_next nd \<in> set ys"
    using hchain_prevp [OF Cons.prems(1)] assms(3) by (cases ys) auto
  have "rem_nodes N ?r n nd x = Some (if xs' = [] then nx\<lparr>h_next := h_next nd\<rparr> else nx)"
    using d(1) x(2,3) nn by (auto simp: rem_nodes_def Let_def)
  then show ?case using x ih unfolding r by auto
qed

lemma hchain_unique: "hchain N r p xs \<Longrightarrow> hchain N r p ys \<Longrightarrow> xs = ys"
proof (induction xs arbitrary: r p ys)
  case Nil
  then show ?case by (cases ys) auto
next
  case (Cons x xs)
  then show ?case by (cases ys) auto
qed

lemma ht_elems_unique: "ht_rep hash t ch \<Longrightarrow> ht_rep hash t ch' \<Longrightarrow> ht_elems t ch = ht_elems t ch'"
  unfolding ht_rep_def ht_elems_def using hchain_unique by (metis (no_types, lifting) SUP_cong lessThan_iff)

lemma ht_rem_ok:
  assumes r: "ht_rep hash t ch" and n: "n \<in> ht_elems t ch"
  shows "\<exists>t' ch'. ht_rem n t = Ok t' \<and> ht_rep hash t' ch' \<and> ht_elems t' ch' = ht_elems t ch - {n} \<and> same_keys t t'"
proof -
  obtain b where b: "b < unat (nbkts t)" "n \<in> set (ch b)" using n by (auto simp: ht_elems_def)
  obtain xs ys where ch: "ch b = xs @ n # ys" using b(2) by (meson split_list)
  let ?N = "hnodes t"
  have c: "hchain ?N (Bkt b) (bkts t ! b) (xs @ n # ys)" "distinct (xs @ n # ys)" "b < length (bkts t)"
    using r b(1) ch unfolding ht_rep_def by (metis, metis, linarith)
  let ?r = "if xs = [] then Bkt b else NextOf (last xs)"
  obtain nd where nd: "?N n = Some nd" "h_prevp nd = Some ?r" "hchain ?N (NextOf n) (h_next nd) ys"
    using hchain_prevp [OF c(1)] by blast
  let ?N' = "rem_nodes ?N ?r n nd"
  let ?t = "t\<lparr>hnodes := ?N', bkts := (if xs = [] then (bkts t)[b := h_next nd] else bkts t)\<rparr>"
  have n0: "n \<noteq> 0" using hchain_nz [OF c(1)] by auto
  have nx: "h_next nd \<noteq> 0 \<Longrightarrow> h_next nd \<in> set ys \<and> ?N (h_next nd) \<noteq> None" using nd(3) by (cases ys) auto
  have la: "xs \<noteq> [] \<Longrightarrow> last xs \<in> set xs \<and> ?N (last xs) \<noteq> None" using hchain_dom [OF c(1)] by simp
  have "ht_rem n t = Ok ?t"
    using n0 nd(1,2) nx la c(2,3)
    by (cases "xs = []"; cases "h_next nd = 0")
       (auto simp: ht_rem_def hget_def hput_def href_set_def rem_nodes_def Let_def)
  moreover have keys: "same_keys t ?t"
    using nd(1) nx la by (auto simp: same_keys_def rem_nodes_def Let_def)
  moreover have "ht_rep hash ?t (ch(b := xs @ ys))"
  proof -
    have other: "hchain ?N' r' p (ch e) = hchain ?N r' p (ch e)" if "e < unat (nbkts t)" "e \<noteq> b" for e r' p
    proof (rule hchain_frame)
      fix x assume "x \<in> set (ch e)"
      then have x: "x \<notin> set (xs @ n # ys)" "x \<noteq> 0"
        using r b(1) that ch hchain_nz unfolding ht_rep_def by (metis disjoint_iff, metis)
      then show "?N' x = ?N x" using nx la by (intro rem_nodes_other) (auto split: if_splits)
    qed
    have mine: "hchain ?N' (Bkt b) (if xs = [] then h_next nd else bkts t ! b) (xs @ ys)"
      using chain_rem [OF c(1,2) nd(1)] by simp
    have bu: "ht_bucket True ?t = ht_bucket True t" by (rule ht_bucket_cong) auto
    have kb: "ht_bucket True ?t (hash (h_key (the (hnodes ?t x)))) = e" if "e < unat (nbkts t)" "x \<in> set (ch e)" for e x
    proof -
      have "?N x \<noteq> None" by (rule ht_elems_dom [OF r]) (use that in \<open>auto simp: ht_elems_def\<close>)
      then show ?thesis using r that same_keys_the [OF keys] bu unfolding ht_rep_def by metis
    qed
    show ?thesis
      unfolding ht_rep_def
    proof (intro conjI allI impI ballI)
      show "nbkts ?t > 0" "po2mask ?t = (if nbkts ?t AND (nbkts ?t - 1) = 0 then nbkts ?t - 1 else 0)"
        "unat (nbkts ?t) \<le> length (bkts ?t)" using r by (auto simp: ht_rep_def)
    next
      fix e assume e: "e < unat (nbkts ?t)"
      show "hchain (hnodes ?t) (Bkt e) (bkts ?t ! e) ((ch(b := xs @ ys)) e)"
        using mine other [of e] e r c(3) by (cases "e = b") (auto simp: ht_rep_def)
      show "distinct ((ch(b := xs @ ys)) e)" using e r c(2) by (auto simp: ht_rep_def)
      fix x assume "x \<in> set ((ch(b := xs @ ys)) e)"
      then show "ht_bucket True ?t (hash (h_key (the (hnodes ?t x)))) = e"
        using kb [of e x] e ch by (cases "e = b") auto
    next
      fix e f assume "e < unat (nbkts ?t)" "f < unat (nbkts ?t)" "e \<noteq> f"
      then have d: "set (ch e) \<inter> set (ch f) = {}" using r by (simp add: ht_rep_def)
      have "set ((ch(b := xs @ ys)) g) \<subseteq> set (ch g)" for g using ch by auto
      then show "set ((ch(b := xs @ ys)) e) \<inter> set ((ch(b := xs @ ys)) f) = {}" using d by blast
    qed
  qed
  moreover have "ht_elems ?t (ch(b := xs @ ys)) = ht_elems t ch - {n}"
  proof -
    have "n \<notin> set (ch e)" if "e < unat (nbkts t)" "e \<noteq> b" for e
      using r b that unfolding ht_rep_def by (metis disjoint_iff)
    then have "set ((ch(b := xs @ ys)) e) = set (ch e) - {n}" if "e < unat (nbkts t)" for e
      using ch c(2) that by auto
    then have "ht_elems ?t (ch(b := xs @ ys)) = (\<Union>e < unat (nbkts t). set (ch e) - {n})"
      unfolding ht_elems_def by (intro SUP_cong) auto
    then show ?thesis by (auto simp: ht_elems_def)
  qed
  ultimately show ?thesis by blast
qed

section \<open>The table as a dictionary\<close>

text \<open>What a table asks of its two functions: comparing equal is an equivalence and equal keys hash alike.\<close>

locale hash_keys =
  fixes cmp :: "'k option \<Rightarrow> 'k option \<Rightarrow> int" and hash :: "'k option \<Rightarrow> u32" and has_div :: bool
  assumes cmp_refl: "cmp k k = 0"
    and cmp_sym: "cmp j k = 0 \<Longrightarrow> cmp k j = 0"
    and cmp_trans: "cmp j k = 0 \<Longrightarrow> cmp k l = 0 \<Longrightarrow> cmp j l = 0"
    and hash_cmp: "cmp j k = 0 \<Longrightarrow> hash j = hash k"

definition ht_has :: "('k option \<Rightarrow> u32) \<Rightarrow> 'k htab \<Rightarrow> (haddr \<times> 'k) set \<Rightarrow> bool" where
  "ht_has hash t E \<longleftrightarrow> (\<exists>ch. ht_rep hash t ch \<and> (\<forall>x \<in> ht_elems t ch. h_key (the (hnodes t x)) \<noteq> None)
     \<and> E = (\<lambda>x. (x, the (h_key (the (hnodes t x))))) ` ht_elems t ch)"

definition ht_free :: "('k option \<Rightarrow> u32) \<Rightarrow> 'k htab \<Rightarrow> haddr \<Rightarrow> 'k \<Rightarrow> bool" where
  "ht_free hash t n k \<longleftrightarrow> n \<noteq> 0 \<and> map_option h_key (hnodes t n) = Some (Some k) \<and> (\<forall>ch. ht_rep hash t ch \<longrightarrow> n \<notin> ht_elems t ch)"

definition ht_find :: "bool \<Rightarrow> ('k option \<Rightarrow> 'k option \<Rightarrow> int) \<Rightarrow> ('k option \<Rightarrow> u32) \<Rightarrow> 'k \<Rightarrow> 'k htab \<Rightarrow> haddr option run" where
  "ht_find d cmp hash k t = rbind (ht_lkup d cmp hash t (Some k)) (\<lambda>(r, h). ret r)"

sublocale hash_keys \<subseteq> table: dictionary "ht_has hash" "ht_free hash" "\<lambda>j k. cmp (Some j) (Some k) = 0"
  "ht_find has_div cmp hash" "\<lambda>n t. Some (ht_ins_h has_div hash n t)" "\<lambda>n t. Some (ht_rem n t)"
proof
  fix t and E :: "(haddr \<times> 'k) set" and k
  assume "ht_has hash t E"
  then obtain ch where ch: "ht_rep hash t ch" "\<forall>x \<in> ht_elems t ch. h_key (the (hnodes t x)) \<noteq> None"
    "E = (\<lambda>x. (x, the (h_key (the (hnodes t x))))) ` ht_elems t ch" by (auto simp: ht_has_def)
  let ?b = "ht_bucket True t (hash (Some k))"
  let ?r = "List.find (\<lambda>x. cmp (h_key (the (hnodes t x))) (Some k) = 0) (ch ?b)"
  have b: "?b < unat (nbkts t)" using ht_rep_bucket [OF ch(1)] by blast
  have f: "ht_find has_div cmp hash k t = ret ?r"
    using ht_lkup_ok [OF ch(1), of "Some k" has_div cmp] by (simp add: ht_find_def)
  have "case ?r of Some n \<Rightarrow> \<exists>j. (n, j) \<in> E \<and> cmp (Some j) (Some k) = 0 | None \<Rightarrow> \<forall>(m, j) \<in> E. \<not> cmp (Some j) (Some k) = 0"
  proof (cases ?r)
    case None
    have "cmp (Some j) (Some k) \<noteq> 0" if e: "(m, j) \<in> E" for m j
    proof
      assume "cmp (Some j) (Some k) = 0"
      have m: "m \<in> ht_elems t ch" "h_key (the (hnodes t m)) = Some j" using e ch(2,3) by auto
      then obtain c where c: "c < unat (nbkts t)" "m \<in> set (ch c)" by (auto simp: ht_elems_def)
      then have "c = ht_bucket True t (hash (Some j))" using ch(1) m(2) unfolding ht_rep_def by metis
      then have "m \<in> set (ch ?b)" using c(2) hash_cmp [OF \<open>cmp (Some j) (Some k) = 0\<close>] by simp
      then show False using None m(2) \<open>cmp (Some j) (Some k) = 0\<close> by (auto simp: find_None_iff)
    qed
    then show ?thesis using None by auto
  next
    case (Some n)
    then have n: "n \<in> set (ch ?b)" "cmp (h_key (the (hnodes t n))) (Some k) = 0" by (auto simp: find_Some_iff)
    then have "n \<in> ht_elems t ch" using b by (auto simp: ht_elems_def)
    then show ?thesis using Some n(2) ch(2,3) by auto
  qed
  then show "\<exists>r. ht_find has_div cmp hash k t = ret r
      \<and> (case r of Some n \<Rightarrow> \<exists>j. (n, j) \<in> E \<and> cmp (Some j) (Some k) = 0 | None \<Rightarrow> \<forall>(m, j) \<in> E. \<not> cmp (Some j) (Some k) = 0)"
    using f by blast
next
  fix t and E :: "(haddr \<times> 'k) set" and n k
  assume "ht_has hash t E" and n: "ht_free hash t n k"
  then obtain ch where ch: "ht_rep hash t ch" "\<forall>x \<in> ht_elems t ch. h_key (the (hnodes t x)) \<noteq> None"
    "E = (\<lambda>x. (x, the (h_key (the (hnodes t x))))) ` ht_elems t ch" by (auto simp: ht_has_def)
  obtain nd where nd: "hnodes t n = Some nd" "h_key nd = Some k" "n \<noteq> 0" "n \<notin> ht_elems t ch"
    using n ch(1) by (auto simp: ht_free_def)
  let ?b = "ht_bucket True t (hash (h_key nd))"
  obtain t' where t': "ht_ins has_div n (hash (h_key nd)) t = Ok t'" "ht_rep hash t' (ch(?b := n # ch ?b))" "same_keys t t'" "nbkts t' = nbkts t"
    using ht_ins_ok [OF ch(1) nd(1,3,4)] by blast
  have b: "?b < unat (nbkts t)" using ht_rep_bucket [OF ch(1)] by blast
  have e: "ht_elems t' (ch(?b := n # ch ?b)) = insert n (ht_elems t ch)"
    using b t'(4) by (auto simp: ht_elems_def split: if_splits)
  have k: "h_key (the (hnodes t' x)) = h_key (the (hnodes t x))" if "x \<in> insert n (ht_elems t ch)" for x
    by (rule same_keys_the [OF t'(3)]) (use that nd(1) ht_elems_dom [OF ch(1)] in auto)
  have "ht_has hash t' (insert (n, k) E)"
    unfolding ht_has_def
  proof (intro exI conjI)
    show "ht_rep hash t' (ch(?b := n # ch ?b))" by (rule t'(2))
    show "\<forall>x \<in> ht_elems t' (ch(?b := n # ch ?b)). h_key (the (hnodes t' x)) \<noteq> None" using k ch(2) nd unfolding e by auto
    have "(\<lambda>x. (x, the (h_key (the (hnodes t' x))))) ` insert n (ht_elems t ch)
        = (\<lambda>x. (x, the (h_key (the (hnodes t x))))) ` insert n (ht_elems t ch)"
      by (rule image_cong) (use k in auto)
    then show "insert (n, k) E = (\<lambda>x. (x, the (h_key (the (hnodes t' x))))) ` ht_elems t' (ch(?b := n # ch ?b))"
      unfolding e using ch(3) nd by simp
  qed
  moreover have "Some (ht_ins_h has_div hash n t) = ret t'" using nd t'(1) by (simp add: ht_ins_h_def hget_def ht_hash_def)
  ultimately show "\<exists>t'. Some (ht_ins_h has_div hash n t) = ret t' \<and> ht_has hash t' (insert (n, k) E)" by blast
next
  fix t and E :: "(haddr \<times> 'k) set" and n k
  assume "ht_has hash t E" and n: "(n, k) \<in> E"
  then obtain ch where ch: "ht_rep hash t ch" "\<forall>x \<in> ht_elems t ch. h_key (the (hnodes t x)) \<noteq> None"
    "E = (\<lambda>x. (x, the (h_key (the (hnodes t x))))) ` ht_elems t ch" by (auto simp: ht_has_def)
  have ne: "n \<in> ht_elems t ch" "h_key (the (hnodes t n)) = Some k" using n ch(2,3) by auto
  obtain t' ch' where t': "ht_rem n t = Ok t'" "ht_rep hash t' ch'" "ht_elems t' ch' = ht_elems t ch - {n}" "same_keys t t'"
    using ht_rem_ok [OF ch(1) ne(1)] by blast
  have k: "h_key (the (hnodes t' x)) = h_key (the (hnodes t x))" if "x \<in> ht_elems t ch" for x
    by (rule same_keys_the [OF t'(4) ht_elems_dom [OF ch(1) that]])
  have "ht_has hash t' (E - {(n, k)})"
    unfolding ht_has_def
  proof (intro exI conjI)
    show "ht_rep hash t' ch'" by (rule t'(2))
    show "\<forall>x \<in> ht_elems t' ch'. h_key (the (hnodes t' x)) \<noteq> None" using k ch(2) unfolding t'(3) by auto
    have "(\<lambda>x. (x, the (h_key (the (hnodes t' x))))) ` (ht_elems t ch - {n})
        = (\<lambda>x. (x, the (h_key (the (hnodes t x))))) ` (ht_elems t ch - {n})"
      by (rule image_cong) (use k in auto)
    then show "E - {(n, k)} = (\<lambda>x. (x, the (h_key (the (hnodes t' x))))) ` ht_elems t' ch'"
      unfolding t'(3) using ch(3) ne by auto
  qed
  moreover have "ht_free hash t' n k"
  proof -
    have "hnodes t n \<noteq> None" by (rule ht_elems_dom [OF ch(1) ne(1)])
    then have "map_option h_key (hnodes t' n) = Some (Some k)"
      using t'(4) ne(2) unfolding same_keys_def by (metis option.collapse option.map(2))
    moreover have "n \<noteq> 0" using ne(1) ch(1) hchain_nz unfolding ht_elems_def ht_rep_def by fastforce
    moreover have "n \<notin> ht_elems t' c" if "ht_rep hash t' c" for c
      using ht_elems_unique [OF t'(2) that] t'(3) by blast
    ultimately show ?thesis by (simp add: ht_free_def)
  qed
  ultimately show "\<exists>t'. Some (ht_rem n t) = ret t' \<and> ht_has hash t' (E - {(n, k)}) \<and> ht_free hash t' n k" using t'(1) by auto
next
  fix t and E :: "(haddr \<times> 'k) set" and n j k
  assume "ht_has hash t E" "(n, j) \<in> E" "(n, k) \<in> E"
  then show "j = k" by (auto simp: ht_has_def)
qed (use cmp_refl cmp_sym cmp_trans in blast)+

section \<open>String keys\<close>

text \<open>A key is a string up to its NUL; \<open>cmp_str\<close> and \<open>ht_shash\<close> are the functions a table of strings uses.\<close>

lemma ht_shash_loop_ok: "0 \<notin> set s \<Longrightarrow> ht_shash_loop (s @ 0 # r) h = Ok (fold (\<lambda>c h. hash_byte h c) s h)"
  by (induction s arbitrary: h) auto

lemma ht_shash_prefix: "\<exists>r. c_str a = takeWhile (\<lambda>c. c \<noteq> 0) a @ 0 # r"
proof -
  have "a = takeWhile (\<lambda>c. c \<noteq> 0) a @ dropWhile (\<lambda>c. c \<noteq> 0) a" by simp
  moreover have "dropWhile (\<lambda>c. c \<noteq> 0) a = [] \<or> (\<exists>r. dropWhile (\<lambda>c. c \<noteq> 0) a = 0 # r)"
    using hd_dropWhile [of "\<lambda>c. c \<noteq> 0" a] by (cases "dropWhile (\<lambda>c. c \<noteq> 0) a") auto
  ultimately show ?thesis unfolding c_str_def by (metis append.assoc append_Cons append_Nil)
qed

lemma ht_shash_ok: "ht_shash (c_str a) = Ok (fold (\<lambda>c h. hash_byte h c) (takeWhile (\<lambda>c. c \<noteq> 0) a) 0)"
proof -
  have n: "0 \<notin> set (takeWhile (\<lambda>c. c \<noteq> 0) a)" by (auto dest: set_takeWhileD)
  obtain r where "c_str a = takeWhile (\<lambda>c. c \<noteq> 0) a @ 0 # r" using ht_shash_prefix by blast
  then show ?thesis unfolding ht_shash_def by (metis ht_shash_loop_ok [OF n])
qed

text \<open>The hash of a blob is the hash of the string with the same bytes.\<close>

lemma ht_rhash_ok: "length p = n \<Longrightarrow> ht_rhash_loop (p @ r) n h = Ok (fold (\<lambda>c h. hash_byte h c) p h)"
  by (induction p arbitrary: n h) auto

definition str_key_cmp :: "byte list option \<Rightarrow> byte list option \<Rightarrow> int" where
  "str_key_cmp j k =
     (case (j, k) of (Some a, Some b) \<Rightarrow> the_Ok (cmp_str (c_str a) (c_str b)) | (None, None) \<Rightarrow> 0 | _ \<Rightarrow> 1)"

definition str_key_hash :: "byte list option \<Rightarrow> u32" where
  "str_key_hash k = (case k of Some a \<Rightarrow> (case ht_shash (c_str a) of Ok h \<Rightarrow> h | _ \<Rightarrow> 0) | None \<Rightarrow> 0)"

lemma str_key_cmp: "str_key_cmp j k = 0 \<longleftrightarrow> map_option (takeWhile (\<lambda>c. c \<noteq> 0)) j = map_option (takeWhile (\<lambda>c. c \<noteq> 0)) k"
  by (auto simp: str_key_cmp_def cmp_str_ok the_Ok_def lexcmp_zero split: option.splits)

lemma str_key_hash: "str_key_hash k = (case map_option (takeWhile (\<lambda>c. c \<noteq> 0)) k of
    Some a \<Rightarrow> fold (\<lambda>c h. hash_byte h c) a 0 | None \<Rightarrow> 0)"
  by (auto simp: str_key_hash_def ht_shash_ok split: option.splits)

interpretation string_table: hash_keys str_key_cmp str_key_hash True
  by unfold_locales (simp_all add: str_key_cmp str_key_hash)

context hash_keys
begin

lemma table_dictionary: "dictionary (ht_has hash) (ht_free hash) (\<lambda>j k. cmp (Some j) (Some k) = 0)
   (ht_find has_div cmp hash) (\<lambda>n t. Some (ht_ins_h has_div hash n t)) (\<lambda>n t. Some (ht_rem n t))"
  by (rule table.dictionary_axioms)

end

text \<open>C13: In a hash table whose comparison and hash functions agree, inserting a node whose key is new
  makes every lookup of that key return the node, leaves every other lookup as it was, and removing the node
  again restores the table: the same nodes and keys, and a lookup that fails.  \<open>ht_has hash t E\<close> says that
  the buckets of \<open>t\<close> are well-formed chains holding the nodes and keys \<open>E\<close>.\<close>

theorem ht_insert_find_remove:
  assumes "hash_keys cmp hash" "ht_has hash t E" "ht_free hash t n k"
    and "\<forall>(m, j) \<in> E. cmp (Some j) (Some k) \<noteq> 0" "\<forall>(m, j) \<in> E. \<forall>(l, i) \<in> E. cmp (Some j) (Some i) = 0 \<longrightarrow> m = l"
  shows "\<exists>t' t''. ht_ins_h d hash n t = Ok t' \<and> ht_has hash t' (insert (n, k) E)
    \<and> (\<forall>i. cmp (Some k) (Some i) = 0 \<longrightarrow> ht_find d cmp hash i t' = ret (Some n))
    \<and> (\<forall>m j. (m, j) \<in> E \<longrightarrow> ht_find d cmp hash j t' = ret (Some m))
    \<and> ht_rem n t' = Ok t'' \<and> ht_has hash t'' E \<and> ht_find d cmp hash k t'' = ret None"
proof -
  note dict = hash_keys.table_dictionary [OF assms(1), of d]
  have "dictionary.unique (\<lambda>j k. cmp (Some j) (Some k) = 0) E"
    using assms(5) unfolding dictionary.unique_def [OF dict] .
  then obtain t' t'' where "Some (ht_ins_h d hash n t) = ret t'" "ht_has hash t' (insert (n, k) E)"
    "\<forall>i. cmp (Some k) (Some i) = 0 \<longrightarrow> ht_find d cmp hash i t' = ret (Some n)"
    "\<forall>m j. (m, j) \<in> E \<longrightarrow> ht_find d cmp hash j t' = ret (Some m)"
    "Some (ht_rem n t') = ret t''" "ht_has hash t'' E" "ht_find d cmp hash k t'' = ret None"
    using dictionary.insert_find_remove [OF dict assms(2) _ assms(3,4)] by blast
  then show ?thesis by auto
qed

text \<open>An empty table of four buckets, and a node with the key \<open>a\<close>.\<close>

definition sample_table :: "byte list htab" where
  "sample_table = \<lparr>bkts = [0, 0, 0, 0], nbkts = 4, po2mask = 3,
     hnodes = [8 \<mapsto> \<lparr>h_next = 0, h_prevp = None, h_key = Some [97]\<rparr>]\<rparr>"

lemma sample_table: "ht_has str_key_hash sample_table {}" "ht_free str_key_hash sample_table 8 [97]"
proof -
  have "ht_rep str_key_hash sample_table (\<lambda>b. [])"
  proof -
    have "(4 :: u32) AND (4 - 1) = 0" by code_simp
    moreover have "b < 4 \<Longrightarrow> [0, 0, 0, 0 :: haddr] ! b = 0" for b by (cases b; simp add: nth_Cons split: nat.splits)
    ultimately show ?thesis by (auto simp: ht_rep_def sample_table_def)
  qed
  note r = this
  have e: "ht_elems sample_table (\<lambda>b. []) = {}" by (simp add: ht_elems_def)
  show "ht_has str_key_hash sample_table {}" using r e unfolding ht_has_def by blast
  have "8 \<notin> ht_elems sample_table ch" if "ht_rep str_key_hash sample_table ch" for ch
    using ht_elems_unique [OF that r] e by simp
  then show "ht_free str_key_hash sample_table 8 [97]" by (simp add: ht_free_def sample_table_def)
qed

lemma ht_insert_find_remove_witness:
  "\<exists>t' t''. ht_ins_h True str_key_hash 8 sample_table = Ok t' \<and> ht_has str_key_hash t' {(8, [97])}
    \<and> ht_find True str_key_cmp str_key_hash [97, 0, 98] t' = ret (Some 8)
    \<and> ht_rem 8 t' = Ok t'' \<and> ht_find True str_key_cmp str_key_hash [97] t'' = ret None"
  using ht_insert_find_remove [OF string_table.hash_keys_axioms sample_table, of True]
  by (auto simp: str_key_cmp)

end
