(* ===== verification/BitArray.thy ===== *)
theory BitArray
  imports CString
begin

text \<open>
  Sets of small numbers kept as bits of an array: the contract, and its two implementations, the
  byte sets of src/str.c (32 bytes, one bit for each \<open>char\<close>) and the bit sets of
  include/cat/bitset.h (an array of \<open>unsigned\<close>).  An array parameter is the list of its cells;
  an index past its end faults.
\<close>

section \<open>The contract\<close>

locale bit_array =
  fixes ok :: "'s \<Rightarrow> bool" and dom :: "'x \<Rightarrow> bool"
    and test :: "'s \<Rightarrow> 'x \<Rightarrow> bool outcome" and add :: "'s \<Rightarrow> 'x \<Rightarrow> 's outcome" and rem :: "'s \<Rightarrow> 'x \<Rightarrow> 's outcome"
  assumes test_ok: "ok s \<Longrightarrow> dom x \<Longrightarrow> \<exists>b. test s x = Ok b"
    and add_ok: "ok s \<Longrightarrow> dom x \<Longrightarrow> \<exists>t. add s x = Ok t \<and> ok t \<and> (\<forall>y. dom y \<longrightarrow> test t y = Ok (y = x \<or> test s y = Ok True))"
    and rem_ok: "ok s \<Longrightarrow> dom x \<Longrightarrow> \<exists>t. rem s x = Ok t \<and> ok t \<and> (\<forall>y. dom y \<longrightarrow> test t y = Ok (y \<noteq> x \<and> test s y = Ok True))"
begin

fun adds :: "'s \<Rightarrow> 'x list \<Rightarrow> 's outcome" where
  "adds s [] = Ok s"
| "adds s (x # xs) = obind (add s x) (\<lambda>s. adds s xs)"

fun rems :: "'s \<Rightarrow> 'x list \<Rightarrow> 's outcome" where
  "rems s [] = Ok s"
| "rems s (x # xs) = obind (rem s x) (\<lambda>s. rems s xs)"

lemma adds_test:
  "ok s \<Longrightarrow> \<forall>x \<in> set xs. dom x \<Longrightarrow> \<exists>t. adds s xs = Ok t \<and> ok t \<and> (\<forall>y. dom y \<longrightarrow> test t y = Ok (y \<in> set xs \<or> test s y = Ok True))"
proof (induction xs arbitrary: s)
  case Nil
  then show ?case using test_ok by fastforce
next
  case (Cons x xs)
  obtain t where t: "add s x = Ok t" "ok t" "\<forall>y. dom y \<longrightarrow> test t y = Ok (y = x \<or> test s y = Ok True)"
    using add_ok [of s x] Cons.prems by auto
  have "\<forall>x \<in> set xs. dom x" using Cons.prems by simp
  from Cons.IH [OF t(2) this] show ?case using t(1,3) by auto
qed

lemma rems_test:
  "ok s \<Longrightarrow> \<forall>x \<in> set xs. dom x \<Longrightarrow> \<exists>t. rems s xs = Ok t \<and> ok t \<and> (\<forall>y. dom y \<longrightarrow> test t y = Ok (y \<notin> set xs \<and> test s y = Ok True))"
proof (induction xs arbitrary: s)
  case Nil
  then show ?case using test_ok by fastforce
next
  case (Cons x xs)
  obtain t where t: "rem s x = Ok t" "ok t" "\<forall>y. dom y \<longrightarrow> test t y = Ok (y \<noteq> x \<and> test s y = Ok True)"
    using rem_ok [of s x] Cons.prems by auto
  have "\<forall>x \<in> set xs. dom x" using Cons.prems by simp
  from Cons.IH [OF t(2) this] show ?case using t(1,3) by auto
qed

end

section \<open>Byte sets\<close>

definition cset_clear :: "byte list \<Rightarrow> byte list outcome" where
  "cset_clear s = block_write s 0 (replicate 32 0)"

definition cset_fill :: "byte list \<Rightarrow> byte list outcome" where
  "cset_fill s = block_write s 0 (replicate 32 0xFF)"

definition cset_add :: "byte list \<Rightarrow> byte \<Rightarrow> byte list outcome" where
  "cset_add s ch =
     (let i = unat (drop_bit 3 ch) in obind (cell s i) (\<lambda>b. set_cell s i (b OR push_bit (unat (ch AND 7)) 1)))"

definition cset_rem :: "byte list \<Rightarrow> byte \<Rightarrow> byte list outcome" where
  "cset_rem s ch =
     (let i = unat (drop_bit 3 ch) in obind (cell s i) (\<lambda>b. set_cell s i (b AND NOT (push_bit (unat (ch AND 7)) 1))))"

definition cset_contains :: "byte list \<Rightarrow> byte \<Rightarrow> bool outcome" where
  "cset_contains s ch =
     obind (cell s (unat (drop_bit 3 ch))) (\<lambda>b. Ok (b AND push_bit (unat (ch AND 7)) 1 \<noteq> 0))"

fun cset_accept_loop :: "byte list \<Rightarrow> byte list \<Rightarrow> byte list outcome" where
  "cset_accept_loop s [] = Fault"
| "cset_accept_loop s (ch # p) = (if ch \<noteq> 0 then obind (cset_add s ch) (\<lambda>s. cset_accept_loop s p) else Ok s)"

definition cset_init_accept :: "byte list \<Rightarrow> byte list \<Rightarrow> byte list outcome" where
  "cset_init_accept s accept = obind (cset_clear s) (\<lambda>s. cset_accept_loop s accept)"

fun cset_reject_loop :: "byte list \<Rightarrow> byte list \<Rightarrow> byte list outcome" where
  "cset_reject_loop s [] = Fault"
| "cset_reject_loop s (ch # p) =
     obind (cset_rem s ch) (\<lambda>s. if ch \<noteq> 0 then cset_reject_loop s p else Ok s)"

definition cset_init_reject :: "byte list \<Rightarrow> byte list \<Rightarrow> byte list outcome" where
  "cset_init_reject s reject = obind (cset_fill s) (\<lambda>s. cset_reject_loop s reject)"

section \<open>Bit sets\<close>

definition bitset_len :: "nat \<Rightarrow> nat" where "bitset_len nbits = (nbits + 31) div 32"

definition bset_zero :: "u32 list \<Rightarrow> nat \<Rightarrow> u32 list outcome" where
  "bset_zero s nbits = block_write s 0 (replicate (bitset_len nbits) 0)"

definition bset_fill :: "u32 list \<Rightarrow> nat \<Rightarrow> u32 list outcome" where
  "bset_fill s nbits = block_write s 0 (replicate (bitset_len nbits) (- 1))"

definition bset_test :: "u32 list \<Rightarrow> nat \<Rightarrow> bool outcome" where
  "bset_test s i = obind (cell s (i div 32)) (\<lambda>w. Ok (w AND push_bit (i mod 32) 1 \<noteq> 0))"

definition bset_set :: "u32 list \<Rightarrow> nat \<Rightarrow> u32 list outcome" where
  "bset_set s i = obind (cell s (i div 32)) (\<lambda>w. set_cell s (i div 32) (w OR push_bit (i mod 32) 1))"

definition bset_clr :: "u32 list \<Rightarrow> nat \<Rightarrow> u32 list outcome" where
  "bset_clr s i = obind (cell s (i div 32)) (\<lambda>w. set_cell s (i div 32) (w AND NOT (push_bit (i mod 32) 1)))"

definition bset_flip :: "u32 list \<Rightarrow> nat \<Rightarrow> u32 list outcome" where
  "bset_flip s i = obind (cell s (i div 32)) (\<lambda>w. set_cell s (i div 32) (w XOR push_bit (i mod 32) 1))"

definition bset_set_to :: "u32 list \<Rightarrow> nat \<Rightarrow> bool \<Rightarrow> u32 list outcome" where
  "bset_set_to s i val = (if val then bset_set s i else bset_clr s i)"

text \<open>All words but the last are copied whole, the rest bit by bit.\<close>

fun bset_copy_bits :: "u32 list \<Rightarrow> u32 list \<Rightarrow> nat list \<Rightarrow> u32 list outcome" where
  "bset_copy_bits dst src [] = Ok dst"
| "bset_copy_bits dst src (i # is') =
     obind (bset_test src i) (\<lambda>v. obind (bset_set_to dst i v) (\<lambda>dst. bset_copy_bits dst src is'))"

definition bset_copy :: "u32 list \<Rightarrow> u32 list \<Rightarrow> nat \<Rightarrow> u32 list outcome" where
  "bset_copy dst src nbits =
     (let n = bitset_len nbits
      in if n = 0 then Ok dst
         else obind (block_read src 0 (n - 1)) (\<lambda>ws. obind (block_write dst 0 ws) (\<lambda>dst.
              bset_copy_bits dst src [(n - 1) * 32..<nbits])))"

section \<open>The contract holds\<close>

lemma test_bit_and: "(w :: 'w::len word) AND push_bit k 1 \<noteq> 0 \<longleftrightarrow> bit w k"
  by (simp add: bit_iff_and_push_bit_not_eq_0)

lemma bset_test_ok: "i div 32 < length s \<Longrightarrow> bset_test s i = Ok (bit (s ! (i div 32)) (i mod 32))"
  unfolding bset_test_def cell_def by (simp only: test_bit_and if_True obind_simps)

lemma div_mod_32: "i div 32 = j div 32 \<and> i mod 32 = j mod 32 \<longleftrightarrow> i = (j :: nat)"
  by (metis div_mult_mod_eq)

lemma bit_one_shift: "bit (push_bit k 1 :: 'w::len word) j \<longleftrightarrow> j = k \<and> k < LENGTH('w)"
  by (auto simp add: bit_push_bit_iff bit_1_iff simp del: push_bit_of_1)

lemma bit_cell_set:
  fixes s :: "'w::len word list"
  assumes "i < length s" "k < LENGTH('w)"
  shows "bit (s[i := s ! i OR push_bit k 1] ! j) l \<longleftrightarrow> bit (s ! j) l \<or> i = j \<and> k = l"
  using assms by (cases "i = j") (auto simp add: bit_or_iff bit_one_shift simp del: push_bit_of_1)

lemma bit_cell_clear:
  fixes s :: "'w::len word list"
  assumes "i < length s" "k < LENGTH('w)"
  shows "bit (s[i := s ! i AND NOT (push_bit k 1)] ! j) l \<longleftrightarrow> bit (s ! j) l \<and> \<not> (i = j \<and> k = l)"
  using assms by (cases "i = j") (auto simp add: bit_and_iff bit_not_iff_eq bit_one_shift simp del: push_bit_of_1 dest: bit_imp_le_length)

lemmas bit_array_simps = cell_def set_cell_def bset_test_ok bit_cell_set bit_cell_clear

interpretation bset: bit_array "\<lambda>s :: u32 list. nb \<le> 32 * length s" "\<lambda>i. i < nb" bset_test bset_set bset_clr
proof
  fix s :: "u32 list" and i assume a: "nb \<le> 32 * length s" "i < nb"
  then have j: "j div 32 < length s" if "j < nb" for j using that by auto
  then show "\<exists>b. bset_test s i = Ok b" using a by (simp add: bset_test_ok)
  have m: "i mod 32 < LENGTH(32)" by simp
  have "bset_set s i = Ok (s[i div 32 := s ! (i div 32) OR push_bit (i mod 32) 1])"
    "bset_clr s i = Ok (s[i div 32 := s ! (i div 32) AND NOT (push_bit (i mod 32) 1)])"
    using j a by (simp_all add: bset_set_def bset_clr_def cell_def set_cell_def)
  moreover have
    "bset_test (s[i div 32 := s ! (i div 32) OR push_bit (i mod 32) 1]) y = Ok (y = i \<or> bset_test s y = Ok True)"
    "bset_test (s[i div 32 := s ! (i div 32) AND NOT (push_bit (i mod 32) 1)]) y = Ok (y \<noteq> i \<and> bset_test s y = Ok True)"
    if "y < nb" for y
    using j [OF that] j [OF a(2)] div_mod_32 [of i y] unfolding bit_cell_set [OF j [OF a(2)] m] bit_cell_clear [OF j [OF a(2)] m]
    by (auto simp add: bset_test_ok bit_cell_set bit_cell_clear simp del: push_bit_of_1)
  ultimately show "\<exists>t. bset_set s i = Ok t \<and> nb \<le> 32 * length t \<and> (\<forall>y. y < nb \<longrightarrow> bset_test t y = Ok (y = i \<or> bset_test s y = Ok True))"
    "\<exists>t. bset_clr s i = Ok t \<and> nb \<le> 32 * length t \<and> (\<forall>y. y < nb \<longrightarrow> bset_test t y = Ok (y \<noteq> i \<and> bset_test s y = Ok True))"
    using a by auto
qed

lemma cset_contains_ok:
  "length s = 32 \<Longrightarrow> cset_contains s ch = Ok (bit (s ! unat (drop_bit 3 ch)) (unat (ch AND 7)))"
  using map_index(1) [of ch] unfolding cset_contains_def cell_def by (simp only: test_bit_and if_True obind_simps)

lemma byte_pos: "unat (drop_bit 3 x) = unat (drop_bit 3 y) \<and> unat (x AND 7) = unat (y AND 7) \<longleftrightarrow> x = (y :: byte)"
  using map_split [of x y] by (simp only: word_unat_eq_iff)

interpretation cset: bit_array "\<lambda>s. length s = 32" "\<lambda>ch. True" cset_contains cset_add cset_rem
proof
  fix s :: "byte list" and x :: byte assume a: "length s = 32"
  let ?i = "unat (drop_bit 3 x)" and ?k = "unat (x AND 7)"
  have j: "?i < length s" and m: "?k < LENGTH(8)" using a map_index [of x] by simp_all
  show "\<exists>b. cset_contains s x = Ok b" using a by (simp add: cset_contains_ok)
  have "cset_add s x = Ok (s[?i := s ! ?i OR push_bit ?k 1])"
    "cset_rem s x = Ok (s[?i := s ! ?i AND NOT (push_bit ?k 1)])"
    using j unfolding cset_add_def cset_rem_def cell_def set_cell_def Let_def by (simp_all only: if_True obind_simps)
  moreover have
    "cset_contains (s[?i := s ! ?i OR push_bit ?k 1]) y = Ok (y = x \<or> cset_contains s y = Ok True)"
    "cset_contains (s[?i := s ! ?i AND NOT (push_bit ?k 1)]) y = Ok (y \<noteq> x \<and> cset_contains s y = Ok True)" for y
    using a byte_pos [of x y] by (auto simp only: cset_contains_ok bit_cell_set [OF j m] bit_cell_clear [OF j m] length_list_update outcome.inject)
  ultimately show "\<exists>t. cset_add s x = Ok t \<and> length t = 32 \<and> (\<forall>y. True \<longrightarrow> cset_contains t y = Ok (y = x \<or> cset_contains s y = Ok True))"
    "\<exists>t. cset_rem s x = Ok t \<and> length t = 32 \<and> (\<forall>y. True \<longrightarrow> cset_contains t y = Ok (y \<noteq> x \<and> cset_contains s y = Ok True))"
    using a by auto
qed

section \<open>Sets made from strings\<close>

text \<open>
  \<open>cset_init_accept\<close> makes the set of a string's characters, \<open>cset_init_reject\<close> the set of all
  other characters but NUL.
\<close>

lemma cset_cleared: "length s = 32 \<Longrightarrow> \<exists>t. cset_clear s = Ok t \<and> length t = 32 \<and> (\<forall>y. cset_contains t y = Ok False)"
  using map_index by (simp add: cset_clear_def cset_contains_ok del: replicate.simps)

lemma cset_filled: "length s = 32 \<Longrightarrow> \<exists>t. cset_fill s = Ok t \<and> length t = 32 \<and> (\<forall>y. cset_contains t y = Ok True)"
proof -
  assume l: "length s = 32"
  have m: "(0xFF :: byte) = - 1" by simp
  have "bit (0xFF :: byte) k" if "k < 8" for k using that unfolding m by simp
  then show ?thesis using l map_index by (simp add: cset_fill_def cset_contains_ok del: replicate.simps)
qed

lemma cset_accept_adds: "0 \<notin> set cs \<Longrightarrow> cset_accept_loop s (cs @ 0 # r) = cset.adds s cs"
  by (induction cs arbitrary: s) auto

lemma cset_reject_rems: "0 \<notin> set cs \<Longrightarrow> cset_reject_loop s (cs @ 0 # r) = cset.rems s (cs @ [0])"
  by (induction cs arbitrary: s) auto

lemma cset_init_accept_ok:
  assumes "length s = 32" "0 \<notin> set cs"
  shows "\<exists>t. cset_init_accept s (cs @ 0 # r) = Ok t \<and> length t = 32 \<and> (\<forall>y. cset_contains t y = Ok (y \<in> set cs))"
proof -
  obtain t where t: "cset_clear s = Ok t" "length t = 32" "\<And>y. cset_contains t y = Ok False" using cset_cleared [OF assms(1)] by blast
  show ?thesis using cset.adds_test [of t cs] t assms(2) by (simp add: cset_init_accept_def cset_accept_adds)
qed

lemma cset_init_reject_ok:
  assumes "length s = 32" "0 \<notin> set cs"
  shows "\<exists>t. cset_init_reject s (cs @ 0 # r) = Ok t \<and> length t = 32 \<and> (\<forall>y. cset_contains t y = Ok (y \<notin> set cs \<and> y \<noteq> 0))"
proof -
  obtain t where t: "cset_fill s = Ok t" "length t = 32" "\<And>y. cset_contains t y = Ok True" using cset_filled [OF assms(1)] by blast
  show ?thesis using cset.rems_test [of t "cs @ [0]"] t assms(2) by (auto simp add: cset_init_reject_def cset_reject_rems)
qed

section \<open>Copies and flips\<close>

lemma in_bits: "j < nb \<Longrightarrow> j div 32 < bitset_len nb"
  by (auto simp: bitset_len_def)

lemma bset_test_replicate: "j < nb \<Longrightarrow> bset_test (replicate (bitset_len nb) w @ r) j = Ok (bit w (j mod 32))"
  using in_bits [of j nb] by (subst bset_test_ok) (simp_all add: nth_append)

lemma bset_zero_ok: "bitset_len nb \<le> length s \<Longrightarrow> \<exists>t. bset_zero s nb = Ok t \<and> length t = length s \<and> (\<forall>j < nb. bset_test t j = Ok False)"
  by (auto simp: bset_zero_def bset_test_replicate simp del: replicate.simps)

lemma bset_fill_ok: "bitset_len nb \<le> length s \<Longrightarrow> \<exists>t. bset_fill s nb = Ok t \<and> length t = length s \<and> (\<forall>j < nb. bset_test t j = Ok True)"
  by (auto simp: bset_fill_def bset_test_replicate simp del: replicate.simps)

lemma bset_flip_ok:
  assumes "i div 32 < length s"
  shows "\<exists>t. bset_flip s i = Ok t \<and> length t = length s \<and>
     (\<forall>j. j div 32 < length s \<longrightarrow> bset_test t j = Ok ((bset_test s j = Ok True) \<noteq> (i = j)))"
proof -
  have m: "i mod 32 < LENGTH(32)" by simp
  have f: "bset_flip s i = Ok (s[i div 32 := s ! (i div 32) XOR push_bit (i mod 32) 1])"
    using assms by (simp add: bset_flip_def cell_def set_cell_def)
  have "bset_test (s[i div 32 := s ! (i div 32) XOR push_bit (i mod 32) 1]) j = Ok ((bset_test s j = Ok True) \<noteq> (i = j))"
    if j: "j div 32 < length s" for j
  proof (cases "i div 32 = j div 32")
    case True
    then show ?thesis using j assms m div_mod_32 [of i j] by (simp add: bset_test_ok bit_xor_iff bit_one_shift del: push_bit_of_1) auto
  next
    case False
    then show ?thesis using j assms by (auto simp: bset_test_ok)
  qed
  then show ?thesis using f by simp
qed

lemma bset_set_to_ok:
  assumes "i div 32 < length s"
  shows "\<exists>t. bset_set_to s i v = Ok t \<and> length t = length s \<and>
     (\<forall>j. j div 32 < length s \<longrightarrow> bset_test t j = (if i = j then Ok v else bset_test s j))"
proof -
  have lt: "j div 32 < length s \<longleftrightarrow> j < 32 * length s" for j by auto
  have l: "length t = length s" if "bset_set s i = Ok t \<or> bset_clr s i = Ok t" for t
    using that assms by (auto simp: bset_set_def bset_clr_def cell_def set_cell_def)
  have ok: "Ok (bset_test s j = Ok True) = bset_test s j" if "j div 32 < length s" for j
    using that by (simp add: bset_test_ok)
  obtain t where "bset_set s i = Ok t" "\<And>j. j div 32 < length s \<Longrightarrow> bset_test t j = Ok (j = i \<or> bset_test s j = Ok True)"
    using bset.add_ok [of "32 * length s" s i] assms unfolding lt by blast
  moreover obtain u where "bset_clr s i = Ok u" "\<And>j. j div 32 < length s \<Longrightarrow> bset_test u j = Ok (j \<noteq> i \<and> bset_test s j = Ok True)"
    using bset.rem_ok [of "32 * length s" s i] assms unfolding lt by blast
  ultimately show ?thesis using ok l by (cases v) (auto simp: bset_set_to_def)
qed

lemma bset_copy_bits_ok:
  "\<forall>i \<in> set is'. i div 32 < length d \<and> i div 32 < length s \<Longrightarrow>
   \<exists>t. bset_copy_bits d s is' = Ok t \<and> length t = length d \<and>
     (\<forall>j. j div 32 < length d \<longrightarrow> bset_test t j = (if j \<in> set is' then bset_test s j else bset_test d j))"
proof (induction is' arbitrary: d)
  case (Cons i is')
  define v where "v = bit (s ! (i div 32)) (i mod 32)"
  have v: "bset_test s i = Ok v" using Cons.prems by (simp add: bset_test_ok v_def)
  have "i div 32 < length d" using Cons.prems by simp
  then obtain d' where d: "bset_set_to d i v = Ok d'" "length d' = length d"
    "\<And>j. j div 32 < length d \<Longrightarrow> bset_test d' j = (if i = j then Ok v else bset_test d j)"
    using bset_set_to_ok by blast
  have "\<forall>i \<in> set is'. i div 32 < length d' \<and> i div 32 < length s" using Cons.prems d(2) by simp
  from Cons.IH [OF this] show ?case using v d by auto
qed simp

lemma bset_copy_ok:
  assumes "bitset_len nb \<le> length d" "bitset_len nb \<le> length s"
  shows "\<exists>t. bset_copy d s nb = Ok t \<and> length t = length d \<and> (\<forall>j < nb. bset_test t j = bset_test s j)"
proof (cases "bitset_len nb = 0")
  case True
  then have "nb = 0" using in_bits [of 0 nb] by (cases nb) auto
  then show ?thesis using True by (simp add: bset_copy_def)
next
  case False
  let ?m = "bitset_len nb - 1"
  let ?d = "take ?m s @ drop ?m d"
  have l: "length ?d = length d" using assms by simp
  have "\<forall>i \<in> set [?m * 32..<nb]. i div 32 < length ?d \<and> i div 32 < length s"
    using assms less_le_trans [OF in_bits] by (auto simp only: l atLeastLessThan_iff set_upt)
  from bset_copy_bits_ok [OF this]
  obtain t where t: "bset_copy_bits ?d s [?m * 32..<nb] = Ok t" "length t = length d"
    "\<And>j. j div 32 < length d \<Longrightarrow> bset_test t j = (if j \<in> set [?m * 32..<nb] then bset_test s j else bset_test ?d j)"
    unfolding l by blast
  have "bset_copy d s nb = Ok t" using t(1) False assms by (simp add: bset_copy_def min_absorb2)
  moreover have "bset_test t j = bset_test s j" if j: "j < nb" for j
  proof -
    have jd: "j div 32 < length d" "j div 32 < length s" using in_bits [OF j] assms by auto
    show ?thesis
    proof (cases "?m * 32 \<le> j")
      case False
      then have "j div 32 < ?m" by (simp add: less_mult_imp_div_less)
      then have "?d ! (j div 32) = s ! (j div 32)" using jd by (simp add: nth_append)
      then show ?thesis using t(3) [OF jd(1)] False jd l by (simp only: bset_test_ok) simp
    qed (use t(3) [OF jd(1)] j in simp)
  qed
  ultimately show ?thesis using t(2) by blast
qed

end
