(* ===== verification/Str.thy ===== *)
theory Str
  imports BitArray
begin

text \<open>
  The string routines of src/str.c: bounded copies and appends, with and without a set of
  accepted characters, the path walker, and the IPv6 address parser.

  A pointer parameter is the list of the bytes from it to the end of its object, and a function
  that advances it is given an index.  Source and destination do not overlap.
\<close>

section \<open>Bounded copies\<close>

definition chnval :: "byte \<Rightarrow> byte" where
  "chnval d =
     (if isdigit (sint d) then d - 48
      else if isalpha (sint d) then of_int (10 + toupper (sint d) - 65) else 0)"

fun str_copy_loop :: "byte list \<Rightarrow> byte list \<Rightarrow> nat \<Rightarrow> nat \<Rightarrow> (byte list \<times> nat \<times> nat) outcome" where
  "str_copy_loop dst src i 0 = Ok (dst, i, 0)"
| "str_copy_loop dst src i (Suc dlen) =
     obind (cell src i) (\<lambda>c. obind (set_cell dst i c) (\<lambda>dst.
       if c \<noteq> 0 then str_copy_loop dst src (i + 1) dlen else Ok (dst, i, Suc dlen)))"

definition str_copy :: "byte list \<Rightarrow> byte list \<Rightarrow> nat \<Rightarrow> (byte list \<times> nat) outcome" where
  "str_copy dst src dlen =
     obind (str_copy_loop dst src 0 dlen) (\<lambda>(dst, i, dlen).
       if dlen = 0
       then obind (if i \<noteq> 0 then set_cell dst (i - 1) 0 else Ok dst) (\<lambda>dst.
            obind (strlen (drop i src)) (\<lambda>n. Ok (dst, i + n)))
       else Ok (dst, i))"

text \<open>Where the string in \<open>dst\<close> ends, if it does within \<open>dlen\<close> bytes, and what is left of \<open>dlen\<close> there.\<close>

fun str_end :: "byte list \<Rightarrow> nat \<Rightarrow> nat \<Rightarrow> (nat \<times> nat) outcome" where
  "str_end dst i 0 = Ok (i, 0)"
| "str_end dst i (Suc dlen) =
     obind (cell dst i) (\<lambda>c. if c \<noteq> 0 then str_end dst (i + 1) dlen else Ok (i, Suc dlen))"

definition SIZE_MAX :: nat where "SIZE_MAX = 2 ^ 64 - 1"

definition str_cat :: "byte list \<Rightarrow> byte list \<Rightarrow> nat \<Rightarrow> (byte list \<times> nat) outcome" where
  "str_cat dst src dlen =
     obind (str_end dst 0 dlen) (\<lambda>(off, dlen).
     obind (str_copy (drop off dst) src dlen) (\<lambda>(d, copylen).
       abort_unless (copylen \<le> SIZE_MAX - off) (Ok (take off dst @ d, copylen + off))))"

section \<open>Copies of the characters in a set\<close>

fun str_spn :: "byte list \<Rightarrow> byte list \<Rightarrow> nat outcome" where
  "str_spn [] cs = Fault"
| "str_spn (c # src) cs =
     obind (cset_contains cs c) (\<lambda>b. if b then obind (str_spn src cs) (\<lambda>n. Ok (Suc n)) else Ok 0)"

text \<open>The third result says whether the loop met a character outside the set.\<close>

fun str_copy_spn_loop :: "byte list \<Rightarrow> byte list \<Rightarrow> nat \<Rightarrow> nat \<Rightarrow> byte list \<Rightarrow> (byte list \<times> nat \<times> bool) outcome" where
  "str_copy_spn_loop dst src i 0 cs = Ok (dst, i, False)"
| "str_copy_spn_loop dst src i (Suc dlen) cs =
     obind (cell src i) (\<lambda>ch. obind (cset_contains cs ch) (\<lambda>b.
       if b then obind (set_cell dst i ch) (\<lambda>dst. str_copy_spn_loop dst src (i + 1) dlen cs)
       else obind (set_cell dst i 0) (\<lambda>dst. Ok (dst, i, True))))"

definition str_copy_spn :: "byte list \<Rightarrow> byte list \<Rightarrow> nat \<Rightarrow> byte list \<Rightarrow> (byte list \<times> nat) outcome" where
  "str_copy_spn dst src dlen cs =
     obind (str_copy_spn_loop dst src 0 dlen cs) (\<lambda>(dst, i, stop).
       if stop then Ok (dst, i)
       else obind (if i \<noteq> 0 then set_cell dst (i - 1) 0 else Ok dst) (\<lambda>dst.
            obind (str_spn (drop i src) cs) (\<lambda>n. Ok (dst, i + n))))"

definition str_cat_spn :: "byte list \<Rightarrow> byte list \<Rightarrow> nat \<Rightarrow> byte list \<Rightarrow> (byte list \<times> nat) outcome" where
  "str_cat_spn dst src dlen cs =
     obind (str_end dst 0 dlen) (\<lambda>(off, dlen).
     obind (str_copy_spn (drop off dst) src dlen cs) (\<lambda>(d, copylen).
       abort_unless (copylen \<le> SIZE_MAX - off) (Ok (take off dst @ d, copylen + off))))"

section \<open>Path walking\<close>

text \<open>\<open>pw_next\<close> is the offset of the \<open>next\<close> pointer in \<open>path\<close>, \<open>None\<close> for NULL.\<close>

record path_walker =
  pw_path :: "byte list"
  pw_next :: "nat option"
  pw_acc :: "byte list"
  pw_rej :: "byte list"
  pw_dsep :: byte

definition pwalk_init :: "path_walker \<Rightarrow> byte list \<Rightarrow> byte list \<Rightarrow> byte \<Rightarrow> path_walker outcome" where
  "pwalk_init pw path psep dsep =
     obind (cset_init_accept (pw_acc pw) psep) (\<lambda>acc. obind (cset_init_reject (pw_rej pw) psep) (\<lambda>rej.
       Ok \<lparr>pw_path = path, pw_next = Some 0, pw_acc = acc, pw_rej = rej, pw_dsep = dsep\<rparr>))"

definition pwalk_reset :: "path_walker \<Rightarrow> path_walker" where
  "pwalk_reset pw = pw\<lparr>pw_next := Some 0\<rparr>"

text \<open>
  The third result is false when the call returns NULL.  A NULL walker, for which the call also
  returns NULL and has no state to change, is left out.
\<close>

definition pwalk_next :: "path_walker \<Rightarrow> byte list option \<Rightarrow> byte list \<Rightarrow> nat \<Rightarrow> (path_walker \<times> byte list \<times> bool) outcome" where
  "pwalk_next pw sfx out osize =
     (case sfx of None \<Rightarrow> Ok (pw, out, False) | Some sfx \<Rightarrow>
      if osize < 1 then Ok (pw, out, False)
      else case pw_next pw of None \<Rightarrow> Ok (pw, out, False) | Some nx \<Rightarrow>
        obind (str_copy_spn out (drop nx (pw_path pw)) osize (pw_rej pw)) (\<lambda>(out, pl).
          if pl \<ge> osize - 1 then Ok (pw, out, False)
          else
            obind (set_cell out pl (pw_dsep pw)) (\<lambda>out.
            let osize = osize - (pl + 1) in
            obind (str_copy (drop (pl + 1) out) sfx osize) (\<lambda>(d, n).
            let out = take (pl + 1) out @ d in
              if n \<ge> osize then Ok (pw, out, False)
              else
                obind (cell (pw_path pw) (nx + pl)) (\<lambda>c.
                  if c = 0 then Ok (pw\<lparr>pw_next := None\<rparr>, out, True)
                  else
                    let nx = nx + pl + 1 in
                    obind (str_spn (drop nx (pw_path pw)) (pw_acc pw)) (\<lambda>k.
                    let nx = nx + k in
                    obind (cell (pw_path pw) nx) (\<lambda>c.
                      Ok (pw\<lparr>pw_next := (if c = 0 then None else Some nx)\<rparr>, out, True))))))))"

section \<open>IPv6 addresses\<close>

definition hexpair :: "byte \<Rightarrow> byte \<Rightarrow> byte" where
  "hexpair a b = push_bit 4 (chnval a) OR chnval b"

text \<open>
  The digits of one group, stored at \<open>at\<close>.  In the prefix a short group leaves the high byte
  alone, in the suffix it clears it.  \<open>None\<close> is the return of -1.
\<close>

definition ip6_group :: "bool \<Rightarrow> byte list \<Rightarrow> nat \<Rightarrow> nat \<Rightarrow> byte list \<Rightarrow> nat \<Rightarrow> byte list option outcome" where
  "ip6_group suf src p spn buf at =
     obind (cell src p) (\<lambda>a.
     if spn = 1 then
       obind (if suf then set_cell buf at 0 else Ok buf) (\<lambda>buf.
       obind (set_cell buf (at + 1) (chnval a)) (\<lambda>buf. Ok (Some buf)))
     else obind (cell src (p + 1)) (\<lambda>b.
     if spn = 2 then
       obind (if suf then set_cell buf at 0 else Ok buf) (\<lambda>buf.
       obind (set_cell buf (at + 1) (hexpair a b)) (\<lambda>buf. Ok (Some buf)))
     else obind (cell src (p + 2)) (\<lambda>c.
     if spn = 3 then
       obind (set_cell buf at (chnval a)) (\<lambda>buf.
       obind (set_cell buf (at + 1) (hexpair b c)) (\<lambda>buf. Ok (Some buf)))
     else if spn = 4 then
       obind (cell src (p + 3)) (\<lambda>d.
       obind (set_cell buf at (hexpair a b)) (\<lambda>buf.
       obind (set_cell buf (at + 1) (hexpair c d)) (\<lambda>buf. Ok (Some buf))))
     else Ok None)))"

text \<open>
  Both loops of the parser: \<open>used\<close> is \<open>plen\<close> in the first and \<open>plen + zcomp + slen\<close> in the
  second.  The first result is false for a return of -1.
\<close>

function ip6_loop :: "bool \<Rightarrow> byte list \<Rightarrow> byte list \<Rightarrow> nat \<Rightarrow> nat \<Rightarrow> byte list \<Rightarrow> nat \<Rightarrow> (bool \<times> nat \<times> byte list \<times> nat) outcome" where
  "ip6_loop suf hex src p base buf n =
     obind (str_spn (drop p src) hex) (\<lambda>spn.
       if spn = 0 then Ok (True, p, buf, n)
       else if base + n \<ge> 16 then Ok (False, p, buf, n)
       else obind (ip6_group suf src p spn buf n) (\<lambda>r. case r of
         None \<Rightarrow> Ok (False, p, buf, n)
       | Some buf \<Rightarrow>
           obind (cell src (p + spn)) (\<lambda>c.
             if c = 58 then ip6_loop suf hex src (p + spn + 1) base buf (n + 2)
             else abort_unless (c = 0) (Ok (True, p + spn, buf, n + 2)))))"
  by pat_completeness auto
termination by (relation "measure (\<lambda>(suf, hex, src, p, base, buf, n). 16 - n)") auto

definition hex_chars :: "byte list" where
  "hex_chars = [97, 98, 99, 100, 101, 102, 65, 66, 67, 68, 69, 70, 48, 49, 50, 51, 52, 53, 54, 55, 56, 57]"

text \<open>
  \<open>junk\<close>, \<open>hex_set\<close> and \<open>suffix\<close> are the indeterminate contents of the local arrays.  The results
  are the 16 bytes at \<open>ap\<close> and the value returned.
\<close>

definition str_parse_ip6a :: "byte list \<Rightarrow> byte list \<Rightarrow> byte list \<Rightarrow> byte list \<Rightarrow> (byte list \<times> int) outcome" where
  "str_parse_ip6a hex_set suffix ap src =
     obind (cset_init_accept hex_set (hex_chars @ [0])) (\<lambda>hex.
     obind (cset_add hex 58) (\<lambda>ip6a.
     obind (str_spn src ip6a) (\<lambda>spn.
     obind (cell src spn) (\<lambda>cend.
       if spn < 2 \<or> spn > 39 \<or> cend \<noteq> 0 then Ok (ap, - 1)
       else obind (cell src 0) (\<lambda>c0. obind (cell src 1) (\<lambda>c1.
       if c0 = 58 \<and> c1 \<noteq> 58 then Ok (ap, - 1)
       else
         obind (block_write ap 0 (replicate 16 0)) (\<lambda>addr.
         obind (ip6_loop False hex src 0 0 addr 0) (\<lambda>(ok, p, addr, plen).
         if \<not> ok then Ok (addr, - 1)
         else
           obind (cell src p) (\<lambda>c.
           if c \<noteq> 0 \<and> plen = 16 then Ok (addr, - 1)
           else
             let (p, zcomp) = (if c \<noteq> 0 then (p + (if p = 0 then 2 else 1), 2) else (p, 0)) in
             obind (ip6_loop True hex src p (plen + zcomp) suffix 0) (\<lambda>(ok, p, suffix, slen).
             if \<not> ok then Ok (addr, - 1)
             else
               abort_unless (slen \<le> 14)
                 (obind (block_read suffix 0 slen) (\<lambda>xs. obind (block_write addr (16 - slen) xs) (\<lambda>addr.
                    abort_unless (2 \<le> p \<and> p \<le> 39) (Ok (addr, int p)))))))))))))))"

section \<open>What the copies do\<close>

text \<open>\<open>copied dst cs dlen\<close> is \<open>dst\<close> after the string of \<open>cs\<close>, cut to fit \<open>dlen\<close> bytes with its NUL.\<close>

definition copied :: "byte list \<Rightarrow> byte list \<Rightarrow> nat \<Rightarrow> byte list" where
  "copied dst cs dlen =
     (if dlen = 0 then dst else take (dlen - 1) cs @ 0 # drop (Suc (min (dlen - 1) (length cs))) dst)"

lemma copy_step:
  "i < length cs \<Longrightarrow> i < length dst \<Longrightarrow> (take i cs @ drop i dst)[i := cs ! i] = take (Suc i) cs @ drop (Suc i) dst"
  by (simp add: list_update_append take_Suc_conv_app_nth Cons_nth_drop_Suc [symmetric])

lemma copy_end: "length cs < length dst \<Longrightarrow> (cs @ drop (length cs) dst)[length cs := c] = cs @ c # drop (Suc (length cs)) dst"
  by (simp add: list_update_append Cons_nth_drop_Suc [symmetric])

lemma copy_cut:
  "0 < i \<Longrightarrow> i \<le> length cs \<Longrightarrow> (take i cs @ drop i dst)[i - Suc 0 := 0] = take (i - 1) cs @ 0 # drop i dst"
  by (cases i) (simp_all add: list_update_append take_Suc_conv_app_nth)

lemma str_copy_loop_ok:
  assumes "0 \<notin> set cs"
  shows "i \<le> length cs \<Longrightarrow> i + d \<le> length dst \<Longrightarrow> str_copy_loop (take i cs @ drop i dst) (cs @ 0 # r) i d =
     (if i + d \<le> length cs then Ok (take (i + d) cs @ drop (i + d) dst, i + d, 0)
      else Ok (cs @ 0 # drop (Suc (length cs)) dst, length cs, i + d - length cs))"
proof (induction d arbitrary: i)
  case (Suc d)
  show ?case
  proof (cases "i < length cs")
    case True
    then have "cs ! i \<noteq> 0" using assms by (metis nth_mem)
    then show ?thesis using True Suc by (simp add: cell_def set_cell_def nth_append copy_step)
  next
    case False
    then have "i = length cs" using Suc.prems by simp
    then show ?thesis using Suc.prems by (simp add: cell_def set_cell_def nth_append copy_end)
  qed
qed simp

lemma str_copy_ok:
  assumes "0 \<notin> set cs" "dlen \<le> length dst"
  shows "str_copy dst (cs @ 0 # r) dlen = Ok (copied dst cs dlen, length cs)"
proof -
  note l = str_copy_loop_ok [OF assms(1), of 0 dlen dst r, simplified]
  have len: "strlen (drop dlen (cs @ 0 # r)) = Ok (length cs - dlen)" if "dlen \<le> length cs"
    using that assms(1) strlen_ok [of "drop dlen cs" r] in_set_dropD [of 0 dlen cs] by auto
  show ?thesis
  proof (cases "dlen \<le> length cs")
    case True
    then show ?thesis using assms(2) l len copy_cut [of dlen cs dst]
      by (auto simp: str_copy_def copied_def set_cell_def min_absorb1)
  next
    case False
    then show ?thesis using assms(2) l by (simp add: str_copy_def copied_def min_absorb2)
  qed
qed

text \<open>\<open>run_of S cs e\<close>: the longest run of characters of \<open>S\<close> in \<open>cs @ e # r\<close> is \<open>cs\<close>.\<close>

definition run_of :: "byte list \<Rightarrow> byte list \<Rightarrow> byte \<Rightarrow> bool" where
  "run_of S cs e \<longleftrightarrow> (\<forall>c \<in> set cs. cset_contains S c = Ok True) \<and> cset_contains S e = Ok False"

lemma str_spn_ok: "run_of S cs e \<Longrightarrow> str_spn (cs @ e # r) S = Ok (length cs)"
  by (induction cs) (auto simp: run_of_def)

lemma run_of_drop: "run_of S cs e \<Longrightarrow> run_of S (drop n cs) e"
  by (auto simp: run_of_def dest: in_set_dropD)

lemma str_copy_spn_loop_ok:
  assumes "run_of S cs e"
  shows "i \<le> length cs \<Longrightarrow> i + d \<le> length dst \<Longrightarrow> str_copy_spn_loop (take i cs @ drop i dst) (cs @ e # r) i d S =
     (if i + d \<le> length cs then Ok (take (i + d) cs @ drop (i + d) dst, i + d, False)
      else Ok (cs @ 0 # drop (Suc (length cs)) dst, length cs, True))"
proof (induction d arbitrary: i)
  case (Suc d)
  show ?case
  proof (cases "i < length cs")
    case True
    then have "cset_contains S (cs ! i) = Ok True" using assms by (auto simp: run_of_def)
    then show ?thesis using True Suc by (simp add: cell_def set_cell_def nth_append copy_step)
  next
    case False
    then have "i = length cs" using Suc.prems by simp
    then show ?thesis using Suc.prems assms by (simp add: cell_def set_cell_def nth_append copy_end run_of_def)
  qed
qed simp

lemma str_copy_spn_ok:
  assumes "run_of S cs e" "dlen \<le> length dst"
  shows "str_copy_spn dst (cs @ e # r) dlen S = Ok (copied dst cs dlen, length cs)"
proof -
  note l = str_copy_spn_loop_ok [OF assms(1), of 0 dlen dst r, simplified]
  have len: "str_spn (drop dlen (cs @ e # r)) S = Ok (length cs - dlen)" if "dlen \<le> length cs"
    using that str_spn_ok [OF run_of_drop [OF assms(1), of dlen], of r] by simp
  show ?thesis
  proof (cases "dlen \<le> length cs")
    case True
    then show ?thesis using assms(2) l len copy_cut [of dlen cs dst]
      by (auto simp: str_copy_spn_def copied_def set_cell_def min_absorb1)
  next
    case False
    then show ?thesis using assms(2) l by (simp add: str_copy_spn_def copied_def min_absorb2)
  qed
qed

text \<open>Appending, to a string that ends within the destination, or to no string at all.\<close>

lemma str_end_ok:
  "0 \<notin> set ds \<Longrightarrow> str_end (ds @ 0 # r) 0 dlen = (if length ds < dlen then Ok (length ds, dlen - length ds) else Ok (dlen, 0))"
proof -
  assume nz: "0 \<notin> set ds"
  have "i \<le> length ds \<Longrightarrow> str_end (ds @ 0 # r) i d = (if length ds < i + d then Ok (length ds, i + d - length ds) else Ok (i + d, 0))" for i d
  proof (induction d arbitrary: i)
    case (Suc d)
    show ?case
    proof (cases "i < length ds")
      case True
      then have "ds ! i \<noteq> 0" using nz by (metis nth_mem)
      then show ?thesis using True Suc by (simp add: cell_def nth_append)
    next
      case False
      then have "i = length ds" using Suc.prems by simp
      then show ?thesis by (simp add: cell_def nth_append)
    qed
  qed simp
  from this [of 0 dlen] show ?thesis by simp
qed

lemma copied_append:
  assumes "length ds < dlen" "dlen \<le> length ds + length r"
  shows "ds @ copied r cs (dlen - length ds) = copied (ds @ r) (ds @ cs) dlen"
proof -
  have "min (dlen - Suc 0) (length ds + length cs) = length ds + min (dlen - Suc (length ds)) (length cs)" using assms by simp
  then show ?thesis using assms by (simp add: copied_def Suc_diff_le)
qed

lemma cat_ok:
  assumes "0 \<notin> set ds" "dlen \<le> length ds + Suc (length r)" "length ds + length cs \<le> SIZE_MAX" "dlen \<le> SIZE_MAX"
    and copy: "\<And>d n. n \<le> length d \<Longrightarrow> f d n = Ok (copied d cs n, length cs)"
  shows "obind (str_end (ds @ 0 # r) 0 dlen) (\<lambda>(off, dlen).
     obind (f (drop off (ds @ 0 # r)) dlen) (\<lambda>(d, copylen).
       abort_unless (copylen \<le> SIZE_MAX - off) (Ok (take off (ds @ 0 # r) @ d, copylen + off))))
   = (if length ds < dlen then Ok (copied (ds @ 0 # r) (ds @ cs) dlen, length ds + length cs)
      else Ok (ds @ 0 # r, dlen + length cs))"
proof (cases "length ds < dlen")
  case True
  have "dlen - length ds \<le> length (0 # r)" using assms(2) by simp
  from copy [OF this] show ?thesis using True assms copied_append [OF True, of "0 # r" cs]
    by (simp add: str_end_ok abort_unless_def)
next
  case False
  then show ?thesis using assms copy [of 0] by (simp add: str_end_ok copied_def abort_unless_def)
qed

text \<open>Bounded copies and appends.  With room for \<open>dlen\<close> bytes \<open>str_copy\<close> stores the source cut to
  \<open>dlen - 1\<close> characters and terminated, touches no byte after that NUL, and returns the length of the
  whole source; \<open>str_copy_spn\<close> does so for the longest run of characters of a set.  \<open>str_cat\<close> and
  \<open>str_cat_spn\<close> do it for the concatenation when the destination's string ends within the bound, and
  leave the destination alone otherwise.
  \<close>

theorem str_copies_correct:
  assumes "0 \<notin> set cs" "0 \<notin> set ds" "dlen \<le> length dst" "alen \<le> length (ds @ 0 # r)"
    and "length ds + length cs \<le> SIZE_MAX" "length (ds @ 0 # r) \<le> SIZE_MAX" "run_of S cs e"
  shows "str_copy dst (cs @ 0 # q) dlen = Ok (copied dst cs dlen, length cs)
    \<and> str_copy_spn dst (cs @ e # q) dlen S = Ok (copied dst cs dlen, length cs)
    \<and> str_cat (ds @ 0 # r) (cs @ 0 # q) alen =
         (if length ds < alen then Ok (copied (ds @ 0 # r) (ds @ cs) alen, length ds + length cs)
          else Ok (ds @ 0 # r, alen + length cs))
    \<and> str_cat_spn (ds @ 0 # r) (cs @ e # q) alen S =
         (if length ds < alen then Ok (copied (ds @ 0 # r) (ds @ cs) alen, length ds + length cs)
          else Ok (ds @ 0 # r, alen + length cs))"
  using assms str_copy_ok [of cs] str_copy_spn_ok [of S cs e]
  by (simp only: str_cat_def str_cat_spn_def) (intro conjI cat_ok; simp)

lemma str_copies_correct_witness:
  "str_copy [1, 2, 3, 4] ([97, 98, 99, 100, 101] @ 0 # []) 4 = Ok ([97, 98, 99, 0], 5)
   \<and> str_cat ([97] @ 0 # [7, 8]) ([97, 98, 99, 100, 101] @ 0 # []) 4 = Ok ([97, 97, 98, 0], 6)"
proof -
  have "run_of (replicate 12 0 @ [0x3E] @ replicate 19 0) [97, 98, 99, 100, 101] 47" by code_simp
  from str_copies_correct [of "[97, 98, 99, 100, 101]" "[97]" 4 "[1, 2, 3, 4]" 4 "[7, 8]", OF _ _ _ _ _ _ this]
  show ?thesis by (simp add: SIZE_MAX_def copied_def)
qed

section \<open>The path walker against its specification\<close>

text \<open>
  \<open>path_elems S p\<close>: the elements of the path \<open>p\<close> whose separators are the characters of \<open>S\<close>.  A
  run of separators counts as one, a trailing one is dropped, and a leading one makes an empty element.
\<close>

function path_elems :: "byte list \<Rightarrow> byte list \<Rightarrow> byte list list" where
  "path_elems S p =
     takeWhile (\<lambda>c. c \<notin> set S) p #
     (case dropWhile (\<lambda>c. c \<notin> set S) p of
        [] \<Rightarrow> []
      | c # q \<Rightarrow> (if dropWhile (\<lambda>c. c \<in> set S) q = [] then [] else path_elems S (dropWhile (\<lambda>c. c \<in> set S) q)))"
  by pat_completeness auto
termination
proof (relation "measure (\<lambda>(S, p). length p)")
  fix S p :: "byte list" and c q assume d: "dropWhile (\<lambda>c. c \<notin> set S) p = c # q"
  have "length (dropWhile (\<lambda>c. c \<in> set S) q) \<le> length q" by (rule length_dropWhile_le)
  also have "length q < length p" using length_dropWhile_le [of "\<lambda>c. c \<notin> set S" p] unfolding d by simp
  finally show "((S, dropWhile (\<lambda>c. c \<in> set S) q), (S, p)) \<in> measure (\<lambda>(S, p). length p)" by simp
qed simp

declare path_elems.simps [simp del]

text \<open>
  \<open>pw_rep S pw es\<close>: the walker was set up for separators \<open>S\<close> and the elements it has still to give
  are \<open>es\<close>.
\<close>

definition pw_rep :: "byte list \<Rightarrow> path_walker \<Rightarrow> byte list list \<Rightarrow> bool" where
  "pw_rep S pw es \<longleftrightarrow>
     (\<forall>y. cset_contains (pw_acc pw) y = Ok (y \<in> set S)) \<and> (\<forall>y. cset_contains (pw_rej pw) y = Ok (y \<notin> set S \<and> y \<noteq> 0)) \<and>
     (case pw_next pw of None \<Rightarrow> es = []
      | Some n \<Rightarrow> \<exists>p r. drop n (pw_path pw) = p @ 0 # r \<and> 0 \<notin> set p \<and> es = path_elems S p)"


lemma pwalk_init_rep:
  assumes "length (pw_acc pw) = 32" "length (pw_rej pw) = 32" "0 \<notin> set S" "0 \<notin> set p"
  shows "\<exists>w. pwalk_init pw (p @ 0 # r) (S @ 0 # q) d = Ok w \<and> pw_rep S w (path_elems S p) \<and> pw_dsep w = d \<and> pw_path w = p @ 0 # r"
  using cset_init_accept_ok [OF assms(1,3), of q] cset_init_reject_ok [OF assms(2,3), of q] assms(4)
  by (force simp: pwalk_init_def pw_rep_def)

lemma pwalk_reset_rep:
  assumes "pw_rep S w es" "pw_path w = p @ 0 # r" "0 \<notin> set p"
  shows "pw_rep S (pwalk_reset w) (path_elems S p)"
  using assms by (force simp: pwalk_reset_def pw_rep_def)

lemma pwalk_next_done: "pw_rep S w [] \<Longrightarrow> pwalk_next w sfx out osize = Ok (w, out, False)"
  by (auto simp: pw_rep_def pwalk_next_def path_elems.simps split: option.splits)

text \<open>What the text at \<open>next\<close> looks like: the element, the character that ends it, and the separators after it.\<close>

lemma run_of_takeWhile:
  assumes "\<And>y. cset_contains C y = Ok (Q y)" "\<not> Q (hd (dropWhile Q p @ [0]))"
  shows "run_of C (takeWhile Q p) (hd (dropWhile Q p @ [0]))"
  using assms by (auto simp: run_of_def dest: set_takeWhileD)

lemma hd_dropWhile_append: "\<not> Q x \<Longrightarrow> \<not> Q (hd (dropWhile Q p @ [x]))"
  using hd_dropWhile [of Q p] by (cases "dropWhile Q p = []") (simp_all only: append_Nil list.sel hd_append2 not_False_eq_True)

lemma pw_rep_text:
  assumes "pw_rep S w (e # es)" "0 \<notin> set S"
  shows "\<exists>n x t. pw_next w = Some n \<and> drop n (pw_path w) = e @ x # t \<and> run_of (pw_rej w) e x \<and> (x = 0 \<longrightarrow> es = [])
    \<and> (x \<noteq> 0 \<longrightarrow> (\<exists>s q r. t = s @ q @ 0 # r \<and> 0 \<notin> set q \<and> run_of (pw_acc w) s (hd (q @ [0])) \<and> es = (if q = [] then [] else path_elems S q)))"
proof -
  obtain n p r where n: "pw_next w = Some n" "drop n (pw_path w) = p @ 0 # r" "0 \<notin> set p" "e # es = path_elems S p"
    using assms(1) by (auto simp: pw_rep_def split: option.splits)
  have acc: "\<And>y. cset_contains (pw_acc w) y = Ok (y \<in> set S)" and rej: "\<And>y. cset_contains (pw_rej w) y = Ok (y \<notin> set S \<and> y \<noteq> 0)"
    using assms(1) by (auto simp: pw_rep_def)
  let ?P = "\<lambda>c. c \<notin> set S" let ?R = "\<lambda>c. c \<notin> set S \<and> c \<noteq> 0" let ?A = "\<lambda>c. c \<in> set S"
  have eq: "takeWhile ?P p = takeWhile ?R p" "dropWhile ?P p = dropWhile ?R p"
    by (rule takeWhile_cong dropWhile_cong; use n(3) in auto)+
  have e: "e = takeWhile ?P p" using n(4) by (subst (asm) path_elems.simps) simp
  have run: "run_of (pw_rej w) e (hd (dropWhile ?P p @ [0]))"
    unfolding e eq by (rule run_of_takeWhile [OF rej], rule hd_dropWhile_append) simp_all
  show ?thesis
  proof (cases "dropWhile ?P p")
    case Nil
    then have "p = e" using takeWhile_dropWhile_id [of ?P p] e by (metis append_Nil2)
    moreover have "es = []" using n(4) Nil by (subst (asm) path_elems.simps) simp
    moreover have "run_of (pw_rej w) e 0" using run unfolding Nil by simp
    ultimately show ?thesis using n(1,2) by (intro exI [of _ n] exI [of _ 0] exI [of _ r]) simp
  next
    case (Cons x q)
    then have p: "p = e @ x # q" using takeWhile_dropWhile_id [of ?P p] e by simp
    have "es = (if dropWhile ?A q = [] then [] else path_elems S (dropWhile ?A q))"
      using n(4) Cons by (subst (asm) path_elems.simps) simp
    moreover have "run_of (pw_acc w) (takeWhile ?A q) (hd (dropWhile ?A q @ [0]))"
      by (rule run_of_takeWhile [OF acc], rule hd_dropWhile_append) (use assms(2) in simp_all)
    moreover have "q @ 0 # r = takeWhile ?A q @ dropWhile ?A q @ 0 # r" by (simp flip: append_assoc)
    moreover have "0 \<notin> set (dropWhile ?A q)" "x \<noteq> 0" using n(3) p set_dropWhileD by fastforce+
    ultimately have "\<exists>s q' r'. q @ 0 # r = s @ q' @ 0 # r' \<and> 0 \<notin> set q' \<and> run_of (pw_acc w) s (hd (q' @ [0])) \<and> es = (if q' = [] then [] else path_elems S q')"
      by blast
    moreover have "run_of (pw_rej w) e x" using run unfolding Cons by simp
    ultimately show ?thesis using n(1,2) p \<open>x \<noteq> 0\<close> by (intro exI [of _ n] exI [of _ x] exI [of _ "q @ 0 # r"]) simp
  qed
qed

lemma copied_all: "length cs < dlen \<Longrightarrow> copied dst cs dlen = cs @ 0 # drop (Suc (length cs)) dst"
  by (simp add: copied_def min_absorb2)

lemma pwalk_next_elem:
  assumes w: "pw_rep S w (e # es)" and S: "0 \<notin> set S"
    and fit: "length e + length sfx + 1 < osize" "osize \<le> length out" "0 \<notin> set sfx"
  shows "\<exists>w'. pwalk_next w (Some (sfx @ 0 # q)) out osize =
       Ok (w', e @ pw_dsep w # sfx @ 0 # drop (length e + length sfx + 2) out, True)
     \<and> pw_rep S w' es \<and> pw_dsep w' = pw_dsep w \<and> pw_path w' = pw_path w"
proof -
  obtain n x t where n: "pw_next w = Some n" "drop n (pw_path w) = e @ x # t" "run_of (pw_rej w) e x"
    and x: "x = 0 \<Longrightarrow> es = []"
    "x \<noteq> 0 \<Longrightarrow> \<exists>s q r. t = s @ q @ 0 # r \<and> 0 \<notin> set q \<and> run_of (pw_acc w) s (hd (q @ [0])) \<and> es = (if q = [] then [] else path_elems S q)"
    using pw_rep_text [OF w S] by blast
  let ?o = "e @ 0 # drop (Suc (length e)) out"
  let ?out = "e @ pw_dsep w # sfx @ 0 # drop (length e + length sfx + 2) out"
  have c1: "str_copy_spn out (drop n (pw_path w)) osize (pw_rej w) = Ok (?o, length e)"
    unfolding n(2) using str_copy_spn_ok [OF n(3) fit(2), of t] fit(1) by (simp add: copied_all)
  have c2: "str_copy (drop (Suc (length e)) out) (sfx @ 0 # q) (osize - Suc (length e)) =
      Ok (sfx @ 0 # drop (length e + length sfx + 2) out, length sfx)"
    using str_copy_ok [OF fit(3), of "osize - Suc (length e)" "drop (Suc (length e)) out" q] fit(1,2) by (simp add: copied_all add.commute)
  have cell_drop: "cell (pw_path w) (m + k) = Ok (xs ! k)" if "drop m (pw_path w) = xs" "k < length xs" for m k xs
    using that by (auto simp: cell_def)
  have cx: "cell (pw_path w) (n + length e) = Ok x" using cell_drop [OF n(2), of "length e"] by simp
  have h: "\<not> osize < 1" "\<not> osize - 1 \<le> length e" "length e < length ?o" "\<not> osize - (length e + 1) \<le> length sfx"
    using fit(1,2) by auto
  have o: "?o[length e := pw_dsep w] = e @ pw_dsep w # drop (Suc (length e)) out"
    "drop (length e + 1) (e @ pw_dsep w # drop (Suc (length e)) out) = drop (Suc (length e)) out"
    "take (length e + 1) (e @ pw_dsep w # drop (Suc (length e)) out) = e @ [pw_dsep w]"
    by (simp_all add: list_update_append)
  have eq: "pwalk_next w (Some (sfx @ 0 # q)) out osize =
      (if x = 0 then Ok (w\<lparr>pw_next := None\<rparr>, ?out, True)
       else obind (str_spn (drop (n + length e + 1) (pw_path w)) (pw_acc w)) (\<lambda>k.
            obind (cell (pw_path w) (n + length e + 1 + k)) (\<lambda>c.
              Ok (w\<lparr>pw_next := (if c = 0 then None else Some (n + length e + 1 + k))\<rparr>, ?out, True))))"
    using c2 unfolding pwalk_next_def n(1) option.case Let_def
    by (simp only: h c1 o set_cell_def obind_simps prod.case if_True if_False Suc_eq_plus1 [symmetric] cx append_assoc append_Cons append_Nil simp_thms) (use fit(1) in \<open>simp add: o\<close>)
  show ?thesis
  proof (cases "x = 0")
    case True
    then show ?thesis using w x eq by (simp add: pw_rep_def)
  next
    case False
    then obtain s q' r where t: "t = s @ q' @ 0 # r" "0 \<notin> set q'" "run_of (pw_acc w) s (hd (q' @ [0]))" "es = (if q' = [] then [] else path_elems S q')"
      using x by blast
    let ?n = "n + length e + 1"
    have d: "drop ?n (pw_path w) = s @ q' @ 0 # r" using n(2) t(1) drop_drop [of "length e + 1" n "pw_path w"] by (simp add: add.commute add.left_commute)
    have d': "drop (?n + length s) (pw_path w) = q' @ 0 # r" using d drop_drop [of "length s" ?n "pw_path w"] by (simp add: add.commute)
    have tl: "q' @ 0 # r = hd (q' @ [0]) # tl (q' @ 0 # r)" by (cases q') auto
    have sp: "str_spn (drop ?n (pw_path w)) (pw_acc w) = Ok (length s)"
      unfolding d by (subst tl) (rule str_spn_ok [OF t(3)])
    have "cell (pw_path w) (?n + length s) = Ok (hd (q' @ [0]))" using cell_drop [OF d', of 0] by (cases q') simp_all
    then have "pwalk_next w (Some (sfx @ 0 # q)) out osize =
        Ok (w\<lparr>pw_next := (if hd (q' @ [0]) = 0 then None else Some (?n + length s))\<rparr>, ?out, True)"
      using False eq sp by simp
    moreover have "pw_rep S (w\<lparr>pw_next := (if hd (q' @ [0]) = 0 then None else Some (?n + length s))\<rparr>) es"
    proof (cases q')
      case Nil
      then show ?thesis using t(4) w by (simp add: pw_rep_def)
    next
      case (Cons c cs)
      then show ?thesis using t(2,4) w d' by (simp add: pw_rep_def) (rule exI [of _ "c # cs"], simp)
    qed
    ultimately show ?thesis by simp
  qed
qed

lemma pwalk_next_long:
  assumes w: "pw_rep S w (e # es)" and S: "0 \<notin> set S"
    and fit: "length e + length sfx + 1 \<ge> osize" "osize \<le> length out" "0 \<notin> set sfx"
  shows "\<exists>out'. pwalk_next w (Some (sfx @ 0 # q)) out osize = Ok (w, out', False)"
proof -
  obtain n x t where n: "pw_next w = Some n" "drop n (pw_path w) = e @ x # t" "run_of (pw_rej w) e x"
    using pw_rep_text [OF w S] by blast
  have c1: "str_copy_spn out (drop n (pw_path w)) osize (pw_rej w) = Ok (copied out e osize, length e)"
    unfolding n(2) by (rule str_copy_spn_ok [OF n(3) fit(2)])
  show ?thesis
  proof (cases "length e \<ge> osize - 1 \<or> osize = 0")
    case True
    then show ?thesis using n(1) c1 by (auto simp: pwalk_next_def)
  next
    case False
    let ?o = "e @ pw_dsep w # drop (Suc (length e)) out"
    have "str_copy (drop (Suc (length e)) ?o) (sfx @ 0 # q) (osize - Suc (length e)) =
        Ok (copied (drop (Suc (length e)) ?o) sfx (osize - Suc (length e)), length sfx)"
      by (rule str_copy_ok [OF fit(3)]) (use fit(2) in simp)
    then show ?thesis using n(1) c1 False fit
      by (auto simp: pwalk_next_def set_cell_def list_update_append copied_all Let_def)
  qed
qed

text \<open>C29:
  The path walker refines the list of the path's elements.  \<open>pwalk_init\<close> and \<open>pwalk_reset\<close> start it
  at all of them; a call of \<open>pwalk_next\<close> whose buffer has room stores the next element, the separator
  and the suffix as a string, leaves the rest of the buffer alone and goes on to the other elements;
  at the end it returns NULL, and so it does when the buffer is too small, without going on.
  \<close>

theorem pwalk_refines_elements:
  assumes "length (pw_acc pw) = 32" "length (pw_rej pw) = 32" "0 \<notin> set S" "0 \<notin> set p" "0 \<notin> set sfx" "osize \<le> length out"
  shows "(\<exists>w. pwalk_init pw (p @ 0 # r) (S @ 0 # q) d = Ok w \<and> pw_rep S w (path_elems S p) \<and> pw_dsep w = d \<and> pw_path w = p @ 0 # r)
    \<and> (\<forall>w es. pw_rep S w es \<longrightarrow> pw_path w = p @ 0 # r \<longrightarrow> pw_rep S (pwalk_reset w) (path_elems S p))
    \<and> (\<forall>w. pw_rep S w [] \<longrightarrow> pwalk_next w (Some (sfx @ 0 # u)) out osize = Ok (w, out, False))
    \<and> (\<forall>w e es. pw_rep S w (e # es) \<longrightarrow>
        (if length e + length sfx + 1 < osize
         then \<exists>w'. pwalk_next w (Some (sfx @ 0 # u)) out osize =
                Ok (w', e @ pw_dsep w # sfx @ 0 # drop (length e + length sfx + 2) out, True)
              \<and> pw_rep S w' es \<and> pw_dsep w' = pw_dsep w \<and> pw_path w' = pw_path w
         else \<exists>out'. pwalk_next w (Some (sfx @ 0 # u)) out osize = Ok (w, out', False)))"
  using assms pwalk_init_rep pwalk_reset_rep pwalk_next_done pwalk_next_elem pwalk_next_long
  by (auto simp: not_less)

lemma pwalk_refines_elements_witness:
  "path_elems [58] [47, 97, 58, 58, 98, 58] = [[47, 97], [98]] \<and>
   (\<exists>w. pwalk_init \<lparr>pw_path = [], pw_next = None, pw_acc = replicate 32 1, pw_rej = replicate 32 2, pw_dsep = 0\<rparr>
      ([47, 97, 58, 58, 98, 58] @ 0 # []) ([58] @ 0 # []) 47 = Ok w \<and> pw_rep [58] w [[47, 97], [98]])"
proof -
  have "path_elems [58] [47, 97, 58, 58, 98, 58] = [[47, 97], [98]]" by (simp add: path_elems.simps)
  then show ?thesis
    using pwalk_refines_elements [of "\<lparr>pw_path = [], pw_next = None, pw_acc = replicate 32 1, pw_rej = replicate 32 2, pw_dsep = 0\<rparr>"
      "[58]" "[47, 97, 58, 58, 98, 58]" "[99]" 4 "[0, 0, 0, 0]" "[]" "[]" 47, THEN conjunct1] by auto
qed

section \<open>IPv6 addresses against their values\<close>

text \<open>
  The value of a hexadecimal digit and of a group of them, and the two bytes a group stands for.  An
  address is its groups with colons between them; one run of zero groups may be left out.
\<close>

definition hexval :: "byte \<Rightarrow> nat" where
  "hexval c = (if c \<le> 57 then unat c - 48 else if c \<ge> 97 then unat c - 87 else unat c - 55)"

definition group_val :: "byte list \<Rightarrow> nat" where
  "group_val g = fold (\<lambda>c v. 16 * v + hexval c) g 0"

definition group_bytes :: "byte list \<Rightarrow> byte list" where
  "group_bytes g = [of_nat (group_val g div 256), of_nat (group_val g mod 256)]"

definition hex_group :: "byte list \<Rightarrow> bool" where
  "hex_group g \<longleftrightarrow> set g \<subseteq> set hex_chars \<and> 1 \<le> length g \<and> length g \<le> 4"

definition colons :: "byte list list \<Rightarrow> byte list" where
  "colons gs = concat (map (\<lambda>g. g @ [58]) gs)"

fun join_colon :: "byte list list \<Rightarrow> byte list" where
  "join_colon [] = []"
| "join_colon [g] = g"
| "join_colon (g # gs) = g @ 58 # join_colon gs"

definition bytes_of :: "byte list list \<Rightarrow> byte list" where
  "bytes_of gs = concat (map group_bytes gs)"

lemma hex_digits: "\<forall>c \<in> set hex_chars. chnval c = of_nat (hexval c) \<and> hexval c < 16"
  by code_simp

lemma hex_pairs: "\<forall>a \<in> set hex_chars. \<forall>b \<in> set hex_chars. hexpair a b = of_nat (16 * hexval a + hexval b)"
  by code_simp

lemma group_bytes_simps:
  "hex_group [a] \<Longrightarrow> group_bytes [a] = [0, chnval a]"
  "hex_group [a, b] \<Longrightarrow> group_bytes [a, b] = [0, hexpair a b]"
  "hex_group [a, b, c] \<Longrightarrow> group_bytes [a, b, c] = [chnval a, hexpair b c]"
  "hex_group [a, b, c, d] \<Longrightarrow> group_bytes [a, b, c, d] = [hexpair a b, hexpair c d]"
proof -
  have eq: "(256 * x + y) div 256 = x" "(256 * x + y) mod 256 = y" if "y < 256" for x y :: nat using that by simp_all
  have lt: "16 * hexval a + hexval b < 256" if "a \<in> set hex_chars" "b \<in> set hex_chars" for a b
    using hex_digits [rule_format, OF that(1)] hex_digits [rule_format, OF that(2)] by linarith
  show "hex_group [a] \<Longrightarrow> group_bytes [a] = [0, chnval a]"
    using hex_digits less_le_trans [of "hexval a" 16 256] by (simp add: hex_group_def group_bytes_def group_val_def)
  show "hex_group [a, b] \<Longrightarrow> group_bytes [a, b] = [0, hexpair a b]"
    using hex_pairs lt [of a b] by (simp add: hex_group_def group_bytes_def group_val_def)
  show "hex_group [a, b, c] \<Longrightarrow> group_bytes [a, b, c] = [chnval a, hexpair b c]"
    using hex_digits hex_pairs eq [of "16 * hexval b + hexval c" "hexval a"] lt [of b c] by (simp add: hex_group_def group_bytes_def group_val_def algebra_simps)
  show "hex_group [a, b, c, d] \<Longrightarrow> group_bytes [a, b, c, d] = [hexpair a b, hexpair c d]"
    using hex_digits hex_pairs eq [of "16 * hexval c + hexval d" "16 * hexval a + hexval b"] lt [of c d]
    by (simp add: hex_group_def group_bytes_def group_val_def algebra_simps)
qed

lemma length_group_bytes [simp]: "length (group_bytes g) = 2"
  by (simp add: group_bytes_def)

text \<open>\<open>put2 buf at bs\<close>: the buffer with \<open>bs\<close> stored at \<open>at\<close>.\<close>

definition put_at :: "byte list \<Rightarrow> nat \<Rightarrow> byte list \<Rightarrow> byte list" where
  "put_at buf n bs = take n buf @ bs @ drop (n + length bs) buf"

lemma minus_two: "2 \<le> i \<Longrightarrow> Suc (Suc (i - 2)) = i"
  by simp

lemma put2: "n + 1 < length buf \<Longrightarrow> buf[n := a, Suc n := b] = put_at buf n [a, b]"
  by (intro nth_equalityI) (auto simp: put_at_def nth_list_update nth_append nth_Cons' less_Suc_eq minus_two)

lemma cell_drop: "drop m xs = ys \<Longrightarrow> k < length ys \<Longrightarrow> cell xs (m + k) = Ok (ys ! k)"
  by (auto simp: cell_def)

lemma ip6_group_ok:
  assumes "hex_group g" "drop p src = g @ t" "n + 1 < length buf" "suf \<or> buf ! n = 0"
  shows "ip6_group suf src p (length g) buf n = Ok (Some (put_at buf n (group_bytes g)))"
proof -
  have c: "cell src (p + k) = Ok (g ! k)" if "k < length g" for k
    using that cell_drop [OF assms(2), of k] by (simp add: nth_append)
  have z: "buf[n := 0] = buf" if "\<not> suf" using that assms(4) list_update_id [of buf n] by simp
  have l: "n < length buf" "Suc n < length buf" using assms(3) by simp_all
  have p: "buf[n := x, Suc n := y] = put_at buf n [x, y]" for x y by (rule put2 [OF assms(3)])
  have z2: "buf[Suc n := y] = put_at buf n [0, y]" if "\<not> suf" for y using z [OF that] p [of 0 y] by simp
  consider a where "g = [a]" | a b where "g = [a, b]" | a b c where "g = [a, b, c]" | a b c d where "g = [a, b, c, d]"
    using assms(1) by (auto simp: hex_group_def neq_Nil_conv length_Suc_conv le_Suc_eq numeral_eq_Suc)
  then show ?thesis
  proof cases
    case 1
    then show ?thesis using assms(1) c [of 0] l by (cases suf) (simp_all add: ip6_group_def set_cell_def p z2 group_bytes_simps)
  next
    case 2
    then show ?thesis using assms(1) c [of 0] c [of 1] l by (cases suf) (simp_all add: ip6_group_def set_cell_def p z2 group_bytes_simps)
  next
    case 3
    then show ?thesis using assms(1) c [of 0] c [of 1] c [of 2] l by (simp add: ip6_group_def set_cell_def p group_bytes_simps)
  next
    case 4
    then show ?thesis using assms(1) c [of 0] c [of 1] c [of 2] c [of 3] l by (simp add: ip6_group_def set_cell_def p group_bytes_simps)
  qed
qed

section \<open>The loops of the parser\<close>

text \<open>What the set of hexadecimal digits must satisfy.\<close>

definition hex_set_ok :: "byte list \<Rightarrow> bool" where
  "hex_set_ok hex \<longleftrightarrow> (\<forall>y. cset_contains hex y = Ok (y \<in> set hex_chars))"

lemma hex_run: "hex_set_ok hex \<Longrightarrow> set g \<subseteq> set hex_chars \<Longrightarrow> e \<notin> set hex_chars \<Longrightarrow> str_spn (g @ e # t) hex = Ok (length g)"
  by (rule str_spn_ok) (auto simp: hex_set_ok_def run_of_def)

lemma non_hex: "58 \<notin> set hex_chars" "0 \<notin> set hex_chars"
  by code_simp+

declare ip6_loop.simps [simp del]

lemma ip6_loop_stop:
  assumes "hex_set_ok hex" "drop p src = e # t" "e \<notin> set hex_chars"
  shows "ip6_loop suf hex src p base buf n = Ok (True, p, buf, n)"
  using hex_run [OF assms(1) _ assms(3), of "[]" t] assms(2) by (simp add: ip6_loop.simps)

definition room :: "bool \<Rightarrow> byte list \<Rightarrow> nat \<Rightarrow> bool" where
  "room suf buf n \<longleftrightarrow> length buf = 16 \<and> (suf \<or> (\<forall>k. n \<le> k \<and> k < 16 \<longrightarrow> buf ! k = 0))"

lemma length_put_at [simp]: "n + length bs \<le> length buf \<Longrightarrow> length (put_at buf n bs) = length buf"
  by (simp add: put_at_def)

lemma room_put: "room suf buf n \<Longrightarrow> length bs = 2 \<Longrightarrow> n + 2 \<le> 16 \<Longrightarrow> room suf (put_at buf n bs) (n + 2)"
  by (auto simp: room_def put_at_def nth_append minus_two)

lemma put_at_put_at:
  "n + length bs \<le> length buf \<Longrightarrow> put_at (put_at buf n bs) (n + length bs) cs = put_at buf n (bs @ cs)"
  by (simp add: put_at_def min_absorb2 add.commute add.left_commute)

lemma ip6_loop_group:
  assumes "hex_set_ok hex" "hex_group g" "drop p src = g @ e # t" "e = 58 \<or> e = 0" "room suf buf n" "base + n < 16" "n + 2 \<le> 16"
  shows "ip6_loop suf hex src p base buf n =
    (if e = 58 then ip6_loop suf hex src (p + length g + 1) base (put_at buf n (group_bytes g)) (n + 2)
     else Ok (True, p + length g, put_at buf n (group_bytes g), n + 2))"
proof -
  have "e \<notin> set hex_chars" using assms(4) non_hex by auto
  then have r: "str_spn (drop p src) hex = Ok (length g)"
    unfolding assms(3) using hex_run [OF assms(1)] assms(2) by (simp add: hex_group_def)
  have z: "suf \<or> buf ! n = 0" "n + 1 < length buf" using assms(5,7) by (auto simp: room_def)
  have "cell src (p + length g) = Ok e" using cell_drop [OF assms(3), of "length g"] by simp
  moreover have "length g \<noteq> 0" using assms(2) by (auto simp: hex_group_def)
  ultimately show ?thesis
    using assms(4,6) r ip6_group_ok [OF assms(2,3) z(2,1)] by (subst ip6_loop.simps) auto
qed

lemma ip6_loop_colons:
  assumes "hex_set_ok hex" "\<forall>g \<in> set gs. hex_group g"
  shows "drop p src = colons gs @ t \<Longrightarrow> room suf buf n \<Longrightarrow> base + n + 2 * length gs \<le> 16 \<Longrightarrow>
    ip6_loop suf hex src p base buf n =
      ip6_loop suf hex src (p + length (colons gs)) base (put_at buf n (bytes_of gs)) (n + 2 * length gs)
    \<and> room suf (put_at buf n (bytes_of gs)) (n + 2 * length gs)"
  using assms(2)
proof (induction gs arbitrary: p buf n)
  case Nil
  then show ?case by (simp add: colons_def bytes_of_def put_at_def)
next
  case (Cons g gs)
  have d: "drop p src = g @ 58 # (colons gs @ t)" using Cons.prems(1) by (simp add: colons_def)
  have d': "drop (p + length g + 1) src = colons gs @ t"
    using d drop_drop [of "length g + 1" p src] by (simp add: add.commute)
  have g: "hex_group g" "base + n < 16" "n + 2 \<le> 16" using Cons.prems by simp_all
  let ?b = "put_at buf n (group_bytes g)"
  have r: "room suf ?b (n + 2)" by (rule room_put [OF Cons.prems(2) length_group_bytes g(3)])
  have l: "length buf = 16" using Cons.prems(2) by (simp add: room_def)
  have m: "put_at ?b (n + 2) (bytes_of gs) = put_at buf n (bytes_of (g # gs))"
    using put_at_put_at [of n "group_bytes g" buf "bytes_of gs"] g(3) l by (simp add: bytes_of_def)
  have "ip6_loop suf hex src p base buf n = ip6_loop suf hex src (p + length g + 1) base ?b (n + 2)"
    using ip6_loop_group [OF assms(1) g(1) d _ Cons.prems(2) g(2,3)] by simp
  then show ?case using Cons.IH [OF d' r] Cons.prems(3,4) m by (simp add: colons_def add.assoc)
qed

lemma join_colon_last: "join_colon (gs @ [g]) = colons gs @ g"
proof (induction gs)
  case (Cons h gs)
  then show ?case by (cases "gs @ [g]") (simp_all add: colons_def)
qed (simp add: colons_def)

lemma length_bytes_of [simp]: "length (bytes_of gs) = 2 * length gs"
  by (induction gs) (simp_all add: bytes_of_def)

lemma bytes_of_append: "bytes_of (gs @ hs) = bytes_of gs @ bytes_of hs" "bytes_of [g] = group_bytes g"
  by (simp_all add: bytes_of_def)

lemma ip6_loop_text:
  assumes "hex_set_ok hex" "\<forall>g \<in> set gs. hex_group g" "gs \<noteq> []"
    and "drop p src = join_colon gs @ 0 # t" "room suf buf n" "base + n + 2 * length gs \<le> 16"
  shows "ip6_loop suf hex src p base buf n =
    Ok (True, p + length (join_colon gs), put_at buf n (bytes_of gs), n + 2 * length gs)"
proof -
  obtain hs g where gs: "gs = hs @ [g]" using assms(3) by (cases gs rule: rev_cases) auto
  have d: "drop p src = colons hs @ g @ 0 # t" using assms(4) by (simp add: gs join_colon_last)
  let ?p = "p + length (colons hs)" and ?n = "n + 2 * length hs" and ?b = "put_at buf n (bytes_of hs)"
  have d': "drop ?p src = g @ 0 # t" using d drop_drop [of "length (colons hs)" p src] by (simp add: add.commute)
  have c: "ip6_loop suf hex src p base buf n = ip6_loop suf hex src ?p base ?b ?n" "room suf ?b ?n"
    using ip6_loop_colons [OF assms(1) _ d assms(5), of base] assms(2,6) by (auto simp: gs)
  have l: "length buf = 16" "n + 2 * length hs \<le> 16" using assms(5,6) by (simp_all add: room_def gs)
  have "ip6_loop suf hex src ?p base ?b ?n = Ok (True, ?p + length g, put_at ?b ?n (group_bytes g), ?n + 2)"
    using ip6_loop_group [OF assms(1) _ d' _ c(2)] assms(2,6) by (simp add: gs)
  then show ?thesis using c(1) put_at_put_at [of n "bytes_of hs" buf "group_bytes g"] l
    by (simp add: gs join_colon_last bytes_of_append)
qed

text \<open>Either loop at a list of groups that may be empty, ended by NUL.\<close>

lemma ip6_loop_end:
  assumes "hex_set_ok hex" "\<forall>g \<in> set gs. hex_group g"
    and "drop p src = join_colon gs @ 0 # t" "room suf buf n" "base + n + 2 * length gs \<le> 16"
  shows "ip6_loop suf hex src p base buf n =
    Ok (True, p + length (join_colon gs), put_at buf n (bytes_of gs), n + 2 * length gs)"
proof (cases "gs = []")
  case True
  then show ?thesis using ip6_loop_stop [OF assms(1), of p src 0 t] assms(3) non_hex by (simp add: put_at_def bytes_of_def)
qed (use ip6_loop_text [OF assms(1,2)] assms in blast)

section \<open>The parser\<close>

definition ip6_full :: "byte list list \<Rightarrow> byte list" where
  "ip6_full gs = join_colon gs"

definition ip6_short :: "byte list list \<Rightarrow> byte list list \<Rightarrow> byte list" where
  "ip6_short gs hs = (if gs = [] then [58] else colons gs) @ 58 # join_colon hs"

lemma ip6_sets:
  assumes "length s = 32"
  shows "\<exists>hex ip6a. cset_init_accept s (hex_chars @ [0]) = Ok hex \<and> hex_set_ok hex \<and> cset_add hex 58 = Ok ip6a
    \<and> (\<forall>y. cset_contains ip6a y = Ok (y \<in> insert 58 (set hex_chars)))"
proof -
  obtain hex where h: "cset_init_accept s (hex_chars @ [0]) = Ok hex" "length hex = 32" "hex_set_ok hex"
    using cset_init_accept_ok [OF assms non_hex(2), of "[]"] by (auto simp: hex_set_ok_def)
  from cset.add_ok [OF h(2), of 58] h show ?thesis by (auto simp: hex_set_ok_def)
qed


lemma length_join_colon: "gs \<noteq> [] \<Longrightarrow> \<forall>g \<in> set gs. hex_group g \<Longrightarrow> 2 * length gs \<le> length (join_colon gs) + 1 \<and> length (join_colon gs) + 1 \<le> 5 * length gs"
  by (induction gs rule: join_colon.induct) (auto simp: hex_group_def)

lemma length_colons: "\<forall>g \<in> set gs. hex_group g \<Longrightarrow> 2 * length gs \<le> length (colons gs) \<and> length (colons gs) \<le> 5 * length gs"
  by (induction gs) (auto simp: colons_def hex_group_def)

lemma set_join_colon: "\<forall>g \<in> set gs. hex_group g \<Longrightarrow> set (join_colon gs) \<subseteq> insert 58 (set hex_chars)"
  by (induction gs rule: join_colon.induct) (auto simp: hex_group_def)

lemma set_colons: "\<forall>g \<in> set gs. hex_group g \<Longrightarrow> set (colons gs) \<subseteq> insert 58 (set hex_chars)"
  by (induction gs) (auto simp: colons_def hex_group_def)

text \<open>The parser after its checks of the text, and the two loops on each form of address.\<close>

definition ip6_parsed :: "byte list \<Rightarrow> byte list \<Rightarrow> byte list \<Rightarrow> (byte list \<times> int) outcome" where
  "ip6_parsed hex suffix src =
     obind (ip6_loop False hex src 0 0 (replicate 16 0) 0) (\<lambda>(ok, p, addr, plen).
         if \<not> ok then Ok (addr, - 1)
         else
           obind (cell src p) (\<lambda>c.
           if c \<noteq> 0 \<and> plen = 16 then Ok (addr, - 1)
           else
             let (p, zcomp) = (if c \<noteq> 0 then (p + (if p = 0 then 2 else 1), 2) else (p, 0)) in
             obind (ip6_loop True hex src p (plen + zcomp) suffix 0) (\<lambda>(ok, p, suffix, slen).
             if \<not> ok then Ok (addr, - 1)
             else
               abort_unless (slen \<le> 14)
                 (obind (block_read suffix 0 slen) (\<lambda>xs. obind (block_write addr (16 - slen) xs) (\<lambda>addr.
                    abort_unless (2 \<le> p \<and> p \<le> 39) (Ok (addr, int p))))))))"

lemma ip6_checked:
  assumes "length s = 32" "length ap = 16" "set txt \<subseteq> insert 58 (set hex_chars)" "2 \<le> length txt" "length txt \<le> 39"
    and "txt ! 0 = 58 \<longrightarrow> txt ! 1 = 58"
  shows "\<exists>hex. hex_set_ok hex \<and> str_parse_ip6a s suffix ap (txt @ 0 # r) = ip6_parsed hex suffix (txt @ 0 # r)"
proof -
  obtain hex ip6a where h: "cset_init_accept s (hex_chars @ [0]) = Ok hex" "hex_set_ok hex" "cset_add hex 58 = Ok ip6a"
    "\<And>y. cset_contains ip6a y = Ok (y \<in> insert 58 (set hex_chars))" using ip6_sets [OF assms(1)] by blast
  have "run_of ip6a txt 0" using h(4) assms(3) non_hex by (auto simp: run_of_def)
  then have spn: "str_spn (txt @ 0 # r) ip6a = Ok (length txt)" by (rule str_spn_ok)
  have c: "cell (txt @ 0 # r) (length txt) = Ok 0" "cell (txt @ 0 # r) 0 = Ok (txt ! 0)" "cell (txt @ 0 # r) 1 = Ok (txt ! 1)"
    using assms(4) by (auto simp: cell_def nth_append)
  have w: "block_write ap 0 (replicate 16 0) = Ok (replicate 16 0)" using assms(2) by (simp add: block_write_def del: replicate.simps)
  have n: "\<not> (length txt < 2 \<or> length txt > 39 \<or> (0 :: byte) \<noteq> 0)" "\<not> (txt ! 0 = 58 \<and> txt ! 1 \<noteq> 58)" using assms(4-6) by auto
  have "str_parse_ip6a s suffix ap (txt @ 0 # r) = ip6_parsed hex suffix (txt @ 0 # r)"
    unfolding str_parse_ip6a_def ip6_parsed_def by (simp only: h(1,3) spn c w n obind_simps if_False)
  then show ?thesis using h(2) by blast
qed

lemma ip6_full_parsed:
  assumes "hex_set_ok hex" "\<forall>g \<in> set gs. hex_group g" "length gs = 8" "length suffix = 16"
  shows "ip6_parsed hex suffix (join_colon gs @ 0 # r) = Ok (bytes_of gs, int (length (join_colon gs)))"
proof -
  let ?src = "join_colon gs @ 0 # r"
  have "room False (replicate 16 0) 0" by (simp add: room_def del: replicate.simps)
  with assms have l1: "ip6_loop False hex ?src 0 0 (replicate 16 0) 0 = Ok (True, length (join_colon gs), bytes_of gs, 16)"
    using ip6_loop_end [OF assms(1,2), of 0 ?src r False "replicate 16 0" 0 0] by (simp add: put_at_def del: replicate.simps)
  have l2: "ip6_loop True hex ?src (length (join_colon gs)) 16 suffix 0 = Ok (True, length (join_colon gs), suffix, 0)"
    by (rule ip6_loop_stop [OF assms(1), of _ _ 0 r]) (simp_all add: non_hex)
  have c: "cell ?src (length (join_colon gs)) = Ok 0" by (simp add: cell_def)
  have "gs \<noteq> []" using assms(3) by auto
  then have "2 \<le> length (join_colon gs)" "length (join_colon gs) \<le> 39" using length_join_colon [of gs] assms(2,3) by auto
  then show ?thesis using l1 l2 c assms(3,4) by (simp add: ip6_parsed_def)
qed

lemma ip6_short_length:
  assumes "\<forall>g \<in> set gs. hex_group g" "\<forall>g \<in> set hs. hex_group g" "length gs + length hs \<le> 7"
  shows "2 \<le> length (ip6_short gs hs)" "length (ip6_short gs hs) \<le> 39"
proof -
  have "length (join_colon hs) \<le> 5 * length hs" using length_join_colon [OF _ assms(2)] by (cases "hs = []") auto
  moreover have "2 * length gs \<le> length (colons gs)" "length (colons gs) \<le> 5 * length gs" using length_colons [OF assms(1)] by auto
  moreover have "length (ip6_short gs hs) = length (colons gs) + (if gs = [] then 2 else 1) + length (join_colon hs)"
    by (simp add: ip6_short_def colons_def)
  ultimately show "2 \<le> length (ip6_short gs hs)" "length (ip6_short gs hs) \<le> 39" using assms(3) by (cases gs; simp)+
qed

lemma ip6_short_parsed:
  assumes "hex_set_ok hex" "\<forall>g \<in> set gs. hex_group g" "\<forall>g \<in> set hs. hex_group g" "length gs + length hs \<le> 7" "length suffix = 16"
  shows "ip6_parsed hex suffix (ip6_short gs hs @ 0 # r) =
     Ok (bytes_of gs @ replicate (16 - 2 * (length gs + length hs)) 0 @ bytes_of hs, int (length (ip6_short gs hs)))"
proof -
  let ?t = "join_colon hs @ 0 # r" and ?q = "length (colons gs)" and ?n = "2 * length gs"
  let ?src = "ip6_short gs hs @ 0 # r" and ?z = "replicate 16 0 :: byte list"
  define p where "p = ?q + (if ?q = 0 then 2 else 1)"
  have q0: "?q = 0 \<longleftrightarrow> gs = []" using length_colons [OF assms(2)] by (cases gs) (auto simp: colons_def)
  obtain t where t: "?src = colons gs @ 58 # t" by (cases "gs = []") (auto simp: ip6_short_def colons_def)
  have dp: "drop p ?src = ?t" using q0 by (auto simp: p_def ip6_short_def)
  have p: "length (ip6_short gs hs) = p + length (join_colon hs)" using q0 by (auto simp: p_def ip6_short_def)
  let ?a = "put_at ?z 0 (bytes_of gs)"
  have "room False ?z 0" by (simp add: room_def del: replicate.simps)
  then have "ip6_loop False hex ?src 0 0 ?z 0 = ip6_loop False hex ?src ?q 0 ?a ?n"
    using ip6_loop_colons [OF assms(1,2), of 0 ?src "58 # t" False ?z 0 0] t assms(4) by (simp del: replicate.simps)
  also have "\<dots> = Ok (True, ?q, ?a, ?n)"
    by (rule ip6_loop_stop [OF assms(1), of _ _ 58 t]) (use t non_hex in simp_all)
  finally have l1: "ip6_loop False hex ?src 0 0 ?z 0 = Ok (True, ?q, ?a, ?n)" .
  have c: "cell ?src ?q = Ok 58" by (simp add: t cell_def)
  have "room True suffix 0" using assms(5) by (simp add: room_def)
  then have l2: "ip6_loop True hex ?src p (?n + 2) suffix 0 =
      Ok (True, length (ip6_short gs hs), put_at suffix 0 (bytes_of hs), 2 * length hs)"
    using ip6_loop_end [OF assms(1,3) dp, of True suffix 0 "?n + 2"] assms(4) p by simp
  have r: "block_read (put_at suffix 0 (bytes_of hs)) 0 (2 * length hs) = Ok (bytes_of hs)"
    using assms(4,5) by (simp add: put_at_def)
  have w: "block_write ?a (16 - 2 * length hs) (bytes_of hs) = Ok (bytes_of gs @ replicate (16 - 2 * (length gs + length hs)) 0 @ bytes_of hs)"
    using assms(4) by (simp add: put_at_def min_absorb2 algebra_simps del: replicate.simps)
  note len = ip6_short_length [OF assms(2-4)]
  show ?thesis unfolding ip6_parsed_def
    using l1 l2 c r w len assms(4) p_def by (simp del: replicate.simps)
qed

lemma colons_start: "hex_group g \<Longrightarrow> (g @ t) ! 0 \<noteq> 58"
  using non_hex(1) by (cases g) (auto simp: hex_group_def)

lemma str_parse_ip6a_full:
  assumes "length s = 32" "length ap = 16" "\<forall>g \<in> set gs. hex_group g" "length gs = 8" "length suffix = 16"
  shows "str_parse_ip6a s suffix ap (join_colon gs @ 0 # r) = Ok (bytes_of gs, int (length (join_colon gs)))"
proof -
  have ne: "gs \<noteq> []" using assms(4) by auto
  have "join_colon gs ! 0 \<noteq> 58" using assms(3) ne colons_start by (cases gs rule: join_colon.cases) (auto dest: colons_start [where t = "[]"])
  then obtain hex where "hex_set_ok hex" "str_parse_ip6a s suffix ap (join_colon gs @ 0 # r) = ip6_parsed hex suffix (join_colon gs @ 0 # r)"
    using ip6_checked [OF assms(1,2) set_join_colon [OF assms(3)], of suffix r] length_join_colon [OF ne assms(3)] assms(4) by auto
  then show ?thesis using ip6_full_parsed assms by simp
qed

lemma str_parse_ip6a_short:
  assumes "length s = 32" "length ap = 16" "\<forall>g \<in> set gs. hex_group g" "\<forall>g \<in> set hs. hex_group g"
    and "length gs + length hs \<le> 7" "length suffix = 16"
  shows "str_parse_ip6a s suffix ap (ip6_short gs hs @ 0 # r) =
       Ok (bytes_of gs @ replicate (16 - 2 * (length gs + length hs)) 0 @ bytes_of hs, int (length (ip6_short gs hs)))"
proof -
  have s: "set (ip6_short gs hs) \<subseteq> insert 58 (set hex_chars)"
    using set_colons [OF assms(3)] set_join_colon [OF assms(4)] by (auto simp: ip6_short_def)
  have c: "ip6_short gs hs ! 0 = 58 \<longrightarrow> ip6_short gs hs ! 1 = 58"
    using assms(3) by (cases gs) (auto simp: ip6_short_def colons_def dest: colons_start)
  obtain hex where "hex_set_ok hex" "str_parse_ip6a s suffix ap (ip6_short gs hs @ 0 # r) = ip6_parsed hex suffix (ip6_short gs hs @ 0 # r)"
    using ip6_checked [OF assms(1,2) s ip6_short_length(1,2) [OF assms(3-5)] c, of suffix r] by auto
  then show ?thesis using ip6_short_parsed assms by simp
qed

text \<open>C23:
  \<open>str_parse_ip6a\<close> reads every well-formed address.  For eight groups of one to four hexadecimal
  digits with colons between them it stores the groups' sixteen bytes, for at most seven with one \<open>::\<close>
  it puts zero bytes in the place of the \<open>::\<close>, whatever the local arrays and the result held before,
  and it returns the length of the text.
  \<close>

theorem str_parse_ip6a_correct:
  assumes "length s = 32" "length suffix = 16" "length ap = 16" "\<forall>g \<in> set gs. hex_group g" "\<forall>g \<in> set hs. hex_group g"
  shows "(length gs = 8 \<longrightarrow> str_parse_ip6a s suffix ap (join_colon gs @ 0 # r) = Ok (bytes_of gs, int (length (join_colon gs))))
    \<and> (length gs + length hs \<le> 7 \<longrightarrow> str_parse_ip6a s suffix ap (ip6_short gs hs @ 0 # r) =
       Ok (bytes_of gs @ replicate (16 - 2 * (length gs + length hs)) 0 @ bytes_of hs, int (length (ip6_short gs hs))))"
  using str_parse_ip6a_full [of s ap gs suffix r] str_parse_ip6a_short [of s ap gs hs suffix r] assms by blast

lemma str_parse_ip6a_correct_witness:
  "str_parse_ip6a (replicate 32 1) (replicate 16 2) (replicate 16 3) ([70, 101, 56, 48, 58, 58, 49] @ 0 # []) =
     Ok ([0xFE, 0x80] @ replicate 12 0 @ [0, 1], 7)"
proof -
  have g: "\<forall>g \<in> set [[70, 101, 56, 48]]. hex_group g" "\<forall>g \<in> set [[49]]. hex_group g"
    by (simp_all add: hex_group_def hex_chars_def)
  have t: "ip6_short [[70, 101, 56, 48]] [[49]] = [70, 101, 56, 48, 58, 58, 49]" by (simp add: ip6_short_def colons_def)
  have b: "bytes_of [[70, 101, 56, 48]] = [0xFE, 0x80]" "bytes_of [[49]] = [0, 1]"
    by (simp_all add: bytes_of_def group_bytes_def group_val_def hexval_def)
  have n: "16 - 2 * (length [[70 :: byte, 101, 56, 48]] + length [[49 :: byte]]) = 12" "length [70 :: byte, 101, 56, 48, 58, 58, 49] = 7"
    "length [[70 :: byte, 101, 56, 48]] + length [[49 :: byte]] \<le> 7" by simp_all
  from str_parse_ip6a_correct [OF length_replicate length_replicate length_replicate g, THEN conjunct2, THEN mp, OF n(3), of 1 2 3 "[]"]
  show ?thesis unfolding t b n by (simp only: append_Cons append_Nil of_nat_numeral)
qed

text \<open>The parser also takes text that is no address: a single colon at the end, or too few groups.\<close>

lemma str_parse_ip6a_lenient:
  "str_parse_ip6a (replicate 32 0) (replicate 16 0) (replicate 16 0) [49, 50, 0] = Ok ([0, 0x12] @ replicate 14 0, 2)"
  "str_parse_ip6a (replicate 32 0) (replicate 16 0) (replicate 16 0) [49, 58, 0] = Ok ([0, 1] @ replicate 14 0, 2)"
  by code_simp+

end
