(* ===== verification/TreeHeap.thy ===== *)
theory TreeHeap
  imports Loops "HOL-Library.Tree"
begin

text \<open>
  The search trees of include/cat/avl.h, rbtree.h and splay.h are linked the same way: a node has
  an array of three pointers, to its left child, its parent and its right child, and remembers in
  \<open>pdir\<close> which of its parent's pointers leads to it.  The tree itself holds a pseudo-node whose
  parent pointer is the root of the tree.  This theory has the nodes, the functions the three
  headers share (each header has its own copy under its own prefix), and the relation between
  a heap of nodes and a tree.
\<close>

section \<open>Nodes\<close>

type_synonym taddr = nat

text \<open>The indices of the pointer array, and the mark of an exact match.\<close>

datatype tdir = CL | CP | CR | CN

text \<open>
  \<open>tn_tag\<close> is the field the headers differ in: the balance of an AVL node, the colour of a
  red-black node, nothing in a splay tree.  \<open>tn_tree\<close> is the tree that owns the node, named by the
  address of its pseudo-node.
\<close>

record ('k, 'm) tnode =
  tn_p :: "tdir \<Rightarrow> taddr"
  tn_dir :: tdir
  tn_tag :: 'm
  tn_tree :: taddr
  tn_key :: 'k

type_synonym ('k, 'm) theap = "taddr \<Rightarrow> ('k, 'm) tnode option"

definition tget :: "('k, 'm) theap \<Rightarrow> taddr \<Rightarrow> ('k, 'm) tnode outcome" where
  "tget h a = (case h a of None \<Rightarrow> Fault | Some n \<Rightarrow> Ok n)"

definition tset :: "taddr \<Rightarrow> (('k, 'm) tnode \<Rightarrow> ('k, 'm) tnode) \<Rightarrow> ('k, 'm) theap \<Rightarrow> ('k, 'm) theap outcome" where
  "tset a f h = (case h a of None \<Rightarrow> Fault | Some n \<Rightarrow> Ok (h(a \<mapsto> f n)))"

section \<open>The shared functions\<close>

text \<open>Make \<open>c\<close> the child of \<open>p\<close> in direction \<open>d\<close>.\<close>

definition t_fix :: "taddr \<Rightarrow> taddr \<Rightarrow> tdir \<Rightarrow> ('k, 'm) theap \<Rightarrow> ('k, 'm) theap outcome" where
  "t_fix p c d h =
     abort_unless (p \<noteq> 0) (abort_unless (d \<noteq> CN)
       (obind (tset p (\<lambda>n. n\<lparr>tn_p := (tn_p n)(d := c)\<rparr>) h) (\<lambda>h.
          if c \<noteq> 0 then tset c (\<lambda>n. n\<lparr>tn_dir := d, tn_p := (tn_p n)(CP := p)\<rparr>) h else Ok h)))"

text \<open>
  Where a key is, or where it would go: the loop starts at the pseudo-node and follows one
  pointer after another.
\<close>

partial_function (option) t_findloc_loop ::
  "('k \<Rightarrow> 'k \<Rightarrow> int) \<Rightarrow> ('k, 'm) theap \<Rightarrow> 'k \<Rightarrow> taddr \<Rightarrow> tdir \<Rightarrow> (taddr \<times> tdir) run" where
  "t_findloc_loop cmp h key par d =
     (case tget h par of Abort \<Rightarrow> Some Abort | Fault \<Rightarrow> Some Fault | Ok n \<Rightarrow>
        if tn_p n d = 0 then ret (par, d)
        else (case tget h (tn_p n d) of Abort \<Rightarrow> Some Abort | Fault \<Rightarrow> Some Fault | Ok m \<Rightarrow>
          let c = cmp key (tn_key m) in
            if c < 0 then t_findloc_loop cmp h key (tn_p n d) CL
            else if c > 0 then t_findloc_loop cmp h key (tn_p n d) CR
            else ret (tn_p n d, CN)))"

definition t_findloc :: "('k \<Rightarrow> 'k \<Rightarrow> int) \<Rightarrow> taddr \<Rightarrow> 'k \<Rightarrow> ('k, 'm) theap \<Rightarrow> (taddr \<times> tdir) run" where
  "t_findloc cmp root key h = t_findloc_loop cmp h key root CP"

text \<open>The last node on the way down in one direction, from a node that is there.\<close>

partial_function (option) t_last :: "tdir \<Rightarrow> ('k, 'm) theap \<Rightarrow> taddr \<Rightarrow> taddr run" where
  "t_last d h a =
     (case tget h a of Abort \<Rightarrow> Some Abort | Fault \<Rightarrow> Some Fault | Ok n \<Rightarrow>
        if tn_p n d = 0 then ret a else t_last d h (tn_p n d))"

text \<open>The least and the greatest node, NULL in an empty tree.\<close>

definition t_extreme :: "tdir \<Rightarrow> taddr \<Rightarrow> ('k, 'm) theap \<Rightarrow> taddr run" where
  "t_extreme d root h =
     rbind (Some (tget h root)) (\<lambda>r. if tn_p r CP = 0 then ret 0 else t_last d h (tn_p r CP))"

text \<open>The node that will take the place of a node to be removed.\<close>

definition t_findrep :: "taddr \<Rightarrow> ('k, 'm) theap \<Rightarrow> taddr run" where
  "t_findrep node h =
     rbind (Some (abort_unless (node \<noteq> 0) (tget h node))) (\<lambda>n.
       if tn_p n CL = 0 then ret (tn_p n CR) else t_last CR h (tn_p n CL))"

text \<open>
  The walk over all nodes.  \<open>func\<close> acts on a state of type \<open>'s\<close> and leaves the tree alone, and a
  node's directions tell where the walk comes from.
\<close>

partial_function (option) t_walk :: "('k, 'm) theap \<Rightarrow> (taddr \<Rightarrow> 's \<Rightarrow> 's) \<Rightarrow> taddr \<Rightarrow> taddr \<Rightarrow> tdir \<Rightarrow> 's \<Rightarrow> 's run" where
  "t_walk h func root trav d s =
     (case tget h trav of Abort \<Rightarrow> Some Abort | Fault \<Rightarrow> Some Fault | Ok n \<Rightarrow>
        let (trav', d', s') =
          (if d = CP \<and> tn_p n CL \<noteq> 0 then (tn_p n CL, CP, s)
           else if d = CP \<and> tn_p n CR \<noteq> 0 then (tn_p n CR, CP, s)
           else if d = CL \<and> tn_p n CR \<noteq> 0 then (tn_p n CR, CP, s)
           else if d = CN then (trav, d, s)
           else (tn_p n CP, tn_dir n, func trav s))
        in if trav' = root then ret s' else t_walk h func root trav' d' s')"

definition t_apply :: "taddr \<Rightarrow> (taddr \<Rightarrow> 's \<Rightarrow> 's) \<Rightarrow> 's \<Rightarrow> ('k, 'm) theap \<Rightarrow> 's run" where
  "t_apply root func s h =
     rbind (Some (tget h root)) (\<lambda>r. if tn_p r CP = 0 then ret s else t_walk h func root (tn_p r CP) CP s)"

section \<open>Trees in a heap\<close>

text \<open>
  The value of a heap is a tree whose elements are an address, a key and a tag.  \<open>edge\<close> is the
  link from a parent to a child, both ways; only the pseudo-node links down through its parent
  pointer.
\<close>

type_synonym ('k, 'm) ttree = "(taddr \<times> 'k \<times> 'm) tree"

fun rt :: "('k, 'm) ttree \<Rightarrow> taddr" where
  "rt Leaf = 0"
| "rt (Node l e r) = fst e"

definition addrs :: "('k, 'm) ttree \<Rightarrow> taddr set" where
  "addrs t = fst ` set_tree t"

definition edge :: "taddr \<Rightarrow> ('k, 'm) theap \<Rightarrow> taddr \<Rightarrow> tdir \<Rightarrow> taddr \<Rightarrow> bool" where
  "edge root h p d c \<longleftrightarrow> p \<noteq> 0 \<and> d \<noteq> CN \<and> (d = CP \<longleftrightarrow> p = root) \<and> c \<noteq> root \<and> (\<exists>n. h p = Some n \<and> tn_p n d = c)
     \<and> (c \<noteq> 0 \<longrightarrow> (\<exists>m. h c = Some m \<and> tn_p m CP = p \<and> tn_dir m = d))"

definition info :: "('k, 'm) theap \<Rightarrow> taddr \<Rightarrow> ('k \<times> 'm) option" where
  "info h x = map_option (\<lambda>n. (tn_key n, tn_tag n)) (h x)"

definition owner :: "('k, 'm) theap \<Rightarrow> taddr \<Rightarrow> taddr option" where
  "owner h x = map_option tn_tree (h x)"

fun shape :: "taddr \<Rightarrow> ('k, 'm) theap \<Rightarrow> ('k, 'm) ttree \<Rightarrow> bool" where
  "shape root h Leaf \<longleftrightarrow> True"
| "shape root h (Node l e r) \<longleftrightarrow> info h (fst e) = Some (snd e) \<and> edge root h (fst e) CL (rt l)
     \<and> edge root h (fst e) CR (rt r) \<and> shape root h l \<and> shape root h r"

definition ino :: "('k, 'm) ttree \<Rightarrow> (taddr \<times> 'k) list" where
  "ino t = map (\<lambda>(x, k, m). (x, k)) (inorder t)"

definition apart :: "taddr \<Rightarrow> ('k, 'm) ttree \<Rightarrow> bool" where
  "apart root t \<longleftrightarrow> distinct (map fst (ino t)) \<and> root \<notin> addrs t \<and> 0 \<notin> addrs t \<and> root \<noteq> 0"

definition trep :: "taddr \<Rightarrow> ('k, 'm) theap \<Rightarrow> ('k, 'm) ttree \<Rightarrow> bool" where
  "trep root h t \<longleftrightarrow> edge root h root CP (rt t) \<and> shape root h t \<and> apart root t"

text \<open>
  A place in a tree: the elements on the way from the place up to the root, each with the side
  the place is on and the subtree on the other side.  \<open>sN\<close> is a node given by such a side.
\<close>

definition sN :: "bool \<Rightarrow> 'a tree \<Rightarrow> 'a \<Rightarrow> 'a tree \<Rightarrow> 'a tree" where
  "sN lf t e s = (if lf then Node t e s else Node s e t)"

definition sd :: "bool \<Rightarrow> tdir" where "sd lf = (if lf then CL else CR)"

type_synonym ('k, 'm) tctx = "(bool \<times> (taddr \<times> 'k \<times> 'm) \<times> ('k, 'm) ttree) list"

fun plug :: "('k, 'm) tctx \<Rightarrow> ('k, 'm) ttree \<Rightarrow> ('k, 'm) ttree" where
  "plug [] t = t"
| "plug ((lf, e, s) # c) t = plug c (sN lf t e s)"

fun cpar :: "taddr \<Rightarrow> ('k, 'm) tctx \<Rightarrow> taddr" where
  "cpar root [] = root"
| "cpar root ((lf, e, s) # c) = fst e"

fun cdir :: "('k, 'm) tctx \<Rightarrow> tdir" where
  "cdir [] = CP"
| "cdir ((lf, e, s) # c) = sd lf"

fun caddrs :: "('k, 'm) tctx \<Rightarrow> taddr set" where
  "caddrs [] = {}"
| "caddrs ((lf, e, s) # c) = insert (fst e) (addrs s \<union> caddrs c)"

abbreviation hole :: "taddr \<Rightarrow> ('k, 'm) theap \<Rightarrow> ('k, 'm) tctx \<Rightarrow> taddr \<Rightarrow> bool" where
  "hole root h c x \<equiv> edge root h (cpar root c) (cdir c) x"

fun cshape :: "taddr \<Rightarrow> ('k, 'm) theap \<Rightarrow> ('k, 'm) tctx \<Rightarrow> bool" where
  "cshape root h [] \<longleftrightarrow> True"
| "cshape root h ((lf, e, s) # c) \<longleftrightarrow> info h (fst e) = Some (snd e) \<and> edge root h (fst e) (sd (\<not> lf)) (rt s)
     \<and> shape root h s \<and> hole root h c (fst e) \<and> cshape root h c"

section \<open>Elementary facts\<close>

lemma addrs_simps [simp]:
  "addrs Leaf = {}" "addrs (Node l e r) = insert (fst e) (addrs l \<union> addrs r)"
  "addrs (sN lf l e r) = insert (fst e) (addrs l \<union> addrs r)"
  by (auto simp: addrs_def sN_def)

lemma rt_sN [simp]: "rt (sN lf t e s) = fst e"
  by (simp add: sN_def)

lemma sd_simps [simp]: "sd lf \<noteq> CN" "sd lf \<noteq> CP" "sd (\<not> lf) \<noteq> sd lf" "sd lf \<noteq> sd (\<not> lf)" "sd True = CL" "sd False = CR"
  by (auto simp: sd_def)

lemma shape_sN [simp]:
  "shape root h (sN lf t e s) \<longleftrightarrow> info h (fst e) = Some (snd e) \<and> edge root h (fst e) (sd lf) (rt t)
     \<and> edge root h (fst e) (sd (\<not> lf)) (rt s) \<and> shape root h t \<and> shape root h s"
  by (cases lf) (auto simp: sN_def)

lemma rt_in: "t \<noteq> Leaf \<Longrightarrow> rt t \<in> addrs t"
  by (cases t) auto

lemma rt_cases: "rt t = 0 \<and> t = Leaf \<or> rt t \<in> addrs t"
  by (cases t) auto

lemma ino_simps [simp]: "ino Leaf = []" "ino (Node l (x, k, m) r) = ino l @ (x, k) # ino r"
  by (simp_all add: ino_def)

lemma map_fst_ino: "map fst (ino t) = map fst (inorder t)"
  by (simp add: ino_def split_beta comp_def)

lemma set_ino: "fst ` set (ino t) = addrs t"
  by (simp add: ino_def addrs_def image_image split_beta)

lemma addrs_plug: "addrs (plug c t) = caddrs c \<union> addrs t"
  by (induction c t rule: plug.induct) auto

text \<open>Two trees with the same nodes and keys in order are apart in the same way.\<close>

lemma addrs_ino: "ino t = ino u \<Longrightarrow> addrs t = addrs u"
  by (metis set_ino)

lemma apart_ino: "ino t = ino u \<Longrightarrow> apart root t \<longleftrightarrow> apart root u"
  by (simp add: apart_def addrs_ino [of t u])

lemma ino_sN: "ino t = ino u \<Longrightarrow> ino (sN lf t e s) = ino (sN lf u e s)"
  by (cases e) (simp add: sN_def)

lemma ino_plug: "ino t = ino u \<Longrightarrow> ino (plug c t) = ino (plug c u)"
proof (induction c t arbitrary: u rule: plug.induct)
  case (2 lf e s c t)
  show ?case using 2(1) [OF ino_sN [OF 2(2)]] by simp
qed simp

lemma ino_tag: "ino (sN lf t (x, k, m) s) = ino (sN lf t (x, k, n) s)"
  by (simp add: sN_def)

lemma apart_sN:
  "apart root (sN lf t e s) \<longleftrightarrow> apart root t \<and> apart root s \<and> fst e \<notin> addrs t \<and> fst e \<notin> addrs s \<and> fst e \<noteq> root \<and> fst e \<noteq> 0
     \<and> addrs t \<inter> addrs s = {}"
  by (cases e; cases lf) (auto simp: apart_def sN_def simp flip: set_ino)

lemma apart_Node:
  "apart root (Node l e r) \<longleftrightarrow> apart root l \<and> apart root r \<and> fst e \<notin> addrs l \<and> fst e \<notin> addrs r \<and> fst e \<noteq> root \<and> fst e \<noteq> 0
     \<and> addrs l \<inter> addrs r = {}"
  using apart_sN [of root True l e r] by (simp add: sN_def)

text \<open>What a place in a tree needs to be apart from what is put there.\<close>

fun capart :: "taddr \<Rightarrow> ('k, 'm) tctx \<Rightarrow> bool" where
  "capart root [] \<longleftrightarrow> root \<noteq> 0"
| "capart root ((lf, e, s) # c) \<longleftrightarrow> apart root s \<and> fst e \<notin> addrs s \<and> fst e \<noteq> root \<and> fst e \<noteq> 0
     \<and> fst e \<notin> caddrs c \<and> addrs s \<inter> caddrs c = {} \<and> capart root c"

lemma apart_plug: "apart root (plug c t) \<longleftrightarrow> capart root c \<and> apart root t \<and> addrs t \<inter> caddrs c = {}"
  by (induction c t rule: plug.induct) (auto simp: apart_sN, auto simp: apart_def)

lemma trep_plug_aux:
  "edge root h root CP (rt (plug c t)) \<and> shape root h (plug c t) \<longleftrightarrow> hole root h c (rt t) \<and> cshape root h c \<and> shape root h t"
  by (induction c t rule: plug.induct) auto

lemma trep_plug: "trep root h (plug c t) \<longleftrightarrow> hole root h c (rt t) \<and> cshape root h c \<and> shape root h t \<and> apart root (plug c t)"
  using trep_plug_aux [of root h c t] by (auto simp: trep_def)

lemma cpar_cases: "cpar root c = root \<and> c = [] \<or> cpar root c \<in> caddrs c"
  by (cases c rule: cdir.cases) auto

lemma cdir_not_CN [simp]: "cdir c \<noteq> CN"
  by (cases c rule: cdir.cases) auto

lemma cdir_CP: "capart root c \<Longrightarrow> cdir c = CP \<longleftrightarrow> cpar root c = root"
  by (cases c rule: cdir.cases) auto

section \<open>What an assignment of a child changes\<close>

text \<open>
  \<open>fixed\<close> is the effect of \<open>t_fix p c d\<close>: the new edge is there, every edge that uses neither the
  same pointer nor the same child stays, and nothing but the two nodes is touched.
\<close>

definition fixed :: "taddr \<Rightarrow> taddr \<Rightarrow> tdir \<Rightarrow> taddr \<Rightarrow> ('k, 'm) theap \<Rightarrow> ('k, 'm) theap \<Rightarrow> bool" where
  "fixed p c d root h h' \<longleftrightarrow> edge root h' p d c
     \<and> (\<forall>q e x. edge root h q e x \<longrightarrow> (q, e) \<noteq> (p, d) \<longrightarrow> x = 0 \<or> x \<noteq> c \<longrightarrow> edge root h' q e x)
     \<and> info h' = info h \<and> owner h' = owner h \<and> (\<forall>y. y \<noteq> p \<and> y \<noteq> c \<longrightarrow> h' y = h y)"

lemma fixedI:
  assumes "edge root h' p d c" "\<And>q e x. edge root h q e x \<Longrightarrow> (q, e) \<noteq> (p, d) \<Longrightarrow> x = 0 \<or> x \<noteq> c \<Longrightarrow> edge root h' q e x"
    and "info h' = info h" "owner h' = owner h" "\<And>y. y \<noteq> p \<Longrightarrow> y \<noteq> c \<Longrightarrow> h' y = h y"
  shows "fixed p c d root h h'"
  using assms by (simp add: fixed_def)

lemma t_fix_ok:
  assumes "p \<noteq> 0" "d \<noteq> CN" "d = CP \<longleftrightarrow> p = root" "c \<noteq> root" "h p \<noteq> None" "c \<noteq> 0 \<longrightarrow> h c \<noteq> None"
  shows "\<exists>h'. t_fix p c d h = Ok h' \<and> fixed p c d root h h'"
proof -
  obtain n where n: "h p = Some n" using assms(5) by blast
  let ?n = "n\<lparr>tn_p := (tn_p n)(d := c)\<rparr>"
  show ?thesis
  proof (cases "c = 0")
    case True
    then have "t_fix p c d h = Ok (h(p \<mapsto> ?n))" using assms n by (simp add: t_fix_def tset_def)
    moreover have "fixed p c d root h (h(p \<mapsto> ?n))"
      using assms n True by (auto simp: fixed_def edge_def info_def owner_def fun_eq_iff)
    ultimately show ?thesis by blast
  next
    case False
    then obtain m where m: "(h(p \<mapsto> ?n)) c = Some m" using assms(6) by (cases "c = p") auto
    let ?m = "m\<lparr>tn_dir := d, tn_p := (tn_p m)(CP := p)\<rparr>"
    let ?h = "h(p \<mapsto> ?n, c \<mapsto> ?m)"
    have h: "t_fix p c d h = Ok ?h" using assms n m False by (simp add: t_fix_def tset_def)
    have m': "c \<noteq> p \<and> h c = Some m \<or> c = p \<and> m = ?n" using m by (cases "c = p") auto
    have 1: "edge root ?h p d c" using assms False m' by (auto simp: edge_def)
    have 2: "edge root ?h q e x" if e: "edge root h q e x" "(q, e) \<noteq> (p, d)" "x = 0 \<or> x \<noteq> c" for q e x
    proof -
      obtain k where k: "h q = Some k" "tn_p k e = x" using e(1) by (auto simp: edge_def)
      have ec: "e = CP \<longrightarrow> q \<noteq> c" using e(1) assms(4) by (auto simp: edge_def)
      have 1: "\<exists>n. ?h q = Some n \<and> tn_p n e = x"
        using k m' e(2) ec n by (cases "q = c"; cases "q = p") auto
      have "\<exists>j. ?h x = Some j \<and> tn_p j CP = q \<and> tn_dir j = e" if x: "x \<noteq> 0"
      proof -
        obtain j where j: "h x = Some j" "tn_p j CP = q" "tn_dir j = e" using e(1) x by (auto simp: edge_def)
        have "x = p \<longrightarrow> d \<noteq> CP" using e(1) x assms(3) by (auto simp: edge_def)
        then show ?thesis using j x e(3) n by (cases "x = p") auto
      qed
      then show ?thesis using 1 e(1) by (simp add: edge_def)
    qed
    have 3: "info ?h = info h" "owner ?h = owner h" using m' n by (auto simp: info_def owner_def fun_eq_iff)
    have "fixed p c d root h ?h" by (rule fixedI) (fact 1, erule (2) 2, fact 3(1), fact 3(2), simp)
    then show ?thesis using h by blast
  qed
qed

lemma fixedD:
  assumes "fixed p c d root h h'"
  shows "edge root h' p d c" "info h' = info h" "owner h' = owner h" "\<And>y. y \<noteq> p \<Longrightarrow> y \<noteq> c \<Longrightarrow> h' y = h y"
    and "\<And>q e x. edge root h q e x \<Longrightarrow> (q, e) \<noteq> (p, d) \<Longrightarrow> x = 0 \<or> x \<noteq> c \<Longrightarrow> edge root h' q e x"
  using assms by (auto simp: fixed_def)

lemma shape_fixed:
  assumes "fixed p c d root h h'"
  shows "shape root h t \<Longrightarrow> p \<notin> addrs t \<Longrightarrow> c \<notin> addrs t \<or> c = rt t \<and> apart root t \<Longrightarrow> shape root h' t"
proof (induction t)
  case (Node l e r)
  have c: "c \<notin> addrs l \<and> c \<notin> addrs r" using Node.prems(3) by (auto simp: apart_Node)
  have "edge root h' (fst e) CL (rt l)" "edge root h' (fst e) CR (rt r)"
    using Node.prems c rt_cases [of l] rt_cases [of r] by (auto intro!: fixedD(5) [OF assms])
  then show ?case using Node c fixedD(2) [OF assms] by simp
qed simp

lemma cshape_fixed:
  assumes "fixed p c d root h h'"
  shows "cshape root h ctx \<Longrightarrow> capart root ctx \<Longrightarrow> c \<notin> caddrs ctx \<Longrightarrow>
    p \<notin> insert root (caddrs ctx) \<or> (p, d) = (cpar root ctx, cdir ctx) \<Longrightarrow> cshape root h' ctx"
proof (induction ctx)
  case (Cons f ctx)
  obtain lf e s where f: "f = (lf, e, s)" by (cases f) auto
  have p: "p \<notin> insert root (caddrs ctx)" "p \<notin> addrs s" "p = fst e \<longrightarrow> d = sd lf" "c \<notin> addrs s" "c \<noteq> fst e" "c \<notin> caddrs ctx"
    using Cons.prems by (auto simp: f)
  have "edge root h' (fst e) (sd (\<not> lf)) (rt s)"
    using Cons.prems p rt_cases [of s] by (auto simp: f intro!: fixedD(5) [OF assms])
  moreover have "hole root h' ctx (fst e)"
    using Cons.prems p cpar_cases [of root ctx] by (auto simp: f intro!: fixedD(5) [OF assms])
  moreover have "shape root h' s" using shape_fixed [OF assms] Cons.prems p by (auto simp: f)
  moreover have "cshape root h' ctx" using Cons.IH Cons.prems p by (auto simp: f)
  ultimately show ?case using Cons.prems fixedD(2) [OF assms] by (simp add: f)
qed simp

end
