(* ===== verification/TreeOps.thy ===== *)
theory TreeOps
  imports TreeHeap
begin

text \<open>
  What the pointer operations of the trees do to the tree a heap represents: putting a subtree in
  a place, single and double rotations, changing a tag, and putting a node in the place of
  another.  A rotation is a chain of assignments; \<open>settled\<close> says that none undoes another, and
  then only the set of assignments matters.
\<close>

section \<open>Putting a tree in a place\<close>

definition within :: "taddr set \<Rightarrow> ('k, 'm) theap \<Rightarrow> ('k, 'm) theap \<Rightarrow> bool" where
  "within A h h' \<longleftrightarrow> owner h' = owner h \<and> (\<forall>y. y \<notin> A \<longrightarrow> h' y = h y)"

lemma within_refl [simp]: "within A h h"
  by (simp add: within_def)

lemma within_trans: "within A h h' \<Longrightarrow> within B h' h'' \<Longrightarrow> A \<subseteq> C \<Longrightarrow> B \<subseteq> C \<Longrightarrow> within C h h''"
  by (auto simp: within_def subset_iff) metis

lemma within_mono: "within A h h' \<Longrightarrow> A \<subseteq> B \<Longrightarrow> within B h h'"
  by (auto simp: within_def)

lemma fixed_within: "fixed p c d root h h' \<Longrightarrow> p \<in> A \<Longrightarrow> c \<in> A \<or> c = 0 \<Longrightarrow> h 0 = None \<Longrightarrow> within A h h'"
proof -
  assume f: "fixed p c d root h h'" "p \<in> A" "c \<in> A \<or> c = 0" "h 0 = None"
  have "owner h' 0 = None" using fixedD(3) [OF f(1)] f(4) by (simp add: owner_def)
  then have "h' 0 = None" by (simp add: owner_def)
  then have "h' y = h y" if "y \<notin> A" for y using fixedD(4) [OF f(1), of y] f that by (cases "y = 0") auto
  then show ?thesis using fixedD(3) [OF f(1)] by (simp add: within_def)
qed

lemma within_step:
  assumes "fixed p c d root h h'" "within A h0 h" "h0 0 = None" "p \<in> A" "c \<in> A \<or> c = 0"
  shows "within A h0 h'"
proof -
  have "owner h 0 = None" using assms(2,3) by (simp add: within_def owner_def)
  then have "h 0 = None" by (simp add: owner_def)
  then show ?thesis using within_trans [OF assms(2) fixed_within [OF assms(1,4,5)]] by blast
qed

lemma dom_info: "info h x \<noteq> None \<longleftrightarrow> h x \<noteq> None" "owner h x \<noteq> None \<longleftrightarrow> h x \<noteq> None"
  by (auto simp: info_def owner_def)

lemma edge_dom: "edge root h p d c \<Longrightarrow> h p \<noteq> None" "edge root h p d c \<Longrightarrow> c \<noteq> 0 \<Longrightarrow> h c \<noteq> None"
  by (auto simp: edge_def)

lemma edge_p: "edge root h p d c \<Longrightarrow> \<exists>n. h p = Some n \<and> tn_p n d = c"
  by (auto simp: edge_def)

lemma edge_up: "edge root h p d c \<Longrightarrow> c \<noteq> 0 \<Longrightarrow> \<exists>m. h c = Some m \<and> tn_p m CP = p \<and> tn_dir m = d"
  by (auto simp: edge_def)

text \<open>A node reached through an edge, as a call reads it.\<close>

lemma tget_down: "edge root h p d c \<Longrightarrow> \<exists>n. tget h p = Ok n \<and> tn_p n d = c"
  by (auto simp: edge_def tget_def)

lemma tget_up: "edge root h p d c \<Longrightarrow> c \<noteq> 0 \<Longrightarrow> \<exists>n. tget h c = Ok n \<and> tn_p n CP = p \<and> tn_dir n = d"
  by (auto simp: edge_def tget_def)

lemma capart_nz: "capart root c \<Longrightarrow> 0 \<notin> caddrs c \<and> root \<notin> caddrs c \<and> root \<noteq> 0"
  by (induction c rule: caddrs.induct) (auto simp: apart_def)

lemma shape_rt: "shape root h s \<Longrightarrow> rt s \<noteq> 0 \<Longrightarrow> h (rt s) \<noteq> None"
  by (cases s) (auto simp: info_def)

lemma cshape_dom: "cshape root h c \<Longrightarrow> h root \<noteq> None \<Longrightarrow> h (cpar root c) \<noteq> None"
  by (cases c rule: cdir.cases) (auto simp: info_def)

lemma cpar_nz: "capart root c \<Longrightarrow> cpar root c \<noteq> 0"
  by (cases c rule: cdir.cases) auto

text \<open>The subtree in a place is replaced by another, whose edges are there already.\<close>

lemma graft:
  assumes "cshape root h c" "shape root h s" "apart root (plug c s)" "h root \<noteq> None"
  shows "\<exists>h'. t_fix (cpar root c) (rt s) (cdir c) h = Ok h' \<and> fixed (cpar root c) (rt s) (cdir c) root h h' \<and> trep root h' (plug c s)"
proof -
  have a: "capart root c" "apart root s" "addrs s \<inter> caddrs c = {}" using assms(3) by (auto simp: apart_plug)
  have nr: "root \<notin> addrs s" "root \<noteq> 0" using a by (auto simp: apart_def)
  have s: "rt s \<noteq> root" "rt s \<notin> caddrs c \<or> rt s = 0" "rt s \<noteq> 0 \<longrightarrow> h (rt s) \<noteq> None"
    using rt_cases [of s] a nr shape_rt [OF assms(2)] by auto
  have z: "0 \<notin> caddrs c" using capart_nz [OF a(1)] by blast
  have p: "cpar root c \<notin> addrs s" using cpar_cases [of root c] a nr by auto
  obtain h' where h: "t_fix (cpar root c) (rt s) (cdir c) h = Ok h'" "fixed (cpar root c) (rt s) (cdir c) root h h'"
    using t_fix_ok [OF cpar_nz [OF a(1)] cdir_not_CN cdir_CP [OF a(1)] s(1) cshape_dom [OF assms(1,4)] s(3)] by blast
  have "shape root h' s" using shape_fixed [OF h(2) assms(2) p] a(2) by simp
  moreover have "cshape root h' c" using cshape_fixed [OF h(2) assms(1) a(1)] s(2) z by auto
  ultimately show ?thesis using h assms(3) fixedD(1) [OF h(2)] by (auto simp: trep_plug)
qed

text \<open>The same facts with their conditions split, for the simplifier.\<close>

lemma edge_fixed:
  "fixed p c d root h h' \<Longrightarrow> edge root h q e x \<Longrightarrow> q \<noteq> p \<or> e \<noteq> d \<Longrightarrow> x = 0 \<or> x \<noteq> c \<Longrightarrow> edge root h' q e x"
  using fixedD(5) by fastforce

lemma shape_fixed_off: "fixed p c d root h h' \<Longrightarrow> shape root h t \<Longrightarrow> p \<notin> addrs t \<Longrightarrow> c \<notin> addrs t \<Longrightarrow> shape root h' t"
  using shape_fixed by blast

lemma shape_fixed_at: "fixed p (rt t) d root h h' \<Longrightarrow> shape root h t \<Longrightarrow> p \<notin> addrs t \<Longrightarrow> apart root t \<Longrightarrow> shape root h' t"
  using shape_fixed by blast

lemma cshape_fixed_off:
  "fixed p c d root h h' \<Longrightarrow> cshape root h ctx \<Longrightarrow> capart root ctx \<Longrightarrow> c \<notin> caddrs ctx \<Longrightarrow> p \<noteq> root \<Longrightarrow> p \<notin> caddrs ctx \<Longrightarrow> cshape root h' ctx"
  using cshape_fixed by blast

lemma cshape_fixed_at:
  "fixed (cpar root ctx) c (cdir ctx) root h h' \<Longrightarrow> cshape root h ctx \<Longrightarrow> capart root ctx \<Longrightarrow> c \<notin> caddrs ctx \<Longrightarrow> cshape root h' ctx"
  using cshape_fixed by blast

lemma hole_fixed:
  "fixed p c d root h h' \<Longrightarrow> hole root h ctx x \<Longrightarrow> p \<noteq> root \<Longrightarrow> p \<notin> caddrs ctx \<Longrightarrow> x \<noteq> c \<Longrightarrow> hole root h' ctx x"
  using edge_fixed cpar_cases [of root ctx] by metis

text \<open>The root of a subtree and other addresses.\<close>

lemma rt_off: "x \<notin> addrs t \<Longrightarrow> rt t = 0 \<or> rt t \<noteq> x"
  using rt_cases [of t] by auto

lemma rt_disj: "addrs t \<inter> addrs u = {} \<Longrightarrow> rt t = 0 \<or> rt t \<noteq> rt u"
  using rt_cases [of t] rt_cases [of u] by auto

lemma rt_notin: "apart root u \<Longrightarrow> addrs t \<inter> addrs u = {} \<Longrightarrow> rt t \<notin> addrs u"
  using rt_cases [of t] by (auto simp: apart_def)

lemma rt_notin_ctx: "capart root c \<Longrightarrow> addrs t \<inter> caddrs c = {} \<Longrightarrow> rt t \<notin> caddrs c"
  using rt_cases [of t] capart_nz [of root c] by auto

lemma rt_not_root: "apart root t \<Longrightarrow> rt t \<noteq> root"
  using rt_cases [of t] by (auto simp: apart_def)

lemma rt_neq: "x \<notin> addrs t \<Longrightarrow> x \<noteq> 0 \<Longrightarrow> rt t \<noteq> x"
  using rt_cases [of t] by auto

lemmas rt_facts = rt_off rt_disj rt_notin rt_notin_ctx rt_not_root rt_neq

section \<open>Rotations\<close>

text \<open>
  A single and a double rotation, for either side: the functions of the headers are these, with the
  balances or colours put right in between.
\<close>

definition t_rot :: "bool \<Rightarrow> taddr \<Rightarrow> taddr \<Rightarrow> ('k, 'm) theap \<Rightarrow> ('k, 'm) theap outcome" where
  "t_rot lf n1 n2 h =
     obind (tget h n2) (\<lambda>m. obind (t_fix n1 (tn_p m (sd (\<not> lf))) (sd lf) h) (\<lambda>h.
     obind (tget h n1) (\<lambda>n. obind (t_fix (tn_p n CP) n2 (tn_dir n) h) (\<lambda>h.
       t_fix n2 n1 (sd (\<not> lf)) h))))"

definition t_zrot :: "bool \<Rightarrow> taddr \<Rightarrow> taddr \<Rightarrow> taddr \<Rightarrow> ('k, 'm) theap \<Rightarrow> ('k, 'm) theap outcome" where
  "t_zrot lf n1 n2 n3 h =
     obind (tget h n3) (\<lambda>m. obind (t_fix n2 (tn_p m (sd lf)) (sd (\<not> lf)) h) (\<lambda>h.
     obind (tget h n3) (\<lambda>m. obind (t_fix n1 (tn_p m (sd (\<not> lf))) (sd lf) h) (\<lambda>h.
     obind (tget h n1) (\<lambda>n. obind (t_fix (tn_p n CP) n3 (tn_dir n) h) (\<lambda>h.
     obind (t_fix n3 n1 (sd (\<not> lf)) h) (\<lambda>h. t_fix n3 n2 (sd lf) h)))))))"

lemma ino_rot: "ino (sN lf (sN lf a e2 c) e1 z) = ino (sN lf a e2 (sN lf c e1 z))"
  by (cases e1; cases e2) (simp add: sN_def)

lemma ino_zrot: "ino (sN lf (sN (\<not> lf) (sN lf b e3 c) e2 a) e1 z) = ino (sN lf (sN lf a e2 b) e3 (sN lf c e1 z))"
  by (cases e1; cases e2; cases e3) (simp add: sN_def)

lemma root_dom: "trep root h t \<Longrightarrow> h root \<noteq> None"
  using edge_dom(1) by (fastforce simp: trep_def)

section \<open>Several assignments in a row\<close>

fun chain :: "taddr \<Rightarrow> (taddr \<times> taddr \<times> tdir) list \<Rightarrow> ('k, 'm) theap \<Rightarrow> ('k, 'm) theap \<Rightarrow> bool" where
  "chain root [] h h' \<longleftrightarrow> h' = h"
| "chain root ((p, c, d) # fs) h h' \<longleftrightarrow> (\<exists>g. fixed p c d root h g \<and> chain root fs g h')"

text \<open>\<open>clear fs q e x\<close>: no assignment of \<open>fs\<close> touches the edge; \<open>settled fs\<close>: none undoes an earlier one.\<close>

fun clear :: "(taddr \<times> taddr \<times> tdir) list \<Rightarrow> taddr \<Rightarrow> tdir \<Rightarrow> taddr \<Rightarrow> bool" where
  "clear [] q e x \<longleftrightarrow> True"
| "clear ((p, c, d) # fs) q e x \<longleftrightarrow> (q = p \<longrightarrow> e \<noteq> d) \<and> (x = 0 \<or> x \<noteq> c) \<and> clear fs q e x"

fun settled :: "(taddr \<times> taddr \<times> tdir) list \<Rightarrow> bool" where
  "settled [] \<longleftrightarrow> True"
| "settled ((p, c, d) # fs) \<longleftrightarrow> clear fs p d c \<and> settled fs"

lemma chain_snoc: "chain root (fs @ [(p, c, d)]) h h' \<longleftrightarrow> (\<exists>g. chain root fs h g \<and> fixed p c d root g h')"
proof (induction fs arbitrary: h)
  case (Cons f fs)
  obtain q x e where "f = (q, x, e)" by (cases f) auto
  then show ?case using Cons.IH by simp blast
qed simp

lemma chain_info: "chain root fs h h' \<Longrightarrow> info h' = info h"
  by (induction root fs h h' rule: chain.induct) (auto simp: fixedD(2))

lemma chain_owner: "chain root fs h h' \<Longrightarrow> owner h' = owner h"
  by (induction root fs h h' rule: chain.induct) (auto simp: fixedD(3))

lemma chain_edge: "chain root fs h h' \<Longrightarrow> edge root h q e x \<Longrightarrow> clear fs q e x \<Longrightarrow> edge root h' q e x"
proof (induction root fs h h' rule: chain.induct)
  case (2 root p c d fs h h')
  then obtain g where g: "fixed p c d root h g" "chain root fs g h'" by auto
  have "edge root g q e x" using edge_fixed [OF g(1) 2(3)] 2(4) by auto
  then show ?case using 2(1) g(2) 2(4) by simp
qed simp

lemma chain_new: "chain root fs h h' \<Longrightarrow> settled fs \<Longrightarrow> (p, c, d) \<in> set fs \<Longrightarrow> edge root h' p d c"
proof (induction root fs h h' rule: chain.induct)
  case (2 root p' c' d' fs h h')
  then obtain g where g: "fixed p' c' d' root h g" "chain root fs g h'" by auto
  show ?case using chain_edge [OF g(2) fixedD(1) [OF g(1)]] 2 g by auto
qed simp

lemma chain_shape:
  "chain root fs h h' \<Longrightarrow> shape root h t \<Longrightarrow> apart root t \<Longrightarrow> \<forall>(p, c, d) \<in> set fs. p \<notin> addrs t \<and> (c \<notin> addrs t \<or> c = rt t) \<Longrightarrow> shape root h' t"
proof (induction root fs h h' rule: chain.induct)
  case (2 root p c d fs h h')
  then obtain g where g: "fixed p c d root h g" "chain root fs g h'" by auto
  have "shape root g t" using shape_fixed [OF g(1) 2(3)] 2(4,5) by auto
  then show ?case using 2 g(2) by simp
qed simp

lemma chain_cshape:
  "chain root fs h h' \<Longrightarrow> cshape root h ctx \<Longrightarrow> capart root ctx \<Longrightarrow>
   \<forall>(p, c, d) \<in> set fs. c \<notin> caddrs ctx \<and> (p \<notin> insert root (caddrs ctx) \<or> (p, d) = (cpar root ctx, cdir ctx)) \<Longrightarrow> cshape root h' ctx"
proof (induction root fs h h' rule: chain.induct)
  case (2 root p c d fs h h')
  then obtain g where g: "fixed p c d root h g" "chain root fs g h'" by auto
  have "cshape root g ctx" using cshape_fixed [OF g(1) 2(3,4)] 2(5) by auto
  then show ?case using 2 g(2) by simp
qed simp

lemma chain_within: "chain root fs h h' \<Longrightarrow> h 0 = None \<Longrightarrow> \<forall>(p, c, d) \<in> set fs. p \<in> A \<and> (c \<in> A \<or> c = 0) \<Longrightarrow> within A h h'"
proof -
  have "chain root fs g h' \<Longrightarrow> within A h g \<Longrightarrow> h 0 = None \<Longrightarrow> \<forall>(p, c, d) \<in> set fs. p \<in> A \<and> (c \<in> A \<or> c = 0) \<Longrightarrow> within A h h'" for g
    by (induction root fs g h' rule: chain.induct) (auto intro: within_step)
  then show "chain root fs h h' \<Longrightarrow> h 0 = None \<Longrightarrow> \<forall>(p, c, d) \<in> set fs. p \<in> A \<and> (c \<in> A \<or> c = 0) \<Longrightarrow> within A h h'" by simp
qed

text \<open>One more assignment, its conditions read in the heap the chain starts from.\<close>

lemma chain_step:
  assumes "chain root fs h g" "p \<noteq> 0" "d \<noteq> CN" "d = CP \<longleftrightarrow> p = root" "c \<noteq> root" "h p \<noteq> None" "c = 0 \<or> h c \<noteq> None"
  shows "\<exists>h'. t_fix p c d g = Ok h' \<and> chain root (fs @ [(p, c, d)]) h h'"
proof -
  have "g y \<noteq> None \<longleftrightarrow> h y \<noteq> None" for y using chain_owner [OF assms(1)] dom_info(2) by metis
  then show ?thesis using t_fix_ok [of p d root c g] assms by (auto simp: chain_snoc)
qed

lemma chain_start: "chain root [] h h"
  by simp

declare chain.simps [simp del]

text \<open>What a call reads in the middle of a chain.\<close>

lemma chain_down: "chain root fs h g \<Longrightarrow> edge root h q e x \<Longrightarrow> clear fs q e x \<Longrightarrow> \<exists>n. tget g q = Ok n \<and> tn_p n e = x"
  using chain_edge tget_down by blast

lemma chain_up: "chain root fs h g \<Longrightarrow> edge root h q e x \<Longrightarrow> clear fs q e x \<Longrightarrow> x \<noteq> 0 \<Longrightarrow> \<exists>n. tget g x = Ok n \<and> tn_p n CP = q \<and> tn_dir n = e"
  using chain_edge tget_up by blast

lemma clear_set: "clear fs q e x \<longleftrightarrow> (\<forall>(p, c, d) \<in> set fs. (q = p \<longrightarrow> e \<noteq> d) \<and> (x = 0 \<or> x \<noteq> c))"
  by (induction fs q e x rule: clear.induct) auto

lemma cpar_off: "x \<notin> caddrs ctx \<Longrightarrow> x \<noteq> root \<Longrightarrow> cpar root ctx \<noteq> x"
  using cpar_cases [of root ctx] by auto

lemma cpar_notin: "apart root t \<Longrightarrow> addrs t \<inter> caddrs ctx = {} \<Longrightarrow> cpar root ctx \<notin> addrs t"
  using cpar_cases [of root ctx] by (auto simp: apart_def)

lemma edge_sym: "edge root h p d c \<Longrightarrow> c \<noteq> root"
  by (simp add: edge_def)

lemmas place_facts = rt_neq rt_not_root rt_notin_ctx cpar_off cpar_notin cpar_nz

text \<open>
  What the assignments of a single rotation do to the tree, in any order that settles them.
\<close>

lemma rot_chain:
  assumes "trep root h (plug ctx (sN lf (sN lf a e2 c) e1 z))"
    and "chain root fs h h'" "settled fs"
    and fs: "set fs = {(fst e1, rt c, sd lf), (cpar root ctx, fst e2, cdir ctx), (fst e2, fst e1, sd (\<not> lf))}"
  shows "trep root h' (plug ctx (sN lf a e2 (sN lf c e1 z)))"
proof -
  let ?x = "fst e1" and ?y = "fst e2" and ?p = "cpar root ctx"
  have s: "hole root h ctx ?x" "cshape root h ctx" "info h ?x = Some (snd e1)" "info h ?y = Some (snd e2)"
    "edge root h ?x (sd (\<not> lf)) (rt z)" "edge root h ?y (sd lf) (rt a)"
    "shape root h a" "shape root h c" "shape root h z" and ap: "apart root (plug ctx (sN lf (sN lf a e2 c) e1 z))"
    using assms(1) by (auto simp: trep_plug)
  have ap': "apart root (plug ctx (sN lf a e2 (sN lf c e1 z)))"
    using ap apart_ino [OF ino_plug [OF ino_rot]] by blast
  have d: "capart root ctx" "?x \<notin> caddrs ctx" "?y \<notin> caddrs ctx"
    "addrs a \<inter> caddrs ctx = {}" "addrs c \<inter> caddrs ctx = {}" "addrs z \<inter> caddrs ctx = {}"
    "?x \<noteq> 0" "?y \<noteq> 0" "?x \<noteq> root" "?y \<noteq> root" "?x \<noteq> ?y"
    "?x \<notin> addrs a" "?x \<notin> addrs c" "?x \<notin> addrs z" "?y \<notin> addrs a" "?y \<notin> addrs c" "?y \<notin> addrs z"
    "apart root a" "apart root c" "apart root z" "addrs a \<inter> addrs c = {}" "addrs z \<inter> addrs c = {}"
    using ap' unfolding apart_plug apart_sN by simp_all blast+
  have p: "?p \<noteq> ?x" "?p \<noteq> ?y" "?p \<notin> addrs a" "?p \<notin> addrs c" "?p \<notin> addrs z" "root \<notin> caddrs ctx"
    using d capart_nz [OF d(1)] by (simp_all add: place_facts)
  have r: "rt t \<noteq> ?x" "rt t \<noteq> ?y" "rt t \<notin> caddrs ctx" if "t = a \<or> t = c \<or> t = z" for t
    using that d by (auto simp: place_facts)
  have o: "rt a = 0 \<or> rt a \<noteq> rt c" "rt z = 0 \<or> rt z \<noteq> rt c" "rt c \<notin> addrs a" "rt c \<notin> addrs z"
    using d rt_disj [of a c] rt_disj [of z c] by (auto simp: rt_notin Int_commute)
  note new = chain_new [OF assms(2,3)] and f = clear_set fs
  have "edge root h' ?x (sd (\<not> lf)) (rt z)" "edge root h' ?y (sd lf) (rt a)"
    by (rule chain_edge [OF assms(2)], fact, use d p r [of a] r [of z] o in \<open>simp add: f\<close>)+
  moreover have "shape root h' a" "shape root h' c" "shape root h' z"
    by (rule chain_shape [OF assms(2)], fact, fact, use d p o in \<open>simp add: fs\<close>)+
  moreover have "cshape root h' ctx" by (rule chain_cshape [OF assms(2) s(2) d(1)], use d p r [of c] in \<open>simp add: fs\<close>)
  ultimately show ?thesis unfolding trep_plug shape_sN rt_sN chain_info [OF assms(2)] using s ap' new by (simp add: fs)
qed

text \<open>
  A double rotation, given as the assignments it makes in any order that settles them: the AVL trees
  and the splay trees make them in different orders.
\<close>

lemma zrot_chain:
  assumes "trep root h (plug ctx (sN lf (sN (\<not> lf) (sN lf b e3 c) e2 a) e1 z))"
    and "chain root fs h h'" "settled fs"
    and fs: "set fs = {(fst e2, rt b, sd (\<not> lf)), (fst e1, rt c, sd lf), (cpar root ctx, fst e3, cdir ctx),
      (fst e3, fst e1, sd (\<not> lf)), (fst e3, fst e2, sd lf)}"
  shows "trep root h' (plug ctx (sN lf (sN lf a e2 b) e3 (sN lf c e1 z)))"
proof -
  let ?x = "fst e1" and ?y = "fst e2" and ?w = "fst e3" and ?p = "cpar root ctx"
  have s: "hole root h ctx ?x" "cshape root h ctx" "info h ?x = Some (snd e1)" "info h ?y = Some (snd e2)" "info h ?w = Some (snd e3)"
    "edge root h ?x (sd (\<not> lf)) (rt z)" "edge root h ?y (sd lf) (rt a)"
    "shape root h a" "shape root h b" "shape root h c" "shape root h z" and ap: "apart root (plug ctx (sN lf (sN (\<not> lf) (sN lf b e3 c) e2 a) e1 z))"
    using assms(1) by (auto simp: trep_plug)
  have ap': "apart root (plug ctx (sN lf (sN lf a e2 b) e3 (sN lf c e1 z)))"
    using ap apart_ino [OF ino_plug [OF ino_zrot]] by blast
  have d: "capart root ctx" "?x \<notin> caddrs ctx" "?y \<notin> caddrs ctx" "?w \<notin> caddrs ctx"
    "addrs a \<inter> caddrs ctx = {}" "addrs b \<inter> caddrs ctx = {}" "addrs c \<inter> caddrs ctx = {}" "addrs z \<inter> caddrs ctx = {}"
    "?x \<noteq> 0" "?y \<noteq> 0" "?w \<noteq> 0" "?x \<noteq> root" "?y \<noteq> root" "?w \<noteq> root" "?x \<noteq> ?y" "?x \<noteq> ?w" "?y \<noteq> ?w"
    "?x \<notin> addrs a" "?x \<notin> addrs b" "?x \<notin> addrs c" "?x \<notin> addrs z" "?y \<notin> addrs a" "?y \<notin> addrs b" "?y \<notin> addrs c" "?y \<notin> addrs z"
    "?w \<notin> addrs a" "?w \<notin> addrs b" "?w \<notin> addrs c" "?w \<notin> addrs z" "apart root a" "apart root b" "apart root c" "apart root z"
    using ap' unfolding apart_plug apart_sN by simp_all blast+
  have t: "addrs a \<inter> addrs b = {}" "addrs a \<inter> addrs c = {}" "addrs b \<inter> addrs c = {}" "addrs b \<inter> addrs z = {}" "addrs c \<inter> addrs z = {}" "addrs a \<inter> addrs z = {}"
    using ap' unfolding apart_plug apart_sN by simp_all blast+
  have p: "?p \<noteq> ?x" "?p \<noteq> ?y" "?p \<noteq> ?w" "?p \<notin> addrs a" "?p \<notin> addrs b" "?p \<notin> addrs c" "?p \<notin> addrs z" "root \<notin> caddrs ctx"
    using d capart_nz [OF d(1)] by (simp_all add: place_facts)
  have r: "rt t \<noteq> ?x" "rt t \<noteq> ?y" "rt t \<noteq> ?w" "rt t \<notin> caddrs ctx" if "t = a \<or> t = b \<or> t = c \<or> t = z" for t
    using that d by (auto simp: place_facts)
  have o: "rt a = 0 \<or> rt a \<noteq> rt b" "rt a = 0 \<or> rt a \<noteq> rt c" "rt z = 0 \<or> rt z \<noteq> rt b" "rt z = 0 \<or> rt z \<noteq> rt c"
    "rt b \<notin> addrs a" "rt b \<notin> addrs c" "rt b \<notin> addrs z" "rt c \<notin> addrs a" "rt c \<notin> addrs b" "rt c \<notin> addrs z"
    using t d rt_disj [of a b] rt_disj [of a c] rt_disj [of z b] rt_disj [of z c] by (auto simp: rt_notin Int_commute)
  note new = chain_new [OF assms(2,3)] and f = clear_set fs
  have "edge root h' ?x (sd (\<not> lf)) (rt z)" "edge root h' ?y (sd lf) (rt a)"
    by (rule chain_edge [OF assms(2)], fact, use d p r [of a] r [of z] o in \<open>simp add: f\<close>)+
  moreover have "shape root h' a" "shape root h' b" "shape root h' c" "shape root h' z"
    by (rule chain_shape [OF assms(2)], fact, fact, use d p o in \<open>simp add: fs\<close>)+
  moreover have "cshape root h' ctx" by (rule chain_cshape [OF assms(2) s(2) d(1)], use d p r [of b] r [of c] in \<open>simp add: fs\<close>)
  ultimately show ?thesis unfolding trep_plug shape_sN rt_sN chain_info [OF assms(2)] using s ap' new by (simp add: fs)
qed


text \<open>The nodes and places an operation needs to assign, from the tree.\<close>

lemma trep_node:
  assumes "trep root h (plug ctx (sN lf t e s))"
  shows "fst e \<noteq> 0" "fst e \<noteq> root" "h (fst e) \<noteq> None" "cpar root ctx \<noteq> fst e" "hole root h ctx (fst e)"
    "edge root h (fst e) (sd lf) (rt t)" "edge root h (fst e) (sd (\<not> lf)) (rt s)" "rt t \<noteq> fst e" "rt s \<noteq> fst e"
    "rt t \<noteq> root" "rt s \<noteq> root" "rt t = 0 \<or> h (rt t) \<noteq> None" "rt s = 0 \<or> h (rt s) \<noteq> None"
    "rt t = 0 \<or> rt t \<noteq> rt s" "cpar root ctx \<noteq> 0" "h (cpar root ctx) \<noteq> None" "cdir ctx = CP \<longleftrightarrow> cpar root ctx = root"
    "rt t \<noteq> cpar root ctx \<or> rt t = 0" "rt s \<noteq> cpar root ctx \<or> rt s = 0" "root \<noteq> 0"
proof -
  have s: "hole root h ctx (fst e)" "info h (fst e) = Some (snd e)" "edge root h (fst e) (sd lf) (rt t)" "edge root h (fst e) (sd (\<not> lf)) (rt s)"
    "apart root (plug ctx (sN lf t e s))" using assms by (auto simp: trep_plug)
  note d = s(5) [unfolded apart_plug apart_sN]
  show "fst e \<noteq> 0" "fst e \<noteq> root" "hole root h ctx (fst e)" "edge root h (fst e) (sd lf) (rt t)" "edge root h (fst e) (sd (\<not> lf)) (rt s)"
    using s d by auto
  show "h (fst e) \<noteq> None" "rt t = 0 \<or> h (rt t) \<noteq> None" "rt s = 0 \<or> h (rt s) \<noteq> None" "h (cpar root ctx) \<noteq> None"
    using edge_dom [OF s(3)] edge_dom [OF s(4)] edge_dom(1) [OF s(1)] by auto
  show "rt t \<noteq> root" "rt s \<noteq> root" "rt t \<noteq> fst e" "rt s \<noteq> fst e" "rt t = 0 \<or> rt t \<noteq> rt s"
    using d rt_disj [of t s] by (auto simp: rt_not_root rt_neq)
  show "cpar root ctx \<noteq> fst e" using d cpar_off [of "fst e" ctx root] by auto
  show "cpar root ctx \<noteq> 0" "cdir ctx = CP \<longleftrightarrow> cpar root ctx = root" "root \<noteq> 0"
    using d cpar_nz [of root ctx] cdir_CP [of root ctx] capart_nz [of root ctx] by auto
  have "addrs t \<inter> caddrs ctx = {}" "addrs s \<inter> caddrs ctx = {}" using d by auto
  then show "rt t \<noteq> cpar root ctx \<or> rt t = 0" "rt s \<noteq> cpar root ctx \<or> rt s = 0"
    using d cpar_notin [of root t ctx] cpar_notin [of root s ctx] rt_cases [of t] rt_cases [of s] by auto
qed

lemma t_rot_ok:
  assumes "trep root h (plug ctx (sN lf (sN lf a e2 c) e1 z))" "h 0 = None"
  shows "\<exists>h'. t_rot lf (fst e1) (fst e2) h = Ok h' \<and> trep root h' (plug ctx (sN lf a e2 (sN lf c e1 z)))
    \<and> info h' = info h \<and> within (insert root (addrs (plug ctx (sN lf (sN lf a e2 c) e1 z)))) h h'"
proof -
  let ?x = "fst e1" and ?y = "fst e2" and ?p = "cpar root ctx"
  let ?fs = "[(?x, rt c, sd lf), (?p, ?y, cdir ctx), (?y, ?x, sd (\<not> lf))]"
  note x = trep_node [OF assms(1)]
  note y = trep_node [of root h "(lf, e1, z) # ctx" lf a e2 c, simplified, OF assms(1)]
  have n: "rt c \<noteq> ?x" "?p \<noteq> ?y" "?x \<noteq> ?y" using x(18) y(1,4,15,19) by auto
  obtain m where m: "tget h ?y = Ok m" "tn_p m (sd (\<not> lf)) = rt c" using tget_down [OF y(7)] by blast
  obtain h1 where h1: "t_fix ?x (rt c) (sd lf) h = Ok h1" "chain root [(?x, rt c, sd lf)] h h1"
    using chain_step [OF chain_start, of ?x "sd lf" root "rt c" h] x y by auto
  obtain n where n: "tget h1 ?x = Ok n" "tn_p n CP = ?p" "tn_dir n = cdir ctx" using chain_up [OF h1(2) x(5)] x y n by auto
  obtain h2 where h2: "t_fix ?p ?y (cdir ctx) h1 = Ok h2" "chain root [(?x, rt c, sd lf), (?p, ?y, cdir ctx)] h h2"
    using chain_step [OF h1(2), of ?p "cdir ctx" ?y] x y by auto
  obtain h3 where h3: "t_fix ?y ?x (sd (\<not> lf)) h2 = Ok h3" "chain root ?fs h h3"
    using chain_step [OF h2(2), of ?y "sd (\<not> lf)" ?x] x y by auto
  have "settled ?fs" using x y n by auto
  then have "trep root h3 (plug ctx (sN lf a e2 (sN lf c e1 z)))" by (rule rot_chain [OF assms(1) h3(2)]) simp
  moreover have "t_rot lf ?x ?y h = Ok h3" by (simp add: t_rot_def m h1(1) n h2(1) h3(1))
  moreover have "within (insert root (addrs (plug ctx (sN lf (sN lf a e2 c) e1 z)))) h h3"
    using cpar_cases [of root ctx] rt_cases [of c] by (intro chain_within [OF h3(2) assms(2)]) (auto simp: addrs_plug)
  ultimately show ?thesis using chain_info [OF h3(2)] by blast
qed


lemma t_zrot_ok:
  assumes "trep root h (plug ctx (sN lf (sN (\<not> lf) (sN lf b e3 c) e2 a) e1 z))" "h 0 = None"
  shows "\<exists>h'. t_zrot lf (fst e1) (fst e2) (fst e3) h = Ok h' \<and> trep root h' (plug ctx (sN lf (sN lf a e2 b) e3 (sN lf c e1 z)))
    \<and> info h' = info h \<and> within (insert root (addrs (plug ctx (sN lf (sN (\<not> lf) (sN lf b e3 c) e2 a) e1 z)))) h h'"
proof -
  let ?x = "fst e1" and ?y = "fst e2" and ?w = "fst e3" and ?p = "cpar root ctx"
  let ?f1 = "(?y, rt b, sd (\<not> lf))" and ?f2 = "(?x, rt c, sd lf)" and ?f3 = "(?p, ?w, cdir ctx)"
    and ?f4 = "(?w, ?x, sd (\<not> lf))" and ?f5 = "(?w, ?y, sd lf)"
  note x = trep_node [OF assms(1)]
  note y = trep_node [of root h "(lf, e1, z) # ctx" "\<not> lf" "sN lf b e3 c" e2 a, simplified, OF assms(1)]
  note w = trep_node [of root h "(\<not> lf, e2, a) # (lf, e1, z) # ctx" lf b e3 c, simplified, OF assms(1)]
  have "apart root (plug ctx (sN lf (sN (\<not> lf) (sN lf b e3 c) e2 a) e1 z))" using assms(1) by (simp add: trep_def)
  then have d: "?x \<notin> addrs b" "?x \<notin> addrs c" "?x \<noteq> ?w" "?w \<notin> caddrs ctx" "?x \<noteq> 0" "?w \<noteq> root" "addrs b \<inter> caddrs ctx = {}" "addrs c \<inter> caddrs ctx = {}"
    "apart root b" "apart root c"
    unfolding apart_plug apart_sN by simp_all blast+
  then have n: "rt b \<noteq> ?x" "rt c \<noteq> ?x" "?x \<noteq> ?w" "?p \<noteq> ?w" "?p \<noteq> ?y" using x(4,18) y(1,4,15) x(18) y(1) by (auto simp: place_facts)
  have b: "rt b \<noteq> ?y" "rt c \<noteq> ?y" using w(18,19) y(1) by auto
  have n': "rt b \<noteq> ?p \<or> rt b = 0" "rt c \<noteq> ?p \<or> rt c = 0"
    using cpar_notin [OF d(9,7)] cpar_notin [OF d(10,8)] rt_cases [of b] rt_cases [of c] by auto
  obtain m where m: "tget h ?w = Ok m" "tn_p m (sd lf) = rt b" using tget_down [OF w(6)] by blast
  obtain h1 where h1: "t_fix ?y (rt b) (sd (\<not> lf)) h = Ok h1" "chain root [?f1] h h1"
    using chain_step [OF chain_start, of ?y "sd (\<not> lf)" root "rt b" h] y(1,2,3) w(10,12) by auto
  obtain m' where m': "tget h1 ?w = Ok m'" "tn_p m' (sd (\<not> lf)) = rt c" using chain_down [OF h1(2) w(7)] w(4,14) by (cases "rt c = 0") auto
  obtain h2 where h2: "t_fix ?x (rt c) (sd lf) h1 = Ok h2" "chain root [?f1, ?f2] h h2"
    using chain_step [OF h1(2), of ?x "sd lf" "rt c"] x(1,2,3) w(11,13) by auto
  obtain k where k: "tget h2 ?x = Ok k" "tn_p k CP = ?p" "tn_dir k = cdir ctx" using chain_up [OF h2(2) x(5)] x(1,4) n by auto
  obtain h3 where h3: "t_fix ?p ?w (cdir ctx) h2 = Ok h3" "chain root [?f1, ?f2, ?f3] h h3"
    using chain_step [OF h2(2), of ?p "cdir ctx" ?w] x(15,16,17) w(1,2,3) by auto
  obtain h4 where h4: "t_fix ?w ?x (sd (\<not> lf)) h3 = Ok h4" "chain root [?f1, ?f2, ?f3, ?f4] h h4"
    using chain_step [OF h3(2), of ?w "sd (\<not> lf)" ?x] x(2,3) w(1,2,3) by auto
  obtain h5 where h5: "t_fix ?w ?y (sd lf) h4 = Ok h5" "chain root [?f1, ?f2, ?f3, ?f4, ?f5] h h5"
    using chain_step [OF h4(2), of ?w "sd lf" ?y] y(2,3) w(1,2,3) by auto
  have "settled [?f1, ?f2, ?f3, ?f4, ?f5]" using y(4) w(4,8,9,14) n y(4) [THEN not_sym] w(4) [THEN not_sym] n [THEN not_sym] x(4) x(4) [THEN not_sym] b by simp
  then have "trep root h5 (plug ctx (sN lf (sN lf a e2 b) e3 (sN lf c e1 z)))" by (rule zrot_chain [OF assms(1) h5(2)]) simp
  moreover have "t_zrot lf ?x ?y ?w h = Ok h5" by (simp add: t_zrot_def m m' h1(1) k h2(1) h3(1) h4(1) h5(1))
  moreover have "within (insert root (addrs (plug ctx (sN lf (sN (\<not> lf) (sN lf b e3 c) e2 a) e1 z)))) h h5"
    using cpar_cases [of root ctx] rt_cases [of b] rt_cases [of c] by (intro chain_within [OF h5(2) assms(2)]) (auto simp: addrs_plug)
  ultimately show ?thesis using chain_info [OF h5(2)] by blast
qed

section \<open>Tags, and one node in the place of another\<close>

definition t_tag :: "taddr \<Rightarrow> ('m \<Rightarrow> 'm) \<Rightarrow> ('k, 'm) theap \<Rightarrow> ('k, 'm) theap outcome" where
  "t_tag x f h = tset x (\<lambda>n. n\<lparr>tn_tag := f (tn_tag n)\<rparr>) h"

definition links :: "('k, 'm) theap \<Rightarrow> taddr \<Rightarrow> ((tdir \<Rightarrow> taddr) \<times> tdir) option" where
  "links h x = map_option (\<lambda>n. (tn_p n, tn_dir n)) (h x)"

lemma edge_links:
  "edge root h p d c \<longleftrightarrow> p \<noteq> 0 \<and> d \<noteq> CN \<and> (d = CP \<longleftrightarrow> p = root) \<and> c \<noteq> root \<and> (\<exists>f e. links h p = Some (f, e) \<and> f d = c)
     \<and> (c \<noteq> 0 \<longrightarrow> (\<exists>f. links h c = Some (f, d) \<and> f CP = p))"
  by (auto simp: edge_def links_def)

lemma t_tag_effect:
  assumes "info h x = Some (k, m)"
  shows "\<exists>h'. t_tag x f h = Ok h' \<and> info h' = (info h)(x \<mapsto> (k, f m)) \<and> (\<forall>p d c. edge root h p d c \<longrightarrow> edge root h' p d c) \<and> within {x} h h'"
proof -
  obtain n where n: "h x = Some n" "tn_key n = k" "tn_tag n = m" using assms by (auto simp: info_def)
  let ?h = "h(x \<mapsto> n\<lparr>tn_tag := f (tn_tag n)\<rparr>)"
  have 1: "t_tag x f h = Ok ?h" using n by (simp add: t_tag_def tset_def)
  have 2: "info ?h = (info h)(x \<mapsto> (k, f m))" using n by (auto simp: info_def fun_eq_iff)
  have L: "links ?h = links h" using n by (auto simp: links_def fun_eq_iff)
  have 3: "edge root ?h p d c" if "edge root h p d c" for p d c using that unfolding edge_links L .
  have 4: "within {x} h ?h" using n by (auto simp: within_def owner_def fun_eq_iff)
  show ?thesis by (intro exI [of _ ?h] conjI allI impI) (fact 1, fact 2, erule 3, fact 4)
qed

lemma shape_keep:
  "shape root h t \<Longrightarrow> \<forall>x \<in> addrs t. info h' x = info h x \<Longrightarrow> \<forall>p d c. edge root h p d c \<longrightarrow> edge root h' p d c \<Longrightarrow> shape root h' t"
  by (induction t) auto

lemma cshape_keep:
  "cshape root h ctx \<Longrightarrow> \<forall>x \<in> caddrs ctx. info h' x = info h x \<Longrightarrow> \<forall>p d c. edge root h p d c \<longrightarrow> edge root h' p d c \<Longrightarrow> cshape root h' ctx"
  by (induction root h ctx rule: cshape.induct) (auto intro: shape_keep)

lemma t_tag_ok:
  assumes "trep root h (plug ctx (sN lf t (x, k, m) s))"
  shows "\<exists>h'. t_tag x f h = Ok h' \<and> trep root h' (plug ctx (sN lf t (x, k, f m) s)) \<and> info h' = (info h)(x \<mapsto> (k, f m))
    \<and> within (insert root (addrs (plug ctx (sN lf t (x, k, m) s)))) h h'"
proof -
  have s: "hole root h ctx x" "cshape root h ctx" "info h x = Some (k, m)" "edge root h x (sd lf) (rt t)" "edge root h x (sd (\<not> lf)) (rt s)"
    "shape root h t" "shape root h s" and ap: "apart root (plug ctx (sN lf t (x, k, m) s))"
    using assms by (auto simp: trep_plug)
  have ap': "apart root (plug ctx (sN lf t (x, k, f m) s))" using ap unfolding apart_plug apart_sN by simp
  have d: "x \<notin> caddrs ctx" "x \<notin> addrs t" "x \<notin> addrs s" using ap by (auto simp: apart_plug apart_sN)
  obtain h' where h: "t_tag x f h = Ok h'" "info h' = (info h)(x \<mapsto> (k, f m))" "\<forall>p d c. edge root h p d c \<longrightarrow> edge root h' p d c" "within {x} h h'"
    using t_tag_effect [OF s(3)] by blast
  have "trep root h' (plug ctx (sN lf t (x, k, f m) s))"
    unfolding trep_plug using s h(2,3) d ap' by (auto intro!: shape_keep [OF _ _ h(3)] cshape_keep [OF _ _ h(3)])
  moreover have "within (insert root (addrs (plug ctx (sN lf t (x, k, m) s)))) h h'" by (rule within_mono [OF h(4)]) (simp add: addrs_plug)
  ultimately show ?thesis using h(1,2) by blast
qed

definition t_replace :: "taddr \<Rightarrow> taddr \<Rightarrow> ('k, 'm) theap \<Rightarrow> ('k, 'm) theap outcome" where
  "t_replace x y h =
     obind (tget h x) (\<lambda>n. obind (t_fix y (tn_p n CL) CL h) (\<lambda>h.
     obind (tget h x) (\<lambda>n. obind (t_fix y (tn_p n CR) CR h) (\<lambda>h.
     obind (tget h x) (\<lambda>n. t_fix (tn_p n CP) y (tn_dir n) h)))))"

lemma t_replace_ok:
  assumes "trep root h (plug ctx (Node l e r))" "h 0 = None" "info h y = Some (ky, my)" "y \<notin> addrs (plug ctx (Node l e r))" "y \<noteq> root"
  shows "\<exists>h'. t_replace (fst e) y h = Ok h' \<and> trep root h' (plug ctx (Node l (y, ky, my) r)) \<and> info h' = info h
    \<and> within (insert y (insert root (addrs (plug ctx (Node l e r))))) h h'"
proof -
  let ?x = "fst e" and ?p = "cpar root ctx"
  let ?fs = "[(y, rt l, CL), (y, rt r, CR), (?p, y, cdir ctx)]"
  have "trep root h (plug ctx (sN True l e r))" using assms(1) by (simp add: sN_def)
  note x = trep_node [OF this, simplified]
  have s: "cshape root h ctx" "shape root h l" "shape root h r" and ap: "apart root (plug ctx (Node l e r))"
    using assms(1) by (auto simp: trep_plug)
  have "h y \<noteq> None" using assms(3) by (auto simp: info_def)
  moreover from this have "y \<noteq> 0" using assms(2) by metis
  ultimately have y: "y \<noteq> 0" "h y \<noteq> None" "y \<notin> caddrs ctx" "y \<notin> addrs l" "y \<notin> addrs r" "y \<noteq> ?x" using assms(4) by (auto simp: addrs_plug)
  have d: "capart root ctx" "addrs l \<inter> caddrs ctx = {}" "addrs r \<inter> caddrs ctx = {}" "apart root l" "apart root r" "addrs l \<inter> addrs r = {}"
    "?x \<notin> caddrs ctx" "?x \<notin> addrs l" "?x \<notin> addrs r"
    using ap unfolding apart_plug apart_Node by simp_all blast+
  have ap': "apart root (plug ctx (Node l (y, ky, my) r))"
    using ap y assms(5) unfolding apart_plug apart_Node by auto
  have n: "?p \<noteq> y" "rt l \<noteq> y" "rt r \<noteq> y" using y assms(5) by (auto simp: place_facts)
  have o: "rt l = 0 \<or> rt l \<noteq> rt r" "rt l \<notin> addrs r" "rt r \<notin> addrs l" "?p \<notin> addrs l" "?p \<notin> addrs r" "rt l \<notin> caddrs ctx" "rt r \<notin> caddrs ctx"
    using d rt_disj [of l r] by (auto simp: rt_notin place_facts Int_commute)
  obtain k1 where k1: "tget h ?x = Ok k1" "tn_p k1 CL = rt l" using tget_down [OF x(6)] by auto
  obtain h1 where h1: "t_fix y (rt l) CL h = Ok h1" "chain root [(y, rt l, CL)] h h1"
    using chain_step [OF chain_start, of y CL root "rt l" h] y(1,2) assms(5) x(10,12) by auto
  obtain k2 where k2: "tget h1 ?x = Ok k2" "tn_p k2 CR = rt r" using chain_down [OF h1(2) x(7)] y(6) o(1) by (cases "rt r = 0") auto
  obtain h2 where h2: "t_fix y (rt r) CR h1 = Ok h2" "chain root [(y, rt l, CL), (y, rt r, CR)] h h2"
    using chain_step [OF h1(2), of y CR "rt r"] y(1,2) assms(5) x(11,13) by auto
  obtain k3 where k3: "tget h2 ?x = Ok k3" "tn_p k3 CP = ?p" "tn_dir k3 = cdir ctx"
    using chain_up [OF h2(2) x(5)] x(1,8,9) n(1) x(8,9) [THEN not_sym] by auto
  obtain h3 where h3: "t_fix ?p y (cdir ctx) h2 = Ok h3" "chain root ?fs h h3"
    using chain_step [OF h2(2), of ?p "cdir ctx" y] x(15,16,17) y(1,2) assms(5) by auto
  have st: "settled ?fs" using n n [THEN not_sym] o(1) by simp
  note new = chain_new [OF h3(2) st] and f = clear_set
  have "shape root h3 l" by (rule chain_shape [OF h3(2) s(2) d(4)]) (use y o in auto)
  moreover have "shape root h3 r" by (rule chain_shape [OF h3(2) s(3) d(5)]) (use y o in auto)
  moreover have "cshape root h3 ctx" by (rule chain_cshape [OF h3(2) s(1) d(1)]) (use y o assms(5) in auto)
  ultimately have "trep root h3 (plug ctx (Node l (y, ky, my) r))"
    unfolding trep_plug shape.simps chain_info [OF h3(2)] using ap' assms(3) new by simp
  moreover have "t_replace ?x y h = Ok h3" by (simp add: t_replace_def k1 h1(1) k2 h2(1) k3 h3(1))
  moreover have "within (insert y (insert root (addrs (plug ctx (Node l e r))))) h h3"
    using cpar_cases [of root ctx] rt_cases [of l] rt_cases [of r] by (intro chain_within [OF h3(2) assms(2)]) (auto simp: addrs_plug)
  ultimately show ?thesis using chain_info [OF h3(2)] by blast
qed

end
