(* ===== verification/TreeSearch.thy ===== *)
theory TreeSearch
  imports TreeOps
begin

text \<open>
  Searching the trees: the place of a key, the least and the greatest node, and the walk over all
  nodes; and what the order of the keys says about them.
\<close>

section \<open>Searching\<close>

text \<open>The place of a key: the subtree under its node, or the empty place where it would go.\<close>

fun locate :: "('k \<Rightarrow> 'k \<Rightarrow> int) \<Rightarrow> 'k \<Rightarrow> ('k, 'm) tctx \<Rightarrow> ('k, 'm) ttree \<Rightarrow> ('k, 'm) tctx \<times> ('k, 'm) ttree" where
  "locate cmp key c Leaf = (c, Leaf)"
| "locate cmp key c (Node l (x, k, m) r) =
     (if cmp key k < 0 then locate cmp key ((True, (x, k, m), r) # c) l
      else if cmp key k > 0 then locate cmp key ((False, (x, k, m), l) # c) r
      else (c, Node l (x, k, m) r))"

fun spot :: "taddr \<Rightarrow> ('k, 'm) tctx \<times> ('k, 'm) ttree \<Rightarrow> taddr \<times> tdir" where
  "spot root (c, Leaf) = (cpar root c, cdir c)"
| "spot root (c, Node l e r) = (fst e, CN)"

lemma plug_locate: "locate cmp key c t = (c', u) \<Longrightarrow> plug c' u = plug c t"
  by (induction cmp key c t rule: locate.induct) (auto simp: sN_def split: if_splits)

lemma trep_Node:
  assumes "trep root h (plug c (Node l e r))"
  obtains n where "tget h (fst e) = Ok n" "tn_key n = fst (snd e)" "tn_tag n = snd (snd e)" "tn_p n CL = rt l" "tn_p n CR = rt r"
    "tn_p n CP = cpar root c" "tn_dir n = cdir c" "fst e \<noteq> 0"
proof -
  have s: "hole root h c (fst e)" "info h (fst e) = Some (snd e)" "edge root h (fst e) CL (rt l)" "edge root h (fst e) CR (rt r)"
    "apart root (plug c (Node l e r))" using assms by (auto simp: trep_plug)
  have z: "fst e \<noteq> 0" using s(5) by (auto simp: apart_plug apart_Node)
  obtain n where n: "h (fst e) = Some n" "snd e = (tn_key n, tn_tag n)" using s(2) by (auto simp: info_def)
  have "tn_p n CL = rt l" "tn_p n CR = rt r" using edge_p [OF s(3)] edge_p [OF s(4)] n(1) by auto
  moreover have "tn_p n CP = cpar root c" "tn_dir n = cdir c" using edge_up [OF s(1) z] n(1) by auto
  moreover have "tget h (fst e) = Ok n" using n(1) by (simp add: tget_def)
  ultimately show ?thesis using z n(2) by (intro that [of n]) simp_all
qed

lemma findloc_loop_ok:
  assumes "trep root h (plug c t)"
  shows "t_findloc_loop cmp h key (cpar root c) (cdir c) = ret (spot root (locate cmp key c t))"
  using assms
proof (induction t arbitrary: c)
  case Leaf
  then have "hole root h c 0" by (simp add: trep_plug)
  then obtain n where "tget h (cpar root c) = Ok n" "tn_p n (cdir c) = 0" using tget_down by blast
  then show ?case by (simp add: t_findloc_loop.simps)
next
  case (Node l e r)
  obtain x k m where e: "e = (x, k, m)" by (cases e) auto
  have "hole root h c x" using Node.prems by (simp add: trep_plug e)
  then obtain p where p: "tget h (cpar root c) = Ok p" "tn_p p (cdir c) = x" using tget_down by blast
  obtain n where n: "tget h x = Ok n" "tn_key n = k" "x \<noteq> 0" using trep_Node [OF Node.prems] by (auto simp: e)
  have "trep root h (plug ((True, e, r) # c) l)" "trep root h (plug ((False, e, l) # c) r)"
    using Node.prems by (simp_all add: sN_def)
  from Node.IH(1) [OF this(1)] Node.IH(2) [OF this(2)]
  show ?case using p n by (subst t_findloc_loop.simps) (simp add: e)
qed

lemma findloc_ok: "trep root h t \<Longrightarrow> t_findloc cmp root key h = ret (spot root (locate cmp key [] t))"
  using findloc_loop_ok [of root h "[]" t cmp key] by (simp add: t_findloc_def)

text \<open>The nodes left and right of a place, in order.\<close>

fun cleft :: "('k, 'm) tctx \<Rightarrow> (taddr \<times> 'k) list" where
  "cleft [] = []"
| "cleft ((lf, (x, k, m), s) # c) = cleft c @ (if lf then [] else ino s @ [(x, k)])"

fun cright :: "('k, 'm) tctx \<Rightarrow> (taddr \<times> 'k) list" where
  "cright [] = []"
| "cright ((lf, (x, k, m), s) # c) = (if lf then (x, k) # ino s else []) @ cright c"

lemma ino_plug_lr: "ino (plug c t) = cleft c @ ino t @ cright c"
proof (induction c arbitrary: t)
  case (Cons f c)
  obtain lf x k m s where "f = (lf, (x, k, m), s)" by (cases f) auto
  then show ?case by (simp add: Cons.IH sN_def)
qed simp

definition ordered :: "('k \<Rightarrow> 'k \<Rightarrow> int) \<Rightarrow> (taddr \<times> 'k) list \<Rightarrow> bool" where
  "ordered cmp xs \<longleftrightarrow> sorted_wrt (\<lambda>p q. cmp (snd p) (snd q) < 0) xs"

context cmp_order
begin

lemma less_trans: "cmp x y < 0 \<Longrightarrow> cmp y z < 0 \<Longrightarrow> cmp x z < 0"
  by (simp only: cmp_sign(3)) (metis le_trans not_le)

lemma less_sym: "cmp x y > 0 \<Longrightarrow> cmp y x < 0"
  by (simp add: cmp_swap)

definition at_place :: "'a \<Rightarrow> ('a, 'm) tctx \<Rightarrow> bool" where
  "at_place key c \<longleftrightarrow> (\<forall>p \<in> set (cleft c). cmp (snd p) key < 0) \<and> (\<forall>p \<in> set (cright c). cmp key (snd p) < 0)"

lemma locate_place:
  "ordered cmp (ino (plug c t)) \<Longrightarrow> at_place key c \<Longrightarrow> locate cmp key c t = (c', u) \<Longrightarrow> at_place key c'"
proof (induction t arbitrary: c)
  case (Node l e r)
  obtain x k m where e: "e = (x, k, m)" by (cases e) auto
  have o: "\<forall>p \<in> set (ino l). cmp (snd p) k < 0" "\<forall>p \<in> set (ino r). cmp k (snd p) < 0"
    using Node.prems(1) by (auto simp: ino_plug_lr e ordered_def sorted_wrt_append)
  have r: "at_place key ((True, e, r) # c)" if "cmp key k < 0"
    using that o(2) Node.prems(2) less_trans [OF that] by (auto simp: at_place_def e)
  have l: "at_place key ((False, e, l) # c)" if "cmp key k > 0"
    using less_sym [OF that] o(1) Node.prems(2) less_trans [OF _ less_sym [OF that]] by (auto simp: at_place_def e)
  show ?case using Node.IH(1) [OF _ r] Node.IH(2) [OF _ l] Node.prems by (auto simp: e sN_def split: if_splits)
qed simp

lemma locate_absent:
  assumes "ordered cmp (ino t)" "locate cmp key [] t = (c, Leaf)"
  shows "ino t = cleft c @ cright c" "ordered cmp (cleft c @ (n, key) # cright c)" "\<forall>p \<in> set (ino t). cmp (snd p) key \<noteq> 0"
proof -
  have p: "at_place key c" using locate_place [of "[]" t key c Leaf] assms by (simp add: at_place_def)
  show i: "ino t = cleft c @ cright c" using plug_locate [OF assms(2)] ino_plug_lr [of c Leaf] by simp
  show "ordered cmp (cleft c @ (n, key) # cright c)" using p assms(1) unfolding i
    by (auto simp: ordered_def sorted_wrt_append at_place_def)
  have "cmp key j < 0 \<Longrightarrow> cmp j key \<noteq> 0" for j using cmp_swap [of j key] by simp
  then show "\<forall>p \<in> set (ino t). cmp (snd p) key \<noteq> 0" using p unfolding i at_place_def by fastforce
qed

end

lemma locate_found: "locate cmp key c t = (c', Node l (x, k, m) r) \<Longrightarrow> cmp key k = 0 \<and> (x, k) \<in> set (ino (plug c t))"
proof -
  have "locate cmp key c t = (c', Node l (x, k, m) r) \<Longrightarrow> cmp key k = 0"
    by (induction cmp key c t rule: locate.induct) (auto split: if_splits)
  then show "locate cmp key c t = (c', Node l (x, k, m) r) \<Longrightarrow> cmp key k = 0 \<and> (x, k) \<in> set (ino (plug c t))"
    using plug_locate [of cmp key c t] by (auto simp flip: plug_locate simp: ino_plug_lr)
qed

section \<open>The last node in a direction\<close>

lemma plug_append: "plug (c @ d) t = plug d (plug c t)"
  by (induction c t rule: plug.induct) auto

text \<open>The way along the right (or left) pointers, as a place: all its frames are on that side.\<close>

lemma t_last_ok:
  assumes "shape root h t" "t \<noteq> Leaf"
  shows "\<exists>c e u. t = plug c (sN lf Leaf e u) \<and> (\<forall>f \<in> set c. fst f = lf) \<and> t_last (sd lf) h (rt t) = ret (fst e)"
  using assms
proof (induction t)
  case (Node l e r)
  define near far where "near = (if lf then l else r)" and "far = (if lf then r else l)"
  have t: "Node l e r = sN lf near e far" by (simp add: near_def far_def sN_def)
  have s: "shape root h near" "edge root h (fst e) (sd lf) (rt near)" using Node.prems(1) unfolding t by auto
  have IH: "\<exists>c e u. near = plug c (sN lf Leaf e u) \<and> (\<forall>f \<in> set c. fst f = lf) \<and> t_last (sd lf) h (rt near) = ret (fst e)" if "near \<noteq> Leaf"
    using Node.IH s(1) that by (auto simp: near_def)
  obtain n where n: "tget h (fst e) = Ok n" "tn_p n (sd lf) = rt near" using tget_down [OF s(2)] by blast
  have step: "t_last (sd lf) h (fst e) = (if rt near = 0 then ret (fst e) else t_last (sd lf) h (rt near))"
    using n by (subst t_last.simps) simp
  show ?case
  proof (cases "near = Leaf")
    case True
    then show ?thesis using step unfolding t by (intro exI [of _ "[]"] exI [of _ e] exI [of _ far]) simp
  next
    case False
    then obtain c e' u where c: "near = plug c (sN lf Leaf e' u)" "\<forall>f \<in> set c. fst f = lf" "t_last (sd lf) h (rt near) = ret (fst e')"
      using IH by blast
    have "rt near \<noteq> 0" using s(1) False by (cases near) (auto simp: edge_def)
    moreover have "plug (c @ [(lf, e, far)]) (sN lf Leaf e' u) = sN lf near e far"
      unfolding c(1) by (simp add: plug_append)
    ultimately show ?thesis using step c(2,3) unfolding t rt_sN
      by (intro exI [of _ "c @ [(lf, e, far)]"] exI [of _ e'] exI [of _ u]) auto
  qed
qed simp

lemma extreme_ok:
  assumes "trep root h t"
  shows "t_extreme CL root h = ret (if ino t = [] then 0 else fst (hd (ino t)))"
    and "t_extreme CR root h = ret (if ino t = [] then 0 else fst (last (ino t)))"
proof -
  obtain n where n: "tget h root = Ok n" "tn_p n CP = rt t" using assms tget_down [of root h root CP "rt t"] by (auto simp: trep_def)
  have s: "shape root h t" "apart root t" using assms by (auto simp: trep_def)
  have z: "rt t = 0 \<longleftrightarrow> t = Leaf" using rt_cases [of t] s(2) by (auto simp: apart_def)
  have "t_extreme (sd lf) root h = ret (if ino t = [] then 0 else fst (if lf then hd (ino t) else last (ino t)))" for lf
  proof (cases "t = Leaf")
    case False
    obtain c e u where c: "t = plug c (sN lf Leaf e u)" "\<forall>f \<in> set c. fst f = lf" "t_last (sd lf) h (rt t) = ret (fst e)"
      using t_last_ok [OF s(1) False] by blast
    have lr: "lf \<Longrightarrow> cleft c = []" "\<not> lf \<Longrightarrow> cright c = []" using c(2) by (induction c) auto
    obtain x k m where e: "e = (x, k, m)" by (cases e) auto
    have "t_extreme (sd lf) root h = ret x" using n z False c(3) by (simp add: t_extreme_def e)
    moreover have "ino t = cleft c @ ino (sN lf Leaf e u) @ cright c" unfolding c(1) by (rule ino_plug_lr)
    ultimately show ?thesis using lr by (cases lf) (auto simp: sN_def e)
  qed (use n z in \<open>simp add: t_extreme_def\<close>)
  from this [of True] this [of False] show "t_extreme CL root h = ret (if ino t = [] then 0 else fst (hd (ino t)))"
    "t_extreme CR root h = ret (if ino t = [] then 0 else fst (last (ino t)))" by simp_all
qed

section \<open>The walk\<close>

lemma walk_subtree:
  assumes "trep root h (plug c t)" "t \<noteq> Leaf"
  shows "t_walk h func root (rt t) CP s =
    (let s' = fold (\<lambda>e. func (fst e)) (postorder t) s
     in if cpar root c = root then ret s' else t_walk h func root (cpar root c) (cdir c) s')"
  using assms
proof (induction t arbitrary: c s)
  case (Node l e r)
  let ?x = "fst e"
  have ap: "apart root (plug c (Node l e r))" using Node.prems(1) by (simp add: trep_def)
  then have ap': "capart root c" "apart root l" "apart root r" "?x \<noteq> root" by (auto simp: apart_plug apart_Node)
  have nr: "rt l \<noteq> root" "rt r \<noteq> root" "?x \<noteq> root" "rt l = 0 \<longleftrightarrow> l = Leaf" "rt r = 0 \<longleftrightarrow> r = Leaf" "cpar root c \<noteq> 0"
    using rt_cases [of l] rt_cases [of r] ap' rt_not_root [OF ap'(2)] rt_not_root [OF ap'(3)] cpar_nz [OF ap'(1)] by (auto simp: apart_def)
  obtain n where n: "tget h ?x = Ok n" "tn_p n CL = rt l" "tn_p n CR = rt r" "tn_p n CP = cpar root c" "tn_dir n = cdir c"
    using trep_Node [OF Node.prems(1)] by blast
  define fin where "fin s = (let s' = func ?x s in if cpar root c = root then ret s' else t_walk h func root (cpar root c) (cdir c) s')" for s
  have R: "t_walk h func root ?x CR s = fin s" for s using n by (subst t_walk.simps) (simp add: fin_def)
  have tr: "trep root h (plug ((False, e, l) # c) r)" "trep root h (plug ((True, e, r) # c) l)" using Node.prems(1) by (simp_all add: sN_def)
  have L: "t_walk h func root ?x CL s = fin (fold (\<lambda>e. func (fst e)) (postorder r) s)" for s
  proof (cases "r = Leaf")
    case True
    then show ?thesis using n nr by (subst t_walk.simps) (simp add: fin_def)
  next
    case False
    have "t_walk h func root ?x CL s = t_walk h func root (rt r) CP s" using n nr False by (subst t_walk.simps) simp
    then show ?thesis using Node.IH(2) [OF tr(1) False, of s] R nr(3) by (simp add: Let_def)
  qed
  have P: "t_walk h func root ?x CP s = t_walk h func root ?x CL s" if "l = Leaf" for s
    using n nr that by (subst (1 2) t_walk.simps) simp
  show ?case
  proof (cases "l = Leaf")
    case True
    then show ?thesis using P L by (simp add: fin_def Let_def)
  next
    case False
    have "t_walk h func root ?x CP s = t_walk h func root (rt l) CP s" using n nr False by (subst t_walk.simps) simp
    then show ?thesis using Node.IH(1) [OF tr(2) False, of s] L nr(3) by (simp add: fin_def Let_def)
  qed
qed simp

lemma apply_ok:
  assumes "trep root h t"
  shows "t_apply root func s h = ret (fold (\<lambda>e. func (fst e)) (postorder t) s)"
proof -
  obtain n where n: "tget h root = Ok n" "tn_p n CP = rt t" using assms tget_down [of root h root CP "rt t"] by (auto simp: trep_def)
  have z: "rt t = 0 \<longleftrightarrow> t = Leaf" using rt_cases [of t] assms by (auto simp: apart_def trep_def)
  show ?thesis using walk_subtree [of root h "[]" t func s] assms n z by (cases "t = Leaf") (auto simp: t_apply_def Let_def)
qed

end
