(* ===== verification/TreeState.thy ===== *)
theory TreeState
  imports TreeSearch
begin

text \<open>
  What the three kinds of search tree need beyond the shared operations: going from one tree to
  another with the same nodes in order, putting in a new leaf, and the order of the keys.
\<close>

section \<open>From one tree to another\<close>

text \<open>\<open>becomes root h t h' t'\<close>: the heap goes from one tree to another with the same nodes in order.\<close>

definition becomes :: "taddr \<Rightarrow> ('k, 'm) theap \<Rightarrow> ('k, 'm) ttree \<Rightarrow> ('k, 'm) theap \<Rightarrow> ('k, 'm) ttree \<Rightarrow> bool" where
  "becomes root h t h' t' \<longleftrightarrow> h 0 = None \<and> trep root h t \<and> trep root h' t' \<and> ino t' = ino t \<and> within (insert root (addrs t)) h h'"

lemma becomesD:
  assumes "becomes root h t h' t'"
  shows "trep root h' t'" "ino t' = ino t" "h' 0 = None" "within (insert root (addrs t)) h h'" "h 0 = None" "trep root h t"
proof -
  have "owner h' 0 = owner h 0" using assms by (simp add: becomes_def within_def)
  then show "h' 0 = None" using assms by (auto simp: becomes_def owner_def)
qed (use assms in \<open>simp_all add: becomes_def\<close>)

lemma becomes_refl: "trep root h t \<Longrightarrow> h 0 = None \<Longrightarrow> becomes root h t h t"
  by (simp add: becomes_def)

lemma becomes_trans: "becomes root h t h' t' \<Longrightarrow> becomes root h' t' h'' t'' \<Longrightarrow> becomes root h t h'' t''"
proof -
  assume b: "becomes root h t h' t'" "becomes root h' t' h'' t''"
  have "addrs t' = addrs t" using b(1) addrs_ino [of t' t] by (simp add: becomes_def)
  then have "within (insert root (addrs t)) h h''" using b within_trans [of _ h h' _ h''] by (auto simp: becomes_def)
  then show ?thesis using b by (simp add: becomes_def)
qed

lemma rot_becomes:
  assumes "trep root h (plug ctx (sN lf (sN lf a e2 c) e1 z))" "h 0 = None"
  shows "\<exists>h'. t_rot lf (fst e1) (fst e2) h = Ok h' \<and>
    becomes root h (plug ctx (sN lf (sN lf a e2 c) e1 z)) h' (plug ctx (sN lf a e2 (sN lf c e1 z)))"
  using t_rot_ok [OF assms] assms ino_plug [OF ino_rot, of ctx lf a e2 c e1 z] by (auto simp: becomes_def)

lemma zrot_becomes:
  assumes "trep root h (plug ctx (sN lf (sN (\<not> lf) (sN lf b e3 c) e2 a) e1 z))" "h 0 = None"
  shows "\<exists>h'. t_zrot lf (fst e1) (fst e2) (fst e3) h = Ok h' \<and>
    becomes root h (plug ctx (sN lf (sN (\<not> lf) (sN lf b e3 c) e2 a) e1 z)) h' (plug ctx (sN lf (sN lf a e2 b) e3 (sN lf c e1 z)))"
  using t_zrot_ok [OF assms] assms ino_plug [OF ino_zrot, of ctx lf b e3 c e2 a e1 z] by (auto simp: becomes_def)

lemma tag_becomes:
  assumes "trep root h (plug ctx (sN lf t (x, k, m) s))" "h 0 = None"
  shows "\<exists>h'. t_tag x f h = Ok h' \<and> becomes root h (plug ctx (sN lf t (x, k, m) s)) h' (plug ctx (sN lf t (x, k, f m) s))"
  using t_tag_ok [OF assms(1), of f] assms ino_plug [OF ino_tag, of ctx lf t x k m s "f m"] by (auto simp: becomes_def)

text \<open>What a call reads at a node of the tree.\<close>

lemma trep_sN:
  assumes "trep root h (plug c (sN lf t (x, k, m) s))"
  obtains n where "tget h x = Ok n" "tn_key n = k" "tn_tag n = m" "tn_p n (sd lf) = rt t" "tn_p n (sd (\<not> lf)) = rt s"
    "tn_p n CP = cpar root c" "tn_dir n = cdir c" "x \<noteq> 0"
  using assms trep_Node [of root h c t "(x, k, m)" s] trep_Node [of root h c s "(x, k, m)" t]
  by (cases lf) (auto simp: sN_def sd_def)

section \<open>Parts of a heap that do not change\<close>

lemma edge_same:
  assumes "links h' = links h"
  shows "edge root h' p d c = edge root h p d c"
  unfolding edge_links assms by (rule refl)

lemma shape_links: "links h' = links h \<Longrightarrow> info h' = info h \<Longrightarrow> shape root h' t = shape root h t"
  by (induction t) (simp_all only: shape.simps edge_same [of h' h])

lemma trep_links: "links h' = links h \<Longrightarrow> info h' = info h \<Longrightarrow> trep root h' t = trep root h t"
  by (simp only: trep_def shape_links [of h' h] edge_same [of h' h])

lemma t_owner_effect:
  assumes "h x \<noteq> None"
  shows "\<exists>h'. tset x (\<lambda>n. n\<lparr>tn_tree := v\<rparr>) h = Ok h' \<and> links h' = links h \<and> info h' = info h
    \<and> owner h' = (owner h)(x \<mapsto> v) \<and> (\<forall>y. y \<noteq> x \<longrightarrow> h' y = h y)"
proof -
  obtain n where "h x = Some n" using assms by blast
  then show ?thesis
    by (intro exI [of _ "h(x \<mapsto> n\<lparr>tn_tree := v\<rparr>)"]) (auto simp: tset_def links_def info_def owner_def fun_eq_iff)
qed

lemma edge_off: "edge root h p d c \<Longrightarrow> h' p = h p \<Longrightarrow> c = 0 \<or> h' c = h c \<Longrightarrow> edge root h' p d c"
  by (auto simp: edge_def)

lemma shape_off: "shape root h t \<Longrightarrow> \<forall>y \<in> addrs t. h' y = h y \<Longrightarrow> shape root h' t"
proof (induction t)
  case (Node l e r)
  then show ?case using rt_cases [of l] rt_cases [of r] by (auto simp: info_def intro: edge_off)
qed simp

lemma trep_off: "trep root h t \<Longrightarrow> \<forall>y \<in> insert root (addrs t). h' y = h y \<Longrightarrow> trep root h' t"
  using rt_cases [of t] by (auto simp: trep_def intro: edge_off shape_off)

lemma ino_info: "shape root h t \<Longrightarrow> (x, k) \<in> set (ino t) \<Longrightarrow> \<exists>m. info h x = Some (k, m)"
proof (induction t)
  case (Node l e r)
  then show ?case by (cases e) auto
qed simp

lemma ino_split: "(x, k) \<in> set (ino t) \<Longrightarrow> \<exists>c l m r. t = plug c (Node l (x, k, m) r)"
proof (induction t)
  case (Node l e r)
  obtain y j m where e: "e = (y, j, m)" by (cases e) auto
  consider "(x, k) \<in> set (ino l)" | "(x, k) = (y, j)" | "(x, k) \<in> set (ino r)" using Node.prems by (auto simp: e)
  then show ?case
  proof cases
    case 1
    then obtain c l' m r' where "l = plug c (Node l' (x, k, m) r')" using Node.IH(1) by blast
    then have "Node l e r = plug (c @ [(True, e, r)]) (Node l' (x, k, m) r')" by (simp add: plug_append sN_def)
    then show ?thesis by blast
  next
    case 2
    then have "Node l e r = plug [] (Node l (x, k, m) r)" by (simp add: e)
    then show ?thesis by blast
  next
    case 3
    then obtain c l' m r' where "r = plug c (Node l' (x, k, m) r')" using Node.IH(2) by blast
    then have "Node l e r = plug (c @ [(False, e, l)]) (Node l' (x, k, m) r')" by (simp add: plug_append sN_def)
    then show ?thesis by blast
  qed
qed simp

text \<open>A node that is ready to be inserted, and a tree of which every node is owned.\<close>

definition tfree :: "'m \<Rightarrow> taddr \<Rightarrow> ('k, 'm) theap \<Rightarrow> taddr \<Rightarrow> 'k \<Rightarrow> bool" where
  "tfree z root h n k \<longleftrightarrow> n \<noteq> 0 \<and> n \<noteq> root \<and>
     (\<exists>m. h n = Some m \<and> tn_key m = k \<and> tn_tag m = z \<and> tn_p m CL = 0 \<and> tn_p m CR = 0)"

definition owned :: "taddr \<Rightarrow> ('k, 'm) theap \<Rightarrow> ('k, 'm) ttree \<Rightarrow> bool" where
  "owned root h t \<longleftrightarrow> h 0 = None \<and> (\<forall>x \<in> addrs t. owner h x = Some root)"

lemma becomes_owned: "becomes root h t h' t' \<Longrightarrow> owner h' = owner h"
  by (simp add: becomes_def within_def)

text \<open>A new leaf in an empty place.\<close>

lemma new_leaf:
  assumes "trep root h (plug c Leaf)" "h 0 = None" "tfree z root h n k" "n \<notin> addrs (plug c Leaf)"
  shows "\<exists>h'. t_fix (cpar root c) n (cdir c) h = Ok h' \<and> trep root h' (plug c (Node Leaf (n, k, z) Leaf)) \<and> h' 0 = None
    \<and> owner h' = owner h \<and> (\<forall>y. y \<notin> insert n (insert root (addrs (plug c Leaf))) \<longrightarrow> h' y = h y)"
proof -
  obtain m where m: "h n = Some m" "tn_key m = k" "tn_tag m = z" "tn_p m CL = 0" "tn_p m CR = 0" "n \<noteq> 0" "n \<noteq> root"
    using assms(3) by (auto simp: tfree_def)
  have s: "cshape root h c" and ap: "apart root (plug c Leaf)" using assms(1) by (auto simp: trep_plug)
  have "root \<noteq> 0" using capart_nz ap by (auto simp: apart_plug)
  then have sh: "shape root h (Node Leaf (n, k, z) Leaf)" using m by (simp add: info_def edge_def)
  have "n \<notin> caddrs c" using assms(4) by (simp add: addrs_plug)
  then have ap': "apart root (plug c (Node Leaf (n, k, z) Leaf))" using ap m unfolding apart_plug apart_Node by (simp add: apart_def)
  obtain h' where h: "t_fix (cpar root c) n (cdir c) h = Ok h'" "fixed (cpar root c) n (cdir c) root h h'"
    "trep root h' (plug c (Node Leaf (n, k, z) Leaf))" using graft [OF s sh ap' root_dom [OF assms(1)]] by auto
  have "within (insert n (insert root (addrs (plug c Leaf)))) h h'"
    by (rule fixed_within [OF h(2)]) (use cpar_cases [of root c] assms(2) in \<open>auto simp: addrs_plug\<close>)
  then have w: "owner h' = owner h" "\<forall>y. y \<notin> insert n (insert root (addrs (plug c Leaf))) \<longrightarrow> h' y = h y" by (auto simp: within_def)
  have "0 \<notin> insert n (insert root (addrs (plug c Leaf)))" using ap m(6) \<open>root \<noteq> 0\<close> by (auto simp: apart_def)
  then have "h' 0 = None" using w(2) assms(2) by metis
  then show ?thesis using h w by blast
qed

text \<open>The key of a node, whatever its tag.\<close>

definition key_of :: "('k, 'm) theap \<Rightarrow> taddr \<Rightarrow> 'k option" where
  "key_of h x = map_option fst (info h x)"

lemma key_of_info: "info h' = info h \<Longrightarrow> key_of h' = key_of h" "info h x = Some (k, m) \<Longrightarrow> key_of h x = Some k"
  "info h x = Some (k, m) \<Longrightarrow> info h' = (info h)(x \<mapsto> (k, m')) \<Longrightarrow> key_of h' = key_of h"
  by (auto simp: key_of_def fun_eq_iff)

lemma graft_within:
  assumes "cshape root h c" "shape root h s" "apart root (plug c s)" "h root \<noteq> None" "h 0 = None"
  shows "\<exists>h'. t_fix (cpar root c) (rt s) (cdir c) h = Ok h' \<and> trep root h' (plug c s)
    \<and> within (insert root (addrs (plug c s))) h h' \<and> (\<forall>t. shape root h t \<and> cpar root c \<notin> addrs t \<and> rt s \<notin> addrs t \<longrightarrow> shape root h' t)
    \<and> info h' = info h"
proof -
  obtain h' where h: "t_fix (cpar root c) (rt s) (cdir c) h = Ok h'" "fixed (cpar root c) (rt s) (cdir c) root h h'" "trep root h' (plug c s)"
    using graft [OF assms(1-4)] by blast
  have "within (insert root (addrs (plug c s))) h h'"
    by (rule fixed_within [OF h(2)]) (use cpar_cases [of root c] rt_cases [of s] assms(5) in \<open>auto simp: addrs_plug\<close>)
  then show ?thesis using h fixedD(2) [OF h(2)] shape_fixed_off [OF h(2)] by blast
qed

lemma apart_part:
  assumes "apart root (plug c (Node l e r))"
  shows "apart root (plug c l)" "apart root (plug c r)" "addrs l \<inter> addrs r = {}" "apart root l" "apart root r"
    "cpar root c \<notin> addrs l" "cpar root c \<notin> addrs r" "fst e \<noteq> root" "fst e \<notin> caddrs c" "fst e \<notin> addrs l" "fst e \<notin> addrs r"
  using assms cpar_notin [of root l c] cpar_notin [of root r c] unfolding apart_plug apart_Node by auto

lemma sN_True: "Node l e r = sN True l e r" and sN_False: "Node l e r = sN False r e l"
  by (simp_all add: sN_def)

lemma caddrs_append: "caddrs (c @ d) = caddrs c \<union> caddrs d"
  by (induction c rule: caddrs.induct) auto

lemma cpar_append: "c' \<noteq> [] \<Longrightarrow> cpar root (c' @ c) = cpar x c'" "c' \<noteq> [] \<Longrightarrow> cdir (c' @ c) = cdir c'"
  by (cases c' rule: cdir.cases; simp)+

lemma rt_plug_in: "c \<noteq> [] \<Longrightarrow> rt (plug c t) \<in> caddrs c"
proof (induction c t rule: plug.induct)
  case (2 lf e s c t)
  then show ?case by (cases "c = []") auto
qed simp

section \<open>The order of the keys\<close>

lemma size_ino: "length (ino t) = size t"
  by (simp add: ino_def)

lemma length_locate: "locate cmp key c t = (c', u) \<Longrightarrow> length c' + height u \<le> length c + height t"
  by (induction cmp key c t rule: locate.induct) (auto split: if_splits)

context cmp_order
begin

lemma zero_sym: "cmp x y = 0 \<longleftrightarrow> cmp y x = 0"
  by (auto simp: cmp_zero)

lemma zero_trans: "cmp x y = 0 \<Longrightarrow> cmp y z = 0 \<Longrightarrow> cmp x z = 0"
  using le_trans by (auto simp: cmp_zero)

lemma less_zero: "cmp x y < 0 \<Longrightarrow> cmp y z = 0 \<Longrightarrow> cmp x z < 0" "cmp x y = 0 \<Longrightarrow> cmp y z < 0 \<Longrightarrow> cmp x z < 0"
  by (simp_all only: cmp_zero cmp_sign(3)) (metis le_trans)+

lemma ordered_replace: "ordered cmp (xs @ (n, k) # ys) \<Longrightarrow> cmp j k = 0 \<Longrightarrow> ordered cmp (xs @ (m, j) # ys)"
proof -
  assume a: "ordered cmp (xs @ (n, k) # ys)" "cmp j k = 0"
  have "cmp x j < 0" if "cmp x k < 0" for x using less_zero(1) [OF that] a(2) zero_sym [of j k] by simp
  moreover have "cmp j x < 0" if "cmp k x < 0" for x using less_zero(2) [OF a(2) that] .
  ultimately show "ordered cmp (xs @ (m, j) # ys)" using a(1) by (simp add: ordered_def sorted_wrt_append)
qed

lemma ordered_unique: "ordered cmp xs \<Longrightarrow> (m, j) \<in> set xs \<Longrightarrow> (n, k) \<in> set xs \<Longrightarrow> cmp j k = 0 \<Longrightarrow> (m, j) = (n, k)"
proof (induction xs)
  case (Cons p xs)
  have o: "\<forall>q \<in> set xs. cmp (snd p) (snd q) < 0" using Cons.prems(1) by (simp add: ordered_def)
  show ?case
  proof (cases "(m, j) \<in> set xs")
    case mj: True
    show ?thesis
    proof (cases "(n, k) \<in> set xs")
      case False
      then have "cmp k j < 0" using o mj Cons.prems(3) by auto
      then show ?thesis using Cons.prems(4) zero_sym [of j k] by simp
    qed (use mj Cons in \<open>auto simp: ordered_def\<close>)
  next
    case False
    then have p: "p = (m, j)" using Cons.prems(2) by simp
    then show ?thesis using o Cons.prems(3,4) by auto
  qed
qed simp

lemma locate_present:
  assumes "ordered cmp (ino t)" "(n, k) \<in> set (ino t)" "cmp key k = 0"
  shows "\<exists>c l b r. locate cmp key [] t = (c, Node l (n, k, b) r) \<and> t = plug c (Node l (n, k, b) r)"
proof -
  obtain c u where cu: "locate cmp key [] t = (c, u)" by (cases "locate cmp key [] t") auto
  show ?thesis
  proof (cases u)
    case Leaf
    then show ?thesis using locate_absent(3) [OF assms(1), of key c] cu assms(2,3) zero_sym [of key k] by auto
  next
    case (Node l e r)
    obtain x j b where e: "e = (x, j, b)" by (cases e) auto
    have f: "cmp key j = 0" "(x, j) \<in> set (ino t)" using locate_found [of cmp key "[]" t c l x j b r] cu by (auto simp: Node e)
    have "cmp k j = 0" using zero_trans [of k key j] f(1) assms(3) zero_sym [of k key] by simp
    then have "(n, k) = (x, j)" using ordered_unique [OF assms(1,2) f(2)] by simp
    then show ?thesis using cu plug_locate [OF cu] by (auto simp: Node e)
  qed
qed

text \<open>A key that is not in the tree has an empty place, and a node with that key is outside the tree.\<close>

lemma locate_fresh:
  assumes "\<forall>(m, j) \<in> set (ino t). cmp j k \<noteq> 0"
  shows "\<exists>c. locate cmp k [] t = (c, Leaf)"
    and "shape root h t \<Longrightarrow> tfree z root h n k \<Longrightarrow> n \<notin> addrs t"
proof -
  obtain c u where cu: "locate cmp k [] t = (c, u)" by (cases "locate cmp k [] t") auto
  have "u = Leaf"
  proof (cases u)
    case (Node l e r)
    obtain x j m where "e = (x, j, m)" by (cases e) auto
    then have "cmp k j = 0" "(x, j) \<in> set (ino t)" using locate_found [of cmp k "[]" t c l x j m r] cu Node by auto
    then show ?thesis using assms zero_sym [of k j] by auto
  qed simp
  then show "\<exists>c. locate cmp k [] t = (c, Leaf)" using cu by blast
next
  assume s: "shape root h t" and f: "tfree z root h n k"
  show "n \<notin> addrs t"
  proof
    assume "n \<in> addrs t"
    then obtain j where j: "(n, j) \<in> set (ino t)" by (force simp flip: set_ino)
    then have "j = k" using ino_info [OF s j] f by (auto simp: info_def tfree_def)
    then show False using j assms cmp_refl by blast
  qed
qed

end

end
