(* ===== verification/Avl.thy ===== *)
theory Avl
  imports TreeState
begin

text \<open>
  AVL trees (include/cat/avl.h).  A node's tag is its balance \<open>b\<close>, the height of its right subtree
  less that of its left one.  A tree is named by the address of its pseudo-node \<open>root\<close>, and the heap
  holds that node and all others.
\<close>

section \<open>The operations\<close>

type_synonym 'k aheap = "('k, int) theap"

definition avl_ninit :: "taddr \<Rightarrow> 'k \<Rightarrow> 'k aheap \<Rightarrow> 'k aheap outcome" where
  "avl_ninit n k h = abort_unless (n \<noteq> 0)
     (tset n (\<lambda>n. n\<lparr>tn_p := (tn_p n)(CL := 0, CP := 0, CR := 0), tn_dir := CP, tn_tag := 0, tn_key := k\<rparr>) h)"

definition avl_init :: "taddr \<Rightarrow> 'k \<Rightarrow> 'k aheap \<Rightarrow> 'k aheap outcome" where
  "avl_init root null h = obind (avl_ninit root null h) (tset root (\<lambda>n. n\<lparr>tn_dir := CP\<rparr>))"

definition avl_lkup :: "('k \<Rightarrow> 'k \<Rightarrow> int) \<Rightarrow> taddr \<Rightarrow> 'k \<Rightarrow> 'k aheap \<Rightarrow> taddr run" where
  "avl_lkup cmp root key h = rbind (t_findloc cmp root key h) (\<lambda>(p, d). ret (if d = CN then p else 0))"

definition avl_rleft :: "taddr \<Rightarrow> taddr \<Rightarrow> bool \<Rightarrow> 'k aheap \<Rightarrow> 'k aheap outcome" where
  "avl_rleft n1 n2 ins h =
     abort_unless (n1 \<noteq> 0) (abort_unless (n2 \<noteq> 0)
       (obind (t_rot False n1 n2 h) (\<lambda>h. obind (tget h n2) (\<lambda>n.
          if ins \<or> tn_tag n > 0 then obind (t_tag n1 (\<lambda>_. 0) h) (t_tag n2 (\<lambda>_. 0))
          else obind (t_tag n1 (\<lambda>_. 1) h) (t_tag n2 (\<lambda>_. -1))))))"

definition avl_rright :: "taddr \<Rightarrow> taddr \<Rightarrow> bool \<Rightarrow> 'k aheap \<Rightarrow> 'k aheap outcome" where
  "avl_rright n1 n2 ins h =
     abort_unless (n1 \<noteq> 0) (abort_unless (n2 \<noteq> 0)
       (obind (t_rot True n1 n2 h) (\<lambda>h. obind (tget h n2) (\<lambda>n.
          if ins \<or> tn_tag n < 0 then obind (t_tag n1 (\<lambda>_. 0) h) (t_tag n2 (\<lambda>_. 0))
          else obind (t_tag n1 (\<lambda>_. -1) h) (t_tag n2 (\<lambda>_. 1))))))"

definition avl_zleft :: "taddr \<Rightarrow> taddr \<Rightarrow> taddr \<Rightarrow> 'k aheap \<Rightarrow> 'k aheap outcome" where
  "avl_zleft n1 n2 n3 h =
     abort_unless (n1 \<noteq> 0) (abort_unless (n2 \<noteq> 0) (abort_unless (n3 \<noteq> 0)
       (obind (t_zrot False n1 n2 n3 h) (\<lambda>h. obind (tget h n3) (\<lambda>n.
          obind (if tn_tag n = -1 then obind (t_tag n1 (\<lambda>_. 0) h) (t_tag n2 (\<lambda>_. 1))
                 else if tn_tag n = 0 then obind (t_tag n1 (\<lambda>_. 0) h) (t_tag n2 (\<lambda>_. 0))
                 else if tn_tag n = 1 then obind (t_tag n1 (\<lambda>_. -1) h) (t_tag n2 (\<lambda>_. 0))
                 else Ok h) (t_tag n3 (\<lambda>_. 0)))))))"

definition avl_zright :: "taddr \<Rightarrow> taddr \<Rightarrow> taddr \<Rightarrow> 'k aheap \<Rightarrow> 'k aheap outcome" where
  "avl_zright n1 n2 n3 h =
     abort_unless (n1 \<noteq> 0) (abort_unless (n2 \<noteq> 0) (abort_unless (n3 \<noteq> 0)
       (obind (t_zrot True n1 n2 n3 h) (\<lambda>h. obind (tget h n3) (\<lambda>n.
          obind (if tn_tag n = -1 then obind (t_tag n1 (\<lambda>_. 1) h) (t_tag n2 (\<lambda>_. 0))
                 else if tn_tag n = 0 then obind (t_tag n1 (\<lambda>_. 0) h) (t_tag n2 (\<lambda>_. 0))
                 else if tn_tag n = 1 then obind (t_tag n1 (\<lambda>_. 0) h) (t_tag n2 (\<lambda>_. -1))
                 else Ok h) (t_tag n3 (\<lambda>_. 0)))))))"

text \<open>\<open>dval\<close> is \<open>dir - 1\<close>.\<close>

fun dval :: "tdir \<Rightarrow> int" where
  "dval CL = -1" | "dval CP = 0" | "dval CR = 1" | "dval CN = 2"

text \<open>The way up after an insertion.\<close>

partial_function (option) avl_up :: "'k aheap \<Rightarrow> taddr \<Rightarrow> 'k aheap run" where
  "avl_up h node =
     rbind (Some (tget h node)) (\<lambda>n.
       if tn_dir n = CP then ret h
       else
         rbind (Some (t_tag (tn_p n CP) (\<lambda>b. b + dval (tn_dir n)) h)) (\<lambda>h.
         rbind (Some (tget h (tn_p n CP))) (\<lambda>p.
           if tn_tag p = 0 then ret h
           else if tn_tag p < -1 then
             rbind (Some (tget h (tn_p p CL))) (\<lambda>t.
               if tn_tag t < 0 then Some (avl_rright (tn_p n CP) (tn_p p CL) True h)
               else Some (avl_zright (tn_p n CP) (tn_p p CL) (tn_p t CR) h))
           else if tn_tag p > 1 then
             rbind (Some (tget h (tn_p p CR))) (\<lambda>t.
               if tn_tag t > 0 then Some (avl_rleft (tn_p n CP) (tn_p p CR) True h)
               else Some (avl_zleft (tn_p n CP) (tn_p p CR) (tn_p t CL) h))
           else avl_up h (tn_p n CP))))"

definition avl_ins_at :: "taddr \<Rightarrow> taddr \<Rightarrow> tdir \<Rightarrow> 'k aheap \<Rightarrow> 'k aheap run" where
  "avl_ins_at node par d h =
     rbind (Some (abort_unless (node \<noteq> 0 \<and> par \<noteq> 0 \<and> d \<noteq> CN) (t_fix par node d h))) (\<lambda>h. avl_up h node)"

text \<open>\<open>loc\<close> is NULL or a place found before; the node returned is the one that was replaced, or NULL.\<close>

definition avl_ins :: "('k \<Rightarrow> 'k \<Rightarrow> int) \<Rightarrow> taddr \<Rightarrow> taddr \<Rightarrow> taddr \<Rightarrow> tdir \<Rightarrow> 'k aheap \<Rightarrow> ('k aheap \<times> taddr) run" where
  "avl_ins cmp root node loc atdir h =
     (if node = 0 then ret (h, 0)
      else
        rbind (Some (tget h node)) (\<lambda>n.
        rbind (if loc \<noteq> 0 then Some (abort_unless (atdir = CL \<or> atdir = CR \<or> atdir = CP \<and> loc = root) (Ok (loc, atdir)))
               else t_findloc cmp root (tn_key n) h) (\<lambda>(p, d).
          if d = CN then
            rbind (Some (t_replace p node h)) (\<lambda>h.
            rbind (Some (tset node (\<lambda>n. n\<lparr>tn_tree := root\<rparr>) h)) (\<lambda>h.
            rbind (Some (tset p (\<lambda>n. n\<lparr>tn_tree := 0\<rparr>) h)) (\<lambda>h.
            rbind (Some (tget h p)) (\<lambda>n.
            rbind (Some (avl_ninit p (tn_key n) h)) (\<lambda>h. ret (h, p))))))
          else
            rbind (avl_ins_at node p d h) (\<lambda>h.
            rbind (Some (tset node (\<lambda>n. n\<lparr>tn_tree := root\<rparr>) h)) (\<lambda>h. ret (h, 0))))))"

text \<open>
  The way up after a removal, from the node \<open>trav\<close> whose subtree in direction \<open>d\<close> has become lower.
\<close>

partial_function (option) avl_down :: "'k aheap \<Rightarrow> taddr \<Rightarrow> tdir \<Rightarrow> 'k aheap run" where
  "avl_down h trav d =
     (if d = CP then ret h
      else
        rbind (Some (t_tag trav (\<lambda>b. b - dval d) h)) (\<lambda>h.
        rbind (Some (tget h trav)) (\<lambda>n.
        rbind
          (if tn_tag n = 0 then ret (h, trav, True)
           else if tn_tag n < -1 then
             rbind (Some (tget h (tn_p n CL))) (\<lambda>t.
               if tn_tag t \<le> 0 then
                 rbind (Some (avl_rright trav (tn_p n CL) False h)) (\<lambda>h.
                 rbind (Some (tget h (tn_p n CL))) (\<lambda>t. ret (h, tn_p n CL, tn_tag t = 0)))
               else rbind (Some (avl_zright trav (tn_p n CL) (tn_p t CR) h)) (\<lambda>h. ret (h, tn_p t CR, True)))
           else if tn_tag n > 1 then
             rbind (Some (tget h (tn_p n CR))) (\<lambda>t.
               if tn_tag t \<ge> 0 then
                 rbind (Some (avl_rleft trav (tn_p n CR) False h)) (\<lambda>h.
                 rbind (Some (tget h (tn_p n CR))) (\<lambda>t. ret (h, tn_p n CR, tn_tag t = 0)))
               else rbind (Some (avl_zleft trav (tn_p n CR) (tn_p t CL) h)) (\<lambda>h. ret (h, tn_p t CL, True)))
           else ret (h, trav, False))
          (\<lambda>(h, trav, again).
             if \<not> again then ret h
             else rbind (Some (tget h trav)) (\<lambda>n. avl_down h (tn_p n CP) (tn_dir n))))))"

definition avl_rem :: "taddr \<Rightarrow> 'k aheap \<Rightarrow> 'k aheap run" where
  "avl_rem node h =
     rbind (Some (abort_unless (node \<noteq> 0) (tget h node))) (\<lambda>n.
       if tn_tree n = 0 then ret h
       else
         rbind (t_findrep node h) (\<lambda>rep.
         rbind
           (if rep \<noteq> 0 \<and> tn_p n CL \<noteq> rep \<and> tn_p n CR \<noteq> rep then
              rbind (Some (tget h rep)) (\<lambda>r.
              rbind (Some (t_fix (tn_p r CP) (tn_p r CL) (tn_dir r) h)) (\<lambda>h.
              rbind (Some (t_replace node rep h)) (\<lambda>h.
              rbind (Some (t_tag rep (\<lambda>_. tn_tag n) h)) (\<lambda>h. ret (h, tn_p r CP, tn_dir r)))))
            else
              rbind (Some (t_fix (tn_p n CP) rep (tn_dir n) h)) (\<lambda>h.
                if rep \<noteq> 0 \<and> tn_p n CL = rep then
                  rbind (Some (t_tag rep (\<lambda>_. tn_tag n) h)) (\<lambda>h.
                  rbind (Some (t_fix rep (tn_p n CR) CR h)) (\<lambda>h. ret (h, rep, CL)))
                else ret (h, tn_p n CP, tn_dir n)))
           (\<lambda>(h, trav, d).
             rbind (Some (tset node (\<lambda>n. n\<lparr>tn_p := (tn_p n)(CL := 0, CP := 0, CR := 0), tn_tree := 0, tn_dir := CP, tn_tag := 0\<rparr>) h))
               (\<lambda>h. avl_down h trav d))))"

section \<open>The rebalancing functions\<close>

definition sg :: "bool \<Rightarrow> int" where "sg lf = dval (sd lf)"

lemma sg_simps [simp]: "sg True = -1" "sg False = 1"
  by (simp_all add: sg_def)

definition rot_bal :: "bool \<Rightarrow> taddr \<Rightarrow> taddr \<Rightarrow> bool \<Rightarrow> 'k aheap \<Rightarrow> 'k aheap outcome" where
  "rot_bal lf = (if lf then avl_rright else avl_rleft)"

definition zrot_bal :: "bool \<Rightarrow> taddr \<Rightarrow> taddr \<Rightarrow> taddr \<Rightarrow> 'k aheap \<Rightarrow> 'k aheap outcome" where
  "zrot_bal lf = (if lf then avl_zright else avl_zleft)"

lemma rot_bal_ok:
  assumes "trep root h (plug ctx (sN lf (sN lf a (y, ky, by') c) (x, kx, bx) z))" "h 0 = None"
    and "b = (if ins \<or> sg lf * by' > 0 then 0 else sg lf)"
  shows "\<exists>h'. rot_bal lf x y ins h = Ok h' \<and>
    becomes root h (plug ctx (sN lf (sN lf a (y, ky, by') c) (x, kx, bx) z)) h' (plug ctx (sN lf a (y, ky, - b) (sN lf c (x, kx, b) z)))"
proof -
  obtain h1 where h1: "t_rot lf x y h = Ok h1"
    "becomes root h (plug ctx (sN lf (sN lf a (y, ky, by') c) (x, kx, bx) z)) h1 (plug ctx (sN lf a (y, ky, by') (sN lf c (x, kx, bx) z)))"
    using rot_becomes [OF assms(1,2)] by auto
  obtain n where n: "tget h1 y = Ok n" "tn_tag n = by'" "y \<noteq> 0" using trep_sN [OF becomesD(1) [OF h1(2)]] by metis
  have "trep root h1 (plug ((\<not> lf, (y, ky, by'), a) # ctx) (sN lf c (x, kx, bx) z))"
    using becomesD(1) [OF h1(2)] by (cases lf) (simp_all add: sN_def)
  from tag_becomes [OF this becomesD(3) [OF h1(2)], of "\<lambda>_. b"]
  obtain h2 where h2: "t_tag x (\<lambda>_. b) h1 = Ok h2"
    "becomes root h1 (plug ctx (sN lf a (y, ky, by') (sN lf c (x, kx, bx) z))) h2 (plug ctx (sN lf a (y, ky, by') (sN lf c (x, kx, b) z)))"
    by (cases lf) (auto simp: sN_def)
  from tag_becomes [OF becomesD(1,3) [OF h2(2)], of "\<lambda>_. - b"]
  obtain h3 where h3: "t_tag y (\<lambda>_. - b) h2 = Ok h3"
    "becomes root h2 (plug ctx (sN lf a (y, ky, by') (sN lf c (x, kx, b) z))) h3 (plug ctx (sN lf a (y, ky, - b) (sN lf c (x, kx, b) z)))"
    by blast
  have "x \<noteq> 0" using trep_node(1) [OF assms(1)] by simp
  then have "rot_bal lf x y ins h = Ok h3" using h1(1) n h2(1) h3(1) assms(3)
    by (cases lf) (auto simp: rot_bal_def avl_rright_def avl_rleft_def)
  then show ?thesis using becomes_trans [OF becomes_trans [OF h1(2) h2(2)] h3(2)] by blast
qed

lemma zrot_bal_ok:
  assumes "trep root h (plug ctx (sN lf (sN (\<not> lf) (sN lf b (w, kw, bw) c) (y, ky, by') a) (x, kx, bx) z))" "h 0 = None"
    and "\<bar>bw\<bar> \<le> 1"
  shows "\<exists>h'. zrot_bal lf x y w h = Ok h' \<and>
    becomes root h (plug ctx (sN lf (sN (\<not> lf) (sN lf b (w, kw, bw) c) (y, ky, by') a) (x, kx, bx) z)) h'
      (plug ctx (sN lf (sN lf a (y, ky, if bw = - sg lf then sg lf else 0) b) (w, kw, 0) (sN lf c (x, kx, if bw = sg lf then - sg lf else 0) z)))"
proof -
  let ?b2 = "if bw = - sg lf then sg lf else 0" and ?b1 = "if bw = sg lf then - sg lf else 0"
  let ?t = "plug ctx (sN lf (sN (\<not> lf) (sN lf b (w, kw, bw) c) (y, ky, by') a) (x, kx, bx) z)"
  let ?u = "\<lambda>b1 b2 b3. plug ctx (sN lf (sN lf a (y, ky, b2) b) (w, kw, b3) (sN lf c (x, kx, b1) z))"
  obtain h1 where h1: "t_zrot lf x y w h = Ok h1" "becomes root h ?t h1 (?u bx by' bw)"
    using zrot_becomes [OF assms(1,2)] by auto
  obtain n where n: "tget h1 w = Ok n" "tn_tag n = bw" "w \<noteq> 0" using trep_sN [OF becomesD(1) [OF h1(2)]] by metis
  have "trep root h1 (plug ((\<not> lf, (w, kw, bw), sN lf a (y, ky, by') b) # ctx) (sN lf c (x, kx, bx) z))"
    using becomesD(1) [OF h1(2)] by (cases lf) (simp_all add: sN_def)
  from tag_becomes [OF this becomesD(3) [OF h1(2)], of "\<lambda>_. ?b1"]
  obtain h2 where h2: "t_tag x (\<lambda>_. ?b1) h1 = Ok h2" "becomes root h1 (?u bx by' bw) h2 (?u ?b1 by' bw)"
    by (cases lf) (auto simp: sN_def)
  have "trep root h2 (plug ((lf, (w, kw, bw), sN lf c (x, kx, ?b1) z) # ctx) (sN lf a (y, ky, by') b))"
    using becomesD(1) [OF h2(2)] by simp
  from tag_becomes [OF this becomesD(3) [OF h2(2)], of "\<lambda>_. ?b2"]
  obtain h3 where h3: "t_tag y (\<lambda>_. ?b2) h2 = Ok h3" "becomes root h2 (?u ?b1 by' bw) h3 (?u ?b1 ?b2 bw)" by auto
  from tag_becomes [OF becomesD(1,3) [OF h3(2)], of "\<lambda>_. 0"]
  obtain h4 where h4: "t_tag w (\<lambda>_. 0) h3 = Ok h4" "becomes root h3 (?u ?b1 ?b2 bw) h4 (?u ?b1 ?b2 0)" by blast
  have "x \<noteq> 0" using trep_node(1) [OF assms(1)] by simp
  moreover have "y \<noteq> 0" using assms(1) by (auto simp: trep_def apart_plug apart_sN)
  moreover have "bw = -1 \<or> bw = 0 \<or> bw = 1" using assms(3) by auto
  ultimately have "zrot_bal lf x y w h = Ok h4" using h1(1) n h2(1) h3(1) h4(1)
    by (cases lf) (auto simp: zrot_bal_def avl_zright_def avl_zleft_def)
  then show ?thesis using becomes_trans [OF becomes_trans [OF becomes_trans [OF h1(2) h2(2)] h3(2)] h4(2)] by blast
qed

section \<open>Balance\<close>

abbreviation ht :: "'a tree \<Rightarrow> int" where "ht t \<equiv> int (height t)"

fun avl :: "('k, int) ttree \<Rightarrow> bool" where
  "avl Leaf \<longleftrightarrow> True"
| "avl (Node l (x, k, b) r) \<longleftrightarrow> b = ht r - ht l \<and> \<bar>b\<bar> \<le> 1 \<and> avl l \<and> avl r"

lemma avl_sN: "avl (sN lf t (x, k, b) s) \<longleftrightarrow> b = sg lf * (ht t - ht s) \<and> \<bar>b\<bar> \<le> 1 \<and> avl t \<and> avl s"
  by (cases lf) (auto simp: sN_def)

lemma ht_sN [simp]: "ht (sN lf t e s) = 1 + max (ht t) (ht s)"
  by (cases lf) (auto simp: sN_def)

text \<open>The balances on the way to a place whose subtree has height \<open>n\<close>.\<close>

fun cavl :: "('k, int) tctx \<Rightarrow> int \<Rightarrow> bool" where
  "cavl [] n \<longleftrightarrow> True"
| "cavl ((lf, (x, k, b), s) # c) n \<longleftrightarrow> b = sg lf * (n - ht s) \<and> \<bar>b\<bar> \<le> 1 \<and> avl s \<and> cavl c (1 + max n (ht s))"

lemma avl_plug: "avl (plug c t) \<longleftrightarrow> avl t \<and> cavl c (ht t)"
proof (induction c arbitrary: t)
  case (Cons f c)
  obtain lf x k b s where "f = (lf, (x, k, b), s)" by (cases f) auto
  then show ?case by (auto simp: Cons.IH avl_sN)
qed simp

definition tag :: "(taddr \<times> 'k \<times> int) tree \<Rightarrow> int" where
  "tag t = (case t of Leaf \<Rightarrow> 0 | Node l e r \<Rightarrow> snd (snd e))"

lemma tag_sN [simp]: "tag (sN lf t (x, k, b) s) = b"
  by (simp add: tag_def sN_def)

text \<open>
  A subtree two levels higher than its sibling: either its own higher side is the outer one and a
  single rotation helps, or it has an inner node and a double rotation helps.
\<close>

lemma heavy_cases:
  assumes "avl t" "ht t \<ge> 2"
  obtains a y ky by' c where "t = sN lf a (y, ky, by') c" "sg lf * by' \<ge> 0" "ht a = ht t - 1" "avl a" "avl c" "ht c = ht a - sg lf * by'" "0 \<le> sg lf * by'" "sg lf * by' \<le> 1"
  | a y ky by' b w kw bw c where "t = sN (\<not> lf) (sN lf b (w, kw, bw) c) (y, ky, by') a" "sg lf * by' < 0" "by' = - sg lf"
    "ht a = ht t - 2" "1 + max (ht b) (ht c) = ht t - 1" "bw = sg lf * (ht b - ht c)" "\<bar>bw\<bar> \<le> 1" "avl a" "avl b" "avl c"
proof -
  obtain a e c where t: "t = sN lf a e c" using assms(2) by (cases t; cases lf) (auto simp: sN_def)
  obtain y ky by' where e: "e = (y, ky, by')" by (cases e) auto
  have s: "sg lf * sg lf = 1" "sg lf = 1 \<or> sg lf = -1" by (cases lf; simp)+
  have h: "by' = sg lf * (ht a - ht c)" "\<bar>by'\<bar> \<le> 1" "avl a" "avl c" "ht t = 1 + max (ht a) (ht c)"
    using assms(1) by (auto simp: t e avl_sN)
  have m: "sg lf * by' = ht a - ht c" using h(1) s by auto
  show thesis
  proof (cases "sg lf * by' \<ge> 0")
    case True
    moreover have "sg lf * by' \<le> 1" using h(2) by (cases lf) auto
    moreover have "ht a = ht t - 1" "ht c = ht a - sg lf * by'" using h(5) m True by simp_all
    ultimately show ?thesis using h(3,4) t [unfolded e] True by (intro that(1) [of a y ky by' c])
  next
    case False
    then have hc: "ht c = ht a + 1" "by' = - sg lf" using m h(2) by (cases lf; auto)+
    then obtain b w kw bw d where c: "c = sN lf b (w, kw, bw) d" by (cases c; cases lf) (auto simp: sN_def)
    have "bw = sg lf * (ht b - ht d)" "\<bar>bw\<bar> \<le> 1" "avl b" "avl d" "ht c = 1 + max (ht b) (ht d)" using h(4) by (auto simp: c avl_sN)
    moreover have "t = sN (\<not> lf) (sN lf b (w, kw, bw) d) (y, ky, by') a" using t e c by (cases lf) (simp_all add: sN_def)
    ultimately show ?thesis using hc h False by (intro that(2) [of b w kw bw d y ky by' a]) simp_all
  qed
qed

lemma rebalanced_single:
  assumes "avl a" "avl c" "avl z" "ht c = ht a - sg lf * by'" "0 \<le> sg lf * by'" "sg lf * by' \<le> 1" "ht a = ht z + 1"
    and "b = (if sg lf * by' > 0 then 0 else sg lf)"
  shows "avl (sN lf a (y, ky, - b) (sN lf c (x, kx, b) z))" "ht (sN lf a (y, ky, - b) (sN lf c (x, kx, b) z)) = ht z + 2 + (if b = 0 then 0 else 1)"
proof -
  have "sg lf * by' = 0 \<or> sg lf * by' = 1" using assms(5,6) by linarith
  then show "avl (sN lf a (y, ky, - b) (sN lf c (x, kx, b) z))" "ht (sN lf a (y, ky, - b) (sN lf c (x, kx, b) z)) = ht z + 2 + (if b = 0 then 0 else 1)"
    using assms by (cases lf; auto simp: avl_sN)+
qed

lemma rebalanced_double:
  assumes "avl a" "avl b" "avl c" "avl z" "bw = sg lf * (ht b - ht c)" "\<bar>bw\<bar> \<le> 1" "max (ht b) (ht c) = ht z" "ht a = ht z"
  shows "avl (sN lf (sN lf a (y, ky, if bw = - sg lf then sg lf else 0) b) (w, kw, 0) (sN lf c (x, kx, if bw = sg lf then - sg lf else 0) z))"
    "ht (sN lf (sN lf a (y, ky, if bw = - sg lf then sg lf else 0) b) (w, kw, 0) (sN lf c (x, kx, if bw = sg lf then - sg lf else 0) z)) = ht z + 2"
  using assms by (cases lf; auto simp: avl_sN max_def split: if_splits)+

section \<open>Insertion\<close>

lemma t_child:
  assumes "trep root h (plug c t)" "t \<noteq> Leaf"
  obtains n where "tget h (rt t) = Ok n" "tn_p n CP = cpar root c" "tn_dir n = cdir c" "tn_tag n = snd (snd (case t of Node l e r \<Rightarrow> e))"
  using assms by (cases t) (auto elim!: trep_Node)

lemma avl_up_eq:
  assumes "tget h node = Ok n" "tn_dir n = sd lf" "tn_p n CP = x" "t_tag x (\<lambda>b. b + sg lf) h = Ok h1" "tget h1 x = Ok p" "\<bar>tn_tag p\<bar> \<le> 1 \<or> sg lf * tn_tag p = 2"
  shows "avl_up h node =
    (if tn_tag p = 0 then ret h1
     else if sg lf * tn_tag p = 2 then
       rbind (Some (tget h1 (tn_p p (sd lf)))) (\<lambda>t.
         if sg lf * tn_tag t > 0 then Some (rot_bal lf x (tn_p p (sd lf)) True h1)
         else Some (zrot_bal lf x (tn_p p (sd lf)) (tn_p t (sd (\<not> lf))) h1))
     else avl_up h1 x)"
  using assms by (cases lf; subst avl_up.simps) (auto simp: rot_bal_def zrot_bal_def cong: if_cong)

lemma avl_up_ok:
  assumes "trep root h (plug c t)" "h 0 = None" "t \<noteq> Leaf" "avl t" "cavl c (ht t - 1)" "tag t \<noteq> 0 \<or> ht t = 1"
  shows "\<exists>h' t'. avl_up h (rt t) = ret h' \<and> becomes root h (plug c t) h' t' \<and> avl t'"
  using assms
proof (induction c arbitrary: h t)
  case Nil
  obtain n where "tget h (rt t) = Ok n" "tn_dir n = CP" using t_child [OF Nil(1,3)] by auto
  then have "avl_up h (rt t) = ret h" by (subst avl_up.simps) simp
  then show ?case using Nil becomes_refl by fastforce
next
  case (Cons f c)
  obtain lf x k b s where f: "f = (lf, (x, k, b), s)" by (cases f) auto
  have tr: "trep root h (plug c (sN lf t (x, k, b) s))" using Cons.prems(1) by (simp add: f)
  have bs: "b = sg lf * (ht t - 1 - ht s)" "\<bar>b\<bar> \<le> 1" "avl s" and cv: "cavl c (1 + max (ht t - 1) (ht s))"
    using Cons.prems(5) by (auto simp: f)
  obtain n where n: "tget h (rt t) = Ok n" "tn_p n CP = x" "tn_dir n = sd lf" using t_child [OF Cons.prems(1,3)] by (auto simp: f)
  define B where "B = b + sg lf"
  obtain h1 where h1: "t_tag x (\<lambda>b. b + sg lf) h = Ok h1"
    "becomes root h (plug c (sN lf t (x, k, b) s)) h1 (plug c (sN lf t (x, k, B) s))"
    using tag_becomes [OF tr Cons.prems(2)] B_def by blast
  note tr1 = becomesD(1) [OF h1(2)] and z1 = becomesD(3) [OF h1(2)]
  obtain p where p: "tget h1 x = Ok p" "tn_tag p = B" "tn_p p (sd lf) = rt t" using trep_sN [OF tr1] by metis
  have B: "B = sg lf * (ht t - ht s)" using bs(1) by (simp add: B_def algebra_simps)
  have D: "ht t - ht s = 0 \<or> ht t - ht s = 1 \<or> ht t - ht s = 2" using bs(1,2) by (cases lf) auto
  have BB: "\<bar>B\<bar> \<le> 1 \<or> sg lf * B = 2" "B = 0 \<longleftrightarrow> ht t = ht s" "sg lf * B = ht t - ht s" using D B by (cases lf; auto)+
  note eq = avl_up_eq [OF n(1,3,2) h1(1) p(1), unfolded p(2,3), OF BB(1)]
  consider "ht t = ht s" | "ht t = ht s + 1" | "ht t = ht s + 2" using D by linarith
  then show ?case
  proof cases
    case 1
    then have "avl (plug c (sN lf t (x, k, B) s))" using cv Cons.prems(4) bs B by (simp add: avl_plug avl_sN)
    moreover have "avl_up h (rt t) = ret h1" using eq BB(2) 1 by simp
    ultimately show ?thesis using h1(2) by (auto simp: f)
  next
    case 2
    have "avl (sN lf t (x, k, B) s)" "tag (sN lf t (x, k, B) s) \<noteq> 0 \<or> ht (sN lf t (x, k, B) s) = 1" "cavl c (ht (sN lf t (x, k, B) s) - 1)"
      using 2 cv Cons.prems(4) bs B by (cases lf; simp add: avl_sN)+
    then obtain h' t' where "avl_up h1 x = ret h'" "becomes root h1 (plug c (sN lf t (x, k, B) s)) h' t'" "avl t'"
      using Cons.IH [OF tr1 z1] by (auto simp: sN_def split: if_splits)
    moreover have "avl_up h (rt t) = avl_up h1 x" using eq BB(2,3) 2 by simp
    ultimately show ?thesis using becomes_trans [OF h1(2)] by (auto simp: f)
  next
    case 3
    then have t2: "ht t \<ge> 2" by simp
    have up: "avl_up h (rt t) = rbind (Some (tget h1 (rt t))) (\<lambda>t'.
         if sg lf * tn_tag t' > 0 then Some (rot_bal lf x (rt t) True h1) else Some (zrot_bal lf x (rt t) (tn_p t' (sd (\<not> lf))) h1))"
      using eq BB(2,3) 3 by simp
    from Cons.prems(4) t2 show ?thesis
    proof (cases rule: heavy_cases [where lf = lf])
      case (1 a y ky by' d)
      have b1: "sg lf * by' = 1" using 1(1,7,8) Cons.prems(6) t2 by (cases lf) auto
      have tr2: "trep root h1 (plug ((lf, (x, k, B), s) # c) (sN lf a (y, ky, by') d))" using tr1 1(1) by simp
      obtain m where m: "tget h1 y = Ok m" "tn_tag m = by'" using trep_sN [OF tr2] by metis
      obtain h2 where h2: "rot_bal lf x y True h1 = Ok h2"
        "becomes root h1 (plug c (sN lf t (x, k, B) s)) h2 (plug c (sN lf a (y, ky, - 0) (sN lf d (x, k, 0) s)))"
        using rot_bal_ok [OF tr1 [unfolded 1(1)] z1, of 0 True] 1(1) by auto
      have "avl (sN lf a (y, ky, - 0) (sN lf d (x, k, 0) s))" "ht (sN lf a (y, ky, - 0) (sN lf d (x, k, 0) s)) = ht s + 2"
        using rebalanced_single [OF 1(4,5) bs(3) 1(6,7,8), of 0] 1(3) 3 b1 by (simp_all del: ht_sN)
      then have "avl (plug c (sN lf a (y, ky, - 0) (sN lf d (x, k, 0) s)))" using cv 3 unfolding avl_plug by (simp add: add.commute del: ht_sN)
      moreover have "avl_up h (rt t) = ret h2" using up m b1 h2(1) 1(1) by simp
      ultimately show ?thesis using becomes_trans [OF h1(2) h2(2)] by (auto simp: f)
    next
      case (2 a y ky by' b' w kw bw d)
      have tr2: "trep root h1 (plug ((lf, (x, k, B), s) # c) (sN (\<not> lf) (sN lf b' (w, kw, bw) d) (y, ky, by') a))" using tr1 2(1) by simp
      obtain m where m: "tget h1 y = Ok m" "tn_tag m = by'" "tn_p m (sd (\<not> lf)) = w" using trep_sN [OF tr2] by (metis rt_sN fst_conv)
      let ?u = "sN lf (sN lf a (y, ky, if bw = - sg lf then sg lf else 0) b') (w, kw, 0) (sN lf d (x, k, if bw = sg lf then - sg lf else 0) s)"
      obtain h2 where h2: "zrot_bal lf x y w h1 = Ok h2" "becomes root h1 (plug c (sN lf t (x, k, B) s)) h2 (plug c ?u)"
        using zrot_bal_ok [OF tr1 [unfolded 2(1)] z1 2(7)] 2(1) by auto
      have "avl ?u" "ht ?u = ht s + 2" using rebalanced_double [OF 2(8,9,10) bs(3) 2(6,7)] 2(4,5) 3 by (simp_all del: ht_sN)
      then have "avl (plug c ?u)" using cv 3 unfolding avl_plug by (simp add: add.commute del: ht_sN)
      moreover have "avl_up h (rt t) = ret h2" using up m h2(1) 2(1,2) by simp
      ultimately show ?thesis using becomes_trans [OF h1(2) h2(2)] by (auto simp: f)
    qed
  qed
qed

section \<open>Removal\<close>

definition go_on :: "'k aheap \<times> taddr \<times> bool \<Rightarrow> 'k aheap run" where
  "go_on r = (case r of (h, trav, again) \<Rightarrow>
     if \<not> again then ret h else rbind (Some (tget h trav)) (\<lambda>n. avl_down h (tn_p n CP) (tn_dir n)))"

lemma avl_down_eq:
  assumes "t_tag x (\<lambda>b. b - sg lf) h = Ok h1" "tget h1 x = Ok p" "\<bar>tn_tag p\<bar> \<le> 1 \<or> sg (\<not> lf) * tn_tag p = 2"
  shows "avl_down h x (sd lf) =
    (if tn_tag p = 0 then go_on (h1, x, True)
     else if sg (\<not> lf) * tn_tag p = 2 then
       rbind (Some (tget h1 (tn_p p (sd (\<not> lf))))) (\<lambda>t.
         if sg (\<not> lf) * tn_tag t \<ge> 0 then
           rbind (Some (rot_bal (\<not> lf) x (tn_p p (sd (\<not> lf))) False h1)) (\<lambda>h.
           rbind (Some (tget h (tn_p p (sd (\<not> lf))))) (\<lambda>t. go_on (h, tn_p p (sd (\<not> lf)), tn_tag t = 0)))
         else rbind (Some (zrot_bal (\<not> lf) x (tn_p p (sd (\<not> lf))) (tn_p t (sd lf)) h1)) (\<lambda>h. go_on (h, tn_p t (sd lf), True)))
     else ret h1)"
proof -
  have bind: "rbind (rbind m f) g = rbind m (\<lambda>x. rbind (f x) g)" for m :: "'x run" and f :: "'x \<Rightarrow> 'y run" and g :: "'y \<Rightarrow> 'z run"
    by (cases m; cases "the m") auto
  have if_bind: "rbind (if b then m else n) g = (if b then rbind m g else rbind n g)" for b and m n :: "'y run" and g :: "'y \<Rightarrow> 'z run" by simp
  show ?thesis using assms by (cases lf; subst avl_down.simps)
      (auto simp: rot_bal_def zrot_bal_def go_on_def bind if_bind cong: if_cong)
qed

lemma avl_down_ok:
  assumes "trep root h (plug c t)" "h 0 = None" "avl t" "cavl c (ht t + 1)"
  shows "\<exists>h' t'. avl_down h (cpar root c) (cdir c) = ret h' \<and> becomes root h (plug c t) h' t' \<and> avl t'"
  using assms
proof (induction c arbitrary: h t)
  case Nil
  then show ?case using becomes_refl by (subst avl_down.simps) fastforce
next
  case (Cons f c)
  obtain lf x k b s where f: "f = (lf, (x, k, b), s)" by (cases f) auto
  let ?g = "\<not> lf"
  have sw: "sN lf u e v = sN ?g v e u" for u v :: "('a, int) ttree" and e by (cases lf) (simp_all add: sN_def)
  have tr: "trep root h (plug c (sN lf t (x, k, b) s))" using Cons.prems(1) by (simp add: f)
  have bs: "b = sg lf * (ht t + 1 - ht s)" "\<bar>b\<bar> \<le> 1" "avl s" and cv: "cavl c (1 + max (ht t + 1) (ht s))"
    using Cons.prems(4) by (auto simp: f)
  define B where "B = b - sg lf"
  let ?T1 = "plug c (sN lf t (x, k, B) s)"
  obtain h1 where h1: "t_tag x (\<lambda>b. b - sg lf) h = Ok h1" "becomes root h (plug c (sN lf t (x, k, b) s)) h1 ?T1"
    using tag_becomes [OF tr Cons.prems(2)] B_def by blast
  note tr1 = becomesD(1) [OF h1(2)] and z1 = becomesD(3) [OF h1(2)]
  obtain p where p: "tget h1 x = Ok p" "tn_tag p = B" "tn_p p (sd ?g) = rt s" using trep_sN [OF tr1] by metis
  have B: "B = sg lf * (ht t - ht s)" using bs(1) by (simp add: B_def algebra_simps)
  have D: "ht t - ht s = 0 \<or> ht t - ht s = -1 \<or> ht t - ht s = -2" using bs(1,2) by (cases lf) auto
  have BB: "\<bar>B\<bar> \<le> 1 \<or> sg ?g * B = 2" "B = 0 \<longleftrightarrow> ht t = ht s" "sg ?g * B = ht s - ht t" using D B by (cases lf; auto)+
  have tag: "tn_tag p = B" "tn_p p (sd ?g) = rt s" using p by simp_all
  note eq = avl_down_eq [OF h1(1) p(1), unfolded p(2,3), OF BB(1)]
  have up: "\<exists>h' t'. go_on (h2, fst e, True) = ret h' \<and> becomes root h (plug c (sN lf t (x, k, b) s)) h' t' \<and> avl t'"
    if b2: "becomes root h1 ?T1 h2 (plug c (sN lf' u e v))" and av: "avl (sN lf' u e v)" "ht (sN lf' u e v) = max (ht t + 1) (ht s)" for h2 lf' u e v
  proof -
    note tr2 = becomesD(1) [OF b2]
    obtain y ky m where e: "e = (y, ky, m)" by (cases e) auto
    obtain n where n: "tget h2 y = Ok n" "tn_p n CP = cpar root c" "tn_dir n = cdir c" using trep_sN [OF tr2 [unfolded e]] by metis
    have "cavl c (ht (sN lf' u e v) + 1)" using cv unfolding av(2) by (simp add: add.commute)
    then obtain h' t' where "avl_down h2 (cpar root c) (cdir c) = ret h'" "becomes root h2 (plug c (sN lf' u e v)) h' t'" "avl t'"
      using Cons.IH [OF tr2 becomesD(3) [OF b2] av(1)] by blast
    then show ?thesis using n becomes_trans [OF becomes_trans [OF h1(2) b2]] by (auto simp: go_on_def e)
  qed
  consider "ht t = ht s" | "ht s = ht t + 1" | "ht s = ht t + 2" using D by linarith
  then show ?case
  proof cases
    case 1
    have "avl (sN lf t (x, k, B) s)" "ht (sN lf t (x, k, B) s) = max (ht t + 1) (ht s)" using 1 Cons.prems(3) bs B by (simp_all add: avl_sN)
    from up [OF becomes_refl [OF tr1 z1] this] show ?thesis using eq BB(2) 1 by (simp add: f)
  next
    case 2
    have "avl ?T1" using 2 cv Cons.prems(3) bs B by (cases lf) (simp_all add: avl_plug avl_sN)
    moreover have "avl_down h x (sd lf) = ret h1" using eq BB(2,3) 2 by simp
    ultimately show ?thesis using h1(2) by (auto simp: f)
  next
    case 3
    then have s2: "ht s \<ge> 2" by simp
    let ?e = "(x, k, B)"
    have dn: "avl_down h x (sd lf) = rbind (Some (tget h1 (rt s))) (\<lambda>t.
         if sg ?g * tn_tag t \<ge> 0 then
           rbind (Some (rot_bal ?g x (rt s) False h1)) (\<lambda>h.
           rbind (Some (tget h (rt s))) (\<lambda>t. go_on (h, rt s, tn_tag t = 0)))
         else rbind (Some (zrot_bal ?g x (rt s) (tn_p t (sd lf)) h1)) (\<lambda>h. go_on (h, tn_p t (sd lf), True)))"
      using eq BB(2,3) 3 by simp
    have T1: "?T1 = plug c (sN ?g s ?e t)" by (simp only: sw)
    note tr1' = tr1 [unfolded T1]
    from bs(3) s2 show ?thesis
    proof (cases rule: heavy_cases [where lf = ?g])
      case (1 a y ky by' d)
      have tr2: "trep root h1 (plug ((?g, ?e, t) # c) (sN ?g a (y, ky, by') d))" using tr1' 1(1) by simp
      obtain m where m: "tget h1 y = Ok m" "tn_tag m = by'" using trep_sN [OF tr2] by metis
      define b2 where "b2 = (if sg ?g * by' > 0 then 0 else sg ?g)"
      let ?u = "sN ?g a (y, ky, - b2) (sN ?g d (x, k, b2) t)"
      obtain h2 where h2: "rot_bal ?g x y False h1 = Ok h2" "becomes root h1 ?T1 h2 (plug c ?u)"
        using rot_bal_ok [OF tr1' [unfolded 1(1)] z1, of b2 False] 1(1) b2_def T1 by auto
      obtain m2 where m2: "tget h2 y = Ok m2" "tn_tag m2 = - b2" using trep_sN [OF becomesD(1) [OF h2(2)]] by metis
      have u: "avl ?u" "ht ?u = ht t + 2 + (if b2 = 0 then 0 else 1)"
        using rebalanced_single [OF 1(4,5) Cons.prems(3) 1(6,7,8) _ b2_def] 1(3) 3 by (simp_all del: ht_sN)
      have dn2: "avl_down h x (sd lf) = go_on (h2, y, b2 = 0)" using dn m m2 h2(1) 1(1,2) by simp
      show ?thesis
      proof (cases "b2 = 0")
        case True
        from up [OF h2(2) u(1)] u(2) True 3 dn2 show ?thesis by (simp add: f del: ht_sN)
      next
        case False
        then have "avl (plug c ?u)" using cv 3 u unfolding avl_plug by (simp add: add.commute del: ht_sN)
        then show ?thesis using False dn2 becomes_trans [OF h1(2) h2(2)] by (auto simp: f go_on_def)
      qed
    next
      case (2 a y ky by' b' w kw bw d)
      have tr2: "trep root h1 (plug ((?g, ?e, t) # c) (sN (\<not> ?g) (sN ?g b' (w, kw, bw) d) (y, ky, by') a))" using tr1' 2(1) by simp
      obtain m where m: "tget h1 y = Ok m" "tn_tag m = by'" "tn_p m (sd (\<not> ?g)) = w" using trep_sN [OF tr2] by (metis rt_sN fst_conv)
      let ?u = "sN ?g (sN ?g a (y, ky, if bw = - sg ?g then sg ?g else 0) b') (w, kw, 0) (sN ?g d (x, k, if bw = sg ?g then - sg ?g else 0) t)"
      obtain h2 where h2: "zrot_bal ?g x y w h1 = Ok h2" "becomes root h1 ?T1 h2 (plug c ?u)"
        using zrot_bal_ok [OF tr1' [unfolded 2(1)] z1 2(7)] 2(1) T1 by auto
      have u: "avl ?u" "ht ?u = ht t + 2" using rebalanced_double [OF 2(8,9,10) Cons.prems(3) 2(6,7)] 2(4,5) 3 by (simp_all del: ht_sN)
      have "avl_down h x (sd lf) = go_on (h2, w, True)" using dn m h2(1) 2(1,2) by simp
      then show ?thesis using up [OF h2(2) u(1)] u(2) 3 by (simp add: f del: ht_sN)
    qed
  qed
qed

end
