(* ===== verification/TreeTable.thy ===== *)
theory TreeTable
  imports TreeState NodeTable
begin

text \<open>
  What the search trees promise their callers, stated once.  The locale \<open>tree_table\<close> has the laws of
  a search tree in terms of the order of its nodes, and shows that such a tree is a table in the sense
  of \<open>dictionary\<close>; the AVL trees, the splay trees and the
  red-black trees are its instances.
\<close>

text \<open>The heap holds a tree in a good state, of the nodes and keys \<open>E\<close>.\<close>

definition holds :: "(('k, 'm) theap \<Rightarrow> ('k, 'm) ttree \<Rightarrow> bool) \<Rightarrow> ('k, 'm) theap \<Rightarrow> (taddr \<times> 'k) set \<Rightarrow> bool" where
  "holds state h E \<longleftrightarrow> (\<exists>t. state h t \<and> E = set (ino t))"

lemma holds_state: "state h t \<Longrightarrow> holds state h (set (ino t))"
  by (auto simp: holds_def)

definition non_null :: "taddr \<Rightarrow> taddr option" where
  "non_null a = (if a = 0 then None else Some a)"

locale tree_table = cmp_order cmp for cmp :: "'k \<Rightarrow> 'k \<Rightarrow> int" +
  fixes root :: taddr and z :: 'm and state :: "('k, 'm) theap \<Rightarrow> ('k, 'm) ttree \<Rightarrow> bool"
    and find :: "'k \<Rightarrow> ('k, 'm) theap \<Rightarrow> taddr run"
    and ins :: "taddr \<Rightarrow> ('k, 'm) theap \<Rightarrow> (('k, 'm) theap \<times> taddr) run"
    and rem :: "taddr \<Rightarrow> ('k, 'm) theap \<Rightarrow> ('k, 'm) theap run"
  assumes state_trep: "state h t \<Longrightarrow> trep root h t"
    and state_ordered: "state h t \<Longrightarrow> ordered cmp (ino t)"
    and find_node: "state h t \<Longrightarrow> find k h = ret (rt (snd (locate cmp k [] t)))"
    and ins_new: "state h t \<Longrightarrow> tfree z root h n k \<Longrightarrow> \<forall>(m, j) \<in> set (ino t). cmp j k \<noteq> 0
      \<Longrightarrow> \<exists>h' t' xs ys. ins n h = ret (h', 0) \<and> state h' t' \<and> ino t = xs @ ys \<and> ino t' = xs @ (n, k) # ys"
    and rem_node: "state h t \<Longrightarrow> (n, k) \<in> set (ino t)
      \<Longrightarrow> \<exists>h' t' xs ys. rem n h = ret h' \<and> state h' t' \<and> ino t = xs @ (n, k) # ys \<and> ino t' = xs @ ys \<and> tfree z root h' n k"
begin

lemma located:
  assumes "state h t"
  shows "rt (snd (locate cmp k [] t)) = 0 \<Longrightarrow> \<forall>(m, j) \<in> set (ino t). cmp j k \<noteq> 0"
    and "rt (snd (locate cmp k [] t)) \<noteq> 0 \<Longrightarrow> \<exists>j. (rt (snd (locate cmp k [] t)), j) \<in> set (ino t) \<and> cmp j k = 0"
proof -
  obtain c u where cu: "locate cmp k [] t = (c, u)" by (cases "locate cmp k [] t") auto
  have *: "(rt u = 0 \<longrightarrow> (\<forall>(m, j) \<in> set (ino t). cmp j k \<noteq> 0)) \<and> (rt u \<noteq> 0 \<longrightarrow> (\<exists>j. (rt u, j) \<in> set (ino t) \<and> cmp j k = 0))"
  proof (cases u)
    case Leaf
    then show ?thesis using locate_absent(3) [OF state_ordered [OF assms], of k c] by (auto simp: cu)
  next
    case (Node l e r)
    obtain x j m where e: "e = (x, j, m)" by (cases e) auto
    have f: "cmp k j = 0" "(x, j) \<in> set (ino t)" using locate_found [of cmp k "[]" t c l x j m r] cu Node e by auto
    have "x \<noteq> 0" using f(2) state_trep [OF assms] by (force simp: trep_def apart_def simp flip: set_ino)
    then show ?thesis using Node e f zero_sym [of k j] by auto
  qed
  show "rt (snd (locate cmp k [] t)) = 0 \<Longrightarrow> \<forall>(m, j) \<in> set (ino t). cmp j k \<noteq> 0" using * by (simp add: cu)
  show "rt (snd (locate cmp k [] t)) \<noteq> 0 \<Longrightarrow> \<exists>j. (rt (snd (locate cmp k [] t)), j) \<in> set (ino t) \<and> cmp j k = 0" using * by (simp add: cu)
qed

lemma holds_find:
  assumes "holds state h E"
  shows "\<exists>r. rbind (find k h) (\<lambda>a. ret (non_null a)) = ret r
    \<and> (case r of Some n \<Rightarrow> \<exists>j. (n, j) \<in> E \<and> cmp j k = 0 | None \<Rightarrow> \<forall>(m, j) \<in> E. cmp j k \<noteq> 0)"
proof -
  obtain t where t: "state h t" "E = set (ino t)" using assms by (auto simp: holds_def)
  show ?thesis using located [OF t(1), of k]
    by (cases "rt (snd (locate cmp k [] t)) = 0") (simp_all add: find_node [OF t(1)] t(2) non_null_def)
qed

lemma holds_ins:
  assumes "holds state h E" "tfree z root h n k" "\<forall>(m, j) \<in> E. cmp j k \<noteq> 0"
  shows "\<exists>h'. ins n h = ret (h', 0) \<and> holds state h' (insert (n, k) E)"
proof -
  obtain t where t: "state h t" "E = set (ino t)" using assms(1) by (auto simp: holds_def)
  obtain h' t' xs ys where h': "ins n h = ret (h', 0)" "state h' t'" "ino t = xs @ ys" "ino t' = xs @ (n, k) # ys"
    using ins_new [OF t(1) assms(2)] assms(3) t(2) by blast
  have "insert (n, k) E = set (ino t')" using h'(3,4) t(2) by auto
  then show ?thesis using h'(1,2) by (auto simp: holds_def)
qed

lemma holds_rem:
  assumes "holds state h E" "(n, k) \<in> E"
  shows "\<exists>h'. rem n h = ret h' \<and> holds state h' (E - {(n, k)}) \<and> tfree z root h' n k"
proof -
  obtain t where t: "state h t" "E = set (ino t)" using assms(1) by (auto simp: holds_def)
  obtain h' t' xs ys where h': "rem n h = ret h'" "state h' t'" "ino t = xs @ (n, k) # ys" "ino t' = xs @ ys" "tfree z root h' n k"
    using rem_node [OF t(1)] assms(2) t(2) by blast
  have "distinct (map fst (xs @ (n, k) # ys))" using state_trep [OF t(1)] h'(3) by (simp add: trep_def apart_def)
  then have "n \<notin> fst ` set (xs @ ys)" by auto
  then have "(n, k) \<notin> set (xs @ ys)" by force
  then have "E - {(n, k)} = set (ino t')" unfolding h'(3,4) t(2) by auto
  then show ?thesis using h'(1,2,5) by (auto simp: holds_def)
qed

lemma holds_fun: "holds state h E \<Longrightarrow> (n, j) \<in> E \<Longrightarrow> (n, k) \<in> E \<Longrightarrow> j = k"
proof -
  assume a: "holds state h E" "(n, j) \<in> E" "(n, k) \<in> E"
  then obtain t where t: "state h t" "E = set (ino t)" by (auto simp: holds_def)
  have "shape root h t" using state_trep [OF t(1)] by (simp add: trep_def)
  then show ?thesis using ino_info [of root h t n j] ino_info [of root h t n k] a(2,3) t(2) by auto
qed

lemma holds_unique: "holds state h E \<Longrightarrow> \<forall>(n, j) \<in> E. \<forall>(m, k) \<in> E. cmp j k = 0 \<longrightarrow> n = m"
  using ordered_unique state_ordered by (fastforce simp: holds_def)

end

sublocale tree_table \<subseteq> table: dictionary "holds state" "tfree z root" "\<lambda>j k. cmp j k = 0"
  "\<lambda>k h. rbind (find k h) (\<lambda>a. ret (non_null a))" "\<lambda>n h. rbind (ins n h) (\<lambda>(h, r). ret h)" rem
proof unfold_locales
  fix h E n k
  assume "holds state h E" "tfree z root h n k" "\<forall>(m, j) \<in> E. cmp j k \<noteq> 0"
  from holds_ins [OF this]
  show "\<exists>s'. rbind (ins n h) (\<lambda>(h, r). ret h) = ret s' \<and> holds state s' (insert (n, k) E)" by auto
next
  fix j k assume "cmp j k = 0"
  then show "cmp k j = 0" by (rule zero_sym [THEN iffD1])
qed (fact holds_find holds_rem holds_fun cmp_refl zero_trans)+

context tree_table
begin

lemma find_table: "rbind (find k h) (\<lambda>a. ret (non_null a)) = ret r \<Longrightarrow> find k h = ret (case r of None \<Rightarrow> 0 | Some n \<Rightarrow> n)"
  by (cases "find k h"; cases "the (find k h)") (auto simp: non_null_def split: if_splits)

text \<open>A node that went in is found under its key, every other lookup is as before, and taking it out again restores the table.\<close>

lemma insert_find_rem:
  assumes "holds state h E" "tfree z root h n k" "\<forall>(m, j) \<in> E. cmp j k \<noteq> 0"
  shows "\<exists>h' h''. ins n h = ret (h', 0) \<and> holds state h' (insert (n, k) E)
    \<and> (\<forall>i. cmp k i = 0 \<longrightarrow> find i h' = ret n) \<and> (\<forall>m j. (m, j) \<in> E \<longrightarrow> find j h' = ret m)
    \<and> rem n h' = ret h'' \<and> holds state h'' E \<and> find k h'' = ret 0"
proof -
  have u: "table.unique E" using holds_unique [OF assms(1)] by (simp add: table.unique_def)
  obtain h' h'' where h': "rbind (ins n h) (\<lambda>(h, r). ret h) = ret h'" "holds state h' (insert (n, k) E)"
    "\<forall>i. cmp k i = 0 \<longrightarrow> rbind (find i h') (\<lambda>a. ret (non_null a)) = ret (Some n)"
    "\<forall>m j. (m, j) \<in> E \<longrightarrow> rbind (find j h') (\<lambda>a. ret (non_null a)) = ret (Some m)"
    "rem n h' = ret h''" "holds state h'' E" "rbind (find k h'') (\<lambda>a. ret (non_null a)) = ret None"
    using table.insert_find_remove [OF assms(1) u assms(2,3)] by blast
  have "ins n h = ret (h', 0)" using holds_ins [OF assms] h'(1) by auto
  then show ?thesis using h'(2-7) find_table [of _ h'] find_table [OF h'(7)] by fastforce
qed

end

text \<open>A node written out, for concrete trees.\<close>

definition tn :: "taddr \<Rightarrow> taddr \<Rightarrow> taddr \<Rightarrow> tdir \<Rightarrow> 'm \<Rightarrow> taddr \<Rightarrow> 'k \<Rightarrow> ('k, 'm) tnode" where
  "tn l p r d b tr k = \<lparr>tn_p = (\<lambda>_. 0)(CL := l, CP := p, CR := r), tn_dir = d, tn_tag = b, tn_tree = tr, tn_key = k\<rparr>"

end
