(* ===== verification/AvlTable.thy ===== *)
theory AvlTable
  imports Avl TreeTable CString
begin

text \<open>
  Insertion into and removal from an AVL tree as a whole: the state \<open>avl_state\<close>, the table it
  implements (an instance of the locale \<open>tree_table\<close>), and what the code promises to its callers.
\<close>

section \<open>Insertion\<close>

definition avl_state :: "('k \<Rightarrow> 'k \<Rightarrow> int) \<Rightarrow> taddr \<Rightarrow> 'k aheap \<Rightarrow> ('k, int) ttree \<Rightarrow> bool" where
  "avl_state cmp root h t \<longleftrightarrow> trep root h t \<and> avl t \<and> ordered cmp (ino t) \<and> owned root h t"

lemma avl_ins_new:
  assumes "avl_state cmp root h t" "tfree 0 root h n k" "locate cmp k [] t = (c, Leaf)" "n \<notin> addrs t"
    and "ordered cmp (cleft c @ (n, k) # cright c)"
  shows "\<exists>h' t'. avl_ins cmp root n 0 CP h = ret (h', 0) \<and> avl_state cmp root h' t' \<and> ino t' = cleft c @ (n, k) # cright c
    \<and> (\<forall>y. y \<notin> insert n (insert root (addrs t)) \<longrightarrow> h' y = h y)"
proof -
  let ?u = "Node Leaf (n, k, 0) Leaf :: ('a, int) ttree"
  have a: "trep root h t" "avl t" "h 0 = None" "\<forall>x \<in> addrs t. owner h x = Some root" using assms(1) by (auto simp: avl_state_def owned_def)
  have t: "plug c Leaf = t" using plug_locate [OF assms(3)] by simp
  have inoU: "ino (plug c ?u) = cleft c @ (n, k) # cright c" by (simp add: ino_plug_lr)
  obtain h1 where h1: "t_fix (cpar root c) n (cdir c) h = Ok h1" "trep root h1 (plug c ?u)" "h1 0 = None" "owner h1 = owner h"
    "\<forall>y. y \<notin> insert n (insert root (addrs t)) \<longrightarrow> h1 y = h y"
    using new_leaf [of root h c 0 n k] a(1,3) assms(2,4) unfolding t by blast
  have "cavl c (ht ?u - 1)" using a(2) avl_plug [of c Leaf] by (simp add: t)
  then obtain h2 t' where h2: "avl_up h1 n = ret h2" "becomes root h1 (plug c ?u) h2 t'" "avl t'"
    using avl_up_ok [OF h1(2,3)] by auto
  obtain m where m: "h n = Some m" "tn_key m = k" "n \<noteq> 0" using assms(2) by (auto simp: tfree_def)
  have "owner h2 n \<noteq> None" using becomes_owned [OF h2(2)] h1(4) m(1) by (simp add: owner_def)
  then obtain h3 where h3: "tset n (\<lambda>n. n\<lparr>tn_tree := root\<rparr>) h2 = Ok h3" "links h3 = links h2" "info h3 = info h2"
    "owner h3 = (owner h2)(n \<mapsto> root)" "\<forall>y. y \<noteq> n \<longrightarrow> h3 y = h2 y" using t_owner_effect [of h2 n root] by (auto simp: owner_def)
  have ino': "ino t' = cleft c @ (n, k) # cright c" using becomesD(2) [OF h2(2)] inoU by simp
  have ad: "addrs t' = insert n (addrs t)" "addrs (plug c ?u) = insert n (addrs t)"
    using addrs_ino [OF becomesD(2) [OF h2(2)]] by (auto simp: addrs_plug simp flip: t)
  have "cdir c \<noteq> CN" "cpar root c \<noteq> 0" using a(1) cpar_nz by (auto simp flip: t simp: trep_plug apart_plug)
  then have "avl_ins cmp root n 0 CP h = ret (h3, 0)"
    using m h1(1) h2(1) h3(1) findloc_ok [OF a(1), of cmp k] assms(3) by (simp add: avl_ins_def avl_ins_at_def tget_def)
  moreover have "trep root h3 t'" using trep_links [OF h3(2,3)] becomesD(1) [OF h2(2)] by simp
  moreover have "h3 0 = None" using h3(5) m(3) becomesD(3) [OF h2(2)] by simp
  moreover have "\<forall>x \<in> addrs t'. owner h3 x = Some root" using a(4) h1(4) h3(4) becomes_owned [OF h2(2)] by (auto simp: ad)
  moreover have "h3 y = h y" if "y \<notin> insert n (insert root (addrs t))" for y
    using that h3(5) becomesD(4) [OF h2(2)] h1(5) by (auto simp: within_def ad)
  ultimately show ?thesis using h2(3) ino' assms(5) by (auto simp: avl_state_def owned_def)
qed

section \<open>Removal\<close>

text \<open>
  Taking a node out.  \<open>unlinked\<close> is the state after the pointers are put right: the node \<open>n\<close> is out
  of the tree, and the subtree in the place \<open>c\<close> is one lower than it was.
\<close>

definition unlinked :: "taddr \<Rightarrow> 'k aheap \<Rightarrow> ('k, int) ttree \<Rightarrow> (taddr \<times> 'k) list \<Rightarrow> 'k aheap \<Rightarrow> ('k, int) tctx \<Rightarrow> ('k, int) ttree \<Rightarrow> bool" where
  "unlinked root h t ps h' c u \<longleftrightarrow> trep root h' (plug c u) \<and> avl u \<and> cavl c (ht u + 1) \<and> ino (plug c u) = ps
     \<and> within (insert root (addrs t)) h h' \<and> key_of h' = key_of h"

text \<open>The node has no left child.\<close>

lemma unlink_right:
  assumes "trep root h (plug c (Node Leaf (n, k, b) r))" "avl (plug c (Node Leaf (n, k, b) r))" "h 0 = None"
  shows "\<exists>h'. t_fix (cpar root c) (rt r) (cdir c) h = Ok h' \<and> unlinked root h (plug c (Node Leaf (n, k, b) r)) (cleft c @ ino r @ cright c) h' c r"
proof -
  have s: "cshape root h c" "shape root h r" and ap: "apart root (plug c (Node Leaf (n, k, b) r))" using assms(1) by (auto simp: trep_plug)
  obtain h' where h: "t_fix (cpar root c) (rt r) (cdir c) h = Ok h'" "trep root h' (plug c r)" "within (insert root (addrs (plug c r))) h h'" "info h' = info h"
    using graft_within [OF s apart_part(2) [OF ap] root_dom [OF assms(1)] assms(3)] by blast
  have "avl r" "cavl c (ht r + 1)" using assms(2) by (simp_all add: avl_plug add.commute)
  moreover have "within (insert root (addrs (plug c (Node Leaf (n, k, b) r)))) h h'" by (rule within_mono [OF h(3)]) (auto simp: addrs_plug)
  ultimately show ?thesis using h(1,2) key_of_info(1) [OF h(4)] by (simp add: unlinked_def ino_plug_lr)
qed

text \<open>The left child takes its place.\<close>

lemma unlink_child:
  assumes "trep root h (plug c (Node (Node u (y, ky, by') Leaf) (n, k, b) r))" "avl (plug c (Node (Node u (y, ky, by') Leaf) (n, k, b) r))" "h 0 = None"
  shows "\<exists>h1 h2 h3. t_fix (cpar root c) y (cdir c) h = Ok h1 \<and> t_tag y (\<lambda>_. b) h1 = Ok h2 \<and> t_fix y (rt r) CR h2 = Ok h3
    \<and> unlinked root h (plug c (Node (Node u (y, ky, by') Leaf) (n, k, b) r)) (cleft c @ ino u @ (y, ky) # ino r @ cright c) h3 ((True, (y, ky, b), r) # c) u"
proof -
  let ?l = "Node u (y, ky, by') Leaf" and ?T = "plug c (Node (Node u (y, ky, by') Leaf) (n, k, b) r)" and ?C = "(False, (y, ky, b), u) # c"
  have s: "cshape root h c" "shape root h ?l" "shape root h r" and ap: "apart root ?T" using assms(1) by (auto simp: trep_plug)
  note ap' = apart_part [OF ap]
  obtain h1 where h1: "t_fix (cpar root c) y (cdir c) h = Ok h1" "trep root h1 (plug c ?l)" "within (insert root (addrs (plug c ?l))) h h1"
    "\<forall>t. shape root h t \<and> cpar root c \<notin> addrs t \<and> y \<notin> addrs t \<longrightarrow> shape root h1 t" "info h1 = info h"
    using graft_within [OF s(1,2) ap'(1) root_dom [OF assms(1)] assms(3)] by auto
  have r1: "shape root h1 r" using h1(4) s(3) ap'(3,7) by auto
  have z1: "h1 0 = None" using h1(3) assms(3) ap'(1) by (auto simp: within_def apart_def)
  obtain h2 where h2: "t_tag y (\<lambda>_. b) h1 = Ok h2" "becomes root h1 (plug c ?l) h2 (plug c (Node u (y, ky, b) Leaf))"
    using tag_becomes [of root h1 c False Leaf y ky by' u "\<lambda>_. b"] h1(2) z1 by (auto simp: sN_False)
  obtain m where m: "info h1 y = Some (ky, m)" using h1(2) by (auto simp: trep_plug)
  then obtain h2' where h2': "t_tag y (\<lambda>_. b) h1 = Ok h2'" "info h2' = (info h1)(y \<mapsto> (ky, b))" "\<forall>p d c. edge root h1 p d c \<longrightarrow> edge root h2' p d c"
    using t_tag_effect [OF m, of "\<lambda>_. b"] by blast
  have eq: "h2' = h2" using h2(1) h2'(1) by simp
  have r2: "shape root h2 r" using shape_keep [OF r1 _ h2'(3)] h2'(2) ap'(3) by (auto simp: eq)
  have t2: "trep root h2 (plug ?C Leaf)" using becomesD(1) [OF h2(2)] by (simp add: sN_def)
  have ap2: "apart root (plug ?C r)" using ap unfolding apart_plug apart_Node apart_sN by (auto simp: apart_sN apart_Node)
  obtain h3 where h3: "t_fix y (rt r) CR h2 = Ok h3" "trep root h3 (plug ?C r)" "within (insert root (addrs (plug ?C r))) h2 h3" "info h3 = info h2"
    using graft_within [OF _ r2 ap2 root_dom [OF t2] becomesD(3) [OF h2(2)]] t2 by (auto simp: trep_plug)
  have "within (insert root (addrs ?T)) h h2" by (rule within_trans [OF h1(3) becomesD(4) [OF h2(2)]]) (auto simp: addrs_plug)
  then have "within (insert root (addrs ?T)) h h3" by (rule within_trans [OF _ h3(3)]) (auto simp: addrs_plug)
  moreover have "plug ((True, (y, ky, b), r) # c) u = plug ?C r" by (simp add: sN_def)
  moreover have "avl u" "cavl ((True, (y, ky, b), r) # c) (ht u + 1)" using assms(2) by (auto simp: avl_plug max_def split: if_splits)
  moreover have "key_of h3 = key_of h"
    using key_of_info(1) [OF h3(4)] key_of_info(3) [OF m h2'(2)] key_of_info(1) [OF h1(5)] by (simp add: eq)
  ultimately show ?thesis using h1(1) h2(1) h3(1,2) by (auto simp: unlinked_def ino_plug_lr sN_def)
qed

text \<open>The greatest node on the left takes its place.\<close>

lemma unlink_deep:
  assumes "trep root h (plug c (Node l (n, k, b) r))" "avl (plug c (Node l (n, k, b) r))" "h 0 = None"
    and l: "l = plug c' (Node u (y, ky, by') Leaf)" "c' \<noteq> []" "cright c' = []"
  shows "\<exists>h1 h2 h3 m. tget h y = Ok m \<and> t_fix (tn_p m CP) (tn_p m CL) (tn_dir m) h = Ok h1 \<and> t_replace n y h1 = Ok h2 \<and> t_tag y (\<lambda>_. b) h2 = Ok h3
    \<and> tn_p m CP = cpar root (c' @ (True, (y, ky, b), r) # c) \<and> tn_dir m = cdir (c' @ (True, (y, ky, b), r) # c)
    \<and> unlinked root h (plug c (Node l (n, k, b) r)) (cleft c @ ino l @ ino r @ cright c) h3 (c' @ (True, (y, ky, b), r) # c) u"
proof -
  let ?T = "plug c (Node l (n, k, b) r)" and ?C = "c' @ (True, (n, k, b), r) # c" and ?D = "c' @ (True, (y, ky, b), r) # c"
  let ?u = "plug c' u"
  have T: "?T = plug ?C (Node u (y, ky, by') Leaf)" by (simp add: l(1) plug_append sN_def)
  note tr = assms(1) [unfolded T]
  obtain m where m: "tget h y = Ok m" "tn_p m CL = rt u" "tn_p m CP = cpar root ?C" "tn_dir m = cdir ?C" using trep_Node [OF tr] by auto
  have s: "cshape root h ?C" "shape root h u" and ap: "apart root (plug ?C (Node u (y, ky, by') Leaf))" using tr by (auto simp: trep_plug)
  note ap' = apart_part [OF ap]
  obtain h1 where h1: "t_fix (cpar root ?C) (rt u) (cdir ?C) h = Ok h1" "trep root h1 (plug ?C u)" "within (insert root (addrs (plug ?C u))) h h1" "info h1 = info h"
    using graft_within [OF s ap'(1) root_dom [OF tr] assms(3)] by blast
  have z1: "h1 0 = None" using h1(3) assms(3) ap'(1) by (auto simp: within_def apart_def)
  have t1: "trep root h1 (plug c (Node ?u (n, k, b) r))" using h1(2) by (simp add: plug_append sN_def)
  have y: "info h1 y = Some (ky, by')" using tr h1(4) by (auto simp: trep_plug)
  have ny: "y \<notin> addrs (plug c (Node ?u (n, k, b) r))" "y \<noteq> root"
    using ap'(8,9,10) by (auto simp: addrs_plug caddrs_append)
  obtain h2 where h2: "t_replace n y h1 = Ok h2" "trep root h2 (plug c (Node ?u (y, ky, by') r))"
    "within (insert y (insert root (addrs (plug c (Node ?u (n, k, b) r))))) h1 h2" "info h2 = info h1"
    using t_replace_ok [OF t1 z1 y ny] by auto
  have "0 \<notin> insert y (insert root (addrs (plug c (Node ?u (n, k, b) r))))" using trep_sN [OF h2(2) [unfolded sN_True]] t1 by (auto simp: trep_def apart_def)
  then have z2: "h2 0 = None" using h2(3) z1 by (simp add: within_def)
  obtain h3 where h3: "t_tag y (\<lambda>_. b) h2 = Ok h3" "becomes root h2 (plug c (Node ?u (y, ky, by') r)) h3 (plug c (Node ?u (y, ky, b) r))"
    using tag_becomes [of root h2 c True ?u y ky by' r "\<lambda>_. b"] h2(2) z2 by (auto simp: sN_True)
  have D: "plug ?D u = plug c (Node ?u (y, ky, b) r)" by (simp add: plug_append sN_def)
  have "avl (plug ?D (Node u (y, ky, by') Leaf))"
    using assms(2) by (auto simp add: plug_append sN_def avl_plug simp flip: l(1))
  then have av: "avl u" "cavl ?D (ht u + 1)" by (simp_all add: avl_plug add.commute)
  have i: "ino (plug ?D u) = cleft c @ ino l @ ino r @ cright c" unfolding D l(1) by (simp add: ino_plug_lr l(3))
  have "within (insert root (addrs ?T)) h h2"
    by (rule within_trans [OF h1(3) h2(3)]) (auto simp: addrs_plug plug_append l(1))
  then have "within (insert root (addrs ?T)) h h3"
    by (rule within_trans [OF _ becomesD(4) [OF h3(2)]]) (auto simp: addrs_plug plug_append l(1))
  moreover have "key_of h3 = key_of h"
    using t_tag_effect [of h2 y ky by' "\<lambda>_. b"] h3(1) y h2(4) key_of_info(3) [of h2 y ky by' h3 b]
      key_of_info(1) [OF h2(4)] key_of_info(1) [OF h1(4)] by auto
  ultimately have "unlinked root h ?T (cleft c @ ino l @ ino r @ cright c) h3 ?D u"
    using becomesD(1) [OF h3(2)] av i D by (simp add: unlinked_def)
  moreover have "cpar root ?C = cpar root ?D" "cdir ?C = cdir ?D"
    using cpar_append(1) [OF l(2), of root _ root] cpar_append(2) [OF l(2)] by metis+
  ultimately show ?thesis using m h1(1) h2(1) h3(1) by auto
qed

definition rem_node :: "taddr \<Rightarrow> 'k aheap \<Rightarrow> 'k aheap outcome" where
  "rem_node node h = tset node (\<lambda>n. n\<lparr>tn_p := (tn_p n)(CL := 0, CP := 0, CR := 0), tn_tree := 0, tn_dir := CP, tn_tag := 0\<rparr>) h"

text \<open>From the unlinked state to the end of the call.\<close>

lemma rem_finish:
  assumes u: "unlinked root h t ps h1 c u" and h0: "h 0 = None" and own: "\<forall>x \<in> addrs t. owner h x = Some root"
    and n: "key_of h n = Some k" "n \<notin> fst ` set ps" "n \<noteq> root" "n \<noteq> 0" "n \<in> addrs t" and o: "ordered cmp ps"
    and ps: "fst ` set ps \<subseteq> addrs t" and t0: "0 \<notin> insert root (addrs t)"
  shows "\<exists>h' t'. rbind (Some (rem_node n h1)) (\<lambda>h. avl_down h (cpar root c) (cdir c)) = ret h' \<and> avl_state cmp root h' t'
    \<and> ino t' = ps \<and> tfree 0 root h' n k \<and> owner h' n = Some 0 \<and> (\<forall>y. y \<notin> insert root (addrs t) \<longrightarrow> h' y = h y)"
proof -
  have u': "trep root h1 (plug c u)" "avl u" "cavl c (ht u + 1)" "ino (plug c u) = ps" "owner h1 = owner h" "\<forall>y. y \<notin> insert root (addrs t) \<longrightarrow> h1 y = h y"
    "key_of h1 n = Some k" using u n(1) by (auto simp: unlinked_def within_def)
  have ad: "addrs (plug c u) = fst ` set ps" using u'(4) set_ino by metis
  obtain m where m: "h1 n = Some m" "tn_key m = k" using u'(7) by (auto simp: info_def key_of_def)
  let ?m = "m\<lparr>tn_p := (tn_p m)(CL := 0, CP := 0, CR := 0), tn_tree := 0, tn_dir := CP, tn_tag := 0\<rparr>"
  let ?h = "h1(n \<mapsto> ?m)"
  have r: "rem_node n h1 = Ok ?h" using m by (simp add: rem_node_def tset_def)
  have tr: "trep root ?h (plug c u)" by (rule trep_off [OF u'(1)]) (use n ad in auto)
  have z: "?h 0 = None" using u'(6) h0 t0 n(4) by simp
  obtain h' t' where d: "avl_down ?h (cpar root c) (cdir c) = ret h'" "becomes root ?h (plug c u) h' t'" "avl t'"
    using avl_down_ok [OF tr z u'(2,3)] by blast
  have w: "\<forall>y. y \<notin> insert root (fst ` set ps) \<longrightarrow> h' y = ?h y" using becomesD(4) [OF d(2)] ad by (simp add: within_def)
  have i: "ino t' = ps" using becomesD(2) [OF d(2)] u'(4) by simp
  have "h' n = Some ?m" using w n by simp
  then have f: "tfree 0 root h' n k" "owner h' n = Some 0" using m n by (simp_all add: tfree_def owner_def)
  have "owner h' x = Some root" if "x \<in> addrs t'" for x
  proof -
    have x: "x \<in> fst ` set ps" using that i set_ino by metis
    then have "owner ?h x = owner h1 x" using n(2) by (auto simp: owner_def)
    then show ?thesis using x ps own u'(5) becomes_owned [OF d(2)] by auto
  qed
  then have "avl_state cmp root h' t'" using becomesD(1,3) [OF d(2)] d(3) o i by (simp add: avl_state_def owned_def)
  moreover have "h' y = h y" if y: "y \<notin> insert root (addrs t)" for y
  proof -
    have "y \<notin> insert root (fst ` set ps)" "y \<noteq> n" using y ps n(5) by auto
    then show ?thesis using w u'(6) y by simp
  qed
  ultimately show ?thesis using r d(1) i f by auto
qed

lemma avl_rem_ok:
  assumes "avl_state cmp root h t" "t = plug c (Node l (n, k, b) r)"
  shows "\<exists>h' t'. avl_rem n h = ret h' \<and> avl_state cmp root h' t' \<and> ino t' = cleft c @ ino l @ ino r @ cright c
    \<and> tfree 0 root h' n k \<and> owner h' n = Some 0 \<and> (\<forall>y. y \<notin> insert root (addrs t) \<longrightarrow> h' y = h y)"
proof -
  let ?ps = "cleft c @ ino l @ ino r @ cright c"
  have a: "trep root h t" "avl t" "ordered cmp (ino t)" "h 0 = None" "\<forall>x \<in> addrs t. owner h x = Some root"
    using assms(1) by (auto simp: avl_state_def owned_def)
  note tr = a(1) [unfolded assms(2)]
  have it: "ino t = cleft c @ ino l @ (n, k) # ino r @ cright c" by (simp add: assms(2) ino_plug_lr)
  have ap: "apart root t" using a(1) by (simp add: trep_def)
  have n: "n \<notin> fst ` set ?ps" "n \<noteq> root" "n \<noteq> 0" "n \<in> addrs t" "fst ` set ?ps \<subseteq> addrs t" "0 \<notin> insert root (addrs t)" "root \<noteq> 0"
    using ap unfolding apart_def it by (auto simp flip: set_ino simp: it)
  have o: "ordered cmp ?ps" using a(3) unfolding it by (auto simp: ordered_def sorted_wrt_append)
  have key: "key_of h n = Some k" using tr by (auto simp: trep_plug key_of_def)
  obtain m where m: "tget h n = Ok m" "tn_key m = k" "tn_tag m = b" "tn_p m CL = rt l" "tn_p m CR = rt r" "tn_p m CP = cpar root c" "tn_dir m = cdir c"
    using trep_Node [OF tr] by auto
  have own: "tn_tree m = root" using a(5) n(4) m(1) by (auto simp: owner_def tget_def split: option.splits)
  have fin: "\<exists>h' t'. rbind (Some (rem_node n h1)) (\<lambda>h. avl_down h (cpar root c') (cdir c')) = ret h' \<and> avl_state cmp root h' t'
      \<and> ino t' = ?ps \<and> tfree 0 root h' n k \<and> owner h' n = Some 0 \<and> (\<forall>y. y \<notin> insert root (addrs t) \<longrightarrow> h' y = h y)"
    if "unlinked root h t ?ps h1 c' u" for h1 c' u
    using rem_finish [OF that(1) a(4,5) key n(1,2,3,4) o n(5,6)] by blast
  have al: "apart root l" "apart root r" "addrs l \<inter> addrs r = {}" "n \<notin> addrs l" using apart_part [OF ap [unfolded assms(2)]] by auto
  have z: "rt l = 0 \<longleftrightarrow> l = Leaf" using al(1) rt_cases [of l] by (auto simp: apart_def)
  show ?thesis
  proof (cases "l = Leaf")
    case True
    obtain h1 where h1: "t_fix (cpar root c) (rt r) (cdir c) h = Ok h1" "unlinked root h t ?ps h1 c r"
      using unlink_right [of root h c n k b r] tr a(2,4) True assms(2) by auto
    have "avl_rem n h = rbind (Some (rem_node n h1)) (\<lambda>h. avl_down h (cpar root c) (cdir c))"
      using m own n(3,7) True h1(1) by (auto simp: avl_rem_def t_findrep_def rem_node_def)
    then show ?thesis using fin [OF h1(2)] by simp
  next
    case False
    have sl: "shape root h l" using tr by (simp add: trep_plug)
    obtain c' y ky by' u where l: "l = plug c' (Node u (y, ky, by') Leaf)" "\<forall>f \<in> set c'. fst f = False" "t_last CR h (rt l) = ret y"
      using t_last_ok [OF sl False, of False] by (auto simp: sN_def)
    have cr: "cright c' = []" using l(2) by (induction c' rule: cright.induct) auto
    have yl: "y \<in> addrs l" by (simp add: l(1) addrs_plug)
    have y: "y \<noteq> 0" "y \<noteq> rt r" "y \<noteq> n" using yl al rt_cases [of r] by (auto simp: apart_def)
    have rep: "t_findrep n h = ret y" using m n(3) z False l(3) by (simp add: t_findrep_def)
    show ?thesis
    proof (cases "c' = []")
      case True
      then have ly: "l = Node u (y, ky, by') Leaf" by (simp add: l(1))
      obtain h1 h2 h3 where h: "t_fix (cpar root c) y (cdir c) h = Ok h1" "t_tag y (\<lambda>_. b) h1 = Ok h2" "t_fix y (rt r) CR h2 = Ok h3"
        "unlinked root h t ?ps h3 ((True, (y, ky, b), r) # c) u"
        using unlink_child [of root h c u y ky by' n k b r] tr a(2,4) assms(2) by (auto simp: ly)
      have "avl_rem n h = rbind (Some (rem_node n h3)) (\<lambda>h. avl_down h (cpar root ((True, (y, ky, b), r) # c)) (cdir ((True, (y, ky, b), r) # c)))"
        using m own n(3,7) rep y(1) h(1-3) by (simp add: avl_rem_def rem_node_def ly)
      then show ?thesis using fin [OF h(4)] by simp
    next
      case deep: False
      have "y \<notin> caddrs c'" using al(1) by (auto simp: l(1) apart_plug)
      then have ry: "rt l \<noteq> y" using rt_plug_in [OF deep, of "Node u (y, ky, by') Leaf"] by (auto simp: l(1))
      obtain h1 h2 h3 p where h: "tget h y = Ok p" "t_fix (tn_p p CP) (tn_p p CL) (tn_dir p) h = Ok h1" "t_replace n y h1 = Ok h2" "t_tag y (\<lambda>_. b) h2 = Ok h3"
        "tn_p p CP = cpar root (c' @ (True, (y, ky, b), r) # c)" "tn_dir p = cdir (c' @ (True, (y, ky, b), r) # c)"
        "unlinked root h t ?ps h3 (c' @ (True, (y, ky, b), r) # c) u"
        using unlink_deep [OF tr a(2) [unfolded assms(2)] a(4) l(1) deep cr] assms(2) by auto
      have "avl_rem n h = rbind (Some (rem_node n h3)) (\<lambda>h. avl_down h (cpar root (c' @ (True, (y, ky, b), r) # c)) (cdir (c' @ (True, (y, ky, b), r) # c)))"
        using m own n(3,7) rep y(1,2) ry h(1-6) by (simp add: avl_rem_def rem_node_def)
      then show ?thesis using fin [OF h(7)] by simp
    qed
  qed
qed

section \<open>The tree as a table\<close>

lemma avl_lkup_ok:
  assumes "trep root h t"
  shows "avl_lkup cmp root key h = ret (rt (snd (locate cmp key [] t)))"
  by (cases "locate cmp key [] t"; cases "snd (locate cmp key [] t)") (auto simp: avl_lkup_def findloc_ok [OF assms])

context cmp_order
begin

lemma avl_insert:
  assumes "avl_state cmp root h t" "tfree 0 root h n k" "\<forall>(m, j) \<in> set (ino t). cmp j k \<noteq> 0"
  shows "\<exists>h' t' xs ys. avl_ins cmp root n 0 CP h = ret (h', 0) \<and> avl_state cmp root h' t'
    \<and> ino t = xs @ ys \<and> ino t' = xs @ (n, k) # ys \<and> (\<forall>y. y \<notin> insert n (insert root (addrs t)) \<longrightarrow> h' y = h y)"
proof -
  have tr: "shape root h t" "ordered cmp (ino t)" using assms(1) by (auto simp: avl_state_def trep_def)
  obtain c where c: "locate cmp k [] t = (c, Leaf)" using locate_fresh(1) [OF assms(3)] by blast
  show ?thesis
    using avl_ins_new [OF assms(1,2) c locate_fresh(2) [OF assms(3) tr(1) assms(2)] locate_absent(2) [OF tr(2) c]] locate_absent(1) [OF tr(2) c]
    by blast
qed

lemma avl_remove:
  assumes "avl_state cmp root h t" "(n, k) \<in> set (ino t)"
  shows "\<exists>h' t' xs ys. avl_rem n h = ret h' \<and> avl_state cmp root h' t' \<and> ino t = xs @ (n, k) # ys \<and> ino t' = xs @ ys
    \<and> tfree 0 root h' n k \<and> owner h' n = Some 0 \<and> (\<forall>y. y \<notin> insert root (addrs t) \<longrightarrow> h' y = h y)"
proof -
  obtain c l b r where s: "t = plug c (Node l (n, k, b) r)" using ino_split [OF assms(2)] by auto
  have i: "ino t = (cleft c @ ino l) @ (n, k) # ino r @ cright c" by (simp add: s ino_plug_lr)
  obtain h' t' where "avl_rem n h = ret h'" "avl_state cmp root h' t'" "ino t' = (cleft c @ ino l) @ ino r @ cright c"
    "tfree 0 root h' n k" "owner h' n = Some 0" "\<forall>y. y \<notin> insert root (addrs t) \<longrightarrow> h' y = h y"
    using avl_rem_ok [OF assms(1) s] by auto
  then show ?thesis using i by blast
qed

end

text \<open>AVL trees keep the contract of a search tree, whatever the order of the keys.\<close>

lemma avl_tree_table:
  assumes "cmp_order cmp"
  shows "tree_table cmp root 0 (avl_state cmp root) (avl_lkup cmp root) (\<lambda>n. avl_ins cmp root n 0 CP) avl_rem"
proof (intro tree_table.intro assms tree_table_axioms.intro)
  fix h n k and t :: "('a, int) ttree"
  assume "avl_state cmp root h t" "tfree 0 root h n k" "\<forall>(m, j) \<in> set (ino t). cmp j k \<noteq> 0"
  from cmp_order.avl_insert [OF assms this]
  show "\<exists>h' t' xs ys. avl_ins cmp root n 0 CP h = ret (h', 0) \<and> avl_state cmp root h' t' \<and> ino t = xs @ ys \<and> ino t' = xs @ (n, k) # ys"
    by blast
next
  fix h n k and t :: "('a, int) ttree"
  assume "avl_state cmp root h t" "(n, k) \<in> set (ino t)"
  from cmp_order.avl_remove [OF assms this]
  show "\<exists>h' t' xs ys. avl_rem n h = ret h' \<and> avl_state cmp root h' t' \<and> ino t = xs @ (n, k) # ys \<and> ino t' = xs @ ys \<and> tfree 0 root h' n k"
    by blast
qed (auto simp: avl_state_def avl_lkup_ok)

interpretation avl_strings: tree_table lexcmp root 0 "avl_state lexcmp root" "avl_lkup lexcmp root" "\<lambda>n. avl_ins lexcmp root n 0 CP" avl_rem for root
  by (rule avl_tree_table [OF lex.cmp_order_axioms])

definition avl_isempty :: "taddr \<Rightarrow> 'k aheap \<Rightarrow> bool outcome" where
  "avl_isempty root h = obind (tget h root) (\<lambda>n. Ok (tn_p n CP = 0))"

definition avl_getroot :: "taddr \<Rightarrow> 'k aheap \<Rightarrow> taddr outcome" where
  "avl_getroot root h = obind (tget h root) (\<lambda>n. Ok (tn_p n CP))"

lemma avl_getroot_ok: "trep root h t \<Longrightarrow> avl_getroot root h = Ok (rt t) \<and> avl_isempty root h = Ok (t = Leaf)"
proof -
  assume t: "trep root h t"
  then obtain n where n: "tget h root = Ok n" "tn_p n CP = rt t" using tget_down [of root h root CP "rt t"] by (auto simp: trep_def)
  have "rt t = 0 \<longleftrightarrow> t = Leaf" using rt_cases [of t] t by (auto simp: trep_def apart_def)
  then show ?thesis using n by (simp add: avl_getroot_def avl_isempty_def)
qed

section \<open>The height\<close>

lemma height_bound: "avl t \<Longrightarrow> 2 ^ (height t div 2) \<le> size1 t"
proof (induction "height t" arbitrary: t rule: less_induct)
  case less
  show ?case
  proof (cases t)
    case (Node l e r)
    obtain x k b where e: "e = (x, k, b)" by (cases e) auto
    have a: "avl l" "avl r" "height l \<le> height r + 1" "height r \<le> height l + 1" using less.prems by (auto simp: Node e)
    have IH: "2 ^ (height l div 2) \<le> size1 l" "2 ^ (height r div 2) \<le> size1 r" using less.hyps [of l] less.hyps [of r] a by (auto simp: Node)
    let ?m = "min (height l) (height r)"
    have m: "2 ^ (?m div 2) \<le> size1 l" "2 ^ (?m div 2) \<le> size1 r"
      by (rule order_trans [OF power_increasing IH(1)]; simp add: div_le_mono) (rule order_trans [OF power_increasing IH(2)]; simp add: div_le_mono)
    have "height t \<le> ?m + 2" using a(3,4) by (auto simp: Node)
    then have "height t div 2 \<le> (?m + 2) div 2" by (rule div_le_mono)
    then have "height t div 2 \<le> Suc (?m div 2)" by simp
    then have "(2::nat) ^ (height t div 2) \<le> 2 ^ Suc (?m div 2)" by (rule power_increasing) simp
    also have "\<dots> \<le> size1 l + size1 r" using m by simp
    finally show ?thesis by (simp add: Node)
  qed simp
qed

section \<open>Replacing a node\<close>


text \<open>A node whose key is in the tree takes the place of the one that has it, but keeps its own balance 0.\<close>

lemma avl_replace:
  assumes "cmp_order cmp" "avl_state cmp root h t" "tfree 0 root h y ky" "y \<notin> addrs t" "(n, k) \<in> set (ino t)" "cmp ky k = 0"
  shows "\<exists>h' c l b r. t = plug c (Node l (n, k, b) r) \<and> avl_ins cmp root y 0 CP h = ret (h', n)
    \<and> trep root h' (plug c (Node l (y, ky, 0) r)) \<and> tfree 0 root h' n k
    \<and> (avl_state cmp root h' (plug c (Node l (y, ky, 0) r)) \<longleftrightarrow> b = 0)"
proof -
  have a: "trep root h t" "avl t" "ordered cmp (ino t)" "h 0 = None" "\<forall>x \<in> addrs t. owner h x = Some root"
    using assms(2) by (auto simp: avl_state_def owned_def)
  obtain c l b r where c: "locate cmp ky [] t = (c, Node l (n, k, b) r)" and t: "t = plug c (Node l (n, k, b) r)"
    using cmp_order.locate_present [OF assms(1) a(3) assms(5,6)] by blast
  let ?u = "plug c (Node l (y, ky, 0) r)"
  obtain m where m: "h y = Some m" "tn_key m = ky" "y \<noteq> 0" "y \<noteq> root" "info h y = Some (ky, 0)"
    using assms(3) by (auto simp: tfree_def info_def)
  obtain h1 where h1: "t_replace n y h = Ok h1" "trep root h1 ?u" "info h1 = info h" "within (insert y (insert root (addrs t))) h h1"
    using t_replace_ok [OF a(1) [unfolded t] a(4) m(5)] assms(4) m(4) by (auto simp: t)
  have ap: "apart root t" using a(1) by (simp add: trep_def)
  have n: "n \<noteq> 0" "n \<noteq> root" "n \<noteq> y" "n \<in> addrs t" "n \<notin> addrs ?u"
    using ap assms(4) unfolding t apart_plug apart_Node by (auto simp: addrs_plug)
  have ad: "addrs ?u \<subseteq> insert y (addrs t)" unfolding t by (auto simp: addrs_plug)
  have "h1 y \<noteq> None" using fun_cong [OF h1(3), of y] m(5) by (auto simp: info_def)
  then obtain h2 where h2: "tset y (\<lambda>n. n\<lparr>tn_tree := root\<rparr>) h1 = Ok h2" "links h2 = links h1" "info h2 = info h1"
    "owner h2 = (owner h1)(y \<mapsto> root)" "\<forall>x. x \<noteq> y \<longrightarrow> h2 x = h1 x" using t_owner_effect by blast
  have t2: "trep root h2 ?u" using trep_links [OF h2(2,3)] h1(2) by simp
  have "info h2 n = Some (k, b)" using a(1) h2(3) h1(3) unfolding t by (simp add: trep_plug)
  then obtain q where q: "h2 n = Some q" "tn_key q = k" by (auto simp: info_def)
  let ?q = "q\<lparr>tn_tree := 0, tn_p := (tn_p q)(CL := 0, CP := 0, CR := 0), tn_dir := CP, tn_tag := 0, tn_key := k\<rparr>"
  let ?h = "h2(n \<mapsto> ?q)"
  have t3: "trep root ?h ?u" by (rule trep_off [OF t2]) (use n in auto)
  have run: "avl_ins cmp root y 0 CP h = ret (?h, n)"
    using m(1,2,3) c findloc_ok [OF a(1), of cmp ky] h1(1) h2(1) q n(1)
    by (simp add: avl_ins_def tget_def tset_def avl_ninit_def)
  have f: "tfree 0 root ?h n k" using n by (simp add: tfree_def)
  have avl: "avl ?u \<longleftrightarrow> b = 0" using a(2) unfolding t avl_plug by auto
  have o: "ordered cmp (ino ?u)" using cmp_order.ordered_replace [OF assms(1), of "cleft c @ ino l" n k "ino r @ cright c" ky y] assms(6) a(3) by (simp add: t ino_plug_lr)
  have "0 \<notin> insert y (insert root (addrs t))" using ap m(3) by (auto simp: apart_def)
  then have z: "?h 0 = None" using h2(5) h1(4) a(4) m(3) n(1) by (auto simp: within_def owner_def fun_eq_iff)
  have "owner ?h x = Some root" if "x \<in> addrs ?u" for x
  proof (cases "x = y")
    case True
    then show ?thesis using h2(4) n(3) by (simp add: owner_def fun_eq_iff)
  next
    case False
    then have "x \<in> addrs t" "x \<noteq> n" using ad n(5) that by auto
    then show ?thesis using False h2(4) h1(4) a(5) by (auto simp: owner_def within_def fun_eq_iff)
  qed
  then have "owned root ?h ?u" using z by (simp add: owned_def)
  then have "avl_state cmp root ?h ?u \<longleftrightarrow> b = 0" using t3 avl o by (simp add: avl_state_def)
  then show ?thesis using run t3 f t by blast
qed



lemma set_tree_plug: "set_tree t \<subseteq> set_tree (plug c t)"
proof (induction c t rule: plug.induct)
  case (2 lf e s c t)
  then show ?case by (auto simp: sN_def split: if_splits)
qed simp

lemma postorder_addrs: "trep root h t \<Longrightarrow> distinct (map fst (postorder t)) \<and> set (map fst (postorder t)) = addrs t"
proof -
  assume "trep root h t"
  then have "distinct (map fst (ino t))" by (simp add: trep_def apart_def)
  then have "distinct (map fst (inorder t))" by (simp add: map_fst_ino)
  moreover have "mset (postorder t) = mset (inorder t)" by (induction t) auto
  then have "mset (map fst (postorder t)) = mset (map fst (inorder t))" by simp
  ultimately have "distinct (map fst (postorder t))" using mset_eq_imp_distinct_iff by blast
  then show ?thesis by (simp add: addrs_def)
qed

section \<open>What the callers see\<close>

text \<open>A concrete tree: the pseudo-node 1, the root 2 with the key \<open>b\<close> and its left child 3 with the key
  \<open>a\<close>, and a node 4 with the key \<open>c\<close> that is not in the tree.\<close>

definition sample_avl :: "byte list aheap" where
  "sample_avl = [1 \<mapsto> tn 0 2 0 CP 0 0 [], 2 \<mapsto> tn 3 1 0 CP (-1) 1 [98], 3 \<mapsto> tn 0 2 0 CL 0 1 [97], 4 \<mapsto> tn 0 0 0 CP 0 0 [99],
     5 \<mapsto> tn 0 0 0 CP 0 0 [98]]"

definition sample_tree :: "(byte list, int) ttree" where
  "sample_tree = Node (Node Leaf (3, [97], 0) Leaf) (2, [98], -1) Leaf"

lemma sample_avl: "avl_state lexcmp 1 sample_avl sample_tree" "tfree 0 1 sample_avl 4 [99]" "tfree 0 1 sample_avl 5 [98]"
  by (auto simp: avl_state_def trep_def sample_avl_def sample_tree_def tn_def edge_def info_def apart_def ordered_def owned_def owner_def tfree_def)

lemma sample_tree: "ino sample_tree = [(3, [97]), (2, [98])]" "addrs sample_tree = {2, 3}"
  by (auto simp: sample_tree_def)

text \<open>C4: Inserting a node whose key is not in an AVL tree succeeds, and gives an AVL tree (well linked, ordered,
  every balance right and at most one) with the same nodes in the same order and the new one among them; no
  node outside the tree is touched.\<close>

theorem avl_insert_refines:
  assumes "cmp_order cmp" "avl_state cmp root h t" "tfree 0 root h n k" "\<forall>(m, j) \<in> set (ino t). cmp j k \<noteq> 0"
  shows "\<exists>h' t' xs ys. avl_ins cmp root n 0 CP h = ret (h', 0) \<and> avl_state cmp root h' t'
    \<and> ino t = xs @ ys \<and> ino t' = xs @ (n, k) # ys \<and> (\<forall>y. y \<notin> insert n (insert root (addrs t)) \<longrightarrow> h' y = h y)"
  using cmp_order.avl_insert [OF assms] .

lemma avl_insert_refines_witness:
  "\<exists>h' t' xs ys. avl_ins lexcmp 1 4 0 CP sample_avl = ret (h', 0) \<and> avl_state lexcmp 1 h' t'
    \<and> [(3, [97]), (2, [98])] = xs @ ys \<and> ino t' = xs @ (4, [99]) # ys \<and> h' 5 = sample_avl 5"
proof -
  have "\<forall>(m, j) \<in> set (ino sample_tree). lexcmp j [99 :: byte] \<noteq> 0" by (simp add: sample_tree)
  from avl_insert_refines [OF lex.cmp_order_axioms sample_avl(1,2) this] obtain h' t' xs ys where
    "avl_ins lexcmp 1 4 0 CP sample_avl = ret (h', 0)" "avl_state lexcmp 1 h' t'" "[(3, [97]), (2, [98])] = xs @ ys"
    "ino t' = xs @ (4, [99]) # ys" "\<forall>y. y \<notin> insert 4 (insert 1 {2, 3}) \<longrightarrow> h' y = sample_avl y" unfolding sample_tree by blast
  moreover have "(5 :: nat) \<notin> insert 4 (insert 1 {2, 3})" by simp
  ultimately show ?thesis by blast
qed

text \<open>C5: Removing a node from an AVL tree succeeds, and gives an AVL tree with the other nodes in the same
  order; the node comes back ready to be inserted again, owned by no tree, and no node outside the tree is
  touched.\<close>

theorem avl_remove_refines:
  assumes "cmp_order cmp" "avl_state cmp root h t" "(n, k) \<in> set (ino t)"
  shows "\<exists>h' t' xs ys. avl_rem n h = ret h' \<and> avl_state cmp root h' t' \<and> ino t = xs @ (n, k) # ys \<and> ino t' = xs @ ys
    \<and> tfree 0 root h' n k \<and> owner h' n = Some 0 \<and> (\<forall>y. y \<notin> insert root (addrs t) \<longrightarrow> h' y = h y)"
  using cmp_order.avl_remove [OF assms] .

lemma avl_remove_refines_witness:
  "\<exists>h' t'. avl_rem 2 sample_avl = ret h' \<and> avl_state lexcmp 1 h' t' \<and> ino t' = [(3, [97])] \<and> tfree 0 1 h' 2 [98]"
proof -
  have "(2, [98]) \<in> set (ino sample_tree)" by (simp add: sample_tree)
  from avl_remove_refines [OF lex.cmp_order_axioms sample_avl(1) this] show ?thesis unfolding sample_tree
    by (auto simp: Cons_eq_append_conv)
qed

text \<open>C14: An AVL tree is a table.  After an insertion of a node with a new key, a lookup of that key returns
  the node and every other lookup returns what it did; removing the node again restores the table, and the
  lookup fails.  \<open>holds (avl_state cmp root) h E\<close> says that the heap holds an AVL tree of the nodes and keys \<open>E\<close>.\<close>

theorem avl_insert_find_remove:
  assumes "cmp_order cmp" "holds (avl_state cmp root) h E" "tfree 0 root h n k" "\<forall>(m, j) \<in> E. cmp j k \<noteq> 0"
  shows "\<exists>h' h''. avl_ins cmp root n 0 CP h = ret (h', 0) \<and> holds (avl_state cmp root) h' (insert (n, k) E)
    \<and> (\<forall>i. cmp k i = 0 \<longrightarrow> avl_lkup cmp root i h' = ret n)
    \<and> (\<forall>m j. (m, j) \<in> E \<longrightarrow> avl_lkup cmp root j h' = ret m)
    \<and> avl_rem n h' = ret h'' \<and> holds (avl_state cmp root) h'' E \<and> avl_lkup cmp root k h'' = ret 0"
  using tree_table.insert_find_rem [OF avl_tree_table [OF assms(1)] assms(2-4)] .

lemma avl_insert_find_remove_witness:
  "\<exists>h' h''. avl_ins lexcmp 1 4 0 CP sample_avl = ret (h', 0) \<and> avl_lkup lexcmp 1 [99] h' = ret 4 \<and> avl_lkup lexcmp 1 [97] h' = ret 3
    \<and> avl_rem 4 h' = ret h'' \<and> avl_lkup lexcmp 1 [99] h'' = ret 0"
proof -
  have "\<forall>(m, j) \<in> set (ino sample_tree). lexcmp j [99 :: byte] \<noteq> 0" by (simp add: sample_tree)
  from avl_insert_find_remove [OF lex.cmp_order_axioms holds_state [of "avl_state lexcmp 1", OF sample_avl(1)] sample_avl(2) this]
  show ?thesis by (auto simp: sample_tree)
qed

text \<open>Inserting a node whose key is already in the tree puts it in the place of the node that had the key,
  which is returned, but leaves the new node's balance at 0: unless the replaced node was balanced, the result
  is no AVL tree any more.\<close>

theorem avl_ins_replace_loses_balance:
  assumes "cmp_order cmp" "avl_state cmp root h t" "tfree 0 root h y ky" "y \<notin> addrs t" "(n, k) \<in> set (ino t)" "cmp ky k = 0"
  shows "\<exists>h' c l b r. t = plug c (Node l (n, k, b) r) \<and> avl_ins cmp root y 0 CP h = ret (h', n)
    \<and> trep root h' (plug c (Node l (y, ky, 0) r)) \<and> tfree 0 root h' n k
    \<and> (avl_state cmp root h' (plug c (Node l (y, ky, 0) r)) \<longleftrightarrow> b = 0)"
  using avl_replace [OF assms] .

lemma avl_ins_replace_loses_balance_witness:
  "\<exists>h'. avl_ins lexcmp 1 5 0 CP sample_avl = ret (h', 2) \<and> tfree 0 1 h' 2 [98] \<and> (\<exists>t'. trep 1 h' t' \<and> ino t' = [(3, [97]), (5, [98])] \<and> \<not> avl_state lexcmp 1 h' t')"
proof -
  have p: "(2, [98]) \<in> set (ino sample_tree)" "5 \<notin> addrs sample_tree" "lexcmp [98 :: byte] [98] = 0" by (simp_all add: sample_tree)
  obtain h' c l b r where h': "sample_tree = plug c (Node l (2, [98], b) r)" "avl_ins lexcmp 1 5 0 CP sample_avl = ret (h', 2)"
    "trep 1 h' (plug c (Node l (5, [98], 0) r))" "tfree 0 1 h' 2 [98]" "avl_state lexcmp 1 h' (plug c (Node l (5, [98], 0) r)) \<longleftrightarrow> b = 0"
    using avl_ins_replace_loses_balance [OF lex.cmp_order_axioms sample_avl(1,3) p(2,1,3)] by blast
  have b: "b = -1" using set_tree_plug [of "Node l (2, [98], b) r" c] by (simp flip: h'(1)) (simp add: sample_tree_def)
  have "cleft c @ ino l @ (2, [98]) # ino r @ cright c = [(3, [97]), (2, [98])]" using h'(1) ino_plug_lr by (metis ino_simps(2) sample_tree(1) append.assoc append_Cons)
  then have "ino (plug c (Node l (5, [98], 0) r)) = [(3, [97]), (5, [98])]" by (auto simp: ino_plug_lr append_eq_Cons_conv Cons_eq_append_conv)
  then show ?thesis using h'(2-5) b by auto
qed

text \<open>A lookup in an AVL tree of \<open>n\<close> nodes compares keys along a path of \<open>d\<close> nodes with
  \<open>2 ^ (d div 2) \<le> n + 1\<close>: at most twice the binary logarithm of \<open>n + 1\<close>, and one.\<close>

theorem avl_lookup_bound:
  assumes "avl_state cmp root h t"
  shows "\<exists>c u. locate cmp key [] t = (c, u) \<and> avl_lkup cmp root key h = ret (rt u) \<and> 2 ^ (length c div 2) \<le> length (ino t) + 1"
proof -
  have t: "trep root h t" "avl t" using assms by (simp_all add: avl_state_def)
  obtain c u where cu: "locate cmp key [] t = (c, u)" by (cases "locate cmp key [] t") auto
  have "length c \<le> height t" using length_locate [OF cu] by simp
  then have "(2 :: nat) ^ (length c div 2) \<le> 2 ^ (height t div 2)" by (simp add: div_le_mono power_increasing)
  also have "\<dots> \<le> length (ino t) + 1" using height_bound [OF t(2)] by (simp add: size_ino size1_size)
  finally show ?thesis using cu avl_lkup_ok [OF t(1), of cmp key] by (cases u) auto
qed

lemma avl_lookup_bound_witness: "\<exists>c u. locate lexcmp [97] [] sample_tree = (c, u) \<and> avl_lkup lexcmp 1 [97] sample_avl = ret (rt u) \<and> 2 ^ (length c div 2) \<le> (3 :: nat)"
  using avl_lookup_bound [OF sample_avl(1), of "[97]"] by (simp add: sample_tree numeral_3_eq_3)

text \<open>In a well linked search tree, the least and the greatest node are the first and the last in the order of
  the keys, or NULL in the empty tree, and the walk calls the function exactly once on every node, the children
  of a node before the node itself.\<close>

theorem tree_traversals:
  assumes "trep root h t"
  shows "t_extreme CL root h = ret (if ino t = [] then 0 else fst (hd (ino t)))
    \<and> t_extreme CR root h = ret (if ino t = [] then 0 else fst (last (ino t)))
    \<and> t_apply root func s h = ret (fold (\<lambda>e. func (fst e)) (postorder t) s)
    \<and> distinct (map fst (postorder t)) \<and> set (map fst (postorder t)) = addrs t"
  using extreme_ok [OF assms] apply_ok [OF assms, of func s] postorder_addrs [OF assms] by blast

lemma tree_traversals_witness:
  "t_extreme CL 1 sample_avl = ret 3 \<and> t_extreme CR 1 sample_avl = ret 2 \<and> t_apply 1 (\<lambda>a s. s @ [a]) [] sample_avl = ret [3, 2]"
proof -
  have t: "trep 1 sample_avl sample_tree" using sample_avl(1) by (simp add: avl_state_def)
  from tree_traversals [OF t, of "\<lambda>a s. s @ [a]" "[]"] show ?thesis by (simp add: sample_tree) (simp add: sample_tree_def)
qed

end
