(* ===== verification/Splay.thy ===== *)
theory Splay
  imports TreeTable
begin

text \<open>
  Splay trees (include/cat/splay.h), on the heap of nodes the AVL trees use; a node has no tag.  A
  lookup or an insertion rotates the node it ends at to the top, a pair of levels at a time.
\<close>

section \<open>The operations\<close>

type_synonym 'k sheap = "('k, unit) theap"

definition st_ninit :: "taddr \<Rightarrow> 'k \<Rightarrow> 'k sheap \<Rightarrow> 'k sheap outcome" where
  "st_ninit n k h = abort_unless (n \<noteq> 0)
     (tset n (\<lambda>n. n\<lparr>tn_p := (tn_p n)(CL := 0, CR := 0, CP := 0), tn_dir := CN, tn_key := k\<rparr>) h)"

definition st_init :: "taddr \<Rightarrow> 'k \<Rightarrow> 'k sheap \<Rightarrow> 'k sheap outcome" where
  "st_init root null h = obind (st_ninit root null h) (tset root (\<lambda>n. n\<lparr>tn_dir := CP\<rparr>))"

text \<open>The header's own copies of the functions the trees share.\<close>

definition st_fix :: "taddr \<Rightarrow> taddr \<Rightarrow> tdir \<Rightarrow> 'k sheap \<Rightarrow> 'k sheap outcome" where "st_fix = t_fix"
definition st_findloc :: "('k \<Rightarrow> 'k \<Rightarrow> int) \<Rightarrow> taddr \<Rightarrow> 'k \<Rightarrow> 'k sheap \<Rightarrow> (taddr \<times> tdir) run" where "st_findloc = t_findloc"
definition st_getmin :: "taddr \<Rightarrow> 'k sheap \<Rightarrow> taddr run" where "st_getmin = t_extreme CL"
definition st_getmax :: "taddr \<Rightarrow> 'k sheap \<Rightarrow> taddr run" where "st_getmax = t_extreme CR"
definition st_apply :: "taddr \<Rightarrow> (taddr \<Rightarrow> 's \<Rightarrow> 's) \<Rightarrow> 's \<Rightarrow> 'k sheap \<Rightarrow> 's run" where "st_apply = t_apply"

definition st_isempty :: "taddr \<Rightarrow> 'k sheap \<Rightarrow> bool outcome" where
  "st_isempty root h = obind (tget h root) (\<lambda>n. Ok (tn_p n CP = 0))"

definition st_getroot :: "taddr \<Rightarrow> 'k sheap \<Rightarrow> taddr outcome" where
  "st_getroot root h = obind (tget h root) (\<lambda>n. Ok (tn_p n CP))"

definition st_rl :: "taddr \<Rightarrow> 'k sheap \<Rightarrow> 'k sheap outcome" where
  "st_rl n h = abort_unless (n \<noteq> 0) (obind (tget h n) (\<lambda>k. abort_unless (tn_p k CR \<noteq> 0) (t_rot False n (tn_p k CR) h)))"

definition st_rr :: "taddr \<Rightarrow> 'k sheap \<Rightarrow> 'k sheap outcome" where
  "st_rr n h = abort_unless (n \<noteq> 0) (obind (tget h n) (\<lambda>k. abort_unless (tn_p k CL \<noteq> 0) (t_rot True n (tn_p k CL) h)))"

text \<open>Two rotations at once, first on one side (\<open>lf\<close> is the side of the node), then over both sides.\<close>

definition st_zigzig :: "bool \<Rightarrow> taddr \<Rightarrow> 'k sheap \<Rightarrow> 'k sheap outcome" where
  "st_zigzig lf n h =
     obind (tget h n) (\<lambda>k. let p = tn_p k CP in abort_unless (p \<noteq> 0)
     (obind (tget h p) (\<lambda>k. let gp = tn_p k CP in abort_unless (gp \<noteq> 0)
     (obind (t_fix gp (tn_p k (sd (\<not> lf))) (sd lf) h) (\<lambda>h.
      obind (tget h n) (\<lambda>k. obind (t_fix p (tn_p k (sd (\<not> lf))) (sd lf) h) (\<lambda>h.
      obind (tget h gp) (\<lambda>k. obind (t_fix (tn_p k CP) n (tn_dir k) h) (\<lambda>h.
      obind (t_fix n p (sd (\<not> lf)) h) (t_fix p gp (sd (\<not> lf))))))))))))"

definition st_zigzag :: "bool \<Rightarrow> taddr \<Rightarrow> 'k sheap \<Rightarrow> 'k sheap outcome" where
  "st_zigzag lf n h =
     obind (tget h n) (\<lambda>k. let p = tn_p k CP in abort_unless (p \<noteq> 0)
     (obind (tget h p) (\<lambda>j. let gp = tn_p j CP in abort_unless (gp \<noteq> 0)
     (obind (t_fix gp (tn_p k (sd (\<not> lf))) (sd lf) h) (\<lambda>h.
      obind (tget h n) (\<lambda>k. obind (t_fix p (tn_p k (sd lf)) (sd (\<not> lf)) h) (\<lambda>h.
      obind (tget h gp) (\<lambda>k. obind (t_fix (tn_p k CP) n (tn_dir k) h) (\<lambda>h.
      obind (t_fix n p (sd lf) h) (t_fix n gp (sd (\<not> lf))))))))))))"

definition st_zll :: "taddr \<Rightarrow> 'k sheap \<Rightarrow> 'k sheap outcome" where "st_zll = st_zigzig False"
definition st_zrr :: "taddr \<Rightarrow> 'k sheap \<Rightarrow> 'k sheap outcome" where "st_zrr = st_zigzig True"
definition st_zlr :: "taddr \<Rightarrow> 'k sheap \<Rightarrow> 'k sheap outcome" where "st_zlr = st_zigzag True"
definition st_zrl :: "taddr \<Rightarrow> 'k sheap \<Rightarrow> 'k sheap outcome" where "st_zrl = st_zigzag False"

definition st_splay_step :: "taddr \<Rightarrow> 'k sheap \<Rightarrow> 'k sheap outcome" where
  "st_splay_step n h =
     obind (tget h n) (\<lambda>k. abort_unless (tn_p k CP \<noteq> 0) (obind (tget h (tn_p k CP)) (\<lambda>j.
       if tn_dir j = CP then
         (if tn_dir k = CL then st_rr (tn_p k CP) h else st_rl (tn_p k CP) h)
       else if tn_dir j = CL then
         (if tn_dir k = CL then st_zrr n h else st_zlr n h)
       else abort_unless (tn_dir j = CR)
         (if tn_dir k = CL then st_zrl n h else st_zll n h))))"

partial_function (option) st_splay :: "taddr \<Rightarrow> 'k sheap \<Rightarrow> 'k sheap run" where
  "st_splay n h =
     rbind (Some (abort_unless (n \<noteq> 0) (tget h n))) (\<lambda>k.
       if tn_dir k = CP then ret h
       else rbind (Some (st_splay_step n h)) (\<lambda>h. st_splay n h))"

text \<open>A lookup returns the new heap and the node, or NULL.\<close>

definition st_lkup :: "('k \<Rightarrow> 'k \<Rightarrow> int) \<Rightarrow> taddr \<Rightarrow> 'k \<Rightarrow> 'k sheap \<Rightarrow> ('k sheap \<times> taddr) run" where
  "st_lkup cmp root key h =
     rbind (t_findloc cmp root key h) (\<lambda>(n, d).
       if n = root then ret (h, 0)
       else rbind (st_splay n h) (\<lambda>h. ret (h, if d = CN then n else 0)))"

definition st_ins :: "('k \<Rightarrow> 'k \<Rightarrow> int) \<Rightarrow> taddr \<Rightarrow> taddr \<Rightarrow> 'k sheap \<Rightarrow> ('k sheap \<times> taddr) run" where
  "st_ins cmp root node h =
     rbind (Some (tset node (\<lambda>n. n\<lparr>tn_tree := root\<rparr>) h)) (\<lambda>h.
     rbind (Some (tget h node)) (\<lambda>k.
     rbind (t_findloc cmp root (tn_key k) h) (\<lambda>(n, d).
       if n = root then rbind (Some (t_fix root node CP h)) (\<lambda>h. ret (h, 0))
       else if d = CN then
         rbind (st_splay n h) (\<lambda>h.
         rbind (Some (t_replace n node h)) (\<lambda>h.
         rbind (Some (tset n (\<lambda>n. n\<lparr>tn_p := (tn_p n)(CL := 0, CR := 0, CP := 0), tn_dir := CN\<rparr>) h)) (\<lambda>h. ret (h, n))))
       else
         rbind (Some (t_fix n node d h)) (\<lambda>h.
         rbind (st_splay node h) (\<lambda>h. ret (h, 0))))))"

definition st_rem :: "taddr \<Rightarrow> 'k sheap \<Rightarrow> 'k sheap run" where
  "st_rem node h =
     rbind (Some (abort_unless (node \<noteq> 0) (tget h node))) (\<lambda>k.
       if tn_tree k = 0 then ret h
       else
         rbind (st_splay node h) (\<lambda>h.
         rbind (Some (tget h node)) (\<lambda>m. let root = tn_tree k; l = tn_p m CL; r = tn_p m CR in
         rbind
           (if l = 0 \<and> r = 0 then Some (t_fix root 0 CP h)
            else if r = 0 then Some (t_fix root l CP h)
            else if l = 0 then Some (t_fix root r CP h)
            else
              rbind (t_last CR h l) (\<lambda>rep.
              rbind (Some (t_fix root l CP h)) (\<lambda>h.
              rbind (st_splay rep h) (\<lambda>h.
              rbind (Some (tget h rep)) (\<lambda>q.
              rbind (Some (tget h node)) (\<lambda>m.
                Some (abort_unless (tn_p q CR = 0) (t_fix rep (tn_p m CR) CR h))))))))
           (\<lambda>h. Some (tset node (\<lambda>n. n\<lparr>tn_p := (tn_p n)(CL := 0, CR := 0, CP := 0), tn_dir := CN\<rparr>) h)))))"

section \<open>Two rotations on one side\<close>

lemma ino_zigzig: "ino (sN lf (sN lf (sN lf a e3 b) e2 c) e1 z) = ino (sN lf a e3 (sN lf b e2 (sN lf c e1 z)))"
  by (cases e1; cases e2; cases e3) (simp add: sN_def)

lemma zigzig_chain:
  assumes "trep root h (plug ctx (sN lf (sN lf (sN lf a e3 b) e2 c) e1 z))"
    and "chain root fs h h'" "settled fs"
    and fs: "set fs = {(fst e1, rt c, sd lf), (fst e2, rt b, sd lf), (cpar root ctx, fst e3, cdir ctx),
      (fst e3, fst e2, sd (\<not> lf)), (fst e2, fst e1, sd (\<not> lf))}"
  shows "trep root h' (plug ctx (sN lf a e3 (sN lf b e2 (sN lf c e1 z))))"
proof -
  let ?x = "fst e1" and ?y = "fst e2" and ?w = "fst e3" and ?p = "cpar root ctx"
  have s: "hole root h ctx ?x" "cshape root h ctx" "info h ?x = Some (snd e1)" "info h ?y = Some (snd e2)" "info h ?w = Some (snd e3)"
    "edge root h ?x (sd (\<not> lf)) (rt z)" "edge root h ?w (sd lf) (rt a)"
    "shape root h a" "shape root h b" "shape root h c" "shape root h z" and ap: "apart root (plug ctx (sN lf (sN lf (sN lf a e3 b) e2 c) e1 z))"
    using assms(1) by (auto simp: trep_plug)
  have ap': "apart root (plug ctx (sN lf a e3 (sN lf b e2 (sN lf c e1 z))))"
    using ap apart_ino [OF ino_plug [OF ino_zigzig]] by blast
  have d: "capart root ctx" "?x \<notin> caddrs ctx" "?y \<notin> caddrs ctx" "?w \<notin> caddrs ctx"
    "addrs a \<inter> caddrs ctx = {}" "addrs b \<inter> caddrs ctx = {}" "addrs c \<inter> caddrs ctx = {}" "addrs z \<inter> caddrs ctx = {}"
    "?x \<noteq> 0" "?y \<noteq> 0" "?w \<noteq> 0" "?x \<noteq> root" "?y \<noteq> root" "?w \<noteq> root" "?x \<noteq> ?y" "?x \<noteq> ?w" "?y \<noteq> ?w"
    "?x \<notin> addrs a" "?x \<notin> addrs b" "?x \<notin> addrs c" "?x \<notin> addrs z" "?y \<notin> addrs a" "?y \<notin> addrs b" "?y \<notin> addrs c" "?y \<notin> addrs z"
    "?w \<notin> addrs a" "?w \<notin> addrs b" "?w \<notin> addrs c" "?w \<notin> addrs z" "apart root a" "apart root b" "apart root c" "apart root z"
    using ap' unfolding apart_plug apart_sN by simp_all blast+
  have t: "addrs a \<inter> addrs b = {}" "addrs a \<inter> addrs c = {}" "addrs b \<inter> addrs c = {}" "addrs b \<inter> addrs z = {}" "addrs c \<inter> addrs z = {}" "addrs a \<inter> addrs z = {}"
    using ap' unfolding apart_plug apart_sN by simp_all blast+
  have p: "?p \<noteq> ?x" "?p \<noteq> ?y" "?p \<noteq> ?w" "?p \<notin> addrs a" "?p \<notin> addrs b" "?p \<notin> addrs c" "?p \<notin> addrs z" "root \<notin> caddrs ctx"
    using d capart_nz [OF d(1)] by (simp_all add: place_facts)
  have r: "rt t \<noteq> ?x" "rt t \<noteq> ?y" "rt t \<noteq> ?w" "rt t \<notin> caddrs ctx" if "t = a \<or> t = b \<or> t = c \<or> t = z" for t
    using that d by (auto simp: place_facts)
  have o: "rt a = 0 \<or> rt a \<noteq> rt b" "rt a = 0 \<or> rt a \<noteq> rt c" "rt z = 0 \<or> rt z \<noteq> rt b" "rt z = 0 \<or> rt z \<noteq> rt c"
    "rt b \<notin> addrs a" "rt b \<notin> addrs c" "rt b \<notin> addrs z" "rt c \<notin> addrs a" "rt c \<notin> addrs b" "rt c \<notin> addrs z"
    using t d rt_disj [of a b] rt_disj [of a c] rt_disj [of z b] rt_disj [of z c] by (auto simp: rt_notin Int_commute)
  note new = chain_new [OF assms(2,3)] and f = clear_set fs
  have "edge root h' ?x (sd (\<not> lf)) (rt z)" "edge root h' ?w (sd lf) (rt a)"
    by (rule chain_edge [OF assms(2)], fact, use d p r [of a] r [of z] o in \<open>simp add: f\<close>)+
  moreover have "shape root h' a" "shape root h' b" "shape root h' c" "shape root h' z"
    by (rule chain_shape [OF assms(2)], fact, fact, use d p o in \<open>simp add: fs\<close>)+
  moreover have "cshape root h' ctx" by (rule chain_cshape [OF assms(2) s(2) d(1)], use d p r [of b] r [of c] in \<open>simp add: fs\<close>)
  ultimately show ?thesis unfolding trep_plug shape_sN rt_sN chain_info [OF assms(2)] using s ap' new by (simp add: fs)
qed


lemma st_zigzig_ok:
  assumes "trep root h (plug ctx (sN lf (sN lf (sN lf a e3 b) e2 c) e1 z))" "h 0 = None"
  shows "\<exists>h'. st_zigzig lf (fst e3) h = Ok h' \<and>
    becomes root h (plug ctx (sN lf (sN lf (sN lf a e3 b) e2 c) e1 z)) h' (plug ctx (sN lf a e3 (sN lf b e2 (sN lf c e1 z))))"
proof -
  let ?x = "fst e1" and ?y = "fst e2" and ?w = "fst e3" and ?p = "cpar root ctx"
  let ?f1 = "(?x, rt c, sd lf)" and ?f2 = "(?y, rt b, sd lf)" and ?f3 = "(?p, ?w, cdir ctx)"
    and ?f4 = "(?w, ?y, sd (\<not> lf))" and ?f5 = "(?y, ?x, sd (\<not> lf))"
  let ?t = "plug ctx (sN lf (sN lf (sN lf a e3 b) e2 c) e1 z)"
  note x = trep_node [OF assms(1)]
  note y = trep_node [of root h "(lf, e1, z) # ctx" lf "sN lf a e3 b" e2 c, simplified, OF assms(1)]
  note w = trep_node [of root h "(lf, e2, c) # (lf, e1, z) # ctx" lf a e3 b, simplified, OF assms(1)]
  have "apart root ?t" using assms(1) by (simp add: trep_def)
  then have d: "?x \<notin> addrs b" "?x \<notin> addrs c" "?x \<noteq> ?w" "?w \<notin> caddrs ctx" "?x \<noteq> 0" "?w \<noteq> root" "addrs b \<inter> caddrs ctx = {}" "addrs c \<inter> caddrs ctx = {}"
    "apart root b" "apart root c" "?w \<notin> addrs c" "?y \<notin> addrs b" "?w \<noteq> 0" "?y \<noteq> 0" "addrs b \<inter> addrs c = {}"
    unfolding apart_plug apart_sN by simp_all blast+
  then have n: "rt b \<noteq> ?x" "rt c \<noteq> ?x" "?x \<noteq> ?w" "?p \<noteq> ?w" "?p \<noteq> ?y" "rt c \<noteq> ?w" "rt b \<noteq> ?y" "rt b = 0 \<or> rt b \<noteq> rt c"
    using x(4,18) y(1,4,15) x(18) y(1) rt_disj [of b c] by (auto simp: place_facts)
  obtain k where k: "tget h ?w = Ok k" "tn_p k CP = ?y" using tget_up [OF w(5)] w(1) by auto
  obtain j where j: "tget h ?y = Ok j" "tn_p j CP = ?x" using tget_up [OF y(5)] y(1) by auto
  have j': "tn_p j (sd (\<not> lf)) = rt c" using tget_down [OF y(7)] j(1) by auto
  obtain h1 where h1: "t_fix ?x (rt c) (sd lf) h = Ok h1" "chain root [?f1] h h1"
    using chain_step [OF chain_start, of ?x "sd lf" root "rt c" h] x(1,2,3) y(11,13) by auto
  obtain k' where k': "tget h1 ?w = Ok k'" "tn_p k' (sd (\<not> lf)) = rt b" using chain_down [OF h1(2) w(7)] n(3,8) by (cases "rt b = 0") auto
  obtain h2 where h2: "t_fix ?y (rt b) (sd lf) h1 = Ok h2" "chain root [?f1, ?f2] h h2"
    using chain_step [OF h1(2), of ?y "sd lf" "rt b"] y(1,2,3) w(11,13) by auto
  obtain g where g: "tget h2 ?x = Ok g" "tn_p g CP = ?p" "tn_dir g = cdir ctx" using chain_up [OF h2(2) x(5)] x(1,4) n by auto
  obtain h3 where h3: "t_fix ?p ?w (cdir ctx) h2 = Ok h3" "chain root [?f1, ?f2, ?f3] h h3"
    using chain_step [OF h2(2), of ?p "cdir ctx" ?w] x(15,16,17) w(1,2,3) by auto
  obtain h4 where h4: "t_fix ?w ?y (sd (\<not> lf)) h3 = Ok h4" "chain root [?f1, ?f2, ?f3, ?f4] h h4"
    using chain_step [OF h3(2), of ?w "sd (\<not> lf)" ?y] y(2,3) w(1,2,3) by auto
  obtain h5 where h5: "t_fix ?y ?x (sd (\<not> lf)) h4 = Ok h5" "chain root [?f1, ?f2, ?f3, ?f4, ?f5] h h5"
    using chain_step [OF h4(2), of ?y "sd (\<not> lf)" ?x] x(2,3) y(1,2,3) by auto
  have m: "rt c = 0 \<or> rt c \<noteq> rt b" using n(8) by auto
  have s: "settled [?f1, ?f2, ?f3, ?f4, ?f5]" using x(4) y(4,8,9) w(4,8,9,14) n y(4) [THEN not_sym] w(4) [THEN not_sym] n(1-7) [THEN not_sym] x(4) [THEN not_sym] m by simp
  have "trep root h5 (plug ctx (sN lf a e3 (sN lf b e2 (sN lf c e1 z))))" by (rule zigzig_chain [OF assms(1) h5(2) s]) simp
  moreover have "st_zigzig lf ?w h = Ok h5"
    using k j j' k' g d(5,14) h1(1) h2(1) h3(1) h4(1) h5(1) by (simp add: st_zigzig_def)
  moreover have "within (insert root (addrs ?t)) h h5"
    using cpar_cases [of root ctx] rt_cases [of b] rt_cases [of c] by (intro chain_within [OF h5(2) assms(2)]) (auto simp: addrs_plug)
  ultimately show ?thesis using assms ino_plug [OF ino_zigzig, of ctx lf a e3 b e2 c e1 z] by (auto simp: becomes_def)
qed

lemma st_zigzag_ok:
  assumes "trep root h (plug ctx (sN lf (sN (\<not> lf) (sN lf b e3 c) e2 a) e1 z))" "h 0 = None"
  shows "\<exists>h'. st_zigzag lf (fst e3) h = Ok h' \<and>
    becomes root h (plug ctx (sN lf (sN (\<not> lf) (sN lf b e3 c) e2 a) e1 z)) h' (plug ctx (sN lf (sN lf a e2 b) e3 (sN lf c e1 z)))"
proof -
  let ?x = "fst e1" and ?y = "fst e2" and ?w = "fst e3" and ?p = "cpar root ctx"
  let ?f1 = "(?x, rt c, sd lf)" and ?f2 = "(?y, rt b, sd (\<not> lf))" and ?f3 = "(?p, ?w, cdir ctx)"
    and ?f4 = "(?w, ?y, sd lf)" and ?f5 = "(?w, ?x, sd (\<not> lf))"
  let ?t = "plug ctx (sN lf (sN (\<not> lf) (sN lf b e3 c) e2 a) e1 z)"
  note x = trep_node [OF assms(1)]
  note y = trep_node [of root h "(lf, e1, z) # ctx" "\<not> lf" "sN lf b e3 c" e2 a, simplified, OF assms(1)]
  note w = trep_node [of root h "(\<not> lf, e2, a) # (lf, e1, z) # ctx" lf b e3 c, simplified, OF assms(1)]
  have "apart root ?t" using assms(1) by (simp add: trep_def)
  then have d: "?x \<notin> addrs b" "?x \<notin> addrs c" "?x \<noteq> ?w" "?w \<notin> caddrs ctx" "?x \<noteq> 0" "?w \<noteq> root" "?y \<noteq> 0" "?y \<notin> addrs c" "?y \<notin> addrs b"
    "apart root b" "apart root c" "?w \<noteq> 0" "addrs b \<inter> addrs c = {}" "addrs b \<inter> caddrs ctx = {}" "addrs c \<inter> caddrs ctx = {}"
    unfolding apart_plug apart_sN by simp_all blast+
  then have n: "rt b \<noteq> ?x" "rt c \<noteq> ?x" "?x \<noteq> ?w" "?p \<noteq> ?w" "?p \<noteq> ?y" "rt b \<noteq> ?y" "rt c \<noteq> ?y" "rt b = 0 \<or> rt b \<noteq> rt c"
    using x(4,18) y(1,4,15) x(18) y(1) rt_disj [of b c] by (auto simp: place_facts)
  obtain k where k: "tget h ?w = Ok k" "tn_p k CP = ?y" using tget_up [OF w(5)] w(1) by auto
  have k2: "tn_p k (sd (\<not> lf)) = rt c" using tget_down [OF w(7)] k(1) by auto
  obtain j where j: "tget h ?y = Ok j" "tn_p j CP = ?x" using tget_up [OF y(5)] y(1) by auto
  obtain h1 where h1: "t_fix ?x (rt c) (sd lf) h = Ok h1" "chain root [?f1] h h1"
    using chain_step [OF chain_start, of ?x "sd lf" root "rt c" h] x(1,2,3) w(11,13) by auto
  obtain k' where k': "tget h1 ?w = Ok k'" "tn_p k' (sd lf) = rt b" using chain_down [OF h1(2) w(6)] n(3,8) by (cases "rt b = 0") auto
  obtain h2 where h2: "t_fix ?y (rt b) (sd (\<not> lf)) h1 = Ok h2" "chain root [?f1, ?f2] h h2"
    using chain_step [OF h1(2), of ?y "sd (\<not> lf)" "rt b"] y(1,2,3) w(10,12) by auto
  obtain g where g: "tget h2 ?x = Ok g" "tn_p g CP = ?p" "tn_dir g = cdir ctx" using chain_up [OF h2(2) x(5)] x(1,4) n by auto
  obtain h3 where h3: "t_fix ?p ?w (cdir ctx) h2 = Ok h3" "chain root [?f1, ?f2, ?f3] h h3"
    using chain_step [OF h2(2), of ?p "cdir ctx" ?w] x(15,16,17) w(1,2,3) by auto
  obtain h4 where h4: "t_fix ?w ?y (sd lf) h3 = Ok h4" "chain root [?f1, ?f2, ?f3, ?f4] h h4"
    using chain_step [OF h3(2), of ?w "sd lf" ?y] y(2,3) w(1,2,3) by auto
  obtain h5 where h5: "t_fix ?w ?x (sd (\<not> lf)) h4 = Ok h5" "chain root [?f1, ?f2, ?f3, ?f4, ?f5] h h5"
    using chain_step [OF h4(2), of ?w "sd (\<not> lf)" ?x] x(2,3) w(1,2,3) by auto
  have m: "rt c = 0 \<or> rt c \<noteq> rt b" using n(8) by auto
  have s: "settled [?f1, ?f2, ?f3, ?f4, ?f5]" using x(4) y(4,8,9) w(4,8,9,14) n y(4) [THEN not_sym] w(4) [THEN not_sym] n(1-7) [THEN not_sym] x(4) [THEN not_sym] m by simp
  have "trep root h5 (plug ctx (sN lf (sN lf a e2 b) e3 (sN lf c e1 z)))" by (rule zrot_chain [OF assms(1) h5(2) s]) auto
  moreover have "st_zigzag lf ?w h = Ok h5"
    using k k2 j k' g d(5,7) h1(1) h2(1) h3(1) h4(1) h5(1) by (simp add: st_zigzag_def)
  moreover have "within (insert root (addrs ?t)) h h5"
    using cpar_cases [of root ctx] rt_cases [of b] rt_cases [of c] by (intro chain_within [OF h5(2) assms(2)]) (auto simp: addrs_plug)
  ultimately show ?thesis using assms ino_plug [OF ino_zrot, of ctx lf b e3 c e2 a e1 z] by (auto simp: becomes_def)
qed

section \<open>Splaying\<close>

lemma sN_as_Node: "\<exists>l r. sN lf t e s = Node l e r"
  by (simp add: sN_def)

lemma Node_as_sN: "\<exists>t s. Node l e r = sN lf t e s"
  by (cases lf) (auto simp: sN_def)

definition st_rot :: "bool \<Rightarrow> taddr \<Rightarrow> 'k sheap \<Rightarrow> 'k sheap outcome" where
  "st_rot lf = (if lf then st_rr else st_rl)"

lemma st_rot_ok:
  assumes "trep root h (plug ctx (sN lf (sN lf a e2 c) e1 z))" "h 0 = None"
  shows "\<exists>h'. st_rot lf (fst e1) h = Ok h' \<and>
    becomes root h (plug ctx (sN lf (sN lf a e2 c) e1 z)) h' (plug ctx (sN lf a e2 (sN lf c e1 z)))"
proof -
  note x = trep_node [OF assms(1)]
  note y = trep_node [of root h "(lf, e1, z) # ctx" lf a e2 c, simplified, OF assms(1)]
  obtain k where k: "tget h (fst e1) = Ok k" "tn_p k (sd lf) = fst e2" using tget_down [OF x(6)] by auto
  obtain h' where "t_rot lf (fst e1) (fst e2) h = Ok h'"
    "becomes root h (plug ctx (sN lf (sN lf a e2 c) e1 z)) h' (plug ctx (sN lf a e2 (sN lf c e1 z)))"
    using rot_becomes [OF assms] by blast
  then show ?thesis using k x(1) y(1) by (cases lf) (auto simp: st_rot_def st_rr_def st_rl_def)
qed

lemma st_splay_step_ok:
  assumes "trep root h (plug c (Node l e r))" "h 0 = None" "c \<noteq> []"
  shows "\<exists>h' c' l' r'. st_splay_step (fst e) h = Ok h' \<and> length c' < length c
    \<and> becomes root h (plug c (Node l e r)) h' (plug c' (Node l' e r'))"
proof -
  obtain n where n: "tget h (fst e) = Ok n" "tn_p n CP = cpar root c" "tn_dir n = cdir c" using trep_Node [OF assms(1)] by metis
  obtain lf e2 s c1 where c: "c = (lf, e2, s) # c1" using assms(3) by (metis list.exhaust prod_cases3)
  have p: "trep root h (plug c1 (sN lf (Node l e r) e2 s))" using assms(1) by (simp add: c)
  obtain k where k: "tget h (fst e2) = Ok k" "tn_p k CP = cpar root c1" "tn_dir k = cdir c1" "fst e2 \<noteq> 0"
    using tget_up [OF trep_node(5) [OF p] trep_node(1) [OF p]] trep_node(1) [OF p] by auto
  show ?thesis
  proof (cases c1)
    case Nil
    obtain a b where ab: "Node l e r = sN lf a e b" using Node_as_sN [of l e r lf] by blast
    obtain h' where h': "st_rot lf (fst e2) h = Ok h'"
      "becomes root h (plug [] (sN lf (sN lf a e b) e2 s)) h' (plug [] (sN lf a e (sN lf b e2 s)))"
      using st_rot_ok [of root h "[]" lf a e b e2 s] p assms(2) by (auto simp: Nil ab)
    have "st_splay_step (fst e) h = Ok h'" using n k h'(1) by (cases lf) (simp_all add: st_splay_step_def c Nil st_rot_def)
    moreover obtain l' r' where "sN lf a e (sN lf b e2 s) = Node l' e r'" using sN_as_Node by metis
    ultimately show ?thesis using h'(2) by (intro exI [of _ h'] exI [of _ "[]"] exI [of _ l'] exI [of _ r']) (simp add: c Nil ab)
  next
    case (Cons f c2)
    obtain lg e1 z where f: "f = (lg, e1, z)" by (cases f) auto
    have d: "tn_dir k = sd lg" by (simp add: k(3) Cons f)
    show ?thesis
    proof (cases "lf = lg")
      case True
      obtain a b where ab: "Node l e r = sN lg a e b" using Node_as_sN [of l e r lg] by blast
      obtain h' where h': "st_zigzig lg (fst e) h = Ok h'"
        "becomes root h (plug c2 (sN lg (sN lg (sN lg a e b) e2 s) e1 z)) h' (plug c2 (sN lg a e (sN lg b e2 (sN lg s e1 z))))"
        using st_zigzig_ok [of root h c2 lg a e b e2 s e1 z] p assms(2) by (auto simp: Cons f ab True)
      have "st_splay_step (fst e) h = Ok h'" using n k d h'(1)
        by (cases lg) (simp_all add: st_splay_step_def c True st_zll_def st_zrr_def)
      moreover obtain l' r' where "sN lg a e (sN lg b e2 (sN lg s e1 z)) = Node l' e r'" using sN_as_Node by metis
      ultimately show ?thesis using h'(2) by (intro exI [of _ h'] exI [of _ c2] exI [of _ l'] exI [of _ r']) (simp add: c Cons f ab True)
    next
      case False
      obtain a b where ab: "Node l e r = sN lg a e b" using Node_as_sN [of l e r lg] by blast
      have lf: "lf = (\<not> lg)" using False by simp
      obtain h' where h': "st_zigzag lg (fst e) h = Ok h'"
        "becomes root h (plug c2 (sN lg (sN (\<not> lg) (sN lg a e b) e2 s) e1 z)) h' (plug c2 (sN lg (sN lg s e2 a) e (sN lg b e1 z)))"
        using st_zigzag_ok [of root h c2 lg a e b e2 s e1 z] p assms(2) by (auto simp: Cons f ab lf)
      have "st_splay_step (fst e) h = Ok h'" using n k d h'(1)
        by (cases lg) (simp_all add: st_splay_step_def c lf st_zlr_def st_zrl_def)
      moreover obtain l' r' where "sN lg (sN lg s e2 a) e (sN lg b e1 z) = Node l' e r'" using sN_as_Node by metis
      ultimately show ?thesis using h'(2) by (intro exI [of _ h'] exI [of _ c2] exI [of _ l'] exI [of _ r']) (simp add: c Cons f ab lf)
    qed
  qed
qed

text \<open>The node comes to the top, and the order of the nodes stays.\<close>

lemma st_splay_ok:
  assumes "trep root h (plug c (Node l e r))" "h 0 = None"
  shows "\<exists>h' l' r'. st_splay (fst e) h = ret h' \<and> becomes root h (plug c (Node l e r)) h' (Node l' e r')"
  using assms
proof (induction "length c" arbitrary: h c l r rule: less_induct)
  case less
  obtain n where n: "tget h (fst e) = Ok n" "tn_dir n = cdir c" "fst e \<noteq> 0" using trep_Node [OF less.prems(1)] by metis
  show ?case
  proof (cases "c = []")
    case True
    then have "st_splay (fst e) h = ret h" using n by (simp add: st_splay.simps)
    then show ?thesis using becomes_refl [OF less.prems] True by auto
  next
    case False
    have "capart root c" using less.prems(1) by (simp add: trep_plug apart_plug)
    then have d: "cdir c \<noteq> CP" using False by (cases c rule: cdir.cases) auto
    obtain h1 c1 l1 r1 where h1: "st_splay_step (fst e) h = Ok h1" "length c1 < length c"
      "becomes root h (plug c (Node l e r)) h1 (plug c1 (Node l1 e r1))"
      using st_splay_step_ok [OF less.prems False] by blast
    obtain h' l' r' where h': "st_splay (fst e) h1 = ret h'" "becomes root h1 (plug c1 (Node l1 e r1)) h' (Node l' e r')"
      using less.hyps [OF h1(2) becomesD(1,3) [OF h1(3)]] by blast
    have "st_splay (fst e) h = ret h'" using n d h1(1) h'(1) by (subst st_splay.simps) simp
    then show ?thesis using becomes_trans [OF h1(3) h'(2)] by blast
  qed
qed

end
