(* ===== verification/SplayTable.thy ===== *)
theory SplayTable
  imports Splay CString
begin

text \<open>
  The operations of a splay tree as a whole: lookup, insertion and removal keep the state \<open>st_state\<close>,
  and the tree is an instance of the locale \<open>tree_table\<close>.
\<close>

section \<open>The operations on a whole tree\<close>

definition st_state :: "('k \<Rightarrow> 'k \<Rightarrow> int) \<Rightarrow> taddr \<Rightarrow> 'k sheap \<Rightarrow> ('k, unit) ttree \<Rightarrow> bool" where
  "st_state cmp root h t \<longleftrightarrow> trep root h t \<and> ordered cmp (ino t) \<and> owned root h t"

lemma owned_becomes: "becomes root h t h' t' \<Longrightarrow> owned root h t \<Longrightarrow> owned root h' t'"
  using becomes_owned [of root h t h' t'] addrs_ino [of t' t] becomesD(2,3) [of root h t h' t'] by (simp add: owned_def)

lemma state_becomes: "becomes root h t h' t' \<Longrightarrow> ordered cmp (ino t) \<Longrightarrow> owned root h t \<Longrightarrow> st_state cmp root h' t'"
  using becomesD(1,2) [of root h t h' t'] owned_becomes [of root h t h' t'] by (simp add: st_state_def)

text \<open>Where the search ends: at a node, unless the tree is empty.\<close>

lemma locate_end:
  assumes "locate cmp key [] t = (c, u)" "t \<noteq> Leaf"
  obtains c' l e r d where "t = plug c' (Node l e r)" "spot root (c, u) = (fst e, d)" "d = CN \<longleftrightarrow> u \<noteq> Leaf" "u \<noteq> Leaf \<longrightarrow> u = Node l e r \<and> c' = c"
proof (cases u)
  case Leaf
  then obtain lf e s c' where c: "c = (lf, e, s) # c'" using plug_locate [OF assms(1)] assms(2)
    by (cases c) auto
  obtain l r where "sN lf Leaf e s = Node l e r" using sN_as_Node by metis
  then show ?thesis using plug_locate [OF assms(1)] Leaf by (intro that [of c' l e r "cdir c"]) (simp_all add: c)
next
  case (Node l e r)
  then show ?thesis using plug_locate [OF assms(1)] by (intro that [of c l e r CN]) simp_all
qed

lemma st_lkup_ok:
  assumes "st_state cmp root h t"
  shows "\<exists>h' t'. st_lkup cmp root key h = ret (h', rt (snd (locate cmp key [] t))) \<and> st_state cmp root h' t' \<and> ino t' = ino t
    \<and> (snd (locate cmp key [] t) \<noteq> Leaf \<longrightarrow> rt t' = rt (snd (locate cmp key [] t))) \<and> within (insert root (addrs t)) h h'"
proof -
  have s: "trep root h t" "ordered cmp (ino t)" "owned root h t" "h 0 = None" using assms by (auto simp: st_state_def owned_def)
  obtain c u where cu: "locate cmp key [] t = (c, u)" by (cases "locate cmp key [] t") auto
  note f = findloc_ok [OF s(1), of cmp key, unfolded cu]
  show ?thesis
  proof (cases "t = Leaf")
    case True
    then show ?thesis using f cu assms by (auto simp: st_lkup_def)
  next
    case False
    obtain c' l e r d where e: "t = plug c' (Node l e r)" and d: "spot root (c, u) = (fst e, d)" "d = CN \<longleftrightarrow> u \<noteq> Leaf" "u \<noteq> Leaf \<longrightarrow> u = Node l e r \<and> c' = c"
      using locate_end [OF cu False, of root] by metis
    have ne: "fst e \<noteq> root" using s(1) by (auto simp: trep_def e apart_plug apart_Node)
    obtain h' l' r' where h': "st_splay (fst e) h = ret h'" "becomes root h t h' (Node l' e r')"
      using st_splay_ok [of root h c' l e r] s(1,4) by (auto simp: e)
    have "st_lkup cmp root key h = ret (h', rt (snd (locate cmp key [] t)))"
      using f d ne h'(1) cu by (cases u) (auto simp: st_lkup_def)
    moreover have "snd (locate cmp key [] t) \<noteq> Leaf \<longrightarrow> rt (Node l' e r') = rt (snd (locate cmp key [] t))" using d(3) by (auto simp: cu)
    ultimately show ?thesis using state_becomes [OF h'(2) s(2,3)] becomesD(2,4) [OF h'(2)] by blast
  qed
qed

text \<open>A new key.\<close>

lemma st_ins_new:
  assumes "st_state cmp root h t" "tfree () root h n k" "locate cmp k [] t = (c, Leaf)" "n \<notin> addrs t"
    and "ordered cmp (cleft c @ (n, k) # cright c)"
  shows "\<exists>h' t'. st_ins cmp root n h = ret (h', 0) \<and> st_state cmp root h' t' \<and> ino t' = cleft c @ (n, k) # cright c
    \<and> rt t' = n \<and> (\<forall>y. y \<notin> insert n (insert root (addrs t)) \<longrightarrow> h' y = h y)"
proof -
  let ?u = "Node Leaf (n, k, ()) Leaf :: ('a, unit) ttree"
  have a: "trep root h t" "h 0 = None" "\<forall>x \<in> addrs t. owner h x = Some root" using assms(1) by (auto simp: st_state_def owned_def)
  have t: "plug c Leaf = t" using plug_locate [OF assms(3)] by simp
  have inoU: "ino (plug c ?u) = cleft c @ (n, k) # cright c" by (simp add: ino_plug_lr)
  obtain m where m: "h n = Some m" "tn_key m = k" "n \<noteq> 0" "n \<noteq> root" using assms(2) by (auto simp: tfree_def)
  obtain h0 where h0: "tset n (\<lambda>n. n\<lparr>tn_tree := root\<rparr>) h = Ok h0" "links h0 = links h" "info h0 = info h"
    "owner h0 = (owner h)(n \<mapsto> root)" "\<forall>y. y \<noteq> n \<longrightarrow> h0 y = h y" using t_owner_effect [of h n root] m(1) by auto
  have h0n: "tget h0 n = Ok (m\<lparr>tn_tree := root\<rparr>)" using h0(1) m(1) by (auto simp: tset_def tget_def)
  have f0: "tfree () root h0 n k" using assms(2) h0n m by (auto simp: tfree_def tget_def split: option.splits)
  have t0: "trep root h0 t" using trep_links [OF h0(2,3)] a(1) by simp
  have z0: "h0 0 = None" using h0(5) m(3) a(2) by simp
  obtain h1 where h1: "t_fix (cpar root c) n (cdir c) h0 = Ok h1" "trep root h1 (plug c ?u)" "h1 0 = None" "owner h1 = owner h0"
    "\<forall>y. y \<notin> insert n (insert root (addrs t)) \<longrightarrow> h1 y = h0 y"
    using new_leaf [of root h0 c "()" n k] t0 z0 f0 assms(4) unfolding t by blast
  obtain h2 l' r' where h2: "st_splay n h1 = ret h2" "becomes root h1 (plug c ?u) h2 (Node l' (n, k, ()) r')"
    using st_splay_ok [OF h1(2,3)] by auto
  have ap: "capart root c" using a(1) by (auto simp flip: t simp: trep_plug apart_plug)
  have run: "st_ins cmp root n h = ret (if c = [] then h1 else h2, 0)"
  proof (cases "c = []")
    case True
    then show ?thesis using h0(1) h0n m(2) h1(1) findloc_ok [OF t0, of cmp k] assms(3) by (simp add: st_ins_def)
  next
    case False
    then have "cpar root c \<noteq> root" using ap by (cases c rule: cdir.cases) auto
    then show ?thesis using h0(1) h0n m(2) h1(1) h2(1) findloc_ok [OF t0, of cmp k] assms(3) False by (simp add: st_ins_def)
  qed
  have own: "owned root h1 (plug c ?u)" using a(3) h1(3,4) h0(4) by (auto simp: owned_def addrs_plug simp flip: t)
  have w: "h1 y = h y" if "y \<notin> insert n (insert root (addrs t))" for y using that h1(5) h0(5) by auto
  have o: "ordered cmp (ino (plug c ?u))" using assms(5) inoU by simp
  show ?thesis
  proof (cases "c = []")
    case True
    have "st_state cmp root h1 (plug c ?u)" using h1(2) o own by (simp add: st_state_def)
    then show ?thesis using run inoU w True by (intro exI [of _ h1] exI [of _ "plug c ?u"]) auto
  next
    case False
    have "h2 y = h y" if "y \<notin> insert n (insert root (addrs t))" for y
      using that w becomesD(4) [OF h2(2)] by (auto simp: within_def addrs_plug simp flip: t)
    then show ?thesis using run state_becomes [OF h2(2) o own] becomesD(2) [OF h2(2)] inoU False
      by (intro exI [of _ h2] exI [of _ "Node l' (n, k, ()) r'"]) auto
  qed
qed

section \<open>Removal\<close>

lemma last_unique: "distinct (xs @ [a]) \<Longrightarrow> ys @ a # zs = xs @ [a] \<Longrightarrow> zs = []"
  by (cases zs rule: rev_cases) auto

lemma ino_Nil: "ino t = [] \<longleftrightarrow> t = Leaf"
  by (cases t) auto

text \<open>A subtree of the root becomes the whole tree.\<close>

lemma root_graft:
  assumes "shape root h s" "apart root s" "h root \<noteq> None" "h 0 = None"
  shows "\<exists>h'. t_fix root (rt s) CP h = Ok h' \<and> trep root h' s \<and> within (insert root (addrs s)) h h'
    \<and> (\<forall>t. shape root h t \<and> root \<notin> addrs t \<and> rt s \<notin> addrs t \<longrightarrow> shape root h' t)"
  using graft_within [of root h "[]" s] assms by auto

text \<open>The left subtree, its last node splayed to the top, takes the right subtree.\<close>

lemma st_join:
  assumes "trep root h (Node l (n, k, ()) r)" "h 0 = None" "l \<noteq> Leaf"
  shows "\<exists>rep h1 h2 q m h3 t. t_last CR h (rt l) = ret rep \<and> t_fix root (rt l) CP h = Ok h1 \<and> st_splay rep h1 = ret h2
    \<and> tget h2 rep = Ok q \<and> tget h2 n = Ok m \<and> tn_p q CR = 0 \<and> t_fix rep (tn_p m CR) CR h2 = Ok h3
    \<and> trep root h3 t \<and> ino t = ino l @ ino r \<and> within (insert root (addrs l \<union> addrs r)) h h3"
proof -
  let ?T = "Node l (n, k, ()) r"
  have s: "shape root h l" "shape root h r" and ap: "apart root ?T" using assms(1) by (auto simp: trep_def)
  have d: "apart root l" "apart root r" "addrs l \<inter> addrs r = {}" "n \<notin> addrs l" "n \<notin> addrs r" "n \<noteq> root" "root \<notin> addrs r" "0 \<notin> addrs l" "root \<notin> addrs l" "root \<noteq> 0"
    using ap by (auto simp: apart_Node) (auto simp: apart_def)
  obtain c e u where c: "l = plug c (sN False Leaf e u)" "\<forall>f \<in> set c. fst f = False" "t_last CR h (rt l) = ret (fst e)"
    using t_last_ok [OF s(1) assms(3), of False] by auto
  have cr: "cright c = []" using c(2) by (induction c rule: cright.induct) auto
  obtain h1 where h1: "t_fix root (rt l) CP h = Ok h1" "trep root h1 l" "within (insert root (addrs l)) h h1"
    "\<forall>t. shape root h t \<and> root \<notin> addrs t \<and> rt l \<notin> addrs t \<longrightarrow> shape root h1 t"
    using root_graft [OF s(1) d(1) root_dom [OF assms(1)] assms(2)] by blast
  have "rt l \<notin> addrs r" using rt_in [OF assms(3)] d(3) by auto
  then have r1: "shape root h1 r" using h1(4) s(2) d(7) by blast
  have z1: "h1 0 = None" using h1(3) assms(2) d(8,10) by (simp add: within_def)
  obtain h2 l' r' where h2: "st_splay (fst e) h1 = ret h2" "becomes root h1 l h2 (Node l' e r')"
    using st_splay_ok [of root h1 c u e Leaf] h1(2) z1 by (auto simp: c(1) sN_def)
  have il: "ino l = (cleft c @ ino u) @ [(fst e, fst (snd e))]" unfolding c(1) ino_plug_lr cr by (cases e) (simp add: sN_def)
  have "ino l' @ (fst e, fst (snd e)) # ino r' = (cleft c @ ino u) @ [(fst e, fst (snd e))]"
    using becomesD(2) [OF h2(2)] il by (cases e) simp
  moreover have "distinct (ino l)" using d(1) by (auto simp: apart_def distinct_map)
  ultimately have r': "r' = Leaf" using last_unique [of "cleft c @ ino u"] il ino_Nil by metis
  have il': "ino l' @ [(fst e, fst (snd e))] = ino l" using becomesD(2) [OF h2(2)] by (cases e) (simp add: r')
  have al: "addrs l = insert (fst e) (addrs l')" using addrs_ino [OF becomesD(2) [OF h2(2)]] by (simp add: r')
  have w2: "within (insert root (addrs l)) h h2" using within_trans [OF h1(3) becomesD(4) [OF h2(2)]] by blast
  have "\<forall>y \<in> addrs r. h2 y = h1 y" using becomesD(4) [OF h2(2)] d(3,7) by (auto simp: within_def)
  then have r2: "shape root h2 r" using shape_off [OF r1] by blast
  have t2: "trep root h2 (plug [(False, e, l')] Leaf)" using becomesD(1) [OF h2(2)] by (simp add: r' sN_def)
  have cs: "cshape root h2 [(False, e, l')]" using t2 unfolding trep_plug by blast
  have ap2: "apart root (plug [(False, e, l')] r)" using becomesD(1) [OF h2(2)] d(2,3) by (auto simp: trep_def r' apart_Node apart_sN al)
  obtain q where q: "tget h2 (fst e) = Ok q" "tn_p q CR = 0" using trep_Node [of root h2 "[]" l' e Leaf] becomesD(1) [OF h2(2)] by (auto simp: r')
  obtain m where m: "tget h n = Ok m" "tn_p m CR = rt r" using trep_Node [of root h "[]" l "(n, k, ())" r] assms(1) by auto
  have m2: "tget h2 n = Ok m" using w2 m(1) d(4,6) by (simp add: within_def tget_def)
  obtain h3 where h3: "t_fix (fst e) (rt r) CR h2 = Ok h3" "trep root h3 (plug [(False, e, l')] r)"
    "within (insert root (addrs (plug [(False, e, l')] r))) h2 h3"
    using graft_within [OF cs r2 ap2 root_dom [OF t2] becomesD(3) [OF h2(2)]] by auto
  have "within (insert root (addrs l \<union> addrs r)) h h3" by (rule within_trans [OF w2 h3(3)]) (auto simp: al addrs_plug)
  moreover have "ino (plug [(False, e, l')] r) = ino l @ ino r" using il' by (cases e) (simp add: sN_def flip: il')
  ultimately show ?thesis using c(3) h1(1) h2(1) q m2 m(2) h3(1,2) by auto
qed

lemma st_rem_ok:
  assumes "st_state cmp root h t" "(n, k) \<in> set (ino t)"
  shows "\<exists>h' t' xs ys. st_rem n h = ret h' \<and> st_state cmp root h' t' \<and> ino t = xs @ (n, k) # ys \<and> ino t' = xs @ ys
    \<and> tfree () root h' n k \<and> owner h' n = Some root \<and> (\<forall>y. y \<notin> insert root (addrs t) \<longrightarrow> h' y = h y)"
proof -
  have s: "trep root h t" "ordered cmp (ino t)" "owned root h t" "h 0 = None" using assms by (auto simp: st_state_def owned_def)
  obtain c l0 r0 where t: "t = plug c (Node l0 (n, k, ()) r0)" using ino_split [OF assms(2)] by auto
  obtain h1 l r where h1: "st_splay n h = ret h1" "becomes root h t h1 (Node l (n, k, ()) r)"
    using st_splay_ok [of root h c l0 "(n, k, ())" r0] s(1,4) by (auto simp: t)
  let ?T = "Node l (n, k, ()) r"
  note b = becomesD [OF h1(2)]
  have i: "ino t = ino l @ (n, k) # ino r" using b(2) by simp
  have ad: "addrs t = insert n (addrs l \<union> addrs r)" using addrs_ino [OF b(2)] by simp
  have sh: "shape root h1 l" "shape root h1 r" and ap: "apart root ?T" using b(1) by (auto simp: trep_def)
  have d: "apart root l" "apart root r" "n \<notin> addrs l" "n \<notin> addrs r" "n \<noteq> root" "n \<noteq> 0" "root \<noteq> 0" "0 \<notin> addrs l" "0 \<notin> addrs r"
    using ap by (auto simp: apart_Node) (auto simp: apart_def)
  obtain k0 where k0: "tget h n = Ok k0" "tn_tree k0 = root" using s(3) by (auto simp: owned_def owner_def ad tget_def split: option.splits)
  obtain m where m: "tget h1 n = Ok m" "tn_key m = k" "tn_p m CL = rt l" "tn_p m CR = rt r" using trep_Node [of root h1 "[]" l "(n, k, ())" r] b(1) by auto
  have z: "rt l = 0 \<longleftrightarrow> l = Leaf" "rt r = 0 \<longleftrightarrow> r = Leaf" using d rt_cases [of l] rt_cases [of r] by auto
  note g = root_graft [OF _ _ root_dom [OF b(1)] b(3)]
  have "\<exists>h2 t2. st_rem n h = Some (tset n (\<lambda>n. n\<lparr>tn_p := (tn_p n)(CL := 0, CR := 0, CP := 0), tn_dir := CN\<rparr>) h2)
    \<and> trep root h2 t2 \<and> ino t2 = ino l @ ino r \<and> within (insert root (addrs l \<union> addrs r)) h1 h2"
  proof (cases "l = Leaf \<or> r = Leaf")
    case True
    define u where "u = (if l = Leaf then r else l)"
    obtain h2 where h2: "t_fix root (rt u) CP h1 = Ok h2" "trep root h2 u" "within (insert root (addrs u)) h1 h2"
      using g [of u] sh d(1,2) unfolding u_def by (cases "l = Leaf") auto
    have "within (insert root (addrs l \<union> addrs r)) h1 h2" by (rule within_mono [OF h2(3)]) (auto simp: u_def)
    moreover have "ino u = ino l @ ino r" using True by (auto simp: u_def)
    moreover have "st_rem n h = Some (tset n (\<lambda>n. n\<lparr>tn_p := (tn_p n)(CL := 0, CR := 0, CP := 0), tn_dir := CN\<rparr>) h2)"
      using k0 d(6,7) h1(1) m z h2(1) True by (auto simp: st_rem_def u_def Let_def)
    ultimately show ?thesis using h2(2) by blast
  next
    case False
    obtain rep h1' h2 q m' h3 t3 where j: "t_last CR h1 (rt l) = ret rep" "t_fix root (rt l) CP h1 = Ok h1'" "st_splay rep h1' = ret h2"
      "tget h2 rep = Ok q" "tget h2 n = Ok m'" "tn_p q CR = 0" "t_fix rep (tn_p m' CR) CR h2 = Ok h3"
      "trep root h3 t3" "ino t3 = ino l @ ino r" "within (insert root (addrs l \<union> addrs r)) h1 h3"
      using st_join [OF b(1,3)] False by blast
    have "st_rem n h = Some (tset n (\<lambda>n. n\<lparr>tn_p := (tn_p n)(CL := 0, CR := 0, CP := 0), tn_dir := CN\<rparr>) h3)"
      using k0 d(6,7) h1(1) m z False j(1-7) by (auto simp: st_rem_def Let_def)
    then show ?thesis using j(8-10) by blast
  qed
  then obtain h2 t2 where h2: "st_rem n h = Some (tset n (\<lambda>n. n\<lparr>tn_p := (tn_p n)(CL := 0, CR := 0, CP := 0), tn_dir := CN\<rparr>) h2)"
    "trep root h2 t2" "ino t2 = ino l @ ino r" "within (insert root (addrs l \<union> addrs r)) h1 h2" by blast
  have m2: "h2 n = Some m" using h2(4) m(1) d(3,4,5) by (auto simp: within_def tget_def split: option.splits)
  let ?h = "h2(n \<mapsto> m\<lparr>tn_p := (tn_p m)(CL := 0, CR := 0, CP := 0), tn_dir := CN\<rparr>)"
  have a2: "addrs t2 = addrs l \<union> addrs r" using h2(3) set_ino [of t2] by (auto simp flip: set_ino)
  have tr: "trep root ?h t2" by (rule trep_off [OF h2(2)]) (use d a2 in auto)
  have o: "ordered cmp (ino t2)" using s(2) by (auto simp: h2(3) i ordered_def sorted_wrt_append)
  have "owner h2 = owner h" using h2(4) b(4) by (simp add: within_def)
  moreover have "owner ?h = owner h2" using m2 by (auto simp: owner_def fun_eq_iff)
  ultimately have ow: "owner ?h = owner h" by simp
  have z2: "?h 0 = None" using fun_cong [OF ow, of 0] s(4) unfolding owner_def by simp
  have ow2: "owned root ?h t2" unfolding owned_def ow a2 using z2 s(3) by (auto simp: owned_def ad)
  have "st_rem n h = ret ?h" using h2(1) m2 by (simp add: tset_def)
  moreover have "tfree () root ?h n k" using d(5,6) m(2) by (simp add: tfree_def)
  moreover have "owner ?h n = Some root" using s(3) ow by (simp add: owned_def ad)
  moreover have "\<forall>y. y \<notin> insert root (addrs t) \<longrightarrow> ?h y = h y" using h2(4) b(4) by (auto simp: within_def ad)
  ultimately show ?thesis using i h2(3) tr o ow2 unfolding st_state_def by blast
qed

section \<open>Insertion, and the tree as a table\<close>

lemma st_ins_replace:
  assumes "cmp_order cmp" "st_state cmp root h t" "tfree () root h y ky" "y \<notin> addrs t" "(n, k) \<in> set (ino t)" "cmp ky k = 0"
  shows "\<exists>h' t' xs ys. st_ins cmp root y h = ret (h', n) \<and> st_state cmp root h' t' \<and> ino t = xs @ (n, k) # ys \<and> ino t' = xs @ (y, ky) # ys
    \<and> rt t' = y \<and> tfree () root h' n k \<and> (\<forall>x. x \<notin> insert y (insert root (addrs t)) \<longrightarrow> h' x = h x)"
proof -
  have a: "trep root h t" "ordered cmp (ino t)" "h 0 = None" "\<forall>x \<in> addrs t. owner h x = Some root"
    using assms(2) by (auto simp: st_state_def owned_def)
  obtain c l0 b r0 where c: "locate cmp ky [] t = (c, Node l0 (n, k, b) r0)" and t: "t = plug c (Node l0 (n, k, b) r0)"
    using cmp_order.locate_present [OF assms(1) a(2) assms(5,6)] by blast
  obtain m where m: "h y = Some m" "tn_key m = ky" "y \<noteq> 0" "y \<noteq> root" using assms(3) by (auto simp: tfree_def)
  obtain h0 where h0: "tset y (\<lambda>n. n\<lparr>tn_tree := root\<rparr>) h = Ok h0" "links h0 = links h" "info h0 = info h"
    "owner h0 = (owner h)(y \<mapsto> root)" "\<forall>x. x \<noteq> y \<longrightarrow> h0 x = h x" using t_owner_effect [of h y root] m(1) by auto
  have h0y: "tget h0 y = Ok (m\<lparr>tn_tree := root\<rparr>)" using h0(1) m(1) by (auto simp: tset_def tget_def)
  have t0: "trep root h0 t" using trep_links [OF h0(2,3)] a(1) by simp
  have z0: "h0 0 = None" using h0(5) m(3) a(3) by simp
  obtain h1 l r where h1: "st_splay n h0 = ret h1" "becomes root h0 t h1 (Node l (n, k, ()) r)"
    using st_splay_ok [of root h0 c l0 "(n, k, b)" r0] t0 z0 by (auto simp: t)
  note b1 = becomesD [OF h1(2)]
  have i: "ino t = ino l @ (n, k) # ino r" using b1(2) by simp
  have ad: "addrs t = insert n (addrs l \<union> addrs r)" using addrs_ino [OF b1(2)] by simp
  have yi: "info h1 y = Some (ky, ())"
    using b1(4) h0y assms(4) m(2,4) by (auto simp: within_def tget_def info_def split: option.splits)
  obtain h2 where h2: "t_replace n y h1 = Ok h2" "trep root h2 (Node l (y, ky, ()) r)" "info h2 = info h1"
    "within (insert y (insert root (addrs t))) h1 h2"
    using t_replace_ok [of root h1 "[]" l "(n, k, ())" r y ky "()"] b1(1,3) yi assms(4) m(4) by (auto simp: ad)
  have ap: "apart root (Node l (n, k, ()) r)" using b1(1) by (simp add: trep_def)
  have n: "n \<noteq> 0" "n \<noteq> root" "n \<noteq> y" "n \<notin> addrs l" "n \<notin> addrs r" using ap assms(4) by (auto simp: ad apart_Node)
  have "info h2 n = Some (k, ())" using h2(3) b1(1) by (simp add: trep_def)
  then obtain q where q: "h2 n = Some q" "tn_key q = k" by (auto simp: info_def)
  let ?q = "q\<lparr>tn_p := (tn_p q)(CL := 0, CR := 0, CP := 0), tn_dir := CN\<rparr>"
  let ?h = "h2(n \<mapsto> ?q)" and ?u = "Node l (y, ky, ()) r"
  have t3: "trep root ?h ?u" by (rule trep_off [OF h2(2)]) (use n in auto)
  have run: "st_ins cmp root y h = ret (?h, n)"
    using h0(1) h0y m(2) findloc_ok [OF t0, of cmp ky] c n(2) h1(1) h2(1) q(1) by (simp add: st_ins_def tset_def)
  have "owner ?h = owner h2" using q(1) by (auto simp: owner_def fun_eq_iff)
  then have ow: "owner ?h = (owner h)(y \<mapsto> root)" using h2(4) b1(4) h0(4) by (simp add: within_def)
  have z: "?h 0 = None" using fun_cong [OF ow, of 0] a(3) m(3) unfolding owner_def by simp
  have "owned root ?h ?u" unfolding owned_def ow using z a(4) by (auto simp: ad)
  moreover have "ordered cmp (ino ?u)" using cmp_order.ordered_replace [OF assms(1)] assms(6) a(2) by (simp add: i)
  ultimately have "st_state cmp root ?h ?u" using t3 by (simp add: st_state_def)
  moreover have "tfree () root ?h n k" using n q(2) by (simp add: tfree_def)
  moreover have "\<forall>x. x \<notin> insert y (insert root (addrs t)) \<longrightarrow> ?h x = h x" using h2(4) b1(4) h0(5) by (auto simp: within_def ad)
  moreover have "ino ?u = ino l @ (y, ky) # ino r" by simp
  moreover have "rt ?u = y" by simp
  ultimately show ?thesis using run i by blast
qed

context cmp_order
begin

lemma st_insert_new:
  assumes "st_state cmp root h t" "tfree () root h n k" "\<forall>(m, j) \<in> set (ino t). cmp j k \<noteq> 0"
  shows "\<exists>h' t' xs ys. st_ins cmp root n h = ret (h', 0) \<and> st_state cmp root h' t' \<and> ino t = xs @ ys \<and> ino t' = xs @ (n, k) # ys
    \<and> rt t' = n \<and> (\<forall>x. x \<notin> insert n (insert root (addrs t)) \<longrightarrow> h' x = h x)"
proof -
  have tr: "shape root h t" "ordered cmp (ino t)" using assms(1) by (auto simp: st_state_def trep_def)
  obtain c where c: "locate cmp k [] t = (c, Leaf)" using locate_fresh(1) [OF assms(3)] by blast
  show ?thesis
    using st_ins_new [OF assms(1,2) c locate_fresh(2) [OF assms(3) tr(1) assms(2)] locate_absent(2) [OF tr(2) c]] locate_absent(1) [OF tr(2) c]
    by blast
qed

end

definition st_find :: "('k \<Rightarrow> 'k \<Rightarrow> int) \<Rightarrow> taddr \<Rightarrow> 'k \<Rightarrow> 'k sheap \<Rightarrow> taddr run" where
  "st_find cmp root key h = rbind (st_lkup cmp root key h) (\<lambda>(h, a). ret a)"

text \<open>Splay trees keep the contract of a search tree.\<close>

lemma st_tree_table:
  assumes "cmp_order cmp"
  shows "tree_table cmp root () (st_state cmp root) (st_find cmp root) (st_ins cmp root) st_rem"
proof (intro tree_table.intro assms tree_table_axioms.intro)
  fix h n k and t :: "('a, unit) ttree"
  assume "st_state cmp root h t" "tfree () root h n k" "\<forall>(m, j) \<in> set (ino t). cmp j k \<noteq> 0"
  from cmp_order.st_insert_new [OF assms this]
  show "\<exists>h' t' xs ys. st_ins cmp root n h = ret (h', 0) \<and> st_state cmp root h' t' \<and> ino t = xs @ ys \<and> ino t' = xs @ (n, k) # ys"
    by blast
next
  fix h n k and t :: "('a, unit) ttree"
  assume "st_state cmp root h t" "(n, k) \<in> set (ino t)"
  from st_rem_ok [OF this]
  show "\<exists>h' t' xs ys. st_rem n h = ret h' \<and> st_state cmp root h' t' \<and> ino t = xs @ (n, k) # ys \<and> ino t' = xs @ ys \<and> tfree () root h' n k"
    by blast
next
  fix h k and t :: "('a, unit) ttree"
  assume "st_state cmp root h t"
  then obtain h' where "st_lkup cmp root k h = ret (h', rt (snd (locate cmp k [] t)))" using st_lkup_ok [of cmp root h t k] by blast
  then show "st_find cmp root k h = ret (rt (snd (locate cmp k [] t)))" by (simp add: st_find_def)
qed (auto simp: st_state_def)

interpretation st_strings: tree_table lexcmp root "()" "st_state lexcmp root" "st_find lexcmp root" "st_ins lexcmp root" st_rem for root
  by (rule st_tree_table [OF lex.cmp_order_axioms])


section \<open>What the callers see\<close>

definition sample_splay :: "byte list sheap" where
  "sample_splay = [1 \<mapsto> tn 0 2 0 CP () 0 [], 2 \<mapsto> tn 3 1 0 CP () 1 [98], 3 \<mapsto> tn 0 2 0 CL () 1 [97], 4 \<mapsto> tn 0 0 0 CN () 0 [99],
     5 \<mapsto> tn 0 0 0 CN () 0 [98]]"

definition sample_splay_tree :: "(byte list, unit) ttree" where
  "sample_splay_tree = Node (Node Leaf (3, [97], ()) Leaf) (2, [98], ()) Leaf"

lemma sample_splay: "st_state lexcmp 1 sample_splay sample_splay_tree" "tfree () 1 sample_splay 4 [99]" "tfree () 1 sample_splay 5 [98]"
  by (auto simp: st_state_def trep_def sample_splay_def sample_splay_tree_def tn_def edge_def info_def apart_def ordered_def owned_def owner_def tfree_def)

lemma sample_splay_tree: "ino sample_splay_tree = [(3, [97]), (2, [98])]" "addrs sample_splay_tree = {2, 3}"
  by (auto simp: sample_splay_tree_def)

text \<open>C33: A lookup in a splay tree returns the node with the key, or NULL when no node has it; it changes the shape
  of the tree but not its nodes or their order, leaves a well linked ordered tree with the node it found at the
  top, and touches nothing outside the tree.\<close>

theorem st_lookup_splays:
  assumes "cmp_order cmp" "st_state cmp root h t"
  shows "\<exists>h' t' n. st_lkup cmp root key h = ret (h', n) \<and> st_state cmp root h' t' \<and> ino t' = ino t
    \<and> (if n = 0 then \<forall>(m, j) \<in> set (ino t). cmp j key \<noteq> 0 else rt t' = n \<and> (\<exists>j. (n, j) \<in> set (ino t) \<and> cmp j key = 0))
    \<and> (\<forall>y. y \<notin> insert root (addrs t) \<longrightarrow> h' y = h y)"
proof -
  obtain h' t' where h': "st_lkup cmp root key h = ret (h', rt (snd (locate cmp key [] t)))" "st_state cmp root h' t'" "ino t' = ino t"
    "snd (locate cmp key [] t) \<noteq> Leaf \<longrightarrow> rt t' = rt (snd (locate cmp key [] t))" "within (insert root (addrs t)) h h'"
    using st_lkup_ok [OF assms(2)] by blast
  note l = tree_table.located [OF st_tree_table [OF assms(1)] assms(2), of key]
  have "snd (locate cmp key [] t) \<noteq> Leaf" if "rt (snd (locate cmp key [] t)) \<noteq> 0" using that by auto
  then show ?thesis using h' l
    by (intro exI [of _ h'] exI [of _ t'] exI [of _ "rt (snd (locate cmp key [] t))"]) (simp add: within_def)
qed

lemma st_lookup_splays_witness:
  "\<exists>h' t' n. st_lkup lexcmp 1 [97] sample_splay = ret (h', n) \<and> st_state lexcmp 1 h' t' \<and> ino t' = [(3, [97]), (2, [98])] \<and> n = 3 \<and> rt t' = 3"
  using st_lookup_splays [OF lex.cmp_order_axioms sample_splay(1), of "[97]"]
  unfolding sample_splay_tree by (fastforce simp: lexcmp_zero split: if_splits)

text \<open>C35: Inserting a node into a splay tree puts it at the top of the tree: in its place in the order when its key is
  new, or in the place of the node that had its key, which is returned ready to be inserted again.  No node
  outside the tree is touched.\<close>

theorem st_insert_refines:
  assumes "cmp_order cmp" "st_state cmp root h t" "tfree () root h n k" "n \<notin> addrs t"
  shows "\<exists>h' t' r xs ys. st_ins cmp root n h = ret (h', r) \<and> st_state cmp root h' t' \<and> rt t' = n \<and> ino t' = xs @ (n, k) # ys
    \<and> (if r = 0 then ino t = xs @ ys else \<exists>j. ino t = xs @ (r, j) # ys \<and> cmp k j = 0 \<and> tfree () root h' r j)
    \<and> (\<forall>y. y \<notin> insert n (insert root (addrs t)) \<longrightarrow> h' y = h y)"
proof (cases "\<forall>(m, j) \<in> set (ino t). cmp j k \<noteq> 0")
  case True
  then show ?thesis using cmp_order.st_insert_new [OF assms(1-3)] by fastforce
next
  case False
  then obtain m j where m: "(m, j) \<in> set (ino t)" "cmp k j = 0" using cmp_order.zero_sym [OF assms(1)] by blast
  have "m \<noteq> 0" using m(1) assms(2) by (force simp: st_state_def trep_def apart_def simp flip: set_ino)
  then show ?thesis using st_ins_replace [OF assms m] m(2) by fastforce
qed

lemma st_insert_refines_witness:
  "\<exists>h' t' r. st_ins lexcmp 1 5 sample_splay = ret (h', r) \<and> st_state lexcmp 1 h' t' \<and> rt t' = 5"
proof -
  have "5 \<notin> addrs sample_splay_tree" by (simp add: sample_splay_tree)
  from st_insert_refines [OF lex.cmp_order_axioms sample_splay(1,3) this] show ?thesis by blast
qed

text \<open>C37: Removing a node from a splay tree leaves the other nodes in their order, in a well linked tree, and gives
  the node back ready to be inserted again, except that it still names the tree as its owner.\<close>

theorem st_remove_refines:
  assumes "st_state cmp root h t" "(n, k) \<in> set (ino t)"
  shows "\<exists>h' t' xs ys. st_rem n h = ret h' \<and> st_state cmp root h' t' \<and> ino t = xs @ (n, k) # ys \<and> ino t' = xs @ ys
    \<and> tfree () root h' n k \<and> owner h' n = Some root \<and> (\<forall>y. y \<notin> insert root (addrs t) \<longrightarrow> h' y = h y)"
  using st_rem_ok [OF assms] .

lemma st_remove_refines_witness:
  "\<exists>h' t'. st_rem 2 sample_splay = ret h' \<and> st_state lexcmp 1 h' t' \<and> ino t' = [(3, [97])] \<and> owner h' 2 = Some 1"
proof -
  have "(2, [98]) \<in> set (ino sample_splay_tree)" by (simp add: sample_splay_tree)
  from st_remove_refines [OF sample_splay(1) this] show ?thesis unfolding sample_splay_tree
    by (auto simp: Cons_eq_append_conv)
qed

end
