(* ===== verification/RbTree.thy ===== *)
theory RbTree
  imports TreeTable
begin

text \<open>
  Red-black trees (include/cat/rbtree.h), on the heap of nodes the other search trees use: the tag of
  a node is its colour.
\<close>

section \<open>The operations\<close>

datatype rbcol = RED | BLACK

type_synonym 'k rheap = "('k, rbcol) theap"

text \<open>The header's own copies of the functions the trees share.\<close>

definition rb_fix :: "taddr \<Rightarrow> taddr \<Rightarrow> tdir \<Rightarrow> 'k rheap \<Rightarrow> 'k rheap outcome" where "rb_fix = t_fix"
definition rb_findloc :: "('k \<Rightarrow> 'k \<Rightarrow> int) \<Rightarrow> taddr \<Rightarrow> 'k \<Rightarrow> 'k rheap \<Rightarrow> (taddr \<times> tdir) run" where "rb_findloc = t_findloc"
definition rb_findrep :: "taddr \<Rightarrow> 'k rheap \<Rightarrow> taddr run" where "rb_findrep = t_findrep"
definition rb_getmin :: "taddr \<Rightarrow> 'k rheap \<Rightarrow> taddr run" where "rb_getmin = t_extreme CL"
definition rb_getmax :: "taddr \<Rightarrow> 'k rheap \<Rightarrow> taddr run" where "rb_getmax = t_extreme CR"
definition rb_apply :: "taddr \<Rightarrow> (taddr \<Rightarrow> 's \<Rightarrow> 's) \<Rightarrow> 's \<Rightarrow> 'k rheap \<Rightarrow> 's run" where "rb_apply = t_apply"

definition rb_isempty :: "taddr \<Rightarrow> 'k rheap \<Rightarrow> bool outcome" where
  "rb_isempty root h = obind (tget h root) (\<lambda>n. Ok (tn_p n CP = 0))"

definition rb_getroot :: "taddr \<Rightarrow> 'k rheap \<Rightarrow> taddr outcome" where
  "rb_getroot root h = obind (tget h root) (\<lambda>n. Ok (tn_p n CP))"

definition rb_ninit :: "taddr \<Rightarrow> 'k \<Rightarrow> 'k rheap \<Rightarrow> 'k rheap outcome" where
  "rb_ninit n k h = abort_unless (n \<noteq> 0)
     (tset n (\<lambda>n. n\<lparr>tn_p := (tn_p n)(CL := 0, CP := 0, CR := 0), tn_dir := CL, tn_tag := RED, tn_key := k\<rparr>) h)"

definition rb_init :: "taddr \<Rightarrow> 'k \<Rightarrow> 'k rheap \<Rightarrow> 'k rheap outcome" where
  "rb_init root null h = obind (rb_ninit root null h) (tset root (\<lambda>n. n\<lparr>tn_dir := CP\<rparr>))"

definition rb_lkup :: "('k \<Rightarrow> 'k \<Rightarrow> int) \<Rightarrow> taddr \<Rightarrow> 'k \<Rightarrow> 'k rheap \<Rightarrow> taddr run" where
  "rb_lkup cmp root key h = rbind (rb_findloc cmp root key h) (\<lambda>(p, d). ret (if d = CN then p else 0))"

definition rb_rot :: "bool \<Rightarrow> taddr \<Rightarrow> 'k rheap \<Rightarrow> 'k rheap outcome" where
  "rb_rot lf n h = abort_unless (n \<noteq> 0) (obind (tget h n) (\<lambda>k. abort_unless (tn_p k (sd lf) \<noteq> 0) (t_rot lf n (tn_p k (sd lf)) h)))"

definition rb_rleft :: "taddr \<Rightarrow> 'k rheap \<Rightarrow> 'k rheap outcome" where "rb_rleft = rb_rot False"
definition rb_rright :: "taddr \<Rightarrow> 'k rheap \<Rightarrow> 'k rheap outcome" where "rb_rright = rb_rot True"

definition rb_col :: "taddr \<Rightarrow> 'k rheap \<Rightarrow> rbcol outcome" where
  "rb_col a h = (if a = 0 then Ok BLACK else obind (tget h a) (\<lambda>n. Ok (tn_tag n)))"

abbreviation set_col :: "taddr \<Rightarrow> rbcol \<Rightarrow> 'k rheap \<Rightarrow> 'k rheap outcome" where
  "set_col a c \<equiv> t_tag a (\<lambda>_. c)"

text \<open>
  One turn of the loop of an insertion, below a red parent; \<open>lf\<close> says that the parent is a left
  child.  It returns the heap and the node to go on with.
\<close>

definition rb_up_step :: "bool \<Rightarrow> taddr \<Rightarrow> taddr \<Rightarrow> 'k rheap \<Rightarrow> ('k rheap \<times> taddr) outcome" where
  "rb_up_step lf node par h =
     obind (tget h par) (\<lambda>p. let gp = tn_p p CP in
     obind (tget h gp) (\<lambda>g. let unc = tn_p g (sd (\<not> lf)) in
     obind (rb_col unc h) (\<lambda>c.
       if c = RED then
         obind (set_col par BLACK h) (\<lambda>h. obind (set_col unc BLACK h) (\<lambda>h. obind (set_col gp RED h) (\<lambda>h. Ok (h, gp))))
       else
         obind (tget h node) (\<lambda>n. let inner = (tn_dir n = sd (\<not> lf)); node' = (if inner then par else node); par' = (if inner then node else par) in
         obind (if inner then rb_rot (\<not> lf) node' h else Ok h) (\<lambda>h.
         obind (set_col par' BLACK h) (\<lambda>h. obind (set_col gp RED h) (\<lambda>h. obind (rb_rot lf gp h) (\<lambda>h. Ok (h, node')))))))))"

partial_function (option) rb_up :: "'k rheap \<Rightarrow> taddr \<Rightarrow> taddr \<Rightarrow> 'k rheap run" where
  "rb_up h root node =
     rbind (Some (tget h root)) (\<lambda>t.
       if node = tn_p t CP then ret h
       else
         rbind (Some (tget h node)) (\<lambda>n.
         rbind (Some (tget h (tn_p n CP))) (\<lambda>p.
           if tn_tag p \<noteq> RED then ret h
           else rbind (Some (rb_up_step (tn_dir p = CL) node (tn_p n CP) h)) (\<lambda>(h, node). rb_up h root node))))"

definition rb_ins_at :: "taddr \<Rightarrow> taddr \<Rightarrow> taddr \<Rightarrow> tdir \<Rightarrow> 'k rheap \<Rightarrow> 'k rheap run" where
  "rb_ins_at root node par d h =
     rbind (Some (abort_unless (node \<noteq> 0 \<and> par \<noteq> 0 \<and> d \<noteq> CN) (obind (set_col node RED h) (rb_fix par node d)))) (\<lambda>h.
     rbind (rb_up h root node) (\<lambda>h.
     rbind (Some (tget h root)) (\<lambda>t. Some (set_col (tn_p t CP) BLACK h))))"

definition rb_ins :: "('k \<Rightarrow> 'k \<Rightarrow> int) \<Rightarrow> taddr \<Rightarrow> taddr \<Rightarrow> taddr \<Rightarrow> tdir \<Rightarrow> 'k rheap \<Rightarrow> ('k rheap \<times> taddr) run" where
  "rb_ins cmp root node loc atdir h =
     (if node = 0 then ret (h, 0)
      else
        rbind (Some (tget h node)) (\<lambda>n.
        rbind (if loc \<noteq> 0 then Some (abort_unless (atdir = CL \<or> atdir = CR \<or> atdir = CP \<and> loc = root) (Ok (loc, atdir)))
               else rb_findloc cmp root (tn_key n) h) (\<lambda>(p, d).
          if d = CN then
            rbind (Some (t_replace p node h)) (\<lambda>h.
            rbind (Some (tget h p)) (\<lambda>k.
            rbind (Some (set_col node (tn_tag k) h)) (\<lambda>h.
            rbind (Some (tset node (\<lambda>n. n\<lparr>tn_tree := root\<rparr>) h)) (\<lambda>h.
            rbind (Some (tset p (\<lambda>n. n\<lparr>tn_tree := 0, tn_tag := RED\<rparr>) h)) (\<lambda>h.
            rbind (Some (rb_ninit p (tn_key k) h)) (\<lambda>h. ret (h, p)))))))
          else
            rbind (rb_ins_at root node p d h) (\<lambda>h.
            rbind (Some (tset node (\<lambda>n. n\<lparr>tn_tree := root\<rparr>) h)) (\<lambda>h. ret (h, 0))))))"

text \<open>
  One turn of the loop of a removal: the subtree of \<open>par\<close> on the side \<open>lf\<close> is black and lacks a black
  node.  It returns the heap and the place to go on with.
\<close>

definition rb_down_rot :: "taddr \<Rightarrow> bool \<Rightarrow> taddr \<Rightarrow> 'k rheap \<Rightarrow> ('k rheap \<times> taddr \<times> tdir) outcome" where
  "rb_down_rot root lf par h =
     obind (tget h par) (\<lambda>p. let tmp = tn_p p (sd (\<not> lf)) in
     obind (set_col tmp (tn_tag p) h) (\<lambda>h. obind (set_col par BLACK h) (\<lambda>h.
     obind (tget h tmp) (\<lambda>s. obind (set_col (tn_p s (sd (\<not> lf))) BLACK h) (\<lambda>h.
     obind (rb_rot (\<not> lf) par h) (\<lambda>h. Ok (h, root, CP)))))))"

definition rb_down_black :: "taddr \<Rightarrow> bool \<Rightarrow> taddr \<Rightarrow> 'k rheap \<Rightarrow> ('k rheap \<times> taddr \<times> tdir) outcome" where
  "rb_down_black root lf par h =
     obind (tget h par) (\<lambda>p. let tmp = tn_p p (sd (\<not> lf)) in
     obind (tget h tmp) (\<lambda>s.
     obind (rb_col (tn_p s (sd lf)) h) (\<lambda>ci. obind (rb_col (tn_p s (sd (\<not> lf))) h) (\<lambda>co.
       if ci = BLACK \<and> co = BLACK then
         obind (set_col tmp RED h) (\<lambda>h. obind (tget h par) (\<lambda>p. Ok (h, tn_p p CP, tn_dir p)))
       else
         obind (if co = BLACK then
                  obind (set_col (tn_p s (sd lf)) BLACK h) (\<lambda>h. obind (set_col tmp RED h) (rb_rot lf tmp))
                else Ok h) (rb_down_rot root lf par)))))"

definition rb_down_step :: "taddr \<Rightarrow> bool \<Rightarrow> taddr \<Rightarrow> 'k rheap \<Rightarrow> ('k rheap \<times> taddr \<times> tdir) outcome" where
  "rb_down_step root lf par h =
     obind (tget h par) (\<lambda>p. obind (tget h (tn_p p (sd (\<not> lf)))) (\<lambda>s.
     obind (if tn_tag s = RED then
              obind (set_col (tn_p p (sd (\<not> lf))) BLACK h) (\<lambda>h. obind (set_col par RED h) (rb_rot (\<not> lf) par))
            else Ok h) (rb_down_black root lf par)))"

partial_function (option) rb_down :: "'k rheap \<Rightarrow> taddr \<Rightarrow> taddr \<Rightarrow> tdir \<Rightarrow> 'k rheap run" where
  "rb_down h root par d =
     rbind (Some (tget h par)) (\<lambda>p.
     rbind (Some (rb_col (tn_p p d) h)) (\<lambda>c.
       if d \<noteq> CP \<and> c = BLACK then
         rbind (Some (rb_down_step root (d = CL) par h)) (\<lambda>(h, par, d). rb_down h root par d)
       else Some (if tn_p p d \<noteq> 0 then set_col (tn_p p d) BLACK h else Ok h)))"

definition rb_rem :: "taddr \<Rightarrow> 'k rheap \<Rightarrow> 'k rheap run" where
  "rb_rem node h =
     rbind (Some (abort_unless (node \<noteq> 0) (tget h node))) (\<lambda>n.
     rbind (rb_findrep node h) (\<lambda>tmp.
     rbind
       (if tmp = 0 then
          rbind (Some (rb_fix (tn_p n CP) 0 (tn_dir n) h)) (\<lambda>h. ret (h, tn_p n CP, tn_dir n, tn_tag n))
        else if tmp = tn_p n CL \<or> tmp = tn_p n CR then
          rbind (Some (if tmp = tn_p n CL then rb_fix tmp (tn_p n CR) CR h else Ok h)) (\<lambda>h.
          rbind (Some (tget h node)) (\<lambda>m.
          rbind (Some (rb_fix (tn_p m CP) tmp (tn_dir m) h)) (\<lambda>h.
          rbind (Some (tget h tmp)) (\<lambda>r.
          rbind (Some (set_col tmp (tn_tag n) h)) (\<lambda>h. ret (h, tmp, if tmp = tn_p n CL then CL else CR, tn_tag r))))))
        else
          rbind (Some (tget h tmp)) (\<lambda>r.
          rbind (Some (rb_fix (tn_p r CP) (tn_p r CL) (tn_dir r) h)) (\<lambda>h.
          rbind (Some (set_col tmp (tn_tag n) h)) (\<lambda>h.
          rbind (Some (t_replace node tmp h)) (\<lambda>h. ret (h, tn_p r CP, tn_dir r, tn_tag r))))))
       (\<lambda>(h, par, d, oldc).
         rbind (Some (rb_ninit node (tn_key n) h)) (\<lambda>h.
           if oldc = RED then ret h else rb_down h (tn_tree n) par d))))"

section \<open>Colouring a node of the tree\<close>

definition paint :: "taddr \<Rightarrow> rbcol \<Rightarrow> ('k, rbcol) ttree \<Rightarrow> ('k, rbcol) ttree" where
  "paint x c t = map_tree (\<lambda>(y, k, m). (y, k, if y = x then c else m)) t"

lemma paint_Leaf [simp]: "paint x c Leaf = Leaf"
  by (simp add: paint_def)

lemma paint_sN [simp]: "paint x c (sN lf a (y, k, m) b) = sN lf (paint x c a) (y, k, if y = x then c else m) (paint x c b)"
  by (simp add: paint_def sN_def)

lemma paint_Node [simp]: "paint x c (Node a (y, k, m) b) = Node (paint x c a) (y, k, if y = x then c else m) (paint x c b)"
  by (simp add: paint_def)

lemma paint_off: "x \<notin> addrs t \<Longrightarrow> paint x c t = t"
  unfolding paint_def by (induction t) auto

lemma paint_plug: "x \<notin> caddrs ctx \<Longrightarrow> paint x c (plug ctx t) = plug ctx (paint x c t)"
proof (induction ctx t rule: plug.induct)
  case (2 lf e s ctx t)
  obtain y k m where "e = (y, k, m)" by (cases e) auto
  then show ?case using 2 by (simp add: paint_off)
qed simp

lemma set_col_becomes:
  assumes "trep root h t" "h 0 = None" "x \<in> addrs t"
  shows "\<exists>h'. set_col x c h = Ok h' \<and> becomes root h t h' (paint x c t)"
proof -
  obtain k where "(x, k) \<in> set (ino t)" using assms(3) by (force simp flip: set_ino)
  then obtain ctx l m r where t: "t = plug ctx (Node l (x, k, m) r)" using ino_split by metis
  have "x \<notin> caddrs ctx" "x \<notin> addrs l" "x \<notin> addrs r" using assms(1) by (auto simp: trep_def t apart_plug apart_Node)
  then have "paint x c t = plug ctx (Node l (x, k, c) r)" by (simp add: t paint_plug paint_off)
  then show ?thesis using tag_becomes [of root h ctx True l x k m r "\<lambda>_. c"] assms(1,2) by (simp add: t sN_def)
qed

section \<open>Rotations and reads\<close>

lemma rb_rot_ok:
  assumes "trep root h (plug ctx (sN lf (sN lf a e2 c) e1 z))" "h 0 = None"
  shows "\<exists>h'. rb_rot lf (fst e1) h = Ok h' \<and>
    becomes root h (plug ctx (sN lf (sN lf a e2 c) e1 z)) h' (plug ctx (sN lf a e2 (sN lf c e1 z)))"
proof -
  note x = trep_node [OF assms(1)]
  note y = trep_node [of root h "(lf, e1, z) # ctx" lf a e2 c, simplified, OF assms(1)]
  obtain k where k: "tget h (fst e1) = Ok k" "tn_p k (sd lf) = fst e2" using tget_down [OF x(6)] by auto
  obtain h' where "t_rot lf (fst e1) (fst e2) h = Ok h'"
    "becomes root h (plug ctx (sN lf (sN lf a e2 c) e1 z)) h' (plug ctx (sN lf a e2 (sN lf c e1 z)))"
    using rot_becomes [OF assms] by blast
  then show ?thesis using k x(1) y(1) by (auto simp: rb_rot_def)
qed

definition tcol :: "('k, rbcol) ttree \<Rightarrow> rbcol" where
  "tcol t = (case t of Leaf \<Rightarrow> BLACK | Node l e r \<Rightarrow> snd (snd e))"

lemma tcol_simps [simp]: "tcol Leaf = BLACK" "tcol (sN lf a (y, k, m) b) = m" "tcol (Node a (y, k, m) b) = m"
  by (simp_all add: tcol_def sN_def)

lemma tcol_RED: "tcol t = RED \<Longrightarrow> \<exists>a y k b. t = sN lf a (y, k, RED) b"
  by (cases t; cases lf) (auto simp: tcol_def sN_def)

lemma not_BLACK: "c \<noteq> BLACK \<longleftrightarrow> c = RED" and not_RED: "c \<noteq> RED \<longleftrightarrow> c = BLACK"
  by (cases c; simp)+

lemma shape_col: "shape root h t \<Longrightarrow> 0 \<notin> addrs t \<Longrightarrow> rb_col (rt t) h = Ok (tcol t)"
  by (cases t) (auto simp: rb_col_def info_def tget_def tcol_def)

lemma trep_col: "trep root h (plug ctx t) \<Longrightarrow> rb_col (rt t) h = Ok (tcol t)"
proof -
  assume t: "trep root h (plug ctx t)"
  then have "apart root t" by (simp add: trep_plug apart_plug)
  then show ?thesis using shape_col [of root h t] t by (simp add: apart_def trep_plug)
qed

lemma sN_flip: "sN (\<not> lf) a e b = sN lf b e a"
  by (simp add: sN_def)

lemma sN_cases: "t \<noteq> Leaf \<Longrightarrow> \<exists>a y k m b. t = sN lf a (y, k, m) b"
  by (cases t; cases lf) (auto simp: sN_def)

lemma becomes_col:
  assumes "becomes root h t h1 t1" "x \<in> addrs t"
  shows "\<exists>h2. set_col x c h1 = Ok h2 \<and> becomes root h t h2 (paint x c t1)"
proof -
  have "x \<in> addrs t1" using assms(2) addrs_ino [OF becomesD(2) [OF assms(1)]] by simp
  then show ?thesis using set_col_becomes [OF becomesD(1,3) [OF assms(1)]] becomes_trans [OF assms(1)] by blast
qed

lemma becomes_rot:
  assumes "becomes root h t h1 (plug ctx (sN lf (sN lf a e2 c) e1 z))"
  shows "\<exists>h2. rb_rot lf (fst e1) h1 = Ok h2 \<and> becomes root h t h2 (plug ctx (sN lf a e2 (sN lf c e1 z)))"
  using rb_rot_ok [OF becomesD(1,3) [OF assms]] becomes_trans [OF assms] by blast

section \<open>A turn of the insertion\<close>

lemma rb_up_step_red:
  assumes tr: "trep root h (plug ctx (sN lf (sN lf2 t (p, kp, cp) s) (g, kg, cg) (sN lf ul (w, kw, RED) ur)))" "h 0 = None"
  shows "\<exists>h'. rb_up_step lf node p h = Ok (h', g) \<and>
    becomes root h (plug ctx (sN lf (sN lf2 t (p, kp, cp) s) (g, kg, cg) (sN lf ul (w, kw, RED) ur))) h'
      (plug ctx (sN lf (sN lf2 t (p, kp, BLACK) s) (g, kg, RED) (sN lf ul (w, kw, BLACK) ur)))"
proof -
  let ?t = "plug ctx (sN lf (sN lf2 t (p, kp, cp) s) (g, kg, cg) (sN lf ul (w, kw, RED) ur))"
  have "apart root ?t" using tr(1) by (simp add: trep_def)
  then have d: "p \<notin> caddrs ctx" "g \<notin> caddrs ctx" "w \<notin> caddrs ctx" "p \<noteq> g" "p \<noteq> w" "g \<noteq> w"
    "p \<notin> addrs t" "p \<notin> addrs s" "p \<notin> addrs ul" "p \<notin> addrs ur" "g \<notin> addrs t" "g \<notin> addrs s" "g \<notin> addrs ul" "g \<notin> addrs ur"
    "w \<notin> addrs t" "w \<notin> addrs s" "w \<notin> addrs ul" "w \<notin> addrs ur"
    unfolding apart_plug apart_sN by (simp_all, (blast+)?)
  have pp: "trep root h (plug ((lf, (g, kg, cg), sN lf ul (w, kw, RED) ur) # ctx) (sN lf2 t (p, kp, cp) s))" using tr(1) by simp
  obtain pn where pn: "tget h p = Ok pn" "tn_p pn CP = g" using trep_sN [OF pp] by auto
  obtain gn where gn: "tget h g = Ok gn" "tn_p gn (sd (\<not> lf)) = w" using trep_sN [OF tr(1)] by auto
  have "trep root h (plug ((\<not> lf, (g, kg, cg), sN lf2 t (p, kp, cp) s) # ctx) (sN lf ul (w, kw, RED) ur))"
    using tr(1) by (simp add: sN_flip)
  from trep_col [OF this] have uc: "rb_col w h = Ok RED" by simp
  have ad: "p \<in> addrs ?t" "w \<in> addrs ?t" "g \<in> addrs ?t" by (simp_all add: addrs_plug)
  obtain h1 where h1: "set_col p BLACK h = Ok h1" "becomes root h ?t h1 (paint p BLACK ?t)"
    using set_col_becomes [OF tr ad(1)] by blast
  obtain h2 where h2: "set_col w BLACK h1 = Ok h2" "becomes root h ?t h2 (paint w BLACK (paint p BLACK ?t))"
    using becomes_col [OF h1(2) ad(2)] by blast
  obtain h3 where h3: "set_col g RED h2 = Ok h3" "becomes root h ?t h3 (paint g RED (paint w BLACK (paint p BLACK ?t)))"
    using becomes_col [OF h2(2) ad(3)] by blast
  have e: "paint g RED (paint w BLACK (paint p BLACK ?t))
      = plug ctx (sN lf (sN lf2 t (p, kp, BLACK) s) (g, kg, RED) (sN lf ul (w, kw, BLACK) ur))"
    using d d(4-6) [symmetric] by (simp add: paint_plug paint_off)
  show ?thesis using pn gn uc h1(1) h2(1) h3(1) h3(2) [unfolded e] by (simp add: rb_up_step_def)
qed

lemma rb_up_step_outer:
  assumes tr: "trep root h (plug ctx (sN lf (sN lf t (p, kp, cp) s) (g, kg, cg) u))" "h 0 = None" and u: "tcol u = BLACK" and t: "t \<noteq> Leaf"
  shows "\<exists>h'. rb_up_step lf (rt t) p h = Ok (h', rt t) \<and>
    becomes root h (plug ctx (sN lf (sN lf t (p, kp, cp) s) (g, kg, cg) u)) h'
      (plug ctx (sN lf t (p, kp, BLACK) (sN lf s (g, kg, RED) u)))"
proof -
  let ?t = "plug ctx (sN lf (sN lf t (p, kp, cp) s) (g, kg, cg) u)"
  have "apart root ?t" using tr(1) by (simp add: trep_def)
  then have d: "p \<notin> caddrs ctx" "g \<notin> caddrs ctx" "p \<noteq> g" "p \<notin> addrs t" "p \<notin> addrs s" "p \<notin> addrs u" "g \<notin> addrs t" "g \<notin> addrs s" "g \<notin> addrs u"
    unfolding apart_plug apart_sN by (simp_all, (blast+)?)
  have pp: "trep root h (plug ((lf, (g, kg, cg), u) # ctx) (sN lf t (p, kp, cp) s))" using tr(1) by simp
  obtain pn where pn: "tget h p = Ok pn" "tn_p pn CP = g" using trep_sN [OF pp] by auto
  obtain gn where gn: "tget h g = Ok gn" "tn_p gn (sd (\<not> lf)) = rt u" using trep_sN [OF tr(1)] by auto
  have "trep root h (plug ((\<not> lf, (g, kg, cg), sN lf t (p, kp, cp) s) # ctx) u)" using tr(1) by (simp add: sN_flip)
  from trep_col [OF this] have uc: "rb_col (rt u) h = Ok BLACK" using u by simp
  obtain a x k m b where x: "t = sN lf a (x, k, m) b" using sN_cases [OF t] by blast
  have xx: "trep root h (plug ((lf, (p, kp, cp), s) # (lf, (g, kg, cg), u) # ctx) (sN lf a (x, k, m) b))" using tr(1) by (simp add: x)
  obtain n where n: "tget h x = Ok n" "tn_dir n = sd lf" using trep_sN [OF xx] by auto
  have ad: "p \<in> addrs ?t" "g \<in> addrs ?t" by (simp_all add: addrs_plug)
  obtain h1 where h1: "set_col p BLACK h = Ok h1" "becomes root h ?t h1 (paint p BLACK ?t)"
    using set_col_becomes [OF tr ad(1)] by blast
  obtain h2 where h2: "set_col g RED h1 = Ok h2" "becomes root h ?t h2 (paint g RED (paint p BLACK ?t))"
    using becomes_col [OF h1(2) ad(2)] by blast
  have e: "paint g RED (paint p BLACK ?t) = plug ctx (sN lf (sN lf t (p, kp, BLACK) s) (g, kg, RED) u)"
    using d d(3) [symmetric] by (simp add: paint_plug paint_off)
  obtain h3 where h3: "rb_rot lf g h2 = Ok h3" "becomes root h ?t h3 (plug ctx (sN lf t (p, kp, BLACK) (sN lf s (g, kg, RED) u)))"
    using becomes_rot [OF h2(2) [unfolded e]] by auto
  have "sd lf \<noteq> sd (\<not> lf)" by simp
  then show ?thesis using pn gn uc n h1(1) h2(1) h3 by (simp add: rb_up_step_def x)
qed

lemma rb_up_step_inner:
  assumes tr: "trep root h (plug ctx (sN lf (sN (\<not> lf) (sN lf b (x, k, m) c) (p, kp, cp) s) (g, kg, cg) u))" "h 0 = None" and u: "tcol u = BLACK"
  shows "\<exists>h'. rb_up_step lf x p h = Ok (h', p) \<and>
    becomes root h (plug ctx (sN lf (sN (\<not> lf) (sN lf b (x, k, m) c) (p, kp, cp) s) (g, kg, cg) u)) h'
      (plug ctx (sN lf (sN lf s (p, kp, cp) b) (x, k, BLACK) (sN lf c (g, kg, RED) u)))"
proof -
  let ?t = "plug ctx (sN lf (sN (\<not> lf) (sN lf b (x, k, m) c) (p, kp, cp) s) (g, kg, cg) u)"
  have "apart root ?t" using tr(1) by (simp add: trep_def)
  then have d: "x \<notin> caddrs ctx" "g \<notin> caddrs ctx" "p \<noteq> g" "p \<noteq> x" "x \<noteq> g" "x \<notin> addrs b" "x \<notin> addrs c" "x \<notin> addrs s" "x \<notin> addrs u"
    "g \<notin> addrs b" "g \<notin> addrs c" "g \<notin> addrs s" "g \<notin> addrs u"
    unfolding apart_plug apart_sN by (simp_all, (blast+)?)
  have pp: "trep root h (plug ((lf, (g, kg, cg), u) # ctx) (sN (\<not> lf) (sN lf b (x, k, m) c) (p, kp, cp) s))" using tr(1) by simp
  obtain pn where pn: "tget h p = Ok pn" "tn_p pn CP = g" using trep_sN [OF pp] by auto
  obtain gn where gn: "tget h g = Ok gn" "tn_p gn (sd (\<not> lf)) = rt u" using trep_sN [OF tr(1)] by auto
  have "trep root h (plug ((\<not> lf, (g, kg, cg), sN (\<not> lf) (sN lf b (x, k, m) c) (p, kp, cp) s) # ctx) u)" using tr(1) by (simp add: sN_flip)
  from trep_col [OF this] have uc: "rb_col (rt u) h = Ok BLACK" using u by simp
  have xx: "trep root h (plug ((\<not> lf, (p, kp, cp), s) # (lf, (g, kg, cg), u) # ctx) (sN lf b (x, k, m) c))" using tr(1) by simp
  obtain n where n: "tget h x = Ok n" "tn_dir n = sd (\<not> lf)" using trep_sN [OF xx] by auto
  have "becomes root h ?t h ?t" using becomes_refl [OF tr] .
  then have "becomes root h ?t h (plug ((lf, (g, kg, cg), u) # ctx) (sN (\<not> lf) (sN (\<not> lf) c (x, k, m) b) (p, kp, cp) s))"
    by (simp add: sN_flip)
  from becomes_rot [OF this] obtain h1 where h1: "rb_rot (\<not> lf) p h = Ok h1"
    "becomes root h ?t h1 (plug ctx (sN lf (sN lf (sN lf s (p, kp, cp) b) (x, k, m) c) (g, kg, cg) u))"
    by (auto simp: sN_flip)
  let ?u = "plug ctx (sN lf (sN lf (sN lf s (p, kp, cp) b) (x, k, m) c) (g, kg, cg) u)"
  have ad: "x \<in> addrs ?t" "g \<in> addrs ?t" by (simp_all add: addrs_plug)
  obtain h2 where h2: "set_col x BLACK h1 = Ok h2" "becomes root h ?t h2 (paint x BLACK ?u)"
    using becomes_col [OF h1(2) ad(1)] by blast
  obtain h3 where h3: "set_col g RED h2 = Ok h3" "becomes root h ?t h3 (paint g RED (paint x BLACK ?u))"
    using becomes_col [OF h2(2) ad(2)] by blast
  have e: "paint g RED (paint x BLACK ?u) = plug ctx (sN lf (sN lf (sN lf s (p, kp, cp) b) (x, k, BLACK) c) (g, kg, RED) u)"
    using d d(3-5) [symmetric] by (simp add: paint_plug paint_off)
  obtain h4 where h4: "rb_rot lf g h3 = Ok h4" "becomes root h ?t h4 (plug ctx (sN lf (sN lf s (p, kp, cp) b) (x, k, BLACK) (sN lf c (g, kg, RED) u)))"
    using becomes_rot [OF h3(2) [unfolded e]] by auto
  show ?thesis using pn gn uc n h1(1) h2(1) h3(1) h4 by (simp add: rb_up_step_def Let_def)
qed

section \<open>The colour invariants\<close>

fun bh :: "('k, rbcol) ttree \<Rightarrow> nat" where
  "bh Leaf = 0"
| "bh (Node l (x, k, c) r) = max (bh l) (bh r) + (if c = BLACK then 1 else 0)"

fun rb :: "('k, rbcol) ttree \<Rightarrow> bool" where
  "rb Leaf \<longleftrightarrow> True"
| "rb (Node l (x, k, c) r) \<longleftrightarrow> bh l = bh r \<and> (c = RED \<longrightarrow> tcol l = BLACK \<and> tcol r = BLACK) \<and> rb l \<and> rb r"

lemma bh_sN [simp]: "bh (sN lf a (x, k, c) b) = max (bh a) (bh b) + (if c = BLACK then 1 else 0)"
  by (cases lf) (auto simp: sN_def max.commute)

lemma rb_sN [simp]: "rb (sN lf a (x, k, c) b) \<longleftrightarrow> bh a = bh b \<and> (c = RED \<longrightarrow> tcol a = BLACK \<and> tcol b = BLACK) \<and> rb a \<and> rb b"
  by (cases lf) (auto simp: sN_def)

text \<open>What a place asks of the black height and the colour of the subtree in it.\<close>

fun crb :: "('k, rbcol) tctx \<Rightarrow> nat \<Rightarrow> rbcol \<Rightarrow> bool" where
  "crb [] n cc \<longleftrightarrow> cc = BLACK"
| "crb ((lf, (x, k, c), s) # ctx) n cc \<longleftrightarrow> bh s = n \<and> (c = RED \<longrightarrow> cc = BLACK \<and> tcol s = BLACK) \<and> rb s
     \<and> crb ctx (n + (if c = BLACK then 1 else 0)) c"

lemma rb_plug: "rb (plug c t) \<and> tcol (plug c t) = BLACK \<longleftrightarrow> rb t \<and> crb c (bh t) (tcol t)"
proof (induction c arbitrary: t)
  case (Cons f c)
  obtain lf x k cc s where "f = (lf, (x, k, cc), s)" by (cases f) auto
  then show ?case using Cons.IH [of "sN lf t (x, k, cc) s"] by auto
qed simp

lemma crb_black: "crb c n cc \<Longrightarrow> crb c n BLACK"
  by (cases c rule: cdir.cases) auto

lemma paint_black:
  assumes "rb t" "apart root t"
  shows "rb (paint (rt t) BLACK t) \<and> tcol (paint (rt t) BLACK t) = BLACK"
proof (cases t)
  case (Node l e r)
  obtain x k c where "e = (x, k, c)" by (cases e) auto
  then show ?thesis using assms by (auto simp: Node apart_Node paint_off)
qed simp

section \<open>The way up after an insertion\<close>

lemma rb_up_ok:
  assumes "trep root h (plug c t)" "h 0 = None" "rb t" "tcol t = RED" "crb c (bh t) BLACK"
  shows "\<exists>h' t'. rb_up h root (rt t) = ret h' \<and> becomes root h (plug c t) h' t' \<and> rb t'"
  using assms
proof (induction "length c" arbitrary: h c t rule: less_induct)
  case less
  have ap: "apart root (plug c t)" using less.prems(1) by (simp add: trep_def)
  obtain r where r: "tget h root = Ok r" "tn_p r CP = rt (plug c t)" using less.prems(1) tget_down [of root h root CP] by (auto simp: trep_def)
  obtain tl x k tr where t: "t = Node tl (x, k, RED) tr" using tcol_RED [OF less.prems(4), of True] by (auto simp: sN_def)
  obtain n where n: "tget h x = Ok n" "tn_p n CP = cpar root c" "tn_dir n = cdir c" using trep_Node less.prems(1) unfolding t by (metis fst_conv)
  show ?case
  proof (cases c)
    case Nil
    then have "rb_up h root (rt t) = ret h" using r by (simp add: rb_up.simps t)
    then show ?thesis using becomes_refl [OF less.prems(1,2)] less.prems(3) Nil by auto
  next
    case (Cons f c1)
    obtain lf2 p kp cp s where f: "f = (lf2, (p, kp, cp), s)" by (cases f) auto
    have xr: "x \<noteq> rt (plug c t)"
      using rt_plug_in [of c t] ap Cons by (auto simp: apart_plug t)
    have pp: "trep root h (plug c1 (sN lf2 t (p, kp, cp) s))" using less.prems(1) by (simp add: Cons f)
    obtain pn where pn: "tget h p = Ok pn" "tn_tag pn = cp" "tn_dir pn = cdir c1" using trep_sN [OF pp] by metis
    have step: "rb_up h root x = (if cp \<noteq> RED then ret h else rbind (Some (rb_up_step (cdir c1 = CL) x p h)) (\<lambda>(h, node). rb_up h root node))"
      using r xr n pn by (subst rb_up.simps) (simp add: Cons f)
    show ?thesis
    proof (cases cp)
      case BLACK
      then have "crb c (bh t) (tcol t)" using less.prems(5) by (simp add: Cons f)
      then have "rb (plug c t)" using rb_plug less.prems(3) by blast
      then show ?thesis using step BLACK becomes_refl [OF less.prems(1,2)] by (auto simp: t)
    next
      case RED
      then obtain lf g kg cg u c2 where c1: "c1 = (lf, (g, kg, cg), u) # c2" using less.prems(5) by (cases c1 rule: cdir.cases) (auto simp: Cons f)
      have inv: "cg = BLACK" "bh u = bh t" "rb u" "crb c2 (Suc (bh t)) BLACK" "bh s = bh t" "rb s" "tcol s = BLACK"
        using less.prems(5) RED by (cases cg; simp add: Cons f c1)+
      have T: "plug c t = plug c2 (sN lf (sN lf2 t (p, kp, RED) s) (g, kg, BLACK) u)" by (simp add: Cons f c1 RED inv(1))
      note tr = less.prems(1) [unfolded T]
      have d: "cdir c1 = CL \<longleftrightarrow> lf" by (cases lf) (simp_all add: c1)
      have done_case: ?thesis
        if st: "rb_up_step lf x p h = Ok (h1, y)" "becomes root h (plug c t) h1 (plug c2 T1)" "rb T1" "bh T1 = Suc (bh t)" "tcol T1 = BLACK"
          and y: "T1 = sN ly (sN ly' ya (y, ky, RED) yb) (q, kq, BLACK) yc" for h1 y T1 ly ly' ya ky yb q kq yc
      proof -
        have rb1: "rb (plug c2 T1)" using rb_plug [of c2 T1] st(3-5) inv(4) by simp
        have t1: "trep root h1 (plug ((ly, (q, kq, BLACK), yc) # c2) (sN ly' ya (y, ky, RED) yb))" using becomesD(1) [OF st(2)] by (simp add: y)
        obtain r1 where r1: "tget h1 root = Ok r1" "tn_p r1 CP = rt (plug c2 T1)" using becomesD(1) [OF st(2)] tget_down [of root h1 root CP] by (auto simp: trep_def)
        have ap1: "apart root (plug c2 T1)" using becomesD(1) [OF st(2)] by (simp add: trep_def)
        have ny: "y \<noteq> rt (plug c2 T1)" using rt_plug_in [of "(ly, (q, kq, BLACK), yc) # c2" "sN ly' ya (y, ky, RED) yb"] t1
          by (auto simp: y trep_def apart_plug apart_sN)
        obtain n1 where n1: "tget h1 y = Ok n1" "tn_p n1 CP = q" using trep_sN [OF t1] by auto
        have t1': "trep root h1 (plug c2 (sN ly (sN ly' ya (y, ky, RED) yb) (q, kq, BLACK) yc))" using becomesD(1) [OF st(2)] by (simp add: y)
        obtain q1 where q1: "tget h1 q = Ok q1" "tn_tag q1 = BLACK" using trep_sN [OF t1'] by auto
        have "rb_up h1 root y = ret h1" using r1 ny n1 q1 by (subst rb_up.simps) simp
        then show ?thesis using step RED d st(1,2) rb1 by (auto simp: t)
      qed
      show ?thesis
      proof (cases "tcol u")
        case u: RED
        obtain ul w kw ur where u': "u = sN lf ul (w, kw, RED) ur" using tcol_RED [OF u] by blast
        let ?T1 = "sN lf (sN lf2 t (p, kp, BLACK) s) (g, kg, RED) (sN lf ul (w, kw, BLACK) ur)"
        obtain h1 where h1: "rb_up_step lf x p h = Ok (h1, g)" "becomes root h (plug c t) h1 (plug c2 ?T1)"
          using rb_up_step_red [of root h c2 lf lf2 t p kp RED s g kg BLACK ul w kw ur x] tr less.prems(2) by (auto simp: T u')
        have "rb ?T1" "bh ?T1 = Suc (bh t)" "tcol ?T1 = RED" using inv less.prems(3) by (auto simp: u')
        moreover from this have "crb c2 (bh ?T1) BLACK" using inv(4) by simp
        ultimately obtain h' t' where h': "rb_up h1 root g = ret h'" "becomes root h1 (plug c2 ?T1) h' t'" "rb t'"
          using less.hyps [of c2 h1 ?T1] becomesD(1,3) [OF h1(2)] by (auto simp: Cons c1)
        then show ?thesis using step RED d h1 becomes_trans [OF h1(2) h'(2)] by (auto simp: t)
      next
        case u: BLACK
        have ts: "tcol tl = BLACK" "tcol tr = BLACK" "bh tl = bh t" "bh tr = bh t" "rb tl" "rb tr" using less.prems(3) by (auto simp: t)
        show ?thesis
        proof (cases "lf2 = lf")
          case True
          have tx: "t \<noteq> Leaf" "rt t = x" by (simp_all add: t)
          obtain h1 where h1: "rb_up_step lf x p h = Ok (h1, x)" "becomes root h (plug c t) h1 (plug c2 (sN lf t (p, kp, BLACK) (sN lf s (g, kg, RED) u)))"
            using rb_up_step_outer [of root h c2 lf t p kp RED s g kg BLACK u] tr less.prems(2) u tx by (auto simp: T True)
          obtain xa xb where x: "t = sN lf xa (x, k, RED) xb" using tcol_RED [OF less.prems(4), of lf] t by (metis sN_def tree.inject prod.inject)
          show ?thesis by (rule done_case [OF h1, of lf lf xa k xb p kp]) (use inv u less.prems(3) in \<open>auto simp flip: x\<close>)
        next
          case False
          then have lf2: "lf2 = (\<not> lf)" by simp
          obtain b c where x: "t = sN lf b (x, k, RED) c" using tcol_RED [OF less.prems(4), of lf] t by (metis sN_def tree.inject prod.inject)
          obtain h1 where h1: "rb_up_step lf x p h = Ok (h1, p)"
            "becomes root h (plug c2 (sN lf (sN (\<not> lf) t (p, kp, RED) s) (g, kg, BLACK) u)) h1
              (plug c2 (sN lf (sN lf s (p, kp, RED) b) (x, k, BLACK) (sN lf c (g, kg, RED) u)))"
            using rb_up_step_inner [of root h c2 lf b x k RED c p kp RED s g kg BLACK u] tr less.prems(2) u by (auto simp: lf2 x)
          have "bh b = bh t" "bh c = bh t" "rb b" "rb c" "tcol b = BLACK" "tcol c = BLACK" using less.prems(3) by (auto simp: x)
          then show ?thesis
            by (intro done_case [OF h1(1), of "sN lf (sN lf s (p, kp, RED) b) (x, k, BLACK) (sN lf c (g, kg, RED) u)" lf lf s kp b x k])
              (use h1(2) inv u in \<open>auto simp: T lf2\<close>)
        qed
      qed
    qed
  qed
qed

section \<open>A turn of the removal\<close>

lemma rb_down_rot_ok:
  assumes "becomes root h0 t0 h (plug ctx (sN lf u (p, kp, cp) (sN lf a (v, kv, cv) (sN lz b1 (z, kz, cz) b2))))"
  shows "\<exists>h'. rb_down_rot root lf p h = Ok (h', root, CP) \<and>
    becomes root h0 t0 h' (plug ctx (sN lf (sN lf u (p, kp, BLACK) a) (v, kv, cp) (sN lz b1 (z, kz, BLACK) b2)))"
proof -
  let ?t = "plug ctx (sN lf u (p, kp, cp) (sN lf a (v, kv, cv) (sN lz b1 (z, kz, cz) b2)))"
  note tr = becomesD(1) [OF assms]
  have "apart root ?t" using tr by (simp add: trep_def)
  then have d: "p \<notin> caddrs ctx" "v \<notin> caddrs ctx" "z \<notin> caddrs ctx" "p \<noteq> v" "p \<noteq> z" "v \<noteq> z" "p \<notin> addrs u" "p \<notin> addrs a" "p \<notin> addrs b1" "p \<notin> addrs b2"
    "v \<notin> addrs u" "v \<notin> addrs a" "v \<notin> addrs b1" "v \<notin> addrs b2" "z \<notin> addrs u" "z \<notin> addrs a" "z \<notin> addrs b1" "z \<notin> addrs b2"
    unfolding apart_plug apart_sN by (simp_all, (blast+)?)
  obtain pn where pn: "tget h p = Ok pn" "tn_p pn (sd (\<not> lf)) = v" "tn_tag pn = cp" using trep_sN [OF tr] by auto
  have ad: "p \<in> addrs t0" "v \<in> addrs t0" "z \<in> addrs t0" using addrs_ino [OF becomesD(2) [OF assms]] by (auto simp: addrs_plug)
  obtain h1 where h1: "set_col v cp h = Ok h1" "becomes root h0 t0 h1 (paint v cp ?t)" using becomes_col [OF assms ad(2)] by blast
  obtain h2 where h2: "set_col p BLACK h1 = Ok h2" "becomes root h0 t0 h2 (paint p BLACK (paint v cp ?t))" using becomes_col [OF h1(2) ad(1)] by blast
  have e2: "paint p BLACK (paint v cp ?t) = plug ctx (sN lf u (p, kp, BLACK) (sN lf a (v, kv, cp) (sN lz b1 (z, kz, cz) b2)))"
    using d d(4-6) [symmetric] by (simp add: paint_plug paint_off)
  have v: "trep root h2 (plug ((\<not> lf, (p, kp, BLACK), u) # ctx) (sN lf a (v, kv, cp) (sN lz b1 (z, kz, cz) b2)))"
    using becomesD(1) [OF h2(2)] unfolding e2 by (simp add: sN_flip)
  obtain s where s: "tget h2 v = Ok s" "tn_p s (sd (\<not> lf)) = z" using trep_sN [OF v] by auto
  obtain h3 where h3: "set_col z BLACK h2 = Ok h3" "becomes root h0 t0 h3 (paint z BLACK (paint p BLACK (paint v cp ?t)))"
    using becomes_col [OF h2(2) ad(3)] by blast
  have e3: "paint z BLACK (paint p BLACK (paint v cp ?t)) = plug ctx (sN (\<not> lf) (sN (\<not> lf) (sN lz b1 (z, kz, BLACK) b2) (v, kv, cp) a) (p, kp, BLACK) u)"
    unfolding e2 using d d(4-6) [symmetric] by (simp add: paint_plug paint_off sN_flip)
  obtain h4 where h4: "rb_rot (\<not> lf) p h3 = Ok h4"
    "becomes root h0 t0 h4 (plug ctx (sN (\<not> lf) (sN lz b1 (z, kz, BLACK) b2) (v, kv, cp) (sN (\<not> lf) a (p, kp, BLACK) u)))"
    using becomes_rot [OF h3(2) [unfolded e3]] by auto
  show ?thesis using pn h1(1) h2(1) s h3(1) h4 by (simp add: rb_down_rot_def sN_flip)
qed

text \<open>What the turn reads of the sibling and its subtrees.\<close>

lemma rb_down_reads:
  assumes "trep root h (plug ctx (sN lf u (p, kp, cp) (sN lf a (v, kv, cv) b)))"
  obtains pn s where "tget h p = Ok pn" "tn_p pn (sd (\<not> lf)) = v" "tn_p pn CP = cpar root ctx" "tn_dir pn = cdir ctx"
    "tget h v = Ok s" "tn_tag s = cv" "tn_p s (sd lf) = rt a" "tn_p s (sd (\<not> lf)) = rt b"
    "rb_col (rt a) h = Ok (tcol a)" "rb_col (rt b) h = Ok (tcol b)"
proof -
  obtain pn where pn: "tget h p = Ok pn" "tn_p pn (sd (\<not> lf)) = v" "tn_p pn CP = cpar root ctx" "tn_dir pn = cdir ctx"
    using trep_sN [OF assms] by auto
  have v: "trep root h (plug ((\<not> lf, (p, kp, cp), u) # ctx) (sN lf a (v, kv, cv) b))" using assms by (simp add: sN_flip)
  obtain s where s: "tget h v = Ok s" "tn_tag s = cv" "tn_p s (sd lf) = rt a" "tn_p s (sd (\<not> lf)) = rt b" using trep_sN [OF v] by auto
  have "trep root h (plug ((lf, (v, kv, cv), b) # (\<not> lf, (p, kp, cp), u) # ctx) a)"
    "trep root h (plug ((\<not> lf, (v, kv, cv), a) # (\<not> lf, (p, kp, cp), u) # ctx) b)" using v by (simp_all add: sN_flip)
  from trep_col [OF this(1)] trep_col [OF this(2)] show ?thesis using pn s by (intro that) auto
qed

lemma rb_down_black_both:
  assumes b: "becomes root h0 t0 h (plug ctx (sN lf u (p, kp, cp) (sN lf a (v, kv, cv) b)))" and c: "tcol a = BLACK" "tcol b = BLACK"
  shows "\<exists>h'. rb_down_black root lf p h = Ok (h', cpar root ctx, cdir ctx) \<and>
    becomes root h0 t0 h' (plug ctx (sN lf u (p, kp, cp) (sN lf a (v, kv, RED) b)))"
proof -
  let ?t = "plug ctx (sN lf u (p, kp, cp) (sN lf a (v, kv, cv) b))"
  note tr = becomesD(1) [OF b]
  have "apart root ?t" using tr by (simp add: trep_def)
  then have d: "v \<notin> caddrs ctx" "p \<noteq> v" "v \<notin> addrs u" "v \<notin> addrs a" "v \<notin> addrs b" unfolding apart_plug apart_sN by (simp_all, (blast+)?)
  have ad: "v \<in> addrs t0" using addrs_ino [OF becomesD(2) [OF b]] by (auto simp: addrs_plug)
  obtain h1 where h1: "set_col v RED h = Ok h1" "becomes root h0 t0 h1 (paint v RED ?t)" using becomes_col [OF b ad] by blast
  have e: "paint v RED ?t = plug ctx (sN lf u (p, kp, cp) (sN lf a (v, kv, RED) b))" using d by (simp add: paint_plug paint_off)
  obtain pn where pn: "tget h1 p = Ok pn" "tn_p pn CP = cpar root ctx" "tn_dir pn = cdir ctx"
    using trep_sN [OF becomesD(1) [OF h1(2) [unfolded e]]] by auto
  show ?thesis by (rule rb_down_reads [OF tr]) (use c h1 [unfolded e] pn in \<open>simp add: rb_down_black_def Let_def\<close>)
qed

lemma rb_down_black_outer:
  assumes b: "becomes root h0 t0 h (plug ctx (sN lf u (p, kp, cp) (sN lf a (v, kv, cv) (sN lz b1 (z, kz, RED) b2))))"
  shows "\<exists>h'. rb_down_black root lf p h = Ok (h', root, CP) \<and>
    becomes root h0 t0 h' (plug ctx (sN lf (sN lf u (p, kp, BLACK) a) (v, kv, cp) (sN lz b1 (z, kz, BLACK) b2)))"
  by (rule rb_down_reads [OF becomesD(1) [OF b]]) (use rb_down_rot_ok [OF b] in \<open>simp add: rb_down_black_def Let_def\<close>)

lemma rb_down_black_inner:
  assumes b: "becomes root h0 t0 h (plug ctx (sN lf u (p, kp, cp) (sN lf (sN lf a1 (y, ky, RED) a2) (v, kv, cv) b)))" and c: "tcol b = BLACK"
  shows "\<exists>h'. rb_down_black root lf p h = Ok (h', root, CP) \<and>
    becomes root h0 t0 h' (plug ctx (sN lf (sN lf u (p, kp, BLACK) a1) (y, ky, cp) (sN lf a2 (v, kv, BLACK) b)))"
proof -
  let ?t = "plug ctx (sN lf u (p, kp, cp) (sN lf (sN lf a1 (y, ky, RED) a2) (v, kv, cv) b))"
  note tr = becomesD(1) [OF b]
  have "apart root ?t" using tr by (simp add: trep_def)
  then have d: "y \<notin> caddrs ctx" "v \<notin> caddrs ctx" "p \<noteq> y" "p \<noteq> v" "v \<noteq> y" "y \<notin> addrs u" "y \<notin> addrs a1" "y \<notin> addrs a2" "y \<notin> addrs b"
    "v \<notin> addrs u" "v \<notin> addrs a1" "v \<notin> addrs a2" "v \<notin> addrs b" unfolding apart_plug apart_sN by (simp_all, (blast+)?)
  have ad: "y \<in> addrs t0" "v \<in> addrs t0" using addrs_ino [OF becomesD(2) [OF b]] by (auto simp: addrs_plug)
  obtain h1 where h1: "set_col y BLACK h = Ok h1" "becomes root h0 t0 h1 (paint y BLACK ?t)" using becomes_col [OF b ad(1)] by blast
  obtain h2 where h2: "set_col v RED h1 = Ok h2" "becomes root h0 t0 h2 (paint v RED (paint y BLACK ?t))" using becomes_col [OF h1(2) ad(2)] by blast
  have e: "paint v RED (paint y BLACK ?t)
      = plug ((\<not> lf, (p, kp, cp), u) # ctx) (sN lf (sN lf a1 (y, ky, BLACK) a2) (v, kv, RED) b)"
    using d d(3-5) [symmetric] by (simp add: paint_plug paint_off sN_flip)
  obtain h3 where h3: "rb_rot lf v h2 = Ok h3"
    "becomes root h0 t0 h3 (plug ((\<not> lf, (p, kp, cp), u) # ctx) (sN lf a1 (y, ky, BLACK) (sN lf a2 (v, kv, RED) b)))"
    using becomes_rot [OF h2(2) [unfolded e]] by auto
  from h3(2) have b3: "becomes root h0 t0 h3 (plug ctx (sN lf u (p, kp, cp) (sN lf a1 (y, ky, BLACK) (sN lf a2 (v, kv, RED) b))))"
    by (simp add: sN_flip)
  obtain h4 where "rb_down_rot root lf p h3 = Ok (h4, root, CP)"
    "becomes root h0 t0 h4 (plug ctx (sN lf (sN lf u (p, kp, BLACK) a1) (y, ky, cp) (sN lf a2 (v, kv, BLACK) b)))"
    using rb_down_rot_ok [OF b3] by blast
  note h4 = this
  show ?thesis by (rule rb_down_reads [OF tr]) (use c h1(1) h2(1) h3(1) h4 in \<open>simp add: rb_down_black_def Let_def\<close>)
qed

text \<open>A red sibling is first turned over the parent.\<close>

lemma rb_down_step_red:
  assumes tr: "trep root h (plug ctx (sN lf u (p, kp, cp) (sN lf a (v, kv, RED) b)))" "h 0 = None"
  shows "\<exists>h'. rb_down_step root lf p h = rb_down_black root lf p h' \<and>
    becomes root h (plug ctx (sN lf u (p, kp, cp) (sN lf a (v, kv, RED) b))) h' (plug ((lf, (v, kv, BLACK), b) # ctx) (sN lf u (p, kp, RED) a))"
proof -
  let ?t = "plug ctx (sN lf u (p, kp, cp) (sN lf a (v, kv, RED) b))"
  have "apart root ?t" using tr by (simp add: trep_def)
  then have d: "p \<notin> caddrs ctx" "v \<notin> caddrs ctx" "p \<noteq> v" "p \<notin> addrs u" "p \<notin> addrs a" "p \<notin> addrs b" "v \<notin> addrs u" "v \<notin> addrs a" "v \<notin> addrs b"
    unfolding apart_plug apart_sN by (simp_all, (blast+)?)
  have ad: "p \<in> addrs ?t" "v \<in> addrs ?t" by (auto simp: addrs_plug)
  obtain h1 where h1: "set_col v BLACK h = Ok h1" "becomes root h ?t h1 (paint v BLACK ?t)" using set_col_becomes [OF tr ad(2)] by blast
  obtain h2 where h2: "set_col p RED h1 = Ok h2" "becomes root h ?t h2 (paint p RED (paint v BLACK ?t))" using becomes_col [OF h1(2) ad(1)] by blast
  have e: "paint p RED (paint v BLACK ?t) = plug ctx (sN (\<not> lf) (sN (\<not> lf) b (v, kv, BLACK) a) (p, kp, RED) u)"
    using d d(3) [symmetric] by (simp add: paint_plug paint_off sN_flip)
  obtain h3 where h3: "rb_rot (\<not> lf) p h2 = Ok h3" "becomes root h ?t h3 (plug ctx (sN (\<not> lf) b (v, kv, BLACK) (sN (\<not> lf) a (p, kp, RED) u)))"
    using becomes_rot [OF h2(2) [unfolded e]] by auto
  have "rb_down_step root lf p h = rb_down_black root lf p h3"
    by (rule rb_down_reads [OF tr(1)]) (use h1(1) h2(1) h3(1) in \<open>simp add: rb_down_step_def\<close>)
  then show ?thesis using h3(2) by (auto simp: sN_flip)
qed

lemma rb_down_step_black:
  assumes "trep root h (plug ctx (sN lf u (p, kp, cp) (sN lf a (v, kv, BLACK) b)))"
  shows "rb_down_step root lf p h = rb_down_black root lf p h"
  by (rule rb_down_reads [OF assms]) (simp add: rb_down_step_def)

section \<open>The way up after a removal\<close>

text \<open>The subtree in the place may have a red root, which the end of the loop blackens.\<close>

definition reddish :: "('k, rbcol) ttree \<Rightarrow> bool" where
  "reddish t \<longleftrightarrow> (case t of Leaf \<Rightarrow> True | Node l e r \<Rightarrow> bh l = bh r \<and> rb l \<and> rb r)"

lemma reddish_sN [simp]: "reddish (sN lf a (x, k, c) b) \<longleftrightarrow> bh a = bh b \<and> rb a \<and> rb b"
  by (cases lf) (auto simp: reddish_def sN_def)

lemma rb_reddish: "rb t \<Longrightarrow> reddish t"
  by (cases t) (auto simp: reddish_def)

lemma reddish_black: "reddish t \<Longrightarrow> tcol t = BLACK \<Longrightarrow> rb t"
  by (cases t) (auto simp: reddish_def)

lemma blacken:
  assumes "reddish t" "apart root t"
  shows "rb (paint (rt t) BLACK t)" "tcol (paint (rt t) BLACK t) = BLACK" "bh (paint (rt t) BLACK t) = (if tcol t = RED then Suc (bh t) else bh t)"
proof -
  have "rb (paint (rt t) BLACK t) \<and> tcol (paint (rt t) BLACK t) = BLACK \<and> bh (paint (rt t) BLACK t) = (if tcol t = RED then Suc (bh t) else bh t)"
  proof (cases t)
    case (Node l e r)
    obtain x k c where "e = (x, k, c)" by (cases e) auto
    then show ?thesis using assms by (cases c) (auto simp: Node apart_Node paint_off reddish_def)
  qed simp
  then show "rb (paint (rt t) BLACK t)" "tcol (paint (rt t) BLACK t) = BLACK" "bh (paint (rt t) BLACK t) = (if tcol t = RED then Suc (bh t) else bh t)" by auto
qed

text \<open>The end of the loop.\<close>

lemma rb_down_end:
  assumes "trep root h (plug c u)" "h 0 = None" "reddish u" "crb c (Suc (bh u)) BLACK" "c = [] \<or> tcol u = RED"
  shows "\<exists>h' t'. rb_down h root (cpar root c) (cdir c) = ret h' \<and> becomes root h (plug c u) h' t' \<and> rb t' \<and> tcol t' = BLACK"
proof -
  have ap: "apart root u" "capart root c" "addrs u \<inter> caddrs c = {}" using assms(1) by (auto simp: trep_def apart_plug)
  have hl: "hole root h c (rt u)" using assms(1) by (simp add: trep_plug)
  obtain p where p: "tget h (cpar root c) = Ok p" "tn_p p (cdir c) = rt u" using tget_down [OF hl] by blast
  have co: "rb_col (rt u) h = Ok (tcol u)" using trep_col [OF assms(1)] .
  have d: "\<not> (cdir c \<noteq> CP \<and> tcol u = BLACK)" using assms(5) by auto
  have step: "rb_down h root (cpar root c) (cdir c) = Some (if rt u \<noteq> 0 then set_col (rt u) BLACK h else Ok h)"
    using p co d by (subst rb_down.simps) auto
  show ?thesis
  proof (cases "u = Leaf")
    case True
    then have "c = []" using assms(5) by simp
    then show ?thesis using step True becomes_refl [OF assms(1,2)] by auto
  next
    case False
    have "0 \<notin> addrs u" using ap(1) by (simp add: apart_def)
    then have z: "rt u \<noteq> 0" "rt u \<in> addrs u" using rt_in [OF False] by (auto intro: ccontr)
    have "rt u \<in> addrs (plug c u)" using z(2) by (simp add: addrs_plug)
    then obtain h' where h': "set_col (rt u) BLACK h = Ok h'" "becomes root h (plug c u) h' (paint (rt u) BLACK (plug c u))"
      using set_col_becomes [OF assms(1,2)] by blast
    have "rt u \<notin> caddrs c" using z(2) ap(3) by auto
    then have e: "paint (rt u) BLACK (plug c u) = plug c (paint (rt u) BLACK u)" by (rule paint_plug)
    have "crb c (bh (paint (rt u) BLACK u)) BLACK" using assms(4,5) blacken(3) [OF assms(3) ap(1)] by auto
    then have "rb (plug c (paint (rt u) BLACK u)) \<and> tcol (plug c (paint (rt u) BLACK u)) = BLACK"
      using rb_plug blacken(1,2) [OF assms(3) ap(1)] by metis
    then show ?thesis using step z(1) h' by (auto simp: e)
  qed
qed

lemma rb_down_ok:
  assumes "trep root h (plug c u)" "h 0 = None" "reddish u" "crb c (Suc (bh u)) BLACK"
  shows "\<exists>h' t'. rb_down h root (cpar root c) (cdir c) = ret h' \<and> becomes root h (plug c u) h' t' \<and> rb t' \<and> tcol t' = BLACK"
  using assms
proof (induction "2 * length c + (if tcol u = BLACK then 1 else 0)" arbitrary: h c u rule: less_induct)
  case less
  show ?case
  proof (cases "c = [] \<or> tcol u = RED")
    case True
    then show ?thesis using rb_down_end less.prems by blast
  next
    case False
    then have cu: "tcol u = BLACK" "c \<noteq> []" by (auto simp: not_RED)
    then obtain lf p kp cp s c1 where c: "c = (lf, (p, kp, cp), s) # c1" by (metis list.exhaust prod_cases3)
    have inv: "bh s = Suc (bh u)" "cp = RED \<longrightarrow> tcol s = BLACK" "rb s" "crb c1 (Suc (bh u) + (if cp = BLACK then 1 else 0)) cp"
      using less.prems(4) by (auto simp: c)
    have ru: "rb u" by (rule reddish_black [OF less.prems(3) cu(1)])
    obtain a v kv cv b where s: "s = sN lf a (v, kv, cv) b" using sN_cases [of s lf] inv(1) by fastforce
    have T: "plug c u = plug c1 (sN lf u (p, kp, cp) (sN lf a (v, kv, cv) b))" by (simp add: c s)
    note tr = less.prems(1) [unfolded T]
    have d: "cdir c = CL \<longleftrightarrow> lf" "cdir c \<noteq> CP" "cpar root c = p" by (cases lf; simp add: c)+
    obtain pn where pn: "tget h p = Ok pn" "tn_p pn (sd lf) = rt u" using trep_sN [OF tr] by auto
    have co: "rb_col (rt u) h = Ok BLACK" using trep_col [OF less.prems(1)] cu(1) by simp
    have "cdir c = sd lf" by (simp add: c)
    then have step: "rb_down h root (cpar root c) (cdir c) = rbind (Some (rb_down_step root lf p h)) (\<lambda>(h, par, d). rb_down h root par d)"
      using pn co d by (subst rb_down.simps) simp
    have black: "\<exists>h' t'. rbind (Some (rb_down_black root lf p h1)) (\<lambda>(h, par, d). rb_down h root par d) = ret h' \<and> becomes root h (plug c u) h' t' \<and> rb t' \<and> tcol t' = BLACK"
      if b: "becomes root h (plug c u) h1 (plug c2 (sN lf u (p, kp, cq) (sN lf a (v, kv, BLACK) b)))"
        and i: "bh a = bh u" "bh b = bh u" "rb a" "rb b" "crb c2 (Suc (bh u) + (if cq = BLACK then 1 else 0)) cq"
        and m: "2 * length c2 + (if cq = BLACK then 1 else 0) < 2 * length c + 1" for h1 c2 cq a v kv b
    proof -
      have fin: ?thesis if st: "rb_down_black root lf p h1 = Ok (h2, root, CP)" "becomes root h (plug c u) h2 (plug c2 R)" "rb R" "bh R = Suc (bh u) + (if cq = BLACK then 1 else 0)" "tcol R = cq" for h2 R
      proof -
        have r: "rb (plug c2 R) \<and> tcol (plug c2 R) = BLACK" using rb_plug [of c2 R] st(3,4,5) i(5) by simp
        obtain h' t' where h': "rb_down h2 root root CP = ret h'" "becomes root h2 (plug c2 R) h' t'" "rb t'" "tcol t' = BLACK"
          using rb_down_end [of root h2 "[]" "plug c2 R"] becomesD(1,3) [OF st(2)] r rb_reddish by auto
        then show ?thesis using st(1) becomes_trans [OF st(2) h'(2)] by auto
      qed
      consider (both) "tcol a = BLACK" "tcol b = BLACK" | (outer) "tcol b = RED" | (inner) "tcol a = RED" "tcol b = BLACK"
        by (metis rbcol.exhaust)
      then show ?thesis
      proof cases
        case both
        let ?R = "sN lf u (p, kp, cq) (sN lf a (v, kv, RED) b)"
        obtain h2 where h2: "rb_down_black root lf p h1 = Ok (h2, cpar root c2, cdir c2)" "becomes root h (plug c u) h2 (plug c2 ?R)"
          using rb_down_black_both [OF b both] by blast
        have R: "reddish ?R" "bh ?R = bh u + (if cq = BLACK then 1 else 0)" "tcol ?R = cq" using i both ru by auto
        have "crb c2 (Suc (bh ?R)) BLACK" unfolding R(2) using crb_black [OF i(5)] by simp
        then obtain h' t' where "rb_down h2 root (cpar root c2) (cdir c2) = ret h'" "becomes root h2 (plug c2 ?R) h' t'" "rb t'" "tcol t' = BLACK"
          using less.hyps [of c2 ?R h2] becomesD(1,3) [OF h2(2)] R(1,3) m cu(1) by auto
        then show ?thesis using h2(1) becomes_trans [OF h2(2)] by auto
      next
        case outer
        obtain b1 z kz b2 where bb: "b = sN lf b1 (z, kz, RED) b2" using tcol_RED [OF outer] by blast
        obtain h2 where "rb_down_black root lf p h1 = Ok (h2, root, CP)"
          "becomes root h (plug c u) h2 (plug c2 (sN lf (sN lf u (p, kp, BLACK) a) (v, kv, cq) (sN lf b1 (z, kz, BLACK) b2)))"
          using rb_down_black_outer [OF b [unfolded bb]] by blast
        then show ?thesis by (rule fin) (use i ru cu(1) in \<open>auto simp: bb\<close>)
      next
        case inner
        obtain a1 y ky a2 where aa: "a = sN lf a1 (y, ky, RED) a2" using tcol_RED [OF inner(1)] by blast
        obtain h2 where "rb_down_black root lf p h1 = Ok (h2, root, CP)"
          "becomes root h (plug c u) h2 (plug c2 (sN lf (sN lf u (p, kp, BLACK) a1) (y, ky, cq) (sN lf a2 (v, kv, BLACK) b)))"
          using rb_down_black_inner [OF b [unfolded aa] inner(2)] by blast
        then show ?thesis by (rule fin) (use i ru cu(1) in \<open>auto simp: aa\<close>)
      qed
    qed
    show ?thesis
    proof (cases cv)
      case BLACK
      have "becomes root h (plug c u) h (plug c1 (sN lf u (p, kp, cp) (sN lf a (v, kv, BLACK) b)))"
        using becomes_refl [OF less.prems(1,2)] by (simp add: T BLACK)
      then have "\<exists>h' t'. rbind (Some (rb_down_black root lf p h)) (\<lambda>(h, par, d). rb_down h root par d) = ret h' \<and> becomes root h (plug c u) h' t' \<and> rb t' \<and> tcol t' = BLACK"
        by (rule black) (use inv in \<open>auto simp: s BLACK c\<close>)
      then show ?thesis using step rb_down_step_black [OF tr [unfolded BLACK]] by simp
    next
      case RED
      obtain h1 where h1: "rb_down_step root lf p h = rb_down_black root lf p h1"
        "becomes root h (plug c u) h1 (plug ((lf, (v, kv, BLACK), b) # c1) (sN lf u (p, kp, RED) a))"
        using rb_down_step_red [OF tr [unfolded RED] less.prems(2)] by (auto simp: T RED)
      have i: "tcol a = BLACK" "tcol b = BLACK" "bh a = Suc (bh u)" "bh b = Suc (bh u)" "rb a" "rb b" "cp = BLACK" using inv by (auto simp: s RED not_RED)
      obtain a1 y ky cy a2 where aa: "a = sN lf a1 (y, ky, cy) a2" using sN_cases [of a lf] i(3) by fastforce
      have cy: "cy = BLACK" using i(1) by (simp add: aa)
      have "\<exists>h' t'. rbind (Some (rb_down_black root lf p h1)) (\<lambda>(h, par, d). rb_down h root par d) = ret h' \<and> becomes root h (plug c u) h' t' \<and> rb t' \<and> tcol t' = BLACK"
        by (rule black [OF h1(2) [unfolded aa cy]]) (use i inv in \<open>auto simp: aa cy c\<close>)
      then show ?thesis using step h1(1) by simp
    qed
  qed
qed

end
