(* ===== verification/RbTable.thy ===== *)
theory RbTable
  imports RbTree CString
begin

text \<open>
  Insertion into and removal from a red-black tree as a whole: the state \<open>rb_state\<close>, the table it
  implements (an instance of the locale \<open>tree_table\<close>), and what the code promises to its callers.
\<close>

section \<open>Insertion\<close>

definition rb_state :: "('k \<Rightarrow> 'k \<Rightarrow> int) \<Rightarrow> taddr \<Rightarrow> 'k rheap \<Rightarrow> ('k, rbcol) ttree \<Rightarrow> bool" where
  "rb_state cmp root h t \<longleftrightarrow> trep root h t \<and> rb t \<and> tcol t = BLACK \<and> ordered cmp (ino t) \<and> owned root h t"

lemma set_col_same: "h x = Some m \<Longrightarrow> tn_tag m = c \<Longrightarrow> set_col x c h = Ok h"
  by (auto simp: t_tag_def tset_def fun_upd_idem)

lemma set_root_black:
  assumes "becomes root h0 t0 h t" "rb t" "t \<noteq> Leaf"
  shows "\<exists>h' t'. rbind (Some (tget h root)) (\<lambda>t. Some (set_col (tn_p t CP) BLACK h)) = ret h' \<and> becomes root h0 t0 h' t' \<and> rb t' \<and> tcol t' = BLACK"
proof -
  have tr: "trep root h t" using becomesD(1) [OF assms(1)] .
  then have e: "edge root h root CP (rt t)" "apart root t" by (simp_all add: trep_def)
  obtain n where n: "tget h root = Ok n" "tn_p n CP = rt t" using tget_down [OF e(1)] by blast
  have "rt t \<in> addrs t0" using rt_in [OF assms(3)] addrs_ino [OF becomesD(2) [OF assms(1)]] by simp
  then obtain h' where "set_col (rt t) BLACK h = Ok h'" "becomes root h0 t0 h' (paint (rt t) BLACK t)" using becomes_col [OF assms(1)] by blast
  then show ?thesis using n paint_black [OF assms(2) e(2)] by auto
qed

lemma rb_ins_new:
  assumes "rb_state cmp root h t" "tfree RED root h n k" "locate cmp k [] t = (c, Leaf)" "n \<notin> addrs t"
    and "ordered cmp (cleft c @ (n, k) # cright c)"
  shows "\<exists>h' t'. rb_ins cmp root n 0 CP h = ret (h', 0) \<and> rb_state cmp root h' t' \<and> ino t' = cleft c @ (n, k) # cright c
    \<and> (\<forall>y. y \<notin> insert n (insert root (addrs t)) \<longrightarrow> h' y = h y)"
proof -
  let ?u = "Node Leaf (n, k, RED) Leaf :: ('a, rbcol) ttree"
  have a: "trep root h t" "rb t" "tcol t = BLACK" "h 0 = None" "\<forall>x \<in> addrs t. owner h x = Some root" using assms(1) by (auto simp: rb_state_def owned_def)
  have t: "plug c Leaf = t" using plug_locate [OF assms(3)] by simp
  have inoU: "ino (plug c ?u) = cleft c @ (n, k) # cright c" by (simp add: ino_plug_lr)
  obtain h1 where h1: "t_fix (cpar root c) n (cdir c) h = Ok h1" "trep root h1 (plug c ?u)" "h1 0 = None" "owner h1 = owner h"
    "\<forall>y. y \<notin> insert n (insert root (addrs t)) \<longrightarrow> h1 y = h y"
    using new_leaf [of root h c RED n k] a(1,4) assms(2,4) unfolding t by blast
  have "crb c 0 BLACK" using a(2,3) rb_plug [of c Leaf] by (simp add: t)
  then obtain h2 t2 where h2: "rb_up h1 root n = ret h2" "becomes root h1 (plug c ?u) h2 t2" "rb t2"
    using rb_up_ok [OF h1(2,3)] by auto
  have "t2 \<noteq> Leaf" using becomesD(2) [OF h2(2)] inoU by auto
  then obtain h3 t' where h3: "rbind (Some (tget h2 root)) (\<lambda>t. Some (set_col (tn_p t CP) BLACK h2)) = ret h3" "becomes root h1 (plug c ?u) h3 t'" "rb t'" "tcol t' = BLACK"
    using set_root_black [OF h2(2,3)] by blast
  obtain m where m: "h n = Some m" "tn_key m = k" "tn_tag m = RED" "n \<noteq> 0" using assms(2) by (auto simp: tfree_def)
  have "owner h3 n \<noteq> None" using becomes_owned [OF h3(2)] h1(4) m(1) by (simp add: owner_def)
  then obtain h4 where h4: "tset n (\<lambda>n. n\<lparr>tn_tree := root\<rparr>) h3 = Ok h4" "links h4 = links h3" "info h4 = info h3"
    "owner h4 = (owner h3)(n \<mapsto> root)" "\<forall>y. y \<noteq> n \<longrightarrow> h4 y = h3 y" using t_owner_effect [of h3 n root] by (auto simp: owner_def)
  have ino': "ino t' = cleft c @ (n, k) # cright c" using becomesD(2) [OF h3(2)] inoU by simp
  have ad: "addrs t' = insert n (addrs t)" "addrs (plug c ?u) = insert n (addrs t)"
    using addrs_ino [OF becomesD(2) [OF h3(2)]] by (auto simp: addrs_plug simp flip: t)
  have d: "cdir c \<noteq> CN" "cpar root c \<noteq> 0" using a(1) cpar_nz by (auto simp flip: t simp: trep_plug apart_plug)
  have at: "rb_ins_at root n (cpar root c) (cdir c) h = ret h3"
    using d m(4) set_col_same [of h n m RED, OF m(1,3)] h1(1) h2(1) h3(1) by (simp add: rb_ins_at_def rb_fix_def)
  have "rb_ins cmp root n 0 CP h = ret (h4, 0)"
    using m d(1) at h4(1) findloc_ok [OF a(1), of cmp k] assms(3) by (simp add: rb_ins_def rb_findloc_def tget_def)
  moreover have "trep root h4 t'" using trep_links [OF h4(2,3)] becomesD(1) [OF h3(2)] by simp
  moreover have "h4 0 = None" using h4(5) m(4) becomesD(3) [OF h3(2)] by simp
  moreover have "\<forall>x \<in> addrs t'. owner h4 x = Some root" using a(5) h1(4) h4(4) becomes_owned [OF h3(2)] by (auto simp: ad)
  moreover have "h4 y = h y" if "y \<notin> insert n (insert root (addrs t))" for y
    using that h4(5) becomesD(4) [OF h3(2)] h1(5) by (auto simp: within_def ad)
  ultimately show ?thesis using h3(3,4) ino' assms(5) by (auto simp: rb_state_def owned_def)
qed

section \<open>Taking a node out\<close>

text \<open>
  \<open>taken\<close> is the state after the pointers are put right: the node is out of the tree, and \<open>u\<close> is in
  the place where the tree may lack a black node.
\<close>

definition taken :: "taddr \<Rightarrow> 'k rheap \<Rightarrow> ('k, rbcol) ttree \<Rightarrow> (taddr \<times> 'k) list \<Rightarrow> 'k rheap \<Rightarrow> ('k, rbcol) ttree \<Rightarrow> bool" where
  "taken root h t ps h' t' \<longleftrightarrow> trep root h' t' \<and> ino t' = ps \<and> within (insert root (addrs t)) h h'"

text \<open>No left child: the right subtree, if any, takes the place.\<close>

lemma take_right:
  assumes "trep root h (plug c (Node Leaf (n, k, b) r))" "h 0 = None"
  shows "\<exists>h'. t_fix (cpar root c) (rt r) (cdir c) h = Ok h' \<and> taken root h (plug c (Node Leaf (n, k, b) r)) (cleft c @ ino r @ cright c) h' (plug c r)"
proof -
  have s: "cshape root h c" "shape root h r" and ap: "apart root (plug c (Node Leaf (n, k, b) r))" using assms(1) by (auto simp: trep_plug)
  obtain h' where h: "t_fix (cpar root c) (rt r) (cdir c) h = Ok h'" "trep root h' (plug c r)" "within (insert root (addrs (plug c r))) h h'"
    using graft_within [OF s apart_part(2) [OF ap] root_dom [OF assms(1)] assms(2)] by blast
  have "within (insert root (addrs (plug c (Node Leaf (n, k, b) r)))) h h'" by (rule within_mono [OF h(3)]) (auto simp: addrs_plug)
  then show ?thesis using h(1,2) by (simp add: taken_def ino_plug_lr)
qed

text \<open>The left child takes the place.\<close>

lemma take_child:
  assumes "trep root h (plug c (Node (Node u (y, ky, cy) Leaf) (n, k, b) r))" "h 0 = None"
  shows "\<exists>h1 m h2. t_fix y (rt r) CR h = Ok h1 \<and> tget h1 n = Ok m \<and> t_fix (tn_p m CP) y (tn_dir m) h1 = Ok h2
    \<and> taken root h (plug c (Node (Node u (y, ky, cy) Leaf) (n, k, b) r)) (cleft c @ ino u @ (y, ky) # ino r @ cright c) h2 (plug c (Node u (y, ky, cy) r))"
proof -
  let ?p = "cpar root c" and ?T = "plug c (Node (Node u (y, ky, cy) Leaf) (n, k, b) r)"
  let ?fs = "[(y, rt r, CR), (?p, y, cdir c)]"
  have s: "hole root h c n" "cshape root h c" "shape root h u" "shape root h r" "info h y = Some (ky, cy)" "edge root h y CL (rt u)"
    and ap: "apart root ?T" using assms(1) by (auto simp: trep_plug)
  have d: "capart root c" "apart root u" "apart root r" "addrs u \<inter> addrs r = {}" "addrs u \<inter> caddrs c = {}" "addrs r \<inter> caddrs c = {}"
    "y \<notin> addrs u" "y \<notin> addrs r" "y \<notin> caddrs c" "y \<noteq> 0" "y \<noteq> root" "n \<notin> addrs r" "n \<noteq> y" "n \<noteq> 0"
    using ap unfolding apart_plug apart_Node by (simp_all, (blast+)?)
  have ap': "apart root (plug c (Node u (y, ky, cy) r))" using d unfolding apart_plug apart_Node by simp blast
  have hy: "h y \<noteq> None" using s(5) by (auto simp: info_def)
  have p: "?p \<noteq> y" "?p \<noteq> 0" "?p \<notin> addrs u" "?p \<notin> addrs r" "rt r \<noteq> y" "rt r \<noteq> root" "rt r = 0 \<or> h (rt r) \<noteq> None" "rt r \<notin> caddrs c" "h ?p \<noteq> None"
    using d shape_rt [OF s(4)] cshape_dom [OF s(2) root_dom [OF assms(1)]] by (auto simp: place_facts)
  have o: "rt u = 0 \<or> rt u \<noteq> rt r" "rt r \<notin> addrs u" "rt r \<noteq> n" "rt u \<noteq> y"
    using d rt_disj [of u r] by (auto simp: rt_notin place_facts Int_commute dest: not_sym)
  have yr: "CR = CP \<longleftrightarrow> y = root" "cdir c = CP \<longleftrightarrow> ?p = root" using d(11) cdir_CP [OF d(1)] by auto
  obtain h1 where h1: "t_fix y (rt r) CR h = Ok h1" "chain root [(y, rt r, CR)] h h1"
    using chain_step [OF chain_start d(10) _ yr(1) p(6) hy p(7)] by auto
  obtain m where m: "tget h1 n = Ok m" "tn_p m CP = ?p" "tn_dir m = cdir c"
    using chain_up [OF h1(2) s(1)] p(1) o(3) [THEN not_sym] d(14) by auto
  obtain h2 where h2: "t_fix ?p y (cdir c) h1 = Ok h2" "chain root ?fs h h2"
    using chain_step [OF h1(2) p(2) cdir_not_CN yr(2) d(11) p(9)] hy by auto
  have st: "settled ?fs" using p(1,5) p(5) [THEN not_sym] by simp
  note new = chain_new [OF h2(2) st]
  have "edge root h2 y CL (rt u)" by (rule chain_edge [OF h2(2) s(6)]) (use p o in auto)
  moreover have "shape root h2 u" by (rule chain_shape [OF h2(2) s(3) d(2)]) (use d p o in auto)
  moreover have "shape root h2 r" by (rule chain_shape [OF h2(2) s(4) d(3)]) (use d p o in auto)
  moreover have "cshape root h2 c" by (rule chain_cshape [OF h2(2) s(2) d(1)]) (use d p o in auto)
  ultimately have "trep root h2 (plug c (Node u (y, ky, cy) r))"
    unfolding trep_plug shape.simps chain_info [OF h2(2)] using ap' s(5) new by simp
  moreover have "within (insert root (addrs ?T)) h h2"
    using cpar_cases [of root c] rt_cases [of r] by (intro chain_within [OF h2(2) assms(2)]) (auto simp: addrs_plug)
  ultimately show ?thesis using h1(1) m h2(1) by (auto simp: taken_def ino_plug_lr)
qed

text \<open>The greatest node on the left takes the place, with the colour \<open>b\<close>.\<close>

lemma take_deep:
  assumes "trep root h (plug c (Node l (n, k, b) r))" "h 0 = None" and l: "l = plug c' (Node u (y, ky, cy) Leaf)" "c' \<noteq> []" "cright c' = []"
  shows "\<exists>h1 h2 h3 m. tget h y = Ok m \<and> tn_tag m = cy \<and> t_fix (tn_p m CP) (tn_p m CL) (tn_dir m) h = Ok h1 \<and> set_col y b h1 = Ok h2 \<and> t_replace n y h2 = Ok h3
    \<and> tn_p m CP = cpar root (c' @ (True, (y, ky, b), r) # c) \<and> tn_dir m = cdir (c' @ (True, (y, ky, b), r) # c)
    \<and> taken root h (plug c (Node l (n, k, b) r)) (cleft c @ ino l @ ino r @ cright c) h3 (plug (c' @ (True, (y, ky, b), r) # c) u)"
proof -
  let ?T = "plug c (Node l (n, k, b) r)" and ?C = "c' @ (True, (n, k, b), r) # c" and ?D = "c' @ (True, (y, ky, b), r) # c"
  let ?u = "plug c' u"
  have T: "?T = plug ?C (Node u (y, ky, cy) Leaf)" by (simp add: l(1) plug_append sN_def)
  note tr = assms(1) [unfolded T]
  obtain m where m: "tget h y = Ok m" "tn_tag m = cy" "tn_p m CL = rt u" "tn_p m CP = cpar root ?C" "tn_dir m = cdir ?C" using trep_Node [OF tr] by auto
  have s: "cshape root h ?C" "shape root h u" and ap: "apart root (plug ?C (Node u (y, ky, cy) Leaf))" using tr by (auto simp: trep_plug)
  note ap' = apart_part [OF ap]
  obtain h1 where h1: "t_fix (cpar root ?C) (rt u) (cdir ?C) h = Ok h1" "trep root h1 (plug ?C u)" "within (insert root (addrs (plug ?C u))) h h1" "info h1 = info h"
    using graft_within [OF s ap'(1) root_dom [OF tr] assms(2)] by blast
  have z1: "h1 0 = None" using h1(3) assms(2) ap'(1) by (auto simp: within_def apart_def)
  have ny: "y \<notin> addrs (plug c (Node ?u (n, k, b) r))" "y \<notin> addrs (plug ?C u)" "y \<noteq> root" "y \<noteq> 0"
    using ap ap'(8,9,10) by (auto simp: addrs_plug caddrs_append apart_def)
  have y: "info h1 y = Some (ky, cy)" using tr h1(4) by (auto simp: trep_plug)
  obtain h2 where h2: "set_col y b h1 = Ok h2" "info h2 = (info h1)(y \<mapsto> (ky, b))" "\<forall>x. x \<noteq> y \<longrightarrow> h2 x = h1 x" "owner h2 = owner h1"
    using t_tag_effect [OF y, where f = "\<lambda>_. b" and root = root] by (auto simp: within_def)
  have "trep root h2 (plug ?C u)" by (rule trep_off [OF h1(2)]) (use h2(3) ny(2,3) in auto)
  then have t2: "trep root h2 (plug c (Node ?u (n, k, b) r))" by (simp add: plug_append sN_def)
  have z2: "h2 0 = None" using z1 h2(3) ny(4) by simp
  have y2: "info h2 y = Some (ky, b)" using h2(2) by simp
  obtain h3 where h3: "t_replace n y h2 = Ok h3" "trep root h3 (plug c (Node ?u (y, ky, b) r))"
    "within (insert y (insert root (addrs (plug c (Node ?u (n, k, b) r))))) h2 h3"
    using t_replace_ok [OF t2 z2 y2 ny(1,3)] by auto
  have D: "plug ?D u = plug c (Node ?u (y, ky, b) r)" by (simp add: plug_append sN_def)
  have i: "ino (plug ?D u) = cleft c @ ino l @ ino r @ cright c" unfolding D l(1) by (simp add: ino_plug_lr l(3))
  have "within (insert y (insert root (addrs (plug ?C u)))) h1 h2" using h2(3,4) by (auto simp: within_def)
  then have "within (insert root (addrs ?T)) h h2"
    by (rule within_trans [OF h1(3)]) (auto simp: addrs_plug plug_append l(1))
  then have "within (insert root (addrs ?T)) h h3"
    by (rule within_trans [OF _ h3(3)]) (auto simp: addrs_plug plug_append l(1))
  then have "taken root h ?T (cleft c @ ino l @ ino r @ cright c) h3 (plug ?D u)" using h3(2) i D by (simp add: taken_def)
  moreover have "cpar root ?C = cpar root ?D" "cdir ?C = cdir ?D"
    using cpar_append(1) [OF l(2), of root _ root] cpar_append(2) [OF l(2)] by metis+
  ultimately show ?thesis using m h1(1) h2(1) h3(1) by auto
qed

text \<open>A colour change, in a state reached by taking a node out.\<close>

lemma taken_col:
  assumes "taken root h t ps h1 t1" "h1 0 = None" "x \<in> fst ` set ps" "fst ` set ps \<subseteq> addrs t"
  shows "\<exists>h2 m. tget h1 x = Ok m \<and> set_col x cc h1 = Ok h2 \<and> taken root h t ps h2 (paint x cc t1)"
proof -
  have a: "trep root h1 t1" "ino t1 = ps" "within (insert root (addrs t)) h h1" using assms(1) by (auto simp: taken_def)
  have ad: "addrs t1 = fst ` set ps" using a(2) set_ino by metis
  obtain h2 where h2: "set_col x cc h1 = Ok h2" "becomes root h1 t1 h2 (paint x cc t1)"
    using set_col_becomes [OF a(1) assms(2), of x cc] assms(3) ad by auto
  have "within (insert root (addrs t)) h h2"
    by (rule within_trans [OF a(3) becomesD(4) [OF h2(2)]]) (use assms(4) ad in auto)
  then show ?thesis using h2(1) becomesD(1,2) [OF h2(2)] a(2) by (auto simp: taken_def t_tag_def tset_def tget_def split: option.splits)
qed

section \<open>Removal\<close>

lemma rb_rename: "rb (plug c (Node l (n, k, b) r)) \<and> tcol (plug c (Node l (n, k, b) r)) = BLACK
  \<longleftrightarrow> rb (plug c (Node l (y, j, b) r)) \<and> tcol (plug c (Node l (y, j, b) r)) = BLACK"
  by (simp add: rb_plug)

text \<open>What may be left in the place of a node without a right child, and of a node without a left one.\<close>

lemma gap_left:
  assumes "rb (plug c (Node u (y, k, cy) Leaf)) \<and> tcol (plug c (Node u (y, k, cy) Leaf)) = BLACK"
  shows "if cy = RED then rb (plug c u) \<and> tcol (plug c u) = BLACK else reddish u \<and> crb c (Suc (bh u)) BLACK"
proof -
  have a: "rb (Node u (y, k, cy) Leaf)" "crb c (bh (Node u (y, k, cy) Leaf)) cy" using assms rb_plug [of c "Node u (y, k, cy) Leaf"] by auto
  show ?thesis
  proof (cases cy)
    case RED
    then have "rb u" "crb c (bh u) (tcol u)" using a crb_black by auto
    then show ?thesis using RED rb_plug [of c u] by simp
  qed (use a rb_reddish in auto)
qed

lemma gap_right:
  assumes "rb (plug c (Node Leaf (n, k, b) r)) \<and> tcol (plug c (Node Leaf (n, k, b) r)) = BLACK" "r \<noteq> Leaf"
  shows "\<exists>y j. r = Node Leaf (y, j, RED) Leaf \<and> rb (plug c (Node Leaf (y, j, b) Leaf)) \<and> tcol (plug c (Node Leaf (y, j, b) Leaf)) = BLACK"
proof -
  have a: "rb (Node Leaf (n, k, b) r)" "crb c (bh (Node Leaf (n, k, b) r)) b" using assms(1) rb_plug [of c "Node Leaf (n, k, b) r"] by auto
  obtain l y j m s where r: "r = Node l (y, j, m) s" using assms(2) by (metis tree.exhaust prod_cases3)
  have m: "m = RED" "bh l = 0" "bh s = 0" "tcol l = BLACK" "tcol s = BLACK" using a(1) by (auto simp: r split: if_splits) (metis rbcol.exhaust)+
  have "t = Leaf" if "bh t = 0" "tcol t = BLACK" for t :: "('a, rbcol) ttree" using that by (cases t) (auto simp: tcol_def split: if_splits prod.splits)
  then have "l = Leaf" "s = Leaf" using m by auto
  then show ?thesis using a rb_plug [of c "Node Leaf (y, j, b) Leaf"] by (auto simp: r m(1))
qed

text \<open>From there to the end of the call.\<close>

lemma rb_finish:
  assumes u: "taken root h t ps h1 t1" and h0: "h 0 = None" and own: "\<forall>x \<in> addrs t. owner h x = Some root"
    and n: "n \<notin> fst ` set ps" "n \<noteq> root" "n \<noteq> 0" "n \<in> addrs t" and o: "ordered cmp ps"
    and ps: "fst ` set ps \<subseteq> addrs t" and t0: "0 \<notin> insert root (addrs t)"
    and gap: "if oldc = RED then rb t1 \<and> tcol t1 = BLACK else t1 = plug c u \<and> reddish u \<and> crb c (Suc (bh u)) BLACK \<and> par = cpar root c \<and> d = cdir c"
  shows "\<exists>h' t'. rbind (Some (rb_ninit n k h1)) (\<lambda>h. if oldc = RED then ret h else rb_down h root par d) = ret h' \<and> rb_state cmp root h' t'
    \<and> ino t' = ps \<and> tfree RED root h' n k \<and> owner h' n = Some root \<and> (\<forall>y. y \<notin> insert root (addrs t) \<longrightarrow> h' y = h y)"
proof -
  have u': "trep root h1 t1" "ino t1 = ps" "owner h1 = owner h" "\<forall>y. y \<notin> insert root (addrs t) \<longrightarrow> h1 y = h y"
    using u by (auto simp: taken_def within_def)
  have ad: "addrs t1 = fst ` set ps" using u'(2) set_ino by metis
  have "owner h1 n = Some root" using own n(4) u'(3) by simp
  then obtain m where m: "h1 n = Some m" "tn_tree m = root" by (auto simp: owner_def)
  let ?m = "m\<lparr>tn_p := (tn_p m)(CL := 0, CP := 0, CR := 0), tn_dir := CL, tn_tag := RED, tn_key := k\<rparr>"
  let ?h = "h1(n \<mapsto> ?m)"
  have r: "rb_ninit n k h1 = Ok ?h" using m n(3) by (simp add: rb_ninit_def tset_def)
  have tr: "trep root ?h t1" by (rule trep_off [OF u'(1)]) (use n ad in auto)
  have z: "?h 0 = None" using u'(4) h0 t0 n(3) by simp
  obtain h' t' where d: "(if oldc = RED then ret ?h else rb_down ?h root par d) = ret h'" "becomes root ?h t1 h' t'" "rb t'" "tcol t' = BLACK"
  proof (cases "oldc = RED")
    case True
    then show ?thesis using that [of ?h t1] gap becomes_refl [OF tr z] by simp
  next
    case False
    then show ?thesis using that gap tr rb_down_ok [of root ?h c u] z by auto
  qed
  have w: "\<forall>y. y \<notin> insert root (fst ` set ps) \<longrightarrow> h' y = ?h y" using becomesD(4) [OF d(2)] ad by (simp add: within_def)
  have i: "ino t' = ps" using becomesD(2) [OF d(2)] u'(2) by simp
  have "h' n = Some ?m" using w n by simp
  then have f: "tfree RED root h' n k" "owner h' n = Some root" using m n by (simp_all add: tfree_def owner_def)
  have "owner h' x = Some root" if "x \<in> addrs t'" for x
  proof -
    have x: "x \<in> fst ` set ps" using that i set_ino by metis
    then have "owner ?h x = owner h1 x" using n(1) by (auto simp: owner_def)
    then show ?thesis using x ps own u'(3) becomes_owned [OF d(2)] by auto
  qed
  then have "rb_state cmp root h' t'" using becomesD(1,3) [OF d(2)] d(3,4) o i by (simp add: rb_state_def owned_def)
  moreover have "h' y = h y" if y: "y \<notin> insert root (addrs t)" for y
  proof -
    have "y \<notin> insert root (fst ` set ps)" "y \<noteq> n" using y ps n(4) by auto
    then show ?thesis using w u'(4) y by simp
  qed
  ultimately show ?thesis using r d(1) i f by auto
qed

lemma rb_rem_ok:
  assumes "rb_state cmp root h t" "t = plug c (Node l (n, k, b) r)"
  shows "\<exists>h' t'. rb_rem n h = ret h' \<and> rb_state cmp root h' t' \<and> ino t' = cleft c @ ino l @ ino r @ cright c
    \<and> tfree RED root h' n k \<and> owner h' n = Some root \<and> (\<forall>y. y \<notin> insert root (addrs t) \<longrightarrow> h' y = h y)"
proof -
  let ?ps = "cleft c @ ino l @ ino r @ cright c"
  have a: "trep root h t" "rb t \<and> tcol t = BLACK" "ordered cmp (ino t)" "h 0 = None" "\<forall>x \<in> addrs t. owner h x = Some root"
    using assms(1) by (auto simp: rb_state_def owned_def)
  note tr = a(1) [unfolded assms(2)] and inv = a(2) [unfolded assms(2)]
  have it: "ino t = cleft c @ ino l @ (n, k) # ino r @ cright c" by (simp add: assms(2) ino_plug_lr)
  have ap: "apart root t" using a(1) by (simp add: trep_def)
  have n: "n \<notin> fst ` set ?ps" "n \<noteq> root" "n \<noteq> 0" "n \<in> addrs t" "fst ` set ?ps \<subseteq> addrs t" "0 \<notin> insert root (addrs t)" "root \<noteq> 0"
    using ap unfolding apart_def it by (auto simp flip: set_ino simp: it)
  have o: "ordered cmp ?ps" using a(3) unfolding it by (auto simp: ordered_def sorted_wrt_append)
  obtain m where m: "tget h n = Ok m" "tn_key m = k" "tn_tag m = b" "tn_p m CL = rt l" "tn_p m CR = rt r" "tn_p m CP = cpar root c" "tn_dir m = cdir c"
    using trep_Node [OF tr] by auto
  have own: "tn_tree m = root" using a(5) n(4) m(1) by (auto simp: owner_def tget_def split: option.splits)
  note fin = rb_finish [OF _ a(4,5) n(1,2,3,4) o n(5,6), where k = k]
  have al: "apart root l" "apart root r" "addrs l \<inter> addrs r = {}" "n \<notin> addrs l" using apart_part [OF ap [unfolded assms(2)]] by auto
  have z: "rt l = 0 \<longleftrightarrow> l = Leaf" "rt r = 0 \<longleftrightarrow> r = Leaf" using al(1,2) rt_cases [of l] rt_cases [of r] by (auto simp: apart_def)
  have z1: "h1 0 = None" if "taken root h t qs h1 t1" for h1 t1 qs using that a(4) n(6) by (auto simp: taken_def within_def)
  show ?thesis
  proof (cases "l = Leaf")
    case ll: True
    obtain h1 where h1: "t_fix (cpar root c) (rt r) (cdir c) h = Ok h1" "taken root h t ?ps h1 (plug c r)"
      using take_right [of root h c n k b r] tr a(4) ll assms(2) by auto
    show ?thesis
    proof (cases "r = Leaf")
      case True
      have "rb_rem n h = rbind (Some (rb_ninit n k h1)) (\<lambda>h. if b = RED then ret h else rb_down h root (cpar root c) (cdir c))"
        using m own n(3,7) ll True h1(1) by (auto simp: rb_rem_def rb_findrep_def t_findrep_def rb_fix_def)
      then show ?thesis using fin [OF h1(2), of b c Leaf "cpar root c" "cdir c"] gap_left [of c Leaf n k b] inv by (cases b) (simp_all add: True ll)
    next
      case False
      obtain y j where r: "r = Node Leaf (y, j, RED) Leaf" "rb (plug c (Node Leaf (y, j, b) Leaf)) \<and> tcol (plug c (Node Leaf (y, j, b) Leaf)) = BLACK"
        using gap_right [OF inv [unfolded ll] False] by blast
      have "y \<in> fst ` set ?ps" by (simp add: r(1))
      then obtain h2 q where h2: "tget h1 y = Ok q" "set_col y b h1 = Ok h2" "taken root h t ?ps h2 (paint y b (plug c r))"
        using taken_col [OF h1(2) z1 [OF h1(2)] _ n(5)] by blast
      have y: "y \<notin> caddrs c" "y \<noteq> 0" using tr by (auto simp: trep_def apart_plug apart_Node r(1))
      have e: "paint y b (plug c r) = plug c (Node Leaf (y, j, b) Leaf)" using paint_plug [OF y(1)] by (simp add: r(1))
      have "info h1 y = Some (j, RED)" using h1(2) by (simp add: taken_def trep_plug r(1))
      then have "\<exists>p. h1 y = Some p \<and> tn_tag p = RED" by (auto simp: info_def)
      then have q: "tn_tag q = RED" using h2(1) by (auto simp: tget_def)
      have "rb_rem n h = rbind (Some (rb_ninit n k h2)) (\<lambda>h. if RED = RED then ret h else rb_down h root y CR)"
        using m own n(3,7) ll y(2) h1(1) h2(1,2) q by (simp add: rb_rem_def rb_findrep_def t_findrep_def rb_fix_def r(1))
      then show ?thesis using fin [OF h2(3), of RED c Leaf y CR] r(2) by (simp add: e)
    qed
  next
    case False
    have sl: "shape root h l" using tr by (simp add: trep_plug)
    obtain c' y ky cy u where l: "l = plug c' (Node u (y, ky, cy) Leaf)" "\<forall>f \<in> set c'. fst f = False" "t_last CR h (rt l) = ret y"
      using t_last_ok [OF sl False, of False] by (auto simp: sN_def)
    have cr: "cright c' = []" using l(2) by (induction c' rule: cright.induct) auto
    have yl: "y \<in> addrs l" by (simp add: l(1) addrs_plug)
    have y: "y \<noteq> 0" "y \<noteq> rt r" "y \<noteq> n" using yl al rt_cases [of r] by (auto simp: apart_def)
    have rep: "rb_findrep n h = ret y" using m n(3) z False l(3) by (simp add: t_findrep_def rb_findrep_def)
    let ?C = "c' @ (True, (y, ky, b), r) # c"
    have C: "plug ?C (Node u (y, ky, cy) Leaf) = plug c (Node l (y, ky, b) r)" by (simp add: plug_append sN_def l(1))
    have "rb (plug c (Node l (y, ky, b) r)) \<and> tcol (plug c (Node l (y, ky, b) r)) = BLACK" by (rule rb_rename [THEN iffD1, OF inv])
    then have gap: "if cy = RED then rb (plug ?C u) \<and> tcol (plug ?C u) = BLACK else reddish u \<and> crb ?C (Suc (bh u)) BLACK"
      by (rule gap_left [of ?C u y ky cy, unfolded C])
    show ?thesis
    proof (cases "c' = []")
      case True
      then have ly: "l = Node u (y, ky, cy) Leaf" by (simp add: l(1))
      obtain h1 h2 p where h: "t_fix y (rt r) CR h = Ok h1" "tget h1 n = Ok p" "t_fix (tn_p p CP) y (tn_dir p) h1 = Ok h2"
        "taken root h t ?ps h2 (plug c (Node u (y, ky, cy) r))"
        using take_child [of root h c u y ky cy n k b r] tr a(4) assms(2) by (auto simp: ly)
      have "y \<in> fst ` set ?ps" by (simp add: ly)
      then obtain h3 q where h3: "tget h2 y = Ok q" "set_col y b h2 = Ok h3" "taken root h t ?ps h3 (paint y b (plug c (Node u (y, ky, cy) r)))"
        using taken_col [OF h(4) z1 [OF h(4)] _ n(5)] by blast
      have yo: "y \<notin> caddrs c" "y \<notin> addrs u" "y \<notin> addrs r" using tr by (auto simp: trep_def apart_plug apart_Node ly)
      have e: "paint y b (plug c (Node u (y, ky, cy) r)) = plug ?C u" using paint_plug [OF yo(1)] yo(2,3) by (simp add: True sN_def paint_off)
      have "info h2 y = Some (ky, cy)" using h(4) by (simp add: taken_def trep_plug)
      then have "\<exists>p. h2 y = Some p \<and> tn_tag p = cy" by (auto simp: info_def)
      then have q: "tn_tag q = cy" using h3(1) by (auto simp: tget_def)
      have "rb_rem n h = rbind (Some (rb_ninit n k h3)) (\<lambda>h. if cy = RED then ret h else rb_down h root y CL)"
        using m own n(3,7) rep y(1) h(1-3) h3(1,2) q by (simp add: rb_rem_def rb_fix_def ly cong: if_cong)
      then show ?thesis using fin [OF h3(3) [unfolded e], of cy ?C u y CL] gap True by (cases cy) simp_all
    next
      case deep: False
      have "y \<notin> caddrs c'" using al(1) by (auto simp: l(1) apart_plug)
      then have ry: "rt l \<noteq> y" using rt_plug_in [OF deep, of "Node u (y, ky, cy) Leaf"] by (auto simp: l(1))
      obtain h1 h2 h3 p where h: "tget h y = Ok p" "tn_tag p = cy" "t_fix (tn_p p CP) (tn_p p CL) (tn_dir p) h = Ok h1" "set_col y b h1 = Ok h2" "t_replace n y h2 = Ok h3"
        "tn_p p CP = cpar root ?C" "tn_dir p = cdir ?C" "taken root h t ?ps h3 (plug ?C u)"
        using take_deep [OF tr a(4) l(1) deep cr] assms(2) by auto
      have "rb_rem n h = rbind (Some (rb_ninit n k h3)) (\<lambda>h. if cy = RED then ret h else rb_down h root (cpar root ?C) (cdir ?C))"
        using m own n(3,7) rep y(1,2) ry h(1-7) by (simp add: rb_rem_def rb_fix_def cong: if_cong)
      then show ?thesis using fin [OF h(8), of cy ?C u "cpar root ?C" "cdir ?C"] gap by simp
    qed
  qed
qed

section \<open>Replacing a node\<close>

text \<open>A node whose key is in the tree takes the place and the colour of the one that has it.\<close>

lemma rb_replace:
  assumes "cmp_order cmp" "rb_state cmp root h t" "tfree RED root h y ky" "y \<notin> addrs t" "(n, k) \<in> set (ino t)" "cmp ky k = 0"
  shows "\<exists>h' t' xs ys. rb_ins cmp root y 0 CP h = ret (h', n) \<and> rb_state cmp root h' t'
    \<and> ino t = xs @ (n, k) # ys \<and> ino t' = xs @ (y, ky) # ys \<and> tfree RED root h' n k \<and> owner h' n = Some 0"
proof -
  have a: "trep root h t" "rb t \<and> tcol t = BLACK" "ordered cmp (ino t)" "h 0 = None" "\<forall>x \<in> addrs t. owner h x = Some root"
    using assms(2) by (auto simp: rb_state_def owned_def)
  obtain c l b r where c: "locate cmp ky [] t = (c, Node l (n, k, b) r)" and t: "t = plug c (Node l (n, k, b) r)"
    using cmp_order.locate_present [OF assms(1) a(3) assms(5,6)] by blast
  let ?v = "plug c (Node l (y, ky, RED) r)" and ?u = "plug c (Node l (y, ky, b) r)"
  obtain m where m: "h y = Some m" "tn_key m = ky" "y \<noteq> 0" "y \<noteq> root" "info h y = Some (ky, RED)"
    using assms(3) by (auto simp: tfree_def info_def)
  obtain h1 where h1: "t_replace n y h = Ok h1" "trep root h1 ?v" "info h1 = info h" "within (insert y (insert root (addrs t))) h h1"
    using t_replace_ok [OF a(1) [unfolded t] a(4) m(5)] assms(4) m(4) by (auto simp: t)
  have ap: "apart root t" using a(1) by (simp add: trep_def)
  have n: "n \<noteq> 0" "n \<noteq> root" "n \<noteq> y" "n \<in> addrs t" "n \<notin> addrs ?u" "y \<notin> caddrs c" "y \<notin> addrs l" "y \<notin> addrs r"
    using ap assms(4) unfolding t apart_plug apart_Node by (auto simp: addrs_plug)
  have z0: "0 \<notin> insert y (insert root (addrs t))" using ap m(3) by (auto simp: apart_def)
  have z1: "h1 0 = None" using z0 h1(4) a(4) by (auto simp: within_def)
  obtain q where q: "h1 n = Some q" "tn_key q = k" "tn_tag q = b"
    using a(1) fun_cong [OF h1(3), of n] unfolding t by (auto simp: trep_plug info_def)
  have pv: "paint y b ?v = ?u" using n by (simp add: paint_plug paint_off)
  obtain h2 where h2: "set_col y b h1 = Ok h2" "becomes root h1 ?v h2 ?u"
    using set_col_becomes [OF h1(2) z1, of y b] by (auto simp: addrs_plug pv)
  have o2: "owner h2 = owner h" using becomes_owned [OF h2(2)] h1(4) by (simp add: within_def)
  have "h2 y \<noteq> None" using m(1) fun_cong [OF o2, of y] by (auto simp: owner_def)
  then obtain h3 where h3: "tset y (\<lambda>n. n\<lparr>tn_tree := root\<rparr>) h2 = Ok h3" "links h3 = links h2" "info h3 = info h2"
    "owner h3 = (owner h2)(y \<mapsto> root)" "\<forall>x. x \<noteq> y \<longrightarrow> h3 x = h2 x" using t_owner_effect by blast
  have t3: "trep root h3 ?u" using trep_links [OF h3(2,3)] becomesD(1) [OF h2(2)] by simp
  have "owner h3 n = Some root" using h3(4) o2 a(5) n(3,4) by simp
  then obtain p where p: "h3 n = Some p" by (auto simp: owner_def)
  let ?p = "p\<lparr>tn_tree := 0, tn_p := (tn_p p)(CL := 0, CP := 0, CR := 0), tn_dir := CL, tn_tag := RED, tn_key := k\<rparr>"
  let ?h = "h3(n \<mapsto> ?p)"
  have t4: "trep root ?h ?u" by (rule trep_off [OF t3]) (use n in auto)
  have run: "rb_ins cmp root y 0 CP h = ret (?h, n)"
    using m(1,2,3) c findloc_ok [OF a(1), of cmp ky] h1(1) h2(1) h3(1) p q n(1)
    by (simp add: rb_ins_def rb_findloc_def tget_def tset_def rb_ninit_def)
  have f: "tfree RED root ?h n k" "owner ?h n = Some 0" using n by (simp_all add: tfree_def owner_def)
  have inv: "rb ?u \<and> tcol ?u = BLACK" using a(2) unfolding t rb_plug by (cases b) auto
  have i: "ino t = (cleft c @ ino l) @ (n, k) # ino r @ cright c" "ino ?u = (cleft c @ ino l) @ (y, ky) # ino r @ cright c" by (simp_all add: t ino_plug_lr)
  have o: "ordered cmp (ino ?u)" using cmp_order.ordered_replace [OF assms(1) a(3) [unfolded i(1)] assms(6)] by (simp add: i(2))
  have z: "?h 0 = None" using h3(5) becomesD(3) [OF h2(2)] m(3) n(1) by simp
  have "owner ?h x = Some root" if "x \<in> addrs ?u" for x
  proof -
    have "x = y \<or> x \<in> addrs t" "x \<noteq> n" using that n(5) by (auto simp: t addrs_plug)
    then show ?thesis using h3(4) o2 a(5) by (auto simp: owner_def fun_eq_iff)
  qed
  then have "rb_state cmp root ?h ?u" using t4 inv o z by (simp add: rb_state_def owned_def)
  then show ?thesis using run f i by blast
qed

section \<open>The tree as a table\<close>

lemma rb_lkup_ok:
  assumes "trep root h t"
  shows "rb_lkup cmp root key h = ret (rt (snd (locate cmp key [] t)))"
  by (cases "locate cmp key [] t"; cases "snd (locate cmp key [] t)") (auto simp: rb_lkup_def rb_findloc_def findloc_ok [OF assms])

context cmp_order
begin

lemma rb_insert:
  assumes "rb_state cmp root h t" "tfree RED root h n k" "\<forall>(m, j) \<in> set (ino t). cmp j k \<noteq> 0"
  shows "\<exists>h' t' xs ys. rb_ins cmp root n 0 CP h = ret (h', 0) \<and> rb_state cmp root h' t'
    \<and> ino t = xs @ ys \<and> ino t' = xs @ (n, k) # ys \<and> (\<forall>y. y \<notin> insert n (insert root (addrs t)) \<longrightarrow> h' y = h y)"
proof -
  have tr: "shape root h t" "ordered cmp (ino t)" using assms(1) by (auto simp: rb_state_def trep_def)
  obtain c where c: "locate cmp k [] t = (c, Leaf)" using locate_fresh(1) [OF assms(3)] by blast
  show ?thesis
    using rb_ins_new [OF assms(1,2) c locate_fresh(2) [OF assms(3) tr(1) assms(2)] locate_absent(2) [OF tr(2) c]] locate_absent(1) [OF tr(2) c]
    by blast
qed

lemma rb_remove:
  assumes "rb_state cmp root h t" "(n, k) \<in> set (ino t)"
  shows "\<exists>h' t' xs ys. rb_rem n h = ret h' \<and> rb_state cmp root h' t' \<and> ino t = xs @ (n, k) # ys \<and> ino t' = xs @ ys
    \<and> tfree RED root h' n k \<and> owner h' n = Some root \<and> (\<forall>y. y \<notin> insert root (addrs t) \<longrightarrow> h' y = h y)"
proof -
  obtain c l b r where s: "t = plug c (Node l (n, k, b) r)" using ino_split [OF assms(2)] by auto
  have i: "ino t = (cleft c @ ino l) @ (n, k) # ino r @ cright c" by (simp add: s ino_plug_lr)
  obtain h' t' where "rb_rem n h = ret h'" "rb_state cmp root h' t'" "ino t' = (cleft c @ ino l) @ ino r @ cright c"
    "tfree RED root h' n k" "owner h' n = Some root" "\<forall>y. y \<notin> insert root (addrs t) \<longrightarrow> h' y = h y"
    using rb_rem_ok [OF assms(1) s] by auto
  then show ?thesis using i by blast
qed

end

text \<open>Red-black trees keep the contract of a search tree, whatever the order of the keys.\<close>

lemma rb_tree_table:
  assumes "cmp_order cmp"
  shows "tree_table cmp root RED (rb_state cmp root) (rb_lkup cmp root) (\<lambda>n. rb_ins cmp root n 0 CP) rb_rem"
proof (intro tree_table.intro assms tree_table_axioms.intro)
  fix h n k and t :: "('a, rbcol) ttree"
  assume "rb_state cmp root h t" "tfree RED root h n k" "\<forall>(m, j) \<in> set (ino t). cmp j k \<noteq> 0"
  from cmp_order.rb_insert [OF assms this]
  show "\<exists>h' t' xs ys. rb_ins cmp root n 0 CP h = ret (h', 0) \<and> rb_state cmp root h' t' \<and> ino t = xs @ ys \<and> ino t' = xs @ (n, k) # ys"
    by blast
next
  fix h n k and t :: "('a, rbcol) ttree"
  assume "rb_state cmp root h t" "(n, k) \<in> set (ino t)"
  from cmp_order.rb_remove [OF assms this]
  show "\<exists>h' t' xs ys. rb_rem n h = ret h' \<and> rb_state cmp root h' t' \<and> ino t = xs @ (n, k) # ys \<and> ino t' = xs @ ys \<and> tfree RED root h' n k"
    by blast
qed (auto simp: rb_state_def rb_lkup_ok)

interpretation rb_strings: tree_table lexcmp root RED "rb_state lexcmp root" "rb_lkup lexcmp root" "\<lambda>n. rb_ins lexcmp root n 0 CP" rb_rem for root
  by (rule rb_tree_table [OF lex.cmp_order_axioms])

text \<open>A red-black tree with the black height \<open>m\<close> has at least \<open>2 ^ m - 1\<close> nodes, and its height is at most twice \<open>m\<close>, and one.\<close>

lemma bh_size: "rb t \<Longrightarrow> 2 ^ bh t \<le> size1 t"
proof (induction t)
  case (Node l e r)
  obtain x k c where e: "e = (x, k, c)" by (cases e) auto
  have "2 ^ bh l + 2 ^ bh r \<le> size1 l + size1 r" using Node by (simp add: e add_mono)
  then show ?case using Node.prems by (cases c) (simp_all add: e)
qed simp

lemma bh_height: "rb t \<Longrightarrow> height t \<le> 2 * bh t + (if tcol t = RED then 1 else 0)"
proof (induction t)
  case (Node l e r)
  obtain x k c where "e = (x, k, c)" by (cases e) auto
  then show ?case using Node by (cases c) (auto split: if_splits)
qed simp

lemma rb_height:
  assumes "rb t" "tcol t = BLACK"
  shows "2 ^ (height t div 2) \<le> length (ino t) + 1"
proof -
  have "height t div 2 \<le> bh t" using bh_height [OF assms(1)] assms(2) by simp
  then have "(2 :: nat) ^ (height t div 2) \<le> 2 ^ bh t" by (rule power_increasing) simp
  also have "\<dots> \<le> length (ino t) + 1" using bh_size [OF assms(1)] by (simp add: size_ino size1_size)
  finally show ?thesis .
qed

section \<open>What the callers see\<close>

text \<open>A concrete tree: the pseudo-node 1, the black root 2 with the key \<open>b\<close> and its red left child 3 with the key
  \<open>a\<close>, and nodes 4 and 5 with the keys \<open>c\<close> and \<open>b\<close> that are not in the tree.\<close>

definition sample_rb :: "byte list rheap" where
  "sample_rb = [1 \<mapsto> tn 0 2 0 CP RED 1 [], 2 \<mapsto> tn 3 1 0 CP BLACK 1 [98], 3 \<mapsto> tn 0 2 0 CL RED 1 [97], 4 \<mapsto> tn 0 0 0 CL RED 0 [99],
     5 \<mapsto> tn 0 0 0 CL RED 0 [98]]"

definition sample_rbtree :: "(byte list, rbcol) ttree" where
  "sample_rbtree = Node (Node Leaf (3, [97], RED) Leaf) (2, [98], BLACK) Leaf"

lemma sample_rb: "rb_state lexcmp 1 sample_rb sample_rbtree" "tfree RED 1 sample_rb 4 [99]" "tfree RED 1 sample_rb 5 [98]"
  by (auto simp: rb_state_def trep_def sample_rb_def sample_rbtree_def tn_def edge_def info_def apart_def ordered_def owned_def owner_def tfree_def)

lemma sample_rbtree: "ino sample_rbtree = [(3, [97]), (2, [98])]" "addrs sample_rbtree = {2, 3}"
  by (auto simp: sample_rbtree_def)

text \<open>C6: Inserting a node whose key is not in a red-black tree succeeds, and gives a red-black tree (well linked, ordered,
  no red node below a red one, as many black nodes on every path, a black root) with the same nodes in the same
  order and the new one among them; no node outside the tree is touched.\<close>

theorem rb_insert_refines:
  assumes "cmp_order cmp" "rb_state cmp root h t" "tfree RED root h n k" "\<forall>(m, j) \<in> set (ino t). cmp j k \<noteq> 0"
  shows "\<exists>h' t' xs ys. rb_ins cmp root n 0 CP h = ret (h', 0) \<and> rb_state cmp root h' t'
    \<and> ino t = xs @ ys \<and> ino t' = xs @ (n, k) # ys \<and> (\<forall>y. y \<notin> insert n (insert root (addrs t)) \<longrightarrow> h' y = h y)"
  using cmp_order.rb_insert [OF assms] .

lemma rb_insert_refines_witness:
  "\<exists>h' t' xs ys. rb_ins lexcmp 1 4 0 CP sample_rb = ret (h', 0) \<and> rb_state lexcmp 1 h' t'
    \<and> [(3, [97]), (2, [98])] = xs @ ys \<and> ino t' = xs @ (4, [99]) # ys \<and> h' 5 = sample_rb 5"
proof -
  have "\<forall>(m, j) \<in> set (ino sample_rbtree). lexcmp j [99 :: byte] \<noteq> 0" by (simp add: sample_rbtree)
  from rb_insert_refines [OF lex.cmp_order_axioms sample_rb(1,2) this] obtain h' t' xs ys where
    "rb_ins lexcmp 1 4 0 CP sample_rb = ret (h', 0)" "rb_state lexcmp 1 h' t'" "[(3, [97]), (2, [98])] = xs @ ys"
    "ino t' = xs @ (4, [99]) # ys" "\<forall>y. y \<notin> insert 4 (insert 1 {2, 3}) \<longrightarrow> h' y = sample_rb y" unfolding sample_rbtree by blast
  moreover have "(5 :: nat) \<notin> insert 4 (insert 1 {2, 3})" by simp
  ultimately show ?thesis by blast
qed

text \<open>C7: Removing a node from a red-black tree succeeds, and gives a red-black tree with the other nodes in the same
  order; the node comes back ready to be inserted again, but still says that the tree owns it; no node outside
  the tree is touched.\<close>

theorem rb_remove_refines:
  assumes "cmp_order cmp" "rb_state cmp root h t" "(n, k) \<in> set (ino t)"
  shows "\<exists>h' t' xs ys. rb_rem n h = ret h' \<and> rb_state cmp root h' t' \<and> ino t = xs @ (n, k) # ys \<and> ino t' = xs @ ys
    \<and> tfree RED root h' n k \<and> owner h' n = Some root \<and> (\<forall>y. y \<notin> insert root (addrs t) \<longrightarrow> h' y = h y)"
  using cmp_order.rb_remove [OF assms] .

lemma rb_remove_refines_witness:
  "\<exists>h' t'. rb_rem 2 sample_rb = ret h' \<and> rb_state lexcmp 1 h' t' \<and> ino t' = [(3, [97])] \<and> tfree RED 1 h' 2 [98]"
proof -
  have "(2, [98]) \<in> set (ino sample_rbtree)" by (simp add: sample_rbtree)
  from rb_remove_refines [OF lex.cmp_order_axioms sample_rb(1) this] show ?thesis unfolding sample_rbtree
    by (auto simp: Cons_eq_append_conv)
qed

text \<open>Inserting a node whose key is already in a red-black tree puts it in the place of the node that had the key, with
  that node's colour, so the tree stays a red-black tree; the old node is returned, ready to be inserted again.\<close>

theorem rb_ins_replaces:
  assumes "cmp_order cmp" "rb_state cmp root h t" "tfree RED root h y ky" "y \<notin> addrs t" "(n, k) \<in> set (ino t)" "cmp ky k = 0"
  shows "\<exists>h' t' xs ys. rb_ins cmp root y 0 CP h = ret (h', n) \<and> rb_state cmp root h' t'
    \<and> ino t = xs @ (n, k) # ys \<and> ino t' = xs @ (y, ky) # ys \<and> tfree RED root h' n k \<and> owner h' n = Some 0"
  using rb_replace [OF assms] .

lemma rb_ins_replaces_witness:
  "\<exists>h' t'. rb_ins lexcmp 1 5 0 CP sample_rb = ret (h', 2) \<and> rb_state lexcmp 1 h' t' \<and> ino t' = [(3, [97]), (5, [98])]"
proof -
  have "(2, [98]) \<in> set (ino sample_rbtree)" "5 \<notin> addrs sample_rbtree" "lexcmp [98 :: byte] [98] = 0" by (simp_all add: sample_rbtree)
  from rb_ins_replaces [OF lex.cmp_order_axioms sample_rb(1,3) this(2,1,3)] show ?thesis unfolding sample_rbtree
    by (auto simp: Cons_eq_append_conv)
qed

text \<open>A lookup in a red-black tree of \<open>n\<close> nodes compares keys along a path of \<open>d\<close> nodes with
  \<open>2 ^ (d div 2) \<le> n + 1\<close>: at most twice the binary logarithm of \<open>n + 1\<close>, and one.\<close>

theorem rb_lookup_bound:
  assumes "rb_state cmp root h t"
  shows "\<exists>c u. locate cmp key [] t = (c, u) \<and> rb_lkup cmp root key h = ret (rt u) \<and> 2 ^ (length c div 2) \<le> length (ino t) + 1"
proof -
  have t: "trep root h t" "rb t" "tcol t = BLACK" using assms by (simp_all add: rb_state_def)
  obtain c u where cu: "locate cmp key [] t = (c, u)" by (cases "locate cmp key [] t") auto
  have "length c \<le> height t" using length_locate [OF cu] by simp
  then have "(2 :: nat) ^ (length c div 2) \<le> 2 ^ (height t div 2)" by (simp add: div_le_mono power_increasing)
  also have "\<dots> \<le> length (ino t) + 1" by (rule rb_height [OF t(2,3)])
  finally show ?thesis using cu rb_lkup_ok [OF t(1), of cmp key] by (cases u) auto
qed

lemma rb_lookup_bound_witness: "\<exists>c u. locate lexcmp [97] [] sample_rbtree = (c, u) \<and> rb_lkup lexcmp 1 [97] sample_rb = ret (rt u) \<and> 2 ^ (length c div 2) \<le> (3 :: nat)"
  using rb_lookup_bound [OF sample_rb(1), of "[97]"] by (simp add: sample_rbtree numeral_3_eq_3)

end
