(* ===== verification/Mem.thy ===== *)
theory Mem
  imports CatList
begin

text \<open>
  The memory manager interface and the array manager of src/mem.c, and what an allocator promises:
  the locale \<open>allocator\<close>, which the array manager and the pools (\<open>Pool\<close>) implement.
  Addresses and sizes are naturals, with the wrap of \<open>size_t\<close> written out.
\<close>

section \<open>The interface\<close>

type_synonym 'h alloc_f = "nat \<Rightarrow> 'h \<Rightarrow> ('h \<times> addr) run"
type_synonym 'h resize_f = "addr \<Rightarrow> nat \<Rightarrow> 'h \<Rightarrow> ('h \<times> addr) run"
type_synonym 'h free_f = "addr \<Rightarrow> 'h \<Rightarrow> 'h run"

text \<open>A missing function is \<open>None\<close>; the context of the manager is in the state \<open>'h\<close>.\<close>

record 'h memmgr =
  mm_alloc :: "'h alloc_f option"
  mm_resize :: "'h resize_f option"
  mm_free :: "'h free_f option"

definition mem_get :: "'h memmgr option \<Rightarrow> nat \<Rightarrow> 'h \<Rightarrow> ('h \<times> addr) run" where
  "mem_get mm len h = (case Option.bind mm mm_alloc of None \<Rightarrow> ret (h, 0) | Some f \<Rightarrow> f len h)"

definition mem_resize :: "'h memmgr option \<Rightarrow> addr \<Rightarrow> nat \<Rightarrow> 'h \<Rightarrow> ('h \<times> addr) run" where
  "mem_resize mm mem len h = (case Option.bind mm mm_resize of None \<Rightarrow> ret (h, 0) | Some f \<Rightarrow> f mem len h)"

definition mem_free :: "'h memmgr option \<Rightarrow> addr \<Rightarrow> 'h \<Rightarrow> 'h run" where
  "mem_free mm mem h = (case Option.bind mm mm_free of None \<Rightarrow> ret h | Some f \<Rightarrow> f mem h)"

text \<open>No check here.\<close>

definition applyfree :: "addr \<Rightarrow> 'h memmgr option \<Rightarrow> 'h \<Rightarrow> 'h run" where
  "applyfree data mm h = (case Option.bind mm mm_free of None \<Rightarrow> Some Fault | Some f \<Rightarrow> f data h)"

section \<open>What an allocator promises\<close>

text \<open>An extent is an address and a length.\<close>

type_synonym extent = "addr \<times> nat"

definition clear_of :: "extent \<Rightarrow> extent \<Rightarrow> bool" where
  "clear_of e f \<longleftrightarrow> fst e + snd e \<le> fst f \<or> fst f + snd f \<le> fst e"

lemma clear_of_sym: "clear_of e f \<longleftrightarrow> clear_of f e"
  by (auto simp: clear_of_def)

text \<open>A run of requests.\<close>

fun alloc_seq :: "'h alloc_f \<Rightarrow> nat list \<Rightarrow> 'h \<Rightarrow> ('h \<times> addr list) run" where
  "alloc_seq alloc [] h = ret (h, [])"
| "alloc_seq alloc (n # ns) h = rbind (alloc n h) (\<lambda>(h, a). rbind (alloc_seq alloc ns h) (\<lambda>(h, as). ret (h, a # as)))"

text \<open>
  \<open>live s B\<close>: the state is good and \<open>B\<close> are the extents in use.  An allocation of at most \<open>limit\<close> bytes
  returns NULL and changes nothing in use, or an extent in the arena, clear of those in use.
\<close>

locale allocator =
  fixes live :: "'s \<Rightarrow> extent set \<Rightarrow> bool" and alloc :: "'s alloc_f" and arena :: extent and limit :: nat
  assumes alloc_new: "live s B \<Longrightarrow> 0 < n \<Longrightarrow> n \<le> limit \<Longrightarrow> \<exists>s' a. alloc n s = ret (s', a) \<and>
      (if a = 0 then live s' B
       else live s' (insert (a, n) B) \<and> fst arena \<le> a \<and> a + n \<le> fst arena + snd arena \<and> (\<forall>e \<in> B. clear_of (a, n) e))"
begin

text \<open>The extents a run of requests returns are in the arena, clear of those in use and of each other.\<close>

lemma alloc_seq_ok:
  assumes "live s B" "\<forall>n \<in> set ns. 0 < n \<and> n \<le> limit"
  shows "\<exists>s' as. alloc_seq alloc ns s = ret (s', as) \<and> length as = length ns
    \<and> live s' (B \<union> {e \<in> set (zip as ns). fst e \<noteq> 0})
    \<and> (\<forall>e \<in> set (zip as ns). fst e \<noteq> 0 \<longrightarrow> fst arena \<le> fst e \<and> fst e + snd e \<le> fst arena + snd arena \<and> (\<forall>f \<in> B. clear_of e f))
    \<and> (\<forall>i j. i < j \<longrightarrow> j < length ns \<longrightarrow> as ! i \<noteq> 0 \<longrightarrow> as ! j \<noteq> 0 \<longrightarrow> clear_of (as ! i, ns ! i) (as ! j, ns ! j))"
  using assms
proof (induction ns arbitrary: s B)
  case Nil
  then show ?case by simp
next
  case (Cons n ns)
  obtain s1 a where a: "alloc n s = ret (s1, a)" "if a = 0 then live s1 B
       else live s1 (insert (a, n) B) \<and> fst arena \<le> a \<and> a + n \<le> fst arena + snd arena \<and> (\<forall>e \<in> B. clear_of (a, n) e)"
    using alloc_new [OF Cons.prems(1), of n] Cons.prems(2) by auto
  define B1 where "B1 = (if a = 0 then B else insert (a, n) B)"
  have "live s1 B1" using a(2) by (auto simp: B1_def)
  then obtain s' as where IH: "alloc_seq alloc ns s1 = ret (s', as)" "length as = length ns" "live s' (B1 \<union> {e \<in> set (zip as ns). fst e \<noteq> 0})"
    "\<forall>e \<in> set (zip as ns). fst e \<noteq> 0 \<longrightarrow> fst arena \<le> fst e \<and> fst e + snd e \<le> fst arena + snd arena \<and> (\<forall>f \<in> B1. clear_of e f)"
    "\<forall>i j. i < j \<longrightarrow> j < length ns \<longrightarrow> as ! i \<noteq> 0 \<longrightarrow> as ! j \<noteq> 0 \<longrightarrow> clear_of (as ! i, ns ! i) (as ! j, ns ! j)"
    using Cons.IH [of s1 B1] Cons.prems(2) by auto
  have B1: "B \<subseteq> B1" "a \<noteq> 0 \<longrightarrow> (a, n) \<in> B1" by (auto simp: B1_def)
  have "clear_of ((a # as) ! i, (n # ns) ! i) ((a # as) ! j, (n # ns) ! j)"
    if ij: "i < j" "j < length (n # ns)" "(a # as) ! i \<noteq> 0" "(a # as) ! j \<noteq> 0" for i j
  proof (cases i)
    case 0
    obtain k where k: "j = Suc k" "k < length ns" using ij(1,2) by (cases j) auto
    have "(as ! k, ns ! k) \<in> set (zip as ns)" using k(2) IH(2) by (auto simp: set_zip)
    then show ?thesis using IH(4) B1(2) ij(3,4) 0 k(1) clear_of_sym by fastforce
  next
    case (Suc k)
    then show ?thesis using IH(5) ij by (cases j) auto
  qed
  moreover have "B1 \<union> {e \<in> set (zip as ns). fst e \<noteq> 0} = B \<union> {e \<in> set (zip (a # as) (n # ns)). fst e \<noteq> 0}"
    by (auto simp: B1_def)
  moreover have "\<forall>e \<in> set (zip (a # as) (n # ns)). fst e \<noteq> 0 \<longrightarrow> fst arena \<le> fst e \<and> fst e + snd e \<le> fst arena + snd arena \<and> (\<forall>f \<in> B. clear_of e f)"
    using IH(4) B1(1) a(2) by (auto split: if_splits)
  ultimately show ?case using a(1) IH(1,2,3) by auto
qed

end

text \<open>An allocator that takes extents back.\<close>

locale free_allocator = allocator +
  fixes release :: "'a free_f"
  assumes release_ok: "live s B \<Longrightarrow> (a, n) \<in> B \<Longrightarrow> \<exists>s'. release a s = ret s' \<and> live s' (B - {(a, n)})"
begin

text \<open>An extent that was taken and given back leaves the same extents in use.\<close>

lemma alloc_release:
  assumes "live s B" "0 < n" "n \<le> limit" "alloc n s = ret (s', a)" "a \<noteq> 0"
  shows "\<exists>s''. release a s' = ret s'' \<and> live s'' B"
proof -
  have l: "live s' (insert (a, n) B)" "\<forall>e \<in> B. clear_of (a, n) e" using alloc_new [OF assms(1,2,3)] assms(4,5) by auto
  have "(a, n) \<notin> B" using l(2) assms(2) by (fastforce simp: clear_of_def)
  then have "insert (a, n) B - {(a, n)} = B" by auto
  then show ?thesis using release_ok [OF l(1)] by force
qed

text \<open>All extents in use can be given back, in any order.\<close>

lemma release_all:
  assumes "live s B" "set es = B" "distinct es"
  shows "\<exists>s'. for_run es (\<lambda>e. release (fst e)) s = ret s' \<and> live s' {}"
  using assms
proof (induction es arbitrary: s B)
  case (Cons e es)
  obtain s1 where s1: "release (fst e) s = ret s1" "live s1 (B - {e})" using release_ok [OF Cons.prems(1), of "fst e" "snd e"] Cons.prems(2) by auto
  have "set es = B - {e}" using Cons.prems(2,3) by auto
  then show ?case using Cons.IH [OF s1(2)] Cons.prems(3) s1(1) by simp
qed simp

end

section \<open>The array manager\<close>

record arraymm =
  amm_mem :: addr
  amm_mlen :: nat
  amm_fill :: nat
  amm_alignp2 :: nat
  amm_hi2lo :: bool

text \<open>Units for \<open>len\<close> bytes; the sum is a \<open>size_t\<close>.\<close>

definition amm_units :: "arraymm \<Rightarrow> nat \<Rightarrow> nat" where
  "amm_units amm len = ((len + 2 ^ amm_alignp2 amm - 1) mod 2 ^ 64) div 2 ^ amm_alignp2 amm"

definition amm_get_hi2lo :: "arraymm alloc_f" where
  "amm_get_hi2lo len amm =
     (let nu = amm_units amm len in
      if nu > amm_mlen amm - amm_fill amm then ret (amm, 0)
      else (let amm = amm\<lparr>amm_fill := amm_fill amm + nu\<rparr> in ret (amm, amm_mem amm - amm_fill amm * 2 ^ amm_alignp2 amm)))"

definition amm_get_lo2hi :: "arraymm alloc_f" where
  "amm_get_lo2hi len amm =
     (let nu = amm_units amm len in
      if nu > amm_mlen amm - amm_fill amm then ret (amm, 0)
      else (let a = amm_mem amm + amm_fill amm * 2 ^ amm_alignp2 amm in ret (amm\<lparr>amm_fill := amm_fill amm + nu\<rparr>, a)))"

text \<open>The loop of \<open>amm_init\<close> on the alignment.\<close>

function amm_log :: "nat \<Rightarrow> nat" where
  "amm_log align = (if align div 2 > 0 then Suc (amm_log (align div 2)) else 0)"
  by auto
termination by (relation "measure id") auto

declare amm_log.simps [simp del]

text \<open>\<open>align\<close> is an \<open>int\<close>; the type with the worst alignment has 8 bytes.\<close>

definition amm_init :: "addr \<Rightarrow> nat \<Rightarrow> int \<Rightarrow> bool \<Rightarrow> arraymm outcome" where
  "amm_init mem mlen align hi2lo =
     abort_unless (mem \<noteq> 0 \<and> mlen > 0 \<and> align \<ge> 0 \<and> nat align AND (nat align - 1) = 0)
       (let i = amm_log (if align = 0 then 8 else nat align); n = mlen div 2 ^ i in
        Ok \<lparr>amm_mem = (if hi2lo then mem + n * 2 ^ i else mem), amm_mlen = n, amm_fill = 0, amm_alignp2 = i, amm_hi2lo = hi2lo\<rparr>)"

definition amm_reset :: "arraymm \<Rightarrow> arraymm" where "amm_reset amm = amm\<lparr>amm_fill := 0\<rparr>"

definition amm_get_fill :: "arraymm \<Rightarrow> nat" where "amm_get_fill amm = amm_fill amm * 2 ^ amm_alignp2 amm"

definition amm_get_avail :: "arraymm \<Rightarrow> nat" where "amm_get_avail amm = (amm_mlen amm - amm_fill amm) * 2 ^ amm_alignp2 amm"

text \<open>The function \<open>amm_init\<close> puts into the manager.\<close>

definition amm_mm :: "bool \<Rightarrow> arraymm memmgr" where
  "amm_mm hi2lo = \<lparr>mm_alloc = Some (if hi2lo then amm_get_hi2lo else amm_get_lo2hi), mm_resize = None, mm_free = None\<rparr>"

section \<open>The manager of the C library's heap\<close>

text \<open>
  The heap holds blocks by address.  \<open>malloc\<close> is a parameter: it picks an address for a block of the given
  size and its indeterminate contents, or fails; \<open>malloc_ok\<close> is what the C standard says of it.
  Resizing or freeing what is no block faults.
\<close>

type_synonym blocks = "addr \<rightharpoonup> byte list"
type_synonym malloc_f = "nat \<Rightarrow> blocks \<Rightarrow> (addr \<times> byte list) option"

definition malloc_ok :: "malloc_f \<Rightarrow> bool" where
  "malloc_ok malloc \<longleftrightarrow> (\<forall>n h a b. malloc n h = Some (a, b) \<longrightarrow> a \<noteq> 0 \<and> a \<notin> dom h \<and> length b = n)"

definition std_alloc :: "malloc_f \<Rightarrow> blocks alloc_f" where
  "std_alloc malloc n h =
     (if n > 0 then (case malloc n h of None \<Rightarrow> ret (h, 0) | Some (a, b) \<Rightarrow> ret (h(a \<mapsto> b), a)) else Some Abort)"

definition std_resize :: "malloc_f \<Rightarrow> blocks resize_f" where
  "std_resize malloc old newsize h =
     (if newsize > 0 then
        if old = 0 then (case malloc newsize h of None \<Rightarrow> ret (h, 0) | Some (a, b) \<Rightarrow> ret (h(a \<mapsto> b), a))
        else case h old of None \<Rightarrow> Some Fault
             | Some c \<Rightarrow> (case malloc newsize (h(old := None)) of None \<Rightarrow> ret (h, 0)
                 | Some (a, b) \<Rightarrow> ret (h(old := None, a \<mapsto> take newsize c @ drop (length c) b), a))
      else Some Abort)"

definition std_free :: "blocks free_f" where
  "std_free old h = (if old = 0 then ret h else if h old = None then Some Fault else ret (h(old := None)))"

definition stdmm :: "malloc_f \<Rightarrow> blocks memmgr" where
  "stdmm malloc = \<lparr>mm_alloc = Some (std_alloc malloc), mm_resize = Some (std_resize malloc), mm_free = Some std_free\<rparr>"

text \<open>A simple \<open>malloc\<close>: the address of a block is its size.\<close>

definition toy_malloc :: malloc_f where
  "toy_malloc n h = (if n = 0 \<or> n \<in> dom h then None else Some (n, replicate n 0))"

lemma toy_malloc_ok: "malloc_ok toy_malloc"
  by (auto simp: malloc_ok_def toy_malloc_def split: if_splits)

text \<open>The manager of the \<open>n\<close> units of \<open>2 ^ p\<close> bytes from \<open>mem\<close>, from either end.\<close>

definition amm_live :: "addr \<Rightarrow> nat \<Rightarrow> nat \<Rightarrow> bool \<Rightarrow> arraymm \<Rightarrow> extent set \<Rightarrow> bool" where
  "amm_live mem n p hi amm B \<longleftrightarrow> 0 < mem \<and> p \<le> 63 \<and> amm_alignp2 amm = p \<and> amm_mlen amm = n \<and> amm_fill amm \<le> n
     \<and> amm_mem amm = (if hi then mem + n * 2 ^ p else mem)
     \<and> (\<forall>(a, k) \<in> B. if hi then mem + (n - amm_fill amm) * 2 ^ p \<le> a else a + k \<le> mem + amm_fill amm * 2 ^ p)"

lemma amm_units_ok:
  assumes "amm_alignp2 amm = p" "0 < k" "k \<le> 2 ^ 64 - 2 ^ p" "p \<le> 63"
  shows "k \<le> amm_units amm k * 2 ^ p" "(amm_units amm k - 1) * 2 ^ p < k"
proof -
  have "(2 :: nat) ^ p \<le> 2 ^ 63" using assms(4) by (rule power_increasing) simp
  then have "k + 2 ^ p - 1 < 2 ^ 64" using assms(2,3) by simp
  then have u: "amm_units amm k = (k + (2 ^ p - 1)) div 2 ^ p" using assms(1,2) by (simp add: amm_units_def)
  let ?q = "(2 :: nat) ^ p"
  have d: "(k + (?q - 1)) div ?q * ?q + (k + (?q - 1)) mod ?q = k + (?q - 1)" "(k + (?q - 1)) mod ?q < ?q" by (rule div_mult_mod_eq) simp
  then show "k \<le> amm_units amm k * 2 ^ p" unfolding u by linarith
  have "?q \<le> (k + (?q - 1)) div ?q * ?q" using assms(2) div_le_mono [of ?q "k + (?q - 1)" ?q] by simp
  then show "(amm_units amm k - 1) * 2 ^ p < k" unfolding u diff_mult_distrib using d assms(2) by simp
qed

lemma amm_get_ok:
  assumes "amm_live mem n p hi amm B" "0 < k" "k \<le> 2 ^ 64 - 2 ^ p"
  shows "\<exists>amm' a. (if hi then amm_get_hi2lo else amm_get_lo2hi) k amm = ret (amm', a) \<and>
      (if a = 0 then amm' = amm \<and> amm_get_avail amm < k
       else amm_live mem n p hi amm' (insert (a, k) B) \<and> mem \<le> a \<and> a + k \<le> mem + n * 2 ^ p \<and> (\<forall>e \<in> B. clear_of (a, k) e) \<and> 2 ^ p dvd (a - mem))"
proof -
  have l: "0 < mem" "p \<le> 63" "amm_alignp2 amm = p" "amm_mlen amm = n" "amm_fill amm \<le> n" "amm_mem amm = (if hi then mem + n * 2 ^ p else mem)"
    "\<forall>(a, k) \<in> B. if hi then mem + (n - amm_fill amm) * 2 ^ p \<le> a else a + k \<le> mem + amm_fill amm * 2 ^ p"
    using assms(1) by (auto simp: amm_live_def)
  let ?u = "amm_units amm k" and ?f = "amm_fill amm"
  note u = amm_units_ok [OF l(3) assms(2,3) l(2)]
  show ?thesis
  proof (cases "?u > n - ?f")
    case True
    have "(n - ?f) * 2 ^ p \<le> (?u - 1) * 2 ^ p" using True by (intro mult_right_mono) auto
    then have "(n - ?f) * 2 ^ p < k" using u(2) by (rule le_less_trans)
    then show ?thesis using True l(3,4) by (auto simp: amm_get_hi2lo_def amm_get_lo2hi_def Let_def amm_get_avail_def)
  next
    case False
    let ?a = "if hi then mem + (n - (?f + ?u)) * 2 ^ p else mem + ?f * 2 ^ p"
    let ?amm = "amm\<lparr>amm_fill := ?f + ?u\<rparr>"
    have r: "(if hi then amm_get_hi2lo else amm_get_lo2hi) k amm = ret (?amm, ?a)"
      using False l by (auto simp: amm_get_hi2lo_def amm_get_lo2hi_def Let_def diff_mult_distrib)
    have s: "(n - (?f + ?u)) * 2 ^ p + ?u * 2 ^ p = (n - ?f) * 2 ^ p" "?f * 2 ^ p + ?u * 2 ^ p = (?f + ?u) * 2 ^ p"
      using False l(5) by (simp_all add: add_mult_distrib [symmetric])
    have m: "(n - ?f) * 2 ^ p \<le> n * 2 ^ p" "(?f + ?u) * 2 ^ p \<le> n * 2 ^ p" using False l(5) by (intro mult_right_mono; simp)+
    have a: "mem + (n - (?f + ?u)) * 2 ^ p + k \<le> mem + n * 2 ^ p" "mem + ?f * 2 ^ p + k \<le> mem + n * 2 ^ p" using s m u(1) by linarith+
    have b: "mem \<le> ?a" "?a + k \<le> mem + n * 2 ^ p" "2 ^ p dvd (?a - mem)" using a by simp_all
    have c: "\<forall>e \<in> B. clear_of (?a, k) e"
    proof
      fix e assume "e \<in> B"
      then have "if hi then mem + (n - ?f) * 2 ^ p \<le> fst e else fst e + snd e \<le> mem + ?f * 2 ^ p" using l(7) by auto
      then show "clear_of (?a, k) e" using s(1) u(1) by (auto simp: clear_of_def split: if_splits)
    qed
    have i: "if hi then mem + (n - (?f + ?u)) * 2 ^ p \<le> a' else a' + k' \<le> mem + (?f + ?u) * 2 ^ p" if "(a', k') \<in> insert (?a, k) B" for a' k'
      using that l(7) s u(1) by (fastforce split: if_splits)
    have "\<forall>(a, j) \<in> insert (?a, k) B. if hi then mem + (n - amm_fill ?amm) * 2 ^ p \<le> a else a + j \<le> mem + amm_fill ?amm * 2 ^ p"
      by (intro ballI, clarify) (drule i, simp)
    moreover have "?f + ?u \<le> n" using False l(5) by simp
    ultimately have "amm_live mem n p hi ?amm (insert (?a, k) B)" unfolding amm_live_def using l(1-6) by (simp cong: if_cong)
    moreover have "?a \<noteq> 0" using l(1) by simp
    ultimately show ?thesis using r b c by (intro exI [of _ ?amm] exI [of _ ?a]) simp
  qed
qed

text \<open>The array manager is an allocator from either end of its array.\<close>

lemma amm_allocator: "allocator (amm_live mem n p hi) (if hi then amm_get_hi2lo else amm_get_lo2hi) (mem, n * 2 ^ p) (2 ^ 64 - 2 ^ p)"
proof
  fix amm B and k :: nat assume "amm_live mem n p hi amm B" "0 < k" "k \<le> 2 ^ 64 - 2 ^ p"
  from amm_get_ok [OF this] obtain amm' a where a: "(if hi then amm_get_hi2lo else amm_get_lo2hi) k amm = ret (amm', a)"
    "if a = 0 then amm' = amm \<and> amm_get_avail amm < k
     else amm_live mem n p hi amm' (insert (a, k) B) \<and> mem \<le> a \<and> a + k \<le> mem + n * 2 ^ p \<and> (\<forall>e \<in> B. clear_of (a, k) e) \<and> 2 ^ p dvd (a - mem)"
    by blast
  then show "\<exists>amm' a. (if hi then amm_get_hi2lo else amm_get_lo2hi) k amm = ret (amm', a) \<and>
      (if a = 0 then amm_live mem n p hi amm' B
       else amm_live mem n p hi amm' (insert (a, k) B) \<and> fst (mem, n * 2 ^ p) \<le> a \<and> a + k \<le> fst (mem, n * 2 ^ p) + snd (mem, n * 2 ^ p) \<and> (\<forall>e \<in> B. clear_of (a, k) e))"
    using \<open>amm_live mem n p hi amm B\<close> by (intro exI [of _ amm'] exI [of _ a]) (auto split: if_splits)
qed

interpretation amm_up: allocator "amm_live mem n p False" amm_get_lo2hi "(mem, n * 2 ^ p)" "2 ^ 64 - 2 ^ p" for mem n p
  using amm_allocator [of mem n p False] by simp

interpretation amm_down: allocator "amm_live mem n p True" amm_get_hi2lo "(mem, n * 2 ^ p)" "2 ^ 64 - 2 ^ p" for mem n p
  using amm_allocator [of mem n p True] by simp

lemma amm_log_pow: "amm_log (2 ^ i) = i"
proof (induction i)
  case 0
  then show ?case by (simp add: amm_log.simps)
next
  case (Suc i)
  then show ?case by (subst amm_log.simps) simp
qed

lemma amm_init_ok:
  assumes "0 < mem" "0 < mlen" "p \<le> 30"
  shows "\<exists>amm. amm_init mem mlen (2 ^ p) hi = Ok amm \<and> amm_live mem (mlen div 2 ^ p) p hi amm {} \<and> amm_fill amm = 0"
proof -
  have a: "nat (2 ^ p) = 2 ^ p" by (simp add: nat_power_eq)
  have "(2 :: nat) ^ p AND (2 ^ p - 1) = 0"
  proof (rule bit_eqI)
    fix i
    show "bit ((2 :: nat) ^ p AND (2 ^ p - 1)) i \<longleftrightarrow> bit (0 :: nat) i"
      using bit_mask_iff [where 'a = nat, of p i] by (auto simp: bit_and_iff bit_exp_iff mask_eq_exp_minus_1)
  qed
  then have "amm_init mem mlen (2 ^ p) hi = Ok \<lparr>amm_mem = (if hi then mem + mlen div 2 ^ p * 2 ^ p else mem), amm_mlen = mlen div 2 ^ p, amm_fill = 0, amm_alignp2 = p, amm_hi2lo = hi\<rparr>"
    using assms by (simp add: amm_init_def a amm_log_pow Let_def)
  then show ?thesis using assms by (simp add: amm_live_def)
qed

text \<open>Requests whose units fit into what is left do not get NULL.\<close>

lemma amm_get_some:
  assumes "amm_live mem n p hi amm B" "0 < k" "k \<le> 2 ^ 64 - 2 ^ p" "amm_fill amm + (k + (2 ^ p - 1)) div 2 ^ p \<le> n"
    and "(if hi then amm_get_hi2lo else amm_get_lo2hi) k amm = ret (amm', a)"
  shows "a \<noteq> 0" "amm_fill amm' = amm_fill amm + (k + (2 ^ p - 1)) div 2 ^ p"
proof -
  have l: "0 < mem" "p \<le> 63" "amm_alignp2 amm = p" "amm_mlen amm = n" "amm_mem amm = (if hi then mem + n * 2 ^ p else mem)"
    using assms(1) by (auto simp: amm_live_def)
  have "(2 :: nat) ^ p \<le> 2 ^ 63" using l(2) by (rule power_increasing) simp
  then have "k + 2 ^ p - 1 < 2 ^ 64" using assms(2,3) by simp
  then have u: "amm_units amm k = (k + (2 ^ p - 1)) div 2 ^ p" using assms(2) l(3) by (simp add: amm_units_def)
  have f: "\<not> n - amm_fill amm < amm_units amm k" "(amm_fill amm + amm_units amm k) * 2 ^ p < mem + n * 2 ^ p" using assms(4) u l(1) by (auto intro: mult_right_mono le_less_trans)
  show "a \<noteq> 0" "amm_fill amm' = amm_fill amm + (k + (2 ^ p - 1)) div 2 ^ p"
    unfolding u [symmetric] using assms(5) f l by (auto simp: amm_get_hi2lo_def amm_get_lo2hi_def Let_def split: if_splits)
qed

lemma amm_seq_fits:
  assumes "amm_live mem n p hi amm B" "\<forall>k \<in> set ks. 0 < k \<and> k \<le> 2 ^ 64 - 2 ^ p" "amm_fill amm + (\<Sum>k \<leftarrow> ks. (k + (2 ^ p - 1)) div 2 ^ p) \<le> n"
    and "alloc_seq (if hi then amm_get_hi2lo else amm_get_lo2hi) ks amm = ret (amm', as)"
  shows "0 \<notin> set as"
  using assms
proof (induction ks arbitrary: amm B as)
  case (Cons k ks)
  have k: "0 < k" "k \<le> 2 ^ 64 - 2 ^ p" "amm_fill amm + (k + (2 ^ p - 1)) div 2 ^ p \<le> n" using Cons.prems(2,3) by auto
  obtain amm1 a where g: "(if hi then amm_get_hi2lo else amm_get_lo2hi) k amm = ret (amm1, a)"
    "a \<noteq> 0 \<Longrightarrow> amm_live mem n p hi amm1 (insert (a, k) B)" using amm_get_ok [OF Cons.prems(1) k(1,2)] by (auto split: if_splits)
  note s = amm_get_some [OF Cons.prems(1) k g(1)]
  obtain as1 where as: "alloc_seq (if hi then amm_get_hi2lo else amm_get_lo2hi) ks amm1 = ret (amm', as1)" "as = a # as1"
    using Cons.prems(4) unfolding alloc_seq.simps g(1) by (auto simp: rbind_eq_ret)
  have "0 \<notin> set as1" by (rule Cons.IH [OF g(2) [OF s(1)] _ _ as(1)]) (use Cons.prems(2,3) s(2) in auto)
  then show ?case using s(1) as(2) by simp
qed simp

text \<open>A request so close to the greatest size that the rounding wraps succeeds, and reserves nothing.\<close>

lemma amm_huge_request:
  assumes "2 ^ 64 - 2 ^ amm_alignp2 amm < k" "k < 2 ^ 64" "amm_alignp2 amm \<le> 63"
  shows "amm_get_lo2hi k amm = ret (amm, amm_mem amm + amm_get_fill amm)"
proof -
  let ?q = "(2 :: nat) ^ amm_alignp2 amm"
  have q: "?q \<le> 2 ^ 63" using assms(3) by (rule power_increasing) simp
  have "k + ?q - 1 = 2 ^ 64 + (k + ?q - 1 - 2 ^ 64)" using assms(1) q by simp
  then have "(k + ?q - 1) mod 2 ^ 64 = (k + ?q - 1 - 2 ^ 64) mod 2 ^ 64" by (metis mod_add_self1)
  also have "\<dots> < ?q" using assms(1,2) q by simp
  finally have "amm_units amm k = 0" by (simp add: amm_units_def)
  then show ?thesis by (simp add: amm_get_lo2hi_def amm_get_fill_def)
qed

text \<open>C26: An array manager over \<open>mlen\<close> bytes at \<open>mem\<close> answers any requests of at most \<open>2 ^ 64 - 2 ^ p\<close> bytes with NULL or with
  extents inside the array that do not overlap one another, from either end; and if the requests, each rounded up to
  units of \<open>2 ^ p\<close> bytes, fit into the array together, none gets NULL.\<close>

theorem amm_allocs_disjoint:
  assumes "0 < mem" "0 < mlen" "p \<le> 30" "\<forall>k \<in> set ks. 0 < k \<and> k \<le> 2 ^ 64 - 2 ^ p"
  shows "\<exists>amm amm' as. amm_init mem mlen (2 ^ p) hi = Ok amm \<and> alloc_seq (the (mm_alloc (amm_mm hi))) ks amm = ret (amm', as) \<and> length as = length ks
    \<and> ((\<Sum>k \<leftarrow> ks. (k + (2 ^ p - 1)) div 2 ^ p) \<le> mlen div 2 ^ p \<longrightarrow> 0 \<notin> set as)
    \<and> (\<forall>(a, k) \<in> set (zip as ks). a \<noteq> 0 \<longrightarrow> mem \<le> a \<and> a + k \<le> mem + mlen)
    \<and> (\<forall>i j. i < j \<longrightarrow> j < length ks \<longrightarrow> as ! i \<noteq> 0 \<longrightarrow> as ! j \<noteq> 0 \<longrightarrow> clear_of (as ! i, ks ! i) (as ! j, ks ! j))"
proof -
  obtain amm where amm: "amm_init mem mlen (2 ^ p) hi = Ok amm" "amm_live mem (mlen div 2 ^ p) p hi amm {}"
    and fill: "amm_fill amm = 0" using amm_init_ok [OF assms(1-3)] by blast
  have mm: "the (mm_alloc (amm_mm hi)) = (if hi then amm_get_hi2lo else amm_get_lo2hi)" by (simp add: amm_mm_def)
  have le: "mlen div 2 ^ p * 2 ^ p \<le> mlen" by simp
  from allocator.alloc_seq_ok [OF amm_allocator amm(2) assms(4)] obtain amm' as where as:
    "alloc_seq (if hi then amm_get_hi2lo else amm_get_lo2hi) ks amm = ret (amm', as)" "length as = length ks"
    "\<forall>e \<in> set (zip as ks). fst e \<noteq> 0 \<longrightarrow> mem \<le> fst e \<and> fst e + snd e \<le> mem + mlen div 2 ^ p * 2 ^ p"
    "\<forall>i j. i < j \<longrightarrow> j < length ks \<longrightarrow> as ! i \<noteq> 0 \<longrightarrow> as ! j \<noteq> 0 \<longrightarrow> clear_of (as ! i, ks ! i) (as ! j, ks ! j)" by auto
  have "mem \<le> a \<and> a + k \<le> mem + mlen" if "(a, k) \<in> set (zip as ks)" "a \<noteq> 0" for a k
    using bspec [OF as(3) that(1), unfolded fst_conv snd_conv] that(2) le by linarith
  then have "\<forall>(a, k) \<in> set (zip as ks). a \<noteq> 0 \<longrightarrow> mem \<le> a \<and> a + k \<le> mem + mlen" by blast
  moreover have "(\<Sum>k \<leftarrow> ks. (k + (2 ^ p - 1)) div 2 ^ p) \<le> mlen div 2 ^ p \<longrightarrow> 0 \<notin> set as"
    using amm_seq_fits [OF amm(2) assms(4) _ as(1)] fill by simp
  ultimately show ?thesis using amm(1) as(1,2,4) unfolding mm by blast
qed

lemma amm_allocs_disjoint_witness:
  "\<exists>amm amm' a b c. amm_init 1000 64 (2 ^ 3) False = Ok amm \<and> alloc_seq (the (mm_alloc (amm_mm False))) [20, 30, 40] amm = ret (amm', [a, b, c])
    \<and> (a \<noteq> 0 \<longrightarrow> b \<noteq> 0 \<longrightarrow> clear_of (a, 20) (b, 30))"
proof -
  have "\<forall>k \<in> set [20, 30, 40 :: nat]. 0 < k \<and> k \<le> 2 ^ 64 - 2 ^ 3" by simp
  from amm_allocs_disjoint [of 1000 64 3 "[20, 30, 40]" False, OF _ _ _ this] obtain amm amm' as where as:
    "amm_init 1000 64 (2 ^ 3) False = Ok amm" "alloc_seq (the (mm_alloc (amm_mm False))) [20, 30, 40] amm = ret (amm', as)" "length as = 3"
    "\<forall>i j. i < j \<longrightarrow> j < 3 \<longrightarrow> as ! i \<noteq> 0 \<longrightarrow> as ! j \<noteq> 0 \<longrightarrow> clear_of (as ! i, [20, 30, 40] ! i) (as ! j, [20, 30, 40] ! j)" by auto
  obtain a b c where "as = [a, b, c]" using as(3) by (auto simp: length_Suc_conv numeral_3_eq_3)
  then show ?thesis using as(1,2) as(4) [rule_format, of 0 1] by auto
qed

end
