(* ===== verification/Csv.thy ===== *)
theory Csv
  imports Loops
begin

text \<open>
  The reader of comma-separated values (src/csv.c): a character source is a function that returns the
  next character and the new state of the source, the state machine is the struct's four fields, and
  a call reads one field, or one piece of it when the field does not fit into the buffer.
\<close>

section \<open>The reader\<close>

datatype csv_code = CSV_ERR | CSV_EOF | CSV_OK | CSV_FLD | CSV_REC | CSV_CNT

definition CSV_GETC_EOF :: int where "CSV_GETC_EOF = -1"
definition CSV_GETC_ERR :: int where "CSV_GETC_ERR = -2"

record 's csv_state =
  csv_gcctx :: 's
  csv_done :: int
  csv_inquote :: bool
  csv_sawquote :: bool
  csv_last :: int

definition csv_init :: "'s \<Rightarrow> 's csv_state" where
  "csv_init gcctx = \<lparr>csv_gcctx = gcctx, csv_done = 0, csv_inquote = False, csv_sawquote = False, csv_last = -1\<rparr>"

definition csv_char :: "('s \<Rightarrow> int \<times> 's) \<Rightarrow> 's csv_state \<Rightarrow> int \<times> 's csv_state" where
  "csv_char getc csv =
     (if csv_last csv < 0 then (let (c, s) = getc (csv_gcctx csv) in (c, csv\<lparr>csv_gcctx := s\<rparr>))
      else (csv_last csv, csv\<lparr>csv_last := -1\<rparr>))"

text \<open>What a turn of the loop does with a character it does not skip; \<open>len\<close> bytes fit, and \<open>out\<close> is stored already.\<close>

definition csv_put :: "nat \<Rightarrow> int \<Rightarrow> 's csv_state \<Rightarrow> byte list \<Rightarrow> 's csv_state \<times> byte list \<times> csv_code" where
  "csv_put len c csv out =
     (if c = 44 \<and> \<not> csv_inquote csv then (csv, out, CSV_FLD)
      else if c = 10 \<and> \<not> csv_inquote csv then (csv, out, CSV_REC)
      else if length out = len then
        (csv\<lparr>csv_last := c, csv_inquote := (if c = 34 then \<not> csv_inquote csv else csv_inquote csv)\<rparr>, out, CSV_CNT)
      else (csv, out @ [word_of_int c], CSV_OK))"

definition csv_turn :: "('s \<Rightarrow> int \<times> 's) \<Rightarrow> nat \<Rightarrow> 's csv_state \<times> byte list \<times> csv_code \<Rightarrow> ('s csv_state \<times> byte list \<times> csv_code) outcome" where
  "csv_turn getc len = (\<lambda>(csv, out, code).
     let (c, csv) = csv_char getc csv in
     if c < 0 then
       if c = CSV_GETC_EOF then Ok (csv\<lparr>csv_done := 1\<rparr>, out, CSV_REC)
       else abort_unless (c = CSV_GETC_ERR) (Ok (csv\<lparr>csv_done := -1\<rparr>, out, CSV_ERR))
     else if c = 34 then
       let inquote = (\<not> csv_inquote csv); prquote = (\<not> inquote \<and> csv_sawquote csv); csv = csv\<lparr>csv_inquote := inquote, csv_sawquote := True\<rparr> in
       Ok (if \<not> prquote then (csv, out, CSV_OK) else csv_put len c csv out)
     else Ok (csv_put len c (csv\<lparr>csv_sawquote := False\<rparr>) out))"

text \<open>
  The buffer is a block, or \<open>None\<close> for NULL.  The result is the new state, the buffer, the code and
  what is stored in \<open>*rlen\<close>, if anything is.
\<close>

definition csv_next :: "('s \<Rightarrow> int \<times> 's) \<Rightarrow> 's csv_state \<Rightarrow> byte list option \<Rightarrow> nat
    \<Rightarrow> ('s csv_state \<times> byte list option \<times> csv_code \<times> nat option) run" where
  "csv_next getc csv p len =
     (case p of None \<Rightarrow> ret (csv, p, CSV_ERR, None) | Some buf \<Rightarrow>
      if len < 2 then ret (csv, p, CSV_ERR, None)
      else if csv_done csv > 0 then ret (csv, p, CSV_EOF, None)
      else if csv_done csv < 0 then ret (csv, p, CSV_ERR, None)
      else
        rbind (while_run (\<lambda>(csv, out, code). Ok (code = CSV_OK)) (\<lambda>s. Some (csv_turn getc (len - 1) s)) (csv, [], CSV_OK)) (\<lambda>(csv, out, code).
          let code = (if out = [] \<and> csv_done csv > 0 then CSV_EOF else code) in
          if code = CSV_EOF then ret (csv, p, code, None)
          else rbind (Some (block_write buf 0 (out @ [0]))) (\<lambda>buf.
            ret (if code \<noteq> CSV_CNT then csv\<lparr>csv_inquote := False, csv_sawquote := False\<rparr> else csv, Some buf, code, Some (length out)))))"

definition csv_clear_field :: "('s \<Rightarrow> int \<times> 's) \<Rightarrow> 's csv_state \<Rightarrow> ('s csv_state \<times> csv_code) run" where
  "csv_clear_field getc csv =
     rbind (while_run (\<lambda>(csv, buf, code). Ok (code = CSV_CNT))
         (\<lambda>(csv, buf, code). rbind (csv_next getc csv buf 256) (\<lambda>(csv, buf, code, _). ret (csv, buf, code)))
         (csv, Some (replicate 256 0), CSV_CNT))
       (\<lambda>(csv, buf, code). ret (csv, code))"

section \<open>What a field is\<close>

text \<open>
  The field at the front of a text, without buffers: its bytes, the code that ends it, and what comes
  after it, or \<open>None\<close> at the end of the text.  A quotation mark is read when it directly follows the one
  that opened a quotation.
\<close>

fun csv_scan :: "bool \<Rightarrow> bool \<Rightarrow> byte list \<Rightarrow> byte list \<times> csv_code \<times> byte list option" where
  "csv_scan inq saw [] = ([], CSV_REC, None)"
| "csv_scan inq saw (c # cs) =
     (if c = 34 then (if inq \<and> saw then apfst ((#) c) (csv_scan False True cs) else csv_scan (\<not> inq) True cs)
      else if c = 44 \<and> \<not> inq then ([], CSV_FLD, Some cs)
      else if c = 10 \<and> \<not> inq then ([], CSV_REC, Some cs)
      else apfst ((#) c) (csv_scan inq False cs))"

lemma csv_scan_code: "csv_scan inq saw cs = (f, cd, r) \<Longrightarrow> cd = CSV_FLD \<or> cd = CSV_REC"
proof (induction cs arbitrary: inq saw f)
  case (Cons c cs)
  then show ?case by (cases "csv_scan False True cs"; cases "csv_scan inq False cs") (auto split: if_splits)
qed simp

text \<open>A text as a character source.\<close>

fun text_getc :: "byte list \<Rightarrow> int \<times> byte list" where
  "text_getc [] = (CSV_GETC_EOF, [])"
| "text_getc (c # cs) = (uint c, cs)"

text \<open>The reader is in the middle of a text: \<open>cs\<close> is to be read, counting the character it holds back.\<close>

abbreviation csv_mid :: "bool \<Rightarrow> bool \<Rightarrow> byte list \<Rightarrow> int \<Rightarrow> byte list csv_state" where
  "csv_mid inq saw cs c \<equiv> \<lparr>csv_gcctx = cs, csv_done = 0, csv_inquote = inq, csv_sawquote = saw, csv_last = c\<rparr>"

definition csv_at :: "bool \<Rightarrow> bool \<Rightarrow> byte list \<Rightarrow> byte list csv_state \<Rightarrow> bool" where
  "csv_at inq saw cs csv \<longleftrightarrow> csv = csv_mid inq saw cs (-1) \<or> (\<exists>c cs'. cs = c # cs' \<and> csv = csv_mid inq saw cs' (uint c))"

lemma csv_at_init: "csv_at False False cs (csv_init cs)"
  by (simp add: csv_at_def csv_init_def)

lemma csv_at_mid: "csv_at inq saw cs (csv_mid inq saw cs (-1))"
  by (simp add: csv_at_def)

lemma csv_at_held: "csv_at inq saw (c # cs) (csv_mid inq saw cs (uint c))"
  by (simp add: csv_at_def)

lemma csv_char_at: "csv_at inq saw (c # cs) csv \<Longrightarrow> csv_char text_getc csv = (uint c, csv_mid inq saw cs (-1))"
  by (auto simp: csv_at_def csv_char_def uint_ge_0 not_less [symmetric])

lemma csv_char_end: "csv_at inq saw [] csv \<Longrightarrow> csv_char text_getc csv = (CSV_GETC_EOF, csv_mid inq saw [] (-1))"
  by (auto simp: csv_at_def csv_char_def)

lemma uint_eq [simp]: "uint (c :: byte) = 34 \<longleftrightarrow> c = 34" "uint c = 44 \<longleftrightarrow> c = 44" "uint c = 10 \<longleftrightarrow> c = 10"
  by (simp_all add: word_uint_eq_iff)

text \<open>A run of the loop reads the field, or as much of it as fits.\<close>

abbreviation csv_loop :: "nat \<Rightarrow> byte list csv_state \<Rightarrow> byte list \<Rightarrow> (byte list csv_state \<times> byte list \<times> csv_code) run" where
  "csv_loop n csv out \<equiv> while_run (\<lambda>(csv, out, code). Ok (code = CSV_OK)) (\<lambda>s. Some (csv_turn text_getc n s)) (csv, out, CSV_OK)"

lemma csv_loop_turn:
  "csv_turn text_getc n (csv, out, CSV_OK) = Ok (csv', out', CSV_OK) \<Longrightarrow> csv_loop n csv out = csv_loop n csv' out'"
  "csv_turn text_getc n (csv, out, CSV_OK) = Ok (csv', out', code) \<Longrightarrow> code \<noteq> CSV_OK \<Longrightarrow> csv_loop n csv out = ret (csv', out', code)"
  by ((subst while_run.simps, simp)+)

definition csv_read :: "nat \<Rightarrow> byte list \<Rightarrow> byte list \<Rightarrow> csv_code \<Rightarrow> byte list option \<Rightarrow> byte list csv_state \<times> byte list \<times> csv_code \<Rightarrow> bool" where
  "csv_read n out f cd r = (\<lambda>(csv', out', code).
    if length out + length f \<le> n then out' = out @ f \<and> code = cd \<and> (cd = CSV_FLD \<or> cd = CSV_REC)
       \<and> (case r of None \<Rightarrow> csv_done csv' = 1 | Some cs \<Rightarrow> csv' = csv_mid False False cs (-1) \<or> csv' = csv_mid False True cs (-1))
    else out' = out @ take (n - length out) f \<and> code = CSV_CNT
       \<and> (\<exists>inq saw cs. csv_at inq saw cs csv' \<and> csv_scan inq saw cs = (drop (n - length out) f, cd, r)))"

lemma csv_read_step: "length out < n \<Longrightarrow> csv_read n (out @ [c]) f cd r s \<Longrightarrow> csv_read n out (c # f) cd r s"
  by (auto simp: csv_read_def split: prod.splits if_splits option.splits simp flip: Suc_diff_Suc) 

lemma csv_read_full:
  "length out = n \<Longrightarrow> csv_at inq saw cs csv \<Longrightarrow> csv_scan inq saw cs = (c # g, cd, r) \<Longrightarrow> csv_read n out (c # g) cd r (csv, out, CSV_CNT)"
  unfolding csv_read_def by (simp del: csv_scan.simps) blast

lemma csv_loop_ok:
  assumes "csv_at inq saw cs csv" "csv_scan inq saw cs = (f, cd, r)" "length out \<le> n"
  shows "\<exists>s. csv_loop n csv out = ret s \<and> csv_read n out f cd r s"
  using assms
proof (induction cs arbitrary: inq saw csv f out)
  case Nil
  have "csv_turn text_getc n (csv, out, CSV_OK) = Ok ((csv_mid inq saw [] (-1))\<lparr>csv_done := 1\<rparr>, out, CSV_REC)"
    by (simp add: csv_turn_def csv_char_end [OF Nil.prems(1)] CSV_GETC_EOF_def)
  from csv_loop_turn(2) [OF this] show ?case using Nil.prems by (auto simp: csv_read_def)
next
  case (Cons c cs)
  note ch = csv_char_at [OF Cons.prems(1)]
  have turn: "csv_turn text_getc n (csv, out, CSV_OK) = Ok (
      if c = 34 then (if inq \<and> saw then csv_put n 34 (csv_mid False True cs (-1)) out else (csv_mid (\<not> inq) True cs (-1), out, CSV_OK))
      else csv_put n (uint c) (csv_mid inq False cs (-1)) out)"
    using uint_ge_0 [of c] by (auto simp: csv_turn_def ch not_less [symmetric])
  consider (skip) "c = 34" "\<not> (inq \<and> saw)" | (quote) "c = 34" inq saw | (del) "c = 44 \<or> c = 10" "\<not> inq" | (put) "c \<noteq> 34" "c = 44 \<or> c = 10 \<longrightarrow> inq"
    by blast
  then show ?case
  proof cases
    case skip
    then have "csv_loop n csv out = csv_loop n (csv_mid (\<not> inq) True cs (-1)) out" using turn by (intro csv_loop_turn(1)) auto
    moreover have "csv_scan (\<not> inq) True cs = (f, cd, r)" using skip Cons.prems(2) by (auto split: if_splits)
    ultimately show ?thesis using Cons.IH [OF csv_at_mid] Cons.prems(3) by simp
  next
    case quote
    obtain g where g: "csv_scan False True cs = (g, cd, r)" "f = 34 # g" using quote Cons.prems(2) by (cases "csv_scan False True cs") auto
    show ?thesis
    proof (cases "length out = n")
      case True
      then have "csv_loop n csv out = ret (csv_mid True True cs 34, out, CSV_CNT)" using turn quote by (intro csv_loop_turn(2)) (simp_all add: csv_put_def)
      moreover have "csv_at True True (34 # cs) (csv_mid True True cs 34)" using csv_at_held [of True True 34 cs] by simp
      moreover have "csv_scan True True (34 # cs) = (f, cd, r)" using Cons.prems(2) quote by simp
      ultimately show ?thesis using csv_read_full True g(2) by (simp del: csv_scan.simps)
    next
      case False
      then have "csv_loop n csv out = csv_loop n (csv_mid False True cs (-1)) (out @ [34])" using turn quote by (intro csv_loop_turn(1)) (simp add: csv_put_def)
      moreover have "\<exists>s. csv_loop n (csv_mid False True cs (-1)) (out @ [34]) = ret s \<and> csv_read n (out @ [34]) g cd r s"
        by (rule Cons.IH [OF csv_at_mid g(1)]) (use False Cons.prems(3) in simp)
      ultimately show ?thesis using csv_read_step False Cons.prems(3) by (fastforce simp: g(2))
    qed
  next
    case del
    then have "csv_loop n csv out = ret (csv_mid False False cs (-1), out, if c = 44 then CSV_FLD else CSV_REC)"
      using turn by (intro csv_loop_turn(2)) (auto simp: csv_put_def)
    then show ?thesis using del Cons.prems(2,3) by (auto simp: csv_read_def)
  next
    case put
    obtain g where g: "csv_scan inq False cs = (g, cd, r)" "f = c # g" using put Cons.prems(2) by (cases "csv_scan inq False cs") (auto split: if_splits)
    show ?thesis
    proof (cases "length out = n")
      case True
      then have "csv_loop n csv out = ret (csv_mid inq False cs (uint c), out, CSV_CNT)" using turn put by (intro csv_loop_turn(2)) (auto simp: csv_put_def)
      moreover have "csv_scan inq False (c # cs) = (f, cd, r)" using g put by auto
      ultimately show ?thesis using csv_read_full csv_at_held True g(2) by (simp del: csv_scan.simps) blast
    next
      case False
      then have "csv_loop n csv out = csv_loop n (csv_mid inq False cs (-1)) (out @ [c])" using turn put by (intro csv_loop_turn(1)) (auto simp: csv_put_def)
      moreover have "\<exists>s. csv_loop n (csv_mid inq False cs (-1)) (out @ [c]) = ret s \<and> csv_read n (out @ [c]) g cd r s"
        by (rule Cons.IH [OF csv_at_mid g(1)]) (use False Cons.prems(3) in simp)
      ultimately show ?thesis using csv_read_step False Cons.prems(3) by (fastforce simp: g(2))
    qed
  qed
qed


section \<open>A call, and a whole field\<close>

text \<open>How the reading of a field ends: at the end of the text an empty field is not reported.\<close>

definition csv_ends :: "byte list \<Rightarrow> csv_code \<Rightarrow> byte list option \<Rightarrow> byte list csv_state \<Rightarrow> csv_code \<Rightarrow> bool" where
  "csv_ends f cd r csv' code \<longleftrightarrow>
     (case r of None \<Rightarrow> csv_done csv' = 1 \<and> code = (if f = [] then CSV_EOF else cd) | Some cs \<Rightarrow> csv' = csv_mid False False cs (-1) \<and> code = cd)
     \<and> code \<noteq> CSV_CNT"

lemma csv_at_done: "csv_at inq saw cs csv \<Longrightarrow> csv_done csv = 0"
  by (auto simp: csv_at_def)

lemma csv_next_ok:
  assumes "csv_at inq saw cs csv" "csv_scan inq saw cs = (f, cd, r)" "2 \<le> len" "len \<le> length buf"
  shows "length f < len \<Longrightarrow> \<exists>csv' code. csv_ends f cd r csv' code \<and>
      csv_next text_getc csv (Some buf) len = ret (csv', Some (if code = CSV_EOF then buf else f @ 0 # drop (Suc (length f)) buf), code,
        if code = CSV_EOF then None else Some (length f))"
    and "\<not> length f < len \<Longrightarrow> \<exists>csv' inq' saw' cs'. csv_at inq' saw' cs' csv' \<and> csv_scan inq' saw' cs' = (drop (len - 1) f, cd, r) \<and>
      csv_next text_getc csv (Some buf) len = ret (csv', Some (take (len - 1) f @ 0 # drop len buf), CSV_CNT, Some (len - 1))"
proof -
  obtain csv' out code where l: "csv_loop (len - 1) csv [] = ret (csv', out, code)" "csv_read (len - 1) [] f cd r (csv', out, code)"
    using csv_loop_ok [OF assms(1,2), of "[]" "len - 1"] by auto
  note d = csv_at_done [OF assms(1)]
  have w: "block_write buf 0 (g @ [0]) = Ok (g @ 0 # drop (Suc (length g)) buf)" if "length g < len" for g
    using that assms(4) by simp
  {
    assume "length f < len"
    then have e: "out = f" "code = cd" "cd = CSV_FLD \<or> cd = CSV_REC"
      "case r of None \<Rightarrow> csv_done csv' = 1 | Some cs \<Rightarrow> csv' = csv_mid False False cs (-1) \<or> csv' = csv_mid False True cs (-1)"
      using l(2) by (auto simp: csv_read_def)
    let ?code = "if f = [] \<and> r = None then CSV_EOF else cd"
    let ?csv = "if ?code = CSV_EOF then csv' else csv'\<lparr>csv_inquote := False, csv_sawquote := False\<rparr>"
    have "csv_done csv' > 0 \<longleftrightarrow> r = None" using e(4) by (cases r) auto
    then have "csv_next text_getc csv (Some buf) len = ret (?csv, Some (if ?code = CSV_EOF then buf else f @ 0 # drop (Suc (length f)) buf), ?code,
        if ?code = CSV_EOF then None else Some (length f))"
      using assms(3) d l(1) e(1,2,3) w [OF \<open>length f < len\<close>] by (auto simp: csv_next_def)
    moreover have "csv_ends f cd r ?csv ?code" using e(3,4) by (cases r) (auto simp: csv_ends_def)
    ultimately show "\<exists>csv' code. csv_ends f cd r csv' code \<and>
      csv_next text_getc csv (Some buf) len = ret (csv', Some (if code = CSV_EOF then buf else f @ 0 # drop (Suc (length f)) buf), code,
        if code = CSV_EOF then None else Some (length f))" by blast
  next
    assume "\<not> length f < len"
    then have n: "\<not> length f \<le> len - 1" using assms(3) by arith
    have e: "out = take (len - 1) f" "code = CSV_CNT" "\<exists>inq saw cs. csv_at inq saw cs csv' \<and> csv_scan inq saw cs = (drop (len - 1) f, cd, r)"
      using l(2) n by (simp_all add: csv_read_def)
    have o: "length out = len - 1" "out \<noteq> []" using e(1) \<open>\<not> length f < len\<close> assms(3) by auto
    have "csv_next text_getc csv (Some buf) len = ret (csv', Some (take (len - 1) f @ 0 # drop len buf), CSV_CNT, Some (len - 1))"
      using assms(3) d l(1) e(2) o w [of out] unfolding e(1) [symmetric] by (auto simp: csv_next_def)
    then show "\<exists>csv' inq' saw' cs'. csv_at inq' saw' cs' csv' \<and> csv_scan inq' saw' cs' = (drop (len - 1) f, cd, r) \<and>
      csv_next text_getc csv (Some buf) len = ret (csv', Some (take (len - 1) f @ 0 # drop len buf), CSV_CNT, Some (len - 1))"
      using e(3) by blast
  }
qed

text \<open>The pieces of a field put together: a call with a buffer of \<open>len\<close> bytes as long as there is more.\<close>

definition csv_whole :: "nat \<Rightarrow> byte list csv_state \<Rightarrow> (byte list csv_state \<times> byte list \<times> csv_code) run" where
  "csv_whole len csv =
     while_run (\<lambda>(csv, acc, code). Ok (code = CSV_CNT))
       (\<lambda>(csv, acc, code). rbind (csv_next text_getc csv (Some (replicate len 0)) len) (\<lambda>(csv, buf, code, rlen).
          ret (csv, acc @ (case rlen of None \<Rightarrow> [] | Some n \<Rightarrow> take n (the buf)), code)))
       (csv, [], CSV_CNT)"

lemma csv_whole_ok:
  assumes "csv_at inq saw cs csv" "csv_scan inq saw cs = (f, cd, r)" "2 \<le> len"
  shows "\<exists>csv' code. csv_whole len csv = ret (csv', f, code) \<and> csv_ends f cd r csv' code"
proof -
  let ?b = "\<lambda>(csv, acc, code). Ok (code = CSV_CNT)"
  let ?c = "\<lambda>(csv, acc, code). rbind (csv_next text_getc csv (Some (replicate len 0)) len) (\<lambda>(csv, buf, code, rlen).
          ret (csv, acc @ (case rlen of None \<Rightarrow> [] | Some n \<Rightarrow> take n (the buf)), code))"
  let ?I = "\<lambda>n (csv, acc, code). if code = CSV_CNT
      then (\<exists>g inq saw cs. acc @ g = f \<and> csv_at inq saw cs csv \<and> csv_scan inq saw cs = (g, cd, r) \<and> (g = [] \<longrightarrow> f = []) \<and> n = Suc (length g))
      else acc = f \<and> csv_ends f cd r csv code"
  have "\<exists>s n. while_run ?b ?c (csv, [], CSV_CNT) = ret s \<and> ?I n s \<and> ?b s = Ok False"
  proof (rule while_run_ghost [where n = "Suc (length f)"])
    show "?I (Suc (length f)) (csv, [], CSV_CNT)" using assms by auto
  next
    fix n :: nat and s assume I: "?I n s" "?b s = Ok True"
    then obtain csv acc g inq saw cs where s: "s = (csv, acc, CSV_CNT)" "acc @ g = f" "csv_at inq saw cs csv" "csv_scan inq saw cs = (g, cd, r)" "g = [] \<longrightarrow> f = []" "n = Suc (length g)"
      by (cases s) auto
    note nx = csv_next_ok [OF s(3,4) assms(3), of "replicate len 0"]
    show "\<exists>s' n'. ?c s = ret s' \<and> ?I n' s' \<and> n' < n"
    proof (cases "length g < len")
      case True
      obtain csv' code where c: "csv_ends g cd r csv' code"
        "csv_next text_getc csv (Some (replicate len 0)) len = ret (csv', Some (if code = CSV_EOF then replicate len 0 else g @ 0 # drop (Suc (length g)) (replicate len 0)), code,
          if code = CSV_EOF then None else Some (length g))" using nx(1) True by auto
      have "code = CSV_EOF \<longrightarrow> g = []" using c(1) csv_scan_code [OF s(4)] by (auto simp: csv_ends_def split: option.splits if_splits)
      then have "?c s = ret (csv', f, code)" using c s by auto
      moreover have "csv_ends f cd r csv' code" "code \<noteq> CSV_CNT" using c(1) s(2,5) by (auto simp: csv_ends_def split: option.splits)
      ultimately show ?thesis using s(6) by (intro exI [of _ "(csv', f, code)"] exI [of _ 0]) auto
    next
      case False
      obtain csv' inq' saw' cs' where c: "csv_at inq' saw' cs' csv'" "csv_scan inq' saw' cs' = (drop (len - 1) g, cd, r)"
        "csv_next text_getc csv (Some (replicate len 0)) len = ret (csv', Some (take (len - 1) g @ 0 # drop len (replicate len 0)), CSV_CNT, Some (len - 1))"
        using nx(2) False by auto
      have nle: "\<not> length g \<le> len - Suc 0" using False assms(3) by arith
      have "?c s = ret (csv', acc @ take (len - 1) g, CSV_CNT)" using c(3) False by (simp add: s(1))
      moreover have "?I (Suc (length (drop (len - 1) g))) (csv', acc @ take (len - 1) g, CSV_CNT)"
        using c(1,2) s(2) nle by (simp, intro exI [of _ "drop (len - 1) g"]) auto
      ultimately show ?thesis using s(6) False assms(3) by (intro exI [of _ "(csv', acc @ take (len - 1) g, CSV_CNT)"] exI [of _ "Suc (length (drop (len - 1) g))"]) auto
    qed
  qed auto
  then show ?thesis unfolding csv_whole_def by (auto split: if_splits)
qed

text \<open>Skipping a field leaves the reader where reading it does.\<close>

lemma csv_clear_field_ok:
  assumes "csv_at inq saw cs csv" "csv_scan inq saw cs = (f, cd, r)"
  shows "\<exists>csv' code. csv_clear_field text_getc csv = ret (csv', code) \<and> csv_ends f cd r csv' code"
proof -
  let ?b = "\<lambda>(csv, buf, code). Ok (code = CSV_CNT)"
  let ?c = "\<lambda>(csv, buf, code). rbind (csv_next text_getc csv buf 256) (\<lambda>(csv, buf, code, _). ret (csv, buf, code))"
  let ?I = "\<lambda>n (csv, buf, code). (\<exists>b :: byte list. buf = Some b \<and> length b = 256) \<and> (if code = CSV_CNT
      then (\<exists>g inq saw cs. csv_at inq saw cs csv \<and> csv_scan inq saw cs = (g, cd, r) \<and> (g = [] \<longrightarrow> f = []) \<and> (f = [] \<longrightarrow> g = []) \<and> n = Suc (length g))
      else csv_ends f cd r csv code)"
  have "\<exists>s n. while_run ?b ?c (csv, Some (replicate 256 0), CSV_CNT) = ret s \<and> ?I n s \<and> ?b s = Ok False"
  proof (rule while_run_ghost [where n = "Suc (length f)"])
    show "?I (Suc (length f)) (csv, Some (replicate 256 0), CSV_CNT)" using assms by auto
  next
    fix n :: nat and s assume I: "?I n s" "?b s = Ok True"
    then obtain csv g inq saw cs and buf :: "byte list" where s: "s = (csv, Some buf, CSV_CNT)" "length buf = 256" "csv_at inq saw cs csv" "csv_scan inq saw cs = (g, cd, r)"
      "g = [] \<longleftrightarrow> f = []" "n = Suc (length g)"
      by (cases s) auto
    note nx = csv_next_ok [OF s(3,4), of 256 buf]
    show "\<exists>s' n'. ?c s = ret s' \<and> ?I n' s' \<and> n' < n"
    proof (cases "length g < 256")
      case True
      obtain csv' code where c: "csv_ends g cd r csv' code"
        "csv_next text_getc csv (Some buf) 256 = ret (csv', Some (if code = CSV_EOF then buf else g @ 0 # drop (Suc (length g)) buf), code,
          if code = CSV_EOF then None else Some (length g))" using nx(1) True s(2) by auto
      have "csv_ends f cd r csv' code" "code \<noteq> CSV_CNT" using c(1) s(5) by (auto simp: csv_ends_def split: option.splits)
      then show ?thesis using c(2) s(1,2,6) True by (intro exI [of _ "(csv', Some (if code = CSV_EOF then buf else g @ 0 # drop (Suc (length g)) buf), code)"] exI [of _ 0]) auto
    next
      case False
      obtain csv' inq' saw' cs' where c: "csv_at inq' saw' cs' csv'" "csv_scan inq' saw' cs' = (drop 255 g, cd, r)"
        "csv_next text_getc csv (Some buf) 256 = ret (csv', Some (take 255 g @ 0 # drop 256 buf), CSV_CNT, Some 255)"
        using nx(2) False s(2) by auto
      have ex: "\<exists>inq saw cs. csv_at inq saw cs csv' \<and> csv_scan inq saw cs = (drop 255 g, cd, r)" using c(1,2) by blast
      have "g \<noteq> []" "drop 255 g \<noteq> []" using False by auto
      then show ?thesis using c(3) s(1,2,5,6) False
        by (intro exI [of _ "(csv', Some (take 255 g @ 0 # drop 256 buf), CSV_CNT)"] exI [of _ "Suc (length (drop 255 g))"])
          (simp, rule exI [of _ "drop 255 g"], simp add: ex)
    qed
  qed auto
  then show ?thesis unfolding csv_clear_field_def by (auto split: if_splits)
qed

section \<open>What can be written\<close>

text \<open>
  A field is written as a sequence of segments: plain bytes, a quotation that holds no quotation
  mark, and a doubled quotation mark outside of quotations.
\<close>

datatype csv_seg = Plain "byte list" | Quoted "byte list" | Mark

fun seg_text :: "csv_seg \<Rightarrow> byte list" where
  "seg_text (Plain s) = s"
| "seg_text (Quoted s) = 34 # s @ [34]"
| "seg_text Mark = [34, 34]"

fun seg_bytes :: "csv_seg \<Rightarrow> byte list" where
  "seg_bytes (Plain s) = s"
| "seg_bytes (Quoted s) = s"
| "seg_bytes Mark = [34]"

fun seg_ok :: "csv_seg \<Rightarrow> bool" where
  "seg_ok (Plain s) \<longleftrightarrow> 34 \<notin> set s \<and> 44 \<notin> set s \<and> 10 \<notin> set s"
| "seg_ok (Quoted s) \<longleftrightarrow> s \<noteq> [] \<and> 34 \<notin> set s"
| "seg_ok Mark \<longleftrightarrow> True"

abbreviation field_text :: "csv_seg list \<Rightarrow> byte list" where "field_text ss \<equiv> concat (map seg_text ss)"
abbreviation field_bytes :: "csv_seg list \<Rightarrow> byte list" where "field_bytes ss \<equiv> concat (map seg_bytes ss)"
abbreviation field_ok :: "csv_seg list \<Rightarrow> bool" where "field_ok ss \<equiv> list_all seg_ok ss"

text \<open>Every string of bytes can be written.\<close>

lemma field_any: "\<exists>ss. field_ok ss \<and> field_bytes ss = f"
proof (induction f)
  case (Cons c f)
  then obtain ss where ss: "field_ok ss" "field_bytes ss = f" by blast
  define s where "s = (if c = 34 then Mark else if c = 44 \<or> c = 10 then Quoted [c] else Plain [c])"
  have "field_ok (s # ss)" "field_bytes (s # ss) = c # f" using ss by (auto simp: s_def)
  then show ?case by blast
qed (intro exI [of _ "[]"], simp)

lemma csv_scan_plain: "34 \<notin> set s \<Longrightarrow> inq \<or> 44 \<notin> set s \<and> 10 \<notin> set s \<Longrightarrow>
  csv_scan inq saw (s @ cs) = apfst ((@) s) (csv_scan inq (if s = [] then saw else False) cs)"
proof (induction s arbitrary: saw)
  case Nil
  then show ?case by (cases "csv_scan inq saw cs") simp
next
  case (Cons c s)
  then show ?case by (cases "csv_scan inq False cs") auto
qed

lemma csv_scan_seg: "seg_ok s \<Longrightarrow> \<exists>saw'. csv_scan False saw (seg_text s @ cs) = apfst ((@) (seg_bytes s)) (csv_scan False saw' cs)"
proof (cases s)
  case (Quoted t)
  assume "seg_ok s"
  then have t: "t \<noteq> []" "34 \<notin> set t" by (simp_all add: Quoted)
  have "csv_scan False saw (seg_text s @ cs) = csv_scan True True (t @ 34 # cs)" by (simp add: Quoted)
  also have "\<dots> = apfst ((@) t) (csv_scan False True cs)" using csv_scan_plain [of t True True "34 # cs"] t by simp
  finally show ?thesis by (auto simp: Quoted)
qed (use csv_scan_plain [of _ False saw cs] in \<open>auto simp: apfst_def map_prod_def\<close>)

lemma csv_scan_field:
  assumes "field_ok ss" "d = 44 \<or> d = 10"
  shows "csv_scan False saw (field_text ss @ d # cs) = (field_bytes ss, if d = 44 then CSV_FLD else CSV_REC, Some cs)"
  using assms(1)
proof (induction ss arbitrary: saw)
  case Nil
  then show ?case using assms(2) by auto
next
  case (Cons s ss)
  obtain saw' where "csv_scan False saw (seg_text s @ field_text ss @ d # cs) = apfst ((@) (seg_bytes s)) (csv_scan False saw' (field_text ss @ d # cs))"
    using csv_scan_seg [of s saw "field_text ss @ d # cs"] Cons.prems by auto
  then show ?case using Cons by simp
qed

text \<open>A text: its fields, each with the byte that ends it, and what reading them gives.\<close>

definition csv_text :: "(csv_seg list \<times> byte) list \<Rightarrow> byte list" where
  "csv_text fs = concat (map (\<lambda>(f, d). field_text f @ [d]) fs)"

definition csv_items :: "(csv_seg list \<times> byte) list \<Rightarrow> (byte list \<times> csv_code) list" where
  "csv_items fs = map (\<lambda>(f, d). (field_bytes f, if d = 44 then CSV_FLD else CSV_REC)) fs"

definition csv_file :: "nat \<Rightarrow> byte list csv_state \<Rightarrow> (byte list csv_state \<times> (byte list \<times> csv_code) list \<times> csv_code) run" where
  "csv_file len csv =
     while_run (\<lambda>(csv, acc, code). Ok (code \<noteq> CSV_EOF \<and> code \<noteq> CSV_ERR))
       (\<lambda>(csv, acc, code). rbind (csv_whole len csv) (\<lambda>(csv, f, code). ret (csv, if code = CSV_EOF then acc else acc @ [(f, code)], code)))
       (csv, [], CSV_OK)"

lemma csv_file_ok:
  assumes "\<forall>(f, d) \<in> set doc. field_ok f \<and> (d = 44 \<or> d = 10)" "2 \<le> len"
  shows "\<exists>csv'. csv_file len (csv_init (csv_text doc)) = ret (csv', csv_items doc, CSV_EOF)"
proof -
  let ?b = "\<lambda>(csv, acc, code). Ok (code \<noteq> CSV_EOF \<and> code \<noteq> CSV_ERR)"
  let ?c = "\<lambda>(csv, acc, code). rbind (csv_whole len csv) (\<lambda>(csv, f, code). ret (csv, if code = CSV_EOF then acc else acc @ [(f, code)], code))"
  let ?I = "\<lambda>n (csv, acc, code). if code = CSV_EOF then acc = csv_items doc
      else code \<noteq> CSV_ERR \<and> (\<exists>fs. set fs \<subseteq> set doc \<and> csv_at False False (csv_text fs) csv \<and> acc @ csv_items fs = csv_items doc \<and> n = Suc (length fs))"
  have "\<exists>s n. while_run ?b ?c (csv_init (csv_text doc), [], CSV_OK) = ret s \<and> ?I n s \<and> ?b s = Ok False"
  proof (rule while_run_ghost [where n = "Suc (length doc)"])
    show "?I (Suc (length doc)) (csv_init (csv_text doc), [], CSV_OK)" using csv_at_init by auto
  next
    fix n :: nat and s assume I: "?I n s" "?b s = Ok True"
    obtain csv acc code where s: "s = (csv, acc, code)" by (cases s) auto
    then obtain fs where fs: "set fs \<subseteq> set doc" "csv_at False False (csv_text fs) csv" "acc @ csv_items fs = csv_items doc" "n = Suc (length fs)"
      using I by (auto split: if_splits)
    show "\<exists>s' n'. ?c s = ret s' \<and> ?I n' s' \<and> n' < n"
    proof (cases fs)
      case Nil
      obtain csv' code' where "csv_whole len csv = ret (csv', [], code')" "csv_ends [] CSV_REC None csv' code'"
        using csv_whole_ok [OF fs(2), of "[]" CSV_REC None len] assms(2) by (auto simp: csv_text_def Nil)
      then show ?thesis using fs(3,4) by (intro exI [of _ "(csv', acc, CSV_EOF)"] exI [of _ 0]) (auto simp: csv_ends_def Nil csv_items_def s)
    next
      case (Cons p fs')
      obtain f d where p: "p = (f, d)" by (cases p) auto
      have fd: "field_ok f" "d = 44 \<or> d = 10" using assms(1) fs(1) by (auto simp: Cons p)
      let ?code = "if d = 44 then CSV_FLD else CSV_REC"
      have "csv_scan False False (csv_text fs) = (field_bytes f, ?code, Some (csv_text fs'))"
        using csv_scan_field [OF fd, of False "csv_text fs'"] by (simp add: csv_text_def Cons p)
      then obtain csv' code' where w: "csv_whole len csv = ret (csv', field_bytes f, code')" "csv_ends (field_bytes f) ?code (Some (csv_text fs')) csv' code'"
        using csv_whole_ok [OF fs(2) _ assms(2)] by blast
      have c: "code' = ?code" "csv_at False False (csv_text fs') csv'" using w(2) csv_at_mid by (auto simp: csv_ends_def)
      have "?c s = ret (csv', acc @ [(field_bytes f, ?code)], ?code)" using w(1) c(1) s by simp
      moreover have "?I (Suc (length fs')) (csv', acc @ [(field_bytes f, ?code)], ?code)"
        using c(2) fs(1,3) by (auto simp: Cons p csv_items_def)
      ultimately show ?thesis using fs(4) by (intro exI [of _ "(csv', acc @ [(field_bytes f, ?code)], ?code)"] exI [of _ "Suc (length fs')"]) (simp add: Cons)
    qed
  qed auto
  then show ?thesis unfolding csv_file_def by (auto split: if_splits)
qed

section \<open>What the callers see\<close>

text \<open>C30: The buffer does not matter: whatever its length (two bytes or more), the pieces of a field put together are the field
  \<open>csv_scan\<close> finds at the front of the text, with the code that ends it, and skipping the field gives the same code;
  both leave the reader at the field after it.\<close>

theorem csv_pieces_make_field:
  assumes "csv_at inq saw cs csv" "csv_scan inq saw cs = (f, cd, r)" "2 \<le> len"
  shows "(\<exists>csv' code. csv_whole len csv = ret (csv', f, code) \<and> csv_ends f cd r csv' code)
    \<and> (\<exists>csv' code. csv_clear_field text_getc csv = ret (csv', code) \<and> csv_ends f cd r csv' code)"
  using csv_whole_ok [OF assms] csv_clear_field_ok [OF assms(1,2)] by blast

lemma csv_pieces_make_field_witness:
  "\<exists>csv'. csv_whole 3 (csv_init [34, 97, 44, 98, 34, 99, 44, 100]) = ret (csv', [97, 44, 98, 99], CSV_FLD) \<and> csv_at False False [100] csv'"
proof -
  have "csv_scan False False [34, 97, 44, 98, 34, 99, 44, 100] = ([97, 44, 98, 99], CSV_FLD, Some [100])" by simp
  from csv_pieces_make_field [OF csv_at_init this, of 3] show ?thesis by (auto simp: csv_ends_def csv_at_def)
qed

text \<open>C24: A text made of fields, each ended by a comma or a newline, reads back as the fields' bytes with the codes of their ends, and then
  the end of the text.  A field is a sequence of plain bytes, quotations without a quotation mark, and marks written twice
  outside of quotations; every string of bytes can be written so (lemma \<open>field_any\<close>).  Two quotations side by side are read as one, so a mark
  written twice inside a quotation is lost.\<close>

theorem csv_reads_back:
  assumes "\<forall>(f, d) \<in> set doc. field_ok f \<and> (d = 44 \<or> d = 10)" "2 \<le> len"
  shows "\<exists>csv'. csv_file len (csv_init (csv_text doc)) = ret (csv', csv_items doc, CSV_EOF)"
  using csv_file_ok [OF assms] .

text \<open>The text is the one line \<open>"a""b",x,""""\<close> and its newline.\<close>

lemma csv_reads_back_witness:
  "\<exists>csv'. csv_file 2 (csv_init [34, 97, 34, 34, 98, 34, 44, 120, 44, 34, 34, 34, 34, 10])
    = ret (csv', [([97, 98], CSV_FLD), ([120], CSV_FLD), ([34, 34], CSV_REC)], CSV_EOF)"
proof -
  let ?doc = "[([Quoted [97], Quoted [98]], 44), ([Plain [120]], 44), ([Mark, Mark], 10)]"
  have "\<forall>(f, d) \<in> set ?doc. field_ok f \<and> (d = 44 \<or> d = 10)" by simp
  from csv_reads_back [OF this, of 2] show ?thesis by (simp add: csv_text_def csv_items_def)
qed

end
