(* ===== verification/Grow.thy ===== *)
theory Grow
  imports Mem Csv
begin

text \<open>
  Growing an array in doubling steps (src/grow.c), and the readers of fields and records that use it
  (src/stdcsv.c).  The functions of the C library are parameters: \<open>rea\<close> is \<open>realloc\<close>, with the
  result 0 when it fails.
\<close>

section \<open>Growing an array\<close>

definition grow_size :: "nat \<Rightarrow> nat \<Rightarrow> nat \<Rightarrow> nat run" where
  "grow_size maxmem need newlen =
     while_run (\<lambda>newlen. Ok (newlen < need))
       (\<lambda>newlen. let n = (newlen * 2) mod 2 ^ 64 in ret (if n < newlen \<or> n > maxmem then maxmem else n)) newlen"

text \<open>
  What \<open>agrow\<close> and \<open>mm_agrow\<close> have in common: \<open>resize\<close> is told the new number of items.  The result is the new
  state, \<open>*ptr\<close>, \<open>*lenp\<close> and the return value.
\<close>

definition grow_with :: "(addr \<Rightarrow> nat \<Rightarrow> 'h \<Rightarrow> ('h \<times> addr) run) \<Rightarrow> addr \<Rightarrow> nat \<Rightarrow> nat \<Rightarrow> nat \<Rightarrow> 'h \<Rightarrow> ('h \<times> addr \<times> nat \<times> int) run" where
  "grow_with resize ptr ilen len need h =
     (let maxmem = (2 ^ 64 - 1) div ilen in
      if \<not> (ilen > 0 \<and> (len > 0 \<or> ptr = 0) \<and> len \<le> maxmem) then Some Abort
      else if need > maxmem then ret (h, ptr, len, -1)
      else
        let need = (if need = 0 \<and> len < maxmem then len + 1 else need) in
        if need \<le> len then ret (h, ptr, len, 0)
        else
          let newlen = (if len > 0 then len else if 32 div ilen = 0 then 1 else 32 div ilen) in
          rbind (grow_size maxmem need newlen) (\<lambda>newlen.
          rbind (resize ptr newlen h) (\<lambda>(h, p). if p = 0 then ret (h, ptr, len, -1) else ret (h, p, newlen, 0))))"

definition agrow :: "'h resize_f \<Rightarrow> addr \<Rightarrow> nat \<Rightarrow> nat \<Rightarrow> nat \<Rightarrow> 'h \<Rightarrow> ('h \<times> addr \<times> nat \<times> int) run" where
  "agrow rea ptr ilen len need h = grow_with (\<lambda>p newlen. rea p ((newlen * ilen) mod 2 ^ 64)) ptr ilen len need h"

definition grow :: "'h resize_f \<Rightarrow> addr \<Rightarrow> nat \<Rightarrow> nat \<Rightarrow> 'h \<Rightarrow> ('h \<times> addr \<times> nat \<times> int) run" where
  "grow rea ptr len need h = agrow rea ptr 1 len need h"

text \<open>The size of an item is not part of what is asked for here.\<close>

definition mm_agrow :: "'h memmgr option \<Rightarrow> addr \<Rightarrow> nat \<Rightarrow> nat \<Rightarrow> nat \<Rightarrow> 'h \<Rightarrow> ('h \<times> addr \<times> nat \<times> int) run" where
  "mm_agrow mm ptr ilen len need h = grow_with (mem_resize mm) ptr ilen len need h"

text \<open>\<open>pp\<close> is the address of the caller's pointer variable, and what the function hands on in place of the pointer \<open>p\<close>.\<close>

definition mm_grow :: "'h memmgr option \<Rightarrow> addr \<Rightarrow> addr \<Rightarrow> nat \<Rightarrow> nat \<Rightarrow> 'h \<Rightarrow> ('h \<times> addr \<times> nat \<times> int) run" where
  "mm_grow mm pp p len need h = mm_agrow mm pp 1 len need h"

text \<open>The new length is the old one doubled until it is enough, or all there is.\<close>

lemma grow_size_ok:
  assumes "0 < n" "n \<le> maxmem" "need \<le> maxmem" "maxmem < 2 ^ 64"
  shows "\<exists>r. grow_size maxmem need n = ret r \<and> need \<le> r \<and> r \<le> maxmem \<and> (r = maxmem \<or> (\<exists>k. r = n * 2 ^ k)) \<and> (r = n \<or> r < 2 * need)"
proof -
  let ?b = "\<lambda>newlen. Ok (newlen < need)"
  let ?c = "\<lambda>newlen. let n = (newlen * 2) mod 2 ^ 64 in ret (if n < newlen \<or> n > maxmem then maxmem else n)"
  let ?I = "\<lambda>r. 0 < r \<and> r \<le> maxmem \<and> (r = maxmem \<or> (\<exists>k. r = n * 2 ^ k)) \<and> (r = n \<or> r < 2 * need)"
  have "\<exists>r. while_run ?b ?c n = ret r \<and> ?I r \<and> ?b r = Ok False"
  proof (rule while_run_rule [where f = "\<lambda>r. maxmem - r"])
    show "?I n" using assms by (auto intro: exI [of _ 0])
  next
    fix r assume I: "?I r" "?b r = Ok True"
    then have r: "r < need" "0 < r" "r \<le> maxmem" "r < maxmem" using assms(3) by auto
    then obtain k where k: "r = n * 2 ^ k" using I(1) by auto
    let ?n = "(r * 2) mod 2 ^ 64"
    let ?r = "if ?n < r \<or> ?n > maxmem then maxmem else ?n"
    show "\<exists>r'. ?c r = ret r' \<and> ?I r' \<and> maxmem - r' < maxmem - r"
    proof (cases "r * 2 < 2 ^ 64")
      case True
      then have n: "?n = r * 2" by simp
      have d: "maxmem - r * 2 < maxmem - r" using r by linarith
      have "\<exists>k. r * 2 = n * 2 ^ k" by (rule exI [of _ "Suc k"]) (simp add: k)
      then have "?I ?r" unfolding n using r by simp
      then show ?thesis using d r unfolding n Let_def by (intro exI [of _ "if r * 2 < r \<or> r * 2 > maxmem then maxmem else r * 2"]) simp
    next
      case False
      have "r * 2 - 2 ^ 64 < 2 ^ 64" "r * 2 - 2 ^ 64 < r" using r(3) assms(4) False by linarith+
      then have "?n < r" using False by (simp add: le_mod_geq)
      then show ?thesis using r False assms(4) by (intro exI [of _ maxmem]) (auto simp: Let_def)
    qed
  qed auto
  then show ?thesis unfolding grow_size_def by auto
qed

text \<open>C36: Growing an array of \<open>len\<close> items of \<open>ilen\<close> bytes to at least \<open>need\<close> items asks \<open>realloc\<close> for \<open>newlen * ilen\<close> bytes with no
  overflow, where \<open>newlen\<close> is at least \<open>need\<close> and either the greatest length there is or the old one (32 bytes for an empty array)
  doubled as often as needed and no more; if \<open>realloc\<close> fails, pointer and length are what they were.\<close>

theorem agrow_doubles:
  assumes "0 < ilen" "ilen < 2 ^ 64" "len \<le> (2 ^ 64 - 1) div ilen" "0 < len \<or> ptr = 0" "len < need" "need \<le> (2 ^ 64 - 1) div ilen"
  shows "\<exists>newlen start. agrow rea ptr ilen len need h = rbind (rea ptr (newlen * ilen) h) (\<lambda>(h, p). if p = 0 then ret (h, ptr, len, -1) else ret (h, p, newlen, 0))
    \<and> need \<le> newlen \<and> newlen * ilen < 2 ^ 64 \<and> start = (if 0 < len then len else max 1 (32 div ilen))
    \<and> (newlen = (2 ^ 64 - 1) div ilen \<or> (\<exists>k. newlen = start * 2 ^ k)) \<and> (newlen = start \<or> newlen < 2 * need)"
proof -
  let ?m = "(2 ^ 64 - 1) div ilen" and ?s = "if 0 < len then len else max 1 (32 div ilen)"
  have s: "?s = (if len > 0 then len else if 32 div ilen = 0 then 1 else 32 div ilen)" by auto
  have "1 \<le> ?m" using assms(1,2) div_le_mono [of ilen "2 ^ 64 - 1" ilen] by simp
  moreover have "32 div ilen \<le> ?m" by (rule div_le_mono) simp
  ultimately have b: "0 < ?s" "?s \<le> ?m" using assms(3) by auto
  have "?m \<le> 2 ^ 64 - 1" by simp
  then have "?m < 2 ^ 64" by (rule le_less_trans) simp
  then obtain r where r: "grow_size ?m need ?s = ret r" "need \<le> r" "r \<le> ?m" "r = ?m \<or> (\<exists>k. r = ?s * 2 ^ k)" "r = ?s \<or> r < 2 * need"
    using grow_size_ok [OF b assms(6)] by blast
  have "r * ilen \<le> ?m * ilen" using r(3) by (rule mult_right_mono) simp
  also have "\<dots> \<le> 2 ^ 64 - 1" by (rule div_times_less_eq_dividend)
  finally have o: "r * ilen < 2 ^ 64" by (rule le_less_trans) simp
  have "agrow rea ptr ilen len need h = rbind (rea ptr (r * ilen) h) (\<lambda>(h, p). if p = 0 then ret (h, ptr, len, -1) else ret (h, p, r, 0))"
    using assms r(1) o by (simp add: agrow_def grow_with_def Let_def flip: s)
  then show ?thesis using r(2,4,5) o by blast
qed

lemma agrow_doubles_witness:
  "\<exists>newlen. agrow (\<lambda>p n h. ret (h, 7)) 5 4 10 25 () = ret ((), 7, newlen, 0) \<and> 25 \<le> newlen \<and> newlen < 50"
proof -
  have m: "(2 ^ 64 - 1 :: nat) div 4 = 4611686018427387903" by simp
  obtain newlen start :: nat where n: "agrow (\<lambda>p n h. ret (h, 7)) 5 4 10 25 () = ret ((), 7, newlen, 0)" "25 \<le> newlen" "start = 10"
    "newlen = start \<or> newlen < 2 * 25" using agrow_doubles [of 4 10 5 25 "\<lambda>p n h. ret (h, 7)" "()"] by (auto simp: m)
  then show ?thesis by auto
qed

section \<open>Fields in memory\<close>

text \<open>
  \<open>std\<close> is the manager of the C library's heap, and \<open>bp\<close> the address of the local variable of that name.
  The result is the new state, \<open>*res\<close> if it was stored, and the code.  At the end of the text
  \<open>csv_next\<close> stores no count and \<open>t\<close> is not initialised; the sum with it is 0 more here, and is not used.
\<close>

definition read_piece :: "('s \<Rightarrow> int \<times> 's) \<Rightarrow> addr \<Rightarrow> 's csv_state \<times> blocks \<Rightarrow> addr \<Rightarrow> nat \<Rightarrow> nat \<Rightarrow> (('s csv_state \<times> blocks) \<times> addr \<times> nat \<times> nat \<times> csv_code) run" where
  "read_piece getc bp = (\<lambda>(csv, h) s slen soff.
     case h s of None \<Rightarrow> Some Fault | Some b \<Rightarrow>
       rbind (csv_next getc csv (Some (drop soff b)) (slen - soff)) (\<lambda>(csv, buf, code, t).
         ret ((csv, h(s \<mapsto> take soff b @ the buf)), s, slen, soff + (case t of None \<Rightarrow> 0 | Some t \<Rightarrow> t), code)))"

text \<open>A turn of the loop of \<open>csv_read_field\<close>.\<close>

definition read_turn :: "('s \<Rightarrow> int \<times> 's) \<Rightarrow> blocks memmgr \<Rightarrow> addr \<Rightarrow> ('s csv_state \<times> blocks) \<times> addr \<times> nat \<times> nat \<times> csv_code
    \<Rightarrow> (('s csv_state \<times> blocks) \<times> addr \<times> nat \<times> nat \<times> csv_code) run" where
  "read_turn getc std bp = (\<lambda>((csv, h), s, slen, soff, code).
     if \<not> (slen + 2) mod 2 ^ 64 > slen then Some Abort
     else if soff > slen - 2 then
       rbind (mm_grow (Some std) bp s slen (slen + 2) h) (\<lambda>(h, p, slen, rv).
         if rv < 0 then ret ((csv, h), s, slen, soff, CSV_ERR) else read_piece getc bp (csv, h) p slen soff)
     else read_piece getc bp (csv, h) s slen soff)"

definition csv_read_field :: "('s \<Rightarrow> int \<times> 's) \<Rightarrow> blocks memmgr \<Rightarrow> addr \<Rightarrow> 's csv_state \<times> blocks \<Rightarrow> (('s csv_state \<times> blocks) \<times> addr option \<times> csv_code) run" where
  "csv_read_field getc std bp = (\<lambda>(csv, h).
     rbind (mem_get (Some std) 32 h) (\<lambda>(h, s).
       if s = 0 then ret ((csv, h), None, CSV_ERR)
       else
         rbind (while_run (\<lambda>(st, s, slen, soff, code). Ok (code = CSV_CNT)) (read_turn getc std bp) ((csv, h), s, 32, 0, CSV_CNT))
           (\<lambda>((csv, h), s, slen, soff, code).
             if code \<noteq> CSV_ERR then ret ((csv, h), Some s, code)
             else rbind (mem_free (Some std) s h) (\<lambda>h. ret ((csv, h), None, code)))))"

text \<open>
  A record is the list of its fields and the address of the array that holds it.  The result is
  the state, the record if one was stored in \<open>*cr\<close>, and the code.
\<close>

type_synonym csv_record = "addr list \<times> addr"

definition csv_read_rec :: "('s \<Rightarrow> int \<times> 's) \<Rightarrow> blocks memmgr \<Rightarrow> addr \<Rightarrow> 's csv_state \<times> blocks \<Rightarrow> (('s csv_state \<times> blocks) \<times> csv_record option \<times> csv_code) run" where
  "csv_read_rec getc std bp = (\<lambda>(csv, h).
     rbind (mem_get (Some std) (8 * 8) h) (\<lambda>(h, arr).
       if arr = 0 then ret ((csv, h), None, CSV_ERR)
       else
         rbind (while_run (\<lambda>(st, arr, fs, nf, rsz, code, brk). Ok (\<not> brk \<and> code \<noteq> CSV_REC \<and> code \<noteq> CSV_EOF))
             (\<lambda>(st, arr, fs, nf, rsz, code, brk).
                rbind (csv_read_field getc std bp st) (\<lambda>((csv, h), field, code).
                  if code = CSV_ERR then ret ((csv, h), arr, fs, nf, rsz, code, True)
                  else if code \<noteq> CSV_EOF then ret ((csv, h), arr, fs, nf, rsz, code, True)
                  else
                    rbind (if nf = rsz then mm_grow (Some std) bp arr (rsz * 8) (rsz * 8 + 8) h else ret (h, arr, rsz * 8, 0)) (\<lambda>(h, p, size, rv).
                      if rv < 0 then ret ((csv, h), arr, fs, nf, rsz, CSV_ERR, True)
                      else ret ((csv, h), p, fs @ [the field], nf + 2, size div 8, code, False))))
             ((csv, h), arr, [], 0 :: nat, 8, CSV_OK, False)) (\<lambda>((csv, h), arr, fs, nf, rsz, code, brk).
           if code = CSV_ERR then
             rbind (for_run fs (mem_free (Some std)) h) (\<lambda>h. rbind (mem_free (Some std) arr h) (\<lambda>h. ret ((csv, h), None, CSV_ERR)))
           else if code = CSV_EOF then (if nf = 0 then ret ((csv, h), None, CSV_EOF) else Some Abort)
           else ret ((csv, h), Some (take nf fs, arr), CSV_REC))))"

definition csv_free_rec :: "blocks memmgr \<Rightarrow> csv_record \<Rightarrow> blocks \<Rightarrow> (blocks \<times> csv_record) run" where
  "csv_free_rec std = (\<lambda>(fs, arr) h.
     rbind (for_run fs (mem_free (Some std)) h) (\<lambda>h. rbind (mem_free (Some std) arr h) (\<lambda>h. ret (h, ([], 0)))))"

lemma csv_read_piece:
  assumes "csv_at inq saw cs csv" "csv_scan inq saw cs = (f, cd, r)" "h s = Some b" "length b = 32"
  shows "length f < 32 \<Longrightarrow> \<exists>csv' code soff. csv_ends f cd r csv' code \<and>
      read_piece text_getc bp (csv, h) s 32 0 = ret ((csv', h(s \<mapsto> if code = CSV_EOF then b else f @ 0 # drop (Suc (length f)) b)), s, 32, soff, code)"
    and "\<not> length f < 32 \<Longrightarrow> \<exists>csv' h'. read_piece text_getc bp (csv, h) s 32 0 = ret ((csv', h'), s, 32, 31, CSV_CNT) \<and> dom h' = dom h"
proof -
  note nx = csv_next_ok [OF assms(1,2), of 32 b]
  {
    assume "length f < 32"
    then obtain csv' code where "csv_ends f cd r csv' code"
      "csv_next text_getc csv (Some b) 32 = ret (csv', Some (if code = CSV_EOF then b else f @ 0 # drop (Suc (length f)) b), code,
        if code = CSV_EOF then None else Some (length f))" using nx(1) assms(4) by auto
    then show "\<exists>csv' code soff. csv_ends f cd r csv' code \<and>
      read_piece text_getc bp (csv, h) s 32 0 = ret ((csv', h(s \<mapsto> if code = CSV_EOF then b else f @ 0 # drop (Suc (length f)) b)), s, 32, soff, code)"
      using assms(3) by (auto simp: read_piece_def)
  next
    assume "\<not> length f < 32"
    then obtain csv' b' where "csv_next text_getc csv (Some b) 32 = ret (csv', Some b', CSV_CNT, Some 31)" using nx(2) assms(4) by auto
    then show "\<exists>csv' h'. read_piece text_getc bp (csv, h) s 32 0 = ret ((csv', h'), s, 32, 31, CSV_CNT) \<and> dom h' = dom h"
      using assms(3) by (auto simp: read_piece_def)
  }
qed

lemma csv_grow_faults:
  assumes "bp \<noteq> 0" "h bp = None"
  shows "mm_grow (Some (stdmm m)) bp s 32 34 h = Some Fault"
proof -
  obtain r where r: "grow_size (2 ^ 64 - 1) 34 32 = ret r" "34 \<le> r" using grow_size_ok [of 32 "2 ^ 64 - 1" 34] by auto
  have e: "(2 ^ 64 - 1) div 1 = (2 ^ 64 - 1 :: nat)" by simp
  have n: "\<not> (34 :: nat) > 2 ^ 64 - 1" "(32 :: nat) \<le> 2 ^ 64 - 1" by simp_all
  have "mm_grow (Some (stdmm m)) bp s 32 34 h
      = rbind (grow_size (2 ^ 64 - 1) 34 32) (\<lambda>n. rbind (mem_resize (Some (stdmm m)) bp n h) (\<lambda>(h, p). if p = 0 then ret (h, bp, 32, -1) else ret (h, p, n, 0)))"
    unfolding mm_grow_def mm_agrow_def grow_with_def e Let_def using n by (simp del: power_numeral)
  also have "\<dots> = Some Fault" unfolding r(1) using r(2) assms by (simp add: mem_resize_def stdmm_def std_resize_def)
  finally show ?thesis .
qed

lemma csv_read_field_cases:
  assumes "malloc_ok m" "m 32 h = Some (s, b)" "csv_at inq saw cs csv" "csv_scan inq saw cs = (f, cd, r)" "bp \<noteq> 0" "bp \<notin> dom h" "bp \<noteq> s"
  shows "if length f < 32
    then \<exists>csv' code. csv_ends f cd r csv' code
      \<and> csv_read_field text_getc (stdmm m) bp (csv, h) = ret ((csv', h(s \<mapsto> if code = CSV_EOF then b else f @ 0 # drop (Suc (length f)) b)), Some s, code)
    else csv_read_field text_getc (stdmm m) bp (csv, h) = Some Fault"
proof -
  have s: "s \<noteq> 0" "length b = 32" using assms(1,2) by (auto simp: malloc_ok_def)
  let ?h = "h(s \<mapsto> b)"
  have get: "mem_get (Some (stdmm m)) 32 h = ret (?h, s)" using assms(2) by (simp add: mem_get_def stdmm_def std_alloc_def)
  let ?b = "\<lambda>(st, s, slen, soff, code). Ok (code = CSV_CNT)" and ?c = "read_turn text_getc (stdmm m) bp"
  have first: "?c ((csv, ?h), s, 32, 0, CSV_CNT) = read_piece text_getc bp (csv, ?h) s 32 0" by (simp add: read_turn_def)
  note p = csv_read_piece [OF assms(3,4), of ?h s b bp]
  show ?thesis
  proof (cases "length f < 32")
    case True
    obtain csv' code soff where c: "csv_ends f cd r csv' code"
      "read_piece text_getc bp (csv, ?h) s 32 0 = ret ((csv', h(s \<mapsto> if code = CSV_EOF then b else f @ 0 # drop (Suc (length f)) b)), s, 32, soff, code)"
      using p(1) True s(2) by auto
    have n: "code \<noteq> CSV_CNT" "code \<noteq> CSV_ERR" using c(1) csv_scan_code [OF assms(4)] by (auto simp: csv_ends_def split: option.splits if_splits)
    let ?h' = "h(s \<mapsto> if code = CSV_EOF then b else f @ 0 # drop (Suc (length f)) b)"
    have "while_run ?b ?c ((csv, ?h), s, 32, 0, CSV_CNT) = while_run ?b ?c ((csv', ?h'), s, 32, soff, code)"
      by (rule while_run_step(1), simp, simp only: first c(2))
    also have "\<dots> = ret ((csv', ?h'), s, 32, soff, code)" by (rule while_run_step(2)) (simp add: n)
    finally have "csv_read_field text_getc (stdmm m) bp (csv, h) = ret ((csv', ?h'), Some s, code)" using get s(1) n by (simp add: csv_read_field_def)
    then show ?thesis using True c(1) by auto
  next
    case False
    obtain csv' h' where c: "read_piece text_getc bp (csv, ?h) s 32 0 = ret ((csv', h'), s, 32, 31, CSV_CNT)" "dom h' = dom ?h"
      using p(2) False s(2) by auto
    have "bp \<notin> dom h'" unfolding c(2) using assms(6,7) by simp
    then have "h' bp = None" by blast
    then have f: "?c ((csv', h'), s, 32, 31, CSV_CNT) = Some Fault" using csv_grow_faults [OF assms(5)] by (simp add: read_turn_def)
    have "while_run ?b ?c ((csv, ?h), s, 32, 0, CSV_CNT) = while_run ?b ?c ((csv', h'), s, 32, 31, CSV_CNT)"
      by (rule while_run_step(1), simp, simp only: first c(1))
    also have "\<dots> = Some Fault" using f by (subst while_run.simps) simp
    finally show ?thesis using False get s(1) by (simp add: csv_read_field_def)
  qed
qed

text \<open>C38: \<open>csv_read_field\<close> reads a field of at most 31 bytes into a new block, with a 0 after it; for a longer field it hands the
  address of its local variable \<open>bp\<close> to \<open>realloc\<close> where it should hand its value, so the call faults.\<close>

theorem csv_read_field_31:
  assumes "malloc_ok m" "m 32 h = Some (s, b)" "csv_at inq saw cs csv" "csv_scan inq saw cs = (f, cd, r)" "bp \<noteq> 0" "bp \<notin> dom h" "bp \<noteq> s"
  shows "if length f < 32
    then \<exists>csv' code. csv_ends f cd r csv' code
      \<and> csv_read_field text_getc (stdmm m) bp (csv, h) = ret ((csv', h(s \<mapsto> if code = CSV_EOF then b else f @ 0 # drop (Suc (length f)) b)), Some s, code)
    else csv_read_field text_getc (stdmm m) bp (csv, h) = Some Fault"
  using csv_read_field_cases [OF assms] .

lemma csv_read_field_31_witness:
  "\<exists>csv'. csv_read_field text_getc (stdmm toy_malloc) 7 (csv_init [97, 10], Map.empty) = ret ((csv', [32 \<mapsto> 97 # 0 # replicate 30 0]), Some 32, CSV_REC)"
proof -
  have sc: "csv_scan False False [97, 10] = ([97], CSV_REC, Some [])" by simp
  have "toy_malloc 32 Map.empty = Some (32, replicate 32 0)" by (simp add: toy_malloc_def)
  from csv_read_field_31 [OF toy_malloc_ok this csv_at_init sc, of 7] show ?thesis by (auto simp: csv_ends_def)
qed

text \<open>\<open>csv_read_rec\<close> never reads a record: it leaves its loop after the first field, which it drops, and reports a record with no
  fields; at the end of the text, where it goes on, an assertion fails.\<close>

theorem csv_read_rec_empty:
  assumes "m 64 h = Some (arr, b)" "arr \<noteq> 0" "csv_read_field getc (stdmm m) bp (csv, h(arr \<mapsto> b)) = ret (st, field, code)" "code \<noteq> CSV_ERR"
  shows "csv_read_rec getc (stdmm m) bp (csv, h) = (if code = CSV_EOF then Some Abort else ret (st, Some ([], arr), CSV_REC))"
proof -
  have get: "mem_get (Some (stdmm m)) 64 h = ret (h(arr \<mapsto> b), arr)" using assms(1) by (simp add: mem_get_def stdmm_def std_alloc_def)
  obtain csv' h' where st: "st = (csv', h')" by (cases st) auto
  show ?thesis using get assms(2-4) by (auto simp: csv_read_rec_def while_run.simps st)
qed

lemma csv_read_rec_empty_witness:
  "\<exists>st. csv_read_rec text_getc (stdmm toy_malloc) 7 (csv_init [97, 44, 98, 10], Map.empty) = ret (st, Some ([], 64), CSV_REC)"
proof -
  have "toy_malloc 64 Map.empty = Some (64, replicate 64 0)" by (simp add: toy_malloc_def)
  moreover have "\<exists>st. csv_read_field text_getc (stdmm toy_malloc) 7 (csv_init [97, 44, 98, 10], [64 \<mapsto> replicate 64 0]) = ret (st, Some 32, CSV_FLD)"
  proof -
    have sc: "csv_scan False False [97, 44, 98, 10] = ([97], CSV_FLD, Some [98, 10])" by simp
    have m: "toy_malloc 32 [64 \<mapsto> replicate 64 0] = Some (32, replicate 32 0)" by (simp add: toy_malloc_def)
    show ?thesis using csv_read_field_cases [OF toy_malloc_ok m csv_at_init sc, of 7] by (auto simp: csv_ends_def dom_def)
  qed
  ultimately show ?thesis using csv_read_rec_empty [of toy_malloc Map.empty 64 "replicate 64 0" text_getc 7 "csv_init [97, 44, 98, 10]"] by auto
qed

end
