(* ===== verification/Pool.thy ===== *)
theory Pool
  imports Mem
begin

text \<open>
  Pools of items of one size (include/cat/pool.h): the free items are the nodes of a list, so the heap of
  list nodes is the memory of the pool, and an item in use is a node the list does not reach.
\<close>

section \<open>The operations\<close>

definition IMAX :: nat where "IMAX = 2 ^ 31 - 1"

text \<open>An item holds at least a list node, of two pointers.\<close>

definition pl_alen :: "int \<Rightarrow> nat" where
  "pl_alen align = (let alen = (if align \<ge> 0 \<and> align < 31 then 2 ^ nat align else 0) in if alen < 16 then 16 else alen)"

definition pl_isiz :: "nat \<Rightarrow> int \<Rightarrow> nat outcome" where
  "pl_isiz siz align =
     abort_unless (siz > 0) (abort_unless (align < 0 \<or> align < 31)
       (let alen = pl_alen align; siz = (if siz < alen then alen else siz); n = siz mod alen in
        if n > 0 then abort_unless (siz \<le> IMAX - (alen - n)) (Ok (siz + (alen - n))) else Ok siz))"

record pool =
  pl_items :: addr
  pl_fill :: nat
  pl_max :: nat

definition pl_init :: "addr \<Rightarrow> nat \<Rightarrow> int \<Rightarrow> addr \<Rightarrow> nat \<Rightarrow> lheap \<Rightarrow> (pool \<times> lheap) run" where
  "pl_init items siz align mem mlen h =
     (if mem \<noteq> 0 \<and> siz > 0 \<and> (align < 0 \<or> align < 31) \<and> mlen > 0 then
        rbind (Some (pl_isiz siz align)) (\<lambda>siz.
        rbind (Some (l_init items h)) (\<lambda>h.
          let n = mlen div siz in
          if align < 0 \<or> (mem mod 2 ^ 32) mod 2 ^ nat align = 0 then
            rbind (for_run [0..<n] (\<lambda>i h. Some (obind (l_prev h items) (\<lambda>p. l_ins p (mem + i * siz) h))) h) (\<lambda>h.
              ret (\<lparr>pl_items = items, pl_fill = n, pl_max = n\<rparr>, h))
          else Some Abort))
      else Some Abort)"

definition pl_alloc :: "pool \<times> lheap \<Rightarrow> ((pool \<times> lheap) \<times> addr) outcome" where
  "pl_alloc = (\<lambda>(p, h).
     if pl_fill p = 0 then Ok ((p, h), 0)
     else
       let p = p\<lparr>pl_fill := pl_fill p - 1\<rparr>; prev = pl_items p in
       obind (l_next h prev) (\<lambda>lp.
       obind (if lp = 0 then Ok False else obind (l_next h lp) (\<lambda>n. if n = 0 then Ok False else obind (l_prev h n) (\<lambda>q. Ok (q = lp)))) (\<lambda>ok.
       abort_unless ok
         (obind (l_next h lp) (\<lambda>n. obind (set_next prev n h) (\<lambda>h.
          obind (l_next h lp) (\<lambda>n. obind (set_prev n prev h) (\<lambda>h. Ok ((p, h), lp)))))))))"

definition pl_free :: "addr \<Rightarrow> pool \<times> lheap \<Rightarrow> (pool \<times> lheap) outcome" where
  "pl_free item = (\<lambda>(p, h).
     abort_unless (item \<noteq> 0) (obind (l_ins (pl_items p) item h) (\<lambda>h. Ok (p\<lparr>pl_fill := pl_fill p + 1\<rparr>, h))))"

section \<open>A pool and its items\<close>

text \<open>
  \<open>pool_live\<close>: the \<open>k\<close> items of \<open>siz\<close> bytes from \<open>mem\<close> are on the list or in use, and not both.
\<close>

definition slots_of :: "addr \<Rightarrow> nat \<Rightarrow> nat \<Rightarrow> addr set" where
  "slots_of mem siz k = (\<lambda>i. mem + i * siz) ` {..<k}"

definition pool_live :: "addr \<Rightarrow> addr \<Rightarrow> nat \<Rightarrow> nat \<Rightarrow> pool \<times> lheap \<Rightarrow> addr set \<Rightarrow> bool" where
  "pool_live items mem siz k = (\<lambda>(p, h) A. 0 < mem \<and> 0 < siz \<and> pl_items p = items \<and> pl_max p = k \<and> items \<notin> slots_of mem siz k
     \<and> (\<exists>xs. ring h items xs \<and> set xs \<inter> A = {} \<and> set xs \<union> A = slots_of mem siz k \<and> pl_fill p = length xs) \<and> (\<forall>a \<in> A. node h a))"

lemma slots_clear: "a \<in> slots_of mem siz k \<Longrightarrow> b \<in> slots_of mem siz k \<Longrightarrow> a \<noteq> b \<Longrightarrow> m \<le> siz \<Longrightarrow> n \<le> siz \<Longrightarrow> clear_of (a, m) (b, n)"
proof -
  assume a: "a \<in> slots_of mem siz k" "b \<in> slots_of mem siz k" "a \<noteq> b" "m \<le> siz" "n \<le> siz"
  then obtain i j where ij: "a = mem + i * siz" "b = mem + j * siz" "i \<noteq> j" by (auto simp: slots_of_def)
  then consider "Suc i \<le> j" | "Suc j \<le> i" by linarith
  then show "clear_of (a, m) (b, n)"
  proof cases
    case 1
    then have "Suc i * siz \<le> j * siz" by (rule mult_right_mono) simp
    then show ?thesis using ij a(4) by (simp add: clear_of_def)
  next
    case 2
    then have "Suc j * siz \<le> i * siz" by (rule mult_right_mono) simp
    then show ?thesis using ij a(5) by (simp add: clear_of_def)
  qed
qed

lemma slots_in: "a \<in> slots_of mem siz k \<Longrightarrow> mem \<le> a \<and> a + siz \<le> mem + k * siz"
proof -
  assume "a \<in> slots_of mem siz k"
  then obtain i where i: "a = mem + i * siz" "i < k" by (auto simp: slots_of_def)
  then have "Suc i * siz \<le> k * siz" by (intro mult_right_mono) auto
  then show ?thesis using i(1) by simp
qed

text \<open>The size of an item is the least multiple of the alignment that is enough.\<close>

lemma pl_isiz_ok:
  assumes "pl_isiz siz align = Ok n"
  shows "siz \<le> n" "16 \<le> n" "align \<ge> 0 \<Longrightarrow> 2 ^ nat align dvd n"
proof -
  have a: "0 < siz" "align < 0 \<or> align < 31" using assms by (auto simp: pl_isiz_def abort_unless_eq_Ok)
  define al where "al = pl_alen align"
  define sz where "sz = (if siz < al then al else siz)"
  have "(if sz mod al > 0 then abort_unless (sz \<le> IMAX - (al - sz mod al)) (Ok (sz + (al - sz mod al))) else Ok sz) = Ok n"
    using assms a unfolding pl_isiz_def Let_def al_def sz_def by simp
  then have n: "n = (if sz mod al > 0 then sz + (al - sz mod al) else sz)" by (simp add: abort_unless_eq_Ok split: if_splits)
  have al: "16 \<le> al" by (simp add: al_def pl_alen_def Let_def)
  show "siz \<le> n" by (simp add: n sz_def)
  have "al \<le> sz" "sz \<le> n" by (simp_all add: sz_def n)
  then show "16 \<le> n" using al by simp
  have d: "sz div al * al + sz mod al = sz" "sz mod al < al" using al by (auto simp: div_mult_mod_eq)
  have "n = (if sz mod al > 0 then (sz div al + 1) * al else sz div al * al)" unfolding n add_mult_distrib mult_1 using d by (cases "sz mod al > 0"; simp only: if_True if_False; linarith)
  then have "al dvd n" by simp
  moreover have "2 ^ nat align dvd al" if g: "align \<ge> 0"
  proof (cases "(2 :: nat) ^ nat align < 16")
    case True
    then have "(2 :: nat) ^ nat align < 2 ^ 4" by simp
    then have "nat align < 4" by (simp only: power_strict_increasing_iff)
    then have "(2 :: nat) ^ nat align dvd 2 ^ 4" by (intro le_imp_power_dvd) simp
    then show ?thesis using True a(2) g by (simp add: al_def pl_alen_def)
  qed (use a(2) g in \<open>simp add: al_def pl_alen_def Let_def\<close>)
  ultimately show "align \<ge> 0 \<Longrightarrow> 2 ^ nat align dvd n" using dvd_trans by blast
qed

text \<open>Taking an item from the list, and putting one back.\<close>

lemma ring_unlink:
  assumes "ring h l (x # ys)"
  shows "ring (up (nx h x) l (un l (nx h x) h)) l ys"
proof (cases ys)
  case Nil
  then show ?thesis using assms by (auto simp: ring_Nil ring_Cons heap_simps node_nz)
next
  case (Cons y zs)
  have d: "nx h x = y" "y \<noteq> l" "y \<notin> set zs" "l \<notin> set zs" using assms by (auto simp: Cons ring_def)
  have "seg (up y l (un l y h)) y zs l \<longleftrightarrow> seg h y zs l" by (rule seg_frame) (use d in \<open>auto simp: heap_simps\<close>)
  then show ?thesis using assms d by (auto simp: Cons ring_def heap_simps node_nz)
qed

lemma pl_alloc_ok:
  assumes "pool_live items mem siz k (p, h) A"
  shows "\<exists>p' h' a. pl_alloc (p, h) = Ok ((p', h'), a) \<and>
    (if a = 0 then A = slots_of mem siz k \<and> p' = p \<and> h' = h
     else a \<in> slots_of mem siz k - A \<and> pool_live items mem siz k (p', h') (insert a A))"
proof -
  obtain xs where xs: "ring h items xs" "set xs \<inter> A = {}" "set xs \<union> A = slots_of mem siz k" "pl_fill p = length xs"
    and p: "0 < mem" "0 < siz" "pl_items p = items" "pl_max p = k" "items \<notin> slots_of mem siz k" "\<forall>a \<in> A. node h a"
    using assms by (auto simp: pool_live_def)
  show ?thesis
  proof (cases xs)
    case Nil
    then show ?thesis using xs by (auto simp: pl_alloc_def)
  next
    case (Cons x ys)
    have d: "x \<noteq> items" "x \<notin> set ys" "node h x" "node h items" "nx h items = x" "pv h x = items" "x \<noteq> 0" "0 < items"
      using xs(1) by (auto simp: Cons ring_def node_nz)
    let ?n = "nx h x"
    let ?h = "up ?n items (un items ?n h)"
    have n: "?n = hd (ys @ [items])" "node h ?n" "pv h ?n = x" "?n \<noteq> 0" "?n \<noteq> x"
      using xs(1) d(1,2) by (cases ys; auto simp: Cons ring_def node_nz)+
    have run: "pl_alloc (p, h) = Ok ((p\<lparr>pl_fill := length ys\<rparr>, ?h), x)"
      using d n xs(4) p(3) by (simp add: pl_alloc_def heap_simps Cons)
    have r: "ring ?h items ys" using ring_unlink xs(1) by (simp add: Cons)
    have x: "x \<in> slots_of mem siz k - A" using xs(2,3) by (auto simp: Cons)
    have nd: "node ?h a" if "node h a" for a using that by (simp add: heap_simps)
    have "pool_live items mem siz k (p\<lparr>pl_fill := length ys\<rparr>, ?h) (insert x A)"
      using p r xs(2,3) d(2,3) nd by (auto simp: pool_live_def Cons intro!: exI [of _ ys])
    then show ?thesis using run x d(7) by (intro exI [of _ "p\<lparr>pl_fill := length ys\<rparr>"] exI [of _ ?h] exI [of _ x]) simp
  qed
qed

lemma pl_free_ok:
  assumes "pool_live items mem siz k (p, h) A" "a \<in> A"
  shows "\<exists>p' h'. pl_free a (p, h) = Ok (p', h') \<and> pool_live items mem siz k (p', h') (A - {a})"
proof -
  obtain xs where xs: "ring h items xs" "set xs \<inter> A = {}" "set xs \<union> A = slots_of mem siz k" "pl_fill p = length xs"
    and p: "0 < mem" "0 < siz" "pl_items p = items" "pl_max p = k" "items \<notin> slots_of mem siz k" "\<forall>a \<in> A. node h a"
    using assms by (auto simp: pool_live_def)
  have "a \<notin> set (items # xs)" using assms(2) xs(2,3) p(5) by auto
  then obtain h' where h': "l_ins items a h = Ok h'" "ring h' items (a # xs)" "\<forall>b. b \<notin> set (items # a # xs) \<longrightarrow> h' b = h b"
    using l_ins_head [OF xs(1)] p(6) assms(2) by blast
  have nd: "node h' b" if "b \<in> A - {a}" for b
  proof -
    have "b \<notin> set (items # a # xs)" using that xs(2,3) p(5) by auto
    then show ?thesis using h'(3) p(6) that by (auto simp: node_def)
  qed
  have "a \<noteq> 0" using p(6) assms(2) by (auto simp: node_def)
  then have "pl_free a (p, h) = Ok (p\<lparr>pl_fill := pl_fill p + 1\<rparr>, h')" using h'(1) p(3) by (simp add: pl_free_def)
  moreover have "pool_live items mem siz k (p\<lparr>pl_fill := pl_fill p + 1\<rparr>, h') (A - {a})"
    using p h'(2) xs nd assms(2) by (auto simp: pool_live_def intro!: exI [of _ "a # xs"])
  ultimately show ?thesis by blast
qed

text \<open>A new pool has all its items on the list, in the order of their addresses.\<close>

lemma pl_init_ok:
  assumes "0 < mem" "0 < mlen" "pl_isiz siz align = Ok n" "align \<ge> 0 \<longrightarrow> (mem mod 2 ^ 32) mod 2 ^ nat align = 0"
    and "\<forall>a \<in> insert items (slots_of mem n (mlen div n)). node h a" "items \<notin> slots_of mem n (mlen div n)"
  shows "\<exists>p h'. pl_init items siz align mem mlen h = ret (p, h') \<and> pool_live items mem n (mlen div n) (p, h') {}"
proof -
  let ?k = "mlen div n" and ?s = "\<lambda>i. mem + i * n"
  have a: "0 < siz" "align < 0 \<or> align < 31" using assms(3) by (auto simp: pl_isiz_def abort_unless_eq_Ok)
  have n: "0 < n" using pl_isiz_ok(1) [OF assms(3)] a(1) by simp
  let ?h = "un items items (up items items h)"
  have i: "l_init items h = Ok ?h" "ring ?h items []" "node ?h = node h"
    using assms(5) by (auto simp: l_init_def ring_Nil heap_simps node_nz fun_eq_iff)
  let ?step = "\<lambda>i h. Some (obind (l_prev h items) (\<lambda>p. l_ins p (?s i) h))"
  let ?I = "\<lambda>i h'. ring h' items (map ?s [0..<i]) \<and> (\<forall>a \<in> slots_of mem n ?k. node h' a)"
  have "\<exists>h'. for_run [0..<?k] ?step ?h = ret h' \<and> ?I ?k h'"
  proof (rule for_run_upt [where I = ?I])
    show "?I 0 ?h" using i(2,3) assms(5) by auto
  next
    fix j h' assume j: "0 \<le> j" "j < ?k" "?I j h'"
    let ?xs = "map ?s [0..<j]"
    have s: "items # ?xs = butlast (items # ?xs) @ last (items # ?xs) # []" by (metis append_butlast_last_id list.discI)
    have sj: "?s j \<in> slots_of mem n ?k" using j(2) by (auto simp: slots_of_def)
    have ne: "?s j \<notin> set (items # ?xs)" using sj assms(6) n by auto
    obtain h'' where h: "l_ins (last (items # ?xs)) (?s j) h' = Ok h''" "ring h'' items (tl (butlast (items # ?xs) @ last (items # ?xs) # ?s j # []))"
      "\<forall>a. a \<notin> set (items # ?s j # ?xs) \<longrightarrow> h'' a = h' a"
      using l_ins_ring [OF _ s ne] j(3) sj by blast
    have t: "tl (butlast (items # ?xs) @ last (items # ?xs) # ?s j # []) = ?xs @ [?s j]"
      by (metis append_Cons append_butlast_last_id append_assoc list.discI list.sel(3) self_append_conv2)
    have "l_prev h' items = Ok (last (items # ?xs))" using ring_ends(2,3) [of h' items ?xs] j(3) by (simp only: heap_simps)
    moreover have "\<forall>a \<in> slots_of mem n ?k. node h'' a"
    proof
      fix a assume "a \<in> slots_of mem n ?k"
      then have "node h' a" using j(3) by blast
      then show "node h'' a" using h(2,3) unfolding t by (cases "a \<in> set (items # ?s j # ?xs)") (auto simp: ring_def node_def)
    qed
    ultimately show "\<exists>h''. ?step j h' = ret h'' \<and> ?I (Suc j) h''" using h(1,2) unfolding t by (auto simp del: last.simps)
  qed simp
  then obtain h' where h': "for_run [0..<?k] ?step ?h = ret h'" "?I ?k h'" by blast
  have "pl_init items siz align mem mlen h = ret (\<lparr>pl_items = items, pl_fill = ?k, pl_max = ?k\<rparr>, h')"
    using assms(1-4) a i(1) h'(1) by (auto simp: pl_init_def Let_def)
  moreover have "pool_live items mem n ?k (\<lparr>pl_items = items, pl_fill = ?k, pl_max = ?k\<rparr>, h') {}"
    using h'(2) assms(1,6) n by (auto simp: pool_live_def slots_of_def intro!: exI [of _ "map ?s [0..<?k]"])
  ultimately show ?thesis by blast
qed

section \<open>A pool as an allocator\<close>

text \<open>The extents in use: one for each item, of the length its user asked for.\<close>

definition pool_ext :: "addr \<Rightarrow> addr \<Rightarrow> nat \<Rightarrow> nat \<Rightarrow> pool \<times> lheap \<Rightarrow> extent set \<Rightarrow> bool" where
  "pool_ext items mem siz k s B \<longleftrightarrow> pool_live items mem siz k s (fst ` B) \<and> inj_on fst B \<and> (\<forall>(a, n) \<in> B. 0 < n \<and> n \<le> siz)"

lemma for_run_map: "for_run (map g xs) c s = for_run xs (\<lambda>x. c (g x)) s"
proof (induction xs arbitrary: s)
  case (Cons x xs)
  then have "for_run (map g xs) c = for_run xs (\<lambda>x. c (g x))" by blast
  then show ?case by simp
qed simp

lemma tagged_nonzero: "(\<lambda>a. (a, n)) ` (A - {0 :: addr}) = {e \<in> (\<lambda>a. (a, n)) ` A. fst e \<noteq> 0}"
  by force

lemma pool_slots: "pool_live items mem siz k s A \<Longrightarrow> A \<subseteq> slots_of mem siz k"
  by (auto simp: pool_live_def)

text \<open>As long as not all items are in use, a request gets one.\<close>

lemma slots_card: "0 < siz \<Longrightarrow> finite (slots_of mem siz k) \<and> card (slots_of mem siz k) = k"
  unfolding slots_of_def by (subst card_image) (auto simp: inj_on_def)

lemma pl_seq_some:
  assumes "pool_live items mem siz k s A" "alloc_seq (\<lambda>n s. Some (pl_alloc s)) ns s = ret (s', as)" "i < length ns" "card A + i < k"
  shows "as ! i \<noteq> 0"
  using assms
proof (induction ns arbitrary: s A as i)
  case (Cons n ns)
  obtain p h where s: "s = (p, h)" by (cases s)
  have siz: "0 < siz" using Cons.prems(1) by (auto simp: pool_live_def)
  obtain s1 a where a: "pl_alloc s = Ok (s1, a)" "if a = 0 then A = slots_of mem siz k else a \<notin> A \<and> pool_live items mem siz k s1 (insert a A)"
    using pl_alloc_ok [OF Cons.prems(1) [unfolded s]] unfolding s by (fastforce split: if_splits)
  have nz: "a \<noteq> 0" using a(2) Cons.prems(4) slots_card [OF siz, of mem k] by (auto split: if_splits)
  obtain as1 where as: "alloc_seq (\<lambda>n s. Some (pl_alloc s)) ns s1 = ret (s', as1)" "as = a # as1"
    using Cons.prems(2) unfolding alloc_seq.simps a(1) by (auto simp: rbind_eq_ret)
  have fin: "finite A" using pool_slots [OF Cons.prems(1)] slots_card [OF siz] finite_subset by blast
  show ?case
  proof (cases i)
    case 0
    then show ?thesis using nz as(2) by simp
  next
    case (Suc j)
    have "as1 ! j \<noteq> 0" by (rule Cons.IH [OF _ as(1), of "insert a A"]) (use a(2) nz fin Cons.prems(3,4) Suc in auto)
    then show ?thesis using as(2) Suc by simp
  qed
qed simp

interpretation pools: free_allocator "pool_ext items mem siz k" "\<lambda>n s. Some (pl_alloc s)" "(mem, k * siz)" siz "\<lambda>a s. Some (pl_free a s)"
  for items mem siz k
proof
  fix s B and n :: nat assume l: "pool_ext items mem siz k s B" "0 < n" "n \<le> siz"
  obtain p h where s: "s = (p, h)" by (cases s)
  have live: "pool_live items mem siz k (p, h) (fst ` B)" and e: "inj_on fst B" "\<forall>(a, n) \<in> B. 0 < n \<and> n \<le> siz" using l(1) by (auto simp: pool_ext_def s)
  obtain p' h' a where a: "pl_alloc (p, h) = Ok ((p', h'), a)" "if a = 0 then fst ` B = slots_of mem siz k \<and> p' = p \<and> h' = h
     else a \<in> slots_of mem siz k - fst ` B \<and> pool_live items mem siz k (p', h') (insert a (fst ` B))" using pl_alloc_ok [OF live] by blast
  show "\<exists>s' a. Some (pl_alloc s) = ret (s', a) \<and>
      (if a = 0 then pool_ext items mem siz k s' B
       else pool_ext items mem siz k s' (insert (a, n) B) \<and> fst (mem, k * siz) \<le> a \<and> a + n \<le> fst (mem, k * siz) + snd (mem, k * siz) \<and> (\<forall>e \<in> B. clear_of (a, n) e))"
  proof (cases "a = 0")
    case True
    then show ?thesis using a l(1) s by (intro exI [of _ "(p', h')"] exI [of _ 0]) simp
  next
    case False
    then have a': "a \<in> slots_of mem siz k" "a \<notin> fst ` B" "pool_live items mem siz k (p', h') (insert a (fst ` B))" using a(2) by auto
    have "clear_of (a, n) e" if "e \<in> B" for e
      using slots_clear [OF a'(1), of "fst e" n "snd e"] that e(2) pool_slots [OF live] a'(2) l(3) by fastforce
    moreover have "pool_ext items mem siz k (p', h') (insert (a, n) B)" using a'(2,3) e l(2,3) by (auto simp: pool_ext_def)
    ultimately show ?thesis using a(1) slots_in [OF a'(1)] l(3) s False by (intro exI [of _ "(p', h')"] exI [of _ a]) simp
  qed
next
  fix s B a and n :: nat assume l: "pool_ext items mem siz k s B" "(a, n) \<in> B"
  obtain p h where s: "s = (p, h)" by (cases s)
  have live: "pool_live items mem siz k (p, h) (fst ` B)" and e: "inj_on fst B" "\<forall>(a, n) \<in> B. 0 < n \<and> n \<le> siz" using l(1) by (auto simp: pool_ext_def s)
  have "a \<in> fst ` B" using l(2) by force
  then obtain p' h' where f: "pl_free a (p, h) = Ok (p', h')" "pool_live items mem siz k (p', h') (fst ` B - {a})" using pl_free_ok [OF live] by blast
  have "fst ` (B - {(a, n)}) = fst ` B - {a}" using inj_on_image_set_diff [OF e(1), of B "{(a, n)}"] l(2) by simp
  then have "pool_ext items mem siz k (p', h') (B - {(a, n)})" using f(2) e by (auto simp: pool_ext_def inj_on_def)
  then show "\<exists>s'. Some (pl_free a s) = ret s' \<and> pool_ext items mem siz k s' (B - {(a, n)})" using f(1) s by blast
qed

text \<open>C25: A new pool over \<open>mlen\<close> bytes hands out \<open>mlen div n\<close> items, where \<open>n\<close> is the rounded size: any run of requests gets
  items that lie inside the memory and do not overlap, NULL only when all are in use, and all of them can be given back in any order.\<close>

theorem pool_items_disjoint:
  assumes "0 < mem" "0 < mlen" "pl_isiz siz align = Ok n" "align \<ge> 0 \<longrightarrow> (mem mod 2 ^ 32) mod 2 ^ nat align = 0"
    and "\<forall>a \<in> insert items (slots_of mem n (mlen div n)). node h a" "items \<notin> slots_of mem n (mlen div n)" "0 < siz" "set ns \<subseteq> {siz}"
  shows "\<exists>s s' as. pl_init items siz align mem mlen h = ret s \<and> alloc_seq (\<lambda>n s. Some (pl_alloc s)) ns s = ret (s', as) \<and> length as = length ns
    \<and> (\<forall>i < length ns. i < mlen div n \<longrightarrow> as ! i \<noteq> 0) \<and> (\<forall>a \<in> set as. a \<noteq> 0 \<longrightarrow> mem \<le> a \<and> a + siz \<le> mem + mlen)
    \<and> (\<forall>i j. i < j \<longrightarrow> j < length ns \<longrightarrow> as ! i \<noteq> 0 \<longrightarrow> as ! j \<noteq> 0 \<longrightarrow> clear_of (as ! i, siz) (as ! j, siz))
    \<and> (\<forall>bs. distinct bs \<longrightarrow> set bs = set as - {0} \<longrightarrow> (\<exists>s''. for_run bs (\<lambda>a s. Some (pl_free a s)) s' = ret s'' \<and> pool_live items mem n (mlen div n) s'' {}))"
proof -
  let ?k = "mlen div n"
  obtain p h' where i: "pl_init items siz align mem mlen h = ret (p, h')" "pool_live items mem n ?k (p, h') {}"
    using pl_init_ok [OF assms(1-6)] by blast
  have ext: "pool_ext items mem n ?k (p, h') {}" using i(2) by (simp add: pool_ext_def)
  have "\<forall>m \<in> set ns. 0 < m \<and> m \<le> n" using assms(7,8) pl_isiz_ok(1) [OF assms(3)] by auto
  from pools.alloc_seq_ok [OF ext this] obtain s' as where as: "alloc_seq (\<lambda>n s. Some (pl_alloc s)) ns (p, h') = ret (s', as)" "length as = length ns"
    "pool_ext items mem n ?k s' {e \<in> set (zip as ns). fst e \<noteq> 0}"
    "\<forall>e \<in> set (zip as ns). fst e \<noteq> 0 \<longrightarrow> mem \<le> fst e \<and> fst e + snd e \<le> mem + ?k * n"
    "\<forall>i j. i < j \<longrightarrow> j < length ns \<longrightarrow> as ! i \<noteq> 0 \<longrightarrow> as ! j \<noteq> 0 \<longrightarrow> clear_of (as ! i, ns ! i) (as ! j, ns ! j)" by auto
  have ns: "ns = replicate (length as) siz" by (rule replicate_eqI) (use assms(8) as(2) in auto)
  have z: "set (zip as ns) = (\<lambda>a. (a, siz)) ` set as" by (subst ns) (simp add: zip_replicate2)
  have kn: "?k * n \<le> mlen" by simp
  have in0: "mem \<le> a \<and> a + siz \<le> mem + mlen" if "a \<in> set as" "a \<noteq> 0" for a
  proof -
    have "mem \<le> a \<and> a + siz \<le> mem + ?k * n" using as(4) that unfolding z by simp
    then show ?thesis using kn by linarith
  qed
  then have in1: "\<forall>a \<in> set as. a \<noteq> 0 \<longrightarrow> mem \<le> a \<and> a + siz \<le> mem + mlen" by blast
  have nth: "ns ! i = siz" if "i < length ns" for i using that as(2) by (subst ns) simp
  have dis: "\<forall>i j. i < j \<longrightarrow> j < length ns \<longrightarrow> as ! i \<noteq> 0 \<longrightarrow> as ! j \<noteq> 0 \<longrightarrow> clear_of (as ! i, siz) (as ! j, siz)"
  proof (intro allI impI)
    fix i j assume a: "i < j" "j < length ns" "as ! i \<noteq> 0" "as ! j \<noteq> 0"
    have "clear_of (as ! i, ns ! i) (as ! j, ns ! j)" by (rule as(5) [rule_format, OF a])
    then show "clear_of (as ! i, siz) (as ! j, siz)" using nth [of i] nth [of j] a(1,2) by simp
  qed
  have rel: "\<exists>s''. for_run bs (\<lambda>a s. Some (pl_free a s)) s' = ret s'' \<and> pool_live items mem n ?k s'' {}" if b: "distinct bs" "set bs = set as - {0}" for bs
  proof -
    have "set (map (\<lambda>a. (a, siz)) bs) = (\<lambda>a. (a, siz)) ` (set as - {0})" by (simp only: set_map b(2))
    also have "\<dots> = {e \<in> set (zip as ns). fst e \<noteq> 0}" unfolding z by (rule tagged_nonzero)
    finally have "set (map (\<lambda>a. (a, siz)) bs) = {e \<in> set (zip as ns). fst e \<noteq> 0}" .
    moreover have "distinct (map (\<lambda>a. (a, siz)) bs)" using b(1) by (simp add: distinct_map inj_on_def)
    ultimately obtain s'' where s: "for_run (map (\<lambda>a. (a, siz)) bs) (\<lambda>e s. Some (pl_free (fst e) s)) s' = ret s''" "pool_ext items mem n ?k s'' {}"
      using pools.release_all [OF as(3)] by blast
    show ?thesis using s unfolding for_run_map by (simp add: pool_ext_def)
  qed
  have "\<forall>i < length ns. i < ?k \<longrightarrow> as ! i \<noteq> 0" using pl_seq_some [OF i(2) as(1)] by simp
  then show ?thesis using i(1) as(1,2) in1 dis rel by blast
qed

lemma pool_items_disjoint_witness:
  "\<exists>s s' a b. pl_init 8 10 (-1) 100 32 (\<lambda>a. Some \<lparr>lnext = 0, lprev = 0\<rparr>) = ret s \<and> alloc_seq (\<lambda>n s. Some (pl_alloc s)) [10, 10] s = ret (s', [a, b])
    \<and> (a \<noteq> 0 \<longrightarrow> b \<noteq> 0 \<longrightarrow> clear_of (a, 10) (b, 10))"
proof -
  let ?h = "\<lambda>a. Some \<lparr>lnext = 0, lprev = 0\<rparr>"
  have isiz: "pl_isiz 10 (-1) = Ok 16" by (simp add: pl_isiz_def pl_alen_def)
  have n: "\<forall>a \<in> insert 8 (slots_of 100 16 (32 div 16)). node ?h a" "8 \<notin> slots_of 100 16 (32 div 16)" by (auto simp: node_def slots_of_def)
  obtain s s' as where as: "pl_init 8 10 (-1) 100 32 ?h = ret s" "alloc_seq (\<lambda>n s. Some (pl_alloc s)) [10, 10] s = ret (s', as)" "length as = 2"
    "\<forall>i j. i < j \<longrightarrow> j < 2 \<longrightarrow> as ! i \<noteq> 0 \<longrightarrow> as ! j \<noteq> 0 \<longrightarrow> clear_of (as ! i, 10) (as ! j, 10)"
    using pool_items_disjoint [OF _ _ isiz _ n, where ns = "[10, 10]"] by auto
  obtain a b where "as = [a, b]" using as(3) by (auto simp: length_Suc_conv numeral_2_eq_2)
  then show ?thesis using as(1,2) as(4) [rule_format, of 0 1] by auto
qed

end
