(* ===== verification/Buffer.thy ===== *)
theory Buffer
  imports Mem
begin

text \<open>
  Growing byte buffers over a memory manager (src/buffer.c).  The state is the blocks of the heap and
  the buffer; a source of bytes is the list of the bytes read there.
\<close>

section \<open>The operations\<close>

record dynbuf =
  dyb_size :: nat
  dyb_data :: addr
  dyb_off :: nat
  dyb_len :: nat
  dyb_mm :: "blocks memmgr"

type_synonym dyb_state = "blocks \<times> dynbuf"

definition dyb_sane :: "dynbuf \<Rightarrow> bool" where
  "dyb_sane b \<longleftrightarrow> dyb_off b \<le> dyb_size b \<and> dyb_len b \<le> dyb_size b - dyb_off b \<and> (dyb_data b \<noteq> 0 \<or> dyb_size b = 0)"

definition dyb_sanity :: "dynbuf \<Rightarrow> 'a run \<Rightarrow> 'a run" where
  "dyb_sanity b k = (if dyb_sane b then k else Some Abort)"

text \<open>\<open>memmove\<close> into the block at \<open>a\<close>; a move of no bytes touches nothing.\<close>

definition blk_store :: "addr \<Rightarrow> nat \<Rightarrow> byte list \<Rightarrow> blocks \<Rightarrow> blocks run" where
  "blk_store a off bs h =
     (if bs = [] then ret h
      else case (if a = 0 then None else h a) of None \<Rightarrow> Some Fault | Some c \<Rightarrow> rbind (Some (block_write c off bs)) (\<lambda>c. ret (h(a \<mapsto> c))))"

definition blk_load :: "addr \<Rightarrow> nat \<Rightarrow> nat \<Rightarrow> blocks \<Rightarrow> byte list run" where
  "blk_load a off n h = (if n = 0 then ret [] else case (if a = 0 then None else h a) of None \<Rightarrow> Some Fault | Some c \<Rightarrow> Some (block_read c off n))"

definition dyb_init :: "blocks memmgr \<Rightarrow> blocks memmgr option \<Rightarrow> dynbuf" where
  "dyb_init std mm = \<lparr>dyb_size = 0, dyb_data = 0, dyb_off = 0, dyb_len = 0, dyb_mm = (case mm of None \<Rightarrow> std | Some mm \<Rightarrow> mm)\<rparr>"

definition dyb_resv :: "nat \<Rightarrow> dyb_state \<Rightarrow> (dyb_state \<times> int) run" where
  "dyb_resv sz = (\<lambda>(h, b). dyb_sanity b
     (if sz \<le> dyb_size b then ret ((h, b), 0)
      else
        let sz = (if dyb_size b < (2 ^ 64 - 1) div 2 \<and> sz < dyb_size b * 2 then dyb_size b * 2 else sz) in
        rbind (mem_resize (Some (dyb_mm b)) (dyb_data b) sz h) (\<lambda>(h, p).
          if p = 0 then ret ((h, b), -1) else ret ((h, b\<lparr>dyb_data := p, dyb_size := sz\<rparr>), 0))))"

definition dyb_clear :: "dyb_state \<Rightarrow> dyb_state run" where
  "dyb_clear = (\<lambda>(h, b). dyb_sanity b
     (rbind (mem_free (Some (dyb_mm b)) (dyb_data b) h) (\<lambda>h. ret (h, dyb_init (dyb_mm b) (Some (dyb_mm b))))))"

definition dyb_release :: "dynbuf \<Rightarrow> (dynbuf \<times> addr) run" where
  "dyb_release b = dyb_sanity b (ret (b\<lparr>dyb_data := 0, dyb_size := 0, dyb_len := 0, dyb_off := 0\<rparr>, dyb_data b))"

definition dyb_empty :: "dynbuf \<Rightarrow> dynbuf run" where
  "dyb_empty b = dyb_sanity b (ret (b\<lparr>dyb_len := 0, dyb_off := 0\<rparr>))"

definition dyb_cat :: "byte list \<Rightarrow> dyb_state \<Rightarrow> (dyb_state \<times> int) run" where
  "dyb_cat p = (\<lambda>(h, b). dyb_sanity b
     (if dyb_size b - dyb_off b - dyb_len b < length p then ret ((h, b), -1)
      else rbind (blk_store (dyb_data b) (dyb_off b + dyb_len b) p h) (\<lambda>h. ret ((h, b\<lparr>dyb_len := dyb_len b + length p\<rparr>), 0))))"

definition dyb_cat_a :: "byte list \<Rightarrow> dyb_state \<Rightarrow> (dyb_state \<times> int) run" where
  "dyb_cat_a p = (\<lambda>(h, b). dyb_sanity b
     (rbind
       (if dyb_size b - dyb_off b - dyb_len b < length p then
          if 2 ^ 64 - 1 - dyb_off b - dyb_len b < length p then ret ((h, b), -1)
          else dyb_resv (dyb_off b + dyb_len b + length p) (h, b)
        else ret ((h, b), 0)) (\<lambda>((h, b), rv).
      if rv < 0 then ret ((h, b), -1)
      else rbind (blk_store (dyb_data b) (dyb_off b + dyb_len b) p h) (\<lambda>h. ret ((h, b\<lparr>dyb_len := dyb_len b + length p\<rparr>), 0)))))"

definition dyb_set :: "nat \<Rightarrow> byte list \<Rightarrow> dyb_state \<Rightarrow> (dyb_state \<times> int) run" where
  "dyb_set off p = (\<lambda>(h, b). dyb_sanity b
     (if dyb_size b < off \<or> dyb_size b - off < length p then ret ((h, b), -1)
      else let b = b\<lparr>dyb_off := off, dyb_len := length p\<rparr> in rbind (blk_store (dyb_data b) off p h) (\<lambda>h. ret ((h, b), 0))))"

definition dyb_set_a :: "nat \<Rightarrow> byte list \<Rightarrow> dyb_state \<Rightarrow> (dyb_state \<times> int) run" where
  "dyb_set_a off p = (\<lambda>(h, b). dyb_sanity b
     (if 2 ^ 64 - 1 - off > length p then ret ((h, b), -1)
      else
        let tlen = (off + length p) mod 2 ^ 64 in
        rbind (if dyb_size b < tlen then dyb_resv tlen (h, b) else ret ((h, b), 0)) (\<lambda>((h, b), rv).
        if rv < 0 then ret ((h, b), -1)
        else let b = b\<lparr>dyb_off := off, dyb_len := length p\<rparr> in rbind (blk_store (dyb_data b) off p h) (\<lambda>h. ret ((h, b), 0)))))"

definition dyb_copy :: "dynbuf \<Rightarrow> dyb_state \<Rightarrow> (dyb_state \<times> int) run" where
  "dyb_copy sb = (\<lambda>(h, db). dyb_sanity db (dyb_sanity sb
     (rbind (dyb_resv (dyb_size db) (h, db)) (\<lambda>((h, db), rv).
      if rv < 0 then ret ((h, db), -1)
      else
        let db = db\<lparr>dyb_off := dyb_off sb, dyb_len := dyb_len sb\<rparr> in
        rbind (blk_load (dyb_data sb) (dyb_off sb) (dyb_len sb) h) (\<lambda>bs.
        rbind (blk_store (dyb_data db) (dyb_off db) bs h) (\<lambda>h. ret ((h, db), 0)))))))"

section \<open>What a buffer holds\<close>

text \<open>\<open>dyb_rep h b xs\<close>: the buffer is sound, its block is its own size, and it holds \<open>xs\<close>.\<close>

definition dyb_rep :: "malloc_f \<Rightarrow> blocks \<Rightarrow> dynbuf \<Rightarrow> byte list \<Rightarrow> bool" where
  "dyb_rep m h b xs \<longleftrightarrow> dyb_sane b \<and> dyb_size b < 2 ^ 64 \<and> dyb_mm b = stdmm m \<and> length xs = dyb_len b
     \<and> (if dyb_data b = 0 then dyb_size b = 0
        else (\<exists>c. h (dyb_data b) = Some c \<and> length c = dyb_size b \<and> take (dyb_len b) (drop (dyb_off b) c) = xs))"


lemma dyb_init_rep: "dyb_rep m h (dyb_init (stdmm m) None) []" "dyb_rep m h (dyb_init std (Some (stdmm m))) []"
  by (simp_all add: dyb_rep_def dyb_init_def dyb_sane_def)

lemma dyb_rep_null: "dyb_rep m h b xs \<Longrightarrow> 0 < dyb_size b \<Longrightarrow> dyb_data b \<noteq> 0"
  by (simp add: dyb_rep_def split: if_splits)

lemma dyb_rep_block:
  assumes "dyb_rep m h b xs" "dyb_data b \<noteq> 0"
  obtains c where "h (dyb_data b) = Some c" "length c = dyb_size b" "take (dyb_len b) (drop (dyb_off b) c) = xs"
  using assms by (auto simp: dyb_rep_def)

lemma dyb_rep_sanity: "dyb_rep m h b xs \<Longrightarrow> dyb_sanity b k = k"
  by (simp add: dyb_rep_def dyb_sanity_def)

text \<open>What \<open>realloc\<close> does for a buffer: NULL, or a block with the old bytes at its front.\<close>

lemma dyb_realloc:
  assumes "malloc_ok m" "dyb_rep m h b xs" "0 < sz" "dyb_size b \<le> sz"
  obtains (null) "mem_resize (Some (dyb_mm b)) (dyb_data b) sz h = ret (h, 0)"
  | (block) h' p c where "mem_resize (Some (dyb_mm b)) (dyb_data b) sz h = ret (h', p)" "p \<noteq> 0" "h' p = Some c" "length c = sz"
      "dyb_data b \<noteq> 0 \<Longrightarrow> take (dyb_size b) c = the (h (dyb_data b))" "\<forall>a. a \<noteq> dyb_data b \<longrightarrow> h a \<noteq> None \<longrightarrow> h' a = h a \<and> a \<noteq> p"
proof -
  have mm: "mem_resize (Some (dyb_mm b)) = std_resize m" using assms(2) by (simp add: dyb_rep_def mem_resize_def stdmm_def fun_eq_iff)
  show ?thesis
  proof (cases "dyb_data b = 0")
    case True
    show ?thesis
    proof (cases "m sz h")
      case None
      then show ?thesis using null True assms(3) by (simp add: mm std_resize_def)
    next
      case (Some ac)
      obtain a c where ac: "ac = (a, c)" by (cases ac)
      then have "a \<noteq> 0" "a \<notin> dom h" "length c = sz" using assms(1) Some by (auto simp: malloc_ok_def)
      moreover have "mem_resize (Some (dyb_mm b)) (dyb_data b) sz h = ret (h(a \<mapsto> c), a)"
        using True assms(3) Some ac by (simp add: mm std_resize_def)
      ultimately show ?thesis using True by (intro block [of "h(a \<mapsto> c)" a c]) auto
    qed
  next
    case False
    obtain d where d: "h (dyb_data b) = Some d" "length d = dyb_size b" using assms(2) False by (auto simp: dyb_rep_def)
    show ?thesis
    proof (cases "m sz (h(dyb_data b := None))")
      case None
      then show ?thesis using null False assms(3) d(1) by (simp add: mm std_resize_def)
    next
      case (Some ac)
      obtain a c where ac: "ac = (a, c)" by (cases ac)
      have a: "a \<noteq> 0" "a \<notin> dom (h(dyb_data b := None))" "length c = sz" using assms(1) Some unfolding malloc_ok_def ac by blast+
      have "mem_resize (Some (dyb_mm b)) (dyb_data b) sz h = ret (h(dyb_data b := None, a \<mapsto> d @ drop (length d) c), a)"
        using False assms(3,4) d Some ac by (simp add: mm std_resize_def)
      then show ?thesis by (rule block [where c = "d @ drop (length d) c"]) (use a d assms(4) in \<open>auto split: if_splits\<close>)
    qed
  qed
qed

lemma dyb_resv_ok:
  assumes "malloc_ok m" "dyb_rep m h b xs" "sz < 2 ^ 64" "dyb_size b < sz"
    and z_def: "z = (if dyb_size b < (2 ^ 64 - 1) div 2 \<and> sz < dyb_size b * 2 then dyb_size b * 2 else sz)"
  obtains (null) "mem_resize (Some (dyb_mm b)) (dyb_data b) z h = ret (h, 0)" "dyb_resv sz (h, b) = ret ((h, b), -1)"
  | (block) h' q where "mem_resize (Some (dyb_mm b)) (dyb_data b) z h = ret (h', q)" "q \<noteq> 0"
      "dyb_resv sz (h, b) = ret ((h', b\<lparr>dyb_data := q, dyb_size := z\<rparr>), 0)"
      "dyb_rep m h' (b\<lparr>dyb_data := q, dyb_size := z\<rparr>) xs"
      "\<forall>a. a \<noteq> dyb_data b \<longrightarrow> h a \<noteq> None \<longrightarrow> h' a = h a \<and> a \<noteq> q"
proof -
  have z: "sz \<le> z" "z < 2 ^ 64" "0 < z" "dyb_size b \<le> z" using assms(3,4) by (auto simp: z_def)
  have run: "dyb_resv sz (h, b) = rbind (mem_resize (Some (dyb_mm b)) (dyb_data b) z h)
      (\<lambda>(h, p). if p = 0 then ret ((h, b), -1) else ret ((h, b\<lparr>dyb_data := p, dyb_size := z\<rparr>), 0))"
    unfolding dyb_resv_def split dyb_rep_sanity [OF assms(2)] z_def [symmetric] Let_def using assms(4) by simp
  show ?thesis using assms(1,2) z(3,4)
  proof (cases rule: dyb_realloc)
    case A: null
    then show ?thesis by (intro null) (simp_all add: run)
  next
    case B: (block h' p c)
    have s: "dyb_off b + dyb_len b \<le> dyb_size b" "length xs = dyb_len b" "dyb_mm b = stdmm m" using assms(2) by (auto simp: dyb_rep_def dyb_sane_def)
    have "take (dyb_len b) (drop (dyb_off b) c) = xs"
    proof (cases "dyb_data b = 0")
      case True
      then show ?thesis using assms(2) s by (auto simp: dyb_rep_def)
    next
      case d: False
      then have "take (dyb_len b) (drop (dyb_off b) (take (dyb_size b) c)) = xs" using B(5) assms(2) by (auto simp: dyb_rep_def)
      then show ?thesis using s(1) by (simp add: drop_take min_absorb1)
    qed
    then have "dyb_rep m h' (b\<lparr>dyb_data := p, dyb_size := z\<rparr>) xs" using B(2-4) s z by (auto simp: dyb_rep_def dyb_sane_def)
    then show ?thesis using B by (intro block [of h' p]) (simp_all add: run)
  qed
qed

text \<open>Storing into the buffer.\<close>

lemma dyb_store:
  assumes "dyb_rep m h b xs" "off + length p \<le> dyb_size b"
  obtains h' where "blk_store (dyb_data b) off p h = ret h'" "\<forall>a. a \<noteq> dyb_data b \<longrightarrow> h' a = h a"
    "dyb_rep m h' (b\<lparr>dyb_off := off, dyb_len := length p\<rparr>) p"
    "off = dyb_off b + dyb_len b \<Longrightarrow> dyb_rep m h' (b\<lparr>dyb_len := dyb_len b + length p\<rparr>) (xs @ p)"
proof (cases "p = []")
  case True
  have "dyb_rep m h (b\<lparr>dyb_off := off, dyb_len := length p\<rparr>) p" using assms True by (auto simp: dyb_rep_def dyb_sane_def)
  then show ?thesis using that [of h] assms(1) True by (simp add: blk_store_def)
next
  case False
  then have "dyb_size b > 0" using assms(2) by (cases p) auto
  then have "dyb_data b \<noteq> 0" using dyb_rep_null [OF assms(1)] by blast
  then obtain c where c: "h (dyb_data b) = Some c" "length c = dyb_size b" "take (dyb_len b) (drop (dyb_off b) c) = xs"
    using assms(1) by (auto simp: dyb_rep_def)
  let ?c = "take off c @ p @ drop (off + length p) c"
  have r: "dyb_rep m h b xs \<longleftrightarrow> dyb_sane b \<and> dyb_size b < 2 ^ 64 \<and> dyb_mm b = stdmm m \<and> length xs = dyb_len b"
    using c \<open>dyb_data b \<noteq> 0\<close> by (simp add: dyb_rep_def)
  have run: "blk_store (dyb_data b) off p h = ret (h(dyb_data b \<mapsto> ?c))" using False c(1,2) assms(2) \<open>dyb_data b \<noteq> 0\<close> by (simp add: blk_store_def)
  have len: "length ?c = dyb_size b" using c(2) assms(2) by simp
  have "dyb_rep m (h(dyb_data b \<mapsto> ?c)) (b\<lparr>dyb_off := off, dyb_len := length p\<rparr>) p"
    using assms len \<open>dyb_data b \<noteq> 0\<close> c(2) unfolding r by (auto simp: dyb_rep_def dyb_sane_def min_absorb2)
  moreover have "dyb_rep m (h(dyb_data b \<mapsto> ?c)) (b\<lparr>dyb_len := dyb_len b + length p\<rparr>) (xs @ p)" if o: "off = dyb_off b + dyb_len b"
  proof -
    have "take (dyb_len b + length p) (drop (dyb_off b) ?c) = take (dyb_len b) (drop (dyb_off b) c) @ p"
      using o assms(2) c(2) by (simp add: drop_take min_absorb2)
    then show ?thesis using assms len \<open>dyb_data b \<noteq> 0\<close> c(3) o unfolding r by (auto simp: dyb_rep_def dyb_sane_def)
  qed
  ultimately show ?thesis using that run by simp
qed

text \<open>Appending with growth.\<close>

lemma dyb_cat_a_run:
  assumes "dyb_rep m h b xs" "n = dyb_off b + dyb_len b + length p"
  shows "dyb_cat_a p (h, b) = rbind
      (if dyb_size b < n then if 2 ^ 64 \<le> n then ret ((h, b), -1) else dyb_resv n (h, b) else ret ((h, b), 0)) (\<lambda>((h, b), rv).
      if rv < 0 then ret ((h, b), -1)
      else rbind (blk_store (dyb_data b) (dyb_off b + dyb_len b) p h) (\<lambda>h. ret ((h, b\<lparr>dyb_len := dyb_len b + length p\<rparr>), 0)))"
proof -
  have s: "dyb_off b + dyb_len b \<le> dyb_size b" "dyb_size b < 2 ^ 64" using assms(1) by (auto simp: dyb_rep_def dyb_sane_def)
  have fits: "dyb_size b - dyb_off b - dyb_len b < length p \<longleftrightarrow> dyb_size b < n" "2 ^ 64 - 1 - dyb_off b - dyb_len b < length p \<longleftrightarrow> 2 ^ 64 \<le> n"
    using s assms(2) by auto
  show ?thesis unfolding dyb_cat_a_def split dyb_rep_sanity [OF assms(1)] fits assms(2) [symmetric] by (rule refl)
qed

lemma dyb_cat_a_grows:
  assumes "malloc_ok m" "dyb_rep m h b xs" "n = dyb_off b + dyb_len b + length p" "dyb_size b < n" "n < 2 ^ 64"
    and z_def: "z = (if dyb_size b < (2 ^ 64 - 1) div 2 \<and> n < dyb_size b * 2 then dyb_size b * 2 else n)"
  shows "\<exists>h1 q. mem_resize (Some (dyb_mm b)) (dyb_data b) z h = ret (h1, q) \<and>
    (if q = 0 then dyb_cat_a p (h, b) = ret ((h, b), -1)
     else \<exists>h' b'. dyb_cat_a p (h, b) = ret ((h', b'), 0) \<and> dyb_rep m h' b' (xs @ p)
       \<and> b' = b\<lparr>dyb_data := q, dyb_size := z, dyb_len := dyb_len b + length p\<rparr>
       \<and> (\<forall>a. a \<noteq> dyb_data b \<longrightarrow> h a \<noteq> None \<longrightarrow> h' a = h a))"
  using assms(1,2,5,4) z_def
proof (cases rule: dyb_resv_ok)
  case null
  then have "dyb_cat_a p (h, b) = ret ((h, b), -1)" unfolding dyb_cat_a_run [OF assms(2,3)] using assms(4,5) by simp
  then show ?thesis using null(1) by simp
next
  case (block h1 q)
  let ?b1 = "b\<lparr>dyb_data := q, dyb_size := z\<rparr>"
  have "n \<le> z" using assms(4) by (auto simp: z_def)
  then have "dyb_off ?b1 + dyb_len ?b1 + length p \<le> dyb_size ?b1" by (simp add: assms(3))
  from dyb_store [OF block(4) this] obtain h' where h': "blk_store q (dyb_off b + dyb_len b) p h1 = ret h'"
    "\<forall>a. a \<noteq> q \<longrightarrow> h' a = h1 a" "dyb_rep m h' (?b1\<lparr>dyb_len := dyb_len b + length p\<rparr>) (xs @ p)" by auto
  have "dyb_cat_a p (h, b) = ret ((h', ?b1\<lparr>dyb_len := dyb_len b + length p\<rparr>), 0)"
    unfolding dyb_cat_a_run [OF assms(2,3)] using assms(4,5) block(3) h'(1) by simp
  moreover have "\<forall>a. a \<noteq> dyb_data b \<longrightarrow> h a \<noteq> None \<longrightarrow> h' a = h a" using h'(2) block(5) by auto
  ultimately show ?thesis using block(1,2) h'(3) by simp
qed

section \<open>The properties\<close>

text \<open>C31: Appending bytes to a buffer that may grow, for every buffer and every number of bytes.  If the bytes fit behind the
  ones the buffer holds, they are stored there, and size and block stay.  If the new end does not fit into
  \<open>size_t\<close>, the call returns -1.  Otherwise the block is resized to twice the buffer's size where that is more than the new end
  and fits into \<open>size_t\<close>, to the new end if not: the call returns -1 just when the allocator returns NULL, with heap and buffer as
  they were, and otherwise the buffer, in the new block of that size, holds the old bytes and the new ones.  No other block is touched.\<close>

theorem dyb_cat_a_appends:
  assumes "malloc_ok m" "dyb_rep m h b xs"
    and "n = dyb_off b + dyb_len b + length p"
    and "z = (if dyb_size b < (2 ^ 64 - 1) div 2 \<and> n < dyb_size b * 2 then dyb_size b * 2 else n)"
  shows "(n \<le> dyb_size b \<longrightarrow>
      (\<exists>h' b'. dyb_cat_a p (h, b) = ret ((h', b'), 0) \<and> b' = b\<lparr>dyb_len := dyb_len b + length p\<rparr> \<and> dyb_rep m h' b' (xs @ p)
         \<and> (\<forall>a. a \<noteq> dyb_data b \<longrightarrow> h' a = h a)))
    \<and> (2 ^ 64 \<le> n \<longrightarrow> dyb_cat_a p (h, b) = ret ((h, b), -1))
    \<and> (dyb_size b < n \<and> n < 2 ^ 64 \<longrightarrow>
      (\<exists>h1 q. mem_resize (Some (dyb_mm b)) (dyb_data b) z h = ret (h1, q) \<and>
        (if q = 0 then dyb_cat_a p (h, b) = ret ((h, b), -1)
         else \<exists>h' b'. dyb_cat_a p (h, b) = ret ((h', b'), 0) \<and> dyb_rep m h' b' (xs @ p)
           \<and> b' = b\<lparr>dyb_data := q, dyb_size := z, dyb_len := dyb_len b + length p\<rparr>
           \<and> (\<forall>a. a \<noteq> dyb_data b \<longrightarrow> h a \<noteq> None \<longrightarrow> h' a = h a))))"
proof (intro conjI impI)
  note run = dyb_cat_a_run [OF assms(2,3)]
  assume n: "n \<le> dyb_size b"
  then have "dyb_off b + dyb_len b + length p \<le> dyb_size b" by (simp add: assms(3))
  from dyb_store [OF assms(2) this] obtain h' where "blk_store (dyb_data b) (dyb_off b + dyb_len b) p h = ret h'"
    "\<forall>a. a \<noteq> dyb_data b \<longrightarrow> h' a = h a" "dyb_rep m h' (b\<lparr>dyb_len := dyb_len b + length p\<rparr>) (xs @ p)" by blast
  then show "\<exists>h' b'. dyb_cat_a p (h, b) = ret ((h', b'), 0) \<and> b' = b\<lparr>dyb_len := dyb_len b + length p\<rparr> \<and> dyb_rep m h' b' (xs @ p)
    \<and> (\<forall>a. a \<noteq> dyb_data b \<longrightarrow> h' a = h a)" using n by (simp add: run)
next
  assume "2 ^ 64 \<le> n"
  moreover have "dyb_size b < 2 ^ 64" using assms(2) by (simp add: dyb_rep_def)
  ultimately show "dyb_cat_a p (h, b) = ret ((h, b), -1)" by (simp add: dyb_cat_a_run [OF assms(2,3)])
next
  assume "dyb_size b < n \<and> n < 2 ^ 64"
  then show "\<exists>h1 q. mem_resize (Some (dyb_mm b)) (dyb_data b) z h = ret (h1, q) \<and>
    (if q = 0 then dyb_cat_a p (h, b) = ret ((h, b), -1)
     else \<exists>h' b'. dyb_cat_a p (h, b) = ret ((h', b'), 0) \<and> dyb_rep m h' b' (xs @ p)
       \<and> b' = b\<lparr>dyb_data := q, dyb_size := z, dyb_len := dyb_len b + length p\<rparr>
       \<and> (\<forall>a. a \<noteq> dyb_data b \<longrightarrow> h a \<noteq> None \<longrightarrow> h' a = h a))"
    using dyb_cat_a_grows [OF assms(1-3) _ _ assms(4)] by simp
qed

lemma dyb_cat_a_appends_witness:
  "\<exists>h'. dyb_cat_a [1, 2, 3] ([9 \<mapsto> [7, 0, 8, 8]], \<lparr>dyb_size = 4, dyb_data = 9, dyb_off = 0, dyb_len = 2, dyb_mm = stdmm toy_malloc\<rparr>)
    = ret ((h', \<lparr>dyb_size = 8, dyb_data = 8, dyb_off = 0, dyb_len = 5, dyb_mm = stdmm toy_malloc\<rparr>), 0)"
proof -
  let ?b = "\<lparr>dyb_size = 4, dyb_data = 9, dyb_off = 0, dyb_len = 2, dyb_mm = stdmm toy_malloc\<rparr>"
  have "dyb_rep toy_malloc [9 \<mapsto> [7, 0, 8, 8]] ?b [7, 0]" by (simp add: dyb_rep_def dyb_sane_def)
  from dyb_cat_a_appends [OF toy_malloc_ok this, of 5 "[1, 2, 3]" 8] show ?thesis
    by (auto simp: mem_resize_def stdmm_def std_resize_def toy_malloc_def)
qed

text \<open>The calls that do not grow the buffer.\<close>

lemma dyb_cat_ok:
  assumes "dyb_rep m h b xs" "dyb_off b + dyb_len b + length p \<le> dyb_size b"
  shows "\<exists>h' b'. dyb_cat p (h, b) = ret ((h', b'), 0) \<and> dyb_rep m h' b' (xs @ p)"
proof -
  have "\<not> dyb_size b - dyb_off b - dyb_len b < length p" using assms(2) by linarith
  moreover obtain h' where "blk_store (dyb_data b) (dyb_off b + dyb_len b) p h = ret h'" "dyb_rep m h' (b\<lparr>dyb_len := dyb_len b + length p\<rparr>) (xs @ p)"
    using dyb_store [OF assms] by blast
  ultimately show ?thesis by (auto simp: dyb_cat_def dyb_rep_sanity [OF assms(1)])
qed

lemma dyb_set_ok:
  assumes "dyb_rep m h b xs"
  shows "if off + length p \<le> dyb_size b
    then \<exists>h' b'. dyb_set off p (h, b) = ret ((h', b'), 0) \<and> dyb_rep m h' b' p \<and> dyb_off b' = off
    else dyb_set off p (h, b) = ret ((h, b), -1)"
proof (cases "off + length p \<le> dyb_size b")
  case True
  obtain h' where h': "blk_store (dyb_data b) off p h = ret h'" "dyb_rep m h' (b\<lparr>dyb_off := off, dyb_len := length p\<rparr>) p"
    using dyb_store [OF assms True] by blast
  have "\<not> (dyb_size b < off \<or> dyb_size b - off < length p)" using True by linarith
  then have "dyb_set off p (h, b) = ret ((h', b\<lparr>dyb_off := off, dyb_len := length p\<rparr>), 0)"
    by (simp add: dyb_set_def dyb_rep_sanity [OF assms] Let_def h'(1))
  then show ?thesis using h'(2) True by auto
qed (auto simp: dyb_set_def dyb_rep_sanity [OF assms])

lemma dyb_clear_ok:
  assumes "dyb_rep m h b xs"
  shows "\<exists>h' b'. dyb_clear (h, b) = ret (h', b') \<and> dyb_rep m h' b' [] \<and> (dyb_data b \<noteq> 0 \<longrightarrow> h' = h(dyb_data b := None)) \<and> dyb_size b' = 0"
proof -
  have mm: "dyb_mm b = stdmm m" using assms by (simp add: dyb_rep_def)
  have "mem_free (Some (dyb_mm b)) (dyb_data b) h = ret (if dyb_data b = 0 then h else h(dyb_data b := None))"
  proof (cases "dyb_data b = 0")
    case False
    then obtain c where "h (dyb_data b) = Some c" using dyb_rep_block [OF assms] by blast
    then show ?thesis using False by (simp add: mm mem_free_def stdmm_def std_free_def)
  qed (simp add: mm mem_free_def stdmm_def std_free_def)
  then show ?thesis using dyb_init_rep(2) [of m _ "stdmm m"] by (auto simp: dyb_clear_def dyb_rep_sanity [OF assms] mm dyb_init_def)
qed

text \<open>C40: Two calls do not do what they are for.  \<open>dyb_set_a\<close> refuses every request whose end is below the greatest \<open>size_t\<close>, even
  one that fits into the buffer as it is; and \<open>dyb_copy\<close> never makes room, so it copies when the bytes fit at their offset into the
  destination as it is, and otherwise, unless there is nothing to copy, writes outside of the destination's block.\<close>

theorem dyb_set_a_and_copy_fail:
  assumes "dyb_rep m h b xs" "dyb_rep m h sb ys" "off + length p < 2 ^ 64 - 1"
  shows "dyb_set_a off p (h, b) = ret ((h, b), -1) \<and>
    (if dyb_off sb + dyb_len sb \<le> dyb_size b
     then \<exists>h' b'. dyb_copy sb (h, b) = ret ((h', b'), 0) \<and> dyb_rep m h' b' ys \<and> dyb_off b' = dyb_off sb
     else ys \<noteq> [] \<longrightarrow> dyb_copy sb (h, b) = Some Fault)"
proof (intro conjI)
  have "2 ^ 64 - 1 - off > length p" using assms(3) by linarith
  then show "dyb_set_a off p (h, b) = ret ((h, b), -1)" by (simp add: dyb_set_a_def dyb_rep_sanity [OF assms(1)])
next
  have ys: "length ys = dyb_len sb" using assms(2) by (simp add: dyb_rep_def)
  have load: "blk_load (dyb_data sb) (dyb_off sb) (dyb_len sb) h = ret ys"
  proof (cases "dyb_len sb = 0")
    case False
    have s: "dyb_off sb + dyb_len sb \<le> dyb_size sb" using assms(2) by (auto simp: dyb_rep_def dyb_sane_def)
    then have nz: "dyb_data sb \<noteq> 0" using dyb_rep_null [OF assms(2)] False by auto
    then obtain c where "h (dyb_data sb) = Some c" "length c = dyb_size sb" "take (dyb_len sb) (drop (dyb_off sb) c) = ys"
      using dyb_rep_block [OF assms(2)] by blast
    then show ?thesis using s nz False by (simp add: blk_load_def)
  qed (use ys in \<open>simp add: blk_load_def\<close>)
  have run: "dyb_copy sb (h, b) = rbind (blk_store (dyb_data b) (dyb_off sb) ys h) (\<lambda>h. ret ((h, b\<lparr>dyb_off := dyb_off sb, dyb_len := dyb_len sb\<rparr>), 0))"
    by (simp add: dyb_copy_def dyb_resv_def dyb_rep_sanity [OF assms(1)] dyb_rep_sanity [OF assms(2)] load Let_def)
  show "if dyb_off sb + dyb_len sb \<le> dyb_size b
     then \<exists>h' b'. dyb_copy sb (h, b) = ret ((h', b'), 0) \<and> dyb_rep m h' b' ys \<and> dyb_off b' = dyb_off sb
     else ys \<noteq> [] \<longrightarrow> dyb_copy sb (h, b) = Some Fault"
  proof (cases "dyb_off sb + dyb_len sb \<le> dyb_size b")
    case True
    obtain h' where "blk_store (dyb_data b) (dyb_off sb) ys h = ret h'" "dyb_rep m h' (b\<lparr>dyb_off := dyb_off sb, dyb_len := length ys\<rparr>) ys"
      using dyb_store [OF assms(1), of "dyb_off sb" ys] True ys by auto
    then show ?thesis using True ys by (auto simp: run)
  next
    case False
    have "blk_store (dyb_data b) (dyb_off sb) ys h = Some Fault" if "ys \<noteq> []"
    proof (cases "dyb_data b = 0")
      case nz: False
      then obtain c where "h (dyb_data b) = Some c" "length c = dyb_size b" using dyb_rep_block [OF assms(1)] by blast
      then show ?thesis using that False ys nz by (simp add: blk_store_def block_write_def)
    qed (use that in \<open>simp add: blk_store_def\<close>)
    then show ?thesis using False by (simp add: run)
  qed
qed

lemma dyb_set_a_and_copy_fail_witness:
  "dyb_set_a 1 [7] ([9 \<mapsto> [1, 2]], \<lparr>dyb_size = 2, dyb_data = 9, dyb_off = 0, dyb_len = 2, dyb_mm = stdmm toy_malloc\<rparr>)
    = ret (([9 \<mapsto> [1, 2]], \<lparr>dyb_size = 2, dyb_data = 9, dyb_off = 0, dyb_len = 2, dyb_mm = stdmm toy_malloc\<rparr>), -1)"
proof -
  let ?b = "\<lparr>dyb_size = 2, dyb_data = 9, dyb_off = 0, dyb_len = 2, dyb_mm = stdmm toy_malloc\<rparr>"
  have "dyb_rep toy_malloc [9 \<mapsto> [1, 2]] ?b [1, 2]" by (simp add: dyb_rep_def dyb_sane_def)
  from dyb_set_a_and_copy_fail [OF this this, of 1 "[7]"] show ?thesis by simp
qed

end
