(* ===== verification/Emit.thy ===== *)
theory Emit
  imports CString
begin

text \<open>
  Output to a stream (src/emit.c) and input from one (src/inport.c): the dispatch through the function a
  stream carries, the emitter into a string of fixed length, and the port that reads a string.  A struct
  that embeds another is a record that extends it; the functions in a stream are parameters.
\<close>

section \<open>Emitters\<close>

datatype emit_status = EMIT_OK | EMIT_EOS | EMIT_ERR

record emitter =
  emit_state :: emit_status

type_synonym 'e emit_f = "byte list \<Rightarrow> 'e \<Rightarrow> ('e \<times> int) outcome"

definition emit_char :: "'a emitter_scheme emit_f option \<Rightarrow> byte \<Rightarrow> 'a emitter_scheme \<Rightarrow> ('a emitter_scheme \<times> int) outcome" where
  "emit_char func ch em =
     (case func of None \<Rightarrow> Abort | Some f \<Rightarrow> if emit_state em \<noteq> EMIT_OK then Ok (em, -1) else f [ch] em)"

definition emit_raw :: "'a emitter_scheme emit_f option \<Rightarrow> byte list \<Rightarrow> 'a emitter_scheme \<Rightarrow> ('a emitter_scheme \<times> int) outcome" where
  "emit_raw func buf em =
     (case func of None \<Rightarrow> Abort | Some f \<Rightarrow>
       if emit_state em \<noteq> EMIT_OK then Ok (em, -1) else if length buf > 2 ^ 31 - 1 then Ok (em, -1) else f buf em)"

definition emit_string :: "'a emitter_scheme emit_f option \<Rightarrow> byte list \<Rightarrow> 'a emitter_scheme \<Rightarrow> ('a emitter_scheme \<times> int) outcome" where
  "emit_string func s em = obind (strlen s) (\<lambda>len. emit_raw func (take len s) em)"

definition null_emit_func :: "'e emit_f" where "null_emit_func buf em = Ok (em, 0)"

definition init_null_emitter :: "'a emitter_scheme \<Rightarrow> 'a emitter_scheme \<times> int" where
  "init_null_emitter em = (em\<lparr>emit_state := EMIT_OK\<rparr>, 0)"

record string_emitter = emitter +
  se_data :: "byte list"
  se_len :: nat
  se_fill :: nat

definition str_emit_func :: "string_emitter emit_f" where
  "str_emit_func buf se = abort_unless (se_len se \<ge> se_fill se)
     (let tocopy = length buf; tocopy = (if tocopy > se_len se - se_fill se then se_len se - se_fill se else tocopy) in
      obind (block_write (se_data se) (se_fill se) (take tocopy buf)) (\<lambda>data.
        let se = se\<lparr>se_data := data, se_fill := se_fill se + tocopy\<rparr> in
        Ok (if se_len se = se_fill se then se\<lparr>emit_state := EMIT_EOS\<rparr> else se, 0)))"

text \<open>\<open>str\<close> is the block of the string, and \<open>None\<close> for NULL.\<close>

definition string_emitter_init :: "byte list option \<Rightarrow> nat \<Rightarrow> string_emitter outcome" where
  "string_emitter_init str len =
     (case str of None \<Rightarrow> Abort | Some data \<Rightarrow>
       abort_unless (len \<ge> 1) (Ok \<lparr>emit_state = EMIT_OK, se_data = data, se_len = len - 1, se_fill = 0\<rparr>))"

definition string_emitter_terminate :: "string_emitter \<Rightarrow> string_emitter outcome" where
  "string_emitter_terminate se = abort_unless (se_fill se \<le> se_len se)
     (obind (block_write (se_data se) (se_fill se) [0]) (\<lambda>data. Ok (se\<lparr>se_data := data, emit_state := EMIT_EOS\<rparr>)))"

section \<open>Ports\<close>

text \<open>A reader is given the number of bytes, and returns the bytes it stores and its result.\<close>

type_synonym 'i inp_read_f = "int \<Rightarrow> 'i \<Rightarrow> ('i \<times> byte list \<times> int) outcome"

definition inp_read :: "'i inp_read_f option \<Rightarrow> bool \<Rightarrow> int \<Rightarrow> 'i \<Rightarrow> ('i \<times> byte list \<times> int) outcome" where
  "inp_read func null len inp =
     (case func of None \<Rightarrow> Ok (inp, [], -1) | Some f \<Rightarrow> if null \<or> len \<le> 0 then Ok (inp, [], -1) else f len inp)"

text \<open>The character is a \<open>char\<close>, which is signed.\<close>

definition inp_getc :: "'i inp_read_f option \<Rightarrow> 'i \<Rightarrow> ('i \<times> int) outcome" where
  "inp_getc func inp = obind (inp_read func False 1 inp) (\<lambda>(inp, buf, rv).
     if rv \<le> 0 then Ok (inp, -1) else (case buf of [] \<Rightarrow> Fault | ch # _ \<Rightarrow> Ok (inp, sint ch)))"

definition inp_close :: "('i \<Rightarrow> ('i \<times> int) outcome) option \<Rightarrow> 'i option \<Rightarrow> ('i option \<times> int) outcome" where
  "inp_close func inp = (case inp of None \<Rightarrow> Ok (None, -1) | Some i \<Rightarrow>
     (case func of None \<Rightarrow> Ok (inp, 0) | Some f \<Rightarrow> obind (f i) (\<lambda>(i, rv). Ok (Some i, rv))))"

record cstr_inport =
  csi_str :: "byte list option"
  csi_slen :: nat
  csi_off :: nat

definition csinp_read :: "cstr_inport inp_read_f" where
  "csinp_read len csi =
     (case csi_str csi of None \<Rightarrow> Abort | Some s \<Rightarrow> abort_unless (len > 0)
       (if csi_off csi \<ge> csi_slen csi then Ok (csi, [], 0)
        else
          let n = (if csi_slen csi - csi_off csi < nat len then csi_slen csi - csi_off csi else nat len) in
          obind (block_read s (csi_off csi) n) (\<lambda>buf. Ok (csi\<lparr>csi_off := csi_off csi + n\<rparr>, buf, int n))))"

definition csinp_init :: "byte list option \<Rightarrow> cstr_inport outcome" where
  "csinp_init s = obind (case s of None \<Rightarrow> Ok 0 | Some s \<Rightarrow> strlen s) (\<lambda>n. Ok \<lparr>csi_str = s, csi_slen = n, csi_off = 0\<rparr>)"

definition csinp_init_len :: "byte list option \<Rightarrow> nat \<Rightarrow> cstr_inport outcome" where
  "csinp_init_len s len = abort_unless (s \<noteq> None \<or> len > 0) (Ok \<lparr>csi_str = s, csi_slen = len, csi_off = 0\<rparr>)"

definition csinp_reset :: "cstr_inport \<Rightarrow> cstr_inport" where "csinp_reset csi = csi\<lparr>csi_off := 0\<rparr>"

definition csinp_clear :: "cstr_inport \<Rightarrow> cstr_inport outcome" where "csinp_clear csi = csinp_init None"

definition csinp_close :: "cstr_inport \<Rightarrow> (cstr_inport \<times> int) outcome" where
  "csinp_close csi = obind (csinp_clear csi) (\<lambda>csi. Ok (csi, 0))"

section \<open>A string as a stream\<close>

text \<open>The calls a client makes on an emitter, and the bytes each one is to write.\<close>

datatype emit_call = EChar byte | ERaw "byte list" | EStr "byte list"

fun emit_one :: "'a emitter_scheme emit_f option \<Rightarrow> emit_call \<Rightarrow> 'a emitter_scheme \<Rightarrow> ('a emitter_scheme \<times> int) outcome" where
  "emit_one func (EChar c) em = emit_char func c em"
| "emit_one func (ERaw b) em = emit_raw func b em"
| "emit_one func (EStr s) em = emit_string func s em"

fun call_bytes :: "emit_call \<Rightarrow> byte list" where
  "call_bytes (EChar c) = [c]"
| "call_bytes (ERaw b) = b"
| "call_bytes (EStr s) = takeWhile (\<lambda>c. c \<noteq> 0) s"

fun call_ok :: "emit_call \<Rightarrow> bool" where
  "call_ok (EChar c) = True"
| "call_ok (ERaw b) = (length b < 2 ^ 31)"
| "call_ok (EStr s) = (0 \<in> set s \<and> length s < 2 ^ 31)"

fun emit_calls :: "'a emitter_scheme emit_f option \<Rightarrow> emit_call list \<Rightarrow> 'a emitter_scheme \<Rightarrow> ('a emitter_scheme \<times> int list) outcome" where
  "emit_calls func [] em = Ok (em, [])"
| "emit_calls func (c # cs) em = obind (emit_one func c em) (\<lambda>(em, r). obind (emit_calls func cs em) (\<lambda>(em, rs). Ok (em, r # rs)))"

text \<open>The emitter after the calls \<open>cs\<close>, which were to write \<open>out\<close>, into a string of \<open>n + 1\<close> bytes that was \<open>d\<close>.\<close>

definition emitted :: "nat \<Rightarrow> byte list \<Rightarrow> bool \<Rightarrow> byte list \<Rightarrow> string_emitter \<Rightarrow> bool" where
  "emitted n d fresh out se \<longleftrightarrow> se_len se = n \<and> se_fill se = min n (length out) \<and> se_data se = take n out @ drop (min n (length out)) d
     \<and> (emit_state se = (if fresh \<or> length out < n then EMIT_OK else EMIT_EOS)) \<and> (fresh \<longrightarrow> out = [])"

lemma take_min_len: "take (min n (length xs)) xs = take n xs" "take (min (length xs) n) xs = take n xs"
  by (simp_all add: min_def)

lemma str_emit_ok:
  assumes "emitted n d fresh out se" "length d = Suc n"
  shows "\<exists>se'. str_emit_func buf (se\<lparr>emit_state := EMIT_OK\<rparr>) = Ok (se', 0) \<and> emitted n d False (out @ buf) se'"
proof -
  let ?f = "min n (length out)"
  have e: "se_len se = n" "se_fill se = ?f" "se_data se = take n out @ drop ?f d" using assms(1) by (auto simp: emitted_def)
  define t where "t = (if length buf > n - ?f then n - ?f else length buf)"
  have len: "length (se_data se) = Suc n" "?f + t \<le> n" using e(3) assms(2) by (auto simp: t_def)
  have out: "take ?f (se_data se) = take n out" "drop (?f + t) (se_data se) = drop (?f + t) d" by (simp_all add: e(3) take_min_len add.commute min.commute [of n])
  have t: "take n out @ take t buf = take n (out @ buf)" "?f + t = min n (length (out @ buf))" by (cases "length out \<le> n"; auto simp: t_def)+
  let ?se = "se\<lparr>emit_state := EMIT_OK, se_data := take n (out @ buf) @ drop (?f + t) d, se_fill := ?f + t\<rparr>"
  have "length (take t buf) = t" by (simp add: t_def)
  then have "block_write (se_data se) ?f (take t buf) = Ok (take n out @ take t buf @ drop (?f + t) d)"
    using len out by simp
  then have w: "block_write (se_data se) ?f (take t buf) = Ok (take n (out @ buf) @ drop (?f + t) d)"
    unfolding t(1) [symmetric] append_assoc .
  let ?s = "se\<lparr>emit_state := EMIT_OK\<rparr>"
  have tt: "(if se_len ?s - se_fill ?s < length buf then se_len ?s - se_fill ?s else length buf) = t" by (simp add: e(1,2) t_def)
  have "str_emit_func buf ?s = Ok (if n = ?f + t then ?se\<lparr>emit_state := EMIT_EOS\<rparr> else ?se, 0)"
    unfolding str_emit_func_def Let_def tt using w e(1,2) by simp
  moreover have "emitted n d False (out @ buf) (if n = ?f + t then ?se\<lparr>emit_state := EMIT_EOS\<rparr> else ?se)"
    unfolding t(2) using e(1) by (auto simp: emitted_def)
  ultimately show ?thesis by blast
qed

lemma emitted_raw:
  assumes "emitted n d fresh out se" "length d = Suc n" "length buf < 2 ^ 31"
  shows "\<exists>se'. emit_raw (Some str_emit_func) buf se = Ok (se', if fresh \<or> length out < n then 0 else -1) \<and> emitted n d False (out @ buf) se'"
proof (cases "fresh \<or> length out < n")
  case True
  then have "emit_state se = EMIT_OK" using assms(1) by (auto simp: emitted_def)
  moreover have "se\<lparr>emit_state := EMIT_OK\<rparr> = se" using calculation by (cases se) simp
  ultimately have "emit_raw (Some str_emit_func) buf se = str_emit_func buf (se\<lparr>emit_state := EMIT_OK\<rparr>)" using assms(3) unfolding emit_raw_def by (simp only:) simp
  then show ?thesis using str_emit_ok [OF assms(1,2), of buf] True by simp
next
  case False
  then have "emit_raw (Some str_emit_func) buf se = Ok (se, -1)" using assms(1) by (simp add: emit_raw_def emitted_def)
  moreover have "emitted n d False (out @ buf) se" using assms(1) False by (simp add: emitted_def)
  ultimately show ?thesis using False by simp
qed

lemma strlen_takeWhile: "0 \<in> set s \<Longrightarrow> strlen s = Ok (length (takeWhile (\<lambda>c. c \<noteq> 0) s))"
  by (induction s) auto

lemma takeWhile_len: "take (length (takeWhile P s)) s = takeWhile P s"
  by (induction s) auto

lemma emitted_one:
  assumes "emitted n d fresh out se" "length d = Suc n" "call_ok c"
  shows "\<exists>se'. emit_one (Some str_emit_func) c se = Ok (se', if fresh \<or> length out < n then 0 else -1) \<and> emitted n d False (out @ call_bytes c) se'"
proof (cases c)
  case (EChar x)
  have "emit_char (Some str_emit_func) x se = emit_raw (Some str_emit_func) [x] se" by (simp add: emit_char_def emit_raw_def)
  then show ?thesis using emitted_raw [OF assms(1,2), of "[x]"] EChar by simp
next
  case (ERaw b)
  then show ?thesis using emitted_raw [OF assms(1,2), of b] assms(3) by simp
next
  case (EStr s)
  have "length (takeWhile (\<lambda>c. c \<noteq> 0) s) < 2 ^ 31" using assms(3) EStr length_takeWhile_le [of "\<lambda>c. c \<noteq> 0" s] by (auto intro: le_less_trans)
  then show ?thesis using emitted_raw [OF assms(1,2), of "takeWhile (\<lambda>c. c \<noteq> 0) s"] assms(3) EStr
    by (simp add: emit_string_def strlen_takeWhile takeWhile_len)
qed

definition emit_codes :: "nat \<Rightarrow> bool \<Rightarrow> byte list \<Rightarrow> emit_call list \<Rightarrow> int list" where
  "emit_codes n fresh out cs = map (\<lambda>i. if fresh \<and> i = 0 \<or> length (out @ concat (map call_bytes (take i cs))) < n then 0 else -1) [0..<length cs]"

lemma emit_codes_Cons: "emit_codes n fresh out (c # cs) = (if fresh \<or> length out < n then 0 else -1) # emit_codes n False (out @ call_bytes c) cs"
proof -
  have u: "[0..<length (c # cs)] = 0 # map Suc [0..<length cs]" by (simp add: map_Suc_upt upt_conv_Cons del: upt_Suc)
  show ?thesis unfolding emit_codes_def u by simp
qed

lemma emitted_calls:
  assumes "emitted n d fresh out se" "length d = Suc n" "\<forall>c \<in> set cs. call_ok c" "cs = [] \<longrightarrow> \<not> fresh"
  shows "\<exists>se'. emit_calls (Some str_emit_func) cs se = Ok (se', emit_codes n fresh out cs) \<and> emitted n d False (out @ concat (map call_bytes cs)) se'"
  using assms
proof (induction cs arbitrary: fresh out se)
  case Nil
  then show ?case by (simp add: emit_codes_def)
next
  case (Cons c cs)
  obtain se1 where 1: "emit_one (Some str_emit_func) c se = Ok (se1, if fresh \<or> length out < n then 0 else -1)" "emitted n d False (out @ call_bytes c) se1"
    using emitted_one [OF Cons.prems(1,2)] Cons.prems(3) by auto
  then show ?case using Cons.IH [OF 1(2) Cons.prems(2)] Cons.prems(3) by (auto simp: emit_codes_Cons)
qed

text \<open>C34: Whatever calls, of less than 2^31 bytes each, write to a string emitter over \<open>n + 1\<close> bytes, the string is the first \<open>n\<close> bytes of all they write, and a 0 when it is
  terminated; a call returns 0 if it is the first one or the calls before it wrote less than \<open>n\<close> bytes, and -1 otherwise.\<close>

theorem string_emitter_truncates:
  assumes "length d = Suc n" "\<forall>c \<in> set cs. call_ok c" "cs \<noteq> []"
  shows "obind (string_emitter_init (Some d) (Suc n)) (\<lambda>se. obind (emit_calls (Some str_emit_func) cs se) (\<lambda>(se, rs).
      obind (string_emitter_terminate se) (\<lambda>se. Ok (se_data se, rs))))
    = (let out = concat (map call_bytes cs) in
       Ok (take n out @ 0 # drop (Suc (min n (length out))) d,
           map (\<lambda>i. if i = 0 \<or> length (concat (map call_bytes (take i cs))) < n then 0 else -1) [0..<length cs]))"
proof -
  let ?se = "\<lparr>emit_state = EMIT_OK, se_data = d, se_len = n, se_fill = 0\<rparr>" and ?out = "concat (map call_bytes cs)"
  have "emitted n d True [] ?se" by (simp add: emitted_def)
  from emitted_calls [OF this assms(1,2)] assms(3) obtain se where se:
    "emit_calls (Some str_emit_func) cs ?se = Ok (se, emit_codes n True [] cs)" "emitted n d False ?out se" by auto
  let ?f = "min n (length ?out)"
  have e: "se_len se = n" "se_fill se = ?f" "se_data se = take n ?out @ drop ?f d" using se(2) by (simp_all add: emitted_def)
  have "block_write (se_data se) ?f [0] = Ok (take n ?out @ 0 # drop (Suc ?f) d)" using assms(1) by (simp add: e(3) take_min_len min.commute [of n])
  then have "string_emitter_terminate se = Ok (se\<lparr>se_data := take n ?out @ 0 # drop (Suc ?f) d, emit_state := EMIT_EOS\<rparr>)"
    by (simp add: string_emitter_terminate_def e)
  then show ?thesis using se(1) by (simp add: string_emitter_init_def emit_codes_def Let_def)
qed

lemma string_emitter_truncates_witness:
  "obind (string_emitter_init (Some [9, 9, 9, 9]) 4) (\<lambda>se. obind (emit_calls (Some str_emit_func) [EChar 1, EStr [2, 3, 4, 0], ERaw [5]] se) (\<lambda>(se, rs).
      obind (string_emitter_terminate se) (\<lambda>se. Ok (se_data se, rs)))) = Ok ([1, 2, 3, 0], [0, 0, -1])"
  using string_emitter_truncates [of "[9, 9, 9, 9]" 3 "[EChar 1, EStr [2, 3, 4, 0], ERaw [5]]"] by (simp add: Let_def)

text \<open>Reading a string back, in pieces of any size.\<close>

fun read_pieces :: "'i inp_read_f option \<Rightarrow> int list \<Rightarrow> 'i \<Rightarrow> ('i \<times> byte list list) outcome" where
  "read_pieces func [] inp = Ok (inp, [])"
| "read_pieces func (n # ns) inp = obind (inp_read func False n inp) (\<lambda>(inp, b, rv). obind (read_pieces func ns inp) (\<lambda>(inp, bs). Ok (inp, b # bs)))"

fun get_chars :: "'i inp_read_f option \<Rightarrow> nat \<Rightarrow> 'i \<Rightarrow> ('i \<times> int list) outcome" where
  "get_chars func 0 inp = Ok (inp, [])"
| "get_chars func (Suc k) inp = obind (inp_getc func inp) (\<lambda>(inp, c). obind (get_chars func k inp) (\<lambda>(inp, cs). Ok (inp, c # cs)))"

lemma csinp_read_ok:
  assumes "csi_str csi = Some (xs @ r)" "csi_slen csi = length xs" "csi_off csi = k" "0 < n" "k \<le> length xs"
  shows "inp_read (Some csinp_read) False n csi =
    Ok (csi\<lparr>csi_off := min (length xs) (k + nat n)\<rparr>, take (nat n) (drop k xs), int (length (take (nat n) (drop k xs))))"
  using assms by (auto simp: inp_read_def csinp_read_def Let_def min_def)

lemma csinp_pieces_ok:
  assumes "csi_str csi = Some (xs @ r)" "csi_slen csi = length xs" "csi_off csi = k" "k \<le> length xs" "\<forall>n \<in> set ns. 0 < n"
  shows "\<exists>csi' bs. read_pieces (Some csinp_read) ns csi = Ok (csi', bs) \<and> concat bs = take (nat (sum_list ns)) (drop k xs)"
  using assms
proof (induction ns arbitrary: csi k)
  case (Cons n ns)
  let ?k = "min (length xs) (k + nat n)"
  have "0 \<le> sum_list ns" using Cons.prems(5) by (intro sum_list_nonneg) auto
  then have n: "0 < n" "nat (n + sum_list ns) = nat n + nat (sum_list ns)" using Cons.prems(5) by (auto simp: nat_add_distrib)
  note rd = csinp_read_ok [OF Cons.prems(1-3) n(1) Cons.prems(4)]
  obtain csi' bs where "read_pieces (Some csinp_read) ns (csi\<lparr>csi_off := ?k\<rparr>) = Ok (csi', bs)" "concat bs = take (nat (sum_list ns)) (drop ?k xs)"
    using Cons.IH [of "csi\<lparr>csi_off := ?k\<rparr>" ?k] Cons.prems by auto
  moreover have "take (nat n) (drop k xs) @ take m (drop ?k xs) = take (nat n + m) (drop k xs)" for m
    by (cases "k + nat n \<le> length xs") (simp_all add: take_add min_absorb2 add.commute [of k "nat n"])
  ultimately show ?case by (simp add: rd n(2))
qed simp

lemma csinp_chars_ok:
  assumes "csi_str csi = Some (xs @ r)" "csi_slen csi = length xs" "csi_off csi = k" "k \<le> length xs"
  shows "\<exists>csi'. get_chars (Some csinp_read) j csi = Ok (csi', map sint (take j (drop k xs)) @ replicate (j - (length xs - k)) (-1))"
  using assms
proof (induction j arbitrary: csi k)
  case (Suc j)
  note rd = csinp_read_ok [OF Suc.prems(1-3) _ Suc.prems(4), of 1]
  show ?case
  proof (cases "k < length xs")
    case True
    then have d: "drop k xs = xs ! k # drop (Suc k) xs" by (simp add: Cons_nth_drop_Suc)
    have g: "inp_getc (Some csinp_read) csi = Ok (csi\<lparr>csi_off := Suc k\<rparr>, sint (xs ! k))" using True by (simp add: inp_getc_def rd d)
    then show ?thesis using Suc.IH [of "csi\<lparr>csi_off := Suc k\<rparr>" "Suc k"] Suc.prems True by (auto simp: d Suc_diff_le)
  next
    case False
    then have "inp_getc (Some csinp_read) csi = Ok (csi\<lparr>csi_off := k\<rparr>, -1)" using Suc.prems(4) by (simp add: inp_getc_def rd)
    then show ?thesis using Suc.IH [of "csi\<lparr>csi_off := k\<rparr>" k] Suc.prems False by auto
  qed
qed simp

text \<open>A port over a string reads it back: in pieces of any lengths the pieces together are the string, or as much of it as
  was asked for, and character by character the calls return the string's bytes as signed characters and -1 after the end, so
  that a byte 255 cannot be told from the end.\<close>

theorem csinp_reads_string:
  assumes "0 \<notin> set xs" "\<forall>n \<in> set ns. 0 < n"
  shows "\<exists>csi. csinp_init (Some (xs @ 0 # r)) = Ok csi \<and>
    (\<exists>csi' bs. read_pieces (Some csinp_read) ns csi = Ok (csi', bs) \<and> concat bs = take (nat (sum_list ns)) xs) \<and>
    (\<exists>csi'. get_chars (Some csinp_read) j csi = Ok (csi', map sint (take j xs) @ replicate (j - length xs) (-1))) \<and> sint (255 :: byte) = -1"
proof -
  let ?csi = "\<lparr>csi_str = Some (xs @ 0 # r), csi_slen = length xs, csi_off = 0\<rparr>"
  have i: "csinp_init (Some (xs @ 0 # r)) = Ok ?csi" using assms(1) by (simp add: csinp_init_def strlen_ok)
  show ?thesis using i csinp_pieces_ok [of ?csi xs "0 # r" 0 ns] csinp_chars_ok [of ?csi xs "0 # r" 0 j] assms(2) by simp
qed

lemma csinp_reads_string_witness:
  "\<exists>csi csi' csi'' bs. csinp_init (Some [104, 255, 105, 0]) = Ok csi \<and> read_pieces (Some csinp_read) [2, 5] csi = Ok (csi', bs) \<and> concat bs = [104, 255, 105]
    \<and> get_chars (Some csinp_read) 4 csi = Ok (csi'', [104, -1, 105, -1])"
  using csinp_reads_string [of "[104, 255, 105]" "[2, 5]" "[]" 4] by auto

end
