(* ===== verification/CatStr.thy ===== *)
theory CatStr
  imports BoyerMoore Utf8 CString Loops
begin

text \<open>
  Strings with a length and a capacity (src/catstr.c): the operations that do not allocate.  The block of
  a string is one byte longer than its capacity; a pointer into it is what follows it.
\<close>

section \<open>The operations\<close>

record catstr =
  cs_size :: nat
  cs_dlen :: nat
  cs_data :: "byte list option"

definition CS_MAXLEN :: nat where "CS_MAXLEN = 2 ^ 64 - 1 - 3"
definition CS_ERROR :: nat where "CS_ERROR = CS_MAXLEN + 1"
definition CS_NOTFOUND :: nat where "CS_NOTFOUND = CS_MAXLEN + 2"

text \<open>The test of \<open>CKCS\<close>: the block of a good string, and \<open>None\<close> when the operation returns its error.\<close>

definition CKCS :: "catstr \<Rightarrow> byte list option" where
  "CKCS cs = (case cs_data cs of None \<Rightarrow> None
     | Some d \<Rightarrow> if cs_size cs > CS_MAXLEN \<or> cs_dlen cs > cs_size cs then None else Some d)"

text \<open>A refused string keeps the length it had.\<close>

definition cs_init :: "catstr \<Rightarrow> byte list option \<Rightarrow> nat \<Rightarrow> bool \<Rightarrow> catstr outcome" where
  "cs_init cs data siz data_is_str =
     obind (case data of None \<Rightarrow> Ok 0 | Some d \<Rightarrow> if data_is_str then strlen d else Ok 0) (\<lambda>dlen.
       if siz > CS_MAXLEN \<or> siz < 1 \<or> dlen > siz - 1 then Ok (cs\<lparr>cs_size := 0, cs_data := None\<rparr>)
       else (case data of None \<Rightarrow> Fault | Some d \<Rightarrow>
         obind (block_write d dlen [0]) (\<lambda>d. Ok \<lparr>cs_size = siz - 1, cs_dlen = dlen, cs_data = Some d\<rparr>)))"

definition cs_clear :: "catstr \<Rightarrow> catstr outcome" where
  "cs_clear cs = (case CKCS cs of None \<Rightarrow> Ok cs | Some d \<Rightarrow>
     obind (block_write d 0 [0]) (\<lambda>d. Ok (cs\<lparr>cs_dlen := 0, cs_data := Some d\<rparr>)))"

definition cs_set_cstr :: "catstr \<Rightarrow> byte list \<Rightarrow> (catstr \<times> nat) outcome" where
  "cs_set_cstr cs cstr = (case CKCS cs of None \<Rightarrow> Ok (cs, CS_ERROR) | Some d \<Rightarrow>
     obind (strlen cstr) (\<lambda>n.
       if n > CS_MAXLEN \<or> n > cs_size cs then Ok (cs, CS_ERROR)
       else obind (block_write d 0 (take n cstr)) (\<lambda>d. obind (block_write d n [0]) (\<lambda>d.
         Ok (cs\<lparr>cs_dlen := n, cs_data := Some d\<rparr>, n)))))"

definition cs_trunc_d :: "catstr \<Rightarrow> nat \<Rightarrow> (catstr \<times> nat) outcome" where
  "cs_trunc_d cs len = (case CKCS cs of None \<Rightarrow> Ok (cs, CS_ERROR) | Some d \<Rightarrow>
     if len < cs_dlen cs then obind (block_write d len [0]) (\<lambda>d. Ok (cs\<lparr>cs_dlen := len, cs_data := Some d\<rparr>, len))
     else Ok (cs, cs_dlen cs))"

definition cs_concat_d :: "catstr \<Rightarrow> catstr \<Rightarrow> (catstr \<times> nat) outcome" where
  "cs_concat_d dst src = (case (CKCS dst, CKCS src) of
       (Some d, Some s) \<Rightarrow>
         if CS_MAXLEN - cs_dlen dst > cs_dlen src then Ok (dst, CS_ERROR)
         else
           let tomove = cs_size dst - cs_dlen dst; tomove = (if tomove > cs_dlen src then cs_dlen src else tomove); tlen = tomove + cs_dlen dst in
           obind (block_read s 0 tomove) (\<lambda>bs. obind (block_write d (cs_dlen dst) bs) (\<lambda>d. obind (block_write d tlen [0]) (\<lambda>d.
             Ok (dst\<lparr>cs_dlen := tlen, cs_data := Some d\<rparr>, tlen))))
     | _ \<Rightarrow> Ok (dst, CS_ERROR))"

definition cs_copy_d :: "catstr \<Rightarrow> catstr \<Rightarrow> (catstr \<times> nat) outcome" where
  "cs_copy_d dst src = (case (CKCS dst, CKCS src) of
       (Some d, Some s) \<Rightarrow>
         let tocopy = (if cs_dlen src \<ge> cs_size dst then (cs_size dst + 2 ^ 64 - 1) mod 2 ^ 64 else cs_dlen src) in
         obind (block_read s 0 tocopy) (\<lambda>bs. obind (block_write d 0 bs) (\<lambda>d. obind (block_write d tocopy [0]) (\<lambda>d.
           Ok (dst\<lparr>cs_dlen := tocopy, cs_data := Some d\<rparr>, tocopy))))
     | _ \<Rightarrow> Ok (dst, CS_ERROR))"

definition cs_rev_off :: "catstr \<Rightarrow> nat \<Rightarrow> nat" where
  "cs_rev_off cs roff = (case CKCS cs of None \<Rightarrow> CS_ERROR | Some d \<Rightarrow>
     let roff = (if roff > cs_dlen cs then cs_dlen cs else roff) in cs_dlen cs - roff)"

subsection \<open>Searching for bytes\<close>

text \<open>The loops run from a pointer with the number of bytes to the end.\<close>

fun cs_find_cc_loop :: "byte list \<Rightarrow> nat \<Rightarrow> byte \<Rightarrow> nat \<Rightarrow> nat outcome" where
  "cs_find_cc_loop cp 0 ch off = Ok CS_NOTFOUND"
| "cs_find_cc_loop [] (Suc n) ch off = Fault"
| "cs_find_cc_loop (c # cp) (Suc n) ch off = (if c \<noteq> ch then cs_find_cc_loop cp n ch (off + 1) else Ok off)"

definition cs_find_cc :: "catstr \<Rightarrow> byte \<Rightarrow> nat outcome" where
  "cs_find_cc cs ch = (case CKCS cs of None \<Rightarrow> Ok CS_ERROR | Some d \<Rightarrow> cs_find_cc_loop d (cs_dlen cs) ch 0)"

fun cs_among :: "byte \<Rightarrow> byte list \<Rightarrow> bool outcome" where
  "cs_among c [] = Fault"
| "cs_among c (a # ap) = (if a = 0 then Ok False else if c = a then Ok True else cs_among c ap)"

text \<open>\<open>want\<close>: what the inner loop must find for the outer one to go on.\<close>

fun cs_span_loop :: "bool \<Rightarrow> byte list \<Rightarrow> nat \<Rightarrow> byte list \<Rightarrow> nat \<Rightarrow> nat outcome" where
  "cs_span_loop want cp 0 ap off = Ok off"
| "cs_span_loop want [] (Suc n) ap off = Fault"
| "cs_span_loop want (c # cp) (Suc n) ap off = obind (cs_among c ap) (\<lambda>b. if b \<noteq> want then Ok off else cs_span_loop want cp n ap (off + 1))"

definition cs_span_cc :: "catstr \<Rightarrow> byte list \<Rightarrow> nat outcome" where
  "cs_span_cc cs accept = (case CKCS cs of None \<Rightarrow> Ok CS_ERROR | Some d \<Rightarrow> cs_span_loop True d (cs_dlen cs) accept 0)"

definition cs_cspan_cc :: "catstr \<Rightarrow> byte list \<Rightarrow> nat outcome" where
  "cs_cspan_cc cs reject = (case CKCS cs of None \<Rightarrow> Ok CS_ERROR | Some d \<Rightarrow> cs_span_loop False d (cs_dlen cs) reject 0)"

subsection \<open>Searching for characters\<close>

fun uc_same :: "byte list \<Rightarrow> byte list \<Rightarrow> nat \<Rightarrow> bool outcome" where
  "uc_same s f 0 = Ok True"
| "uc_same (a # s) (b # f) (Suc n) = (if a \<noteq> b then Ok False else uc_same s f n)"
| "uc_same s f (Suc n) = Fault"

lemma first_zero_nonneg: "0 \<le> first_zero c b"
  by (induction b) auto

lemma utf8_nbytes_nz: "\<not> utf8_nbytes c < 0 \<Longrightarrow> 0 < utf8_nbytes c"
  using first_zero_nonneg [of c 8] by (auto simp: utf8_lentab_correct utf8_find_nbytes_def Let_def split: if_splits)

function cs_find_uc_loop :: "byte list \<Rightarrow> nat \<Rightarrow> byte list \<Rightarrow> int \<Rightarrow> nat \<Rightarrow> nat outcome" where
  "cs_find_uc_loop scp dlen fcp fcs off =
     (if off < dlen then
        (case drop off scp of [] \<Rightarrow> Fault | c # _ \<Rightarrow>
           let scs = utf8_nbytes c in
           if scs < 0 then Ok CS_ERROR
           else if fcs \<noteq> scs then cs_find_uc_loop scp dlen fcp fcs (off + nat scs)
           else obind (uc_same (drop off scp) fcp (nat scs)) (\<lambda>same.
             if same then cs_find_uc_loop scp dlen fcp fcs (off + nat scs) else Ok off))
      else Ok (if off = dlen then CS_NOTFOUND else off))"
  by pat_completeness auto
termination by (relation "measure (\<lambda>(scp, dlen, fcp, fcs, off). dlen - off)") (use utf8_nbytes_nz in \<open>auto intro!: diff_less_mono2\<close>)

declare cs_find_uc_loop.simps [simp del]

definition cs_find_uc :: "catstr \<Rightarrow> byte list \<Rightarrow> nat outcome" where
  "cs_find_uc cs utf8ch = (case CKCS cs of None \<Rightarrow> Ok CS_ERROR | Some d \<Rightarrow>
     (case utf8ch of [] \<Rightarrow> Fault | c # _ \<Rightarrow>
        if utf8_nbytes c < 0 then Ok CS_ERROR else cs_find_uc_loop d (cs_dlen cs) utf8ch (utf8_nbytes c) 0))"

text \<open>The lengths are compared with \<open>CS_ERROR\<close> as 64-bit numbers.\<close>

definition utf8match :: "byte list \<Rightarrow> byte list \<Rightarrow> int outcome" where
  "utf8match c1 c2 = (case (c1, c2) of
       (x # _, y # _) \<Rightarrow>
         let c1b = utf8_nbytes x; c2b = utf8_nbytes y in
         if c1b mod 2 ^ 64 = int CS_ERROR \<or> c2b mod 2 ^ 64 = int CS_ERROR then Ok (-1)
         else obind (uc_same c1 c2 (nat c1b)) (\<lambda>same. Ok (if same then 0 else c2b))
     | _ \<Rightarrow> Fault)"

datatype uc_match = UcErr | UcFound | UcNone

fun uc_scan :: "byte list \<Rightarrow> byte list \<Rightarrow> nat \<Rightarrow> nat \<Rightarrow> uc_match outcome" where
  "uc_scan s fcp u8off 0 = Ok UcNone"
| "uc_scan s fcp u8off (Suc n) = obind (utf8match s (drop u8off fcp)) (\<lambda>mr.
     if mr < 0 then Ok UcErr else if mr = 0 then Ok UcFound else uc_scan s fcp (u8off + nat mr) n)"

function cs_span_uc_loop :: "byte list \<Rightarrow> nat \<Rightarrow> byte list \<Rightarrow> nat \<Rightarrow> nat \<Rightarrow> nat outcome" where
  "cs_span_uc_loop scp dlen fcp nc off =
     (if off < dlen then
        obind (uc_scan (drop off scp) fcp 0 nc) (\<lambda>m.
          if m = UcErr then Ok CS_ERROR
          else if m = UcNone then Ok off
          else (case drop off scp of [] \<Rightarrow> Fault | c # _ \<Rightarrow>
            if utf8_nbytes c < 0 then Ok CS_ERROR else cs_span_uc_loop scp dlen fcp nc (off + nat (utf8_nbytes c))))
      else Ok off)"
  by pat_completeness auto
termination by (relation "measure (\<lambda>(scp, dlen, fcp, nc, off). dlen - off)") (use utf8_nbytes_nz in \<open>auto intro!: diff_less_mono2\<close>)

declare cs_span_uc_loop.simps [simp del]

definition cs_span_uc :: "catstr \<Rightarrow> byte list \<Rightarrow> int \<Rightarrow> nat outcome" where
  "cs_span_uc cs utf8ch nc = (case CKCS cs of None \<Rightarrow> Ok CS_ERROR | Some d \<Rightarrow>
     abort_unless (nc > 0) (cs_span_uc_loop d (cs_dlen cs) utf8ch (nat nc) 0))"

text \<open>Nothing is tested here before the step to the next character, so this loop need not end by itself.\<close>

definition cs_cspan_uc :: "catstr \<Rightarrow> byte list \<Rightarrow> int \<Rightarrow> nat run" where
  "cs_cspan_uc cs utf8ch nc = (case CKCS cs of None \<Rightarrow> ret CS_ERROR | Some d \<Rightarrow>
     if \<not> nc > 0 then Some Abort
     else
       rbind (while_run (\<lambda>(off, out). Ok (off < cs_dlen cs \<and> out = None))
         (\<lambda>(off, out). rbind (Some (uc_scan (drop off d) utf8ch 0 (nat nc))) (\<lambda>m.
            if m = UcErr then ret (off, Some CS_ERROR)
            else if m = UcFound then ret (off, Some off)
            else (case drop off d of [] \<Rightarrow> Some Fault | c # _ \<Rightarrow> ret (nat ((int off + utf8_nbytes c) mod 2 ^ 64), None))))
         (0, None)) (\<lambda>(off, out). ret (case out of None \<Rightarrow> off | Some r \<Rightarrow> r)))"

subsection \<open>Searching for strings\<close>

definition cs_find_raw :: "bmpat \<Rightarrow> catstr \<Rightarrow> byte list \<Rightarrow> nat outcome" where
  "cs_find_raw bmp findin r = (case CKCS findin of None \<Rightarrow> Ok CS_ERROR | Some d \<Rightarrow>
     obind (bm_match (take (cs_dlen findin) d) (bm_pinit_lite bmp r)) (\<lambda>m. Ok (case m of None \<Rightarrow> CS_NOTFOUND | Some off \<Rightarrow> off)))"

definition cs_find :: "bmpat \<Rightarrow> catstr \<Rightarrow> catstr \<Rightarrow> nat outcome" where
  "cs_find bmp findin fin = (case (CKCS findin, CKCS fin) of
     (Some d, Some f) \<Rightarrow> cs_find_raw bmp findin (take (cs_dlen fin) f) | _ \<Rightarrow> Ok CS_ERROR)"

definition cs_find_str :: "bmpat \<Rightarrow> catstr \<Rightarrow> byte list \<Rightarrow> nat outcome" where
  "cs_find_str bmp findin s = (case CKCS findin of None \<Rightarrow> Ok CS_ERROR | Some d \<Rightarrow>
     obind (strlen s) (\<lambda>n. cs_find_raw bmp findin (take n s)))"

section \<open>What a string holds\<close>

definition cs_holds :: "catstr \<Rightarrow> byte list \<Rightarrow> bool" where
  "cs_holds cs xs \<longleftrightarrow> (\<exists>r. cs_data cs = Some (xs @ 0 # r) \<and> length xs + length r = cs_size cs) \<and> cs_size cs \<le> CS_MAXLEN \<and> cs_dlen cs = length xs"

lemma cs_holds_ck:
  assumes "cs_holds cs xs"
  obtains r where "CKCS cs = Some (xs @ 0 # r)" "length xs + length r = cs_size cs" "cs_dlen cs = length xs" "length xs \<le> cs_size cs"
  using assms by (auto simp: cs_holds_def CKCS_def)

lemma cs_find_cc_loop_ok: "cs_find_cc_loop (xs @ r) (length xs) ch off = Ok (if ch \<in> set xs then off + length (takeWhile (\<lambda>c. c \<noteq> ch) xs) else CS_NOTFOUND)"
  by (induction xs arbitrary: off) auto

lemma cs_among_ok: "0 \<notin> set acc \<Longrightarrow> cs_among c (acc @ 0 # r) = Ok (c \<in> set acc)"
  by (induction acc) auto

lemma cs_span_loop_ok: "0 \<notin> set acc \<Longrightarrow> cs_span_loop want (xs @ t) (length xs) (acc @ 0 # r) off = Ok (off + length (takeWhile (\<lambda>c. (c \<in> set acc) = want) xs))"
  by (induction xs arbitrary: off) (auto simp: cs_among_ok)

text \<open>A text of ASCII characters.\<close>

definition ascii_text :: "byte list \<Rightarrow> bool" where
  "ascii_text xs \<longleftrightarrow> (\<forall>c \<in> set xs. c < 128)"

lemma ascii_nbytes: "c < 128 \<Longrightarrow> utf8_nbytes c = 1"
  by (simp add: utf8_nbytes_def utf8_lentab_def nth_append word_less_nat_alt)

lemma utf8match_ascii: "a < 128 \<Longrightarrow> b < 128 \<Longrightarrow> utf8match (a # s) (b # f) = Ok (if a = b then 0 else 1)"
  by (simp add: utf8match_def ascii_nbytes CS_ERROR_def CS_MAXLEN_def Let_def)

lemma uc_scan_ascii:
  assumes "a < 128" "ascii_text acc" "u8off + n = length acc"
  shows "uc_scan (a # s) (acc @ r) u8off n = Ok (if a \<in> set (drop u8off acc) then UcFound else UcNone)"
  using assms(3)
proof (induction n arbitrary: u8off)
  case (Suc n)
  then have d: "drop u8off acc = acc ! u8off # drop (Suc u8off) acc" "acc ! u8off < 128"
    using assms(2) by (auto simp: Cons_nth_drop_Suc ascii_text_def)
  then have "utf8match (a # s) (drop u8off (acc @ r)) = Ok (if a = acc ! u8off then 0 else 1)" using utf8match_ascii [OF assms(1)] Suc.prems by simp
  then show ?case using Suc.IH [of "Suc u8off"] Suc.prems d(1) by auto
qed auto

lemma ascii_at:
  assumes "ascii_text xs" "off < length xs"
  shows "drop off xs = xs ! off # drop (Suc off) xs" "xs ! off < 128" "utf8_nbytes (xs ! off) = 1"
  using assms ascii_nbytes [of "xs ! off"] by (auto simp: Cons_nth_drop_Suc ascii_text_def)

lemma drop_at: "off < length xs \<Longrightarrow> drop off (xs @ t) = xs ! off # drop (Suc off) (xs @ t)"
  using Cons_nth_drop_Suc [of off "xs @ t"] by (simp add: nth_append)

lemma cs_find_uc_loop_ascii:
  assumes "ascii_text xs" "off \<le> length xs"
  shows "cs_find_uc_loop (xs @ t) (length xs) (ch # r) 1 off
    = Ok (if set (drop off xs) \<subseteq> {ch} then CS_NOTFOUND else off + length (takeWhile (\<lambda>c. c = ch) (drop off xs)))"
  using assms(2)
proof (induction "length xs - off" arbitrary: off)
  case 0
  then show ?case by (simp add: cs_find_uc_loop.simps [of _ _ _ _ off])
next
  case (Suc n)
  then have off: "off < length xs" by linarith
  note a = ascii_at [OF assms(1) off] and d = drop_at [OF off, of t]
  have n: "n = length xs - Suc off" using Suc by linarith
  show ?case using Suc.hyps(1) [OF n] off a(3) by (subst cs_find_uc_loop.simps) (simp add: a(1) d)
qed

lemma cs_span_uc_loop_ascii:
  assumes "ascii_text xs" "ascii_text acc" "off \<le> length xs"
  shows "cs_span_uc_loop (xs @ t) (length xs) (acc @ r) (length acc) off = Ok (off + length (takeWhile (\<lambda>c. c \<in> set acc) (drop off xs)))"
  using assms(3)
proof (induction "length xs - off" arbitrary: off)
  case 0
  then show ?case by (simp add: cs_span_uc_loop.simps [of _ _ _ _ off])
next
  case (Suc n)
  then have off: "off < length xs" by linarith
  note a = ascii_at [OF assms(1) off] and d = drop_at [OF off, of t]
  have n: "n = length xs - Suc off" using Suc by linarith
  have "uc_scan (drop off (xs @ t)) (acc @ r) 0 (length acc) = Ok (if xs ! off \<in> set acc then UcFound else UcNone)"
    unfolding d using uc_scan_ascii [OF a(2) assms(2), of 0 "length acc"] by simp
  then show ?case using Suc.hyps(1) [OF n] off a(3) by (subst cs_span_uc_loop.simps) (simp add: a(1) d)
qed

lemma cs_cspan_uc_ascii:
  assumes "cs_holds cs xs" "ascii_text xs" "ascii_text acc" "acc \<noteq> []"
  shows "cs_cspan_uc cs (acc @ r) (int (length acc)) = ret (length (takeWhile (\<lambda>c. c \<notin> set acc) xs))"
proof -
  obtain t where t: "CKCS cs = Some (xs @ 0 # t)" "cs_dlen cs = length xs" "length xs + length t = cs_size cs" using assms(1) by (rule cs_holds_ck)
  have len: "length xs < 2 ^ 64 - 2" using assms(1) t(3) by (simp add: cs_holds_def CS_MAXLEN_def)
  let ?b = "\<lambda>(off, out). Ok (off < length xs \<and> out = None)"
  let ?c = "\<lambda>(off, out). rbind (Some (uc_scan (drop off (xs @ 0 # t)) (acc @ r) 0 (nat (int (length acc))))) (\<lambda>m.
            if m = UcErr then ret (off, Some CS_ERROR)
            else if m = UcFound then ret (off, Some off)
            else (case drop off (xs @ 0 # t) of [] \<Rightarrow> Some Fault | c # _ \<Rightarrow> ret (nat ((int off + utf8_nbytes c) mod 2 ^ 64), None)))"
  let ?k = "\<lambda>off. off + length (takeWhile (\<lambda>c. c \<notin> set acc) (drop off xs))"
  have "\<exists>off' out. while_run ?b ?c (off, None) = ret (off', out) \<and> (case out of None \<Rightarrow> off' | Some r \<Rightarrow> r) = ?k off" if "off \<le> length xs" for off
    using that
  proof (induction "length xs - off" arbitrary: off)
    case 0
    then show ?case by (simp add: while_run.simps)
  next
    case (Suc n)
    then have off: "off < length xs" by linarith
    note a = ascii_at [OF assms(2) off] and d = drop_at [OF off, of "0 # t"]
    have n: "n = length xs - Suc off" using Suc by linarith
    have scan: "uc_scan (drop off (xs @ 0 # t)) (acc @ r) 0 (length acc) = Ok (if xs ! off \<in> set acc then UcFound else UcNone)"
      unfolding d using uc_scan_ascii [OF a(2) assms(3), of 0 "length acc"] by simp
    show ?case
    proof (cases "xs ! off \<in> set acc")
      case True
      have "?c (off, None) = ret (off, Some off)" unfolding split nat_int scan using True by simp
      then have "while_run ?b ?c (off, None) = ret (off, Some off)" using off by (simp add: while_run.simps)
      then show ?thesis using True a(1) by simp
    next
      case False
      have "nat ((int off + 1) mod 2 ^ 64) = Suc off" using off len by (simp add: mod_pos_pos_trivial)
      then have "?c (off, None) = ret (Suc off, None)" unfolding split nat_int scan unfolding d using False a(3) by simp
      then have "while_run ?b ?c (off, None) = while_run ?b ?c (Suc off, None)" using off by (intro while_run_step(1)) auto
      then show ?thesis using Suc.hyps(1) [OF n] off a(1) False by simp
    qed
  qed
  from this [of 0] show ?thesis using assms(4) t(1,2) by (auto simp: cs_cspan_uc_def)
qed

lemma store_nul: "n \<le> length ys \<Longrightarrow> n < length d \<Longrightarrow> block_write (take n ys @ drop n d) n [0 :: byte] = Ok (take n ys @ 0 # drop (Suc n) d)"
  by (simp add: block_write_def Suc_diff_le)

text \<open>Storing and cutting keep a string good.\<close>

lemma cs_init_ok:
  assumes "0 \<notin> set xs" "Suc (length xs + length r) = siz" "siz \<le> CS_MAXLEN"
  shows "\<exists>cs'. cs_init cs (Some (xs @ 0 # r)) siz True = Ok cs' \<and> cs_holds cs' xs"
  using assms by (auto simp: cs_init_def strlen_ok cs_holds_def)

lemma cs_trunc_d_ok:
  assumes "cs_holds cs xs"
  shows "\<exists>cs'. cs_trunc_d cs n = Ok (cs', min n (length xs)) \<and> cs_holds cs' (take n xs)"
proof -
  obtain t where t: "CKCS cs = Some (xs @ 0 # t)" "length xs + length t = cs_size cs" "cs_dlen cs = length xs" using assms by (rule cs_holds_ck)
  show ?thesis
  proof (cases "n < length xs")
    case True
    then have "cs_trunc_d cs n = Ok (cs\<lparr>cs_dlen := n, cs_data := Some (take n xs @ 0 # drop (Suc n) (xs @ 0 # t))\<rparr>, n)"
      unfolding cs_trunc_d_def t(1,3) using t(2) by (simp add: block_write_def)
    then show ?thesis using True assms t(2) by (auto simp: cs_holds_def)
  qed (use assms in \<open>simp add: cs_trunc_d_def t\<close>)
qed

lemma cs_set_cstr_ok:
  assumes "cs_holds cs xs" "0 \<notin> set ys"
  shows "if length ys \<le> cs_size cs then \<exists>cs'. cs_set_cstr cs (ys @ 0 # r) = Ok (cs', length ys) \<and> cs_holds cs' ys
    else cs_set_cstr cs (ys @ 0 # r) = Ok (cs, CS_ERROR)"
proof -
  obtain t where t: "CKCS cs = Some (xs @ 0 # t)" "length xs + length t = cs_size cs" using assms by - (rule cs_holds_ck)
  have m: "cs_size cs \<le> CS_MAXLEN" using assms by (simp add: cs_holds_def)
  show ?thesis
  proof (cases "length ys \<le> cs_size cs")
    case True
    define d where "d = xs @ 0 # t"
    have d: "length d = Suc (cs_size cs)" using t(2) by (simp add: d_def)
    have "block_write (take (length ys) ys @ drop (length ys) d) (length ys) [0] = Ok (take (length ys) ys @ 0 # drop (Suc (length ys)) d)"
      by (rule store_nul) (use True d in simp_all)
    then have "cs_set_cstr cs (ys @ 0 # r) = Ok (cs\<lparr>cs_dlen := length ys, cs_data := Some (ys @ 0 # drop (Suc (length ys)) d)\<rparr>, length ys)"
      using True m d assms(2) by (simp add: cs_set_cstr_def t(1) strlen_ok block_write_def flip: d_def)
    then show ?thesis using True m d by (auto simp: cs_holds_def)
  qed (use m assms(2) in \<open>simp add: cs_set_cstr_def t(1) strlen_ok\<close>)
qed

section \<open>The properties\<close>

lemma cs_find_uc_ascii:
  assumes "cs_holds cs xs" "ascii_text xs" "ch < 128"
  shows "cs_find_uc cs (ch # r) = Ok (if set xs \<subseteq> {ch} then CS_NOTFOUND else length (takeWhile (\<lambda>c. c = ch) xs))"
proof -
  obtain t where t: "CKCS cs = Some (xs @ 0 # t)" "cs_dlen cs = length xs" using assms(1) by (rule cs_holds_ck)
  then show ?thesis using cs_find_uc_loop_ascii [OF assms(2), of 0 "0 # t" ch r] ascii_nbytes [OF assms(3)] by (simp add: cs_find_uc_def)
qed

text \<open>C39: Searching a string for a byte gives the byte's first position, and \<open>CS_NOTFOUND\<close> when the string lacks it; the two span
  searches give the length of the longest front made of bytes that are, or are not, among those given.  On ASCII text the two span
  searches for UTF-8 characters give the same, but \<open>cs_find_uc\<close> gives the first position of a character other than the one asked for,
  and \<open>CS_NOTFOUND\<close> when there is none.\<close>

theorem cs_spans_correct:
  assumes "cs_holds cs xs" "0 \<notin> set acc" "acc \<noteq> []"
  shows "cs_find_cc cs ch = Ok (if ch \<in> set xs then length (takeWhile (\<lambda>c. c \<noteq> ch) xs) else CS_NOTFOUND)
    \<and> cs_span_cc cs (acc @ 0 # r) = Ok (length (takeWhile (\<lambda>c. c \<in> set acc) xs))
    \<and> cs_cspan_cc cs (acc @ 0 # r) = Ok (length (takeWhile (\<lambda>c. c \<notin> set acc) xs))
    \<and> (ascii_text xs \<and> ascii_text acc \<longrightarrow> cs_span_uc cs (acc @ 0 # r) (int (length acc)) = cs_span_cc cs (acc @ 0 # r)
        \<and> cs_cspan_uc cs (acc @ 0 # r) (int (length acc)) = Some (cs_cspan_cc cs (acc @ 0 # r)))
    \<and> (ascii_text xs \<and> ch < 128 \<longrightarrow>
        cs_find_uc cs (ch # r) = Ok (if set xs \<subseteq> {ch} then CS_NOTFOUND else length (takeWhile (\<lambda>c. c = ch) xs)))"
proof -
  obtain t where t: "CKCS cs = Some (xs @ 0 # t)" "cs_dlen cs = length xs" using assms(1) by (rule cs_holds_ck)
  have a: "cs_find_cc cs ch = Ok (if ch \<in> set xs then length (takeWhile (\<lambda>c. c \<noteq> ch) xs) else CS_NOTFOUND)"
    "cs_span_cc cs (acc @ 0 # r) = Ok (length (takeWhile (\<lambda>c. c \<in> set acc) xs))"
    "cs_cspan_cc cs (acc @ 0 # r) = Ok (length (takeWhile (\<lambda>c. c \<notin> set acc) xs))"
    by (simp_all add: cs_find_cc_def cs_span_cc_def cs_cspan_cc_def t cs_find_cc_loop_ok cs_span_loop_ok [OF assms(2)])
  have "cs_span_uc cs (acc @ 0 # r) (int (length acc)) = Ok (length (takeWhile (\<lambda>c. c \<in> set acc) xs))" if "ascii_text xs" "ascii_text acc"
    using cs_span_uc_loop_ascii [OF that, of 0 "0 # t" "0 # r"] assms(3) by (simp add: cs_span_uc_def t)
  then show ?thesis using a cs_cspan_uc_ascii [OF assms(1) _ _ assms(3), of "0 # r"] cs_find_uc_ascii [OF assms(1)] by simp
qed

lemma cs_spans_correct_witness:
  "let cs = \<lparr>cs_size = 4, cs_dlen = 3, cs_data = Some [97, 98, 99, 0, 7]\<rparr> in
    cs_find_cc cs 99 = Ok 2 \<and> cs_span_cc cs [98, 97, 0] = Ok 2 \<and> cs_span_uc cs [98, 97, 0] 2 = Ok 2 \<and> cs_find_uc cs [99] = Ok 0"
proof -
  have "cs_holds \<lparr>cs_size = 4, cs_dlen = 3, cs_data = Some [97, 98, 99, 0, 7]\<rparr> [97, 98, 99]" by (simp add: cs_holds_def CS_MAXLEN_def)
  from cs_spans_correct [OF this, of "[98, 97]" 99 "[]"] show ?thesis by (simp add: ascii_text_def)
qed

text \<open>Four operations do not do what they are for.  Every search for a string fails an assertion, because the pattern is
  prepared without the table the matcher needs; \<open>cs_find_uc\<close> finds, in ASCII text, the first character that is not the one
  asked for; \<open>cs_concat_d\<close> refuses all strings that are not together at the greatest length; and \<open>cs_copy_d\<close> copies a string that
  is shorter than the destination's capacity, but cuts one that fills it exactly.\<close>

theorem cs_wrong_results:
  assumes "cs_holds cs xs" "cs_holds src ys"
  shows "cs_find bmp cs src = Abort \<and> (0 \<notin> set zs \<longrightarrow> cs_find_str bmp cs (zs @ 0 # r) = Abort)
    \<and> (ascii_text xs \<and> ch < 128 \<longrightarrow> cs_find_uc cs (ch # r) = Ok (if set xs \<subseteq> {ch} then CS_NOTFOUND else length (takeWhile (\<lambda>c. c = ch) xs)))
    \<and> (length xs + length ys < CS_MAXLEN \<longrightarrow> cs_concat_d cs src = Ok (cs, CS_ERROR))
    \<and> (0 < cs_size cs \<longrightarrow> (\<exists>cs'. cs_copy_d cs src = Ok (cs', if length ys < cs_size cs then length ys else cs_size cs - 1)
        \<and> cs_holds cs' (take (cs_size cs - 1) ys)))"
proof -
  obtain t where t: "CKCS cs = Some (xs @ 0 # t)" "length xs + length t = cs_size cs" "cs_dlen cs = length xs" using assms(1) by (rule cs_holds_ck)
  obtain u where u: "CKCS src = Some (ys @ 0 # u)" "length ys + length u = cs_size src" "cs_dlen src = length ys" using assms(2) by (rule cs_holds_ck)
  have raw: "cs_find_raw bmp cs p = Abort" for p by (simp add: cs_find_raw_def t bm_match_def bm_pinit_lite_def Let_def)
  note uc = cs_find_uc_ascii [OF assms(1), of ch r]
  have cat: "cs_concat_d cs src = Ok (cs, CS_ERROR)" if "length xs + length ys < CS_MAXLEN"
  proof -
    have "CS_MAXLEN - length xs > length ys" using that by linarith
    then show ?thesis unfolding cs_concat_d_def t u by simp
  qed
  have cp: "\<exists>cs'. cs_copy_d cs src = Ok (cs', if length ys < cs_size cs then length ys else cs_size cs - 1) \<and> cs_holds cs' (take (cs_size cs - 1) ys)"
    if s: "0 < cs_size cs"
  proof -
    define n where "n = (if length ys < cs_size cs then length ys else cs_size cs - 1)"
    have m: "cs_size cs \<le> CS_MAXLEN" using assms(1) by (simp add: cs_holds_def)
    then have "(cs_size cs + 2 ^ 64 - 1) mod 2 ^ 64 = cs_size cs - 1" using s by (simp add: CS_MAXLEN_def mod_if)
    then have nn: "(if length ys \<ge> cs_size cs then (cs_size cs + 2 ^ 64 - 1) mod 2 ^ 64 else length ys) = n" by (simp add: n_def)
    have n: "n \<le> length ys" "n < cs_size cs" "take n ys = take (cs_size cs - 1) ys" using s by (auto simp: n_def)
    let ?d = "xs @ 0 # t"
    have len: "length ?d = Suc (cs_size cs)" using t(2) by simp
    have "block_read (ys @ 0 # u) 0 n = Ok (take n ys)" using n(1) by simp
    moreover have "block_write ?d 0 (take n ys) = Ok (take n ys @ drop n ?d)" using n(1,2) len by (simp add: block_write_def)
    moreover have "block_write (take n ys @ drop n ?d) n [0] = Ok (take n ys @ 0 # drop (Suc n) ?d)"
      by (rule store_nul) (use n(1,2) len in linarith)+
    ultimately have "cs_copy_d cs src = Ok (cs\<lparr>cs_dlen := n, cs_data := Some (take n ys @ 0 # drop (Suc n) ?d)\<rparr>, n)"
      unfolding cs_copy_d_def t(1) u(1) u(3) prod.case option.case Let_def nn by simp
    moreover have "cs_holds (cs\<lparr>cs_dlen := n, cs_data := Some (take n ys @ 0 # drop (Suc n) ?d)\<rparr>) (take n ys)"
      using n(1,2) len m by (auto simp: cs_holds_def)
    ultimately show ?thesis using n(3) by (auto simp: n_def)
  qed
  show ?thesis using raw uc cat cp by (simp add: cs_find_def cs_find_str_def t(1) u(1) strlen_ok)
qed

lemma cs_wrong_results_witness:
  "cs_find_uc \<lparr>cs_size = 4, cs_dlen = 3, cs_data = Some [97, 98, 99, 0, 7]\<rparr> [97] = Ok 1"
proof -
  have "cs_holds \<lparr>cs_size = 4, cs_dlen = 3, cs_data = Some [97, 98, 99, 0, 7]\<rparr> [97, 98, 99]" by (simp add: cs_holds_def CS_MAXLEN_def)
  from cs_wrong_results [OF this this, of "\<lparr>bm_last = [], bm_pat = [], bm_skips = None\<rparr>" "[]" "[]" 97] show ?thesis by (simp add: ascii_text_def)
qed

end
