(* ===== verification/Spec2Isabelle.thy ===== *)
theory Spec2Isabelle
  imports Ring DivMod Crc Bitops Arc4 Sha256 SipHash ArrayHeap QSort CString BoyerMoore Utf8 DeltaList Hash Str AvlTable SplayTable RbTable Grow Pool Buffer Emit CatStr
begin

text \<open>
  A verification development for catlib, a C library of containers, algorithms and a small
  freestanding C library (headers in include/cat, code in src).

  \<^bold>\<open>What the program is\<close>

  The library has no main program: its parts are containers that link nodes owned by the caller
  (lists, hash tables, heaps, trees), algorithms on arrays and strings (sorting, matching, bit
  manipulation, checksums, ciphers and hashes), encodings (UTF-8), and catlibc, the subset of
  the C library the rest needs on a bare machine.  The parts meet in a few interfaces: the
  comparison function \<open>cmp_f\<close>, which sorting, heaps, hash tables and lists call; the list node
  \<open>struct list\<close>, on which callback lists and timer queues are built; and \<open>abort_unless\<close>, the
  assertion that every function uses and that stops the program.

  \<^bold>\<open>How it is modelled\<close>

  Machine integers are words of the width the type has on LP64 (unsigned arithmetic wraps); a
  signed value whose overflow would be undefined is an \<open>int\<close> with a range check.  A call that
  can stop the program has a result of type \<open>'a outcome\<close> (\<open>CatPrelude\<close>): \<open>Ok\<close>, \<open>Abort\<close> for a
  failed \<open>abort_unless\<close>, \<open>Fault\<close> for an access outside an object or another undefined step.  A
  pointer into an array or a string is the list of what follows it, or an index; pointers that
  link nodes are addresses into an explicit heap, a map from addresses to nodes, with 0 as NULL.
  A loop that need not end is a \<open>'a run\<close> (\<open>Loops\<close>): \<open>None\<close> for a call that does not return.
  Loops are recursive functions with a termination proof, or \<open>partial_function\<close>s about which
  termination is proved where it holds.  No result depends on fuel that might run out: where a
  loop has a counter (the bytes left for SHA-256 and SipHash, the turns of a \<open>for\<close>) it is the
  loop's own measure, enough by the correctness theorems.  \<open>malloc\<close>, the memory
  managers and callbacks are parameters.

  \<^bold>\<open>Theories and sources\<close>

  \<^item> \<open>CatPrelude\<close>: outcomes, blocks of memory, facts on words and lists, the locale \<open>cmp_order\<close>
    for comparison functions and \<open>stream_hash\<close> for hashes fed in pieces (include/cat/cat.h).
  \<^item> \<open>Loops\<close>: computations that need not return, \<open>while_run\<close> and its rules.
  \<^item> \<open>Ring\<close> (src/ring.c): the byte ring buffer, a bounded FIFO under any calls; locale \<open>byte_fifo\<close>.
  \<^item> \<open>DivMod\<close> (src/aux.c, include/cat/hash.h): division by shifting and subtracting.
  \<^item> \<open>Crc\<close> (src/crc.c), \<open>Arc4\<close>, \<open>Sha256\<close>, \<open>SipHash\<close> (src/crypto.c): against bitwise or
    published specifications.
  \<^item> \<open>Bitops\<close> (src/bitops.c, include/cat/archops.h): population counts, logarithms, bit
    reversal, compress, sheep-and-goats and permutations of the bits of a word.
  \<^item> \<open>ArrayHeap\<close> (include/cat/heap.h): the priority queue; locale \<open>priority_queue\<close>.
  \<^item> \<open>Sort\<close>, \<open>QSort\<close> (src/sort.c): the three simple sorts, the non-recursive quicksort with its
    explicit stack, and sorting through an array of pointers; locale \<open>array_sorter\<close>.
  \<^item> \<open>CString\<close> (src/catlibc.c, src/raw.c, src/aux.c): memory and string functions, character
    classes, number parsing, blobs and the comparison functions.
  \<^item> \<open>Kmp\<close>, \<open>BoyerMoore\<close> (src/match.c): the two pattern matchers; locale \<open>matcher\<close>.
  \<^item> \<open>Utf8\<close> (src/str.c): the UTF-8 codec and the walks over UTF-8 strings.
  \<^item> \<open>CatList\<close> (include/cat/list.h, src/cb.c): circular doubly linked lists on a heap of nodes,
    their merge sort, and callback lists.
  \<^item> \<open>CatTime\<close> (include/cat/time.h), \<open>DeltaList\<close> (include/cat/dlist.h): time values and the timer
    queue, a list of nodes that keeps the time between neighbours.
  \<^item> \<open>NodeTable\<close>, \<open>Hash\<close> (include/cat/hash.h): the contract of a table of keyed nodes and its
    instance, chained hash tables with back pointers; locales \<open>dictionary\<close>, \<open>hash_keys\<close>.
  \<^item> \<open>BitArray\<close> (include/cat/bitset.h), \<open>Str\<close> (src/str.c): bit sets and character sets (locale
    \<open>bit_array\<close>), bounded copies, the path walker and the parser of IPv6 addresses.
  \<^item> \<open>TreeHeap\<close>, \<open>TreeOps\<close>, \<open>TreeSearch\<close>, \<open>TreeState\<close>: search trees linked through arrays of
    three pointers: what include/cat/avl.h, rbtree.h and splay.h share.  A place in a tree is a
    list of frames from the place up to the root (\<open>plug\<close>), so an assignment of a pointer is a
    local change.  \<open>TreeTable\<close>: what a search tree promises, locale \<open>tree_table\<close>, the second
    instance of \<open>dictionary\<close>.
  \<^item> \<open>Avl\<close>, \<open>AvlTable\<close> (include/cat/avl.h), \<open>Splay\<close>, \<open>SplayTable\<close> (include/cat/splay.h),
    \<open>RbTree\<close>, \<open>RbTable\<close> (include/cat/rbtree.h): the rotations and the operations of AVL trees, splay
    trees and red-black trees, instances of \<open>tree_table\<close>.
  \<^item> \<open>Csv\<close> (src/csv.c): the reader of comma-separated values, a state machine over a character
    source, against a reading of whole texts without buffers.
  \<^item> \<open>Mem\<close> (src/mem.c): the memory manager interface, the array manager and the manager of the
    host's heap; locales \<open>allocator\<close> and \<open>free_allocator\<close>.  \<open>Pool\<close> (include/cat/pool.h): pools of
    items of one size, whose free items are the nodes of a list.
  \<^item> \<open>Grow\<close> (src/grow.c, src/stdcsv.c): arrays grown by doubling, and reading fields and records
    into allocated memory.  \<open>Buffer\<close> (src/buffer.c): growing byte buffers over a manager.
  \<^item> \<open>Emit\<close> (src/emit.c, src/inport.c): output and input streams, the emitter into a string and the
    port that reads one.  \<open>CatStr\<close> (src/catstr.c): strings with a capacity, without the calls that
    allocate or format.

  \<^bold>\<open>What the lemmas show\<close>

  For each component a well-formedness predicate (\<open>ring_inv\<close>, \<open>heap_inv\<close>, \<open>arc4_inv\<close>, \<open>ring\<close> and
  \<open>rings\<close> for lists, \<open>ht_rep\<close> for hash tables, \<open>dl_ok\<close> for timers, \<open>amm_live\<close> and \<open>pool_live\<close> for
  allocators), that every operation keeps
  it, and what the operation does to the abstract value: a byte queue, a multiset, a list of
  nodes, a set of keyed nodes, a list of due times, a set of extents in use.  Algorithms are equal to a reference
  definition: CRC to polynomial division bit by bit, SHA-256 and SipHash to the published
  algorithm, the matchers to the first occurrence, the sorts to sortedness and multiset
  equality, the table of UTF-8 lengths to the count of leading ones, encoding and decoding to
  the identity.  Errors are branches of the models: the properties say when an assertion fails
  or a call does not return, and name the inputs on which the code does something else than its
  comments say.

  \<^bold>\<open>Bounds\<close>

  Array and string lengths are unbounded naturals where the code keeps them in \<open>size_t\<close>; where a
  \<open>size_t\<close> subtraction can wrap (the quicksort stack, \<open>bm_match\<close>, \<open>utf8_nchars\<close>) the wrap is
  written out.  Heap positions are \<open>int\<close>s: sifting down from position 2^30 on is a \<open>Fault\<close>, so the
  heap's theorems are about heaps of at most 2^30 elements.  Times are within 2^60 seconds, the code points of the round trip below 2^31.

  \<^bold>\<open>Not modelled\<close>

  System calls and stdio (io.c, net.c, pspawn.c, uevent.c, err.c, socks5.c), the wrappers around
  \<open>malloc\<close> (emalloc.c, dbgmem.c, stduse.c), formatted output (emit_format.c) and
  everything on \<open>double\<close>: floating-point numbers and variadic arguments have no counterpart here.
  The allocators of dynmem.c and pcache.c, packing, graphs, suffix trees
  and the parsers are left out as well.
\<close>

end
